(* ===== verification/Prelude.thy ===== *)
theory Prelude
  imports Main "HOL-Library.Word"
begin

text \<open>
  Shared vocabulary of the development: bytes, the exception hierarchy of
  \<^verbatim>\<open>common/errors.hpp\<close> as a datatype, results that carry either an error or a
  value, the fixed-width casts of the source, the big-endian byte order every file and
  frame uses, and the list lemmas the components share.
\<close>

unbundle bit_operations_syntax

type_synonym byte = "8 word"

text \<open>
  \<open>Error\<close> is the base class, \<open>IoError\<close> carries its errno, the other two are thrown
  as they are. The message strings are not modelled.
\<close>

datatype error = Error | IoError int | OffsetInvariantViolated | CorruptData

type_synonym 'a result = "error + 'a"

definition ENOENT :: int where
  "ENOENT = 2"

text \<open>
  Sequencing: an exception leaves the enclosing function at once. \<open>require\<close> is the
  early throw of a failed check.
\<close>

definition bind_r :: "'a result \<Rightarrow> ('a \<Rightarrow> 'b result) \<Rightarrow> 'b result" where
  "bind_r m f = (case m of Inl e \<Rightarrow> Inl e | Inr x \<Rightarrow> f x)"

definition require :: "bool \<Rightarrow> error \<Rightarrow> unit result" where
  "require b e = (if b then Inr () else Inl e)"

named_theorems result_simps

lemma bind_r_simps [simp, result_simps]:
  "bind_r (Inl e) f = Inl e"
  "bind_r (Inr x) f = f x"
  by (simp_all add: bind_r_def)

lemma bind_r_Inr_iff [result_simps]:
  "bind_r m f = Inr y \<longleftrightarrow> (\<exists>x. m = Inr x \<and> f x = Inr y)"
  by (cases m) auto

lemma bind_r_Inl_iff:
  "bind_r m f = Inl e \<longleftrightarrow> m = Inl e \<or> (\<exists>x. m = Inr x \<and> f x = Inl e)"
  by (cases m) auto

lemma bind_r_cong [fundef_cong]:
  "m = m' \<Longrightarrow> (\<And>x. m' = Inr x \<Longrightarrow> f x = g x) \<Longrightarrow> bind_r m f = bind_r m' g"
  by (cases m') auto

lemma bind_r_assoc: "bind_r (bind_r m f) g = bind_r m (\<lambda>x. bind_r (f x) g)"
  by (cases m) auto

lemma require_simps [simp, result_simps]:
  "require True e = Inr ()"
  "require False e = Inl e"
  "require b e = Inr u \<longleftrightarrow> b"
  "require b e = Inl e' \<longleftrightarrow> \<not> b \<and> e' = e"
  by (auto simp: require_def)

subsection \<open>Casts\<close>

text \<open>
  A \<open>static_cast\<close> to a signed type of \<open>w\<close> bits, read back as the integer the C++ value
  denotes: the residue modulo \<open>2 ^ w\<close> in the signed range.
\<close>

definition to_i16 :: "int \<Rightarrow> int" where
  "to_i16 x = sint (word_of_int x :: 16 word)"

definition to_i32 :: "int \<Rightarrow> int" where
  "to_i32 x = sint (word_of_int x :: 32 word)"

definition to_i64 :: "int \<Rightarrow> int" where
  "to_i64 x = sint (word_of_int x :: 64 word)"

definition in_i8 :: "int \<Rightarrow> bool" where
  "in_i8 x \<longleftrightarrow> - (2 ^ 7) \<le> x \<and> x < 2 ^ 7"

definition in_i16 :: "int \<Rightarrow> bool" where
  "in_i16 x \<longleftrightarrow> - (2 ^ 15) \<le> x \<and> x < 2 ^ 15"

definition in_i32 :: "int \<Rightarrow> bool" where
  "in_i32 x \<longleftrightarrow> - (2 ^ 31) \<le> x \<and> x < 2 ^ 31"

definition in_i64 :: "int \<Rightarrow> bool" where
  "in_i64 x \<longleftrightarrow> - (2 ^ 63) \<le> x \<and> x < 2 ^ 63"

named_theorems range_simps

declare in_i8_def [range_simps] in_i16_def [range_simps] in_i32_def [range_simps] in_i64_def [range_simps]

lemma sint_word_of_int_range:
  assumes "- (2 ^ (LENGTH('w) - 1)) \<le> x" and "x < 2 ^ (LENGTH('w) - 1)"
  shows "sint (word_of_int x :: 'w::len word) = x"
  using assms by (simp add: sint_uint signed_take_bit_int_eq_self unsigned_of_int signed_take_bit_take_bit)

lemma sint_of_int_i8 [simp]: "in_i8 x \<Longrightarrow> sint (word_of_int x :: 8 word) = x"
  by (rule sint_word_of_int_range) (simp_all add: range_simps)

lemma sint_of_int_i16 [simp]: "in_i16 x \<Longrightarrow> sint (word_of_int x :: 16 word) = x"
  by (rule sint_word_of_int_range) (simp_all add: range_simps)

lemma sint_of_int_i32 [simp]: "in_i32 x \<Longrightarrow> sint (word_of_int x :: 32 word) = x"
  by (rule sint_word_of_int_range) (simp_all add: range_simps)

lemma sint_of_int_i64 [simp]: "in_i64 x \<Longrightarrow> sint (word_of_int x :: 64 word) = x"
  by (rule sint_word_of_int_range) (simp_all add: range_simps)

lemma to_int_id [simp]:
  "in_i16 x \<Longrightarrow> to_i16 x = x"
  "in_i32 x \<Longrightarrow> to_i32 x = x"
  "in_i64 x \<Longrightarrow> to_i64 x = x"
  by (simp_all add: to_i16_def to_i32_def to_i64_def)

lemma in_range_sint [simp]:
  "in_i16 (sint (w :: 16 word))"
  "in_i32 (sint (v :: 32 word))"
  "in_i64 (sint (u :: 64 word))"
  using sint_range_size [of w] sint_range_size [of v] sint_range_size [of u]
  by (auto simp: range_simps word_size)

lemma word_of_int_sint [simp]: "word_of_int (sint w) = (w :: 'w::len word)"
  by simp

lemma unat_bounds:
  "unat (b :: byte) < 256"
  "unat (w :: 32 word) < 4294967296"
  "unat (v :: 64 word) < 18446744073709551616"
  using unsigned_less [of b, where ?'a = nat] unsigned_less [of w, where ?'a = nat]
    unsigned_less [of v, where ?'a = nat] by simp_all

subsection \<open>Big-endian bytes\<close>

text \<open>
  \<open>be_bytes n w\<close> is the low \<open>8 * n\<close> bits of \<open>w\<close>, most significant byte first;
  \<open>be_word\<close> is the accumulation loop \<open>value = (value << 8) | byte\<close>.
\<close>

definition be_bytes :: "nat \<Rightarrow> 'w::len word \<Rightarrow> byte list" where
  "be_bytes n w = map (\<lambda>i. ucast (drop_bit (8 * (n - 1 - i)) w)) [0..<n]"

definition be_word :: "byte list \<Rightarrow> 'w::len word" where
  "be_word bs = foldl (\<lambda>v b. push_bit 8 v OR ucast b) 0 bs"

lemma length_be_bytes [simp]: "length (be_bytes n w) = n"
  by (simp add: be_bytes_def)

lemma be_bytes_Suc: "be_bytes (Suc n) w = be_bytes n (drop_bit 8 w) @ [ucast w]"
proof (rule nth_equalityI)
  fix i assume "i < length (be_bytes (Suc n) w)"
  then have "i < Suc n" by simp
  then show "be_bytes (Suc n) w ! i = (be_bytes n (drop_bit 8 w) @ [ucast w]) ! i"
    by (cases "i = n") (auto simp: be_bytes_def nth_append less_Suc_eq intro!: arg_cong [where f = ucast]
        arg_cong2 [where f = drop_bit])
qed simp

lemma be_word_snoc: "be_word (bs @ [b]) = push_bit 8 (be_word bs) OR ucast b"
  by (simp add: be_word_def)

lemma be_word_Nil [simp]: "be_word [] = 0"
  by (simp add: be_word_def)

lemma be_word_bytes: "be_word (be_bytes n w) = take_bit (8 * n) (w :: 'w::len word)"
proof (induction n arbitrary: w)
  case 0
  show ?case by (simp add: be_bytes_def)
next
  case (Suc n)
  have "be_word (be_bytes (Suc n) w)
      = push_bit 8 (take_bit (8 * n) (drop_bit 8 w)) OR ucast (ucast w :: byte)"
    by (simp add: be_bytes_Suc be_word_snoc Suc.IH)
  also have "\<dots> = take_bit (8 * Suc n) w"
    by (rule bit_word_eqI) (auto simp: bit_simps)
  finally show ?case .
qed

lemma be_word_bytes_16 [simp]: "be_word (be_bytes 2 (w :: 16 word)) = w"
  by (simp add: be_word_bytes take_bit_word_eq_self)

lemma be_word_bytes_32 [simp]: "be_word (be_bytes 4 (w :: 32 word)) = w"
  by (simp add: be_word_bytes take_bit_word_eq_self)

lemma be_word_bytes_64 [simp]: "be_word (be_bytes 8 (w :: 64 word)) = w"
  by (simp add: be_word_bytes take_bit_word_eq_self)

lemma ucast_byte_up:
  "(ucast (ucast (b :: byte) :: 32 word) :: byte) = b"
  "(ucast (ucast (b :: byte) :: 64 word) :: byte) = b"
  by (rule bit_word_eqI; auto simp: bit_simps dest: bit_imp_le_length)+

subsection \<open>Lists\<close>

lemma take_drop_append_middle:
  "length xs = n \<Longrightarrow> length ys = k \<Longrightarrow> take k (drop n (xs @ ys @ zs)) = ys"
  by simp

lemma nth_take_drop: "n + i < length xs \<Longrightarrow> xs ! (n + i) = drop n xs ! i"
  by simp

text \<open>A predicate that holds of a prefix of a sorted list selects that prefix.\<close>

lemma nth_takeWhile_downward:
  assumes "sorted_wrt R xs" and "\<And>x y. R x y \<Longrightarrow> P y \<Longrightarrow> P x" and "i < length xs"
  shows "P (xs ! i) \<longleftrightarrow> i < length (takeWhile P xs)"
proof
  assume "i < length (takeWhile P xs)"
  then show "P (xs ! i)" by (metis nth_mem set_takeWhileD takeWhile_nth)
next
  assume i: "P (xs ! i)"
  show "i < length (takeWhile P xs)"
  proof (rule ccontr)
    let ?k = "length (takeWhile P xs)"
    assume "\<not> i < ?k"
    then have "?k \<le> i" by simp
    then have "P (xs ! ?k)"
      using assms(2) [OF _ i] sorted_wrt_nth_less [OF assms(1), of ?k i] assms(3) i
      by (cases "?k = i") auto
    moreover have "?k < length xs" using \<open>?k \<le> i\<close> assms(3) by simp
    ultimately show False using nth_length_takeWhile [of P xs] by simp
  qed
qed

lemma filter_takeWhile_downward:
  assumes "sorted_wrt R xs" and "\<And>x y. R x y \<Longrightarrow> P y \<Longrightarrow> P x"
  shows "filter P xs = takeWhile P xs"
  using assms(1)
proof (induction xs)
  case (Cons x xs)
  show ?case
  proof (cases "P x")
    case True
    with Cons show ?thesis by simp
  next
    case False
    with Cons.prems assms(2) show ?thesis by (auto simp: filter_empty_conv)
  qed
qed simp

end
