(* ===== verification/Varint.thy ===== *)
theory Varint
  imports Prelude
begin

text \<open>
  \<^verbatim>\<open>common/varint.cpp\<close>: zigzag mapping and base-128 variable-length integers. The
  encoder and decoder loops are translated with their buffer and length checks; the
  lemmas give the round trip at both widths, the encoded size, and that an accepted
  encoding never loses bits.
\<close>

definition kMaxVarintBytes :: nat where
  "kMaxVarintBytes = 5"

definition kMaxVarlongBytes :: nat where
  "kMaxVarlongBytes = 10"

definition zigzag32 :: "32 word \<Rightarrow> 32 word" where
  "zigzag32 value = push_bit 1 value XOR signed_drop_bit 31 value"

definition zigzag64 :: "64 word \<Rightarrow> 64 word" where
  "zigzag64 value = push_bit 1 value XOR signed_drop_bit 63 value"

definition unzigzag32 :: "32 word \<Rightarrow> 32 word" where
  "unzigzag32 encoded = drop_bit 1 encoded XOR (NOT (encoded AND 1) + 1)"

definition unzigzag64 :: "64 word \<Rightarrow> 64 word" where
  "unzigzag64 encoded = drop_bit 1 encoded XOR (NOT (encoded AND 1) + 1)"

lemma unat_drop_7: "unat (drop_bit 7 w) = unat w div 128"
  unfolding unat_drop_bit_eq by (simp add: drop_bit_eq_div)

lemma drop_bit_7_less: "128 \<le> unat w \<Longrightarrow> unat (drop_bit 7 w) < unat w"
  by (simp add: unat_drop_7)

function base128Size_loop :: "'w::len word \<Rightarrow> nat \<Rightarrow> nat" where
  "base128Size_loop value bs =
     (if 128 \<le> unat value then base128Size_loop (drop_bit 7 value) (bs + 1) else bs)"
  by pat_completeness auto
termination
  by (relation "measure (\<lambda>(v, _). unat v)") (auto simp: drop_bit_7_less)

definition base128Size :: "'w::len word \<Rightarrow> nat" where
  "base128Size value = base128Size_loop value 1"

text \<open>\<open>cap\<close> is \<open>out.size()\<close>, and \<open>out\<close> the bytes written so far.\<close>

function writeBase128 :: "'w::len word \<Rightarrow> nat \<Rightarrow> byte list \<Rightarrow> byte list result" where
  "writeBase128 value cap out =
     (if 128 \<le> unat value then
        (if cap \<le> length out then Inl Error
         else writeBase128 (drop_bit 7 value) cap (out @ [ucast ((value AND 0x7F) OR 0x80)]))
      else if cap \<le> length out then Inl Error
      else Inr (out @ [ucast value]))"
  by pat_completeness auto
termination
  by (relation "measure (\<lambda>(v, _). unat v)") (auto simp: drop_bit_7_less)

text \<open>
  The decoding loop, with its three refusals: the input ends, the encoding is longer than
  \<open>maxBytes\<close>, or the last byte sets bits the type does not have.
\<close>

function readBase128 ::
  "byte list \<Rightarrow> nat \<Rightarrow> 'w::len word \<Rightarrow> nat \<Rightarrow> nat \<Rightarrow> ('w word \<times> nat) result" where
  "readBase128 inp maxBytes res rd shift =
     (if length inp \<le> rd then Inl CorruptData
      else if maxBytes \<le> rd then Inl CorruptData
      else let b = inp ! rd; payload = b AND 0x7F in
        if shift + 7 > LENGTH('w) \<and>
           (if shift < LENGTH('w) then 2 ^ (LENGTH('w) - shift) else 1) \<le> unat payload
        then Inl CorruptData
        else let res' = res OR push_bit shift (ucast payload) in
          if b AND 0x80 = 0 then Inr (res', rd + 1)
          else readBase128 inp maxBytes res' (rd + 1) (shift + 7))"
  by pat_completeness auto
termination
  by (relation "measure (\<lambda>(inp, _, _, rd, _). length inp - rd)") auto

declare base128Size_loop.simps [simp del] writeBase128.simps [simp del]
  readBase128.simps [simp del]

definition varintSize :: "int \<Rightarrow> nat" where
  "varintSize value = base128Size (zigzag32 (word_of_int value))"

definition varlongSize :: "int \<Rightarrow> nat" where
  "varlongSize value = base128Size (zigzag64 (word_of_int value))"

definition encodeVarint :: "int \<Rightarrow> nat \<Rightarrow> byte list result" where
  "encodeVarint value cap = writeBase128 (zigzag32 (word_of_int value)) cap []"

definition encodeVarlong :: "int \<Rightarrow> nat \<Rightarrow> byte list result" where
  "encodeVarlong value cap = writeBase128 (zigzag64 (word_of_int value)) cap []"

definition decodeVarint :: "byte list \<Rightarrow> (int \<times> nat) result" where
  "decodeVarint inp =
     bind_r (readBase128 inp kMaxVarintBytes (0 :: 32 word) 0 0)
       (\<lambda>(encoded, rd). Inr (sint (unzigzag32 encoded), rd))"

definition decodeVarlong :: "byte list \<Rightarrow> (int \<times> nat) result" where
  "decodeVarlong inp =
     bind_r (readBase128 inp kMaxVarlongBytes (0 :: 64 word) 0 0)
       (\<lambda>(encoded, rd). Inr (sint (unzigzag64 encoded), rd))"

subsection \<open>Zigzag\<close>

lemma not_and_one_plus: "NOT (e AND 1) + 1 = (if bit e 0 then - 1 else (0 :: 'w::len word))"
  by (cases "bit e 0") (simp_all add: and_one_eq bit_0 odd_iff_mod_2_eq_one even_iff_mod_2_eq_zero)

lemma unzigzag_zigzag32 [simp]: "unzigzag32 (zigzag32 v) = v"
proof -
  have b0: "bit (zigzag32 v) 0 = bit v 31" by (simp add: zigzag32_def bit_simps del: push_bit_Suc)
  show ?thesis
    unfolding unzigzag32_def not_and_one_plus b0
    by (rule bit_word_eqI, rename_tac n, case_tac "n = 31")
      (auto simp: zigzag32_def bit_simps dest: bit_imp_le_length simp del: push_bit_Suc)
qed

lemma unzigzag_zigzag64 [simp]: "unzigzag64 (zigzag64 v) = v"
proof -
  have b0: "bit (zigzag64 v) 0 = bit v 63" by (simp add: zigzag64_def bit_simps del: push_bit_Suc)
  show ?thesis
    unfolding unzigzag64_def not_and_one_plus b0
    by (rule bit_word_eqI, rename_tac n, case_tac "n = 63")
      (auto simp: zigzag64_def bit_simps dest: bit_imp_le_length simp del: push_bit_Suc)
qed

subsection \<open>Base 128 on numbers\<close>

text \<open>The digits of a number, and the number some digits denote.\<close>

fun base128_bytes :: "nat \<Rightarrow> byte list" where
  "base128_bytes n =
     (if 128 \<le> n then of_nat (take_bit 7 n OR 128) # base128_bytes (n div 128) else [of_nat n])"

declare base128_bytes.simps [simp del]

fun base128_value :: "byte list \<Rightarrow> nat" where
  "base128_value [] = 0"
| "base128_value (b # bs) = unat (b AND 0x7F) + 128 * base128_value bs"

lemma length_base128_bytes_pos: "0 < length (base128_bytes n)"
  by (subst base128_bytes.simps) simp

lemma base128Size_loop_eq:
  "base128Size_loop v n = n + length (base128_bytes (unat v)) - 1"
proof (induction v n rule: base128Size_loop.induct)
  case (1 v n)
  show ?case
  proof (cases "128 \<le> unat v")
    case True
    then have "base128Size_loop v n = base128Size_loop (drop_bit 7 v) (n + 1)"
      by (simp add: base128Size_loop.simps [of v n])
    also have "\<dots> = n + 1 + length (base128_bytes (unat v div 128)) - 1"
      using "1.IH" True by (simp add: unat_drop_7)
    finally show ?thesis
      using True length_base128_bytes_pos [of "unat v div 128"]
      by (simp add: base128_bytes.simps [of "unat v"])
  next
    case False
    then show ?thesis
      by (simp add: base128Size_loop.simps [of v n] base128_bytes.simps [of "unat v"])
  qed
qed

lemma base128Size_eq: "base128Size v = length (base128_bytes (unat v))"
  using length_base128_bytes_pos [of "unat v"] by (simp add: base128Size_def base128Size_loop_eq)

lemma word_consts_7: "(0x7F :: 'w::len word) = mask 7"
  by (simp add: mask_eq_exp_minus_1)

lemma bit_128:
  "bit (128 :: 'w::len word) n \<longleftrightarrow> n = 7 \<and> 7 < LENGTH('w)"
  "bit (128 :: nat) n \<longleftrightarrow> n = 7"
  "bit (128 :: int) n \<longleftrightarrow> n = 7"
proof -
  have "(128 :: 'w word) = 2 ^ 7" "(128 :: nat) = 2 ^ 7" "(128 :: int) = 2 ^ 7" by simp_all
  then show "bit (128 :: 'w::len word) n \<longleftrightarrow> n = 7 \<and> 7 < LENGTH('w)" "bit (128 :: nat) n \<longleftrightarrow> n = 7"
    "bit (128 :: int) n \<longleftrightarrow> n = 7"
    by (auto simp only: bit_exp_iff possible_bit_word possible_bit_nat possible_bit_int)
qed

lemma continuation_byte:
  "(ucast ((v AND 0x7F) OR 0x80) :: byte) = of_nat (take_bit 7 (unat v) OR 128)"
  if "8 \<le> LENGTH('w)" for v :: "'w::len word"
  unfolding word_consts_7 using that
  by (intro bit_word_eqI) (auto simp: bit_simps bit_128)

lemma last_byte: "unat v < 128 \<Longrightarrow> (ucast v :: byte) = of_nat (unat v)"
  by simp

lemma payload_more: "unat ((of_nat (take_bit 7 n OR 128) :: byte) AND 0x7F) = n mod 128"
proof -
  have "(of_nat (take_bit 7 n OR 128) :: byte) AND mask 7 = of_nat (take_bit 7 n)"
    by (rule bit_word_eqI) (auto simp: bit_simps bit_128)
  then show ?thesis
    unfolding word_consts_7 by (simp add: take_bit_eq_mod unsigned_of_nat)
qed

lemma flag_more: "(of_nat (take_bit 7 n OR 128) :: byte) AND 0x80 \<noteq> 0"
proof
  assume "(of_nat (take_bit 7 n OR 128) :: byte) AND 0x80 = 0"
  then have "bit ((of_nat (take_bit 7 n OR 128) :: byte) AND 128) 7 = False"
    unfolding word_consts_7 by simp
  then show False by (simp add: bit_simps bit_128)
qed

lemma payload_last: "n < 128 \<Longrightarrow> unat ((of_nat n :: byte) AND 0x7F) = n"
  unfolding word_consts_7 take_bit_eq_mask [symmetric] unsigned_take_bit_eq
  by (simp add: unsigned_of_nat take_bit_eq_mod)

lemma flag_last: "n < 128 \<Longrightarrow> (of_nat n :: byte) AND 0x80 = 0"
  by (rule bit_word_eqI) (auto simp: bit_simps bit_128 bit_iff_odd [of n])

subsection \<open>Encoding and decoding loops\<close>

lemma writeBase128_eq:
  fixes v :: "'w::len word"
  assumes "8 \<le> LENGTH('w)"
  shows "writeBase128 v cap out =
    (if length out + length (base128_bytes (unat v)) \<le> cap
     then Inr (out @ base128_bytes (unat v)) else Inl Error)"
proof (induction v cap out rule: writeBase128.induct)
  case (1 v cap out)
  show ?case
  proof (cases "128 \<le> unat v \<and> length out < cap")
    case True
    then have "writeBase128 v cap out
        = writeBase128 (drop_bit 7 v) cap (out @ [ucast ((v AND 0x7F) OR 0x80)])"
      by (simp add: writeBase128.simps [of v])
    then show ?thesis
      using "1.IH" True continuation_byte [OF assms, of v]
      by (simp add: unat_drop_7 base128_bytes.simps [of "unat v"])
  next
    case False
    then show ?thesis
      using length_base128_bytes_pos [of "unat v div 128"]
      by (auto simp: writeBase128.simps [of v] base128_bytes.simps [of "unat v"])
  qed
qed

text \<open>One more group of seven bits, where it fits.\<close>

lemma unat_or_push:
  fixes res :: "'w::len word" and p :: byte
  assumes "unat res < 2 ^ s" and "unat p * 2 ^ s < 2 ^ LENGTH('w)"
  shows "unat (res OR push_bit s (ucast p)) = unat res + unat p * 2 ^ s"
proof -
  have p: "unat (push_bit s (ucast p) :: 'w word) = push_bit s (unat p)"
  proof -
    have "unat (push_bit s (ucast p) :: 'w word)
        = take_bit LENGTH('w) (push_bit s (take_bit LENGTH('w) (unat p)))"
      by (simp add: unsigned_push_bit_eq unsigned_ucast_eq)
    also have "take_bit LENGTH('w) (unat p) = unat p"
    proof -
      have "unat p \<le> unat p * 2 ^ s" by simp
      with assms(2) have "unat p < 2 ^ LENGTH('w)" by linarith
      then show ?thesis by (rule take_bit_nat_eq_self)
    qed
    finally show ?thesis using assms(2) by (simp add: push_bit_eq_mult take_bit_nat_eq_self)
  qed
  have "unat res AND push_bit s (unat p) = 0"
  proof (rule bit_eqI)
    fix n
    have "\<not> bit (unat res) n" if "s \<le> n"
    proof -
      have "(2 :: nat) ^ s \<le> 2 ^ n" using that by simp
      with assms(1) have "unat res < 2 ^ n" by linarith
      then show ?thesis by (simp add: bit_iff_odd)
    qed
    then show "bit (unat res AND push_bit s (unat p)) n = bit 0 n"
      by (auto simp: bit_simps)
  qed
  then show ?thesis
    unfolding unsigned_or_eq p by (simp add: disjunctive_add_eq_or [symmetric] push_bit_eq_mult)
qed

lemma readBase128_encoded:
  fixes res :: "'w::len word"
  assumes "unat res < 2 ^ shift" and "unat res + m * 2 ^ shift < 2 ^ LENGTH('w)"
    and "shift = 7 * length pre" and "shift < LENGTH('w)" and "LENGTH('w) \<le> 7 * maxBytes"
  shows "readBase128 (pre @ base128_bytes m @ ys) maxBytes res (length pre) shift
    = Inr (of_nat (unat res + m * 2 ^ shift), length pre + length (base128_bytes m))"
  using assms
proof (induction m arbitrary: pre res shift rule: base128_bytes.induct)
  case (1 m)
  let ?more = "128 \<le> m"
  define b :: byte where "b = (if ?more then of_nat (take_bit 7 m OR 128) else of_nat m)"
  define tl where "tl = (if ?more then base128_bytes (m div 128) else [])"
  let ?inp = "pre @ base128_bytes m @ ys"
  let ?res' = "res OR push_bit shift (ucast (b AND 0x7F)) :: 'w word"
  have split: "base128_bytes m = b # tl"
    unfolding b_def tl_def by (subst base128_bytes.simps) simp
  have pay: "unat (b AND 0x7F) = m mod 128"
    unfolding b_def using payload_more [of m] payload_last [of m] by (cases ?more) simp_all
  have flag: "(b AND 0x80 = 0) = (\<not> ?more)"
    unfolding b_def using flag_more [of m] flag_last [of m] by (cases ?more) simp_all
  have small: "m * 2 ^ shift < 2 ^ LENGTH('w)" using "1.prems" by linarith
  have pow: "(2 :: nat) ^ LENGTH('w) = 2 ^ (LENGTH('w) - shift) * 2 ^ shift"
    using "1.prems"(4) by (simp flip: power_add)
  have m_less: "m < 2 ^ (LENGTH('w) - shift)" using small unfolding pow by simp
  have modle: "m mod 128 * 2 ^ shift \<le> m * 2 ^ shift" by (simp add: mod_less_eq_dividend)
  have res': "unat ?res' = unat res + (m mod 128) * 2 ^ shift"
    using unat_or_push [OF "1.prems"(1), of "b AND 0x7F"] modle small by (simp add: pay)
  have idx: "length pre < maxBytes" using "1.prems" by linarith
  have at: "?inp ! length pre = b" by (simp add: split)
  have len: "\<not> length ?inp \<le> length pre" by (simp add: split)
  have fits: "\<not> (shift + 7 > LENGTH('w) \<and>
      (if shift < LENGTH('w) then 2 ^ (LENGTH('w) - shift) else 1) \<le> unat (b AND 0x7F))"
    using m_less "1.prems"(4) mod_less_eq_dividend [of m 128] by (auto simp: pay)
  have step: "readBase128 ?inp maxBytes res (length pre) shift
      = (if ?more then readBase128 ?inp maxBytes ?res' (length pre + 1) (shift + 7)
         else Inr (?res', length pre + 1))"
    by (subst readBase128.simps) (use idx len fits in \<open>simp only: at flag Let_def if_False not_le [symmetric]\<close>, simp)
  show ?case
  proof (cases ?more)
    case True
    have lt: "shift + 7 < LENGTH('w)"
    proof (rule ccontr)
      assume "\<not> shift + 7 < LENGTH('w)"
      then have "(2 :: nat) ^ (LENGTH('w) - shift) \<le> 2 ^ 7" by (intro power_increasing) auto
      with m_less True show False by simp
    qed
    have sum: "unat ?res' + m div 128 * 2 ^ (shift + 7) = unat res + m * 2 ^ shift"
    proof -
      have "m * 2 ^ shift = (m div 128 * 128 + m mod 128) * 2 ^ shift"
        by (simp only: div_mult_mod_eq)
      also have "\<dots> = m div 128 * 2 ^ (shift + 7) + m mod 128 * 2 ^ shift"
        by (simp only: distrib_right power_add) simp
      finally show ?thesis using res' by simp
    qed
    have bound: "unat ?res' < 2 ^ (shift + 7)"
    proof -
      have "m mod 128 * 2 ^ shift \<le> 127 * 2 ^ shift" by (intro mult_right_mono) simp_all
      moreover have "(2 :: nat) ^ (shift + 7) = 128 * 2 ^ shift" by (simp add: power_add)
      ultimately show ?thesis using res' "1.prems"(1) by linarith
    qed
    have "readBase128 ((pre @ [b]) @ base128_bytes (m div 128) @ ys) maxBytes ?res'
        (length (pre @ [b])) (shift + 7)
      = Inr (of_nat (unat ?res' + m div 128 * 2 ^ (shift + 7)),
             length (pre @ [b]) + length (base128_bytes (m div 128)))"
      by (rule "1.IH" [OF True bound]) (use sum "1.prems" lt in simp_all)
    moreover have "tl = base128_bytes (m div 128)" using True by (simp add: tl_def)
    ultimately show ?thesis using step True sum by (simp add: split)
  next
    case False
    have "?res' = of_nat (unat ?res')" by simp
    then have "?res' = of_nat (unat res + m * 2 ^ shift)" using res' False by simp
    moreover have "tl = []" using False by (simp add: tl_def)
    ultimately show ?thesis using step False by (simp add: split)
  qed
qed

subsection \<open>Round trips\<close>

definition varint_bytes :: "int \<Rightarrow> byte list" where
  "varint_bytes x = base128_bytes (unat (zigzag32 (word_of_int x)))"

definition varlong_bytes :: "int \<Rightarrow> byte list" where
  "varlong_bytes x = base128_bytes (unat (zigzag64 (word_of_int x)))"

lemma length_base128_bytes_bound:
  "n < 2 ^ w \<Longrightarrow> 0 < w \<Longrightarrow> 7 * length (base128_bytes n) < w + 7"
proof (induction n arbitrary: w rule: base128_bytes.induct)
  case (1 n)
  show ?case
  proof (cases "128 \<le> n")
    case True
    have "7 < w"
    proof (rule ccontr)
      assume "\<not> 7 < w"
      then have "(2 :: nat) ^ w \<le> 2 ^ 7" by (intro power_increasing) auto
      with "1.prems" True show False by simp
    qed
    then have "(2 :: nat) ^ w = 2 ^ ((w - 7) + 7)" by simp
    then have "(2 :: nat) ^ w = 2 ^ (w - 7) * 128" by (simp only: power_add) simp
    then have "n div 128 < 2 ^ (w - 7)" using "1.prems"(1) by (simp add: less_mult_imp_div_less)
    then have "7 * length (base128_bytes (n div 128)) < (w - 7) + 7"
      using "1.IH" [OF True, of "w - 7"] \<open>7 < w\<close> by simp
    then show ?thesis using True \<open>7 < w\<close> by (simp add: base128_bytes.simps [of n])
  next
    case False
    then show ?thesis using "1.prems" by (simp add: base128_bytes.simps [of n])
  qed
qed

lemma length_varint_bytes: "length (varint_bytes x) \<le> 5"
  using length_base128_bytes_bound [of "unat (zigzag32 (word_of_int x))" 32]
    unat_bounds(2) [of "zigzag32 (word_of_int x)"]
  by (simp add: varint_bytes_def)

lemma length_varlong_bytes: "length (varlong_bytes x) \<le> 10"
  using length_base128_bytes_bound [of "unat (zigzag64 (word_of_int x))" 64]
    unat_bounds(3) [of "zigzag64 (word_of_int x)"]
  by (simp add: varlong_bytes_def)

lemma encodeVarint_eq: "5 \<le> cap \<Longrightarrow> encodeVarint x cap = Inr (varint_bytes x)"
  using length_varint_bytes [of x]
  by (simp add: encodeVarint_def writeBase128_eq varint_bytes_def)

lemma encodeVarlong_eq: "10 \<le> cap \<Longrightarrow> encodeVarlong x cap = Inr (varlong_bytes x)"
  using length_varlong_bytes [of x]
  by (simp add: encodeVarlong_def writeBase128_eq varlong_bytes_def)

lemma decodeVarint_bytes:
  "in_i32 x \<Longrightarrow> decodeVarint (varint_bytes x @ ys) = Inr (x, length (varint_bytes x))"
  using readBase128_encoded [of "0 :: 32 word" 0 "unat (zigzag32 (word_of_int x))" "[]" 5 ys]
    unat_bounds(2) [of "zigzag32 (word_of_int x)"]
  by (simp add: decodeVarint_def varint_bytes_def kMaxVarintBytes_def)

lemma decodeVarlong_bytes:
  "in_i64 x \<Longrightarrow> decodeVarlong (varlong_bytes x @ ys) = Inr (x, length (varlong_bytes x))"
  using readBase128_encoded [of "0 :: 64 word" 0 "unat (zigzag64 (word_of_int x))" "[]" 10 ys]
    unat_bounds(3) [of "zigzag64 (word_of_int x)"]
  by (simp add: decodeVarlong_def varlong_bytes_def kMaxVarlongBytes_def)

lemma varint_bytes_pos: "0 < length (varint_bytes x)" "0 < length (varlong_bytes x)"
  unfolding varint_bytes_def varlong_bytes_def by (rule length_base128_bytes_pos)+

text \<open>
  Every 32-bit and every 64-bit integer survives encoding and decoding, whatever bytes
  follow it in the buffer; encoding never overflows the scratch buffer the writer gives it,
  the decoder consumes exactly the bytes written, and the predicted size is that count.
\<close>

lemma varint_roundtrip:
  assumes "in_i32 x" and "in_i64 y"
  shows "(\<exists>e. encodeVarint x kMaxVarintBytes = Inr e \<and> length e = varintSize x \<and>
           decodeVarint (e @ rest) = Inr (x, varintSize x)) \<and>
         (\<exists>e. encodeVarlong y kMaxVarlongBytes = Inr e \<and> length e = varlongSize y \<and>
           decodeVarlong (e @ rest) = Inr (y, varlongSize y))"
  using assms
  by (simp_all add: encodeVarint_eq encodeVarlong_eq kMaxVarintBytes_def kMaxVarlongBytes_def
      decodeVarint_bytes decodeVarlong_bytes varintSize_def varlongSize_def base128Size_eq
      flip: varint_bytes_def varlong_bytes_def)

subsection \<open>Decoding keeps every payload bit\<close>

lemma payload_less: "unat ((b :: byte) AND 0x7F) < 128"
  unfolding word_consts_7 take_bit_eq_mask [symmetric] unsigned_take_bit_eq
  using take_bit_nat_less_exp [of 7 "unat b"] by simp

lemma payload_fits:
  fixes p :: nat
  assumes "p < 128" and "\<not> (shift + 7 > w \<and> (if shift < w then 2 ^ (w - shift) else 1) \<le> p)"
  shows "p * 2 ^ shift < 2 ^ w"
proof (cases "shift + 7 \<le> w")
  case True
  have "p * 2 ^ shift < 128 * 2 ^ shift" using assms(1) by simp
  also have "\<dots> = 2 ^ (shift + 7)" by (simp add: power_add)
  also have "\<dots> \<le> 2 ^ w" using True by (intro power_increasing) auto
  finally show ?thesis .
next
  case False
  show ?thesis
  proof (cases "shift < w")
    case True
    with False assms(2) have "p < 2 ^ (w - shift)" by simp
    then have "p * 2 ^ shift < 2 ^ (w - shift) * 2 ^ shift" by simp
    with True show ?thesis by (simp flip: power_add)
  next
    case False
    with assms(2) \<open>\<not> shift + 7 \<le> w\<close> show ?thesis by (cases p) auto
  qed
qed

lemma readBase128_value:
  fixes res :: "'w::len word"
  assumes "readBase128 inp maxBytes res rd shift = Inr (v, n)"
    and "shift = 7 * rd" and "unat res < 2 ^ shift"
  shows "rd < n \<and> n \<le> maxBytes \<and> n \<le> length inp \<and>
    unat v = unat res + 2 ^ shift * base128_value (take (n - rd) (drop rd inp))"
  using assms
proof (induction inp maxBytes res rd shift rule: readBase128.induct)
  case (1 inp maxBytes res rd shift)
  let ?p = "(inp ! rd) AND 0x7F"
  let ?res' = "res OR push_bit shift (ucast ?p)"
  from "1.prems"(1) have ok: "rd < length inp" "rd < maxBytes"
    "\<not> (shift + 7 > LENGTH('w) \<and>
        (if shift < LENGTH('w) then 2 ^ (LENGTH('w) - shift) else 1) \<le> unat ?p)"
    by (auto simp: readBase128.simps [of inp] Let_def split: if_splits)
  have res': "unat ?res' = unat res + unat ?p * 2 ^ shift"
    by (rule unat_or_push [OF "1.prems"(3) payload_fits [OF payload_less ok(3)]])
  have bound: "unat ?res' < 2 ^ (shift + 7)"
  proof -
    have "unat ?p * 2 ^ shift \<le> 127 * 2 ^ shift"
      using payload_less [of "inp ! rd"] by (intro mult_right_mono) simp_all
    moreover have "(2 :: nat) ^ (shift + 7) = 128 * 2 ^ shift" by (simp add: power_add)
    ultimately show ?thesis using res' "1.prems"(3) by linarith
  qed
  have hd: "drop rd inp = inp ! rd # drop (Suc rd) inp" using ok(1) by (rule Cons_nth_drop_Suc [symmetric])
  show ?case
  proof (cases "(inp ! rd) AND 0x80 = 0")
    case True
    then have "v = ?res'" "n = rd + 1"
      using "1.prems"(1) ok by (auto simp: readBase128.simps [of inp] Let_def split: if_splits)
    then show ?thesis using ok res' by (simp add: hd)
  next
    case False
    then have rec: "readBase128 inp maxBytes ?res' (rd + 1) (shift + 7) = Inr (v, n)"
      using "1.prems"(1) ok by (auto simp: readBase128.simps [of inp _ res] Let_def split: if_splits)
    have "rd + 1 < n \<and> n \<le> maxBytes \<and> n \<le> length inp \<and>
        unat v = unat ?res' + 2 ^ (shift + 7) * base128_value (take (n - (rd + 1)) (drop (rd + 1) inp))"
      using ok False bound rec "1.prems"(2) by (intro "1.IH" [OF _ _ refl refl _ refl]) auto
    moreover from this have "take (n - rd) (drop rd inp)
        = inp ! rd # take (n - (rd + 1)) (drop (rd + 1) inp)"
      by (simp add: hd take_Cons' Suc_diff_Suc)
    ultimately show ?thesis using res' by (simp add: power_add algebra_simps)
  qed
qed

text \<open>
  C26. Whatever bytes are given, an accepted encoding stays within the input and within the
  type's maximum length, and the decoded word is exactly the number its payload bits spell:
  an encoding that sets bits the type does not have is refused, never truncated.
\<close>

theorem decodeVarint_no_truncation:
  assumes "decodeVarint inp = Inr (x, n)"
  shows "0 < n \<and> n \<le> kMaxVarintBytes \<and> n \<le> length inp \<and>
    base128_value (take n inp) < 2 ^ 32 \<and>
    x = sint (unzigzag32 (of_nat (base128_value (take n inp))))"
proof -
  from assms obtain e where e: "readBase128 inp kMaxVarintBytes (0 :: 32 word) 0 0 = Inr (e, n)"
    and x: "x = sint (unzigzag32 e)"
    by (auto simp: decodeVarint_def bind_r_Inr_iff)
  from readBase128_value [OF e] have *: "0 < n" "n \<le> kMaxVarintBytes" "n \<le> length inp"
    "unat e = base128_value (take n inp)" by simp_all
  have "e = of_nat (base128_value (take n inp))" by (simp flip: *(4))
  with * x unat_bounds(2) [of e] show ?thesis by simp
qed

theorem decodeVarint_no_truncation_witness:
  "0 < (2 :: nat) \<and> 2 \<le> kMaxVarintBytes \<and> 2 \<le> length [0xD7, 0x04, 0x09 :: byte] \<and>
    base128_value (take 2 [0xD7, 0x04, 0x09]) < 2 ^ 32 \<and>
    (- 300 :: int) = sint (unzigzag32 (of_nat (base128_value (take 2 [0xD7, 0x04, 0x09]))))"
proof (rule decodeVarint_no_truncation)
  show "decodeVarint [0xD7, 0x04, 0x09] = Inr (- 300, 2)" by code_simp
qed

end
