(* ===== verification/Buffer.thy ===== *)
theory Buffer
  imports Varint
begin

text \<open>
  \<^verbatim>\<open>common/buffer.cpp\<close>: the sequential reader and writer every codec is built on. A
  reader is the borrowed bytes and a position; a writer is the bytes written and the flag
  that \<open>take\<close> sets. The locale \<open>codec\<close> is the contract a matching pair of encoder and
  decoder keeps, interpreted here for the fixed-width and variable-length integers.
\<close>

subsection \<open>BufferReader\<close>

record reader =
  rd_bytes :: "byte list"
  rd_pos :: nat

definition reader_of :: "byte list \<Rightarrow> reader" where
  "reader_of bs = \<lparr>rd_bytes = bs, rd_pos = 0\<rparr>"

definition remaining :: "reader \<Rightarrow> nat" where
  "remaining r = length (rd_bytes r) - rd_pos r"

definition reader_empty :: "reader \<Rightarrow> bool" where
  "reader_empty r \<longleftrightarrow> remaining r = 0"

definition require_bytes :: "reader \<Rightarrow> nat \<Rightarrow> unit result" where
  "require_bytes r count = require (\<not> remaining r < count) CorruptData"

definition readInt8 :: "reader \<Rightarrow> (int \<times> reader) result" where
  "readInt8 r = bind_r (require_bytes r 1) (\<lambda>_.
     Inr (sint (rd_bytes r ! rd_pos r), r\<lparr>rd_pos := rd_pos r + 1\<rparr>))"

definition readInt16 :: "reader \<Rightarrow> (int \<times> reader) result" where
  "readInt16 r = bind_r (require_bytes r 2) (\<lambda>_.
     let high = ucast (rd_bytes r ! rd_pos r) :: 16 word;
         low = ucast (rd_bytes r ! (rd_pos r + 1)) :: 16 word
     in Inr (sint (push_bit 8 high OR low), r\<lparr>rd_pos := rd_pos r + 2\<rparr>))"

definition readUint32 :: "reader \<Rightarrow> (32 word \<times> reader) result" where
  "readUint32 r = bind_r (require_bytes r 4) (\<lambda>_.
     Inr (foldl (\<lambda>value i. push_bit 8 value OR ucast (rd_bytes r ! (rd_pos r + i))) 0 [0..<4],
          r\<lparr>rd_pos := rd_pos r + 4\<rparr>))"

definition readInt32 :: "reader \<Rightarrow> (int \<times> reader) result" where
  "readInt32 r = bind_r (readUint32 r) (\<lambda>(value, r'). Inr (sint value, r'))"

definition readInt64 :: "reader \<Rightarrow> (int \<times> reader) result" where
  "readInt64 r = bind_r (require_bytes r 8) (\<lambda>_.
     let value = foldl (\<lambda>value i. push_bit 8 value OR ucast (rd_bytes r ! (rd_pos r + i)))
                   (0 :: 64 word) [0..<8]
     in Inr (sint value, r\<lparr>rd_pos := rd_pos r + 8\<rparr>))"

definition readVarint :: "reader \<Rightarrow> (int \<times> reader) result" where
  "readVarint r = bind_r (decodeVarint (drop (rd_pos r) (rd_bytes r))) (\<lambda>(value, n).
     Inr (value, r\<lparr>rd_pos := rd_pos r + n\<rparr>))"

definition readVarlong :: "reader \<Rightarrow> (int \<times> reader) result" where
  "readVarlong r = bind_r (decodeVarlong (drop (rd_pos r) (rd_bytes r))) (\<lambda>(value, n).
     Inr (value, r\<lparr>rd_pos := rd_pos r + n\<rparr>))"

definition readBytes :: "nat \<Rightarrow> reader \<Rightarrow> (byte list \<times> reader) result" where
  "readBytes count r = bind_r (require_bytes r count) (\<lambda>_.
     Inr (take count (drop (rd_pos r) (rd_bytes r)), r\<lparr>rd_pos := rd_pos r + count\<rparr>))"

definition readArrayLength :: "reader \<Rightarrow> (int \<times> reader) result" where
  "readArrayLength r = bind_r (readInt32 r) (\<lambda>(len, r').
     bind_r (require (\<not> len < - 1) CorruptData) (\<lambda>_. Inr (len, r')))"

definition skip :: "nat \<Rightarrow> reader \<Rightarrow> reader result" where
  "skip count r = bind_r (require_bytes r count) (\<lambda>_. Inr (r\<lparr>rd_pos := rd_pos r + count\<rparr>))"

subsection \<open>BufferWriter\<close>

record writer =
  wr_bytes :: "byte list"
  wr_taken :: bool

definition new_writer :: writer where
  "new_writer = \<lparr>wr_bytes = [], wr_taken = False\<rparr>"

definition requireLive :: "writer \<Rightarrow> unit result" where
  "requireLive w = require (\<not> wr_taken w) Error"

definition view :: "writer \<Rightarrow> byte list result" where
  "view w = bind_r (requireLive w) (\<lambda>_. Inr (wr_bytes w))"

text \<open>The moved-from buffer is left empty, and the writer spent.\<close>

definition take_writer :: "writer \<Rightarrow> (byte list \<times> writer) result" where
  "take_writer w = bind_r (requireLive w) (\<lambda>_.
     Inr (wr_bytes w, \<lparr>wr_bytes = [], wr_taken = True\<rparr>))"

definition push_back :: "byte list \<Rightarrow> writer \<Rightarrow> writer" where
  "push_back bs w = w\<lparr>wr_bytes := wr_bytes w @ bs\<rparr>"

definition writeInt8 :: "int \<Rightarrow> writer \<Rightarrow> writer result" where
  "writeInt8 value w = bind_r (requireLive w) (\<lambda>_. Inr (push_back [word_of_int value] w))"

definition writeInt16 :: "int \<Rightarrow> writer \<Rightarrow> writer result" where
  "writeInt16 value w = bind_r (requireLive w) (\<lambda>_.
     let raw = word_of_int value :: 16 word
     in Inr (push_back [ucast (drop_bit 8 raw), ucast raw] w))"

definition writeUint32 :: "32 word \<Rightarrow> writer \<Rightarrow> writer result" where
  "writeUint32 value w = bind_r (requireLive w) (\<lambda>_.
     Inr (push_back [ucast (drop_bit 24 value), ucast (drop_bit 16 value),
                     ucast (drop_bit 8 value), ucast value] w))"

definition writeInt32 :: "int \<Rightarrow> writer \<Rightarrow> writer result" where
  "writeInt32 value w = writeUint32 (word_of_int value) w"

definition writeInt64 :: "int \<Rightarrow> writer \<Rightarrow> writer result" where
  "writeInt64 value w = bind_r (requireLive w) (\<lambda>_.
     let raw = word_of_int value :: 64 word
     in Inr (push_back (map (\<lambda>shift. ucast (drop_bit shift raw)) [56, 48, 40, 32, 24, 16, 8, 0]) w))"

definition writeVarint :: "int \<Rightarrow> writer \<Rightarrow> writer result" where
  "writeVarint value w = bind_r (requireLive w) (\<lambda>_.
     bind_r (encodeVarint value kMaxVarintBytes) (\<lambda>scratch. Inr (push_back scratch w)))"

definition writeVarlong :: "int \<Rightarrow> writer \<Rightarrow> writer result" where
  "writeVarlong value w = bind_r (requireLive w) (\<lambda>_.
     bind_r (encodeVarlong value kMaxVarlongBytes) (\<lambda>scratch. Inr (push_back scratch w)))"

definition writeBytes :: "byte list \<Rightarrow> writer \<Rightarrow> writer result" where
  "writeBytes value w = bind_r (requireLive w) (\<lambda>_. Inr (push_back value w))"

definition requirePatchRange :: "nat \<Rightarrow> nat \<Rightarrow> writer \<Rightarrow> unit result" where
  "requirePatchRange at count w = bind_r (requireLive w) (\<lambda>_.
     require (\<not> at + count > length (wr_bytes w)) Error)"

definition patchUint32 :: "nat \<Rightarrow> 32 word \<Rightarrow> writer \<Rightarrow> writer result" where
  "patchUint32 at value w = bind_r (requirePatchRange at 4 w) (\<lambda>_.
     Inr (w\<lparr>wr_bytes := (wr_bytes w)
       [at := ucast (drop_bit 24 value), at + 1 := ucast (drop_bit 16 value),
        at + 2 := ucast (drop_bit 8 value), at + 3 := ucast value]\<rparr>))"

definition patchInt32 :: "nat \<Rightarrow> int \<Rightarrow> writer \<Rightarrow> writer result" where
  "patchInt32 at value w = patchUint32 at (word_of_int value) w"

subsection \<open>Reading and writing at a position\<close>

text \<open>What a reader still has to give, and a reader moved on by \<open>n\<close> bytes.\<close>

definition rest :: "reader \<Rightarrow> byte list" where
  "rest r = drop (rd_pos r) (rd_bytes r)"

definition advance :: "nat \<Rightarrow> reader \<Rightarrow> reader" where
  "advance n r = r\<lparr>rd_pos := rd_pos r + n\<rparr>"

abbreviation live :: "writer \<Rightarrow> bool" where
  "live w \<equiv> \<not> wr_taken w"

named_theorems codec_simps

lemma rest_reader_of [simp]: "rest (reader_of bs) = bs"
  by (simp add: rest_def reader_of_def)

lemma rest_advance [simp]: "rest (advance n r) = drop n (rest r)"
  by (simp add: rest_def advance_def add.commute)

lemma advance_advance [simp]: "advance m (advance n r) = advance (n + m) r"
  by (simp add: advance_def add.assoc)

lemma advance_0 [simp]: "advance 0 r = r"
  by (simp add: advance_def)

lemma rd_bytes_advance [simp]: "rd_bytes (advance n r) = rd_bytes r"
  by (simp add: advance_def)

lemma rd_pos_advance [simp]: "rd_pos (advance n r) = rd_pos r + n"
  by (simp add: advance_def)

lemma remaining_rest: "remaining r = length (rest r)"
  by (simp add: remaining_def rest_def)

lemma reader_empty_rest: "reader_empty r \<longleftrightarrow> rest r = []"
  by (simp add: reader_empty_def remaining_rest)

lemma require_bytes_rest: "require_bytes r n = require (n \<le> length (rest r)) CorruptData"
  by (simp add: require_bytes_def remaining_rest not_less)

lemma rest_nth: "i < length (rest r) \<Longrightarrow> rd_bytes r ! (rd_pos r + i) = rest r ! i"
  by (simp add: rest_def)

lemma push_back_simps [simp]:
  "wr_bytes (push_back bs w) = wr_bytes w @ bs"
  "wr_taken (push_back bs w) = wr_taken w"
  "push_back bs (push_back cs w) = push_back (cs @ bs) w"
  "push_back [] w = w"
  by (simp_all add: push_back_def)

lemma requireLive_live [simp]: "live w \<Longrightarrow> requireLive w = Inr ()"
  by (simp add: requireLive_def)

lemma new_writer_simps [simp]: "wr_bytes new_writer = []" "wr_taken new_writer = False"
  by (simp_all add: new_writer_def)

lemma be_bytes_2: "be_bytes 2 w = [ucast (drop_bit 8 w), ucast w]"
  by (simp add: be_bytes_def numeral_2_eq_2)

lemma be_bytes_4:
  "be_bytes 4 w = [ucast (drop_bit 24 w), ucast (drop_bit 16 w), ucast (drop_bit 8 w), ucast w]"
  by (simp add: be_bytes_def upt_rec)

lemma be_bytes_8:
  "be_bytes 8 w = map (\<lambda>s. ucast (drop_bit s w)) [56, 48, 40, 32, 24, 16, 8, 0]"
  by (simp add: be_bytes_def upt_rec)

lemma foldl_be_word:
  assumes "n \<le> length (rest r)"
  shows "foldl (\<lambda>value i. push_bit 8 value OR ucast (rd_bytes r ! (rd_pos r + i))) v [0..<n]
    = foldl (\<lambda>value b. push_bit 8 value OR ucast b) v (take n (rest r))"
  using assms
proof (induction n)
  case (Suc n)
  then show ?case by (simp add: take_Suc_conv_app_nth rest_nth)
qed simp

lemma readUint32_rest:
  "readUint32 r = (if 4 \<le> length (rest r) then Inr (be_word (take 4 (rest r)), advance 4 r)
     else Inl CorruptData)"
  by (simp add: readUint32_def require_bytes_rest foldl_be_word be_word_def advance_def)

lemma readInt32_rest:
  "readInt32 r = (if 4 \<le> length (rest r)
     then Inr (sint (be_word (take 4 (rest r)) :: 32 word), advance 4 r) else Inl CorruptData)"
  by (simp add: readInt32_def readUint32_rest)

lemma readInt64_rest:
  "readInt64 r = (if 8 \<le> length (rest r)
     then Inr (sint (be_word (take 8 (rest r)) :: 64 word), advance 8 r) else Inl CorruptData)"
  by (simp add: readInt64_def require_bytes_rest foldl_be_word be_word_def advance_def)

lemma readInt16_rest:
  "readInt16 r = (if 2 \<le> length (rest r)
     then Inr (sint (be_word (take 2 (rest r)) :: 16 word), advance 2 r) else Inl CorruptData)"
proof (cases "2 \<le> length (rest r)")
  case True
  then obtain a b xs where "rest r = a # b # xs"
    by (metis Suc_le_length_iff numeral_2_eq_2)
  with True show ?thesis
    using rest_nth [of 0 r] rest_nth [of 1 r]
    by (simp add: readInt16_def require_bytes_rest advance_def be_word_def Let_def)
qed (simp add: readInt16_def require_bytes_rest)

lemma readInt8_rest:
  "readInt8 r = (if 1 \<le> length (rest r) then Inr (sint (rest r ! 0), advance 1 r)
     else Inl CorruptData)"
  using rest_nth [of 0 r] by (simp add: readInt8_def require_bytes_rest advance_def Suc_le_eq)

lemma readBytes_rest:
  "readBytes n r = (if n \<le> length (rest r) then Inr (take n (rest r), advance n r)
     else Inl CorruptData)"
  by (simp add: readBytes_def require_bytes_rest advance_def rest_def)

lemma skip_rest:
  "skip n r = (if n \<le> length (rest r) then Inr (advance n r) else Inl CorruptData)"
  by (simp add: skip_def require_bytes_rest advance_def)

text \<open>Writing is appending, while the writer is live.\<close>

lemma write_live [codec_simps]:
  assumes "live w"
  shows "writeInt8 x w = Inr (push_back [word_of_int x] w)"
    and "writeInt16 x w = Inr (push_back (be_bytes 2 (word_of_int x :: 16 word)) w)"
    and "writeUint32 u w = Inr (push_back (be_bytes 4 u) w)"
    and "writeInt32 x w = Inr (push_back (be_bytes 4 (word_of_int x :: 32 word)) w)"
    and "writeInt64 x w = Inr (push_back (be_bytes 8 (word_of_int x :: 64 word)) w)"
    and "writeVarint x w = Inr (push_back (varint_bytes x) w)"
    and "writeVarlong x w = Inr (push_back (varlong_bytes x) w)"
    and "writeBytes bs w = Inr (push_back bs w)"
  using assms
  by (simp_all add: writeInt8_def writeInt16_def writeUint32_def writeInt32_def writeInt64_def
      writeVarint_def writeVarlong_def writeBytes_def be_bytes_2 be_bytes_4 be_bytes_8
      encodeVarint_eq encodeVarlong_eq kMaxVarintBytes_def kMaxVarlongBytes_def Let_def)

subsection \<open>Loops\<close>

text \<open>The \<^verbatim>\<open>for\<close> loops of the encoders and decoders: each element in turn, stopping at
the first exception.\<close>

fun write_all :: "('a \<Rightarrow> writer \<Rightarrow> writer result) \<Rightarrow> 'a list \<Rightarrow> writer \<Rightarrow> writer result" where
  "write_all f [] w = Inr w"
| "write_all f (x # xs) w = bind_r (f x w) (write_all f xs)"

fun read_n :: "(reader \<Rightarrow> ('a \<times> reader) result) \<Rightarrow> nat \<Rightarrow> reader \<Rightarrow> ('a list \<times> reader) result" where
  "read_n f 0 r = Inr ([], r)"
| "read_n f (Suc n) r = bind_r (f r) (\<lambda>(x, r'). bind_r (read_n f n r') (\<lambda>(xs, r''). Inr (x # xs, r'')))"

subsection \<open>The contract of an encoder and its decoder\<close>

text \<open>
  A decoder for the byte layout \<open>repr\<close>: from a reader positioned at the layout of an
  admissible value it returns that value and stops right behind it.
\<close>

locale decodable =
  fixes dec :: "reader \<Rightarrow> ('a \<times> reader) result"
    and repr :: "'a \<Rightarrow> byte list"
    and ok :: "'a \<Rightarrow> bool"
  assumes dec_repr: "ok x \<Longrightarrow> rest r = repr x @ ys \<Longrightarrow> dec r = Inr (x, advance (length (repr x)) r)"
begin

definition reprs :: "'a list \<Rightarrow> byte list" where
  "reprs xs = concat (map repr xs)"

lemma reprs_simps [simp]: "reprs [] = []" "reprs (x # xs) = repr x @ reprs xs"
  by (simp_all add: reprs_def)

lemma read_n_reprs:
  "list_all ok xs \<Longrightarrow> rest r = reprs xs @ ys \<Longrightarrow>
    read_n dec (length xs) r = Inr (xs, advance (length (reprs xs)) r)"
proof (induction xs arbitrary: r)
  case (Cons x xs)
  then have "dec r = Inr (x, advance (length (repr x)) r)" by (simp add: dec_repr)
  with Cons show ?case by simp
qed simp

end

text \<open>An encoder that produces that layout on any live writer.\<close>

locale codec = decodable dec repr ok
  for dec :: "reader \<Rightarrow> ('a \<times> reader) result" and repr :: "'a \<Rightarrow> byte list" and ok :: "'a \<Rightarrow> bool" +
  fixes enc :: "'a \<Rightarrow> writer \<Rightarrow> writer result"
  assumes enc_repr: "ok x \<Longrightarrow> live w \<Longrightarrow> enc x w = Inr (push_back (repr x) w)"
begin

lemma write_all_reprs:
  "list_all ok xs \<Longrightarrow> live w \<Longrightarrow> write_all enc xs w = Inr (push_back (reprs xs) w)"
  by (induction xs arbitrary: w) (simp_all add: enc_repr)

lemma enc_then_dec:
  "ok x \<Longrightarrow> \<exists>w. enc x new_writer = Inr w \<and> live w \<and>
    dec (reader_of (wr_bytes w @ ys)) = Inr (x, advance (length (wr_bytes w)) (reader_of (wr_bytes w @ ys)))"
  by (simp add: enc_repr dec_repr [of x _ ys])

end

interpretation int8: codec readInt8 "\<lambda>x. [word_of_int x]" in_i8 writeInt8
  by unfold_locales (simp_all add: codec_simps readInt8_rest)

interpretation int16: codec readInt16 "\<lambda>x. be_bytes 2 (word_of_int x :: 16 word)" in_i16 writeInt16
  by unfold_locales (simp_all add: codec_simps readInt16_rest)

interpretation uint32: codec readUint32 "\<lambda>u. be_bytes 4 u" "\<lambda>_. True" writeUint32
  by unfold_locales (simp_all add: codec_simps readUint32_rest)

interpretation int32: codec readInt32 "\<lambda>x. be_bytes 4 (word_of_int x :: 32 word)" in_i32 writeInt32
  by unfold_locales (simp_all add: codec_simps readInt32_rest)

interpretation int64: codec readInt64 "\<lambda>x. be_bytes 8 (word_of_int x :: 64 word)" in_i64 writeInt64
  by unfold_locales (simp_all add: codec_simps readInt64_rest)

lemma readVarint_bytes:
  "in_i32 x \<Longrightarrow> rest r = varint_bytes x @ ys \<Longrightarrow>
    readVarint r = Inr (x, advance (length (varint_bytes x)) r)"
  by (simp add: readVarint_def decodeVarint_bytes advance_def flip: rest_def)

lemma readVarlong_bytes:
  "in_i64 x \<Longrightarrow> rest r = varlong_bytes x @ ys \<Longrightarrow>
    readVarlong r = Inr (x, advance (length (varlong_bytes x)) r)"
  by (simp add: readVarlong_def decodeVarlong_bytes advance_def flip: rest_def)

interpretation varint: codec readVarint varint_bytes in_i32 writeVarint
  by unfold_locales (simp_all add: codec_simps readVarint_bytes)

interpretation varlong: codec readVarlong varlong_bytes in_i64 writeVarlong
  by unfold_locales (simp_all add: codec_simps readVarlong_bytes)

end
