(* ===== verification/Checksum.thy ===== *)
theory Checksum
  imports Prelude
begin

text \<open>
  \<^verbatim>\<open>common/crc32c.cpp\<close>: the table-driven CRC-32C (Castagnoli) that batches carry. The
  lemmas relate the table to the bit-at-a-time division it was built from, show that a
  checksum can be computed in pieces, and that changing one byte always changes it.
\<close>

definition kReflectedPolynomial :: "32 word" where
  "kReflectedPolynomial = 0x82F63B78"

text \<open>One iteration of the inner loop of \<open>makeTable\<close>.\<close>

definition crc_bit :: "32 word \<Rightarrow> 32 word" where
  "crc_bit crc = (if crc AND 1 \<noteq> 0 then drop_bit 1 crc XOR kReflectedPolynomial else drop_bit 1 crc)"

definition makeTable :: "32 word list" where
  "makeTable = map (\<lambda>i. (crc_bit ^^ 8) (of_nat i)) [0..<256]"

definition kTable :: "32 word list" where
  "kTable = makeTable"

definition crc32cInit :: "32 word" where
  "crc32cInit = 0xFFFFFFFF"

text \<open>The loop body of \<open>crc32cUpdate\<close>: \<open>kTable[(crc ^ byte) & 0xFF] ^ (crc >> 8)\<close>.\<close>

definition crc32c_byte :: "32 word \<Rightarrow> byte \<Rightarrow> 32 word" where
  "crc32c_byte crc b = kTable ! unat ((crc XOR ucast b) AND 0xFF) XOR drop_bit 8 crc"

definition crc32cUpdate :: "32 word \<Rightarrow> byte list \<Rightarrow> 32 word" where
  "crc32cUpdate crc data = foldl crc32c_byte crc data"

definition crc32cFinish :: "32 word \<Rightarrow> 32 word" where
  "crc32cFinish crc = crc XOR 0xFFFFFFFF"

definition crc32c :: "byte list \<Rightarrow> 32 word" where
  "crc32c data = crc32cFinish (crc32cUpdate crc32cInit data)"

subsection \<open>The bit-at-a-time reference\<close>

text \<open>
  Polynomial division one bit at a time, with no table: the byte enters at the low end
  and eight single-bit steps shift it out.
\<close>

definition crc_ref_byte :: "32 word \<Rightarrow> byte \<Rightarrow> 32 word" where
  "crc_ref_byte crc b = (crc_bit ^^ 8) (crc XOR ucast b)"

definition crc_ref :: "byte list \<Rightarrow> 32 word" where
  "crc_ref data = NOT (foldl crc_ref_byte (NOT 0) data)"

lemma and_1_neq_0: "(w :: 32 word) AND 1 \<noteq> 0 \<longleftrightarrow> bit w 0"
  by (simp add: and_one_eq bit_0 odd_iff_mod_2_eq_one)

lemma crc_bit_alt:
  "crc_bit w = drop_bit 1 w XOR (if bit w 0 then kReflectedPolynomial else 0)"
  by (simp add: crc_bit_def and_1_neq_0)

lemma drop_bit_xor_word: "drop_bit n (a XOR b) = drop_bit n a XOR drop_bit n (b :: 32 word)"
  by (rule bit_word_eqI) (simp add: bit_simps)

lemma crc_bit_xor: "crc_bit (a XOR b) = crc_bit a XOR crc_bit b"
  by (cases "bit a 0"; cases "bit b 0")
    (simp_all add: crc_bit_alt drop_bit_xor_word bit_simps xor.assoc xor.commute xor.left_commute)

lemma crc_bits_xor: "(crc_bit ^^ n) (a XOR b) = (crc_bit ^^ n) a XOR (crc_bit ^^ n) b"
  by (induction n) (simp_all add: crc_bit_xor)

lemma crc_bit_low: "\<not> bit w 0 \<Longrightarrow> crc_bit w = drop_bit 1 w"
  by (simp add: crc_bit_alt)

lemma crc_bits_high:
  "take_bit n w = 0 \<Longrightarrow> (crc_bit ^^ n) w = drop_bit n (w :: 32 word)"
proof (induction n arbitrary: w)
  case 0
  show ?case by simp
next
  case (Suc n)
  have b0: "\<not> bit w 0"
    using Suc.prems by (metis bit_take_bit_iff bit_0_eq bot_apply zero_less_Suc bot_bool_def)
  have "take_bit n (drop_bit 1 w) = 0"
  proof (rule bit_word_eqI)
    fix i assume "i < LENGTH(32)"
    have "bit (take_bit (Suc n) w) (Suc i) = False" using Suc.prems by simp
    then show "bit (take_bit n (drop_bit 1 w)) i = bit (0 :: 32 word) i"
      by (auto simp: bit_simps)
  qed
  then have "(crc_bit ^^ n) (drop_bit 1 w) = drop_bit n (drop_bit 1 w)" by (rule Suc.IH)
  then show ?case
    using crc_bit_low [OF b0] by (simp add: funpow_Suc_right del: funpow.simps)
qed

lemma word_split_low8: "w = (w AND 0xFF) XOR push_bit 8 (drop_bit 8 (w :: 32 word))"
proof (rule bit_word_eqI)
  fix i assume "i < LENGTH(32)"
  have m: "(0xFF :: 32 word) = mask 8" by (simp add: mask_eq_exp_minus_1)
  show "bit w i = bit ((w AND 0xFF) XOR push_bit 8 (drop_bit 8 w)) i"
    unfolding m using \<open>i < LENGTH(32)\<close> by (auto simp: bit_simps)
qed

lemma low8_bound: "unat ((w :: 32 word) AND 0xFF) < 256"
proof -
  have "w AND 0xFF \<le> 0xFF" by (rule word_and_le1)
  then have "unat (w AND 0xFF) \<le> unat (0xFF :: 32 word)" by (simp only: word_le_nat_alt)
  then show ?thesis by simp
qed

lemma kTable_nth: "n < 256 \<Longrightarrow> kTable ! n = (crc_bit ^^ 8) (of_nat n)"
  by (simp add: kTable_def makeTable_def del: funpow.simps)

lemma crc_bits_low8:
  "(crc_bit ^^ 8) w = kTable ! unat (w AND 0xFF) XOR drop_bit 8 w"
proof -
  have "(crc_bit ^^ 8) w
      = (crc_bit ^^ 8) (w AND 0xFF) XOR (crc_bit ^^ 8) (push_bit 8 (drop_bit 8 w))"
    by (subst word_split_low8) (rule crc_bits_xor)
  moreover have "(crc_bit ^^ 8) (push_bit 8 (drop_bit 8 w)) = drop_bit 8 w"
  proof -
    have "take_bit 8 (push_bit 8 (drop_bit 8 w)) = 0"
      by (rule bit_word_eqI) (auto simp: bit_simps)
    then have "(crc_bit ^^ 8) (push_bit 8 (drop_bit 8 w)) = drop_bit 8 (push_bit 8 (drop_bit 8 w))"
      by (rule crc_bits_high)
    also have "\<dots> = drop_bit 8 w"
      by (rule bit_word_eqI) (auto simp: bit_simps dest: bit_imp_le_length)
    finally show ?thesis .
  qed
  moreover have "kTable ! unat (w AND 0xFF) = (crc_bit ^^ 8) (w AND 0xFF)"
    using kTable_nth [OF low8_bound] by simp
  ultimately show ?thesis by simp
qed

lemma drop8_ucast_byte: "drop_bit 8 (ucast (b :: byte) :: 32 word) = 0"
  by (rule bit_word_eqI) (auto simp: bit_simps dest: bit_imp_le_length)

lemma crc32c_byte_ref: "crc32c_byte crc b = crc_ref_byte crc b"
  by (simp add: crc32c_byte_def crc_ref_byte_def crc_bits_low8 drop_bit_xor_word drop8_ucast_byte
      del: funpow.simps)

text \<open>
  C25. The table-driven loop computes the same checksum as dividing by the polynomial one
  bit at a time, on every input: the 256-entry table is an optimisation and nothing more.
\<close>

theorem crc32c_eq_reference: "crc32c data = crc_ref data"
proof -
  have step: "foldl crc32c_byte c data = foldl crc_ref_byte c data" for c
    by (induction data arbitrary: c) (simp_all add: crc32c_byte_ref)
  have ones: "(0xFFFFFFFF :: 32 word) = NOT 0" by simp
  have "crc32c data = foldl crc_ref_byte (NOT 0) data XOR NOT 0"
    by (simp only: crc32c_def crc32cFinish_def crc32cUpdate_def crc32cInit_def ones step)
  also have "\<dots> = NOT (foldl crc_ref_byte (NOT 0) data)"
    by (rule bit_word_eqI) (simp add: bit_simps)
  finally show ?thesis by (simp only: crc_ref_def)
qed

subsection \<open>Checksums in pieces, and error detection\<close>

lemma crc32cUpdate_append:
  "crc32cUpdate crc (xs @ ys) = crc32cUpdate (crc32cUpdate crc xs) ys"
  by (simp add: crc32cUpdate_def)

lemma bit_polynomial_top: "bit kReflectedPolynomial 31"
  by (simp add: kReflectedPolynomial_def)

lemma crc_bit_zero: "crc_bit w = 0 \<Longrightarrow> w = 0"
proof -
  assume z: "crc_bit w = 0"
  have "\<not> bit w 0"
  proof
    assume "bit w 0"
    then have "bit (crc_bit w) 31"
      using bit_polynomial_top by (auto simp: crc_bit_alt bit_simps dest: bit_imp_le_length)
    with z show False by simp
  qed
  moreover have "drop_bit 1 w = 0" using z calculation by (simp add: crc_bit_alt)
  ultimately show "w = 0"
  proof -
    assume n0: "\<not> bit w 0" and d: "drop_bit 1 w = 0"
    show "w = 0"
    proof (rule bit_word_eqI)
      fix i assume "i < LENGTH(32)"
      show "bit w i = bit 0 i"
      proof (cases i)
        case 0
        with n0 show ?thesis by simp
      next
        case (Suc j)
        have "bit (drop_bit 1 w) j = False" using d by simp
        with Suc show ?thesis by (simp add: bit_simps)
      qed
    qed
  qed
qed

lemma xor_cancel_left: "(c :: 32 word) XOR a = c XOR b \<Longrightarrow> a = b"
proof -
  assume "c XOR a = c XOR b"
  then have "c XOR (c XOR a) = c XOR (c XOR b)" by simp
  then show "a = b" by (simp only: xor.assoc [symmetric] xor_self_eq xor.left_neutral)
qed

lemma xor_cancel_right: "a XOR (c :: 32 word) = b XOR c \<Longrightarrow> a = b"
  by (rule xor_cancel_left [of c]) (simp add: xor.commute)

lemma xor_eq_0: "a XOR b = (0 :: 32 word) \<Longrightarrow> a = b"
  by (rule xor_cancel_right [of _ b]) simp

lemma crc_bits_inj: "(crc_bit ^^ n) a = (crc_bit ^^ n) b \<Longrightarrow> a = b"
proof -
  have zero: "(crc_bit ^^ n) w = 0 \<Longrightarrow> w = 0" for w
    by (induction n) (auto dest: crc_bit_zero)
  assume "(crc_bit ^^ n) a = (crc_bit ^^ n) b"
  then have "(crc_bit ^^ n) (a XOR b) = 0" by (simp add: crc_bits_xor)
  then have "a XOR b = 0" by (rule zero)
  then show "a = b" by (rule xor_eq_0)
qed

lemma crc32cUpdate_inj: "crc32cUpdate a xs = crc32cUpdate b xs \<Longrightarrow> a = b"
proof (induction xs arbitrary: a b)
  case Nil
  then show ?case by (simp add: crc32cUpdate_def)
next
  case (Cons x xs)
  from Cons.prems have "crc32cUpdate (crc32c_byte a x) xs = crc32cUpdate (crc32c_byte b x) xs"
    by (simp add: crc32cUpdate_def)
  then have "crc32c_byte a x = crc32c_byte b x" by (rule Cons.IH)
  then have "a XOR ucast x = b XOR ucast x"
    unfolding crc32c_byte_ref crc_ref_byte_def by (rule crc_bits_inj)
  then show ?case by (rule xor_cancel_right)
qed

text \<open>
  Whatever the surrounding bytes are, replacing one byte of the covered region by a
  different one gives a different checksum, so a single damaged byte is always noticed.
\<close>

lemma crc32c_byte_change:
  assumes "a \<noteq> b"
  shows "crc32c (xs @ [a] @ ys) \<noteq> crc32c (xs @ [b] @ ys)"
proof
  assume eq: "crc32c (xs @ [a] @ ys) = crc32c (xs @ [b] @ ys)"
  let ?c = "crc32cUpdate crc32cInit xs"
  from eq have "crc32cUpdate crc32cInit (xs @ [a] @ ys) = crc32cUpdate crc32cInit (xs @ [b] @ ys)"
    unfolding crc32c_def crc32cFinish_def by (rule xor_cancel_right)
  then have "crc32cUpdate (crc32cUpdate ?c [a]) ys = crc32cUpdate (crc32cUpdate ?c [b]) ys"
    by (simp only: crc32cUpdate_append)
  then have "crc32cUpdate ?c [a] = crc32cUpdate ?c [b]" by (rule crc32cUpdate_inj)
  then have "crc32c_byte ?c a = crc32c_byte ?c b" by (simp add: crc32cUpdate_def)
  then have "?c XOR ucast a = ?c XOR ucast b"
    unfolding crc32c_byte_ref crc_ref_byte_def by (rule crc_bits_inj)
  then have "(ucast a :: 32 word) = ucast b" by (rule xor_cancel_left)
  then have "(ucast (ucast a :: 32 word) :: byte) = ucast (ucast b :: 32 word)" by simp
  then have "a = b" by (simp only: ucast_byte_up)
  with assms show False by contradiction
qed

end
