(* ===== verification/Record_Batch.thy ===== *)
theory Record_Batch
  imports Buffer Checksum
begin

text \<open>
  \<^verbatim>\<open>storage/record_batch.cpp\<close>: Kafka's v2 record batch. Parsing the 61-byte header,
  checking the checksum, decoding the records, stamping the broker's two header fields in
  place, and the builder. The spans of the source are the byte lists they denote.
\<close>

definition kMagicV2 :: int where "kMagicV2 = 2"
definition kBatchHeaderSize :: nat where "kBatchHeaderSize = 61"
definition field_kBaseOffset :: nat where "field_kBaseOffset = 0"
definition field_kBatchLength :: nat where "field_kBatchLength = 8"
definition field_kPartitionLeaderEpoch :: nat where "field_kPartitionLeaderEpoch = 12"
definition field_kAttributes :: nat where "field_kAttributes = 21"
definition kBytesBeforeBatchLengthCounted :: nat where "kBytesBeforeBatchLengthCounted = 12"
definition kCrcCoverageStart :: nat where "kCrcCoverageStart = field_kAttributes"
definition kCompressionMask :: "16 word" where "kCompressionMask = 0x07"
definition kNullLength :: int where "kNullLength = - 1"
definition kNoEpoch :: int where "kNoEpoch = - 1"

named_theorems batch_consts

declare kMagicV2_def [batch_consts] kBatchHeaderSize_def [batch_consts]
  field_kBaseOffset_def [batch_consts] field_kBatchLength_def [batch_consts]
  field_kPartitionLeaderEpoch_def [batch_consts] field_kAttributes_def [batch_consts]
  kBytesBeforeBatchLengthCounted_def [batch_consts] kCrcCoverageStart_def [batch_consts]
  kNullLength_def [batch_consts] kNoEpoch_def [batch_consts]

record record_header =
  hd_key :: "byte list"
  hd_value :: "byte list option"

record record_data =
  rec_offsetDelta :: int
  rec_timestampDelta :: int
  rec_key :: "byte list option"
  rec_value :: "byte list option"
  rec_headers :: "record_header list"
  rec_attributes :: int

definition offsetFrom :: "record_data \<Rightarrow> int \<Rightarrow> int" where
  "offsetFrom rec base = base + rec_offsetDelta rec"

definition timestampFrom :: "record_data \<Rightarrow> int \<Rightarrow> int" where
  "timestampFrom rec firstTimestamp = firstTimestamp + rec_timestampDelta rec"

record batch_header =
  bh_baseOffset :: int
  bh_batchLength :: int
  bh_partitionLeaderEpoch :: int
  bh_magic :: int
  bh_crc :: "32 word"
  bh_attributes :: int
  bh_lastOffsetDelta :: int
  bh_firstTimestamp :: int
  bh_maxTimestamp :: int
  bh_producerId :: int
  bh_producerEpoch :: int
  bh_baseSequence :: int
  bh_recordCount :: int

text \<open>The codec number in attribute bits 0 to 2; zero is \<^verbatim>\<open>Compression::None\<close>.\<close>

definition compression :: "batch_header \<Rightarrow> nat" where
  "compression h = unat ((word_of_int (bh_attributes h) :: 16 word) AND kCompressionMask)"

definition lastOffset :: "batch_header \<Rightarrow> int" where
  "lastOffset h = bh_baseOffset h + bh_lastOffsetDelta h"

definition totalSize :: "batch_header \<Rightarrow> nat" where
  "totalSize h = nat (bh_batchLength h) + kBytesBeforeBatchLengthCounted"

subsection \<open>Parsing\<close>

definition requireAtLeast :: "byte list \<Rightarrow> nat \<Rightarrow> unit result" where
  "requireAtLeast bs needed = require (\<not> length bs < needed) CorruptData"

definition parseHeader :: "byte list \<Rightarrow> batch_header result" where
  "parseHeader bs =
    bind_r (requireAtLeast bs kBatchHeaderSize) (\<lambda>_.
    bind_r (readInt64 (reader_of bs)) (\<lambda>(baseOffset, r).
    bind_r (readInt32 r) (\<lambda>(batchLength, r).
    bind_r (readInt32 r) (\<lambda>(partitionLeaderEpoch, r).
    bind_r (readInt8 r) (\<lambda>(magic, r).
    bind_r (require (magic = kMagicV2) CorruptData) (\<lambda>_.
    bind_r (readUint32 r) (\<lambda>(crc, r).
    bind_r (readInt16 r) (\<lambda>(attributes, r).
    bind_r (readInt32 r) (\<lambda>(lastOffsetDelta, r).
    bind_r (readInt64 r) (\<lambda>(firstTimestamp, r).
    bind_r (readInt64 r) (\<lambda>(maxTimestamp, r).
    bind_r (readInt64 r) (\<lambda>(producerId, r).
    bind_r (readInt16 r) (\<lambda>(producerEpoch, r).
    bind_r (readInt32 r) (\<lambda>(baseSequence, r).
    bind_r (readInt32 r) (\<lambda>(recordCount, r).
    bind_r (require (\<not> recordCount < 0) CorruptData) (\<lambda>_.
    bind_r (require (\<not> batchLength < 0) CorruptData) (\<lambda>_.
      Inr \<lparr>bh_baseOffset = baseOffset, bh_batchLength = batchLength,
           bh_partitionLeaderEpoch = partitionLeaderEpoch, bh_magic = magic, bh_crc = crc,
           bh_attributes = attributes, bh_lastOffsetDelta = lastOffsetDelta,
           bh_firstTimestamp = firstTimestamp, bh_maxTimestamp = maxTimestamp,
           bh_producerId = producerId, bh_producerEpoch = producerEpoch,
           bh_baseSequence = baseSequence, bh_recordCount = recordCount\<rparr>)))))))))))))))))"

definition totalSizeOf :: "byte list \<Rightarrow> nat result" where
  "totalSizeOf bs =
    bind_r (requireAtLeast bs kBytesBeforeBatchLengthCounted) (\<lambda>_.
    bind_r (skip field_kBatchLength (reader_of bs)) (\<lambda>r.
    bind_r (readInt32 r) (\<lambda>(batchLength, _).
    bind_r (require (\<not> batchLength < int (kBatchHeaderSize - kBytesBeforeBatchLengthCounted))
              CorruptData) (\<lambda>_.
      Inr (nat batchLength + kBytesBeforeBatchLengthCounted)))))"

definition computeCrc :: "byte list \<Rightarrow> 32 word result" where
  "computeCrc bs =
    bind_r (totalSizeOf bs) (\<lambda>total.
    bind_r (requireAtLeast bs total) (\<lambda>_.
      Inr (crc32c (take (total - kCrcCoverageStart) (drop kCrcCoverageStart bs)))))"

definition verifyCrc :: "byte list \<Rightarrow> bool result" where
  "verifyCrc bs =
    bind_r (parseHeader bs) (\<lambda>header.
    bind_r (computeCrc bs) (\<lambda>crc. Inr (crc = bh_crc header)))"

definition readNullableBytes :: "reader \<Rightarrow> (byte list option \<times> reader) result" where
  "readNullableBytes r =
    bind_r (readVarint r) (\<lambda>(len, r).
      if len = kNullLength then Inr (None, r)
      else bind_r (require (\<not> len < 0) CorruptData) (\<lambda>_.
           bind_r (readBytes (nat len) r) (\<lambda>(bs, r). Inr (Some bs, r))))"

text \<open>The bodies of the two decoding loops of \<open>decodeRecords\<close>.\<close>

definition readRecordHeader :: "reader \<Rightarrow> (record_header \<times> reader) result" where
  "readRecordHeader r =
    bind_r (readVarint r) (\<lambda>(keyLength, r).
    bind_r (require (\<not> keyLength < 0) CorruptData) (\<lambda>_.
    bind_r (readBytes (nat keyLength) r) (\<lambda>(key, r).
    bind_r (readNullableBytes r) (\<lambda>(value, r).
      Inr (\<lparr>hd_key = key, hd_value = value\<rparr>, r)))))"

definition readRecord :: "reader \<Rightarrow> (record_data \<times> reader) result" where
  "readRecord r =
    bind_r (readVarint r) (\<lambda>(recordLength, r).
    bind_r (require (\<not> recordLength < 0) CorruptData) (\<lambda>_.
    let recordEnd = rd_pos r + nat recordLength in
    bind_r (readInt8 r) (\<lambda>(attributes, r).
    bind_r (readVarlong r) (\<lambda>(timestampDelta, r).
    bind_r (readVarint r) (\<lambda>(offsetDelta, r).
    bind_r (readNullableBytes r) (\<lambda>(key, r).
    bind_r (readNullableBytes r) (\<lambda>(value, r).
    bind_r (readVarint r) (\<lambda>(headerCount, r).
    bind_r (require (\<not> headerCount < 0) CorruptData) (\<lambda>_.
    bind_r (read_n readRecordHeader (nat headerCount) r) (\<lambda>(headers, r).
    bind_r (require (rd_pos r = recordEnd) CorruptData) (\<lambda>_.
      Inr (\<lparr>rec_offsetDelta = offsetDelta, rec_timestampDelta = timestampDelta,
            rec_key = key, rec_value = value, rec_headers = headers,
            rec_attributes = attributes\<rparr>, r))))))))))))"

definition decodeRecords :: "byte list \<Rightarrow> record_data list result" where
  "decodeRecords bs =
    bind_r (parseHeader bs) (\<lambda>header.
    bind_r (require (compression header = 0) Error) (\<lambda>_.
    bind_r (totalSizeOf bs) (\<lambda>total.
    bind_r (requireAtLeast bs total) (\<lambda>_.
    bind_r (read_n readRecord (nat (bh_recordCount header))
             (reader_of (take (total - kBatchHeaderSize) (drop kBatchHeaderSize bs)))) (\<lambda>(records, _).
      Inr records)))))"

subsection \<open>Broker-side stamping\<close>

definition stampBaseOffset :: "byte list \<Rightarrow> int \<Rightarrow> byte list result" where
  "stampBaseOffset bs base =
    bind_r (requireAtLeast bs kBatchHeaderSize) (\<lambda>_.
      let raw = word_of_int base :: 64 word in
      Inr (foldl (\<lambda>bs i. bs[field_kBaseOffset + i := ucast (drop_bit (56 - 8 * i) raw)]) bs [0..<8]))"

definition stampLeaderEpoch :: "byte list \<Rightarrow> int \<Rightarrow> byte list result" where
  "stampLeaderEpoch bs epoch =
    bind_r (requireAtLeast bs kBatchHeaderSize) (\<lambda>_.
      let raw = word_of_int epoch :: 32 word in
      Inr (foldl (\<lambda>bs i. bs[field_kPartitionLeaderEpoch + i := ucast (drop_bit (24 - 8 * i) raw)])
             bs [0..<4]))"

subsection \<open>Building\<close>

definition writeNullableBytes :: "byte list option \<Rightarrow> writer \<Rightarrow> writer result" where
  "writeNullableBytes value w = (case value of
      None \<Rightarrow> writeVarint kNullLength w
    | Some bs \<Rightarrow> bind_r (writeVarint (to_i32 (int (length bs))) w) (writeBytes bs))"

definition writeRecordHeader :: "record_header \<Rightarrow> writer \<Rightarrow> writer result" where
  "writeRecordHeader h w =
    bind_r (writeVarint (to_i32 (int (length (hd_key h)))) w) (\<lambda>w.
    bind_r (writeBytes (hd_key h) w) (\<lambda>w.
      writeNullableBytes (hd_value h) w))"

record builder =
  bl_compression :: nat
  bl_records :: writer
  bl_count :: int
  bl_firstTimestamp :: int
  bl_maxTimestamp :: int
  bl_lastDelta :: int

definition RecordBatchBuilder :: "nat \<Rightarrow> builder" where
  "RecordBatchBuilder codec_no = \<lparr>bl_compression = codec_no, bl_records = new_writer, bl_count = 0,
     bl_firstTimestamp = 0, bl_maxTimestamp = 0, bl_lastDelta = - 1\<rparr>"

text \<open>The scratch encoding of one record, before its length prefix.\<close>

definition encodeRecord ::
  "int \<Rightarrow> int \<Rightarrow> byte list option \<Rightarrow> byte list option \<Rightarrow> record_header list \<Rightarrow> byte list result" where
  "encodeRecord timestampDelta offsetDelta key value headers =
    bind_r (writeInt8 0 new_writer) (\<lambda>w.
    bind_r (writeVarlong timestampDelta w) (\<lambda>w.
    bind_r (writeVarint offsetDelta w) (\<lambda>w.
    bind_r (writeNullableBytes key w) (\<lambda>w.
    bind_r (writeNullableBytes value w) (\<lambda>w.
    bind_r (writeVarint (to_i32 (int (length headers))) w) (\<lambda>w.
    bind_r (write_all writeRecordHeader headers w) (\<lambda>w.
    bind_r (take_writer w) (\<lambda>(encoded, _). Inr encoded))))))))"

definition appendAt ::
  "int \<Rightarrow> int \<Rightarrow> byte list option \<Rightarrow> byte list option \<Rightarrow> record_header list \<Rightarrow> builder \<Rightarrow> builder result" where
  "appendAt offsetDelta timestamp key value headers b =
    bind_r (require (\<not> offsetDelta \<le> bl_lastDelta b) Error) (\<lambda>_.
    let b1 = (if bl_count b = 0
              then b\<lparr>bl_firstTimestamp := timestamp, bl_maxTimestamp := timestamp\<rparr>
              else if timestamp > bl_maxTimestamp b then b\<lparr>bl_maxTimestamp := timestamp\<rparr> else b)
    in
    bind_r (encodeRecord (timestamp - bl_firstTimestamp b1) offsetDelta key value headers) (\<lambda>encoded.
    bind_r (writeVarint (to_i32 (int (length encoded))) (bl_records b1)) (\<lambda>w.
    bind_r (writeBytes encoded w) (\<lambda>w.
      Inr (b1\<lparr>bl_records := w, bl_lastDelta := offsetDelta, bl_count := bl_count b1 + 1\<rparr>)))))"

definition append_record ::
  "int \<Rightarrow> byte list option \<Rightarrow> byte list option \<Rightarrow> record_header list \<Rightarrow> builder \<Rightarrow> builder result" where
  "append_record timestamp key value headers b = appendAt (bl_count b) timestamp key value headers b"

definition build :: "builder \<Rightarrow> byte list result" where
  "build b =
    bind_r (require (\<not> bl_count b = 0) Error) (\<lambda>_.
    bind_r (view (bl_records b)) (\<lambda>body.
    bind_r (writeInt64 0 new_writer) (\<lambda>w.
    let batchLengthAt = length (wr_bytes w) in
    bind_r (writeInt32 0 w) (\<lambda>w.
    bind_r (writeInt32 kNoEpoch w) (\<lambda>w.
    bind_r (writeInt8 kMagicV2 w) (\<lambda>w.
    let crcAt = length (wr_bytes w) in
    bind_r (writeUint32 0 w) (\<lambda>w.
    bind_r (writeInt16 (sint ((of_nat (bl_compression b) :: 16 word) AND kCompressionMask)) w) (\<lambda>w.
    bind_r (writeInt32 (bl_lastDelta b) w) (\<lambda>w.
    bind_r (writeInt64 (bl_firstTimestamp b) w) (\<lambda>w.
    bind_r (writeInt64 (bl_maxTimestamp b) w) (\<lambda>w.
    bind_r (writeInt64 (- 1) w) (\<lambda>w.
    bind_r (writeInt16 (- 1) w) (\<lambda>w.
    bind_r (writeInt32 (- 1) w) (\<lambda>w.
    bind_r (writeInt32 (bl_count b) w) (\<lambda>w.
    bind_r (writeBytes body w) (\<lambda>w.
    bind_r (patchInt32 batchLengthAt
              (to_i32 (int (length (wr_bytes w) - kBytesBeforeBatchLengthCounted))) w) (\<lambda>w.
    bind_r (view w) (\<lambda>written.
    bind_r (patchUint32 crcAt (crc32c (drop kCrcCoverageStart written)) w) (\<lambda>w.
    bind_r (take_writer w) (\<lambda>(out, _). Inr out))))))))))))))))))))"

subsection \<open>The layout of a header\<close>

text \<open>The fields a 61-byte prefix spells, before any check.\<close>

definition field_at :: "nat \<Rightarrow> nat \<Rightarrow> byte list \<Rightarrow> byte list" where
  "field_at n k bs = take k (drop n bs)"

definition header_of :: "byte list \<Rightarrow> batch_header" where
  "header_of bs = \<lparr>bh_baseOffset = sint (be_word (field_at 0 8 bs) :: 64 word),
     bh_batchLength = sint (be_word (field_at 8 4 bs) :: 32 word),
     bh_partitionLeaderEpoch = sint (be_word (field_at 12 4 bs) :: 32 word),
     bh_magic = sint (bs ! 16), bh_crc = be_word (field_at 17 4 bs),
     bh_attributes = sint (be_word (field_at 21 2 bs) :: 16 word),
     bh_lastOffsetDelta = sint (be_word (field_at 23 4 bs) :: 32 word),
     bh_firstTimestamp = sint (be_word (field_at 27 8 bs) :: 64 word),
     bh_maxTimestamp = sint (be_word (field_at 35 8 bs) :: 64 word),
     bh_producerId = sint (be_word (field_at 43 8 bs) :: 64 word),
     bh_producerEpoch = sint (be_word (field_at 51 2 bs) :: 16 word),
     bh_baseSequence = sint (be_word (field_at 53 4 bs) :: 32 word),
     bh_recordCount = sint (be_word (field_at 57 4 bs) :: 32 word)\<rparr>"

lemma field_at_simps [simp]:
  "n + k \<le> m \<Longrightarrow> field_at n k (take m bs) = field_at n k bs"
  "length xs \<le> n \<Longrightarrow> field_at n k (xs @ bs) = field_at (n - length xs) k bs"
  "n + k \<le> length xs \<Longrightarrow> field_at n k (xs @ bs) = field_at n k xs"
  "length xs = k \<Longrightarrow> field_at 0 k xs = xs"
  "length (field_at n k bs) = min k (length bs - n)"
  "0 < n \<Longrightarrow> field_at n k (x # xs) = field_at (n - 1) k xs"
  "field_at n k (drop m bs) = field_at (m + n) k bs"
  by (auto simp: field_at_def take_drop min_def drop_Cons' add.commute)

lemma read_at:
  "n + 8 \<le> length bs \<Longrightarrow> readInt64 (advance n (reader_of bs))
    = Inr (sint (be_word (field_at n 8 bs) :: 64 word), advance (n + 8) (reader_of bs))"
  "n + 4 \<le> length bs \<Longrightarrow> readInt32 (advance n (reader_of bs))
    = Inr (sint (be_word (field_at n 4 bs) :: 32 word), advance (n + 4) (reader_of bs))"
  "n + 4 \<le> length bs \<Longrightarrow> readUint32 (advance n (reader_of bs))
    = Inr (be_word (field_at n 4 bs), advance (n + 4) (reader_of bs))"
  "n + 2 \<le> length bs \<Longrightarrow> readInt16 (advance n (reader_of bs))
    = Inr (sint (be_word (field_at n 2 bs) :: 16 word), advance (n + 2) (reader_of bs))"
  "n + 1 \<le> length bs \<Longrightarrow> readInt8 (advance n (reader_of bs))
    = Inr (sint (bs ! n), advance (n + 1) (reader_of bs))"
  by (simp_all only: readInt64_rest readInt32_rest readUint32_rest readInt16_rest readInt8_rest
      field_at_def rest_advance rest_reader_of advance_advance length_drop) simp_all

lemma parseHeader_alt:
  "parseHeader bs = (if length bs < 61 then Inl CorruptData
     else let h = header_of bs in
       if bh_magic h \<noteq> 2 \<or> bh_recordCount h < 0 \<or> bh_batchLength h < 0 then Inl CorruptData
       else Inr h)"
proof (cases "length bs < 61")
  case True
  then show ?thesis by (simp add: parseHeader_def requireAtLeast_def batch_consts)
next
  case False
  have start: "reader_of bs = advance 0 (reader_of bs)" by simp
  have reads: "n + 8 \<le> 61 \<Longrightarrow> readInt64 (advance n (reader_of bs))
      = Inr (sint (be_word (field_at n 8 bs) :: 64 word), advance (n + 8) (reader_of bs))"
    "n + 4 \<le> 61 \<Longrightarrow> readInt32 (advance n (reader_of bs))
      = Inr (sint (be_word (field_at n 4 bs) :: 32 word), advance (n + 4) (reader_of bs))"
    "n + 4 \<le> 61 \<Longrightarrow> readUint32 (advance n (reader_of bs))
      = Inr (be_word (field_at n 4 bs), advance (n + 4) (reader_of bs))"
    "n + 2 \<le> 61 \<Longrightarrow> readInt16 (advance n (reader_of bs))
      = Inr (sint (be_word (field_at n 2 bs) :: 16 word), advance (n + 2) (reader_of bs))"
    "n + 1 \<le> 61 \<Longrightarrow> readInt8 (advance n (reader_of bs))
      = Inr (sint (bs ! n), advance (n + 1) (reader_of bs))" for n
    using False by (simp_all add: read_at)
  show ?thesis
    unfolding parseHeader_def requireAtLeast_def batch_consts
    apply (subst start)
    using False
    apply (simp add: reads header_of_def Let_def require_def del: advance_0)
    done
qed

lemma totalSizeOf_alt:
  "totalSizeOf bs = (if length bs < 12 then Inl CorruptData
     else let l = bh_batchLength (header_of bs) in
       if l < 49 then Inl CorruptData else Inr (nat l + 12))"
proof (cases "length bs < 12")
  case False
  then have "readInt32 (advance 8 (reader_of bs))
      = Inr (sint (be_word (field_at 8 4 bs) :: 32 word), advance 12 (reader_of bs))"
    using read_at(2) [of 8 bs] by simp
  with False show ?thesis
    by (simp add: totalSizeOf_def requireAtLeast_def batch_consts skip_rest header_of_def Let_def
        require_def)
qed (simp add: totalSizeOf_def requireAtLeast_def batch_consts)

definition header_bytes :: "batch_header \<Rightarrow> byte list" where
  "header_bytes h = be_bytes 8 (word_of_int (bh_baseOffset h) :: 64 word) @
     be_bytes 4 (word_of_int (bh_batchLength h) :: 32 word) @
     be_bytes 4 (word_of_int (bh_partitionLeaderEpoch h) :: 32 word) @
     [word_of_int (bh_magic h)] @ be_bytes 4 (bh_crc h) @
     be_bytes 2 (word_of_int (bh_attributes h) :: 16 word) @
     be_bytes 4 (word_of_int (bh_lastOffsetDelta h) :: 32 word) @
     be_bytes 8 (word_of_int (bh_firstTimestamp h) :: 64 word) @
     be_bytes 8 (word_of_int (bh_maxTimestamp h) :: 64 word) @
     be_bytes 8 (word_of_int (bh_producerId h) :: 64 word) @
     be_bytes 2 (word_of_int (bh_producerEpoch h) :: 16 word) @
     be_bytes 4 (word_of_int (bh_baseSequence h) :: 32 word) @
     be_bytes 4 (word_of_int (bh_recordCount h) :: 32 word)"

definition header_ok :: "batch_header \<Rightarrow> bool" where
  "header_ok h \<longleftrightarrow> in_i64 (bh_baseOffset h) \<and> in_i32 (bh_batchLength h) \<and>
     in_i32 (bh_partitionLeaderEpoch h) \<and> in_i8 (bh_magic h) \<and> in_i16 (bh_attributes h) \<and>
     in_i32 (bh_lastOffsetDelta h) \<and> in_i64 (bh_firstTimestamp h) \<and> in_i64 (bh_maxTimestamp h) \<and>
     in_i64 (bh_producerId h) \<and> in_i16 (bh_producerEpoch h) \<and> in_i32 (bh_baseSequence h) \<and>
     in_i32 (bh_recordCount h)"

lemma length_header_bytes [simp]: "length (header_bytes h) = 61"
  by (simp add: header_bytes_def)

lemma header_of_bytes:
  assumes "header_ok h"
  shows "header_of (header_bytes h @ ys) = h"
  using assms
  by (simp add: header_of_def header_bytes_def header_ok_def nth_append)

lemma header_of_take: "61 \<le> n \<Longrightarrow> header_of (take n bs) = header_of bs"
  by (simp add: header_of_def)

lemma parseHeader_take:
  "61 \<le> n \<Longrightarrow> parseHeader (take n bs) = parseHeader bs"
  by (auto simp: parseHeader_alt header_of_take min_def)

lemma totalSizeOf_take:
  assumes "12 \<le> n" shows "totalSizeOf (take n bs) = totalSizeOf bs"
  using assms by (auto simp: totalSizeOf_alt header_of_def min_def)

lemma parseHeader_InrD:
  assumes "parseHeader bs = Inr h"
  shows "61 \<le> length bs" "h = header_of bs" "bh_magic h = 2" "0 \<le> bh_recordCount h"
    "0 \<le> bh_batchLength h"
  using assms by (auto simp: parseHeader_alt Let_def split: if_splits)

lemma totalSizeOf_InrD:
  assumes "totalSizeOf bs = Inr n"
  shows "12 \<le> length bs" "61 \<le> n" "int n = bh_batchLength (header_of bs) + 12" "n < 2147483660"
proof -
  have "in_i32 (bh_batchLength (header_of bs))" by (simp add: header_of_def)
  then show "12 \<le> length bs" "61 \<le> n" "int n = bh_batchLength (header_of bs) + 12" "n < 2147483660"
    using assms by (auto simp: totalSizeOf_alt Let_def range_simps split: if_splits)
qed

subsection \<open>Stamping\<close>

text \<open>Writing bytes one index at a time is splicing them in.\<close>

lemma foldl_update_splice:
  assumes "k + n \<le> length bs"
  shows "foldl (\<lambda>bs i. bs[k + i := f i]) bs [0..<n] = take k bs @ map f [0..<n] @ drop (k + n) bs"
  using assms
proof (induction n)
  case (Suc n)
  then have "drop (k + n) bs = bs ! (k + n) # drop (Suc (k + n)) bs"
    by (simp add: Cons_nth_drop_Suc)
  with Suc show ?case by (simp add: list_update_append)
qed simp

lemma stampBaseOffset_alt:
  "stampBaseOffset bs base = (if length bs < 61 then Inl CorruptData
     else Inr (be_bytes 8 (word_of_int base :: 64 word) @ drop 8 bs))"
proof (cases "length bs < 61")
  case False
  then have "foldl (\<lambda>bs i. bs[0 + i := ucast (drop_bit (56 - 8 * i) (word_of_int base :: 64 word))]) bs [0..<8]
    = be_bytes 8 (word_of_int base :: 64 word) @ drop 8 bs"
    using foldl_update_splice [of 0 8 bs] by (simp add: be_bytes_def diff_mult_distrib2)
  with False show ?thesis
    by (simp add: stampBaseOffset_def requireAtLeast_def batch_consts Let_def del: add_0)
qed (simp add: stampBaseOffset_def requireAtLeast_def batch_consts)

lemma stampLeaderEpoch_alt:
  "stampLeaderEpoch bs epoch = (if length bs < 61 then Inl CorruptData
     else Inr (take 12 bs @ be_bytes 4 (word_of_int epoch :: 32 word) @ drop 16 bs))"
proof (cases "length bs < 61")
  case False
  then have "foldl (\<lambda>bs i. bs[12 + i := ucast (drop_bit (24 - 8 * i) (word_of_int epoch :: 32 word))]) bs [0..<4]
    = take 12 bs @ be_bytes 4 (word_of_int epoch :: 32 word) @ drop 16 bs"
    using foldl_update_splice [of 12 4 bs] by (simp add: be_bytes_def diff_mult_distrib2)
  with False show ?thesis
    by (simp add: stampLeaderEpoch_def requireAtLeast_def batch_consts Let_def)
qed (simp add: stampLeaderEpoch_def requireAtLeast_def batch_consts)

lemma field_at_stamp:
  "length xs = 8 \<Longrightarrow> 8 \<le> n \<Longrightarrow> field_at n k (xs @ drop 8 bs) = field_at n k bs"
  "length ys = 4 \<Longrightarrow> 16 \<le> length bs \<Longrightarrow> 16 \<le> n \<Longrightarrow>
    field_at n k (take 12 bs @ ys @ drop 16 bs) = field_at n k bs"
  "length ys = 4 \<Longrightarrow> 16 \<le> length bs \<Longrightarrow> n + k \<le> 12 \<Longrightarrow>
    field_at n k (take 12 bs @ ys @ drop 16 bs) = field_at n k bs"
  by (simp_all add: field_at_def min_def take_drop)

lemma header_of_stamp:
  "61 \<le> length bs \<Longrightarrow> in_i64 base \<Longrightarrow>
    header_of (be_bytes 8 (word_of_int base :: 64 word) @ drop 8 bs) = (header_of bs)\<lparr>bh_baseOffset := base\<rparr>"
  "61 \<le> length bs \<Longrightarrow> in_i32 epoch \<Longrightarrow>
    header_of (take 12 bs @ be_bytes 4 (word_of_int epoch :: 32 word) @ drop 16 bs)
      = (header_of bs)\<lparr>bh_partitionLeaderEpoch := epoch\<rparr>"
  by (simp_all add: header_of_def field_at_stamp nth_append)

subsection \<open>The layout of a record\<close>

definition nullable_repr :: "byte list option \<Rightarrow> byte list" where
  "nullable_repr v = (case v of None \<Rightarrow> varint_bytes (- 1)
     | Some bs \<Rightarrow> varint_bytes (int (length bs)) @ bs)"

definition nullable_ok :: "byte list option \<Rightarrow> bool" where
  "nullable_ok v \<longleftrightarrow> (case v of None \<Rightarrow> True | Some bs \<Rightarrow> length bs < 2 ^ 31)"

interpretation nullable: codec readNullableBytes nullable_repr nullable_ok writeNullableBytes
proof unfold_locales
  fix v r ys assume "nullable_ok v" "rest r = nullable_repr v @ ys"
  then show "readNullableBytes r = Inr (v, advance (length (nullable_repr v)) r)"
  proof (cases v)
    case None
    then have "readVarint r = Inr (- 1, advance (length (varint_bytes (- 1))) r)"
      using \<open>rest r = _\<close> by (intro readVarint_bytes [of _ _ ys]) (simp_all add: nullable_repr_def range_simps)
    with None show ?thesis by (simp add: readNullableBytes_def nullable_repr_def batch_consts)
  next
    case (Some bs)
    then have "readVarint r = Inr (int (length bs), advance (length (varint_bytes (int (length bs)))) r)"
      using \<open>rest r = _\<close> \<open>nullable_ok v\<close>
      by (intro readVarint_bytes [of _ _ "bs @ ys"]) (simp_all add: nullable_repr_def nullable_ok_def range_simps)
    with Some \<open>rest r = _\<close> show ?thesis
      by (simp add: readNullableBytes_def nullable_repr_def batch_consts readBytes_rest)
  qed
next
  fix v and w :: writer assume "nullable_ok v" "live w"
  then show "writeNullableBytes v w = Inr (push_back (nullable_repr v) w)"
    by (cases v) (simp_all add: writeNullableBytes_def nullable_repr_def nullable_ok_def codec_simps
        batch_consts range_simps)
qed

definition rheader_repr :: "record_header \<Rightarrow> byte list" where
  "rheader_repr h = varint_bytes (int (length (hd_key h))) @ hd_key h @ nullable_repr (hd_value h)"

definition rheader_ok :: "record_header \<Rightarrow> bool" where
  "rheader_ok h \<longleftrightarrow> length (hd_key h) < 2 ^ 31 \<and> nullable_ok (hd_value h)"

interpretation rheader: codec readRecordHeader rheader_repr rheader_ok writeRecordHeader
proof unfold_locales
  fix h r ys assume ok: "rheader_ok h" and r: "rest r = rheader_repr h @ ys"
  let ?k = "hd_key h" and ?n = "varint_bytes (int (length (hd_key h)))"
  have 1: "readVarint r = Inr (int (length ?k), advance (length ?n) r)"
    using ok r by (intro readVarint_bytes [of _ _ "?k @ nullable_repr (hd_value h) @ ys"])
      (simp_all add: rheader_ok_def rheader_repr_def range_simps)
  have "readNullableBytes (advance (length ?n + length ?k) r)
      = Inr (hd_value h, advance (length (nullable_repr (hd_value h))) (advance (length ?n + length ?k) r))"
    using ok r by (intro nullable.dec_repr [of _ _ ys]) (simp_all add: rheader_ok_def rheader_repr_def)
  with 1 r show "readRecordHeader r = Inr (h, advance (length (rheader_repr h)) r)"
    by (simp add: readRecordHeader_def rheader_repr_def readBytes_rest ac_simps)
next
  fix h and w :: writer assume "rheader_ok h" "live w"
  then show "writeRecordHeader h w = Inr (push_back (rheader_repr h) w)"
    by (simp add: writeRecordHeader_def rheader_repr_def rheader_ok_def codec_simps range_simps
        nullable.enc_repr)
qed

definition record_body :: "record_data \<Rightarrow> byte list" where
  "record_body r = [word_of_int (rec_attributes r)] @ varlong_bytes (rec_timestampDelta r) @
     varint_bytes (rec_offsetDelta r) @ nullable_repr (rec_key r) @ nullable_repr (rec_value r) @
     varint_bytes (int (length (rec_headers r))) @ concat (map rheader_repr (rec_headers r))"

definition record_repr :: "record_data \<Rightarrow> byte list" where
  "record_repr r = varint_bytes (int (length (record_body r))) @ record_body r"

definition record_ok :: "record_data \<Rightarrow> bool" where
  "record_ok r \<longleftrightarrow> in_i8 (rec_attributes r) \<and> in_i64 (rec_timestampDelta r) \<and>
     in_i32 (rec_offsetDelta r) \<and> nullable_ok (rec_key r) \<and> nullable_ok (rec_value r) \<and>
     length (rec_headers r) < 2 ^ 31 \<and> list_all rheader_ok (rec_headers r) \<and>
     length (record_body r) < 2 ^ 31"

lemma readRecord_repr:
  assumes ok: "record_ok x" and r: "rest r = record_repr x @ ys"
  shows "readRecord r = Inr (x, advance (length (record_repr x)) r)"
proof -
  let ?l = "varint_bytes (int (length (record_body x)))"
  let ?td = "varlong_bytes (rec_timestampDelta x)" and ?od = "varint_bytes (rec_offsetDelta x)"
  let ?k = "nullable_repr (rec_key x)" and ?v = "nullable_repr (rec_value x)"
  let ?n = "varint_bytes (int (length (rec_headers x)))"
  let ?h = "concat (map rheader_repr (rec_headers x))"
  define p0 where "p0 = length ?l"
  define p1 where "p1 = p0 + 1"
  define p2 where "p2 = p1 + length ?td"
  define p3 where "p3 = p2 + length ?od"
  define p4 where "p4 = p3 + length ?k"
  define p5 where "p5 = p4 + length ?v"
  define p6 where "p6 = p5 + length ?n"
  define p7 where "p7 = p6 + length ?h"
  note p = p0_def p1_def p2_def p3_def p4_def p5_def p6_def p7_def
  note defs = record_repr_def record_body_def record_ok_def
  have ends: "p7 = length (record_repr x)" "p0 + length (record_body x) = p7"
    by (simp_all add: p defs)
  have 0: "readVarint r = Inr (int (length (record_body x)), advance p0 r)"
    using ok r unfolding p by (intro readVarint_bytes [of _ _ "record_body x @ ys"])
      (simp_all add: record_repr_def record_ok_def range_simps)
  have 1: "readInt8 (advance p0 r) = Inr (rec_attributes x, advance p1 r)"
    using ok r by (simp add: readInt8_rest p defs)
  have 2: "readVarlong (advance p1 r) = Inr (rec_timestampDelta x, advance p2 r)"
    using ok r varlong.dec_repr [of "rec_timestampDelta x" "advance p1 r"] by (simp add: p defs)
  have 3: "readVarint (advance p2 r) = Inr (rec_offsetDelta x, advance p3 r)"
    using ok r varint.dec_repr [of "rec_offsetDelta x" "advance p2 r"] by (simp add: p defs)
  have 4: "readNullableBytes (advance p3 r) = Inr (rec_key x, advance p4 r)"
    using ok r nullable.dec_repr [of "rec_key x" "advance p3 r"] by (simp add: p defs)
  have 5: "readNullableBytes (advance p4 r) = Inr (rec_value x, advance p5 r)"
    using ok r nullable.dec_repr [of "rec_value x" "advance p4 r"] by (simp add: p defs)
  have 6: "readVarint (advance p5 r) = Inr (int (length (rec_headers x)), advance p6 r)"
    using ok r varint.dec_repr [of "int (length (rec_headers x))" "advance p5 r"]
    by (simp add: p defs range_simps)
  have 7: "read_n readRecordHeader (length (rec_headers x)) (advance p6 r)
      = Inr (rec_headers x, advance p7 r)"
    using ok r rheader.read_n_reprs [of "rec_headers x" "advance p6 r" ys]
    by (simp add: p defs rheader.reprs_def)
  show ?thesis
    using ends by (simp add: readRecord_def 0 1 2 3 4 5 6 7 Let_def)
qed

interpretation record_codec: decodable readRecord record_repr record_ok
  by unfold_locales (rule readRecord_repr)

subsection \<open>What the builder makes\<close>

text \<open>One call of \<open>appendAt\<close>: offset delta, timestamp, key, value, headers.\<close>

record entry =
  en_delta :: int
  en_timestamp :: int
  en_key :: "byte list option"
  en_value :: "byte list option"
  en_headers :: "record_header list"

definition record_of :: "int \<Rightarrow> entry \<Rightarrow> record_data" where
  "record_of first e = \<lparr>rec_offsetDelta = en_delta e, rec_timestampDelta = en_timestamp e - first,
     rec_key = en_key e, rec_value = en_value e, rec_headers = en_headers e, rec_attributes = 0\<rparr>"

definition records_of :: "entry list \<Rightarrow> record_data list" where
  "records_of es = map (record_of (en_timestamp (hd es))) es"

definition max_timestamp :: "entry list \<Rightarrow> int" where
  "max_timestamp es = (if es = [] then 0 else fold max (map en_timestamp (tl es)) (en_timestamp (hd es)))"

definition last_delta :: "entry list \<Rightarrow> int" where
  "last_delta es = (if es = [] then - 1 else en_delta (last es))"

definition builder_of :: "nat \<Rightarrow> entry list \<Rightarrow> builder" where
  "builder_of c es = \<lparr>bl_compression = c,
     bl_records = push_back (concat (map record_repr (records_of es))) new_writer,
     bl_count = int (length es),
     bl_firstTimestamp = (if es = [] then 0 else en_timestamp (hd es)),
     bl_maxTimestamp = max_timestamp es, bl_lastDelta = last_delta es\<rparr>"

fun append_all :: "entry list \<Rightarrow> builder \<Rightarrow> builder result" where
  "append_all [] b = Inr b"
| "append_all (e # es) b =
    bind_r (appendAt (en_delta e) (en_timestamp e) (en_key e) (en_value e) (en_headers e) b) (append_all es)"

lemma builder_of_Nil: "builder_of c [] = RecordBatchBuilder c"
  by (simp add: builder_of_def RecordBatchBuilder_def records_of_def max_timestamp_def last_delta_def)

lemma encodeRecord_body:
  assumes "record_ok (record_of first e)"
  shows "encodeRecord (en_timestamp e - first) (en_delta e) (en_key e) (en_value e) (en_headers e)
    = Inr (record_body (record_of first e))"
  using assms
  by (simp add: encodeRecord_def record_of_def record_body_def record_ok_def codec_simps
      nullable.enc_repr rheader.write_all_reprs rheader.reprs_def take_writer_def range_simps)

lemma appendAt_builder_of:
  assumes "last_delta es < en_delta e"
    and "record_ok (record_of (en_timestamp (hd (es @ [e]))) e)"
  shows "appendAt (en_delta e) (en_timestamp e) (en_key e) (en_value e) (en_headers e) (builder_of c es)
    = Inr (builder_of c (es @ [e]))"
proof -
  let ?r = "record_of (en_timestamp (hd (es @ [e]))) e"
  have len: "to_i32 (int (length (record_body ?r))) = int (length (record_body ?r))"
    using assms(2) by (simp add: record_ok_def range_simps)
  show ?thesis
  proof (cases es)
    case Nil
    with assms len encodeRecord_body [of "en_timestamp e" e] show ?thesis
      by (simp add: appendAt_def builder_of_def last_delta_def max_timestamp_def records_of_def
          codec_simps record_repr_def)
  next
    case (Cons e0 es')
    with assms len encodeRecord_body [of "en_timestamp e0" e] show ?thesis
      by (simp add: appendAt_def builder_of_def last_delta_def max_timestamp_def records_of_def
          codec_simps record_repr_def Let_def max_def)
  qed
qed

text \<open>Entries a batch can hold: increasing offset deltas from zero on, representable records.\<close>

definition entries_ok :: "entry list \<Rightarrow> bool" where
  "entries_ok es \<longleftrightarrow> sorted_wrt (<) (- 1 # map en_delta es) \<and> list_all record_ok (records_of es) \<and>
     list_all (\<lambda>e. in_i64 (en_timestamp e)) es \<and>
     length (concat (map record_repr (records_of es))) < 2 ^ 31 - 61"

lemma append_all_builder_of:
  assumes "sorted_wrt (<) (- 1 # map en_delta (es @ es'))" and "list_all record_ok (records_of (es @ es'))"
  shows "append_all es' (builder_of c es) = Inr (builder_of c (es @ es'))"
  using assms
proof (induction es' arbitrary: es)
  case (Cons e es')
  have "last_delta es < en_delta e"
    using Cons.prems(1) by (auto simp: last_delta_def sorted_wrt_append)
  moreover have "record_ok (record_of (en_timestamp (hd (es @ [e]))) e)"
    using Cons.prems(2) by (cases es) (simp_all add: records_of_def)
  ultimately show ?case
    using Cons.IH [of "es @ [e]"] Cons.prems by (simp add: appendAt_builder_of)
qed simp

lemma patchUint32_append:
  assumes "live w" "wr_bytes w = xs @ old @ ys" "length xs = at" "length old = 4"
  shows "patchUint32 at v w = Inr (w\<lparr>wr_bytes := xs @ be_bytes 4 v @ ys\<rparr>)"
proof -
  obtain a b c d where "old = [a, b, c, d]"
    using assms(4) by (auto simp: length_Suc_conv numeral_eq_Suc)
  with assms show ?thesis
    by (simp add: patchUint32_def requirePatchRange_def be_bytes_4 list_update_append)
qed

text \<open>The header a builder with the record bytes \<open>body\<close> writes.\<close>

definition built_header :: "builder \<Rightarrow> byte list \<Rightarrow> batch_header" where
  "built_header b body =
     (let h = \<lparr>bh_baseOffset = 0, bh_batchLength = int (length body) + 49,
        bh_partitionLeaderEpoch = - 1, bh_magic = 2, bh_crc = 0,
        bh_attributes = sint ((of_nat (bl_compression b) :: 16 word) AND kCompressionMask),
        bh_lastOffsetDelta = bl_lastDelta b, bh_firstTimestamp = bl_firstTimestamp b,
        bh_maxTimestamp = bl_maxTimestamp b, bh_producerId = - 1, bh_producerEpoch = - 1,
        bh_baseSequence = - 1, bh_recordCount = bl_count b\<rparr>
      in h\<lparr>bh_crc := crc32c (drop 21 (header_bytes h @ body))\<rparr>)"

lemma drop_21_header_bytes: "drop 21 (header_bytes (h\<lparr>bh_crc := c\<rparr>) @ ys) = drop 21 (header_bytes h @ ys)"
  by (simp add: header_bytes_def)

lemma built_header_crc:
  "bh_crc (built_header b body) = crc32c (drop 21 (header_bytes (built_header b body)) @ body)"
  by (simp add: built_header_def Let_def) (simp add: header_bytes_def)

lemma build_eq:
  assumes "live (bl_records b)" and "bl_count b \<noteq> 0" and "length (wr_bytes (bl_records b)) < 2 ^ 31 - 61"
  shows "build b = Inr (header_bytes (built_header b (wr_bytes (bl_records b))) @ wr_bytes (bl_records b))"
proof -
  let ?body = "wr_bytes (bl_records b)"
  let ?len = "to_i32 (49 + int (length ?body))"
  have len: "?len = 49 + int (length ?body)"
    using assms(3) by (simp add: range_simps)
  have len2: "(word_of_int ?len :: 32 word) = word_of_int (int (length ?body) + 49)"
    unfolding len by (simp only: add.commute)
  define p where "p = [word_of_int 2 :: byte]"
  define e where "e = be_bytes 4 (- 1 :: 32 word)"
  define q where "q = be_bytes 2 ((of_nat (bl_compression b) :: 16 word) AND kCompressionMask) @
     be_bytes 4 (word_of_int (bl_lastDelta b) :: 32 word) @
     be_bytes 8 (word_of_int (bl_firstTimestamp b) :: 64 word) @
     be_bytes 8 (word_of_int (bl_maxTimestamp b) :: 64 word) @ be_bytes 8 (- 1 :: 64 word) @
     be_bytes 2 (- 1 :: 16 word) @ be_bytes 4 (- 1 :: 32 word) @
     be_bytes 4 (word_of_int (bl_count b) :: 32 word) @ ?body"
  define z8 where "z8 = be_bytes 8 (0 :: 64 word)"
  define z4 where "z4 = be_bytes 4 (0 :: 32 word)"
  define l4 where "l4 = be_bytes 4 (word_of_int ?len :: 32 word)"
  have lens [simp]: "length z8 = 8" "length z4 = 4" "length l4 = 4" "length e = 4" "length p = 1"
    by (simp_all add: z8_def z4_def l4_def e_def p_def)
  let ?w0 = "push_back (z8 @ z4 @ e @ p @ z4 @ q) new_writer"
  let ?w1 = "push_back (z8 @ l4 @ e @ p @ z4 @ q) new_writer"
  have 1: "patchInt32 8 ?len ?w0 = Inr ?w1"
    using patchUint32_append [of ?w0 z8 z4 "e @ p @ z4 @ q" 8]
    by (simp add: patchInt32_def push_back_def l4_def)
  have crc: "drop 21 (wr_bytes ?w1) = drop 21 (header_bytes (built_header b ?body) @ ?body)"
    by (simp add: built_header_def Let_def drop_21_header_bytes)
      (simp add: header_bytes_def q_def)
  have 2: "patchUint32 17 c ?w1 = Inr (push_back (z8 @ l4 @ e @ p @ be_bytes 4 c @ q) new_writer)" for c
    using patchUint32_append [of ?w1 "z8 @ l4 @ e @ p" z4 q 17 c] by (simp add: push_back_def)
  have "build b = bind_r (patchInt32 8 ?len ?w0) (\<lambda>w. bind_r (view w) (\<lambda>written.
      bind_r (patchUint32 17 (crc32c (drop 21 written)) w) (\<lambda>w.
      bind_r (take_writer w) (\<lambda>(out, _). Inr out))))"
    using assms(1,2)
    by (simp add: build_def view_def codec_simps batch_consts Let_def z8_def z4_def e_def p_def q_def)
  also have "\<dots> = Inr (z8 @ l4 @ e @ p @ be_bytes 4 (crc32c (drop 21 (wr_bytes ?w1))) @ q)"
    by (simp add: 1 2 view_def take_writer_def)
  also have "z8 @ l4 @ e @ p @ be_bytes 4 (crc32c (drop 21 (wr_bytes ?w1))) @ q
      = header_bytes (built_header b ?body) @ ?body"
    unfolding crc
    by (simp add: built_header_def Let_def drop_21_header_bytes)
      (simp add: header_bytes_def z8_def l4_def e_def p_def q_def len2)
  finally show ?thesis .
qed

subsection \<open>Bytes behind a batch are not looked at\<close>

lemma header_of_append: "61 \<le> length bs \<Longrightarrow> header_of (bs @ ys) = header_of bs"
  using header_of_take [of 61 "bs @ ys"] header_of_take [of 61 bs] by simp

lemma parseHeader_append: "61 \<le> length bs \<Longrightarrow> parseHeader (bs @ ys) = parseHeader bs"
  using parseHeader_take [of 61 "bs @ ys"] parseHeader_take [of 61 bs] by simp

lemma totalSizeOf_append: "12 \<le> length bs \<Longrightarrow> totalSizeOf (bs @ ys) = totalSizeOf bs"
  using totalSizeOf_take [of 12 "bs @ ys"] totalSizeOf_take [of 12 bs] by simp

lemma computeCrc_alt:
  "computeCrc bs = bind_r (totalSizeOf bs) (\<lambda>total.
     if length bs < total then Inl CorruptData else Inr (crc32c (take (total - 21) (drop 21 bs))))"
  by (cases "totalSizeOf bs") (simp_all add: computeCrc_def requireAtLeast_def batch_consts require_def)

lemma verifyCrc_Inr_TrueD:
  assumes "verifyCrc bs = Inr True"
  obtains total where "parseHeader bs = Inr (header_of bs)" "totalSizeOf bs = Inr total"
    "total \<le> length bs" "61 \<le> total" "61 \<le> length bs"
    "bh_crc (header_of bs) = crc32c (take (total - 21) (drop 21 bs))"
proof -
  obtain h where h: "parseHeader bs = Inr h" and c: "computeCrc bs = Inr (bh_crc h)"
    using assms by (auto simp: verifyCrc_def bind_r_Inr_iff)
  moreover from c obtain total where "totalSizeOf bs = Inr total"
    by (auto simp: computeCrc_alt bind_r_Inr_iff)
  ultimately show thesis
    using that [of total] parseHeader_InrD [OF h] totalSizeOf_InrD [of bs total]
    by (auto simp: computeCrc_alt split: if_splits)
qed

lemma verifyCrc_TrueI:
  assumes "parseHeader bs = Inr h" "totalSizeOf bs = Inr n" "n \<le> length bs"
    "bh_crc h = crc32c (take (n - 21) (drop 21 bs))"
  shows "verifyCrc bs = Inr True"
  using assms by (simp add: verifyCrc_def computeCrc_alt)

lemma decodeRecords_alt:
  "decodeRecords bs = bind_r (parseHeader bs) (\<lambda>h.
     if compression h \<noteq> 0 then Inl Error
     else bind_r (totalSizeOf bs) (\<lambda>total.
       if length bs < total then Inl CorruptData
       else bind_r (read_n readRecord (nat (bh_recordCount h))
                     (reader_of (take (total - 61) (drop 61 bs)))) (\<lambda>(rs, _). Inr rs)))"
  by (cases "parseHeader bs"; cases "totalSizeOf bs")
    (simp_all add: decodeRecords_def requireAtLeast_def batch_consts require_def)

lemma batch_append:
  assumes "totalSizeOf bs = Inr n" "n \<le> length bs"
  shows "verifyCrc (bs @ ys) = verifyCrc bs" and "decodeRecords (bs @ ys) = decodeRecords bs"
proof -
  have "61 \<le> length bs" using assms totalSizeOf_InrD [OF assms(1)] by simp
  with assms show "verifyCrc (bs @ ys) = verifyCrc bs" and "decodeRecords (bs @ ys) = decodeRecords bs"
    by (simp_all add: verifyCrc_def decodeRecords_alt computeCrc_alt parseHeader_append totalSizeOf_append
        cong: if_cong)
qed

subsection \<open>Properties\<close>

lemma build_decodes:
  assumes "es \<noteq> []" and ok: "entries_ok es" and "in_i32 (last_delta es)" "length es < 2 ^ 31"
    and "in_i64 (max_timestamp es)"
  defines "body \<equiv> concat (map record_repr (records_of es))"
  defines "h \<equiv> built_header (builder_of 0 es) body"
  shows "build (builder_of 0 es) = Inr (header_bytes h @ body)" (is ?build)
    and "parseHeader (header_bytes h @ body) = Inr h" (is ?parse)
    and "totalSizeOf (header_bytes h @ body) = Inr (length (header_bytes h @ body))" (is ?total)
    and "verifyCrc (header_bytes h @ body) = Inr True" (is ?crc)
    and "decodeRecords (header_bytes h @ body) = Inr (records_of es)" (is ?decode)
proof -
  have len: "length body < 2 ^ 31 - 61" using ok by (simp add: entries_ok_def body_def)
  have hok: "header_ok h"
    using assms len
    by (auto simp: h_def built_header_def builder_of_def header_ok_def Let_def range_simps
        entries_ok_def kCompressionMask_def list_all_iff)
  note hof = header_of_bytes [OF hok, of body]
  show ?build
    using assms len by (simp add: build_eq builder_of_def h_def body_def)
  show parse: ?parse
    using assms(1) by (simp add: parseHeader_alt hof Let_def)
      (simp add: h_def built_header_def builder_of_def Let_def)
  show total: ?total
    by (simp add: totalSizeOf_alt hof Let_def)
      (simp add: h_def built_header_def builder_of_def Let_def)
  show ?crc
    using parse total
    by (rule verifyCrc_TrueI) (simp_all add: h_def built_header_crc)
  have "read_n readRecord (length (records_of es)) (reader_of body)
      = Inr (records_of es, advance (length body) (reader_of body))"
    using record_codec.read_n_reprs [of "records_of es" "reader_of body" "[]"] ok
    by (simp add: record_codec.reprs_def body_def entries_ok_def)
  moreover have "bh_recordCount h = int (length (records_of es))" "compression h = 0"
    by (simp_all add: h_def built_header_def builder_of_def Let_def records_of_def compression_def)
  ultimately show ?decode
    by (simp add: decodeRecords_alt parse total)
qed

lemma entries_build:
  assumes "es \<noteq> []" and "entries_ok es"
  shows "append_all es (RecordBatchBuilder 0) = Inr (builder_of 0 es) \<and> (\<exists>bytes h. build (builder_of 0 es) = Inr bytes \<and>
    parseHeader bytes = Inr h \<and> totalSizeOf bytes = Inr (length bytes) \<and>
    verifyCrc bytes = Inr True \<and> decodeRecords bytes = Inr (records_of es) \<and>
    bh_baseOffset h = 0 \<and> lastOffset h = last_delta es \<and> bh_firstTimestamp h = en_timestamp (hd es) \<and>
    bh_maxTimestamp h = max_timestamp es \<and> bh_recordCount h = int (length es) \<and>
    length bytes = 61 + length (concat (map record_repr (records_of es))))"
proof -
  let ?body = "concat (map record_repr (records_of es))"
  let ?h = "built_header (builder_of 0 es) ?body"
  have last: "in_i32 (last_delta es)"
    using assms by (auto simp: entries_ok_def list_all_iff records_of_def record_ok_def record_of_def last_delta_def)
  have count: "length es < 2 ^ 31"
  proof -
    have "length rs \<le> length (concat (map record_repr rs))" for rs
      using varint_bytes_pos by (induction rs) (auto simp: record_repr_def record_body_def)
    from this [of "records_of es"] show ?thesis
      using assms(2) by (simp add: entries_ok_def records_of_def)
  qed
  have max: "in_i64 (max_timestamp es)"
  proof -
    have "fold max ts t \<in> set (t # ts)" for ts and t :: int
    proof (induction ts arbitrary: t)
      case (Cons a ts)
      from Cons.IH [of "max a t"] show ?case by (auto simp: max_def split: if_splits)
    qed simp
    then have "max_timestamp es \<in> en_timestamp ` set es"
      using assms(1) by (cases es) (fastforce simp: max_timestamp_def)+
    with assms(2) show ?thesis by (auto simp: entries_ok_def list_all_iff)
  qed
  have "append_all es (RecordBatchBuilder 0) = Inr (builder_of 0 es)"
    using append_all_builder_of [of "[]" es 0] assms(2) by (simp add: builder_of_Nil entries_ok_def)
  moreover have "bh_baseOffset ?h = 0" "lastOffset ?h = last_delta es" "bh_firstTimestamp ?h = en_timestamp (hd es)"
    "bh_maxTimestamp ?h = max_timestamp es" "bh_recordCount ?h = int (length es)"
    using assms(1) by (simp_all add: lastOffset_def built_header_def builder_of_def Let_def)
  moreover have "length (header_bytes ?h @ ?body) = 61 + length ?body" by simp
  ultimately show ?thesis
    using build_decodes [OF assms last count max] by blast
qed

text \<open>
  C27. Whatever records a client appends with increasing offset deltas, the builder accepts
  them, and the batch it builds parses, passes its checksum, states its own length, covers
  the offsets up to the last delta, carries the first and the largest timestamp, and decodes
  to exactly the records appended.
\<close>

theorem build_then_decode:
  assumes "es \<noteq> []" and "entries_ok es"
  shows "\<exists>b bytes h. append_all es (RecordBatchBuilder 0) = Inr b \<and> build b = Inr bytes \<and>
    parseHeader bytes = Inr h \<and> totalSizeOf bytes = Inr (length bytes) \<and>
    verifyCrc bytes = Inr True \<and> decodeRecords bytes = Inr (records_of es) \<and>
    lastOffset h = last_delta es \<and> bh_firstTimestamp h = en_timestamp (hd es) \<and>
    bh_maxTimestamp h = max_timestamp es \<and> bh_recordCount h = int (length es)"
  using entries_build [OF assms] by blast

theorem build_then_decode_witness:
  "\<exists>b bytes h. append_all [\<lparr>en_delta = 0, en_timestamp = 1000, en_key = Some [1], en_value = Some [2, 3], en_headers = []\<rparr>,
      \<lparr>en_delta = 2, en_timestamp = 990, en_key = None, en_value = None,
        en_headers = [\<lparr>hd_key = [7], hd_value = None\<rparr>]\<rparr>] (RecordBatchBuilder 0) = Inr b \<and>
    build b = Inr bytes \<and> parseHeader bytes = Inr h \<and> verifyCrc bytes = Inr True \<and>
    lastOffset h = 2 \<and> bh_maxTimestamp h = 1000"
proof -
  let ?es = "[\<lparr>en_delta = 0, en_timestamp = 1000, en_key = Some [1], en_value = Some [2, 3], en_headers = []\<rparr>,
      \<lparr>en_delta = 2, en_timestamp = 990, en_key = None, en_value = None,
        en_headers = [\<lparr>hd_key = [7], hd_value = None\<rparr>]\<rparr>] :: entry list"
  have "varint_bytes 0 = [0]" "varint_bytes 1 = [2]" "varint_bytes 2 = [4]" "varint_bytes 9 = [18]"
    "varint_bytes (- 1) = [1]" "varlong_bytes 0 = [0]" "varlong_bytes (- 10) = [19]"
    by code_simp+
  then have "entries_ok ?es"
    by (simp add: entries_ok_def records_of_def record_of_def record_ok_def record_repr_def
        record_body_def nullable_repr_def nullable_ok_def rheader_repr_def rheader_ok_def range_simps)
  from build_then_decode [OF _ this] show ?thesis
    by (fastforce simp: last_delta_def max_timestamp_def)
qed

lemma stamp_facts:
  assumes "stampBaseOffset bs base = Inr bs1" "stampLeaderEpoch bs1 epoch = Inr bs2"
    and "in_i64 base" "in_i32 epoch"
  shows "61 \<le> length bs" "length bs2 = length bs" "drop 21 bs2 = drop 21 bs"
    "header_of bs2 = (header_of bs)\<lparr>bh_baseOffset := base, bh_partitionLeaderEpoch := epoch\<rparr>"
proof -
  have len: "61 \<le> length bs" and 1: "bs1 = be_bytes 8 (word_of_int base :: 64 word) @ drop 8 bs"
    using assms(1) by (auto simp: stampBaseOffset_alt split: if_splits)
  then have len1: "length bs1 = length bs" by simp
  with len have 2: "bs2 = take 12 bs1 @ be_bytes 4 (word_of_int epoch :: 32 word) @ drop 16 bs1"
    using assms(2) by (auto simp: stampLeaderEpoch_alt split: if_splits)
  show "61 \<le> length bs" "length bs2 = length bs" "drop 21 bs2 = drop 21 bs"
    using len by (simp_all add: 1 2)
  show "header_of bs2 = (header_of bs)\<lparr>bh_baseOffset := base, bh_partitionLeaderEpoch := epoch\<rparr>"
    using header_of_stamp(2) [of bs1 epoch] header_of_stamp(1) [of bs base] len len1 assms(3,4)
    by (simp only: 1 2)
qed

text \<open>
  Stamping the base offset and the leader epoch into a client's batch changes those two
  header fields and nothing else: the batch stays as valid as it was, states the same size,
  and decodes to the same records, although its checksum is not recomputed.
\<close>

lemma stamping_keeps_batch:
  assumes "stampBaseOffset bs base = Inr bs1" "stampLeaderEpoch bs1 epoch = Inr bs2"
    and "in_i64 base" "in_i32 epoch"
  shows "length bs2 = length bs \<and> verifyCrc bs2 = verifyCrc bs \<and>
    totalSizeOf bs2 = totalSizeOf bs \<and> decodeRecords bs2 = decodeRecords bs \<and>
    parseHeader bs2 = bind_r (parseHeader bs) (\<lambda>h.
      Inr (h\<lparr>bh_baseOffset := base, bh_partitionLeaderEpoch := epoch\<rparr>))"
proof -
  note f = stamp_facts [OF assms]
  have "drop 61 bs2 = drop 40 (drop 21 bs2)" by simp
  then have d: "drop 61 bs2 = drop 61 bs" unfolding f(3) by simp
  have t: "totalSizeOf bs2 = totalSizeOf bs" using f by (simp add: totalSizeOf_alt)
  have p: "parseHeader bs2 = bind_r (parseHeader bs) (\<lambda>h.
      Inr (h\<lparr>bh_baseOffset := base, bh_partitionLeaderEpoch := epoch\<rparr>))"
    using f by (simp add: parseHeader_alt Let_def)
  have "decodeRecords bs2 = decodeRecords bs"
    using f d t by (cases "parseHeader bs")
      (simp_all add: decodeRecords_alt p compression_def cong: if_cong)
  moreover have "verifyCrc bs2 = verifyCrc bs"
    using f t by (cases "parseHeader bs") (simp_all add: verifyCrc_def computeCrc_alt p cong: if_cong)
  ultimately show ?thesis using f t p by simp
qed

text \<open>
  A batch whose checksum verifies does not verify after any one byte between its
  attributes and its end is replaced by a different one.
\<close>

lemma verifyCrc_detects_damage:
  assumes "verifyCrc bs = Inr True" and "totalSizeOf bs = Inr n"
    and "21 \<le> i" "i < n" "b \<noteq> bs ! i"
  shows "verifyCrc (bs[i := b]) \<noteq> Inr True"
proof
  assume bad: "verifyCrc (bs[i := b]) = Inr True"
  from assms(1) obtain "n \<le> length bs" "61 \<le> length bs"
    and crc: "bh_crc (header_of bs) = crc32c (take (n - 21) (drop 21 bs))"
    by (rule verifyCrc_Inr_TrueD) (use assms(2) in auto)
  let ?bs = "bs[i := b]"
  have same: "field_at k m ?bs = field_at k m bs" if "k + m \<le> 21" for k m
    using that assms(3) by (simp add: field_at_def take_drop flip: take_update_swap)
  then have fields: "bh_crc (header_of ?bs) = bh_crc (header_of bs)"
    "bh_batchLength (header_of ?bs) = bh_batchLength (header_of bs)"
    by (simp_all add: header_of_def)
  then have "totalSizeOf ?bs = Inr n"
    using assms(2) by (auto simp: totalSizeOf_alt split: if_splits)
  with bad have "bh_crc (header_of ?bs) = crc32c (take (n - 21) (drop 21 ?bs))"
    by (elim verifyCrc_Inr_TrueD) simp
  with crc fields have eq: "crc32c (take (n - 21) (drop 21 bs)) = crc32c (take (n - 21) (drop 21 ?bs))"
    by simp
  let ?c = "take (n - 21) (drop 21 bs)" and ?j = "i - 21"
  have j: "?j < length ?c" using assms(3,4) \<open>n \<le> length bs\<close> by simp
  have c: "?c = take ?j ?c @ [bs ! i] @ drop (Suc ?j) ?c"
    using id_take_nth_drop [OF j] assms(3,4) \<open>61 \<le> length bs\<close> by simp
  have "take (n - 21) (drop 21 ?bs) = ?c[?j := b]"
    using assms(3) by (simp add: drop_update_swap take_update_swap)
  also have "\<dots> = take ?j ?c @ [b] @ drop (Suc ?j) ?c"
    using upd_conv_take_nth_drop [OF j] by simp
  finally show False
    using eq crc32c_byte_change [OF assms(5), of "take ?j ?c" "drop (Suc ?j) ?c"] c by metis
qed

end
