(* ===== verification/Offset_Index.thy ===== *)
theory Offset_Index
  imports Prelude
begin

text \<open>
  \<^verbatim>\<open>storage/offset_index.cpp\<close>: the sparse index of a segment, eight bytes an entry in
  a memory-mapped file. The mapping is the byte list of the file; the file system calls that
  create, open and trim it are the byte lists they leave.
\<close>

subsection \<open>The class\<close>

record index_entry =
  ie_relativeOffset :: "32 word"
  ie_position :: "32 word"

definition entry_offsetFrom :: "index_entry \<Rightarrow> int \<Rightarrow> int" where
  "entry_offsetFrom e base = base + uint (ie_relativeOffset e)"

definition kEntrySize :: nat where "kEntrySize = 8"

record offset_index =
  oi_bytes :: "byte list"
  oi_writable :: bool
  oi_baseOffset :: int
  oi_entryCount :: nat
  oi_maxEntries :: nat
  oi_spent :: bool

definition index_isFull :: "offset_index \<Rightarrow> bool" where
  "index_isFull idx \<longleftrightarrow> oi_entryCount idx \<ge> oi_maxEntries idx"

definition usedBytes :: "offset_index \<Rightarrow> nat" where
  "usedBytes idx = oi_entryCount idx * kEntrySize"

definition readBe32 :: "byte list \<Rightarrow> nat \<Rightarrow> 32 word" where
  "readBe32 bs p = push_bit 24 (ucast (bs ! p)) OR push_bit 16 (ucast (bs ! (p + 1))) OR
     push_bit 8 (ucast (bs ! (p + 2))) OR ucast (bs ! (p + 3))"

definition writeBe32 :: "byte list \<Rightarrow> nat \<Rightarrow> 32 word \<Rightarrow> byte list" where
  "writeBe32 bs p value = bs[p := ucast (drop_bit 24 value), p + 1 := ucast (drop_bit 16 value),
     p + 2 := ucast (drop_bit 8 value), p + 3 := ucast value]"

definition positionAt :: "byte list \<Rightarrow> nat \<Rightarrow> 32 word" where
  "positionAt bs i = readBe32 bs (i * kEntrySize + 4)"

function countEntries_loop :: "byte list \<Rightarrow> nat \<Rightarrow> nat \<Rightarrow> nat" where
  "countEntries_loop bs low high =
    (if low < high then
       let mid = low + (high - low) div 2 in
       if positionAt bs mid = 0 then countEntries_loop bs low mid
       else countEntries_loop bs (mid + 1) high
     else low)"
  by auto
termination
  by (relation "measure (\<lambda>(_, low, high). high - low)") auto

definition countEntries :: "byte list \<Rightarrow> nat" where
  "countEntries bs =
    (let raw = length bs div kEntrySize in
     if raw = 0 then 0
     else if positionAt bs (raw - 1) \<noteq> 0 then raw
     else countEntries_loop bs 0 (raw - 1))"

text \<open>\<open>create\<close> truncates whatever file is there and maps it preallocated, all zeroes.\<close>

definition index_create :: "int \<Rightarrow> nat \<Rightarrow> offset_index result" where
  "index_create base maxBytes =
    (let maxEntries = maxBytes div kEntrySize in
     bind_r (require (\<not> maxEntries = 0) Error) (\<lambda>_.
       Inr \<lparr>oi_bytes = replicate (maxEntries * kEntrySize) 0, oi_writable = True,
            oi_baseOffset = base, oi_entryCount = 0, oi_maxEntries = maxEntries,
            oi_spent = False\<rparr>))"

definition index_openSealed :: "byte list \<Rightarrow> int \<Rightarrow> offset_index" where
  "index_openSealed file base =
    (let entryCount = countEntries file in
     \<lparr>oi_bytes = file, oi_writable = False, oi_baseOffset = base, oi_entryCount = entryCount,
      oi_maxEntries = entryCount, oi_spent = False\<rparr>)"

definition index_requireLive :: "offset_index \<Rightarrow> unit result" where
  "index_requireLive idx = require (\<not> oi_spent idx) Error"

definition entryAt :: "offset_index \<Rightarrow> nat \<Rightarrow> index_entry" where
  "entryAt idx i =
     \<lparr>ie_relativeOffset = readBe32 (oi_bytes idx) (i * kEntrySize),
      ie_position = readBe32 (oi_bytes idx) (i * kEntrySize + 4)\<rparr>"

definition UINT32_MAX :: int where "UINT32_MAX = 4294967295"

definition index_append :: "int \<Rightarrow> 32 word \<Rightarrow> offset_index \<Rightarrow> offset_index result" where
  "index_append offset position idx =
    bind_r (index_requireLive idx) (\<lambda>_.
    bind_r (require (oi_writable idx) Error) (\<lambda>_.
    bind_r (require (\<not> position = 0) OffsetInvariantViolated) (\<lambda>_.
    bind_r (require (\<not> offset < oi_baseOffset idx) OffsetInvariantViolated) (\<lambda>_.
    let delta = offset - oi_baseOffset idx in
    bind_r (require (\<not> delta > UINT32_MAX) OffsetInvariantViolated) (\<lambda>_.
    let relativeOffset = word_of_int delta :: 32 word;
        count = oi_entryCount idx in
    bind_r (if count > 0
            then let last = entryAt idx (count - 1) in
              bind_r (require (\<not> relativeOffset \<le> ie_relativeOffset last) OffsetInvariantViolated) (\<lambda>_.
                require (\<not> position \<le> ie_position last) OffsetInvariantViolated)
            else Inr ()) (\<lambda>_.
    if count \<ge> oi_maxEntries idx then Inr idx
    else let at = count * kEntrySize in
      Inr (idx\<lparr>oi_bytes := writeBe32 (writeBe32 (oi_bytes idx) at relativeOffset) (at + 4) position,
               oi_entryCount := count + 1\<rparr>)))))))"

function index_lookup_loop :: "offset_index \<Rightarrow> 32 word \<Rightarrow> nat \<Rightarrow> nat \<Rightarrow> nat" where
  "index_lookup_loop idx targetRelative low high =
    (if low < high then
       let mid = low + (high - low + 1) div 2 in
       if ie_relativeOffset (entryAt idx mid) \<le> targetRelative
       then index_lookup_loop idx targetRelative mid high
       else index_lookup_loop idx targetRelative low (mid - 1)
     else low)"
  by auto
termination
  by (relation "measure (\<lambda>(_, _, low, high). high - low)") auto

definition no_entry :: index_entry where
  "no_entry = \<lparr>ie_relativeOffset = 0, ie_position = 0\<rparr>"

definition index_lookup :: "int \<Rightarrow> offset_index \<Rightarrow> index_entry result" where
  "index_lookup target idx =
    bind_r (index_requireLive idx) (\<lambda>_.
    bind_r (require (\<not> target < oi_baseOffset idx) OffsetInvariantViolated) (\<lambda>_.
    let count = oi_entryCount idx in
    if count = 0 then Inr no_entry
    else let delta = target - oi_baseOffset idx;
             targetRelative = (if delta > UINT32_MAX then word_of_int UINT32_MAX
                               else word_of_int delta) :: 32 word
      in if ie_relativeOffset (entryAt idx 0) > targetRelative then Inr no_entry
         else Inr (entryAt idx (index_lookup_loop idx targetRelative 0 (count - 1)))))"

text \<open>Returns the trimmed file; the index is spent.\<close>

definition index_flushAndTrim :: "offset_index \<Rightarrow> (byte list \<times> offset_index) result" where
  "index_flushAndTrim idx =
    bind_r (index_requireLive idx) (\<lambda>_.
    bind_r (require (oi_writable idx) Error) (\<lambda>_.
      Inr (take (usedBytes idx) (oi_bytes idx),
           idx\<lparr>oi_bytes := [], oi_writable := False, oi_spent := True\<rparr>)))"

declare countEntries_loop.simps [simp del] index_lookup_loop.simps [simp del]

subsection \<open>The bytes of an entry\<close>

definition entry_bytes :: "index_entry \<Rightarrow> byte list" where
  "entry_bytes e = be_bytes 4 (ie_relativeOffset e) @ be_bytes 4 (ie_position e)"

lemma length_entry_bytes [simp]: "length (entry_bytes e) = 8"
  by (simp add: entry_bytes_def)

lemma be_bytes_4_eq:
  "be_bytes 4 w = [ucast (drop_bit 24 w), ucast (drop_bit 16 w), ucast (drop_bit 8 w), ucast w]"
  by (simp add: be_bytes_def upt_rec)

lemma list_of_4: "length xs = 4 \<Longrightarrow> \<exists>a b c d. xs = [a, b, c, d]"
  by (auto simp: length_Suc_conv numeral_eq_Suc)

lemma readBe32_append:
  assumes "length xs = p" "length bs = 4"
  shows "readBe32 (xs @ bs @ ys) p = be_word bs"
proof -
  obtain a b c d where "bs = [a, b, c, d]" using list_of_4 assms(2) by blast
  with assms(1) show ?thesis
    by (simp add: readBe32_def be_word_def nth_append push_bit_or or.assoc)
qed

lemma writeBe32_append:
  assumes "length xs = p" "length bs = 4"
  shows "writeBe32 (xs @ bs @ ys) p v = xs @ be_bytes 4 v @ ys"
proof -
  obtain a b c d where "bs = [a, b, c, d]" using list_of_4 assms(2) by blast
  with assms(1) show ?thesis
    by (simp add: writeBe32_def be_bytes_4_eq list_update_append)
qed

lemma length_entries_bytes [simp]: "length (concat (map entry_bytes es)) = 8 * length es"
  by (induction es) auto

lemma entryAt_bytes:
  assumes "i < length es" and "oi_bytes idx = concat (map entry_bytes es) @ pad"
  shows "entryAt idx i = es ! i"
proof -
  let ?xs = "concat (map entry_bytes (take i es))" and ?ys = "concat (map entry_bytes (drop (Suc i) es)) @ pad"
  have "es = take i es @ es ! i # drop (Suc i) es" using assms(1) by (rule id_take_nth_drop)
  then have "concat (map entry_bytes es) = concat (map entry_bytes (take i es @ es ! i # drop (Suc i) es))"
    by simp
  then have bytes: "oi_bytes idx = ?xs @ be_bytes 4 (ie_relativeOffset (es ! i)) @
      be_bytes 4 (ie_position (es ! i)) @ ?ys"
    using assms(2) by (simp add: entry_bytes_def)
  have len: "length ?xs = i * 8" using assms(1) by simp
  have "readBe32 (oi_bytes idx) (i * 8) = ie_relativeOffset (es ! i)"
    unfolding bytes using len by (subst readBe32_append) simp_all
  moreover have "readBe32 (oi_bytes idx) (i * 8 + 4) = ie_position (es ! i)"
    unfolding bytes using readBe32_append [of "?xs @ be_bytes 4 (ie_relativeOffset (es ! i))"
        "i * 8 + 4" "be_bytes 4 (ie_position (es ! i))" ?ys] len by simp
  ultimately show ?thesis by (simp add: entryAt_def kEntrySize_def)
qed

subsection \<open>Well-formed indexes\<close>

definition entry_lt :: "index_entry \<Rightarrow> index_entry \<Rightarrow> bool" where
  "entry_lt a b \<longleftrightarrow> ie_relativeOffset a < ie_relativeOffset b \<and> ie_position a < ie_position b"

definition entries_sorted :: "index_entry list \<Rightarrow> bool" where
  "entries_sorted es \<longleftrightarrow> sorted_wrt entry_lt es \<and> list_all (\<lambda>e. ie_position e \<noteq> 0) es"

definition index_entries :: "offset_index \<Rightarrow> index_entry list" where
  "index_entries idx = map (entryAt idx) [0..<oi_entryCount idx]"

definition index_ok :: "offset_index \<Rightarrow> bool" where
  "index_ok idx \<longleftrightarrow> \<not> oi_spent idx \<and> entries_sorted (index_entries idx) \<and>
     oi_bytes idx = concat (map entry_bytes (index_entries idx)) @
       replicate (length (oi_bytes idx) - 8 * oi_entryCount idx) 0 \<and>
     oi_entryCount idx \<le> oi_maxEntries idx \<and>
     (oi_writable idx \<longrightarrow> length (oi_bytes idx) = 8 * oi_maxEntries idx)"

lemma index_entries_bytes:
  "oi_bytes idx = concat (map entry_bytes es) @ pad \<Longrightarrow> oi_entryCount idx = length es \<Longrightarrow>
    index_entries idx = es"
  unfolding index_entries_def by (rule nth_equalityI) (simp_all add: entryAt_bytes)

lemma length_index_entries [simp]: "length (index_entries idx) = oi_entryCount idx"
  by (simp add: index_entries_def)

lemma nth_index_entries [simp]: "i < oi_entryCount idx \<Longrightarrow> index_entries idx ! i = entryAt idx i"
  by (simp add: index_entries_def)

subsection \<open>Counting the entries of a mapped file\<close>

lemma positionAt_entries:
  assumes "bs = concat (map entry_bytes es) @ replicate n 0" and "list_all (\<lambda>e. ie_position e \<noteq> 0) es"
    and "8 * i + 8 \<le> length bs"
  shows "positionAt bs i \<noteq> 0 \<longleftrightarrow> i < length es"
proof (cases "i < length es")
  case True
  let ?idx = "\<lparr>oi_bytes = bs, oi_writable = False, oi_baseOffset = 0, oi_entryCount = 0,
    oi_maxEntries = 0, oi_spent = False\<rparr>"
  have "entryAt ?idx i = es ! i" using True assms(1) by (intro entryAt_bytes) simp_all
  then have "positionAt bs i = ie_position (es ! i)"
    by (simp add: entryAt_def positionAt_def kEntrySize_def flip: index_entry.iffs) (metis index_entry.select_convs(2))
  with True assms(2) show ?thesis by (simp add: list_all_length)
next
  case False
  then have "8 * length es \<le> 8 * i" by simp
  define xs where "xs = concat (map entry_bytes es) @ replicate (8 * i + 4 - 8 * length es) (0 :: byte)"
  define ys where "ys = replicate (n - (8 * i + 8 - 8 * length es)) (0 :: byte)"
  have "n = (8 * i + 4 - 8 * length es) + 4 + (n - (8 * i + 8 - 8 * length es))"
    using assms(1,3) \<open>8 * length es \<le> 8 * i\<close> by simp
  then have "replicate n (0 :: byte) = replicate (8 * i + 4 - 8 * length es) 0 @ replicate 4 0 @ ys"
    unfolding ys_def by (metis replicate_add append_assoc)
  then have "bs = xs @ replicate 4 0 @ ys"
    by (simp only: assms(1) xs_def append_assoc)
  moreover have "length xs = 8 * i + 4" using \<open>8 * length es \<le> 8 * i\<close> by (simp add: xs_def)
  ultimately have "readBe32 bs (8 * i + 4) = be_word (replicate 4 (0 :: byte))"
    using readBe32_append [of xs "8 * i + 4" "replicate 4 0" ys] by simp
  also have "\<dots> = 0" by (simp add: be_word_def numeral_eq_Suc)
  finally show ?thesis using False by (simp add: positionAt_def kEntrySize_def mult.commute)
qed

lemma countEntries_loop_boundary:
  assumes "low \<le> k" "k \<le> high" "\<And>i. i < high \<Longrightarrow> positionAt bs i \<noteq> 0 \<longleftrightarrow> i < k"
  shows "countEntries_loop bs low high = k"
  using assms
proof (induction bs low high rule: countEntries_loop.induct)
  case (1 bs low high)
  show ?case
  proof (cases "low < high")
    case True
    let ?mid = "low + (high - low) div 2"
    have mid: "?mid < high" "low \<le> ?mid" using True by auto
    with "1.prems"(3) have P: "positionAt bs ?mid \<noteq> 0 \<longleftrightarrow> ?mid < k" by blast
    show ?thesis
    proof (cases "positionAt bs ?mid = 0")
      case z: True
      have "countEntries_loop bs low high = countEntries_loop bs low ?mid"
        by (subst countEntries_loop.simps) (simp add: True z Let_def)
      also have "\<dots> = k"
        by (rule "1.IH"(1) [OF True refl z]) (use P z mid "1.prems" in auto)
      finally show ?thesis .
    next
      case False
      have "countEntries_loop bs low high = countEntries_loop bs (?mid + 1) high"
        by (subst countEntries_loop.simps) (simp add: True False Let_def)
      also have "\<dots> = k"
        by (rule "1.IH"(2) [OF True refl False]) (use P False mid "1.prems" in auto)
      finally show ?thesis .
    qed
  next
    case False
    with "1.prems" show ?thesis by (subst countEntries_loop.simps) simp
  qed
qed

lemma countEntries_entries:
  assumes bs: "bs = concat (map entry_bytes es) @ replicate n 0" and pos: "list_all (\<lambda>e. ie_position e \<noteq> 0) es"
  shows "countEntries bs = length es"
proof -
  let ?raw = "length bs div 8"
  have le: "length es \<le> ?raw" using bs by simp
  have P: "positionAt bs i \<noteq> 0 \<longleftrightarrow> i < length es" if "i < ?raw" for i
    using that by (intro positionAt_entries [OF bs pos]) linarith
  show ?thesis
  proof (cases "?raw = 0")
    case True
    with le show ?thesis by (simp add: countEntries_def kEntrySize_def)
  next
    case False
    then have last: "positionAt bs (?raw - 1) \<noteq> 0 \<longleftrightarrow> ?raw - 1 < length es" by (intro P) simp
    show ?thesis
    proof (cases "length es = ?raw")
      case True
      with False last show ?thesis by (simp add: countEntries_def kEntrySize_def)
    next
      case less: False
      with le last have z: "positionAt bs (?raw - 1) = 0" by auto
      have "countEntries_loop bs 0 (?raw - 1) = length es"
        by (rule countEntries_loop_boundary) (use P less le in auto)
      with False z show ?thesis by (simp add: countEntries_def kEntrySize_def)
    qed
  qed
qed

subsection \<open>Lookup\<close>

lemma index_lookup_loop_boundary:
  assumes "low \<le> k" "k \<le> high" "\<And>i. i \<le> high \<Longrightarrow> ie_relativeOffset (entryAt idx i) \<le> t \<longleftrightarrow> i \<le> k"
  shows "index_lookup_loop idx t low high = k"
  using assms
proof (induction idx t low high rule: index_lookup_loop.induct)
  case (1 idx t low high)
  show ?case
  proof (cases "low < high")
    case True
    let ?mid = "low + (high - low + 1) div 2"
    have mid: "?mid \<le> high" "low < ?mid" using True by auto
    with "1.prems"(3) have P: "ie_relativeOffset (entryAt idx ?mid) \<le> t \<longleftrightarrow> ?mid \<le> k" by blast
    show ?thesis
    proof (cases "ie_relativeOffset (entryAt idx ?mid) \<le> t")
      case z: True
      have "index_lookup_loop idx t low high = index_lookup_loop idx t ?mid high"
        using True z by (subst index_lookup_loop.simps) (simp add: Let_def)
      also have "\<dots> = k"
        by (rule "1.IH"(1) [OF True refl z]) (use P z "1.prems" in auto)
      finally show ?thesis .
    next
      case False
      have "index_lookup_loop idx t low high = index_lookup_loop idx t low (?mid - 1)"
        using True False by (subst index_lookup_loop.simps) (simp add: Let_def)
      also have "\<dots> = k"
        by (rule "1.IH"(2) [OF True refl False]) (use P False mid "1.prems" in auto)
      finally show ?thesis .
    qed
  next
    case False
    with "1.prems" show ?thesis by (subst index_lookup_loop.simps) simp
  qed
qed

definition entries_upto :: "int \<Rightarrow> int \<Rightarrow> index_entry list \<Rightarrow> index_entry list" where
  "entries_upto base target es = filter (\<lambda>e. entry_offsetFrom e base \<le> target) es"

definition last_entry :: "index_entry list \<Rightarrow> index_entry" where
  "last_entry es = (if es = [] then no_entry else last es)"

lemma uint32_range: "0 \<le> uint (w :: 32 word)" "uint (w :: 32 word) \<le> UINT32_MAX"
  using unsigned_less [of w, where ?'a = int] by (simp_all add: UINT32_MAX_def)

lemma uint_word_of_delta: "0 \<le> d \<Longrightarrow> d \<le> UINT32_MAX \<Longrightarrow> uint (word_of_int d :: 32 word) = d"
  by (simp add: UINT32_MAX_def unsigned_of_int take_bit_int_eq_self)

lemma index_lookup_entries:
  assumes sorted: "sorted_wrt entry_lt (index_entries idx)" and live: "\<not> oi_spent idx"
    and target: "oi_baseOffset idx \<le> target"
  shows "index_lookup target idx = Inr (last_entry (entries_upto (oi_baseOffset idx) target (index_entries idx)))"
proof -
  let ?es = "index_entries idx"
  define d where "d = target - oi_baseOffset idx"
  define t where "t = (if d > UINT32_MAX then word_of_int UINT32_MAX else word_of_int d :: 32 word)"
  let ?P = "\<lambda>e. ie_relativeOffset e \<le> t"
  have "0 \<le> d" using target by (simp add: d_def)
  then have "uint t = min d UINT32_MAX"
    using uint_word_of_delta [of UINT32_MAX] uint_word_of_delta [of d] by (auto simp: t_def UINT32_MAX_def)
  then have P: "entry_offsetFrom e (oi_baseOffset idx) \<le> target \<longleftrightarrow> ?P e" for e
    using uint32_range [of "ie_relativeOffset e"] by (auto simp: entry_offsetFrom_def word_le_def d_def)
  have down: "entry_lt x y \<Longrightarrow> ?P y \<Longrightarrow> ?P x" for x y by (auto simp: entry_lt_def)
  define n where "n = length (takeWhile ?P ?es)"
  have upto: "entries_upto (oi_baseOffset idx) target ?es = takeWhile ?P ?es"
    unfolding entries_upto_def P by (rule filter_takeWhile_downward [OF sorted down])
  have nth: "?P (entryAt idx i) \<longleftrightarrow> i < n" if "i < oi_entryCount idx" for i
    using nth_takeWhile_downward [where P = ?P and i = i, OF sorted down] that by (simp add: n_def)
  have k: "n \<le> oi_entryCount idx" using length_takeWhile_le [of ?P ?es] by (simp add: n_def)
  have first: "ie_relativeOffset (entryAt idx 0) > t \<longleftrightarrow> n = 0" if "oi_entryCount idx > 0"
    using nth [OF that] by (auto simp: not_le)
  have step: "index_lookup target idx = (if oi_entryCount idx = 0 \<or> n = 0 then Inr no_entry
      else Inr (entryAt idx (index_lookup_loop idx t 0 (oi_entryCount idx - 1))))"
    using live target first by (auto simp: index_lookup_def index_requireLive_def Let_def
        simp flip: d_def t_def)
  show ?thesis
  proof (cases "n = 0")
    case True
    then show ?thesis by (simp add: step upto last_entry_def n_def)
  next
    case False
    then have "index_lookup_loop idx t 0 (oi_entryCount idx - 1) = n - 1"
    proof (intro index_lookup_loop_boundary)
      fix i assume "i \<le> oi_entryCount idx - 1"
      with False k nth [of i] show "ie_relativeOffset (entryAt idx i) \<le> t \<longleftrightarrow> i \<le> n - 1" by auto
    qed (use k in auto)
    moreover have "last (takeWhile ?P ?es) = entryAt idx (n - 1)"
    proof -
      have "?es ! (n - 1) = entryAt idx (n - 1)" using False k by simp
      with False show ?thesis by (subst last_conv_nth) (auto simp: takeWhile_nth n_def)
    qed
    moreover have "oi_entryCount idx \<noteq> 0" using False k by simp
    ultimately show ?thesis using False by (auto simp: step upto last_entry_def n_def)
  qed
qed


subsection \<open>Append\<close>

definition index_rejects :: "offset_index \<Rightarrow> int \<Rightarrow> 32 word \<Rightarrow> bool" where
  "index_rejects idx offset position \<longleftrightarrow> position = 0 \<or> offset < oi_baseOffset idx \<or>
     offset - oi_baseOffset idx > UINT32_MAX \<or>
     (index_entries idx \<noteq> [] \<and>
       (offset \<le> entry_offsetFrom (last (index_entries idx)) (oi_baseOffset idx) \<or>
        position \<le> ie_position (last (index_entries idx))))"

lemma index_append_alt:
  assumes "\<not> oi_spent idx" "oi_writable idx"
  shows "index_append offset position idx =
    (if index_rejects idx offset position then Inl OffsetInvariantViolated
     else if index_isFull idx then Inr idx
     else Inr (idx\<lparr>oi_bytes := writeBe32 (writeBe32 (oi_bytes idx) (8 * oi_entryCount idx)
                  (word_of_int (offset - oi_baseOffset idx))) (8 * oi_entryCount idx + 4) position,
                oi_entryCount := oi_entryCount idx + 1\<rparr>))"
proof -
  let ?b = "oi_baseOffset idx"
  let ?n = "oi_entryCount idx"
  have last: "last (index_entries idx) = entryAt idx (?n - 1)" if "0 < ?n"
    using that by (subst last_conv_nth) (auto simp flip: length_greater_0_conv)
  have ne: "index_entries idx \<noteq> [] \<longleftrightarrow> 0 < ?n" by (simp flip: length_greater_0_conv)
  have cmp: "word_of_int (offset - ?b) \<le> ie_relativeOffset e \<longleftrightarrow> offset \<le> entry_offsetFrom e ?b"
    if "?b \<le> offset" "offset - ?b \<le> UINT32_MAX" for e
    using that uint_word_of_delta [of "offset - ?b"] by (auto simp: word_le_def entry_offsetFrom_def)
  show ?thesis
  proof (cases "position = 0 \<or> offset < ?b \<or> offset - ?b > UINT32_MAX")
    case True
    with assms show ?thesis
      by (auto simp: index_append_def index_requireLive_def index_rejects_def require_def Let_def)
  next
    case False
    then have c: "word_of_int (offset - ?b) \<le> ie_relativeOffset e \<longleftrightarrow> offset \<le> entry_offsetFrom e ?b" for e
      by (intro cmp) auto
    from False assms show ?thesis
      unfolding index_append_def index_requireLive_def index_rejects_def ne
      by (cases "0 < ?n") (simp_all add: last c require_def Let_def index_isFull_def kEntrySize_def mult.commute
          del: of_int_diff)
  qed
qed

lemma index_append_bytes:
  assumes "index_ok idx" "oi_writable idx" "\<not> index_isFull idx"
  shows "writeBe32 (writeBe32 (oi_bytes idx) (8 * oi_entryCount idx) r) (8 * oi_entryCount idx + 4) p
    = concat (map entry_bytes (index_entries idx @ [\<lparr>ie_relativeOffset = r, ie_position = p\<rparr>])) @
      replicate (length (oi_bytes idx) - 8 * (oi_entryCount idx + 1)) 0"
proof -
  let ?xs = "concat (map entry_bytes (index_entries idx))"
  let ?m = "length (oi_bytes idx) - 8 * (oi_entryCount idx + 1)"
  have len: "length ?xs = 8 * oi_entryCount idx" by simp
  have "length (oi_bytes idx) - 8 * oi_entryCount idx = 4 + (4 + ?m)"
    using assms by (simp add: index_ok_def index_isFull_def)
  moreover have "oi_bytes idx = ?xs @ replicate (length (oi_bytes idx) - 8 * oi_entryCount idx) 0"
    using assms(1) by (simp add: index_ok_def)
  ultimately have "oi_bytes idx = ?xs @ replicate 4 0 @ replicate 4 0 @ replicate ?m 0"
    by (simp only: replicate_add)
  then have "writeBe32 (oi_bytes idx) (8 * oi_entryCount idx) r = ?xs @ be_bytes 4 r @ replicate 4 0 @ replicate ?m 0"
    using writeBe32_append [OF len, of "replicate 4 0" "replicate 4 0 @ replicate ?m 0" r] by simp
  then show ?thesis
    using writeBe32_append [of "?xs @ be_bytes 4 r" "8 * oi_entryCount idx + 4" "replicate 4 0" "replicate ?m 0" p]
    by (simp add: entry_bytes_def)
qed

lemma index_append_cases:
  assumes "index_ok idx" and "oi_writable idx"
  shows "case index_append offset position idx of
      Inl e \<Rightarrow> e = OffsetInvariantViolated \<and> index_rejects idx offset position
    | Inr idx' \<Rightarrow> \<not> index_rejects idx offset position \<and> index_ok idx' \<and>
        oi_baseOffset idx' = oi_baseOffset idx \<and> oi_maxEntries idx' = oi_maxEntries idx \<and>
        index_entries idx' = (if index_isFull idx then index_entries idx
          else index_entries idx @
            [\<lparr>ie_relativeOffset = word_of_int (offset - oi_baseOffset idx), ie_position = position\<rparr>])"
proof -
  let ?es = "index_entries idx" and ?b = "oi_baseOffset idx"
  define e where "e = \<lparr>ie_relativeOffset = word_of_int (offset - ?b) :: 32 word, ie_position = position\<rparr>"
  have live: "\<not> oi_spent idx" using assms(1) by (simp add: index_ok_def)
  show ?thesis
  proof (cases "index_rejects idx offset position \<or> index_isFull idx")
    case True
    with assms live show ?thesis by (auto simp: index_append_alt)
  next
    case False
    define bs where "bs = concat (map entry_bytes (?es @ [e])) @
      replicate (length (oi_bytes idx) - 8 * (oi_entryCount idx + 1)) 0"
    define idx' where "idx' = idx\<lparr>oi_bytes := bs, oi_entryCount := oi_entryCount idx + 1\<rparr>"
    have app: "index_append offset position idx = Inr idx'"
      using False index_append_bytes [OF assms, of "word_of_int (offset - ?b)" position]
      by (simp add: index_append_alt live assms(2) idx'_def bs_def e_def)
    have entries: "index_entries idx' = ?es @ [e]"
      by (rule index_entries_bytes [of _ _ "replicate (length (oi_bytes idx) - 8 * (oi_entryCount idx + 1)) 0"])
        (simp_all add: idx'_def bs_def)
    have off: "0 \<le> offset - ?b" "offset - ?b \<le> UINT32_MAX" "position \<noteq> 0"
      using False by (auto simp: index_rejects_def)
    have lt: "entry_lt x e" if "x \<in> set ?es" for x
    proof -
      have "entry_lt (last ?es) e"
        using False off that uint_word_of_delta [of "offset - ?b"]
        by (auto simp: index_rejects_def entry_lt_def e_def entry_offsetFrom_def word_less_def word_le_def)
      moreover have "x = last ?es \<or> entry_lt x (last ?es)"
        using assms(1) that
        by (cases ?es rule: rev_cases) (auto simp: index_ok_def entries_sorted_def sorted_wrt_append)
      ultimately show ?thesis by (auto simp: entry_lt_def)
    qed
    have sorted: "entries_sorted (?es @ [e])"
      using assms(1) lt off by (auto simp: index_ok_def entries_sorted_def sorted_wrt_append e_def)
    have len: "length bs = length (oi_bytes idx)"
      using assms False by (simp add: bs_def index_ok_def index_isFull_def)
    have "index_ok idx'"
      using assms False sorted len
      by (simp add: index_ok_def entries) (simp add: idx'_def bs_def index_isFull_def)
    with app entries False show ?thesis by (simp add: e_def idx'_def)
  qed
qed

subsection \<open>Reopening\<close>

lemma index_openSealed_entries:
  assumes "index_ok idx" "f = concat (map entry_bytes (index_entries idx)) @ replicate n 0"
  shows "index_entries (index_openSealed f b) = index_entries idx" "index_ok (index_openSealed f b)"
    "oi_baseOffset (index_openSealed f b) = b"
proof -
  let ?es = "index_entries idx" and ?i = "index_openSealed f b"
  have pos: "list_all (\<lambda>e. ie_position e \<noteq> 0) ?es" and sorted: "entries_sorted ?es"
    using assms(1) by (simp_all add: index_ok_def entries_sorted_def)
  have count: "oi_entryCount ?i = length ?es"
    using countEntries_entries [OF assms(2) pos] by (simp add: index_openSealed_def Let_def)
  then show es: "index_entries ?i = ?es"
    using assms(2) by (intro index_entries_bytes) (simp_all add: index_openSealed_def Let_def)
  from es count sorted show "index_ok ?i"
    by (simp add: index_ok_def) (simp add: index_openSealed_def Let_def assms(2))
  show "oi_baseOffset ?i = b" by (simp add: index_openSealed_def Let_def)
qed

lemma index_flushAndTrim_entries:
  assumes "index_ok idx" "oi_writable idx"
  shows "index_flushAndTrim idx = Inr (concat (map entry_bytes (index_entries idx)) @ replicate 0 0,
    idx\<lparr>oi_bytes := [], oi_writable := False, oi_spent := True\<rparr>)"
proof -
  obtain n where n: "oi_bytes idx = concat (map entry_bytes (index_entries idx)) @ replicate n 0"
    using assms(1) unfolding index_ok_def by blast
  with assms show ?thesis
    by (simp add: index_flushAndTrim_def index_requireLive_def index_ok_def usedBytes_def kEntrySize_def)
qed

subsection \<open>The contract a segment relies on\<close>

text \<open>
  All a segment asks of its index is a hint: either the front of the file, or one of the
  (offset, byte position) pairs recorded, at or before the target.
\<close>

locale sparse_index =
  fixes find :: "int \<Rightarrow> 'i \<Rightarrow> index_entry result"
    and hints :: "'i \<Rightarrow> (int \<times> nat) list"
    and first :: "'i \<Rightarrow> int"
    and good :: "'i \<Rightarrow> bool"
  assumes find_hint: "good i \<Longrightarrow> first i \<le> target \<Longrightarrow> \<exists>e. find target i = Inr e \<and>
    (unat (ie_position e) = 0 \<or> (\<exists>off \<le> target. (off, unat (ie_position e)) \<in> set (hints i)))"

definition index_hints :: "offset_index \<Rightarrow> (int \<times> nat) list" where
  "index_hints idx = map (\<lambda>e. (entry_offsetFrom e (oi_baseOffset idx), unat (ie_position e))) (index_entries idx)"

lemma last_entry_cases:
  "last_entry (filter P es) = no_entry \<or> last_entry (filter P es) \<in> set es \<and> P (last_entry (filter P es))"
proof (cases "filter P es = []")
  case False
  then have "last (filter P es) \<in> set (filter P es)" by (rule last_in_set)
  with False show ?thesis by (simp add: last_entry_def)
qed (simp add: last_entry_def)

interpretation offset_index: sparse_index index_lookup index_hints oi_baseOffset index_ok
proof unfold_locales
  fix idx target assume ok: "index_ok idx" and t: "oi_baseOffset idx \<le> target"
  let ?e = "last_entry (entries_upto (oi_baseOffset idx) target (index_entries idx))"
  have "?e = no_entry \<or> ?e \<in> set (index_entries idx) \<and> entry_offsetFrom ?e (oi_baseOffset idx) \<le> target"
    unfolding entries_upto_def by (rule last_entry_cases)
  then have "unat (ie_position ?e) = 0 \<or> (\<exists>off \<le> target. (off, unat (ie_position ?e)) \<in> set (index_hints idx))"
    by (auto simp: no_entry_def index_hints_def)
  moreover have "index_lookup target idx = Inr ?e"
    using ok t by (intro index_lookup_entries) (simp_all add: index_ok_def entries_sorted_def)
  ultimately show "\<exists>e. index_lookup target idx = Inr e \<and>
      (unat (ie_position e) = 0 \<or> (\<exists>off \<le> target. (off, unat (ie_position e)) \<in> set (index_hints idx)))"
    by blast
qed

text \<open>Adding a hint keeps the others, or drops the new one when there is no room.\<close>

locale growing_index = sparse_index find hints first good
  for find :: "int \<Rightarrow> 'i \<Rightarrow> index_entry result" and hints :: "'i \<Rightarrow> (int \<times> nat) list"
    and first :: "'i \<Rightarrow> int" and good :: "'i \<Rightarrow> bool" +
  fixes add :: "int \<Rightarrow> 32 word \<Rightarrow> 'i \<Rightarrow> 'i result"
  assumes add_hint: "good i \<Longrightarrow> add off pos i = Inr j \<Longrightarrow>
    good j \<and> first j = first i \<and> (hints j = hints i \<or> hints j = hints i @ [(off, unat pos)])"
begin

lemma add_subset:
  "good i \<Longrightarrow> add off pos i = Inr j \<Longrightarrow> set (hints j) \<subseteq> insert (off, unat pos) (set (hints i))"
  using add_hint [of i off pos j] by auto

end

interpretation growing_offset_index:
  growing_index index_lookup index_hints oi_baseOffset index_ok index_append
proof unfold_locales
  fix idx off pos idx' assume ok: "index_ok idx" and app: "index_append off pos idx = Inr idx'"
  have w: "oi_writable idx" using app by (auto simp: index_append_def bind_r_Inr_iff)
  have c: "\<not> index_rejects idx off pos" "index_ok idx'" "oi_baseOffset idx' = oi_baseOffset idx"
    "index_entries idx' = (if index_isFull idx then index_entries idx else index_entries idx @
      [\<lparr>ie_relativeOffset = word_of_int (off - oi_baseOffset idx), ie_position = pos\<rparr>])"
    using index_append_cases [OF ok w, of off pos] app by simp_all
  have "uint (word_of_int (off - oi_baseOffset idx) :: 32 word) = off - oi_baseOffset idx"
    using c(1) by (intro uint_word_of_delta) (auto simp: index_rejects_def)
  then show "index_ok idx' \<and> oi_baseOffset idx' = oi_baseOffset idx \<and>
      (index_hints idx' = index_hints idx \<or> index_hints idx' = index_hints idx @ [(off, unat pos)])"
    using c by (auto simp: index_hints_def entry_offsetFrom_def)
qed

subsection \<open>Properties\<close>

text \<open>
  On a well-formed index, \<open>lookup\<close> by binary search returns the greatest entry at or
  below the target offset, and the entry \<open>{0, 0}\<close> that means the front of the segment when
  there is none, however far the target lies past the end.
\<close>

lemma index_lookup_greatest:
  assumes "index_ok idx" and "oi_baseOffset idx \<le> target"
  shows "index_lookup target idx =
    Inr (last_entry (filter (\<lambda>e. entry_offsetFrom e (oi_baseOffset idx) \<le> target) (index_entries idx)))"
  using assms index_lookup_entries [of idx target]
  by (simp add: index_ok_def entries_sorted_def entries_upto_def)

text \<open>
  Appending to a well-formed writable index keeps it well formed. It is refused exactly
  when the position is the reserved 0, the offset is outside the 32 bits above the base, or
  either does not advance past the last entry; otherwise the entry is added behind the others,
  or dropped, leaving the index as it was, when the index is full.
\<close>

lemma index_append_correct:
  assumes "index_ok idx" and "oi_writable idx"
  shows "case index_append offset position idx of
      Inl e \<Rightarrow> e = OffsetInvariantViolated \<and> index_rejects idx offset position
    | Inr idx' \<Rightarrow> \<not> index_rejects idx offset position \<and> index_ok idx' \<and>
        oi_baseOffset idx' = oi_baseOffset idx \<and> oi_maxEntries idx' = oi_maxEntries idx \<and>
        index_entries idx' = (if index_isFull idx then index_entries idx
          else index_entries idx @
            [\<lparr>ie_relativeOffset = word_of_int (offset - oi_baseOffset idx), ie_position = position\<rparr>])"
  using assms by (rule index_append_cases)

text \<open>
  An index survives its file: whether it was trimmed when its segment was sealed or left
  preallocated, with any number of zero bytes behind it, by a crash, opening the file finds
  exactly the entries appended, and every lookup answers as before.
\<close>

lemma index_reopen:
  assumes "index_ok idx" and "oi_writable idx"
  shows "\<exists>file spent. index_flushAndTrim idx = Inr (file, spent) \<and> length file = 8 * oi_entryCount idx \<and>
    index_append offset position spent = Inl Error \<and>
    (\<forall>f. f = file \<or> f = oi_bytes idx \<longrightarrow>
       index_entries (index_openSealed f (oi_baseOffset idx)) = index_entries idx \<and>
       index_ok (index_openSealed f (oi_baseOffset idx)) \<and>
       (target \<ge> oi_baseOffset idx \<longrightarrow>
          index_lookup target (index_openSealed f (oi_baseOffset idx)) = index_lookup target idx))"
proof -
  let ?es = "index_entries idx" and ?b = "oi_baseOffset idx"
  let ?file = "concat (map entry_bytes ?es) @ replicate 0 (0 :: byte)"
  obtain n where n: "oi_bytes idx = concat (map entry_bytes ?es) @ replicate n 0"
    using assms(1) unfolding index_ok_def by blast
  have "index_entries (index_openSealed f ?b) = ?es \<and> index_ok (index_openSealed f ?b) \<and>
      (target \<ge> ?b \<longrightarrow> index_lookup target (index_openSealed f ?b) = index_lookup target idx)"
    if f: "f = concat (map entry_bytes ?es) @ replicate m 0" for f m
    using index_openSealed_entries [OF assms(1) f, of ?b] assms(1)
      index_lookup_entries [of "index_openSealed f ?b" target] index_lookup_entries [of idx target]
    by (simp add: index_ok_def entries_sorted_def)
  from this [of ?file] this [of "oi_bytes idx", OF n] show ?thesis
    using index_flushAndTrim_entries [OF assms] by (auto simp: index_append_def index_requireLive_def)
qed

end
