(* ===== verification/Naming.thy ===== *)
theory Naming
  imports Prelude "HOL-Library.Char_ord" "HOL-Library.List_Lexorder"
begin

text \<open>
  The names the broker derives from offsets and partitions, and parses back from a directory
  listing: \<^verbatim>\<open>common/types.cpp\<close>, the segment file names of
  \<^verbatim>\<open>storage/segment.cpp\<close> and the directory names of
  \<^verbatim>\<open>storage/log_manager.cpp\<close>. A path is its last component.
\<close>

subsection \<open>Decimal numbers\<close>

definition digit_char :: "nat \<Rightarrow> char" where
  "digit_char d = char_of (48 + d)"

definition digit_value :: "char \<Rightarrow> nat" where
  "digit_value c = of_char c - 48"

definition isdigit :: "char \<Rightarrow> bool" where
  "isdigit c \<longleftrightarrow> 48 \<le> (of_char c :: nat) \<and> (of_char c :: nat) \<le> 57"

fun decimal :: "nat \<Rightarrow> string" where
  "decimal n = (if n < 10 then [digit_char n] else decimal (n div 10) @ [digit_char (n mod 10)])"

definition parse_decimal :: "string \<Rightarrow> nat" where
  "parse_decimal cs = foldl (\<lambda>v c. 10 * v + digit_value c) 0 cs"

text \<open>\<^verbatim>\<open>std::to_string\<close>, and \<^verbatim>\<open>stoll\<close> / \<^verbatim>\<open>stoi\<close> on a digit string:
\<open>None\<close> is \<^verbatim>\<open>out_of_range\<close>.\<close>

definition to_string :: "int \<Rightarrow> string" where
  "to_string x = (if x < 0 then CHR ''-'' # decimal (nat (- x)) else decimal (nat x))"

definition stoll :: "string \<Rightarrow> int option" where
  "stoll cs = (let v = int (parse_decimal cs) in if v < 2 ^ 63 then Some v else None)"

definition stoi :: "string \<Rightarrow> int option" where
  "stoi cs = (let v = int (parse_decimal cs) in if v < 2 ^ 31 then Some v else None)"

declare decimal.simps [simp del]

lemma of_char_digit: "d < 10 \<Longrightarrow> (of_char (digit_char d) :: nat) = 48 + d"
  by (simp add: digit_char_def)

lemma digit_value_digit_char [simp]: "d < 10 \<Longrightarrow> digit_value (digit_char d) = d"
  by (simp add: digit_value_def of_char_digit)

lemma isdigit_digit_char [simp]: "d < 10 \<Longrightarrow> isdigit (digit_char d)"
  by (simp add: isdigit_def of_char_digit)

lemma digit_char_digit_value: "isdigit c \<Longrightarrow> digit_char (digit_value c) = c"
  by (simp add: digit_char_def digit_value_def isdigit_def)

lemma digit_value_less: "isdigit c \<Longrightarrow> digit_value c < 10"
  unfolding digit_value_def isdigit_def by linarith

lemma parse_decimal_simps [simp]:
  "parse_decimal [] = 0"
  "parse_decimal (cs @ [c]) = 10 * parse_decimal cs + digit_value c"
  by (simp_all add: parse_decimal_def)

lemma decimal_digits: "list_all isdigit (decimal n)"
  by (induction n rule: decimal.induct) (subst decimal.simps, simp)

lemma parse_decimal_decimal [simp]: "parse_decimal (decimal n) = n"
proof (induction n rule: decimal.induct)
  case (1 n)
  show ?case
  proof (cases "n < 10")
    case True
    then have "decimal n = [] @ [digit_char n]" by (simp add: decimal.simps)
    with True show ?thesis by (simp only: parse_decimal_simps digit_value_digit_char)
  next
    case False
    with 1 show ?thesis by (subst decimal.simps) simp
  qed
qed

lemma decimal_not_Nil [simp]: "decimal n \<noteq> []"
  by (simp add: decimal.simps)

lemma length_decimal: "n < 10 ^ k \<Longrightarrow> 0 < k \<Longrightarrow> length (decimal n) \<le> k"
proof (induction k arbitrary: n)
  case (Suc k)
  show ?case
  proof (cases "n < 10")
    case True
    then show ?thesis by (simp add: decimal.simps [of n])
  next
    case False
    with Suc.prems have "0 < k" by (cases k) simp_all
    moreover have "n div 10 < 10 ^ k" using Suc.prems by (simp add: less_mult_imp_div_less mult.commute)
    ultimately have "length (decimal (n div 10)) \<le> k" by (rule Suc.IH [rotated])
    with False show ?thesis by (simp add: decimal.simps [of n])
  qed
qed simp

lemma parse_decimal_replicate [simp]: "parse_decimal (replicate k CHR ''0'' @ cs) = parse_decimal cs"
proof -
  have "foldl (\<lambda>v c. 10 * v + digit_value c) 0 (replicate k CHR ''0'') = 0"
    by (induction k) (simp_all add: digit_value_def)
  then show ?thesis by (simp add: parse_decimal_def)
qed

text \<open>A digit string is determined by its length and its value.\<close>

lemma parse_decimal_less: "list_all isdigit cs \<Longrightarrow> parse_decimal cs < 10 ^ length cs"
proof (induction cs rule: rev_induct)
  case (snoc c cs)
  then show ?case using digit_value_less [of c] by simp
qed simp

lemma parse_decimal_inj:
  assumes "list_all isdigit cs" "list_all isdigit ds" "length cs = length ds"
    "parse_decimal cs = parse_decimal ds"
  shows "cs = ds"
  using assms
proof (induction cs arbitrary: ds rule: rev_induct)
  case (snoc c cs)
  then obtain d es where ds: "ds = es @ [d]" by (cases ds rule: rev_cases) auto
  with snoc.prems have "10 * parse_decimal cs + digit_value c = 10 * parse_decimal es + digit_value d"
    and "isdigit c" "isdigit d" by simp_all
  then have "parse_decimal cs = parse_decimal es" "digit_value c = digit_value d"
    using digit_value_less [of c] digit_value_less [of d] by presburger+
  then show ?case
    using snoc ds \<open>isdigit c\<close> \<open>isdigit d\<close> by (simp) (metis digit_char_digit_value)
qed simp

subsection \<open>Segment file names\<close>

definition kLogSuffix :: string where "kLogSuffix = ''.log''"
definition kIndexSuffix :: string where "kIndexSuffix = ''.index''"
definition kNameDigits :: nat where "kNameDigits = 20"

text \<open>\<^verbatim>\<open>format("{:020d}")\<close>: the sign counts towards the width and the zeros follow it.\<close>

definition segmentBaseName :: "int \<Rightarrow> string" where
  "segmentBaseName base =
    (let ds = decimal (nat \<bar>base\<bar>) in
     if base < 0 then CHR ''-'' # replicate (kNameDigits - 1 - length ds) CHR ''0'' @ ds
     else replicate (kNameDigits - length ds) CHR ''0'' @ ds)"

definition segmentLogPath :: "int \<Rightarrow> string" where
  "segmentLogPath base = segmentBaseName base @ kLogSuffix"

definition segmentIndexPath :: "int \<Rightarrow> string" where
  "segmentIndexPath base = segmentBaseName base @ kIndexSuffix"

definition baseOffsetFromLogPath :: "string \<Rightarrow> int result" where
  "baseOffsetFromLogPath name =
    (if length name \<noteq> kNameDigits + length kLogSuffix \<or> drop kNameDigits name \<noteq> kLogSuffix
     then Inl CorruptData
     else if \<not> list_all isdigit (take kNameDigits name) then Inl CorruptData
     else case stoll (take kNameDigits name) of Some v \<Rightarrow> Inr v | None \<Rightarrow> Inl CorruptData)"

text \<open>\<^verbatim>\<open>replace_extension(".index")\<close> on a name that ends in \<^verbatim>\<open>.log\<close>.\<close>

definition index_name :: "string \<Rightarrow> string" where
  "index_name name = take (length name - length kLogSuffix) name @ kIndexSuffix"

lemmas name_consts = kLogSuffix_def kIndexSuffix_def kNameDigits_def

lemma length_decimal_int64: "0 \<le> x \<Longrightarrow> x < 2 ^ 63 \<Longrightarrow> length (decimal (nat x)) \<le> 19"
  by (rule length_decimal) (simp_all add: nat_less_iff)

lemma segmentBaseName_facts:
  assumes "0 \<le> base" "base < 2 ^ 63"
  shows "length (segmentBaseName base) = 20" "list_all isdigit (segmentBaseName base)"
    "parse_decimal (segmentBaseName base) = nat base"
  using assms length_decimal_int64 [OF assms] decimal_digits [of "nat base"]
  by (simp_all add: segmentBaseName_def Let_def kNameDigits_def list_all_iff isdigit_def)

lemma baseOffsetFromLogPath_segmentLogPath:
  assumes "0 \<le> base" "base < 2 ^ 63"
  shows "baseOffsetFromLogPath (segmentLogPath base) = Inr base"
  using assms segmentBaseName_facts [OF assms]
  by (simp add: baseOffsetFromLogPath_def segmentLogPath_def name_consts stoll_def)

lemma baseOffsetFromLogPath_Inr:
  assumes "baseOffsetFromLogPath name = Inr base"
  shows "0 \<le> base" "base < 2 ^ 63" "name = segmentLogPath base"
proof -
  let ?ds = "take 20 name"
  from assms have f: "length name = 24" "drop 20 name = ''.log''" "list_all isdigit ?ds"
    and s: "stoll ?ds = Some base"
    by (auto simp: baseOffsetFromLogPath_def name_consts split: if_splits option.splits)
  from s show range: "0 \<le> base" "base < 2 ^ 63"
    by (auto simp: stoll_def Let_def split: if_splits)
  from s have "nat base = parse_decimal ?ds"
    by (auto simp: stoll_def Let_def split: if_splits)
  then have "?ds = segmentBaseName base"
    using f segmentBaseName_facts [OF range] by (intro parse_decimal_inj) simp_all
  then show "name = segmentLogPath base"
    using f(2) by (metis append_take_drop_id kLogSuffix_def segmentLogPath_def)
qed

text \<open>
  A file name is accepted as a segment log, and read as an offset, exactly when it is the
  name the broker gives the segment with that base offset; any other name is refused, so no
  stray file becomes a phantom segment.
\<close>

lemma segment_name_iff:
  "baseOffsetFromLogPath name = Inr base \<longleftrightarrow>
    name = segmentLogPath base \<and> 0 \<le> base \<and> base < 2 ^ 63"
  using baseOffsetFromLogPath_Inr [of name base] baseOffsetFromLogPath_segmentLogPath [of base] by blast

lemma parse_decimal_Cons:
  "parse_decimal (c # cs) = digit_value c * 10 ^ length cs + parse_decimal cs"
  by (induction cs rule: rev_induct)
    (simp_all add: algebra_simps parse_decimal_simps(2) flip: append_Cons, simp add: parse_decimal_def)

lemma isdigit_less_iff: "isdigit c \<Longrightarrow> isdigit d \<Longrightarrow> c < d \<longleftrightarrow> digit_value c < digit_value d"
  by (auto simp: less_char_def isdigit_def digit_value_def)

lemma isdigit_eq_iff: "isdigit c \<Longrightarrow> isdigit d \<Longrightarrow> c = d \<longleftrightarrow> digit_value c = digit_value d"
  by (metis digit_char_digit_value)

lemma digits_less_iff:
  assumes "list_all isdigit cs" "list_all isdigit ds" "length cs = length ds"
  shows "cs < ds \<longleftrightarrow> parse_decimal cs < parse_decimal ds"
  using assms(3,1,2)
proof (induction cs ds rule: list_induct2)
  case (Cons c cs d ds)
  let ?p = "10 ^ length ds"
  have less: "parse_decimal cs < ?p" "parse_decimal ds < ?p"
    using Cons parse_decimal_less [of cs] parse_decimal_less [of ds] by simp_all
  have "digit_value c * ?p + ?p \<le> digit_value d * ?p" if "digit_value c < digit_value d"
    using that by (metis Suc_leI add.commute mult_Suc mult_le_mono1)
  moreover have "digit_value d * ?p + ?p \<le> digit_value c * ?p" if "digit_value d < digit_value c"
    using that by (metis Suc_leI add.commute mult_Suc mult_le_mono1)
  ultimately show ?case
    using Cons less isdigit_less_iff [of c d] isdigit_eq_iff [of c d]
    by (cases "digit_value c" "digit_value d" rule: linorder_cases) (simp_all add: parse_decimal_Cons)
qed simp

lemma less_append_same: "length xs = length ys \<Longrightarrow> xs @ zs < ys @ zs \<longleftrightarrow> xs < (ys :: string)"
  by (induction xs ys rule: list_induct2) auto

text \<open>
  Sorting segment file names as strings sorts the segments by base offset.
\<close>

lemma segment_names_ordered:
  assumes "0 \<le> a" "a < 2 ^ 63" "0 \<le> b" "b < 2 ^ 63"
  shows "segmentLogPath a < segmentLogPath b \<longleftrightarrow> a < b"
proof -
  have "segmentLogPath a < segmentLogPath b \<longleftrightarrow> segmentBaseName a < segmentBaseName b"
    unfolding segmentLogPath_def by (rule less_append_same) (use assms in \<open>simp add: segmentBaseName_facts\<close>)
  also have "\<dots> \<longleftrightarrow> nat a < nat b"
    using digits_less_iff [of "segmentBaseName a" "segmentBaseName b"] assms
    by (simp add: segmentBaseName_facts)
  finally show ?thesis using assms by auto
qed

lemma index_name_segmentLogPath [simp]: "index_name (segmentLogPath base) = segmentIndexPath base"
  by (simp add: index_name_def segmentLogPath_def segmentIndexPath_def)

lemma segmentLogPath_inj:
  "0 \<le> a \<Longrightarrow> a < 2 ^ 63 \<Longrightarrow> 0 \<le> b \<Longrightarrow> b < 2 ^ 63 \<Longrightarrow> segmentLogPath a = segmentLogPath b \<longleftrightarrow> a = b"
  by (metis baseOffsetFromLogPath_segmentLogPath sum.inject(2))

lemma segmentLogPath_neq_index [simp]: "segmentLogPath a \<noteq> segmentIndexPath b"
proof
  have "last (segmentLogPath a) = CHR ''g''" "last (segmentIndexPath b) = CHR ''x''"
    by (simp_all add: segmentLogPath_def segmentIndexPath_def name_consts)
  moreover assume "segmentLogPath a = segmentIndexPath b"
  ultimately show False by simp
qed

subsection \<open>Partition directory names\<close>

record topic_partition =
  tp_topic :: string
  tp_partition :: int

definition tp_toString :: "topic_partition \<Rightarrow> string" where
  "tp_toString tp = tp_topic tp @ CHR ''-'' # to_string (tp_partition tp)"

definition rfind_dash :: "string \<Rightarrow> nat option" where
  "rfind_dash name = (let behind = takeWhile (\<lambda>c. c \<noteq> CHR ''-'') (rev name) in
     if length behind = length name then None else Some (length name - 1 - length behind))"

definition topicPartitionFromDirName :: "string \<Rightarrow> topic_partition result" where
  "topicPartitionFromDirName name = (case rfind_dash name of
      None \<Rightarrow> Inl CorruptData
    | Some dash \<Rightarrow>
        if dash = 0 then Inl CorruptData
        else if dash + 1 = length name then Inl CorruptData
        else if \<not> list_all isdigit (drop (dash + 1) name) then Inl CorruptData
        else case stoi (drop (dash + 1) name) of
            None \<Rightarrow> Inl CorruptData
          | Some p \<Rightarrow> let tp = \<lparr>tp_topic = take dash name, tp_partition = p\<rparr> in
              if tp_toString tp \<noteq> name then Inl CorruptData else Inr tp)"

definition isalnum :: "char \<Rightarrow> bool" where
  "isalnum c \<longleftrightarrow> isdigit c \<or> (65 \<le> (of_char c :: nat) \<and> (of_char c :: nat) \<le> 90) \<or>
     (97 \<le> (of_char c :: nat) \<and> (of_char c :: nat) \<le> 122)"

definition isUsableTopicName :: "string \<Rightarrow> bool" where
  "isUsableTopicName topic \<longleftrightarrow> \<not> (topic = [] \<or> topic = ''.'' \<or> topic = ''..'') \<and>
     list_all (\<lambda>c. isalnum c \<or> c = CHR ''.'' \<or> c = CHR ''_'' \<or> c = CHR ''-'') topic"

lemma dash_not_in_digits: "list_all isdigit ds \<Longrightarrow> CHR ''-'' \<notin> set ds"
  by (auto simp: list_all_iff isdigit_def)

lemma rfind_dash_append: "CHR ''-'' \<notin> set ds \<Longrightarrow> rfind_dash (t @ CHR ''-'' # ds) = Some (length t)"
proof -
  assume "CHR ''-'' \<notin> set ds"
  then have "takeWhile (\<lambda>c. c \<noteq> CHR ''-'') (rev ds @ CHR ''-'' # rev t) = rev ds"
    by (subst takeWhile_append2) auto
  then show ?thesis by (simp add: rfind_dash_def)
qed

lemma rfind_dash_bound: "rfind_dash name = Some d \<Longrightarrow> d < length name"
  by (cases name) (auto simp: rfind_dash_def Let_def split: if_splits)

text \<open>
  A directory name is read as a topic and partition exactly when it is the name the broker
  gives that partition's directory, dashes in the topic and all: parsing at the last dash
  inverts \<open>toString\<close>, and no second spelling is accepted.
\<close>

lemma partition_dir_name_iff:
  "topicPartitionFromDirName name = Inr tp \<longleftrightarrow>
    name = tp_toString tp \<and> tp_topic tp \<noteq> [] \<and> 0 \<le> tp_partition tp \<and> tp_partition tp < 2 ^ 31"
proof
  assume "topicPartitionFromDirName name = Inr tp"
  then obtain d v where "rfind_dash name = Some d" "d \<noteq> 0" "stoi (drop (d + 1) name) = Some v"
    "tp = \<lparr>tp_topic = take d name, tp_partition = v\<rparr>" "tp_toString tp = name"
    by (auto simp: topicPartitionFromDirName_def Let_def split: option.splits if_splits)
  then show "name = tp_toString tp \<and> tp_topic tp \<noteq> [] \<and> 0 \<le> tp_partition tp \<and> tp_partition tp < 2 ^ 31"
    using rfind_dash_bound [of name d] by (auto simp: stoi_def Let_def split: if_splits)
next
  assume a: "name = tp_toString tp \<and> tp_topic tp \<noteq> [] \<and> 0 \<le> tp_partition tp \<and> tp_partition tp < 2 ^ 31"
  let ?ds = "decimal (nat (tp_partition tp))"
  have n: "name = tp_topic tp @ CHR ''-'' # ?ds" using a by (simp add: tp_toString_def to_string_def)
  moreover have "rfind_dash name = Some (length (tp_topic tp))"
    unfolding n by (rule rfind_dash_append) (simp add: dash_not_in_digits decimal_digits)
  ultimately show "topicPartitionFromDirName name = Inr tp"
    using a by (simp add: topicPartitionFromDirName_def decimal_digits stoi_def Let_def tp_toString_def
        to_string_def)
qed

end
