(* ===== verification/Segment.thy ===== *)
theory Segment
  imports Record_Batch Offset_Index Naming
begin

text \<open>
  \<^verbatim>\<open>storage/segment.cpp\<close>: one file of record batches and its sparse index, readable
  while it is written, sealed once it is full. The log file is its bytes; a directory, where an
  operation looks files up by name, is a map from names to contents. The clock is an argument.
\<close>

subsection \<open>State\<close>

record roll_policy =
  rp_maxSegmentBytes :: nat
  rp_maxSegmentAgeMs :: int
  rp_indexIntervalBytes :: nat
  rp_maxIndexBytes :: nat

record segment =
  sg_log :: "byte list"
  sg_index :: offset_index
  sg_baseOffset :: int
  sg_nextOffset :: int
  sg_largestTimestamp :: int

record active_segment = segment +
  sg_policy :: roll_policy
  sg_bytesSinceIndexEntry :: nat
  sg_firstAppendMs :: int

type_synonym directory = "string \<Rightarrow> byte list option"

definition EEXIST :: int where "EEXIST = 17"

definition sizeBytes :: "'a segment_scheme \<Rightarrow> nat" where
  "sizeBytes seg = length (sg_log seg)"

definition segment_isEmpty :: "'a segment_scheme \<Rightarrow> bool" where
  "segment_isEmpty seg \<longleftrightarrow> sg_nextOffset seg = sg_baseOffset seg"

definition segment_contains :: "int \<Rightarrow> 'a segment_scheme \<Rightarrow> bool" where
  "segment_contains offset seg \<longleftrightarrow> offset \<ge> sg_baseOffset seg \<and> offset < sg_nextOffset seg"

definition logFileName :: "'a segment_scheme \<Rightarrow> string" where
  "logFileName seg = segmentLogPath (sg_baseOffset seg)"

definition indexFileName :: "'a segment_scheme \<Rightarrow> string" where
  "indexFileName seg = segmentIndexPath (sg_baseOffset seg)"

subsection \<open>Walking the file\<close>

record batch_at =
  at_header :: batch_header
  at_position :: nat
  at_totalSize :: nat

definition batchAt :: "byte list \<Rightarrow> nat \<Rightarrow> nat \<Rightarrow> batch_at option result" where
  "batchAt log position limit =
    (if position \<ge> limit then Inr None
     else if limit - position < kBatchHeaderSize then Inr None
     else let headerBytes = take kBatchHeaderSize (drop position log) in
       if length headerBytes < kBatchHeaderSize then Inr None
       else bind_r (parseHeader headerBytes) (\<lambda>header.
            bind_r (totalSizeOf headerBytes) (\<lambda>totalSize.
              if totalSize > limit - position then Inr None
              else Inr (Some \<lparr>at_header = header, at_position = position, at_totalSize = totalSize\<rparr>))))"

lemma batchAt_SomeD:
  assumes "batchAt log position limit = Inr (Some at)"
  shows "position < limit" "at_totalSize at \<le> limit - position" "61 \<le> at_totalSize at"
    "at_position at = position"
  using assms totalSizeOf_InrD(2)
  by (auto simp: batchAt_def Let_def bind_r_Inr_iff split: if_splits)

function read_loop :: "byte list \<Rightarrow> int \<Rightarrow> nat \<Rightarrow> nat \<Rightarrow> nat \<Rightarrow> (nat \<times> nat) result" where
  "read_loop log offset maxBytes limit position =
    bind_r (batchAt log position limit) (\<lambda>found. case found of
        None \<Rightarrow> Inr (limit, 0)
      | Some at \<Rightarrow>
          if lastOffset (at_header at) \<ge> offset
          then let available = limit - at_position at in
            Inr (at_position at, max (at_totalSize at) (min maxBytes available))
          else read_loop log offset maxBytes limit (position + at_totalSize at))"
  by auto
termination
proof (relation "measure (\<lambda>(_, _, _, limit, position). limit - position)")
  fix log :: "byte list" and offset maxBytes limit position found at
  assume "batchAt log position limit = Inr found" "found = Some at"
  then show "((log, offset, maxBytes, limit, position + at_totalSize at), log, offset, maxBytes, limit, position)
      \<in> measure (\<lambda>(_, _, _, limit, position). limit - position)"
    using batchAt_SomeD [of log position limit at] by simp
qed simp

declare read_loop.simps [simp del]

text \<open>A \<^verbatim>\<open>FileRange\<close> is a position and a length.\<close>

definition segment_read :: "int \<Rightarrow> nat \<Rightarrow> 'a segment_scheme \<Rightarrow> (nat \<times> nat) result" where
  "segment_read offset maxBytes seg =
    bind_r (require (\<not> offset < sg_baseOffset seg) OffsetInvariantViolated) (\<lambda>_.
    let limit = length (sg_log seg) in
    bind_r (index_lookup offset (sg_index seg)) (\<lambda>entry.
      read_loop (sg_log seg) offset maxBytes limit (unat (ie_position entry))))"

function endState_loop :: "byte list \<Rightarrow> nat \<Rightarrow> nat \<Rightarrow> int \<Rightarrow> int \<Rightarrow> (int \<times> int) result" where
  "endState_loop log limit position next_off largest =
    bind_r (batchAt log position limit) (\<lambda>found. case found of
        None \<Rightarrow> Inr (next_off, largest)
      | Some at \<Rightarrow> endState_loop log limit (position + at_totalSize at)
          (lastOffset (at_header at) + 1) (max largest (bh_maxTimestamp (at_header at))))"
  by auto
termination
proof (relation "measure (\<lambda>(_, limit, position, _, _). limit - position)")
  fix log :: "byte list" and limit position and next_off largest :: int and found at
  assume "batchAt log position limit = Inr found" "found = Some at"
  then show "((log, limit, position + at_totalSize at, lastOffset (at_header at) + 1,
      max largest (bh_maxTimestamp (at_header at))), log, limit, position, next_off, largest)
      \<in> measure (\<lambda>(_, limit, position, _, _). limit - position)"
    using batchAt_SomeD [of log position limit at] by simp
qed simp

declare endState_loop.simps [simp del]

definition deriveEndStateFromLog :: "'a segment_scheme \<Rightarrow> 'a segment_scheme result" where
  "deriveEndStateFromLog seg =
    (let limit = length (sg_log seg) in
     bind_r (index_lookup (sg_baseOffset seg + UINT32_MAX) (sg_index seg)) (\<lambda>entry.
     bind_r (endState_loop (sg_log seg) limit (unat (ie_position entry)) (sg_baseOffset seg) (- 1))
       (\<lambda>(next_off, largest).
         Inr (seg\<lparr>sg_nextOffset := next_off, sg_largestTimestamp := largest\<rparr>))))"

subsection \<open>Sealed segments\<close>

definition sealed_open :: "directory \<Rightarrow> string \<Rightarrow> segment result" where
  "sealed_open dir logFile =
    bind_r (baseOffsetFromLogPath logFile) (\<lambda>base.
    case dir (index_name logFile) of
      None \<Rightarrow> Inl (IoError ENOENT)
    | Some indexBytes \<Rightarrow> (case dir logFile of
        None \<Rightarrow> Inl (IoError ENOENT)
      | Some log \<Rightarrow> deriveEndStateFromLog
          \<lparr>sg_log = log, sg_index = index_openSealed indexBytes base, sg_baseOffset = base,
           sg_nextOffset = base, sg_largestTimestamp = - 1\<rparr>))"

text \<open>
  Removal reports nothing: \<open>log_fails\<close> says that removing the log file failed, and then the
  index stays too.
\<close>

definition unlinkFiles :: "bool \<Rightarrow> 'a segment_scheme \<Rightarrow> directory \<Rightarrow> directory" where
  "unlinkFiles log_fails seg dir =
    (if log_fails then dir
     else dir(logFileName seg := None, indexFileName seg := None))"

subsection \<open>The active segment\<close>

definition active_create :: "directory \<Rightarrow> int \<Rightarrow> roll_policy \<Rightarrow> active_segment result" where
  "active_create dir base policy =
    bind_r (require (dir (segmentLogPath base) = None) (IoError EEXIST)) (\<lambda>_.
    bind_r (index_create base (rp_maxIndexBytes policy)) (\<lambda>idx.
      Inr \<lparr>sg_log = [], sg_index = idx, sg_baseOffset = base, sg_nextOffset = base,
           sg_largestTimestamp = - 1, sg_policy = policy, sg_bytesSinceIndexEntry = 0,
           sg_firstAppendMs = - 1\<rparr>))"

definition maybeAddIndexEntry :: "int \<Rightarrow> nat \<Rightarrow> active_segment \<Rightarrow> active_segment result" where
  "maybeAddIndexEntry base position seg =
    (if sg_bytesSinceIndexEntry seg < rp_indexIntervalBytes (sg_policy seg) then Inr seg
     else if position = 0 then Inr seg
     else if int position > UINT32_MAX then Inl OffsetInvariantViolated
     else bind_r (index_append base (of_nat position) (sg_index seg)) (\<lambda>idx.
       Inr (seg\<lparr>sg_index := idx, sg_bytesSinceIndexEntry := 0\<rparr>)))"

text \<open>
  One pass of the recovery loop. \<open>Inr None\<close> leaves the loop; a \<open>CorruptData\<close> thrown inside
  the \<^verbatim>\<open>try\<close> block leaves it too, any other exception leaves the function.
\<close>

definition recover_step ::
  "nat \<Rightarrow> int option \<Rightarrow> nat \<Rightarrow> int \<Rightarrow> active_segment \<Rightarrow> (batch_at \<times> active_segment) option result" where
  "recover_step limit truncateAt good next_off seg =
    bind_r (batchAt (sg_log seg) good limit) (\<lambda>found. case found of
        None \<Rightarrow> Inr None
      | Some at \<Rightarrow>
          if (case truncateAt of None \<Rightarrow> False | Some t \<Rightarrow> lastOffset (at_header at) \<ge> t) then Inr None
          else let batch = take (at_totalSize at) (drop good (sg_log seg)) in
            if length batch < at_totalSize at then Inr None
            else bind_r (verifyCrc batch) (\<lambda>ok.
              if \<not> ok then Inr None
              else if bh_baseOffset (at_header at) \<noteq> next_off then Inr None
              else bind_r (maybeAddIndexEntry (bh_baseOffset (at_header at)) good seg) (\<lambda>seg.
                Inr (Some (at, seg\<lparr>sg_bytesSinceIndexEntry := sg_bytesSinceIndexEntry seg + at_totalSize at\<rparr>)))))"

lemma recover_step_SomeD:
  assumes "recover_step limit tr good next_off seg = Inr (Some (at, seg'))"
  shows "batchAt (sg_log seg) good limit = Inr (Some at)"
proof -
  from assms obtain found where found: "batchAt (sg_log seg) good limit = Inr found"
    by (cases "batchAt (sg_log seg) good limit") (simp_all add: recover_step_def)
  show ?thesis
  proof (cases found)
    case None
    with assms found show ?thesis by (simp add: recover_step_def)
  next
    case (Some at')
    let ?b = "take (at_totalSize at') (drop good (sg_log seg))"
    from assms found Some have "(case tr of None \<Rightarrow> False | Some t \<Rightarrow> lastOffset (at_header at') \<ge> t) = False"
      and "verifyCrc ?b = Inr True" "bh_baseOffset (at_header at') = next_off"
      by (auto simp: recover_step_def Let_def bind_r_Inr_iff split: if_splits)
    with assms found Some have "at = at'"
      by (auto simp: recover_step_def Let_def bind_r_Inr_iff split: if_splits)
    with found Some show ?thesis by simp
  qed
qed

function recover_loop ::
  "nat \<Rightarrow> int option \<Rightarrow> nat \<Rightarrow> int \<Rightarrow> int \<Rightarrow> active_segment \<Rightarrow> (nat \<times> int \<times> int \<times> active_segment) result" where
  "recover_loop limit truncateAt good next_off largest seg =
    (if good < limit then
       (case recover_step limit truncateAt good next_off seg of
          Inl CorruptData \<Rightarrow> Inr (good, next_off, largest, seg)
        | Inl e \<Rightarrow> Inl e
        | Inr None \<Rightarrow> Inr (good, next_off, largest, seg)
        | Inr (Some (at, seg')) \<Rightarrow>
            recover_loop limit truncateAt (good + at_totalSize at) (lastOffset (at_header at) + 1)
              (max largest (bh_maxTimestamp (at_header at))) seg')
     else Inr (good, next_off, largest, seg))"
  by pat_completeness auto
termination
proof (relation "measure (\<lambda>(limit, _, good, _). limit - good)")
  fix limit tr good next_off largest seg and r :: "(batch_at \<times> active_segment) option" and p at seg'
  assume "good < limit" "recover_step limit tr good next_off seg = Inr r" "r = Some p" "(at, seg') = p"
  then have "batchAt (sg_log seg) good limit = Inr (Some at)"
    using recover_step_SomeD [of limit tr good next_off seg at seg'] by auto
  then show "((limit, tr, good + at_totalSize at, lastOffset (at_header at) + 1,
      max largest (bh_maxTimestamp (at_header at)), seg'), limit, tr, good, next_off, largest, seg)
      \<in> measure (\<lambda>(limit, _, good, _). limit - good)"
    using batchAt_SomeD [of "sg_log seg" good limit at] by simp
qed simp

declare recover_loop.simps [simp del]

definition active_recover ::
  "directory \<Rightarrow> string \<Rightarrow> roll_policy \<Rightarrow> int option \<Rightarrow> int \<Rightarrow> active_segment result" where
  "active_recover dir logFile policy truncateAt now =
    bind_r (baseOffsetFromLogPath logFile) (\<lambda>base.
    case dir logFile of
      None \<Rightarrow> Inl (IoError ENOENT)
    | Some log \<Rightarrow>
    bind_r (index_create base (rp_maxIndexBytes policy)) (\<lambda>idx.
    let seg = \<lparr>sg_log = log, sg_index = idx, sg_baseOffset = base, sg_nextOffset = base,
           sg_largestTimestamp = - 1, sg_policy = policy, sg_bytesSinceIndexEntry = 0,
           sg_firstAppendMs = - 1\<rparr>;
        limit = length log in
    bind_r (recover_loop limit truncateAt 0 base (- 1) seg) (\<lambda>(good, next_off, largest, seg).
      Inr (seg\<lparr>sg_log := take good log, sg_nextOffset := next_off, sg_largestTimestamp := largest,
               sg_firstAppendMs := (if good > 0 then now else - 1)\<rparr>))))"

definition segment_append :: "int \<Rightarrow> byte list \<Rightarrow> int \<Rightarrow> active_segment \<Rightarrow> active_segment result" where
  "segment_append base batchBytes now seg =
    bind_r (parseHeader batchBytes) (\<lambda>header.
    bind_r (require (bh_baseOffset header = base) OffsetInvariantViolated) (\<lambda>_.
    bind_r (require (base = sg_nextOffset seg) OffsetInvariantViolated) (\<lambda>_.
    bind_r (maybeAddIndexEntry base (length (sg_log seg)) seg) (\<lambda>seg.
      Inr (seg\<lparr>sg_log := sg_log seg @ batchBytes,
               sg_bytesSinceIndexEntry := sg_bytesSinceIndexEntry seg + length batchBytes,
               sg_firstAppendMs := (if sg_firstAppendMs seg < 0 then now else sg_firstAppendMs seg),
               sg_largestTimestamp := max (sg_largestTimestamp seg) (bh_maxTimestamp header),
               sg_nextOffset := lastOffset header + 1\<rparr>)))))"

definition segment_seal :: "active_segment \<Rightarrow> segment result" where
  "segment_seal seg =
    bind_r (index_flushAndTrim (sg_index seg)) (\<lambda>(trimmed, _).
      sealed_open [logFileName seg \<mapsto> sg_log seg, indexFileName seg \<mapsto> trimmed] (logFileName seg))"

definition shouldRoll :: "int \<Rightarrow> active_segment \<Rightarrow> bool" where
  "shouldRoll nowMs seg \<longleftrightarrow> \<not> segment_isEmpty seg \<and>
     (sizeBytes seg \<ge> rp_maxSegmentBytes (sg_policy seg) \<or>
      index_isFull (sg_index seg) \<or>
      nowMs - sg_firstAppendMs seg \<ge> rp_maxSegmentAgeMs (sg_policy seg))"

subsection \<open>The batches of a file\<close>

text \<open>
  \<open>batch_wf\<close>: the header parses and the batch states its own length, all a walk needs.
  \<open>ascending n bs\<close>: the batches lie at offsets from \<open>n\<close> on, in order, without overlap, as
  compaction leaves them; \<open>contiguous\<close>: without gaps too, as appending leaves them.
\<close>

abbreviation hdr :: "byte list \<Rightarrow> batch_header" where
  "hdr b \<equiv> header_of b"

definition batch_wf :: "byte list \<Rightarrow> bool" where
  "batch_wf b \<longleftrightarrow> parseHeader b = Inr (hdr b) \<and> totalSizeOf b = Inr (length b) \<and> 0 \<le> bh_lastOffsetDelta (hdr b)"

fun ascending :: "int \<Rightarrow> byte list list \<Rightarrow> bool" where
  "ascending n [] = True"
| "ascending n (b # bs) = (batch_wf b \<and> n \<le> bh_baseOffset (hdr b) \<and> ascending (lastOffset (hdr b) + 1) bs)"

fun contiguous :: "int \<Rightarrow> byte list list \<Rightarrow> bool" where
  "contiguous n [] = True"
| "contiguous n (b # bs) = (batch_wf b \<and> bh_baseOffset (hdr b) = n \<and> contiguous (lastOffset (hdr b) + 1) bs)"

definition end_offset :: "int \<Rightarrow> byte list list \<Rightarrow> int" where
  "end_offset n bs = (if bs = [] then n else lastOffset (hdr (last bs)) + 1)"

definition top_timestamp :: "int \<Rightarrow> byte list list \<Rightarrow> int" where
  "top_timestamp t bs = fold (\<lambda>b t. max t (bh_maxTimestamp (hdr b))) bs t"

lemma top_timestamp_simps [simp]:
  "top_timestamp t [] = t"
  "top_timestamp t (b # bs) = top_timestamp (max t (bh_maxTimestamp (hdr b))) bs"
  "top_timestamp t (xs @ ys) = top_timestamp (top_timestamp t xs) ys"
  by (simp_all add: top_timestamp_def)

lemma end_offset_simps [simp]:
  "end_offset n [] = n"
  "end_offset n (b # bs) = end_offset (lastOffset (hdr b) + 1) bs"
  "end_offset n (xs @ ys) = end_offset (end_offset n xs) ys"
  by (auto simp: end_offset_def)

lemma batch_wf_lastOffset: "batch_wf b \<Longrightarrow> bh_baseOffset (hdr b) \<le> lastOffset (hdr b)"
  by (simp add: batch_wf_def lastOffset_def)

lemma batch_wf_length: "batch_wf b \<Longrightarrow> 61 \<le> length b"
  by (auto simp: batch_wf_def dest: totalSizeOf_InrD)

lemma contiguous_ascending: "contiguous n bs \<Longrightarrow> ascending n bs"
  by (induction bs arbitrary: n) auto

lemma ascending_append [simp]:
  "ascending n (xs @ ys) \<longleftrightarrow> ascending n xs \<and> ascending (end_offset n xs) ys"
  by (induction xs arbitrary: n) auto

lemma contiguous_append [simp]:
  "contiguous n (xs @ ys) \<longleftrightarrow> contiguous n xs \<and> contiguous (end_offset n xs) ys"
  by (induction xs arbitrary: n) auto

lemma ascending_le_end: "ascending n bs \<Longrightarrow> n \<le> end_offset n bs"
proof (induction bs arbitrary: n)
  case (Cons b bs)
  then have "lastOffset (hdr b) + 1 \<le> end_offset (lastOffset (hdr b) + 1) bs" by simp
  with Cons.prems batch_wf_lastOffset [of b] show ?case by simp
qed simp

lemma ascending_last_less:
  "ascending n bs \<Longrightarrow> b \<in> set bs \<Longrightarrow> lastOffset (hdr b) < end_offset n bs"
proof (induction bs arbitrary: n)
  case (Cons c bs)
  then show ?case using ascending_le_end [of "lastOffset (hdr c) + 1" bs] by fastforce
qed simp

lemma ascending_base_le: "ascending n bs \<Longrightarrow> b \<in> set bs \<Longrightarrow> n \<le> bh_baseOffset (hdr b)"
proof (induction bs arbitrary: n)
  case (Cons c bs)
  then show ?case using batch_wf_lastOffset [of c] by fastforce
qed simp

lemma batchAt_batch:
  assumes "log = pre @ b @ post" "position = length pre" "limit = length log" "batch_wf b"
  shows "batchAt log position limit =
    Inr (Some \<lparr>at_header = hdr b, at_position = position, at_totalSize = length b\<rparr>)"
proof -
  note len = batch_wf_length [OF assms(4)]
  have h: "parseHeader (take 61 b) = Inr (hdr b)" "totalSizeOf (take 61 b) = Inr (length b)"
    using assms(4) by (simp_all add: batch_wf_def parseHeader_take totalSizeOf_take)
  from assms(1-3) len have "take 61 (drop position log) = take 61 b" by simp
  moreover have "b \<noteq> []" using len by auto
  ultimately show ?thesis
    using assms(1-3) len h by (simp add: batchAt_def batch_consts Let_def)
qed

lemma batchAt_end: "limit \<le> position \<Longrightarrow> batchAt log position limit = Inr None"
  by (simp add: batchAt_def)

text \<open>A batch cut short is not there at all.\<close>

lemma batchAt_torn:
  assumes "log = pre @ take k b" "position = length pre" "limit = length log" "batch_wf b" "k < length b"
  shows "batchAt log position limit = Inr None"
proof (cases "k < 61")
  case False
  note len = batch_wf_length [OF assms(4)]
  have h: "parseHeader (take 61 b) = Inr (hdr b)" "totalSizeOf (take 61 b) = Inr (length b)"
    using assms(4) by (simp_all add: batch_wf_def parseHeader_take totalSizeOf_take)
  from assms(1-3,5) len False have "take 61 (drop position log) = take 61 b" by (simp add: min_def)
  with assms(1-3,5) len h False show ?thesis
    by (simp add: batchAt_def batch_consts Let_def min_def)
qed (use assms in \<open>simp add: batchAt_def batch_consts\<close>)

subsection \<open>Walking a well-formed file\<close>

text \<open>What a read returns: the first batch that reaches the offset, found by a full scan.\<close>

definition scan_read :: "int \<Rightarrow> nat \<Rightarrow> byte list list \<Rightarrow> nat \<times> nat" where
  "scan_read offset maxBytes bs =
    (let below = takeWhile (\<lambda>b. lastOffset (hdr b) < offset) bs;
         found = dropWhile (\<lambda>b. lastOffset (hdr b) < offset) bs
     in (length (concat below),
         if found = [] then 0 else max (length (hd found)) (min maxBytes (length (concat found)))))"

lemma scan_read_below:
  assumes "\<forall>b \<in> set xs. lastOffset (hdr b) < offset"
  shows "scan_read offset maxBytes (xs @ ys) =
    (length (concat xs) + fst (scan_read offset maxBytes ys), snd (scan_read offset maxBytes ys))"
  using assms by (simp add: scan_read_def Let_def takeWhile_append2 dropWhile_append2)

lemma read_loop_scan:
  assumes "log = concat (xs @ ys)" and "position = length (concat xs)" and "list_all batch_wf ys"
    and "\<forall>b \<in> set xs. lastOffset (hdr b) < offset"
  shows "read_loop log offset maxBytes (length log) position = Inr (scan_read offset maxBytes (xs @ ys))"
  using assms
proof (induction ys arbitrary: xs position)
  case Nil
  then show ?case
    using scan_read_below [of xs offset maxBytes "[]"]
    by (subst read_loop.simps) (simp add: batchAt_end scan_read_def)
next
  case (Cons b ys)
  have at: "batchAt log position (length log) =
      Inr (Some \<lparr>at_header = hdr b, at_position = position, at_totalSize = length b\<rparr>)"
    using Cons.prems by (intro batchAt_batch [of _ "concat xs" _ "concat ys"]) simp_all
  show ?case
  proof (cases "offset \<le> lastOffset (hdr b)")
    case True
    have "length log - position = length (concat (b # ys))" using Cons.prems by simp
    with True at Cons.prems show ?thesis
      by (subst read_loop.simps) (simp add: scan_read_below scan_read_def Let_def)
  next
    case False
    have "read_loop log offset maxBytes (length log) position
        = read_loop log offset maxBytes (length log) (position + length b)"
      using at False by (subst read_loop.simps) simp
    also have "\<dots> = Inr (scan_read offset maxBytes ((xs @ [b]) @ ys))"
      using Cons.prems False by (intro Cons.IH) auto
    finally show ?thesis by simp
  qed
qed

lemma endState_loop_walk:
  assumes "log = concat (xs @ ys)" and "position = length (concat xs)" and "list_all batch_wf ys"
  shows "endState_loop log (length log) position n t = Inr (end_offset n ys, top_timestamp t ys)"
  using assms
proof (induction ys arbitrary: xs position n t)
  case Nil
  then show ?case by (subst endState_loop.simps) (simp add: batchAt_end)
next
  case (Cons b ys)
  have at: "batchAt log position (length log) =
      Inr (Some \<lparr>at_header = hdr b, at_position = position, at_totalSize = length b\<rparr>)"
    using Cons.prems by (intro batchAt_batch [of _ "concat xs" _ "concat ys"]) simp_all
  have "endState_loop log (length log) position n t
      = endState_loop log (length log) (position + length b) (lastOffset (hdr b) + 1)
          (max t (bh_maxTimestamp (hdr b)))"
    using at by (subst endState_loop.simps) simp
  also have "\<dots> = Inr (end_offset n (b # ys), top_timestamp t (b # ys))"
    using Cons.prems Cons.IH [of "xs @ [b]"] by simp
  finally show ?case .
qed

subsection \<open>The index points at batches\<close>

text \<open>Every hint is the offset and the position of a batch that is not the first.\<close>

definition hints_sound :: "byte list list \<Rightarrow> (int \<times> nat) list \<Rightarrow> bool" where
  "hints_sound bs hs \<longleftrightarrow> (\<forall>(off, pos) \<in> set hs. \<exists>xs b ys.
     bs = xs @ b # ys \<and> xs \<noteq> [] \<and> pos = length (concat xs) \<and> off = bh_baseOffset (hdr b))"

lemma hints_sound_append: "hints_sound bs hs \<Longrightarrow> hints_sound (bs @ cs) hs"
  unfolding hints_sound_def by fastforce

lemma hints_sound_Un: "hints_sound bs (hs @ hs') \<longleftrightarrow> hints_sound bs hs \<and> hints_sound bs hs'"
  by (simp add: hints_sound_def ball_Un)

context sparse_index
begin

text \<open>Following a hint skips only batches that end below the target.\<close>

lemma hint_walk:
  assumes "good i" "first i \<le> target" "hints_sound bs (hints i)" "ascending n bs"
  shows "\<exists>e xs ys. find target i = Inr e \<and> bs = xs @ ys \<and> unat (ie_position e) = length (concat xs) \<and>
    (\<forall>b \<in> set xs. lastOffset (hdr b) < target) \<and> (xs = [] \<or> ys \<noteq> [])"
proof -
  obtain e where e: "find target i = Inr e" and
    h: "unat (ie_position e) = 0 \<or> (\<exists>off \<le> target. (off, unat (ie_position e)) \<in> set (hints i))"
    using find_hint [OF assms(1,2)] by blast
  from h show ?thesis
  proof
    assume "unat (ie_position e) = 0"
    then have "bs = [] @ bs \<and> unat (ie_position e) = length (concat [])" by simp
    then show ?thesis using e by fastforce
  next
    assume "\<exists>off \<le> target. (off, unat (ie_position e)) \<in> set (hints i)"
    then obtain off where off: "off \<le> target" "(off, unat (ie_position e)) \<in> set (hints i)" by blast
    then obtain xs b ys where s: "bs = xs @ b # ys" "unat (ie_position e) = length (concat xs)"
        "off = bh_baseOffset (hdr b)"
      using assms(3) by (fastforce simp: hints_sound_def)
    have "lastOffset (hdr c) < target" if "c \<in> set xs" for c
    proof -
      have "lastOffset (hdr c) < end_offset n xs" using assms(4) s that by (simp add: ascending_last_less)
      also have "\<dots> \<le> off" using assms(4) s by simp
      finally show ?thesis using off by simp
    qed
    with e s show ?thesis by blast
  qed
qed

end

subsection \<open>Well-formed segments\<close>

definition indexed :: "byte list list \<Rightarrow> int \<Rightarrow> offset_index \<Rightarrow> bool" where
  "indexed bs base idx \<longleftrightarrow> index_ok idx \<and> oi_baseOffset idx = base \<and> hints_sound bs (index_hints idx)"

definition segment_holds :: "byte list list \<Rightarrow> 'a segment_scheme \<Rightarrow> bool" where
  "segment_holds bs seg \<longleftrightarrow> sg_log seg = concat bs \<and> ascending (sg_baseOffset seg) bs \<and>
     sg_nextOffset seg = end_offset (sg_baseOffset seg) bs \<and>
     indexed bs (sg_baseOffset seg) (sg_index seg)"

lemma ascending_list_all: "ascending n bs \<Longrightarrow> list_all batch_wf bs"
  by (induction bs arbitrary: n) auto

lemma segment_read_scan:
  assumes "segment_holds bs seg" and "sg_baseOffset seg \<le> offset"
  shows "segment_read offset maxBytes seg = Inr (scan_read offset maxBytes bs)"
proof -
  have h: "sg_log seg = concat bs" "ascending (sg_baseOffset seg) bs"
    "index_ok (sg_index seg)" "oi_baseOffset (sg_index seg) = sg_baseOffset seg"
    "hints_sound bs (index_hints (sg_index seg))"
    using assms(1) by (simp_all add: segment_holds_def indexed_def)
  obtain e xs ys where e: "index_lookup offset (sg_index seg) = Inr e" "bs = xs @ ys"
      "unat (ie_position e) = length (concat xs)" "\<forall>b \<in> set xs. lastOffset (hdr b) < offset"
    using offset_index.hint_walk [OF h(3) _ h(5) h(2), of offset] assms(2) h(4) by auto
  have "list_all batch_wf ys" using ascending_list_all [OF h(2)] e(2) by simp
  then have "read_loop (sg_log seg) offset maxBytes (length (sg_log seg)) (unat (ie_position e))
      = Inr (scan_read offset maxBytes bs)"
    using read_loop_scan [of "sg_log seg" xs ys _ offset maxBytes] h(1) e by simp
  with e assms(2) show ?thesis by (simp add: segment_read_def)
qed

lemma deriveEndState_walk:
  assumes "ascending (sg_baseOffset seg) bs" "sg_log seg = concat bs"
    "indexed bs (sg_baseOffset seg) (sg_index seg)"
  shows "\<exists>xs ys. bs = xs @ ys \<and> deriveEndStateFromLog seg =
    Inr (seg\<lparr>sg_nextOffset := end_offset (sg_baseOffset seg) bs, sg_largestTimestamp := top_timestamp (- 1) ys\<rparr>)"
proof -
  let ?t = "sg_baseOffset seg + UINT32_MAX"
  have idx: "index_ok (sg_index seg)" "oi_baseOffset (sg_index seg) = sg_baseOffset seg"
    "hints_sound bs (index_hints (sg_index seg))"
    using assms(3) by (simp_all add: indexed_def)
  then have "oi_baseOffset (sg_index seg) \<le> ?t" by (simp add: UINT32_MAX_def)
  then obtain e xs ys where e: "index_lookup ?t (sg_index seg) = Inr e" "bs = xs @ ys"
      "unat (ie_position e) = length (concat xs)" "xs = [] \<or> ys \<noteq> []"
    using offset_index.hint_walk [OF idx(1) _ idx(3) assms(1), of ?t] by auto
  have "list_all batch_wf ys" using ascending_list_all [OF assms(1)] e(2) by simp
  then have "endState_loop (sg_log seg) (length (sg_log seg)) (unat (ie_position e)) (sg_baseOffset seg) (- 1)
      = Inr (end_offset (sg_baseOffset seg) ys, top_timestamp (- 1) ys)"
    using assms(2) e by (intro endState_loop_walk [of _ xs]) simp_all
  moreover have "end_offset (sg_baseOffset seg) ys = end_offset (sg_baseOffset seg) bs"
    using e(2,4) by (auto simp: end_offset_def)
  ultimately show ?thesis
    using e by (auto simp: deriveEndStateFromLog_def)
qed

subsection \<open>Appending\<close>

lemma sound_hint_bound:
  assumes "hints_sound bs hs" "(off, pos) \<in> set hs" "ascending n bs"
  shows "off < end_offset n bs" "pos < length (concat bs)"
proof -
  obtain xs b ys where s: "bs = xs @ b # ys" "pos = length (concat xs)" "off = bh_baseOffset (hdr b)"
    using assms(1,2) unfolding hints_sound_def by fast
  with assms(3) have wf: "batch_wf b" and "ascending (lastOffset (hdr b) + 1) ys" by simp_all
  then have "lastOffset (hdr b) + 1 \<le> end_offset n bs"
    using ascending_le_end [of "lastOffset (hdr b) + 1" ys] s by simp
  then show "off < end_offset n bs" using batch_wf_lastOffset [OF wf] s by simp
  show "pos < length (concat bs)" using batch_wf_length [OF wf] s by auto
qed

lemma indexed_grow: "indexed bs base idx \<Longrightarrow> indexed (bs @ cs) base idx"
  by (simp add: indexed_def hints_sound_append)

lemma unat_position: "int pos \<le> UINT32_MAX \<Longrightarrow> unat (of_nat pos :: 32 word) = pos"
  by (simp add: UINT32_MAX_def unsigned_of_nat take_bit_nat_eq_self)

lemma maybeAddIndexEntry_Inr:
  assumes "maybeAddIndexEntry base pos seg = Inr seg'"
    and "indexed bs b0 (sg_index seg)" "pos = length (concat bs)" "base = bh_baseOffset (hdr b)"
  shows "indexed (bs @ [b]) b0 (sg_index seg') \<and> oi_writable (sg_index seg') = oi_writable (sg_index seg) \<and>
    seg' = seg\<lparr>sg_index := sg_index seg', sg_bytesSinceIndexEntry := sg_bytesSinceIndexEntry seg'\<rparr>"
proof (cases "sg_bytesSinceIndexEntry seg < rp_indexIntervalBytes (sg_policy seg) \<or> pos = 0")
  case True
  then have "seg' = seg" using assms(1) by (auto simp: maybeAddIndexEntry_def split: if_splits)
  with assms(2) show ?thesis by (simp add: indexed_grow)
next
  case False
  with assms(1) obtain idx where pos: "int pos \<le> UINT32_MAX" "0 < pos"
    and app: "index_append base (of_nat pos) (sg_index seg) = Inr idx"
    and seg': "seg' = seg\<lparr>sg_index := idx, sg_bytesSinceIndexEntry := 0\<rparr>"
    by (auto simp: maybeAddIndexEntry_def bind_r_Inr_iff split: if_splits)
  have ok: "index_ok (sg_index seg)" using assms(2) by (simp add: indexed_def)
  note h = growing_offset_index.add_hint [OF ok app]
  have w: "oi_writable idx = oi_writable (sg_index seg)"
    using app by (auto simp: index_append_def bind_r_Inr_iff Let_def split: if_splits)
  have "bs \<noteq> []" using pos assms(3) by auto
  then have "hints_sound (bs @ [b]) [(base, unat (of_nat pos :: 32 word))]"
    using assms(3,4) pos by (auto simp: hints_sound_def unat_position)
  moreover have "hints_sound (bs @ [b]) (index_hints (sg_index seg))"
    using assms(2) by (simp add: indexed_def hints_sound_append)
  ultimately have "hints_sound (bs @ [b]) (index_hints idx)"
    using h by (auto simp: hints_sound_Un)
  with h w seg' assms(2) show ?thesis by (simp add: indexed_def)
qed

definition index_overflow :: "int \<Rightarrow> nat \<Rightarrow> active_segment \<Rightarrow> bool" where
  "index_overflow base pos seg \<longleftrightarrow>
     rp_indexIntervalBytes (sg_policy seg) \<le> sg_bytesSinceIndexEntry seg \<and> pos \<noteq> 0 \<and>
     (int pos > UINT32_MAX \<or> base - sg_baseOffset seg > UINT32_MAX)"

lemma maybeAddIndexEntry_error_iff:
  assumes "indexed bs (sg_baseOffset seg) (sg_index seg)" "oi_writable (sg_index seg)"
    "pos = length (concat bs)" "ascending (sg_baseOffset seg) bs" "end_offset (sg_baseOffset seg) bs \<le> base"
  shows "maybeAddIndexEntry base pos seg = Inl e \<longleftrightarrow>
    index_overflow base pos seg \<and> e = OffsetInvariantViolated"
proof -
  let ?idx = "sg_index seg" and ?p = "of_nat pos :: 32 word"
  have ok: "index_ok ?idx" "oi_baseOffset ?idx = sg_baseOffset seg" "hints_sound bs (index_hints ?idx)"
    "\<not> oi_spent ?idx"
    using assms(1) by (simp_all add: indexed_def index_ok_def)
  have le: "sg_baseOffset seg \<le> base" using ascending_le_end [OF assms(4)] assms(5) by simp
  have "index_rejects ?idx base ?p \<longleftrightarrow> base - sg_baseOffset seg > UINT32_MAX"
    if pos: "pos \<noteq> 0" "int pos \<le> UINT32_MAX"
  proof -
    have p: "unat ?p = pos" using pos by (simp add: unat_position)
    then have "?p \<noteq> 0" using pos by auto
    moreover have "entry_offsetFrom (last (index_entries ?idx)) (sg_baseOffset seg) < base \<and>
        ie_position (last (index_entries ?idx)) < ?p" if "index_entries ?idx \<noteq> []"
    proof -
      let ?l = "last (index_entries ?idx)"
      have "(entry_offsetFrom ?l (sg_baseOffset seg), unat (ie_position ?l)) \<in> set (index_hints ?idx)"
        using that ok(2) by (auto simp: index_hints_def)
      from sound_hint_bound [OF ok(3) this assms(4)] show ?thesis
        using assms(3,5) p by (simp add: word_less_nat_alt)
    qed
    ultimately show ?thesis using le ok(2) by (auto simp: index_rejects_def)
  qed
  then show ?thesis
    using ok(4) assms(2)
    by (auto simp: maybeAddIndexEntry_def index_overflow_def index_append_alt not_less)
qed

definition active_holds :: "byte list list \<Rightarrow> active_segment \<Rightarrow> bool" where
  "active_holds bs seg \<longleftrightarrow> segment_holds bs seg \<and> contiguous (sg_baseOffset seg) bs \<and>
     oi_writable (sg_index seg) \<and> sg_largestTimestamp seg = top_timestamp (- 1) bs"

lemma parseHeader_wf: "batch_wf b \<Longrightarrow> parseHeader b = Inr (hdr b)"
  by (simp add: batch_wf_def)

lemma segment_append_holds:
  assumes "active_holds bs seg" "batch_wf b" "segment_append base b now seg = Inr seg'"
  shows "base = bh_baseOffset (hdr b) \<and> base = sg_nextOffset seg \<and> active_holds (bs @ [b]) seg' \<and>
    sg_baseOffset seg' = sg_baseOffset seg"
proof -
  have a: "sg_log seg = concat bs" "contiguous (sg_baseOffset seg) bs"
    "sg_nextOffset seg = end_offset (sg_baseOffset seg) bs" "indexed bs (sg_baseOffset seg) (sg_index seg)"
    "oi_writable (sg_index seg)" "sg_largestTimestamp seg = top_timestamp (- 1) bs"
    using assms(1) by (simp_all add: active_holds_def segment_holds_def)
  from assms(2,3) obtain s where base: "base = bh_baseOffset (hdr b)" "base = sg_nextOffset seg"
    and m: "maybeAddIndexEntry base (length (sg_log seg)) seg = Inr s"
    and seg': "seg' = s\<lparr>sg_log := sg_log s @ b,
               sg_bytesSinceIndexEntry := sg_bytesSinceIndexEntry s + length b,
               sg_firstAppendMs := (if sg_firstAppendMs s < 0 then now else sg_firstAppendMs s),
               sg_largestTimestamp := max (sg_largestTimestamp s) (bh_maxTimestamp (hdr b)),
               sg_nextOffset := lastOffset (hdr b) + 1\<rparr>"
    by (auto simp: segment_append_def parseHeader_wf bind_r_Inr_iff)
  have s: "indexed (bs @ [b]) (sg_baseOffset seg) (sg_index s)" "oi_writable (sg_index s)"
    and s_eq: "s = seg\<lparr>sg_index := sg_index s, sg_bytesSinceIndexEntry := sg_bytesSinceIndexEntry s\<rparr>"
    using maybeAddIndexEntry_Inr [OF m a(4), of b] a(1,5) base by auto
  have "contiguous (sg_baseOffset seg) (bs @ [b])" using a(2,3) base assms(2) by simp
  moreover have "sg_log s = sg_log seg" "sg_baseOffset s = sg_baseOffset seg"
    "sg_largestTimestamp s = sg_largestTimestamp seg"
    by (subst s_eq, simp)+
  ultimately show ?thesis
    using s a base seg' contiguous_ascending [of "sg_baseOffset seg" "bs @ [b]"]
    by (simp add: active_holds_def segment_holds_def)
qed

subsection \<open>Recovery\<close>

definition valid_batch :: "byte list \<Rightarrow> bool" where
  "valid_batch b \<longleftrightarrow> batch_wf b \<and> verifyCrc b = Inr True"

text \<open>
  What ends the good batches: a batch at or above the truncation point, or bytes that are cut
  short, damaged, unreadable, or out of sequence.
\<close>

definition below :: "int option \<Rightarrow> batch_header \<Rightarrow> bool" where
  "below tr h \<longleftrightarrow> (case tr of None \<Rightarrow> True | Some t \<Rightarrow> lastOffset h < t)"

definition bad_tail :: "int option \<Rightarrow> int \<Rightarrow> byte list \<Rightarrow> bool" where
  "bad_tail tr next_off tail \<longleftrightarrow> (case batchAt tail 0 (length tail) of
      Inl e \<Rightarrow> e = CorruptData
    | Inr None \<Rightarrow> True
    | Inr (Some at) \<Rightarrow> \<not> below tr (at_header at) \<or> verifyCrc (take (at_totalSize at) tail) \<in> {Inr False, Inl CorruptData} \<or>
        verifyCrc (take (at_totalSize at) tail) = Inr True \<and> bh_baseOffset (at_header at) \<noteq> next_off)"

lemma batchAt_shift:
  "batchAt (pre @ tail) (length pre) (length (pre @ tail)) =
    bind_r (batchAt tail 0 (length tail)) (\<lambda>found. Inr (map_option (at_position_update (\<lambda>_. length pre)) found))"
  by (cases "parseHeader (take 61 tail)"; cases "totalSizeOf (take 61 tail)")
    (simp_all add: batchAt_def batch_consts Let_def)

lemma recover_loop_stop:
  assumes "sg_log seg = pre @ tail" "bad_tail tr next_off tail"
  shows "recover_loop (length (sg_log seg)) tr (length pre) next_off largest seg
    = Inr (length pre, next_off, largest, seg)"
proof (cases "tail = []")
  case True
  with assms(1) show ?thesis by (subst recover_loop.simps) simp
next
  case False
  consider (bad) "batchAt tail 0 (length tail) = Inl CorruptData"
    | (none) "batchAt tail 0 (length tail) = Inr None"
    | (some) at where "batchAt tail 0 (length tail) = Inr (Some at)"
    using assms(2) unfolding bad_tail_def
    by (cases "batchAt tail 0 (length tail)"; cases "projr (batchAt tail 0 (length tail))") auto
  then have "recover_step (length (sg_log seg)) tr (length pre) next_off seg \<in> {Inl CorruptData, Inr None}"
  proof cases
    case bad
    with assms(1) show ?thesis using batchAt_shift [of pre tail] by (simp add: recover_step_def)
  next
    case none
    with assms(1) show ?thesis using batchAt_shift [of pre tail] by (simp add: recover_step_def)
  next
    case some
    have "at_totalSize at \<le> length tail" using batchAt_SomeD(2) [OF some] by simp
    then show ?thesis
      using some assms batchAt_shift [of pre tail]
      by (cases tr) (auto simp: recover_step_def bad_tail_def Let_def below_def not_le)
  qed
  with False assms(1) show ?thesis by (subst recover_loop.simps) auto
qed

lemma recover_loop_batch:
  assumes "sg_log seg = pre @ b @ post" "valid_batch b" "below tr (hdr b)"
    and "maybeAddIndexEntry (bh_baseOffset (hdr b)) (length pre) seg = Inr s"
  shows "recover_loop (length (sg_log seg)) tr (length pre) (bh_baseOffset (hdr b)) largest seg
    = recover_loop (length (sg_log seg)) tr (length (pre @ b)) (lastOffset (hdr b) + 1)
        (max largest (bh_maxTimestamp (hdr b)))
        (s\<lparr>sg_bytesSinceIndexEntry := sg_bytesSinceIndexEntry s + length b\<rparr>)"
proof -
  have wf: "batch_wf b" "verifyCrc b = Inr True" using assms(2) by (simp_all add: valid_batch_def)
  have at: "batchAt (sg_log seg) (length pre) (length (sg_log seg)) =
      Inr (Some \<lparr>at_header = hdr b, at_position = length pre, at_totalSize = length b\<rparr>)"
    using assms(1) wf by (intro batchAt_batch) simp_all
  have "recover_step (length (sg_log seg)) tr (length pre) (bh_baseOffset (hdr b)) seg
      = Inr (Some (\<lparr>at_header = hdr b, at_position = length pre, at_totalSize = length b\<rparr>,
          s\<lparr>sg_bytesSinceIndexEntry := sg_bytesSinceIndexEntry s + length b\<rparr>))"
    using at wf assms(1,3,4) by (cases tr) (simp_all add: recover_step_def Let_def below_def)
  moreover have "length pre < length (sg_log seg)"
    using batch_wf_length [OF wf(1)] assms(1) by (cases b) auto
  ultimately show ?thesis by (subst recover_loop.simps) simp
qed

fun append_batches :: "int \<Rightarrow> byte list list \<Rightarrow> active_segment \<Rightarrow> active_segment result" where
  "append_batches now [] seg = Inr seg"
| "append_batches now (b # bs) seg =
    bind_r (segment_append (bh_baseOffset (hdr b)) b now seg) (append_batches now bs)"

lemma append_batches_append:
  "append_batches now (xs @ ys) seg = bind_r (append_batches now xs seg) (append_batches now ys)"
  by (induction xs arbitrary: seg) (simp_all add: bind_r_assoc cong: bind_r_cong)

text \<open>The recovering segment has the file in place of the log and is not yet given an end state.\<close>

definition recovering :: "byte list \<Rightarrow> active_segment \<Rightarrow> active_segment" where
  "recovering log seg = seg\<lparr>sg_log := log, sg_nextOffset := sg_baseOffset seg,
     sg_largestTimestamp := - 1, sg_firstAppendMs := - 1\<rparr>"

lemma maybeAddIndexEntry_recovering:
  "maybeAddIndexEntry base pos (recovering log seg) =
    bind_r (maybeAddIndexEntry base pos seg) (\<lambda>s. Inr (recovering log s))"
  by (cases "index_append base (of_nat pos) (sg_index seg)")
    (simp_all add: maybeAddIndexEntry_def recovering_def)

lemma maybeAddIndexEntry_frame:
  "maybeAddIndexEntry base pos seg = Inr s \<Longrightarrow>
    s = seg\<lparr>sg_index := sg_index s, sg_bytesSinceIndexEntry := sg_bytesSinceIndexEntry s\<rparr>"
  by (auto simp: maybeAddIndexEntry_def bind_r_Inr_iff split: if_splits)

lemma recover_loop_appends:
  assumes "append_batches now ys seg = Inr seg'" "list_all valid_batch ys" "log = sg_log seg @ concat ys @ tail"
    and "list_all (\<lambda>b. below tr (hdr b)) ys"
  shows "recover_loop (length log) tr (length (sg_log seg)) (sg_nextOffset seg) (sg_largestTimestamp seg) (recovering log seg)
    = recover_loop (length log) tr (length (sg_log seg')) (sg_nextOffset seg') (sg_largestTimestamp seg') (recovering log seg')
    \<and> sg_log seg' = sg_log seg @ concat ys \<and> sg_baseOffset seg' = sg_baseOffset seg \<and> sg_policy seg' = sg_policy seg"
  using assms
proof (induction ys arbitrary: seg)
  case (Cons b ys)
  let ?h = "hdr b"
  have wf: "valid_batch b" "parseHeader b = Inr ?h"
    using Cons.prems(2) by (simp_all add: valid_batch_def batch_wf_def)
  from Cons.prems(1) obtain s where app: "segment_append (bh_baseOffset ?h) b now seg = Inr s"
    and rest: "append_batches now ys s = Inr seg'"
    by (auto simp: bind_r_Inr_iff)
  from app wf obtain m where m: "maybeAddIndexEntry (bh_baseOffset ?h) (length (sg_log seg)) seg = Inr m"
    and n: "bh_baseOffset ?h = sg_nextOffset seg"
    and s: "s = m\<lparr>sg_log := sg_log m @ b,
               sg_bytesSinceIndexEntry := sg_bytesSinceIndexEntry m + length b,
               sg_firstAppendMs := (if sg_firstAppendMs m < 0 then now else sg_firstAppendMs m),
               sg_largestTimestamp := max (sg_largestTimestamp m) (bh_maxTimestamp ?h),
               sg_nextOffset := lastOffset ?h + 1\<rparr>"
    by (auto simp: segment_append_def bind_r_Inr_iff)
  have frame: "sg_log m = sg_log seg" "sg_baseOffset m = sg_baseOffset seg" "sg_policy m = sg_policy seg"
    "sg_largestTimestamp m = sg_largestTimestamp seg"
    by (subst maybeAddIndexEntry_frame [OF m], simp)+
  have step: "recovering log s = (recovering log m)\<lparr>sg_bytesSinceIndexEntry :=
      sg_bytesSinceIndexEntry (recovering log m) + length b\<rparr>"
    by (simp add: s recovering_def)
  have "recover_loop (length log) tr (length (sg_log seg)) (bh_baseOffset ?h) (sg_largestTimestamp seg) (recovering log seg)
      = recover_loop (length log) tr (length (sg_log seg @ b)) (lastOffset ?h + 1)
          (max (sg_largestTimestamp seg) (bh_maxTimestamp ?h)) (recovering log s)"
    using recover_loop_batch [of "recovering log seg" "sg_log seg" b "concat ys @ tail" tr "recovering log m"
        "sg_largestTimestamp seg"] wf(1) Cons.prems(3,4) m step
    by (simp add: maybeAddIndexEntry_recovering) (simp add: recovering_def)
  moreover have "sg_log s = sg_log seg @ b" "sg_nextOffset s = lastOffset ?h + 1"
    "sg_largestTimestamp s = max (sg_largestTimestamp seg) (bh_maxTimestamp ?h)"
    "sg_baseOffset s = sg_baseOffset seg" "sg_policy s = sg_policy seg"
    by (simp_all add: s frame)
  ultimately show ?case
    using Cons.IH [OF rest] Cons.prems(2-4) n by simp
qed simp

subsection \<open>Creating, recovering and sealing\<close>

lemma index_create_ok:
  assumes "index_create base maxBytes = Inr idx"
  shows "index_ok idx" "oi_baseOffset idx = base" "oi_writable idx" "index_entries idx = []"
  using assms
  by (auto simp: index_create_def index_ok_def index_entries_def entries_sorted_def Let_def
      bind_r_Inr_iff kEntrySize_def)

lemma active_create_holds:
  assumes "active_create dir base policy = Inr seg"
  shows "active_holds [] seg" "sg_baseOffset seg = base" "sg_policy seg = policy"
  using assms index_create_ok
  by (auto simp: active_create_def active_holds_def segment_holds_def indexed_def hints_sound_def
      index_hints_def bind_r_Inr_iff)

lemma append_batches_holds:
  assumes "active_holds xs seg" "list_all batch_wf ys" "append_batches now ys seg = Inr seg'"
  shows "active_holds (xs @ ys) seg' \<and> sg_baseOffset seg' = sg_baseOffset seg"
  using assms
proof (induction ys arbitrary: xs seg)
  case (Cons b ys)
  then obtain s where app: "segment_append (bh_baseOffset (hdr b)) b now seg = Inr s"
    and rest: "append_batches now ys s = Inr seg'"
    by (auto simp: bind_r_Inr_iff)
  from Cons.prems(2) have "batch_wf b" by simp
  from segment_append_holds [OF Cons.prems(1) this app] have
    "active_holds (xs @ [b]) s" "sg_baseOffset s = sg_baseOffset seg" by simp_all
  with Cons.IH [OF _ _ rest] Cons.prems(2) show ?case by fastforce
qed simp

lemma valid_batch_wf: "list_all valid_batch bs \<Longrightarrow> list_all batch_wf bs"
  by (induction bs) (simp_all add: valid_batch_def)

lemma active_recover_appends:
  assumes "active_create dir base policy = Inr seg0" "append_batches now bs seg0 = Inr seg"
    and "list_all valid_batch bs" "bad_tail tr (sg_nextOffset seg) tail"
    and "list_all (\<lambda>b. below tr (hdr b)) bs"
    and "files (segmentLogPath base) = Some (sg_log seg @ tail)" "0 \<le> base" "base < 2 ^ 63"
  shows "active_recover files (segmentLogPath base) policy tr now' =
    Inr (seg\<lparr>sg_firstAppendMs := if bs = [] then - 1 else now'\<rparr>)"
proof -
  let ?log = "sg_log seg @ tail"
  from assms(1) obtain idx where idx: "index_create base (rp_maxIndexBytes policy) = Inr idx"
    and seg0: "seg0 = \<lparr>sg_log = [], sg_index = idx, sg_baseOffset = base, sg_nextOffset = base,
           sg_largestTimestamp = - 1, sg_policy = policy, sg_bytesSinceIndexEntry = 0,
           sg_firstAppendMs = - 1\<rparr>"
    by (auto simp: active_create_def bind_r_Inr_iff)
  have log: "sg_log seg = concat bs" "sg_baseOffset seg = base" "sg_policy seg = policy"
    using recover_loop_appends [OF assms(2,3) refl assms(5), of "[]"] by (simp_all add: seg0)
  have "recover_loop (length ?log) tr 0 base (- 1) (recovering ?log seg0)
      = recover_loop (length ?log) tr (length (sg_log seg)) (sg_nextOffset seg) (sg_largestTimestamp seg) (recovering ?log seg)"
    using recover_loop_appends [OF assms(2,3) _ assms(5), of ?log tail] log by (simp add: seg0)
  also have "\<dots> = Inr (length (sg_log seg), sg_nextOffset seg, sg_largestTimestamp seg, recovering ?log seg)"
    using recover_loop_stop [of "recovering ?log seg" "sg_log seg" tail tr] assms(4)
    by (simp add: recovering_def)
  finally have loop: "recover_loop (length ?log) tr 0 base (- 1) (recovering ?log seg0)
      = Inr (length (sg_log seg), sg_nextOffset seg, sg_largestTimestamp seg, recovering ?log seg)" .
  have "bs = [] \<longleftrightarrow> length (sg_log seg) = 0"
    using valid_batch_wf [OF assms(3)] batch_wf_length by (cases bs) (force simp: log)+
  then show ?thesis
    using loop assms(6-8) idx log
    by (simp add: active_recover_def baseOffsetFromLogPath_segmentLogPath recovering_def seg0 Let_def)
qed

text \<open>Cutting a file anywhere leaves whole batches and a piece of the next one.\<close>

lemma take_concat_split:
  "\<exists>xs ys torn. bs = xs @ ys \<and> take n (concat bs) = concat xs @ torn \<and> length (concat xs) \<le> n \<and>
     (if ys = [] then torn = [] else torn = take (n - length (concat xs)) (hd ys) \<and>
        n < length (concat xs) + length (hd ys))"
proof (induction bs arbitrary: n)
  case (Cons b bs)
  show ?case
  proof (cases "n < length b")
    case True
    then show ?thesis by (intro exI [of _ "[]"] exI [of _ "b # bs"] exI [of _ "take n b"]) simp
  next
    case False
    obtain xs ys torn where "bs = xs @ ys" "take (n - length b) (concat bs) = concat xs @ torn"
      "length (concat xs) \<le> n - length b"
      "if ys = [] then torn = [] else torn = take (n - length b - length (concat xs)) (hd ys) \<and>
        n - length b < length (concat xs) + length (hd ys)"
      using Cons.IH [of "n - length b"] by blast
    with False show ?thesis
      by (intro exI [of _ "b # xs"] exI [of _ ys] exI [of _ torn]) (auto split: if_splits)
  qed
qed simp

lemma bad_tail_torn: "batch_wf b \<Longrightarrow> k < length b \<Longrightarrow> bad_tail tr n (take k b)"
  using batchAt_torn [of "take k b" "[]" k b 0 "length (take k b)"] by (simp add: bad_tail_def)

lemma bad_tail_Nil [simp]: "bad_tail tr n []"
  by (simp add: bad_tail_def batchAt_def)

lemma segment_seal_holds:
  assumes "active_holds bs seg" "0 \<le> sg_baseOffset seg" "sg_baseOffset seg < 2 ^ 63"
  shows "\<exists>sealed xs ys. segment_seal seg = Inr sealed \<and> segment_holds bs sealed \<and> bs = xs @ ys \<and>
    sg_baseOffset sealed = sg_baseOffset seg \<and> sg_log sealed = sg_log seg \<and>
    sg_nextOffset sealed = sg_nextOffset seg \<and> sg_largestTimestamp sealed = top_timestamp (- 1) ys \<and>
    index_hints (sg_index sealed) = index_hints (sg_index seg)"
proof -
  let ?b = "sg_baseOffset seg"
  have a: "sg_log seg = concat bs" "ascending ?b bs" "sg_nextOffset seg = end_offset ?b bs"
    "indexed bs ?b (sg_index seg)" "oi_writable (sg_index seg)"
    using assms(1) by (simp_all add: active_holds_def segment_holds_def)
  have ok: "index_ok (sg_index seg)" "oi_baseOffset (sg_index seg) = ?b"
    using a(4) by (simp_all add: indexed_def)
  let ?f = "concat (map entry_bytes (index_entries (sg_index seg))) @ replicate 0 (0 :: byte)"
  let ?idx = "index_openSealed ?f ?b"
  note reopened = index_openSealed_entries [OF ok(1) refl, where n = 0 and b = ?b]
  have hints: "index_hints ?idx = index_hints (sg_index seg)"
    using reopened ok(2) by (simp add: index_hints_def)
  let ?s = "\<lparr>sg_log = sg_log seg, sg_index = ?idx, sg_baseOffset = ?b, sg_nextOffset = ?b, sg_largestTimestamp = - 1\<rparr>"
  have idx: "indexed bs ?b ?idx" using a(4) reopened hints by (simp add: indexed_def)
  then obtain xs ys where d: "bs = xs @ ys" "deriveEndStateFromLog ?s =
      Inr (?s\<lparr>sg_nextOffset := end_offset ?b bs, sg_largestTimestamp := top_timestamp (- 1) ys\<rparr>)"
    using deriveEndState_walk [of ?s bs] a by auto
  have "segment_seal seg = deriveEndStateFromLog ?s"
    using assms(2,3) index_flushAndTrim_entries [OF ok(1) a(5)]
    by (simp add: segment_seal_def sealed_open_def logFileName_def indexFileName_def
        baseOffsetFromLogPath_segmentLogPath)
  with d a idx hints show ?thesis by (auto simp: segment_holds_def)
qed

lemma bad_tail_above: "batch_wf b \<Longrightarrow> \<not> below tr (hdr b) \<Longrightarrow> bad_tail tr n (b @ post)"
  using batchAt_batch [of "b @ post" "[]" b post 0 "length (b @ post)"] by (simp add: bad_tail_def)

subsection \<open>Recovering a whole file\<close>

text \<open>Batches whose offsets and positions an index entry can express.\<close>

definition index_fits :: "int \<Rightarrow> byte list list \<Rightarrow> bool" where
  "index_fits base bs \<longleftrightarrow> int (length (concat bs)) \<le> UINT32_MAX \<and> end_offset base bs - base \<le> UINT32_MAX"

lemma append_batches_total:
  assumes "active_holds xs seg" "contiguous (sg_nextOffset seg) ys" "index_fits (sg_baseOffset seg) (xs @ ys)"
  shows "\<exists>seg'. append_batches now ys seg = Inr seg'"
  using assms
proof (induction ys arbitrary: xs seg)
  case (Cons b ys)
  let ?base = "bh_baseOffset (hdr b)"
  have h: "sg_log seg = concat xs" "contiguous (sg_baseOffset seg) xs"
    "sg_nextOffset seg = end_offset (sg_baseOffset seg) xs" "indexed xs (sg_baseOffset seg) (sg_index seg)"
    "oi_writable (sg_index seg)" "ascending (sg_baseOffset seg) xs"
    using Cons.prems(1) by (simp_all add: active_holds_def segment_holds_def)
  have b: "batch_wf b" "?base = sg_nextOffset seg" "contiguous (lastOffset (hdr b) + 1) ys"
    using Cons.prems(2) by simp_all
  have "lastOffset (hdr b) + 1 \<le> end_offset (sg_baseOffset seg) (xs @ b # ys)"
    using ascending_le_end [OF contiguous_ascending [OF b(3)]] by simp
  then have "?base - sg_baseOffset seg \<le> UINT32_MAX"
    using Cons.prems(3) batch_wf_lastOffset [OF b(1)] by (simp add: index_fits_def)
  moreover have "int (length (concat xs)) \<le> UINT32_MAX"
    using Cons.prems(3) by (simp add: index_fits_def)
  ultimately have "\<not> index_overflow ?base (length (sg_log seg)) seg"
    using h(1) by (auto simp: index_overflow_def)
  then have "maybeAddIndexEntry ?base (length (sg_log seg)) seg \<noteq> Inl e" for e
    using maybeAddIndexEntry_error_iff [OF h(4,5) refl h(6), of ?base e] b(2) h(1,3) by simp
  then obtain m where "maybeAddIndexEntry ?base (length (sg_log seg)) seg = Inr m"
    by (cases "maybeAddIndexEntry ?base (length (sg_log seg)) seg") auto
  then obtain s where s: "segment_append ?base b now seg = Inr s"
    using b by (simp add: segment_append_def parseHeader_wf)
  have "active_holds (xs @ [b]) s" "sg_baseOffset s = sg_baseOffset seg"
    using segment_append_holds [OF Cons.prems(1) b(1) s] by simp_all
  moreover have "sg_nextOffset s = lastOffset (hdr b) + 1"
    using s b by (auto simp: segment_append_def parseHeader_wf bind_r_Inr_iff)
  ultimately show ?case
    using Cons.IH [of "xs @ [b]" s] Cons.prems(3) b(3) s by simp
qed simp

lemma active_recover_holds:
  assumes "list_all valid_batch bs" "contiguous base bs" "index_fits base bs"
    and "8 \<le> rp_maxIndexBytes policy" "0 \<le> base" "base < 2 ^ 63"
    and "files (segmentLogPath base) = Some (concat bs @ tail)" "bad_tail tr (end_offset base bs) tail"
  defines "kept \<equiv> takeWhile (\<lambda>b. below tr (hdr b)) bs"
  shows "\<exists>seg. active_recover files (segmentLogPath base) policy tr now = Inr seg \<and>
    active_holds kept seg \<and> sg_baseOffset seg = base"
proof -
  define lost where "lost = dropWhile (\<lambda>b. below tr (hdr b)) bs"
  have bs: "bs = kept @ lost" by (simp add: kept_def lost_def)
  have "0 < rp_maxIndexBytes policy div 8" using assms(4) by (simp add: div_greater_zero_iff)
  then obtain seg0 where seg0: "active_create Map.empty base policy = Inr seg0"
    by (fastforce simp: active_create_def index_create_def kEntrySize_def Let_def)
  have h0: "active_holds [] seg0" "sg_baseOffset seg0 = base" "sg_nextOffset seg0 = base"
    using active_create_holds [OF seg0] by (simp_all add: active_holds_def segment_holds_def)
  obtain seg where all: "append_batches now (kept @ lost) seg0 = Inr seg"
    using append_batches_total [OF h0(1), of bs now] assms(2,3) h0 bs by auto
  then obtain seg' where pre: "append_batches now kept seg0 = Inr seg'" and post: "append_batches now lost seg' = Inr seg"
    by (auto simp: append_batches_append bind_r_Inr_iff)
  have valid: "list_all valid_batch kept" "list_all (\<lambda>b. below tr (hdr b)) kept"
    using assms(1) by (auto simp: kept_def list_all_iff dest: set_takeWhileD)
  have holds: "active_holds kept seg'" "sg_baseOffset seg' = base"
    using append_batches_holds [OF h0(1) valid_batch_wf [OF valid(1)] pre] h0 by simp_all
  then have log: "sg_log seg' = concat kept" "sg_nextOffset seg' = end_offset base kept"
    by (simp_all add: active_holds_def segment_holds_def)
  have bad: "bad_tail tr (sg_nextOffset seg') (concat lost @ tail)"
  proof (cases lost)
    case Nil
    then show ?thesis using assms(8) log bs by simp
  next
    case (Cons b others)
    then have "\<not> below tr (hdr b)" by (simp add: lost_def dropWhile_eq_Cons_conv)
    moreover from Cons have "b \<in> set bs" unfolding lost_def by (metis list.set_intros(1) set_dropWhileD)
    then have "batch_wf b" using assms(1) by (simp add: list_all_iff valid_batch_def)
    ultimately show ?thesis using Cons bad_tail_above [of b tr _ "concat others @ tail"] by simp
  qed
  have "files (segmentLogPath base) = Some (sg_log seg' @ concat lost @ tail)"
    using assms(7) log(1) arg_cong [OF bs, of concat] by simp
  from active_recover_appends [where files = files, OF seg0 pre valid(1) bad valid(2) this assms(5,6)] holds
  show ?thesis by (auto simp: active_holds_def segment_holds_def)
qed

subsection \<open>The smallest batch\<close>

text \<open>A valid batch of a bare header, for concrete instances.\<close>

definition bare_header :: "int \<Rightarrow> int \<Rightarrow> int \<Rightarrow> batch_header" where
  "bare_header base delta ts = \<lparr>bh_baseOffset = base, bh_batchLength = 49, bh_partitionLeaderEpoch = - 1,
     bh_magic = 2, bh_crc = 0, bh_attributes = 0, bh_lastOffsetDelta = delta, bh_firstTimestamp = ts,
     bh_maxTimestamp = ts, bh_producerId = - 1, bh_producerEpoch = - 1, bh_baseSequence = - 1,
     bh_recordCount = 0\<rparr>"

definition bare_batch :: "int \<Rightarrow> int \<Rightarrow> int \<Rightarrow> byte list" where
  "bare_batch base delta ts = header_bytes ((bare_header base delta ts)
     \<lparr>bh_crc := crc32c (drop 21 (header_bytes (bare_header base delta ts)))\<rparr>)"

lemma header_batch:
  assumes "header_ok h" "bh_batchLength h = 49" "bh_magic h = 2" "0 \<le> bh_lastOffsetDelta h" "0 \<le> bh_recordCount h"
  defines "b \<equiv> header_bytes (h\<lparr>bh_crc := crc32c (drop 21 (header_bytes h))\<rparr>)"
  shows "valid_batch b" "hdr b = h\<lparr>bh_crc := crc32c (drop 21 (header_bytes h))\<rparr>" "length b = 61"
proof -
  let ?h = "h\<lparr>bh_crc := crc32c (drop 21 (header_bytes h))\<rparr>"
  have "header_ok ?h" using assms(1) by (simp add: header_ok_def)
  from header_of_bytes [OF this, of "[]"] show h: "hdr b = ?h" by (simp add: b_def)
  show len: "length b = 61" by (simp add: b_def)
  have p: "parseHeader b = Inr ?h" using assms(2,3,5) by (simp add: parseHeader_alt len h Let_def)
  moreover have t: "totalSizeOf b = Inr 61" using assms(2) by (simp add: totalSizeOf_alt len h)
  moreover have "verifyCrc b = Inr True"
    using drop_21_header_bytes [where h = h and ys = "[]"]
    by (intro verifyCrc_TrueI [OF p t]) (simp_all add: len b_def)
  ultimately show "valid_batch b" using assms(4) by (simp add: valid_batch_def batch_wf_def h len)
qed

lemma bare_batch_facts:
  assumes "in_i64 base" "in_i32 delta" "0 \<le> delta" "in_i64 ts"
  shows "valid_batch (bare_batch base delta ts)" "bh_baseOffset (hdr (bare_batch base delta ts)) = base"
    "bh_maxTimestamp (hdr (bare_batch base delta ts)) = ts"
    "lastOffset (hdr (bare_batch base delta ts)) = base + delta" "length (bare_batch base delta ts) = 61"
proof -
  have h: "header_ok (bare_header base delta ts)" "bh_batchLength (bare_header base delta ts) = 49"
      "bh_magic (bare_header base delta ts) = 2" "0 \<le> bh_lastOffsetDelta (bare_header base delta ts)"
      "0 \<le> bh_recordCount (bare_header base delta ts)"
    using assms by (simp_all add: header_ok_def bare_header_def range_simps)
  note b = header_batch [OF h, folded bare_batch_def]
  show "valid_batch (bare_batch base delta ts)" "length (bare_batch base delta ts) = 61" using b by simp_all
  show "bh_baseOffset (hdr (bare_batch base delta ts)) = base"
    "bh_maxTimestamp (hdr (bare_batch base delta ts)) = ts"
    "lastOffset (hdr (bare_batch base delta ts)) = base + delta"
    by (simp_all add: b(2) bare_header_def lastOffset_def)
qed

lemma bare_batch_0: "valid_batch (bare_batch 0 0 5)" "bh_baseOffset (hdr (bare_batch 0 0 5)) = 0"
    "bh_maxTimestamp (hdr (bare_batch 0 0 5)) = 5" "lastOffset (hdr (bare_batch 0 0 5)) = 0"
    "length (bare_batch 0 0 5) = 61" "batch_wf (bare_batch 0 0 5)"
  using bare_batch_facts [of 0 0 5] by (simp_all add: range_simps valid_batch_def)

abbreviation small_policy :: roll_policy where
  "small_policy \<equiv> \<lparr>rp_maxSegmentBytes = 1000, rp_maxSegmentAgeMs = 1000, rp_indexIntervalBytes = 1,
     rp_maxIndexBytes = 16\<rparr>"

abbreviation fresh_segment :: active_segment where
  "fresh_segment \<equiv> \<lparr>sg_log = [], sg_index = \<lparr>oi_bytes = replicate 16 0, oi_writable = True,
     oi_baseOffset = 0, oi_entryCount = 0, oi_maxEntries = 2, oi_spent = False\<rparr>, sg_baseOffset = 0,
     sg_nextOffset = 0, sg_largestTimestamp = - 1, sg_policy = small_policy,
     sg_bytesSinceIndexEntry = 0, sg_firstAppendMs = - 1\<rparr>"

lemma fresh_segment_create: "active_create Map.empty 0 small_policy = Inr fresh_segment"
  by (simp add: active_create_def index_create_def kEntrySize_def)

lemma fresh_segment_append:
  "append_batches 9 [bare_batch 0 0 5] fresh_segment = Inr (fresh_segment\<lparr>sg_log := bare_batch 0 0 5,
     sg_nextOffset := 1, sg_largestTimestamp := 5, sg_bytesSinceIndexEntry := 61, sg_firstAppendMs := 9\<rparr>)"
  using bare_batch_0 by (simp add: segment_append_def maybeAddIndexEntry_def parseHeader_wf)

abbreviation one_segment :: active_segment where
  "one_segment \<equiv> fresh_segment\<lparr>sg_log := bare_batch 0 0 5, sg_nextOffset := 1,
     sg_largestTimestamp := 5, sg_bytesSinceIndexEntry := 61, sg_firstAppendMs := 9\<rparr>"

lemma one_segment_holds: "active_holds [bare_batch 0 0 5] one_segment"
  using append_batches_holds [OF active_create_holds(1) [OF fresh_segment_create] _ fresh_segment_append]
    bare_batch_0 by simp

subsection \<open>Properties\<close>

text \<open>
  C34. Reading a well-formed segment, active or sealed, at any offset from its base on returns the
  range that starts at the first batch whose last offset reaches the target and is cut at the
  fetch size but never inside that first batch, or the empty range at the end of the file:
  the sparse index changes how far the scan runs, never what it finds.
\<close>

theorem segment_read_correct:
  assumes "segment_holds bs seg" and "sg_baseOffset seg \<le> offset"
  shows "segment_read offset maxBytes seg =
    (let below = takeWhile (\<lambda>b. lastOffset (hdr b) < offset) bs;
         found = dropWhile (\<lambda>b. lastOffset (hdr b) < offset) bs
     in Inr (length (concat below),
         if found = [] then 0 else max (length (hd found)) (min maxBytes (length (concat found)))))"
  using segment_read_scan [OF assms, of maxBytes] by (simp add: scan_read_def Let_def)

theorem segment_read_correct_witness: "segment_read 0 10 one_segment = Inr (0, 61)"
  using segment_read_correct [of "[bare_batch 0 0 5]" one_segment 0 10] one_segment_holds bare_batch_0
  by (simp add: active_holds_def)

text \<open>
  Appending a parseable batch to a well-formed active segment either leaves a well-formed
  segment that holds the batch behind the others, with the end offset and the largest timestamp
  moved on, or fails with \<open>OffsetInvariantViolated\<close>: exactly when the header does not carry the
  stamped offset, when that offset is not the next one, or when an index entry is due that
  32 bits cannot express.
\<close>

lemma segment_append_correct:
  assumes "active_holds bs seg" and "batch_wf b"
  shows "case segment_append base b now seg of
      Inl e \<Rightarrow> e = OffsetInvariantViolated \<and>
        (bh_baseOffset (hdr b) \<noteq> base \<or> base \<noteq> sg_nextOffset seg \<or> index_overflow base (sizeBytes seg) seg)
    | Inr seg' \<Rightarrow> bh_baseOffset (hdr b) = base \<and> base = sg_nextOffset seg \<and>
        \<not> index_overflow base (sizeBytes seg) seg \<and> active_holds (bs @ [b]) seg'"
proof (cases "segment_append base b now seg")
  case (Inr seg')
  have m: "maybeAddIndexEntry base (length (sg_log seg)) seg \<noteq> Inl OffsetInvariantViolated"
    using Inr assms(2) by (auto simp: segment_append_def parseHeader_wf bind_r_Inr_iff)
  note s = segment_append_holds [OF assms Inr]
  then have "\<not> index_overflow base (length (sg_log seg)) seg"
    using m maybeAddIndexEntry_error_iff [of bs seg "length (sg_log seg)" base] assms(1)
    by (auto simp: active_holds_def segment_holds_def)
  with Inr s show ?thesis by (simp add: sizeBytes_def)
next
  case (Inl e)
  then consider (stamp) "bh_baseOffset (hdr b) \<noteq> base" "e = OffsetInvariantViolated"
    | (gap) "base \<noteq> sg_nextOffset seg" "e = OffsetInvariantViolated"
    | (idx) "base = sg_nextOffset seg" "maybeAddIndexEntry base (length (sg_log seg)) seg = Inl e"
    using assms(2) by (auto simp: segment_append_def parseHeader_wf bind_r_Inl_iff)
  then show ?thesis
  proof cases
    case idx
    then have "index_overflow base (length (sg_log seg)) seg \<and> e = OffsetInvariantViolated"
      using maybeAddIndexEntry_error_iff [of bs seg "length (sg_log seg)" base e] assms(1)
      by (auto simp: active_holds_def segment_holds_def)
    with Inl show ?thesis by (simp add: sizeBytes_def)
  qed (use Inl in auto)
qed

text \<open>
  C32. A segment that was created and appended to and whose file a crash cut at any byte
  recovers to exactly the state it had after the longest run of appends whose bytes all reached
  the file: log, rebuilt index, offsets and timestamps are those, and only the clock of
  the first append is new.
\<close>

theorem recover_after_crash:
  assumes "active_create dir base policy = Inr seg0" and "append_batches now bs seg0 = Inr seg"
    and "list_all valid_batch bs" and "0 \<le> base" "base < 2 ^ 63"
  shows "\<exists>kept lost seg'. bs = kept @ lost \<and> append_batches now kept seg0 = Inr seg' \<and>
    length (sg_log seg') \<le> n \<and> (lost = [] \<or> n < length (sg_log seg') + length (hd lost)) \<and>
    active_recover [segmentLogPath base \<mapsto> take n (sg_log seg)] (segmentLogPath base) policy None now'
      = Inr (seg'\<lparr>sg_firstAppendMs := if kept = [] then - 1 else now'\<rparr>)"
proof -
  obtain xs ys torn where split: "bs = xs @ ys" "take n (concat bs) = concat xs @ torn" "length (concat xs) \<le> n"
    and torn: "if ys = [] then torn = [] else torn = take (n - length (concat xs)) (hd ys) \<and>
        n < length (concat xs) + length (hd ys)"
    using take_concat_split [of bs n] by blast
  from assms(2) split(1) obtain seg' where pre: "append_batches now xs seg0 = Inr seg'"
    by (auto simp: append_batches_append bind_r_Inr_iff)
  have log0: "sg_log seg0 = []" using assms(1) by (auto simp: active_create_def bind_r_Inr_iff)
  have log: "sg_log seg = concat bs" "sg_log seg' = concat xs"
    using recover_loop_appends [OF assms(2,3) refl, of None "[]"]
      recover_loop_appends [OF pre _ refl, of None "[]"] assms(3) split(1) log0
    by (simp_all add: below_def list_all_iff)
  have bad: "bad_tail None (sg_nextOffset seg') torn"
  proof (cases ys)
    case (Cons b ys')
    then have "batch_wf b" using assms(3) split(1) by (simp add: valid_batch_def)
    with Cons torn show ?thesis using bad_tail_torn [of b "n - length (concat xs)"] by (simp add: less_diff_conv2 split(3))
  qed (use torn in simp)
  have valid: "list_all valid_batch xs" "list_all (\<lambda>b. below None (hdr b)) xs"
    using assms(3) split(1) by (simp_all add: below_def list_all_iff)
  have "active_recover [segmentLogPath base \<mapsto> take n (sg_log seg)] (segmentLogPath base) policy None now'
      = Inr (seg'\<lparr>sg_firstAppendMs := if xs = [] then - 1 else now'\<rparr>)"
    by (rule active_recover_appends [OF assms(1) pre valid(1) bad valid(2) _ assms(4,5)])
      (simp add: log split(2))
  then show ?thesis using split pre torn log by (intro exI conjI) (auto split: if_splits)
qed

theorem recover_after_crash_witness:
  "\<exists>kept lost seg'. [bare_batch 0 0 5] = kept @ lost \<and> append_batches 9 kept fresh_segment = Inr seg' \<and>
    length (sg_log seg') \<le> 60 \<and> (lost = [] \<or> 60 < length (sg_log seg') + length (hd lost)) \<and>
    active_recover [segmentLogPath 0 \<mapsto> take 60 (bare_batch 0 0 5)] (segmentLogPath 0) small_policy None 11
      = Inr (seg'\<lparr>sg_firstAppendMs := if kept = [] then - 1 else 11\<rparr>)"
  using recover_after_crash [OF fresh_segment_create fresh_segment_append, of 60 11] bare_batch_0 by simp

text \<open>
  Recovery never propagates damage and never keeps it: whatever follows the batches the
  segment was built from (a torn batch, bytes that do not parse, a batch whose checksum fails or
  whose base offset is not the next one), and whichever truncation offset is asked for, the
  segment recovered is the one the batches that end below that offset built.
\<close>

lemma recover_discards_tail:
  assumes "active_create dir base policy = Inr seg0" and "append_batches now bs seg0 = Inr seg"
    and "list_all valid_batch bs" and "bad_tail truncateAt (sg_nextOffset seg) tail"
    and "0 \<le> base" "base < 2 ^ 63"
  defines "kept \<equiv> takeWhile (\<lambda>b. below truncateAt (hdr b)) bs"
  shows "\<exists>seg'. append_batches now kept seg0 = Inr seg' \<and> sg_log seg' = concat kept \<and>
    active_recover [segmentLogPath base \<mapsto> sg_log seg @ tail] (segmentLogPath base) policy truncateAt now'
      = Inr (seg'\<lparr>sg_firstAppendMs := if kept = [] then - 1 else now'\<rparr>)"
proof -
  define lost where "lost = dropWhile (\<lambda>b. below truncateAt (hdr b)) bs"
  have bs: "bs = kept @ lost" by (simp add: kept_def lost_def)
  from assms(2) have "append_batches now (kept @ lost) seg0 = Inr seg" by (simp only: bs)
  then obtain seg' where pre: "append_batches now kept seg0 = Inr seg'"
    and post: "append_batches now lost seg' = Inr seg"
    by (auto simp: append_batches_append bind_r_Inr_iff)
  have kept: "list_all valid_batch kept" "list_all (\<lambda>b. below truncateAt (hdr b)) kept"
    using assms(3) by (auto simp: kept_def list_all_iff dest: set_takeWhileD)
  have log0: "sg_log seg0 = []" using assms(1) by (auto simp: active_create_def bind_r_Inr_iff)
  have log: "sg_log seg' = concat kept" "sg_log seg = concat bs"
    using recover_loop_appends [OF pre kept(1) refl kept(2), of "[]"]
      recover_loop_appends [OF assms(2,3) refl, of None "[]"] log0 by (simp_all add: below_def list_all_iff)
  have "bad_tail truncateAt (sg_nextOffset seg') (concat lost @ tail)"
  proof (cases lost)
    case Nil
    with post assms(4) show ?thesis by simp
  next
    case (Cons b rest)
    then have "\<not> below truncateAt (hdr b)" by (simp add: lost_def dropWhile_eq_Cons_conv)
    moreover from Cons have "b \<in> set bs" unfolding lost_def by (metis list.set_intros(1) set_dropWhileD)
    then have "batch_wf b" using assms(3) by (simp add: list_all_iff valid_batch_def)
    ultimately have "\<not> below truncateAt (hdr b)" "batch_wf b" by simp_all
    with Cons show ?thesis using bad_tail_above [of b truncateAt _ "concat rest @ tail"] by simp
  qed
  from active_recover_appends [OF assms(1) pre kept(1) this kept(2) _ assms(5,6), of "[segmentLogPath base \<mapsto> sg_log seg @ tail]"]
  show ?thesis using pre log by (simp only: append_assoc) (simp flip: bs concat_append)
qed

text \<open>
  Sealing changes nothing a reader can see: the sealed segment has the same base, end
  offset and bytes, is well formed, and answers every read as the active one did.
\<close>

lemma seal_keeps_reads:
  assumes "active_holds bs seg" and "0 \<le> sg_baseOffset seg" "sg_baseOffset seg < 2 ^ 63"
  shows "\<exists>sealed. segment_seal seg = Inr sealed \<and> segment_holds bs sealed \<and>
    sg_baseOffset sealed = sg_baseOffset seg \<and> sg_nextOffset sealed = sg_nextOffset seg \<and>
    sg_log sealed = sg_log seg \<and> sg_largestTimestamp sealed \<le> sg_largestTimestamp seg \<and>
    (\<forall>offset maxBytes. segment_read offset maxBytes sealed = segment_read offset maxBytes seg)"
proof -
  obtain sealed xs ys where s: "segment_seal seg = Inr sealed" "segment_holds bs sealed" "bs = xs @ ys"
      "sg_baseOffset sealed = sg_baseOffset seg" "sg_log sealed = sg_log seg"
      "sg_nextOffset sealed = sg_nextOffset seg" "sg_largestTimestamp sealed = top_timestamp (- 1) ys"
    using segment_seal_holds [OF assms] by blast
  have mono: "t \<le> u \<Longrightarrow> top_timestamp t bs \<le> top_timestamp u bs" for t u bs
    by (induction bs arbitrary: t u) auto
  have ge: "t \<le> top_timestamp t bs" for t bs
  proof (induction bs arbitrary: t)
    case (Cons b bs)
    have "t \<le> max t (bh_maxTimestamp (hdr b))" by simp
    also note Cons.IH
    finally show ?case by simp
  qed simp
  have "sg_largestTimestamp sealed \<le> sg_largestTimestamp seg"
    using s mono [OF ge [of "- 1" xs], of ys] assms(1) by (simp add: active_holds_def)
  moreover have "segment_read offset maxBytes sealed = segment_read offset maxBytes seg" for offset maxBytes
  proof (cases "offset < sg_baseOffset seg")
    case True
    then show ?thesis using s by (simp add: segment_read_def)
  next
    case False
    then show ?thesis
      using segment_read_scan [OF s(2), of offset maxBytes] segment_read_scan [of bs seg offset maxBytes]
        s assms(1) by (simp add: active_holds_def)
  qed
  ultimately show ?thesis using s by blast
qed

end
