(* ===== verification/Partition_Meta.thy ===== *)
theory Partition_Meta
  imports Buffer Segment
begin

text \<open>
  The configuration of a partition (the records of \<^verbatim>\<open>storage/log.hpp\<close>) and the
  \<^verbatim>\<open>partition.meta\<close> file it is kept in, \<^verbatim>\<open>storage/partition_meta.cpp\<close>. Writing
  the file through a temporary and a rename is writing its bytes.
\<close>

subsection \<open>Configuration\<close>

record retention_policy =
  rt_retentionMs :: int
  rt_retentionBytes :: "nat option"
  rt_segmentDeleteDelayMs :: int

definition bytesLimited :: "retention_policy \<Rightarrow> bool" where
  "bytesLimited r \<longleftrightarrow> rt_retentionBytes r \<noteq> None"

datatype cleanup_policy = Delete | Compact

record compaction_policy =
  cp_deleteRetentionMs :: int

record log_config =
  lc_roll :: roll_policy
  lc_retention :: retention_policy
  lc_compaction :: compaction_policy
  lc_cleanup :: cleanup_policy

definition compacted :: "log_config \<Rightarrow> bool" where
  "compacted c \<longleftrightarrow> lc_cleanup c = Compact"

record partition_meta =
  pm_tp :: topic_partition
  pm_config :: log_config

definition meta_kMagic :: "32 word" where "meta_kMagic = 0x444B504D"
definition meta_kVersion :: int where "meta_kVersion = 2"
definition meta_kOldestReadable :: int where "meta_kOldestReadable = 1"
definition meta_kFileName :: string where "meta_kFileName = ''partition.meta''"
definition kUnlimitedBytes :: int where "kUnlimitedBytes = - 1"

text \<open>A \<open>static_cast\<close> between \<^verbatim>\<open>uint64_t\<close> and \<^verbatim>\<open>int64_t\<close>; a topic name is its bytes.\<close>

definition as_u64 :: "int \<Rightarrow> nat" where
  "as_u64 x = nat (x mod 2 ^ 64)"

definition as_i64 :: "nat \<Rightarrow> int" where
  "as_i64 n = to_i64 (int n)"

definition string_bytes :: "string \<Rightarrow> byte list" where
  "string_bytes s = map (\<lambda>c. of_nat (of_char c)) s"

definition bytes_string :: "byte list \<Rightarrow> string" where
  "bytes_string bs = map (\<lambda>b. char_of (unat b)) bs"

definition default_compaction :: compaction_policy where
  "default_compaction = \<lparr>cp_deleteRetentionMs = 24 * 60 * 60 * 1000\<rparr>"

definition cleanup_code :: "cleanup_policy \<Rightarrow> int" where
  "cleanup_code c = (case c of Delete \<Rightarrow> 0 | Compact \<Rightarrow> 1)"

subsection \<open>The file\<close>

definition encodePartitionMeta :: "partition_meta \<Rightarrow> byte list result" where
  "encodePartitionMeta meta =
    (let topic = string_bytes (tp_topic (pm_tp meta));
         roll = lc_roll (pm_config meta);
         ret = lc_retention (pm_config meta)
     in
     bind_r (writeUint32 meta_kMagic new_writer) (\<lambda>w.
     bind_r (writeInt16 meta_kVersion w) (\<lambda>w.
     bind_r (writeInt16 (to_i16 (int (length topic))) w) (\<lambda>w.
     bind_r (writeBytes topic w) (\<lambda>w.
     bind_r (writeInt32 (tp_partition (pm_tp meta)) w) (\<lambda>w.
     bind_r (writeInt64 (as_i64 (rp_maxSegmentBytes roll)) w) (\<lambda>w.
     bind_r (writeInt64 (rp_maxSegmentAgeMs roll) w) (\<lambda>w.
     bind_r (writeInt64 (as_i64 (rp_indexIntervalBytes roll)) w) (\<lambda>w.
     bind_r (writeInt64 (as_i64 (rp_maxIndexBytes roll)) w) (\<lambda>w.
     bind_r (writeInt64 (rt_retentionMs ret) w) (\<lambda>w.
     bind_r (writeInt64 (case rt_retentionBytes ret of Some n \<Rightarrow> as_i64 n | None \<Rightarrow> kUnlimitedBytes) w) (\<lambda>w.
     bind_r (writeInt64 (rt_segmentDeleteDelayMs ret) w) (\<lambda>w.
     bind_r (writeInt8 (cleanup_code (lc_cleanup (pm_config meta))) w) (\<lambda>w.
     bind_r (writeInt64 (cp_deleteRetentionMs (lc_compaction (pm_config meta))) w) (\<lambda>w.
     bind_r (take_writer w) (\<lambda>(out, _). Inr out))))))))))))))))"

definition decodePartitionMeta :: "byte list \<Rightarrow> partition_meta result" where
  "decodePartitionMeta bytes =
    bind_r (readUint32 (reader_of bytes)) (\<lambda>(magic, r).
    bind_r (require (magic = meta_kMagic) CorruptData) (\<lambda>_.
    bind_r (readInt16 r) (\<lambda>(version, r).
    bind_r (require (\<not> (version > meta_kVersion \<or> version < meta_kOldestReadable)) CorruptData) (\<lambda>_.
    bind_r (readInt16 r) (\<lambda>(topicLength, r).
    bind_r (require (\<not> topicLength \<le> 0) CorruptData) (\<lambda>_.
    bind_r (readBytes (nat topicLength) r) (\<lambda>(topic, r).
    bind_r (readInt32 r) (\<lambda>(partition, r).
    bind_r (require (\<not> partition < 0) CorruptData) (\<lambda>_.
    bind_r (readInt64 r) (\<lambda>(maxSegmentBytes, r).
    bind_r (readInt64 r) (\<lambda>(maxSegmentAgeMs, r).
    bind_r (readInt64 r) (\<lambda>(indexIntervalBytes, r).
    bind_r (readInt64 r) (\<lambda>(maxIndexBytes, r).
    bind_r (readInt64 r) (\<lambda>(retentionMs, r).
    bind_r (readInt64 r) (\<lambda>(retentionBytes, r).
    bind_r (readInt64 r) (\<lambda>(segmentDeleteDelayMs, r).
    bind_r (if version \<ge> 2
            then bind_r (readInt8 r) (\<lambda>(cleanup, r).
                 bind_r (require (\<not> (cleanup \<noteq> 0 \<and> cleanup \<noteq> 1)) CorruptData) (\<lambda>_.
                 bind_r (readInt64 r) (\<lambda>(deleteRetentionMs, r).
                   Inr (if cleanup = 0 then Delete else Compact,
                        \<lparr>cp_deleteRetentionMs = deleteRetentionMs\<rparr>, r))))
            else Inr (Delete, default_compaction, r)) (\<lambda>(cleanup, compaction, r).
    bind_r (require (reader_empty r) CorruptData) (\<lambda>_.
      Inr \<lparr>pm_tp = \<lparr>tp_topic = bytes_string topic, tp_partition = partition\<rparr>,
           pm_config = \<lparr>lc_roll = \<lparr>rp_maxSegmentBytes = as_u64 maxSegmentBytes,
                            rp_maxSegmentAgeMs = maxSegmentAgeMs,
                            rp_indexIntervalBytes = as_u64 indexIntervalBytes,
                            rp_maxIndexBytes = as_u64 maxIndexBytes\<rparr>,
             lc_retention = \<lparr>rt_retentionMs = retentionMs,
               rt_retentionBytes = (if retentionBytes = kUnlimitedBytes then None
                                    else Some (as_u64 retentionBytes)),
               rt_segmentDeleteDelayMs = segmentDeleteDelayMs\<rparr>,
             lc_compaction = compaction, lc_cleanup = cleanup\<rparr>\<rparr>))))))))))))))))))"

definition readPartitionMeta :: "directory \<Rightarrow> topic_partition \<Rightarrow> partition_meta result" where
  "readPartitionMeta dir expected = (case dir meta_kFileName of
      None \<Rightarrow> Inl (IoError ENOENT)
    | Some bytes \<Rightarrow>
        bind_r (decodePartitionMeta bytes) (\<lambda>meta.
        bind_r (require (\<not> pm_tp meta \<noteq> expected) CorruptData) (\<lambda>_. Inr meta)))"

definition writePartitionMeta :: "directory \<Rightarrow> partition_meta \<Rightarrow> directory result" where
  "writePartitionMeta dir meta =
    bind_r (encodePartitionMeta meta) (\<lambda>bytes. Inr (dir(meta_kFileName \<mapsto> bytes)))"

subsection \<open>Round trip\<close>

lemma bytes_string_bytes [simp]: "bytes_string (string_bytes s) = s"
proof -
  have "char_of (unat (of_nat (of_char c) :: byte)) = c" for c :: char
    by (simp add: unsigned_of_nat of_char_of take_bit_nat_eq_self)
  then show ?thesis by (simp add: bytes_string_def string_bytes_def comp_def)
qed

lemma as_u64_as_i64 [simp]: "n < 2 ^ 64 \<Longrightarrow> as_u64 (as_i64 n) = n"
proof -
  assume n: "n < 2 ^ 64"
  have "as_i64 n mod 2 ^ 64 = uint (word_of_int (as_i64 n) :: 64 word)"
    by (simp add: uint_word_of_int)
  also have "\<dots> = int n mod 2 ^ 64"
    unfolding as_i64_def to_i64_def word_of_int_sint uint_word_of_int by simp
  finally have "as_i64 n mod 2 ^ 64 = int n mod 2 ^ 64" .
  with n show ?thesis by (simp add: as_u64_def)
qed

lemma in_i64_as_i64 [simp]: "in_i64 (as_i64 n)"
  by (simp add: as_i64_def to_i64_def)

text \<open>Reading a field and leaving the rest, one field at a time.\<close>

lemma field_reads:
  "rest r = be_bytes 4 u @ ys \<Longrightarrow> \<exists>r'. readUint32 r = Inr (u, r') \<and> rest r' = ys"
  "rest r = be_bytes 2 (word_of_int i :: 16 word) @ ys \<Longrightarrow> in_i16 i \<Longrightarrow>
    \<exists>r'. readInt16 r = Inr (i, r') \<and> rest r' = ys"
  "rest r = be_bytes 4 (word_of_int j :: 32 word) @ ys \<Longrightarrow> in_i32 j \<Longrightarrow>
    \<exists>r'. readInt32 r = Inr (j, r') \<and> rest r' = ys"
  "rest r = be_bytes 8 (word_of_int k :: 64 word) @ ys \<Longrightarrow> in_i64 k \<Longrightarrow>
    \<exists>r'. readInt64 r = Inr (k, r') \<and> rest r' = ys"
  "rest r = word_of_int l # ys \<Longrightarrow> in_i8 l \<Longrightarrow> \<exists>r'. readInt8 r = Inr (l, r') \<and> rest r' = ys"
  "rest r = bs @ ys \<Longrightarrow> n = length bs \<Longrightarrow> \<exists>r'. readBytes n r = Inr (bs, r') \<and> rest r' = ys"
  by (simp_all add: readUint32_rest readInt16_rest readInt32_rest readInt64_rest readInt8_rest readBytes_rest)

definition meta_ok :: "partition_meta \<Rightarrow> bool" where
  "meta_ok m \<longleftrightarrow> 0 < length (tp_topic (pm_tp m)) \<and> length (tp_topic (pm_tp m)) < 2 ^ 15 \<and>
     0 \<le> tp_partition (pm_tp m) \<and> in_i32 (tp_partition (pm_tp m)) \<and>
     (let roll = lc_roll (pm_config m); ret = lc_retention (pm_config m) in
      rp_maxSegmentBytes roll < 2 ^ 64 \<and> in_i64 (rp_maxSegmentAgeMs roll) \<and>
      rp_indexIntervalBytes roll < 2 ^ 64 \<and> rp_maxIndexBytes roll < 2 ^ 64 \<and>
      in_i64 (rt_retentionMs ret) \<and> in_i64 (rt_segmentDeleteDelayMs ret) \<and>
      (\<forall>n \<in> set_option (rt_retentionBytes ret). n < 2 ^ 64 - 1)) \<and>
     in_i64 (cp_deleteRetentionMs (lc_compaction (pm_config m)))"

definition roll_bytes :: "roll_policy \<Rightarrow> byte list" where
  "roll_bytes roll = be_bytes 8 (word_of_int (as_i64 (rp_maxSegmentBytes roll)) :: 64 word) @
     be_bytes 8 (word_of_int (rp_maxSegmentAgeMs roll) :: 64 word) @
     be_bytes 8 (word_of_int (as_i64 (rp_indexIntervalBytes roll)) :: 64 word) @
     be_bytes 8 (word_of_int (as_i64 (rp_maxIndexBytes roll)) :: 64 word)"

definition retention_limit :: "retention_policy \<Rightarrow> int" where
  "retention_limit ret = (case rt_retentionBytes ret of Some n \<Rightarrow> as_i64 n | None \<Rightarrow> kUnlimitedBytes)"

text \<open>The layout at a version: version 1 ends before the cleanup policy.\<close>

definition meta_bytes :: "int \<Rightarrow> partition_meta \<Rightarrow> byte list" where
  "meta_bytes version m =
    (let topic = string_bytes (tp_topic (pm_tp m)); roll = lc_roll (pm_config m);
         ret = lc_retention (pm_config m) in
     be_bytes 4 meta_kMagic @ be_bytes 2 (word_of_int version :: 16 word) @
     be_bytes 2 (word_of_int (int (length topic)) :: 16 word) @ topic @
     be_bytes 4 (word_of_int (tp_partition (pm_tp m)) :: 32 word) @ roll_bytes roll @
     be_bytes 8 (word_of_int (rt_retentionMs ret) :: 64 word) @
     be_bytes 8 (word_of_int (retention_limit ret) :: 64 word) @
     be_bytes 8 (word_of_int (rt_segmentDeleteDelayMs ret) :: 64 word) @
     (if version \<ge> 2 then word_of_int (cleanup_code (lc_cleanup (pm_config m))) #
        be_bytes 8 (word_of_int (cp_deleteRetentionMs (lc_compaction (pm_config m))) :: 64 word)
      else []))"

lemma encodePartitionMeta_bytes:
  "length (tp_topic (pm_tp m)) < 2 ^ 15 \<Longrightarrow> encodePartitionMeta m = Inr (meta_bytes 2 m)"
  by (simp add: encodePartitionMeta_def meta_bytes_def roll_bytes_def retention_limit_def codec_simps
      take_writer_def meta_kVersion_def string_bytes_def in_i16_def
      Let_def)

lemma retention_limit_read:
  assumes "\<forall>n \<in> set_option (rt_retentionBytes ret). n < 2 ^ 64 - 1"
  shows "in_i64 (retention_limit ret)"
    and "(if retention_limit ret = kUnlimitedBytes then None else Some (as_u64 (retention_limit ret)))
      = rt_retentionBytes ret"
proof -
  show "in_i64 (retention_limit ret)"
    by (simp add: retention_limit_def kUnlimitedBytes_def range_simps split: option.split)
      (use in_i64_as_i64 in \<open>simp add: range_simps\<close>)
  show "(if retention_limit ret = kUnlimitedBytes then None else Some (as_u64 (retention_limit ret)))
      = rt_retentionBytes ret"
  proof (cases "rt_retentionBytes ret")
    case (Some n)
    with assms have n: "n < 2 ^ 64 - 1" by simp
    have "as_i64 n \<noteq> - 1"
    proof
      assume "as_i64 n = - 1"
      then have "n = as_u64 (- 1)" using as_u64_as_i64 [of n] n by simp
      with n show False by (simp add: as_u64_def)
    qed
    with Some n show ?thesis by (simp add: retention_limit_def kUnlimitedBytes_def)
  qed (simp add: retention_limit_def kUnlimitedBytes_def)
qed

lemma decodePartitionMeta_bytes:
  assumes ok: "meta_ok m" and v: "version = 1 \<or> version = 2"
  shows "decodePartitionMeta (meta_bytes version m) = Inr (if version = 2 then m else
    m\<lparr>pm_config := (pm_config m)\<lparr>lc_compaction := default_compaction, lc_cleanup := Delete\<rparr>\<rparr>)"
proof -
  let ?topic = "string_bytes (tp_topic (pm_tp m))"
  let ?roll = "lc_roll (pm_config m)" and ?ret = "lc_retention (pm_config m)"
  note defs = meta_ok_def Let_def
  have len: "length ?topic = length (tp_topic (pm_tp m))" by (simp add: string_bytes_def)
  have tl: "in_i16 (int (length ?topic))" using ok len by (simp add: defs range_simps)
  obtain r0 where 0: "readUint32 (reader_of (meta_bytes version m)) = Inr (meta_kMagic, r0)"
    and r0: "rest r0 = drop 4 (meta_bytes version m)"
    using field_reads(1) [of "reader_of (meta_bytes version m)" meta_kMagic] by (auto simp: meta_bytes_def Let_def)
  obtain r1 where 1: "readInt16 r0 = Inr (version, r1)" and r1: "rest r1 = drop 6 (meta_bytes version m)"
    using field_reads(2) [of r0 version] r0 v by (auto simp: meta_bytes_def Let_def range_simps)
  obtain r2 where 2: "readInt16 r1 = Inr (int (length ?topic), r2)" and r2: "rest r2 = drop 8 (meta_bytes version m)"
    using field_reads(2) [of r1 "int (length ?topic)"] r1 tl by (auto simp: meta_bytes_def Let_def)
  define s3 where "s3 = be_bytes 4 (word_of_int (tp_partition (pm_tp m)) :: 32 word) @ roll_bytes ?roll @
     be_bytes 8 (word_of_int (rt_retentionMs ?ret) :: 64 word) @
     be_bytes 8 (word_of_int (retention_limit ?ret) :: 64 word) @
     be_bytes 8 (word_of_int (rt_segmentDeleteDelayMs ?ret) :: 64 word) @
     (if version \<ge> 2 then word_of_int (cleanup_code (lc_cleanup (pm_config m))) #
        be_bytes 8 (word_of_int (cp_deleteRetentionMs (lc_compaction (pm_config m))) :: 64 word)
      else [])"
  have "rest r2 = ?topic @ s3" unfolding r2 by (simp add: meta_bytes_def Let_def s3_def)
  then obtain r3 where 3: "readBytes (length ?topic) r2 = Inr (?topic, r3)" and r3: "rest r3 = s3"
    using field_reads(6) [of r2 ?topic s3] by auto
  obtain r4 where 4: "readInt32 r3 = Inr (tp_partition (pm_tp m), r4)" and r4: "rest r4 = drop 4 s3"
    using field_reads(3) [of r3 "tp_partition (pm_tp m)"] r3 ok by (auto simp: s3_def defs)
  obtain r5 where 5: "readInt64 r4 = Inr (as_i64 (rp_maxSegmentBytes ?roll), r5)" and r5: "rest r5 = drop 12 s3"
    using field_reads(4) [of r4 "as_i64 (rp_maxSegmentBytes ?roll)"] r4 by (auto simp: s3_def roll_bytes_def)
  obtain r6 where 6: "readInt64 r5 = Inr (rp_maxSegmentAgeMs ?roll, r6)" and r6: "rest r6 = drop 20 s3"
    using field_reads(4) [of r5 "rp_maxSegmentAgeMs ?roll"] r5 ok by (auto simp: s3_def roll_bytes_def defs)
  obtain r7 where 7: "readInt64 r6 = Inr (as_i64 (rp_indexIntervalBytes ?roll), r7)" and r7: "rest r7 = drop 28 s3"
    using field_reads(4) [of r6 "as_i64 (rp_indexIntervalBytes ?roll)"] r6 by (auto simp: s3_def roll_bytes_def)
  obtain r8 where 8: "readInt64 r7 = Inr (as_i64 (rp_maxIndexBytes ?roll), r8)" and r8: "rest r8 = drop 36 s3"
    using field_reads(4) [of r7 "as_i64 (rp_maxIndexBytes ?roll)"] r7 by (auto simp: s3_def roll_bytes_def)
  obtain r9 where 9: "readInt64 r8 = Inr (rt_retentionMs ?ret, r9)" and r9: "rest r9 = drop 44 s3"
    using field_reads(4) [of r8 "rt_retentionMs ?ret"] r8 ok by (auto simp: s3_def roll_bytes_def defs)
  have lim: "\<forall>n \<in> set_option (rt_retentionBytes ?ret). n < 2 ^ 64 - 1" using ok by (simp add: defs)
  obtain r10 where 10: "readInt64 r9 = Inr (retention_limit ?ret, r10)" and r10: "rest r10 = drop 52 s3"
    using field_reads(4) [of r9 "retention_limit ?ret"] r9 retention_limit_read(1) [OF lim]
    by (auto simp: s3_def roll_bytes_def)
  obtain r11 where 11: "readInt64 r10 = Inr (rt_segmentDeleteDelayMs ?ret, r11)" and r11: "rest r11 = drop 60 s3"
    using field_reads(4) [of r10 "rt_segmentDeleteDelayMs ?ret"] r10 ok by (auto simp: s3_def roll_bytes_def defs)
  note reads = 0 1 2 3 [unfolded len] 4 5 6 7 8 9 10 11
  note limit = retention_limit_read(2) [OF lim]
  have pos: "tp_topic (pm_tp m) \<noteq> []" "\<not> tp_partition (pm_tp m) < 0" using ok by (auto simp: defs)
  have u64: "as_u64 (as_i64 (rp_maxSegmentBytes ?roll)) = rp_maxSegmentBytes ?roll"
    "as_u64 (as_i64 (rp_indexIntervalBytes ?roll)) = rp_indexIntervalBytes ?roll"
    "as_u64 (as_i64 (rp_maxIndexBytes ?roll)) = rp_maxIndexBytes ?roll"
    using ok by (simp_all add: defs)
  show ?thesis
  proof (cases "version = 2")
    case True
    obtain r12 where 12: "readInt8 r11 = Inr (cleanup_code (lc_cleanup (pm_config m)), r12)"
      and r12: "rest r12 = drop 61 s3"
      using field_reads(5) [of r11 "cleanup_code (lc_cleanup (pm_config m))"] r11 True
      by (auto simp: s3_def roll_bytes_def cleanup_code_def range_simps split: cleanup_policy.splits)
    obtain r13 where 13: "readInt64 r12 = Inr (cp_deleteRetentionMs (lc_compaction (pm_config m)), r13)"
      and r13: "rest r13 = []"
      using field_reads(4) [of r12 "cp_deleteRetentionMs (lc_compaction (pm_config m))" "[]"] r12 True ok
      by (auto simp: s3_def roll_bytes_def defs)
    have "reader_empty r13" using r13 by (simp add: reader_empty_rest)
    then show ?thesis
      using True pos len limit u64
      by (simp add: decodePartitionMeta_def reads [unfolded True] 12 13 meta_kVersion_def meta_kOldestReadable_def cleanup_code_def
          split: cleanup_policy.split)
  next
    case False
    with v have v1: "version = 1" by simp
    have "reader_empty r11" using r11 v1 by (simp add: reader_empty_rest s3_def roll_bytes_def)
    then show ?thesis
      using v1 pos len limit u64 by (simp add: decodePartitionMeta_def reads [unfolded v1] meta_kVersion_def
          meta_kOldestReadable_def)
  qed
qed

text \<open>
  Whatever the configuration, the \<open>partition.meta\<close> file a broker writes for a partition
  is read back as that configuration, and refused in the directory of another partition; a
  version 1 file, which ends before the cleanup policy, still opens with the defaults.
\<close>

lemma partition_meta_roundtrip:
  assumes "meta_ok m"
  shows "\<exists>dir'. writePartitionMeta dir m = Inr dir' \<and>
    readPartitionMeta dir' tp = (if tp = pm_tp m then Inr m else Inl CorruptData) \<and>
    decodePartitionMeta (meta_bytes 1 m) =
      Inr (m\<lparr>pm_config := (pm_config m)\<lparr>lc_compaction := default_compaction, lc_cleanup := Delete\<rparr>\<rparr>)"
  using assms encodePartitionMeta_bytes [of m] decodePartitionMeta_bytes [OF assms, of 1]
    decodePartitionMeta_bytes [OF assms, of 2]
  by (auto simp: writePartitionMeta_def readPartitionMeta_def meta_ok_def)

end
