(* ===== verification/Partition_Log.thy ===== *)
theory Partition_Log
  imports Partition_Meta
begin

text \<open>
  \<^verbatim>\<open>storage/log.cpp\<close>: one partition's log, an ordered map of sealed segments and one
  active segment. The directory is derived from the state: it holds the files of the segments the
  log still lists and \<open>partition.meta\<close>; a buried segment has no directory entry. The locks
  are not modelled: every operation is one step.
\<close>

subsection \<open>State\<close>

datatype read_error = NoError | BelowLogStart | AboveLogEnd

text \<open>The file of a range is named by the base offset of its segment; \<open>None\<close> is no file.\<close>

record read_result =
  rr_error :: read_error
  rr_file :: "int option"
  rr_position :: nat
  rr_length :: nat

record buried_segment =
  bu_segment :: segment
  bu_unlinkedAtMs :: int

record partition_log =
  lg_tp :: topic_partition
  lg_config :: log_config
  lg_sealed :: "(int \<times> segment) list"
  lg_active :: active_segment
  lg_graveyard :: "buried_segment list"
  lg_logEndOffset :: int
  lg_highWatermark :: int

record sealed_info =
  si_baseOffset :: int
  si_nextOffset :: int
  si_logFile :: string
  si_sizeBytes :: nat

text \<open>\<^verbatim>\<open>std::map::emplace\<close> on a list sorted by key: a key already there stays.\<close>

fun map_emplace :: "int \<Rightarrow> 'v \<Rightarrow> (int \<times> 'v) list \<Rightarrow> (int \<times> 'v) list" where
  "map_emplace k v [] = [(k, v)]"
| "map_emplace k v ((j, u) # m) =
    (if k < j then (k, v) # (j, u) # m else if k = j then (j, u) # m else (j, u) # map_emplace k v m)"

definition segment_files :: "'a segment_scheme \<Rightarrow> (string \<times> byte list) list" where
  "segment_files seg = [(logFileName seg, sg_log seg), (indexFileName seg, oi_bytes (sg_index seg))]"

definition meta_file :: "topic_partition \<Rightarrow> log_config \<Rightarrow> (string \<times> byte list) list" where
  "meta_file tp config = (case encodePartitionMeta \<lparr>pm_tp = tp, pm_config = config\<rparr> of
     Inr bytes \<Rightarrow> [(meta_kFileName, bytes)] | Inl _ \<Rightarrow> [])"

definition log_files :: "partition_log \<Rightarrow> (string \<times> byte list) list" where
  "log_files l = concat (map (\<lambda>(_, seg). segment_files seg) (lg_sealed l)) @
     segment_files (lg_active l) @ meta_file (lg_tp l) (lg_config l)"

definition log_dir :: "partition_log \<Rightarrow> directory" where
  "log_dir l = map_of (log_files l)"

definition log_make ::
  "topic_partition \<Rightarrow> log_config \<Rightarrow> (int \<times> segment) list \<Rightarrow> active_segment \<Rightarrow> partition_log" where
  "log_make tp config sealed active =
    \<lparr>lg_tp = tp, lg_config = config, lg_sealed = sealed, lg_active = active, lg_graveyard = [],
     lg_logEndOffset = sg_nextOffset active, lg_highWatermark = sg_nextOffset active\<rparr>"

subsection \<open>Creating and opening\<close>

definition resolveConfig :: "directory \<Rightarrow> topic_partition \<Rightarrow> log_config \<Rightarrow> bool \<Rightarrow> log_config result" where
  "resolveConfig dir tp fallback hasRecords = (case readPartitionMeta dir tp of
      Inr meta \<Rightarrow> Inr (pm_config meta)
    | Inl e \<Rightarrow>
        if e \<noteq> IoError ENOENT then Inl e
        else if hasRecords then Inl CorruptData
        else bind_r (writePartitionMeta dir \<lparr>pm_tp = tp, pm_config = fallback\<rparr>) (\<lambda>_. Inr fallback))"

definition log_create :: "directory \<Rightarrow> topic_partition \<Rightarrow> log_config \<Rightarrow> partition_log result" where
  "log_create dir tp config =
    bind_r (active_create dir 0 (lc_roll config)) (\<lambda>active.
    bind_r (writePartitionMeta dir \<lparr>pm_tp = tp, pm_config = config\<rparr>) (\<lambda>_.
      Inr (log_make tp config [] active)))"

definition has_log_extension :: "string \<Rightarrow> bool" where
  "has_log_extension name \<longleftrightarrow> length name > length kLogSuffix \<and>
     drop (length name - length kLogSuffix) name = kLogSuffix"

fun collect_logs :: "(string \<times> byte list) list \<Rightarrow> (int \<times> string) list \<Rightarrow> (int \<times> string) list result" where
  "collect_logs [] logs = Inr logs"
| "collect_logs ((name, _) # entries) logs =
    (if has_log_extension name
     then bind_r (baseOffsetFromLogPath name) (\<lambda>base. collect_logs entries (map_emplace base name logs))
     else collect_logs entries logs)"

fun open_sealed :: "directory \<Rightarrow> (int \<times> string) list \<Rightarrow> (int \<times> segment) list result" where
  "open_sealed dir [] = Inr []"
| "open_sealed dir ((base, name) # logs) =
    bind_r (sealed_open dir name) (\<lambda>seg.
    bind_r (open_sealed dir logs) (\<lambda>others. Inr ((base, seg) # others)))"

fun check_contiguity :: "bool \<Rightarrow> (int \<times> segment) list \<Rightarrow> int \<Rightarrow> unit result" where
  "check_contiguity compact [] newest = Inr ()"
| "check_contiguity compact ((base, seg) # others) newest =
    (let expected = (case others of [] \<Rightarrow> newest | (following, _) # _ \<Rightarrow> following);
         ends = sg_nextOffset seg;
         broken = (if compact then ends > expected else ends \<noteq> expected)
     in if broken then Inl CorruptData else check_contiguity compact others newest)"

definition log_open ::
  "(string \<times> byte list) list \<Rightarrow> topic_partition \<Rightarrow> log_config \<Rightarrow> int \<Rightarrow> partition_log result" where
  "log_open entries tp fallback now =
    (let dir = map_of entries in
     bind_r (collect_logs entries []) (\<lambda>logs.
     if logs = [] then
       bind_r (resolveConfig dir tp fallback False) (\<lambda>config.
       bind_r (active_create dir 0 (lc_roll config)) (\<lambda>active.
         Inr (log_make tp config [] active)))
     else
       let newest = last logs in
       bind_r (open_sealed dir (butlast logs)) (\<lambda>sealed.
       let hasRecords = (sealed \<noteq> [] \<or> (\<exists>bytes \<in> set_option (dir (snd newest)). length bytes > 0)) in
       bind_r (resolveConfig dir tp fallback hasRecords) (\<lambda>config.
       bind_r (check_contiguity (compacted config) sealed (fst newest)) (\<lambda>_.
       bind_r (active_recover dir (snd newest) (lc_roll config) None now) (\<lambda>active.
         Inr (log_make tp config sealed active)))))))"

subsection \<open>Appending and reading\<close>

definition log_maybeRoll :: "int \<Rightarrow> partition_log \<Rightarrow> partition_log result" where
  "log_maybeRoll nowMs l =
    (if \<not> shouldRoll nowMs (lg_active l) then Inr l
     else let base = sg_nextOffset (lg_active l) in
       bind_r (active_create (log_dir l) base (lc_roll (lg_config l))) (\<lambda>next_active.
       bind_r (segment_seal (lg_active l)) (\<lambda>sealed.
         Inr (l\<lparr>lg_sealed := map_emplace (sg_baseOffset sealed) sealed (lg_sealed l),
                lg_active := next_active\<rparr>))))"

text \<open>Returns the result and the state, which a failed append may have left rolled.\<close>

definition log_append :: "byte list \<Rightarrow> int \<Rightarrow> int \<Rightarrow> partition_log \<Rightarrow> int result \<times> partition_log" where
  "log_append batchBytes nowRoll nowAppend l =
    (case log_maybeRoll nowRoll l of
       Inl e \<Rightarrow> (Inl e, l)
     | Inr l \<Rightarrow>
         let base = lg_logEndOffset l in
         (case bind_r (stampBaseOffset batchBytes base)
                 (\<lambda>stamped. segment_append base stamped nowAppend (lg_active l)) of
            Inl e \<Rightarrow> (Inl e, l)
          | Inr active \<Rightarrow>
              (Inr base, l\<lparr>lg_active := active, lg_logEndOffset := sg_nextOffset active,
                           lg_highWatermark := sg_nextOffset active\<rparr>)))"

definition log_read :: "int \<Rightarrow> nat \<Rightarrow> partition_log \<Rightarrow> read_result result" where
  "log_read offset maxBytes l =
    (if offset > lg_logEndOffset l
     then Inr \<lparr>rr_error = AboveLogEnd, rr_file = None, rr_position = 0, rr_length = 0\<rparr>
     else if offset = lg_logEndOffset l
     then Inr \<lparr>rr_error = NoError, rr_file = None, rr_position = 0, rr_length = 0\<rparr>
     else if offset \<ge> sg_baseOffset (lg_active l)
     then bind_r (segment_read offset maxBytes (lg_active l)) (\<lambda>(position, len).
       Inr \<lparr>rr_error = NoError, rr_file = Some (sg_baseOffset (lg_active l)), rr_position = position, rr_length = len\<rparr>)
     else let upto = filter (\<lambda>(base, _). base \<le> offset) (lg_sealed l) in
       if upto = [] then Inr \<lparr>rr_error = BelowLogStart, rr_file = None, rr_position = 0, rr_length = 0\<rparr>
       else let seg = snd (last upto) in
         bind_r (segment_read offset maxBytes seg) (\<lambda>(position, len).
           Inr \<lparr>rr_error = NoError, rr_file = Some (sg_baseOffset seg), rr_position = position, rr_length = len\<rparr>))"

definition logStartOffset :: "partition_log \<Rightarrow> int" where
  "logStartOffset l = (case lg_sealed l of [] \<Rightarrow> sg_baseOffset (lg_active l) | (base, _) # _ \<Rightarrow> base)"

definition setHighWatermark :: "int \<Rightarrow> partition_log \<Rightarrow> partition_log" where
  "setHighWatermark offset l = l\<lparr>lg_highWatermark := offset\<rparr>"

definition log_truncateTo :: "int \<Rightarrow> int \<Rightarrow> partition_log \<Rightarrow> partition_log result" where
  "log_truncateTo offset now l =
    (if offset \<ge> lg_logEndOffset l then Inr l
     else let activeHoldsOffset = (sg_baseOffset (lg_active l) < offset);
              sealed = filter (\<lambda>(base, _). \<not> base \<ge> offset) (lg_sealed l);
              roll = lc_roll (lg_config l)
      in bind_r
           (if activeHoldsOffset
            then bind_r (active_recover (log_dir l) (logFileName (lg_active l)) roll (Some offset) now)
                   (\<lambda>active. Inr (sealed, active))
            else if sealed \<noteq> []
            then bind_r (active_recover (log_dir l) (logFileName (snd (last sealed))) roll (Some offset) now)
                   (\<lambda>active. Inr (butlast sealed, active))
            else bind_r (active_create (map_of (meta_file (lg_tp l) (lg_config l))) offset roll)
                   (\<lambda>active. Inr ([], active)))
           (\<lambda>(sealed, active).
             Inr (l\<lparr>lg_sealed := sealed, lg_active := active, lg_logEndOffset := sg_nextOffset active,
                    lg_highWatermark := (if lg_highWatermark l > sg_nextOffset active
                                         then sg_nextOffset active else lg_highWatermark l)\<rparr>)))"

subsection \<open>Retention and the graveyard\<close>

definition totalSizeBytes :: "partition_log \<Rightarrow> nat" where
  "totalSizeBytes l = sizeBytes (lg_active l) + sum_list (map (\<lambda>(_, seg). sizeBytes seg) (lg_sealed l))"

definition segmentCount :: "partition_log \<Rightarrow> nat" where
  "segmentCount l = length (lg_sealed l) + 1"

definition graveyardSize :: "partition_log \<Rightarrow> nat" where
  "graveyardSize l = length (lg_graveyard l)"

definition burySegment :: "segment \<Rightarrow> int \<Rightarrow> partition_log \<Rightarrow> partition_log" where
  "burySegment seg nowMs l =
    l\<lparr>lg_graveyard := lg_graveyard l @ [\<lparr>bu_segment = seg, bu_unlinkedAtMs = nowMs\<rparr>]\<rparr>"

text \<open>The two loops of \<open>applyRetention\<close>, on the sealed segments from the oldest on: what they
bury and what they leave.\<close>

fun age_loop :: "int \<Rightarrow> int \<Rightarrow> (int \<times> segment) list \<Rightarrow> segment list \<times> (int \<times> segment) list" where
  "age_loop nowMs retentionMs [] = ([], [])"
| "age_loop nowMs retentionMs ((base, seg) # others) =
    (let largest = sg_largestTimestamp seg in
     if \<not> segment_isEmpty seg \<and> (largest < 0 \<or> nowMs - largest < retentionMs)
     then ([], (base, seg) # others)
     else let (buried, kept) = age_loop nowMs retentionMs others in (seg # buried, kept))"

fun bytes_loop :: "nat \<Rightarrow> nat \<Rightarrow> (int \<times> segment) list \<Rightarrow> segment list \<times> (int \<times> segment) list" where
  "bytes_loop limit tot [] = ([], [])"
| "bytes_loop limit tot ((base, seg) # others) =
    (if tot > limit
     then let (buried, kept) = bytes_loop limit (tot - sizeBytes seg) others in (seg # buried, kept)
     else ([], (base, seg) # others))"

definition applyRetention :: "int \<Rightarrow> partition_log \<Rightarrow> partition_log" where
  "applyRetention nowMs l =
    (let retention = lc_retention (lg_config l);
         (buried, kept) = age_loop nowMs (rt_retentionMs retention) (lg_sealed l);
         l = fold (\<lambda>seg. burySegment seg nowMs) buried (l\<lparr>lg_sealed := kept\<rparr>)
     in case rt_retentionBytes retention of
          None \<Rightarrow> l
        | Some limit \<Rightarrow>
            (let (buried, kept) = bytes_loop limit (totalSizeBytes l) (lg_sealed l)
             in fold (\<lambda>seg. burySegment seg nowMs) buried (l\<lparr>lg_sealed := kept\<rparr>)))"

definition sweepGraveyard :: "int \<Rightarrow> partition_log \<Rightarrow> partition_log" where
  "sweepGraveyard nowMs l = l\<lparr>lg_graveyard := filter (\<lambda>b. \<not> nowMs - bu_unlinkedAtMs b
     \<ge> rt_segmentDeleteDelayMs (lc_retention (lg_config l))) (lg_graveyard l)\<rparr>"

subsection \<open>What the cleaner calls\<close>

definition sealedSegments :: "partition_log \<Rightarrow> sealed_info list" where
  "sealedSegments l = map (\<lambda>(base, seg). \<lparr>si_baseOffset = base, si_nextOffset = sg_nextOffset seg,
     si_logFile = logFileName seg, si_sizeBytes = sizeBytes seg\<rparr>) (lg_sealed l)"

definition replaceSegment ::
  "int \<Rightarrow> byte list \<Rightarrow> byte list \<Rightarrow> int \<Rightarrow> partition_log \<Rightarrow> (bool \<times> partition_log) result" where
  "replaceSegment base cleanedLog cleanedIndex nowMs l = (case map_of (lg_sealed l) base of
      None \<Rightarrow> Inr (False, l)
    | Some old \<Rightarrow>
        bind_r (sealed_open [segmentLogPath base \<mapsto> cleanedLog, segmentIndexPath base \<mapsto> cleanedIndex]
                  (segmentLogPath base)) (\<lambda>replacement.
          Inr (True, burySegment old nowMs
            (l\<lparr>lg_sealed := map (\<lambda>(b, seg). (b, if b = base then replacement else seg)) (lg_sealed l)\<rparr>))))"

definition removeSegment :: "int \<Rightarrow> int \<Rightarrow> partition_log \<Rightarrow> bool \<times> partition_log" where
  "removeSegment base nowMs l = (case map_of (lg_sealed l) base of
      None \<Rightarrow> (False, l)
    | Some seg \<Rightarrow> (True, burySegment seg nowMs
        (l\<lparr>lg_sealed := filter (\<lambda>(b, _). b \<noteq> base) (lg_sealed l)\<rparr>)))"

subsection \<open>Well-formed logs\<close>

text \<open>
  \<open>log_holds bss cs l\<close>: the sealed segments hold the batch lists \<open>bss\<close> and the active one
  \<open>cs\<close>, at base offsets that increase, without overlap, and without a gap unless the log is
  compacted.
\<close>

definition valid_base :: "int \<Rightarrow> bool" where
  "valid_base b \<longleftrightarrow> 0 \<le> b \<and> b < 2 ^ 63"

definition sealed_holds :: "byte list list list \<Rightarrow> (int \<times> segment) list \<Rightarrow> bool" where
  "sealed_holds bss sealed \<longleftrightarrow>
     list_all2 (\<lambda>bs (base, seg). segment_holds bs seg \<and> base = sg_baseOffset seg \<and> valid_base base) bss sealed"

definition sealed_contiguous :: "byte list list list \<Rightarrow> (int \<times> segment) list \<Rightarrow> bool" where
  "sealed_contiguous bss sealed \<longleftrightarrow> list_all2 (\<lambda>bs (base, _). contiguous base bs) bss sealed"

definition log_holds :: "byte list list list \<Rightarrow> byte list list \<Rightarrow> partition_log \<Rightarrow> bool" where
  "log_holds bss cs l \<longleftrightarrow> sealed_holds bss (lg_sealed l) \<and> active_holds cs (lg_active l) \<and>
     sorted_wrt (<) (map fst (lg_sealed l) @ [sg_baseOffset (lg_active l)]) \<and>
     check_contiguity (compacted (lg_config l)) (lg_sealed l) (sg_baseOffset (lg_active l)) = Inr () \<and>
     lg_logEndOffset l = sg_nextOffset (lg_active l) \<and> valid_base (sg_baseOffset (lg_active l)) \<and>
     valid_base (sg_nextOffset (lg_active l)) \<and> 8 \<le> rp_maxIndexBytes (lc_roll (lg_config l)) \<and>
     (compacted (lg_config l) \<or> sealed_contiguous bss (lg_sealed l))"

lemma valid_base_inj: "valid_base a \<Longrightarrow> valid_base b \<Longrightarrow> segmentLogPath a = segmentLogPath b \<longleftrightarrow> a = b"
  by (simp add: valid_base_def segmentLogPath_inj)

lemma sealed_holds_simps [simp]:
  "sealed_holds [] []"
  "\<not> sealed_holds [] (a # sealed)"
  "\<not> sealed_holds (bs # bss) []"
  "sealed_holds (bs # bss) ((base, seg) # sealed) \<longleftrightarrow>
    segment_holds bs seg \<and> base = sg_baseOffset seg \<and> valid_base base \<and> sealed_holds bss sealed"
  by (auto simp: sealed_holds_def)

lemma sealed_holds_append:
  "length bss = length sealed \<Longrightarrow> sealed_holds (bss @ bss') (sealed @ sealed') \<longleftrightarrow>
    sealed_holds bss sealed \<and> sealed_holds bss' sealed'"
  by (simp add: sealed_holds_def list_all2_append)

lemma sealed_holds_length: "sealed_holds bss sealed \<Longrightarrow> length bss = length sealed"
  by (simp add: sealed_holds_def list_all2_lengthD)

lemma sealed_holds_mem:
  "sealed_holds bss sealed \<Longrightarrow> (b, seg) \<in> set sealed \<Longrightarrow> b = sg_baseOffset seg \<and> valid_base b"
  by (induction bss sealed rule: list_induct2') auto

lemma check_contiguity_snoc:
  "check_contiguity c (sealed @ [(b, seg)]) n = Inr () \<longleftrightarrow>
    check_contiguity c sealed b = Inr () \<and> (if c then sg_nextOffset seg \<le> n else sg_nextOffset seg = n)"
proof (induction sealed)
  case (Cons a sealed)
  then show ?case by (cases a; cases sealed) (auto simp: Let_def)
qed (auto simp: Let_def)

lemma map_emplace_last: "\<forall>(j, u) \<in> set m. j < k \<Longrightarrow> map_emplace k v m = m @ [(k, v)]"
  by (induction k v m rule: map_emplace.induct) auto

subsection \<open>The directory\<close>

lemma map_of_segment_files:
  assumes "\<forall>(base, seg) \<in> set sealed. base = sg_baseOffset seg \<and> valid_base base" "valid_base b"
  shows "map_of (concat (map (\<lambda>(_, seg). segment_files seg) sealed) @ fs) (segmentLogPath b) =
    (case map_of sealed b of Some seg \<Rightarrow> Some (sg_log seg) | None \<Rightarrow> map_of fs (segmentLogPath b))"
  using assms(1)
proof (induction sealed)
  case (Cons a sealed)
  obtain base seg where a: "a = (base, seg)" by (cases a)
  with Cons.prems have base: "base = sg_baseOffset seg" "valid_base (sg_baseOffset seg)" by auto
  have "segmentLogPath b = segmentLogPath base \<longleftrightarrow> b = base"
    using base assms(2) by (simp add: valid_base_inj)
  with a base Cons show ?case
    by (auto simp: segment_files_def logFileName_def indexFileName_def)
qed simp

lemma meta_not_segment: "meta_kFileName \<noteq> segmentLogPath b"
proof
  have "last (segmentLogPath b) = CHR ''g''" by (simp add: segmentLogPath_def kLogSuffix_def)
  moreover assume "meta_kFileName = segmentLogPath b"
  ultimately show False by (simp add: meta_kFileName_def)
qed

lemma log_dir_lookup:
  assumes "log_holds bss cs l" "valid_base b"
  shows "log_dir l (segmentLogPath b) = (case map_of (lg_sealed l) b of Some seg \<Rightarrow> Some (sg_log seg)
    | None \<Rightarrow> if b = sg_baseOffset (lg_active l) then Some (sg_log (lg_active l)) else None)"
proof -
  have "\<forall>(base, seg) \<in> set (lg_sealed l). base = sg_baseOffset seg \<and> valid_base base"
    using assms(1) sealed_holds_mem by (fastforce simp: log_holds_def)
  moreover have "segmentLogPath b = segmentLogPath (sg_baseOffset (lg_active l)) \<longleftrightarrow> b = sg_baseOffset (lg_active l)"
    using assms by (intro valid_base_inj) (simp_all add: log_holds_def)
  moreover have "map_of (meta_file tp c) (segmentLogPath b) = None" for tp c
    using meta_not_segment [of b] by (auto simp: meta_file_def split: sum.split)
  ultimately show ?thesis
    unfolding log_dir_def log_files_def
    by (subst map_of_segment_files [OF _ assms(2)])
      (auto simp: segment_files_def logFileName_def indexFileName_def split: option.split)
qed

lemma log_sealed_lookup:
  assumes "log_holds bss cs l"
  shows "(b, seg) \<in> set (lg_sealed l) \<longleftrightarrow> map_of (lg_sealed l) b = Some seg"
proof -
  have "distinct (map fst (lg_sealed l))"
    using assms by (simp add: log_holds_def sorted_wrt_append strict_sorted_iff)
  then show ?thesis by simp
qed

lemma log_dir_sealed:
  assumes "log_holds bss cs l" "(b, seg) \<in> set (lg_sealed l)"
  shows "log_dir l (segmentLogPath b) = Some (sg_log seg)"
  using assms log_sealed_lookup [OF assms(1)] sealed_holds_mem [of bss "lg_sealed l" b seg]
  by (subst log_dir_lookup [OF assms(1)]) (auto simp: log_holds_def)

lemma log_dir_active:
  assumes "log_holds bss cs l"
  shows "log_dir l (segmentLogPath (sg_baseOffset (lg_active l))) = Some (sg_log (lg_active l))"
proof -
  have "map_of (lg_sealed l) (sg_baseOffset (lg_active l)) = None"
    using assms by (force simp: log_holds_def sorted_wrt_append map_of_eq_None_iff)
  with assms show ?thesis
    by (subst log_dir_lookup [OF assms]) (simp_all add: log_holds_def)
qed

lemma log_dir_next_free:
  assumes "log_holds bss cs l" "sg_baseOffset (lg_active l) < b" "valid_base b"
  shows "log_dir l (segmentLogPath b) = None"
proof -
  have "map_of (lg_sealed l) b = None"
    using assms by (force simp: log_holds_def sorted_wrt_append map_of_eq_None_iff)
  with assms show ?thesis by (subst log_dir_lookup [OF assms(1,3)]) simp
qed

subsection \<open>Rolling and appending\<close>

lemma active_holdsD:
  assumes "active_holds cs seg"
  shows "segment_holds cs seg" "contiguous (sg_baseOffset seg) cs" "sg_log seg = concat cs"
    "sg_nextOffset seg = end_offset (sg_baseOffset seg) cs" "ascending (sg_baseOffset seg) cs"
    "sg_baseOffset seg \<le> sg_nextOffset seg"
  using assms ascending_le_end by (auto simp: active_holds_def segment_holds_def)

lemma active_create_total:
  assumes "dir (segmentLogPath base) = None" "8 \<le> rp_maxIndexBytes policy"
  shows "\<exists>seg. active_create dir base policy = Inr seg \<and> active_holds [] seg \<and>
    sg_baseOffset seg = base \<and> sg_nextOffset seg = base"
proof -
  have "0 < rp_maxIndexBytes policy div 8" using assms(2) by (simp add: div_greater_zero_iff)
  then obtain seg where seg: "active_create dir base policy = Inr seg"
    using assms(1) by (fastforce simp: active_create_def index_create_def kEntrySize_def Let_def)
  then have "sg_nextOffset seg = base" by (auto simp: active_create_def bind_r_Inr_iff)
  with seg active_create_holds [OF seg] show ?thesis by blast
qed

lemma log_maybeRoll_holds:
  assumes "log_holds bss cs l"
  shows "\<exists>l'. log_maybeRoll now l = Inr l' \<and> lg_config l' = lg_config l \<and>
    lg_logEndOffset l' = lg_logEndOffset l \<and> lg_highWatermark l' = lg_highWatermark l \<and>
    (if shouldRoll now (lg_active l)
     then log_holds (bss @ [cs]) [] l' \<and> length (lg_sealed l') = length (lg_sealed l) + 1
     else l' = l)"
proof (cases "shouldRoll now (lg_active l)")
  case False
  then show ?thesis by (simp add: log_maybeRoll_def)
next
  case True
  let ?a = "lg_active l" and ?next = "sg_nextOffset (lg_active l)"
  have h: "sealed_holds bss (lg_sealed l)" "active_holds cs ?a"
    "sorted_wrt (<) (map fst (lg_sealed l) @ [sg_baseOffset ?a])"
    "check_contiguity (compacted (lg_config l)) (lg_sealed l) (sg_baseOffset ?a) = Inr ()"
    "lg_logEndOffset l = ?next" "valid_base (sg_baseOffset ?a)" "valid_base ?next"
    "8 \<le> rp_maxIndexBytes (lc_roll (lg_config l))"
    "compacted (lg_config l) \<or> sealed_contiguous bss (lg_sealed l)"
    using assms by (simp_all add: log_holds_def)
  have less: "sg_baseOffset ?a < ?next"
    using True active_holdsD(6) [OF h(2)] by (simp add: shouldRoll_def segment_isEmpty_def)
  obtain fresh where fresh: "active_create (log_dir l) ?next (lc_roll (lg_config l)) = Inr fresh"
      "active_holds [] fresh" "sg_baseOffset fresh = ?next" "sg_nextOffset fresh = ?next"
    using active_create_total [where dir = "log_dir l" and base = ?next, OF log_dir_next_free [OF assms less h(7)] h(8)]
    by blast
  obtain seg where seg: "segment_seal ?a = Inr seg" "segment_holds cs seg"
      "sg_baseOffset seg = sg_baseOffset ?a" "sg_nextOffset seg = ?next"
    using segment_seal_holds [OF h(2)] h(6) by (auto simp: valid_base_def)
  have emplace: "map_emplace (sg_baseOffset ?a) seg (lg_sealed l) = lg_sealed l @ [(sg_baseOffset ?a, seg)]"
    using h(3) by (intro map_emplace_last) (auto simp: sorted_wrt_append)
  let ?l = "l\<lparr>lg_sealed := lg_sealed l @ [(sg_baseOffset ?a, seg)], lg_active := fresh\<rparr>"
  have "log_holds (bss @ [cs]) [] ?l"
    unfolding log_holds_def
  proof (intro conjI)
    show "sealed_holds (bss @ [cs]) (lg_sealed ?l)"
      using h(1,6) seg sealed_holds_length [OF h(1)] by (simp add: sealed_holds_append)
    show "sorted_wrt (<) (map fst (lg_sealed ?l) @ [sg_baseOffset (lg_active ?l)])"
      using h(3) less fresh by (fastforce simp: sorted_wrt_append)
    show "check_contiguity (compacted (lg_config ?l)) (lg_sealed ?l) (sg_baseOffset (lg_active ?l)) = Inr ()"
      using h(4) seg fresh by (simp add: check_contiguity_snoc)
    show "compacted (lg_config ?l) \<or> sealed_contiguous (bss @ [cs]) (lg_sealed ?l)"
      using h(9) active_holdsD(2) [OF h(2)] sealed_holds_length [OF h(1)]
      by (auto simp: sealed_contiguous_def list_all2_append)
  qed (use h fresh in simp_all)
  moreover have "log_maybeRoll now l = Inr ?l"
    using True fresh seg emplace by (simp add: log_maybeRoll_def)
  ultimately show ?thesis using True by simp
qed

text \<open>A batch as a client sends it: well formed, its header free of the broker's fields.\<close>

lemma stamped_batch_wf:
  assumes "batch_wf b" "in_i64 base"
  shows "\<exists>s. stampBaseOffset b base = Inr s \<and> batch_wf s \<and> length s = length b \<and>
    hdr s = (hdr b)\<lparr>bh_baseOffset := base\<rparr> \<and> verifyCrc s = verifyCrc b \<and> drop 8 s = drop 8 b"
proof -
  note len = batch_wf_length [OF assms(1)]
  let ?s = "be_bytes 8 (word_of_int base :: 64 word) @ drop 8 b"
  have s: "stampBaseOffset b base = Inr ?s" using len by (simp add: stampBaseOffset_alt)
  have h: "hdr ?s = (hdr b)\<lparr>bh_baseOffset := base\<rparr>" using header_of_stamp(1) [OF len assms(2)] .
  have p: "parseHeader ?s = Inr (hdr ?s)" "totalSizeOf ?s = Inr (length ?s)"
    using assms(1) len by (auto simp: batch_wf_def parseHeader_alt totalSizeOf_alt h Let_def split: if_splits)
  have "drop 21 ?s = drop 13 (drop 8 ?s)" by simp
  also have "\<dots> = drop 21 b" by simp
  finally have "drop 21 ?s = drop 21 b" .
  then have crc: "verifyCrc ?s = verifyCrc b"
    using assms(1) p h len by (simp add: verifyCrc_def computeCrc_alt batch_wf_def)
  have "batch_wf ?s" using p h assms(1) by (simp add: batch_wf_def)
  then show ?thesis using s h crc len by (intro exI [of _ ?s]) simp
qed

lemma log_append_holds:
  assumes "log_holds bss cs l" "batch_wf b" "lg_logEndOffset l + bh_lastOffsetDelta (hdr b) + 1 < 2 ^ 63"
    and "log_append b nowRoll nowAppend l = (r, l')"
  shows "lg_config l' = lg_config l \<and> (case r of
      Inr base \<Rightarrow> base = lg_logEndOffset l \<and> lg_logEndOffset l' = base + bh_lastOffsetDelta (hdr b) + 1 \<and>
        lg_highWatermark l' = lg_logEndOffset l' \<and>
        (\<exists>s bss' cs'. stampBaseOffset b base = Inr s \<and> log_holds bss' cs' l' \<and>
           concat bss' @ cs' = concat bss @ cs @ [s])
    | Inl e \<Rightarrow> e = OffsetInvariantViolated \<and> lg_logEndOffset l' = lg_logEndOffset l \<and>
        index_overflow (lg_logEndOffset l) (sizeBytes (lg_active l')) (lg_active l') \<and>
        (\<exists>bss' cs'. log_holds bss' cs' l' \<and> concat bss' @ cs' = concat bss @ cs))"
proof -
  obtain l1 where l1: "log_maybeRoll nowRoll l = Inr l1" "lg_logEndOffset l1 = lg_logEndOffset l"
    "lg_config l1 = lg_config l"
    and roll: "if shouldRoll nowRoll (lg_active l)
      then log_holds (bss @ [cs]) [] l1 \<and> length (lg_sealed l1) = length (lg_sealed l) + 1 else l1 = l"
    using log_maybeRoll_holds [OF assms(1), of nowRoll] by blast
  obtain bss1 cs1 where h1: "log_holds bss1 cs1 l1" and eq: "concat bss1 @ cs1 = concat bss @ cs"
    using roll assms(1) by (cases "shouldRoll nowRoll (lg_active l)") fastforce+
  let ?base = "lg_logEndOffset l1" and ?a = "lg_active l1"
  have a: "active_holds cs1 ?a" "?base = sg_nextOffset ?a" "valid_base ?base" "sg_baseOffset ?a \<le> ?base"
    using h1 active_holdsD(6) [of cs1 ?a] by (simp_all add: log_holds_def)
  obtain s where s: "stampBaseOffset b ?base = Inr s" "batch_wf s" "hdr s = (hdr b)\<lparr>bh_baseOffset := ?base\<rparr>"
    using stamped_batch_wf [OF assms(2), of ?base] a(3) by (auto simp: valid_base_def range_simps)
  show ?thesis
  proof (cases "segment_append ?base s nowAppend ?a")
    case (Inl e)
    then have "e = OffsetInvariantViolated \<and> index_overflow ?base (length (sg_log ?a)) ?a"
      using s(2,3) a maybeAddIndexEntry_error_iff [of cs1 ?a "length (sg_log ?a)" ?base e] a(1)
      by (auto simp: segment_append_def parseHeader_wf bind_r_Inl_iff active_holds_def segment_holds_def)
    moreover have "r = Inl e" "l' = l1" using assms(4) l1 s Inl by (simp_all add: log_append_def)
    ultimately show ?thesis using h1 eq l1 by (auto simp: sizeBytes_def)
  next
    case (Inr a')
    let ?l = "l1\<lparr>lg_active := a', lg_logEndOffset := sg_nextOffset a', lg_highWatermark := sg_nextOffset a'\<rparr>"
    have h: "active_holds (cs1 @ [s]) a'" "sg_baseOffset a' = sg_baseOffset ?a"
      using segment_append_holds [OF a(1) s(2) Inr] by simp_all
    have next_off: "sg_nextOffset a' = ?base + bh_lastOffsetDelta (hdr b) + 1"
      using active_holdsD(4) [OF h(1)] s(3) by (simp add: lastOffset_def)
    then have "valid_base (sg_nextOffset a')"
      using a(3) assms(2,3) l1(2) by (simp add: valid_base_def batch_wf_def)
    then have "log_holds bss1 (cs1 @ [s]) ?l"
      using h1 h by (simp add: log_holds_def)
    moreover have "concat bss1 @ cs1 @ [s] = concat bss @ cs @ [s]" using eq by (metis append_assoc)
    moreover have r: "r = Inr ?base" "l' = ?l" using assms(4) l1 s Inr by (simp_all add: log_append_def)
    ultimately have "\<exists>bss' cs'. log_holds bss' cs' l' \<and> concat bss' @ cs' = concat bss @ cs @ [s]"
      by blast
    with r next_off s(1) l1(2,3) show ?thesis by auto
  qed
qed

subsection \<open>Reading\<close>

lemma scan_read_found:
  assumes "n \<le> offset" "offset < end_offset n bs"
  shows "\<exists>xs b ys. bs = xs @ b # ys \<and> offset \<le> lastOffset (hdr b) \<and>
    (contiguous n bs \<longrightarrow> bh_baseOffset (hdr b) \<le> offset) \<and>
    scan_read offset maxBytes bs =
      (length (concat xs), max (length b) (min maxBytes (length (concat (b # ys)))))"
proof -
  let ?P = "\<lambda>b. lastOffset (hdr b) < offset"
  have "dropWhile ?P bs \<noteq> []"
  proof
    assume "dropWhile ?P bs = []"
    then have all: "\<forall>b \<in> set bs. ?P b" by (simp add: dropWhile_eq_Nil_conv)
    show False
    proof (cases "bs = []")
      case False
      then have "lastOffset (hdr (last bs)) < offset" using all by simp
      with False assms(2) show False by (simp add: end_offset_def)
    qed (use assms in \<open>simp add: end_offset_def\<close>)
  qed
  then obtain b ys where d: "dropWhile ?P bs = b # ys" by (cases "dropWhile ?P bs") auto
  let ?xs = "takeWhile ?P bs"
  have bs: "bs = ?xs @ b # ys" using d by (metis takeWhile_dropWhile_id)
  have b: "offset \<le> lastOffset (hdr b)" using d by (auto simp: dropWhile_eq_Cons_conv)
  have "bh_baseOffset (hdr b) \<le> offset" if c: "contiguous n bs"
  proof (cases "?xs = []")
    case True
    with bs have "bs = b # ys" by simp
    with c assms(1) show ?thesis by simp
  next
    case False
    have "contiguous n (?xs @ b # ys)" using c bs by simp
    then have "bh_baseOffset (hdr b) = end_offset n ?xs" by simp
    moreover have "lastOffset (hdr (last ?xs)) < offset"
      using False last_in_set set_takeWhileD by metis
    ultimately show ?thesis using False by (simp add: end_offset_def)
  qed
  with bs b d show ?thesis by (intro exI [of _ ?xs] exI [of _ b] exI [of _ ys]) (simp add: scan_read_def)
qed

text \<open>What a range of a file shows a consumer that asked for \<open>offset\<close>.\<close>

definition range_serves :: "byte list list \<Rightarrow> partition_log \<Rightarrow> int \<Rightarrow> nat \<Rightarrow> read_result \<Rightarrow> bool" where
  "range_serves bs l offset maxBytes r \<longleftrightarrow> rr_error r = NoError \<and>
     (\<exists>f bytes b. rr_file r = Some f \<and> log_dir l (segmentLogPath f) = Some bytes \<and>
        rr_position r + rr_length r \<le> length bytes \<and> rr_length r \<le> max (length b) maxBytes \<and>
        b \<in> set bs \<and> length b \<le> rr_length r \<and> take (length b) (drop (rr_position r) bytes) = b \<and>
        bh_baseOffset (hdr b) \<le> offset \<and> offset \<le> lastOffset (hdr b))"

lemma segment_read_serves:
  assumes "segment_holds bs seg" "contiguous (sg_baseOffset seg) bs" "sg_baseOffset seg \<le> offset"
    "offset < sg_nextOffset seg" "log_dir l (segmentLogPath (sg_baseOffset seg)) = Some (sg_log seg)"
    and "set bs \<subseteq> set all"
  shows "\<exists>p n. segment_read offset maxBytes seg = Inr (p, n) \<and> range_serves all l offset maxBytes
    \<lparr>rr_error = NoError, rr_file = Some (sg_baseOffset seg), rr_position = p, rr_length = n\<rparr>"
proof -
  have h: "ascending (sg_baseOffset seg) bs" "sg_log seg = concat bs"
    "offset < end_offset (sg_baseOffset seg) bs"
    using assms by (simp_all add: segment_holds_def)
  obtain xs b ys where b: "bs = xs @ b # ys" "offset \<le> lastOffset (hdr b)" "bh_baseOffset (hdr b) \<le> offset"
      "scan_read offset maxBytes bs = (length (concat xs), max (length b) (min maxBytes (length (concat (b # ys)))))"
    using scan_read_found [OF assms(3) h(3), of maxBytes] assms(2) by blast
  have "b \<in> set all" using assms(6) b(1) by auto
  then have "range_serves all l offset maxBytes \<lparr>rr_error = NoError, rr_file = Some (sg_baseOffset seg),
      rr_position = length (concat xs), rr_length = max (length b) (min maxBytes (length (concat (b # ys))))\<rparr>"
    using assms(5) h(2) b(1-3) by (auto simp: range_serves_def intro!: exI [of _ b])
  then show ?thesis using segment_read_scan [OF assms(1,3), of maxBytes] b(4) by auto
qed

lemma find_sealed:
  assumes "check_contiguity False sealed n = Inr ()" "sorted_wrt (<) (map fst sealed @ [n])"
    and "sealed \<noteq> []" "fst (hd sealed) \<le> offset" "offset < n"
  shows "\<exists>b seg. filter (\<lambda>(base, _). base \<le> offset) sealed \<noteq> [] \<and>
    last (filter (\<lambda>(base, _). base \<le> offset) sealed) = (b, seg) \<and> (b, seg) \<in> set sealed \<and>
    b \<le> offset \<and> offset < sg_nextOffset seg"
  using assms
proof (induction sealed)
  case (Cons a sealed)
  obtain b seg where a: "a = (b, seg)" by (cases a)
  show ?case
  proof (cases "sealed = [] \<or> offset < fst (hd sealed)")
    case True
    then have none: "filter (\<lambda>(base, _). base \<le> offset) sealed = []"
      using Cons.prems(2) by (cases sealed) (auto simp: filter_empty_conv)
    have "offset < sg_nextOffset seg"
      using True Cons.prems(1,5) a by (cases sealed) (auto simp: Let_def split: if_splits)
    with none a Cons.prems(4) show ?thesis by auto
  next
    case False
    then have "check_contiguity False sealed n = Inr ()" "sealed \<noteq> []" "fst (hd sealed) \<le> offset"
      using Cons.prems(1) a by (auto simp: Let_def split: if_splits)
    with Cons show ?thesis by auto
  qed
qed simp

lemma log_read_holds:
  assumes "log_holds bss cs l" and "\<not> compacted (lg_config l)"
  shows "\<exists>r. log_read offset maxBytes l = Inr r \<and>
    (if offset > lg_logEndOffset l then rr_error r = AboveLogEnd
     else if offset = lg_logEndOffset l then rr_error r = NoError \<and> rr_length r = 0
     else if offset < logStartOffset l then rr_error r = BelowLogStart
     else range_serves (concat bss @ cs) l offset maxBytes r)"
proof -
  let ?a = "lg_active l"
  have h: "sealed_holds bss (lg_sealed l)" "active_holds cs ?a"
    "sorted_wrt (<) (map fst (lg_sealed l) @ [sg_baseOffset ?a])"
    "check_contiguity False (lg_sealed l) (sg_baseOffset ?a) = Inr ()"
    "lg_logEndOffset l = sg_nextOffset ?a" "sealed_contiguous bss (lg_sealed l)"
    using assms by (simp_all add: log_holds_def)
  consider (at_end) "offset \<ge> lg_logEndOffset l"
    | (active) "offset < lg_logEndOffset l" "sg_baseOffset ?a \<le> offset"
    | (sealed) "offset < sg_baseOffset ?a" "lg_sealed l \<noteq> []" "fst (hd (lg_sealed l)) \<le> offset" "offset < lg_logEndOffset l"
    | (before) "offset < sg_baseOffset ?a" "offset < logStartOffset l" "offset < lg_logEndOffset l"
    using active_holdsD(6) [OF h(2)] h(5)
    by (cases "lg_sealed l") (force simp: logStartOffset_def)+
  then show ?thesis
  proof cases
    case active
    have "\<not> offset < logStartOffset l"
      using active(2) h(3) by (cases "lg_sealed l") (auto simp: logStartOffset_def)
    with active segment_read_serves [of cs ?a offset l "concat bss @ cs" maxBytes] active_holdsD(1,2) [OF h(2)] h(5)
      log_dir_active [OF assms(1)]
    show ?thesis by (fastforce simp: log_read_def)
  next
    case sealed
    obtain b seg where f: "filter (\<lambda>(base, _). base \<le> offset) (lg_sealed l) \<noteq> []"
        "last (filter (\<lambda>(base, _). base \<le> offset) (lg_sealed l)) = (b, seg)" "(b, seg) \<in> set (lg_sealed l)"
        "b \<le> offset" "offset < sg_nextOffset seg"
      using find_sealed [OF h(4,3) sealed(2,3,1)] by blast
    obtain bs where bs: "segment_holds bs seg" "b = sg_baseOffset seg" "contiguous b bs" "bs \<in> set bss"
    proof -
      obtain i where i: "i < length (lg_sealed l)" "lg_sealed l ! i = (b, seg)"
        using f(3) by (auto simp: in_set_conv_nth)
      then show thesis
        using that [of "bss ! i"] list_all2_nthD2 [OF h(1) [unfolded sealed_holds_def], of i]
          list_all2_nthD2 [OF h(6) [unfolded sealed_contiguous_def], of i] sealed_holds_length [OF h(1)] by simp
    qed
    have "\<not> offset < logStartOffset l" using sealed by (cases "lg_sealed l") (auto simp: logStartOffset_def)
    moreover have "set bs \<subseteq> set (concat bss @ cs)" using bs(4) by auto
    ultimately show ?thesis
      using sealed f bs segment_read_serves [of bs seg offset l "concat bss @ cs" maxBytes] log_dir_sealed [OF assms(1) f(3)]
      by (fastforce simp: log_read_def)
  next
    case before
    then have "filter (\<lambda>(base, _). base \<le> offset) (lg_sealed l) = []"
      using h(3) by (cases "lg_sealed l") (auto simp: logStartOffset_def filter_empty_conv)
    with before show ?thesis by (simp add: log_read_def)
  qed (auto simp: log_read_def)
qed

subsection \<open>Retention\<close>

definition aged :: "int \<Rightarrow> int \<Rightarrow> segment \<Rightarrow> bool" where
  "aged nowMs retentionMs seg \<longleftrightarrow> segment_isEmpty seg \<or>
     (0 \<le> sg_largestTimestamp seg \<and> retentionMs \<le> nowMs - sg_largestTimestamp seg)"

definition sealed_bytes :: "(int \<times> segment) list \<Rightarrow> nat" where
  "sealed_bytes sealed = sum_list (map (\<lambda>(_, seg). sizeBytes seg) sealed)"

lemma age_loop_split:
  "age_loop nowMs r sealed =
    (let n = length (takeWhile (\<lambda>(_, seg). aged nowMs r seg) sealed)
     in (map snd (take n sealed), drop n sealed))"
proof (induction sealed)
  case (Cons a sealed)
  then show ?case by (cases a) (auto simp: aged_def Let_def)
qed simp

lemma bytes_loop_split:
  "\<exists>n \<le> length sealed. bytes_loop limit (a + sealed_bytes sealed) sealed = (map snd (take n sealed), drop n sealed) \<and>
     (\<forall>i < n. limit < a + sealed_bytes (drop i sealed)) \<and>
     (n < length sealed \<longrightarrow> a + sealed_bytes (drop n sealed) \<le> limit)"
proof (induction sealed)
  case (Cons x sealed)
  obtain b seg where x: "x = (b, seg)" by (cases x)
  show ?case
  proof (cases "limit < a + sealed_bytes (x # sealed)")
    case True
    obtain n where n: "n \<le> length sealed" "bytes_loop limit (a + sealed_bytes sealed) sealed = (map snd (take n sealed), drop n sealed)"
      "\<forall>i < n. limit < a + sealed_bytes (drop i sealed)" "n < length sealed \<longrightarrow> a + sealed_bytes (drop n sealed) \<le> limit"
      using Cons.IH by blast
    have "\<forall>i < Suc n. limit < a + sealed_bytes (drop i (x # sealed))"
      using True n(3) by (auto simp: less_Suc_eq_0_disj)
    moreover have "a + sealed_bytes (x # sealed) - sizeBytes seg = a + sealed_bytes sealed"
      by (simp add: sealed_bytes_def x)
    ultimately show ?thesis using n True x by (intro exI [of _ "Suc n"]) simp
  next
    case False
    then show ?thesis using x by (intro exI [of _ 0]) auto
  qed
qed (simp add: sealed_bytes_def)

lemma fold_burySegment:
  "fold (\<lambda>seg. burySegment seg nowMs) segs l =
    l\<lparr>lg_graveyard := lg_graveyard l @ map (\<lambda>seg. \<lparr>bu_segment = seg, bu_unlinkedAtMs = nowMs\<rparr>) segs\<rparr>"
  by (induction segs arbitrary: l) (simp_all add: burySegment_def)

lemma check_contiguity_drop:
  "check_contiguity c sealed n = Inr () \<Longrightarrow> check_contiguity c (drop k sealed) n = Inr ()"
proof (induction sealed arbitrary: k)
  case (Cons a sealed)
  then show ?case by (cases a; cases k) (auto simp: Let_def split: if_splits)
qed simp

lemma log_holds_drop:
  assumes "log_holds bss cs l"
  shows "log_holds (drop k bss) cs (l\<lparr>lg_sealed := drop k (lg_sealed l), lg_graveyard := g\<rparr>)"
proof -
  have "sorted_wrt (<) (map fst (drop k (lg_sealed l)) @ [sg_baseOffset (lg_active l)])"
  proof -
    have "sorted_wrt (<) (drop k (map fst (lg_sealed l)))"
      using assms by (intro sorted_wrt_drop) (simp add: log_holds_def sorted_wrt_append)
    moreover have "\<forall>x \<in> set (drop k (lg_sealed l)). fst x < sg_baseOffset (lg_active l)"
      using assms by (auto simp: log_holds_def sorted_wrt_append dest!: in_set_dropD)
    ultimately show ?thesis by (simp add: sorted_wrt_append drop_map)
  qed
  then show ?thesis
    using assms
    by (auto simp: log_holds_def sealed_holds_def sealed_contiguous_def check_contiguity_drop list_all2_dropI)
qed

lemma applyRetention_holds:
  assumes "log_holds bss cs l"
  shows "\<exists>m. m \<le> length (lg_sealed l) \<and> log_holds (drop m bss) cs (applyRetention nowMs l) \<and>
    applyRetention nowMs l = l\<lparr>lg_sealed := drop m (lg_sealed l),
      lg_graveyard := lg_graveyard l @ map (\<lambda>(_, seg). \<lparr>bu_segment = seg, bu_unlinkedAtMs = nowMs\<rparr>) (take m (lg_sealed l))\<rparr> \<and>
    (let old = length (takeWhile (\<lambda>(_, seg). aged nowMs (rt_retentionMs (lc_retention (lg_config l))) seg) (lg_sealed l))
     in case rt_retentionBytes (lc_retention (lg_config l)) of
        None \<Rightarrow> m = old
      | Some limit \<Rightarrow> old \<le> m \<and>
          (lg_sealed (applyRetention nowMs l) = [] \<or> totalSizeBytes (applyRetention nowMs l) \<le> limit) \<and>
          (\<forall>i. old \<le> i \<and> i < m \<longrightarrow> limit < sizeBytes (lg_active l) + sealed_bytes (drop i (lg_sealed l))))"
proof -
  let ?s = "lg_sealed l" and ?ret = "lc_retention (lg_config l)"
  let ?bury = "\<lambda>seg. \<lparr>bu_segment = seg, bu_unlinkedAtMs = nowMs\<rparr>"
  define n where "n = length (takeWhile (\<lambda>(_, seg). aged nowMs (rt_retentionMs ?ret) seg) ?s)"
  have n: "n \<le> length ?s" by (simp add: n_def length_takeWhile_le)
  have age: "age_loop nowMs (rt_retentionMs ?ret) ?s = (map snd (take n ?s), drop n ?s)"
    by (simp add: age_loop_split n_def Let_def)
  have pair: "map ?bury (map snd xs) = map (\<lambda>(_, seg). ?bury seg) xs" for xs :: "(int \<times> segment) list"
    by (simp add: comp_def case_prod_unfold)
  show ?thesis
  proof (cases "rt_retentionBytes ?ret")
    case None
    have "applyRetention nowMs l = l\<lparr>lg_sealed := drop n ?s, lg_graveyard := lg_graveyard l @ map (\<lambda>(_, seg). ?bury seg) (take n ?s)\<rparr>"
      using None by (simp add: applyRetention_def age fold_burySegment Let_def pair del: map_map)
    with None n log_holds_drop [OF assms, of n] show ?thesis by (intro exI [of _ n]) (simp add: n_def Let_def)
  next
    case (Some limit)
    obtain k where k: "k \<le> length (drop n ?s)" "bytes_loop limit (sizeBytes (lg_active l) + sealed_bytes (drop n ?s)) (drop n ?s)
        = (map snd (take k (drop n ?s)), drop k (drop n ?s))"
      "\<forall>i < k. limit < sizeBytes (lg_active l) + sealed_bytes (drop i (drop n ?s))"
      "k < length (drop n ?s) \<longrightarrow> sizeBytes (lg_active l) + sealed_bytes (drop k (drop n ?s)) \<le> limit"
      using bytes_loop_split [of "drop n ?s" limit "sizeBytes (lg_active l)"] by blast
    have eq: "applyRetention nowMs l = l\<lparr>lg_sealed := drop (n + k) ?s,
        lg_graveyard := lg_graveyard l @ map (\<lambda>(_, seg). ?bury seg) (take (n + k) ?s)\<rparr>"
      using Some k(2) by (simp add: applyRetention_def age fold_burySegment Let_def pair totalSizeBytes_def
          take_add [of n k] add.commute [of k n] flip: sealed_bytes_def del: map_map)
    have "\<forall>i. n \<le> i \<and> i < n + k \<longrightarrow> limit < sizeBytes (lg_active l) + sealed_bytes (drop i ?s)"
    proof (intro allI impI)
      fix i assume i: "n \<le> i \<and> i < n + k"
      then have "i - n < k" by linarith
      with k(3) have "limit < sizeBytes (lg_active l) + sealed_bytes (drop (i - n) (drop n ?s))" by blast
      with i show "limit < sizeBytes (lg_active l) + sealed_bytes (drop i ?s)" by simp
    qed
    moreover have "drop (n + k) ?s = [] \<or> sizeBytes (lg_active l) + sealed_bytes (drop (n + k) ?s) \<le> limit"
      using k(1,4) by (cases "k < length (drop n ?s)") (auto simp: add.commute)
    ultimately show ?thesis
      using Some n k(1) log_holds_drop [OF assms, of "n + k"] eq
      by (intro exI [of _ "n + k"]) (simp add: totalSizeBytes_def sealed_bytes_def flip: n_def)
  qed
qed

text \<open>
  A retention sweep deletes a run of the oldest sealed segments and touches nothing else:
  first the segments that are empty or whose largest timestamp is known and old enough, up to the
  first that is not, then, under a byte limit, one more at a time for as long as the log is
  over the limit, so that it ends within the limit or without sealed segments. Every deleted
  segment is handed to the graveyard, and what is left is a well-formed log with the same end.
\<close>

lemma applyRetention_correct:
  assumes "log_holds bss cs l"
  shows "\<exists>m. m \<le> length (lg_sealed l) \<and> log_holds (drop m bss) cs (applyRetention nowMs l) \<and>
    applyRetention nowMs l = l\<lparr>lg_sealed := drop m (lg_sealed l),
      lg_graveyard := lg_graveyard l @ map (\<lambda>(_, seg). \<lparr>bu_segment = seg, bu_unlinkedAtMs = nowMs\<rparr>) (take m (lg_sealed l))\<rparr> \<and>
    (let old = length (takeWhile (\<lambda>(_, seg). aged nowMs (rt_retentionMs (lc_retention (lg_config l))) seg) (lg_sealed l))
     in case rt_retentionBytes (lc_retention (lg_config l)) of
        None \<Rightarrow> m = old
      | Some limit \<Rightarrow> old \<le> m \<and>
          (lg_sealed (applyRetention nowMs l) = [] \<or> totalSizeBytes (applyRetention nowMs l) \<le> limit) \<and>
          (\<forall>i. old \<le> i \<and> i < m \<longrightarrow> limit < sizeBytes (lg_active l) + sealed_bytes (drop i (lg_sealed l))))"
  by (rule applyRetention_holds [OF assms])

subsection \<open>The batches of a log in order\<close>

lemma ascending_mono: "ascending n bs \<Longrightarrow> m \<le> n \<Longrightarrow> ascending m bs"
  by (cases bs) auto

lemma sealed_ascending:
  assumes "sealed_holds bss sealed" "check_contiguity c sealed n = Inr ()"
    "sorted_wrt (<) (map fst sealed @ [n])" "m \<le> fst (hd (sealed @ [(n, undefined)]))"
  shows "ascending m (concat bss) \<and> end_offset m (concat bss) \<le> n"
  using assms
proof (induction bss sealed arbitrary: m rule: list_induct2')
  case (4 bs bss a sealed)
  obtain b seg where a: "a = (b, seg)" by (cases a)
  have seg: "segment_holds bs seg" "b = sg_baseOffset seg" "sealed_holds bss sealed"
    using "4.prems"(1) a by simp_all
  have cont: "check_contiguity c sealed n = Inr ()"
    and ends: "sg_nextOffset seg \<le> fst (hd (sealed @ [(n, undefined)]))"
    using "4.prems"(2) a by (cases sealed; auto simp: Let_def split: if_splits)+
  have m: "m \<le> b" using "4.prems"(4) a by simp
  have asc: "ascending b bs" "end_offset b bs = sg_nextOffset seg"
    using seg by (simp_all add: segment_holds_def)
  have "end_offset m bs \<le> sg_nextOffset seg"
    using asc m ascending_le_end [OF asc(1)] by (cases "bs = []") (auto simp: end_offset_def)
  then have "ascending (end_offset m bs) (concat bss) \<and> end_offset (end_offset m bs) (concat bss) \<le> n"
    using "4.IH" [OF seg(3) cont, of "end_offset m bs"] "4.prems"(3) ends by simp
  then show ?case using ascending_mono [OF asc(1) m] by simp
qed simp_all

lemma log_ascending:
  assumes "log_holds bss cs l" "m \<le> logStartOffset l"
  shows "ascending m (concat bss)" "end_offset m (concat bss) \<le> sg_baseOffset (lg_active l)"
    "ascending (sg_baseOffset (lg_active l)) cs" "ascending m (concat bss @ cs)"
proof -
  have "m \<le> fst (hd (lg_sealed l @ [(sg_baseOffset (lg_active l), undefined)]))"
    using assms(2) by (cases "lg_sealed l") (auto simp: logStartOffset_def)
  then show s: "ascending m (concat bss)" "end_offset m (concat bss) \<le> sg_baseOffset (lg_active l)"
    using assms(1) sealed_ascending [of bss "lg_sealed l" "compacted (lg_config l)" "sg_baseOffset (lg_active l)" m]
    by (simp_all add: log_holds_def)
  show a: "ascending (sg_baseOffset (lg_active l)) cs"
    using assms(1) active_holdsD(5) by (simp add: log_holds_def)
  show "ascending m (concat bss @ cs)"
    using s ascending_mono [OF a] by simp
qed

lemma ascending_not_below: "ascending n bs \<Longrightarrow> t \<le> n \<Longrightarrow> b \<in> set bs \<Longrightarrow> \<not> below (Some t) (hdr b)"
  using ascending_base_le [of n bs b] ascending_list_all [of n bs] batch_wf_lastOffset [of b]
  by (auto simp: below_def list_all_iff)

lemma ascending_below: "ascending n bs \<Longrightarrow> end_offset n bs \<le> t \<Longrightarrow> b \<in> set bs \<Longrightarrow> below (Some t) (hdr b)"
  using ascending_last_less [of n bs b] by (simp add: below_def)

lemma takeWhile_middle:
  "\<forall>x \<in> set xs. P x \<Longrightarrow> \<forall>z \<in> set zs. \<not> P z \<Longrightarrow> takeWhile P (xs @ ys @ zs) = xs @ takeWhile P ys"
proof (induction xs)
  case Nil
  then show ?case by (induction ys) (auto simp: takeWhile_eq_Nil_iff dest: hd_in_set)
qed simp

lemma check_contiguity_prefix:
  "check_contiguity c (xs @ (b, seg) # ys) n = Inr () \<Longrightarrow> check_contiguity c xs b = Inr ()"
proof (induction xs)
  case (Cons a xs)
  then show ?case by (cases a; cases xs) (auto simp: Let_def split: if_splits)
qed simp

lemma filter_sorted_prefix:
  assumes "sorted_wrt (<) (map fst sealed)"
  shows "filter (\<lambda>(base, _). \<not> base \<ge> t) sealed = takeWhile (\<lambda>(base, _). base < (t :: int)) sealed"
proof -
  have "filter (\<lambda>(base, _). base < t) sealed = takeWhile (\<lambda>(base, _). base < t) sealed"
    using assms by (intro filter_takeWhile_downward [where R = "\<lambda>x y. fst x < fst y"]) (auto simp: sorted_wrt_map)
  then show ?thesis by (simp add: not_le)
qed

subsection \<open>Truncation\<close>

definition recoverable :: "byte list list list \<Rightarrow> byte list list \<Rightarrow> partition_log \<Rightarrow> bool" where
  "recoverable bss cs l \<longleftrightarrow> list_all valid_batch (concat bss @ cs) \<and>
     index_fits (sg_baseOffset (lg_active l)) cs \<and>
     list_all2 (\<lambda>bs (base, _). index_fits base bs) bss (lg_sealed l)"

lemma active_recover_log:
  assumes "list_all valid_batch bs" "contiguous base bs" "index_fits base bs" "valid_base base"
    "8 \<le> rp_maxIndexBytes policy" "log_dir l (segmentLogPath base) = Some (concat bs)"
  shows "\<exists>seg. active_recover (log_dir l) (segmentLogPath base) policy (Some t) now = Inr seg \<and>
    active_holds (takeWhile (\<lambda>b. below (Some t) (hdr b)) bs) seg \<and> sg_baseOffset seg = base"
  using active_recover_holds [of bs base policy "log_dir l" "[]" "Some t" now] assms
  by (simp add: valid_base_def)

lemma kept_end:
  assumes "ascending base bs" "base \<le> t"
  shows "end_offset base (takeWhile (\<lambda>b. below (Some t) (hdr b)) bs) \<le> t"
proof (cases "takeWhile (\<lambda>b. below (Some t) (hdr b)) bs = []")
  case False
  then have "below (Some t) (hdr (last (takeWhile (\<lambda>b. below (Some t) (hdr b)) bs)))"
    using last_in_set set_takeWhileD by metis
  with False show ?thesis by (simp add: end_offset_def below_def)
qed (use assms in \<open>simp add: end_offset_def\<close>)

lemma log_truncateTo_holds:
  assumes h: "log_holds bss cs l" and nc: "\<not> compacted (lg_config l)" and rec: "recoverable bss cs l"
    and offset: "0 \<le> offset" "offset < lg_logEndOffset l"
  shows "\<exists>l' bss' cs'. log_truncateTo offset now l = Inr l' \<and> log_holds bss' cs' l' \<and>
    lg_config l' = lg_config l \<and> lg_logEndOffset l' \<le> offset \<and>
    lg_highWatermark l' = min (lg_highWatermark l) (lg_logEndOffset l') \<and>
    concat bss' @ cs' = takeWhile (\<lambda>b. lastOffset (hdr b) < offset) (concat bss @ cs)"
proof -
  let ?s = "lg_sealed l" and ?a = "lg_active l" and ?roll = "lc_roll (lg_config l)"
  let ?P = "\<lambda>b. below (Some offset) (hdr b)"
  have P: "takeWhile (\<lambda>b. lastOffset (hdr b) < offset) = takeWhile ?P" by (simp add: below_def)
  have f: "sealed_holds bss ?s" "active_holds cs ?a" "sorted_wrt (<) (map fst ?s @ [sg_baseOffset ?a])"
    "check_contiguity False ?s (sg_baseOffset ?a) = Inr ()" "valid_base (sg_baseOffset ?a)"
    "valid_base (sg_nextOffset ?a)" "8 \<le> rp_maxIndexBytes ?roll" "sealed_contiguous bss ?s"
    "lg_logEndOffset l = sg_nextOffset ?a"
    using h nc by (simp_all add: log_holds_def)
  note asc = log_ascending [OF h order_refl]
  have valid: "list_all valid_batch (concat bss)" "list_all valid_batch cs"
    using rec by (simp_all add: recoverable_def)
  have ge: "offset < 2 ^ 63" using offset f(6,9) by (simp add: valid_base_def)
  define upto where "upto = takeWhile (\<lambda>(base, _). base < offset) ?s"
  have filt: "filter (\<lambda>(base, _). \<not> base \<ge> offset) ?s = upto"
    unfolding upto_def using f(3) by (intro filter_sorted_prefix) (simp add: sorted_wrt_append)
  let ?new = "\<lambda>sealed active. l\<lparr>lg_sealed := sealed, lg_active := active, lg_logEndOffset := sg_nextOffset active,
      lg_highWatermark := (if lg_highWatermark l > sg_nextOffset active then sg_nextOffset active else lg_highWatermark l)\<rparr>"
  have new_valid: "valid_base (sg_nextOffset active)"
    if "active_holds xs active" "valid_base (sg_baseOffset active)" "sg_nextOffset active \<le> offset" for xs active
    using that active_holdsD(6) [of xs active] ge by (simp add: valid_base_def)
  show ?thesis
  proof (cases "sg_baseOffset ?a < offset")
    case True
    have all: "upto = ?s"
      unfolding upto_def using f(3) True by (intro takeWhile_eq_all_conv [THEN iffD2]) (force simp: sorted_wrt_append)
    have fits: "index_fits (sg_baseOffset ?a) cs" using rec by (simp add: recoverable_def)
    have "log_dir l (segmentLogPath (sg_baseOffset ?a)) = Some (concat cs)"
      using log_dir_active [OF h] active_holdsD(3) [OF f(2)] by simp
    then obtain active where r: "active_recover (log_dir l) (logFileName ?a) ?roll (Some offset) now = Inr active"
        "active_holds (takeWhile ?P cs) active" "sg_baseOffset active = sg_baseOffset ?a"
      using active_recover_log [where l = l and t = offset and now = now,
          OF valid(2) active_holdsD(2) [OF f(2)] fits f(5,7)] unfolding logFileName_def by blast
    have end_le: "sg_nextOffset active \<le> offset"
      using active_holdsD(4) [OF r(2)] kept_end [OF asc(3)] True r(3) by simp
    have "log_truncateTo offset now l = Inr (?new ?s active)"
      using offset True r(1) filt all by (simp add: log_truncateTo_def Let_def)
    moreover have "log_holds bss (takeWhile ?P cs) (?new ?s active)"
      using h r new_valid [OF r(2) _ end_le] f(5) by (simp add: log_holds_def)
    moreover have "\<forall>b \<in> set (concat bss). ?P b"
      using ascending_below [OF asc(1)] asc(2) True by auto
    then have "takeWhile ?P (concat bss @ cs) = concat bss @ takeWhile ?P cs"
      using takeWhile_middle [of "concat bss" ?P "[]" cs] by simp
    ultimately show ?thesis
      using end_le unfolding P by (intro exI [of _ "?new ?s active"] exI [of _ bss] exI [of _ "takeWhile ?P cs"])
        (simp add: min_def)
  next
    case False
    then have above: "\<forall>b \<in> set cs. \<not> ?P b" using ascending_not_below [OF asc(3)] by auto
    show ?thesis
    proof (cases "upto = []")
      case True
      have "offset \<le> logStartOffset l"
        using True False by (cases ?s) (auto simp: upto_def logStartOffset_def split: if_splits)
      then have "\<forall>b \<in> set (concat bss @ cs). \<not> ?P b"
        using ascending_not_below [OF asc(4)] by blast
      then have none: "takeWhile ?P (concat bss @ cs) = []"
        using takeWhile_middle [of "[]" ?P "concat bss @ cs" "[]"] by simp
      have "map_of (meta_file (lg_tp l) (lg_config l)) (segmentLogPath offset) = None"
        using meta_not_segment [of offset] by (auto simp: meta_file_def split: sum.split)
      then obtain active where r: "active_create (map_of (meta_file (lg_tp l) (lg_config l))) offset ?roll = Inr active"
          "active_holds [] active" "sg_baseOffset active = offset" "sg_nextOffset active = offset"
        using active_create_total [where dir = "map_of (meta_file (lg_tp l) (lg_config l))" and base = offset, OF _ f(7)]
        by blast
      have "log_truncateTo offset now l = Inr (?new [] active)"
        using offset False r(1) filt True by (simp add: log_truncateTo_def Let_def)
      moreover have "log_holds [] [] (?new [] active)"
        using h r nc ge offset(1) by (simp add: log_holds_def valid_base_def sealed_contiguous_def)
      ultimately show ?thesis
        using r none unfolding P by (intro exI [of _ "?new [] active"] exI [of _ "[]"]) (simp add: min_def)
    next
      case ne: False
      obtain xs b seg where u: "upto = xs @ [(b, seg)]" using ne by (metis rev_exhaust surj_pair)
      obtain ys where s: "?s = xs @ (b, seg) # ys"
        using u upto_def takeWhile_dropWhile_id [of "\<lambda>(base, _). base < offset" ?s] by (metis append.assoc append_Cons append_Nil)
      define i where "i = length xs"
      define bs where "bs = bss ! i"
      have len: "length bss = length ?s" by (rule sealed_holds_length [OF f(1)])
      have bss: "bss = take i bss @ bs # drop (Suc i) bss"
        unfolding bs_def using len s by (intro id_take_nth_drop) (simp add: i_def)
      have nth: "?s ! i = (b, seg)" "i < length ?s" using s by (simp_all add: i_def)
      have fits: "list_all2 (\<lambda>bs (base, _). index_fits base bs) bss ?s" using rec by (simp add: recoverable_def)
      have seg: "segment_holds bs seg" "b = sg_baseOffset seg" "valid_base b" "contiguous b bs" "index_fits b bs"
        using list_all2_nthD2 [OF f(1) [unfolded sealed_holds_def] nth(2)]
          list_all2_nthD2 [OF f(8) [unfolded sealed_contiguous_def] nth(2)]
          list_all2_nthD2 [OF fits nth(2)] nth(1) by (auto simp: bs_def)
      have b: "b < offset" using u set_takeWhileD [of "(b, seg)" "\<lambda>(base, _). base < offset" ?s]
        by (auto simp: upto_def)
      have bvalid: "list_all valid_batch bs"
        using valid(1) bss len nth(2) by (auto simp: list_all_iff bs_def)
      have "log_dir l (segmentLogPath b) = Some (concat bs)"
        using log_dir_sealed [OF h, of b seg] s seg(1) by (simp add: segment_holds_def)
      then obtain active where r: "active_recover (log_dir l) (segmentLogPath b) ?roll (Some offset) now = Inr active"
          "active_holds (takeWhile ?P bs) active" "sg_baseOffset active = b"
        using active_recover_log [where l = l and t = offset and now = now, OF bvalid seg(4,5,3) f(7)] by blast
      have basc: "ascending b bs" using seg(1,2) by (simp add: segment_holds_def)
      have end_le: "sg_nextOffset active \<le> offset"
        using active_holdsD(4) [OF r(2)] kept_end [OF basc] b r(3) by simp
      have "log_truncateTo offset now l = Inr (?new xs active)"
        using offset False r(1) filt u seg(2) by (simp add: log_truncateTo_def Let_def logFileName_def)
      moreover have "log_holds (take i bss) (takeWhile ?P bs) (?new xs active)"
      proof -
        have "sealed_holds (take i bss) xs" "sealed_contiguous (take i bss) xs"
          using f(1,8) s list_all2_takeI [of _ bss ?s i]
          by (simp_all add: sealed_holds_def sealed_contiguous_def i_def)
        moreover have "sorted_wrt (<) (map fst xs @ [b])"
          using f(3) s by (simp add: sorted_wrt_append)
        moreover have "check_contiguity False xs b = Inr ()"
          using check_contiguity_prefix f(4) s by metis
        ultimately show ?thesis
          using r new_valid [OF r(2) _ end_le] seg(3) f(7) nc by (simp add: log_holds_def)
      qed
      moreover have "takeWhile ?P (concat bss @ cs) = concat (take i bss) @ takeWhile ?P bs"
      proof -
        let ?rest = "drop (Suc i) bss"
        have pre: "ascending (logStartOffset l) (concat (take i bss)) \<and>
            end_offset (logStartOffset l) (concat (take i bss)) \<le> b"
        proof (rule sealed_ascending)
          show "sealed_holds (take i bss) xs"
            using f(1) s list_all2_takeI [of _ bss ?s i] by (simp add: sealed_holds_def i_def)
          show "check_contiguity False xs b = Inr ()" using check_contiguity_prefix f(4) s by metis
          show "sorted_wrt (<) (map fst xs @ [b])" using f(3) s by (simp add: sorted_wrt_append)
          show "logStartOffset l \<le> fst (hd (xs @ [(b, undefined)]))"
            using s by (cases xs) (auto simp: logStartOffset_def)
        qed
        have post: "ascending offset (concat ?rest) \<and> end_offset offset (concat ?rest) \<le> sg_baseOffset ?a"
        proof (rule sealed_ascending)
          show "sealed_holds ?rest ys"
            using f(1) s list_all2_dropI [of _ bss ?s "Suc i"] by (simp add: sealed_holds_def i_def)
          show "check_contiguity False ys (sg_baseOffset ?a) = Inr ()"
            using check_contiguity_drop [OF f(4), of "Suc i"] s by (simp add: i_def)
          show "sorted_wrt (<) (map fst ys @ [sg_baseOffset ?a])" using f(3) s by (simp add: sorted_wrt_append)
          have "dropWhile (\<lambda>(base, _). base < offset) ?s = ys"
            using u s takeWhile_dropWhile_id [of "\<lambda>(base, _). base < offset" ?s] unfolding upto_def by simp
          then have "ys \<noteq> [] \<longrightarrow> \<not> (case hd ys of (base, _) \<Rightarrow> base < offset)"
            using hd_dropWhile by metis
          then show "offset \<le> fst (hd (ys @ [(sg_baseOffset ?a, undefined)]))"
            using \<open>\<not> sg_baseOffset ?a < offset\<close> by (cases ys) auto
        qed
        have "\<forall>c \<in> set (concat (take i bss)). ?P c" using ascending_below [of "logStartOffset l" "concat (take i bss)" offset] pre b by simp
        moreover have "\<forall>c \<in> set (concat ?rest @ cs). \<not> ?P c"
          using ascending_not_below [of offset "concat ?rest" offset] post above by auto
        moreover have "concat bss @ cs = concat (take i bss) @ bs @ (concat ?rest @ cs)"
          using arg_cong [OF bss, of concat] by simp
        ultimately show ?thesis
          using takeWhile_middle [of "concat (take i bss)" ?P "concat ?rest @ cs" bs] by simp
      qed
      ultimately show ?thesis
        using end_le unfolding P
        by (intro exI [of _ "?new xs active"] exI [of _ "take i bss"] exI [of _ "takeWhile ?P bs"]) (simp add: min_def)
    qed
  qed
qed

subsection \<open>Reopening a directory\<close>

lemma sealed_open_holds:
  assumes "segment_holds bs seg" "valid_base (sg_baseOffset seg)"
    and "dir (segmentLogPath (sg_baseOffset seg)) = Some (sg_log seg)"
    and "dir (segmentIndexPath (sg_baseOffset seg)) = Some (oi_bytes (sg_index seg))"
  shows "\<exists>seg'. sealed_open dir (segmentLogPath (sg_baseOffset seg)) = Inr seg' \<and> segment_holds bs seg' \<and>
    sg_baseOffset seg' = sg_baseOffset seg \<and> sg_nextOffset seg' = sg_nextOffset seg \<and> sg_log seg' = sg_log seg"
proof -
  let ?b = "sg_baseOffset seg" and ?idx = "index_openSealed (oi_bytes (sg_index seg)) (sg_baseOffset seg)"
  have h: "sg_log seg = concat bs" "ascending ?b bs" "sg_nextOffset seg = end_offset ?b bs" "indexed bs ?b (sg_index seg)"
    using assms(1) by (simp_all add: segment_holds_def)
  then obtain n where n: "index_ok (sg_index seg)" "oi_baseOffset (sg_index seg) = ?b"
      "oi_bytes (sg_index seg) = concat (map entry_bytes (index_entries (sg_index seg))) @ replicate n 0"
    unfolding indexed_def index_ok_def by blast
  have idx: "indexed bs ?b ?idx"
    using index_openSealed_entries [OF n(1,3), of ?b] h(4) n(2) by (simp add: indexed_def index_hints_def)
  let ?s = "\<lparr>sg_log = sg_log seg, sg_index = ?idx, sg_baseOffset = ?b, sg_nextOffset = ?b, sg_largestTimestamp = - 1\<rparr>"
  obtain ys where "deriveEndStateFromLog ?s =
      Inr (?s\<lparr>sg_nextOffset := end_offset ?b bs, sg_largestTimestamp := top_timestamp (- 1) ys\<rparr>)"
    using deriveEndState_walk [of ?s bs] h idx by auto
  then show ?thesis
    using assms(2-4) h idx
    by (simp add: sealed_open_def baseOffsetFromLogPath_segmentLogPath valid_base_def segment_holds_def)
qed

lemma open_sealed_holds:
  assumes "sealed_holds bss sealed"
    and "\<forall>(b, seg) \<in> set sealed. dir (segmentLogPath b) = Some (sg_log seg) \<and>
      dir (segmentIndexPath b) = Some (oi_bytes (sg_index seg))"
  shows "\<exists>sealed'. open_sealed dir (map (\<lambda>b. (b, segmentLogPath b)) (map fst sealed)) = Inr sealed' \<and>
    sealed_holds bss sealed' \<and> map fst sealed' = map fst sealed \<and>
    map (\<lambda>(_, seg). sg_nextOffset seg) sealed' = map (\<lambda>(_, seg). sg_nextOffset seg) sealed"
  using assms
proof (induction bss sealed rule: list_induct2')
  case (4 bs bss a sealed)
  obtain b seg where a: "a = (b, seg)" by (cases a)
  obtain sealed' where s: "open_sealed dir (map (\<lambda>b. (b, segmentLogPath b)) (map fst sealed)) = Inr sealed'"
    "sealed_holds bss sealed'" "map fst sealed' = map fst sealed"
    "map (\<lambda>(_, seg). sg_nextOffset seg) sealed' = map (\<lambda>(_, seg). sg_nextOffset seg) sealed"
    using 4 a by auto
  obtain seg' where "sealed_open dir (segmentLogPath b) = Inr seg'" "segment_holds bs seg'"
      "sg_baseOffset seg' = b" "sg_nextOffset seg' = sg_nextOffset seg"
    using sealed_open_holds [of bs seg dir] 4 a by auto
  with s a 4 show ?case by auto
qed simp_all

lemma check_contiguity_cong:
  assumes "map fst sealed' = map fst sealed"
    "map (\<lambda>(_, seg). sg_nextOffset seg) sealed' = map (\<lambda>(_, seg). sg_nextOffset seg) sealed"
  shows "check_contiguity c sealed' n = check_contiguity c sealed n"
  using assms
proof (induction sealed arbitrary: sealed')
  case (Cons a sealed)
  then obtain a' rest' where s: "sealed' = a' # rest'" by (cases sealed') auto
  obtain b seg seg' where a: "a = (b, seg)" "a' = (b, seg')" "sg_nextOffset seg' = sg_nextOffset seg"
    using Cons.prems s by (cases a; cases a') auto
  have "check_contiguity c rest' n = check_contiguity c sealed n"
    using Cons.IH [of rest'] Cons.prems s by simp
  then show ?case
    using Cons.prems s a by (cases rest'; cases sealed) (auto simp: Let_def)
qed simp

lemma keys_map_emplace: "fst ` set (map_emplace k v m) = insert k (fst ` set m)"
  by (induction k v m rule: map_emplace.induct) auto

lemma sorted_map_emplace:
  "sorted_wrt (<) (map fst m) \<Longrightarrow> sorted_wrt (<) (map fst (map_emplace k v m))"
proof (induction k v m rule: map_emplace.induct)
  case (2 k v j u m)
  then show ?case
    using keys_map_emplace [of k v m] by (auto simp: image_iff)
qed simp

lemma set_map_emplace: "set (map_emplace k v m) \<subseteq> insert (k, v) (set m)"
  by (induction k v m rule: map_emplace.induct) auto

lemma collect_logs_sorted:
  assumes "\<forall>name \<in> fst ` set entries. has_log_extension name \<longrightarrow> (\<exists>b. valid_base b \<and> name = segmentLogPath b)"
    and "sorted_wrt (<) (map fst logs)" "\<forall>(b, name) \<in> set logs. name = segmentLogPath b"
  shows "\<exists>r. collect_logs entries logs = Inr r \<and> sorted_wrt (<) (map fst r) \<and>
    (\<forall>(b, name) \<in> set r. name = segmentLogPath b) \<and>
    fst ` set r = fst ` set logs \<union> {b. valid_base b \<and> has_log_extension (segmentLogPath b) \<and>
      segmentLogPath b \<in> fst ` set entries}"
  using assms
proof (induction entries arbitrary: logs)
  case (Cons e entries)
  obtain name bytes where e: "e = (name, bytes)" by (cases e)
  show ?case
  proof (cases "has_log_extension name")
    case True
    then obtain b where b: "valid_base b" "name = segmentLogPath b" using Cons.prems(1) e by auto
    then have base: "baseOffsetFromLogPath name = Inr b"
      by (simp add: valid_base_def baseOffsetFromLogPath_segmentLogPath)
    have forms: "\<forall>(b, name) \<in> set (map_emplace b name logs). name = segmentLogPath b"
      using Cons.prems(3) b set_map_emplace [of b name logs] by auto
    obtain r where r: "collect_logs entries (map_emplace b name logs) = Inr r" "sorted_wrt (<) (map fst r)"
      "\<forall>(b, name) \<in> set r. name = segmentLogPath b"
      "fst ` set r = fst ` set (map_emplace b name logs) \<union> {b. valid_base b \<and> has_log_extension (segmentLogPath b) \<and>
        segmentLogPath b \<in> fst ` set entries}"
      using Cons.IH [OF _ sorted_map_emplace [OF Cons.prems(2)] forms] Cons.prems(1) by auto
    have "fst ` set r = fst ` set logs \<union> {b. valid_base b \<and> has_log_extension (segmentLogPath b) \<and>
        segmentLogPath b \<in> fst ` set (e # entries)}"
      using r(4) b e True valid_base_inj [OF _ b(1)] by (auto simp: keys_map_emplace)
    with r base e True show ?thesis by auto
  next
    case False
    obtain r where r: "collect_logs entries logs = Inr r" "sorted_wrt (<) (map fst r)"
      "\<forall>(b, name) \<in> set r. name = segmentLogPath b"
      "fst ` set r = fst ` set logs \<union> {b. valid_base b \<and> has_log_extension (segmentLogPath b) \<and>
        segmentLogPath b \<in> fst ` set entries}"
      using Cons.IH [OF _ Cons.prems(2,3)] Cons.prems(1) by auto
    have "fst ` set r = fst ` set logs \<union> {b. valid_base b \<and> has_log_extension (segmentLogPath b) \<and>
        segmentLogPath b \<in> fst ` set (e # entries)}"
      using r(4) False e by auto
    with r False e show ?thesis by auto
  qed
qed auto

lemma has_log_extension_names:
  "has_log_extension (segmentLogPath b)" "\<not> has_log_extension (segmentIndexPath b)" "\<not> has_log_extension meta_kFileName"
proof -
  have "segmentBaseName b \<noteq> []" by (simp add: segmentBaseName_def Let_def)
  then show "has_log_extension (segmentLogPath b)"
    by (simp add: has_log_extension_def segmentLogPath_def kLogSuffix_def)
  have "last (segmentIndexPath b) = CHR ''x''" by (simp add: segmentIndexPath_def kIndexSuffix_def)
  moreover have "last n = CHR ''g''" if "has_log_extension n" for n
  proof -
    have "n = take (length n - length kLogSuffix) n @ kLogSuffix"
      using that append_take_drop_id [of "length n - length kLogSuffix" n] unfolding has_log_extension_def by simp
    then have "last n = last (take (length n - length kLogSuffix) n @ kLogSuffix)" by simp
    then show ?thesis by (simp add: kLogSuffix_def)
  qed
  ultimately show "\<not> has_log_extension (segmentIndexPath b)" by auto
  show "\<not> has_log_extension meta_kFileName"
    by (simp add: has_log_extension_def meta_kFileName_def kLogSuffix_def)
qed

lemma meta_not_index: "meta_kFileName \<noteq> segmentIndexPath b"
proof
  have "last (segmentIndexPath b) = CHR ''x''" by (simp add: segmentIndexPath_def kIndexSuffix_def)
  moreover assume "meta_kFileName = segmentIndexPath b"
  ultimately show False by (simp add: meta_kFileName_def)
qed

text \<open>
  The directory a crash leaves: the files of the sealed segments and \<open>partition.meta\<close> as they
  were, the active segment's log with anything behind it, its index with any bytes at all.
\<close>

definition crash_files :: "partition_log \<Rightarrow> byte list \<Rightarrow> byte list \<Rightarrow> (string \<times> byte list) list" where
  "crash_files l tail idx = concat (map (\<lambda>(_, seg). segment_files seg) (lg_sealed l)) @
     [(logFileName (lg_active l), sg_log (lg_active l) @ tail), (indexFileName (lg_active l), idx)] @
     meta_file (lg_tp l) (lg_config l)"

lemma meta_file_ok:
  assumes "meta_ok \<lparr>pm_tp = tp, pm_config = config\<rparr>"
  shows "meta_file tp config = [(meta_kFileName, meta_bytes 2 \<lparr>pm_tp = tp, pm_config = config\<rparr>)]"
  using encodePartitionMeta_bytes [of "\<lparr>pm_tp = tp, pm_config = config\<rparr>"] assms
  by (simp add: meta_file_def meta_ok_def)

lemma strict_sorted_eqI:
  fixes xs ys :: "int list"
  shows "sorted_wrt (<) xs \<Longrightarrow> sorted_wrt (<) ys \<Longrightarrow> set xs = set ys \<Longrightarrow> xs = ys"
  by (simp add: strict_sorted_iff sorted_distinct_set_unique)

lemma collect_logs_crash:
  assumes "log_holds bss cs l" "meta_ok \<lparr>pm_tp = lg_tp l, pm_config = lg_config l\<rparr>"
    and "set entries = set (crash_files l tail idx)"
  shows "collect_logs entries [] = Inr (map (\<lambda>b. (b, segmentLogPath b))
    (map fst (lg_sealed l) @ [sg_baseOffset (lg_active l)]))"
proof -
  let ?bases = "map fst (lg_sealed l) @ [sg_baseOffset (lg_active l)]"
  have seg: "\<forall>(b, seg) \<in> set (lg_sealed l). b = sg_baseOffset seg \<and> valid_base b"
    using assms(1) sealed_holds_mem by (fastforce simp: log_holds_def)
  have names: "fst ` set entries = segmentLogPath ` set ?bases \<union> segmentIndexPath ` set ?bases \<union> {meta_kFileName}"
    unfolding assms(3) crash_files_def meta_file_ok [OF assms(2)] set_append set_concat list.set image_Un set_map image_UN
    using seg by (force simp: segment_files_def logFileName_def indexFileName_def image_iff)
  have valid: "\<forall>b \<in> set ?bases. valid_base b"
    using seg assms(1) by (auto simp: log_holds_def)
  have logs: "has_log_extension name \<longrightarrow> (\<exists>b \<in> set ?bases. name = segmentLogPath b)" if "name \<in> fst ` set entries" for name
    using that unfolding names by (auto simp: has_log_extension_names)
  obtain r where r: "collect_logs entries [] = Inr r" "sorted_wrt (<) (map fst r)"
      "\<forall>(b, name) \<in> set r. name = segmentLogPath b"
      "fst ` set r = {b. valid_base b \<and> has_log_extension (segmentLogPath b) \<and> segmentLogPath b \<in> fst ` set entries}"
    using collect_logs_sorted [of entries "[]"] logs valid by fastforce
  have "fst ` set r = set ?bases"
  proof (intro equalityI subsetI)
    fix b assume "b \<in> fst ` set r"
    then have b: "valid_base b" "segmentLogPath b \<in> fst ` set entries" unfolding r(4) by auto
    then obtain b' where "b' \<in> set ?bases" "segmentLogPath b = segmentLogPath b'"
      using logs has_log_extension_names(1) by metis
    then show "b \<in> set ?bases" using valid b(1) valid_base_inj by metis
  next
    fix b assume b: "b \<in> set ?bases"
    then have "segmentLogPath b \<in> fst ` set entries" unfolding names by blast
    then show "b \<in> fst ` set r" unfolding r(4) using valid b has_log_extension_names(1) by blast
  qed
  then have "map fst r = ?bases"
    using assms(1) r(2) by (intro strict_sorted_eqI) (simp_all add: log_holds_def)
  moreover have "r = map (\<lambda>b. (b, segmentLogPath b)) (map fst r)"
    using r(3) by (induction r) auto
  ultimately show ?thesis using r(1) by metis
qed

lemma log_open_holds:
  assumes "log_holds bss cs l" and "list_all valid_batch cs" "index_fits (sg_baseOffset (lg_active l)) cs"
    and "meta_ok \<lparr>pm_tp = lg_tp l, pm_config = lg_config l\<rparr>"
    and "distinct (map fst entries)" "set entries = set (crash_files l tail idx)"
    and "bad_tail None (lg_logEndOffset l) tail"
  shows "\<exists>l'. log_open entries (lg_tp l) fallback now = Inr l' \<and> log_holds bss cs l' \<and>
    lg_tp l' = lg_tp l \<and> lg_config l' = lg_config l \<and> lg_logEndOffset l' = lg_logEndOffset l \<and>
    lg_highWatermark l' = lg_logEndOffset l \<and> map fst (lg_sealed l') = map fst (lg_sealed l) \<and>
    sg_baseOffset (lg_active l') = sg_baseOffset (lg_active l)"
proof -
  let ?a = "lg_active l" and ?dir = "map_of entries" and ?roll = "lc_roll (lg_config l)"
  let ?m = "\<lparr>pm_tp = lg_tp l, pm_config = lg_config l\<rparr>"
  have f: "sealed_holds bss (lg_sealed l)" "active_holds cs ?a" "valid_base (sg_baseOffset ?a)"
    "8 \<le> rp_maxIndexBytes ?roll" "lg_logEndOffset l = sg_nextOffset ?a"
    "check_contiguity (compacted (lg_config l)) (lg_sealed l) (sg_baseOffset ?a) = Inr ()"
    using assms(1) by (simp_all add: log_holds_def)
  note a = active_holdsD [OF f(2)]
  have dir: "?dir name = Some bytes" if "(name, bytes) \<in> set (crash_files l tail idx)" for name bytes
    using that assms(5,6) by simp
  have meta: "?dir meta_kFileName = Some (meta_bytes 2 ?m)"
    by (rule dir) (simp add: crash_files_def meta_file_ok [OF assms(4)])
  have config: "resolveConfig ?dir (lg_tp l) fallback h = Inr (lg_config l)" for h
    using meta decodePartitionMeta_bytes [OF assms(4), of 2]
    by (simp add: resolveConfig_def readPartitionMeta_def)
  have active: "?dir (segmentLogPath (sg_baseOffset ?a)) = Some (concat cs @ tail)"
    by (rule dir) (simp add: crash_files_def logFileName_def a(3))
  have files: "\<forall>(b, seg) \<in> set (lg_sealed l). ?dir (segmentLogPath b) = Some (sg_log seg) \<and>
      ?dir (segmentIndexPath b) = Some (oi_bytes (sg_index seg))"
    using sealed_holds_mem [OF f(1)]
    by (fastforce intro!: dir simp: crash_files_def segment_files_def logFileName_def indexFileName_def)
  obtain sealed' where s: "open_sealed ?dir (map (\<lambda>b. (b, segmentLogPath b)) (map fst (lg_sealed l))) = Inr sealed'"
      "sealed_holds bss sealed'" "map fst sealed' = map fst (lg_sealed l)"
      "map (\<lambda>(_, seg). sg_nextOffset seg) sealed' = map (\<lambda>(_, seg). sg_nextOffset seg) (lg_sealed l)"
    using open_sealed_holds [OF f(1) files] by blast
  have contig: "check_contiguity c sealed' n = check_contiguity c (lg_sealed l) n" for c n
    by (rule check_contiguity_cong [OF s(3,4)])
  obtain active' where act: "active_recover ?dir (segmentLogPath (sg_baseOffset ?a)) ?roll None now = Inr active'"
      "active_holds cs active'" "sg_baseOffset active' = sg_baseOffset ?a"
    using active_recover_holds [where tr = None and now = now and files = ?dir and tail = tail,
        OF assms(2) a(2) assms(3) f(4)] active assms(7) f(3,5) a(4)
    by (auto simp: valid_base_def below_def takeWhile_eq_all_conv [THEN iffD2])
  have ends: "sg_nextOffset active' = sg_nextOffset ?a" using active_holdsD(4) [OF act(2)] act(3) a(4) by simp
  let ?l = "log_make (lg_tp l) (lg_config l) sealed' active'"
  have "log_open entries (lg_tp l) fallback now = Inr ?l"
    by (simp add: log_open_def Let_def collect_logs_crash [OF assms(1,4,6)] butlast_append s(1) [unfolded map_map] config contig f(6) act(1))
  moreover have "sealed_contiguous bss sealed' \<longleftrightarrow> sealed_contiguous bss (lg_sealed l)"
    using s(3) by (simp add: sealed_contiguous_def list_all2_conv_all_nth case_prod_unfold)
      (metis (no_types, lifting) length_map nth_map)
  then have "log_holds bss cs ?l"
    using assms(1) s(2,3) act ends contig by (simp add: log_holds_def log_make_def)
  ultimately show ?thesis using s(3) act(3) ends f(5) by (intro exI [of _ ?l]) (simp add: log_make_def)
qed

text \<open>
  C29. A log directory after a crash opens to the log that was there: whatever the crash left
  behind the last whole batch of the active segment, whatever became of its index file and in
  whichever order the directory is listed, \<open>Log::open\<close> succeeds with the configuration stored
  in \<open>partition.meta\<close>, the same segments holding the same batches, and the same end offset.
\<close>

theorem log_open_after_crash:
  assumes "log_holds bss cs l" and "list_all valid_batch cs" "index_fits (sg_baseOffset (lg_active l)) cs"
    and "meta_ok \<lparr>pm_tp = lg_tp l, pm_config = lg_config l\<rparr>"
    and "distinct (map fst entries)" "set entries = set (crash_files l tail idx)"
    and "bad_tail None (lg_logEndOffset l) tail"
  shows "\<exists>l'. log_open entries (lg_tp l) fallback now = Inr l' \<and> log_holds bss cs l' \<and>
    lg_tp l' = lg_tp l \<and> lg_config l' = lg_config l \<and> lg_logEndOffset l' = lg_logEndOffset l \<and>
    lg_highWatermark l' = lg_logEndOffset l \<and> map fst (lg_sealed l') = map fst (lg_sealed l) \<and>
    sg_baseOffset (lg_active l') = sg_baseOffset (lg_active l)"
  by (rule log_open_holds [OF assms])

subsection \<open>Concrete logs\<close>

abbreviation small_config :: "cleanup_policy \<Rightarrow> log_config" where
  "small_config cleanup \<equiv> \<lparr>lc_roll = small_policy,
     lc_retention = \<lparr>rt_retentionMs = 100, rt_retentionBytes = Some 50, rt_segmentDeleteDelayMs = 60\<rparr>,
     lc_compaction = \<lparr>cp_deleteRetentionMs = 8\<rparr>, lc_cleanup = cleanup\<rparr>"

definition one_log :: partition_log where
  "one_log = log_make \<lparr>tp_topic = ''t'', tp_partition = 0\<rparr> (small_config Delete) [] one_segment"

lemma one_log_simps [simp]:
  "lg_tp one_log = \<lparr>tp_topic = ''t'', tp_partition = 0\<rparr>" "lg_config one_log = small_config Delete"
  "lg_sealed one_log = []" "lg_active one_log = one_segment" "lg_logEndOffset one_log = 1"
  by (simp_all add: one_log_def log_make_def)

lemma one_log_delete: "\<not> compacted (lg_config one_log)"
  by (simp add: compacted_def)

lemma one_log_holds: "log_holds [] [bare_batch 0 0 5] one_log"
  using one_segment_holds by (simp add: log_holds_def valid_base_def sealed_contiguous_def)

lemma rolled_log:
  "\<exists>l. log_maybeRoll 2000 one_log = Inr l \<and> log_holds [[bare_batch 0 0 5]] [] l \<and>
    lg_config l = small_config Delete \<and> lg_logEndOffset l = 1 \<and> length (lg_sealed l) = 1"
proof -
  have "shouldRoll 2000 (lg_active one_log)" by (simp add: shouldRoll_def segment_isEmpty_def)
  with log_maybeRoll_holds [OF one_log_holds, of 2000] show ?thesis by auto
qed

lemma one_log_recoverable: "recoverable [] [bare_batch 0 0 5] one_log"
  using bare_batch_0 by (simp add: recoverable_def index_fits_def end_offset_def UINT32_MAX_def)

text \<open>
  A read of a well-formed log answers by comparing the offset with the two ends: above the
  end and below the start are told apart, the end itself is a success without bytes, and every
  offset in between, on a log that is not compacted, is served a range inside one of the
  directory's files that begins with the whole batch holding that offset and respects the fetch
  size beyond it.
\<close>

lemma log_read_correct:
  assumes "log_holds bss cs l" and "\<not> compacted (lg_config l)"
  shows "\<exists>r. log_read offset maxBytes l = Inr r \<and>
    (if offset > lg_logEndOffset l then rr_error r = AboveLogEnd
     else if offset = lg_logEndOffset l then rr_error r = NoError \<and> rr_length r = 0
     else if offset < logStartOffset l then rr_error r = BelowLogStart
     else range_serves (concat bss @ cs) l offset maxBytes r)"
  by (rule log_read_holds [OF assms])

text \<open>
  C28. An append gives the batch the log's end offset: the stored copy differs from the client's
  in the base offset only, follows everything already there, and the end offset and high watermark move
  past its last record, whether the append first rolled the log or not. It fails only when an index
  entry is due that 32 bits cannot express, and then the log still holds what it held.
\<close>

theorem log_append_correct:
  assumes "log_holds bss cs l" "batch_wf b" "lg_logEndOffset l + bh_lastOffsetDelta (hdr b) + 1 < 2 ^ 63"
  shows "case log_append b nowRoll nowAppend l of
      (Inr base, l') \<Rightarrow> base = lg_logEndOffset l \<and> lg_logEndOffset l' = base + bh_lastOffsetDelta (hdr b) + 1 \<and>
        lg_highWatermark l' = lg_logEndOffset l' \<and>
        (\<exists>s bss' cs'. stampBaseOffset b base = Inr s \<and> log_holds bss' cs' l' \<and>
           concat bss' @ cs' = concat bss @ cs @ [s])
    | (Inl e, l') \<Rightarrow> e = OffsetInvariantViolated \<and> lg_logEndOffset l' = lg_logEndOffset l \<and>
        index_overflow (lg_logEndOffset l) (sizeBytes (lg_active l')) (lg_active l') \<and>
        (\<exists>bss' cs'. log_holds bss' cs' l' \<and> concat bss' @ cs' = concat bss @ cs)"
  using log_append_holds [OF assms, of nowRoll nowAppend "fst (log_append b nowRoll nowAppend l)"
      "snd (log_append b nowRoll nowAppend l)"]
  by (simp add: case_prod_unfold)

theorem log_append_correct_witness:
  "case log_append (bare_batch 7 2 9) 10 11 one_log of
     (Inr base, l') \<Rightarrow> base = 1 \<and> lg_logEndOffset l' = 4 | (Inl e, l') \<Rightarrow> e = OffsetInvariantViolated"
proof -
  have wf: "batch_wf (bare_batch 7 2 9)" "bh_lastOffsetDelta (hdr (bare_batch 7 2 9)) = 2"
    using bare_batch_facts [of 7 2 9] by (simp_all add: range_simps valid_batch_def lastOffset_def)
  from log_append_correct [OF one_log_holds wf(1), of 10 11] show ?thesis
    by (auto simp: wf(2) split: sum.splits prod.splits)
qed

text \<open>
  A fetch at the offset an append returned is served from that append: its range begins with the
  whole batch the producer sent, stamped with the offset, whatever the fetch size and
  whether or not the append rolled the log.
\<close>

lemma append_then_read:
  assumes "log_holds bss cs l" "\<not> compacted (lg_config l)" "batch_wf b"
    and "lg_logEndOffset l + bh_lastOffsetDelta (hdr b) + 1 < 2 ^ 63"
    and "log_append b nowRoll nowAppend l = (Inr base, l')"
  shows "\<exists>r s f bytes. log_read base maxBytes l' = Inr r \<and> rr_error r = NoError \<and>
    stampBaseOffset b base = Inr s \<and> rr_file r = Some f \<and> log_dir l' (segmentLogPath f) = Some bytes \<and>
    rr_position r + rr_length r \<le> length bytes \<and>
    length s \<le> rr_length r \<and> take (length s) (drop (rr_position r) bytes) = s"
proof -
  obtain s bss' cs' where a: "base = lg_logEndOffset l" "lg_logEndOffset l' = base + bh_lastOffsetDelta (hdr b) + 1"
      "stampBaseOffset b base = Inr s" "log_holds bss' cs' l'" "concat bss' @ cs' = concat bss @ cs @ [s]"
      "lg_config l' = lg_config l"
    using log_append_holds [OF assms(1,3,4,5)] by auto
  have base: "valid_base base" using assms(1) a(1) by (simp add: log_holds_def)
  then obtain s' where "stampBaseOffset b base = Inr s'" "batch_wf s'" "hdr s' = (hdr b)\<lparr>bh_baseOffset := base\<rparr>"
    using stamped_batch_wf [OF assms(3), of base] by (auto simp: valid_base_def range_simps)
  with a(3) have s: "batch_wf s" "bh_baseOffset (hdr s) = base" by auto
  note asc = log_ascending(4) [OF a(4) order_refl]
  have "logStartOffset l' \<le> base"
    using ascending_base_le [OF asc, of s] a(5) s(2) by simp
  moreover have "\<not> base > lg_logEndOffset l'" "base \<noteq> lg_logEndOffset l'"
    using a(2) assms(3) by (simp_all add: batch_wf_def)
  ultimately obtain r where r: "log_read base maxBytes l' = Inr r" "range_serves (concat bss' @ cs') l' base maxBytes r"
    using log_read_holds [OF a(4), of base maxBytes] assms(2) a(6) by auto
  obtain f bytes c where c: "rr_error r = NoError" "rr_file r = Some f" "log_dir l' (segmentLogPath f) = Some bytes"
      "rr_position r + rr_length r \<le> length bytes" "c \<in> set (concat bss' @ cs')" "length c \<le> rr_length r"
      "take (length c) (drop (rr_position r) bytes) = c" "base \<le> lastOffset (hdr c)"
    using r(2) by (auto simp: range_serves_def)
  have "ascending (logStartOffset l') ((concat bss @ cs) @ [s])" using asc a(5) by simp
  then have "lastOffset (hdr c) < base" if "c \<in> set (concat bss @ cs)"
    using ascending_last_less [of "logStartOffset l'" "concat bss @ cs" c] that s(2) by simp
  with c(5,8) a(5) have "c = s" by fastforce
  with c r(1) a(3) show ?thesis by blast
qed

text \<open>
  Truncating a log that is not compacted to an offset below its end keeps exactly the batches
  that end below that offset, wherever the offset falls: inside the active segment, inside a
  sealed segment, which becomes the active one, or at or before the first. The result
  is a well-formed log that ends at or below the offset, and the high watermark never lies above
  its end. At or above the end nothing happens.
\<close>

lemma log_truncateTo_correct:
  assumes "log_holds bss cs l" "\<not> compacted (lg_config l)" "recoverable bss cs l" "0 \<le> offset"
  shows "\<exists>l' bss' cs'. log_truncateTo offset now l = Inr l' \<and>
    (if lg_logEndOffset l \<le> offset then l' = l
     else log_holds bss' cs' l' \<and> lg_config l' = lg_config l \<and> lg_logEndOffset l' \<le> offset \<and>
       lg_highWatermark l' = min (lg_highWatermark l) (lg_logEndOffset l') \<and>
       concat bss' @ cs' = takeWhile (\<lambda>b. lastOffset (hdr b) < offset) (concat bss @ cs))"
  using log_truncateTo_holds [OF assms, of now] by (cases "lg_logEndOffset l \<le> offset") (auto simp: log_truncateTo_def)

lemma one_log_crash:
  "meta_ok \<lparr>pm_tp = lg_tp one_log, pm_config = lg_config one_log\<rparr>"
  "distinct (map fst (rev (crash_files one_log (replicate 100 0) [1, 2, 3])))"
  "bad_tail None (lg_logEndOffset one_log) (replicate 100 0)"
proof -
  show meta: "meta_ok \<lparr>pm_tp = lg_tp one_log, pm_config = lg_config one_log\<rparr>"
    by (simp add: meta_ok_def range_simps)
  have "distinct (map fst (crash_files one_log (replicate 100 0) [1, 2, 3]))"
    unfolding crash_files_def meta_file_ok [OF meta]
    using has_log_extension_names(1,2) [of 0] meta_not_index [of 0] meta_not_segment [of 0]
    by (auto simp: logFileName_def indexFileName_def)
  then show "distinct (map fst (rev (crash_files one_log (replicate 100 0) [1, 2, 3])))"
    by (simp only: distinct_rev flip: rev_map)
  have "parseHeader (replicate 61 0) = Inl CorruptData"
    by (simp add: parseHeader_alt header_of_def Let_def)
  then show "bad_tail None (lg_logEndOffset one_log) (replicate 100 0)"
    by (simp add: bad_tail_def batchAt_def batch_consts min_def)
qed

theorem log_open_after_crash_witness:
  "\<exists>l'. log_open (rev (crash_files one_log (replicate 100 0) [1, 2, 3])) (lg_tp one_log) (small_config Compact) 3 = Inr l' \<and>
    lg_logEndOffset l' = 1 \<and> lg_config l' = small_config Delete"
  using log_open_after_crash [OF one_log_holds _ _ one_log_crash(1,2) set_rev one_log_crash(3),
      of "small_config Compact" 3] one_log_recoverable
  by (auto simp: recoverable_def)

text \<open>
  In a compacted log an offset that compaction left without a segment reads as success without
  bytes, exactly like the end of the log, however much of the log lies behind it.
\<close>

lemma compacted_gap_reads_empty:
  assumes "log_holds bss cs l" and "lg_sealed l = before @ (b, seg) # after"
    and "sg_nextOffset seg \<le> offset" "b \<le> offset"
    and "\<forall>(base, _) \<in> set after. offset < base" "offset < sg_baseOffset (lg_active l)"
  shows "log_read offset maxBytes l =
    Inr \<lparr>rr_error = NoError, rr_file = Some b, rr_position = sizeBytes seg, rr_length = 0\<rparr>"
proof -
  have h: "sealed_holds bss (lg_sealed l)" "active_holds cs (lg_active l)" "lg_logEndOffset l = sg_nextOffset (lg_active l)"
    using assms(1) by (simp_all add: log_holds_def)
  obtain bs where bs: "segment_holds bs seg" "b = sg_baseOffset seg"
  proof -
    have "(b, seg) \<in> set (lg_sealed l)" using assms(2) by simp
    then obtain i where "i < length (lg_sealed l)" "lg_sealed l ! i = (b, seg)" by (auto simp: in_set_conv_nth)
    then show thesis
      using that list_all2_nthD2 [OF h(1) [unfolded sealed_holds_def], of i] by auto
  qed
  have below: "lastOffset (hdr x) < offset" if "x \<in> set bs" for x
    using ascending_below [of b bs offset x] that bs assms(3) by (simp add: segment_holds_def below_def)
  have read: "segment_read offset maxBytes seg = Inr (sizeBytes seg, 0)"
    using segment_read_scan [OF bs(1), of offset maxBytes] below bs assms(4)
    by (simp add: scan_read_def Let_def sizeBytes_def segment_holds_def takeWhile_eq_all_conv [THEN iffD2])
  have "filter (\<lambda>(base, _). base \<le> offset) after = []"
    using assms(5) by (auto simp: filter_empty_conv)
  then have "last (filter (\<lambda>(base, _). base \<le> offset) (lg_sealed l)) = (b, seg)"
    "filter (\<lambda>(base, _). base \<le> offset) (lg_sealed l) \<noteq> []"
    using assms(2,4) by simp_all
  then show ?thesis
    using assms(6) read bs(2) h(3) active_holdsD(6) [OF h(2)] by (simp add: log_read_def)
qed

end
