(* ===== verification/Key_Offset_Map.thy ===== *)
theory Key_Offset_Map
  imports Prelude "HOL-Library.AList"
begin

text \<open>
  \<^verbatim>\<open>storage/key_offset_map.cpp\<close>: for every key of the range being compacted, the newest offset
  that wrote it, under a budget of entries. The hash table is a list of pairs with distinct
  digests; its order is never observed. The interface the cleaner relies on is the
  locale \<open>offset_map\<close>, whose keys are told apart only as far as their digests are.
\<close>

subsection \<open>The map\<close>

record digest =
  dg_high :: "64 word"
  dg_low :: "64 word"

record key_offset_map =
  km_maxEntries :: nat
  km_entries :: "(digest \<times> int) list"

definition kPrime :: "64 word" where "kPrime = 0x100000001B3"

definition fnv1a :: "byte list \<Rightarrow> 64 word \<Rightarrow> 64 word" where
  "fnv1a bytes basis = foldl (\<lambda>hash byte. (hash XOR ucast byte) * kPrime) basis bytes"

definition digestOf :: "byte list \<Rightarrow> digest" where
  "digestOf key = \<lparr>dg_high = fnv1a key 0xCBF29CE484222325, dg_low = fnv1a key 0x9E3779B97F4A7C15\<rparr>"

definition KeyOffsetMap :: "nat \<Rightarrow> key_offset_map" where
  "KeyOffsetMap maxEntries = \<lparr>km_maxEntries = maxEntries, km_entries = []\<rparr>"

definition put :: "byte list \<Rightarrow> int \<Rightarrow> key_offset_map \<Rightarrow> bool \<times> key_offset_map" where
  "put key offset m =
    (let digest = digestOf key in
     case map_of (km_entries m) digest of
       Some found \<Rightarrow>
         (True, if offset > found then m\<lparr>km_entries := AList.update digest offset (km_entries m)\<rparr> else m)
     | None \<Rightarrow>
         if length (km_entries m) \<ge> km_maxEntries m then (False, m)
         else (True, m\<lparr>km_entries := (digest, offset) # km_entries m\<rparr>))"

definition get_offset :: "byte list \<Rightarrow> key_offset_map \<Rightarrow> int option" where
  "get_offset key m = map_of (km_entries m) (digestOf key)"

definition isLatest :: "byte list \<Rightarrow> int \<Rightarrow> key_offset_map \<Rightarrow> bool" where
  "isLatest key offset m = (case map_of (km_entries m) (digestOf key) of
      None \<Rightarrow> True | Some found \<Rightarrow> offset \<ge> found)"

definition km_size :: "key_offset_map \<Rightarrow> nat" where
  "km_size m = length (km_entries m)"

definition km_full :: "key_offset_map \<Rightarrow> bool" where
  "km_full m \<longleftrightarrow> length (km_entries m) \<ge> km_maxEntries m"

definition km_clear :: "key_offset_map \<Rightarrow> key_offset_map" where
  "km_clear m = m\<lparr>km_entries := []\<rparr>"

subsection \<open>The interface\<close>

text \<open>Offering a list of keys and offsets to a map, until it refuses one.\<close>

fun put_all :: "('k \<Rightarrow> int \<Rightarrow> 'm \<Rightarrow> bool \<times> 'm) \<Rightarrow> ('k \<times> int) list \<Rightarrow> 'm \<Rightarrow> bool \<times> 'm" where
  "put_all ins [] m = (True, m)"
| "put_all ins ((k, off) # xs) m =
    (let (taken, m') = ins k off m in if taken then put_all ins xs m' else (False, m'))"

definition newer :: "int option \<Rightarrow> int \<Rightarrow> int" where
  "newer old off = (case old of None \<Rightarrow> off | Some o1 \<Rightarrow> max o1 off)"

fun newest :: "('k \<Rightarrow> bool) \<Rightarrow> ('k \<times> int) list \<Rightarrow> int option \<Rightarrow> int option" where
  "newest P [] old = old"
| "newest P ((k, off) # xs) old = newest P xs (if P k then Some (newer old off) else old)"

locale offset_map =
  fixes put :: "'k \<Rightarrow> int \<Rightarrow> 'm \<Rightarrow> bool \<times> 'm"
    and get :: "'k \<Rightarrow> 'm \<Rightarrow> int option"
    and same :: "'k \<Rightarrow> 'k \<Rightarrow> bool"
    and has_room :: "'m \<Rightarrow> bool"
  assumes put_taken: "fst (put k off m) \<longleftrightarrow> get k m \<noteq> None \<or> has_room m"
    and put_refused: "\<not> fst (put k off m) \<Longrightarrow> snd (put k off m) = m"
    and put_get: "get j (snd (put k off m)) =
      (if fst (put k off m) \<and> same j k then Some (newer (get k m) off) else get j m)"
    and get_same: "same j k \<Longrightarrow> get j m = get k m"
begin

text \<open>What a run of puts leaves in the map: the newest offset of everything taken, and everything
up to the first refusal is taken.\<close>

lemma put_all_get:
  "put_all put xs m = (ok, m') \<Longrightarrow>
    \<exists>n \<le> length xs. (ok \<longrightarrow> n = length xs) \<and> (\<forall>j. get j m' = newest (same j) (take n xs) (get j m))"
proof (induction xs arbitrary: m)
  case (Cons x xs)
  obtain k off where x: "x = (k, off)" by (cases x)
  obtain taken m1 where p: "put k off m = (taken, m1)" by (cases "put k off m")
  show ?case
  proof (cases taken)
    case True
    with Cons.prems x p have "put_all put xs m1 = (ok, m')" by simp
    then obtain n where n: "n \<le> length xs" "ok \<longrightarrow> n = length xs"
        "\<forall>j. get j m' = newest (same j) (take n xs) (get j m1)"
      using Cons.IH by blast
    have "get j m1 = (if same j k then Some (newer (get j m) off) else get j m)" for j
      using put_get [of j k off m] get_same [of j k m] p True by simp
    with n x show ?thesis by (intro exI [of _ "Suc n"]) auto
  next
    case False
    with Cons.prems x p have "ok = False" "m' = m1" by simp_all
    moreover have "get j m1 = get j m" for j using put_get [of j k off m] p False by simp
    ultimately show ?thesis by (intro exI [of _ 0]) simp
  qed
qed simp

lemma put_all_refused:
  "put_all put xs m = (False, m') \<Longrightarrow> \<not> has_room m' \<and> (\<exists>k off. (k, off) \<in> set xs \<and> get k m' = None)"
proof (induction xs arbitrary: m)
  case (Cons x xs)
  obtain k off where x: "x = (k, off)" by (cases x)
  obtain taken m1 where p: "put k off m = (taken, m1)" by (cases "put k off m")
  show ?case
  proof (cases taken)
    case True
    with Cons x p show ?thesis by fastforce
  next
    case False
    with Cons.prems x p put_taken [of k off m] put_refused [of k off m] show ?thesis by auto
  qed
qed simp

end

lemma newest_None_iff: "newest P xs old = None \<longleftrightarrow> old = None \<and> (\<forall>(k, off) \<in> set xs. \<not> P k)"
  by (induction P xs old rule: newest.induct) auto

lemma newest_upper:
  "newest P xs old = Some m \<Longrightarrow> (\<forall>off \<in> set_option old. off \<le> m) \<and> (\<forall>(k, off) \<in> set xs. P k \<longrightarrow> off \<le> m)"
proof (induction P xs old rule: newest.induct)
  case (2 P k off xs old)
  then show ?case by (cases old) (auto simp: newer_def split: if_splits)
qed simp

lemma newest_mem: "newest P xs old = Some m \<Longrightarrow> old = Some m \<or> (\<exists>k. (k, m) \<in> set xs \<and> P k)"
proof (induction P xs old rule: newest.induct)
  case (2 P k off xs old)
  then show ?case by (cases old) (auto simp: newer_def max_def split: if_splits)
qed simp

subsection \<open>The map provides the interface\<close>

interpretation key_map: offset_map put get_offset "\<lambda>j k. digestOf j = digestOf k" "\<lambda>m. \<not> km_full m"
proof unfold_locales
  fix j k :: "byte list" and off and m :: key_offset_map
  show "fst (put k off m) \<longleftrightarrow> get_offset k m \<noteq> None \<or> \<not> km_full m"
    by (auto simp: put_def get_offset_def km_full_def Let_def split: option.split)
  show "snd (put k off m) = m" if "\<not> fst (put k off m)"
    using that by (auto simp: put_def Let_def split: option.splits if_splits)
  show "get_offset j (snd (put k off m)) = (if fst (put k off m) \<and> digestOf j = digestOf k
      then Some (newer (get_offset k m) off) else get_offset j m)"
    by (auto simp: put_def get_offset_def newer_def update_conv' Let_def split: option.split)
  show "get_offset j m = get_offset k m" if "digestOf j = digestOf k"
    using that by (simp add: get_offset_def)
qed

definition km_ok :: "key_offset_map \<Rightarrow> bool" where
  "km_ok m \<longleftrightarrow> distinct (map fst (km_entries m)) \<and> length (km_entries m) \<le> km_maxEntries m"

lemma put_ok:
  assumes "km_ok m"
  shows "km_ok (snd (put key off m)) \<and> km_maxEntries (snd (put key off m)) = km_maxEntries m"
proof (cases "map_of (km_entries m) (digestOf key)")
  case None
  then have "digestOf key \<notin> fst ` set (km_entries m)" by (simp add: map_of_eq_None_iff)
  with None assms show ?thesis by (simp add: put_def km_ok_def Let_def)
next
  case (Some found)
  then have "digestOf key \<in> fst ` set (km_entries m)" by (metis map_of_SomeD image_iff fst_conv)
  moreover from this have "length (AList.update (digestOf key) off (km_entries m)) = length (km_entries m)"
    using arg_cong [OF update_keys [of "digestOf key" off "km_entries m"], of length] by simp
  ultimately show ?thesis using Some assms by (auto simp: put_def km_ok_def Let_def distinct_update)
qed

lemma put_all_ok:
  "km_ok m \<Longrightarrow> put_all put xs m = (ok, m') \<Longrightarrow> km_ok m' \<and> km_maxEntries m' = km_maxEntries m"
proof (induction xs arbitrary: m)
  case (Cons x xs)
  then show ?case
    using put_ok [of m "fst x" "snd x"] by (cases x) (auto simp: Let_def split: prod.splits if_splits)
qed simp

lemma KeyOffsetMap_simps [simp]:
  "km_ok (KeyOffsetMap n)" "get_offset key (KeyOffsetMap n) = None" "km_maxEntries (KeyOffsetMap n) = n"
  "km_size (KeyOffsetMap n) = 0"
  by (simp_all add: KeyOffsetMap_def km_ok_def get_offset_def km_size_def)

lemma isLatest_get: "isLatest key off m \<longleftrightarrow> (\<forall>found \<in> set_option (get_offset key m). found \<le> off)"
  by (auto simp: isLatest_def get_offset_def split: option.split)

subsection \<open>Properties\<close>

text \<open>
  After keys were offered to a new map, up to a refusal if there was one, a record is the
  latest of its key exactly when no taken record of the same digest has a higher offset; a
  key never offered is always the latest, the map never holds more entries than its budget, and
  it refuses only when they are used up.
\<close>

lemma key_map_latest:
  assumes "put_all put xs (KeyOffsetMap budget) = (ok, m)"
  shows "\<exists>n \<le> length xs. (ok \<longrightarrow> n = length xs) \<and>
    (\<forall>key off. isLatest key off m \<longleftrightarrow>
       (\<forall>(k, newer_off) \<in> set (take n xs). digestOf k = digestOf key \<longrightarrow> newer_off \<le> off)) \<and>
    km_size m \<le> budget \<and> (\<not> ok \<longrightarrow> km_size m = budget)"
proof -
  obtain n where n: "n \<le> length xs" "ok \<longrightarrow> n = length xs"
      "\<forall>j. get_offset j m = newest (\<lambda>k. digestOf j = digestOf k) (take n xs) None"
    using key_map.put_all_get [OF assms] by auto
  have "isLatest key off m \<longleftrightarrow>
      (\<forall>(k, newer_off) \<in> set (take n xs). digestOf k = digestOf key \<longrightarrow> newer_off \<le> off)" for key off
  proof (cases "get_offset key m")
    case None
    then have "newest (\<lambda>k. digestOf key = digestOf k) (take n xs) None = None" using n(3) by simp
    then have "\<forall>(k, off) \<in> set (take n xs). digestOf k \<noteq> digestOf key" by (force simp: newest_None_iff)
    with None show ?thesis by (auto simp: isLatest_get)
  next
    case (Some found)
    then have "newest (\<lambda>k. digestOf key = digestOf k) (take n xs) None = Some found" using n(3) by simp
    from newest_upper [OF this] newest_mem [OF this] Some show ?thesis
      by (force simp: isLatest_get)
  qed
  moreover have "km_ok m" "km_maxEntries m = budget" using put_all_ok [OF _ assms] by simp_all
  then have "km_size m \<le> budget" by (simp add: km_ok_def km_size_def)
  moreover have "\<not> ok \<longrightarrow> budget \<le> km_size m"
    using key_map.put_all_refused [of xs "KeyOffsetMap budget" m] assms \<open>km_maxEntries m = budget\<close>
    by (cases ok) (simp_all add: km_full_def km_size_def)
  ultimately show ?thesis using n(1,2) by (intro exI [of _ n]) auto
qed

end
