(* ===== verification/Log_Cleaner.thy ===== *)
theory Log_Cleaner
  imports Partition_Log Key_Offset_Map Complex_Main "HOL-Library.Sublist"
begin

text \<open>
  \<^verbatim>\<open>storage/log_cleaner.cpp\<close>: compaction of one partition. A pass maps the keys of the dirty
  segments to their newest offsets, then rewrites every segment below the mapped end
  without the records a newer one of the same key replaces and the tombstones whose window is
  over. The scheduling of passes is in \<^verbatim>\<open>Cleaner_Schedule\<close>.
\<close>

subsection \<open>Scanning a segment\<close>

record scanned_batch =
  sb_header :: batch_header
  sb_bytes :: "byte list"
  sb_position :: nat

text \<open>The batches the visitor is called with. A visitor that throws ends the scan; every
visitor is folded over the list instead.\<close>

function scanSegment :: "byte list \<Rightarrow> nat \<Rightarrow> scanned_batch list result" where
  "scanSegment content position =
    (if position + kBatchHeaderSize > length content then Inr []
     else case totalSizeOf (take kBatchHeaderSize (drop position content)) of
       Inl e \<Rightarrow> if e = CorruptData then Inr [] else Inl e
     | Inr tot \<Rightarrow>
         if position + tot > length content then Inr []
         else let bytes = take tot (drop position content) in
           (case parseHeader bytes of
             Inl e \<Rightarrow> if e = CorruptData then Inr [] else Inl e
           | Inr header \<Rightarrow>
               bind_r (verifyCrc bytes) (\<lambda>good.
                 if \<not> good then Inr []
                 else bind_r (scanSegment content (position + tot)) (\<lambda>others.
                   Inr (\<lparr>sb_header = header, sb_bytes = bytes, sb_position = position\<rparr> # others)))))"
  by pat_completeness auto
termination
  by (relation "measure (\<lambda>(content, position). length content - position)")
    (auto dest!: totalSizeOf_InrD(2) simp: batch_consts)

declare scanSegment.simps [simp del]

subsection \<open>The retain decision\<close>

record retain_rules =
  rl_map :: "key_offset_map option"
  rl_nowMs :: int
  rl_deleteRetentionMs :: int

definition isTombstone :: "record_data \<Rightarrow> bool" where
  "isTombstone r \<longleftrightarrow> rec_value r = None"

definition retain :: "record_data \<Rightarrow> int \<Rightarrow> int \<Rightarrow> retain_rules \<Rightarrow> bool" where
  "retain r offset timestampMs rules = (case rec_key r of
      None \<Rightarrow> True
    | Some key \<Rightarrow>
        if (case rl_map rules of None \<Rightarrow> False | Some m \<Rightarrow> \<not> isLatest key offset m) then False
        else if \<not> isTombstone r then True
        else rl_nowMs rules - timestampMs < rl_deleteRetentionMs rules)"

subsection \<open>Rewriting a segment\<close>

record cleaned_segment =
  cs_log :: "byte list"
  cs_index :: "byte list"
  cs_recordsKept :: nat
  cs_recordsDropped :: nat

definition cleaned_empty :: "cleaned_segment \<Rightarrow> bool" where
  "cleaned_empty c \<longleftrightarrow> cs_recordsKept c = 0"

text \<open>The locals of one batch's rewrite; \<open>bw_newBase\<close> is \<open>None\<close> while \<open>started\<close> is false.\<close>

record batch_rewrite =
  bw_builder :: builder
  bw_newBase :: "int option"
  bw_kept :: nat
  bw_dropped :: nat

fun rewrite_records ::
  "retain_rules \<Rightarrow> batch_header \<Rightarrow> record_data list \<Rightarrow> batch_rewrite \<Rightarrow> batch_rewrite result" where
  "rewrite_records rules header [] st = Inr st"
| "rewrite_records rules header (r # rs) st =
    (let offset = offsetFrom r (bh_baseOffset header);
         timestampMs = timestampFrom r (bh_firstTimestamp header)
     in if \<not> retain r offset timestampMs rules
        then rewrite_records rules header rs (st\<lparr>bw_dropped := bw_dropped st + 1\<rparr>)
        else let newBase = (case bw_newBase st of None \<Rightarrow> offset | Some started \<Rightarrow> started) in
          bind_r (appendAt (to_i32 (offset - newBase)) timestampMs (rec_key r) (rec_value r)
                    (rec_headers r) (bw_builder st)) (\<lambda>b.
            rewrite_records rules header rs
              (st\<lparr>bw_builder := b, bw_newBase := Some newBase, bw_kept := bw_kept st + 1\<rparr>)))"

record segment_rewrite =
  sw_out :: "byte list"
  sw_index :: offset_index
  sw_sinceLastIndex :: nat
  sw_kept :: nat
  sw_dropped :: nat

definition rewrite_batch ::
  "retain_rules \<Rightarrow> roll_policy \<Rightarrow> scanned_batch \<Rightarrow> segment_rewrite \<Rightarrow> segment_rewrite result" where
  "rewrite_batch rules roll batch st =
    bind_r (decodeRecords (sb_bytes batch)) (\<lambda>records.
    bind_r (rewrite_records rules (sb_header batch) records
      \<lparr>bw_builder = RecordBatchBuilder 0, bw_newBase = None, bw_kept = 0, bw_dropped = 0\<rparr>) (\<lambda>bw.
    let st = st\<lparr>sw_kept := sw_kept st + bw_kept bw, sw_dropped := sw_dropped st + bw_dropped bw\<rparr>
    in case bw_newBase bw of
      None \<Rightarrow> Inr st
    | Some newBase \<Rightarrow>
        bind_r (build (bw_builder bw)) (\<lambda>bytes.
        bind_r (stampBaseOffset bytes newBase) (\<lambda>bytes.
        let position = length (sw_out st) in
        bind_r (if position > 0 \<and> sw_sinceLastIndex st \<ge> rp_indexIntervalBytes roll
                then bind_r (index_append newBase (of_nat position) (sw_index st)) (\<lambda>index. Inr (index, 0))
                else Inr (sw_index st, sw_sinceLastIndex st)) (\<lambda>(index, since).
          Inr (st\<lparr>sw_out := sw_out st @ bytes, sw_index := index,
                 sw_sinceLastIndex := since + length bytes\<rparr>))))))"

fun rewrite_batches ::
  "retain_rules \<Rightarrow> roll_policy \<Rightarrow> scanned_batch list \<Rightarrow> segment_rewrite \<Rightarrow> segment_rewrite result" where
  "rewrite_batches rules roll [] st = Inr st"
| "rewrite_batches rules roll (b # bs) st =
    bind_r (rewrite_batch rules roll b st) (rewrite_batches rules roll bs)"

definition rewriteSegment ::
  "byte list \<Rightarrow> int \<Rightarrow> roll_policy \<Rightarrow> retain_rules \<Rightarrow> cleaned_segment result" where
  "rewriteSegment content baseOffset roll rules =
    bind_r (index_create baseOffset (rp_maxIndexBytes roll)) (\<lambda>index.
    bind_r (scanSegment content 0) (\<lambda>batches.
    bind_r (rewrite_batches rules roll batches \<lparr>sw_out = [], sw_index = index, sw_sinceLastIndex = 0,
      sw_kept = 0, sw_dropped = 0\<rparr>) (\<lambda>st.
    bind_r (index_flushAndTrim (sw_index st)) (\<lambda>(indexFile, _).
      Inr \<lparr>cs_log = sw_out st, cs_index = indexFile, cs_recordsKept = sw_kept st,
           cs_recordsDropped = sw_dropped st\<rparr>))))"

fun drops_any :: "retain_rules \<Rightarrow> scanned_batch list \<Rightarrow> bool result" where
  "drops_any rules [] = Inr False"
| "drops_any rules (b # bs) =
    bind_r (decodeRecords (sb_bytes b)) (\<lambda>records.
      if \<exists>r \<in> set records. \<not> retain r (offsetFrom r (bh_baseOffset (sb_header b)))
           (timestampFrom r (bh_firstTimestamp (sb_header b))) rules
      then Inr True else drops_any rules bs)"

definition wouldDropAnything :: "byte list \<Rightarrow> retain_rules \<Rightarrow> bool result" where
  "wouldDropAnything content rules = bind_r (scanSegment content 0) (drops_any rules)"

subsection \<open>A pass over one partition\<close>

record clean_result =
  cr_segmentsCleaned :: nat
  cr_segmentsDeleted :: nat
  cr_recordsKept :: nat
  cr_recordsDropped :: nat
  cr_keysMapped :: nat
  cr_mapFilled :: bool
  cr_nextDirtyOffset :: int

record cleaner_config =
  cc_maxKeyMapEntries :: nat
  cc_minCleanableDirtyRatio :: rat
  cc_intervalMs :: int

definition open_log_file :: "directory \<Rightarrow> string \<Rightarrow> byte list result" where
  "open_log_file dir name = (case dir name of None \<Rightarrow> Inl (IoError ENOENT) | Some content \<Rightarrow> Inr content)"

text \<open>The three loops of the mapping phase. The first component is \<open>refused\<close> negated.\<close>

fun map_records :: "int \<Rightarrow> record_data list \<Rightarrow> key_offset_map \<Rightarrow> bool \<times> key_offset_map" where
  "map_records base [] m = (True, m)"
| "map_records base (r # rs) m = (case rec_key r of
      None \<Rightarrow> map_records base rs m
    | Some key \<Rightarrow> let (taken, m) = put key (offsetFrom r base) m in
        if taken then map_records base rs m else (False, m))"

fun map_batches :: "scanned_batch list \<Rightarrow> key_offset_map \<Rightarrow> (bool \<times> key_offset_map) result" where
  "map_batches [] m = Inr (True, m)"
| "map_batches (b # bs) m =
    bind_r (decodeRecords (sb_bytes b)) (\<lambda>records.
      let (taken, m) = map_records (bh_baseOffset (sb_header b)) records m in
      if taken then map_batches bs m else Inr (False, m))"

fun map_segments ::
  "directory \<Rightarrow> int \<Rightarrow> sealed_info list \<Rightarrow> key_offset_map \<Rightarrow> int \<Rightarrow> (bool \<times> key_offset_map \<times> int) result" where
  "map_segments dir firstDirty [] m mappedThrough = Inr (True, m, mappedThrough)"
| "map_segments dir firstDirty (info # infos) m mappedThrough =
    (if si_nextOffset info \<le> firstDirty then map_segments dir firstDirty infos m mappedThrough
     else bind_r (open_log_file dir (si_logFile info)) (\<lambda>content.
       bind_r (scanSegment content 0) (\<lambda>batches.
       bind_r (map_batches batches m) (\<lambda>(taken, m).
         if \<not> taken then Inr (False, m, mappedThrough)
         else map_segments dir firstDirty infos m (si_nextOffset info)))))"

text \<open>The rewriting phase. It returns the counters with the log, which keeps what was
rewritten when a later segment fails.\<close>

definition clean_segment ::
  "retain_rules \<Rightarrow> int \<Rightarrow> sealed_info \<Rightarrow> clean_result \<Rightarrow> partition_log \<Rightarrow> clean_result result \<times> partition_log" where
  "clean_segment rules nowMs info cr l =
    (case bind_r (open_log_file (log_dir l) (si_logFile info)) (\<lambda>content.
            bind_r (wouldDropAnything content rules) (\<lambda>drops.
              if \<not> drops then Inr None
              else bind_r (rewriteSegment content (si_baseOffset info) (lc_roll (lg_config l)) rules) (\<lambda>c.
                Inr (Some c)))) of
      Inl e \<Rightarrow> (Inl e, l)
    | Inr None \<Rightarrow> (Inr cr, l)
    | Inr (Some cleaned) \<Rightarrow>
        let cr = cr\<lparr>cr_recordsKept := cr_recordsKept cr + cs_recordsKept cleaned,
                    cr_recordsDropped := cr_recordsDropped cr + cs_recordsDropped cleaned\<rparr>
        in if cleaned_empty cleaned
           then let (removed, l) = removeSegment (si_baseOffset info) nowMs l in
             (Inr (if removed then cr\<lparr>cr_segmentsDeleted := cr_segmentsDeleted cr + 1\<rparr> else cr), l)
           else (case replaceSegment (si_baseOffset info) (cs_log cleaned) (cs_index cleaned) nowMs l of
             Inl e \<Rightarrow> (Inl e, l)
           | Inr (replaced, l) \<Rightarrow>
               (Inr (if replaced then cr\<lparr>cr_segmentsCleaned := cr_segmentsCleaned cr + 1\<rparr> else cr), l)))"

fun clean_segments ::
  "retain_rules \<Rightarrow> int \<Rightarrow> int \<Rightarrow> sealed_info list \<Rightarrow> clean_result \<Rightarrow> partition_log \<Rightarrow> clean_result result \<times> partition_log" where
  "clean_segments rules nowMs mappedThrough [] cr l = (Inr cr, l)"
| "clean_segments rules nowMs mappedThrough (info # infos) cr l =
    (if si_baseOffset info \<ge> mappedThrough then (Inr cr, l)
     else case clean_segment rules nowMs info cr l of
       (Inl e, l) \<Rightarrow> (Inl e, l)
     | (Inr cr, l) \<Rightarrow> clean_segments rules nowMs mappedThrough infos cr l)"

definition cleanLog ::
  "partition_log \<Rightarrow> cleaner_config \<Rightarrow> int \<Rightarrow> int \<Rightarrow> clean_result result \<times> partition_log" where
  "cleanLog l cleaner firstDirtyOffset nowMs =
    (let cr = \<lparr>cr_segmentsCleaned = 0, cr_segmentsDeleted = 0, cr_recordsKept = 0, cr_recordsDropped = 0,
               cr_keysMapped = 0, cr_mapFilled = False, cr_nextDirtyOffset = firstDirtyOffset\<rparr>;
         sealed = sealedSegments l
     in if sealed = [] then (Inr cr, l)
     else case map_segments (log_dir l) firstDirtyOffset sealed (KeyOffsetMap (cc_maxKeyMapEntries cleaner))
                 firstDirtyOffset of
       Inl e \<Rightarrow> (Inl e, l)
     | Inr (taken, m, mappedThrough) \<Rightarrow>
         let cr = cr\<lparr>cr_mapFilled := \<not> taken, cr_keysMapped := km_size m, cr_nextDirtyOffset := mappedThrough\<rparr>
         in if km_size m = 0 then (Inr cr, l)
         else clean_segments \<lparr>rl_map = Some m, rl_nowMs = nowMs,
                rl_deleteRetentionMs = cp_deleteRetentionMs (lc_compaction (lg_config l))\<rparr>
              nowMs mappedThrough sealed cr l)"

text \<open>The ratio as an exact fraction; the source divides two doubles.\<close>

definition dirtyRatio :: "partition_log \<Rightarrow> int \<Rightarrow> rat" where
  "dirtyRatio l firstDirtyOffset =
    (let sizes = \<lambda>infos. sum_list (map si_sizeBytes infos);
         tot = sizes (sealedSegments l);
         dirty = sizes (filter (\<lambda>info. si_baseOffset info \<ge> firstDirtyOffset) (sealedSegments l))
     in if tot = 0 then 0 else of_nat dirty / of_nat tot)"

subsection \<open>The records of a batch\<close>

text \<open>A record with its absolute offset and timestamp, as a consumer sees it.\<close>

record log_record =
  lr_offset :: int
  lr_timestamp :: int
  lr_key :: "byte list option"
  lr_value :: "byte list option"
  lr_headers :: "record_header list"

definition record_at :: "batch_header \<Rightarrow> record_data \<Rightarrow> log_record" where
  "record_at h r = \<lparr>lr_offset = offsetFrom r (bh_baseOffset h), lr_timestamp = timestampFrom r (bh_firstTimestamp h),
     lr_key = rec_key r, lr_value = rec_value r, lr_headers = rec_headers r\<rparr>"

definition batch_records :: "byte list \<Rightarrow> log_record list" where
  "batch_records b = (case decodeRecords b of Inl _ \<Rightarrow> [] | Inr rs \<Rightarrow> map (record_at (hdr b)) rs)"

definition keeps :: "retain_rules \<Rightarrow> log_record \<Rightarrow> bool" where
  "keeps rules r \<longleftrightarrow> (case lr_key r of None \<Rightarrow> True
     | Some key \<Rightarrow> (\<forall>m \<in> set_option (rl_map rules). isLatest key (lr_offset r) m) \<and>
         (lr_value r = None \<longrightarrow> rl_nowMs rules - lr_timestamp r < rl_deleteRetentionMs rules))"

lemma retain_keeps:
  "retain r (offsetFrom r (bh_baseOffset h)) (timestampFrom r (bh_firstTimestamp h)) rules \<longleftrightarrow>
    keeps rules (record_at h r)"
  by (auto simp: retain_def keeps_def record_at_def isTombstone_def split: option.splits)

text \<open>
  \<open>rewritable b\<close>: the batch passes its checksum, decodes, has its records inside its
  offset range, and every selection of its records fits into a batch of its own.
\<close>

definition entry_from :: "int \<Rightarrow> log_record \<Rightarrow> entry" where
  "entry_from base r = \<lparr>en_delta = lr_offset r - base, en_timestamp = lr_timestamp r, en_key = lr_key r,
     en_value = lr_value r, en_headers = lr_headers r\<rparr>"

definition entries_from :: "log_record list \<Rightarrow> entry list" where
  "entries_from rs = map (entry_from (lr_offset (hd rs))) rs"

definition rewritable :: "byte list \<Rightarrow> bool" where
  "rewritable b \<longleftrightarrow> valid_batch b \<and> (\<exists>rs. decodeRecords b = Inr rs) \<and>
     0 \<le> bh_baseOffset (hdr b) \<and> lastOffset (hdr b) < 2 ^ 63 \<and>
     (\<forall>r \<in> set (batch_records b). bh_baseOffset (hdr b) \<le> lr_offset r \<and> lr_offset r \<le> lastOffset (hdr b)) \<and>
     (\<forall>ks \<in> set (subseqs (batch_records b)). ks \<noteq> [] \<longrightarrow> entries_ok (entries_from ks))"

lemma entries_from_snoc:
  "ks \<noteq> [] \<Longrightarrow> entries_from (ks @ [r]) = entries_from ks @ [entry_from (lr_offset (hd ks)) r]"
  by (simp add: entries_from_def)

lemma entries_ok_prefix:
  assumes "entries_ok (es @ es')"
  shows "entries_ok es"
proof (cases "es = []")
  case True
  then show ?thesis using assms by (auto simp: entries_ok_def records_of_def)
next
  case False
  then have "records_of (es @ es') = records_of es @ map (record_of (en_timestamp (hd es))) es'"
    by (simp add: records_of_def)
  then show ?thesis using assms by (auto simp: entries_ok_def sorted_wrt_append)
qed

lemma appendAt_entries:
  assumes "entries_ok (es @ [e])"
  shows "appendAt (en_delta e) (en_timestamp e) (en_key e) (en_value e) (en_headers e) (builder_of 0 es)
    = Inr (builder_of 0 (es @ [e]))"
  using append_all_builder_of [of es "[e]" 0] assms
  by (cases "appendAt (en_delta e) (en_timestamp e) (en_key e) (en_value e) (en_headers e) (builder_of 0 es)")
    (simp_all add: entries_ok_def)

lemma entries_ok_delta:
  assumes "entries_ok es" "e \<in> set es"
  shows "to_i32 (en_delta e) = en_delta e"
  using assms by (auto simp: entries_ok_def list_all_iff records_of_def record_ok_def record_of_def)

definition rewrite_state :: "log_record list \<Rightarrow> nat \<Rightarrow> batch_rewrite" where
  "rewrite_state ks dropped = \<lparr>bw_builder = builder_of 0 (entries_from ks),
     bw_newBase = (if ks = [] then None else Some (lr_offset (hd ks))), bw_kept = length ks, bw_dropped = dropped\<rparr>"

lemma rewrite_records_keeps:
  assumes "ks @ filter (keeps rules) (map (record_at h) rs) \<noteq> [] \<Longrightarrow>
      entries_ok (entries_from (ks @ filter (keeps rules) (map (record_at h) rs)))"
  shows "rewrite_records rules h rs (rewrite_state ks d) =
    Inr (rewrite_state (ks @ filter (keeps rules) (map (record_at h) rs))
           (d + length (filter (\<lambda>r. \<not> keeps rules r) (map (record_at h) rs))))"
  using assms
proof (induction rs arbitrary: ks d)
  case (Cons r rs)
  let ?r = "record_at h r"
  show ?case
  proof (cases "keeps rules ?r")
    case False
    then have "rewrite_records rules h (r # rs) (rewrite_state ks d) = rewrite_records rules h rs (rewrite_state ks (d + 1))"
      by (simp add: retain_keeps rewrite_state_def)
    with Cons False show ?thesis by simp
  next
    case True
    let ?e = "entry_from (lr_offset (hd (ks @ [?r]))) ?r"
    have all: "entries_ok (entries_from (ks @ [?r] @ filter (keeps rules) (map (record_at h) rs)))"
      using Cons.prems True by simp
    have split: "entries_from (ks @ [?r]) = entries_from ks @ [?e]"
      by (cases ks) (simp_all add: entries_from_def)
    have "entries_from (ks @ [?r] @ xs) = entries_from (ks @ [?r]) @ map (entry_from (lr_offset (hd (ks @ [?r])))) xs" for xs
      by (cases ks) (simp_all add: entries_from_def)
    with all have ok: "entries_ok (entries_from ks @ [?e])" using entries_ok_prefix split by metis
    have app: "appendAt (to_i32 (lr_offset ?r - lr_offset (hd (ks @ [?r])))) (lr_timestamp ?r) (rec_key r) (rec_value r)
        (rec_headers r) (builder_of 0 (entries_from ks)) = Inr (builder_of 0 (entries_from (ks @ [?r])))"
      using appendAt_entries [OF ok] entries_ok_delta [OF ok, of ?e] split
      by (simp add: entry_from_def record_at_def)
    have "rewrite_records rules h (r # rs) (rewrite_state ks d) = rewrite_records rules h rs (rewrite_state (ks @ [?r]) d)"
      using True app by (cases "ks = []") (simp_all add: retain_keeps rewrite_state_def record_at_def Let_def)
    with Cons.IH [of "ks @ [?r]" d] Cons.prems True show ?thesis by simp
  qed
qed simp

text \<open>The bytes a record takes at most, whatever deltas it is given.\<close>

definition record_room :: "log_record \<Rightarrow> nat" where
  "record_room r = 21 + length (nullable_repr (lr_key r)) + length (nullable_repr (lr_value r)) +
     length (varint_bytes (int (length (lr_headers r)))) + length (concat (map rheader_repr (lr_headers r)))"

lemma record_repr_room: "length (record_repr (record_of first (entry_from base r))) \<le> record_room r"
proof -
  let ?r = "record_of first (entry_from base r)"
  have "length (record_body ?r) + 5 \<le> record_room r"
    using length_varlong_bytes [of "rec_timestampDelta ?r"] length_varint_bytes [of "rec_offsetDelta ?r"]
    by (simp add: record_body_def record_room_def record_of_def entry_from_def)
  then show ?thesis
    using length_varint_bytes [of "int (length (record_body ?r))"] by (simp add: record_repr_def)
qed

lemma length_records_room:
  "length (concat (map record_repr (records_of (entries_from ks)))) \<le> sum_list (map record_room ks)"
proof -
  have "length (concat (map (\<lambda>r. record_repr (record_of first (entry_from base r))) ks)) \<le> sum_list (map record_room ks)"
    for first base
    by (induction ks) (use record_repr_room [of first base] in \<open>auto intro: add_mono\<close>)
  then show ?thesis by (simp add: records_of_def entries_from_def comp_def)
qed

definition batch_room :: "byte list \<Rightarrow> nat" where
  "batch_room b = 61 + sum_list (map record_room (batch_records b))"

lemma sum_list_filter_le: "sum_list (map f (filter P xs)) \<le> (sum_list (map f xs) :: nat)"
  by (induction xs) auto

lemma stamped_decode:
  assumes "batch_wf b" "in_i64 base" "stampBaseOffset b base = Inr s"
  shows "decodeRecords s = decodeRecords b"
proof -
  obtain s' where s': "stampBaseOffset b base = Inr s'" "batch_wf s'" "length s' = length b"
      "hdr s' = (hdr b)\<lparr>bh_baseOffset := base\<rparr>" "drop 8 s' = drop 8 b"
    using stamped_batch_wf [OF assms(1,2)] by blast
  have "drop 61 s = drop 53 (drop 8 s)" by simp
  also have "\<dots> = drop 61 b" using s'(1,5) assms(3) by simp
  finally have d: "drop 61 s = drop 61 b" .
  show ?thesis
    using s' assms(1,3) d by (simp add: decodeRecords_alt batch_wf_def compression_def)
qed

lemma rewritten_batch:
  assumes "ks \<noteq> []" "entries_ok (entries_from ks)" "0 \<le> lr_offset (hd ks)" "lr_offset (last ks) < 2 ^ 63"
  shows "\<exists>bytes s. build (builder_of 0 (entries_from ks)) = Inr bytes \<and>
    stampBaseOffset bytes (lr_offset (hd ks)) = Inr s \<and> valid_batch s \<and> batch_records s = ks \<and>
    (\<exists>rs. decodeRecords s = Inr rs) \<and> length s \<le> 61 + sum_list (map record_room ks) \<and>
    bh_baseOffset (hdr s) = lr_offset (hd ks) \<and> lastOffset (hdr s) = lr_offset (last ks)"
proof -
  let ?es = "entries_from ks"
  have ne: "?es \<noteq> []" and last: "last_delta ?es = lr_offset (last ks) - lr_offset (hd ks)"
    using assms(1) by (simp_all add: entries_from_def last_delta_def last_map entry_from_def)
  obtain bytes h where b: "build (builder_of 0 ?es) = Inr bytes" "parseHeader bytes = Inr h"
      "totalSizeOf bytes = Inr (length bytes)" "verifyCrc bytes = Inr True" "decodeRecords bytes = Inr (records_of ?es)"
      "bh_lastOffsetDelta h = last_delta ?es" "bh_firstTimestamp h = en_timestamp (hd ?es)"
      "length bytes = 61 + length (concat (map record_repr (records_of ?es)))"
    using entries_build [OF ne assms(2)] by (auto simp: lastOffset_def)
  have hdr: "hdr bytes = h" using parseHeader_InrD(2) [OF b(2)] by simp
  have "- 1 < last_delta ?es"
    using assms(2) ne by (auto simp: entries_ok_def last_delta_def)
  then have wf: "batch_wf bytes" "lr_offset (hd ks) \<le> lr_offset (last ks)"
    using b hdr last by (simp_all add: batch_wf_def)
  have base: "in_i64 (lr_offset (hd ks))" using assms(3,4) wf(2) by (simp add: range_simps)
  obtain s where s: "stampBaseOffset bytes (lr_offset (hd ks)) = Inr s" "batch_wf s"
      "hdr s = h\<lparr>bh_baseOffset := lr_offset (hd ks)\<rparr>" "verifyCrc s = Inr True" "length s = length bytes"
    using stamped_batch_wf [OF wf(1) base] b(4) hdr by auto
  have dec: "decodeRecords s = Inr (records_of ?es)"
    using stamped_decode [OF wf(1) base s(1)] b(5) by simp
  have "record_at (hdr s) (record_of (en_timestamp (hd ?es)) (entry_from (lr_offset (hd ks)) r)) = r" for r
    using s(3) b(7) by (simp add: record_at_def record_of_def entry_from_def offsetFrom_def timestampFrom_def)
  then have "batch_records s = ks"
    using dec by (simp add: batch_records_def records_of_def entries_from_def comp_def)
  with b(1) s dec last b(6,8) length_records_room [of ks] show ?thesis
    by (intro exI [of _ bytes] exI [of _ s]) (simp add: valid_batch_def lastOffset_def)
qed

text \<open>What a rewrite makes of a batch: nothing, when no record is kept.\<close>

definition rewrites_to :: "retain_rules \<Rightarrow> byte list \<Rightarrow> byte list list \<Rightarrow> bool" where
  "rewrites_to rules b out \<longleftrightarrow> (let ks = filter (keeps rules) (batch_records b) in
     if ks = [] then out = []
     else \<exists>s. out = [s] \<and> rewritable s \<and> batch_records s = ks \<and>
       length s \<le> batch_room b \<and>
       bh_baseOffset (hdr s) = lr_offset (hd ks) \<and> lastOffset (hdr s) = lr_offset (last ks))"

lemma rewritable_selection:
  assumes "rewritable b" "ks = filter P (batch_records b)" "ks \<noteq> []"
  shows "entries_ok (entries_from ks)" "0 \<le> lr_offset (hd ks)" "lr_offset (last ks) < 2 ^ 63"
    "bh_baseOffset (hdr b) \<le> lr_offset (hd ks)" "lr_offset (last ks) \<le> lastOffset (hdr b)"
    "\<forall>js \<in> set (subseqs ks). js \<noteq> [] \<longrightarrow> entries_ok (entries_from js)"
    "\<forall>r \<in> set ks. lr_offset (hd ks) \<le> lr_offset r \<and> lr_offset r \<le> lr_offset (last ks)"
proof -
  have sub: "subseq ks (batch_records b)" using assms(2) by simp
  then have all: "\<forall>js. subseq js ks \<longrightarrow> js \<noteq> [] \<longrightarrow> entries_ok (entries_from js)"
    using assms(1) subseq_order.trans by (auto simp: rewritable_def)
  then show ok: "entries_ok (entries_from ks)" using assms(3) by simp
  show "\<forall>js \<in> set (subseqs ks). js \<noteq> [] \<longrightarrow> entries_ok (entries_from js)" using all by auto
  have mem: "hd ks \<in> set (batch_records b)" "last ks \<in> set (batch_records b)"
    using assms(2,3) hd_in_set [of ks] last_in_set [of ks] by auto
  then show "bh_baseOffset (hdr b) \<le> lr_offset (hd ks)" "lr_offset (last ks) \<le> lastOffset (hdr b)"
    using assms(1) by (auto simp: rewritable_def)
  with assms(1) show "0 \<le> lr_offset (hd ks)" "lr_offset (last ks) < 2 ^ 63"
    by (auto simp: rewritable_def)
  have "sorted_wrt (<) (map lr_offset ks)"
    using ok by (simp add: entries_ok_def entries_from_def entry_from_def comp_def sorted_wrt_map)
  then have "sorted (map lr_offset ks)" by (simp add: strict_sorted_iff)
  then have "\<forall>r \<in> set ks. lr_offset (hd ks) \<le> lr_offset r" "\<forall>r \<in> set ks. lr_offset r \<le> lr_offset (last ks)"
    by (cases ks, simp_all) (cases ks rule: rev_cases, auto simp: sorted_append)
  then show "\<forall>r \<in> set ks. lr_offset (hd ks) \<le> lr_offset r \<and> lr_offset r \<le> lr_offset (last ks)" by blast
qed

lemma rewrites_to_rewritable:
  assumes "rewritable b" "ks = filter (keeps rules) (batch_records b)" "ks \<noteq> []"
  shows "\<exists>bytes s. build (builder_of 0 (entries_from ks)) = Inr bytes \<and>
    stampBaseOffset bytes (lr_offset (hd ks)) = Inr s \<and> rewrites_to rules b [s]"
proof -
  note k = rewritable_selection [OF assms]
  obtain bytes s where s: "build (builder_of 0 (entries_from ks)) = Inr bytes"
      "stampBaseOffset bytes (lr_offset (hd ks)) = Inr s" "valid_batch s" "batch_records s = ks"
      "\<exists>rs. decodeRecords s = Inr rs" "length s \<le> 61 + sum_list (map record_room ks)" "bh_baseOffset (hdr s) = lr_offset (hd ks)" "lastOffset (hdr s) = lr_offset (last ks)"
    using rewritten_batch [OF assms(3) k(1-3)] by blast
  have "length s \<le> batch_room b"
    using s(6) sum_list_filter_le [of record_room "keeps rules" "batch_records b"] assms(2) by (simp add: batch_room_def)
  moreover have "rewritable s"
    unfolding rewritable_def using s k by simp
  ultimately show ?thesis
    using s assms(2,3) by (intro exI [of _ bytes] exI [of _ s]) (simp add: rewrites_to_def Let_def)
qed

subsection \<open>Rewriting the batches of a segment\<close>

lemma rewrite_index_step:
  fixes roll :: roll_policy
  assumes "indexed outs base idx" "oi_writable idx" "pos = length (concat outs)" "int pos \<le> UINT32_MAX"
    and "ascending base outs" "end_offset base outs \<le> nb" "nb - base \<le> UINT32_MAX" "nb = bh_baseOffset (hdr b)"
  shows "\<exists>idx' since'. (if pos > 0 \<and> since \<ge> rp_indexIntervalBytes roll
      then bind_r (index_append nb (of_nat pos) idx) (\<lambda>i. Inr (i, 0)) else Inr (idx, since)) = Inr (idx', since') \<and>
    indexed (outs @ [b]) base idx' \<and> oi_writable idx'"
proof -
  let ?seg = "\<lparr>sg_log = [], sg_index = idx, sg_baseOffset = base, sg_nextOffset = base, sg_largestTimestamp = 0,
    sg_policy = roll, sg_bytesSinceIndexEntry = since, sg_firstAppendMs = 0\<rparr>"
  have "maybeAddIndexEntry nb pos ?seg \<noteq> Inl e" for e
    using maybeAddIndexEntry_error_iff [of outs ?seg pos nb e] assms by (simp add: index_overflow_def)
  then obtain seg' where seg': "maybeAddIndexEntry nb pos ?seg = Inr seg'"
    by (cases "maybeAddIndexEntry nb pos ?seg") auto
  have "indexed (outs @ [b]) base (sg_index seg') \<and> oi_writable (sg_index seg')"
    using maybeAddIndexEntry_Inr [OF seg', of outs base b] assms(1-3,8) by simp
  moreover have "(if pos > 0 \<and> since \<ge> rp_indexIntervalBytes roll
      then bind_r (index_append nb (of_nat pos) idx) (\<lambda>i. Inr (i, 0)) else Inr (idx, since))
      = Inr (sg_index seg', sg_bytesSinceIndexEntry seg')"
    using seg' assms(4) by (auto simp: maybeAddIndexEntry_def bind_r_Inr_iff split: if_splits)
  ultimately show ?thesis by blast
qed

definition sw_ok :: "byte list list \<Rightarrow> int \<Rightarrow> segment_rewrite \<Rightarrow> bool" where
  "sw_ok outs base st \<longleftrightarrow> sw_out st = concat outs \<and> indexed outs base (sw_index st) \<and> oi_writable (sw_index st) \<and>
     ascending base outs"

lemma rewrite_batch_ok:
  assumes "rewritable b" "sw_ok outs base st" "end_offset base outs \<le> bh_baseOffset (hdr b)"
    and "int (length (concat outs)) \<le> UINT32_MAX" "lastOffset (hdr b) - base \<le> UINT32_MAX"
  shows "\<exists>out st'. rewrite_batch rules roll \<lparr>sb_header = hdr b, sb_bytes = b, sb_position = pos\<rparr> st = Inr st' \<and>
    rewrites_to rules b out \<and> sw_ok (outs @ out) base st' \<and>
    end_offset base (outs @ out) \<le> lastOffset (hdr b) + 1 \<and>
    sw_kept st' = sw_kept st + length (filter (keeps rules) (batch_records b)) \<and>
    sw_dropped st' = sw_dropped st + length (filter (\<lambda>r. \<not> keeps rules r) (batch_records b))"
proof -
  define ks where "ks = filter (keeps rules) (batch_records b)"
  obtain rs where rs: "decodeRecords b = Inr rs" using assms(1) by (auto simp: rewritable_def)
  have recs: "batch_records b = map (record_at (hdr b)) rs" using rs by (simp add: batch_records_def)
  have wf: "batch_wf b" using assms(1) by (simp add: rewritable_def valid_batch_def)
  let ?dropped = "length (filter (\<lambda>r. \<not> keeps rules r) (batch_records b))"
  have "rewrite_records rules (hdr b) rs (rewrite_state [] 0) = Inr (rewrite_state ks ?dropped)"
    using rewrite_records_keeps [of "[]" rules "hdr b" rs 0] rewritable_selection(1) [OF assms(1), of ks "keeps rules"]
    by (simp add: ks_def recs)
  then have rw: "rewrite_records rules (hdr b) rs \<lparr>bw_builder = RecordBatchBuilder 0, bw_newBase = None,
      bw_kept = 0, bw_dropped = 0\<rparr> = Inr (rewrite_state ks ?dropped)"
    by (simp add: rewrite_state_def builder_of_Nil entries_from_def)
  let ?st = "st\<lparr>sw_kept := sw_kept st + length ks, sw_dropped := sw_dropped st + ?dropped\<rparr>"
  show ?thesis
  proof (cases "ks = []")
    case True
    then have "rewrite_batch rules roll \<lparr>sb_header = hdr b, sb_bytes = b, sb_position = pos\<rparr> st = Inr ?st"
      using rs rw by (simp add: rewrite_batch_def rewrite_state_def)
    moreover have "end_offset base outs \<le> lastOffset (hdr b) + 1" using assms(3) batch_wf_lastOffset [OF wf] by simp
    moreover have "rewrites_to rules b []" using True by (simp add: rewrites_to_def flip: ks_def)
    ultimately show ?thesis
      using True assms(2) unfolding ks_def [symmetric]
      by (intro exI [of _ "[]"] exI [of _ ?st]) (simp add: sw_ok_def)
  next
    case False
    note k = rewritable_selection [OF assms(1) ks_def False]
    obtain bytes s where s: "build (builder_of 0 (entries_from ks)) = Inr bytes"
        "stampBaseOffset bytes (lr_offset (hd ks)) = Inr s" "rewrites_to rules b [s]"
      using rewrites_to_rewritable [OF assms(1) ks_def False] by blast
    then have h: "bh_baseOffset (hdr s) = lr_offset (hd ks)" "lastOffset (hdr s) = lr_offset (last ks)" "batch_wf s"
      using False by (simp_all add: rewrites_to_def rewritable_def valid_batch_def flip: ks_def)
    let ?nb = "lr_offset (hd ks)" and ?pos = "length (sw_out st)"
    have le: "end_offset base outs \<le> ?nb" "?nb - base \<le> UINT32_MAX"
      using assms(3,5) k(4,5) batch_wf_lastOffset [OF h(3)] h by simp_all
    have sw: "sw_out st = concat outs" "indexed outs base (sw_index st)" "oi_writable (sw_index st)" "ascending base outs"
      using assms(2) by (simp_all add: sw_ok_def)
    obtain idx since where idx: "(if ?pos > 0 \<and> sw_sinceLastIndex st \<ge> rp_indexIntervalBytes roll
        then bind_r (index_append ?nb (of_nat ?pos) (sw_index st)) (\<lambda>i. Inr (i, 0))
        else Inr (sw_index st, sw_sinceLastIndex st)) = Inr (idx, since)"
        "indexed (outs @ [s]) base idx" "oi_writable idx"
      using rewrite_index_step [where pos = ?pos and since = "sw_sinceLastIndex st" and roll = roll,
          OF sw(2,3) _ _ sw(4) le h(1) [symmetric]] sw(1) assms(4)
      by auto
    let ?st' = "?st\<lparr>sw_out := sw_out st @ s, sw_index := idx, sw_sinceLastIndex := since + length s\<rparr>"
    have "rewrite_batch rules roll \<lparr>sb_header = hdr b, sb_bytes = b, sb_position = pos\<rparr> st = Inr ?st'"
      using rs rw s(1,2) idx(1) False by (simp add: rewrite_batch_def rewrite_state_def Let_def cong: if_cong)
    moreover have "sw_ok (outs @ [s]) base ?st'"
      using sw idx h le by (simp add: sw_ok_def)
    moreover have "end_offset base (outs @ [s]) \<le> lastOffset (hdr b) + 1" using h k(5) by simp
    ultimately show ?thesis
      using s(3) unfolding ks_def [symmetric] by (intro exI [of _ "[s]"] exI [of _ ?st']) simp
  qed
qed

subsection \<open>Scanning what appending wrote\<close>

fun scanned :: "nat \<Rightarrow> byte list list \<Rightarrow> scanned_batch list" where
  "scanned p [] = []"
| "scanned p (b # bs) = \<lparr>sb_header = hdr b, sb_bytes = b, sb_position = p\<rparr> # scanned (p + length b) bs"

definition scan_stops :: "byte list \<Rightarrow> bool" where
  "scan_stops tail \<longleftrightarrow> scanSegment tail 0 = Inr []"

lemma scan_stops_Nil [simp]: "scan_stops []"
  by (simp add: scan_stops_def scanSegment.simps batch_consts)

lemma scanSegment_stop:
  assumes "scan_stops tail"
  shows "scanSegment (pre @ tail) (length pre) = Inr []"
proof -
  have stop: "scanSegment tail 0 = Inr []" using assms by (simp add: scan_stops_def)
  note one_step = scanSegment.simps [of tail 0] scanSegment.simps [of "pre @ tail" "length pre"]
  show ?thesis
  proof (cases "length tail < 61")
    case False
    note long = this
    show ?thesis
    proof (cases "totalSizeOf (take 61 tail)")
      case (Inr tot)
      then show ?thesis
        using stop long unfolding one_step
        by (cases "parseHeader (take tot tail)"; cases "verifyCrc (take tot tail)")
          (auto simp: batch_consts bind_r_Inr_iff Let_def split: if_splits)
    qed (use stop long in \<open>simp add: one_step batch_consts split: if_splits\<close>)
  qed (simp add: one_step batch_consts)
qed

lemma scanSegment_batch:
  assumes "valid_batch b"
  shows "scanSegment (pre @ b @ post) (length pre) =
    bind_r (scanSegment (pre @ b @ post) (length pre + length b)) (\<lambda>others.
      Inr (\<lparr>sb_header = hdr b, sb_bytes = b, sb_position = length pre\<rparr> # others))"
proof -
  have wf: "batch_wf b" "verifyCrc b = Inr True" using assms by (simp_all add: valid_batch_def)
  note len = batch_wf_length [OF wf(1)]
  have "totalSizeOf (take 61 b) = Inr (length b)" using wf(1) by (simp add: batch_wf_def totalSizeOf_take)
  then show ?thesis
    using wf len by (subst scanSegment.simps) (simp add: batch_consts batch_wf_def)
qed

lemma scanSegment_batches:
  assumes "list_all valid_batch bs" "scan_stops tail"
  shows "scanSegment (pre @ concat bs @ tail) (length pre) = Inr (scanned (length pre) bs)"
  using assms(1)
proof (induction bs arbitrary: pre)
  case Nil
  then show ?case using scanSegment_stop [OF assms(2), of pre] by simp
next
  case (Cons b bs)
  then show ?case
    using scanSegment_batch [of b pre "concat bs @ tail"] Cons.IH [of "pre @ b"] by simp
qed

lemma scanSegment_concat:
  "list_all valid_batch bs \<Longrightarrow> scan_stops tail \<Longrightarrow> scanSegment (concat bs @ tail) 0 = Inr (scanned 0 bs)"
  using scanSegment_batches [of bs tail "[]"] by simp

lemma rewritable_valid: "list_all rewritable bs \<Longrightarrow> list_all valid_batch bs"
  by (simp add: list_all_iff rewritable_def)

abbreviation records_in :: "byte list list \<Rightarrow> log_record list" where
  "records_in bs \<equiv> concat (map batch_records bs)"

lemma rewrites_to_records:
  assumes "rewrites_to rules b out"
  shows "records_in out = filter (keeps rules) (batch_records b)" "list_all rewritable out"
  using assms by (auto simp: rewrites_to_def Let_def split: if_splits)

lemma rewrite_batches_ok:
  assumes "list_all rewritable bs" "ascending (end_offset base xs) bs" "sw_ok outs base st"
    and "end_offset base outs \<le> end_offset base xs"
    and "end_offset base (xs @ bs) - base \<le> UINT32_MAX" "int (length (concat outs)) \<le> UINT32_MAX"
    and "int (length (concat outs) + sum_list (map batch_room bs)) \<le> UINT32_MAX"
  shows "\<exists>more st'. rewrite_batches rules roll (scanned p bs) st = Inr st' \<and> sw_ok (outs @ more) base st' \<and>
    list_all rewritable more \<and> records_in more = filter (keeps rules) (records_in bs) \<and> length more \<le> length bs \<and>
    end_offset base (outs @ more) \<le> end_offset base (xs @ bs) \<and>
    sw_kept st' = sw_kept st + length (filter (keeps rules) (records_in bs)) \<and>
    sw_dropped st' = sw_dropped st + length (filter (\<lambda>r. \<not> keeps rules r) (records_in bs))"
  using assms
proof (induction bs arbitrary: xs outs st p)
  case Nil
  then show ?case by (intro exI [of _ "[]"] exI [of _ st]) simp
next
  case (Cons b bs)
  have b: "rewritable b" "end_offset base outs \<le> bh_baseOffset (hdr b)" "batch_wf b"
    using Cons.prems(1,2,4) by simp_all
  have last: "lastOffset (hdr b) + 1 \<le> end_offset base ((xs @ [b]) @ bs)"
    using ascending_le_end [of "lastOffset (hdr b) + 1" bs] Cons.prems(2) by simp
  then have "lastOffset (hdr b) - base \<le> UINT32_MAX" using Cons.prems(5) by simp
  then obtain out st1 where r: "rewrite_batch rules roll \<lparr>sb_header = hdr b, sb_bytes = b, sb_position = p\<rparr> st = Inr st1"
      "rewrites_to rules b out" "sw_ok (outs @ out) base st1" "end_offset base (outs @ out) \<le> lastOffset (hdr b) + 1"
      "sw_kept st1 = sw_kept st + length (filter (keeps rules) (batch_records b))"
      "sw_dropped st1 = sw_dropped st + length (filter (\<lambda>r. \<not> keeps rules r) (batch_records b))"
    using rewrite_batch_ok [OF b(1) Cons.prems(3) b(2) Cons.prems(6), of rules roll p] by blast
  have "length (concat out) \<le> batch_room b"
    using r(2) by (auto simp: rewrites_to_def Let_def split: if_splits)
  then have size: "int (length (concat (outs @ out)) + sum_list (map batch_room bs)) \<le> UINT32_MAX"
    using Cons.prems(7) by simp
  then have "int (length (concat (outs @ out))) \<le> UINT32_MAX" by linarith
  then obtain more st2 where m: "rewrite_batches rules roll (scanned (p + length b) bs) st1 = Inr st2"
      "sw_ok ((outs @ out) @ more) base st2" "list_all rewritable more"
      "records_in more = filter (keeps rules) (records_in bs)" "length more \<le> length bs"
      "end_offset base ((outs @ out) @ more) \<le> end_offset base ((xs @ [b]) @ bs)"
      "sw_kept st2 = sw_kept st1 + length (filter (keeps rules) (records_in bs))"
      "sw_dropped st2 = sw_dropped st1 + length (filter (\<lambda>r. \<not> keeps rules r) (records_in bs))"
    using Cons.IH [of "xs @ [b]" "outs @ out" st1 "p + length b"] Cons.prems r size by auto
  moreover have "length out \<le> 1" using r(2) by (auto simp: rewrites_to_def Let_def split: if_splits)
  ultimately show ?case
    using r rewrites_to_records [OF r(2)]
    by (intro exI [of _ "out @ more"] exI [of _ st2]) simp
qed

lemma rewriteSegment_ok:
  assumes "list_all rewritable bs" "ascending base bs" "scan_stops tail" "8 \<le> rp_maxIndexBytes roll"
    and "end_offset base bs - base \<le> UINT32_MAX" "int (sum_list (map batch_room bs)) \<le> UINT32_MAX"
  shows "\<exists>outs c. rewriteSegment (concat bs @ tail) base roll rules = Inr c \<and> cs_log c = concat outs \<and>
    list_all rewritable outs \<and> records_in outs = filter (keeps rules) (records_in bs) \<and> length outs \<le> length bs \<and>
    ascending base outs \<and> end_offset base outs \<le> end_offset base bs \<and>
    indexed outs base (index_openSealed (cs_index c) base) \<and>
    cs_recordsKept c = length (filter (keeps rules) (records_in bs)) \<and>
    cs_recordsDropped c = length (filter (\<lambda>r. \<not> keeps rules r) (records_in bs))"
proof -
  have "0 < rp_maxIndexBytes roll div 8" using assms(4) by (simp add: div_greater_zero_iff)
  then obtain idx where idx: "index_create base (rp_maxIndexBytes roll) = Inr idx"
    by (fastforce simp: index_create_def kEntrySize_def Let_def)
  let ?st = "\<lparr>sw_out = [], sw_index = idx, sw_sinceLastIndex = 0, sw_kept = 0, sw_dropped = 0\<rparr>"
  have "sw_ok [] base ?st"
    using index_create_ok [OF idx] by (simp add: sw_ok_def indexed_def hints_sound_def index_hints_def)
  then obtain outs st where st: "rewrite_batches rules roll (scanned 0 bs) ?st = Inr st" "sw_ok outs base st"
      "list_all rewritable outs" "records_in outs = filter (keeps rules) (records_in bs)" "length outs \<le> length bs"
      "end_offset base outs \<le> end_offset base bs"
      "sw_kept st = length (filter (keeps rules) (records_in bs))"
      "sw_dropped st = length (filter (\<lambda>r. \<not> keeps rules r) (records_in bs))"
    using rewrite_batches_ok [where xs = "[]" and outs = "[]" and st = ?st and roll = roll and p = 0
        and rules = rules and base = base and bs = bs] assms by (auto simp: UINT32_MAX_def)
  have sw: "index_ok (sw_index st)" "oi_baseOffset (sw_index st) = base" "oi_writable (sw_index st)"
      "hints_sound outs (index_hints (sw_index st))"
    using st(2) by (simp_all add: sw_ok_def indexed_def)
  let ?f = "concat (map entry_bytes (index_entries (sw_index st))) @ replicate 0 (0 :: byte)"
  note reopened = index_openSealed_entries [OF sw(1) refl, where n = 0 and b = base]
  have "indexed outs base (index_openSealed ?f base)"
    using reopened sw(2,4) by (simp add: indexed_def index_hints_def)
  moreover have "rewriteSegment (concat bs @ tail) base roll rules = Inr \<lparr>cs_log = sw_out st, cs_index = ?f,
      cs_recordsKept = sw_kept st, cs_recordsDropped = sw_dropped st\<rparr>"
    using idx st(1) scanSegment_concat [OF rewritable_valid [OF assms(1)] assms(3)]
      index_flushAndTrim_entries [OF sw(1,3)]
    by (simp add: rewriteSegment_def)
  ultimately show ?thesis using st by (intro exI [of _ outs]) (simp add: sw_ok_def)
qed

lemma drops_any_scanned:
  "list_all rewritable bs \<Longrightarrow>
    drops_any rules (scanned p bs) = Inr (\<exists>r \<in> set (records_in bs). \<not> keeps rules r)"
proof (induction bs arbitrary: p)
  case (Cons b bs)
  then obtain rs where rs: "decodeRecords b = Inr rs" by (auto simp: rewritable_def)
  then have "(\<exists>r \<in> set rs. \<not> retain r (offsetFrom r (bh_baseOffset (hdr b))) (timestampFrom r (bh_firstTimestamp (hdr b))) rules)
      \<longleftrightarrow> (\<exists>r \<in> set (batch_records b). \<not> keeps rules r)"
    by (simp add: retain_keeps batch_records_def)
  with rs Cons show ?case by (auto simp: bex_Un)
qed simp

lemma wouldDropAnything_ok:
  assumes "list_all rewritable bs" "scan_stops tail"
  shows "wouldDropAnything (concat bs @ tail) rules = Inr (\<exists>r \<in> set (records_in bs). \<not> keeps rules r)"
  using assms
  by (simp add: wouldDropAnything_def scanSegment_concat rewritable_valid drops_any_scanned)

subsection \<open>The mapping phase\<close>

definition keyed :: "log_record list \<Rightarrow> (byte list \<times> int) list" where
  "keyed rs = concat (map (\<lambda>r. case lr_key r of None \<Rightarrow> [] | Some key \<Rightarrow> [(key, lr_offset r)]) rs)"

lemma keyed_simps [simp]:
  "keyed [] = []"
  "keyed (r # rs) = (case lr_key r of None \<Rightarrow> [] | Some key \<Rightarrow> [(key, lr_offset r)]) @ keyed rs"
  "keyed (rs @ rs') = keyed rs @ keyed rs'"
  by (simp_all add: keyed_def)

lemma keyed_mem: "(key, off) \<in> set (keyed rs) \<longleftrightarrow> (\<exists>r \<in> set rs. lr_key r = Some key \<and> lr_offset r = off)"
  by (force simp: keyed_def split: option.splits)

lemma put_all_append:
  "put_all ins (xs @ ys) m = (let (ok, m') = put_all ins xs m in if ok then put_all ins ys m' else (False, m'))"
  by (induction ins xs m rule: put_all.induct) (auto split: prod.splits)

lemma map_records_put_all:
  "map_records (bh_baseOffset h) rs m = put_all put (keyed (map (record_at h) rs)) m"
  by (induction rs arbitrary: m) (auto simp: record_at_def split: option.split prod.split)

lemma map_batches_put_all:
  "list_all rewritable bs \<Longrightarrow> map_batches (scanned p bs) m = Inr (put_all put (keyed (records_in bs)) m)"
proof (induction bs arbitrary: p m)
  case (Cons b bs)
  then obtain rs where rs: "decodeRecords b = Inr rs" by (auto simp: rewritable_def)
  then have "map_records (bh_baseOffset (hdr b)) rs m = put_all put (keyed (batch_records b)) m"
    by (simp add: map_records_put_all batch_records_def)
  with rs Cons show ?case
    by (simp add: put_all_append Let_def split: prod.split)
qed simp

text \<open>What a run of puts does to the offset mapped for a key.\<close>

lemma put_all_grows:
  assumes "put_all put xs m = (ok, m')" "get_offset key m = Some off"
  shows "\<exists>off' \<ge> off. get_offset key m' = Some off'"
proof -
  obtain n where "\<forall>j. get_offset j m' = newest (\<lambda>k. digestOf j = digestOf k) (take n xs) (get_offset j m)"
    using key_map.put_all_get [OF assms(1)] by blast
  then have n: "get_offset key m' = newest (\<lambda>k. digestOf key = digestOf k) (take n xs) (Some off)"
    using assms(2) by simp
  then obtain off' where "newest (\<lambda>k. digestOf key = digestOf k) (take n xs) (Some off) = Some off'"
    by (cases "newest (\<lambda>k. digestOf key = digestOf k) (take n xs) (Some off)") (auto simp: newest_None_iff)
  with n newest_upper [OF this] show ?thesis by auto
qed

lemma put_all_maps:
  assumes "put_all put xs m = (True, m')" "(key, off) \<in> set xs"
  shows "\<exists>off' \<ge> off. get_offset key m' = Some off'"
proof -
  have n: "get_offset key m' = newest (\<lambda>k. digestOf key = digestOf k) xs (get_offset key m)"
    using key_map.put_all_get [OF assms(1)] by auto
  then obtain off' where "newest (\<lambda>k. digestOf key = digestOf k) xs (get_offset key m) = Some off'"
    using assms(2)
    by (cases "newest (\<lambda>k. digestOf key = digestOf k) xs (get_offset key m)") (auto simp: newest_None_iff)
  with n newest_upper [OF this] assms(2) show ?thesis by auto
qed

lemma put_all_source:
  assumes "put_all put xs m = (ok, m')" "get_offset key m' = Some off"
  shows "get_offset key m = Some off \<or> (\<exists>k. (k, off) \<in> set xs \<and> digestOf k = digestOf key)"
proof -
  obtain n where "get_offset key m' = newest (\<lambda>k. digestOf key = digestOf k) (take n xs) (get_offset key m)"
    using key_map.put_all_get [OF assms(1)] by auto
  with assms(2) newest_mem [of "\<lambda>k. digestOf key = digestOf k" "take n xs" "get_offset key m" off] show ?thesis
    by (auto dest: in_set_takeD)
qed

definition info_of :: "int \<times> segment \<Rightarrow> sealed_info" where
  "info_of = (\<lambda>(base, seg). \<lparr>si_baseOffset = base, si_nextOffset = sg_nextOffset seg,
     si_logFile = logFileName seg, si_sizeBytes = sizeBytes seg\<rparr>)"

lemma sealedSegments_info: "sealedSegments l = map info_of (lg_sealed l)"
  by (simp add: sealedSegments_def info_of_def)

lemma info_of_simps [simp]:
  "si_baseOffset (info_of (b, seg)) = b" "si_nextOffset (info_of (b, seg)) = sg_nextOffset seg"
  "si_logFile (info_of (b, seg)) = logFileName seg" "si_sizeBytes (info_of (b, seg)) = sizeBytes seg"
  by (simp_all add: info_of_def)

text \<open>The records of a segment lie in its offset range.\<close>

definition in_range :: "byte list list \<Rightarrow> int \<times> segment \<Rightarrow> bool" where
  "in_range bs = (\<lambda>(b, seg). \<forall>r \<in> set (records_in bs). b \<le> lr_offset r \<and> lr_offset r < sg_nextOffset seg)"

text \<open>The segments a pass maps: those that end above the mark.\<close>

definition dirty_records :: "int \<Rightarrow> byte list list list \<Rightarrow> (int \<times> segment) list \<Rightarrow> log_record list" where
  "dirty_records firstDirty bss sealed =
     concat (map (\<lambda>(bs, _, seg). if sg_nextOffset seg \<le> firstDirty then [] else records_in bs) (zip bss sealed))"

lemma dirty_records_Cons [simp]:
  "dirty_records fd (bs # bss) ((b, seg) # sealed) =
    (if sg_nextOffset seg \<le> fd then [] else records_in bs) @ dirty_records fd bss sealed"
  "dirty_records fd [] []  = []"
  by (simp_all add: dirty_records_def)

lemma dirty_records_ge:
  assumes "list_all2 in_range bss sealed" "\<forall>(b, seg) \<in> set sealed. sg_nextOffset seg \<le> firstDirty \<or> lo \<le> b"
    and "r \<in> set (dirty_records firstDirty bss sealed)"
  shows "lo \<le> lr_offset r"
  using assms
proof (induction bss sealed rule: list_induct2')
  case (4 bs bss a sealed)
  obtain b seg where "a = (b, seg)" by (cases a)
  with 4 show ?case by (fastforce simp: in_range_def split: if_splits)
qed (simp_all add: dirty_records_def)

definition readable :: "directory \<Rightarrow> byte list list \<Rightarrow> int \<times> segment \<Rightarrow> bool" where
  "readable dir bs = (\<lambda>(b, seg). dir (logFileName seg) = Some (concat bs) \<and> list_all rewritable bs)"

lemma readable_pair:
  "readable dir bs (b, seg) \<longleftrightarrow> dir (logFileName seg) = Some (concat bs) \<and> list_all rewritable bs"
  by (simp add: readable_def)

lemma map_segments_ok:
  assumes "list_all2 (readable dir) bss sealed" "list_all2 in_range bss sealed"
    and "sorted_wrt (\<lambda>(_, seg) (b, _). sg_nextOffset seg \<le> b) sealed"
    and "\<forall>(b, seg) \<in> set sealed. sg_nextOffset seg \<le> firstDirty \<or> from \<le> b"
  shows "\<exists>taken m' mapped. map_segments dir firstDirty (map info_of sealed) m from = Inr (taken, m', mapped) \<and>
    put_all put (keyed (dirty_records firstDirty bss sealed)) m = (taken, m') \<and>
    (mapped = from \<or> (\<exists>(b, seg) \<in> set sealed. firstDirty < sg_nextOffset seg \<and> mapped = sg_nextOffset seg)) \<and>
    (\<forall>r \<in> set (dirty_records firstDirty bss sealed). \<forall>key. lr_offset r < mapped \<longrightarrow> lr_key r = Some key \<longrightarrow>
      (\<exists>off \<ge> lr_offset r. get_offset key m' = Some off))"
  using assms
proof (induction bss sealed arbitrary: m "from" rule: list_induct2')
  case (4 bs bss a sealed)
  obtain b seg where a: "a = (b, seg)" by (cases a)
  have h: "dir (logFileName seg) = Some (concat bs)" "list_all rewritable bs" "in_range bs (b, seg)"
    "list_all2 (readable dir) bss sealed" "list_all2 in_range bss sealed"
    "sorted_wrt (\<lambda>(_, seg) (b, _). sg_nextOffset seg \<le> b) sealed"
    using "4.prems"(1-3) a by (simp_all add: readable_pair)
  show ?case
  proof (cases "sg_nextOffset seg \<le> firstDirty")
    case True
    with "4.IH" [OF h(4-6), of "from" m] "4.prems"(4) a show ?thesis by auto
  next
    case False
    have from_b: "from \<le> b" using False "4.prems"(4) a by auto
    have later: "\<forall>(b', seg') \<in> set sealed. sg_nextOffset seg \<le> b'"
      using "4.prems"(3) a by auto
    have scan: "bind_r (open_log_file dir (logFileName seg)) (\<lambda>content. bind_r (scanSegment content 0) (\<lambda>batches. map_batches batches m))
        = Inr (put_all put (keyed (records_in bs)) m)"
      using h(1,2) scanSegment_concat [of bs "[]"]
      by (simp add: open_log_file_def rewritable_valid map_batches_put_all)
    obtain ok m1 where m1: "put_all put (keyed (records_in bs)) m = (ok, m1)"
      by (cases "put_all put (keyed (records_in bs)) m")
    have step: "map_segments dir firstDirty (map info_of (a # sealed)) m from =
        (if ok then map_segments dir firstDirty (map info_of sealed) m1 (sg_nextOffset seg) else Inr (False, m1, from))"
      using False scan m1 a h(1) by (cases "scanSegment (concat bs) 0") (auto simp: open_log_file_def)
    show ?thesis
    proof (cases ok)
      case True
      obtain taken m' mapped where ih: "map_segments dir firstDirty (map info_of sealed) m1 (sg_nextOffset seg) = Inr (taken, m', mapped)"
          "put_all put (keyed (dirty_records firstDirty bss sealed)) m1 = (taken, m')"
          "mapped = sg_nextOffset seg \<or> (\<exists>(b, seg) \<in> set sealed. firstDirty < sg_nextOffset seg \<and> mapped = sg_nextOffset seg)"
          "\<forall>r \<in> set (dirty_records firstDirty bss sealed). \<forall>key. lr_offset r < mapped \<longrightarrow> lr_key r = Some key \<longrightarrow>
            (\<exists>off \<ge> lr_offset r. get_offset key m' = Some off)"
        using "4.IH" [OF h(4-6), of "sg_nextOffset seg" m1] later by fastforce
      have "\<exists>off \<ge> lr_offset r. get_offset key m' = Some off" if "r \<in> set (records_in bs)" "lr_key r = Some key" for r key
      proof -
        have "(key, lr_offset r) \<in> set (keyed (records_in bs))" using that by (auto simp: keyed_mem)
        then obtain off where off: "lr_offset r \<le> off" "get_offset key m1 = Some off"
          using put_all_maps [of "keyed (records_in bs)" m m1] m1 True by auto
        with put_all_grows [OF ih(2) off(2)] show ?thesis by force
      qed
      then have recs: "\<forall>r \<in> set (records_in bs). \<forall>key. lr_key r = Some key \<longrightarrow>
          (\<exists>off \<ge> lr_offset r. get_offset key m' = Some off)" by blast
      have mapped: "\<forall>r \<in> set (dirty_records firstDirty (bs # bss) (a # sealed)). \<forall>key.
          lr_offset r < mapped \<longrightarrow> lr_key r = Some key \<longrightarrow> (\<exists>off \<ge> lr_offset r. get_offset key m' = Some off)"
      proof -
        have "set (dirty_records firstDirty (bs # bss) (a # sealed)) =
            set (records_in bs) \<union> set (dirty_records firstDirty bss sealed)"
          using a False by simp
        then show ?thesis using ih(4) recs by blast
      qed
      have "put_all put (keyed (dirty_records firstDirty (bs # bss) (a # sealed))) m = (taken, m')"
        using a False m1 True ih(2) by (simp add: put_all_append)
      moreover have "mapped = from \<or> (\<exists>(b, seg) \<in> set (a # sealed). firstDirty < sg_nextOffset seg \<and> mapped = sg_nextOffset seg)"
        using ih(3) a False by auto
      moreover have "map_segments dir firstDirty (map info_of (a # sealed)) m from = Inr (taken, m', mapped)"
        using step True ih(1) by simp
      ultimately show ?thesis using mapped by blast
    next
      case ok: False
      have "\<forall>r \<in> set (dirty_records firstDirty (bs # bss) (a # sealed)). from \<le> lr_offset r"
        using dirty_records_ge [OF "4.prems"(2,4)] by blast
      moreover have "put_all put (keyed (dirty_records firstDirty (bs # bss) (a # sealed))) m = (False, m1)"
        using a False m1 ok by (simp add: put_all_append)
      ultimately show ?thesis
        using step ok by (intro exI [of _ False] exI [of _ m1] exI [of _ "from"]) force
    qed
  qed
qed auto

subsection \<open>The rewriting phase\<close>

text \<open>In a compacted log segments may leave gaps but not overlap.\<close>

definition disjoint_segments :: "(int \<times> segment) list \<Rightarrow> int \<Rightarrow> bool" where
  "disjoint_segments sealed n \<longleftrightarrow> sorted_wrt (\<lambda>(_, seg) (b, _). sg_nextOffset seg \<le> b) sealed \<and>
     (\<forall>(_, seg) \<in> set sealed. sg_nextOffset seg \<le> n)"

lemma check_contiguity_compact:
  assumes "\<forall>(b, seg) \<in> set sealed. b \<le> sg_nextOffset seg"
  shows "check_contiguity True sealed n = Inr () \<longleftrightarrow> disjoint_segments sealed n"
  using assms
proof (induction sealed)
  case (Cons a sealed)
  obtain b seg where a: "a = (b, seg)" by (cases a)
  have ih: "check_contiguity True sealed n = Inr () \<longleftrightarrow> disjoint_segments sealed n" using Cons by simp
  show ?case
  proof (cases sealed)
    case Nil
    then show ?thesis using a by (simp add: disjoint_segments_def Let_def)
  next
    case (Cons c others)
    obtain b' seg' where c: "c = (b', seg')" by (cases c)
    have "sg_nextOffset seg \<le> n \<and> (\<forall>(x, _) \<in> set sealed. sg_nextOffset seg \<le> x)"
      if "sg_nextOffset seg \<le> b'" "disjoint_segments sealed n"
      using that Cons.prems c Cons unfolding disjoint_segments_def by fastforce
    then show ?thesis
      using ih a c Cons by (auto simp: Let_def disjoint_segments_def)
  qed
qed (simp add: disjoint_segments_def)

lemma sealed_holds_bounds:
  "sealed_holds bss sealed \<Longrightarrow> \<forall>(b, seg) \<in> set sealed. b \<le> sg_nextOffset seg"
  by (induction bss sealed rule: list_induct2') (auto simp: segment_holds_def ascending_le_end)

lemma in_range_rewritable:
  assumes "segment_holds bs seg" "b = sg_baseOffset seg" "list_all rewritable bs"
  shows "in_range bs (b, seg)"
proof -
  have asc: "ascending b bs" "sg_nextOffset seg = end_offset b bs"
    using assms(1,2) by (simp_all add: segment_holds_def)
  have "b \<le> lr_offset r \<and> lr_offset r < sg_nextOffset seg" if "x \<in> set bs" "r \<in> set (batch_records x)" for x r
  proof -
    have "bh_baseOffset (hdr x) \<le> lr_offset r" "lr_offset r \<le> lastOffset (hdr x)"
      using that assms(3) by (auto simp: list_all_iff rewritable_def)
    then show ?thesis
      using ascending_base_le [OF asc(1) that(1)] ascending_last_less [OF asc(1) that(1)] asc(2) by simp
  qed
  then show ?thesis by (auto simp: in_range_def)
qed

definition segment_fits :: "int \<Rightarrow> byte list list \<Rightarrow> bool" where
  "segment_fits base bs \<longleftrightarrow> end_offset base bs - base \<le> UINT32_MAX \<and> int (sum_list (map batch_room bs)) \<le> UINT32_MAX"

text \<open>Replacing one sealed segment by none or one that lies within its offset range.\<close>

lemma log_holds_replace:
  assumes "log_holds (bss1 @ bs # bss2) cs l" "length bss1 = length before" "compacted (lg_config l)"
    and "lg_sealed l = before @ (b, seg) # after"
    and "sealed_holds mids mid" "length mid \<le> 1" "\<forall>(b', seg') \<in> set mid. b' = b \<and> sg_nextOffset seg' \<le> sg_nextOffset seg"
  shows "log_holds (bss1 @ mids @ bss2) cs (l\<lparr>lg_sealed := before @ mid @ after, lg_graveyard := g\<rparr>)"
proof -
  let ?a = "sg_baseOffset (lg_active l)"
  have h: "sealed_holds (bss1 @ bs # bss2) (lg_sealed l)" "sorted_wrt (<) (map fst (lg_sealed l) @ [?a])"
    "check_contiguity True (lg_sealed l) ?a = Inr ()"
    using assms(1,3) by (simp_all add: log_holds_def)
  have parts: "sealed_holds bss1 before" "sealed_holds bss2 after"
    using h(1) assms(2,4) by (simp_all add: sealed_holds_append)
  then have new: "sealed_holds (bss1 @ mids @ bss2) (before @ mid @ after)"
    using assms(2,5) sealed_holds_length [OF assms(5)] by (simp add: sealed_holds_append)
  consider "mid = []" | seg' where "mid = [(b, seg')]" "sg_nextOffset seg' \<le> sg_nextOffset seg"
    using assms(6,7) by (cases mid) auto
  then have sorted: "sorted_wrt (<) (map fst (before @ mid @ after) @ [?a])"
    by cases (use h(2) assms(4) in \<open>auto simp: sorted_wrt_append\<close>)
  have "disjoint_segments (lg_sealed l) ?a"
    using h(3) check_contiguity_compact [OF sealed_holds_bounds [OF h(1)]] by simp
  then have "disjoint_segments (before @ mid @ after) ?a"
    using \<open>length mid \<le> 1\<close> assms(4,7)
    by (cases mid) (fastforce simp: disjoint_segments_def sorted_wrt_append)+
  then have "check_contiguity True (before @ mid @ after) ?a = Inr ()"
    using check_contiguity_compact [OF sealed_holds_bounds [OF new]] by simp
  then show ?thesis
    using assms(1,3) new sorted by (simp add: log_holds_def)
qed

lemma log_segment:
  assumes "log_holds (bss1 @ bs # bss2) cs l" "length bss1 = length before" "lg_sealed l = before @ (b, seg) # after"
  shows "segment_holds bs seg" "b = sg_baseOffset seg" "valid_base b" "map_of (lg_sealed l) b = Some seg"
    "log_dir l (logFileName seg) = Some (concat bs)" "b \<notin> fst ` set before" "b \<notin> fst ` set after"
proof -
  have "sealed_holds (bss1 @ bs # bss2) (before @ (b, seg) # after)"
    using assms(1,3) by (simp add: log_holds_def)
  then show h: "segment_holds bs seg" "b = sg_baseOffset seg" "valid_base b"
    using assms(2) by (auto simp: sealed_holds_append)
  have mem: "(b, seg) \<in> set (lg_sealed l)" using assms(3) by simp
  with log_sealed_lookup [OF assms(1)] show "map_of (lg_sealed l) b = Some seg" by blast
  show "log_dir l (logFileName seg) = Some (concat bs)"
    using log_dir_sealed [OF assms(1) mem] h by (simp add: logFileName_def segment_holds_def)
  have "distinct (map fst (lg_sealed l))"
    using assms(1) by (simp add: log_holds_def sorted_wrt_append strict_sorted_iff)
  with assms(3) show "b \<notin> fst ` set before" "b \<notin> fst ` set after" by auto
qed

lemma replaceSegment_ok:
  assumes "log_holds (bss1 @ bs # bss2) cs l" "length bss1 = length before" "lg_sealed l = before @ (b, seg) # after"
    and "ascending b outs" "indexed outs b (index_openSealed f b)"
  shows "\<exists>seg' g. replaceSegment b (concat outs) f now l =
      Inr (True, l\<lparr>lg_sealed := before @ [(b, seg')] @ after, lg_graveyard := g\<rparr>) \<and>
    segment_holds outs seg' \<and> sg_baseOffset seg' = b \<and> sg_nextOffset seg' = end_offset b outs"
proof -
  note s = log_segment [OF assms(1-3)]
  let ?seg = "\<lparr>sg_log = concat outs, sg_index = index_openSealed f b, sg_baseOffset = b,
    sg_nextOffset = end_offset b outs, sg_largestTimestamp = 0\<rparr>"
  let ?dir = "[segmentLogPath b \<mapsto> concat outs, segmentIndexPath b \<mapsto> f]"
  have ne: "segmentIndexPath b \<noteq> segmentLogPath b" using has_log_extension_names(1,2) by metis
  have "segment_holds outs ?seg" using assms(4,5) by (simp add: segment_holds_def)
  then obtain seg' where seg': "sealed_open ?dir (segmentLogPath b) = Inr seg'" "segment_holds outs seg'"
      "sg_baseOffset seg' = b" "sg_nextOffset seg' = end_offset b outs"
    using sealed_open_holds [of outs ?seg ?dir] s(3) ne by (auto simp: index_openSealed_def Let_def)
  have "map (\<lambda>(x, sg). (x, if x = b then seg' else sg)) xs = xs" if "b \<notin> fst ` set xs" for xs
    using that by (induction xs) auto
  with s(6,7) have "map (\<lambda>(x, sg). (x, if x = b then seg' else sg)) (lg_sealed l) = before @ [(b, seg')] @ after"
    by (simp add: assms(3))
  then have "replaceSegment b (concat outs) f now l = Inr (True, l\<lparr>lg_sealed := before @ [(b, seg')] @ after,
      lg_graveyard := lg_graveyard l @ [\<lparr>bu_segment = seg, bu_unlinkedAtMs = now\<rparr>]\<rparr>)"
    using s(4) seg'(1) by (simp add: replaceSegment_def burySegment_def)
  with seg' show ?thesis by blast
qed

lemma removeSegment_ok:
  assumes "log_holds (bss1 @ bs # bss2) cs l" "length bss1 = length before" "lg_sealed l = before @ (b, seg) # after"
  shows "\<exists>g. removeSegment b now l = (True, l\<lparr>lg_sealed := before @ after, lg_graveyard := g\<rparr>)"
proof -
  note s = log_segment [OF assms]
  have others: "filter (\<lambda>(x, _). x \<noteq> b) xs = xs" if "b \<notin> fst ` set xs" for xs :: "(int \<times> segment) list"
    using that by (induction xs) auto
  have "filter (\<lambda>(x, _). x \<noteq> b) (lg_sealed l) = before @ after"
    using others [OF s(6)] others [OF s(7)] by (simp add: assms(3))
  then show ?thesis using s(4) by (simp add: removeSegment_def burySegment_def) blast
qed

lemma sum_room_le:
  assumes "length outs \<le> length bs" "records_in outs = filter P (records_in bs)"
  shows "sum_list (map batch_room outs) \<le> sum_list (map batch_room bs)"
proof -
  have sum: "sum_list (map batch_room xs) = 61 * length xs + sum_list (map record_room (records_in xs))" for xs
    by (induction xs) (simp_all add: batch_room_def)
  show ?thesis
    unfolding sum assms(2) using assms(1) sum_list_filter_le [of record_room P "records_in bs"] by simp
qed

lemma clean_segment_ok:
  assumes "log_holds (bss1 @ bs # bss2) cs l" "length bss1 = length before" "lg_sealed l = before @ (b, seg) # after"
    and "list_all rewritable bs" "segment_fits b bs"
  shows "\<exists>cr' mids mid g. clean_segment rules now (info_of (b, seg)) cr l =
      (Inr cr', l\<lparr>lg_sealed := before @ mid @ after, lg_graveyard := g\<rparr>) \<and>
    sealed_holds mids mid \<and> length mid \<le> 1 \<and>
    (\<forall>(b', seg') \<in> set mid. b' = b \<and> sg_nextOffset seg' \<le> sg_nextOffset seg) \<and>
    list_all (list_all rewritable) mids \<and> records_in (concat mids) = filter (keeps rules) (records_in bs) \<and>
    list_all2 (\<lambda>bs (b, _). segment_fits b bs) mids mid \<and>
    cr_recordsDropped cr' = cr_recordsDropped cr + length (filter (\<lambda>r. \<not> keeps rules r) (records_in bs)) \<and>
    cr_nextDirtyOffset cr' = cr_nextDirtyOffset cr"
proof -
  note s = log_segment [OF assms(1-3)]
  have asc: "ascending b bs" "sg_nextOffset seg = end_offset b bs"
    using s(1,2) by (simp_all add: segment_holds_def)
  have roll: "8 \<le> rp_maxIndexBytes (lc_roll (lg_config l))" using assms(1) by (simp add: log_holds_def)
  have drops: "wouldDropAnything (concat bs) rules = Inr (\<exists>r \<in> set (records_in bs). \<not> keeps rules r)"
    using wouldDropAnything_ok [OF assms(4) scan_stops_Nil] by simp
  obtain outs c where c: "rewriteSegment (concat bs) b (lc_roll (lg_config l)) rules = Inr c" "cs_log c = concat outs"
      "list_all rewritable outs" "records_in outs = filter (keeps rules) (records_in bs)" "length outs \<le> length bs"
      "ascending b outs" "end_offset b outs \<le> end_offset b bs" "indexed outs b (index_openSealed (cs_index c) b)"
      "cs_recordsKept c = length (filter (keeps rules) (records_in bs))"
      "cs_recordsDropped c = length (filter (\<lambda>r. \<not> keeps rules r) (records_in bs))"
    using rewriteSegment_ok [OF assms(4) asc(1) scan_stops_Nil roll, of rules] assms(5)
    by (auto simp: segment_fits_def)
  consider (none) "\<forall>r \<in> set (records_in bs). keeps rules r"
    | (all) "\<exists>r \<in> set (records_in bs). \<not> keeps rules r" "filter (keeps rules) (records_in bs) = []"
    | (some) "\<exists>r \<in> set (records_in bs). \<not> keeps rules r" "filter (keeps rules) (records_in bs) \<noteq> []"
    by blast
  then show ?thesis
  proof cases
    case none
    then have "filter (keeps rules) (records_in bs) = records_in bs" "filter (\<lambda>r. \<not> keeps rules r) (records_in bs) = []"
      by (auto simp: filter_id_conv filter_empty_conv)
    moreover have "l\<lparr>lg_sealed := before @ [(b, seg)] @ after, lg_graveyard := lg_graveyard l\<rparr> = l"
      using assms(3) by simp
    moreover have "clean_segment rules now (info_of (b, seg)) cr l = (Inr cr, l)"
      using none drops s(5) by (simp add: clean_segment_def open_log_file_def)
    ultimately show ?thesis
      using s(1-3) assms(4,5)
      by (intro exI [of _ cr] exI [of _ "[bs]"] exI [of _ "[(b, seg)]"] exI [of _ "lg_graveyard l"]) simp
  next
    case all
    let ?cr = "cr\<lparr>cr_recordsKept := cr_recordsKept cr + cs_recordsKept c,
      cr_recordsDropped := cr_recordsDropped cr + cs_recordsDropped c, cr_segmentsDeleted := cr_segmentsDeleted cr + 1\<rparr>"
    obtain g where g: "removeSegment b now l = (True, l\<lparr>lg_sealed := before @ after, lg_graveyard := g\<rparr>)"
      using removeSegment_ok [OF assms(1-3)] by blast
    have "clean_segment rules now (info_of (b, seg)) cr l = (Inr ?cr, l\<lparr>lg_sealed := before @ [] @ after, lg_graveyard := g\<rparr>)"
      using all(1) drops s(5) c(1,9) all(2) g by (simp add: clean_segment_def open_log_file_def cleaned_empty_def)
    then show ?thesis
      using all c(10) by (intro exI [of _ ?cr] exI [of _ "[]"] exI [of _ g]) simp
  next
    case some
    let ?cr = "cr\<lparr>cr_recordsKept := cr_recordsKept cr + cs_recordsKept c,
      cr_recordsDropped := cr_recordsDropped cr + cs_recordsDropped c, cr_segmentsCleaned := cr_segmentsCleaned cr + 1\<rparr>"
    obtain seg' g where g: "replaceSegment b (concat outs) (cs_index c) now l =
          Inr (True, l\<lparr>lg_sealed := before @ [(b, seg')] @ after, lg_graveyard := g\<rparr>)"
        "segment_holds outs seg'" "sg_baseOffset seg' = b" "sg_nextOffset seg' = end_offset b outs"
      using replaceSegment_ok [OF assms(1-3) c(6,8)] by blast
    have "cs_recordsKept c \<noteq> 0" using some(2) c(9) by simp
    then have "clean_segment rules now (info_of (b, seg)) cr l =
        (Inr ?cr, l\<lparr>lg_sealed := before @ [(b, seg')] @ after, lg_graveyard := g\<rparr>)"
      using some(1) drops s(5) c(1,2) g(1) by (simp add: clean_segment_def open_log_file_def cleaned_empty_def)
    moreover have "segment_fits b outs"
      using assms(5) c(7) sum_room_le [OF c(5,4)] by (simp add: segment_fits_def)
    ultimately show ?thesis
      using g s(3) c(3,4,7,10) asc(2)
      by (intro exI [of _ ?cr] exI [of _ "[outs]"] exI [of _ "[(b, seg')]"] exI [of _ g]) simp
  qed
qed

lemma records_from:
  assumes "sealed_holds bss sealed" "list_all (list_all rewritable) bss" "\<forall>(b, _) \<in> set sealed. lo \<le> b"
  shows "\<forall>r \<in> set (records_in (concat bss)). lo \<le> lr_offset r"
  using assms
proof (induction bss sealed rule: list_induct2')
  case (4 bs bss a sealed)
  obtain b seg where a: "a = (b, seg)" by (cases a)
  then have "in_range bs (b, seg)" using "4.prems" in_range_rewritable [of bs seg b] by simp
  moreover have "lo \<le> b" using "4.prems"(3) a by simp
  ultimately have "\<forall>r \<in> set (records_in bs). lo \<le> lr_offset r" unfolding in_range_def by fastforce
  moreover have "\<forall>r \<in> set (records_in (concat bss)). lo \<le> lr_offset r" using 4 a by simp
  ultimately show ?case by auto
qed simp_all

lemma clean_segments_ok:
  assumes "log_holds (ready @ bss) cs l" "length ready = length before" "lg_sealed l = before @ sealed"
    and "compacted (lg_config l)" "list_all (list_all rewritable) bss"
    and "list_all2 (\<lambda>bs (b, _). segment_fits b bs) bss sealed"
    and "\<forall>(b, seg) \<in> set sealed. mapped \<le> b \<or> sg_nextOffset seg \<le> mapped"
  shows "\<exists>cr' bss' sealed' g. clean_segments rules now mapped (map info_of sealed) cr l =
      (Inr cr', l\<lparr>lg_sealed := before @ sealed', lg_graveyard := g\<rparr>) \<and>
    log_holds (ready @ bss') cs (l\<lparr>lg_sealed := before @ sealed', lg_graveyard := g\<rparr>) \<and>
    (\<forall>(b', seg') \<in> set sealed'. \<exists>seg. (b', seg) \<in> set sealed \<and> sg_nextOffset seg' \<le> sg_nextOffset seg) \<and>
    list_all (list_all rewritable) bss' \<and> list_all2 (\<lambda>bs (b, _). segment_fits b bs) bss' sealed' \<and>
    records_in (concat bss') = filter (\<lambda>r. mapped \<le> lr_offset r \<or> keeps rules r) (records_in (concat bss)) \<and>
    cr_recordsDropped cr' = cr_recordsDropped cr +
      length (filter (\<lambda>r. \<not> (mapped \<le> lr_offset r \<or> keeps rules r)) (records_in (concat bss))) \<and>
    cr_nextDirtyOffset cr' = cr_nextDirtyOffset cr"
  using assms
proof (induction bss sealed arbitrary: ready before l cr rule: list_induct2')
  case 1
  then have "l\<lparr>lg_sealed := before @ [], lg_graveyard := lg_graveyard l\<rparr> = l" by simp
  with 1 show ?case
    by - (rule exI [of _ cr], rule exI [of _ "[]"], rule exI [of _ "[]"], rule exI [of _ "lg_graveyard l"],
      simp only:, simp)
next
  case (4 bs bss a sealed)
  obtain b seg where a: "a = (b, seg)" by (cases a)
  note prems = "4.prems" [unfolded a]
  note s = log_segment [OF prems(1-3)]
  have holds: "sealed_holds (bs # bss) ((b, seg) # sealed)"
    using prems(1-3) by (auto simp: log_holds_def sealed_holds_append)
  show ?case
  proof (cases "mapped \<le> b")
    case True
    have "\<forall>(b', _) \<in> set ((b, seg) # sealed). mapped \<le> b'"
      using prems(1,3) True by (fastforce simp: log_holds_def sorted_wrt_append)
    with records_from [OF holds] prems(5)
    have above: "\<forall>r \<in> set (records_in (concat (bs # bss))). mapped \<le> lr_offset r" by blast
    then have "filter (\<lambda>r. mapped \<le> lr_offset r \<or> keeps rules r) (records_in (concat (bs # bss))) = records_in (concat (bs # bss))"
      "filter (\<lambda>r. \<not> (mapped \<le> lr_offset r \<or> keeps rules r)) (records_in (concat (bs # bss))) = []"
      by (simp_all only: filter_id_conv filter_empty_conv) blast+
    moreover have "l\<lparr>lg_sealed := before @ (b, seg) # sealed, lg_graveyard := lg_graveyard l\<rparr> = l"
      using prems(3) by simp
    moreover have "clean_segments rules now mapped (map info_of (a # sealed)) cr l = (Inr cr, l)"
      using True a by simp
    ultimately show ?thesis
      using prems(1,5,6) unfolding a
      by (intro exI [of _ cr] exI [of _ "bs # bss"] exI [of _ "(b, seg) # sealed"] exI [of _ "lg_graveyard l"]) force
  next
    case False
    then have below: "\<forall>r \<in> set (records_in bs). \<not> mapped \<le> lr_offset r"
      using in_range_rewritable [OF s(1,2)] prems(5,7) by (fastforce simp: in_range_def)
    obtain cr1 mids mid g1 where c1: "clean_segment rules now (info_of (b, seg)) cr l =
          (Inr cr1, l\<lparr>lg_sealed := before @ mid @ sealed, lg_graveyard := g1\<rparr>)"
        "sealed_holds mids mid" "length mid \<le> 1"
        "\<forall>(b', seg') \<in> set mid. b' = b \<and> sg_nextOffset seg' \<le> sg_nextOffset seg"
        "list_all (list_all rewritable) mids" "records_in (concat mids) = filter (keeps rules) (records_in bs)"
        "list_all2 (\<lambda>bs (b, _). segment_fits b bs) mids mid"
        "cr_recordsDropped cr1 = cr_recordsDropped cr + length (filter (\<lambda>r. \<not> keeps rules r) (records_in bs))"
        "cr_nextDirtyOffset cr1 = cr_nextDirtyOffset cr"
      using clean_segment_ok [OF prems(1-3), of rules now cr] prems(5,6) by auto
    let ?l1 = "l\<lparr>lg_sealed := before @ mid @ sealed, lg_graveyard := g1\<rparr>"
    have "log_holds ((ready @ mids) @ bss) cs ?l1"
      using log_holds_replace [OF prems(1,2,4,3) c1(2-4)] by simp
    then obtain cr' bss' sealed' g where ih: "clean_segments rules now mapped (map info_of sealed) cr1 ?l1 =
          (Inr cr', ?l1\<lparr>lg_sealed := (before @ mid) @ sealed', lg_graveyard := g\<rparr>)"
        "log_holds ((ready @ mids) @ bss') cs (?l1\<lparr>lg_sealed := (before @ mid) @ sealed', lg_graveyard := g\<rparr>)"
        "\<forall>(b', seg') \<in> set sealed'. \<exists>seg. (b', seg) \<in> set sealed \<and> sg_nextOffset seg' \<le> sg_nextOffset seg"
        "list_all (list_all rewritable) bss'" "list_all2 (\<lambda>bs (b, _). segment_fits b bs) bss' sealed'"
        "records_in (concat bss') = filter (\<lambda>r. mapped \<le> lr_offset r \<or> keeps rules r) (records_in (concat bss))"
        "cr_recordsDropped cr' = cr_recordsDropped cr1 +
          length (filter (\<lambda>r. \<not> (mapped \<le> lr_offset r \<or> keeps rules r)) (records_in (concat bss)))"
        "cr_nextDirtyOffset cr' = cr_nextDirtyOffset cr1"
      using "4.IH" [of "ready @ mids" ?l1 "before @ mid" cr1] prems(2,4-7) sealed_holds_length [OF c1(2)] by auto
    have keep: "filter (\<lambda>r. mapped \<le> lr_offset r \<or> keeps rules r) (records_in bs) = filter (keeps rules) (records_in bs)"
      "filter (\<lambda>r. \<not> (mapped \<le> lr_offset r \<or> keeps rules r)) (records_in bs) = filter (\<lambda>r. \<not> keeps rules r) (records_in bs)"
      by (intro filter_cong refl; use below in blast)+
    have "clean_segments rules now mapped (map info_of (a # sealed)) cr l =
        (Inr cr', l\<lparr>lg_sealed := before @ mid @ sealed', lg_graveyard := g\<rparr>)"
      using False a c1(1) ih(1) by simp
    moreover have "\<forall>(b', seg') \<in> set (mid @ sealed'). \<exists>seg. (b', seg) \<in> set (a # sealed) \<and> sg_nextOffset seg' \<le> sg_nextOffset seg"
      using c1(4) ih(3) a by fastforce
    moreover have "list_all (list_all rewritable) (mids @ bss')"
      using c1(5) ih(4) by (auto simp: list_all_iff)
    moreover have "list_all2 (\<lambda>bs (b, _). segment_fits b bs) (mids @ bss') (mid @ sealed')"
      using c1(7) ih(5) by (rule list_all2_appendI)
    ultimately show ?thesis
      using ih(2,6-8) c1(6,8,9) keep
      by (intro exI [of _ cr'] exI [of _ "mids @ bss'"] exI [of _ "mid @ sealed'"] exI [of _ g]) simp
  qed
qed simp_all

end
