(* ===== verification/Cleaner_Pass.thy ===== *)
theory Cleaner_Pass
  imports Log_Cleaner
begin

text \<open>
  What a whole compaction pass of \<^verbatim>\<open>storage/log_cleaner.cpp\<close> does to the records of a log.
\<close>

subsection \<open>A whole pass\<close>

text \<open>
  What the cleaner keeps between passes: below the mark every key has at most one record, and the
  mark falls between segments.
\<close>

definition unique_below :: "int \<Rightarrow> log_record list \<Rightarrow> bool" where
  "unique_below mark rs \<longleftrightarrow> (\<forall>r \<in> set rs. \<forall>r' \<in> set rs. lr_key r \<noteq> None \<and> lr_key r' = lr_key r \<and>
     lr_offset r < mark \<and> lr_offset r' < mark \<longrightarrow> lr_offset r = lr_offset r')"

definition mark_aligned :: "int \<Rightarrow> (int \<times> segment) list \<Rightarrow> bool" where
  "mark_aligned mark sealed \<longleftrightarrow> (\<forall>(b, seg) \<in> set sealed. sg_nextOffset seg \<le> mark \<or> mark \<le> b)"

text \<open>A log the cleaner can work on: its records, and that no two of their keys collide.\<close>

definition cleanable :: "byte list list list \<Rightarrow> byte list list \<Rightarrow> partition_log \<Rightarrow> bool" where
  "cleanable bss cs l \<longleftrightarrow> log_holds bss cs l \<and> compacted (lg_config l) \<and> list_all (list_all rewritable) bss \<and>
     list_all2 (\<lambda>bs (b, _). segment_fits b bs) bss (lg_sealed l) \<and>
     inj_on digestOf {key. \<exists>r \<in> set (records_in (concat bss)). lr_key r = Some key}"

text \<open>The outcome of a pass: \<open>K\<close> is what it kept, \<open>m\<close> and \<open>mapped\<close> what it mapped.\<close>

definition pass_outcome ::
  "log_record list \<Rightarrow> partition_log \<Rightarrow> int \<Rightarrow> int \<Rightarrow> key_offset_map \<Rightarrow> int \<Rightarrow> (log_record \<Rightarrow> bool) \<Rightarrow> bool" where
  "pass_outcome rs l mark nowMs m mapped K \<longleftrightarrow>
     (\<forall>r \<in> set rs. \<not> K r \<longrightarrow> lr_offset r < mapped \<and> (\<exists>key. lr_key r = Some key \<and> (\<not> isLatest key (lr_offset r) m \<or>
        lr_value r = None \<and> cp_deleteRetentionMs (lc_compaction (lg_config l)) \<le> nowMs - lr_timestamp r))) \<and>
     (\<forall>r \<in> set rs. \<forall>key. K r \<longrightarrow> lr_key r = Some key \<longrightarrow> lr_offset r < mapped \<longrightarrow> isLatest key (lr_offset r) m) \<and>
     (\<forall>key off. get_offset key m = Some off \<longrightarrow>
        (\<exists>r \<in> set rs. \<exists>k. lr_key r = Some k \<and> digestOf k = digestOf key \<and> lr_offset r = off)) \<and>
     (\<forall>r \<in> set rs. \<forall>key. lr_key r = Some key \<longrightarrow> mark \<le> lr_offset r \<longrightarrow> lr_offset r < mapped \<longrightarrow>
        (\<exists>off \<ge> lr_offset r. get_offset key m = Some off))"

lemma dirty_records_subset: "set (dirty_records fd bss sealed) \<subseteq> set (records_in (concat bss))"
proof (induction bss sealed rule: list_induct2')
  case (4 bs bss a sealed)
  then show ?case by (cases a) (auto split: if_splits)
qed (simp_all add: dirty_records_def)

lemma dirty_records_above:
  assumes "list_all2 in_range bss sealed" "r \<in> set (records_in (concat bss))" "fd \<le> lr_offset r"
  shows "r \<in> set (dirty_records fd bss sealed)"
  using assms
proof (induction bss sealed rule: list_induct2')
  case (4 bs bss a sealed)
  obtain b seg where a: "a = (b, seg)" by (cases a)
  show ?case
  proof (cases "r \<in> set (records_in bs)")
    case True
    with "4.prems"(1,3) a have "fd < sg_nextOffset seg" by (fastforce simp: in_range_def)
    with True a show ?thesis by simp
  next
    case False
    with 4 a show ?thesis by auto
  qed
qed simp_all

lemma sealed_in_range:
  "sealed_holds bss sealed \<Longrightarrow> list_all (list_all rewritable) bss \<Longrightarrow> list_all2 in_range bss sealed"
proof (induction bss sealed rule: list_induct2')
  case (4 bs bss a sealed)
  then show ?case by (cases a) (simp add: in_range_rewritable)
qed simp_all

lemma sealed_readable:
  assumes "log_holds bss cs l" "list_all (list_all rewritable) bss"
  shows "list_all2 (readable (log_dir l)) bss (lg_sealed l)"
proof (rule list_all2_all_nthI)
  show len: "length bss = length (lg_sealed l)"
    using assms(1) sealed_holds_length by (simp add: log_holds_def)
  fix i assume i: "i < length bss"
  obtain b seg where s: "lg_sealed l ! i = (b, seg)" by (cases "lg_sealed l ! i")
  have "bss = take i bss @ bss ! i # drop (Suc i) bss" "lg_sealed l = take i (lg_sealed l) @ (b, seg) # drop (Suc i) (lg_sealed l)"
    using i len s by (simp_all add: id_take_nth_drop flip: s)
  then have "log_dir l (logFileName seg) = Some (concat (bss ! i))"
    using log_segment(5) [of "take i bss" "bss ! i" "drop (Suc i) bss" cs l "take i (lg_sealed l)" b seg] assms(1) len i
    by simp
  then show "readable (log_dir l) (bss ! i) (lg_sealed l ! i)"
    using assms(2) i s by (simp add: readable_pair list_all_length)
qed

text \<open>A pass over a log it can work on never fails, and its outcome is as described.\<close>

lemma sorted_wrt_pair:
  "sorted_wrt R xs \<Longrightarrow> x \<in> set xs \<Longrightarrow> y \<in> set xs \<Longrightarrow> x = y \<or> R x y \<or> R y x"
  by (induction xs) auto

lemma cleanLog_pass:
  assumes "cleanable bss cs l" "mark_aligned mark (lg_sealed l)"
  shows "\<exists>cr l' bss' m mapped K. cleanLog l cleaner mark nowMs = (Inr cr, l') \<and>
    log_holds bss' cs l' \<and> (\<exists>s g. l' = l\<lparr>lg_sealed := s, lg_graveyard := g\<rparr>) \<and>
    cleanable bss' cs l' \<and> mark_aligned mapped (lg_sealed l') \<and>
    mark \<le> mapped \<and> cr_nextDirtyOffset cr = mapped \<and>
    pass_outcome (records_in (concat bss)) l mark nowMs m mapped K \<and>
    records_in (concat bss') = filter K (records_in (concat bss)) \<and>
    cr_recordsDropped cr = length (filter (\<lambda>r. \<not> K r) (records_in (concat bss)))"
proof -
  let ?s = "lg_sealed l"
  define rs where "rs = records_in (concat bss)"
  have h: "log_holds bss cs l" "compacted (lg_config l)" "list_all (list_all rewritable) bss"
    "list_all2 (\<lambda>bs (b, _). segment_fits b bs) bss ?s" "sealed_holds bss ?s"
    "inj_on digestOf {key. \<exists>r \<in> set rs. lr_key r = Some key}"
  proof -
    show "log_holds bss cs l" using assms(1) by (simp add: cleanable_def)
    then show "sealed_holds bss ?s" by (simp add: log_holds_def)
  qed (use assms(1) in \<open>simp_all add: cleanable_def rs_def\<close>)
  let ?cr = "\<lparr>cr_segmentsCleaned = 0, cr_segmentsDeleted = 0, cr_recordsKept = 0, cr_recordsDropped = 0,
      cr_keysMapped = 0, cr_mapFilled = False, cr_nextDirtyOffset = mark\<rparr>"
  let ?m0 = "KeyOffsetMap (cc_maxKeyMapEntries cleaner)"
  have same: "\<exists>s g. l = l\<lparr>lg_sealed := s, lg_graveyard := g\<rparr>"
    by (intro exI [of _ ?s] exI [of _ "lg_graveyard l"]) simp
  have "check_contiguity (compacted (lg_config l)) ?s (sg_baseOffset (lg_active l)) = Inr ()"
    using h(1) by (simp add: log_holds_def)
  then have disjoint: "disjoint_segments ?s (sg_baseOffset (lg_active l))"
    using h(2) check_contiguity_compact [OF sealed_holds_bounds [OF h(5)]] by simp
  have range: "list_all2 in_range bss ?s" using sealed_in_range [OF h(5,3)] .
  have sorted: "sorted_wrt (\<lambda>(_, seg) (b, _). sg_nextOffset seg \<le> b) ?s"
    using disjoint by (simp add: disjoint_segments_def)
  obtain taken m mapped where m: "map_segments (log_dir l) mark (map info_of ?s) ?m0 mark = Inr (taken, m, mapped)"
      "put_all put (keyed (dirty_records mark bss ?s)) ?m0 = (taken, m)"
      "mapped = mark \<or> (\<exists>(b, seg) \<in> set ?s. mark < sg_nextOffset seg \<and> mapped = sg_nextOffset seg)"
      "\<forall>r \<in> set (dirty_records mark bss ?s). \<forall>key. lr_offset r < mapped \<longrightarrow> lr_key r = Some key \<longrightarrow>
        (\<exists>off \<ge> lr_offset r. get_offset key m = Some off)"
    using map_segments_ok [OF sealed_readable [OF h(1,3)] range sorted assms(2) [unfolded mark_aligned_def], of ?m0] by blast
  have source: "\<exists>r \<in> set rs. \<exists>k. lr_key r = Some k \<and> digestOf k = digestOf key \<and> lr_offset r = off"
    if "get_offset key m = Some off" for key off
    using put_all_source [OF m(2) that] dirty_records_subset [of mark bss ?s] unfolding rs_def [symmetric] keyed_mem
    by auto
  have mapped_all: "\<exists>off \<ge> lr_offset r. get_offset key m = Some off"
    if "r \<in> set rs" "lr_key r = Some key" "mark \<le> lr_offset r" "lr_offset r < mapped" for r key
    using m(4) dirty_records_above [OF range that(1) [unfolded rs_def] that(3)] that(2,4) by blast
  have le: "mark \<le> mapped" using m(3) by auto
  have aligned: "\<forall>(b, seg) \<in> set ?s. mapped \<le> b \<or> sg_nextOffset seg \<le> mapped"
  proof (cases "mapped = mark")
    case True
    then show ?thesis using assms(2) by (auto simp: mark_aligned_def)
  next
    case False
    then obtain b0 seg0 where s0: "(b0, seg0) \<in> set ?s" "mapped = sg_nextOffset seg0" using m(3) by auto
    have "mapped \<le> b \<or> sg_nextOffset seg \<le> mapped" if "(b, seg) \<in> set ?s" for b seg
      using sorted_wrt_pair [OF sorted that s0(1)] sealed_holds_bounds [OF h(5)] s0 by force
    then show ?thesis by blast
  qed
  show ?thesis
  proof (cases "?s = [] \<or> km_size m = 0")
    case True
    let ?c = "if ?s = [] then ?cr else ?cr\<lparr>cr_mapFilled := \<not> taken, cr_keysMapped := km_size m, cr_nextDirtyOffset := mapped\<rparr>"
    have "mapped = mark" if "?s = []" using m(3) that by simp
    then have "cleanLog l cleaner mark nowMs = (Inr ?c, l)" "cr_nextDirtyOffset ?c = mapped" "cr_recordsDropped ?c = 0"
      using True m(1) by (auto simp: cleanLog_def sealedSegments_info Let_def)
    moreover have "pass_outcome rs l mark nowMs m mapped (\<lambda>_. True)"
    proof -
      have "isLatest key off m" if "rs \<noteq> []" for key off
      proof -
        have "?s \<noteq> []" using that sealed_holds_length [OF h(5)] by (auto simp: rs_def)
        with True have "km_size m = 0" by blast
        then show ?thesis by (simp add: isLatest_def km_size_def)
      qed
      then show ?thesis unfolding pass_outcome_def using source mapped_all by fastforce
    qed
    ultimately show ?thesis
      unfolding rs_def [symmetric] using h(1) assms(1) same le aligned
      by (intro exI [of _ ?c] exI [of _ l] exI [of _ bss] exI [of _ m] exI [of _ mapped] exI [of _ "\<lambda>_. True"])
        (auto simp: mark_aligned_def rs_def)
  next
    case False
    let ?rules = "\<lparr>rl_map = Some m, rl_nowMs = nowMs,
      rl_deleteRetentionMs = cp_deleteRetentionMs (lc_compaction (lg_config l))\<rparr>"
    let ?K = "\<lambda>r. mapped \<le> lr_offset r \<or> keeps ?rules r"
    let ?c = "?cr\<lparr>cr_mapFilled := \<not> taken, cr_keysMapped := km_size m, cr_nextDirtyOffset := mapped\<rparr>"
    obtain cr' bss' sealed' g where c: "clean_segments ?rules nowMs mapped (map info_of ?s) ?c l =
          (Inr cr', l\<lparr>lg_sealed := sealed', lg_graveyard := g\<rparr>)"
        "log_holds bss' cs (l\<lparr>lg_sealed := sealed', lg_graveyard := g\<rparr>)"
        "\<forall>(b', seg') \<in> set sealed'. \<exists>seg. (b', seg) \<in> set ?s \<and> sg_nextOffset seg' \<le> sg_nextOffset seg"
        "list_all (list_all rewritable) bss'" "list_all2 (\<lambda>bs (b, _). segment_fits b bs) bss' sealed'"
        "records_in (concat bss') = filter ?K rs"
        "cr_recordsDropped cr' = length (filter (\<lambda>r. \<not> ?K r) rs)" "cr_nextDirtyOffset cr' = mapped"
      using clean_segments_ok [of "[]" bss cs l "[]" ?s mapped ?rules nowMs ?c] h aligned unfolding rs_def [symmetric]
      by auto
    have "cleanLog l cleaner mark nowMs = (Inr cr', l\<lparr>lg_sealed := sealed', lg_graveyard := g\<rparr>)"
      using False m(1) c(1) by (simp add: cleanLog_def sealedSegments_info Let_def)
    moreover have "cleanable bss' cs (l\<lparr>lg_sealed := sealed', lg_graveyard := g\<rparr>)"
    proof -
      have "{key. \<exists>r \<in> set (filter ?K rs). lr_key r = Some key} \<subseteq> {key. \<exists>r \<in> set rs. lr_key r = Some key}"
        by auto
      then show ?thesis
        unfolding cleanable_def c(6) using c(2,4,5) h(2) inj_on_subset [OF h(6)] by simp
    qed
    moreover have "mark_aligned mapped sealed'"
      using c(3) aligned unfolding mark_aligned_def by force
    moreover have "pass_outcome rs l mark nowMs m mapped ?K"
      unfolding pass_outcome_def
    proof (intro conjI)
      show "\<forall>r \<in> set rs. \<forall>key. lr_key r = Some key \<longrightarrow> mark \<le> lr_offset r \<longrightarrow> lr_offset r < mapped \<longrightarrow>
          (\<exists>off \<ge> lr_offset r. get_offset key m = Some off)"
        using mapped_all by blast
      show "\<forall>key off. get_offset key m = Some off \<longrightarrow>
          (\<exists>r \<in> set rs. \<exists>k. lr_key r = Some k \<and> digestOf k = digestOf key \<and> lr_offset r = off)"
        using source by blast
    qed (auto simp: keeps_def not_le split: option.splits)
    ultimately show ?thesis
      unfolding rs_def [symmetric] using c(2,6-8) le
      by (intro exI [of _ cr'] exI [of _ "l\<lparr>lg_sealed := sealed', lg_graveyard := g\<rparr>"] exI [of _ bss'] exI [of _ m]
          exI [of _ mapped] exI [of _ ?K]) (auto simp del: filter_filter)
  qed
qed

text \<open>The value a consumer that reads the whole of \<open>rs\<close> ends up with for a key; none when the key
was never written or its last record is a tombstone.\<close>

definition last_value :: "log_record list \<Rightarrow> byte list \<Rightarrow> byte list option" where
  "last_value rs key = (let ks = filter (\<lambda>r. lr_key r = Some key) rs in if ks = [] then None else lr_value (last ks))"

lemma isLatest_None: "get_offset key m = None \<Longrightarrow> isLatest key off m"
  by (simp add: isLatest_get)

lemma pass_not_latest:
  assumes "pass_outcome rs l mark nowMs m mapped K" "inj_on digestOf {key. \<exists>r \<in> set rs. lr_key r = Some key}"
    and "r \<in> set rs" "lr_key r = Some key" "\<not> isLatest key (lr_offset r) m"
  shows "\<exists>r' \<in> set rs. lr_key r' = Some key \<and> lr_offset r < lr_offset r'"
proof -
  obtain off where off: "get_offset key m = Some off" "lr_offset r < off"
    using assms(5) by (auto simp: isLatest_get not_le)
  then obtain r' k where r': "r' \<in> set rs" "lr_key r' = Some k" "digestOf k = digestOf key" "lr_offset r' = off"
    using assms(1) unfolding pass_outcome_def by blast
  have "k = key" by (rule inj_onD [OF assms(2) r'(3)]) (use r' assms(3,4) in auto)
  with r' off show ?thesis by blast
qed

lemma pass_keeps_view:
  assumes "pass_outcome rs l mark nowMs m mapped K" "inj_on digestOf {key. \<exists>r \<in> set rs. lr_key r = Some key}"
    and "sorted_wrt (<) (map lr_offset rs)" "unique_below mark rs"
  shows "last_value (filter K rs) key = last_value rs key"
proof (cases "filter (\<lambda>r. lr_key r = Some key) rs" rule: rev_cases)
  case Nil
  then have "filter (\<lambda>r. lr_key r = Some key) (filter K rs) = []" by (auto simp: filter_empty_conv)
  with Nil show ?thesis by (simp add: last_value_def Let_def del: filter_filter)
next
  case (snoc older r)
  have comm: "filter (\<lambda>r. lr_key r = Some key) (filter K rs) = filter K older @ filter K [r]"
    using arg_cong [OF snoc, of "filter K"] by (simp add: conj_commute)
  have mem: "r \<in> set rs" "lr_key r = Some key" and old: "\<forall>x \<in> set older. x \<in> set rs \<and> lr_key x = Some key"
    using arg_cong [OF snoc, of set] by auto
  have "sorted_wrt (<) (map lr_offset (older @ [r]))"
    using assms(3) unfolding snoc [symmetric] by (simp add: sorted_wrt_map sorted_wrt_filter)
  then have before: "\<forall>x \<in> set older. lr_offset x < lr_offset r" by (simp add: sorted_wrt_append)
  have last: "lr_offset x \<le> lr_offset r" if "x \<in> set rs" "lr_key x = Some key" for x
  proof -
    have "x \<in> set (older @ [r])" using that unfolding snoc [symmetric] by simp
    with before show ?thesis by auto
  qed
  show ?thesis
  proof (cases "K r")
    case True
    then show ?thesis using comm snoc by (simp add: last_value_def Let_def del: filter_filter)
  next
    case False
    with assms(1) mem obtain below: "lr_offset r < mapped"
      and why: "\<not> isLatest key (lr_offset r) m \<or> lr_value r = None"
      unfolding pass_outcome_def by force
    have latest: "isLatest key (lr_offset r) m"
      using pass_not_latest [OF assms(1,2) mem] last by force
    have "\<not> K x" if x: "x \<in> set older" for x
    proof
      assume "K x"
      then have x_latest: "isLatest key (lr_offset x) m"
        using assms(1) old before below x unfolding pass_outcome_def by fastforce
      show False
      proof (cases "mark \<le> lr_offset r")
        case True
        then obtain off where "get_offset key m = Some off" "lr_offset r \<le> off"
          using assms(1) mem below unfolding pass_outcome_def by blast
        with x_latest before x show False by (force simp: isLatest_get)
      next
        case False
        with assms(4) mem old before x show False unfolding unique_below_def by fastforce
      qed
    qed
    then have "filter K older = []" by (simp add: filter_empty_conv)
    with comm snoc False why latest show ?thesis by (simp add: last_value_def Let_def del: filter_filter)
  qed
qed

lemma pass_unique:
  assumes "pass_outcome rs l mark nowMs m mapped K" "unique_below mark rs"
  shows "unique_below mapped (filter K rs)"
proof -
  have le: "lr_offset r' \<le> lr_offset r" if r: "r \<in> set rs" "K r" "lr_offset r < mapped"
      and r': "r' \<in> set rs" "lr_offset r' < mapped" and key: "lr_key r = Some key" "lr_key r' = Some key"
    for r r' key
  proof (cases "mark \<le> lr_offset r'")
    case True
    then obtain off where "get_offset key m = Some off" "lr_offset r' \<le> off"
      using assms(1) r' key(2) unfolding pass_outcome_def by blast
    moreover have "isLatest key (lr_offset r) m"
      using assms(1) r key(1) unfolding pass_outcome_def by blast
    ultimately show ?thesis by (auto simp: isLatest_get)
  next
    case False
    with assms(2) r r' key show ?thesis unfolding unique_below_def by fastforce
  qed
  show ?thesis
    unfolding unique_below_def
    using le by (force intro!: antisym)
qed

lemma records_sorted:
  "ascending n bs \<Longrightarrow> list_all rewritable bs \<Longrightarrow>
    sorted_wrt (<) (map lr_offset (records_in bs)) \<and> (\<forall>r \<in> set (records_in bs). n \<le> lr_offset r)"
proof (induction bs arbitrary: n)
  case (Cons b bs)
  let ?rs = "batch_records b"
  have b: "rewritable b" "n \<le> bh_baseOffset (hdr b)" using Cons.prems by simp_all
  have "sorted_wrt (<) (map lr_offset ?rs)"
  proof (cases "?rs = []")
    case False
    then have "entries_ok (entries_from ?rs)" using rewritable_selection(1) [OF b(1), of ?rs "\<lambda>_. True"] by simp
    then show ?thesis by (simp add: entries_ok_def entries_from_def entry_from_def comp_def sorted_wrt_map)
  qed simp
  moreover have "\<forall>r \<in> set ?rs. n \<le> lr_offset r \<and> lr_offset r < lastOffset (hdr b) + 1"
    using b by (fastforce simp: rewritable_def)
  moreover have "sorted_wrt (<) (map lr_offset (records_in bs)) \<and>
      (\<forall>r \<in> set (records_in bs). lastOffset (hdr b) + 1 \<le> lr_offset r)"
    using Cons.prems by (intro Cons.IH) simp_all
  moreover have "n \<le> lastOffset (hdr b) + 1"
    using b(2) batch_wf_lastOffset [of b] Cons.prems(1) by simp
  ultimately show ?case by (fastforce simp: sorted_wrt_append)
qed simp

lemma cleanable_sorted:
  assumes "cleanable bss cs l"
  shows "sorted_wrt (<) (map lr_offset (records_in (concat bss)))"
proof -
  have "log_holds bss cs l" "list_all rewritable (concat bss)"
    using assms by (auto simp: cleanable_def list_all_iff)
  with records_sorted [OF log_ascending(1) [OF _ order_refl]] show ?thesis by blast
qed

lemma last_value_append:
  "last_value (xs @ ys) key = (if \<exists>r \<in> set ys. lr_key r = Some key then last_value ys key else last_value xs key)"
proof (cases "filter (\<lambda>r. lr_key r = Some key) ys = []")
  case True
  then show ?thesis by (auto simp: last_value_def filter_empty_conv)
next
  case False
  then have "\<exists>r \<in> set ys. lr_key r = Some key" by (simp add: filter_empty_conv)
  with False show ?thesis by (simp add: last_value_def Let_def)
qed

subsection \<open>Properties\<close>

text \<open>
  C36. A compaction pass loses no key's value: it always completes on a log it can work on, leaves a
  well-formed log with the same active segment, configuration and end offset, and whoever reads the
  log from the start afterwards ends up with the value for every key that a reader
  before the pass did, deletions included, even for the keys whose last record was an
  expired tombstone that the pass removed.
\<close>

theorem compaction_keeps_values:
  assumes "cleanable bss cs l" "mark_aligned mark (lg_sealed l)" "unique_below mark (records_in (concat bss))"
  shows "\<exists>cr l' bss'. cleanLog l cleaner mark nowMs = (Inr cr, l') \<and> log_holds bss' cs l' \<and>
    lg_active l' = lg_active l \<and> lg_config l' = lg_config l \<and> lg_logEndOffset l' = lg_logEndOffset l \<and>
    (\<forall>key. last_value (records_in (concat bss' @ cs)) key = last_value (records_in (concat bss @ cs)) key)"
proof -
  obtain cr l' bss' m mapped K where p: "cleanLog l cleaner mark nowMs = (Inr cr, l')" "log_holds bss' cs l'"
      "\<exists>s g. l' = l\<lparr>lg_sealed := s, lg_graveyard := g\<rparr>"
      "pass_outcome (records_in (concat bss)) l mark nowMs m mapped K"
      "records_in (concat bss') = filter K (records_in (concat bss))"
    using cleanLog_pass [OF assms(1,2), of cleaner nowMs] by blast
  have inj: "inj_on digestOf {key. \<exists>r \<in> set (records_in (concat bss)). lr_key r = Some key}"
    using assms(1) unfolding cleanable_def by blast
  have "last_value (records_in (concat bss')) key = last_value (records_in (concat bss)) key" for key
    unfolding p(5) by (rule pass_keeps_view [OF p(4) inj cleanable_sorted [OF assms(1)] assms(3)])
  then have "\<forall>key. last_value (records_in (concat bss' @ cs)) key = last_value (records_in (concat bss @ cs)) key"
    unfolding map_append concat_append by (simp only: last_value_append) simp
  with p(1-3) show ?thesis by auto
qed

text \<open>
  C37. Compaction deletes nothing else: the records left are the records of before, in order, with
  their offsets, timestamps, keys, values and headers, and every record that went had a key and
  either a newer record of the same key behind it or was a tombstone past its window.
  The pass reports exactly how many went.
\<close>

theorem compaction_drops_only_obsolete:
  assumes "cleanable bss cs l" "mark_aligned mark (lg_sealed l)"
  shows "\<exists>cr l' bss' K. cleanLog l cleaner mark nowMs = (Inr cr, l') \<and> log_holds bss' cs l' \<and>
    records_in (concat bss') = filter K (records_in (concat bss)) \<and>
    cr_recordsDropped cr = length (filter (\<lambda>r. \<not> K r) (records_in (concat bss))) \<and>
    (\<forall>r \<in> set (records_in (concat bss)). \<not> K r \<longrightarrow> (\<exists>key. lr_key r = Some key \<and>
      ((\<exists>r' \<in> set (records_in (concat bss)). lr_key r' = Some key \<and> lr_offset r < lr_offset r') \<or>
       lr_value r = None \<and> cp_deleteRetentionMs (lc_compaction (lg_config l)) \<le> nowMs - lr_timestamp r)))"
proof -
  obtain cr l' bss' m mapped K where p: "cleanLog l cleaner mark nowMs = (Inr cr, l')" "log_holds bss' cs l'"
      "pass_outcome (records_in (concat bss)) l mark nowMs m mapped K"
      "records_in (concat bss') = filter K (records_in (concat bss))"
      "cr_recordsDropped cr = length (filter (\<lambda>r. \<not> K r) (records_in (concat bss)))"
    using cleanLog_pass [OF assms, of cleaner nowMs] by blast
  have inj: "inj_on digestOf {key. \<exists>r \<in> set (records_in (concat bss)). lr_key r = Some key}"
    using assms(1) unfolding cleanable_def by blast
  have "\<exists>key. lr_key r = Some key \<and>
      ((\<exists>r' \<in> set (records_in (concat bss)). lr_key r' = Some key \<and> lr_offset r < lr_offset r') \<or>
       lr_value r = None \<and> cp_deleteRetentionMs (lc_compaction (lg_config l)) \<le> nowMs - lr_timestamp r)"
    if r: "r \<in> set (records_in (concat bss))" "\<not> K r" for r
  proof -
    obtain key where "lr_key r = Some key" "\<not> isLatest key (lr_offset r) m \<or>
        lr_value r = None \<and> cp_deleteRetentionMs (lc_compaction (lg_config l)) \<le> nowMs - lr_timestamp r"
      using p(3) r unfolding pass_outcome_def by blast
    with pass_not_latest [OF p(3) inj r(1)] show ?thesis by blast
  qed
  with p(1,2,4,5) show ?thesis by blast
qed

subsection \<open>How far a pass gets\<close>

text \<open>The dirty segments, the ones that end above the mark, and how many different keys some segments have.\<close>

type_synonym dirty_segment = "byte list list \<times> int \<times> segment"

definition dirty_segments :: "int \<Rightarrow> byte list list list \<Rightarrow> (int \<times> segment) list \<Rightarrow> dirty_segment list" where
  "dirty_segments mark bss sealed = filter (\<lambda>(_, _, seg). mark < sg_nextOffset seg) (zip bss sealed)"

definition keys_in :: "dirty_segment list \<Rightarrow> nat" where
  "keys_in segs = card {key. \<exists>r \<in> set (records_in (concat (map fst segs))). lr_key r = Some key}"

text \<open>The mark once these segments are mapped: the end of the last of them.\<close>

definition mark_after :: "int \<Rightarrow> dirty_segment list \<Rightarrow> int" where
  "mark_after mark segs = (if segs = [] then mark else sg_nextOffset (snd (snd (last segs))))"

lemma dirty_segments_Cons [simp]:
  "dirty_segments mark (bs # bss) ((b, seg) # sealed) =
    (if mark < sg_nextOffset seg then [(bs, b, seg)] else []) @ dirty_segments mark bss sealed"
  "dirty_segments mark [] [] = []"
  by (simp_all add: dirty_segments_def)

lemma put_all_fits:
  "km_ok m \<Longrightarrow> fst (put_all put xs m) \<longleftrightarrow> card (fst ` set (km_entries m) \<union> digestOf ` fst ` set xs) \<le> km_maxEntries m"
proof (induction xs arbitrary: m)
  case Nil
  then show ?case by (simp add: km_ok_def distinct_card flip: set_map)
next
  case (Cons x xs)
  obtain key off where x: "x = (key, off)" by (cases x)
  obtain taken m1 where p: "put key off m = (taken, m1)" by fastforce
  have m1: "km_ok m1" "km_maxEntries m1 = km_maxEntries m" using put_ok [OF Cons.prems, of key off] p by simp_all
  show ?case
  proof (cases taken)
    case True
    have "fst ` set (km_entries m1) = insert (digestOf key) (fst ` set (km_entries m))"
    proof (cases "map_of (km_entries m) (digestOf key)")
      case None
      with p True show ?thesis by (auto simp: put_def Let_def split: if_splits)
    next
      case (Some found)
      then have "digestOf key \<in> fst ` set (km_entries m)" by (metis map_of_SomeD image_iff fst_conv)
      moreover have "fst ` set (AList.update (digestOf key) off (km_entries m)) = insert (digestOf key) (fst ` set (km_entries m))"
        using dom_update [of "digestOf key" off "km_entries m"] by (simp add: dom_map_of_conv_image_fst)
      moreover have "km_entries m1 = AList.update (digestOf key) off (km_entries m) \<or> m1 = m"
        using p Some by (auto simp: put_def Let_def split: if_splits)
      ultimately show ?thesis by (metis insert_absorb)
    qed
    with Cons.IH [OF m1(1)] p True x m1(2) show ?thesis by simp
  next
    case False
    then have "map_of (km_entries m) (digestOf key) = None" "km_maxEntries m \<le> length (km_entries m)"
      using p by (auto simp: put_def Let_def split: option.splits if_splits)
    then have fresh: "digestOf key \<notin> fst ` set (km_entries m)" "km_maxEntries m \<le> card (fst ` set (km_entries m))"
      using Cons.prems by (simp_all add: map_of_eq_None_iff km_ok_def distinct_card flip: set_map)
    have "card (insert (digestOf key) (fst ` set (km_entries m))) \<le> card (fst ` set (km_entries m) \<union> digestOf ` fst ` set (x # xs))"
      using x by (intro card_mono) auto
    then have "\<not> card (fst ` set (km_entries m) \<union> digestOf ` fst ` set (x # xs)) \<le> km_maxEntries m" using fresh by simp
    with False p x show ?thesis by simp
  qed
qed

lemma budget_fits:
  assumes "inj_on digestOf keys" "{key. \<exists>r \<in> set (records_in (concat (map fst segs))). lr_key r = Some key} \<subseteq> keys"
  shows "fst (put_all put (keyed (records_in (concat (map fst segs)))) (KeyOffsetMap budget)) \<longleftrightarrow> keys_in segs \<le> budget"
proof -
  let ?rs = "records_in (concat (map fst segs))"
  have "fst ` set (keyed ?rs) = {key. \<exists>r \<in> set ?rs. lr_key r = Some key}"
  proof (intro set_eqI iffI)
    show "key \<in> fst ` set (keyed ?rs)" if has: "key \<in> {key. \<exists>r \<in> set ?rs. lr_key r = Some key}" for key
    proof -
      obtain r where "r \<in> set ?rs" "lr_key r = Some key" using has by blast
      then have "(key, lr_offset r) \<in> set (keyed ?rs)" unfolding keyed_mem by blast
      then show ?thesis by force
    qed
  qed (force simp: keyed_mem)
  moreover have "card (digestOf ` {key. \<exists>r \<in> set ?rs. lr_key r = Some key}) = keys_in segs"
    unfolding keys_in_def by (rule card_image [OF inj_on_subset [OF assms]])
  ultimately show ?thesis using put_all_fits [of "KeyOffsetMap budget" "keyed ?rs"] by (simp add: KeyOffsetMap_def km_ok_def)
qed

lemma map_segments_reach:
  assumes "list_all2 (readable dir) bss sealed" "map_segments dir mark (map info_of sealed) m from = Inr (taken, m', mapped)"
  shows "\<exists>k \<le> length (dirty_segments mark bss sealed). mapped = mark_after from (take k (dirty_segments mark bss sealed)) \<and>
    (0 < k \<longrightarrow> fst (put_all put (keyed (records_in (concat (map fst (take k (dirty_segments mark bss sealed)))))) m)) \<and>
    (k < length (dirty_segments mark bss sealed) \<longrightarrow>
      \<not> fst (put_all put (keyed (records_in (concat (map fst (take (Suc k) (dirty_segments mark bss sealed)))))) m))"
  using assms
proof (induction bss sealed arbitrary: m "from" rule: list_induct2')
  case (4 bs bss a sealed)
  obtain b seg where a: "a = (b, seg)" by (cases a)
  have h: "dir (logFileName seg) = Some (concat bs)" "list_all rewritable bs" "list_all2 (readable dir) bss sealed"
    using "4.prems"(1) a by (simp_all add: readable_pair)
  let ?D = "dirty_segments mark bss sealed"
  show ?case
  proof (cases "sg_nextOffset seg \<le> mark")
    case True
    with "4.IH" [OF h(3), of m "from"] "4.prems"(2) a show ?thesis by simp
  next
    case False
    obtain ok m1 where m1: "put_all put (keyed (records_in bs)) m = (ok, m1)" by fastforce
    have step: "map_segments dir mark (map info_of (a # sealed)) m from =
        (if ok then map_segments dir mark (map info_of sealed) m1 (sg_nextOffset seg) else Inr (False, m1, from))"
      using False m1 a h(1,2) scanSegment_concat [of bs "[]"]
      by (cases "scanSegment (concat bs) 0") (auto simp: open_log_file_def rewritable_valid map_batches_put_all)
    show ?thesis
    proof (cases ok)
      case True
      then obtain k where k: "k \<le> length ?D" "mapped = mark_after (sg_nextOffset seg) (take k ?D)"
          "0 < k \<longrightarrow> fst (put_all put (keyed (records_in (concat (map fst (take k ?D))))) m1)"
          "k < length ?D \<longrightarrow> \<not> fst (put_all put (keyed (records_in (concat (map fst (take (Suc k) ?D))))) m1)"
        using "4.IH" [OF h(3), of m1 "sg_nextOffset seg"] "4.prems"(2) step by auto
      have first: "fst (put_all put (keyed (records_in (concat (map fst ((bs, b, seg) # segs))))) m) \<longleftrightarrow>
          fst (put_all put (keyed (records_in (concat (map fst segs)))) m1)" for segs
        using m1 True by (simp add: put_all_append split: prod.split)
      have "mapped = mark_after from ((bs, b, seg) # take k ?D)" using k(2) by (simp add: mark_after_def)
      moreover have "fst (put_all put (keyed (records_in (concat (map fst ((bs, b, seg) # take k ?D))))) m)"
        unfolding first using k(3) by (cases "k = 0") simp_all
      moreover have "k < length ?D \<longrightarrow> \<not> fst (put_all put (keyed (records_in (concat (map fst ((bs, b, seg) # take (Suc k) ?D))))) m)"
        unfolding first using k(4) .
      ultimately show ?thesis using False a k(1) by (intro exI [of _ "Suc k"]) simp
    next
      case ok: False
      then show ?thesis using False a m1 step "4.prems"(2) by (intro exI [of _ 0]) (simp add: mark_after_def)
    qed
  qed
qed (simp_all add: mark_after_def dirty_segments_def)

lemma clean_segment_next:
  "clean_segment rules nowMs info cr l = (Inr cr', l') \<Longrightarrow> cr_nextDirtyOffset cr' = cr_nextDirtyOffset cr \<and>
    cr_mapFilled cr' = cr_mapFilled cr"
  by (auto simp: clean_segment_def Let_def split: sum.splits option.splits if_splits prod.splits)

lemma clean_segments_next:
  "clean_segments rules nowMs mapped infos cr l = (Inr cr', l') \<Longrightarrow> cr_nextDirtyOffset cr' = cr_nextDirtyOffset cr \<and>
    cr_mapFilled cr' = cr_mapFilled cr"
proof (induction infos arbitrary: cr l)
  case (Cons info infos)
  show ?case
  proof (cases "mapped \<le> si_baseOffset info")
    case False
    then obtain cr1 l1 where "clean_segment rules nowMs info cr l = (Inr cr1, l1)"
        "clean_segments rules nowMs mapped infos cr1 l1 = (Inr cr', l')"
      using Cons.prems by (auto split: prod.splits sum.splits)
    with Cons.IH clean_segment_next show ?thesis by metis
  qed (use Cons.prems in simp)
qed simp

lemma cleanLog_mark:
  assumes "cleanable bss cs l" "cleanLog l cleaner mark nowMs = (Inr cr, l')"
  shows "\<exists>k \<le> length (dirty_segments mark bss (lg_sealed l)).
    cr_nextDirtyOffset cr = mark_after mark (take k (dirty_segments mark bss (lg_sealed l))) \<and>
    keys_in (take k (dirty_segments mark bss (lg_sealed l))) \<le> cc_maxKeyMapEntries cleaner \<and>
    (k < length (dirty_segments mark bss (lg_sealed l)) \<longrightarrow>
      cc_maxKeyMapEntries cleaner < keys_in (take (Suc k) (dirty_segments mark bss (lg_sealed l))))"
proof (cases "lg_sealed l = []")
  case True
  then have "dirty_segments mark bss (lg_sealed l) = []" "cr_nextDirtyOffset cr = mark"
    using assms(2) by (auto simp: dirty_segments_def cleanLog_def sealedSegments_info)
  then show ?thesis by (simp add: mark_after_def keys_in_def)
next
  case False
  let ?D = "dirty_segments mark bss (lg_sealed l)" and ?budget = "cc_maxKeyMapEntries cleaner"
  obtain taken m mapped where m: "map_segments (log_dir l) mark (map info_of (lg_sealed l)) (KeyOffsetMap ?budget) mark = Inr (taken, m, mapped)"
    using assms(2) False by (auto simp: cleanLog_def sealedSegments_info Let_def split: sum.splits)
  then have mapped: "cr_nextDirtyOffset cr = mapped"
    using assms(2) False clean_segments_next
    by (fastforce simp: cleanLog_def sealedSegments_info Let_def split: if_splits)
  have h: "log_holds bss cs l" "list_all (list_all rewritable) bss"
      "inj_on digestOf {key. \<exists>r \<in> set (records_in (concat bss)). lr_key r = Some key}"
    using assms(1) by (simp_all add: cleanable_def)
  have "set (records_in (concat (map fst (take j ?D)))) \<subseteq> set (records_in (concat bss))" for j
  proof -
    have "set (map fst (take j ?D)) \<subseteq> set bss"
      by (auto simp: dirty_segments_def dest!: in_set_takeD set_zip_leftD)
    then show ?thesis by fastforce
  qed
  then have fits: "fst (put_all put (keyed (records_in (concat (map fst (take j ?D))))) (KeyOffsetMap ?budget)) \<longleftrightarrow> keys_in (take j ?D) \<le> ?budget" for j
    by (intro budget_fits [OF h(3)]) blast
  from map_segments_reach [OF sealed_readable [OF h(1,2)] m] obtain k where k: "k \<le> length ?D" "mapped = mark_after mark (take k ?D)"
      "0 < k \<longrightarrow> keys_in (take k ?D) \<le> ?budget" "k < length ?D \<longrightarrow> \<not> keys_in (take (Suc k) ?D) \<le> ?budget"
    unfolding fits by blast
  moreover have "keys_in (take k ?D) \<le> ?budget" using k(3) by (cases k) (simp_all add: keys_in_def)
  ultimately show ?thesis using mapped by (intro exI [of _ k]) (simp add: not_le)
qed

text \<open>
  C38. A pass gets as far as its budget of keys allows: from the mark on it takes in the dirty segments one after the other,
  as many as have no more different keys together than the budget, and the mark moves to the end of the last
  of them, so it stays only when there is no dirty segment or the first alone is over the budget. Below the new
  mark every key is left with one record at most; what the next pass relies on holds again, so this goes
  on for as long as the cleaner runs.
\<close>

theorem compaction_one_record_per_key:
  assumes "cleanable bss cs l" "mark_aligned mark (lg_sealed l)" "unique_below mark (records_in (concat bss))"
  shows "\<exists>cr l' bss' k. cleanLog l cleaner mark nowMs = (Inr cr, l') \<and>
    k \<le> length (dirty_segments mark bss (lg_sealed l)) \<and>
    keys_in (take k (dirty_segments mark bss (lg_sealed l))) \<le> cc_maxKeyMapEntries cleaner \<and>
    (k < length (dirty_segments mark bss (lg_sealed l)) \<longrightarrow>
      cc_maxKeyMapEntries cleaner < keys_in (take (Suc k) (dirty_segments mark bss (lg_sealed l)))) \<and>
    cr_nextDirtyOffset cr = mark_after mark (take k (dirty_segments mark bss (lg_sealed l))) \<and>
    (k = 0 \<longleftrightarrow> cr_nextDirtyOffset cr = mark) \<and> mark \<le> cr_nextDirtyOffset cr \<and>
    cleanable bss' cs l' \<and> mark_aligned (cr_nextDirtyOffset cr) (lg_sealed l') \<and>
    unique_below (cr_nextDirtyOffset cr) (records_in (concat bss'))"
proof -
  let ?D = "dirty_segments mark bss (lg_sealed l)"
  obtain cr l' bss' m mapped K where p: "cleanLog l cleaner mark nowMs = (Inr cr, l')" "cleanable bss' cs l'"
      "mark_aligned mapped (lg_sealed l')" "mark \<le> mapped" "cr_nextDirtyOffset cr = mapped"
      "pass_outcome (records_in (concat bss)) l mark nowMs m mapped K"
      "records_in (concat bss') = filter K (records_in (concat bss))"
    using cleanLog_pass [OF assms(1,2), of cleaner nowMs] by blast
  obtain k where k: "k \<le> length ?D" "cr_nextDirtyOffset cr = mark_after mark (take k ?D)" "keys_in (take k ?D) \<le> cc_maxKeyMapEntries cleaner"
      "k < length ?D \<longrightarrow> cc_maxKeyMapEntries cleaner < keys_in (take (Suc k) ?D)"
    using cleanLog_mark [OF assms(1) p(1)] by blast
  have "mark < sg_nextOffset (snd (snd x))" if "x \<in> set (take k ?D)" for x
    using in_set_takeD [OF that] by (auto simp: dirty_segments_def)
  then have "mark < mark_after mark (take k ?D)" if "take k ?D \<noteq> []"
    using that last_in_set [OF that] by (simp add: mark_after_def)
  then have "k = 0 \<longleftrightarrow> cr_nextDirtyOffset cr = mark"
    using k(1,2) by (cases "take k ?D = []") (auto simp: mark_after_def)
  with k p pass_unique [OF p(6) assms(3)] show ?thesis
    by (intro exI [of _ cr] exI [of _ l'] exI [of _ bss'] exI [of _ k]) simp
qed

subsection \<open>Two limits of the cleaner\<close>

lemma scan_stops_damaged:
  assumes "batch_wf b" "verifyCrc b = Inr False"
  shows "scan_stops (b @ others)"
proof -
  note len = batch_wf_length [OF assms(1)]
  have "totalSizeOf (take 61 b) = Inr (length b)" using assms(1) by (simp add: batch_wf_def totalSizeOf_take)
  then show ?thesis
    using assms len unfolding scan_stops_def
    by (subst scanSegment.simps) (simp add: batch_consts batch_wf_def)
qed

text \<open>
  The rewrite of a segment ends at the first batch whose checksum fails: the cleaned segment
  holds the retained records of the batches before it and nothing of what lies behind it,
  however many intact batches that is, and the rewrite reports success.
\<close>

lemma rewrite_stops_at_damage:
  assumes "list_all rewritable bs" "ascending base bs" "segment_fits base bs" "8 \<le> rp_maxIndexBytes roll"
    and "batch_wf damaged" "verifyCrc damaged = Inr False"
  shows "\<exists>c outs. rewriteSegment (concat bs @ damaged @ others) base roll rules = Inr c \<and>
    cs_log c = concat outs \<and> records_in outs = filter (keeps rules) (records_in bs)"
proof -
  obtain outs c where "rewriteSegment (concat bs @ damaged @ others) base roll rules = Inr c" "cs_log c = concat outs"
      "records_in outs = filter (keeps rules) (records_in bs)"
    using rewriteSegment_ok [OF assms(1,2) scan_stops_damaged [OF assms(5,6), of others] assms(4),
        where rules = rules] assms(3)
    unfolding segment_fits_def by blast
  then show ?thesis by blast
qed

lemma map_segments_skip:
  "\<forall>(_, seg) \<in> set before. sg_nextOffset seg \<le> fd \<Longrightarrow>
    map_segments dir fd (map info_of (before @ rest_of)) m from = map_segments dir fd (map info_of rest_of) m from"
  by (induction before) auto

text \<open>
  A budget that fills inside the first dirty segment stops the cleaner there: the pass
  completes and says that its map filled, but the mark stays where it was, so that the next
  pass of the same budget starts at the same segment.
\<close>

lemma small_budget_stalls:
  assumes "cleanable (bss1 @ bs # bss2) cs l" "mark_aligned mark (lg_sealed l)"
    and "lg_sealed l = before @ (b, seg) # after" "length bss1 = length before"
    and "\<forall>(_, s) \<in> set before. sg_nextOffset s \<le> mark" "mark < sg_nextOffset seg"
    and "\<not> fst (put_all put (keyed (records_in bs)) (KeyOffsetMap (cc_maxKeyMapEntries cleaner)))"
  shows "\<exists>cr l'. cleanLog l cleaner mark nowMs = (Inr cr, l') \<and> cr_nextDirtyOffset cr = mark \<and> cr_mapFilled cr"
proof -
  have h: "log_holds (bss1 @ bs # bss2) cs l" "list_all rewritable bs"
    using assms(1) by (simp_all add: cleanable_def)
  let ?m0 = "KeyOffsetMap (cc_maxKeyMapEntries cleaner)"
  obtain m1 where m1: "put_all put (keyed (records_in bs)) ?m0 = (False, m1)"
    using assms(7) by (cases "put_all put (keyed (records_in bs)) ?m0") auto
  have "scanSegment (concat bs) 0 = Inr (scanned 0 bs)"
    using scanSegment_concat [of bs "[]"] h(2) by (simp add: rewritable_valid)
  then have "map_segments (log_dir l) mark (map info_of (lg_sealed l)) ?m0 mark = Inr (False, m1, mark)"
    unfolding assms(3) map_segments_skip [OF assms(5)]
    using log_segment(5) [OF h(1) assms(4,3)] assms(6) m1
    by (simp add: open_log_file_def map_batches_put_all [OF h(2)])
  then have clean: "\<exists>c cr l'. cleanLog l cleaner mark nowMs = (c, l') \<and>
      (\<forall>cr. c = Inr cr \<longrightarrow> cr_nextDirtyOffset cr = mark \<and> cr_mapFilled cr)"
    using assms(3) clean_segments_next
    by (cases "cleanLog l cleaner mark nowMs")
      (fastforce simp: cleanLog_def sealedSegments_info Let_def split: if_splits)
  moreover obtain cr l' where "cleanLog l cleaner mark nowMs = (Inr cr, l')"
    using cleanLog_pass [OF assms(1,2), of cleaner nowMs] by blast
  ultimately show ?thesis by auto
qed

subsection \<open>A concrete log\<close>

text \<open>One sealed segment of two batches that write the same key.\<close>

abbreviation demo_record :: "int \<Rightarrow> byte \<Rightarrow> log_record" where
  "demo_record off v \<equiv> \<lparr>lr_offset = off, lr_timestamp = 0, lr_key = Some [1], lr_value = Some [v], lr_headers = []\<rparr>"

lemma demo_batch:
  assumes "0 \<le> off" "off < 100"
  shows "\<exists>b. rewritable b \<and> batch_records b = [demo_record off v] \<and> bh_baseOffset (hdr b) = off \<and>
    lastOffset (hdr b) = off \<and> batch_room b = 87 \<and> length b \<le> 87"
proof -
  have v: "varint_bytes 0 = [0]" "varint_bytes 1 = [2]" "varlong_bytes 0 = [0]" "varint_bytes 8 = [16]"
    by code_simp+
  have ok: "entries_ok (entries_from [demo_record off v])"
    using v by (simp add: entries_ok_def entries_from_def entry_from_def records_of_def record_of_def record_ok_def
        record_body_def record_repr_def nullable_repr_def nullable_ok_def range_simps)
  have room: "record_room (demo_record off v) = 26"
    using v by (simp add: record_room_def nullable_repr_def)
  obtain b where b: "valid_batch b" "batch_records b = [demo_record off v]" "\<exists>rs. decodeRecords b = Inr rs"
      "length b \<le> 61 + sum_list (map record_room [demo_record off v])"
      "bh_baseOffset (hdr b) = off" "lastOffset (hdr b) = off"
    using rewritten_batch [OF _ ok] assms by auto
  then have "rewritable b" using ok assms by (simp add: rewritable_def)
  with b room show ?thesis by (intro exI [of _ b]) (simp add: batch_room_def)
qed

lemma sealed_log:
  assumes "list_all batch_wf bs" "contiguous 0 bs" "index_fits 0 bs"
    and bounds: "0 < end_offset 0 bs" "end_offset 0 bs < 2 ^ 63"
  shows "\<exists>l seg. log_holds [bs] [] l \<and> lg_tp l = lg_tp one_log \<and> lg_config l = small_config Compact \<and>
    lg_sealed l = [(0, seg)] \<and> lg_logEndOffset l = end_offset 0 bs \<and> sg_nextOffset seg = end_offset 0 bs"
proof -
  have fresh: "active_holds [] fresh_segment" using active_create_holds(1) [OF fresh_segment_create] .
  obtain seg where app: "append_batches 9 bs fresh_segment = Inr seg"
    using append_batches_total [OF fresh, of bs 9] assms by auto
  have seg: "active_holds bs seg" "sg_baseOffset seg = 0"
    using append_batches_holds [OF fresh _ app] assms(1) by simp_all
  have nextOff: "sg_nextOffset seg = end_offset 0 bs" using active_holdsD(4) [OF seg(1)] seg(2) by simp
  have "0 \<le> sg_baseOffset seg" "sg_baseOffset seg < 2 ^ 63" using seg(2) by simp_all
  from segment_seal_holds [OF seg(1) this] obtain sealed :: segment
    where sealed: "segment_holds bs sealed" "sg_baseOffset sealed = 0" "sg_nextOffset sealed = end_offset 0 bs"
    using seg(2) nextOff by auto
  obtain active where active: "active_holds [] active" "sg_baseOffset active = end_offset 0 bs" "sg_nextOffset active = end_offset 0 bs"
    using active_create_total [of Map.empty "end_offset 0 bs" small_policy] by auto
  let ?l = "log_make (lg_tp one_log) (small_config Compact) [(0, sealed)] active"
  have "log_holds [bs] [] ?l"
    using sealed active bounds by (simp add: log_holds_def log_make_def valid_base_def compacted_def Let_def)
  then show ?thesis
    using active(3) sealed(3) by (intro exI [of _ ?l] exI [of _ sealed]) (simp add: log_make_def)
qed

lemma demo_log:
  "\<exists>bs l seg. cleanable [bs] [] l \<and> mark_aligned 0 (lg_sealed l) \<and> unique_below 0 (records_in (concat [bs])) \<and>
    records_in (concat [bs]) = [demo_record 0 2, demo_record 1 3] \<and> lg_logEndOffset l = 2 \<and>
    lg_sealed l = [(0, seg)] \<and> sg_nextOffset seg = 2 \<and> lg_tp l = lg_tp one_log \<and> lg_config l = small_config Compact"
proof -
  obtain b1 b2 where b1: "rewritable b1" "batch_records b1 = [demo_record 0 2]" "bh_baseOffset (hdr b1) = 0"
      "lastOffset (hdr b1) = 0" "batch_room b1 = 87" "length b1 \<le> 87"
    and b2: "rewritable b2" "batch_records b2 = [demo_record 1 3]" "bh_baseOffset (hdr b2) = 1"
      "lastOffset (hdr b2) = 1" "batch_room b2 = 87" "length b2 \<le> 87"
    using demo_batch [of 0 2] demo_batch [of 1 3] by auto
  have wf: "list_all batch_wf [b1, b2]" using b1(1) b2(1) by (simp add: rewritable_def valid_batch_def)
  have ends: "end_offset 0 [b1, b2] = 2" "contiguous 0 [b1, b2]" "index_fits 0 [b1, b2]"
    using b1 b2 wf by (simp_all add: index_fits_def end_offset_def UINT32_MAX_def)
  obtain l seg where l: "log_holds [[b1, b2]] [] l" "lg_tp l = lg_tp one_log" "lg_config l = small_config Compact"
      "lg_sealed l = [(0, seg)]" "lg_logEndOffset l = 2" "sg_nextOffset seg = 2"
    using sealed_log [OF wf ends(2,3)] ends(1) by auto
  have "segment_fits 0 [b1, b2]"
    using b1(5) b2(5) ends(1) by (simp add: segment_fits_def UINT32_MAX_def)
  with l have "cleanable [[b1, b2]] [] l"
    using b1(1,2) b2(1,2) by (simp add: cleanable_def compacted_def)
  then show ?thesis
    using b1(2) b2(2) l
    by (intro exI [of _ "[b1, b2]"] exI [of _ l] exI [of _ seg]) (simp add: mark_aligned_def unique_below_def)
qed

abbreviation demo_cleaner :: cleaner_config where
  "demo_cleaner \<equiv> \<lparr>cc_maxKeyMapEntries = 10, cc_minCleanableDirtyRatio = 1 / 2, cc_intervalMs = 15000\<rparr>"

theorem compaction_keeps_values_witness:
  "\<exists>l cr l' bss'. cleanLog l demo_cleaner 0 9 = (Inr cr, l') \<and> log_holds bss' [] l' \<and> lg_logEndOffset l' = 2 \<and>
    last_value (records_in (concat bss')) [1] = Some [3]"
proof -
  obtain bss l where l: "cleanable bss [] l" "mark_aligned 0 (lg_sealed l)" "unique_below 0 (records_in (concat bss))"
      "records_in (concat bss) = [demo_record 0 2, demo_record 1 3]" "lg_logEndOffset l = 2"
    using demo_log by blast
  obtain cr l' bss' where p: "cleanLog l demo_cleaner 0 9 = (Inr cr, l')" "log_holds bss' [] l'" "lg_logEndOffset l' = 2"
      "last_value (records_in (concat bss')) [1] = last_value (records_in (concat bss)) [1]"
    using compaction_keeps_values [OF l(1-3), of demo_cleaner 9] l(5) by auto
  then have "last_value (records_in (concat bss')) [1] = Some [3]" unfolding l(4) by (simp add: last_value_def)
  with p(1-3) show ?thesis by blast
qed

theorem compaction_drops_only_obsolete_witness:
  "\<exists>bss l cr l' bss'. length (records_in (concat bss)) = 2 \<and> cleanLog l demo_cleaner 0 9 = (Inr cr, l') \<and>
    log_holds bss' [] l' \<and> length (records_in (concat bss')) + cr_recordsDropped cr = 2"
proof -
  obtain bss l where l: "cleanable bss [] l" "mark_aligned 0 (lg_sealed l)"
      "records_in (concat bss) = [demo_record 0 2, demo_record 1 3]"
    using demo_log by blast
  obtain cr l' bss' K where p: "cleanLog l demo_cleaner 0 9 = (Inr cr, l')" "log_holds bss' [] l'"
      "records_in (concat bss') = filter K (records_in (concat bss))"
      "cr_recordsDropped cr = length (filter (\<lambda>r. \<not> K r) (records_in (concat bss)))"
    using compaction_drops_only_obsolete [OF l(1,2), of demo_cleaner 9] by blast
  have two: "length (records_in (concat bss)) = 2" unfolding l(3) by simp
  then have "length (records_in (concat bss')) + cr_recordsDropped cr = 2"
    using sum_length_filter_compl [of K "records_in (concat bss)"] unfolding p(3,4) by simp
  with p(1,2) two show ?thesis by blast
qed

theorem compaction_one_record_per_key_witness:
  "\<exists>l cr l' bss'. cleanLog l demo_cleaner 0 9 = (Inr cr, l') \<and> cr_nextDirtyOffset cr = 2 \<and>
    cleanable bss' [] l' \<and> unique_below 2 (records_in (concat bss'))"
proof -
  obtain bs l seg where l: "cleanable [bs] [] l" "mark_aligned 0 (lg_sealed l)" "unique_below 0 (records_in (concat [bs]))"
      "records_in (concat [bs]) = [demo_record 0 2, demo_record 1 3]" "lg_sealed l = [(0, seg)]" "sg_nextOffset seg = 2"
    using demo_log by blast
  have dirty: "dirty_segments 0 [bs] (lg_sealed l) = [(bs, 0, seg)]" using l(5,6) by simp
  have "{key. \<exists>r \<in> set [demo_record 0 2, demo_record 1 3]. lr_key r = Some key} = {[1]}" by auto
  then have keys: "keys_in [(bs, 0, seg)] = 1" using l(4) by (simp add: keys_in_def)
  obtain cr l' bss' k where p: "cleanLog l demo_cleaner 0 9 = (Inr cr, l')" "k \<le> 1"
      "k < 1 \<longrightarrow> 10 < keys_in (take (Suc k) [(bs, 0, seg)])" "cr_nextDirtyOffset cr = mark_after 0 (take k [(bs, 0, seg)])"
      "cleanable bss' [] l'" "unique_below (cr_nextDirtyOffset cr) (records_in (concat bss'))"
    using compaction_one_record_per_key [OF l(1-3), of demo_cleaner 9] unfolding dirty by fastforce
  have "k = 1" using p(2,3) keys by (cases k) simp_all
  then have "cr_nextDirtyOffset cr = 2" using p(4) l(6) by (simp add: mark_after_def)
  with p(1,5,6) show ?thesis by auto
qed

end
