(* ===== verification/Log_Manager.thy ===== *)
theory Log_Manager
  imports Partition_Log "HOL-Library.Sublist"
begin

text \<open>
  \<^verbatim>\<open>storage/log_manager.cpp\<close>: the partitions a broker hosts, one directory each. The
  data directory is derived from the state: the directories of the hosted logs, those of the
  removed ones under their renamed names, and the entries nothing owns. The locks are not
  modelled, every operation is one step; the maintenance thread is a step that may happen while it
  runs.
\<close>

subsection \<open>The order of partitions\<close>

instantiation topic_partition_ext :: (linorder) linorder
begin

definition less_eq_topic_partition_ext :: "'a topic_partition_ext \<Rightarrow> 'a topic_partition_ext \<Rightarrow> bool" where
  "less_eq_topic_partition_ext a b \<longleftrightarrow> tp_topic a < tp_topic b \<or> tp_topic a = tp_topic b \<and>
     (tp_partition a < tp_partition b \<or> tp_partition a = tp_partition b \<and>
        topic_partition.more a \<le> topic_partition.more b)"

definition less_topic_partition_ext :: "'a topic_partition_ext \<Rightarrow> 'a topic_partition_ext \<Rightarrow> bool" where
  "less_topic_partition_ext a b \<longleftrightarrow> a \<le> b \<and> \<not> b \<le> a"

instance
  by standard
    (auto simp: less_eq_topic_partition_ext_def less_topic_partition_ext_def intro: topic_partition.equality)

end

subsection \<open>State\<close>

datatype disk_entry = PlainFile | Dir "(string \<times> byte list) list"

record removed_partition =
  rp_log :: partition_log
  rp_directory :: string
  rp_removedAtMs :: int

record log_manager =
  lm_defaults :: log_config
  lm_logs :: "(topic_partition \<times> partition_log) list"
  lm_removed :: "removed_partition list"
  lm_others :: "(string \<times> disk_entry) list"
  lm_running :: bool
  lm_stopRequested :: bool
  lm_sweepCount :: nat
  lm_sweepFailures :: nat

definition kDeletedSuffix :: string where "kDeletedSuffix = ''.delete''"
definition kMetaDirName :: string where "kMetaDirName = ''meta''"

definition ENOTDIR :: int where "ENOTDIR = 20"
definition ENOTEMPTY :: int where "ENOTEMPTY = 39"

definition ends_with :: "string \<Rightarrow> string \<Rightarrow> bool" where
  "ends_with ending name \<longleftrightarrow> length ending \<le> length name \<and> drop (length name - length ending) name = ending"

definition data_dir :: "log_manager \<Rightarrow> (string \<times> disk_entry) list" where
  "data_dir m = map (\<lambda>(tp, l). (tp_toString tp, Dir (log_files l))) (lm_logs m) @
     map (\<lambda>r. (rp_directory r, Dir (log_files (rp_log r)))) (lm_removed m) @ lm_others m"

definition LogManager :: "log_config \<Rightarrow> log_manager" where
  "LogManager defaults = \<lparr>lm_defaults = defaults, lm_logs = [], lm_removed = [], lm_others = [],
     lm_running = False, lm_stopRequested = False, lm_sweepCount = 0, lm_sweepFailures = 0\<rparr>"

subsection \<open>Start-up\<close>

text \<open>The entries in the order the directory is listed. An exception ends the start-up.\<close>

fun load_entries :: "int \<Rightarrow> (string \<times> disk_entry) list \<Rightarrow> log_manager \<Rightarrow> log_manager result" where
  "load_entries now [] m = Inr m"
| "load_entries now ((name, PlainFile) # entries) m =
    load_entries now entries (m\<lparr>lm_others := lm_others m @ [(name, PlainFile)]\<rparr>)"
| "load_entries now ((name, Dir files) # entries) m =
    (if name = kMetaDirName
     then load_entries now entries (m\<lparr>lm_others := lm_others m @ [(name, Dir files)]\<rparr>)
     else if ends_with kDeletedSuffix name then load_entries now entries m
     else bind_r (topicPartitionFromDirName name) (\<lambda>tp.
       bind_r (log_open files tp (lm_defaults m) now) (\<lambda>l.
         load_entries now entries
           (if tp \<in> fst ` set (lm_logs m) then m else m\<lparr>lm_logs := lm_logs m @ [(tp, l)]\<rparr>))))"

definition loadAll :: "(string \<times> disk_entry) list \<Rightarrow> int \<Rightarrow> log_manager \<Rightarrow> log_manager result" where
  "loadAll entries now m = (if lm_logs m \<noteq> [] then Inl Error else load_entries now entries m)"

subsection \<open>Creating and removing partitions\<close>

definition requireUsableName :: "topic_partition \<Rightarrow> unit result" where
  "requireUsableName tp =
    (if \<not> isUsableTopicName (tp_topic tp) then Inl Error
     else if tp_partition tp < 0 then Inl Error else Inr ())"

text \<open>The files a new log finds: none, unless its directory is already there.\<close>

definition existing_files :: "string \<Rightarrow> log_manager \<Rightarrow> directory result" where
  "existing_files name m = (case map_of (data_dir m) name of
     None \<Rightarrow> Inr Map.empty | Some (Dir files) \<Rightarrow> Inr (map_of files) | Some PlainFile \<Rightarrow> Inl (IoError ENOTDIR))"

definition createPartition :: "topic_partition \<Rightarrow> log_config \<Rightarrow> log_manager \<Rightarrow> log_manager result" where
  "createPartition tp config m =
    bind_r (requireUsableName tp) (\<lambda>_.
    if tp \<in> fst ` set (lm_logs m) then Inl Error
    else bind_r (existing_files (tp_toString tp) m) (\<lambda>dir.
      bind_r (log_create dir tp config) (\<lambda>l.
        Inr (m\<lparr>lm_logs := lm_logs m @ [(tp, l)],
               lm_others := filter (\<lambda>(name, _). name \<noteq> tp_toString tp) (lm_others m)\<rparr>))))"

definition createDefaultPartition :: "topic_partition \<Rightarrow> log_manager \<Rightarrow> log_manager result" where
  "createDefaultPartition tp m = createPartition tp (lm_defaults m) m"

definition removePartition :: "topic_partition \<Rightarrow> int \<Rightarrow> log_manager \<Rightarrow> log_manager result" where
  "removePartition tp nowMs m = (case map_of (lm_logs m) tp of
      None \<Rightarrow> Inl Error
    | Some l \<Rightarrow>
        let to = tp_toString tp @ ''.'' @ to_string nowMs @ kDeletedSuffix in
        bind_r (case map_of (data_dir m) to of
            Some PlainFile \<Rightarrow> Inl (IoError ENOTDIR)
          | Some (Dir files) \<Rightarrow> require (files = []) (IoError ENOTEMPTY)
          | None \<Rightarrow> Inr ()) (\<lambda>_.
          Inr (m\<lparr>lm_logs := filter (\<lambda>(t, _). t \<noteq> tp) (lm_logs m),
                 lm_removed := lm_removed m @ [\<lparr>rp_log = l, rp_directory = to, rp_removedAtMs = nowMs\<rparr>],
                 lm_others := filter (\<lambda>(name, _). name \<noteq> to) (lm_others m)\<rparr>)))"

subsection \<open>Maintenance\<close>

definition sweepDeletedPartitions :: "int \<Rightarrow> log_manager \<Rightarrow> log_manager" where
  "sweepDeletedPartitions nowMs m =
    (let delay = rt_segmentDeleteDelayMs (lc_retention (lm_defaults m))
     in m\<lparr>lm_removed := filter (\<lambda>r. nowMs - rp_removedAtMs r < delay) (lm_removed m)\<rparr>)"

text \<open>The loop over the hosted logs; an exception leaves the logs behind it as they were.\<close>

fun maintain_logs ::
  "int \<Rightarrow> (topic_partition \<times> partition_log) list \<Rightarrow> unit result \<times> (topic_partition \<times> partition_log) list" where
  "maintain_logs nowMs [] = (Inr (), [])"
| "maintain_logs nowMs ((tp, l) # logs) = (case log_maybeRoll nowMs l of
      Inl e \<Rightarrow> (Inl e, (tp, l) # logs)
    | Inr l \<Rightarrow> let l = sweepGraveyard nowMs (applyRetention nowMs l);
                  (r, logs) = maintain_logs nowMs logs
              in (r, (tp, l) # logs))"

definition runMaintenance :: "int \<Rightarrow> log_manager \<Rightarrow> unit result \<times> log_manager" where
  "runMaintenance nowMs m =
    (let (r, logs) = maintain_logs nowMs (lm_logs m); m = m\<lparr>lm_logs := logs\<rparr>
     in case r of Inl e \<Rightarrow> (Inl e, m) | Inr _ \<Rightarrow> (Inr (), sweepDeletedPartitions nowMs m))"

definition startMaintenance :: "int \<Rightarrow> log_manager \<Rightarrow> log_manager result" where
  "startMaintenance intervalMs m =
    (if intervalMs \<le> 0 then Inl Error
     else if lm_running m then Inl Error
     else Inr (m\<lparr>lm_stopRequested := False, lm_running := True\<rparr>))"

definition stopMaintenance :: "log_manager \<Rightarrow> log_manager" where
  "stopMaintenance m = m\<lparr>lm_stopRequested := True, lm_running := False\<rparr>"

text \<open>One wake-up of the thread by its timer.\<close>

definition maintenance_tick :: "int \<Rightarrow> log_manager \<Rightarrow> log_manager" where
  "maintenance_tick nowMs m =
    (if \<not> lm_running m \<or> lm_stopRequested m then m
     else case runMaintenance nowMs m of
       (Inr _, m) \<Rightarrow> m\<lparr>lm_sweepCount := lm_sweepCount m + 1\<rparr>
     | (Inl _, m) \<Rightarrow> m\<lparr>lm_sweepFailures := lm_sweepFailures m + 1\<rparr>)"

subsection \<open>Look-up\<close>

definition lm_get :: "log_manager \<Rightarrow> topic_partition \<Rightarrow> partition_log option" where
  "lm_get m tp = map_of (lm_logs m) tp"

text \<open>What a caller does to the log that \<open>get\<close> lent it.\<close>

definition lm_update :: "topic_partition \<Rightarrow> partition_log \<Rightarrow> log_manager \<Rightarrow> log_manager" where
  "lm_update tp l m = m\<lparr>lm_logs := map (\<lambda>(t, old). (t, if t = tp then l else old)) (lm_logs m)\<rparr>"

definition hostedPartitions :: "log_manager \<Rightarrow> topic_partition list" where
  "hostedPartitions m = sort (map fst (lm_logs m))"

definition partitionCount :: "log_manager \<Rightarrow> nat" where
  "partitionCount m = length (lm_logs m)"

definition removedPartitionCount :: "log_manager \<Rightarrow> nat" where
  "removedPartitionCount m = length (lm_removed m)"

subsection \<open>Well-formed managers\<close>

definition log_good :: "partition_log \<Rightarrow> bool" where
  "log_good l \<longleftrightarrow> (\<exists>bss cs. log_holds bss cs l)"

definition tp_ok :: "topic_partition \<Rightarrow> bool" where
  "tp_ok tp \<longleftrightarrow> isUsableTopicName (tp_topic tp) \<and> 0 \<le> tp_partition tp \<and> tp_partition tp < 2 ^ 31"

definition manager_ok :: "log_manager \<Rightarrow> bool" where
  "manager_ok m \<longleftrightarrow> distinct (map fst (data_dir m)) \<and>
     (\<forall>(tp, l) \<in> set (lm_logs m). lg_tp l = tp \<and> tp_ok tp \<and> log_good l) \<and>
     (\<forall>r \<in> set (lm_removed m). ends_with kDeletedSuffix (rp_directory r)) \<and>
     (\<forall>(name, e) \<in> set (lm_others m). e = PlainFile \<or> name = kMetaDirName)"

lemma ends_with_append [simp]: "ends_with ending (xs @ ending)"
  by (simp add: ends_with_def)

lemma ends_with_last: "ends_with ending name \<Longrightarrow> ending \<noteq> [] \<Longrightarrow> last name = last ending"
  unfolding ends_with_def by (metis append_take_drop_id last_appendR)

lemma tp_name_facts:
  assumes "tp_ok tp"
  shows "topicPartitionFromDirName (tp_toString tp) = Inr tp" "\<not> ends_with kDeletedSuffix (tp_toString tp)"
    "tp_toString tp \<noteq> kMetaDirName"
proof -
  show "topicPartitionFromDirName (tp_toString tp) = Inr tp"
    using assms by (simp add: partition_dir_name_iff tp_ok_def isUsableTopicName_def)
  have "isdigit (last (decimal n))" for n
    using decimal_digits [of n] by (simp add: list_all_iff)
  then have digit: "isdigit (last (tp_toString tp))"
    using assms by (simp add: tp_toString_def to_string_def tp_ok_def)
  then show "\<not> ends_with kDeletedSuffix (tp_toString tp)"
    by (auto simp: kDeletedSuffix_def isdigit_def dest: ends_with_last)
  show "tp_toString tp \<noteq> kMetaDirName"
  proof
    assume "tp_toString tp = kMetaDirName"
    with digit show False by (simp add: kMetaDirName_def isdigit_def)
  qed
qed

lemma tp_name_inj: "tp_ok tp \<Longrightarrow> tp_ok tp' \<Longrightarrow> tp_toString tp = tp_toString tp' \<longleftrightarrow> tp = tp'"
  using tp_name_facts(1) by (metis sum.inject(2))

lemma log_files_not_Nil [simp]: "log_files l \<noteq> []"
  by (simp add: log_files_def segment_files_def)

lemma data_dir_names:
  "map fst (data_dir m) = map tp_toString (map fst (lm_logs m)) @ map rp_directory (lm_removed m) @ map fst (lm_others m)"
  by (simp add: data_dir_def comp_def case_prod_unfold)

lemma manager_ok_distinct: "manager_ok m \<Longrightarrow> distinct (map fst (lm_logs m))"
  using distinct_map [of tp_toString "map fst (lm_logs m)"]
  unfolding manager_ok_def data_dir_names distinct_append by blast

lemma manager_ok_get:
  "manager_ok m \<Longrightarrow> lm_get m tp = Some l \<longleftrightarrow> (tp, l) \<in> set (lm_logs m)"
  using manager_ok_distinct by (simp add: lm_get_def)

lemma manager_ok_getD:
  assumes "manager_ok m" "lm_get m tp = Some l"
  shows "lg_tp l = tp" "tp_ok tp" "log_good l"
  using assms by (auto simp: manager_ok_get) (auto simp: manager_ok_def)

text \<open>Logs may be exchanged for others of the same partitions.\<close>

lemma manager_ok_logs:
  assumes "manager_ok m" "map fst logs = map fst (lm_logs m)"
    and "\<forall>(tp, l) \<in> set logs. lg_tp l = tp \<and> log_good l"
    and "lm_removed m' = filter P (lm_removed m)" "lm_others m' = lm_others m" "lm_logs m' = logs"
  shows "manager_ok m'"
proof -
  have "distinct (map rp_directory (filter P rs))" if "distinct (map rp_directory rs)" for rs
    using that by (simp add: distinct_map_filter)
  then have "distinct (map fst (data_dir m'))"
    using assms(1) unfolding manager_ok_def data_dir_names assms(2,4,5,6) by auto
  moreover have "tp_ok tp" if "(tp, l) \<in> set logs" for tp l
  proof -
    have "tp \<in> fst ` set (lm_logs m)" using that assms(2) by (metis fst_conv image_eqI list.set_map)
    then show ?thesis using assms(1) by (auto simp: manager_ok_def)
  qed
  ultimately show ?thesis using assms by (auto simp: manager_ok_def)
qed

lemma LogManager_ok: "manager_ok (LogManager defaults)"
  by (simp add: manager_ok_def LogManager_def data_dir_def)

lemma log_create_good:
  assumes "log_create dir tp config = Inr l"
  shows "log_holds [] [] l" "lg_tp l = tp" "lg_config l = config"
    "lg_logEndOffset l = 0"
proof -
  obtain active where a: "active_create dir 0 (lc_roll config) = Inr active" "l = log_make tp config [] active"
    using assms by (auto simp: log_create_def bind_r_Inr_iff)
  have "rp_maxIndexBytes (lc_roll config) div 8 \<noteq> 0"
    using a(1) by (auto simp: active_create_def bind_r_Inr_iff index_create_def kEntrySize_def Let_def split: if_splits)
  then have "8 \<le> rp_maxIndexBytes (lc_roll config)" by (simp add: div_eq_0_iff)
  moreover have "sg_nextOffset active = 0" "sg_baseOffset active = 0"
    using a(1) by (auto simp: active_create_def bind_r_Inr_iff)
  ultimately show "log_holds [] [] l"
    using a(2) active_create_holds(1) [OF a(1)]
    by (simp add: log_holds_def log_make_def valid_base_def sealed_contiguous_def)
  show "lg_tp l = tp" "lg_config l = config" "lg_logEndOffset l = 0"
    using a(2) \<open>sg_nextOffset active = 0\<close> by (simp_all add: log_make_def)
qed

lemma createPartition_ok:
  assumes "manager_ok m" "createPartition tp config m = Inr m'" "tp_partition tp < 2 ^ 31"
  shows "manager_ok m'" "\<exists>l. lm_logs m' = lm_logs m @ [(tp, l)] \<and> log_holds [] [] l \<and> lg_config l = config"
    "tp \<notin> fst ` set (lm_logs m)"
proof -
  obtain dir l where c: "requireUsableName tp = Inr ()" "tp \<notin> fst ` set (lm_logs m)"
      "log_create dir tp config = Inr l"
      "m' = m\<lparr>lm_logs := lm_logs m @ [(tp, l)], lm_others := filter (\<lambda>(name, _). name \<noteq> tp_toString tp) (lm_others m)\<rparr>"
    using assms(2) by (auto simp: createPartition_def bind_r_Inr_iff split: if_splits)
  have tp: "tp_ok tp" using c(1) assms(3) by (auto simp: tp_ok_def requireUsableName_def split: if_splits)
  have logs: "tp_toString tp \<notin> tp_toString ` fst ` set (lm_logs m)"
  proof
    assume "tp_toString tp \<in> tp_toString ` fst ` set (lm_logs m)"
    then obtain tp' where "tp' \<in> fst ` set (lm_logs m)" "tp_toString tp = tp_toString tp'" by blast
    moreover have "tp_ok tp'" using calculation(1) assms(1) by (auto simp: manager_ok_def)
    ultimately show False using c(2) tp_name_inj [OF tp] by blast
  qed
  have removed: "tp_toString tp \<notin> rp_directory ` set (lm_removed m)"
    using assms(1) tp_name_facts(2) [OF tp] by (auto simp: manager_ok_def)
  have others: "map fst (lm_others m') = filter (\<lambda>name. name \<noteq> tp_toString tp) (map fst (lm_others m))"
    by (simp add: c(4) filter_map comp_def case_prod_unfold)
  have "distinct (map fst (data_dir m'))"
    using assms(1) logs removed unfolding manager_ok_def data_dir_names others by (auto simp: c(4))
  then show "manager_ok m'"
    using assms(1) log_create_good [OF c(3)] tp unfolding manager_ok_def log_good_def by (auto simp: c(4))
  show "\<exists>l. lm_logs m' = lm_logs m @ [(tp, l)] \<and> log_holds [] [] l \<and> lg_config l = config"
    "tp \<notin> fst ` set (lm_logs m)"
    using c log_create_good [OF c(3)] by auto
qed

lemma removePartition_ok:
  assumes "manager_ok m" "removePartition tp now m = Inr m'"
  shows "manager_ok m'" "lm_logs m' = filter (\<lambda>(t, _). t \<noteq> tp) (lm_logs m)"
    "\<exists>l. lm_get m tp = Some l \<and> (\<exists>dir. lm_removed m' = lm_removed m @ [\<lparr>rp_log = l, rp_directory = dir, rp_removedAtMs = now\<rparr>])"
proof -
  let ?to = "tp_toString tp @ ''.'' @ to_string now @ kDeletedSuffix"
  obtain l where l: "map_of (lm_logs m) tp = Some l"
    and free: "map_of (data_dir m) ?to = None \<or> map_of (data_dir m) ?to = Some (Dir [])"
    and m': "m' = m\<lparr>lm_logs := filter (\<lambda>(t, _). t \<noteq> tp) (lm_logs m),
      lm_removed := lm_removed m @ [\<lparr>rp_log = l, rp_directory = ?to, rp_removedAtMs = now\<rparr>],
      lm_others := filter (\<lambda>(name, _). name \<noteq> ?to) (lm_others m)\<rparr>"
    using assms(2) by (auto simp: removePartition_def Let_def bind_r_Inr_iff split: option.splits disk_entry.splits)
  have to: "ends_with kDeletedSuffix ?to"
    using ends_with_append [of kDeletedSuffix "tp_toString tp @ ''.'' @ to_string now"] by simp
  have logs: "?to \<notin> tp_toString ` fst ` set (lm_logs m)"
    using assms(1) tp_name_facts(2) to by (fastforce simp: manager_ok_def)
  have removed: "?to \<notin> rp_directory ` set (lm_removed m)"
  proof
    assume "?to \<in> rp_directory ` set (lm_removed m)"
    then obtain r where "r \<in> set (lm_removed m)" "rp_directory r = ?to" by auto
    then have "(?to, Dir (log_files (rp_log r))) \<in> set (data_dir m)" by (force simp: data_dir_def)
    moreover have "distinct (map fst (data_dir m))" using assms(1) by (simp add: manager_ok_def)
    ultimately have "map_of (data_dir m) ?to = Some (Dir (log_files (rp_log r)))" by simp
    with free show False by simp
  qed
  have others: "map fst (lm_others m') = filter (\<lambda>name. name \<noteq> ?to) (map fst (lm_others m))"
    by (simp add: m' filter_map comp_def case_prod_unfold)
  have kept: "map fst (lm_logs m') = filter (\<lambda>t. t \<noteq> tp) (map fst (lm_logs m))"
    by (simp add: m' filter_map comp_def case_prod_unfold)
  have "distinct (map tp_toString (filter P ts))" if "distinct (map tp_toString ts)" for P ts
    using that by (simp add: distinct_map_filter)
  then have "distinct (map fst (data_dir m'))"
    using assms(1) logs removed unfolding manager_ok_def data_dir_names others kept by (auto simp: m')
  then show "manager_ok m'" using assms(1) to unfolding manager_ok_def by (auto simp: m')
  show "lm_logs m' = filter (\<lambda>(t, _). t \<noteq> tp) (lm_logs m)" by (simp add: m')
  show "\<exists>l. lm_get m tp = Some l \<and> (\<exists>dir. lm_removed m' = lm_removed m @ [\<lparr>rp_log = l, rp_directory = dir, rp_removedAtMs = now\<rparr>])"
    using l by (simp add: m' lm_get_def)
qed

lemma lm_update_ok:
  assumes "manager_ok m" "lg_tp l = tp" "log_good l"
  shows "manager_ok (lm_update tp l m)"
  by (rule manager_ok_logs [OF assms(1), where P = "\<lambda>_. True"])
    (use assms in \<open>auto simp: lm_update_def manager_ok_def comp_def case_prod_unfold\<close>)

lemma lm_get_update: "lm_get (lm_update tp l m) t = (if t = tp then map_option (\<lambda>_. l) (lm_get m t) else lm_get m t)"
proof -
  have "map_of (map (\<lambda>(t, old). (t, if t = tp then l else old)) xs) t =
      (if t = tp then map_option (\<lambda>_. l) (map_of xs t) else map_of xs t)" for xs :: "(topic_partition \<times> partition_log) list"
    by (induction xs) auto
  then show ?thesis by (simp add: lm_get_def lm_update_def)
qed

subsection \<open>Maintenance keeps what is retained\<close>

text \<open>
  The sealed segment at a place is due when it and all older ones are empty or past the retention time, or
  when the log from it on is over the retention size.
\<close>

definition due :: "int \<Rightarrow> partition_log \<Rightarrow> nat \<Rightarrow> bool" where
  "due nowMs l i \<longleftrightarrow> (let retention = lc_retention (lg_config l) in
     i < length (takeWhile (\<lambda>(_, seg). aged nowMs (rt_retentionMs retention) seg) (lg_sealed l)) \<or>
     (case rt_retentionBytes retention of None \<Rightarrow> False
      | Some limit \<Rightarrow> limit < sizeBytes (lg_active l) + sealed_bytes (drop i (lg_sealed l))))"

definition buried :: "int \<Rightarrow> (int \<times> segment) list \<Rightarrow> buried_segment list" where
  "buried nowMs sealed = map (\<lambda>(_, seg). \<lparr>bu_segment = seg, bu_unlinkedAtMs = nowMs\<rparr>) sealed"

text \<open>
  What maintenance does to a log, once its active segment is rolled if it has to be: the due segments, from
  the oldest up to the first that is not due, go to the graveyard, and the graves past their delay, these and
  no others, are gone. Nothing else changes, so a tail of the batches is left.
\<close>

definition maintained :: "int \<Rightarrow> partition_log \<Rightarrow> partition_log \<Rightarrow> bool" where
  "maintained nowMs l l' \<longleftrightarrow> lg_tp l' = lg_tp l \<and> lg_config l' = lg_config l \<and>
     lg_logEndOffset l' = lg_logEndOffset l \<and>
     (\<exists>rolled k. log_maybeRoll nowMs l = Inr rolled \<and> k \<le> length (lg_sealed rolled) \<and> (\<forall>i < k. due nowMs rolled i) \<and>
        (k < length (lg_sealed rolled) \<longrightarrow> \<not> due nowMs rolled k) \<and>
        l' = rolled\<lparr>lg_sealed := drop k (lg_sealed rolled),
          lg_graveyard := filter (\<lambda>b. nowMs < bu_unlinkedAtMs b + rt_segmentDeleteDelayMs (lc_retention (lg_config l)))
            (lg_graveyard l @ buried nowMs (take k (lg_sealed rolled)))\<rparr>) \<and>
     (\<forall>bss cs. log_holds bss cs l \<longrightarrow> (\<exists>bss' cs'. log_holds bss' cs' l' \<and> suffix (concat bss' @ cs') (concat bss @ cs)))"

lemma log_maybeRoll_graveyard: "log_maybeRoll now l = Inr l' \<Longrightarrow> lg_graveyard l' = lg_graveyard l"
  by (auto simp: log_maybeRoll_def Let_def bind_r_Inr_iff split: if_splits)

lemma applyRetention_due:
  assumes "log_holds bss cs l"
  shows "\<exists>k \<le> length (lg_sealed l). (\<forall>i < k. due nowMs l i) \<and> (k < length (lg_sealed l) \<longrightarrow> \<not> due nowMs l k) \<and>
    applyRetention nowMs l = l\<lparr>lg_sealed := drop k (lg_sealed l), lg_graveyard := lg_graveyard l @ buried nowMs (take k (lg_sealed l))\<rparr>"
proof -
  let ?ret = "lc_retention (lg_config l)"
  let ?old = "length (takeWhile (\<lambda>(_, seg). aged nowMs (rt_retentionMs ?ret) seg) (lg_sealed l))"
  obtain k where k: "k \<le> length (lg_sealed l)" "applyRetention nowMs l = l\<lparr>lg_sealed := drop k (lg_sealed l),
      lg_graveyard := lg_graveyard l @ buried nowMs (take k (lg_sealed l))\<rparr>"
    and stop: "case rt_retentionBytes ?ret of None \<Rightarrow> k = ?old
      | Some limit \<Rightarrow> ?old \<le> k \<and>
          (lg_sealed (applyRetention nowMs l) = [] \<or> totalSizeBytes (applyRetention nowMs l) \<le> limit) \<and>
          (\<forall>i. ?old \<le> i \<and> i < k \<longrightarrow> limit < sizeBytes (lg_active l) + sealed_bytes (drop i (lg_sealed l)))"
    using applyRetention_holds [OF assms, of nowMs] unfolding Let_def buried_def by blast
  have after: "lg_sealed (applyRetention nowMs l) = drop k (lg_sealed l)"
      "totalSizeBytes (applyRetention nowMs l) = sizeBytes (lg_active l) + sealed_bytes (drop k (lg_sealed l))"
    using k(2) by (simp_all add: totalSizeBytes_def sealed_bytes_def)
  have "\<forall>i < k. due nowMs l i"
    using stop by (auto simp: due_def Let_def not_less split: option.splits)
  moreover have "\<not> due nowMs l k" if "k < length (lg_sealed l)"
    using stop that unfolding after by (auto simp: due_def Let_def split: option.splits)
  ultimately show ?thesis using k by blast
qed

lemma log_maybeRoll_tp: "log_maybeRoll now l = Inr l' \<Longrightarrow> lg_tp l' = lg_tp l"
  by (auto simp: log_maybeRoll_def Let_def bind_r_Inr_iff split: if_splits)

lemma log_append_tp: "log_append b r a l = (res, l') \<Longrightarrow> lg_tp l' = lg_tp l"
  by (auto simp: log_append_def Let_def split: sum.splits dest: log_maybeRoll_tp)

lemma sweepGraveyard_holds: "log_holds bss cs (sweepGraveyard now l) = log_holds bss cs l"
  by (simp add: sweepGraveyard_def log_holds_def)

lemma roll_keeps:
  assumes "log_holds bss cs l" "log_maybeRoll now l = Inr l'"
  shows "\<exists>bss' cs'. log_holds bss' cs' l' \<and> concat bss' @ cs' = concat bss @ cs"
  using log_maybeRoll_holds [OF assms(1), of now] assms
  by (cases "shouldRoll now (lg_active l)") fastforce+

lemma maintain_one:
  assumes "log_good l"
  shows "\<exists>l'. log_maybeRoll now l = Inr l' \<and> maintained now l (sweepGraveyard now (applyRetention now l')) \<and>
    log_good (sweepGraveyard now (applyRetention now l'))"
proof -
  obtain bss cs where h: "log_holds bss cs l" using assms by (auto simp: log_good_def)
  obtain l' where l': "log_maybeRoll now l = Inr l'" "lg_config l' = lg_config l" "lg_logEndOffset l' = lg_logEndOffset l"
    using log_maybeRoll_holds [OF h, of now] by blast
  let ?l = "sweepGraveyard now (applyRetention now l')"
  have keeps: "\<exists>bss' cs'. log_holds bss' cs' ?l \<and> suffix (concat bss' @ cs') (concat bss @ cs)"
    if "log_holds bss cs l" for bss cs
  proof -
    obtain bss1 cs1 where r: "log_holds bss1 cs1 l'" "concat bss1 @ cs1 = concat bss @ cs"
      using roll_keeps [OF \<open>log_holds bss cs l\<close> l'(1)] by blast
    obtain m where "log_holds (drop m bss1) cs1 (applyRetention now l')"
      using applyRetention_holds [OF r(1), of now] by blast
    moreover have "suffix (concat (drop m bss1) @ cs1) (concat bss1 @ cs1)"
      by (metis append_take_drop_id concat_append same_suffix_suffix suffix_appendI suffix_order.order_refl)
    ultimately show ?thesis unfolding r(2) [symmetric] sweepGraveyard_holds by blast
  qed
  obtain bss1 cs1 where "log_holds bss1 cs1 l'" using roll_keeps [OF h l'(1)] by blast
  from applyRetention_due [OF this, of now] obtain k where k: "k \<le> length (lg_sealed l')" "\<forall>i < k. due now l' i"
      "k < length (lg_sealed l') \<longrightarrow> \<not> due now l' k"
      "applyRetention now l' = l'\<lparr>lg_sealed := drop k (lg_sealed l'), lg_graveyard := lg_graveyard l' @ buried now (take k (lg_sealed l'))\<rparr>"
    by blast
  have "?l = l'\<lparr>lg_sealed := drop k (lg_sealed l'), lg_graveyard :=
      filter (\<lambda>b. now < bu_unlinkedAtMs b + rt_segmentDeleteDelayMs (lc_retention (lg_config l))) (lg_graveyard l @ buried now (take k (lg_sealed l')))\<rparr>"
    unfolding k(4) sweepGraveyard_def
    by (simp add: l'(2) log_maybeRoll_graveyard [OF l'(1)] not_le algebra_simps cong: filter_cong)
  then have "maintained now l ?l"
    using keeps l' log_maybeRoll_tp [OF l'(1)] k(1-3) unfolding maintained_def by auto
  then show ?thesis using l'(1) keeps [OF h] by (auto simp: log_good_def)
qed

lemma maintain_logs_ok:
  assumes "\<forall>(tp, l) \<in> set logs. log_good l"
  shows "\<exists>logs'. maintain_logs now logs = (Inr (), logs') \<and>
    list_all2 (\<lambda>(tp, l) (tp', l'). tp' = tp \<and> maintained now l l' \<and> log_good l') logs logs'"
  using assms
proof (induction logs)
  case (Cons a logs)
  obtain tp l where a: "a = (tp, l)" by (cases a)
  obtain l' where "log_maybeRoll now l = Inr l'" "maintained now l (sweepGraveyard now (applyRetention now l'))"
      "log_good (sweepGraveyard now (applyRetention now l'))"
    using maintain_one [of l now] Cons.prems a by auto
  with Cons a show ?case by (auto simp: Let_def)
qed simp

lemma runMaintenance_ok:
  assumes "manager_ok m"
  shows "\<exists>m'. runMaintenance now m = (Inr (), m') \<and> manager_ok m' \<and> map fst (lm_logs m') = map fst (lm_logs m) \<and>
    list_all2 (\<lambda>(tp, l) (tp', l'). tp' = tp \<and> maintained now l l') (lm_logs m) (lm_logs m') \<and>
    lm_removed m' = filter (\<lambda>r. now - rp_removedAtMs r < rt_segmentDeleteDelayMs (lc_retention (lm_defaults m))) (lm_removed m)"
proof -
  have "\<forall>(tp, l) \<in> set (lm_logs m). log_good l" using assms by (auto simp: manager_ok_def)
  then obtain logs where logs: "maintain_logs now (lm_logs m) = (Inr (), logs)"
      "list_all2 (\<lambda>(tp, l) (tp', l'). tp' = tp \<and> maintained now l l' \<and> log_good l') (lm_logs m) logs"
    using maintain_logs_ok by blast
  let ?m = "sweepDeletedPartitions now (m\<lparr>lm_logs := logs\<rparr>)"
  have names: "map fst logs = map fst (lm_logs m)" using logs(2)
    by (induction rule: list_all2_induct) auto
  have "\<forall>(tp, l) \<in> set logs. lg_tp l = tp \<and> log_good l"
  proof -
    have "\<forall>(tp, l) \<in> set (lm_logs m). lg_tp l = tp" using assms by (auto simp: manager_ok_def)
    with logs(2) show ?thesis
      by (induction rule: list_all2_induct) (auto simp: maintained_def)
  qed
  then have "manager_ok ?m"
    by (intro manager_ok_logs [OF assms names]) (simp_all add: sweepDeletedPartitions_def Let_def)
  moreover have "list_all2 (\<lambda>(tp, l) (tp', l'). tp' = tp \<and> maintained now l l') (lm_logs m) logs"
    using logs(2) by (rule list_all2_mono) auto
  ultimately show ?thesis
    using logs(1) names by (intro exI [of _ ?m]) (simp add: runMaintenance_def sweepDeletedPartitions_def Let_def)
qed

lemma maintained_get:
  "list_all2 (\<lambda>(tp, l) (tp', l'). tp' = tp \<and> maintained now l l') logs logs' \<Longrightarrow> map_of logs tp = Some l \<Longrightarrow>
    \<exists>l'. map_of logs' tp = Some l' \<and> maintained now l l'"
  by (induction rule: list_all2_induct) (auto split: if_splits)

subsection \<open>Restarting\<close>

text \<open>What a crash leaves of one partition, as in \<open>log_open_after_crash\<close>, and of the data
directory: the directories of the hosted partitions, what was being deleted, and stray files.\<close>

definition partition_image :: "partition_log \<Rightarrow> (string \<times> byte list) list \<Rightarrow> bool" where
  "partition_image l files \<longleftrightarrow> (\<exists>bss cs tail idx. log_holds bss cs l \<and> list_all valid_batch cs \<and>
     index_fits (sg_baseOffset (lg_active l)) cs \<and> meta_ok \<lparr>pm_tp = lg_tp l, pm_config = lg_config l\<rparr> \<and>
     distinct (map fst files) \<and> set files = set (crash_files l tail idx) \<and> bad_tail None (lg_logEndOffset l) tail)"

definition crash_image :: "log_manager \<Rightarrow> (string \<times> disk_entry) list \<Rightarrow> bool" where
  "crash_image m entries \<longleftrightarrow> distinct (map fst entries) \<and>
     (\<forall>(tp, l) \<in> set (lm_logs m). \<exists>files. (tp_toString tp, Dir files) \<in> set entries \<and> partition_image l files) \<and>
     (\<forall>(name, e) \<in> set entries. e = PlainFile \<or> name = kMetaDirName \<or> ends_with kDeletedSuffix name \<or>
        name \<in> tp_toString ` fst ` set (lm_logs m))"

definition same_log :: "partition_log \<Rightarrow> partition_log \<Rightarrow> bool" where
  "same_log l l' \<longleftrightarrow> lg_tp l' = lg_tp l \<and> lg_config l' = lg_config l \<and> lg_logEndOffset l' = lg_logEndOffset l \<and>
     map fst (lg_sealed l') = map fst (lg_sealed l) \<and> sg_baseOffset (lg_active l') = sg_baseOffset (lg_active l) \<and>
     (\<exists>bss cs. log_holds bss cs l \<and> log_holds bss cs l')"

lemma partition_image_open:
  "partition_image l files \<Longrightarrow> \<exists>l'. log_open files (lg_tp l) fallback now = Inr l' \<and> same_log l l'"
  unfolding partition_image_def same_log_def using log_open_holds by metis

definition live_dir :: "string \<Rightarrow> bool" where
  "live_dir name \<longleftrightarrow> name \<noteq> kMetaDirName \<and> \<not> ends_with kDeletedSuffix name"

text \<open>The logs a scan opens and the entries it leaves alone.\<close>

definition opens ::
  "int \<Rightarrow> log_config \<Rightarrow> (string \<times> disk_entry) list \<Rightarrow> (topic_partition \<times> partition_log) list \<Rightarrow> bool" where
  "opens now defaults entries opened \<longleftrightarrow> (\<forall>tp l. (tp, l) \<in> set opened \<longleftrightarrow> (\<exists>name files.
     (name, Dir files) \<in> set entries \<and> live_dir name \<and>
       topicPartitionFromDirName name = Inr tp \<and> log_open files tp defaults now = Inr l))"

definition loaded ::
  "int \<Rightarrow> log_config \<Rightarrow> (string \<times> disk_entry) list \<Rightarrow> (topic_partition \<times> partition_log) list \<Rightarrow>
    (string \<times> disk_entry) list \<Rightarrow> bool" where
  "loaded now defaults entries opened kept \<longleftrightarrow>
     distinct (map fst opened) \<and> distinct (map fst kept) \<and> set kept \<subseteq> set entries \<and>
     (\<forall>(name, e) \<in> set kept. e = PlainFile \<or> name = kMetaDirName) \<and> opens now defaults entries opened"

lemma loaded_skip:
  assumes "loaded now d entries opened kept" "e = PlainFile \<or> \<not> live_dir name"
  shows "loaded now d ((name, e) # entries) opened kept"
proof -
  have "(\<exists>n files. (n, Dir files) \<in> set ((name, e) # entries) \<and> live_dir n \<and> P n files) \<longleftrightarrow>
      (\<exists>n files. (n, Dir files) \<in> set entries \<and> live_dir n \<and> P n files)" for P
    using assms(2) by auto
  moreover have "set kept \<subseteq> set ((name, e) # entries)" using assms(1) by (auto simp: loaded_def)
  ultimately show ?thesis using assms(1) unfolding loaded_def opens_def by presburger
qed

lemma loaded_keep:
  assumes "loaded now d entries opened kept" "name \<notin> fst ` set entries" "e = PlainFile \<or> name = kMetaDirName"
  shows "loaded now d ((name, e) # entries) opened ((name, e) # kept)"
proof -
  have "e = PlainFile \<or> \<not> live_dir name" using assms(3) by (auto simp: live_dir_def)
  from loaded_skip [OF assms(1) this] have "loaded now d ((name, e) # entries) opened kept" .
  moreover have "name \<notin> fst ` set kept" using assms(1,2) by (force simp: loaded_def)
  ultimately show ?thesis using assms(3) by (simp add: loaded_def)
qed

lemma loaded_open:
  assumes "loaded now d entries opened kept" "name \<notin> fst ` set entries" "live_dir name"
    "topicPartitionFromDirName name = Inr tp" "log_open files tp d now = Inr l"
  shows "loaded now d ((name, Dir files) # entries) ((tp, l) # opened) kept"
proof -
  have "tp \<notin> fst ` set opened"
  proof
    assume "tp \<in> fst ` set opened"
    then obtain name' files' where "(name', Dir files') \<in> set entries" "topicPartitionFromDirName name' = Inr tp"
      using assms(1) unfolding loaded_def opens_def by auto
    then show False using assms(2,4) by (force simp: partition_dir_name_iff)
  qed
  moreover have "(tp', l') \<in> set ((tp, l) # opened) \<longleftrightarrow> (\<exists>name' files'. (name', Dir files') \<in> set ((name, Dir files) # entries) \<and>
      live_dir name' \<and> topicPartitionFromDirName name' = Inr tp' \<and> log_open files' tp' d now = Inr l')" for tp' l'
  proof -
    have "live_dir name \<and> topicPartitionFromDirName name = Inr tp' \<and> log_open files tp' d now = Inr l' \<longleftrightarrow> tp' = tp \<and> l' = l"
      using assms(3-5) by auto
    moreover have "(tp', l') \<in> set opened \<longleftrightarrow> (\<exists>name' files'. (name', Dir files') \<in> set entries \<and>
        live_dir name' \<and> topicPartitionFromDirName name' = Inr tp' \<and> log_open files' tp' d now = Inr l')"
      using assms(1) unfolding loaded_def opens_def by blast
    ultimately show ?thesis unfolding list.set insert_iff prod.inject disk_entry.inject by blast
  qed
  moreover have "distinct (map fst kept)" "set kept \<subseteq> set ((name, Dir files) # entries)"
    "\<forall>(name, e) \<in> set kept. e = PlainFile \<or> name = kMetaDirName" "distinct (map fst opened)"
    using assms(1) by (auto simp: loaded_def)
  ultimately show ?thesis unfolding loaded_def opens_def by simp
qed

lemma load_entries_ok:
  assumes "distinct (map fst entries)"
    and "\<And>name files. (name, Dir files) \<in> set entries \<Longrightarrow> live_dir name \<Longrightarrow>
      \<exists>tp l. topicPartitionFromDirName name = Inr tp \<and> log_open files tp (lm_defaults m) now = Inr l"
    and "\<forall>tp \<in> fst ` set (lm_logs m). tp_toString tp \<notin> fst ` set entries"
  shows "\<exists>opened kept. load_entries now entries m = Inr (m\<lparr>lm_logs := lm_logs m @ opened, lm_others := lm_others m @ kept\<rparr>) \<and>
    loaded now (lm_defaults m) entries opened kept"
  using assms
proof (induction entries arbitrary: m)
  case Nil
  show ?case by (intro exI [of _ "[]"]) (simp add: loaded_def opens_def)
next
  case (Cons a entries)
  obtain name e where a: "a = (name, e)" by (cases a)
  have dist: "distinct (map fst entries)" "name \<notin> fst ` set entries" using Cons.prems(1) a by auto
  have keep: ?case if eq: "load_entries now (a # entries) m = load_entries now entries (m\<lparr>lm_others := lm_others m @ [a]\<rparr>)"
      and kind: "e = PlainFile \<or> name = kMetaDirName"
  proof -
    obtain opened kept where "load_entries now (a # entries) m =
        Inr (m\<lparr>lm_logs := lm_logs m @ opened, lm_others := lm_others m @ [a] @ kept\<rparr>)"
      "loaded now (lm_defaults m) entries opened kept"
      using Cons.IH [of "m\<lparr>lm_others := lm_others m @ [a]\<rparr>"] Cons.prems dist(1) eq by auto
    with loaded_keep [OF _ dist(2) kind] show ?thesis
      by (intro exI [of _ opened] exI [of _ "a # kept"]) (simp add: a)
  qed
  show ?case
  proof (cases e)
    case PlainFile
    then show ?thesis using keep a by simp
  next
    case (Dir files)
    consider (meta) "name = kMetaDirName" | (deleted) "name \<noteq> kMetaDirName" "ends_with kDeletedSuffix name"
      | (live) "live_dir name" by (auto simp: live_dir_def)
    then show ?thesis
    proof cases
      case meta
      then show ?thesis using keep a Dir by simp
    next
      case deleted
      then obtain opened kept where "load_entries now (a # entries) m =
          Inr (m\<lparr>lm_logs := lm_logs m @ opened, lm_others := lm_others m @ kept\<rparr>)"
        "loaded now (lm_defaults m) entries opened kept"
        using Cons.IH [of m] Cons.prems dist(1) a Dir by auto
      with loaded_skip [of now "lm_defaults m" entries opened kept e name] deleted show ?thesis
        by (auto simp: a live_dir_def)
    next
      case live
      then obtain tp l where tp: "topicPartitionFromDirName name = Inr tp" "log_open files tp (lm_defaults m) now = Inr l"
        using Cons.prems(2) [of name files] a Dir by auto
      then have name: "name = tp_toString tp" by (simp add: partition_dir_name_iff)
      then have "tp \<notin> fst ` set (lm_logs m)" using Cons.prems(3) a by auto
      then obtain opened kept where "load_entries now (a # entries) m =
          Inr (m\<lparr>lm_logs := lm_logs m @ (tp, l) # opened, lm_others := lm_others m @ kept\<rparr>)"
        "loaded now (lm_defaults m) entries opened kept"
        using Cons.IH [of "m\<lparr>lm_logs := lm_logs m @ [(tp, l)]\<rparr>"] Cons.prems dist live tp name
        by (auto simp: a Dir live_dir_def)
      with loaded_open [OF _ dist(2) live tp] show ?thesis by (auto simp: a Dir)
    qed
  qed
qed

lemma restart_ok:
  assumes ok: "manager_ok m" and image: "crash_image m entries"
  shows "\<exists>m'. loadAll entries now (LogManager defaults) = Inr m' \<and> manager_ok m' \<and> lm_removed m' = [] \<and>
    hostedPartitions m' = hostedPartitions m \<and>
    (\<forall>tp l. lm_get m tp = Some l \<longrightarrow> (\<exists>l'. lm_get m' tp = Some l' \<and> same_log l l'))"
proof -
  have entry: "\<exists>l files. (tp, l) \<in> set (lm_logs m) \<and> name = tp_toString tp \<and> partition_image l files \<and>
      (name, Dir files) \<in> set entries" if "tp \<in> fst ` set (lm_logs m)" "name = tp_toString tp" for tp name
    using image that by (fastforce simp: crash_image_def)
  have unique: "files = files'" if "(name, Dir files) \<in> set entries" "(name, Dir files') \<in> set entries" for name files files'
    using image that eq_key_imp_eq_value [of entries name "Dir files" "Dir files'"] by (simp add: crash_image_def)
  have hosted: "lg_tp l = tp \<and> tp_ok tp" if "(tp, l) \<in> set (lm_logs m)" for tp l
    using ok that by (auto simp: manager_ok_def)
  have open_ok: "\<exists>tp l l'. (tp, l) \<in> set (lm_logs m) \<and> topicPartitionFromDirName name = Inr tp \<and>
      log_open files tp defaults now = Inr l' \<and> same_log l l'"
    if dir: "(name, Dir files) \<in> set entries" "live_dir name" for name files
  proof -
    have "name \<in> tp_toString ` fst ` set (lm_logs m)"
      using image dir unfolding crash_image_def live_dir_def by fastforce
    then obtain tp where tp: "tp \<in> fst ` set (lm_logs m)" "name = tp_toString tp" by blast
    from entry [OF this] obtain l where l: "(tp, l) \<in> set (lm_logs m)" "partition_image l files"
      using unique dir(1) by blast
    with hosted [OF l(1)] partition_image_open [OF l(2), of defaults now] tp(2) tp_name_facts(1) [of tp]
    show ?thesis by auto
  qed
  let ?fresh = "LogManager defaults"
  have m0: "lm_defaults ?fresh = defaults" "lm_logs ?fresh = []" "lm_others ?fresh = []" "lm_removed ?fresh = []"
    by (simp_all add: LogManager_def)
  have "distinct (map fst entries)" using image by (simp add: crash_image_def)
  moreover have "\<exists>tp l. topicPartitionFromDirName name = Inr tp \<and> log_open files tp (lm_defaults ?fresh) now = Inr l"
    if "(name, Dir files) \<in> set entries" "live_dir name" for name files
    using open_ok [OF that] m0(1) by auto
  ultimately obtain opened kept where load: "load_entries now entries ?fresh = Inr (?fresh\<lparr>lm_logs := opened, lm_others := kept\<rparr>)"
      "loaded now defaults entries opened kept"
    using load_entries_ok [of entries ?fresh now] m0 by auto
  let ?m = "?fresh\<lparr>lm_logs := opened, lm_others := kept\<rparr>"
  have opens: "(tp, l') \<in> set opened \<longleftrightarrow> (\<exists>name files. (name, Dir files) \<in> set entries \<and> live_dir name \<and>
      topicPartitionFromDirName name = Inr tp \<and> log_open files tp defaults now = Inr l')" for tp l'
    using load(2) by (simp add: loaded_def opens_def)
  have found: "\<exists>l. (tp, l) \<in> set (lm_logs m) \<and> same_log l l'" if op1: "(tp, l') \<in> set opened" for tp l'
    using op1 open_ok unfolding opens by fastforce
  have reopened: "\<exists>l'. (tp, l') \<in> set opened" if "(tp, l) \<in> set (lm_logs m)" for tp l
  proof -
    have t: "tp_ok tp" "tp \<in> fst ` set (lm_logs m)" using hosted [OF that] that by force+
    from entry [OF t(2) refl] obtain files where f: "(tp_toString tp, Dir files) \<in> set entries" by blast
    have "live_dir (tp_toString tp)" using tp_name_facts [OF t(1)] by (simp add: live_dir_def)
    with f open_ok [OF f this] tp_name_facts(1) [OF t(1)] show ?thesis unfolding opens by auto
  qed
  have tps: "fst ` set opened = fst ` set (lm_logs m)" using found reopened by (force simp: image_iff)
  have names: "distinct (map fst (data_dir ?m))"
  proof -
    have "inj_on tp_toString (fst ` set opened)"
      unfolding tps inj_on_def using hosted tp_name_inj by fastforce
    then have "distinct (map tp_toString (map fst opened))"
      using load(2) by (subst distinct_map) (simp add: loaded_def)
    moreover have "tp_toString tp \<notin> fst ` set kept" if t: "tp \<in> fst ` set opened" for tp
    proof
      assume "tp_toString tp \<in> fst ` set kept"
      then obtain e where e: "(tp_toString tp, e) \<in> set kept" by auto
      have "tp_ok tp" using t hosted unfolding tps by fastforce
      with e load(2) have "e = PlainFile" "(tp_toString tp, PlainFile) \<in> set entries"
        using tp_name_facts(3) by (auto simp: loaded_def)
      moreover obtain files where "(tp_toString tp, Dir files) \<in> set entries" using entry t tps by blast
      ultimately show False
        using image eq_key_imp_eq_value [of entries "tp_toString tp" "Dir files" PlainFile] by (simp add: crash_image_def)
    qed
    ultimately show ?thesis
      using load(2) unfolding data_dir_names by (auto simp: loaded_def LogManager_def)
  qed
  have good: "lg_tp l' = tp \<and> tp_ok tp \<and> log_good l'" if "(tp, l') \<in> set opened" for tp l'
    using found [OF that] hosted by (auto simp: same_log_def log_good_def)
  have "\<forall>(tp, l') \<in> set opened. lg_tp l' = tp \<and> tp_ok tp \<and> log_good l'" using good by blast
  then have mok: "manager_ok ?m" using names load(2) by (auto simp: manager_ok_def loaded_def LogManager_def)
  have "hostedPartitions ?m = hostedPartitions m"
    unfolding hostedPartitions_def
    using tps manager_ok_distinct [OF ok] manager_ok_distinct [OF mok]
    by (intro sorted_distinct_set_unique) simp_all
  moreover have "\<exists>l'. lm_get ?m tp = Some l' \<and> same_log l l'" if g: "lm_get m tp = Some l" for tp l
  proof -
    have l: "(tp, l) \<in> set (lm_logs m)" using g manager_ok_get [OF ok] by simp
    then obtain l' l2 where "(tp, l') \<in> set opened" "(tp, l2) \<in> set (lm_logs m)" "same_log l2 l'"
      using reopened [OF l] found by blast
    moreover have "l2 = l" using calculation(2) l manager_ok_distinct [OF ok] by (simp add: eq_key_imp_eq_value)
    ultimately show ?thesis using manager_ok_get [OF mok] by auto
  qed
  moreover have "loadAll entries now ?fresh = Inr ?m" using load(1) m0 by (simp add: loadAll_def)
  ultimately show ?thesis using mok m0 by (intro exI [of _ ?m]) simp
qed

subsection \<open>Every state a broker can reach\<close>

inductive manager_reach :: "log_config \<Rightarrow> log_manager \<Rightarrow> bool" for defaults where
  mr_start: "manager_reach defaults (LogManager defaults)"
| mr_create: "manager_reach defaults m \<Longrightarrow> createPartition tp config m = Inr m' \<Longrightarrow> tp_partition tp < 2 ^ 31 \<Longrightarrow>
    manager_reach defaults m'"
| mr_remove: "manager_reach defaults m \<Longrightarrow> removePartition tp now m = Inr m' \<Longrightarrow> manager_reach defaults m'"
| mr_append: "manager_reach defaults m \<Longrightarrow> lm_get m tp = Some l \<Longrightarrow> batch_wf b \<Longrightarrow>
    lg_logEndOffset l + bh_lastOffsetDelta (hdr b) + 1 < 2 ^ 63 \<Longrightarrow> log_append b roll now l = (r, l') \<Longrightarrow>
    manager_reach defaults (lm_update tp l' m)"
| mr_control: "manager_reach defaults m \<Longrightarrow> startMaintenance interval m = Inr m' \<or> m' = stopMaintenance m \<Longrightarrow>
    manager_reach defaults m'"
| mr_tick: "manager_reach defaults m \<Longrightarrow> manager_reach defaults (maintenance_tick now m)"
| mr_maintain: "manager_reach defaults m \<Longrightarrow> runMaintenance now m = (r, m') \<Longrightarrow> manager_reach defaults m'"
| mr_restart: "manager_reach defaults m \<Longrightarrow> crash_image m entries \<Longrightarrow>
    loadAll entries now (LogManager defaults) = Inr m' \<Longrightarrow> manager_reach defaults m'"

lemma manager_ok_control:
  assumes "manager_ok m" "lm_logs m' = lm_logs m" "lm_removed m' = lm_removed m" "lm_others m' = lm_others m"
  shows "manager_ok m'"
  using assms by (simp add: manager_ok_def data_dir_def)

lemma append_ok:
  assumes "manager_ok m" "lm_get m tp = Some l" "batch_wf b"
    "lg_logEndOffset l + bh_lastOffsetDelta (hdr b) + 1 < 2 ^ 63" "log_append b roll now l = (r, l')"
  shows "manager_ok (lm_update tp l' m)"
proof -
  obtain bss cs where h: "log_holds bss cs l" using manager_ok_getD(3) [OF assms(1,2)] by (auto simp: log_good_def)
  have "log_good l'"
    using log_append_holds [OF h assms(3-5)] by (cases r) (auto simp: log_good_def)
  then show ?thesis
    using log_append_tp [OF assms(5)] manager_ok_getD(1) [OF assms(1,2)] by (intro lm_update_ok [OF assms(1)]) simp_all
qed

lemma manager_reach_ok:
  assumes "manager_reach defaults m"
  shows "manager_ok m"
  using assms
proof (induction rule: manager_reach.induct)
  case (mr_tick m now)
  obtain m' where "runMaintenance now m = (Inr (), m')" "manager_ok m'"
    using runMaintenance_ok [OF mr_tick.IH] by blast
  then show ?case
    using mr_tick.IH manager_ok_control [of m' "m'\<lparr>lm_sweepCount := lm_sweepCount m' + 1\<rparr>"]
    by (simp add: maintenance_tick_def)
next
  case (mr_maintain m now r m')
  with runMaintenance_ok [of m now] show ?case by auto
next
  case (mr_restart m entries now m')
  with restart_ok [of m entries now defaults] show ?case by auto
next
  case (mr_control m interval m')
  then show ?case
    by (auto simp: startMaintenance_def stopMaintenance_def split: if_splits intro: manager_ok_control [of m])
qed (use LogManager_ok createPartition_ok(1) removePartition_ok(1) append_ok in blast)+

text \<open>
  C30. Whatever a broker does, from an empty data directory through creations, deletions, appends,
  maintenance and restarts after crashes, its hosted partitions are pairwise distinct,
  have usable names and well-formed logs of their own, no two entries of the data directory
  share a name, and the directory of a deleted partition is told from a live one by its name.
\<close>

theorem manager_invariant:
  assumes "manager_reach defaults m"
  shows "manager_ok m"
  using assms by (rule manager_reach_ok)

text \<open>
  A restart after a crash hosts exactly the partitions that were hosted: whatever the crash
  left behind the last whole batch of each partition, in whichever order the data directory is
  listed, every log holds the batches it held under its own configuration, a partition whose deletion
  had begun stays deleted, and no directory of a deleted partition is left.
\<close>

lemma manager_restart:
  assumes "manager_ok m" and "crash_image m entries"
  shows "\<exists>m'. loadAll entries now (LogManager defaults) = Inr m' \<and> hostedPartitions m' = hostedPartitions m \<and>
    (\<forall>tp l. lm_get m tp = Some l \<longrightarrow> (\<exists>l'. lm_get m' tp = Some l' \<and> same_log l l')) \<and>
    (\<forall>name files. (name, Dir files) \<in> set (data_dir m') \<longrightarrow> \<not> ends_with kDeletedSuffix name)"
proof -
  obtain m' where m': "loadAll entries now (LogManager defaults) = Inr m'" "manager_ok m'" "lm_removed m' = []"
      "hostedPartitions m' = hostedPartitions m"
      "\<forall>tp l. lm_get m tp = Some l \<longrightarrow> (\<exists>l'. lm_get m' tp = Some l' \<and> same_log l l')"
    using restart_ok [OF assms] by blast
  have "\<not> ends_with kDeletedSuffix kMetaDirName" by (simp add: ends_with_def kDeletedSuffix_def kMetaDirName_def)
  then have "\<not> ends_with kDeletedSuffix name" if "(name, Dir files) \<in> set (data_dir m')" for name files
    using that m'(2,3) tp_name_facts(2) unfolding manager_ok_def data_dir_def by fastforce
  with m' show ?thesis by blast
qed

text \<open>
  C31. A maintenance sweep always completes, for every partition, and reclaims exactly what is due: of each log,
  after the roll that its active segment may be due for, the sealed segments from the oldest on that are past
  the retention time or over the retention size go to the graveyard, up to the first that is not due; of the
  graves and of the deleted partitions exactly those past their delay are gone. Every log keeps its end, its
  configuration and a gap-free tail of its batches.
\<close>

theorem maintenance_reclaims:
  assumes "manager_ok m"
  shows "\<exists>m'. runMaintenance now m = (Inr (), m') \<and> hostedPartitions m' = hostedPartitions m \<and>
    (\<forall>tp l. lm_get m tp = Some l \<longrightarrow> (\<exists>l'. lm_get m' tp = Some l' \<and> maintained now l l')) \<and>
    lm_removed m' = filter (\<lambda>r. now < rp_removedAtMs r + rt_segmentDeleteDelayMs (lc_retention (lm_defaults m))) (lm_removed m)"
proof -
  obtain m' where m': "runMaintenance now m = (Inr (), m')" "manager_ok m'" "map fst (lm_logs m') = map fst (lm_logs m)"
      "list_all2 (\<lambda>(tp, l) (tp', l'). tp' = tp \<and> maintained now l l') (lm_logs m) (lm_logs m')"
      "lm_removed m' = filter (\<lambda>r. now - rp_removedAtMs r < rt_segmentDeleteDelayMs (lc_retention (lm_defaults m))) (lm_removed m)"
    using runMaintenance_ok [OF assms] by blast
  have "\<exists>l'. lm_get m' tp = Some l' \<and> maintained now l l'" if "lm_get m tp = Some l" for tp l
    using maintained_get [OF m'(4) that [unfolded lm_get_def]] by (simp add: lm_get_def)
  moreover have "filter (\<lambda>r. now - rp_removedAtMs r < delay) rs = filter (\<lambda>r. now < rp_removedAtMs r + delay) rs" for delay rs
    by (rule filter_cong) auto
  ultimately show ?thesis
    using m'(1,3,5) by (intro exI [of _ m'] conjI) (simp_all add: hostedPartitions_def)
qed

subsection \<open>A concrete broker\<close>

text \<open>One hosted partition and one whose deletion is under way.\<close>

definition demo_manager :: log_manager where
  "demo_manager = (LogManager (small_config Delete))\<lparr>lm_logs := [(\<lparr>tp_topic = ''t'', tp_partition = 0\<rparr>, one_log)],
     lm_removed := [\<lparr>rp_log = one_log, rp_directory = ''u-1.5.delete'', rp_removedAtMs = 5\<rparr>]\<rparr>"

lemma demo_manager_simps [simp]:
  "lm_logs demo_manager = [(\<lparr>tp_topic = ''t'', tp_partition = 0\<rparr>, one_log)]" "lm_others demo_manager = []"
  "lm_removed demo_manager = [\<lparr>rp_log = one_log, rp_directory = ''u-1.5.delete'', rp_removedAtMs = 5\<rparr>]"
  "lm_defaults demo_manager = small_config Delete"
  by (simp_all add: demo_manager_def LogManager_def)

lemma demo_name: "tp_toString \<lparr>tp_topic = ''t'', tp_partition = 0\<rparr> = ''t-0''"
  by code_simp

lemma demo_manager_ok: "manager_ok demo_manager"
proof -
  have "log_good one_log" using one_log_holds by (auto simp: log_good_def)
  moreover have "isUsableTopicName ''t''" by code_simp
  ultimately show ?thesis
    by (simp add: manager_ok_def data_dir_names demo_name tp_ok_def ends_with_def kDeletedSuffix_def)
qed

theorem manager_invariant_witness:
  "\<exists>m. createPartition \<lparr>tp_topic = ''t'', tp_partition = 0\<rparr> (small_config Delete) (LogManager (small_config Delete)) = Inr m \<and>
    manager_ok m"
proof -
  let ?tp = "\<lparr>tp_topic = ''t'', tp_partition = 0\<rparr>" and ?config = "small_config Delete"
  obtain active where a: "active_create Map.empty 0 small_policy = Inr active"
    using active_create_total [of Map.empty 0 small_policy] by auto
  have "meta_ok \<lparr>pm_tp = ?tp, pm_config = ?config\<rparr>" using one_log_crash(1) by simp
  then have "\<exists>files. writePartitionMeta Map.empty \<lparr>pm_tp = ?tp, pm_config = ?config\<rparr> = Inr files"
    using encodePartitionMeta_bytes [of "\<lparr>pm_tp = ?tp, pm_config = ?config\<rparr>"] by (simp add: writePartitionMeta_def meta_ok_def)
  with a obtain l where "log_create Map.empty ?tp ?config = Inr l" by (auto simp: log_create_def)
  moreover have "requireUsableName ?tp = Inr ()" by code_simp
  ultimately obtain m where m: "createPartition ?tp ?config (LogManager ?config) = Inr m"
    by (auto simp: createPartition_def LogManager_def existing_files_def data_dir_def)
  have "manager_reach ?config m" by (rule mr_create [OF mr_start m]) simp
  from manager_invariant [OF this] m show ?thesis by blast
qed

text \<open>A log whose one segment is over its age, with one grave past its delay and one that is not.\<close>

abbreviation grave :: "segment \<Rightarrow> int \<Rightarrow> buried_segment" where
  "grave seg t \<equiv> \<lparr>bu_segment = seg, bu_unlinkedAtMs = t\<rparr>"

definition demo_graves :: "segment \<Rightarrow> log_manager" where
  "demo_graves seg = lm_update \<lparr>tp_topic = ''t'', tp_partition = 0\<rparr> (one_log\<lparr>lg_graveyard := [grave seg 5, grave seg 1999]\<rparr>) demo_manager"

lemma demo_graves_ok:
  "manager_ok (demo_graves seg)" "lm_get (demo_graves seg) \<lparr>tp_topic = ''t'', tp_partition = 0\<rparr> = Some (one_log\<lparr>lg_graveyard := [grave seg 5, grave seg 1999]\<rparr>)"
  "hostedPartitions (demo_graves seg) = [\<lparr>tp_topic = ''t'', tp_partition = 0\<rparr>]" "lm_defaults (demo_graves seg) = small_config Delete"
  "lm_removed (demo_graves seg) = [\<lparr>rp_log = one_log, rp_directory = ''u-1.5.delete'', rp_removedAtMs = 5\<rparr>]"
proof -
  have "log_holds [] [bare_batch 0 0 5] (one_log\<lparr>lg_graveyard := [grave seg 5, grave seg 1999]\<rparr>)"
    using one_log_holds by (simp add: log_holds_def)
  then show "manager_ok (demo_graves seg)"
    unfolding demo_graves_def log_good_def by (intro lm_update_ok [OF demo_manager_ok]) (auto simp: log_good_def)
qed (simp_all add: demo_graves_def lm_get_def lm_update_def hostedPartitions_def)

theorem maintenance_reclaims_witness:
  "\<forall>seg. \<exists>m' l' old. runMaintenance 2000 (demo_graves seg) = (Inr (), m') \<and> lm_removed m' = [] \<and>
    lm_get m' \<lparr>tp_topic = ''t'', tp_partition = 0\<rparr> = Some l' \<and> lg_sealed l' = [] \<and>
    lg_graveyard l' = [grave seg 1999, grave old 2000]"
proof
  fix seg
  let ?l = "one_log\<lparr>lg_graveyard := [grave seg 5, grave seg 1999]\<rparr>"
  obtain m' where run: "runMaintenance 2000 (demo_graves seg) = (Inr (), m')"
      "\<forall>tp l. lm_get (demo_graves seg) tp = Some l \<longrightarrow> (\<exists>l'. lm_get m' tp = Some l' \<and> maintained 2000 l l')" "lm_removed m' = []"
    using maintenance_reclaims [OF demo_graves_ok(1), of 2000 seg] unfolding demo_graves_ok(4,5) by auto
  then obtain l' where m': "lm_get m' \<lparr>tp_topic = ''t'', tp_partition = 0\<rparr> = Some l'" "maintained 2000 ?l l'"
    using demo_graves_ok(2) by blast
  obtain rolled k where r: "log_maybeRoll 2000 ?l = Inr rolled" "k \<le> length (lg_sealed rolled)"
      "k < length (lg_sealed rolled) \<longrightarrow> \<not> due 2000 rolled k" "lg_sealed l' = drop k (lg_sealed rolled)"
      "lg_graveyard l' = filter (\<lambda>b. 2000 < bu_unlinkedAtMs b + 60) ([grave seg 5, grave seg 1999] @ buried 2000 (take k (lg_sealed rolled)))"
    using m'(2) by (auto simp: maintained_def)
  have "log_holds [] [bare_batch 0 0 5] ?l" using one_log_holds by (simp add: log_holds_def)
  moreover have "shouldRoll 2000 (lg_active ?l)" by (simp add: shouldRoll_def segment_isEmpty_def)
  ultimately have rolled: "log_holds [[bare_batch 0 0 5]] [] rolled" "length (lg_sealed rolled) = 1" "lg_config rolled = small_config Delete"
    using log_maybeRoll_holds [of "[]" "[bare_batch 0 0 5]" ?l 2000] r(1) by auto
  then obtain b old where sealed: "lg_sealed rolled = [(b, old)]" by (cases "lg_sealed rolled") auto
  have "segment_holds [bare_batch 0 0 5] old" using rolled(1) sealed by (simp add: log_holds_def)
  then have "sizeBytes old = 61" by (simp add: segment_holds_def sizeBytes_def bare_batch_0)
  then have "due 2000 rolled 0" using rolled(3) sealed by (simp add: due_def sealed_bytes_def)
  with r(2,3) sealed have "k = 1" by (cases k) auto
  then have "lg_sealed l' = []" "lg_graveyard l' = [grave seg 1999, grave old 2000]"
    using r(4,5) sealed by (simp_all add: buried_def)
  with run(1,3) m'(1) show "\<exists>m' l' old. runMaintenance 2000 (demo_graves seg) = (Inr (), m') \<and> lm_removed m' = [] \<and>
    lm_get m' \<lparr>tp_topic = ''t'', tp_partition = 0\<rparr> = Some l' \<and> lg_sealed l' = [] \<and> lg_graveyard l' = [grave seg 1999, grave old 2000]"
    by blast
qed

end
