(* ===== verification/Cleaner_Schedule.thy ===== *)
theory Cleaner_Schedule
  imports Cleaner_Pass Log_Manager
begin

text \<open>
  The class \<open>LogCleaner\<close> of \<^verbatim>\<open>storage/log_cleaner.cpp\<close>: which partition a pass takes, the
  marks that remember how far each was compacted, and the thread, a step that may happen while it
  runs.
\<close>

subsection \<open>State and operations\<close>

record log_cleaner =
  cn_config :: cleaner_config
  cn_firstDirty :: "topic_partition \<Rightarrow> int option"
  cn_running :: bool
  cn_stopRequested :: bool
  cn_passes :: nat
  cn_failures :: nat
  cn_dropped :: nat

definition LogCleaner :: "cleaner_config \<Rightarrow> log_cleaner" where
  "LogCleaner config = \<lparr>cn_config = config, cn_firstDirty = Map.empty, cn_running = False,
     cn_stopRequested = False, cn_passes = 0, cn_failures = 0, cn_dropped = 0\<rparr>"

definition firstDirtyOffset :: "log_cleaner \<Rightarrow> topic_partition \<Rightarrow> int" where
  "firstDirtyOffset cn tp = (case cn_firstDirty cn tp of None \<Rightarrow> 0 | Some offset \<Rightarrow> offset)"

definition pick_step ::
  "log_manager \<Rightarrow> log_cleaner \<Rightarrow> topic_partition \<Rightarrow> topic_partition option \<times> rat \<Rightarrow> topic_partition option \<times> rat" where
  "pick_step m cn tp = (\<lambda>(choice, best). case lm_get m tp of
      None \<Rightarrow> (choice, best)
    | Some l \<Rightarrow>
        if \<not> compacted (lg_config l) then (choice, best)
        else let ratio = dirtyRatio l (firstDirtyOffset cn tp) in
          if ratio > best then (Some tp, ratio) else (choice, best))"

definition pickDirtiest :: "log_manager \<Rightarrow> log_cleaner \<Rightarrow> topic_partition option" where
  "pickDirtiest m cn =
    fst (fold (pick_step m cn) (hostedPartitions m) (None, cc_minCleanableDirtyRatio (cn_config cn)))"

text \<open>A pass returns its result with the manager and the cleaner, which an exception
leaves with what the pass had already rewritten.\<close>

definition cleanOnce ::
  "topic_partition \<Rightarrow> int \<Rightarrow> log_manager \<times> log_cleaner \<Rightarrow>
    clean_result option result \<times> log_manager \<times> log_cleaner" where
  "cleanOnce tp nowMs = (\<lambda>(m, cn). case lm_get m tp of
      None \<Rightarrow> (Inr None, m, cn)
    | Some l \<Rightarrow>
        if \<not> compacted (lg_config l) then (Inr None, m, cn)
        else let from = firstDirtyOffset cn tp in
          if dirtyRatio l from \<le> cc_minCleanableDirtyRatio (cn_config cn) then (Inr None, m, cn)
          else (case cleanLog l (cn_config cn) from nowMs of
            (Inl e, l) \<Rightarrow> (Inl e, lm_update tp l m, cn)
          | (Inr cr, l) \<Rightarrow> (Inr (Some cr), lm_update tp l m,
              cn\<lparr>cn_firstDirty := (cn_firstDirty cn)(tp \<mapsto> cr_nextDirtyOffset cr),
                 cn_dropped := cn_dropped cn + cr_recordsDropped cr\<rparr>)))"

definition runOnce ::
  "int \<Rightarrow> log_manager \<times> log_cleaner \<Rightarrow> clean_result option result \<times> log_manager \<times> log_cleaner" where
  "runOnce nowMs = (\<lambda>(m, cn). case pickDirtiest m cn of
      None \<Rightarrow> (Inr None, m, cn)
    | Some tp \<Rightarrow> cleanOnce tp nowMs (m, cn))"

definition startCleaning :: "log_cleaner \<Rightarrow> log_cleaner" where
  "startCleaning cn = (if cn_running cn then cn else cn\<lparr>cn_running := True\<rparr>)"

definition stopCleaning :: "log_cleaner \<Rightarrow> log_cleaner" where
  "stopCleaning cn = cn\<lparr>cn_stopRequested := True, cn_running := False\<rparr>"

text \<open>One wake-up of the thread by its timer. Every exception a pass throws is an \<open>Error\<close>.\<close>

definition cleaner_tick :: "int \<Rightarrow> log_manager \<times> log_cleaner \<Rightarrow> log_manager \<times> log_cleaner" where
  "cleaner_tick nowMs = (\<lambda>(m, cn).
    if \<not> cn_running cn \<or> cn_stopRequested cn then (m, cn)
    else case runOnce nowMs (m, cn) of
      (Inr _, m, cn) \<Rightarrow> (m, cn\<lparr>cn_passes := cn_passes cn + 1\<rparr>)
    | (Inl _, m, cn) \<Rightarrow> (m, cn\<lparr>cn_failures := cn_failures cn + 1\<rparr>))"

subsection \<open>The choice\<close>

text \<open>The ratio a partition competes with: none unless it is hosted and compacted.\<close>

definition score :: "log_manager \<Rightarrow> log_cleaner \<Rightarrow> topic_partition \<Rightarrow> rat option" where
  "score m cn tp = (case lm_get m tp of None \<Rightarrow> None
    | Some l \<Rightarrow> if compacted (lg_config l) then Some (dirtyRatio l (firstDirtyOffset cn tp)) else None)"

lemma pick_fold:
  assumes "fold (pick_step m cn) tps (choice, best) = (choice', best')"
  shows "best \<le> best' \<and> (\<forall>tp \<in> set tps. \<forall>r. score m cn tp = Some r \<longrightarrow> r \<le> best') \<and>
    (choice' = choice \<and> best' = best \<or> (\<exists>tp \<in> set tps. choice' = Some tp \<and> score m cn tp = Some best' \<and> best < best'))"
  using assms
proof (induction tps arbitrary: choice best)
  case (Cons tp tps)
  obtain c1 b1 where step: "pick_step m cn tp (choice, best) = (c1, b1)" by fastforce
  then have ih: "b1 \<le> best' \<and> (\<forall>tp \<in> set tps. \<forall>r. score m cn tp = Some r \<longrightarrow> r \<le> best') \<and>
      (choice' = c1 \<and> best' = b1 \<or> (\<exists>tp \<in> set tps. choice' = Some tp \<and> score m cn tp = Some best' \<and> b1 < best'))"
    using Cons by simp
  have "c1 = choice \<and> b1 = best \<and> (\<forall>r. score m cn tp = Some r \<longrightarrow> r \<le> best) \<or>
      c1 = Some tp \<and> score m cn tp = Some b1 \<and> best < b1"
    using step by (auto simp: pick_step_def score_def Let_def split: option.splits if_splits)
  with ih show ?case by auto
qed simp

lemma pickDirtiest_cases:
  assumes "manager_ok m"
  shows "case pickDirtiest m cn of
      None \<Rightarrow> \<forall>tp r. score m cn tp = Some r \<longrightarrow> r \<le> cc_minCleanableDirtyRatio (cn_config cn)
    | Some tp \<Rightarrow> \<exists>r. score m cn tp = Some r \<and> cc_minCleanableDirtyRatio (cn_config cn) < r \<and>
        (\<forall>tp' r'. score m cn tp' = Some r' \<longrightarrow> r' \<le> r)"
proof -
  let ?min = "cc_minCleanableDirtyRatio (cn_config cn)"
  obtain choice best where f: "fold (pick_step m cn) (hostedPartitions m) (None, ?min) = (choice, best)" by fastforce
  have hosted: "tp \<in> set (hostedPartitions m)" if "score m cn tp = Some r" for tp r
    using that manager_ok_get [OF assms] by (force simp: score_def hostedPartitions_def split: option.splits)
  from pick_fold [OF f] hosted f show ?thesis
    by (auto simp: pickDirtiest_def split: option.split) (metis fst_conv)+
qed

lemma runOnce_picked:
  assumes "manager_ok m" "pickDirtiest m cn = Some tp"
  shows "\<exists>l. lm_get m tp = Some l \<and> compacted (lg_config l) \<and>
    runOnce nowMs (m, cn) = (case cleanLog l (cn_config cn) (firstDirtyOffset cn tp) nowMs of
            (Inl e, l) \<Rightarrow> (Inl e, lm_update tp l m, cn)
          | (Inr cr, l) \<Rightarrow> (Inr (Some cr), lm_update tp l m,
              cn\<lparr>cn_firstDirty := (cn_firstDirty cn)(tp \<mapsto> cr_nextDirtyOffset cr),
                 cn_dropped := cn_dropped cn + cr_recordsDropped cr\<rparr>))"
  using pickDirtiest_cases [OF assms(1), of cn] assms(2)
  by (auto simp: score_def runOnce_def cleanOnce_def Let_def split: option.splits if_splits)

subsection \<open>Passes one after another\<close>

definition log_schedule_ok :: "int \<Rightarrow> partition_log \<Rightarrow> bool" where
  "log_schedule_ok mark l \<longleftrightarrow> (\<exists>bss cs. cleanable bss cs l \<and> mark_aligned mark (lg_sealed l) \<and>
     unique_below mark (records_in (concat bss)))"

definition schedule_ok :: "log_manager \<Rightarrow> log_cleaner \<Rightarrow> bool" where
  "schedule_ok m cn \<longleftrightarrow> manager_ok m \<and> (\<forall>tp l. lm_get m tp = Some l \<and> compacted (lg_config l) \<longrightarrow>
     log_schedule_ok (firstDirtyOffset cn tp) l)"

text \<open>Two logs a consumer reading from the start gets the same value of every key from.\<close>

definition same_values :: "partition_log \<Rightarrow> partition_log \<Rightarrow> bool" where
  "same_values l l' \<longleftrightarrow> lg_tp l' = lg_tp l \<and> lg_config l' = lg_config l \<and> lg_active l' = lg_active l \<and>
     lg_logEndOffset l' = lg_logEndOffset l \<and> (\<exists>bss cs bss'. log_holds bss cs l \<and> log_holds bss' cs l' \<and>
       (\<forall>key. last_value (records_in (concat bss' @ cs)) key = last_value (records_in (concat bss @ cs)) key))"

lemma same_values_refl: "log_good l \<Longrightarrow> same_values l l"
  by (auto simp: same_values_def log_good_def)

lemma clean_schedule_ok:
  assumes "log_schedule_ok mark l"
  shows "\<exists>cr l'. cleanLog l cleaner mark nowMs = (Inr cr, l') \<and> mark \<le> cr_nextDirtyOffset cr \<and>
    log_schedule_ok (cr_nextDirtyOffset cr) l' \<and> same_values l l' \<and> log_good l'"
proof -
  obtain bss cs where h: "cleanable bss cs l" "mark_aligned mark (lg_sealed l)" "unique_below mark (records_in (concat bss))"
    using assms by (auto simp: log_schedule_ok_def)
  let ?rs = "records_in (concat bss)"
  obtain cr l' bss' m mapped K where p: "cleanLog l cleaner mark nowMs = (Inr cr, l')" "log_holds bss' cs l'"
      "\<exists>s g. l' = l\<lparr>lg_sealed := s, lg_graveyard := g\<rparr>" "cleanable bss' cs l'" "mark_aligned mapped (lg_sealed l')"
      "mark \<le> mapped" "cr_nextDirtyOffset cr = mapped" "pass_outcome ?rs l mark nowMs m mapped K"
      "records_in (concat bss') = filter K ?rs"
    using cleanLog_pass [OF h(1,2), of cleaner nowMs] by blast
  have inj: "inj_on digestOf {key. \<exists>r \<in> set ?rs. lr_key r = Some key}" using h(1) unfolding cleanable_def by blast
  have "last_value (records_in (concat bss')) key = last_value ?rs key" for key
    unfolding p(9) by (rule pass_keeps_view [OF p(8) inj cleanable_sorted [OF h(1)] h(3)])
  then have "\<forall>key. last_value (records_in (concat bss' @ cs)) key = last_value (records_in (concat bss @ cs)) key"
    unfolding map_append concat_append by (simp only: last_value_append) simp
  moreover have "log_holds bss cs l" using h(1) by (simp add: cleanable_def)
  ultimately have "same_values l l'" using p(2,3) unfolding same_values_def by auto
  moreover have "log_schedule_ok mapped l'"
    using p(4,5,9) pass_unique [OF p(8) h(3)] unfolding log_schedule_ok_def by auto
  ultimately show ?thesis using p by (auto simp: log_good_def)
qed

text \<open>A pass over one partition: its log, from its mark on, and nothing else.\<close>

definition cleaned_one :: "int \<Rightarrow> topic_partition \<Rightarrow> log_manager \<Rightarrow> log_cleaner \<Rightarrow> log_manager \<Rightarrow> log_cleaner \<Rightarrow> bool" where
  "cleaned_one nowMs tp m cn m' cn' \<longleftrightarrow> (\<exists>l cr l'. lm_get m tp = Some l \<and>
     cleanLog l (cn_config cn) (firstDirtyOffset cn tp) nowMs = (Inr cr, l') \<and> m' = lm_update tp l' m \<and>
     cn' = cn\<lparr>cn_firstDirty := (cn_firstDirty cn)(tp \<mapsto> cr_nextDirtyOffset cr), cn_dropped := cn_dropped cn + cr_recordsDropped cr\<rparr>)"

lemma runOnce_ok:
  assumes "schedule_ok m cn"
  shows "\<exists>r m' cn'. runOnce nowMs (m, cn) = (Inr r, m', cn') \<and> schedule_ok m' cn' \<and>
    (\<exists>fd d. cn' = cn\<lparr>cn_firstDirty := fd, cn_dropped := d\<rparr>) \<and>
    (\<forall>tp. firstDirtyOffset cn tp \<le> firstDirtyOffset cn' tp) \<and>
    (\<forall>tp l. lm_get m tp = Some l \<longrightarrow> (\<exists>l'. lm_get m' tp = Some l' \<and> same_values l l')) \<and>
    (case pickDirtiest m cn of None \<Rightarrow> m' = m \<and> cn' = cn | Some tp \<Rightarrow> cleaned_one nowMs tp m cn m' cn')"
proof -
  have ok: "manager_ok m" using assms by (simp add: schedule_ok_def)
  have good: "log_good l" if "lm_get m tp = Some l" for tp l using manager_ok_getD(3) [OF ok that] .
  show ?thesis
  proof (cases "pickDirtiest m cn")
    case None
    then have "runOnce nowMs (m, cn) = (Inr None, m, cn)" by (simp add: runOnce_def)
    moreover have "cn = cn\<lparr>cn_firstDirty := cn_firstDirty cn, cn_dropped := cn_dropped cn\<rparr>" by simp
    ultimately show ?thesis using assms good same_values_refl unfolding None option.case by (intro exI [of _ None] exI [of _ m] exI [of _ cn] conjI) blast+
  next
    case (Some tp)
    obtain l where l: "lm_get m tp = Some l" "compacted (lg_config l)"
      and run: "runOnce nowMs (m, cn) = (case cleanLog l (cn_config cn) (firstDirtyOffset cn tp) nowMs of
            (Inl e, l) \<Rightarrow> (Inl e, lm_update tp l m, cn)
          | (Inr cr, l) \<Rightarrow> (Inr (Some cr), lm_update tp l m,
              cn\<lparr>cn_firstDirty := (cn_firstDirty cn)(tp \<mapsto> cr_nextDirtyOffset cr),
                 cn_dropped := cn_dropped cn + cr_recordsDropped cr\<rparr>))"
      using runOnce_picked [OF ok Some] by blast
    have "log_schedule_ok (firstDirtyOffset cn tp) l" using assms l by (simp add: schedule_ok_def)
    from clean_schedule_ok [OF this, of "cn_config cn" nowMs]
    obtain cr l' where c: "cleanLog l (cn_config cn) (firstDirtyOffset cn tp) nowMs = (Inr cr, l')"
        "firstDirtyOffset cn tp \<le> cr_nextDirtyOffset cr" "log_schedule_ok (cr_nextDirtyOffset cr) l'"
        "same_values l l'" "log_good l'"
      by blast
    let ?cn = "cn\<lparr>cn_firstDirty := (cn_firstDirty cn)(tp \<mapsto> cr_nextDirtyOffset cr),
      cn_dropped := cn_dropped cn + cr_recordsDropped cr\<rparr>"
    have marks: "firstDirtyOffset ?cn t = (if t = tp then cr_nextDirtyOffset cr else firstDirtyOffset cn t)" for t
      by (simp add: firstDirtyOffset_def)
    have "manager_ok (lm_update tp l' m)"
      using c(4,5) manager_ok_getD(1) [OF ok l(1)] by (intro lm_update_ok [OF ok]) (simp_all add: same_values_def)
    then have "schedule_ok (lm_update tp l' m) ?cn"
      using assms c(3) l(1) by (auto simp: schedule_ok_def marks lm_get_update)
    moreover have "\<exists>l2. lm_get (lm_update tp l' m) t = Some l2 \<and> same_values l1 l2" if "lm_get m t = Some l1" for t l1
      using that l(1) c(4) good [OF that] same_values_refl by (cases "t = tp") (auto simp: lm_get_update)
    moreover have "runOnce nowMs (m, cn) = (Inr (Some cr), lm_update tp l' m, ?cn)" using run c(1) by simp
    moreover have "cleaned_one nowMs tp m cn (lm_update tp l' m) ?cn" using l(1) c(1) by (auto simp: cleaned_one_def)
    ultimately show ?thesis using marks c(2) Some
      by (intro exI [of _ "Some cr"] exI [of _ "lm_update tp l' m"] exI [of _ ?cn]) auto
  qed
qed

text \<open>
  C39. A wake-up of the cleaner's thread never fails on logs whose batches decode. While the thread runs it cleans
  exactly one partition, the dirtiest compacted one above the threshold: that partition's log becomes
  what a pass from its mark makes of it, its mark becomes the one the pass reports, and every other log and
  mark stays; when no partition is above the threshold, nothing is touched. Marks only move forward, every
  key of every partition keeps its value, and everything the next wake-up relies on holds again.
\<close>

theorem cleaner_thread_safe:
  assumes "schedule_ok m cn"
  shows "\<exists>m' cn'. cleaner_tick nowMs (m, cn) = (m', cn') \<and> schedule_ok m' cn' \<and> cn_failures cn' = cn_failures cn \<and>
    (\<forall>tp. firstDirtyOffset cn tp \<le> firstDirtyOffset cn' tp) \<and>
    (\<forall>tp l. lm_get m tp = Some l \<longrightarrow> (\<exists>l'. lm_get m' tp = Some l' \<and> same_values l l')) \<and>
    (if cn_running cn \<and> \<not> cn_stopRequested cn then (case pickDirtiest m cn of
        None \<Rightarrow> (\<forall>tp r. score m cn tp = Some r \<longrightarrow> r \<le> cc_minCleanableDirtyRatio (cn_config cn)) \<and>
          m' = m \<and> cn' = cn\<lparr>cn_passes := cn_passes cn + 1\<rparr>
      | Some tp \<Rightarrow> (\<exists>r. score m cn tp = Some r \<and> cc_minCleanableDirtyRatio (cn_config cn) < r \<and>
            (\<forall>tp' r'. score m cn tp' = Some r' \<longrightarrow> r' \<le> r)) \<and>
          (\<exists>l cr l'. lm_get m tp = Some l \<and> cleanLog l (cn_config cn) (firstDirtyOffset cn tp) nowMs = (Inr cr, l') \<and>
            m' = lm_update tp l' m \<and> cn' = cn\<lparr>cn_firstDirty := (cn_firstDirty cn)(tp \<mapsto> cr_nextDirtyOffset cr),
              cn_dropped := cn_dropped cn + cr_recordsDropped cr, cn_passes := cn_passes cn + 1\<rparr>))
     else m' = m \<and> cn' = cn)"
proof (cases "cn_running cn \<and> \<not> cn_stopRequested cn")
  case False
  then have idle: "cleaner_tick nowMs (m, cn) = (m, cn)" by (simp add: cleaner_tick_def)
  have "manager_ok m" using assms by (simp add: schedule_ok_def)
  then have "\<exists>l'. lm_get m tp = Some l' \<and> same_values l l'" if "lm_get m tp = Some l" for tp l
    using that manager_ok_getD(3) same_values_refl by blast
  with idle assms False show ?thesis by auto
next
  case True
  have ok: "manager_ok m" using assms by (simp add: schedule_ok_def)
  obtain r m' cn' where run: "runOnce nowMs (m, cn) = (Inr r, m', cn')" "schedule_ok m' cn'"
      "\<exists>fd d. cn' = cn\<lparr>cn_firstDirty := fd, cn_dropped := d\<rparr>"
      "\<forall>tp. firstDirtyOffset cn tp \<le> firstDirtyOffset cn' tp"
      "\<forall>tp l. lm_get m tp = Some l \<longrightarrow> (\<exists>l'. lm_get m' tp = Some l' \<and> same_values l l')"
      "case pickDirtiest m cn of None \<Rightarrow> m' = m \<and> cn' = cn | Some tp \<Rightarrow> cleaned_one nowMs tp m cn m' cn'"
    using runOnce_ok [OF assms, of nowMs] by blast
  let ?cn = "cn'\<lparr>cn_passes := cn_passes cn' + 1\<rparr>"
  have marks: "firstDirtyOffset ?cn = firstDirtyOffset cn'" by (intro ext) (simp add: firstDirtyOffset_def)
  have after: "cleaner_tick nowMs (m, cn) = (m', ?cn)" "schedule_ok m' ?cn" "cn_failures ?cn = cn_failures cn"
      "\<forall>tp. firstDirtyOffset cn tp \<le> firstDirtyOffset ?cn tp"
    using run(1-4) True unfolding schedule_ok_def marks by (auto simp: cleaner_tick_def)
  show ?thesis
  proof (cases "pickDirtiest m cn")
    case None
    then have "m' = m" "?cn = cn\<lparr>cn_passes := cn_passes cn + 1\<rparr>" using run(6) by simp_all
    with after run(5) True None pickDirtiest_cases [OF ok, of cn] show ?thesis
      by (intro exI [of _ m'] exI [of _ ?cn]) simp
  next
    case (Some tp)
    then obtain l cr l' where "lm_get m tp = Some l" "cleanLog l (cn_config cn) (firstDirtyOffset cn tp) nowMs = (Inr cr, l')"
        "m' = lm_update tp l' m" "?cn = cn\<lparr>cn_firstDirty := (cn_firstDirty cn)(tp \<mapsto> cr_nextDirtyOffset cr),
          cn_dropped := cn_dropped cn + cr_recordsDropped cr, cn_passes := cn_passes cn + 1\<rparr>"
      using run(6) by (auto simp: cleaned_one_def)
    with after run(5) True Some pickDirtiest_cases [OF ok, of cn] show ?thesis
      by (intro exI [of _ m'] exI [of _ ?cn]) simp
  qed
qed

subsection \<open>A partition that cannot be cleaned\<close>

lemma lm_update_same: "manager_ok m \<Longrightarrow> lm_get m tp = Some l \<Longrightarrow> lm_update tp l m = m"
proof -
  assume m: "manager_ok m" "lm_get m tp = Some l"
  have "map (\<lambda>(t, old). (t, if t = tp then l else old)) xs = xs"
    if "distinct (map fst xs)" "map_of xs tp = Some l" for xs :: "(topic_partition \<times> partition_log) list"
    using that by (intro map_idI) (auto intro: eq_key_imp_eq_value)
  then show ?thesis using m manager_ok_distinct [OF m(1)] by (simp add: lm_update_def lm_get_def)
qed

text \<open>The marks and the settings decide what is picked, not the counters.\<close>

lemma failures_unseen:
  "pickDirtiest m (cn\<lparr>cn_failures := n\<rparr>) = pickDirtiest m cn" "firstDirtyOffset (cn\<lparr>cn_failures := n\<rparr>) tp = firstDirtyOffset cn tp"
proof -
  have marks: "firstDirtyOffset (cn\<lparr>cn_failures := n\<rparr>) = firstDirtyOffset cn" by (intro ext) (simp add: firstDirtyOffset_def)
  have "pick_step m (cn\<lparr>cn_failures := n\<rparr>) = pick_step m cn" unfolding pick_step_def marks by (rule refl)
  then show "pickDirtiest m (cn\<lparr>cn_failures := n\<rparr>) = pickDirtiest m cn" by (simp add: pickDirtiest_def)
  show "firstDirtyOffset (cn\<lparr>cn_failures := n\<rparr>) tp = firstDirtyOffset cn tp" by (simp add: marks)
qed

lemma failing_tick:
  assumes "manager_ok m" "cn_running cn" "\<not> cn_stopRequested cn"
    and "pickDirtiest m cn = Some tp" "lm_get m tp = Some l"
    and "cleanLog l (cn_config cn) (firstDirtyOffset cn tp) nowMs = (Inl e, l)"
  shows "cleaner_tick nowMs (m, cn\<lparr>cn_failures := n\<rparr>) = (m, cn\<lparr>cn_failures := n + 1\<rparr>)"
proof -
  let ?cn = "cn\<lparr>cn_failures := n\<rparr>"
  have pick: "pickDirtiest m ?cn = Some tp" and pass: "cleanLog l (cn_config ?cn) (firstDirtyOffset ?cn tp) nowMs = (Inl e, l)"
    using assms(4,6) by (simp_all add: failures_unseen)
  have "runOnce nowMs (m, ?cn) = (Inl e, m, ?cn)"
    using runOnce_picked [OF assms(1) pick, of nowMs] assms(5) pass lm_update_same [OF assms(1,5)] by auto
  then show ?thesis using assms(2,3) by (simp add: cleaner_tick_def)
qed

lemma undecodable_batch_fails:
  assumes "log_holds (bss1 @ (bad # bs) # bss2) cs l" "length bss1 = length before"
    and "lg_sealed l = before @ (b, seg) # after"
    and "\<forall>(_, s) \<in> set before. sg_nextOffset s \<le> mark" "mark < sg_nextOffset seg"
    and "list_all valid_batch (bad # bs)" "decodeRecords bad = Inl e"
  shows "cleanLog l cleaner mark nowMs = (Inl e, l)"
proof -
  have "scanSegment (concat (bad # bs)) 0 = Inr (scanned 0 (bad # bs))"
    using scanSegment_concat [of "bad # bs" "[]"] assms(6) by simp
  then have "map_segments (log_dir l) mark (map info_of (lg_sealed l)) m mark = Inl e" for m
    unfolding assms(3) map_segments_skip [OF assms(4)]
    using log_segment(5) [OF assms(1-3)] assms(5,7) by (simp add: open_log_file_def)
  then show ?thesis using assms(3) by (simp add: cleanLog_def sealedSegments_info Let_def)
qed

text \<open>The part of a compacted log behind a mark begins, in its first segment, with a batch that has a good
checksum and does not decode.\<close>

definition stuck_at :: "int \<Rightarrow> partition_log \<Rightarrow> bool" where
  "stuck_at mark l \<longleftrightarrow> (\<exists>bss1 bad bs bss2 cs before b seg after e. log_holds (bss1 @ (bad # bs) # bss2) cs l \<and> length bss1 = length before \<and>
     lg_sealed l = before @ (b, seg) # after \<and> (\<forall>(_, s) \<in> set before. sg_nextOffset s \<le> mark) \<and> mark < sg_nextOffset seg \<and>
     list_all valid_batch (bad # bs) \<and> decodeRecords bad = Inl e)"

lemma stuck_fails: "stuck_at mark l \<Longrightarrow> \<exists>e. cleanLog l cleaner mark nowMs = (Inl e, l)"
  unfolding stuck_at_def using undecodable_batch_fails by blast

text \<open>Wake-ups one after another: what is left of the logs each found, and the cleaner in the end.\<close>

fun wake_ups :: "(int \<times> log_manager) list \<Rightarrow> log_cleaner \<Rightarrow> log_manager list \<times> log_cleaner" where
  "wake_ups [] cn = ([], cn)"
| "wake_ups ((nowMs, m) # wakes) cn =
    (let (m, cn) = cleaner_tick nowMs (m, cn); (ms, cn) = wake_ups wakes cn in (m # ms, cn))"

text \<open>
  C40. A batch that passes its checksum but does not decode, as a compressed one does not, stops the cleaner
  at the partition that holds it. Take any sequence of wake-ups of the running thread, whatever happens to the logs
  between them, at each of which the partition the cleaner picks is one and the same, and the part of its log behind
  its mark begins with such a batch: every wake-up counts one failure, no log and no mark changes, and no other
  partition is cleaned, however many are above the threshold. Only another partition that becomes dirtier
  than this one is still cleaned.
\<close>

theorem undecodable_batch_stops_cleaner:
  assumes "cn_running cn" "\<not> cn_stopRequested cn"
    and "\<forall>(nowMs, m) \<in> set wakes. manager_ok m \<and> pickDirtiest m cn = Some tp \<and>
      (\<exists>l. lm_get m tp = Some l \<and> stuck_at (firstDirtyOffset cn tp) l)"
  shows "wake_ups wakes cn = (map snd wakes, cn\<lparr>cn_failures := cn_failures cn + length wakes\<rparr>)"
proof -
  have "wake_ups wakes (cn\<lparr>cn_failures := n\<rparr>) = (map snd wakes, cn\<lparr>cn_failures := n + length wakes\<rparr>)" for n
    using assms(3)
  proof (induction wakes arbitrary: n)
    case (Cons wake wakes)
    obtain nowMs m where wake: "wake = (nowMs, m)" by (cases wake)
    obtain l where m: "manager_ok m" "pickDirtiest m cn = Some tp" "lm_get m tp = Some l" "stuck_at (firstDirtyOffset cn tp) l"
      using Cons.prems wake by auto
    obtain e where "cleanLog l (cn_config cn) (firstDirtyOffset cn tp) nowMs = (Inl e, l)" using stuck_fails [OF m(4)] by blast
    from failing_tick [OF m(1) assms(1,2) m(2,3) this, of n] Cons show ?case by (simp add: wake)
  qed simp
  from this [of "cn_failures cn"] show ?thesis by simp
qed

subsection \<open>A concrete broker\<close>

definition one_log_manager :: "partition_log \<Rightarrow> log_manager" where
  "one_log_manager l = (LogManager (small_config Compact))\<lparr>lm_logs := [(lg_tp one_log, l)]\<rparr>"

abbreviation running_cleaner :: log_cleaner where
  "running_cleaner \<equiv> startCleaning (LogCleaner demo_cleaner)"

lemma running_cleaner_simps:
  "cn_running running_cleaner" "\<not> cn_stopRequested running_cleaner" "cn_config running_cleaner = demo_cleaner"
  "cn_failures running_cleaner = 0" "firstDirtyOffset running_cleaner tp = 0"
  by (simp_all add: startCleaning_def LogCleaner_def firstDirtyOffset_def)

lemma one_log_manager_ok:
  assumes "log_good l" "lg_tp l = lg_tp one_log"
  shows "manager_ok (one_log_manager l)" "lm_get (one_log_manager l) (lg_tp one_log) = Some l"
    "lm_get (one_log_manager l) tp = Some l' \<Longrightarrow> tp = lg_tp one_log \<and> l' = l"
proof -
  have "isUsableTopicName ''t''" by code_simp
  then show "manager_ok (one_log_manager l)"
    using assms by (simp add: one_log_manager_def manager_ok_def data_dir_names LogManager_def tp_ok_def)
  show "lm_get (one_log_manager l) (lg_tp one_log) = Some l"
    "lm_get (one_log_manager l) tp = Some l' \<Longrightarrow> tp = lg_tp one_log \<and> l' = l"
    by (auto simp: one_log_manager_def lm_get_def split: if_splits)
qed

lemma one_log_manager_pick:
  assumes "log_good l" "lg_tp l = lg_tp one_log" "lg_config l = small_config Compact" "lg_sealed l = [(0, seg)]"
    and "sg_log seg \<noteq> []"
  shows "pickDirtiest (one_log_manager l) running_cleaner = Some (lg_tp one_log)"
proof -
  have "dirtyRatio l 0 = 1"
    using assms(4,5) by (simp add: dirtyRatio_def sealedSegments_def sizeBytes_def Let_def)
  then have "score (one_log_manager l) running_cleaner (lg_tp one_log) = Some 1"
    using one_log_manager_ok(2) [OF assms(1,2)] assms(3) running_cleaner_simps by (simp add: score_def compacted_def)
  note cases = pickDirtiest_cases [OF one_log_manager_ok(1) [OF assms(1,2)], of running_cleaner]
  show ?thesis
  proof (cases "pickDirtiest (one_log_manager l) running_cleaner")
    case None
    with cases \<open>score _ _ _ = Some 1\<close> running_cleaner_simps(3) show ?thesis by force
  next
    case (Some tp)
    with cases obtain r where "score (one_log_manager l) running_cleaner tp = Some r" by auto
    then obtain l' where "lm_get (one_log_manager l) tp = Some l'" by (auto simp: score_def split: option.splits)
    with one_log_manager_ok(3) [OF assms(1,2)] Some show ?thesis by blast
  qed
qed

theorem cleaner_thread_safe_witness:
  "\<exists>m m' cn' l cr l'. cleaner_tick 9 (m, running_cleaner) = (m', cn') \<and> schedule_ok m' cn' \<and> cn_failures cn' = 0 \<and>
    lm_get m (lg_tp one_log) = Some l \<and> cleanLog l demo_cleaner 0 9 = (Inr cr, l') \<and> m' = lm_update (lg_tp one_log) l' m \<and>
    firstDirtyOffset cn' (lg_tp one_log) = cr_nextDirtyOffset cr"
proof -
  obtain bs l seg where l: "cleanable [bs] [] l" "mark_aligned 0 (lg_sealed l)" "unique_below 0 (records_in (concat [bs]))"
      "lg_sealed l = [(0, seg)]" "sg_nextOffset seg = 2" "lg_tp l = lg_tp one_log" "lg_config l = small_config Compact"
    using demo_log by blast
  have good: "log_good l" using l(1) by (auto simp: log_good_def cleanable_def)
  have "sg_log seg \<noteq> []"
  proof
    assume "sg_log seg = []"
    moreover have "segment_holds bs seg" "sg_baseOffset seg = 0" using l(1,4) by (simp_all add: cleanable_def log_holds_def)
    ultimately have "concat bs = []" "list_all batch_wf bs" "sg_nextOffset seg = end_offset 0 bs"
      using l(1) by (auto simp: segment_holds_def cleanable_def list_all_iff rewritable_def valid_batch_def)
    then have "bs = []" by (cases bs) (auto dest: batch_wf_length)
    with \<open>sg_nextOffset seg = end_offset 0 bs\<close> l(5) show False by (simp add: end_offset_def)
  qed
  then have pick: "pickDirtiest (one_log_manager l) running_cleaner = Some (lg_tp one_log)"
    using one_log_manager_pick [OF good l(6,7,4)] by simp
  have "log_schedule_ok 0 l" using l(1-3) unfolding log_schedule_ok_def by blast
  then have "schedule_ok (one_log_manager l) running_cleaner"
    using one_log_manager_ok [OF good l(6)] running_cleaner_simps by (auto simp: schedule_ok_def)
  from cleaner_thread_safe [OF this, of 9] pick running_cleaner_simps obtain m' cn' j cr l' where
    "cleaner_tick 9 (one_log_manager l, running_cleaner) = (m', cn')" "schedule_ok m' cn'" "cn_failures cn' = 0"
    "lm_get (one_log_manager l) (lg_tp one_log) = Some j" "cleanLog j demo_cleaner 0 9 = (Inr cr, l')"
    "m' = lm_update (lg_tp one_log) l' (one_log_manager l)" "firstDirtyOffset cn' (lg_tp one_log) = cr_nextDirtyOffset cr"
    by (auto simp: firstDirtyOffset_def split: if_splits)
  then show ?thesis by blast
qed

theorem undecodable_batch_stops_cleaner_witness:
  "\<exists>m bad. valid_batch bad \<and> decodeRecords bad = Inl Error \<and> pickDirtiest m running_cleaner \<noteq> None \<and>
    wake_ups [(1, m), (2, m), (3, m)] running_cleaner = ([m, m, m], running_cleaner\<lparr>cn_failures := 3\<rparr>)"
proof -
  let ?h = "(bare_header 0 0 5)\<lparr>bh_attributes := 1\<rparr>"
  let ?bad = "header_bytes (?h\<lparr>bh_crc := crc32c (drop 21 (header_bytes ?h))\<rparr>)"
  have "header_ok ?h" "bh_batchLength ?h = 49" "bh_magic ?h = 2" "0 \<le> bh_lastOffsetDelta ?h" "0 \<le> bh_recordCount ?h"
    by (simp_all add: header_ok_def bare_header_def range_simps)
  note bad = header_batch [OF this]
  have wf: "batch_wf ?bad" using bad(1) by (simp add: valid_batch_def)
  have "compression (?h\<lparr>bh_crc := c\<rparr>) = 1" for c
    by (simp add: compression_def bare_header_def kCompressionMask_def)
  then have "compression (hdr ?bad) = 1" by (simp only: bad(2))
  then have err: "decodeRecords ?bad = Inl Error" using wf by (simp add: decodeRecords_alt batch_wf_def)
  have ends: "end_offset 0 [?bad] = 1" "contiguous 0 [?bad]" "index_fits 0 [?bad]"
    using wf bad(2,3) by (simp_all add: index_fits_def end_offset_def lastOffset_def bare_header_def UINT32_MAX_def)
  obtain l seg where l: "log_holds [[?bad]] [] l" "lg_tp l = lg_tp one_log" "lg_config l = small_config Compact"
      "lg_sealed l = [(0, seg)]" "sg_nextOffset seg = 1"
    using sealed_log [of "[?bad]", OF _ ends(2,3)] wf ends(1) by auto
  have good: "log_good l" using l(1) by (auto simp: log_good_def)
  have "sg_log seg = ?bad" using l(1,4) by (simp add: log_holds_def segment_holds_def)
  then have "sg_log seg \<noteq> []" using bad(3) by (metis list.size(3) zero_neq_numeral)
  note pick = one_log_manager_pick [OF good l(2,3,4) this]
  have "log_holds ([] @ (?bad # []) # []) [] l" "length [] = length []" "lg_sealed l = [] @ (0, seg) # []"
      "\<forall>(_, s) \<in> set []. sg_nextOffset s \<le> firstDirtyOffset running_cleaner (lg_tp one_log)"
      "firstDirtyOffset running_cleaner (lg_tp one_log) < sg_nextOffset seg" "list_all valid_batch (?bad # [])"
    using l bad(1) running_cleaner_simps(5) by simp_all
  then have "stuck_at (firstDirtyOffset running_cleaner (lg_tp one_log)) l" using err unfolding stuck_at_def by blast
  with one_log_manager_ok(1,2) [OF good l(2)] pick
  have "\<forall>(nowMs, m) \<in> set [(1, one_log_manager l), (2, one_log_manager l), (3 :: int, one_log_manager l)]. manager_ok m \<and>
      pickDirtiest m running_cleaner = Some (lg_tp one_log) \<and>
      (\<exists>l. lm_get m (lg_tp one_log) = Some l \<and> stuck_at (firstDirtyOffset running_cleaner (lg_tp one_log)) l)"
    by (simp del: one_log_simps)
  from undecodable_batch_stops_cleaner [OF running_cleaner_simps(1,2) this]
  have "wake_ups [(1, one_log_manager l), (2, one_log_manager l), (3, one_log_manager l)] running_cleaner =
      ([one_log_manager l, one_log_manager l, one_log_manager l], running_cleaner\<lparr>cn_failures := 3\<rparr>)"
    using running_cleaner_simps(4) by (simp del: wake_ups.simps)
  then show ?thesis
    using bad(1) err pick by (intro exI [of _ "one_log_manager l"] exI [of _ ?bad]) simp
qed

end
