(* ===== verification/Error_Codes.thy ===== *)
theory Error_Codes
  imports Partition_Log
begin

text \<open>
  \<^verbatim>\<open>protocol/error_codes.hpp\<close> and \<^verbatim>\<open>protocol/error_codes.cpp\<close>: the codes a response carries, as
  the sixteen-bit integers the wire has. A C++ enumeration holds any value of its type;
  \<open>EC_Unrecognised\<close> is one that has no name.
\<close>

datatype error_code =
    EC_None | EC_Unknown | EC_OffsetOutOfRange | EC_CorruptMessage | EC_NotLeaderForPartition
  | EC_UnknownTopicOrPartition | EC_TopicAlreadyExists | EC_InvalidTopic | EC_RequestTimedOut
  | EC_UnsupportedVersion | EC_CoordinatorNotAvailable | EC_NotCoordinator | EC_IllegalGeneration
  | EC_UnknownMemberId | EC_RebalanceInProgress | EC_InvalidGroupId | EC_Unrecognised int

definition kAllErrorCodes :: "error_code list" where
  "kAllErrorCodes = [EC_None, EC_Unknown, EC_OffsetOutOfRange, EC_CorruptMessage, EC_NotLeaderForPartition,
     EC_UnknownTopicOrPartition, EC_TopicAlreadyExists, EC_InvalidTopic, EC_RequestTimedOut,
     EC_UnsupportedVersion, EC_CoordinatorNotAvailable, EC_NotCoordinator, EC_IllegalGeneration,
     EC_UnknownMemberId, EC_RebalanceInProgress, EC_InvalidGroupId]"

fun code_value :: "error_code \<Rightarrow> int" where
  "code_value EC_None = 0"
| "code_value EC_Unknown = 1"
| "code_value EC_OffsetOutOfRange = 2"
| "code_value EC_CorruptMessage = 3"
| "code_value EC_NotLeaderForPartition = 4"
| "code_value EC_UnknownTopicOrPartition = 5"
| "code_value EC_TopicAlreadyExists = 6"
| "code_value EC_InvalidTopic = 7"
| "code_value EC_RequestTimedOut = 8"
| "code_value EC_UnsupportedVersion = 9"
| "code_value EC_CoordinatorNotAvailable = 10"
| "code_value EC_NotCoordinator = 11"
| "code_value EC_IllegalGeneration = 12"
| "code_value EC_UnknownMemberId = 13"
| "code_value EC_RebalanceInProgress = 14"
| "code_value EC_InvalidGroupId = 15"
| "code_value (EC_Unrecognised v) = v"

definition code_of :: "int \<Rightarrow> error_code" where
  "code_of v = (if 0 \<le> v \<and> v < 16 then kAllErrorCodes ! nat v else EC_Unrecognised v)"

definition code_ok :: "error_code \<Rightarrow> bool" where
  "code_ok e \<longleftrightarrow> (case e of EC_Unrecognised v \<Rightarrow> in_i16 v \<and> \<not> (0 \<le> v \<and> v < 16) | _ \<Rightarrow> True)"

fun errorCodeFor :: "read_error \<Rightarrow> error_code" where
  "errorCodeFor NoError = EC_None"
| "errorCodeFor BelowLogStart = EC_OffsetOutOfRange"
| "errorCodeFor AboveLogEnd = EC_OffsetOutOfRange"

fun describe_code :: "error_code \<Rightarrow> string" where
  "describe_code EC_None = ''none''"
| "describe_code EC_Unknown = ''unknown broker error''"
| "describe_code EC_OffsetOutOfRange = ''offset out of range''"
| "describe_code EC_CorruptMessage = ''corrupt message''"
| "describe_code EC_NotLeaderForPartition = ''not leader for partition''"
| "describe_code EC_UnknownTopicOrPartition = ''unknown topic or partition''"
| "describe_code EC_TopicAlreadyExists = ''topic already exists''"
| "describe_code EC_InvalidTopic = ''invalid topic name''"
| "describe_code EC_RequestTimedOut = ''request timed out''"
| "describe_code EC_UnsupportedVersion = ''unsupported api version''"
| "describe_code EC_CoordinatorNotAvailable = ''group coordinator not available''"
| "describe_code EC_NotCoordinator = ''not the coordinator for this group''"
| "describe_code EC_IllegalGeneration = ''stale generation''"
| "describe_code EC_UnknownMemberId = ''unknown member id''"
| "describe_code EC_RebalanceInProgress =
    ''rebalance in progress '' @ [CHR 0xE2, CHR 0x80, CHR 0x94] @ '' rejoin''"
| "describe_code EC_InvalidGroupId = ''invalid group id''"
| "describe_code (EC_Unrecognised v) = ''unrecognised error code''"

lemma code_of_value [simp]: "code_ok e \<Longrightarrow> code_of (code_value e) = e"
  by (cases e) (auto simp: code_of_def kAllErrorCodes_def code_ok_def)

lemma code_value_range: "code_ok e \<Longrightarrow> in_i16 (code_value e)"
  by (cases e) (simp_all add: code_ok_def range_simps)

end
