(* ===== verification/Wire.thy ===== *)
theory Wire
  imports Partition_Meta Error_Codes
begin

text \<open>
  \<^verbatim>\<open>protocol/wire.cpp\<close>: the strings and array counts every request and response shares, and the
  calculus the message codecs are proved with. \<open>reads dec bs x\<close> says that a decoder positioned at
  the bytes \<open>bs\<close> returns \<open>x\<close> and stops right behind them; its rules follow the shape of a decoder,
  so a message's proof is one \<open>intro\<close>.
\<close>

subsection \<open>Strings and counts\<close>

definition kNullLength :: int where
  "kNullLength = - 1"

definition writeString :: "string \<Rightarrow> writer \<Rightarrow> writer result" where
  "writeString value w =
    bind_r (require (\<not> length value > 32767) Error) (\<lambda>_.
    bind_r (writeInt16 (to_i16 (int (length value))) w) (\<lambda>w. writeBytes (string_bytes value) w))"

definition readString :: "reader \<Rightarrow> (string \<times> reader) result" where
  "readString r =
    bind_r (readInt16 r) (\<lambda>(n, r).
      if n < 0 then bind_r (require (\<not> n \<noteq> kNullLength) CorruptData) (\<lambda>_. Inr ([], r))
      else bind_r (readBytes (nat n) r) (\<lambda>(bytes, r). Inr (bytes_string bytes, r)))"

definition readElementCount :: "reader \<Rightarrow> (int \<times> reader) result" where
  "readElementCount r =
    bind_r (readArrayLength r) (\<lambda>(count, r).
      if count < 0 then Inr (0, r)
      else bind_r (require (\<not> nat count > remaining r) CorruptData) (\<lambda>_. Inr (count, r)))"

text \<open>The loops around them: a count and that many elements.\<close>

definition writeArray :: "('a \<Rightarrow> writer \<Rightarrow> writer result) \<Rightarrow> 'a list \<Rightarrow> writer \<Rightarrow> writer result" where
  "writeArray f xs w = bind_r (writeInt32 (to_i32 (int (length xs))) w) (write_all f xs)"

definition readArray :: "(reader \<Rightarrow> ('a \<times> reader) result) \<Rightarrow> reader \<Rightarrow> ('a list \<times> reader) result" where
  "readArray f r = bind_r (readElementCount r) (\<lambda>(count, r). read_n f (nat count) r)"

subsection \<open>Reading a layout\<close>

definition reads :: "(reader \<Rightarrow> ('a \<times> reader) result) \<Rightarrow> byte list \<Rightarrow> 'a \<Rightarrow> bool" where
  "reads dec bs x \<longleftrightarrow> (\<forall>r ys. rest r = bs @ ys \<longrightarrow> dec r = Inr (x, advance (length bs) r))"

text \<open>The rules take the last field first, so that they never split it.\<close>

lemma reads_bind:
  assumes "reads dec bs x" "reads (f x) cs y"
  shows "reads (\<lambda>r. bind_r (dec r) (\<lambda>(x, r). f x r)) (bs @ cs) y"
proof -
  have "bind_r (dec r) (\<lambda>(x, r). f x r) = Inr (y, advance (length (bs @ cs)) r)" if "rest r = (bs @ cs) @ ys" for r ys
    using assms that unfolding reads_def by (auto simp: add.commute)
  then show ?thesis by (simp add: reads_def)
qed

lemma reads_last:
  "reads dec bs x \<Longrightarrow> f x = y \<Longrightarrow> reads (\<lambda>r. bind_r (dec r) (\<lambda>(x, r). Inr (f x, r))) bs y"
  by (auto simp: reads_def)

lemma reads_last_checked:
  "reads dec bs x \<Longrightarrow> b x \<Longrightarrow> f x = y \<Longrightarrow>
    reads (\<lambda>r. bind_r (dec r) (\<lambda>(x, r). bind_r (require (b x) e) (\<lambda>_. Inr (f x, r)))) bs y"
  by (auto simp: reads_def)

lemma reads_require:
  "b \<Longrightarrow> reads f bs x \<Longrightarrow> reads (\<lambda>r. bind_r (require b e) (\<lambda>_. f r)) bs x"
  by (simp add: reads_def)

lemma reads_if:
  "\<not> b \<Longrightarrow> reads g bs x \<Longrightarrow> reads (\<lambda>r. if b then f r else g r) bs x"
  by (simp add: reads_def)

lemmas reads_intros = reads_last reads_last_checked reads_require reads_bind

context decodable
begin

lemma reads: "ok x \<Longrightarrow> reads dec (repr x) x"
  by (simp add: reads_def dec_repr)

lemma reads_n: "list_all ok xs \<Longrightarrow> n = length xs \<Longrightarrow> reads (read_n dec n) (reprs xs) xs"
  by (simp add: reads_def read_n_reprs)

end

lemma decodableI: "(\<And>x. ok x \<Longrightarrow> reads dec (repr x) x) \<Longrightarrow> decodable dec repr ok"
  by unfold_locales (simp add: reads_def)

subsection \<open>Elements of arrays\<close>

text \<open>
  Array counts are checked against the bytes that remain, so a codec can be the element of an array
  when it takes at least one byte. Such a codec gives one for arrays.
\<close>

definition array_repr :: "('a \<Rightarrow> byte list) \<Rightarrow> 'a list \<Rightarrow> byte list" where
  "array_repr repr xs = be_bytes 4 (word_of_int (int (length xs)) :: 32 word) @ concat (map repr xs)"

definition array_ok :: "('a \<Rightarrow> bool) \<Rightarrow> 'a list \<Rightarrow> bool" where
  "array_ok ok xs \<longleftrightarrow> list_all ok xs \<and> length xs < 2 ^ 31"

lemma array_repr_not_Nil [simp]: "array_repr repr xs \<noteq> []"
  by (simp add: array_repr_def be_bytes_4)

locale element = codec +
  assumes repr_not_Nil: "ok x \<Longrightarrow> repr x \<noteq> []"
begin

lemma length_reprs: "list_all ok xs \<Longrightarrow> length xs \<le> length (reprs xs)"
proof (induction xs)
  case (Cons x xs)
  then show ?case using repr_not_Nil [of x] by (cases "repr x") simp_all
qed simp

end

lemma elementI:
  assumes "\<And>x. ok x \<Longrightarrow> reads dec (repr x) x" "\<And>x w. ok x \<Longrightarrow> live w \<Longrightarrow> enc x w = Inr (push_back (repr x) w)"
    and "\<And>x. ok x \<Longrightarrow> repr x \<noteq> []"
  shows "element dec repr ok enc"
  by unfold_locales (use assms in \<open>simp_all add: reads_def\<close>)

lemma readArrayLength_rest:
  "readArrayLength r = (if 4 \<le> length (rest r) \<and> - 1 \<le> sint (be_word (take 4 (rest r)) :: 32 word)
     then Inr (sint (be_word (take 4 (rest r)) :: 32 word), advance 4 r) else Inl CorruptData)"
  by (simp add: readArrayLength_def readInt32_rest require_def)

lemma readElementCount_reads:
  assumes "rest r = be_bytes 4 (word_of_int (int n) :: 32 word) @ ys" "n < 2 ^ 31" "n \<le> length ys"
  shows "readElementCount r = Inr (int n, advance 4 r)"
proof -
  have "in_i32 (int n)" using assms(2) by (simp add: in_i32_def)
  then have "readInt32 r = Inr (int n, advance 4 r)"
    using int32.dec_repr [of "int n" r ys] assms(1) by (simp add: be_bytes_4)
  then have "readArrayLength r = Inr (int n, advance 4 r)"
    by (simp add: readArrayLength_def)
  then show ?thesis
    using assms by (simp add: readElementCount_def remaining_rest be_bytes_4)
qed

context element
begin

lemma readArray_reads:
  assumes "array_ok ok xs"
  shows "reads (readArray dec) (array_repr repr xs) xs"
proof -
  have "readArray dec r = Inr (xs, advance (length (array_repr repr xs)) r)" if r: "rest r = array_repr repr xs @ ys" for r ys
  proof -
    have xs: "list_all ok xs" "length xs < 2 ^ 31" using assms by (simp_all add: array_ok_def)
    have "readElementCount r = Inr (int (length xs), advance 4 r)"
      using readElementCount_reads [of r "length xs" "reprs xs @ ys"] r xs length_reprs [OF xs(1)]
      by (simp add: array_repr_def reprs_def)
    moreover have "rest (advance 4 r) = reprs xs @ ys"
      using r by (simp add: array_repr_def reprs_def be_bytes_4)
    ultimately show ?thesis
      using read_n_reprs [OF xs(1)] by (simp add: readArray_def array_repr_def be_bytes_4 reprs_def)
  qed
  then show ?thesis by (simp add: reads_def)
qed

lemma writeArray_repr:
  "array_ok ok xs \<Longrightarrow> live w \<Longrightarrow> writeArray enc xs w = Inr (push_back (array_repr repr xs) w)"
  by (simp add: array_ok_def writeArray_def array_repr_def codec_simps write_all_reprs reprs_def in_i32_def)

end

sublocale element \<subseteq> array: codec "readArray dec" "array_repr repr" "array_ok ok" "writeArray enc"
  using readArray_reads by unfold_locales (simp_all add: writeArray_repr reads_def)

subsection \<open>The basic elements\<close>

definition string_repr :: "string \<Rightarrow> byte list" where
  "string_repr s = be_bytes 2 (word_of_int (int (length s)) :: 16 word) @ string_bytes s"

definition string_ok :: "string \<Rightarrow> bool" where
  "string_ok s \<longleftrightarrow> length s < 2 ^ 15"

lemma length_string_bytes [simp]: "length (string_bytes s) = length s"
  by (simp add: string_bytes_def)

interpretation wstring: element readString string_repr string_ok writeString
proof (rule elementI)
  fix s assume s: "string_ok s"
  then have n: "in_i16 (int (length s))" by (simp add: string_ok_def in_i16_def)
  have "readString r = Inr (s, advance (length (string_repr s)) r)" if r: "rest r = string_repr s @ ys" for r ys
  proof -
    have "readInt16 r = Inr (int (length s), advance 2 r)"
      using int16.dec_repr [OF n, of r "string_bytes s @ ys"] r by (simp add: string_repr_def be_bytes_2)
    then show ?thesis using r by (simp add: readString_def readBytes_rest string_repr_def be_bytes_2)
  qed
  then show "reads readString (string_repr s) s" by (simp add: reads_def)
next
  fix s and w :: writer assume "string_ok s" "live w"
  then show "writeString s w = Inr (push_back (string_repr s) w)"
    by (simp add: writeString_def string_repr_def codec_simps string_ok_def in_i16_def)
qed (simp add: string_repr_def be_bytes_2)

definition i32_repr :: "int \<Rightarrow> byte list" where
  "i32_repr x = be_bytes 4 (word_of_int x :: 32 word)"

interpretation wint32: element readInt32 i32_repr in_i32 writeInt32
  by unfold_locales (simp_all add: i32_repr_def int32.dec_repr int32.enc_repr be_bytes_4)

text \<open>An error code is its sixteen-bit value.\<close>

definition writeCode :: "error_code \<Rightarrow> writer \<Rightarrow> writer result" where
  "writeCode e = writeInt16 (code_value e)"

definition readCode :: "reader \<Rightarrow> (error_code \<times> reader) result" where
  "readCode r = bind_r (readInt16 r) (\<lambda>(v, r). Inr (code_of v, r))"

definition code_repr :: "error_code \<Rightarrow> byte list" where
  "code_repr e = be_bytes 2 (word_of_int (code_value e) :: 16 word)"

interpretation wcode: element readCode code_repr code_ok writeCode
proof (rule elementI)
  fix e assume "code_ok e"
  then show "reads readCode (code_repr e) e"
    unfolding readCode_def [abs_def] code_repr_def
    by (intro reads_last [OF int16.reads]) (simp_all add: code_value_range)
qed (simp_all add: writeCode_def code_repr_def codec_simps be_bytes_2)

text \<open>Bytes behind a thirty-two bit length, as the requests carry batches and assignments.\<close>

definition writeBlob :: "byte list \<Rightarrow> writer \<Rightarrow> writer result" where
  "writeBlob bs w = bind_r (writeInt32 (to_i32 (int (length bs))) w) (writeBytes bs)"

definition readBlob :: "reader \<Rightarrow> (byte list \<times> reader) result" where
  "readBlob r = bind_r (readInt32 r) (\<lambda>(n, r).
     bind_r (require (\<not> n < 0) CorruptData) (\<lambda>_. readBytes (nat n) r))"

definition blob_repr :: "byte list \<Rightarrow> byte list" where
  "blob_repr bs = be_bytes 4 (word_of_int (int (length bs)) :: 32 word) @ bs"

definition blob_ok :: "byte list \<Rightarrow> bool" where
  "blob_ok bs \<longleftrightarrow> length bs < 2 ^ 31"

lemma reads_bytes: "n = length bs \<Longrightarrow> reads (readBytes n) bs bs"
  by (simp add: reads_def readBytes_rest)

interpretation wblob: element readBlob blob_repr blob_ok writeBlob
proof (rule elementI)
  fix bs assume bs: "blob_ok bs"
  then have "in_i32 (int (length bs))" by (simp add: blob_ok_def in_i32_def)
  then show "reads readBlob (blob_repr bs) bs"
    unfolding readBlob_def [abs_def] blob_repr_def
    by (intro reads_bind [OF int32.reads] reads_require reads_bytes) simp_all
qed (simp_all add: writeBlob_def blob_repr_def codec_simps be_bytes_4 blob_ok_def in_i32_def)

text \<open>What the encoders rewrite to, on a live writer.\<close>

named_theorems enc_simps

lemmas basic_encs [enc_simps] = wstring.enc_repr wcode.enc_repr wblob.enc_repr wstring.array.enc_repr wint32.array.enc_repr

named_theorems read_rules

named_theorems nonempty_simps

lemma basic_nonempty [nonempty_simps]:
  "string_repr s \<noteq> []" "code_repr e \<noteq> []" "blob_repr bs \<noteq> []" "array_repr repr xs \<noteq> []"
  "be_bytes 2 (u :: 16 word) \<noteq> []" "be_bytes 4 (v :: 32 word) \<noteq> []" "be_bytes 8 (w :: 64 word) \<noteq> []"
  by (simp_all add: string_repr_def code_repr_def blob_repr_def be_bytes_2 be_bytes_4 be_bytes_8)

lemmas basic_reads [read_rules] = int16.reads int32.reads int64.reads int8.reads wstring.reads wcode.reads wblob.reads
  wstring.array.reads wint32.array.reads

subsection \<open>Whole messages\<close>

text \<open>The bytes an encoder leaves on a fresh writer.\<close>

definition bytes_of :: "(writer \<Rightarrow> writer result) \<Rightarrow> byte list result" where
  "bytes_of enc = bind_r (enc new_writer) (\<lambda>w. bind_r (take_writer w) (\<lambda>(out, _). Inr out))"

text \<open>A message survives when it can be written, and is read back from its bytes, whatever follows
them, with the reader right behind it.\<close>

definition survives :: "('a \<Rightarrow> writer \<Rightarrow> writer result) \<Rightarrow> (reader \<Rightarrow> ('a \<times> reader) result) \<Rightarrow> 'a \<Rightarrow> bool" where
  "survives enc dec x \<longleftrightarrow> (\<exists>bytes. bytes_of (enc x) = Inr bytes \<and>
     (\<forall>ys. dec (reader_of (bytes @ ys)) = Inr (x, advance (length bytes) (reader_of (bytes @ ys)))))"

context codec
begin

lemma bytes_of_repr: "ok x \<Longrightarrow> bytes_of (enc x) = Inr (repr x)"
  by (simp add: bytes_of_def enc_repr take_writer_def)

lemma survives: "ok x \<Longrightarrow> survives enc dec x"
  by (simp add: survives_def bytes_of_repr dec_repr)

end

end
