(* ===== verification/Sorted_Map.thy ===== *)
theory Sorted_Map
  imports Prelude
begin

text \<open>
  \<^verbatim>\<open>std::map\<close> as a list sorted by key, and the interface its users rely on.
\<close>

fun set_at :: "'k::linorder \<Rightarrow> 'v \<Rightarrow> ('k \<times> 'v) list \<Rightarrow> ('k \<times> 'v) list" where
  "set_at k v [] = [(k, v)]"
| "set_at k v ((j, u) # m) =
    (if k < j then (k, v) # (j, u) # m else if k = j then (k, v) # m else (j, u) # set_at k v m)"

fun erase_at :: "'k \<Rightarrow> ('k \<times> 'v) list \<Rightarrow> ('k \<times> 'v) list" where
  "erase_at k [] = []"
| "erase_at k ((j, u) # m) = (if k = j then m else (j, u) # erase_at k m)"

definition keys_sorted :: "('k::linorder \<times> 'v) list \<Rightarrow> bool" where
  "keys_sorted m \<longleftrightarrow> sorted_wrt (<) (map fst m)"

lemma map_of_rev_distinct: "distinct (map fst xs) \<Longrightarrow> map_of (rev xs) = map_of xs"
  by (subst map_of_inject_set) (simp_all flip: rev_map)

lemma keys_sorted_simps [simp]:
  "keys_sorted []"
  "keys_sorted ((k, v) # m) \<longleftrightarrow> (\<forall>j \<in> fst ` set m. k < j) \<and> keys_sorted m"
  by (simp_all add: keys_sorted_def)

lemma keys_sorted_distinct: "keys_sorted m \<Longrightarrow> distinct (map fst m)"
  by (simp add: keys_sorted_def strict_sorted_iff)

lemma set_at_keys [simp]: "fst ` set (set_at k v m) = insert k (fst ` set m)"
  by (induction k v m rule: set_at.induct) auto

lemma set_at_not_Nil [simp]: "set_at k v m \<noteq> []"
  by (cases "(k, v, m)" rule: set_at.cases) auto

lemma keys_sorted_set_at [simp]: "keys_sorted m \<Longrightarrow> keys_sorted (set_at k v m)"
  by (induction k v m rule: set_at.induct) auto

lemma map_of_set_at [simp]: "map_of (set_at k v m) = (map_of m)(k \<mapsto> v)"
  by (induction k v m rule: set_at.induct) auto

lemma erase_at_filter: "keys_sorted m \<Longrightarrow> erase_at k m = filter (\<lambda>(j, _). j \<noteq> k) m"
proof (induction k m rule: erase_at.induct)
  case (2 k j u m)
  then have "k = j \<Longrightarrow> filter (\<lambda>(i, _). i \<noteq> k) m = m" by (force simp: filter_id_conv)
  with 2 show ?case by auto
qed simp

lemma keys_sorted_filter [simp]: "keys_sorted m \<Longrightarrow> keys_sorted (filter P m)"
  by (induction m) auto

lemma keys_sorted_erase_at [simp]: "keys_sorted m \<Longrightarrow> keys_sorted (erase_at k m)"
  by (simp add: erase_at_filter)

lemma map_of_erase_at [simp]: "keys_sorted m \<Longrightarrow> map_of (erase_at k m) = (map_of m)(k := None)"
proof (induction k m rule: erase_at.induct)
  case (2 k j u m)
  have "map_of m k = None" if "k = j" using "2.prems" that by (force simp: map_of_eq_None_iff)
  with 2 show ?case by (auto simp: fun_eq_iff)
qed simp

lemma set_at_mem:
  "keys_sorted m \<Longrightarrow> (j, u) \<in> set (set_at k v m) \<longleftrightarrow> (if j = k then u = v else (j, u) \<in> set m)"
  using map_of_eq_Some_iff [OF keys_sorted_distinct [OF keys_sorted_set_at [of m k v]], of j u]
    map_of_eq_Some_iff [OF keys_sorted_distinct [of m], of j u] by auto

lemma map_of_sorted_mem: "keys_sorted m \<Longrightarrow> map_of m k = Some v \<longleftrightarrow> (k, v) \<in> set m"
  by (simp add: keys_sorted_distinct)

lemma map_of_key: "map_of m k = Some v \<Longrightarrow> k \<in> fst ` set m"
  by (force dest: map_of_SomeD)

lemma keys_sorted_map [simp]: "keys_sorted (map (\<lambda>(k, v). (k, f v)) m) \<longleftrightarrow> keys_sorted m"
  by (simp add: keys_sorted_def comp_def case_prod_unfold)

text \<open>A sorted map is determined by its look-ups.\<close>

lemma keys_sorted_eqI:
  assumes "keys_sorted m" "keys_sorted m'" "map_of m = map_of m'"
  shows "m = m'"
proof -
  have "set m = set m'" using assms map_of_sorted_mem by (metis subrelI subset_antisym)
  moreover have "sorted_wrt (\<lambda>a b. fst a < fst b) m" "sorted_wrt (\<lambda>a b. fst a < fst b) m'"
    using assms(1,2) by (simp_all add: keys_sorted_def sorted_wrt_map)
  ultimately show ?thesis
  proof (induction m arbitrary: m')
    case (Cons a m)
    then obtain b n where m': "m' = b # n" by (cases m') auto
    have ab: "a \<in> set (b # n)" "b \<in> set (a # m)" using Cons.prems(1) m' by auto
    have "a = b"
    proof (rule ccontr)
      assume "a \<noteq> b"
      with ab have "a \<in> set n" "b \<in> set m" by auto
      then have "fst b < fst a" "fst a < fst b" using Cons.prems(2,3) m' by auto
      then show False by simp
    qed
    moreover have "a \<notin> set m" "b \<notin> set n" using Cons.prems(2,3) m' by auto
    ultimately have "set m = set n" using Cons.prems(1) m' by auto
    with Cons \<open>a = b\<close> m' show ?case by simp
  qed simp
qed

text \<open>Filing the entries of a sorted list one by one gives it back.\<close>

lemma set_at_append: "keys_sorted (xs @ [(k, v)]) \<Longrightarrow> set_at k v xs = xs @ [(k, v)]"
  by (induction k v xs rule: set_at.induct) (auto simp: keys_sorted_def)

lemma fold_set_at_sorted:
  assumes "keys_sorted xs"
  shows "fold (\<lambda>(k, v). set_at k v) xs [] = xs"
proof -
  have "keys_sorted (ys @ xs) \<Longrightarrow> fold (\<lambda>(k, v). set_at k v) xs ys = ys @ xs" for ys
  proof (induction xs arbitrary: ys)
    case (Cons x xs)
    obtain k v where x: "x = (k, v)" by (cases x)
    have "keys_sorted (ys @ [(k, v)])" using Cons.prems by (simp add: x keys_sorted_def sorted_wrt_append)
    then have "set_at k v ys = ys @ [(k, v)]" by (rule set_at_append)
    moreover have "keys_sorted ((ys @ [(k, v)]) @ xs)" using Cons.prems by (simp add: x)
    ultimately show ?case using Cons.IH by (simp add: x)
  qed simp
  from this [of "[]"] assms show ?thesis by simp
qed

subsection \<open>The interface\<close>

text \<open>A log of assignments and deletions applied to a table, and what a key holds after it.\<close>

fun apply_changes ::
  "('k \<Rightarrow> 'v \<Rightarrow> 'm \<Rightarrow> 'm) \<Rightarrow> ('k \<Rightarrow> 'm \<Rightarrow> 'm) \<Rightarrow> ('k \<times> 'v option) list \<Rightarrow> 'm \<Rightarrow> 'm" where
  "apply_changes insert_at remove_at [] m = m"
| "apply_changes insert_at remove_at ((k, v) # cs) m =
    apply_changes insert_at remove_at cs (case v of Some x \<Rightarrow> insert_at k x m | None \<Rightarrow> remove_at k m)"

definition last_change :: "('k \<times> 'v option) list \<Rightarrow> ('k \<Rightarrow> 'v option) \<Rightarrow> 'k \<Rightarrow> 'v option" where
  "last_change cs base k = (case map_of (rev cs) k of None \<Rightarrow> base k | Some v \<Rightarrow> v)"

lemma apply_changes_append:
  "apply_changes i r (cs @ ds) m = apply_changes i r ds (apply_changes i r cs m)"
  by (induction i r cs m rule: apply_changes.induct) simp_all

lemma last_change_Cons:
  "last_change ((k, v) # cs) base = last_change cs (base(k := v))"
  by (rule ext) (auto simp: last_change_def map_add_def split: option.split)

locale table =
  fixes empty_table :: 'm
    and insert_at :: "'k \<Rightarrow> 'v \<Rightarrow> 'm \<Rightarrow> 'm"
    and remove_at :: "'k \<Rightarrow> 'm \<Rightarrow> 'm"
    and look :: "'m \<Rightarrow> 'k \<Rightarrow> 'v option"
    and inv :: "'m \<Rightarrow> bool"
  assumes inv_empty: "inv empty_table"
    and inv_insert: "inv m \<Longrightarrow> inv (insert_at k v m)"
    and inv_remove: "inv m \<Longrightarrow> inv (remove_at k m)"
    and look_empty: "look empty_table = Map.empty"
    and look_insert: "inv m \<Longrightarrow> look (insert_at k v m) = (look m)(k \<mapsto> v)"
    and look_remove: "inv m \<Longrightarrow> look (remove_at k m) = (look m)(k := None)"
begin

lemma inv_changes: "inv m \<Longrightarrow> inv (apply_changes insert_at remove_at cs m)"
  by (induction cs arbitrary: m) (auto simp: inv_insert inv_remove split: option.split)

text \<open>Replaying a log of changes leaves every key with its last one.\<close>

lemma look_changes: "inv m \<Longrightarrow> look (apply_changes insert_at remove_at cs m) = last_change cs (look m)"
proof (induction cs arbitrary: m)
  case Nil
  show ?case by (simp add: last_change_def fun_eq_iff)
next
  case (Cons a cs)
  obtain k v where a: "a = (k, v)" by (cases a)
  show ?case
  proof (cases v)
    case None
    with Cons a show ?thesis by (simp add: inv_remove look_remove last_change_Cons fun_upd_def)
  next
    case (Some x)
    with Cons a show ?thesis by (simp add: inv_insert look_insert last_change_Cons fun_upd_def)
  qed
qed

lemma look_replay: "look (apply_changes insert_at remove_at cs empty_table) = last_change cs Map.empty"
  using look_changes [OF inv_empty, of cs] by (simp only: look_empty)

end

locale ordered_table = table +
  assumes look_determines: "inv m \<Longrightarrow> inv n \<Longrightarrow> look m = look n \<Longrightarrow> m = n"
begin

text \<open>Two logs that leave every key with the same value leave the same table.\<close>

lemma replay_unique:
  "last_change cs Map.empty = last_change ds Map.empty \<Longrightarrow>
    apply_changes insert_at remove_at cs empty_table = apply_changes insert_at remove_at ds empty_table"
  by (rule look_determines) (simp_all add: inv_changes inv_empty look_replay)

end

interpretation smap: ordered_table "[] :: ('k::linorder \<times> 'v) list" set_at erase_at map_of keys_sorted
  by unfold_locales (auto intro: keys_sorted_eqI)

end
