(* ===== verification/Group_Apis.thy ===== *)
theory Group_Apis
  imports Wire Sorted_Map
begin

text \<open>
  \<^verbatim>\<open>protocol/group_apis.hpp\<close> and \<^verbatim>\<open>protocol/group_apis.cpp\<close>: the requests and responses of the
  seven consumer-group APIs. Each message has its record, its encoder and decoder field by field,
  the layout they agree on, and the range its fields must be in; the interpretation is the proof that
  they are inverse.
\<close>

subsection \<open>Finding the coordinator\<close>

record find_coordinator_request =
  fcq_groupId :: string

definition encodeFindCoordinatorRequest :: "find_coordinator_request \<Rightarrow> writer \<Rightarrow> writer result" where
  "encodeFindCoordinatorRequest m w =
    writeString (fcq_groupId m) w"

definition decodeFindCoordinatorRequest :: "reader \<Rightarrow> (find_coordinator_request \<times> reader) result" where
  "decodeFindCoordinatorRequest = (\<lambda>r.
    bind_r (readString r) (\<lambda>(groupId, r).
      Inr (\<lparr>fcq_groupId = groupId\<rparr>, r)))"

definition find_coordinator_request_repr :: "find_coordinator_request \<Rightarrow> byte list" where
  "find_coordinator_request_repr m =
    string_repr (fcq_groupId m)"

definition find_coordinator_request_ok :: "find_coordinator_request \<Rightarrow> bool" where
  "find_coordinator_request_ok m \<longleftrightarrow>
    string_ok (fcq_groupId m)"

interpretation findCoordinatorRequest: element decodeFindCoordinatorRequest find_coordinator_request_repr find_coordinator_request_ok encodeFindCoordinatorRequest
  by (rule elementI; unfold decodeFindCoordinatorRequest_def encodeFindCoordinatorRequest_def find_coordinator_request_repr_def find_coordinator_request_ok_def;
      (rule reads_intros read_rules find_coordinator_request.equality | simp add: enc_simps codec_simps nonempty_simps)+)

lemmas find_coordinator_request_rules [read_rules] = findCoordinatorRequest.reads findCoordinatorRequest.array.reads
lemmas find_coordinator_request_encs [enc_simps] = findCoordinatorRequest.enc_repr findCoordinatorRequest.array.enc_repr

record find_coordinator_response =
  fcp_error :: error_code
  fcp_nodeId :: int
  fcp_host :: string
  fcp_port :: int

definition encodeFindCoordinatorResponse :: "find_coordinator_response \<Rightarrow> writer \<Rightarrow> writer result" where
  "encodeFindCoordinatorResponse m w =
    bind_r (writeCode (fcp_error m) w) (\<lambda>w.
    bind_r (writeInt32 (fcp_nodeId m) w) (\<lambda>w.
    bind_r (writeString (fcp_host m) w) (\<lambda>w.
    writeInt32 (fcp_port m) w)))"

definition decodeFindCoordinatorResponse :: "reader \<Rightarrow> (find_coordinator_response \<times> reader) result" where
  "decodeFindCoordinatorResponse = (\<lambda>r.
    bind_r (readCode r) (\<lambda>(error, r).
    bind_r (readInt32 r) (\<lambda>(nodeId, r).
    bind_r (readString r) (\<lambda>(host, r).
    bind_r (readInt32 r) (\<lambda>(port, r).
      Inr (\<lparr>fcp_error = error, fcp_nodeId = nodeId, fcp_host = host, fcp_port = port\<rparr>, r))))))"

definition find_coordinator_response_repr :: "find_coordinator_response \<Rightarrow> byte list" where
  "find_coordinator_response_repr m =
    code_repr (fcp_error m) @
    be_bytes 4 (word_of_int (fcp_nodeId m) :: 32 word) @
    string_repr (fcp_host m) @
    be_bytes 4 (word_of_int (fcp_port m) :: 32 word)"

definition find_coordinator_response_ok :: "find_coordinator_response \<Rightarrow> bool" where
  "find_coordinator_response_ok m \<longleftrightarrow>
    code_ok (fcp_error m) \<and>
    in_i32 (fcp_nodeId m) \<and>
    string_ok (fcp_host m) \<and>
    in_i32 (fcp_port m)"

interpretation findCoordinatorResponse: element decodeFindCoordinatorResponse find_coordinator_response_repr find_coordinator_response_ok encodeFindCoordinatorResponse
  by (rule elementI; unfold decodeFindCoordinatorResponse_def encodeFindCoordinatorResponse_def find_coordinator_response_repr_def find_coordinator_response_ok_def;
      (rule reads_intros read_rules find_coordinator_response.equality | simp add: enc_simps codec_simps nonempty_simps)+)

lemmas find_coordinator_response_rules [read_rules] = findCoordinatorResponse.reads findCoordinatorResponse.array.reads
lemmas find_coordinator_response_encs [enc_simps] = findCoordinatorResponse.enc_repr findCoordinatorResponse.array.enc_repr

subsection \<open>Joining\<close>

record join_group_request =
  jgq_groupId :: string
  jgq_sessionTimeoutMs :: int
  jgq_memberId :: string
  jgq_subscription :: "string list"
  jgq_protocols :: "string list"

definition encodeJoinGroupRequest :: "join_group_request \<Rightarrow> writer \<Rightarrow> writer result" where
  "encodeJoinGroupRequest m w =
    bind_r (writeString (jgq_groupId m) w) (\<lambda>w.
    bind_r (writeInt32 (jgq_sessionTimeoutMs m) w) (\<lambda>w.
    bind_r (writeString (jgq_memberId m) w) (\<lambda>w.
    bind_r (writeArray writeString (jgq_subscription m) w) (\<lambda>w.
    writeArray writeString (jgq_protocols m) w))))"

definition decodeJoinGroupRequest :: "reader \<Rightarrow> (join_group_request \<times> reader) result" where
  "decodeJoinGroupRequest = (\<lambda>r.
    bind_r (readString r) (\<lambda>(groupId, r).
    bind_r (readInt32 r) (\<lambda>(sessionTimeoutMs, r).
    bind_r (readString r) (\<lambda>(memberId, r).
    bind_r (readArray readString r) (\<lambda>(subscription, r).
    bind_r (readArray readString r) (\<lambda>(protocols, r).
      Inr (\<lparr>jgq_groupId = groupId, jgq_sessionTimeoutMs = sessionTimeoutMs, jgq_memberId = memberId,
        jgq_subscription = subscription, jgq_protocols = protocols\<rparr>, r)))))))"

definition join_group_request_repr :: "join_group_request \<Rightarrow> byte list" where
  "join_group_request_repr m =
    string_repr (jgq_groupId m) @
    be_bytes 4 (word_of_int (jgq_sessionTimeoutMs m) :: 32 word) @
    string_repr (jgq_memberId m) @
    array_repr string_repr (jgq_subscription m) @
    array_repr string_repr (jgq_protocols m)"

definition join_group_request_ok :: "join_group_request \<Rightarrow> bool" where
  "join_group_request_ok m \<longleftrightarrow>
    string_ok (jgq_groupId m) \<and>
    in_i32 (jgq_sessionTimeoutMs m) \<and>
    string_ok (jgq_memberId m) \<and>
    array_ok string_ok (jgq_subscription m) \<and>
    array_ok string_ok (jgq_protocols m)"

interpretation joinGroupRequest: element decodeJoinGroupRequest join_group_request_repr join_group_request_ok encodeJoinGroupRequest
  by (rule elementI; unfold decodeJoinGroupRequest_def encodeJoinGroupRequest_def join_group_request_repr_def join_group_request_ok_def;
      (rule reads_intros read_rules join_group_request.equality | simp add: enc_simps codec_simps nonempty_simps)+)

lemmas join_group_request_rules [read_rules] = joinGroupRequest.reads joinGroupRequest.array.reads
lemmas join_group_request_encs [enc_simps] = joinGroupRequest.enc_repr joinGroupRequest.array.enc_repr

record member_info =
  mi_memberId :: string
  mi_subscription :: "string list"

definition encodeMemberInfo :: "member_info \<Rightarrow> writer \<Rightarrow> writer result" where
  "encodeMemberInfo m w =
    bind_r (writeString (mi_memberId m) w) (\<lambda>w.
    writeArray writeString (mi_subscription m) w)"

definition decodeMemberInfo :: "reader \<Rightarrow> (member_info \<times> reader) result" where
  "decodeMemberInfo = (\<lambda>r.
    bind_r (readString r) (\<lambda>(memberId, r).
    bind_r (readArray readString r) (\<lambda>(subscription, r).
      Inr (\<lparr>mi_memberId = memberId, mi_subscription = subscription\<rparr>, r))))"

definition member_info_repr :: "member_info \<Rightarrow> byte list" where
  "member_info_repr m =
    string_repr (mi_memberId m) @
    array_repr string_repr (mi_subscription m)"

definition member_info_ok :: "member_info \<Rightarrow> bool" where
  "member_info_ok m \<longleftrightarrow>
    string_ok (mi_memberId m) \<and>
    array_ok string_ok (mi_subscription m)"

interpretation memberInfo: element decodeMemberInfo member_info_repr member_info_ok encodeMemberInfo
  by (rule elementI; unfold decodeMemberInfo_def encodeMemberInfo_def member_info_repr_def member_info_ok_def;
      (rule reads_intros read_rules member_info.equality | simp add: enc_simps codec_simps nonempty_simps)+)

lemmas member_info_rules [read_rules] = memberInfo.reads memberInfo.array.reads
lemmas member_info_encs [enc_simps] = memberInfo.enc_repr memberInfo.array.enc_repr

record join_group_response =
  jgp_error :: error_code
  jgp_generation :: int
  jgp_protocolName :: string
  jgp_leaderId :: string
  jgp_memberId :: string
  jgp_members :: "member_info list"

definition encodeJoinGroupResponse :: "join_group_response \<Rightarrow> writer \<Rightarrow> writer result" where
  "encodeJoinGroupResponse m w =
    bind_r (writeCode (jgp_error m) w) (\<lambda>w.
    bind_r (writeInt32 (jgp_generation m) w) (\<lambda>w.
    bind_r (writeString (jgp_protocolName m) w) (\<lambda>w.
    bind_r (writeString (jgp_leaderId m) w) (\<lambda>w.
    bind_r (writeString (jgp_memberId m) w) (\<lambda>w.
    writeArray encodeMemberInfo (jgp_members m) w)))))"

definition decodeJoinGroupResponse :: "reader \<Rightarrow> (join_group_response \<times> reader) result" where
  "decodeJoinGroupResponse = (\<lambda>r.
    bind_r (readCode r) (\<lambda>(error, r).
    bind_r (readInt32 r) (\<lambda>(generation, r).
    bind_r (readString r) (\<lambda>(protocolName, r).
    bind_r (readString r) (\<lambda>(leaderId, r).
    bind_r (readString r) (\<lambda>(memberId, r).
    bind_r (readArray decodeMemberInfo r) (\<lambda>(members, r).
      Inr (\<lparr>jgp_error = error, jgp_generation = generation, jgp_protocolName = protocolName,
        jgp_leaderId = leaderId, jgp_memberId = memberId, jgp_members = members\<rparr>, r))))))))"

definition join_group_response_repr :: "join_group_response \<Rightarrow> byte list" where
  "join_group_response_repr m =
    code_repr (jgp_error m) @
    be_bytes 4 (word_of_int (jgp_generation m) :: 32 word) @
    string_repr (jgp_protocolName m) @
    string_repr (jgp_leaderId m) @
    string_repr (jgp_memberId m) @
    array_repr member_info_repr (jgp_members m)"

definition join_group_response_ok :: "join_group_response \<Rightarrow> bool" where
  "join_group_response_ok m \<longleftrightarrow>
    code_ok (jgp_error m) \<and>
    in_i32 (jgp_generation m) \<and>
    string_ok (jgp_protocolName m) \<and>
    string_ok (jgp_leaderId m) \<and>
    string_ok (jgp_memberId m) \<and>
    array_ok member_info_ok (jgp_members m)"

interpretation joinGroupResponse: element decodeJoinGroupResponse join_group_response_repr join_group_response_ok encodeJoinGroupResponse
  by (rule elementI; unfold decodeJoinGroupResponse_def encodeJoinGroupResponse_def join_group_response_repr_def join_group_response_ok_def;
      (rule reads_intros read_rules join_group_response.equality | simp add: enc_simps codec_simps nonempty_simps)+)

lemmas join_group_response_rules [read_rules] = joinGroupResponse.reads joinGroupResponse.array.reads
lemmas join_group_response_encs [enc_simps] = joinGroupResponse.enc_repr joinGroupResponse.array.enc_repr

subsection \<open>Syncing\<close>

text \<open>An entry of the map a leader sends.\<close>

record member_assignment =
  ma_memberId :: string
  ma_assignment :: "byte list"

definition encodeMemberAssignment :: "member_assignment \<Rightarrow> writer \<Rightarrow> writer result" where
  "encodeMemberAssignment m w =
    bind_r (writeString (ma_memberId m) w) (\<lambda>w.
    writeBlob (ma_assignment m) w)"

definition decodeMemberAssignment :: "reader \<Rightarrow> (member_assignment \<times> reader) result" where
  "decodeMemberAssignment = (\<lambda>r.
    bind_r (readString r) (\<lambda>(memberId, r).
    bind_r (readBlob r) (\<lambda>(assignment, r).
      Inr (\<lparr>ma_memberId = memberId, ma_assignment = assignment\<rparr>, r))))"

definition member_assignment_repr :: "member_assignment \<Rightarrow> byte list" where
  "member_assignment_repr m =
    string_repr (ma_memberId m) @
    blob_repr (ma_assignment m)"

definition member_assignment_ok :: "member_assignment \<Rightarrow> bool" where
  "member_assignment_ok m \<longleftrightarrow>
    string_ok (ma_memberId m) \<and>
    blob_ok (ma_assignment m)"

interpretation memberAssignment: element decodeMemberAssignment member_assignment_repr member_assignment_ok encodeMemberAssignment
  by (rule elementI; unfold decodeMemberAssignment_def encodeMemberAssignment_def member_assignment_repr_def member_assignment_ok_def;
      (rule reads_intros read_rules member_assignment.equality | simp add: enc_simps codec_simps nonempty_simps)+)

lemmas member_assignment_rules [read_rules] = memberAssignment.reads memberAssignment.array.reads
lemmas member_assignment_encs [enc_simps] = memberAssignment.enc_repr memberAssignment.array.enc_repr

text \<open>
  The assignments are a \<^verbatim>\<open>std::map\<close>: written in the order of their keys, and the last one of a
  repeated key counts.
\<close>

definition pair_of :: "member_assignment \<Rightarrow> string \<times> byte list" where
  "pair_of a = (ma_memberId a, ma_assignment a)"

definition entry_of :: "string \<times> byte list \<Rightarrow> member_assignment" where
  "entry_of p = \<lparr>ma_memberId = fst p, ma_assignment = snd p\<rparr>"

record sync_group_request =
  sgq_groupId :: string
  sgq_generation :: int
  sgq_memberId :: string
  sgq_assignments :: "(string \<times> byte list) list"

definition encodeSyncGroupRequest :: "sync_group_request \<Rightarrow> writer \<Rightarrow> writer result" where
  "encodeSyncGroupRequest m w =
    bind_r (writeString (sgq_groupId m) w) (\<lambda>w.
    bind_r (writeInt32 (sgq_generation m) w) (\<lambda>w.
    bind_r (writeString (sgq_memberId m) w) (\<lambda>w.
    writeArray encodeMemberAssignment (map entry_of (sgq_assignments m)) w)))"

definition decodeSyncGroupRequest :: "reader \<Rightarrow> (sync_group_request \<times> reader) result" where
  "decodeSyncGroupRequest = (\<lambda>r.
    bind_r (readString r) (\<lambda>(groupId, r).
    bind_r (readInt32 r) (\<lambda>(generation, r).
    bind_r (readString r) (\<lambda>(memberId, r).
    bind_r (readArray decodeMemberAssignment r) (\<lambda>(entries, r).
      Inr (\<lparr>sgq_groupId = groupId, sgq_generation = generation, sgq_memberId = memberId,
        sgq_assignments = fold (\<lambda>(k, v). set_at k v) (map pair_of entries) []\<rparr>, r))))))"

definition sync_group_request_repr :: "sync_group_request \<Rightarrow> byte list" where
  "sync_group_request_repr m =
    string_repr (sgq_groupId m) @
    be_bytes 4 (word_of_int (sgq_generation m) :: 32 word) @
    string_repr (sgq_memberId m) @
    array_repr member_assignment_repr (map entry_of (sgq_assignments m))"

definition sync_group_request_ok :: "sync_group_request \<Rightarrow> bool" where
  "sync_group_request_ok m \<longleftrightarrow>
    string_ok (sgq_groupId m) \<and>
    in_i32 (sgq_generation m) \<and>
    string_ok (sgq_memberId m) \<and>
    array_ok member_assignment_ok (map entry_of (sgq_assignments m)) \<and>
    keys_sorted (sgq_assignments m)"

lemma pairs_of_entries [simp]: "map pair_of (map entry_of xs) = xs"
  by (simp add: pair_of_def entry_of_def comp_def)

interpretation syncGroupRequest: element decodeSyncGroupRequest sync_group_request_repr sync_group_request_ok encodeSyncGroupRequest
  by (rule elementI; unfold decodeSyncGroupRequest_def encodeSyncGroupRequest_def sync_group_request_repr_def sync_group_request_ok_def;
      (rule reads_intros read_rules sync_group_request.equality | simp add: enc_simps codec_simps nonempty_simps fold_set_at_sorted del: map_map)+)

record sync_group_response =
  sgp_error :: error_code
  sgp_assignment :: "byte list"

definition encodeSyncGroupResponse :: "sync_group_response \<Rightarrow> writer \<Rightarrow> writer result" where
  "encodeSyncGroupResponse m w =
    bind_r (writeCode (sgp_error m) w) (\<lambda>w.
    writeBlob (sgp_assignment m) w)"

definition decodeSyncGroupResponse :: "reader \<Rightarrow> (sync_group_response \<times> reader) result" where
  "decodeSyncGroupResponse = (\<lambda>r.
    bind_r (readCode r) (\<lambda>(error, r).
    bind_r (readBlob r) (\<lambda>(assignment, r).
      Inr (\<lparr>sgp_error = error, sgp_assignment = assignment\<rparr>, r))))"

definition sync_group_response_repr :: "sync_group_response \<Rightarrow> byte list" where
  "sync_group_response_repr m =
    code_repr (sgp_error m) @
    blob_repr (sgp_assignment m)"

definition sync_group_response_ok :: "sync_group_response \<Rightarrow> bool" where
  "sync_group_response_ok m \<longleftrightarrow>
    code_ok (sgp_error m) \<and>
    blob_ok (sgp_assignment m)"

interpretation syncGroupResponse: element decodeSyncGroupResponse sync_group_response_repr sync_group_response_ok encodeSyncGroupResponse
  by (rule elementI; unfold decodeSyncGroupResponse_def encodeSyncGroupResponse_def sync_group_response_repr_def sync_group_response_ok_def;
      (rule reads_intros read_rules sync_group_response.equality | simp add: enc_simps codec_simps nonempty_simps)+)

lemmas sync_group_response_rules [read_rules] = syncGroupResponse.reads syncGroupResponse.array.reads
lemmas sync_group_response_encs [enc_simps] = syncGroupResponse.enc_repr syncGroupResponse.array.enc_repr

subsection \<open>Heartbeats and leaving\<close>

record heartbeat_request =
  hbq_groupId :: string
  hbq_generation :: int
  hbq_memberId :: string

definition encodeHeartbeatRequest :: "heartbeat_request \<Rightarrow> writer \<Rightarrow> writer result" where
  "encodeHeartbeatRequest m w =
    bind_r (writeString (hbq_groupId m) w) (\<lambda>w.
    bind_r (writeInt32 (hbq_generation m) w) (\<lambda>w.
    writeString (hbq_memberId m) w))"

definition decodeHeartbeatRequest :: "reader \<Rightarrow> (heartbeat_request \<times> reader) result" where
  "decodeHeartbeatRequest = (\<lambda>r.
    bind_r (readString r) (\<lambda>(groupId, r).
    bind_r (readInt32 r) (\<lambda>(generation, r).
    bind_r (readString r) (\<lambda>(memberId, r).
      Inr (\<lparr>hbq_groupId = groupId, hbq_generation = generation, hbq_memberId = memberId\<rparr>, r)))))"

definition heartbeat_request_repr :: "heartbeat_request \<Rightarrow> byte list" where
  "heartbeat_request_repr m =
    string_repr (hbq_groupId m) @
    be_bytes 4 (word_of_int (hbq_generation m) :: 32 word) @
    string_repr (hbq_memberId m)"

definition heartbeat_request_ok :: "heartbeat_request \<Rightarrow> bool" where
  "heartbeat_request_ok m \<longleftrightarrow>
    string_ok (hbq_groupId m) \<and>
    in_i32 (hbq_generation m) \<and>
    string_ok (hbq_memberId m)"

interpretation heartbeatRequest: element decodeHeartbeatRequest heartbeat_request_repr heartbeat_request_ok encodeHeartbeatRequest
  by (rule elementI; unfold decodeHeartbeatRequest_def encodeHeartbeatRequest_def heartbeat_request_repr_def heartbeat_request_ok_def;
      (rule reads_intros read_rules heartbeat_request.equality | simp add: enc_simps codec_simps nonempty_simps)+)

lemmas heartbeat_request_rules [read_rules] = heartbeatRequest.reads heartbeatRequest.array.reads
lemmas heartbeat_request_encs [enc_simps] = heartbeatRequest.enc_repr heartbeatRequest.array.enc_repr

record heartbeat_response =
  hbp_error :: error_code

definition encodeHeartbeatResponse :: "heartbeat_response \<Rightarrow> writer \<Rightarrow> writer result" where
  "encodeHeartbeatResponse m w =
    writeCode (hbp_error m) w"

definition decodeHeartbeatResponse :: "reader \<Rightarrow> (heartbeat_response \<times> reader) result" where
  "decodeHeartbeatResponse = (\<lambda>r.
    bind_r (readCode r) (\<lambda>(error, r).
      Inr (\<lparr>hbp_error = error\<rparr>, r)))"

definition heartbeat_response_repr :: "heartbeat_response \<Rightarrow> byte list" where
  "heartbeat_response_repr m =
    code_repr (hbp_error m)"

definition heartbeat_response_ok :: "heartbeat_response \<Rightarrow> bool" where
  "heartbeat_response_ok m \<longleftrightarrow>
    code_ok (hbp_error m)"

interpretation heartbeatResponse: element decodeHeartbeatResponse heartbeat_response_repr heartbeat_response_ok encodeHeartbeatResponse
  by (rule elementI; unfold decodeHeartbeatResponse_def encodeHeartbeatResponse_def heartbeat_response_repr_def heartbeat_response_ok_def;
      (rule reads_intros read_rules heartbeat_response.equality | simp add: enc_simps codec_simps nonempty_simps)+)

lemmas heartbeat_response_rules [read_rules] = heartbeatResponse.reads heartbeatResponse.array.reads
lemmas heartbeat_response_encs [enc_simps] = heartbeatResponse.enc_repr heartbeatResponse.array.enc_repr

record leave_group_request =
  lgq_groupId :: string
  lgq_memberId :: string

definition encodeLeaveGroupRequest :: "leave_group_request \<Rightarrow> writer \<Rightarrow> writer result" where
  "encodeLeaveGroupRequest m w =
    bind_r (writeString (lgq_groupId m) w) (\<lambda>w.
    writeString (lgq_memberId m) w)"

definition decodeLeaveGroupRequest :: "reader \<Rightarrow> (leave_group_request \<times> reader) result" where
  "decodeLeaveGroupRequest = (\<lambda>r.
    bind_r (readString r) (\<lambda>(groupId, r).
    bind_r (readString r) (\<lambda>(memberId, r).
      Inr (\<lparr>lgq_groupId = groupId, lgq_memberId = memberId\<rparr>, r))))"

definition leave_group_request_repr :: "leave_group_request \<Rightarrow> byte list" where
  "leave_group_request_repr m =
    string_repr (lgq_groupId m) @
    string_repr (lgq_memberId m)"

definition leave_group_request_ok :: "leave_group_request \<Rightarrow> bool" where
  "leave_group_request_ok m \<longleftrightarrow>
    string_ok (lgq_groupId m) \<and>
    string_ok (lgq_memberId m)"

interpretation leaveGroupRequest: element decodeLeaveGroupRequest leave_group_request_repr leave_group_request_ok encodeLeaveGroupRequest
  by (rule elementI; unfold decodeLeaveGroupRequest_def encodeLeaveGroupRequest_def leave_group_request_repr_def leave_group_request_ok_def;
      (rule reads_intros read_rules leave_group_request.equality | simp add: enc_simps codec_simps nonempty_simps)+)

lemmas leave_group_request_rules [read_rules] = leaveGroupRequest.reads leaveGroupRequest.array.reads
lemmas leave_group_request_encs [enc_simps] = leaveGroupRequest.enc_repr leaveGroupRequest.array.enc_repr

record leave_group_response =
  lgp_error :: error_code

definition encodeLeaveGroupResponse :: "leave_group_response \<Rightarrow> writer \<Rightarrow> writer result" where
  "encodeLeaveGroupResponse m w =
    writeCode (lgp_error m) w"

definition decodeLeaveGroupResponse :: "reader \<Rightarrow> (leave_group_response \<times> reader) result" where
  "decodeLeaveGroupResponse = (\<lambda>r.
    bind_r (readCode r) (\<lambda>(error, r).
      Inr (\<lparr>lgp_error = error\<rparr>, r)))"

definition leave_group_response_repr :: "leave_group_response \<Rightarrow> byte list" where
  "leave_group_response_repr m =
    code_repr (lgp_error m)"

definition leave_group_response_ok :: "leave_group_response \<Rightarrow> bool" where
  "leave_group_response_ok m \<longleftrightarrow>
    code_ok (lgp_error m)"

interpretation leaveGroupResponse: element decodeLeaveGroupResponse leave_group_response_repr leave_group_response_ok encodeLeaveGroupResponse
  by (rule elementI; unfold decodeLeaveGroupResponse_def encodeLeaveGroupResponse_def leave_group_response_repr_def leave_group_response_ok_def;
      (rule reads_intros read_rules leave_group_response.equality | simp add: enc_simps codec_simps nonempty_simps)+)

lemmas leave_group_response_rules [read_rules] = leaveGroupResponse.reads leaveGroupResponse.array.reads
lemmas leave_group_response_encs [enc_simps] = leaveGroupResponse.enc_repr leaveGroupResponse.array.enc_repr

subsection \<open>Committing and fetching offsets\<close>

record commit_request_partition =
  cqp_partition :: int
  cqp_nextOffset :: int
  cqp_metadata :: string

definition encodeCommitRequestPartition :: "commit_request_partition \<Rightarrow> writer \<Rightarrow> writer result" where
  "encodeCommitRequestPartition m w =
    bind_r (writeInt32 (cqp_partition m) w) (\<lambda>w.
    bind_r (writeInt64 (cqp_nextOffset m) w) (\<lambda>w.
    writeString (cqp_metadata m) w))"

definition decodeCommitRequestPartition :: "reader \<Rightarrow> (commit_request_partition \<times> reader) result" where
  "decodeCommitRequestPartition = (\<lambda>r.
    bind_r (readInt32 r) (\<lambda>(partition, r).
    bind_r (readInt64 r) (\<lambda>(nextOffset, r).
    bind_r (require (\<not> nextOffset < 0) CorruptData) (\<lambda>_.
    bind_r (readString r) (\<lambda>(metadata, r).
      Inr (\<lparr>cqp_partition = partition, cqp_nextOffset = nextOffset, cqp_metadata = metadata\<rparr>, r))))))"

definition commit_request_partition_repr :: "commit_request_partition \<Rightarrow> byte list" where
  "commit_request_partition_repr m =
    be_bytes 4 (word_of_int (cqp_partition m) :: 32 word) @
    be_bytes 8 (word_of_int (cqp_nextOffset m) :: 64 word) @
    string_repr (cqp_metadata m)"

definition commit_request_partition_ok :: "commit_request_partition \<Rightarrow> bool" where
  "commit_request_partition_ok m \<longleftrightarrow>
    in_i32 (cqp_partition m) \<and>
    in_i64 (cqp_nextOffset m) \<and>
    0 \<le> cqp_nextOffset m \<and>
    string_ok (cqp_metadata m)"

interpretation commitRequestPartition: element decodeCommitRequestPartition commit_request_partition_repr commit_request_partition_ok encodeCommitRequestPartition
  by (rule elementI; unfold decodeCommitRequestPartition_def encodeCommitRequestPartition_def commit_request_partition_repr_def commit_request_partition_ok_def;
      (rule reads_intros read_rules commit_request_partition.equality | simp add: enc_simps codec_simps nonempty_simps)+)

lemmas commit_request_partition_rules [read_rules] = commitRequestPartition.reads commitRequestPartition.array.reads
lemmas commit_request_partition_encs [enc_simps] = commitRequestPartition.enc_repr commitRequestPartition.array.enc_repr

record commit_request_topic =
  cqt_name :: string
  cqt_partitions :: "commit_request_partition list"

definition encodeCommitRequestTopic :: "commit_request_topic \<Rightarrow> writer \<Rightarrow> writer result" where
  "encodeCommitRequestTopic m w =
    bind_r (writeString (cqt_name m) w) (\<lambda>w.
    writeArray encodeCommitRequestPartition (cqt_partitions m) w)"

definition decodeCommitRequestTopic :: "reader \<Rightarrow> (commit_request_topic \<times> reader) result" where
  "decodeCommitRequestTopic = (\<lambda>r.
    bind_r (readString r) (\<lambda>(name, r).
    bind_r (readArray decodeCommitRequestPartition r) (\<lambda>(partitions, r).
      Inr (\<lparr>cqt_name = name, cqt_partitions = partitions\<rparr>, r))))"

definition commit_request_topic_repr :: "commit_request_topic \<Rightarrow> byte list" where
  "commit_request_topic_repr m =
    string_repr (cqt_name m) @
    array_repr commit_request_partition_repr (cqt_partitions m)"

definition commit_request_topic_ok :: "commit_request_topic \<Rightarrow> bool" where
  "commit_request_topic_ok m \<longleftrightarrow>
    string_ok (cqt_name m) \<and>
    array_ok commit_request_partition_ok (cqt_partitions m)"

interpretation commitRequestTopic: element decodeCommitRequestTopic commit_request_topic_repr commit_request_topic_ok encodeCommitRequestTopic
  by (rule elementI; unfold decodeCommitRequestTopic_def encodeCommitRequestTopic_def commit_request_topic_repr_def commit_request_topic_ok_def;
      (rule reads_intros read_rules commit_request_topic.equality | simp add: enc_simps codec_simps nonempty_simps)+)

lemmas commit_request_topic_rules [read_rules] = commitRequestTopic.reads commitRequestTopic.array.reads
lemmas commit_request_topic_encs [enc_simps] = commitRequestTopic.enc_repr commitRequestTopic.array.enc_repr

record offset_commit_request =
  ocq_groupId :: string
  ocq_generation :: int
  ocq_memberId :: string
  ocq_topics :: "commit_request_topic list"

definition encodeOffsetCommitRequest :: "offset_commit_request \<Rightarrow> writer \<Rightarrow> writer result" where
  "encodeOffsetCommitRequest m w =
    bind_r (writeString (ocq_groupId m) w) (\<lambda>w.
    bind_r (writeInt32 (ocq_generation m) w) (\<lambda>w.
    bind_r (writeString (ocq_memberId m) w) (\<lambda>w.
    writeArray encodeCommitRequestTopic (ocq_topics m) w)))"

definition decodeOffsetCommitRequest :: "reader \<Rightarrow> (offset_commit_request \<times> reader) result" where
  "decodeOffsetCommitRequest = (\<lambda>r.
    bind_r (readString r) (\<lambda>(groupId, r).
    bind_r (readInt32 r) (\<lambda>(generation, r).
    bind_r (readString r) (\<lambda>(memberId, r).
    bind_r (readArray decodeCommitRequestTopic r) (\<lambda>(topics, r).
      Inr (\<lparr>ocq_groupId = groupId, ocq_generation = generation, ocq_memberId = memberId,
        ocq_topics = topics\<rparr>, r))))))"

definition offset_commit_request_repr :: "offset_commit_request \<Rightarrow> byte list" where
  "offset_commit_request_repr m =
    string_repr (ocq_groupId m) @
    be_bytes 4 (word_of_int (ocq_generation m) :: 32 word) @
    string_repr (ocq_memberId m) @
    array_repr commit_request_topic_repr (ocq_topics m)"

definition offset_commit_request_ok :: "offset_commit_request \<Rightarrow> bool" where
  "offset_commit_request_ok m \<longleftrightarrow>
    string_ok (ocq_groupId m) \<and>
    in_i32 (ocq_generation m) \<and>
    string_ok (ocq_memberId m) \<and>
    array_ok commit_request_topic_ok (ocq_topics m)"

interpretation offsetCommitRequest: element decodeOffsetCommitRequest offset_commit_request_repr offset_commit_request_ok encodeOffsetCommitRequest
  by (rule elementI; unfold decodeOffsetCommitRequest_def encodeOffsetCommitRequest_def offset_commit_request_repr_def offset_commit_request_ok_def;
      (rule reads_intros read_rules offset_commit_request.equality | simp add: enc_simps codec_simps nonempty_simps)+)

lemmas offset_commit_request_rules [read_rules] = offsetCommitRequest.reads offsetCommitRequest.array.reads
lemmas offset_commit_request_encs [enc_simps] = offsetCommitRequest.enc_repr offsetCommitRequest.array.enc_repr

record commit_response_partition =
  cpp_partition :: int
  cpp_error :: error_code

definition encodeCommitResponsePartition :: "commit_response_partition \<Rightarrow> writer \<Rightarrow> writer result" where
  "encodeCommitResponsePartition m w =
    bind_r (writeInt32 (cpp_partition m) w) (\<lambda>w.
    writeCode (cpp_error m) w)"

definition decodeCommitResponsePartition :: "reader \<Rightarrow> (commit_response_partition \<times> reader) result" where
  "decodeCommitResponsePartition = (\<lambda>r.
    bind_r (readInt32 r) (\<lambda>(partition, r).
    bind_r (readCode r) (\<lambda>(error, r).
      Inr (\<lparr>cpp_partition = partition, cpp_error = error\<rparr>, r))))"

definition commit_response_partition_repr :: "commit_response_partition \<Rightarrow> byte list" where
  "commit_response_partition_repr m =
    be_bytes 4 (word_of_int (cpp_partition m) :: 32 word) @
    code_repr (cpp_error m)"

definition commit_response_partition_ok :: "commit_response_partition \<Rightarrow> bool" where
  "commit_response_partition_ok m \<longleftrightarrow>
    in_i32 (cpp_partition m) \<and>
    code_ok (cpp_error m)"

interpretation commitResponsePartition: element decodeCommitResponsePartition commit_response_partition_repr commit_response_partition_ok encodeCommitResponsePartition
  by (rule elementI; unfold decodeCommitResponsePartition_def encodeCommitResponsePartition_def commit_response_partition_repr_def commit_response_partition_ok_def;
      (rule reads_intros read_rules commit_response_partition.equality | simp add: enc_simps codec_simps nonempty_simps)+)

lemmas commit_response_partition_rules [read_rules] = commitResponsePartition.reads commitResponsePartition.array.reads
lemmas commit_response_partition_encs [enc_simps] = commitResponsePartition.enc_repr commitResponsePartition.array.enc_repr

record commit_response_topic =
  cpt_name :: string
  cpt_partitions :: "commit_response_partition list"

definition encodeCommitResponseTopic :: "commit_response_topic \<Rightarrow> writer \<Rightarrow> writer result" where
  "encodeCommitResponseTopic m w =
    bind_r (writeString (cpt_name m) w) (\<lambda>w.
    writeArray encodeCommitResponsePartition (cpt_partitions m) w)"

definition decodeCommitResponseTopic :: "reader \<Rightarrow> (commit_response_topic \<times> reader) result" where
  "decodeCommitResponseTopic = (\<lambda>r.
    bind_r (readString r) (\<lambda>(name, r).
    bind_r (readArray decodeCommitResponsePartition r) (\<lambda>(partitions, r).
      Inr (\<lparr>cpt_name = name, cpt_partitions = partitions\<rparr>, r))))"

definition commit_response_topic_repr :: "commit_response_topic \<Rightarrow> byte list" where
  "commit_response_topic_repr m =
    string_repr (cpt_name m) @
    array_repr commit_response_partition_repr (cpt_partitions m)"

definition commit_response_topic_ok :: "commit_response_topic \<Rightarrow> bool" where
  "commit_response_topic_ok m \<longleftrightarrow>
    string_ok (cpt_name m) \<and>
    array_ok commit_response_partition_ok (cpt_partitions m)"

interpretation commitResponseTopic: element decodeCommitResponseTopic commit_response_topic_repr commit_response_topic_ok encodeCommitResponseTopic
  by (rule elementI; unfold decodeCommitResponseTopic_def encodeCommitResponseTopic_def commit_response_topic_repr_def commit_response_topic_ok_def;
      (rule reads_intros read_rules commit_response_topic.equality | simp add: enc_simps codec_simps nonempty_simps)+)

lemmas commit_response_topic_rules [read_rules] = commitResponseTopic.reads commitResponseTopic.array.reads
lemmas commit_response_topic_encs [enc_simps] = commitResponseTopic.enc_repr commitResponseTopic.array.enc_repr

record offset_commit_response =
  ocp_topics :: "commit_response_topic list"

definition encodeOffsetCommitResponse :: "offset_commit_response \<Rightarrow> writer \<Rightarrow> writer result" where
  "encodeOffsetCommitResponse m w =
    writeArray encodeCommitResponseTopic (ocp_topics m) w"

definition decodeOffsetCommitResponse :: "reader \<Rightarrow> (offset_commit_response \<times> reader) result" where
  "decodeOffsetCommitResponse = (\<lambda>r.
    bind_r (readArray decodeCommitResponseTopic r) (\<lambda>(topics, r).
      Inr (\<lparr>ocp_topics = topics\<rparr>, r)))"

definition offset_commit_response_repr :: "offset_commit_response \<Rightarrow> byte list" where
  "offset_commit_response_repr m =
    array_repr commit_response_topic_repr (ocp_topics m)"

definition offset_commit_response_ok :: "offset_commit_response \<Rightarrow> bool" where
  "offset_commit_response_ok m \<longleftrightarrow>
    array_ok commit_response_topic_ok (ocp_topics m)"

interpretation offsetCommitResponse: element decodeOffsetCommitResponse offset_commit_response_repr offset_commit_response_ok encodeOffsetCommitResponse
  by (rule elementI; unfold decodeOffsetCommitResponse_def encodeOffsetCommitResponse_def offset_commit_response_repr_def offset_commit_response_ok_def;
      (rule reads_intros read_rules offset_commit_response.equality | simp add: enc_simps codec_simps nonempty_simps)+)

lemmas offset_commit_response_rules [read_rules] = offsetCommitResponse.reads offsetCommitResponse.array.reads
lemmas offset_commit_response_encs [enc_simps] = offsetCommitResponse.enc_repr offsetCommitResponse.array.enc_repr

record fetch_offsets_topic =
  fot_name :: string
  fot_partitions :: "int list"

definition encodeFetchOffsetsTopic :: "fetch_offsets_topic \<Rightarrow> writer \<Rightarrow> writer result" where
  "encodeFetchOffsetsTopic m w =
    bind_r (writeString (fot_name m) w) (\<lambda>w.
    writeArray writeInt32 (fot_partitions m) w)"

definition decodeFetchOffsetsTopic :: "reader \<Rightarrow> (fetch_offsets_topic \<times> reader) result" where
  "decodeFetchOffsetsTopic = (\<lambda>r.
    bind_r (readString r) (\<lambda>(name, r).
    bind_r (readArray readInt32 r) (\<lambda>(partitions, r).
      Inr (\<lparr>fot_name = name, fot_partitions = partitions\<rparr>, r))))"

definition fetch_offsets_topic_repr :: "fetch_offsets_topic \<Rightarrow> byte list" where
  "fetch_offsets_topic_repr m =
    string_repr (fot_name m) @
    array_repr i32_repr (fot_partitions m)"

definition fetch_offsets_topic_ok :: "fetch_offsets_topic \<Rightarrow> bool" where
  "fetch_offsets_topic_ok m \<longleftrightarrow>
    string_ok (fot_name m) \<and>
    array_ok in_i32 (fot_partitions m)"

interpretation fetchOffsetsTopic: element decodeFetchOffsetsTopic fetch_offsets_topic_repr fetch_offsets_topic_ok encodeFetchOffsetsTopic
  by (rule elementI; unfold decodeFetchOffsetsTopic_def encodeFetchOffsetsTopic_def fetch_offsets_topic_repr_def fetch_offsets_topic_ok_def;
      (rule reads_intros read_rules fetch_offsets_topic.equality | simp add: enc_simps codec_simps nonempty_simps)+)

lemmas fetch_offsets_topic_rules [read_rules] = fetchOffsetsTopic.reads fetchOffsetsTopic.array.reads
lemmas fetch_offsets_topic_encs [enc_simps] = fetchOffsetsTopic.enc_repr fetchOffsetsTopic.array.enc_repr

record offset_fetch_request =
  ofq_groupId :: string
  ofq_topics :: "fetch_offsets_topic list"

definition encodeOffsetFetchRequest :: "offset_fetch_request \<Rightarrow> writer \<Rightarrow> writer result" where
  "encodeOffsetFetchRequest m w =
    bind_r (writeString (ofq_groupId m) w) (\<lambda>w.
    writeArray encodeFetchOffsetsTopic (ofq_topics m) w)"

definition decodeOffsetFetchRequest :: "reader \<Rightarrow> (offset_fetch_request \<times> reader) result" where
  "decodeOffsetFetchRequest = (\<lambda>r.
    bind_r (readString r) (\<lambda>(groupId, r).
    bind_r (readArray decodeFetchOffsetsTopic r) (\<lambda>(topics, r).
      Inr (\<lparr>ofq_groupId = groupId, ofq_topics = topics\<rparr>, r))))"

definition offset_fetch_request_repr :: "offset_fetch_request \<Rightarrow> byte list" where
  "offset_fetch_request_repr m =
    string_repr (ofq_groupId m) @
    array_repr fetch_offsets_topic_repr (ofq_topics m)"

definition offset_fetch_request_ok :: "offset_fetch_request \<Rightarrow> bool" where
  "offset_fetch_request_ok m \<longleftrightarrow>
    string_ok (ofq_groupId m) \<and>
    array_ok fetch_offsets_topic_ok (ofq_topics m)"

interpretation offsetFetchRequest: element decodeOffsetFetchRequest offset_fetch_request_repr offset_fetch_request_ok encodeOffsetFetchRequest
  by (rule elementI; unfold decodeOffsetFetchRequest_def encodeOffsetFetchRequest_def offset_fetch_request_repr_def offset_fetch_request_ok_def;
      (rule reads_intros read_rules offset_fetch_request.equality | simp add: enc_simps codec_simps nonempty_simps)+)

lemmas offset_fetch_request_rules [read_rules] = offsetFetchRequest.reads offsetFetchRequest.array.reads
lemmas offset_fetch_request_encs [enc_simps] = offsetFetchRequest.enc_repr offsetFetchRequest.array.enc_repr

record fetched_offset =
  fo_partition :: int
  fo_nextOffset :: int
  fo_metadata :: string
  fo_error :: error_code

definition encodeFetchedOffset :: "fetched_offset \<Rightarrow> writer \<Rightarrow> writer result" where
  "encodeFetchedOffset m w =
    bind_r (writeInt32 (fo_partition m) w) (\<lambda>w.
    bind_r (writeInt64 (fo_nextOffset m) w) (\<lambda>w.
    bind_r (writeString (fo_metadata m) w) (\<lambda>w.
    writeCode (fo_error m) w)))"

definition decodeFetchedOffset :: "reader \<Rightarrow> (fetched_offset \<times> reader) result" where
  "decodeFetchedOffset = (\<lambda>r.
    bind_r (readInt32 r) (\<lambda>(partition, r).
    bind_r (readInt64 r) (\<lambda>(nextOffset, r).
    bind_r (readString r) (\<lambda>(metadata, r).
    bind_r (readCode r) (\<lambda>(error, r).
      Inr (\<lparr>fo_partition = partition, fo_nextOffset = nextOffset, fo_metadata = metadata,
        fo_error = error\<rparr>, r))))))"

definition fetched_offset_repr :: "fetched_offset \<Rightarrow> byte list" where
  "fetched_offset_repr m =
    be_bytes 4 (word_of_int (fo_partition m) :: 32 word) @
    be_bytes 8 (word_of_int (fo_nextOffset m) :: 64 word) @
    string_repr (fo_metadata m) @
    code_repr (fo_error m)"

definition fetched_offset_ok :: "fetched_offset \<Rightarrow> bool" where
  "fetched_offset_ok m \<longleftrightarrow>
    in_i32 (fo_partition m) \<and>
    in_i64 (fo_nextOffset m) \<and>
    string_ok (fo_metadata m) \<and>
    code_ok (fo_error m)"

interpretation fetchedOffset: element decodeFetchedOffset fetched_offset_repr fetched_offset_ok encodeFetchedOffset
  by (rule elementI; unfold decodeFetchedOffset_def encodeFetchedOffset_def fetched_offset_repr_def fetched_offset_ok_def;
      (rule reads_intros read_rules fetched_offset.equality | simp add: enc_simps codec_simps nonempty_simps)+)

lemmas fetched_offset_rules [read_rules] = fetchedOffset.reads fetchedOffset.array.reads
lemmas fetched_offset_encs [enc_simps] = fetchedOffset.enc_repr fetchedOffset.array.enc_repr

record fetched_topic =
  ft_name :: string
  ft_partitions :: "fetched_offset list"

definition encodeFetchedTopic :: "fetched_topic \<Rightarrow> writer \<Rightarrow> writer result" where
  "encodeFetchedTopic m w =
    bind_r (writeString (ft_name m) w) (\<lambda>w.
    writeArray encodeFetchedOffset (ft_partitions m) w)"

definition decodeFetchedTopic :: "reader \<Rightarrow> (fetched_topic \<times> reader) result" where
  "decodeFetchedTopic = (\<lambda>r.
    bind_r (readString r) (\<lambda>(name, r).
    bind_r (readArray decodeFetchedOffset r) (\<lambda>(partitions, r).
      Inr (\<lparr>ft_name = name, ft_partitions = partitions\<rparr>, r))))"

definition fetched_topic_repr :: "fetched_topic \<Rightarrow> byte list" where
  "fetched_topic_repr m =
    string_repr (ft_name m) @
    array_repr fetched_offset_repr (ft_partitions m)"

definition fetched_topic_ok :: "fetched_topic \<Rightarrow> bool" where
  "fetched_topic_ok m \<longleftrightarrow>
    string_ok (ft_name m) \<and>
    array_ok fetched_offset_ok (ft_partitions m)"

interpretation fetchedTopic: element decodeFetchedTopic fetched_topic_repr fetched_topic_ok encodeFetchedTopic
  by (rule elementI; unfold decodeFetchedTopic_def encodeFetchedTopic_def fetched_topic_repr_def fetched_topic_ok_def;
      (rule reads_intros read_rules fetched_topic.equality | simp add: enc_simps codec_simps nonempty_simps)+)

lemmas fetched_topic_rules [read_rules] = fetchedTopic.reads fetchedTopic.array.reads
lemmas fetched_topic_encs [enc_simps] = fetchedTopic.enc_repr fetchedTopic.array.enc_repr

record offset_fetch_response =
  ofp_topics :: "fetched_topic list"

definition encodeOffsetFetchResponse :: "offset_fetch_response \<Rightarrow> writer \<Rightarrow> writer result" where
  "encodeOffsetFetchResponse m w =
    writeArray encodeFetchedTopic (ofp_topics m) w"

definition decodeOffsetFetchResponse :: "reader \<Rightarrow> (offset_fetch_response \<times> reader) result" where
  "decodeOffsetFetchResponse = (\<lambda>r.
    bind_r (readArray decodeFetchedTopic r) (\<lambda>(topics, r).
      Inr (\<lparr>ofp_topics = topics\<rparr>, r)))"

definition offset_fetch_response_repr :: "offset_fetch_response \<Rightarrow> byte list" where
  "offset_fetch_response_repr m =
    array_repr fetched_topic_repr (ofp_topics m)"

definition offset_fetch_response_ok :: "offset_fetch_response \<Rightarrow> bool" where
  "offset_fetch_response_ok m \<longleftrightarrow>
    array_ok fetched_topic_ok (ofp_topics m)"

interpretation offsetFetchResponse: element decodeOffsetFetchResponse offset_fetch_response_repr offset_fetch_response_ok encodeOffsetFetchResponse
  by (rule elementI; unfold decodeOffsetFetchResponse_def encodeOffsetFetchResponse_def offset_fetch_response_repr_def offset_fetch_response_ok_def;
      (rule reads_intros read_rules offset_fetch_response.equality | simp add: enc_simps codec_simps nonempty_simps)+)

lemmas offset_fetch_response_rules [read_rules] = offsetFetchResponse.reads offsetFetchResponse.array.reads
lemmas offset_fetch_response_encs [enc_simps] = offsetFetchResponse.enc_repr offsetFetchResponse.array.enc_repr

subsection \<open>Properties\<close>

text \<open>Every message of the consumer-group protocol whose fields are in range can be written, and
reads back from its bytes as the same message with the reader right behind it, whatever follows in
the frame: what a client says is what the broker hears, and the reverse.\<close>

lemma group_messages_survive:
  "(find_coordinator_request_ok m1 \<longrightarrow> survives encodeFindCoordinatorRequest decodeFindCoordinatorRequest m1) \<and>
    (find_coordinator_response_ok m2 \<longrightarrow> survives encodeFindCoordinatorResponse decodeFindCoordinatorResponse m2) \<and>
    (join_group_request_ok m3 \<longrightarrow> survives encodeJoinGroupRequest decodeJoinGroupRequest m3) \<and>
    (join_group_response_ok m4 \<longrightarrow> survives encodeJoinGroupResponse decodeJoinGroupResponse m4) \<and>
    (sync_group_request_ok m5 \<longrightarrow> survives encodeSyncGroupRequest decodeSyncGroupRequest m5) \<and>
    (sync_group_response_ok m6 \<longrightarrow> survives encodeSyncGroupResponse decodeSyncGroupResponse m6) \<and>
    (heartbeat_request_ok m7 \<longrightarrow> survives encodeHeartbeatRequest decodeHeartbeatRequest m7) \<and>
    (heartbeat_response_ok m8 \<longrightarrow> survives encodeHeartbeatResponse decodeHeartbeatResponse m8) \<and>
    (leave_group_request_ok m9 \<longrightarrow> survives encodeLeaveGroupRequest decodeLeaveGroupRequest m9) \<and>
    (leave_group_response_ok m10 \<longrightarrow> survives encodeLeaveGroupResponse decodeLeaveGroupResponse m10) \<and>
    (offset_commit_request_ok m11 \<longrightarrow> survives encodeOffsetCommitRequest decodeOffsetCommitRequest m11) \<and>
    (offset_commit_response_ok m12 \<longrightarrow> survives encodeOffsetCommitResponse decodeOffsetCommitResponse m12) \<and>
    (offset_fetch_request_ok m13 \<longrightarrow> survives encodeOffsetFetchRequest decodeOffsetFetchRequest m13) \<and>
    (offset_fetch_response_ok m14 \<longrightarrow> survives encodeOffsetFetchResponse decodeOffsetFetchResponse m14)"
  by (intro conjI impI) (simp_all add: findCoordinatorRequest.survives findCoordinatorResponse.survives joinGroupRequest.survives joinGroupResponse.survives syncGroupRequest.survives syncGroupResponse.survives heartbeatRequest.survives heartbeatResponse.survives leaveGroupRequest.survives leaveGroupResponse.survives offsetCommitRequest.survives offsetCommitResponse.survives offsetFetchRequest.survives offsetFetchResponse.survives)

end
