(* ===== verification/Data_Apis.thy ===== *)
theory Data_Apis
  imports Wire
begin

text \<open>
  The requests and responses of \<^verbatim>\<open>protocol/request_header.cpp\<close>, \<^verbatim>\<open>metadata.cpp\<close>,
  \<^verbatim>\<open>list_offsets.cpp\<close>, \<^verbatim>\<open>create_topic.cpp\<close>, \<^verbatim>\<open>produce.cpp\<close> and the client's side of
  \<^verbatim>\<open>fetch.cpp\<close>, in the manner of the group messages. A produce request also records where in its
  frame each batch lies, which depends on the position of the reader and has lemmas of its own.
\<close>

subsection \<open>The header\<close>

datatype api_key =
    Produce | Fetch | ListOffsets | Metadata | OffsetCommit | OffsetFetch | FindCoordinator | JoinGroup
  | Heartbeat | LeaveGroup | SyncGroup | CreateTopic | Api_Unrecognised int

definition kAllApiKeys :: "api_key list" where
  "kAllApiKeys = [Produce, Fetch, ListOffsets, Metadata, OffsetCommit, OffsetFetch, FindCoordinator, JoinGroup,
     Heartbeat, LeaveGroup, SyncGroup, CreateTopic]"

fun key_value :: "api_key \<Rightarrow> int" where
  "key_value Produce = 0"
| "key_value Fetch = 1"
| "key_value ListOffsets = 2"
| "key_value Metadata = 3"
| "key_value OffsetCommit = 8"
| "key_value OffsetFetch = 9"
| "key_value FindCoordinator = 10"
| "key_value JoinGroup = 11"
| "key_value Heartbeat = 12"
| "key_value LeaveGroup = 13"
| "key_value SyncGroup = 14"
| "key_value CreateTopic = 19"
| "key_value (Api_Unrecognised v) = v"

definition key_of :: "int \<Rightarrow> api_key" where
  "key_of v = (case find (\<lambda>k. key_value k = v) kAllApiKeys of Some k \<Rightarrow> k | None \<Rightarrow> Api_Unrecognised v)"

definition isKnown :: "api_key \<Rightarrow> bool" where
  "isKnown key \<longleftrightarrow> key \<in> set kAllApiKeys"

fun describe_key :: "api_key \<Rightarrow> string" where
  "describe_key Produce = ''Produce''"
| "describe_key Fetch = ''Fetch''"
| "describe_key ListOffsets = ''ListOffsets''"
| "describe_key Metadata = ''Metadata''"
| "describe_key OffsetCommit = ''OffsetCommit''"
| "describe_key OffsetFetch = ''OffsetFetch''"
| "describe_key FindCoordinator = ''FindCoordinator''"
| "describe_key JoinGroup = ''JoinGroup''"
| "describe_key Heartbeat = ''Heartbeat''"
| "describe_key LeaveGroup = ''LeaveGroup''"
| "describe_key SyncGroup = ''SyncGroup''"
| "describe_key CreateTopic = ''CreateTopic''"
| "describe_key (Api_Unrecognised v) = ''unrecognised api key''"

definition key_ok :: "api_key \<Rightarrow> bool" where
  "key_ok k \<longleftrightarrow> in_i16 (key_value k) \<and> (case k of Api_Unrecognised v \<Rightarrow> v \<notin> key_value ` set kAllApiKeys | _ \<Rightarrow> True)"

lemma key_of_value [simp]: "key_ok k \<Longrightarrow> key_of (key_value k) = k"
  by (cases k) (simp_all add: key_of_def kAllApiKeys_def key_ok_def)

definition writeKey :: "api_key \<Rightarrow> writer \<Rightarrow> writer result" where
  "writeKey k = writeInt16 (key_value k)"

definition readKey :: "reader \<Rightarrow> (api_key \<times> reader) result" where
  "readKey r = bind_r (readInt16 r) (\<lambda>(v, r). Inr (key_of v, r))"

definition key_repr :: "api_key \<Rightarrow> byte list" where
  "key_repr k = be_bytes 2 (word_of_int (key_value k) :: 16 word)"

interpretation wkey: element readKey key_repr key_ok writeKey
proof (rule elementI)
  fix k assume "key_ok k"
  then show "reads readKey (key_repr k) k"
    unfolding readKey_def [abs_def] key_repr_def by (intro reads_last [OF int16.reads]) (simp_all add: key_ok_def)
qed (simp_all add: writeKey_def key_repr_def codec_simps be_bytes_2)

record request_header =
  rh_apiKey :: api_key
  rh_apiVersion :: int
  rh_correlationId :: int
  rh_clientId :: string

text \<open>The client id is written without the check that \<open>writeString\<close> makes of a length.\<close>

definition encodeRequestHeader :: "request_header \<Rightarrow> writer \<Rightarrow> writer result" where
  "encodeRequestHeader h w =
    bind_r (writeKey (rh_apiKey h) w) (\<lambda>w.
    bind_r (writeInt16 (rh_apiVersion h) w) (\<lambda>w.
    bind_r (writeInt32 (rh_correlationId h) w) (\<lambda>w.
    bind_r (writeInt16 (to_i16 (int (length (rh_clientId h)))) w) (\<lambda>w.
    writeBytes (string_bytes (rh_clientId h)) w))))"

definition readClientId :: "reader \<Rightarrow> (string \<times> reader) result" where
  "readClientId r =
    bind_r (readInt16 r) (\<lambda>(clientIdLength, r).
      if clientIdLength < 0 then bind_r (require (\<not> clientIdLength \<noteq> kNullLength) CorruptData) (\<lambda>_. Inr ([], r))
      else bind_r (readBytes (nat clientIdLength) r) (\<lambda>(bytes, r). Inr (bytes_string bytes, r)))"

definition decodeRequestHeader :: "reader \<Rightarrow> (request_header \<times> reader) result" where
  "decodeRequestHeader = (\<lambda>r.
    bind_r (readKey r) (\<lambda>(apiKey, r).
    bind_r (readInt16 r) (\<lambda>(apiVersion, r).
    bind_r (readInt32 r) (\<lambda>(correlationId, r).
    bind_r (readClientId r) (\<lambda>(clientId, r).
      Inr (\<lparr>rh_apiKey = apiKey, rh_apiVersion = apiVersion, rh_correlationId = correlationId,
        rh_clientId = clientId\<rparr>, r))))))"

definition encodeResponseHeader :: "int \<Rightarrow> writer \<Rightarrow> writer result" where
  "encodeResponseHeader correlationId w = writeInt32 correlationId w"

definition decodeResponseHeader :: "reader \<Rightarrow> (int \<times> reader) result" where
  "decodeResponseHeader r = readInt32 r"

definition request_header_repr :: "request_header \<Rightarrow> byte list" where
  "request_header_repr h = key_repr (rh_apiKey h) @ be_bytes 2 (word_of_int (rh_apiVersion h) :: 16 word) @
     be_bytes 4 (word_of_int (rh_correlationId h) :: 32 word) @ string_repr (rh_clientId h)"

definition request_header_ok :: "request_header \<Rightarrow> bool" where
  "request_header_ok h \<longleftrightarrow> key_ok (rh_apiKey h) \<and> in_i16 (rh_apiVersion h) \<and> in_i32 (rh_correlationId h) \<and>
     string_ok (rh_clientId h)"

lemma readClientId_string [simp]: "readClientId = readString"
  by (rule ext) (simp add: readClientId_def readString_def)

lemma key_repr_not_Nil [nonempty_simps]: "key_repr k \<noteq> []"
  by (simp add: key_repr_def be_bytes_2)

interpretation requestHeader: element decodeRequestHeader request_header_repr request_header_ok encodeRequestHeader
  by (rule elementI; unfold decodeRequestHeader_def encodeRequestHeader_def request_header_repr_def request_header_ok_def
        readClientId_string;
      (rule reads_intros read_rules wkey.reads request_header.equality
        | simp add: wkey.enc_repr codec_simps nonempty_simps string_repr_def string_ok_def in_i16_def)+)

interpretation responseHeader: element decodeResponseHeader i32_repr in_i32 encodeResponseHeader
  by unfold_locales (simp_all add: decodeResponseHeader_def encodeResponseHeader_def wint32.dec_repr wint32.enc_repr
      i32_repr_def be_bytes_4)

subsection \<open>Listing offsets\<close>

definition kLatestTimestamp :: int where "kLatestTimestamp = - 1"
definition kEarliestTimestamp :: int where "kEarliestTimestamp = - 2"

record list_offsets_asked =
  loa_partition :: int
  loa_timestamp :: int

definition encodeListOffsetsAsked :: "list_offsets_asked \<Rightarrow> writer \<Rightarrow> writer result" where
  "encodeListOffsetsAsked m w =
    bind_r (writeInt32 (loa_partition m) w) (\<lambda>w.
    writeInt64 (loa_timestamp m) w)"

definition decodeListOffsetsAsked :: "reader \<Rightarrow> (list_offsets_asked \<times> reader) result" where
  "decodeListOffsetsAsked = (\<lambda>r.
    bind_r (readInt32 r) (\<lambda>(partition, r).
    bind_r (readInt64 r) (\<lambda>(timestamp, r).
      Inr (\<lparr>loa_partition = partition, loa_timestamp = timestamp\<rparr>, r))))"

definition list_offsets_asked_repr :: "list_offsets_asked \<Rightarrow> byte list" where
  "list_offsets_asked_repr m =
    be_bytes 4 (word_of_int (loa_partition m) :: 32 word) @
    be_bytes 8 (word_of_int (loa_timestamp m) :: 64 word)"

definition list_offsets_asked_ok :: "list_offsets_asked \<Rightarrow> bool" where
  "list_offsets_asked_ok m \<longleftrightarrow>
    in_i32 (loa_partition m) \<and>
    in_i64 (loa_timestamp m)"

interpretation listOffsetsAsked: element decodeListOffsetsAsked list_offsets_asked_repr list_offsets_asked_ok encodeListOffsetsAsked
  by (rule elementI; unfold decodeListOffsetsAsked_def encodeListOffsetsAsked_def list_offsets_asked_repr_def list_offsets_asked_ok_def;
      (rule reads_intros read_rules list_offsets_asked.equality | simp add: enc_simps codec_simps nonempty_simps)+)

lemmas list_offsets_asked_rules [read_rules] = listOffsetsAsked.reads listOffsetsAsked.array.reads
lemmas list_offsets_asked_encs [enc_simps] = listOffsetsAsked.enc_repr listOffsetsAsked.array.enc_repr

record list_offsets_topic =
  lot_name :: string
  lot_partitions :: "list_offsets_asked list"

definition encodeListOffsetsTopic :: "list_offsets_topic \<Rightarrow> writer \<Rightarrow> writer result" where
  "encodeListOffsetsTopic m w =
    bind_r (writeString (lot_name m) w) (\<lambda>w.
    writeArray encodeListOffsetsAsked (lot_partitions m) w)"

definition decodeListOffsetsTopic :: "reader \<Rightarrow> (list_offsets_topic \<times> reader) result" where
  "decodeListOffsetsTopic = (\<lambda>r.
    bind_r (readString r) (\<lambda>(name, r).
    bind_r (readArray decodeListOffsetsAsked r) (\<lambda>(partitions, r).
      Inr (\<lparr>lot_name = name, lot_partitions = partitions\<rparr>, r))))"

definition list_offsets_topic_repr :: "list_offsets_topic \<Rightarrow> byte list" where
  "list_offsets_topic_repr m =
    string_repr (lot_name m) @
    array_repr list_offsets_asked_repr (lot_partitions m)"

definition list_offsets_topic_ok :: "list_offsets_topic \<Rightarrow> bool" where
  "list_offsets_topic_ok m \<longleftrightarrow>
    string_ok (lot_name m) \<and>
    array_ok list_offsets_asked_ok (lot_partitions m)"

interpretation listOffsetsTopic: element decodeListOffsetsTopic list_offsets_topic_repr list_offsets_topic_ok encodeListOffsetsTopic
  by (rule elementI; unfold decodeListOffsetsTopic_def encodeListOffsetsTopic_def list_offsets_topic_repr_def list_offsets_topic_ok_def;
      (rule reads_intros read_rules list_offsets_topic.equality | simp add: enc_simps codec_simps nonempty_simps)+)

lemmas list_offsets_topic_rules [read_rules] = listOffsetsTopic.reads listOffsetsTopic.array.reads
lemmas list_offsets_topic_encs [enc_simps] = listOffsetsTopic.enc_repr listOffsetsTopic.array.enc_repr

record list_offsets_request =
  loq_topics :: "list_offsets_topic list"

definition encodeListOffsetsRequest :: "list_offsets_request \<Rightarrow> writer \<Rightarrow> writer result" where
  "encodeListOffsetsRequest m w =
    writeArray encodeListOffsetsTopic (loq_topics m) w"

definition decodeListOffsetsRequest :: "reader \<Rightarrow> (list_offsets_request \<times> reader) result" where
  "decodeListOffsetsRequest = (\<lambda>r.
    bind_r (readArray decodeListOffsetsTopic r) (\<lambda>(topics, r).
      Inr (\<lparr>loq_topics = topics\<rparr>, r)))"

definition list_offsets_request_repr :: "list_offsets_request \<Rightarrow> byte list" where
  "list_offsets_request_repr m =
    array_repr list_offsets_topic_repr (loq_topics m)"

definition list_offsets_request_ok :: "list_offsets_request \<Rightarrow> bool" where
  "list_offsets_request_ok m \<longleftrightarrow>
    array_ok list_offsets_topic_ok (loq_topics m)"

interpretation listOffsetsRequest: element decodeListOffsetsRequest list_offsets_request_repr list_offsets_request_ok encodeListOffsetsRequest
  by (rule elementI; unfold decodeListOffsetsRequest_def encodeListOffsetsRequest_def list_offsets_request_repr_def list_offsets_request_ok_def;
      (rule reads_intros read_rules list_offsets_request.equality | simp add: enc_simps codec_simps nonempty_simps)+)

lemmas list_offsets_request_rules [read_rules] = listOffsetsRequest.reads listOffsetsRequest.array.reads
lemmas list_offsets_request_encs [enc_simps] = listOffsetsRequest.enc_repr listOffsetsRequest.array.enc_repr

record listed_offset =
  lo_partition :: int
  lo_error :: error_code
  lo_offset :: int

definition encodeListedOffset :: "listed_offset \<Rightarrow> writer \<Rightarrow> writer result" where
  "encodeListedOffset m w =
    bind_r (writeInt32 (lo_partition m) w) (\<lambda>w.
    bind_r (writeCode (lo_error m) w) (\<lambda>w.
    writeInt64 (lo_offset m) w))"

definition decodeListedOffset :: "reader \<Rightarrow> (listed_offset \<times> reader) result" where
  "decodeListedOffset = (\<lambda>r.
    bind_r (readInt32 r) (\<lambda>(partition, r).
    bind_r (readCode r) (\<lambda>(error, r).
    bind_r (readInt64 r) (\<lambda>(offset, r).
      Inr (\<lparr>lo_partition = partition, lo_error = error, lo_offset = offset\<rparr>, r)))))"

definition listed_offset_repr :: "listed_offset \<Rightarrow> byte list" where
  "listed_offset_repr m =
    be_bytes 4 (word_of_int (lo_partition m) :: 32 word) @
    code_repr (lo_error m) @
    be_bytes 8 (word_of_int (lo_offset m) :: 64 word)"

definition listed_offset_ok :: "listed_offset \<Rightarrow> bool" where
  "listed_offset_ok m \<longleftrightarrow>
    in_i32 (lo_partition m) \<and>
    code_ok (lo_error m) \<and>
    in_i64 (lo_offset m)"

interpretation listedOffset: element decodeListedOffset listed_offset_repr listed_offset_ok encodeListedOffset
  by (rule elementI; unfold decodeListedOffset_def encodeListedOffset_def listed_offset_repr_def listed_offset_ok_def;
      (rule reads_intros read_rules listed_offset.equality | simp add: enc_simps codec_simps nonempty_simps)+)

lemmas listed_offset_rules [read_rules] = listedOffset.reads listedOffset.array.reads
lemmas listed_offset_encs [enc_simps] = listedOffset.enc_repr listedOffset.array.enc_repr

record listed_topic =
  lt_name :: string
  lt_partitions :: "listed_offset list"

definition encodeListedTopic :: "listed_topic \<Rightarrow> writer \<Rightarrow> writer result" where
  "encodeListedTopic m w =
    bind_r (writeString (lt_name m) w) (\<lambda>w.
    writeArray encodeListedOffset (lt_partitions m) w)"

definition decodeListedTopic :: "reader \<Rightarrow> (listed_topic \<times> reader) result" where
  "decodeListedTopic = (\<lambda>r.
    bind_r (readString r) (\<lambda>(name, r).
    bind_r (readArray decodeListedOffset r) (\<lambda>(partitions, r).
      Inr (\<lparr>lt_name = name, lt_partitions = partitions\<rparr>, r))))"

definition listed_topic_repr :: "listed_topic \<Rightarrow> byte list" where
  "listed_topic_repr m =
    string_repr (lt_name m) @
    array_repr listed_offset_repr (lt_partitions m)"

definition listed_topic_ok :: "listed_topic \<Rightarrow> bool" where
  "listed_topic_ok m \<longleftrightarrow>
    string_ok (lt_name m) \<and>
    array_ok listed_offset_ok (lt_partitions m)"

interpretation listedTopic: element decodeListedTopic listed_topic_repr listed_topic_ok encodeListedTopic
  by (rule elementI; unfold decodeListedTopic_def encodeListedTopic_def listed_topic_repr_def listed_topic_ok_def;
      (rule reads_intros read_rules listed_topic.equality | simp add: enc_simps codec_simps nonempty_simps)+)

lemmas listed_topic_rules [read_rules] = listedTopic.reads listedTopic.array.reads
lemmas listed_topic_encs [enc_simps] = listedTopic.enc_repr listedTopic.array.enc_repr

record list_offsets_response =
  lop_topics :: "listed_topic list"

definition encodeListOffsetsResponse :: "list_offsets_response \<Rightarrow> writer \<Rightarrow> writer result" where
  "encodeListOffsetsResponse m w =
    writeArray encodeListedTopic (lop_topics m) w"

definition decodeListOffsetsResponse :: "reader \<Rightarrow> (list_offsets_response \<times> reader) result" where
  "decodeListOffsetsResponse = (\<lambda>r.
    bind_r (readArray decodeListedTopic r) (\<lambda>(topics, r).
      Inr (\<lparr>lop_topics = topics\<rparr>, r)))"

definition list_offsets_response_repr :: "list_offsets_response \<Rightarrow> byte list" where
  "list_offsets_response_repr m =
    array_repr listed_topic_repr (lop_topics m)"

definition list_offsets_response_ok :: "list_offsets_response \<Rightarrow> bool" where
  "list_offsets_response_ok m \<longleftrightarrow>
    array_ok listed_topic_ok (lop_topics m)"

interpretation listOffsetsResponse: element decodeListOffsetsResponse list_offsets_response_repr list_offsets_response_ok encodeListOffsetsResponse
  by (rule elementI; unfold decodeListOffsetsResponse_def encodeListOffsetsResponse_def list_offsets_response_repr_def list_offsets_response_ok_def;
      (rule reads_intros read_rules list_offsets_response.equality | simp add: enc_simps codec_simps nonempty_simps)+)

lemmas list_offsets_response_rules [read_rules] = listOffsetsResponse.reads listOffsetsResponse.array.reads
lemmas list_offsets_response_encs [enc_simps] = listOffsetsResponse.enc_repr listOffsetsResponse.array.enc_repr

subsection \<open>Metadata\<close>

definition writeBool :: "bool \<Rightarrow> writer \<Rightarrow> writer result" where
  "writeBool b w = writeInt8 (if b then 1 else 0) w"

definition readBool :: "reader \<Rightarrow> (bool \<times> reader) result" where
  "readBool r = bind_r (readInt8 r) (\<lambda>(v, r). Inr (v \<noteq> 0, r))"

definition bool_repr :: "bool \<Rightarrow> byte list" where
  "bool_repr b = [word_of_int (if b then 1 else 0)]"

definition bool_ok :: "bool \<Rightarrow> bool" where
  "bool_ok b \<longleftrightarrow> True"

interpretation wbool: element readBool bool_repr bool_ok writeBool
proof (rule elementI)
  fix b
  have "in_i8 (if b then 1 else 0)" by (simp add: in_i8_def)
  then show "reads readBool (bool_repr b) b"
    unfolding readBool_def [abs_def] bool_repr_def by (intro reads_last [OF int8.reads]) simp_all
qed (simp_all add: writeBool_def bool_repr_def codec_simps)

lemmas bool_rules [read_rules] = wbool.reads
lemmas bool_encs [enc_simps] = wbool.enc_repr

lemma bool_repr_not_Nil [nonempty_simps]: "bool_repr b \<noteq> []"
  by (simp add: bool_repr_def)

record metadata_request =
  mq_allTopics :: bool
  mq_topics :: "string list"

definition encodeMetadataRequest :: "metadata_request \<Rightarrow> writer \<Rightarrow> writer result" where
  "encodeMetadataRequest m w =
    bind_r (writeBool (mq_allTopics m) w) (\<lambda>w.
    writeArray writeString (mq_topics m) w)"

definition decodeMetadataRequest :: "reader \<Rightarrow> (metadata_request \<times> reader) result" where
  "decodeMetadataRequest = (\<lambda>r.
    bind_r (readBool r) (\<lambda>(allTopics, r).
    bind_r (readArray readString r) (\<lambda>(topics, r).
      Inr (\<lparr>mq_allTopics = allTopics, mq_topics = topics\<rparr>, r))))"

definition metadata_request_repr :: "metadata_request \<Rightarrow> byte list" where
  "metadata_request_repr m =
    bool_repr (mq_allTopics m) @
    array_repr string_repr (mq_topics m)"

definition metadata_request_ok :: "metadata_request \<Rightarrow> bool" where
  "metadata_request_ok m \<longleftrightarrow>
    bool_ok (mq_allTopics m) \<and>
    array_ok string_ok (mq_topics m)"

interpretation metadataRequest: element decodeMetadataRequest metadata_request_repr metadata_request_ok encodeMetadataRequest
  by (rule elementI; unfold decodeMetadataRequest_def encodeMetadataRequest_def metadata_request_repr_def metadata_request_ok_def;
      (rule reads_intros read_rules metadata_request.equality | simp add: enc_simps codec_simps nonempty_simps)+)

lemmas metadata_request_rules [read_rules] = metadataRequest.reads metadataRequest.array.reads
lemmas metadata_request_encs [enc_simps] = metadataRequest.enc_repr metadataRequest.array.enc_repr

record broker_info =
  bi_nodeId :: int
  bi_host :: string
  bi_port :: int

definition encodeBrokerInfo :: "broker_info \<Rightarrow> writer \<Rightarrow> writer result" where
  "encodeBrokerInfo m w =
    bind_r (writeInt32 (bi_nodeId m) w) (\<lambda>w.
    bind_r (writeString (bi_host m) w) (\<lambda>w.
    writeInt32 (bi_port m) w))"

definition decodeBrokerInfo :: "reader \<Rightarrow> (broker_info \<times> reader) result" where
  "decodeBrokerInfo = (\<lambda>r.
    bind_r (readInt32 r) (\<lambda>(nodeId, r).
    bind_r (readString r) (\<lambda>(host, r).
    bind_r (readInt32 r) (\<lambda>(port, r).
      Inr (\<lparr>bi_nodeId = nodeId, bi_host = host, bi_port = port\<rparr>, r)))))"

definition broker_info_repr :: "broker_info \<Rightarrow> byte list" where
  "broker_info_repr m =
    be_bytes 4 (word_of_int (bi_nodeId m) :: 32 word) @
    string_repr (bi_host m) @
    be_bytes 4 (word_of_int (bi_port m) :: 32 word)"

definition broker_info_ok :: "broker_info \<Rightarrow> bool" where
  "broker_info_ok m \<longleftrightarrow>
    in_i32 (bi_nodeId m) \<and>
    string_ok (bi_host m) \<and>
    in_i32 (bi_port m)"

interpretation brokerInfo: element decodeBrokerInfo broker_info_repr broker_info_ok encodeBrokerInfo
  by (rule elementI; unfold decodeBrokerInfo_def encodeBrokerInfo_def broker_info_repr_def broker_info_ok_def;
      (rule reads_intros read_rules broker_info.equality | simp add: enc_simps codec_simps nonempty_simps)+)

lemmas broker_info_rules [read_rules] = brokerInfo.reads brokerInfo.array.reads
lemmas broker_info_encs [enc_simps] = brokerInfo.enc_repr brokerInfo.array.enc_repr

record partition_metadata =
  pm_md_error :: error_code
  pm_md_partition :: int
  pm_md_leader :: int

definition encodePartitionMetadata :: "partition_metadata \<Rightarrow> writer \<Rightarrow> writer result" where
  "encodePartitionMetadata m w =
    bind_r (writeCode (pm_md_error m) w) (\<lambda>w.
    bind_r (writeInt32 (pm_md_partition m) w) (\<lambda>w.
    writeInt32 (pm_md_leader m) w))"

definition decodePartitionMetadata :: "reader \<Rightarrow> (partition_metadata \<times> reader) result" where
  "decodePartitionMetadata = (\<lambda>r.
    bind_r (readCode r) (\<lambda>(error, r).
    bind_r (readInt32 r) (\<lambda>(partition, r).
    bind_r (readInt32 r) (\<lambda>(leader, r).
      Inr (\<lparr>pm_md_error = error, pm_md_partition = partition, pm_md_leader = leader\<rparr>, r)))))"

definition partition_metadata_repr :: "partition_metadata \<Rightarrow> byte list" where
  "partition_metadata_repr m =
    code_repr (pm_md_error m) @
    be_bytes 4 (word_of_int (pm_md_partition m) :: 32 word) @
    be_bytes 4 (word_of_int (pm_md_leader m) :: 32 word)"

definition partition_metadata_ok :: "partition_metadata \<Rightarrow> bool" where
  "partition_metadata_ok m \<longleftrightarrow>
    code_ok (pm_md_error m) \<and>
    in_i32 (pm_md_partition m) \<and>
    in_i32 (pm_md_leader m)"

interpretation partitionMetadata: element decodePartitionMetadata partition_metadata_repr partition_metadata_ok encodePartitionMetadata
  by (rule elementI; unfold decodePartitionMetadata_def encodePartitionMetadata_def partition_metadata_repr_def partition_metadata_ok_def;
      (rule reads_intros read_rules partition_metadata.equality | simp add: enc_simps codec_simps nonempty_simps)+)

lemmas partition_metadata_rules [read_rules] = partitionMetadata.reads partitionMetadata.array.reads
lemmas partition_metadata_encs [enc_simps] = partitionMetadata.enc_repr partitionMetadata.array.enc_repr

record topic_metadata =
  tm_error :: error_code
  tm_name :: string
  tm_partitions :: "partition_metadata list"

definition encodeTopicMetadata :: "topic_metadata \<Rightarrow> writer \<Rightarrow> writer result" where
  "encodeTopicMetadata m w =
    bind_r (writeCode (tm_error m) w) (\<lambda>w.
    bind_r (writeString (tm_name m) w) (\<lambda>w.
    writeArray encodePartitionMetadata (tm_partitions m) w))"

definition decodeTopicMetadata :: "reader \<Rightarrow> (topic_metadata \<times> reader) result" where
  "decodeTopicMetadata = (\<lambda>r.
    bind_r (readCode r) (\<lambda>(error, r).
    bind_r (readString r) (\<lambda>(name, r).
    bind_r (readArray decodePartitionMetadata r) (\<lambda>(partitions, r).
      Inr (\<lparr>tm_error = error, tm_name = name, tm_partitions = partitions\<rparr>, r)))))"

definition topic_metadata_repr :: "topic_metadata \<Rightarrow> byte list" where
  "topic_metadata_repr m =
    code_repr (tm_error m) @
    string_repr (tm_name m) @
    array_repr partition_metadata_repr (tm_partitions m)"

definition topic_metadata_ok :: "topic_metadata \<Rightarrow> bool" where
  "topic_metadata_ok m \<longleftrightarrow>
    code_ok (tm_error m) \<and>
    string_ok (tm_name m) \<and>
    array_ok partition_metadata_ok (tm_partitions m)"

interpretation topicMetadata: element decodeTopicMetadata topic_metadata_repr topic_metadata_ok encodeTopicMetadata
  by (rule elementI; unfold decodeTopicMetadata_def encodeTopicMetadata_def topic_metadata_repr_def topic_metadata_ok_def;
      (rule reads_intros read_rules topic_metadata.equality | simp add: enc_simps codec_simps nonempty_simps)+)

lemmas topic_metadata_rules [read_rules] = topicMetadata.reads topicMetadata.array.reads
lemmas topic_metadata_encs [enc_simps] = topicMetadata.enc_repr topicMetadata.array.enc_repr

record metadata_response =
  mp_brokers :: "broker_info list"
  mp_controllerId :: int
  mp_topics :: "topic_metadata list"

definition encodeMetadataResponse :: "metadata_response \<Rightarrow> writer \<Rightarrow> writer result" where
  "encodeMetadataResponse m w =
    bind_r (writeArray encodeBrokerInfo (mp_brokers m) w) (\<lambda>w.
    bind_r (writeInt32 (mp_controllerId m) w) (\<lambda>w.
    writeArray encodeTopicMetadata (mp_topics m) w))"

definition decodeMetadataResponse :: "reader \<Rightarrow> (metadata_response \<times> reader) result" where
  "decodeMetadataResponse = (\<lambda>r.
    bind_r (readArray decodeBrokerInfo r) (\<lambda>(brokers, r).
    bind_r (readInt32 r) (\<lambda>(controllerId, r).
    bind_r (readArray decodeTopicMetadata r) (\<lambda>(topics, r).
      Inr (\<lparr>mp_brokers = brokers, mp_controllerId = controllerId, mp_topics = topics\<rparr>, r)))))"

definition metadata_response_repr :: "metadata_response \<Rightarrow> byte list" where
  "metadata_response_repr m =
    array_repr broker_info_repr (mp_brokers m) @
    be_bytes 4 (word_of_int (mp_controllerId m) :: 32 word) @
    array_repr topic_metadata_repr (mp_topics m)"

definition metadata_response_ok :: "metadata_response \<Rightarrow> bool" where
  "metadata_response_ok m \<longleftrightarrow>
    array_ok broker_info_ok (mp_brokers m) \<and>
    in_i32 (mp_controllerId m) \<and>
    array_ok topic_metadata_ok (mp_topics m)"

interpretation metadataResponse: element decodeMetadataResponse metadata_response_repr metadata_response_ok encodeMetadataResponse
  by (rule elementI; unfold decodeMetadataResponse_def encodeMetadataResponse_def metadata_response_repr_def metadata_response_ok_def;
      (rule reads_intros read_rules metadata_response.equality | simp add: enc_simps codec_simps nonempty_simps)+)

lemmas metadata_response_rules [read_rules] = metadataResponse.reads metadataResponse.array.reads
lemmas metadata_response_encs [enc_simps] = metadataResponse.enc_repr metadataResponse.array.enc_repr

subsection \<open>Creating topics\<close>

definition kUseDefault :: int where "kUseDefault = - 1"

definition writeOverride :: "int option \<Rightarrow> writer \<Rightarrow> writer result" where
  "writeOverride value w = writeInt64 (case value of Some v \<Rightarrow> v | None \<Rightarrow> kUseDefault) w"

definition readOverride :: "reader \<Rightarrow> (int option \<times> reader) result" where
  "readOverride r = bind_r (readInt64 r) (\<lambda>(value, r). Inr (if value \<le> 0 then None else Some value, r))"

definition writeFlag :: "bool option \<Rightarrow> writer \<Rightarrow> writer result" where
  "writeFlag flag w = writeInt8 (case flag of Some b \<Rightarrow> if b then 1 else 0 | None \<Rightarrow> - 1) w"

definition readFlag :: "reader \<Rightarrow> (bool option \<times> reader) result" where
  "readFlag = (\<lambda>r. bind_r (readInt8 r) (\<lambda>(value, r).
     if value < 0 then Inr (None, r)
     else bind_r (require (\<not> value > 1) CorruptData) (\<lambda>_. Inr (Some (value = 1), r))))"

definition override_repr :: "int option \<Rightarrow> byte list" where
  "override_repr v = be_bytes 8 (word_of_int (case v of Some x \<Rightarrow> x | None \<Rightarrow> kUseDefault) :: 64 word)"

text \<open>Only a positive override is one.\<close>

definition override_ok :: "int option \<Rightarrow> bool" where
  "override_ok v \<longleftrightarrow> (\<forall>x \<in> set_option v. 0 < x \<and> in_i64 x)"

definition flag_repr :: "bool option \<Rightarrow> byte list" where
  "flag_repr v = [word_of_int (case v of Some b \<Rightarrow> if b then 1 else 0 | None \<Rightarrow> - 1)]"

definition flag_ok :: "bool option \<Rightarrow> bool" where
  "flag_ok v \<longleftrightarrow> True"

interpretation woverride: element readOverride override_repr override_ok writeOverride
proof (rule elementI)
  fix v assume v: "override_ok v"
  then have "in_i64 (case v of Some x \<Rightarrow> x | None \<Rightarrow> kUseDefault)"
    by (auto simp: override_ok_def kUseDefault_def in_i64_def split: option.split)
  with v show "reads readOverride (override_repr v) v"
    unfolding readOverride_def [abs_def] override_repr_def
    by (intro reads_last [OF int64.reads]) (auto simp: override_ok_def kUseDefault_def split: option.split)
qed (simp_all add: writeOverride_def override_repr_def codec_simps be_bytes_8)

interpretation wflag: element readFlag flag_repr flag_ok writeFlag
proof (rule elementI)
  fix v :: "bool option"
  let ?v = "(case v of Some b \<Rightarrow> if b then 1 else 0 | None \<Rightarrow> - 1) :: int"
  have "in_i8 ?v" by (simp add: in_i8_def split: option.split)
  then have "readInt8 r = Inr (?v, advance 1 r)" if "rest r = flag_repr v @ ys" for r ys
    using int8.dec_repr [of ?v r ys] that by (simp add: flag_repr_def)
  then show "reads readFlag (flag_repr v) v"
    by (cases v) (auto simp: reads_def readFlag_def flag_repr_def)
qed (simp_all add: writeFlag_def flag_repr_def codec_simps)

lemmas create_rules [read_rules] = woverride.reads wflag.reads
lemmas create_encs [enc_simps] = woverride.enc_repr wflag.enc_repr

record new_topic =
  nt_name :: string
  nt_partitionCount :: int
  nt_retentionMs :: "int option"
  nt_retentionBytes :: "int option"
  nt_maxSegmentBytes :: "int option"
  nt_compact :: "bool option"

definition encodeNewTopic :: "new_topic \<Rightarrow> writer \<Rightarrow> writer result" where
  "encodeNewTopic m w =
    bind_r (writeString (nt_name m) w) (\<lambda>w.
    bind_r (writeInt32 (nt_partitionCount m) w) (\<lambda>w.
    bind_r (writeOverride (nt_retentionMs m) w) (\<lambda>w.
    bind_r (writeOverride (nt_retentionBytes m) w) (\<lambda>w.
    bind_r (writeOverride (nt_maxSegmentBytes m) w) (\<lambda>w.
    writeFlag (nt_compact m) w)))))"

definition decodeNewTopic :: "reader \<Rightarrow> (new_topic \<times> reader) result" where
  "decodeNewTopic = (\<lambda>r.
    bind_r (readString r) (\<lambda>(name, r).
    bind_r (readInt32 r) (\<lambda>(partitionCount, r).
    bind_r (readOverride r) (\<lambda>(retentionMs, r).
    bind_r (readOverride r) (\<lambda>(retentionBytes, r).
    bind_r (readOverride r) (\<lambda>(maxSegmentBytes, r).
    bind_r (readFlag r) (\<lambda>(compact, r).
      Inr (\<lparr>nt_name = name, nt_partitionCount = partitionCount, nt_retentionMs = retentionMs,
        nt_retentionBytes = retentionBytes, nt_maxSegmentBytes = maxSegmentBytes,
        nt_compact = compact\<rparr>, r))))))))"

definition new_topic_repr :: "new_topic \<Rightarrow> byte list" where
  "new_topic_repr m =
    string_repr (nt_name m) @
    be_bytes 4 (word_of_int (nt_partitionCount m) :: 32 word) @
    override_repr (nt_retentionMs m) @
    override_repr (nt_retentionBytes m) @
    override_repr (nt_maxSegmentBytes m) @
    flag_repr (nt_compact m)"

definition new_topic_ok :: "new_topic \<Rightarrow> bool" where
  "new_topic_ok m \<longleftrightarrow>
    string_ok (nt_name m) \<and>
    in_i32 (nt_partitionCount m) \<and>
    override_ok (nt_retentionMs m) \<and>
    override_ok (nt_retentionBytes m) \<and>
    override_ok (nt_maxSegmentBytes m) \<and>
    flag_ok (nt_compact m)"

interpretation newTopic: element decodeNewTopic new_topic_repr new_topic_ok encodeNewTopic
  by (rule elementI; unfold decodeNewTopic_def encodeNewTopic_def new_topic_repr_def new_topic_ok_def;
      (rule reads_intros read_rules new_topic.equality | simp add: enc_simps codec_simps nonempty_simps)+)

lemmas new_topic_rules [read_rules] = newTopic.reads newTopic.array.reads
lemmas new_topic_encs [enc_simps] = newTopic.enc_repr newTopic.array.enc_repr

record create_topic_request =
  ctq_topics :: "new_topic list"
  ctq_timeoutMs :: int

definition encodeCreateTopicRequest :: "create_topic_request \<Rightarrow> writer \<Rightarrow> writer result" where
  "encodeCreateTopicRequest m w =
    bind_r (writeArray encodeNewTopic (ctq_topics m) w) (\<lambda>w.
    writeInt32 (ctq_timeoutMs m) w)"

definition decodeCreateTopicRequest :: "reader \<Rightarrow> (create_topic_request \<times> reader) result" where
  "decodeCreateTopicRequest = (\<lambda>r.
    bind_r (readArray decodeNewTopic r) (\<lambda>(topics, r).
    bind_r (readInt32 r) (\<lambda>(timeoutMs, r).
      Inr (\<lparr>ctq_topics = topics, ctq_timeoutMs = timeoutMs\<rparr>, r))))"

definition create_topic_request_repr :: "create_topic_request \<Rightarrow> byte list" where
  "create_topic_request_repr m =
    array_repr new_topic_repr (ctq_topics m) @
    be_bytes 4 (word_of_int (ctq_timeoutMs m) :: 32 word)"

definition create_topic_request_ok :: "create_topic_request \<Rightarrow> bool" where
  "create_topic_request_ok m \<longleftrightarrow>
    array_ok new_topic_ok (ctq_topics m) \<and>
    in_i32 (ctq_timeoutMs m)"

interpretation createTopicRequest: element decodeCreateTopicRequest create_topic_request_repr create_topic_request_ok encodeCreateTopicRequest
  by (rule elementI; unfold decodeCreateTopicRequest_def encodeCreateTopicRequest_def create_topic_request_repr_def create_topic_request_ok_def;
      (rule reads_intros read_rules create_topic_request.equality | simp add: enc_simps codec_simps nonempty_simps)+)

lemmas create_topic_request_rules [read_rules] = createTopicRequest.reads createTopicRequest.array.reads
lemmas create_topic_request_encs [enc_simps] = createTopicRequest.enc_repr createTopicRequest.array.enc_repr

record created_topic =
  ct_name :: string
  ct_error :: error_code

definition encodeCreatedTopic :: "created_topic \<Rightarrow> writer \<Rightarrow> writer result" where
  "encodeCreatedTopic m w =
    bind_r (writeString (ct_name m) w) (\<lambda>w.
    writeCode (ct_error m) w)"

definition decodeCreatedTopic :: "reader \<Rightarrow> (created_topic \<times> reader) result" where
  "decodeCreatedTopic = (\<lambda>r.
    bind_r (readString r) (\<lambda>(name, r).
    bind_r (readCode r) (\<lambda>(error, r).
      Inr (\<lparr>ct_name = name, ct_error = error\<rparr>, r))))"

definition created_topic_repr :: "created_topic \<Rightarrow> byte list" where
  "created_topic_repr m =
    string_repr (ct_name m) @
    code_repr (ct_error m)"

definition created_topic_ok :: "created_topic \<Rightarrow> bool" where
  "created_topic_ok m \<longleftrightarrow>
    string_ok (ct_name m) \<and>
    code_ok (ct_error m)"

interpretation createdTopic: element decodeCreatedTopic created_topic_repr created_topic_ok encodeCreatedTopic
  by (rule elementI; unfold decodeCreatedTopic_def encodeCreatedTopic_def created_topic_repr_def created_topic_ok_def;
      (rule reads_intros read_rules created_topic.equality | simp add: enc_simps codec_simps nonempty_simps)+)

lemmas created_topic_rules [read_rules] = createdTopic.reads createdTopic.array.reads
lemmas created_topic_encs [enc_simps] = createdTopic.enc_repr createdTopic.array.enc_repr

record create_topic_response =
  ctp_topics :: "created_topic list"

definition encodeCreateTopicResponse :: "create_topic_response \<Rightarrow> writer \<Rightarrow> writer result" where
  "encodeCreateTopicResponse m w =
    writeArray encodeCreatedTopic (ctp_topics m) w"

definition decodeCreateTopicResponse :: "reader \<Rightarrow> (create_topic_response \<times> reader) result" where
  "decodeCreateTopicResponse = (\<lambda>r.
    bind_r (readArray decodeCreatedTopic r) (\<lambda>(topics, r).
      Inr (\<lparr>ctp_topics = topics\<rparr>, r)))"

definition create_topic_response_repr :: "create_topic_response \<Rightarrow> byte list" where
  "create_topic_response_repr m =
    array_repr created_topic_repr (ctp_topics m)"

definition create_topic_response_ok :: "create_topic_response \<Rightarrow> bool" where
  "create_topic_response_ok m \<longleftrightarrow>
    array_ok created_topic_ok (ctp_topics m)"

interpretation createTopicResponse: element decodeCreateTopicResponse create_topic_response_repr create_topic_response_ok encodeCreateTopicResponse
  by (rule elementI; unfold decodeCreateTopicResponse_def encodeCreateTopicResponse_def create_topic_response_repr_def create_topic_response_ok_def;
      (rule reads_intros read_rules create_topic_response.equality | simp add: enc_simps codec_simps nonempty_simps)+)

lemmas create_topic_response_rules [read_rules] = createTopicResponse.reads createTopicResponse.array.reads
lemmas create_topic_response_encs [enc_simps] = createTopicResponse.enc_repr createTopicResponse.array.enc_repr

subsection \<open>Fetching\<close>

record fetch_asked =
  fa_partition :: int
  fa_fetchOffset :: int
  fa_maxBytes :: int

definition encodeFetchAsked :: "fetch_asked \<Rightarrow> writer \<Rightarrow> writer result" where
  "encodeFetchAsked m w =
    bind_r (writeInt32 (fa_partition m) w) (\<lambda>w.
    bind_r (writeInt64 (fa_fetchOffset m) w) (\<lambda>w.
    writeInt32 (fa_maxBytes m) w))"

definition decodeFetchAsked :: "reader \<Rightarrow> (fetch_asked \<times> reader) result" where
  "decodeFetchAsked = (\<lambda>r.
    bind_r (readInt32 r) (\<lambda>(partition, r).
    bind_r (readInt64 r) (\<lambda>(fetchOffset, r).
    bind_r (readInt32 r) (\<lambda>(maxBytes, r).
    bind_r (require (\<not> maxBytes < 0) CorruptData) (\<lambda>_.
      Inr (\<lparr>fa_partition = partition, fa_fetchOffset = fetchOffset, fa_maxBytes = maxBytes\<rparr>, r))))))"

definition fetch_asked_repr :: "fetch_asked \<Rightarrow> byte list" where
  "fetch_asked_repr m =
    be_bytes 4 (word_of_int (fa_partition m) :: 32 word) @
    be_bytes 8 (word_of_int (fa_fetchOffset m) :: 64 word) @
    be_bytes 4 (word_of_int (fa_maxBytes m) :: 32 word)"

definition fetch_asked_ok :: "fetch_asked \<Rightarrow> bool" where
  "fetch_asked_ok m \<longleftrightarrow>
    in_i32 (fa_partition m) \<and>
    in_i64 (fa_fetchOffset m) \<and>
    in_i32 (fa_maxBytes m) \<and>
    0 \<le> fa_maxBytes m"

interpretation fetchAsked: element decodeFetchAsked fetch_asked_repr fetch_asked_ok encodeFetchAsked
  by (rule elementI; unfold decodeFetchAsked_def encodeFetchAsked_def fetch_asked_repr_def fetch_asked_ok_def;
      (rule reads_intros read_rules fetch_asked.equality | simp add: enc_simps codec_simps nonempty_simps)+)

lemmas fetch_asked_rules [read_rules] = fetchAsked.reads fetchAsked.array.reads
lemmas fetch_asked_encs [enc_simps] = fetchAsked.enc_repr fetchAsked.array.enc_repr

record fetch_topic =
  fqt_name :: string
  fqt_partitions :: "fetch_asked list"

definition encodeFetchTopic :: "fetch_topic \<Rightarrow> writer \<Rightarrow> writer result" where
  "encodeFetchTopic m w =
    bind_r (writeString (fqt_name m) w) (\<lambda>w.
    writeArray encodeFetchAsked (fqt_partitions m) w)"

definition decodeFetchTopic :: "reader \<Rightarrow> (fetch_topic \<times> reader) result" where
  "decodeFetchTopic = (\<lambda>r.
    bind_r (readString r) (\<lambda>(name, r).
    bind_r (readArray decodeFetchAsked r) (\<lambda>(partitions, r).
      Inr (\<lparr>fqt_name = name, fqt_partitions = partitions\<rparr>, r))))"

definition fetch_topic_repr :: "fetch_topic \<Rightarrow> byte list" where
  "fetch_topic_repr m =
    string_repr (fqt_name m) @
    array_repr fetch_asked_repr (fqt_partitions m)"

definition fetch_topic_ok :: "fetch_topic \<Rightarrow> bool" where
  "fetch_topic_ok m \<longleftrightarrow>
    string_ok (fqt_name m) \<and>
    array_ok fetch_asked_ok (fqt_partitions m)"

interpretation fetchTopic: element decodeFetchTopic fetch_topic_repr fetch_topic_ok encodeFetchTopic
  by (rule elementI; unfold decodeFetchTopic_def encodeFetchTopic_def fetch_topic_repr_def fetch_topic_ok_def;
      (rule reads_intros read_rules fetch_topic.equality | simp add: enc_simps codec_simps nonempty_simps)+)

lemmas fetch_topic_rules [read_rules] = fetchTopic.reads fetchTopic.array.reads
lemmas fetch_topic_encs [enc_simps] = fetchTopic.enc_repr fetchTopic.array.enc_repr

record fetch_request =
  fq_maxWaitMs :: int
  fq_minBytes :: int
  fq_topics :: "fetch_topic list"

definition encodeFetchRequest :: "fetch_request \<Rightarrow> writer \<Rightarrow> writer result" where
  "encodeFetchRequest m w =
    bind_r (writeInt32 (fq_maxWaitMs m) w) (\<lambda>w.
    bind_r (writeInt32 (fq_minBytes m) w) (\<lambda>w.
    writeArray encodeFetchTopic (fq_topics m) w))"

definition decodeFetchRequest :: "reader \<Rightarrow> (fetch_request \<times> reader) result" where
  "decodeFetchRequest = (\<lambda>r.
    bind_r (readInt32 r) (\<lambda>(maxWaitMs, r).
    bind_r (readInt32 r) (\<lambda>(minBytes, r).
    bind_r (readArray decodeFetchTopic r) (\<lambda>(topics, r).
      Inr (\<lparr>fq_maxWaitMs = maxWaitMs, fq_minBytes = minBytes, fq_topics = topics\<rparr>, r)))))"

definition fetch_request_repr :: "fetch_request \<Rightarrow> byte list" where
  "fetch_request_repr m =
    be_bytes 4 (word_of_int (fq_maxWaitMs m) :: 32 word) @
    be_bytes 4 (word_of_int (fq_minBytes m) :: 32 word) @
    array_repr fetch_topic_repr (fq_topics m)"

definition fetch_request_ok :: "fetch_request \<Rightarrow> bool" where
  "fetch_request_ok m \<longleftrightarrow>
    in_i32 (fq_maxWaitMs m) \<and>
    in_i32 (fq_minBytes m) \<and>
    array_ok fetch_topic_ok (fq_topics m)"

interpretation fetchRequest: element decodeFetchRequest fetch_request_repr fetch_request_ok encodeFetchRequest
  by (rule elementI; unfold decodeFetchRequest_def encodeFetchRequest_def fetch_request_repr_def fetch_request_ok_def;
      (rule reads_intros read_rules fetch_request.equality | simp add: enc_simps codec_simps nonempty_simps)+)

lemmas fetch_request_rules [read_rules] = fetchRequest.reads fetchRequest.array.reads
lemmas fetch_request_encs [enc_simps] = fetchRequest.enc_repr fetchRequest.array.enc_repr

text \<open>What a client sees of the answer, the record bytes in line.\<close>

record fetch_view_partition =
  fvp_partition :: int
  fvp_error :: error_code
  fvp_highWatermark :: int
  fvp_logStartOffset :: int
  fvp_records :: "byte list"

definition encodeFetchViewPartition :: "fetch_view_partition \<Rightarrow> writer \<Rightarrow> writer result" where
  "encodeFetchViewPartition m w =
    bind_r (writeInt32 (fvp_partition m) w) (\<lambda>w.
    bind_r (writeCode (fvp_error m) w) (\<lambda>w.
    bind_r (writeInt64 (fvp_highWatermark m) w) (\<lambda>w.
    bind_r (writeInt64 (fvp_logStartOffset m) w) (\<lambda>w.
    writeBlob (fvp_records m) w))))"

definition decodeFetchViewPartition :: "reader \<Rightarrow> (fetch_view_partition \<times> reader) result" where
  "decodeFetchViewPartition = (\<lambda>r.
    bind_r (readInt32 r) (\<lambda>(partition, r).
    bind_r (readCode r) (\<lambda>(error, r).
    bind_r (readInt64 r) (\<lambda>(highWatermark, r).
    bind_r (readInt64 r) (\<lambda>(logStartOffset, r).
    bind_r (readBlob r) (\<lambda>(records, r).
      Inr (\<lparr>fvp_partition = partition, fvp_error = error, fvp_highWatermark = highWatermark,
        fvp_logStartOffset = logStartOffset, fvp_records = records\<rparr>, r)))))))"

definition fetch_view_partition_repr :: "fetch_view_partition \<Rightarrow> byte list" where
  "fetch_view_partition_repr m =
    be_bytes 4 (word_of_int (fvp_partition m) :: 32 word) @
    code_repr (fvp_error m) @
    be_bytes 8 (word_of_int (fvp_highWatermark m) :: 64 word) @
    be_bytes 8 (word_of_int (fvp_logStartOffset m) :: 64 word) @
    blob_repr (fvp_records m)"

definition fetch_view_partition_ok :: "fetch_view_partition \<Rightarrow> bool" where
  "fetch_view_partition_ok m \<longleftrightarrow>
    in_i32 (fvp_partition m) \<and>
    code_ok (fvp_error m) \<and>
    in_i64 (fvp_highWatermark m) \<and>
    in_i64 (fvp_logStartOffset m) \<and>
    blob_ok (fvp_records m)"

interpretation fetchViewPartition: element decodeFetchViewPartition fetch_view_partition_repr fetch_view_partition_ok encodeFetchViewPartition
  by (rule elementI; unfold decodeFetchViewPartition_def encodeFetchViewPartition_def fetch_view_partition_repr_def fetch_view_partition_ok_def;
      (rule reads_intros read_rules fetch_view_partition.equality | simp add: enc_simps codec_simps nonempty_simps)+)

lemmas fetch_view_partition_rules [read_rules] = fetchViewPartition.reads fetchViewPartition.array.reads
lemmas fetch_view_partition_encs [enc_simps] = fetchViewPartition.enc_repr fetchViewPartition.array.enc_repr

record fetch_view_topic =
  fvt_name :: string
  fvt_partitions :: "fetch_view_partition list"

definition encodeFetchViewTopic :: "fetch_view_topic \<Rightarrow> writer \<Rightarrow> writer result" where
  "encodeFetchViewTopic m w =
    bind_r (writeString (fvt_name m) w) (\<lambda>w.
    writeArray encodeFetchViewPartition (fvt_partitions m) w)"

definition decodeFetchViewTopic :: "reader \<Rightarrow> (fetch_view_topic \<times> reader) result" where
  "decodeFetchViewTopic = (\<lambda>r.
    bind_r (readString r) (\<lambda>(name, r).
    bind_r (readArray decodeFetchViewPartition r) (\<lambda>(partitions, r).
      Inr (\<lparr>fvt_name = name, fvt_partitions = partitions\<rparr>, r))))"

definition fetch_view_topic_repr :: "fetch_view_topic \<Rightarrow> byte list" where
  "fetch_view_topic_repr m =
    string_repr (fvt_name m) @
    array_repr fetch_view_partition_repr (fvt_partitions m)"

definition fetch_view_topic_ok :: "fetch_view_topic \<Rightarrow> bool" where
  "fetch_view_topic_ok m \<longleftrightarrow>
    string_ok (fvt_name m) \<and>
    array_ok fetch_view_partition_ok (fvt_partitions m)"

interpretation fetchViewTopic: element decodeFetchViewTopic fetch_view_topic_repr fetch_view_topic_ok encodeFetchViewTopic
  by (rule elementI; unfold decodeFetchViewTopic_def encodeFetchViewTopic_def fetch_view_topic_repr_def fetch_view_topic_ok_def;
      (rule reads_intros read_rules fetch_view_topic.equality | simp add: enc_simps codec_simps nonempty_simps)+)

lemmas fetch_view_topic_rules [read_rules] = fetchViewTopic.reads fetchViewTopic.array.reads
lemmas fetch_view_topic_encs [enc_simps] = fetchViewTopic.enc_repr fetchViewTopic.array.enc_repr

record fetch_response_view =
  frv_topics :: "fetch_view_topic list"

definition encodeFetchResponseView :: "fetch_response_view \<Rightarrow> writer \<Rightarrow> writer result" where
  "encodeFetchResponseView m w =
    writeArray encodeFetchViewTopic (frv_topics m) w"

definition decodeFetchResponseView :: "reader \<Rightarrow> (fetch_response_view \<times> reader) result" where
  "decodeFetchResponseView = (\<lambda>r.
    bind_r (readArray decodeFetchViewTopic r) (\<lambda>(topics, r).
      Inr (\<lparr>frv_topics = topics\<rparr>, r)))"

definition fetch_response_view_repr :: "fetch_response_view \<Rightarrow> byte list" where
  "fetch_response_view_repr m =
    array_repr fetch_view_topic_repr (frv_topics m)"

definition fetch_response_view_ok :: "fetch_response_view \<Rightarrow> bool" where
  "fetch_response_view_ok m \<longleftrightarrow>
    array_ok fetch_view_topic_ok (frv_topics m)"

interpretation fetchResponseView: element decodeFetchResponseView fetch_response_view_repr fetch_response_view_ok encodeFetchResponseView
  by (rule elementI; unfold decodeFetchResponseView_def encodeFetchResponseView_def fetch_response_view_repr_def fetch_response_view_ok_def;
      (rule reads_intros read_rules fetch_response_view.equality | simp add: enc_simps codec_simps nonempty_simps)+)

lemmas fetch_response_view_rules [read_rules] = fetchResponseView.reads fetchResponseView.array.reads
lemmas fetch_response_view_encs [enc_simps] = fetchResponseView.enc_repr fetchResponseView.array.enc_repr

subsection \<open>Producing\<close>

record produced =
  pd_partition :: int
  pd_error :: error_code
  pd_baseOffset :: int

definition encodeProduced :: "produced \<Rightarrow> writer \<Rightarrow> writer result" where
  "encodeProduced m w =
    bind_r (writeInt32 (pd_partition m) w) (\<lambda>w.
    bind_r (writeCode (pd_error m) w) (\<lambda>w.
    writeInt64 (pd_baseOffset m) w))"

definition decodeProduced :: "reader \<Rightarrow> (produced \<times> reader) result" where
  "decodeProduced = (\<lambda>r.
    bind_r (readInt32 r) (\<lambda>(partition, r).
    bind_r (readCode r) (\<lambda>(error, r).
    bind_r (readInt64 r) (\<lambda>(baseOffset, r).
      Inr (\<lparr>pd_partition = partition, pd_error = error, pd_baseOffset = baseOffset\<rparr>, r)))))"

definition produced_repr :: "produced \<Rightarrow> byte list" where
  "produced_repr m =
    be_bytes 4 (word_of_int (pd_partition m) :: 32 word) @
    code_repr (pd_error m) @
    be_bytes 8 (word_of_int (pd_baseOffset m) :: 64 word)"

definition produced_ok :: "produced \<Rightarrow> bool" where
  "produced_ok m \<longleftrightarrow>
    in_i32 (pd_partition m) \<and>
    code_ok (pd_error m) \<and>
    in_i64 (pd_baseOffset m)"

interpretation produced: element decodeProduced produced_repr produced_ok encodeProduced
  by (rule elementI; unfold decodeProduced_def encodeProduced_def produced_repr_def produced_ok_def;
      (rule reads_intros read_rules produced.equality | simp add: enc_simps codec_simps nonempty_simps)+)

lemmas produced_rules [read_rules] = produced.reads produced.array.reads
lemmas produced_encs [enc_simps] = produced.enc_repr produced.array.enc_repr

record produced_topic =
  pdt_name :: string
  pdt_partitions :: "produced list"

definition encodeProducedTopic :: "produced_topic \<Rightarrow> writer \<Rightarrow> writer result" where
  "encodeProducedTopic m w =
    bind_r (writeString (pdt_name m) w) (\<lambda>w.
    writeArray encodeProduced (pdt_partitions m) w)"

definition decodeProducedTopic :: "reader \<Rightarrow> (produced_topic \<times> reader) result" where
  "decodeProducedTopic = (\<lambda>r.
    bind_r (readString r) (\<lambda>(name, r).
    bind_r (readArray decodeProduced r) (\<lambda>(partitions, r).
      Inr (\<lparr>pdt_name = name, pdt_partitions = partitions\<rparr>, r))))"

definition produced_topic_repr :: "produced_topic \<Rightarrow> byte list" where
  "produced_topic_repr m =
    string_repr (pdt_name m) @
    array_repr produced_repr (pdt_partitions m)"

definition produced_topic_ok :: "produced_topic \<Rightarrow> bool" where
  "produced_topic_ok m \<longleftrightarrow>
    string_ok (pdt_name m) \<and>
    array_ok produced_ok (pdt_partitions m)"

interpretation producedTopic: element decodeProducedTopic produced_topic_repr produced_topic_ok encodeProducedTopic
  by (rule elementI; unfold decodeProducedTopic_def encodeProducedTopic_def produced_topic_repr_def produced_topic_ok_def;
      (rule reads_intros read_rules produced_topic.equality | simp add: enc_simps codec_simps nonempty_simps)+)

lemmas produced_topic_rules [read_rules] = producedTopic.reads producedTopic.array.reads
lemmas produced_topic_encs [enc_simps] = producedTopic.enc_repr producedTopic.array.enc_repr

record produce_response =
  pp_topics :: "produced_topic list"

definition encodeProduceResponse :: "produce_response \<Rightarrow> writer \<Rightarrow> writer result" where
  "encodeProduceResponse m w =
    writeArray encodeProducedTopic (pp_topics m) w"

definition decodeProduceResponse :: "reader \<Rightarrow> (produce_response \<times> reader) result" where
  "decodeProduceResponse = (\<lambda>r.
    bind_r (readArray decodeProducedTopic r) (\<lambda>(topics, r).
      Inr (\<lparr>pp_topics = topics\<rparr>, r)))"

definition produce_response_repr :: "produce_response \<Rightarrow> byte list" where
  "produce_response_repr m =
    array_repr produced_topic_repr (pp_topics m)"

definition produce_response_ok :: "produce_response \<Rightarrow> bool" where
  "produce_response_ok m \<longleftrightarrow>
    array_ok produced_topic_ok (pp_topics m)"

interpretation produceResponse: element decodeProduceResponse produce_response_repr produce_response_ok encodeProduceResponse
  by (rule elementI; unfold decodeProduceResponse_def encodeProduceResponse_def produce_response_repr_def produce_response_ok_def;
      (rule reads_intros read_rules produce_response.equality | simp add: enc_simps codec_simps nonempty_simps)+)

lemmas produce_response_rules [read_rules] = produceResponse.reads produceResponse.array.reads
lemmas produce_response_encs [enc_simps] = produceResponse.enc_repr produceResponse.array.enc_repr

text \<open>
  A batch is borrowed from the frame: the request remembers where it lies, counted from the start
  of the frame the reader was opened on.
\<close>

record produce_partition =
  pqp_partition :: int
  pqp_batch :: "byte list"
  pqp_batchOffsetInBody :: nat

record produce_topic =
  pqt_name :: string
  pqt_partitions :: "produce_partition list"

record produce_request =
  pq_acks :: int
  pq_timeoutMs :: int
  pq_topics :: "produce_topic list"

definition encodeProducePartition :: "produce_partition \<Rightarrow> writer \<Rightarrow> writer result" where
  "encodeProducePartition m w =
    bind_r (writeInt32 (pqp_partition m) w) (\<lambda>w.
    bind_r (writeInt32 (to_i32 (int (length (pqp_batch m)))) w) (\<lambda>w.
    writeBytes (pqp_batch m) w))"

definition encodeProduceTopic :: "produce_topic \<Rightarrow> writer \<Rightarrow> writer result" where
  "encodeProduceTopic m w =
    bind_r (writeString (pqt_name m) w) (\<lambda>w.
    writeArray encodeProducePartition (pqt_partitions m) w)"

definition encodeProduceRequest :: "produce_request \<Rightarrow> writer \<Rightarrow> writer result" where
  "encodeProduceRequest m w =
    bind_r (writeInt16 (pq_acks m) w) (\<lambda>w.
    bind_r (writeInt32 (pq_timeoutMs m) w) (\<lambda>w.
    writeArray encodeProduceTopic (pq_topics m) w))"

definition decodeProducePartition :: "reader \<Rightarrow> (produce_partition \<times> reader) result" where
  "decodeProducePartition r =
    bind_r (readInt32 r) (\<lambda>(partition, r).
    bind_r (readInt32 r) (\<lambda>(batchLength, r).
    bind_r (require (\<not> batchLength < 0) CorruptData) (\<lambda>_.
    let batchOffsetInBody = rd_pos r in
    bind_r (readBytes (nat batchLength) r) (\<lambda>(batch, r).
      Inr (\<lparr>pqp_partition = partition, pqp_batch = batch, pqp_batchOffsetInBody = batchOffsetInBody\<rparr>, r)))))"

definition decodeProduceTopic :: "reader \<Rightarrow> (produce_topic \<times> reader) result" where
  "decodeProduceTopic r =
    bind_r (readString r) (\<lambda>(name, r).
    bind_r (readArray decodeProducePartition r) (\<lambda>(partitions, r).
      Inr (\<lparr>pqt_name = name, pqt_partitions = partitions\<rparr>, r)))"

definition decodeProduceRequest :: "reader \<Rightarrow> (produce_request \<times> reader) result" where
  "decodeProduceRequest r =
    bind_r (readInt16 r) (\<lambda>(acks, r).
    bind_r (readInt32 r) (\<lambda>(timeoutMs, r).
    bind_r (readArray decodeProduceTopic r) (\<lambda>(topics, r).
      Inr (\<lparr>pq_acks = acks, pq_timeoutMs = timeoutMs, pq_topics = topics\<rparr>, r))))"

definition mutableBatch :: "produce_partition \<Rightarrow> byte list \<Rightarrow> byte list result" where
  "mutableBatch p body =
    (let off = pqp_batchOffsetInBody p; upto = off + length (pqp_batch p) in
     bind_r (require (\<not> (upto < off \<or> upto > length body)) OffsetInvariantViolated) (\<lambda>_.
       Inr (take (length (pqp_batch p)) (drop off body))))"

subsection \<open>Where the batches of a request lie\<close>

text \<open>A reader that only moves forward over the same bytes.\<close>

definition moves :: "(reader \<Rightarrow> ('a \<times> reader) result) \<Rightarrow> bool" where
  "moves dec \<longleftrightarrow> (\<forall>r x r'. dec r = Inr (x, r') \<longrightarrow> rd_bytes r' = rd_bytes r \<and> rd_pos r \<le> rd_pos r')"

lemma movesD: "moves dec \<Longrightarrow> dec r = Inr (x, r') \<Longrightarrow> rd_bytes r' = rd_bytes r \<and> rd_pos r \<le> rd_pos r'"
  by (simp add: moves_def)

lemma basic_moves: "moves readInt16" "moves readInt32" "moves readString" "moves readElementCount"
proof -
  show 16: "moves readInt16" and 32: "moves readInt32"
    by (auto simp: moves_def readInt16_rest readInt32_rest split: if_splits)
  have bytes: "moves (readBytes n)" for n by (auto simp: moves_def readBytes_rest split: if_splits)
  show "moves readString"
    using movesD [OF 16] movesD [OF bytes]
    by (fastforce simp: moves_def readString_def bind_r_Inr_iff split: if_splits)
  show "moves readElementCount"
    using movesD [OF 32]
    by (fastforce simp: moves_def readElementCount_def readArrayLength_def bind_r_Inr_iff split: if_splits)
qed

text \<open>The batches lie between two positions, in order and apart, each where its offset says.\<close>

fun placed :: "byte list \<Rightarrow> nat \<Rightarrow> produce_partition list \<Rightarrow> nat \<Rightarrow> bool" where
  "placed body lo [] hi \<longleftrightarrow> lo \<le> hi"
| "placed body lo (p # ps) hi \<longleftrightarrow> lo \<le> pqp_batchOffsetInBody p \<and> mutableBatch p body = Inr (pqp_batch p) \<and>
     placed body (pqp_batchOffsetInBody p + length (pqp_batch p)) ps hi"

lemma placed_mono: "placed body lo ps hi \<Longrightarrow> lo' \<le> lo \<Longrightarrow> hi \<le> hi' \<Longrightarrow> placed body lo' ps hi'"
  by (induction body lo ps hi arbitrary: lo' rule: placed.induct) auto

lemma placed_append: "placed body lo ps mid \<Longrightarrow> placed body mid qs hi \<Longrightarrow> placed body lo (ps @ qs) hi"
  by (induction body lo ps mid rule: placed.induct) (auto intro: placed_mono)

lemma placed_le: "placed body lo ps hi \<Longrightarrow> lo \<le> hi"
  by (induction body lo ps hi rule: placed.induct) auto

text \<open>A decoder whose batches lie between the positions it starts and stops at.\<close>

definition lays :: "(reader \<Rightarrow> ('a \<times> reader) result) \<Rightarrow> ('a \<Rightarrow> produce_partition list) \<Rightarrow> bool" where
  "lays dec parts \<longleftrightarrow> (\<forall>r x r'. dec r = Inr (x, r') \<longrightarrow>
     rd_bytes r' = rd_bytes r \<and> placed (rd_bytes r) (rd_pos r) (parts x) (rd_pos r'))"

lemma laysD:
  "lays dec parts \<Longrightarrow> dec r = Inr (x, r') \<Longrightarrow>
    rd_bytes r' = rd_bytes r \<and> placed (rd_bytes r) (rd_pos r) (parts x) (rd_pos r')"
  by (simp add: lays_def)

lemma decodeProducePartition_lays: "lays decodeProducePartition (\<lambda>p. [p])"
  unfolding lays_def
proof (intro allI impI)
  fix r p r' assume "decodeProducePartition r = Inr (p, r')"
  then obtain partition r1 n r2 where r2: "readInt32 r = Inr (partition, r1)" "readInt32 r1 = Inr (n, r2)" "\<not> n < 0"
      "readBytes (nat n) r2 = Inr (pqp_batch p, r')" "pqp_batchOffsetInBody p = rd_pos r2"
    by (auto simp: decodeProducePartition_def bind_r_Inr_iff Let_def)
  have pos: "rd_bytes r2 = rd_bytes r" "rd_pos r \<le> rd_pos r2"
    using movesD [OF basic_moves(2) r2(1)] movesD [OF basic_moves(2) r2(2)] by auto
  have "rd_pos r2 \<le> length (rd_bytes r2)"
    using r2(2) by (auto simp: readInt32_rest rest_def split: if_splits)
  then have batch: "rd_pos r2 + nat n \<le> length (rd_bytes r2)" "r' = advance (nat n) r2"
      "pqp_batch p = take (nat n) (drop (rd_pos r2) (rd_bytes r2))"
    using r2(4) by (auto simp: readBytes_rest rest_def split: if_splits)
  then have "length (pqp_batch p) = nat n" by simp
  with batch show "rd_bytes r' = rd_bytes r \<and> placed (rd_bytes r) (rd_pos r) [p] (rd_pos r')"
    using pos by (simp add: mutableBatch_def Let_def r2(5))
qed

lemma read_n_lays: "lays dec parts \<Longrightarrow> lays (read_n dec n) (\<lambda>xs. concat (map parts xs))"
proof (induction n)
  case (Suc n)
  show ?case
    unfolding lays_def
  proof (intro allI impI)
    fix r xs r' assume "read_n dec (Suc n) r = Inr (xs, r')"
    then obtain x r1 ys where r1: "dec r = Inr (x, r1)" "read_n dec n r1 = Inr (ys, r')" "xs = x # ys"
      by (auto simp: bind_r_Inr_iff)
    from laysD [OF Suc.prems r1(1)] laysD [OF Suc.IH [OF Suc.prems] r1(2)] r1(3)
    show "rd_bytes r' = rd_bytes r \<and> placed (rd_bytes r) (rd_pos r) (concat (map parts xs)) (rd_pos r')"
      by (auto intro: placed_append)
  qed
qed (simp add: lays_def)

lemma lays_behind:
  assumes "moves dec" "\<And>x. lays (f x) parts"
  shows "lays (\<lambda>r. bind_r (dec r) (\<lambda>(x, r). f x r)) parts"
  unfolding lays_def
proof (intro allI impI)
  fix r y r' assume "bind_r (dec r) (\<lambda>(x, r). f x r) = Inr (y, r')"
  then obtain x r1 where r1: "dec r = Inr (x, r1)" "f x r1 = Inr (y, r')" by (auto simp: bind_r_Inr_iff)
  from movesD [OF assms(1) r1(1)] laysD [OF assms(2) r1(2)]
  show "rd_bytes r' = rd_bytes r \<and> placed (rd_bytes r) (rd_pos r) (parts y) (rd_pos r')"
    by (auto intro: placed_mono)
qed

lemma lays_last:
  assumes "lays dec parts" "\<And>x. others (f x) = parts x"
  shows "lays (\<lambda>r. bind_r (dec r) (\<lambda>(x, r). Inr (f x, r))) others"
  using assms by (auto simp: lays_def bind_r_Inr_iff)

lemma readArray_lays: "lays dec parts \<Longrightarrow> lays (readArray dec) (\<lambda>xs. concat (map parts xs))"
  unfolding readArray_def [abs_def] by (intro lays_behind basic_moves read_n_lays)

lemma concat_singles [simp]: "concat (map (\<lambda>x. [x]) xs) = xs"
  by (induction xs) simp_all

lemma decodeProduceTopic_lays: "lays decodeProduceTopic pqt_partitions"
  unfolding decodeProduceTopic_def [abs_def]
  by (intro lays_behind basic_moves lays_last [OF readArray_lays [OF decodeProducePartition_lays]]) simp

definition request_batches :: "produce_request \<Rightarrow> produce_partition list" where
  "request_batches m = concat (map pqt_partitions (pq_topics m))"

lemma decodeProduceRequest_lays: "lays decodeProduceRequest request_batches"
  unfolding decodeProduceRequest_def [abs_def]
  by (intro lays_behind basic_moves lays_last [OF readArray_lays [OF decodeProduceTopic_lays]])
    (simp add: request_batches_def)

lemma placed_sorted:
  "placed body lo ps hi \<Longrightarrow>
    sorted_wrt (\<lambda>p q. pqp_batchOffsetInBody p + length (pqp_batch p) \<le> pqp_batchOffsetInBody q) ps \<and>
    (\<forall>p \<in> set ps. lo \<le> pqp_batchOffsetInBody p)"
  by (induction body lo ps hi rule: placed.induct) auto

lemma placed_each: "placed body lo ps hi \<Longrightarrow> p \<in> set ps \<Longrightarrow> mutableBatch p body = Inr (pqp_batch p)"
  by (induction body lo ps hi rule: placed.induct) auto

subsection \<open>A produce request survives\<close>

text \<open>The positions aside, which belong to the frame and not to the request.\<close>

definition same_partition :: "produce_partition \<Rightarrow> produce_partition \<Rightarrow> bool" where
  "same_partition p q \<longleftrightarrow> pqp_partition p = pqp_partition q \<and> pqp_batch p = pqp_batch q"

definition same_topic :: "produce_topic \<Rightarrow> produce_topic \<Rightarrow> bool" where
  "same_topic t u \<longleftrightarrow> pqt_name t = pqt_name u \<and> list_all2 same_partition (pqt_partitions t) (pqt_partitions u)"

definition same_request :: "produce_request \<Rightarrow> produce_request \<Rightarrow> bool" where
  "same_request m n \<longleftrightarrow> pq_acks m = pq_acks n \<and> pq_timeoutMs m = pq_timeoutMs n \<and>
     list_all2 same_topic (pq_topics m) (pq_topics n)"

text \<open>A decoder that reads a layout and returns something \<open>P\<close> holds of.\<close>

definition reads_some :: "(reader \<Rightarrow> ('a \<times> reader) result) \<Rightarrow> byte list \<Rightarrow> ('a \<Rightarrow> bool) \<Rightarrow> bool" where
  "reads_some dec bs P \<longleftrightarrow> (\<forall>r ys. rest r = bs @ ys \<longrightarrow> (\<exists>x. dec r = Inr (x, advance (length bs) r) \<and> P x))"

lemma reads_some_bind:
  assumes "reads dec bs x" "reads_some (f x) cs P"
  shows "reads_some (\<lambda>r. bind_r (dec r) (\<lambda>(x, r). f x r)) (bs @ cs) P"
  unfolding reads_some_def
proof (intro allI impI)
  fix r ys assume r: "rest r = (bs @ cs) @ ys"
  then have dec: "dec r = Inr (x, advance (length bs) r)" using assms(1) by (simp add: reads_def)
  have "rest (advance (length bs) r) = cs @ ys" using r by simp
  then obtain y where "f x (advance (length bs) r) = Inr (y, advance (length cs) (advance (length bs) r))" "P y"
    using assms(2) unfolding reads_some_def by blast
  with dec show "\<exists>y. bind_r (dec r) (\<lambda>(x, r). f x r) = Inr (y, advance (length (bs @ cs)) r) \<and> P y"
    by (simp add: add.commute)
qed

lemma reads_some_last:
  "reads_some dec bs Q \<Longrightarrow> (\<And>x. Q x \<Longrightarrow> P (f x)) \<Longrightarrow>
    reads_some (\<lambda>r. bind_r (dec r) (\<lambda>(x, r). Inr (f x, r))) bs P"
  by (fastforce simp: reads_some_def)

lemma read_n_some:
  assumes "\<And>x. x \<in> set xs \<Longrightarrow> reads_some dec (repr x) (R x)"
  shows "reads_some (read_n dec (length xs)) (concat (map repr xs)) (list_all2 R xs)"
  using assms
proof (induction xs)
  case (Cons x xs)
  show ?case
    unfolding reads_some_def
  proof (intro allI impI)
    fix r ys assume r: "rest r = concat (map repr (x # xs)) @ ys"
    then obtain y where y: "dec r = Inr (y, advance (length (repr x)) r)" "R x y"
      using Cons.prems [of x] by (auto simp: reads_some_def)
    have "rest (advance (length (repr x)) r) = concat (map repr xs) @ ys" using r by simp
    moreover have "reads_some (read_n dec (length xs)) (concat (map repr xs)) (list_all2 R xs)"
      using Cons by simp
    ultimately obtain zs where zs: "list_all2 R xs zs"
        "read_n dec (length xs) (advance (length (repr x)) r) =
          Inr (zs, advance (length (concat (map repr xs))) (advance (length (repr x)) r))"
      unfolding reads_some_def by blast
    with y show "\<exists>zs. read_n dec (length (x # xs)) r = Inr (zs, advance (length (concat (map repr (x # xs)))) r) \<and>
        list_all2 R (x # xs) zs"
      by simp
  qed
qed (simp add: reads_some_def)

lemma readArray_some:
  assumes "\<And>x. x \<in> set xs \<Longrightarrow> reads_some dec (repr x) (R x)" "\<And>x. x \<in> set xs \<Longrightarrow> repr x \<noteq> []" "length xs < 2 ^ 31"
  shows "reads_some (readArray dec) (array_repr repr xs) (list_all2 R xs)"
  unfolding reads_some_def
proof (intro allI impI)
  fix r ys assume r: "rest r = array_repr repr xs @ ys"
  have "length xs \<le> length (concat (map repr xs))"
    using assms(2)
  proof (induction xs)
    case (Cons x xs)
    then have "repr x \<noteq> []" "length xs \<le> length (concat (map repr xs))" by simp_all
    then show ?case by (cases "repr x") simp_all
  qed simp
  then have "readElementCount r = Inr (int (length xs), advance 4 r)"
    using r assms(3) by (intro readElementCount_reads [of r _ "concat (map repr xs) @ ys"]) (simp_all add: array_repr_def)
  moreover have "rest (advance 4 r) = concat (map repr xs) @ ys" using r by (simp add: array_repr_def be_bytes_4)
  moreover have "reads_some (read_n dec (length xs)) (concat (map repr xs)) (list_all2 R xs)"
    by (rule read_n_some) (rule assms(1))
  ultimately obtain zs where zs: "list_all2 R xs zs" "readElementCount r = Inr (int (length xs), advance 4 r)"
      "read_n dec (length xs) (advance 4 r) = Inr (zs, advance (length (concat (map repr xs))) (advance 4 r))"
    unfolding reads_some_def by blast
  then show "\<exists>zs. readArray dec r = Inr (zs, advance (length (array_repr repr xs)) r) \<and> list_all2 R xs zs"
    by (simp add: readArray_def array_repr_def be_bytes_4)
qed

definition produce_partition_repr :: "produce_partition \<Rightarrow> byte list" where
  "produce_partition_repr p = be_bytes 4 (word_of_int (pqp_partition p) :: 32 word) @ blob_repr (pqp_batch p)"

definition produce_topic_repr :: "produce_topic \<Rightarrow> byte list" where
  "produce_topic_repr t = string_repr (pqt_name t) @ array_repr produce_partition_repr (pqt_partitions t)"

definition produce_request_repr :: "produce_request \<Rightarrow> byte list" where
  "produce_request_repr m = be_bytes 2 (word_of_int (pq_acks m) :: 16 word) @
     be_bytes 4 (word_of_int (pq_timeoutMs m) :: 32 word) @ array_repr produce_topic_repr (pq_topics m)"

definition produce_partition_ok :: "produce_partition \<Rightarrow> bool" where
  "produce_partition_ok p \<longleftrightarrow> in_i32 (pqp_partition p) \<and> blob_ok (pqp_batch p)"

definition produce_topic_ok :: "produce_topic \<Rightarrow> bool" where
  "produce_topic_ok t \<longleftrightarrow> string_ok (pqt_name t) \<and> array_ok produce_partition_ok (pqt_partitions t)"

definition produce_request_ok :: "produce_request \<Rightarrow> bool" where
  "produce_request_ok m \<longleftrightarrow> in_i16 (pq_acks m) \<and> in_i32 (pq_timeoutMs m) \<and> array_ok produce_topic_ok (pq_topics m)"

lemma write_all_live:
  "(\<And>x w. x \<in> set xs \<Longrightarrow> live w \<Longrightarrow> enc x w = Inr (push_back (repr x) w)) \<Longrightarrow> live w \<Longrightarrow>
    write_all enc xs w = Inr (push_back (concat (map repr xs)) w)"
  by (induction xs arbitrary: w) simp_all

lemma writeArray_live:
  "(\<And>x w. x \<in> set xs \<Longrightarrow> live w \<Longrightarrow> enc x w = Inr (push_back (repr x) w)) \<Longrightarrow> length xs < 2 ^ 31 \<Longrightarrow> live w \<Longrightarrow>
    writeArray enc xs w = Inr (push_back (array_repr repr xs) w)"
  by (simp add: writeArray_def codec_simps array_repr_def in_i32_def write_all_live [of xs enc repr])

lemma encode_produce:
  "produce_partition_ok p \<Longrightarrow> live w \<Longrightarrow> encodeProducePartition p w = Inr (push_back (produce_partition_repr p) w)"
  "produce_topic_ok t \<Longrightarrow> live w \<Longrightarrow> encodeProduceTopic t w = Inr (push_back (produce_topic_repr t) w)"
  "produce_request_ok m \<Longrightarrow> live w \<Longrightarrow> encodeProduceRequest m w = Inr (push_back (produce_request_repr m) w)"
proof -
  show p: "encodeProducePartition p w = Inr (push_back (produce_partition_repr p) w)"
    if "produce_partition_ok p" "live w" for p w
    using that by (simp add: encodeProducePartition_def produce_partition_repr_def produce_partition_ok_def codec_simps
        blob_repr_def blob_ok_def in_i32_def)
  show t: "encodeProduceTopic t w = Inr (push_back (produce_topic_repr t) w)" if "produce_topic_ok t" "live w" for t w
    using that p by (simp add: encodeProduceTopic_def produce_topic_repr_def produce_topic_ok_def enc_simps
        array_ok_def list_all_iff writeArray_live [of _ _ produce_partition_repr])
  show "encodeProduceRequest m w = Inr (push_back (produce_request_repr m) w)" if "produce_request_ok m" "live w"
    using that t by (simp add: encodeProduceRequest_def produce_request_repr_def produce_request_ok_def codec_simps
        array_ok_def list_all_iff writeArray_live [of _ _ produce_topic_repr])
qed

lemma decode_produce_partition:
  assumes "produce_partition_ok p"
  shows "reads_some decodeProducePartition (produce_partition_repr p) (same_partition p)"
  unfolding reads_some_def
proof (intro allI impI)
  fix r ys assume r: "rest r = produce_partition_repr p @ ys"
  have ok: "in_i32 (pqp_partition p)" "in_i32 (int (length (pqp_batch p)))"
    using assms by (simp_all add: produce_partition_ok_def blob_ok_def in_i32_def)
  have 1: "readInt32 r = Inr (pqp_partition p, advance 4 r)"
    using int32.dec_repr [OF ok(1), of r] r by (simp add: produce_partition_repr_def be_bytes_4)
  have r1: "rest (advance 4 r) = be_bytes 4 (word_of_int (int (length (pqp_batch p))) :: 32 word) @ pqp_batch p @ ys"
    using r by (simp add: produce_partition_repr_def blob_repr_def be_bytes_4)
  have 2: "readInt32 (advance 4 r) = Inr (int (length (pqp_batch p)), advance 8 r)"
    using int32.dec_repr [OF ok(2) r1] by (simp add: be_bytes_4)
  have "rest (advance 8 r) = pqp_batch p @ ys"
    using r by (simp add: produce_partition_repr_def blob_repr_def be_bytes_4)
  with 1 2 show "\<exists>q. decodeProducePartition r = Inr (q, advance (length (produce_partition_repr p)) r) \<and> same_partition p q"
    by (simp add: decodeProducePartition_def readBytes_rest Let_def same_partition_def produce_partition_repr_def
        blob_repr_def be_bytes_4)
qed

lemma decode_produce:
  "produce_topic_ok t \<Longrightarrow> reads_some decodeProduceTopic (produce_topic_repr t) (same_topic t)"
  "produce_request_ok m \<Longrightarrow> reads_some decodeProduceRequest (produce_request_repr m) (same_request m)"
proof -
  show t: "reads_some decodeProduceTopic (produce_topic_repr t) (same_topic t)" if "produce_topic_ok t" for t
  proof -
    have ok: "string_ok (pqt_name t)" "array_ok produce_partition_ok (pqt_partitions t)"
      using that by (simp_all add: produce_topic_ok_def)
    have "reads_some (readArray decodeProducePartition) (array_repr produce_partition_repr (pqt_partitions t))
        (list_all2 same_partition (pqt_partitions t))"
      using ok(2) by (intro readArray_some decode_produce_partition)
        (auto simp: array_ok_def list_all_iff produce_partition_repr_def be_bytes_4)
    then show ?thesis
      unfolding decodeProduceTopic_def [abs_def] produce_topic_repr_def
      by (intro reads_some_bind [OF wstring.reads [OF ok(1)]] reads_some_last) (simp_all add: same_topic_def)
  qed
  show "reads_some decodeProduceRequest (produce_request_repr m) (same_request m)" if "produce_request_ok m"
  proof -
    have ok: "in_i16 (pq_acks m)" "in_i32 (pq_timeoutMs m)" "array_ok produce_topic_ok (pq_topics m)"
      using that by (simp_all add: produce_request_ok_def)
    have "reads_some (readArray decodeProduceTopic) (array_repr produce_topic_repr (pq_topics m))
        (list_all2 same_topic (pq_topics m))"
      using ok(3) by (intro readArray_some t)
        (auto simp: array_ok_def list_all_iff produce_topic_repr_def nonempty_simps)
    then show ?thesis
      unfolding decodeProduceRequest_def [abs_def] produce_request_repr_def
      by (intro reads_some_bind [OF int16.reads [OF ok(1)]] reads_some_bind [OF int32.reads [OF ok(2)]] reads_some_last)
        (simp_all add: same_request_def)
  qed
qed

subsection \<open>Properties\<close>

text \<open>Every request header and every message of the data APIs whose fields are in range can be
written and reads back as it was, whatever follows in the frame; a produce request reads back with
the batches the client put into it.\<close>

lemma data_messages_survive:
  "(request_header_ok m1 \<longrightarrow> survives encodeRequestHeader decodeRequestHeader m1) \<and>
    (list_offsets_request_ok m2 \<longrightarrow> survives encodeListOffsetsRequest decodeListOffsetsRequest m2) \<and>
    (list_offsets_response_ok m3 \<longrightarrow> survives encodeListOffsetsResponse decodeListOffsetsResponse m3) \<and>
    (metadata_request_ok m4 \<longrightarrow> survives encodeMetadataRequest decodeMetadataRequest m4) \<and>
    (metadata_response_ok m5 \<longrightarrow> survives encodeMetadataResponse decodeMetadataResponse m5) \<and>
    (create_topic_request_ok m6 \<longrightarrow> survives encodeCreateTopicRequest decodeCreateTopicRequest m6) \<and>
    (create_topic_response_ok m7 \<longrightarrow> survives encodeCreateTopicResponse decodeCreateTopicResponse m7) \<and>
    (fetch_request_ok m8 \<longrightarrow> survives encodeFetchRequest decodeFetchRequest m8) \<and>
    (produce_response_ok m9 \<longrightarrow> survives encodeProduceResponse decodeProduceResponse m9) \<and>
    (produce_request_ok m \<longrightarrow> (\<exists>bytes. bytes_of (encodeProduceRequest m) = Inr bytes \<and>
       (\<forall>ys. \<exists>m'. decodeProduceRequest (reader_of (bytes @ ys)) =
          Inr (m', advance (length bytes) (reader_of (bytes @ ys))) \<and> same_request m m')))"
proof (intro conjI impI)
  assume m: "produce_request_ok m"
  have "\<exists>m'. decodeProduceRequest (reader_of (produce_request_repr m @ ys)) =
      Inr (m', advance (length (produce_request_repr m)) (reader_of (produce_request_repr m @ ys))) \<and> same_request m m'" for ys
    using decode_produce(2) [OF m] by (simp add: reads_some_def)
  moreover have "bytes_of (encodeProduceRequest m) = Inr (produce_request_repr m)"
    by (simp add: bytes_of_def encode_produce(3) [OF m] take_writer_def)
  ultimately show "\<exists>bytes. bytes_of (encodeProduceRequest m) = Inr bytes \<and>
       (\<forall>ys. \<exists>m'. decodeProduceRequest (reader_of (bytes @ ys)) =
          Inr (m', advance (length bytes) (reader_of (bytes @ ys))) \<and> same_request m m')"
    by blast
qed (simp_all add: requestHeader.survives listOffsetsRequest.survives listOffsetsResponse.survives metadataRequest.survives metadataResponse.survives createTopicRequest.survives createTopicResponse.survives fetchRequest.survives produceResponse.survives)

definition demo_produce :: produce_request where
  "demo_produce = \<lparr>pq_acks = 1, pq_timeoutMs = 5, pq_topics =
     [\<lparr>pqt_name = ''t'', pqt_partitions =
        [\<lparr>pqp_partition = 0, pqp_batch = [1, 2], pqp_batchOffsetInBody = 0\<rparr>,
         \<lparr>pqp_partition = 1, pqp_batch = [3], pqp_batchOffsetInBody = 0\<rparr>]\<rparr>]\<rparr>"

lemma demo_produce_ok: "produce_request_ok demo_produce"
  by (simp add: demo_produce_def produce_request_ok_def array_ok_def produce_topic_ok_def produce_partition_ok_def
      string_ok_def blob_ok_def range_simps)

text \<open>The batches of any produce request the broker accepts lie in its frame where the request
says, in order and without overlap: the mutable view that an append stamps its offset into is
always there, is exactly the batch that was checked, and no stamp touches another batch.\<close>

lemma produce_batches_in_place:
  assumes "decodeProduceRequest r = Inr (m, r')"
  shows "(\<forall>p \<in> set (request_batches m). mutableBatch p (rd_bytes r) = Inr (pqp_batch p) \<and>
      rd_pos r \<le> pqp_batchOffsetInBody p) \<and>
    sorted_wrt (\<lambda>p q. pqp_batchOffsetInBody p + length (pqp_batch p) \<le> pqp_batchOffsetInBody q) (request_batches m)"
proof -
  have "placed (rd_bytes r) (rd_pos r) (request_batches m) (rd_pos r')"
    using laysD [OF decodeProduceRequest_lays assms] by blast
  from placed_each [OF this] placed_sorted [OF this] show ?thesis by blast
qed

end
