(* ===== verification/Frame.thy ===== *)
theory Frame
  imports Buffer
begin

text \<open>
  \<^verbatim>\<open>protocol/frame.cpp\<close>: length-prefixed frames over a socket. What the socket does is an argument:
  the outcomes of its successive \<^verbatim>\<open>read\<close> and \<^verbatim>\<open>write\<close> calls, in order.
\<close>

definition kMaxFrameBytes :: nat where
  "kMaxFrameBytes = 100 * 2 ^ 20"

definition kPrefixBytes :: nat where
  "kPrefixBytes = 4"

subsection \<open>Reading\<close>

text \<open>
  What a \<^verbatim>\<open>read\<close> finds: bytes that have arrived (what is not asked for stays), a signal, a reset, or
  another error. When the list is over the peer has closed the stream.
\<close>

datatype receive = Arrived "byte list" | Interrupted | Reset | Failed int

definition stream_ended :: "byte list \<Rightarrow> receive list \<Rightarrow> (byte list option \<times> receive list) result" where
  "stream_ended filled evs = (if filled = [] then Inr (None, evs) else Inl CorruptData)"

function readExactly :: "nat \<Rightarrow> byte list \<Rightarrow> receive list \<Rightarrow> (byte list option \<times> receive list) result" where
  "readExactly want filled evs =
    (if \<not> length filled < want then Inr (Some filled, evs)
     else case evs of
       [] \<Rightarrow> stream_ended filled []
     | Interrupted # evs \<Rightarrow> readExactly want filled evs
     | Reset # evs \<Rightarrow> stream_ended filled evs
     | Failed e # evs \<Rightarrow> Inl (IoError e)
     | Arrived bs # evs \<Rightarrow>
         if bs = [] then stream_ended filled evs
         else let n = want - length filled in
           readExactly want (filled @ take n bs) (if length bs \<le> n then evs else Arrived (drop n bs) # evs))"
  by pat_completeness auto
termination
  by (relation "measures [\<lambda>(want, filled, evs). want - length filled, \<lambda>(want, filled, evs). length evs]")
    (auto simp: min_def)

declare readExactly.simps [simp del]

definition readFrame :: "nat \<Rightarrow> receive list \<Rightarrow> (byte list option \<times> receive list) result" where
  "readFrame maxFrameBytes evs =
    bind_r (readExactly kPrefixBytes [] evs) (\<lambda>(prefix, evs). case prefix of
        None \<Rightarrow> Inr (None, evs)
      | Some prefix \<Rightarrow>
          let len = sint (be_word prefix :: 32 word) in
          bind_r (require (\<not> len < 0) CorruptData) (\<lambda>_.
          bind_r (require (\<not> nat len > maxFrameBytes) CorruptData) (\<lambda>_.
            if len > 0
            then bind_r (readExactly (nat len) [] evs) (\<lambda>(payload, evs). case payload of
                None \<Rightarrow> Inl CorruptData | Some bytes \<Rightarrow> Inr (Some bytes, evs))
            else Inr (Some [], evs))))"

subsection \<open>Writing\<close>

text \<open>What a \<^verbatim>\<open>write\<close> does: takes so many bytes, is interrupted, or fails. When the list is over it
has not returned.\<close>

datatype transmit = Took nat | Signal | Broken int

datatype write_outcome = Sent | Blocked | Threw error

text \<open>The bytes that reached the socket, how the loop ended, and what is left of the outcomes.\<close>

fun writeAll :: "byte list \<Rightarrow> transmit list \<Rightarrow> byte list \<times> write_outcome \<times> transmit list" where
  "writeAll [] evs = ([], Sent, evs)"
| "writeAll bytes [] = ([], Blocked, [])"
| "writeAll bytes (Signal # evs) = writeAll bytes evs"
| "writeAll bytes (Broken e # evs) = ([], Threw (IoError e), evs)"
| "writeAll bytes (Took n # evs) =
    (let (sent, outcome, others) = writeAll (drop n bytes) evs in (take n bytes @ sent, outcome, others))"

definition frame_prefix :: "nat \<Rightarrow> byte list" where
  "frame_prefix payloadBytes = be_bytes 4 (word_of_int (int payloadBytes) :: 32 word)"

definition writeFrameLength :: "nat \<Rightarrow> transmit list \<Rightarrow> byte list \<times> write_outcome \<times> transmit list" where
  "writeFrameLength payloadBytes evs =
    (if payloadBytes > 2147483647 then ([], Threw Error, evs) else writeAll (frame_prefix payloadBytes) evs)"

definition writeFrame :: "byte list \<Rightarrow> transmit list \<Rightarrow> byte list \<times> write_outcome \<times> transmit list" where
  "writeFrame payload evs =
    (let (sent, outcome, evs) = writeFrameLength (length payload) evs in
     if outcome \<noteq> Sent then (sent, outcome, evs)
     else let (more, outcome, evs) = writeAll payload evs in (sent @ more, outcome, evs))"

subsection \<open>What arrives\<close>

definition frame_bytes :: "byte list \<Rightarrow> byte list" where
  "frame_bytes payload = frame_prefix (length payload) @ payload"

text \<open>A stream that delivers its bytes in whatever pieces, with signals between them.\<close>

fun event_bytes :: "receive \<Rightarrow> byte list" where
  "event_bytes (Arrived bs) = bs"
| "event_bytes _ = []"

fun gentle :: "receive \<Rightarrow> bool" where
  "gentle (Arrived bs) = (bs \<noteq> [])"
| "gentle Interrupted = True"
| "gentle _ = False"

definition stream :: "receive list \<Rightarrow> byte list" where
  "stream evs = concat (map event_bytes evs)"

lemma stream_simps [simp]: "stream [] = []" "stream (e # evs) = event_bytes e @ stream evs"
  by (simp_all add: stream_def)

lemma readExactly_full [simp]: "want \<le> length filled \<Longrightarrow> readExactly want filled evs = Inr (Some filled, evs)"
  by (subst readExactly.simps) simp

lemma readExactly_stream:
  assumes "list_all gentle evs" "length filled \<le> want" "want - length filled \<le> length (stream evs)"
  shows "\<exists>evs'. readExactly want filled evs = Inr (Some (filled @ take (want - length filled) (stream evs)), evs') \<and>
    list_all gentle evs' \<and> stream evs' = drop (want - length filled) (stream evs)"
  using assms
proof (induction want filled evs rule: readExactly.induct)
  case (1 want filled evs)
  show ?case
  proof (cases "length filled < want")
    case False
    then show ?thesis using "1.prems" by auto
  next
    case True
    then obtain e es where evs: "evs = e # es" using "1.prems"(3) by (cases evs) auto
    show ?thesis
    proof (cases e)
      case (Arrived bs)
      let ?n = "want - length filled"
      let ?es = "if length bs \<le> ?n then es else Arrived (drop ?n bs) # es"
      have bs: "bs \<noteq> []" using "1.prems"(1) by (simp add: evs Arrived)
      have "\<exists>evs'. readExactly want (filled @ take ?n bs) ?es =
          Inr (Some ((filled @ take ?n bs) @ take (want - length (filled @ take ?n bs)) (stream ?es)), evs') \<and>
          list_all gentle evs' \<and> stream evs' = drop (want - length (filled @ take ?n bs)) (stream ?es)"
        using True "1.prems" by (intro "1.IH"(1) [OF _ evs Arrived bs refl]) (auto simp: evs Arrived)
      then show ?thesis
        using True bs by (subst readExactly.simps) (auto simp: evs Arrived Let_def)
    next
      case Interrupted
      with True "1.prems" show ?thesis
        using "1.IH"(2) [OF _ evs] by (subst readExactly.simps) (simp add: evs)
    qed (use "1.prems" in \<open>simp_all add: evs\<close>)
  qed
qed

lemma readExactly_short:
  assumes "list_all gentle evs" "length filled + length (stream evs) < want"
  shows "readExactly want filled evs = stream_ended (filled @ stream evs) []"
  using assms
proof (induction want filled evs rule: readExactly.induct)
  case (1 want filled evs)
  then have want: "length filled < want" by simp
  show ?case
  proof (cases evs)
    case Nil
    with want show ?thesis by (subst readExactly.simps) simp
  next
    case evs: (Cons e es)
    show ?thesis
    proof (cases e)
      case (Arrived bs)
      then have bs: "bs \<noteq> []" "length bs \<le> want - length filled" using "1.prems" by (simp_all add: evs)
      have "readExactly want (filled @ take (want - length filled) bs)
          (if length bs \<le> want - length filled then es else Arrived (drop (want - length filled) bs) # es) =
        stream_ended ((filled @ take (want - length filled) bs) @
          stream (if length bs \<le> want - length filled then es else Arrived (drop (want - length filled) bs) # es)) []"
        using want "1.prems" bs by (intro "1.IH"(1) [OF _ evs Arrived bs(1) refl]) (simp_all add: evs Arrived)
      then show ?thesis using want bs by (subst readExactly.simps) (simp add: evs Arrived)
    next
      case Interrupted
      with want "1.prems" show ?thesis
        using "1.IH"(2) [OF _ evs] by (subst readExactly.simps) (simp add: evs)
    qed (use "1.prems" in \<open>simp_all add: evs\<close>)
  qed
qed

lemma length_frame_prefix [simp]: "length (frame_prefix n) = 4"
  by (simp add: frame_prefix_def be_bytes_4)

lemma frame_prefix_value: "n < 2 ^ 31 \<Longrightarrow> sint (be_word (frame_prefix n) :: 32 word) = int n"
  using int32.dec_repr [of "int n" "reader_of (frame_prefix n)" "[]"]
  by (simp add: frame_prefix_def readInt32_rest be_bytes_4 in_i32_def)

lemma readFrame_stream:
  assumes "list_all gentle evs" "stream evs = frame_bytes payload @ others" "length payload \<le> limit" "length payload < 2 ^ 31"
  shows "\<exists>evs'. readFrame limit evs = Inr (Some payload, evs') \<and> list_all gentle evs' \<and> stream evs' = others"
proof -
  obtain evs1 where 1: "readExactly 4 [] evs = Inr (Some (frame_prefix (length payload)), evs1)" "list_all gentle evs1"
      "stream evs1 = payload @ others"
    using readExactly_stream [of evs "[]" 4] assms(1,2) by (auto simp: frame_bytes_def)
  obtain evs2 where 2: "readExactly (length payload) [] evs1 = Inr (Some payload, evs2)" "list_all gentle evs2"
      "stream evs2 = others"
    using readExactly_stream [of evs1 "[]" "length payload"] 1(2,3) by auto
  show ?thesis
  proof (cases "payload = []")
    case True
    with 1 assms(3,4) show ?thesis
      by (simp add: readFrame_def kPrefixBytes_def frame_prefix_value [of 0, simplified])
  next
    case False
    with 1 2 assms(3,4) show ?thesis by (simp add: readFrame_def kPrefixBytes_def frame_prefix_value)
  qed
qed

lemma readFrame_end: "list_all gentle evs \<Longrightarrow> stream evs = [] \<Longrightarrow> readFrame limit evs = Inr (None, [])"
  using readExactly_short [of evs "[]" 4] by (simp add: readFrame_def kPrefixBytes_def stream_ended_def)

subsection \<open>A conversation\<close>

text \<open>One side sends frames until a write fails; the other reads until the stream ends.\<close>

fun sendFrames :: "byte list list \<Rightarrow> transmit list \<Rightarrow> byte list \<times> write_outcome" where
  "sendFrames [] evs = ([], Sent)"
| "sendFrames (p # ps) evs =
    (let (sent, outcome, evs) = writeFrame p evs in
     if outcome \<noteq> Sent then (sent, outcome)
     else let (more, outcome) = sendFrames ps evs in (sent @ more, outcome))"

fun readFrames :: "nat \<Rightarrow> nat \<Rightarrow> receive list \<Rightarrow> byte list list result" where
  "readFrames limit 0 evs = Inr []"
| "readFrames limit (Suc n) evs =
    bind_r (readFrame limit evs) (\<lambda>(frame, evs). case frame of
        None \<Rightarrow> Inr []
      | Some payload \<Rightarrow> bind_r (readFrames limit n evs) (\<lambda>others. Inr (payload # others)))"

lemma writeAll_sent:
  "writeAll bytes evs = (sent, outcome, others) \<Longrightarrow>
    (\<exists>n. sent = take n bytes) \<and> (outcome = Sent \<longrightarrow> sent = bytes)"
proof (induction bytes evs arbitrary: sent rule: writeAll.induct)
  case (5 b bs n evs)
  obtain s where s: "writeAll (drop n (b # bs)) evs = (s, outcome, others)" "sent = take n (b # bs) @ s"
    using "5.prems" by (auto split: prod.splits)
  have "(\<exists>k. s = take k (drop n (b # bs))) \<and> (outcome = Sent \<longrightarrow> s = drop n (b # bs))"
    by (rule "5.IH" [OF s(1)])
  then obtain k where "s = take k (drop n (b # bs))" "outcome = Sent \<longrightarrow> s = drop n (b # bs)" by blast
  with s(2) show ?case by (auto simp: take_add intro: exI [of _ "n + k"])
qed auto

lemma writeFrame_sent:
  assumes "writeFrame payload evs = (sent, Sent, others)"
  shows "sent = frame_bytes payload \<and> length payload < 2 ^ 31"
  using assms
  by (auto simp: writeFrame_def writeFrameLength_def frame_bytes_def split: prod.splits if_splits dest!: writeAll_sent)

lemma sendFrames_sent:
  "sendFrames ps evs = (wire, Sent) \<Longrightarrow> wire = concat (map frame_bytes ps) \<and> list_all (\<lambda>p. length p < 2 ^ 31) ps"
proof (induction ps arbitrary: evs wire)
  case (Cons p ps)
  then obtain sent evs1 more where "writeFrame p evs = (sent, Sent, evs1)" "sendFrames ps evs1 = (more, Sent)"
      "wire = sent @ more"
    by (auto split: prod.splits if_splits)
  with Cons.IH writeFrame_sent [of p evs sent evs1] show ?case by simp
qed simp

lemma readFrames_stream:
  "list_all gentle evs \<Longrightarrow> stream evs = concat (map frame_bytes ps) \<Longrightarrow>
    list_all (\<lambda>p. length p < 2 ^ 31 \<and> length p \<le> limit) ps \<Longrightarrow> readFrames limit (Suc (length ps)) evs = Inr ps"
proof (induction ps arbitrary: evs)
  case Nil
  then show ?case by (simp add: readFrame_end)
next
  case (Cons p ps)
  obtain evs' where "readFrame limit evs = Inr (Some p, evs')" "list_all gentle evs'" "stream evs' = concat (map frame_bytes ps)"
    using readFrame_stream [of evs p "concat (map frame_bytes ps)" limit] Cons.prems by auto
  with Cons show ?case by simp
qed

subsection \<open>Properties\<close>

text \<open>Frames cross the wire whole: whatever the pieces in which the socket takes and delivers the
bytes and whatever signals arrive in between, when every write has returned the other side reads
exactly the payloads that were sent, in order, and then the clean end of the stream.\<close>

lemma frames_cross_the_wire:
  assumes "sendFrames payloads evs = (wire, Sent)" "list_all (\<lambda>p. length p \<le> limit) payloads"
    and "list_all gentle arrivals" "stream arrivals = wire"
  shows "readFrames limit (Suc (length payloads)) arrivals = Inr payloads"
  using sendFrames_sent [OF assms(1)] assms(2-4) by (intro readFrames_stream) (auto simp: list_all_iff)

text \<open>Nothing less than a whole frame is ever taken for one: a stream that ends inside a frame is
corrupt, whether it ends in the prefix or in the payload, and a length above the limit is refused
before a byte of the payload is read.\<close>

lemma partial_frames_refused:
  assumes "list_all gentle arrivals" "length payload < 2 ^ 31"
  shows "(stream arrivals = take n (frame_bytes payload) \<and> 0 < n \<and> n < length (frame_bytes payload) \<longrightarrow>
      readFrame limit arrivals = Inl CorruptData) \<and>
    (stream arrivals = frame_prefix (length payload) \<and> limit < length payload \<longrightarrow>
      readFrame limit arrivals = Inl CorruptData)"
proof (intro conjI impI)
  assume n: "stream arrivals = take n (frame_bytes payload) \<and> 0 < n \<and> n < length (frame_bytes payload)"
  show "readFrame limit arrivals = Inl CorruptData"
  proof (cases "n < 4")
    case True
    with n have "stream arrivals = take n (frame_prefix (length payload))" by (simp add: frame_bytes_def)
    with n True readExactly_short [OF assms(1), of "[]" 4] show ?thesis
      by (auto simp: readFrame_def kPrefixBytes_def stream_ended_def frame_prefix_def be_bytes_4)
  next
    case False
    then obtain evs where 1: "readExactly 4 [] arrivals = Inr (Some (frame_prefix (length payload)), evs)"
        "list_all gentle evs" "stream evs = take (n - 4) payload"
      using readExactly_stream [OF assms(1), of "[]" 4] n by (auto simp: frame_bytes_def)
    have m: "length (take (n - 4) payload) < length payload" using n False by (auto simp: frame_bytes_def)
    with 1(3) have "readExactly (length payload) [] evs = stream_ended (take (n - 4) payload) []"
      using readExactly_short [OF 1(2), of "[]" "length payload"] by simp
    with 1 m assms(2) show ?thesis
      by (auto simp: readFrame_def kPrefixBytes_def frame_prefix_value stream_ended_def require_def)
  qed
next
  assume "stream arrivals = frame_prefix (length payload) \<and> limit < length payload"
  with readExactly_stream [OF assms(1), of "[]" 4] assms(2) show "readFrame limit arrivals = Inl CorruptData"
    by (auto simp: readFrame_def kPrefixBytes_def frame_prefix_value)
qed

end
