(* ===== verification/Response.thy ===== *)
theory Response
  imports Data_Apis Frame
begin

text \<open>
  \<^verbatim>\<open>protocol/response.cpp\<close> and the broker's side of \<^verbatim>\<open>protocol/fetch.cpp\<close>: a response as a list of
  owned buffers and file ranges, and its way to the socket. A range carries the bytes of the file its
  descriptor refers to.
\<close>

record file_range =
  fr_file :: "byte list"
  fr_position :: nat
  fr_length :: nat

record response_segment =
  rs_buffer :: "byte list"
  rs_range :: file_range

type_synonym response = "response_segment list"

definition no_range :: file_range where
  "no_range = \<lparr>fr_file = [], fr_position = 0, fr_length = 0\<rparr>"

definition isFile :: "response_segment \<Rightarrow> bool" where
  "isFile s \<longleftrightarrow> fr_length (rs_range s) > 0"

definition segment_size :: "response_segment \<Rightarrow> nat" where
  "segment_size s = (if isFile s then fr_length (rs_range s) else length (rs_buffer s))"

definition append_buffer :: "byte list \<Rightarrow> response \<Rightarrow> response" where
  "append_buffer buffer out =
    (if buffer = [] then out
     else if out \<noteq> [] \<and> \<not> isFile (last out)
     then butlast out @ [(last out)\<lparr>rs_buffer := rs_buffer (last out) @ buffer\<rparr>]
     else out @ [\<lparr>rs_buffer = buffer, rs_range = no_range\<rparr>])"

definition append_range :: "file_range \<Rightarrow> response \<Rightarrow> response" where
  "append_range r out = (if fr_length r = 0 then out else out @ [\<lparr>rs_buffer = [], rs_range = r\<rparr>])"

definition totalBytes :: "response \<Rightarrow> nat" where
  "totalBytes out = sum_list (map segment_size out)"

text \<open>\<^verbatim>\<open>pread\<close> returns what the file has.\<close>

definition pread :: "file_range \<Rightarrow> byte list" where
  "pread r = take (fr_length r) (drop (fr_position r) (fr_file r))"

fun materialise :: "response \<Rightarrow> byte list result" where
  "materialise [] = Inr []"
| "materialise (s # ss) =
    bind_r (if \<not> isFile s then Inr (rs_buffer s)
            else bind_r (require (\<not> length (pread (rs_range s)) \<noteq> fr_length (rs_range s)) CorruptData)
              (\<lambda>_. Inr (pread (rs_range s)))) (\<lambda>flat.
    bind_r (materialise ss) (\<lambda>others. Inr (flat @ others)))"

subsection \<open>To the socket\<close>

text \<open>
  \<^verbatim>\<open>sendfile\<close> takes what fits, or less where the file ends; a signal or a full buffer is a count of
  zero, and the loop asks again.
\<close>

definition sendFileRange :: "file_range \<Rightarrow> nat \<Rightarrow> transmit \<Rightarrow> error + byte list" where
  "sendFileRange r sent e = (case e of
      Took n \<Rightarrow> Inr (take n (drop sent (pread r)))
    | Signal \<Rightarrow> Inr []
    | Broken c \<Rightarrow> Inl (IoError c))"

fun sendRange :: "file_range \<Rightarrow> nat \<Rightarrow> transmit list \<Rightarrow> byte list \<times> write_outcome \<times> transmit list" where
  "sendRange r sent [] = ([], if sent < fr_length r then Blocked else Sent, [])"
| "sendRange r sent (e # evs) =
    (if \<not> sent < fr_length r then ([], Sent, e # evs)
     else case sendFileRange r sent e of
         Inl err \<Rightarrow> ([], Threw err, evs)
       | Inr bytes \<Rightarrow>
           (let (more, outcome, others) = sendRange r (sent + length bytes) evs in (bytes @ more, outcome, others)))"

fun writeSegments :: "response \<Rightarrow> transmit list \<Rightarrow> byte list \<times> write_outcome \<times> transmit list" where
  "writeSegments [] evs = ([], Sent, evs)"
| "writeSegments (s # ss) evs =
    (let (sent, outcome, evs) = (if \<not> isFile s then writeAll (rs_buffer s) evs else sendRange (rs_range s) 0 evs) in
     if outcome \<noteq> Sent then (sent, outcome, evs)
     else let (more, outcome, evs) = writeSegments ss evs in (sent @ more, outcome, evs))"

definition writeResponse :: "response \<Rightarrow> transmit list \<Rightarrow> byte list \<times> write_outcome \<times> transmit list" where
  "writeResponse out evs =
    (let (sent, outcome, evs) = writeFrameLength (totalBytes out) evs in
     if outcome \<noteq> Sent then (sent, outcome, evs)
     else let (more, outcome, evs) = writeSegments out evs in (sent @ more, outcome, evs))"

subsection \<open>What a response stands for\<close>

definition segment_bytes :: "response_segment \<Rightarrow> byte list" where
  "segment_bytes s = (if isFile s then pread (rs_range s) else rs_buffer s)"

definition flat :: "response \<Rightarrow> byte list" where
  "flat out = concat (map segment_bytes out)"

definition in_file :: "file_range \<Rightarrow> bool" where
  "in_file r \<longleftrightarrow> fr_position r + fr_length r \<le> length (fr_file r)"

definition response_ok :: "response \<Rightarrow> bool" where
  "response_ok out \<longleftrightarrow> list_all (\<lambda>s. isFile s \<longrightarrow> in_file (rs_range s)) out"

lemma length_pread: "in_file r \<Longrightarrow> length (pread r) = fr_length r"
  by (simp add: in_file_def pread_def)

lemma flat_Nil [simp]: "flat [] = []" "response_ok []"
  by (simp_all add: flat_def response_ok_def)

lemma flat_append_buffer [simp]: "flat (append_buffer bytes out) = flat out @ bytes"
proof (cases "out = [] \<or> isFile (last out)")
  case True
  then show ?thesis by (auto simp: append_buffer_def flat_def segment_bytes_def isFile_def no_range_def)
next
  case False
  then have "flat out = flat (butlast out) @ rs_buffer (last out)"
    using append_butlast_last_id [of out] by (metis concat_append flat_def list.simps(8,9) map_append concat.simps append_Nil2 segment_bytes_def)
  with False show ?thesis by (simp add: append_buffer_def flat_def segment_bytes_def isFile_def)
qed

lemma response_ok_append_buffer [simp]: "response_ok out \<Longrightarrow> response_ok (append_buffer bytes out)"
proof (cases "out = [] \<or> isFile (last out)")
  case False
  assume ok: "response_ok out"
  then have "response_ok (butlast out)" by (auto simp: response_ok_def list_all_iff dest: in_set_butlastD)
  with False ok show ?thesis by (simp add: append_buffer_def response_ok_def isFile_def)
qed (auto simp: append_buffer_def response_ok_def isFile_def no_range_def)

lemma flat_append_range [simp]: "flat (append_range r out) = flat out @ pread r"
  by (simp add: append_range_def flat_def segment_bytes_def isFile_def pread_def)

lemma response_ok_append_range [simp]: "response_ok out \<Longrightarrow> in_file r \<Longrightarrow> response_ok (append_range r out)"
  by (simp add: append_range_def response_ok_def)

lemma totalBytes_flat: "response_ok out \<Longrightarrow> totalBytes out = length (flat out)"
  by (induction out) (auto simp: totalBytes_def flat_def response_ok_def segment_size_def segment_bytes_def length_pread)

lemma materialise_flat: "response_ok out \<Longrightarrow> materialise out = Inr (flat out)"
  by (induction out) (auto simp: flat_def response_ok_def segment_bytes_def length_pread)

lemma sendRange_sent:
  "sendRange r sent evs = (bytes, Sent, others) \<Longrightarrow> in_file r \<Longrightarrow> bytes = drop sent (pread r)"
proof (induction r sent evs arbitrary: bytes rule: sendRange.induct)
  case (1 r sent)
  then show ?case by (simp add: length_pread split: if_splits)
next
  case (2 r sent e evs)
  show ?case
  proof (cases "sent < fr_length r")
    case False
    with "2.prems" show ?thesis by (simp add: length_pread)
  next
    case True
    then obtain now more where m: "sendFileRange r sent e = Inr now" "bytes = now @ more"
        "sendRange r (sent + length now) evs = (more, Sent, others)"
      using "2.prems"(1) by (auto split: sum.splits prod.splits)
    then have "more = drop (sent + length now) (pread r)" using "2.IH" True "2.prems"(2) by blast
    then have "more = drop (length now) (drop sent (pread r))" by (simp add: add.commute)
    moreover obtain n where "now = take n (drop sent (pread r))"
      using m(1) by (auto simp: sendFileRange_def split: transmit.splits intro: that [of 0])
    ultimately show ?thesis using m(2) by (metis append_eq_conv_conj append_take_drop_id)
  qed
qed

lemma writeSegments_sent:
  "writeSegments out evs = (bytes, Sent, others) \<Longrightarrow> response_ok out \<Longrightarrow> bytes = flat out"
proof (induction out arbitrary: evs bytes)
  case (Cons s ss)
  let ?first = "if \<not> isFile s then writeAll (rs_buffer s) evs else sendRange (rs_range s) 0 evs"
  obtain sent evs1 more where m: "?first = (sent, Sent, evs1)" "writeSegments ss evs1 = (more, Sent, others)"
      "bytes = sent @ more"
    using Cons.prems(1) by (auto split: prod.splits if_splits)
  have "sent = segment_bytes s"
    using m(1) Cons.prems(2) writeAll_sent [of "rs_buffer s" evs sent Sent evs1] sendRange_sent [of "rs_range s" 0 evs sent evs1]
    by (auto simp: segment_bytes_def response_ok_def split: if_splits)
  with Cons m show ?case by (simp add: flat_def response_ok_def)
qed (simp add: flat_def)

lemma writeResponse_sent:
  assumes "writeResponse out evs = (bytes, Sent, others)" "response_ok out"
  shows "bytes = frame_bytes (flat out) \<and> length (flat out) < 2 ^ 31"
  using assms totalBytes_flat [OF assms(2)]
  by (auto simp: writeResponse_def writeFrameLength_def frame_bytes_def split: prod.splits if_splits
      dest!: writeAll_sent writeSegments_sent)

subsection \<open>Fetch responses\<close>

record fetch_partition =
  fp_partition :: int
  fp_error :: error_code
  fp_highWatermark :: int
  fp_logStartOffset :: int
  fp_records :: file_range

record fetch_response_topic =
  frt_name :: string
  frt_partitions :: "fetch_partition list"

record fetch_response =
  frp_topics :: "fetch_response_topic list"

text \<open>The encoder's state: the buffer that accumulates metadata, and the response so far.\<close>

type_synonym encoding = "writer \<times> response"

definition encode_fetch_partition :: "fetch_partition \<Rightarrow> encoding \<Rightarrow> encoding result" where
  "encode_fetch_partition p = (\<lambda>(buffer, out).
    bind_r (writeInt32 (fp_partition p) buffer) (\<lambda>buffer.
    bind_r (writeCode (fp_error p) buffer) (\<lambda>buffer.
    bind_r (writeInt64 (fp_highWatermark p) buffer) (\<lambda>buffer.
    bind_r (writeInt64 (fp_logStartOffset p) buffer) (\<lambda>buffer.
    bind_r (writeInt32 (to_i32 (int (fr_length (fp_records p)))) buffer) (\<lambda>buffer.
      if fr_length (fp_records p) = 0 then Inr (buffer, out)
      else bind_r (take_writer buffer) (\<lambda>(bytes, _).
        Inr (new_writer, append_range (fp_records p) (append_buffer bytes out)))))))))"

fun encode_each :: "('a \<Rightarrow> encoding \<Rightarrow> encoding result) \<Rightarrow> 'a list \<Rightarrow> encoding \<Rightarrow> encoding result" where
  "encode_each f [] st = Inr st"
| "encode_each f (x # xs) st = bind_r (f x st) (encode_each f xs)"

definition encode_fetch_topic :: "fetch_response_topic \<Rightarrow> encoding \<Rightarrow> encoding result" where
  "encode_fetch_topic t = (\<lambda>(buffer, out).
    bind_r (writeString (frt_name t) buffer) (\<lambda>buffer.
    bind_r (writeInt32 (to_i32 (int (length (frt_partitions t)))) buffer) (\<lambda>buffer.
      encode_each encode_fetch_partition (frt_partitions t) (buffer, out))))"

definition encodeFetchResponse :: "fetch_response \<Rightarrow> response \<Rightarrow> response result" where
  "encodeFetchResponse m out =
    bind_r (writeInt32 (to_i32 (int (length (frp_topics m)))) new_writer) (\<lambda>buffer.
    bind_r (encode_each encode_fetch_topic (frp_topics m) (buffer, out)) (\<lambda>(buffer, out).
    bind_r (take_writer buffer) (\<lambda>(bytes, _). Inr (append_buffer bytes out))))"

text \<open>What the client is meant to see.\<close>

definition view_partition :: "fetch_partition \<Rightarrow> fetch_view_partition" where
  "view_partition p = \<lparr>fvp_partition = fp_partition p, fvp_error = fp_error p, fvp_highWatermark = fp_highWatermark p,
     fvp_logStartOffset = fp_logStartOffset p, fvp_records = pread (fp_records p)\<rparr>"

definition view_topic :: "fetch_response_topic \<Rightarrow> fetch_view_topic" where
  "view_topic t = \<lparr>fvt_name = frt_name t, fvt_partitions = map view_partition (frt_partitions t)\<rparr>"

definition view_of :: "fetch_response \<Rightarrow> fetch_response_view" where
  "view_of m = \<lparr>frv_topics = map view_topic (frp_topics m)\<rparr>"

definition fetch_response_ok :: "fetch_response \<Rightarrow> bool" where
  "fetch_response_ok m \<longleftrightarrow> fetch_response_view_ok (view_of m) \<and>
     list_all (\<lambda>t. list_all (\<lambda>p. in_file (fp_records p)) (frt_partitions t)) (frp_topics m)"

text \<open>A step of the encoder adds the given bytes to what the response stands for.\<close>

definition adds :: "(encoding \<Rightarrow> encoding result) \<Rightarrow> byte list \<Rightarrow> bool" where
  "adds f bs \<longleftrightarrow> (\<forall>w out. live w \<longrightarrow> response_ok out \<longrightarrow> (\<exists>w' out'. f (w, out) = Inr (w', out') \<and> live w' \<and> response_ok out' \<and>
     flat out' @ wr_bytes w' = flat out @ wr_bytes w @ bs))"

lemma addsE:
  assumes "adds f bs" "live w" "response_ok out"
  obtains w' out' where "f (w, out) = Inr (w', out')" "live w'" "response_ok out'"
    "flat out' @ wr_bytes w' = flat out @ wr_bytes w @ bs"
  using assms unfolding adds_def by blast

lemma adds_behind:
  assumes "adds g bs" "\<And>w out. live w \<Longrightarrow> f (w, out) = g (push_back cs w, out)"
  shows "adds f (cs @ bs)"
  unfolding adds_def
proof (intro allI impI)
  fix w out assume "live w" "response_ok out"
  then show "\<exists>w' out'. f (w, out) = Inr (w', out') \<and> live w' \<and> response_ok out' \<and>
      flat out' @ wr_bytes w' = flat out @ wr_bytes w @ cs @ bs"
    using addsE [OF assms(1), of "push_back cs w" out] assms(2) by fastforce
qed

lemma adds_each: "(\<And>x. x \<in> set xs \<Longrightarrow> adds (f x) (repr x)) \<Longrightarrow> adds (encode_each f xs) (concat (map repr xs))"
proof (induction xs)
  case (Cons x xs)
  show ?case
    unfolding adds_def
  proof (intro allI impI)
    fix w out assume "live w" "response_ok out"
    moreover have "adds (f x) (repr x)" by (rule Cons.prems) simp
    ultimately obtain w1 out1 where 1: "f x (w, out) = Inr (w1, out1)" "live w1" "response_ok out1"
        "flat out1 @ wr_bytes w1 = flat out @ wr_bytes w @ repr x"
      by (auto elim: addsE)
    moreover have "adds (encode_each f xs) (concat (map repr xs))" using Cons by simp
    ultimately obtain w2 out2 where 2: "encode_each f xs (w1, out1) = Inr (w2, out2)" "live w2" "response_ok out2"
        "flat out2 @ wr_bytes w2 = flat out1 @ wr_bytes w1 @ concat (map repr xs)"
      unfolding adds_def by blast
    have "flat out2 @ wr_bytes w2 = flat out @ wr_bytes w @ concat (map repr (x # xs))"
      using 1(4) 2(4) by (metis append.assoc concat.simps(2) list.simps(9))
    with 1 2 show "\<exists>w' out'. encode_each f (x # xs) (w, out) = Inr (w', out') \<and> live w' \<and> response_ok out' \<and>
        flat out' @ wr_bytes w' = flat out @ wr_bytes w @ concat (map repr (x # xs))"
      by simp
  qed
qed (simp add: adds_def)

lemma pread_length: "in_file r \<Longrightarrow> blob_ok (pread r) \<Longrightarrow> to_i32 (int (fr_length r)) = int (length (pread r)) \<and> in_i32 (int (length (pread r)))"
  by (simp add: length_pread blob_ok_def in_i32_def)

lemma encode_fetch_partition_adds:
  assumes "fetch_view_partition_ok (view_partition p)" "in_file (fp_records p)"
  shows "adds (encode_fetch_partition p) (fetch_view_partition_repr (view_partition p))"
proof -
  have "blob_ok (pread (fp_records p))" using assms(1) by (simp add: fetch_view_partition_ok_def view_partition_def)
  note len = pread_length [OF assms(2) this] length_pread [OF assms(2)]
  have "pread (fp_records p) = [] \<longleftrightarrow> fr_length (fp_records p) = 0" using len(2) by (metis length_0_conv)
  with assms len show ?thesis
    by (auto simp: adds_def encode_fetch_partition_def fetch_view_partition_repr_def view_partition_def
        fetch_view_partition_ok_def enc_simps codec_simps take_writer_def blob_repr_def)
qed

lemma encode_fetch_topic_adds:
  assumes "fetch_view_topic_ok (view_topic t)" "list_all (\<lambda>p. in_file (fp_records p)) (frt_partitions t)"
  shows "adds (encode_fetch_topic t) (fetch_view_topic_repr (view_topic t))"
proof -
  have ok: "string_ok (frt_name t)" "array_ok fetch_view_partition_ok (map view_partition (frt_partitions t))"
    using assms(1) by (simp_all add: fetch_view_topic_ok_def view_topic_def)
  let ?bs = "concat (map (\<lambda>p. fetch_view_partition_repr (view_partition p)) (frt_partitions t))"
  have each: "adds (encode_each encode_fetch_partition (frt_partitions t)) ?bs"
    using ok(2) assms(2) by (intro adds_each encode_fetch_partition_adds) (auto simp: array_ok_def list_all_iff)
  have "in_i32 (int (length (frt_partitions t)))" using ok(2) by (simp add: array_ok_def in_i32_def)
  with ok(1) have "encode_fetch_topic t (w, out) = encode_each encode_fetch_partition (frt_partitions t)
      (push_back (string_repr (frt_name t) @ i32_repr (int (length (frt_partitions t)))) w, out)" if "live w" for w out
    using that by (simp add: encode_fetch_topic_def enc_simps codec_simps i32_repr_def)
  from adds_behind [OF each this] show ?thesis
    by (simp add: fetch_view_topic_repr_def view_topic_def array_repr_def i32_repr_def comp_def)
qed

lemma encodeFetchResponse_flat:
  assumes "fetch_response_ok m" "response_ok out"
  shows "\<exists>out'. encodeFetchResponse m out = Inr out' \<and> response_ok out' \<and>
    flat out' = flat out @ fetch_response_view_repr (view_of m)"
proof -
  have ok: "array_ok fetch_view_topic_ok (map view_topic (frp_topics m))"
    using assms(1) by (simp add: fetch_response_ok_def fetch_response_view_ok_def view_of_def)
  let ?bs = "concat (map (\<lambda>t. fetch_view_topic_repr (view_topic t)) (frp_topics m))"
  have "adds (encode_each encode_fetch_topic (frp_topics m)) ?bs"
    using ok assms(1) by (intro adds_each encode_fetch_topic_adds) (auto simp: array_ok_def list_all_iff fetch_response_ok_def)
  then obtain w out' where e: "encode_each encode_fetch_topic (frp_topics m)
        (push_back (i32_repr (int (length (frp_topics m)))) new_writer, out) = Inr (w, out')"
      "live w" "response_ok out'" "flat out' @ wr_bytes w = flat out @ i32_repr (int (length (frp_topics m))) @ ?bs"
    by (rule addsE [where w = "push_back (i32_repr (int (length (frp_topics m)))) new_writer", OF _ _ assms(2)]) simp_all
  moreover have "in_i32 (int (length (frp_topics m)))" using ok by (simp add: array_ok_def in_i32_def)
  ultimately show ?thesis
    by (simp add: encodeFetchResponse_def codec_simps i32_repr_def take_writer_def fetch_response_view_repr_def
        view_of_def array_repr_def comp_def)
qed

subsection \<open>Properties\<close>

text \<open>A fetch answer reaches the client as if its record bytes had been read and copied: the
encoder, which puts file ranges into the response and never reads them, always succeeds; the length
it announces is the length of what follows; whenever the socket has taken the whole response it has
taken one frame; and decoding that frame gives the client every field and exactly the bytes of the
files.\<close>

lemma fetch_response_arrives:
  assumes "fetch_response_ok m"
  shows "\<exists>out bytes. encodeFetchResponse m [] = Inr out \<and> materialise out = Inr bytes \<and> totalBytes out = length bytes \<and>
    decodeFetchResponseView (reader_of (bytes @ ys)) = Inr (view_of m, advance (length bytes) (reader_of (bytes @ ys))) \<and>
    (\<forall>evs sent others. writeResponse out evs = (sent, Sent, others) \<longrightarrow> sent = frame_bytes bytes)"
proof -
  obtain out where out: "encodeFetchResponse m [] = Inr out" "response_ok out" "flat out = fetch_response_view_repr (view_of m)"
    using encodeFetchResponse_flat [OF assms, of "[]"] by auto
  have "fetch_response_view_ok (view_of m)" using assms by (simp add: fetch_response_ok_def)
  then have "decodeFetchResponseView (reader_of (flat out @ ys)) = Inr (view_of m, advance (length (flat out)) (reader_of (flat out @ ys)))"
    using fetchResponseView.dec_repr [of "view_of m"] out(3) by simp
  with out(1) materialise_flat [OF out(2)] totalBytes_flat [OF out(2)] writeResponse_sent [OF _ out(2)] show ?thesis
    by blast
qed

definition demo_fetched :: fetch_response where
  "demo_fetched = \<lparr>frp_topics = [\<lparr>frt_name = ''t'', frt_partitions =
     [\<lparr>fp_partition = 0, fp_error = EC_None, fp_highWatermark = 9, fp_logStartOffset = 0,
       fp_records = \<lparr>fr_file = [4, 5, 6, 7], fr_position = 1, fr_length = 2\<rparr>\<rparr>]\<rparr>]\<rparr>"

end
