(* ===== verification/Commit_Record.thy ===== *)
theory Commit_Record
  imports Wire Sorted_Map Log_Cleaner
begin

text \<open>
  \<^verbatim>\<open>group/commit_record.cpp\<close>, and the record a commit becomes (\<open>batchFor\<close> of
  \<^verbatim>\<open>group/offset_store.cpp\<close>): what a group has read of a partition, as a key and a value of the
  offsets topic.
\<close>

record commit_key =
  ck_group :: string
  ck_topic :: string
  ck_partition :: int

record commit_value =
  cv_nextOffset :: int
  cv_metadata :: string
  cv_commitTimestampMs :: int

text \<open>The defaulted comparison: member by member.\<close>

instantiation commit_key_ext :: (linorder) linorder
begin

definition less_eq_commit_key_ext :: "'a commit_key_ext \<Rightarrow> 'a commit_key_ext \<Rightarrow> bool" where
  "less_eq_commit_key_ext a b \<longleftrightarrow> ck_group a < ck_group b \<or> ck_group a = ck_group b \<and>
     (ck_topic a < ck_topic b \<or> ck_topic a = ck_topic b \<and>
       (ck_partition a < ck_partition b \<or> ck_partition a = ck_partition b \<and> commit_key.more a \<le> commit_key.more b))"

definition less_commit_key_ext :: "'a commit_key_ext \<Rightarrow> 'a commit_key_ext \<Rightarrow> bool" where
  "less_commit_key_ext a b \<longleftrightarrow> a \<le> b \<and> \<not> b \<le> a"

instance
  by standard (auto simp: less_eq_commit_key_ext_def less_commit_key_ext_def intro: commit_key.equality)

end

definition commit_kVersion :: int where
  "commit_kVersion = 1"

definition encodeCommitKey :: "commit_key \<Rightarrow> byte list result" where
  "encodeCommitKey key =
    bind_r (writeInt16 commit_kVersion new_writer) (\<lambda>w.
    bind_r (writeString (ck_group key) w) (\<lambda>w.
    bind_r (writeString (ck_topic key) w) (\<lambda>w.
    bind_r (writeInt32 (ck_partition key) w) (\<lambda>w.
    bind_r (take_writer w) (\<lambda>(out, _). Inr out)))))"

definition readCommitKey :: "reader \<Rightarrow> (commit_key \<times> reader) result" where
  "readCommitKey = (\<lambda>r.
    bind_r (readInt16 r) (\<lambda>(version, r).
    bind_r (require (\<not> version \<noteq> commit_kVersion) CorruptData) (\<lambda>_.
    bind_r (readString r) (\<lambda>(group, r).
    bind_r (readString r) (\<lambda>(topic, r).
    bind_r (readInt32 r) (\<lambda>(partition, r).
      Inr (\<lparr>ck_group = group, ck_topic = topic, ck_partition = partition\<rparr>, r)))))))"

definition decodeCommitKey :: "byte list \<Rightarrow> commit_key result" where
  "decodeCommitKey bytes =
    bind_r (readCommitKey (reader_of bytes)) (\<lambda>(key, r).
    bind_r (require (reader_empty r) CorruptData) (\<lambda>_. Inr key))"

definition encodeCommitValue :: "commit_value \<Rightarrow> byte list result" where
  "encodeCommitValue v =
    bind_r (writeInt16 commit_kVersion new_writer) (\<lambda>w.
    bind_r (writeInt64 (cv_nextOffset v) w) (\<lambda>w.
    bind_r (writeString (cv_metadata v) w) (\<lambda>w.
    bind_r (writeInt64 (cv_commitTimestampMs v) w) (\<lambda>w.
    bind_r (take_writer w) (\<lambda>(out, _). Inr out)))))"

definition readCommitValue :: "reader \<Rightarrow> (commit_value \<times> reader) result" where
  "readCommitValue = (\<lambda>r.
    bind_r (readInt16 r) (\<lambda>(version, r).
    bind_r (require (\<not> version \<noteq> commit_kVersion) CorruptData) (\<lambda>_.
    bind_r (readInt64 r) (\<lambda>(nextOffset, r).
    bind_r (require (\<not> nextOffset < 0) CorruptData) (\<lambda>_.
    bind_r (readString r) (\<lambda>(metadata, r).
    bind_r (readInt64 r) (\<lambda>(commitTimestampMs, r).
      Inr (\<lparr>cv_nextOffset = nextOffset, cv_metadata = metadata, cv_commitTimestampMs = commitTimestampMs\<rparr>, r))))))))"

definition decodeCommitValue :: "byte list \<Rightarrow> commit_value result" where
  "decodeCommitValue bytes =
    bind_r (readCommitValue (reader_of bytes)) (\<lambda>(v, r).
    bind_r (require (reader_empty r) CorruptData) (\<lambda>_. Inr v))"

text \<open>One commit as a batch of one record; no value is a tombstone.\<close>

definition batchFor :: "commit_key \<Rightarrow> commit_value option \<Rightarrow> int \<Rightarrow> byte list result" where
  "batchFor key value timestampMs =
    bind_r (encodeCommitKey key) (\<lambda>keyBytes.
    bind_r (case value of
        Some v \<Rightarrow> bind_r (encodeCommitValue v) (\<lambda>valueBytes.
          append_record timestampMs (Some keyBytes) (Some valueBytes) [] (RecordBatchBuilder 0))
      | None \<Rightarrow> append_record timestampMs (Some keyBytes) None [] (RecordBatchBuilder 0)) build)"

subsection \<open>Layouts\<close>

definition commit_key_repr :: "commit_key \<Rightarrow> byte list" where
  "commit_key_repr k = be_bytes 2 (word_of_int commit_kVersion :: 16 word) @ string_repr (ck_group k) @
     string_repr (ck_topic k) @ be_bytes 4 (word_of_int (ck_partition k) :: 32 word)"

definition commit_value_repr :: "commit_value \<Rightarrow> byte list" where
  "commit_value_repr v = be_bytes 2 (word_of_int commit_kVersion :: 16 word) @
     be_bytes 8 (word_of_int (cv_nextOffset v) :: 64 word) @ string_repr (cv_metadata v) @
     be_bytes 8 (word_of_int (cv_commitTimestampMs v) :: 64 word)"

definition commit_key_ok :: "commit_key \<Rightarrow> bool" where
  "commit_key_ok k \<longleftrightarrow> string_ok (ck_group k) \<and> string_ok (ck_topic k) \<and> in_i32 (ck_partition k)"

definition commit_value_ok :: "commit_value \<Rightarrow> bool" where
  "commit_value_ok v \<longleftrightarrow> 0 \<le> cv_nextOffset v \<and> in_i64 (cv_nextOffset v) \<and> string_ok (cv_metadata v) \<and>
     in_i64 (cv_commitTimestampMs v)"

lemma commit_version_i16 [simp]: "in_i16 commit_kVersion"
  by (simp add: commit_kVersion_def in_i16_def)

lemma readCommitKey_reads: "commit_key_ok k \<Longrightarrow> reads readCommitKey (commit_key_repr k) k"
  unfolding readCommitKey_def commit_key_repr_def commit_key_ok_def
  by (rule reads_intros read_rules commit_key.equality | simp)+

lemma readCommitValue_reads: "commit_value_ok v \<Longrightarrow> reads readCommitValue (commit_value_repr v) v"
  unfolding readCommitValue_def commit_value_repr_def commit_value_ok_def
  by (rule reads_intros read_rules commit_value.equality | simp)+

lemma reads_whole:
  assumes "reads dec bs x"
  shows "\<exists>r. dec (reader_of bs) = Inr (x, r) \<and> reader_empty r"
proof -
  have "dec (reader_of bs) = Inr (x, advance (length bs) (reader_of bs))" using assms unfolding reads_def by simp
  then show ?thesis by (simp add: reader_empty_rest)
qed

lemma commit_key_bytes:
  assumes "commit_key_ok k"
  shows "encodeCommitKey k = Inr (commit_key_repr k)" "decodeCommitKey (commit_key_repr k) = Inr k"
proof -
  show "encodeCommitKey k = Inr (commit_key_repr k)"
    using assms by (simp add: encodeCommitKey_def commit_key_repr_def commit_key_ok_def enc_simps codec_simps take_writer_def)
  show "decodeCommitKey (commit_key_repr k) = Inr k"
    using reads_whole [OF readCommitKey_reads [OF assms]] by (auto simp: decodeCommitKey_def)
qed

lemma commit_value_bytes:
  assumes "commit_value_ok v"
  shows "encodeCommitValue v = Inr (commit_value_repr v)" "decodeCommitValue (commit_value_repr v) = Inr v"
proof -
  show "encodeCommitValue v = Inr (commit_value_repr v)"
    using assms by (simp add: encodeCommitValue_def commit_value_repr_def commit_value_ok_def enc_simps codec_simps take_writer_def)
  show "decodeCommitValue (commit_value_repr v) = Inr v"
    using reads_whole [OF readCommitValue_reads [OF assms]] by (auto simp: decodeCommitValue_def)
qed

subsection \<open>The batch of a commit\<close>

text \<open>What a record of the topic changes.\<close>

definition record_change :: "record_data \<Rightarrow> (commit_key \<times> commit_value option) option result" where
  "record_change rec = (case rec_key rec of
      None \<Rightarrow> Inr None
    | Some keyBytes \<Rightarrow> bind_r (decodeCommitKey keyBytes) (\<lambda>key. case rec_value rec of
          Some bytes \<Rightarrow> bind_r (decodeCommitValue bytes) (\<lambda>v. Inr (Some (key, Some v)))
        | None \<Rightarrow> Inr (Some (key, None))))"

definition commit_entry :: "commit_key \<Rightarrow> commit_value option \<Rightarrow> int \<Rightarrow> entry" where
  "commit_entry k v t = \<lparr>en_delta = 0, en_timestamp = t, en_key = Some (commit_key_repr k),
     en_value = map_option commit_value_repr v, en_headers = []\<rparr>"

lemma length_string_repr: "length (string_repr s) = 2 + length s"
  by (simp add: string_repr_def be_bytes_2)

lemma commit_lengths:
  "commit_key_ok k \<Longrightarrow> length (commit_key_repr k) < 2 ^ 17"
  "commit_value_ok v \<Longrightarrow> length (commit_value_repr v) < 2 ^ 16"
  by (simp_all add: commit_key_repr_def commit_key_ok_def commit_value_repr_def commit_value_ok_def length_string_repr
      string_ok_def be_bytes_2 be_bytes_4 be_bytes_8)

lemma commit_entry_ok:
  assumes "commit_key_ok k" "\<And>x. v = Some x \<Longrightarrow> commit_value_ok x" "in_i64 t"
  shows "entries_ok [commit_entry k v t]"
proof -
  let ?r = "record_of t (commit_entry k v t)"
  have key: "length (nullable_repr (rec_key ?r)) < 2 ^ 18" "nullable_ok (rec_key ?r)"
    using commit_lengths(1) [OF assms(1)] length_varint_bytes [of "int (length (commit_key_repr k))"]
    by (simp_all add: record_of_def commit_entry_def nullable_repr_def nullable_ok_def)
  have value_room: "length (nullable_repr (rec_value ?r)) < 2 ^ 18" "nullable_ok (rec_value ?r)"
  proof (atomize (full), cases v)
    case (Some x)
    then show "length (nullable_repr (rec_value ?r)) < 2 ^ 18 \<and> nullable_ok (rec_value ?r)"
      using commit_lengths(2) [OF assms(2) [OF Some]] length_varint_bytes [of "int (length (commit_value_repr x))"]
      by (simp add: record_of_def commit_entry_def nullable_repr_def nullable_ok_def)
  next
    case None
    then show "length (nullable_repr (rec_value ?r)) < 2 ^ 18 \<and> nullable_ok (rec_value ?r)"
      using length_varint_bytes [of "- 1"]
      by (simp add: record_of_def commit_entry_def nullable_repr_def nullable_ok_def)
  qed
  have body: "length (record_body ?r) < 2 ^ 20"
    using key(1) value_room(1) length_varlong_bytes [of "rec_timestampDelta ?r"] length_varint_bytes [of "rec_offsetDelta ?r"]
      length_varint_bytes [of 0]
    by (simp add: record_body_def) (simp add: record_of_def commit_entry_def)
  then have "length (record_repr ?r) < 2 ^ 21"
    using length_varint_bytes [of "int (length (record_body ?r))"] by (simp add: record_repr_def)
  moreover have "record_ok ?r"
    using key(2) value_room(2) body by (simp add: record_ok_def) (simp add: record_of_def commit_entry_def range_simps)
  moreover have "records_of [commit_entry k v t] = [?r]" by (simp add: records_of_def commit_entry_def)
  ultimately show ?thesis using assms(3) by (simp add: entries_ok_def) (simp add: commit_entry_def)
qed

lemma batchFor_ok:
  assumes "commit_key_ok k" "\<And>x. v = Some x \<Longrightarrow> commit_value_ok x" "in_i64 t"
  shows "\<exists>b r. batchFor k v t = Inr b \<and> valid_batch b \<and> bh_lastOffsetDelta (hdr b) = 0 \<and>
    decodeRecords b = Inr [r] \<and> rec_key r = Some (commit_key_repr k) \<and> record_change r = Inr (Some (k, v))"
proof -
  let ?e = "commit_entry k v t" and ?r = "record_of t (commit_entry k v t)"
  have ok: "entries_ok [?e]" using assms by (intro commit_entry_ok) simp_all
  obtain bytes h where b: "append_all [?e] (RecordBatchBuilder 0) = Inr (builder_of 0 [?e])"
      "build (builder_of 0 [?e]) = Inr bytes" "parseHeader bytes = Inr h" "totalSizeOf bytes = Inr (length bytes)"
      "verifyCrc bytes = Inr True" "decodeRecords bytes = Inr (records_of [?e])" "bh_lastOffsetDelta h = last_delta [?e]"
    using entries_build [OF _ ok] by (auto simp: lastOffset_def)
  have v: "(case v of Some x \<Rightarrow> encodeCommitValue x = Inr (commit_value_repr x) | None \<Rightarrow> True)"
    using commit_value_bytes(1) assms(2) by (simp split: option.split)
  have "append_record t (Some (commit_key_repr k)) (map_option commit_value_repr v) [] (RecordBatchBuilder 0) =
      Inr (builder_of 0 [?e])"
    using b(1) by (simp add: append_record_def RecordBatchBuilder_def commit_entry_def bind_r_Inr_iff)
  then have "batchFor k v t = Inr bytes"
    using v b(2) commit_key_bytes(1) [OF assms(1)] by (cases v) (simp_all add: batchFor_def)
  moreover have "valid_batch bytes" "bh_lastOffsetDelta (hdr bytes) = 0"
    using b(3-5,7) parseHeader_InrD(2) [OF b(3)]
    by (simp_all add: valid_batch_def batch_wf_def last_delta_def commit_entry_def)
  moreover have "decodeRecords bytes = Inr [?r]" using b(6) by (simp add: records_of_def commit_entry_def)
  moreover have "record_change ?r = Inr (Some (k, v))"
    using commit_key_bytes(2) [OF assms(1)] commit_value_bytes(2) [OF assms(2)]
    by (cases v) (simp_all add: record_change_def record_of_def commit_entry_def)
  moreover have "rec_key ?r = Some (commit_key_repr k)" by (simp add: record_of_def commit_entry_def)
  ultimately show ?thesis by blast
qed

subsection \<open>Properties\<close>

text \<open>A position survives its record: the bytes of a commit decode to the key and the value that
were committed, and the batch that carries it is valid, holds that one record and says what it was
built to say, a tombstone included.\<close>

lemma commit_record_roundtrip:
  assumes "commit_key_ok k" "commit_value_ok v" "in_i64 t"
  shows "(\<exists>kb vb. encodeCommitKey k = Inr kb \<and> decodeCommitKey kb = Inr k \<and>
      encodeCommitValue v = Inr vb \<and> decodeCommitValue vb = Inr v) \<and>
    (\<exists>b r. batchFor k (Some v) t = Inr b \<and> verifyCrc b = Inr True \<and> decodeRecords b = Inr [r] \<and>
      record_change r = Inr (Some (k, Some v))) \<and>
    (\<exists>b r. batchFor k None t = Inr b \<and> verifyCrc b = Inr True \<and> decodeRecords b = Inr [r] \<and>
      record_change r = Inr (Some (k, None)))"
  using batchFor_ok [OF assms(1) _ assms(3), of "Some v"] batchFor_ok [OF assms(1) _ assms(3), of None]
    commit_key_bytes [OF assms(1)] commit_value_bytes [OF assms(2)] assms(2)
  by (auto simp: valid_batch_def)

abbreviation demo_key :: commit_key where
  "demo_key \<equiv> \<lparr>ck_group = ''g'', ck_topic = ''t'', ck_partition = 0\<rparr>"

abbreviation demo_position :: "int \<Rightarrow> commit_value" where
  "demo_position n \<equiv> \<lparr>cv_nextOffset = n, cv_metadata = [], cv_commitTimestampMs = 7\<rparr>"

lemma demo_commit_ok: "commit_key_ok demo_key" "commit_value_ok (demo_position 10)"
  by (simp_all add: commit_key_ok_def commit_value_ok_def string_ok_def range_simps)

end
