(* ===== verification/Offset_Store.thy ===== *)
theory Offset_Store
  imports Commit_Record Log_Manager
begin

text \<open>
  \<^verbatim>\<open>group/offsets_topic.cpp\<close> and \<^verbatim>\<open>group/offset_store.cpp\<close>: where every group has got to, as a map
  in memory and as records of the offsets topic. The hash of a group's name is an argument: the code
  takes it from the standard library, which leaves it open.
\<close>

definition kOffsetsTopic :: string where
  "kOffsetsTopic = ''__offsets''"

definition kDefaultOffsetsPartitions :: int where
  "kDefaultOffsetsPartitions = 8"

definition coordinatorPartition :: "(string \<Rightarrow> nat) \<Rightarrow> string \<Rightarrow> int \<Rightarrow> int result" where
  "coordinatorPartition hash groupId partitions =
    bind_r (require (\<not> partitions \<le> 0) Error) (\<lambda>_. Inr (to_i32 (int (hash groupId) mod partitions)))"

text \<open>The configuration the topic is created with: compacted, and never deleted by age or size.\<close>

definition offsets_config :: "log_config \<Rightarrow> log_config" where
  "offsets_config defaults = defaults\<lparr>lc_cleanup := Compact,
     lc_retention := (lc_retention defaults)\<lparr>rt_retentionMs := 9223372036854775807, rt_retentionBytes := None\<rparr>\<rparr>"

text \<open>An exception on the way leaves the partitions created before it.\<close>

fun create_partitions :: "string \<Rightarrow> log_config \<Rightarrow> int list \<Rightarrow> log_manager \<Rightarrow> unit result \<times> log_manager" where
  "create_partitions topic config [] m = (Inr (), m)"
| "create_partitions topic config (p # ps) m =
    (case createPartition \<lparr>tp_topic = topic, tp_partition = p\<rparr> config m of
       Inl e \<Rightarrow> (Inl e, m)
     | Inr m \<Rightarrow> create_partitions topic config ps m)"

definition ensureOffsetsTopic :: "int \<Rightarrow> log_manager \<Rightarrow> int result \<times> log_manager" where
  "ensureOffsetsTopic partitions m =
    (if partitions \<le> 0 then (Inl Error, m)
     else let existing = int (length (filter (\<lambda>tp. tp_topic tp = kOffsetsTopic) (hostedPartitions m))) in
       if existing > 0 then (if existing \<noteq> partitions then Inl CorruptData else Inr existing, m)
       else (case create_partitions kOffsetsTopic (offsets_config (lm_defaults m)) [0..partitions - 1] m of
           (Inl e, m) \<Rightarrow> (Inl e, m)
         | (Inr _, m) \<Rightarrow> (Inr partitions, m)))"

subsection \<open>The store\<close>

type_synonym positions = "(commit_key \<times> commit_value) list"

record offset_store =
  os_partitions :: int
  os_committed :: positions

definition OffsetStore :: "int \<Rightarrow> offset_store" where
  "OffsetStore partitions = \<lparr>os_partitions = partitions, os_committed = []\<rparr>"

definition partitionFor :: "(string \<Rightarrow> nat) \<Rightarrow> offset_store \<Rightarrow> string \<Rightarrow> int result" where
  "partitionFor hash st groupId = coordinatorPartition hash groupId (os_partitions st)"

definition fetch_position :: "commit_key \<Rightarrow> offset_store \<Rightarrow> commit_value option" where
  "fetch_position key st = map_of (os_committed st) key"

definition store_size :: "offset_store \<Rightarrow> nat" where
  "store_size st = length (os_committed st)"

text \<open>
  The append of a commit or a tombstone to the partition of its group. A failed append may have
  rolled the log, which the manager keeps.
\<close>

definition append_commit ::
  "(string \<Rightarrow> nat) \<Rightarrow> commit_key \<Rightarrow> commit_value option \<Rightarrow> int \<Rightarrow> int \<times> int \<Rightarrow> offset_store \<Rightarrow> log_manager \<Rightarrow>
    unit result \<times> log_manager" where
  "append_commit hash key value timestampMs clock st m = (case partitionFor hash st (ck_group key) of
      Inl e \<Rightarrow> (Inl e, m)
    | Inr p \<Rightarrow> let tp = \<lparr>tp_topic = kOffsetsTopic, tp_partition = p\<rparr> in (case lm_get m tp of
        None \<Rightarrow> (Inl Error, m)
      | Some l \<Rightarrow> (case batchFor key value timestampMs of
          Inl e \<Rightarrow> (Inl e, m)
        | Inr b \<Rightarrow> (case log_append b (fst clock) (snd clock) l of
            (Inl e, l) \<Rightarrow> (Inl e, lm_update tp l m)
          | (Inr _, l) \<Rightarrow> (Inr (), lm_update tp l m)))))"

definition commit ::
  "(string \<Rightarrow> nat) \<Rightarrow> commit_key \<Rightarrow> commit_value \<Rightarrow> int \<times> int \<Rightarrow> offset_store \<times> log_manager \<Rightarrow>
    unit result \<times> offset_store \<times> log_manager" where
  "commit hash key value clock = (\<lambda>(st, m).
    (case append_commit hash key (Some value) (cv_commitTimestampMs value) clock st m of
       (Inl e, m) \<Rightarrow> (Inl e, st, m)
     | (Inr _, m) \<Rightarrow> (Inr (), st\<lparr>os_committed := set_at key value (os_committed st)\<rparr>, m)))"

definition forget ::
  "(string \<Rightarrow> nat) \<Rightarrow> commit_key \<Rightarrow> int \<Rightarrow> int \<times> int \<Rightarrow> offset_store \<times> log_manager \<Rightarrow>
    unit result \<times> offset_store \<times> log_manager" where
  "forget hash key nowMs clock = (\<lambda>(st, m).
    (case append_commit hash key None nowMs clock st m of
       (Inl e, m) \<Rightarrow> (Inl e, st, m)
     | (Inr _, m) \<Rightarrow> (Inr (), st\<lparr>os_committed := erase_at key (os_committed st)\<rparr>, m)))"

subsection \<open>Replay\<close>

fun replay_records :: "record_data list \<Rightarrow> positions \<Rightarrow> positions result" where
  "replay_records [] committed = Inr committed"
| "replay_records (rec # recs) committed =
    bind_r (record_change rec) (\<lambda>change. case change of
        None \<Rightarrow> replay_records recs committed
      | Some (key, Some v) \<Rightarrow> replay_records recs (set_at key v committed)
      | Some (key, None) \<Rightarrow> replay_records recs (erase_at key committed))"

text \<open>The batches of one range. Only the size of a batch may be unreadable.\<close>

function replay_range :: "byte list \<Rightarrow> int \<Rightarrow> bool \<Rightarrow> positions \<Rightarrow> (int \<times> bool \<times> positions) result" where
  "replay_range bytes offset advanced committed =
    (if bytes = [] then Inr (offset, advanced, committed)
     else case totalSizeOf bytes of
         Inl e \<Rightarrow> if e = CorruptData then Inr (offset, advanced, committed) else Inl e
       | Inr size_of_batch \<Rightarrow>
           if size_of_batch > length bytes then Inr (offset, advanced, committed)
           else let batch = take size_of_batch bytes in
             bind_r (parseHeader batch) (\<lambda>header.
             bind_r (decodeRecords batch) (\<lambda>records.
             bind_r (replay_records records committed) (\<lambda>committed.
               replay_range (drop size_of_batch bytes) (lastOffset header + 1) True committed))))"
  by pat_completeness auto
termination
  by (relation "measure (\<lambda>(bytes, _). length bytes)") (auto dest: totalSizeOf_InrD(2))

declare replay_range.simps [simp del]

definition range_bytes :: "partition_log \<Rightarrow> read_result \<Rightarrow> byte list" where
  "range_bytes l r = (case rr_file r of None \<Rightarrow> [] | Some f \<Rightarrow> (case log_dir l (segmentLogPath f) of
     None \<Rightarrow> [] | Some bytes \<Rightarrow> take (rr_length r) (drop (rr_position r) bytes)))"

definition kReplayBytes :: nat where
  "kReplayBytes = 2 ^ 20"

text \<open>The loop over a partition. \<open>None\<close> is a loop that never ends.\<close>

partial_function (option) replay_from :: "partition_log \<Rightarrow> int \<Rightarrow> positions \<Rightarrow> positions result option" where
  "replay_from l offset committed =
    (if \<not> offset < lg_logEndOffset l then Some (Inr committed)
     else case log_read offset kReplayBytes l of
         Inl e \<Rightarrow> Some (Inl e)
       | Inr r \<Rightarrow>
           if rr_error r \<noteq> NoError \<or> rr_length r = 0 then Some (Inr committed)
           else (case replay_range (range_bytes l r) offset False committed of
               Inl e \<Rightarrow> Some (Inl e)
             | Inr (offset, advanced, committed) \<Rightarrow>
                 if \<not> advanced then Some (Inr committed) else replay_from l offset committed))"

definition replayPartition :: "partition_log \<Rightarrow> positions \<Rightarrow> positions result option" where
  "replayPartition l committed = replay_from l (logStartOffset l) committed"

fun replay_partitions :: "int list \<Rightarrow> log_manager \<Rightarrow> positions \<Rightarrow> positions result option" where
  "replay_partitions [] m committed = Some (Inr committed)"
| "replay_partitions (p # ps) m committed =
    (case lm_get m \<lparr>tp_topic = kOffsetsTopic, tp_partition = p\<rparr> of
       None \<Rightarrow> replay_partitions ps m committed
     | Some l \<Rightarrow> (case replayPartition l committed of
         Some (Inr committed) \<Rightarrow> replay_partitions ps m committed
       | failed \<Rightarrow> failed))"

definition replay :: "log_manager \<Rightarrow> offset_store \<Rightarrow> offset_store result option" where
  "replay m st = (case replay_partitions [0..os_partitions st - 1] m [] of
     None \<Rightarrow> None
   | Some (Inl e) \<Rightarrow> Some (Inl e)
   | Some (Inr committed) \<Rightarrow> Some (Inr (st\<lparr>os_committed := committed\<rparr>)))"

end
