(* ===== verification/Group_Coordinator.thy ===== *)
theory Group_Coordinator
  imports Error_Codes Sorted_Map
begin

text \<open>
  \<^verbatim>\<open>group/group_coordinator.cpp\<close>: the consumer groups of a broker. Every operation holds the
  coordinator's mutex, so it is one step; the clock is an argument. Generations and timeouts
  are integers, their thirty-two bit overflow is not modelled.
\<close>

subsection \<open>State\<close>

datatype group_state = GroupEmpty | PreparingRebalance | CompletingRebalance | Stable

fun describe_group_state :: "group_state \<Rightarrow> string" where
  "describe_group_state GroupEmpty = ''Empty''"
| "describe_group_state PreparingRebalance = ''PreparingRebalance''"
| "describe_group_state CompletingRebalance = ''CompletingRebalance''"
| "describe_group_state Stable = ''Stable''"

record group_member =
  gm_memberId :: string
  gm_clientId :: string
  gm_subscription :: "string list"
  gm_protocols :: "string list"
  gm_assignment :: "byte list"
  gm_sessionTimeoutMs :: int
  gm_lastHeartbeatMs :: int
  gm_rejoined :: bool

record consumer_group =
  cg_id :: string
  cg_state :: group_state
  cg_generation :: int
  cg_leaderId :: string
  cg_protocolName :: string
  cg_members :: "(string \<times> group_member) list"

record group_coordinator =
  gc_groups :: "(string \<times> consumer_group) list"
  gc_nextMemberId :: int

record join_result =
  jr_error :: error_code
  jr_memberId :: string
  jr_generation :: int
  jr_leaderId :: string
  jr_protocolName :: string
  jr_members :: "group_member list"

record sync_result =
  sr_error :: error_code
  sr_assignment :: "byte list"

definition GroupCoordinator :: group_coordinator where
  "GroupCoordinator = \<lparr>gc_groups = [], gc_nextMemberId = 1\<rparr>"

definition new_member :: group_member where
  "new_member = \<lparr>gm_memberId = [], gm_clientId = [], gm_subscription = [], gm_protocols = [],
     gm_assignment = [], gm_sessionTimeoutMs = 10000, gm_lastHeartbeatMs = 0, gm_rejoined = False\<rparr>"

definition new_join_result :: join_result where
  "new_join_result = \<lparr>jr_error = EC_None, jr_memberId = [], jr_generation = - 1, jr_leaderId = [],
     jr_protocolName = [], jr_members = []\<rparr>"

subsection \<open>Rebalancing\<close>

definition groupFor :: "string \<Rightarrow> group_coordinator \<Rightarrow> consumer_group" where
  "groupFor groupId gc = (case map_of (gc_groups gc) groupId of
     Some g \<Rightarrow> g
   | None \<Rightarrow> \<lparr>cg_id = groupId, cg_state = GroupEmpty, cg_generation = 0, cg_leaderId = [],
               cg_protocolName = [], cg_members = []\<rparr>)"

definition put_group :: "string \<Rightarrow> consumer_group \<Rightarrow> group_coordinator \<Rightarrow> group_coordinator" where
  "put_group groupId g gc = gc\<lparr>gc_groups := set_at groupId g (gc_groups gc)\<rparr>"

definition beginRebalance :: "consumer_group \<Rightarrow> consumer_group" where
  "beginRebalance g = g\<lparr>cg_state := PreparingRebalance,
     cg_members := map (\<lambda>(who, m). (who, m\<lparr>gm_rejoined := False\<rparr>)) (cg_members g)\<rparr>"

definition agreed_protocol :: "(string \<times> group_member) list \<Rightarrow> string" where
  "agreed_protocol members =
    (case find (\<lambda>candidate. list_all (\<lambda>(_, m). candidate \<in> set (gm_protocols m)) members)
            (gm_protocols (snd (hd members))) of
       None \<Rightarrow> [] | Some candidate \<Rightarrow> candidate)"

definition maybeCompleteJoin :: "consumer_group \<Rightarrow> consumer_group" where
  "maybeCompleteJoin g =
    (if cg_members g = [] then g\<lparr>cg_state := GroupEmpty, cg_leaderId := []\<rparr>
     else if \<not> list_all (\<lambda>(_, m). gm_rejoined m) (cg_members g) then g
     else g\<lparr>cg_generation := cg_generation g + 1, cg_leaderId := fst (hd (cg_members g)),
            cg_protocolName := agreed_protocol (cg_members g), cg_state := CompletingRebalance\<rparr>)"

definition resultFor :: "consumer_group \<Rightarrow> string \<Rightarrow> join_result" where
  "resultFor g memberId = \<lparr>jr_error = EC_None, jr_memberId = memberId, jr_generation = cg_generation g,
     jr_leaderId = cg_leaderId g, jr_protocolName = cg_protocolName g,
     jr_members = (if memberId = cg_leaderId g then map snd (cg_members g) else [])\<rparr>"

subsection \<open>Joining\<close>

text \<open>The part of \<open>join\<close> after the member id is settled.\<close>

definition join_group ::
  "string \<Rightarrow> string \<Rightarrow> string list \<Rightarrow> string list \<Rightarrow> int \<Rightarrow> int \<Rightarrow> consumer_group \<Rightarrow> join_result \<times> consumer_group" where
  "join_group who clientId subscription protocols sessionTimeoutMs nowMs g =
    (let existing = map_of (cg_members g) who;
         settled = (cg_state g = CompletingRebalance \<or> cg_state g = Stable);
         isRetry = settled \<and> (\<exists>m \<in> set_option existing. gm_subscription m = subscription \<and>
                     gm_protocols m = protocols \<and> gm_rejoined m)
     in if isRetry
        then let g = g\<lparr>cg_members := set_at who ((the existing)\<lparr>gm_lastHeartbeatMs := nowMs\<rparr>) (cg_members g)\<rparr>
             in (resultFor g who, g)
        else
          let g = (if cg_state g = Stable \<or> cg_state g = GroupEmpty \<or> cg_state g = CompletingRebalance
                   then beginRebalance g else g);
              old = (case map_of (cg_members g) who of Some m \<Rightarrow> m | None \<Rightarrow> new_member);
              member = old\<lparr>gm_memberId := who, gm_clientId := clientId, gm_subscription := subscription,
                gm_protocols := protocols,
                gm_sessionTimeoutMs := (if sessionTimeoutMs > 0 then sessionTimeoutMs else 10000),
                gm_lastHeartbeatMs := nowMs, gm_rejoined := True\<rparr>;
              g = maybeCompleteJoin (g\<lparr>cg_members := set_at who member (cg_members g)\<rparr>)
          in (if cg_state g = PreparingRebalance
              then new_join_result\<lparr>jr_error := EC_RebalanceInProgress, jr_memberId := who\<rparr>
              else resultFor g who, g))"

definition join ::
  "string \<Rightarrow> string \<Rightarrow> string \<Rightarrow> string list \<Rightarrow> string list \<Rightarrow> int \<Rightarrow> int \<Rightarrow> group_coordinator \<Rightarrow>
    join_result \<times> group_coordinator" where
  "join groupId memberId clientId subscription protocols sessionTimeoutMs nowMs gc =
    (if groupId = [] then (new_join_result\<lparr>jr_error := EC_InvalidGroupId\<rparr>, gc)
     else let g = groupFor groupId gc; gc = put_group groupId g gc in
       if memberId \<noteq> [] \<and> map_of (cg_members g) memberId = None
       then (new_join_result\<lparr>jr_error := EC_UnknownMemberId\<rparr>, gc)
       else let who = (if memberId = [] then clientId @ ''-'' @ to_string (gc_nextMemberId gc) else memberId);
                gc = (if memberId = [] then gc\<lparr>gc_nextMemberId := gc_nextMemberId gc + 1\<rparr> else gc);
                (result, g) = join_group who clientId subscription protocols sessionTimeoutMs nowMs g
            in (result, put_group groupId g gc))"

subsection \<open>Syncing, heartbeats, leaving\<close>

definition sync_failed :: "error_code \<Rightarrow> sync_result" where
  "sync_failed e = \<lparr>sr_error = e, sr_assignment = []\<rparr>"

definition deal_assignments ::
  "(string \<times> byte list) list \<Rightarrow> (string \<times> group_member) list \<Rightarrow> (string \<times> group_member) list" where
  "deal_assignments assignments members =
    fold (\<lambda>(who, bytes) ms. case map_of ms who of
        None \<Rightarrow> ms | Some m \<Rightarrow> set_at who (m\<lparr>gm_assignment := bytes\<rparr>) ms) assignments members"

definition sync ::
  "string \<Rightarrow> string \<Rightarrow> int \<Rightarrow> (string \<times> byte list) list \<Rightarrow> int \<Rightarrow> group_coordinator \<Rightarrow>
    sync_result \<times> group_coordinator" where
  "sync groupId memberId generation assignments nowMs gc = (case map_of (gc_groups gc) groupId of
      None \<Rightarrow> (sync_failed EC_UnknownMemberId, gc)
    | Some g \<Rightarrow> (case map_of (cg_members g) memberId of
        None \<Rightarrow> (sync_failed EC_UnknownMemberId, gc)
      | Some member \<Rightarrow>
          if generation \<noteq> cg_generation g then (sync_failed EC_IllegalGeneration, gc)
          else if cg_state g = PreparingRebalance then (sync_failed EC_RebalanceInProgress, gc)
          else let g = g\<lparr>cg_members := set_at memberId (member\<lparr>gm_lastHeartbeatMs := nowMs\<rparr>) (cg_members g)\<rparr> in
            if cg_state g = CompletingRebalance \<and> memberId \<noteq> cg_leaderId g
            then (sync_failed EC_RebalanceInProgress, put_group groupId g gc)
            else let g = (if cg_state g = CompletingRebalance
                          then g\<lparr>cg_members := deal_assignments assignments (cg_members g), cg_state := Stable\<rparr>
                          else g)
                 in (\<lparr>sr_error = EC_None,
                      sr_assignment = (case map_of (cg_members g) memberId of None \<Rightarrow> [] | Some m \<Rightarrow> gm_assignment m)\<rparr>,
                     put_group groupId g gc)))"

definition heartbeat :: "string \<Rightarrow> string \<Rightarrow> int \<Rightarrow> int \<Rightarrow> group_coordinator \<Rightarrow> error_code \<times> group_coordinator" where
  "heartbeat groupId memberId generation nowMs gc = (case map_of (gc_groups gc) groupId of
      None \<Rightarrow> (EC_UnknownMemberId, gc)
    | Some g \<Rightarrow> (case map_of (cg_members g) memberId of
        None \<Rightarrow> (EC_UnknownMemberId, gc)
      | Some member \<Rightarrow>
          if generation \<noteq> cg_generation g then (EC_IllegalGeneration, gc)
          else if cg_state g = PreparingRebalance then (EC_RebalanceInProgress, gc)
          else (EC_None, put_group groupId
                  (g\<lparr>cg_members := set_at memberId (member\<lparr>gm_lastHeartbeatMs := nowMs\<rparr>) (cg_members g)\<rparr>) gc)))"

definition leave :: "string \<Rightarrow> string \<Rightarrow> int \<Rightarrow> group_coordinator \<Rightarrow> error_code \<times> group_coordinator" where
  "leave groupId memberId nowMs gc = (case map_of (gc_groups gc) groupId of
      None \<Rightarrow> (EC_UnknownMemberId, gc)
    | Some g \<Rightarrow>
        if map_of (cg_members g) memberId = None then (EC_UnknownMemberId, gc)
        else let g = maybeCompleteJoin (beginRebalance (g\<lparr>cg_members := erase_at memberId (cg_members g)\<rparr>)) in
          (EC_None, if cg_members g = [] then gc\<lparr>gc_groups := erase_at groupId (gc_groups gc)\<rparr>
                    else put_group groupId g gc))"

definition lapsed :: "int \<Rightarrow> group_member \<Rightarrow> bool" where
  "lapsed nowMs m \<longleftrightarrow> nowMs - gm_lastHeartbeatMs m \<ge> gm_sessionTimeoutMs m"

definition expire_group :: "int \<Rightarrow> consumer_group \<Rightarrow> nat \<times> consumer_group" where
  "expire_group nowMs g =
    (let kept = filter (\<lambda>(_, m). \<not> lapsed nowMs m) (cg_members g);
         n = length (cg_members g) - length kept;
         g = g\<lparr>cg_members := kept\<rparr>
     in (n, if n > 0 then maybeCompleteJoin (beginRebalance g) else g))"

definition expire :: "int \<Rightarrow> group_coordinator \<Rightarrow> nat \<times> group_coordinator" where
  "expire nowMs gc =
    (let swept = map (\<lambda>(groupId, g). (groupId, expire_group nowMs g)) (gc_groups gc)
     in (sum_list (map (\<lambda>(_, n, _). n) swept),
         gc\<lparr>gc_groups := filter (\<lambda>(_, g). cg_members g \<noteq> []) (map (\<lambda>(groupId, _, g). (groupId, g)) swept)\<rparr>))"

subsection \<open>Looking\<close>

definition stateOf :: "string \<Rightarrow> group_coordinator \<Rightarrow> group_state" where
  "stateOf groupId gc = (case map_of (gc_groups gc) groupId of None \<Rightarrow> GroupEmpty | Some g \<Rightarrow> cg_state g)"

definition memberCount :: "string \<Rightarrow> group_coordinator \<Rightarrow> nat" where
  "memberCount groupId gc = (case map_of (gc_groups gc) groupId of None \<Rightarrow> 0 | Some g \<Rightarrow> length (cg_members g))"

definition groupCount :: "group_coordinator \<Rightarrow> nat" where
  "groupCount gc = length (gc_groups gc)"

subsection \<open>Members\<close>

lemma set_at_keys_same: "keys_sorted m \<Longrightarrow> k \<in> fst ` set m \<Longrightarrow> map fst (set_at k v m) = map fst m"
  by (induction k v m rule: set_at.induct) force+

lemma list_all_set_at_iff:
  "keys_sorted ms \<Longrightarrow> map_of ms k = Some m \<Longrightarrow> P (k, m') = P (k, m) \<Longrightarrow>
    list_all P (set_at k m' ms) = list_all P ms"
  by (induction k m' ms rule: set_at.induct) (auto split: if_splits dest!: map_of_SomeD)

lemma list_all_set_at: "list_all P m \<Longrightarrow> P (k, v) \<Longrightarrow> list_all P (set_at k v m)"
  by (induction k v m rule: set_at.induct) auto

definition member_table_ok :: "(string \<times> group_member) list \<Rightarrow> bool" where
  "member_table_ok members \<longleftrightarrow> keys_sorted members \<and> list_all (\<lambda>(k, m). gm_memberId m = k) members"

definition settled_ok :: "consumer_group \<Rightarrow> bool" where
  "settled_ok g \<longleftrightarrow> cg_members g \<noteq> [] \<and> cg_leaderId g = hd (map fst (cg_members g)) \<and>
     list_all (\<lambda>(_, m). gm_rejoined m) (cg_members g) \<and> 1 \<le> cg_generation g \<and>
     (cg_protocolName g = [] \<or> list_all (\<lambda>(_, m). cg_protocolName g \<in> set (gm_protocols m)) (cg_members g))"

text \<open>What the four states mean.\<close>

definition group_ok :: "consumer_group \<Rightarrow> bool" where
  "group_ok g \<longleftrightarrow> member_table_ok (cg_members g) \<and> 0 \<le> cg_generation g \<and> (case cg_state g of
      GroupEmpty \<Rightarrow> cg_members g = []
    | PreparingRebalance \<Rightarrow> \<not> list_all (\<lambda>(_, m). gm_rejoined m) (cg_members g)
    | _ \<Rightarrow> settled_ok g)"

lemma beginRebalance_simps [simp]:
  "cg_state (beginRebalance g) = PreparingRebalance" "cg_generation (beginRebalance g) = cg_generation g"
  "cg_id (beginRebalance g) = cg_id g" "map fst (cg_members (beginRebalance g)) = map fst (cg_members g)"
  "cg_members (beginRebalance g) = [] \<longleftrightarrow> cg_members g = []"
  "map_of (cg_members (beginRebalance g)) k = map_option (\<lambda>m. m\<lparr>gm_rejoined := False\<rparr>) (map_of (cg_members g) k)"
  by (simp_all add: beginRebalance_def map_of_map) (simp add: comp_def case_prod_unfold)

lemma member_table_beginRebalance [simp]:
  "member_table_ok (cg_members (beginRebalance g)) \<longleftrightarrow> member_table_ok (cg_members g)"
  by (simp add: member_table_ok_def keys_sorted_def)
    (simp add: beginRebalance_def list_all_iff case_prod_unfold)

lemma beginRebalance_keys [simp]: "fst ` set (cg_members (beginRebalance g)) = fst ` set (cg_members g)"
  by (metis beginRebalance_simps(4) list.set_map)

lemma agreed_protocol_supported:
  "agreed_protocol members = [] \<or> list_all (\<lambda>(_, m). agreed_protocol members \<in> set (gm_protocols m)) members"
proof (cases "find (\<lambda>candidate. list_all (\<lambda>(_, m). candidate \<in> set (gm_protocols m)) members) (gm_protocols (snd (hd members)))")
  case (Some c)
  then have "list_all (\<lambda>(_, m). c \<in> set (gm_protocols m)) members" by (auto simp: find_Some_iff)
  with Some show ?thesis by (simp add: agreed_protocol_def)
qed (simp add: agreed_protocol_def)

lemma maybeCompleteJoin_ok:
  assumes "member_table_ok (cg_members g)" "0 \<le> cg_generation g" "cg_state g = PreparingRebalance"
  shows "group_ok (maybeCompleteJoin g)"
  using assms agreed_protocol_supported [of "cg_members g"]
  by (auto simp: maybeCompleteJoin_def group_ok_def settled_ok_def hd_map)

lemma maybeCompleteJoin_simps [simp]:
  "cg_members (maybeCompleteJoin g) = cg_members g" "cg_id (maybeCompleteJoin g) = cg_id g"
  by (simp_all add: maybeCompleteJoin_def)

text \<open>An update of a member that touches neither its id nor whether and how it joined.\<close>

lemma group_ok_touch:
  assumes "group_ok g" "map_of (cg_members g) k = Some m"
    and "gm_memberId m' = gm_memberId m" "gm_protocols m' = gm_protocols m" "gm_rejoined m' = gm_rejoined m"
  shows "group_ok (g\<lparr>cg_members := set_at k m' (cg_members g)\<rparr>)"
proof -
  have sorted: "keys_sorted (cg_members g)" using assms(1) by (simp add: group_ok_def member_table_ok_def)
  then have mem: "(k, m) \<in> set (cg_members g)" using assms(2) map_of_sorted_mem by fast
  then have keys: "map fst (set_at k m' (cg_members g)) = map fst (cg_members g)"
    using set_at_keys_same [OF sorted] by force
  note all = list_all_set_at_iff [OF sorted assms(2)]
  show ?thesis
    using assms(1,3-5) sorted keys
      all [of "\<lambda>(k, m). gm_memberId m = k" m'] all [of "\<lambda>(_, m). gm_rejoined m" m']
      all [of "\<lambda>(_, m). cg_protocolName g \<in> set (gm_protocols m)" m']
      mem by (cases "cg_state g") (auto simp: group_ok_def member_table_ok_def settled_ok_def)
qed

lemma group_ok_tableD: "group_ok g \<Longrightarrow> member_table_ok (cg_members g)"
  by (simp add: group_ok_def)

lemma member_table_set_at:
  "member_table_ok ms \<Longrightarrow> gm_memberId m = k \<Longrightarrow> member_table_ok (set_at k m ms)"
  by (simp add: member_table_ok_def list_all_set_at)

text \<open>What a join does to a group, in two cases.\<close>

lemma join_group_cases:
  obtains (retry) m where "map_of (cg_members g) who = Some m"
      "cg_state g = CompletingRebalance \<or> cg_state g = Stable" "gm_subscription m = subscription"
      "gm_protocols m = protocols" "gm_rejoined m"
      "join_group who clientId subscription protocols timeout now g =
        (resultFor (g\<lparr>cg_members := set_at who (m\<lparr>gm_lastHeartbeatMs := now\<rparr>) (cg_members g)\<rparr>) who,
         g\<lparr>cg_members := set_at who (m\<lparr>gm_lastHeartbeatMs := now\<rparr>) (cg_members g)\<rparr>)"
  | (rejoin) g1 old member where "g1 = (if cg_state g = PreparingRebalance then g else beginRebalance g)"
      "old = (case map_of (cg_members g1) who of Some m \<Rightarrow> m | None \<Rightarrow> new_member)"
      "member = old\<lparr>gm_memberId := who, gm_clientId := clientId, gm_subscription := subscription,
         gm_protocols := protocols, gm_sessionTimeoutMs := (if timeout > 0 then timeout else 10000),
         gm_lastHeartbeatMs := now, gm_rejoined := True\<rparr>"
      "snd (join_group who clientId subscription protocols timeout now g) =
        maybeCompleteJoin (g1\<lparr>cg_members := set_at who member (cg_members g1)\<rparr>)"
      "fst (join_group who clientId subscription protocols timeout now g) =
        (if cg_state (maybeCompleteJoin (g1\<lparr>cg_members := set_at who member (cg_members g1)\<rparr>)) = PreparingRebalance
         then new_join_result\<lparr>jr_error := EC_RebalanceInProgress, jr_memberId := who\<rparr>
         else resultFor (maybeCompleteJoin (g1\<lparr>cg_members := set_at who member (cg_members g1)\<rparr>)) who)"
proof (cases "(cg_state g = CompletingRebalance \<or> cg_state g = Stable) \<and>
    (\<exists>m \<in> set_option (map_of (cg_members g) who). gm_subscription m = subscription \<and> gm_protocols m = protocols \<and> gm_rejoined m)")
  case True
  then show thesis by (intro retry) (auto simp: join_group_def Let_def)
next
  case False
  let ?g1 = "if cg_state g = PreparingRebalance then g else beginRebalance g"
  have "(if cg_state g = Stable \<or> cg_state g = GroupEmpty \<or> cg_state g = CompletingRebalance
      then beginRebalance g else g) = ?g1"
    by (cases "cg_state g") auto
  with False show thesis by (intro rejoin [OF refl refl refl]) (simp_all only: join_group_def Let_def if_False fst_conv snd_conv)
qed

lemma join_group_ok:
  assumes "group_ok g"
  shows "group_ok (snd (join_group who clientId subscription protocols timeout now g))"
    "fst ` set (cg_members (snd (join_group who clientId subscription protocols timeout now g))) =
      insert who (fst ` set (cg_members g))"
    "cg_id (snd (join_group who clientId subscription protocols timeout now g)) = cg_id g"
proof (atomize (full), cases rule: join_group_cases [of g who subscription protocols clientId timeout now])
  case (retry m)
  then have "who \<in> fst ` set (cg_members g)" by (simp add: map_of_key)
  with retry group_ok_touch [OF assms retry(1), of "m\<lparr>gm_lastHeartbeatMs := now\<rparr>"]
  show "group_ok (snd (join_group who clientId subscription protocols timeout now g)) \<and>
    fst ` set (cg_members (snd (join_group who clientId subscription protocols timeout now g))) =
      insert who (fst ` set (cg_members g)) \<and>
    cg_id (snd (join_group who clientId subscription protocols timeout now g)) = cg_id g"
    by (simp add: insert_absorb)
next
  case (rejoin g1 old member)
  have g1: "member_table_ok (cg_members g1)" "cg_state g1 = PreparingRebalance" "0 \<le> cg_generation g1"
      "fst ` set (cg_members g1) = fst ` set (cg_members g)" "cg_id g1 = cg_id g"
    using assms rejoin(1) by (simp_all add: group_ok_def)
  have "gm_memberId member = who" using rejoin(3) by simp
  with g1 have "group_ok (maybeCompleteJoin (g1\<lparr>cg_members := set_at who member (cg_members g1)\<rparr>))"
    by (intro maybeCompleteJoin_ok) (simp_all add: member_table_set_at)
  with g1 rejoin(4)
  show "group_ok (snd (join_group who clientId subscription protocols timeout now g)) \<and>
    fst ` set (cg_members (snd (join_group who clientId subscription protocols timeout now g))) =
      insert who (fst ` set (cg_members g)) \<and>
    cg_id (snd (join_group who clientId subscription protocols timeout now g)) = cg_id g"
    by simp
qed

lemma deal_assignments_Cons:
  "deal_assignments ((who, bytes) # as) ms = deal_assignments as (case map_of ms who of
     None \<Rightarrow> ms | Some m \<Rightarrow> set_at who (m\<lparr>gm_assignment := bytes\<rparr>) ms)"
  by (simp add: deal_assignments_def)

lemma deal_assignments_ok:
  "group_ok g \<Longrightarrow> group_ok (g\<lparr>cg_members := deal_assignments as (cg_members g)\<rparr>) \<and>
    map fst (deal_assignments as (cg_members g)) = map fst (cg_members g)"
proof (induction as arbitrary: g)
  case Nil
  then show ?case by (simp add: deal_assignments_def)
next
  case (Cons a as)
  obtain who bytes where a: "a = (who, bytes)" by (cases a)
  show ?case
  proof (cases "map_of (cg_members g) who")
    case None
    with Cons a show ?thesis by (simp add: deal_assignments_Cons)
  next
    case (Some m)
    let ?g = "g\<lparr>cg_members := set_at who (m\<lparr>gm_assignment := bytes\<rparr>) (cg_members g)\<rparr>"
    have "group_ok ?g" using group_ok_touch [OF Cons.prems Some] by simp
    moreover have "map fst (cg_members ?g) = map fst (cg_members g)"
      using set_at_keys_same [OF _ map_of_key [OF Some]] Cons.prems by (simp add: group_ok_def member_table_ok_def)
    ultimately show ?thesis using Cons.IH [of ?g] Some a by (simp add: deal_assignments_Cons)
  qed
qed

lemma leave_group_ok:
  assumes "member_table_ok ms" "group_ok g"
  shows "group_ok (maybeCompleteJoin (beginRebalance (g\<lparr>cg_members := ms\<rparr>)))"
  using assms by (intro maybeCompleteJoin_ok) (simp_all add: group_ok_def)

lemma member_table_filter: "member_table_ok ms \<Longrightarrow> member_table_ok (filter P ms)"
  by (auto simp: member_table_ok_def list_all_iff)

lemma expire_group_ok:
  assumes "group_ok g"
  shows "group_ok (snd (expire_group now g))" "cg_id (snd (expire_group now g)) = cg_id g"
    "fst ` set (cg_members (snd (expire_group now g))) \<subseteq> fst ` set (cg_members g)"
proof -
  let ?kept = "filter (\<lambda>(_, m). \<not> lapsed now m) (cg_members g)"
  have sub: "fst ` set ?kept \<subseteq> fst ` set (cg_members g)" by auto
  show "group_ok (snd (expire_group now g))"
  proof (cases "length (cg_members g) - length ?kept > 0")
    case True
    then show ?thesis
      using leave_group_ok [OF member_table_filter [OF group_ok_tableD [OF assms]] assms]
      by (simp add: expire_group_def Let_def)
  next
    case False
    then have "?kept = cg_members g"
      using length_filter_less [of _ "cg_members g" "\<lambda>(_, m). \<not> lapsed now m"] by (intro filter_True) fastforce
    then show ?thesis using assms by (simp add: expire_group_def)
  qed
  show "cg_id (snd (expire_group now g)) = cg_id g" by (simp add: expire_group_def Let_def)
  show "fst ` set (cg_members (snd (expire_group now g))) \<subseteq> fst ` set (cg_members g)"
    using sub by (simp add: expire_group_def Let_def)
qed

subsection \<open>Every state a coordinator can reach\<close>

inductive gc_step :: "group_coordinator \<Rightarrow> group_coordinator \<Rightarrow> bool" where
  step_join: "gc_step gc (snd (join groupId memberId clientId subscription protocols timeout now gc))"
| step_sync: "gc_step gc (snd (sync groupId memberId generation assignments now gc))"
| step_heartbeat: "gc_step gc (snd (heartbeat groupId memberId generation now gc))"
| step_leave: "gc_step gc (snd (leave groupId memberId now gc))"
| step_expire: "gc_step gc (snd (expire now gc))"

definition gc_reach :: "group_coordinator \<Rightarrow> bool" where
  "gc_reach gc \<longleftrightarrow> gc_step\<^sup>*\<^sup>* GroupCoordinator gc"

text \<open>A member id the coordinator has given out before its counter reached \<open>n\<close>.\<close>

definition issued :: "int \<Rightarrow> string \<Rightarrow> bool" where
  "issued n k \<longleftrightarrow> (\<exists>clientId i. k = clientId @ ''-'' @ to_string i \<and> 1 \<le> i \<and> i < n)"

definition member_ids :: "consumer_group \<Rightarrow> string set" where
  "member_ids g = fst ` set (cg_members g)"

definition entry_ok :: "int \<Rightarrow> string \<Rightarrow> consumer_group \<Rightarrow> bool" where
  "entry_ok n groupId g \<longleftrightarrow> groupId \<noteq> [] \<and> cg_id g = groupId \<and> group_ok g \<and> (\<forall>k \<in> member_ids g. issued n k)"

definition coordinator_ok :: "group_coordinator \<Rightarrow> bool" where
  "coordinator_ok gc \<longleftrightarrow> keys_sorted (gc_groups gc) \<and> 1 \<le> gc_nextMemberId gc \<and>
     (\<forall>groupId g. (groupId, g) \<in> set (gc_groups gc) \<longrightarrow> entry_ok (gc_nextMemberId gc) groupId g) \<and>
     (\<forall>a g b h. (a, g) \<in> set (gc_groups gc) \<longrightarrow> (b, h) \<in> set (gc_groups gc) \<longrightarrow> a \<noteq> b \<longrightarrow>
        member_ids g \<inter> member_ids h = {})"

lemma issued_mono: "issued n k \<Longrightarrow> n \<le> n' \<Longrightarrow> issued n' k"
  by (fastforce simp: issued_def)

lemma issued_next: "1 \<le> n \<Longrightarrow> issued (n + 1) (clientId @ ''-'' @ to_string n)"
  unfolding issued_def by (intro exI [of _ clientId] exI [of _ n]) simp

lemma not_issued_next: "1 \<le> n \<Longrightarrow> \<not> issued n (clientId @ ''-'' @ to_string n)"
proof
  assume n: "1 \<le> n" and "issued n (clientId @ ''-'' @ to_string n)"
  then obtain c i where c: "clientId @ ''-'' @ to_string n = c @ ''-'' @ to_string i" "1 \<le> i" "i < n"
    unfolding issued_def by blast
  have dash: "CHR ''-'' \<notin> set (decimal k)" for k using dash_not_in_digits decimal_digits by blast
  have "rfind_dash (clientId @ CHR ''-'' # decimal (nat n)) = Some (length clientId)"
    "rfind_dash (c @ CHR ''-'' # decimal (nat i)) = Some (length c)"
    by (rule rfind_dash_append [OF dash])+
  moreover have eq: "clientId @ CHR ''-'' # decimal (nat n) = c @ CHR ''-'' # decimal (nat i)"
    using c n by (simp add: to_string_def)
  ultimately have "length clientId = length c" by simp
  with eq have "decimal (nat n) = decimal (nat i)" by simp
  then have "nat n = nat i" by (metis parse_decimal_decimal)
  with c n show False by simp
qed

lemma coordinator_okD:
  assumes "coordinator_ok gc"
  shows "keys_sorted (gc_groups gc)" "1 \<le> gc_nextMemberId gc"
    "map_of (gc_groups gc) groupId = Some g \<Longrightarrow> entry_ok (gc_nextMemberId gc) groupId g"
  using assms unfolding coordinator_ok_def by (blast dest: map_of_SomeD)+

text \<open>Replacing one group: its members were there before or have just been given their id.\<close>

lemma coordinator_ok_put:
  assumes "coordinator_ok gc" "gc_nextMemberId gc \<le> n" "entry_ok n groupId g'"
    and "\<And>k. k \<in> member_ids g' \<Longrightarrow> issued (gc_nextMemberId gc) k \<Longrightarrow>
      \<exists>g. map_of (gc_groups gc) groupId = Some g \<and> k \<in> member_ids g"
  shows "coordinator_ok (gc\<lparr>gc_groups := set_at groupId g' (gc_groups gc), gc_nextMemberId := n\<rparr>)"
proof -
  note ok = coordinator_okD [OF assms(1)]
  note mem = set_at_mem [OF ok(1)]
  have old: "entry_ok (gc_nextMemberId gc) b h" if "(b, h) \<in> set (gc_groups gc)" for b h
    using assms(1) that unfolding coordinator_ok_def by blast
  then have old_n: "entry_ok n b h" if "(b, h) \<in> set (gc_groups gc)" for b h
    using that assms(2) issued_mono unfolding entry_ok_def by blast
  have pairs: "member_ids g \<inter> member_ids h = {}"
    if "(a, g) \<in> set (gc_groups gc)" "(b, h) \<in> set (gc_groups gc)" "a \<noteq> b" for a b g h
    using assms(1) that unfolding coordinator_ok_def by blast
  have apart: "member_ids g' \<inter> member_ids h = {}" if h: "(b, h) \<in> set (gc_groups gc)" "b \<noteq> groupId" for b h
  proof (rule ccontr)
    assume "member_ids g' \<inter> member_ids h \<noteq> {}"
    then obtain k where k: "k \<in> member_ids g'" "k \<in> member_ids h" by blast
    have "issued (gc_nextMemberId gc) k" using old [OF h(1)] k(2) by (simp add: entry_ok_def)
    from assms(4) [OF k(1) this] obtain g where "(groupId, g) \<in> set (gc_groups gc)" "k \<in> member_ids g"
      by (blast dest: map_of_SomeD)
    with pairs [OF _ h(1)] h(2) k(2) show False by blast
  qed
  let ?gs = "set_at groupId g' (gc_groups gc)"
  have "entry_ok n a g" if "(a, g) \<in> set ?gs" for a g
    using that assms(3) old_n by (simp add: mem split: if_splits)
  moreover have "member_ids g \<inter> member_ids h = {}" if m: "(a, g) \<in> set ?gs" "(b, h) \<in> set ?gs" "a \<noteq> b" for a b g h
  proof -
    consider "a = groupId" "g = g'" "(b, h) \<in> set (gc_groups gc)" | "b = groupId" "h = g'" "(a, g) \<in> set (gc_groups gc)"
      | "(a, g) \<in> set (gc_groups gc)" "(b, h) \<in> set (gc_groups gc)"
      using m by (auto simp: mem split: if_splits)
    then show ?thesis
    proof cases
      case 1 then show ?thesis using apart m(3) by blast
    next
      case 2 then show ?thesis using apart [of a g] m(3) by blast
    next
      case 3 then show ?thesis using pairs m(3) by blast
    qed
  qed
  moreover have "1 \<le> n" "keys_sorted ?gs" using ok(1,2) assms(2) by simp_all
  ultimately show ?thesis unfolding coordinator_ok_def by simp
qed

lemma coordinator_ok_touch:
  assumes "coordinator_ok gc" "map_of (gc_groups gc) groupId = Some g"
    and "group_ok g'" "cg_id g' = cg_id g" "member_ids g' \<subseteq> member_ids g"
  shows "coordinator_ok (put_group groupId g' gc)"
proof -
  have "entry_ok (gc_nextMemberId gc) groupId g'"
    using coordinator_okD(3) [OF assms(1,2)] assms(3-5) by (auto simp: entry_ok_def)
  from coordinator_ok_put [OF assms(1) order_refl this] assms(2,5) show ?thesis
    by (auto simp: put_group_def)
qed

lemma coordinator_ok_shrink:
  assumes "coordinator_ok gc" "keys_sorted groups"
    and "\<And>groupId g'. (groupId, g') \<in> set groups \<Longrightarrow> \<exists>g. (groupId, g) \<in> set (gc_groups gc) \<and> cg_id g' = cg_id g \<and>
      group_ok g' \<and> member_ids g' \<subseteq> member_ids g"
  shows "coordinator_ok (gc\<lparr>gc_groups := groups\<rparr>)"
proof -
  have old: "entry_ok (gc_nextMemberId gc) b h" if "(b, h) \<in> set (gc_groups gc)" for b h
    using assms(1) that unfolding coordinator_ok_def by blast
  have "member_ids g \<inter> member_ids h = {}" if gh: "(a, g) \<in> set groups" "(b, h) \<in> set groups" "a \<noteq> b" for a b g h
  proof -
    obtain g0 h0 where "(a, g0) \<in> set (gc_groups gc)" "(b, h0) \<in> set (gc_groups gc)"
        "member_ids g \<subseteq> member_ids g0" "member_ids h \<subseteq> member_ids h0"
      using assms(3) gh(1,2) by meson
    moreover have "member_ids g0 \<inter> member_ids h0 = {}"
      using assms(1) calculation(1,2) gh(3) unfolding coordinator_ok_def by blast
    ultimately show ?thesis by blast
  qed
  moreover have "entry_ok (gc_nextMemberId gc) groupId g'" if "(groupId, g') \<in> set groups" for groupId g'
    using assms(3) [OF that] old unfolding entry_ok_def by blast
  ultimately show ?thesis using coordinator_okD(2) [OF assms(1)] assms(2) unfolding coordinator_ok_def by simp
qed

lemma put_group_simps [simp]:
  "map_of (gc_groups (put_group groupId g gc)) = (map_of (gc_groups gc))(groupId \<mapsto> g)"
  "gc_nextMemberId (put_group groupId g gc) = gc_nextMemberId gc"
  by (simp_all add: put_group_def)

lemma groupFor_ok:
  assumes "coordinator_ok gc" "groupId \<noteq> []"
  shows "entry_ok (gc_nextMemberId gc) groupId (groupFor groupId gc)"
    "coordinator_ok (put_group groupId (groupFor groupId gc) gc)"
proof -
  show entry: "entry_ok (gc_nextMemberId gc) groupId (groupFor groupId gc)"
  proof (cases "map_of (gc_groups gc) groupId")
    case None
    then show ?thesis
      using assms(2) by (simp add: groupFor_def entry_ok_def group_ok_def member_table_ok_def member_ids_def)
  next
    case (Some g)
    then show ?thesis using coordinator_okD(3) [OF assms(1)] by (simp add: groupFor_def)
  qed
  have "coordinator_ok (gc\<lparr>gc_groups := set_at groupId (groupFor groupId gc) (gc_groups gc), gc_nextMemberId := gc_nextMemberId gc\<rparr>)"
    by (rule coordinator_ok_put [OF assms(1) order_refl entry])
      (auto simp: groupFor_def member_ids_def split: option.splits)
  then show "coordinator_ok (put_group groupId (groupFor groupId gc) gc)" by (simp add: put_group_def)
qed

text \<open>A join that passes its guards acts on one group.\<close>

definition join_id :: "string \<Rightarrow> string \<Rightarrow> group_coordinator \<Rightarrow> string" where
  "join_id memberId clientId gc =
    (if memberId = [] then clientId @ ''-'' @ to_string (gc_nextMemberId gc) else memberId)"

lemma set_at_twice: "set_at k v (set_at k u m) = set_at k v m"
  by (induction k u m rule: set_at.induct) auto

lemma join_effect:
  obtains (refused) "snd (join groupId memberId clientId subscription protocols timeout now gc) = gc \<or>
      groupId \<noteq> [] \<and> snd (join groupId memberId clientId subscription protocols timeout now gc) =
        put_group groupId (groupFor groupId gc) gc"
  | (joined) "groupId \<noteq> []" "memberId = [] \<or> map_of (cg_members (groupFor groupId gc)) memberId \<noteq> None"
      "fst (join groupId memberId clientId subscription protocols timeout now gc) =
        fst (join_group (join_id memberId clientId gc) clientId subscription protocols timeout now (groupFor groupId gc))"
      "snd (join groupId memberId clientId subscription protocols timeout now gc) =
        gc\<lparr>gc_groups := set_at groupId (snd (join_group (join_id memberId clientId gc) clientId subscription protocols
             timeout now (groupFor groupId gc))) (gc_groups gc),
           gc_nextMemberId := gc_nextMemberId gc + (if memberId = [] then 1 else 0)\<rparr>"
proof (cases "groupId = [] \<or> memberId \<noteq> [] \<and> map_of (cg_members (groupFor groupId gc)) memberId = None")
  case True
  then show thesis by (intro refused) (auto simp: join_def Let_def)
next
  case False
  then show thesis
    by (intro joined) (auto simp: join_def Let_def join_id_def put_group_def case_prod_unfold set_at_twice)
qed

lemma join_ok:
  assumes "coordinator_ok gc"
  shows "coordinator_ok (snd (join groupId memberId clientId subscription protocols timeout now gc))"
proof (cases rule: join_effect [of groupId memberId clientId subscription protocols timeout now gc])
  case refused
  then show ?thesis using assms groupFor_ok(2) [OF assms] by auto
next
  case joined
  let ?g = "groupFor groupId gc" and ?who = "join_id memberId clientId gc"
    and ?n = "gc_nextMemberId gc + (if memberId = [] then 1 else 0)"
  let ?g' = "snd (join_group ?who clientId subscription protocols timeout now ?g)"
  have g: "entry_ok (gc_nextMemberId gc) groupId ?g" using groupFor_ok(1) [OF assms joined(1)] .
  note j = join_group_ok [of ?g ?who clientId subscription protocols timeout now]
  have ids: "member_ids ?g' = insert ?who (member_ids ?g)" using g j(2) by (simp add: entry_ok_def member_ids_def)
  have pos: "1 \<le> gc_nextMemberId gc" using coordinator_okD(2) [OF assms] .
  have who: "issued ?n ?who"
    using joined(2) g issued_next [OF pos, of clientId]
    by (auto simp: join_id_def entry_ok_def member_ids_def dest: map_of_key)
  have "entry_ok ?n groupId ?g'"
    using g j(1,3) ids who issued_mono [of "gc_nextMemberId gc" _ ?n] unfolding entry_ok_def by auto
  moreover have "\<exists>g. map_of (gc_groups gc) groupId = Some g \<and> k \<in> member_ids g"
    if k: "k \<in> member_ids ?g'" "issued (gc_nextMemberId gc) k" for k
  proof -
    have "k \<in> member_ids ?g"
      using k ids joined(2) not_issued_next [OF pos, of clientId]
      by (auto simp: join_id_def member_ids_def dest: map_of_key split: if_splits)
    then show ?thesis by (auto simp: groupFor_def member_ids_def split: option.splits)
  qed
  ultimately show ?thesis unfolding joined(4) by (intro coordinator_ok_put [OF assms]) auto
qed

text \<open>The same for a sync and for a heartbeat.\<close>

lemma sync_effect:
  obtains (refused) "snd (sync groupId memberId generation assignments now gc) = gc"
      "sr_error (fst (sync groupId memberId generation assignments now gc)) \<noteq> EC_None"
  | (touched) g m g' where "map_of (gc_groups gc) groupId = Some g" "map_of (cg_members g) memberId = Some m"
      "generation = cg_generation g" "cg_state g \<noteq> PreparingRebalance"
      "g' = g\<lparr>cg_members := set_at memberId (m\<lparr>gm_lastHeartbeatMs := now\<rparr>) (cg_members g)\<rparr>"
      "snd (sync groupId memberId generation assignments now gc) = put_group groupId g' gc"
      "if cg_state g = CompletingRebalance
       then memberId \<noteq> cg_leaderId g \<and> sr_error (fst (sync groupId memberId generation assignments now gc)) \<noteq> EC_None
       else fst (sync groupId memberId generation assignments now gc) = \<lparr>sr_error = EC_None, sr_assignment = gm_assignment m\<rparr>"
  | (dealt) g m g' where "map_of (gc_groups gc) groupId = Some g" "map_of (cg_members g) memberId = Some m"
      "generation = cg_generation g" "cg_state g = CompletingRebalance" "memberId = cg_leaderId g"
      "g' = g\<lparr>cg_members := deal_assignments assignments
          (set_at memberId (m\<lparr>gm_lastHeartbeatMs := now\<rparr>) (cg_members g)), cg_state := Stable\<rparr>"
      "snd (sync groupId memberId generation assignments now gc) = put_group groupId g' gc"
      "fst (sync groupId memberId generation assignments now gc) =
        \<lparr>sr_error = EC_None, sr_assignment = (case map_of (cg_members g') memberId of None \<Rightarrow> [] | Some m \<Rightarrow> gm_assignment m)\<rparr>"
proof (cases "map_of (gc_groups gc) groupId")
  case None
  then show thesis by (intro refused) (simp_all add: sync_def sync_failed_def)
next
  case (Some g)
  show thesis
  proof (cases "map_of (cg_members g) memberId")
    case None
    with Some show thesis by (intro refused) (simp_all add: sync_def sync_failed_def)
  next
    case m: (Some m)
    consider "generation \<noteq> cg_generation g \<or> cg_state g = PreparingRebalance"
      | "generation = cg_generation g" "cg_state g = CompletingRebalance" "memberId = cg_leaderId g"
      | "generation = cg_generation g" "cg_state g \<noteq> PreparingRebalance" "\<not> (cg_state g = CompletingRebalance \<and> memberId = cg_leaderId g)"
      by blast
    then show thesis
    proof cases
      case 1
      with Some m show thesis by (intro refused) (auto simp: sync_def sync_failed_def)
    next
      case 2
      with Some m show thesis by (intro dealt [OF Some m 2 refl]) (simp_all add: sync_def Let_def)
    next
      case 3
      with Some m show thesis by (intro touched [OF Some m 3(1,2) refl]) (simp_all add: sync_def sync_failed_def Let_def)
    qed
  qed
qed

lemma touch_heartbeat_ok:
  assumes "coordinator_ok gc" "map_of (gc_groups gc) groupId = Some g" "map_of (cg_members g) memberId = Some m"
    and "g' = g\<lparr>cg_members := set_at memberId (m\<lparr>gm_lastHeartbeatMs := now\<rparr>) (cg_members g)\<rparr>"
  shows "group_ok g'" "member_ids g' = member_ids g" "cg_id g' = cg_id g"
  using coordinator_okD(3) [OF assms(1,2)] group_ok_touch [OF _ assms(3)] map_of_key [OF assms(3)]
  by (auto simp: assms(4) entry_ok_def member_ids_def)

lemma sync_ok:
  assumes "coordinator_ok gc"
  shows "coordinator_ok (snd (sync groupId memberId generation assignments now gc))"
proof (cases rule: sync_effect [of groupId memberId generation assignments now gc])
  case refused
  then show ?thesis using assms by simp
next
  case (touched g m g')
  note t = touch_heartbeat_ok [OF assms touched(1,2,5)]
  show ?thesis unfolding touched(6) using t by (intro coordinator_ok_touch [OF assms touched(1)]) simp_all
next
  case (dealt g m g')
  let ?g = "g\<lparr>cg_members := set_at memberId (m\<lparr>gm_lastHeartbeatMs := now\<rparr>) (cg_members g)\<rparr>"
  note t = touch_heartbeat_ok [OF assms dealt(1,2) refl, of now]
  have d: "group_ok (?g\<lparr>cg_members := deal_assignments assignments (cg_members ?g)\<rparr>)"
    "fst ` set (deal_assignments assignments (cg_members ?g)) = fst ` set (cg_members ?g)"
    using deal_assignments_ok [OF t(1), of assignments] by (blast, metis list.set_map)
  have "group_ok g'" using d(1) dealt(4,6) by (simp add: group_ok_def settled_ok_def)
  then show ?thesis
    unfolding dealt(7) using d(2) t(2,3) dealt(6)
    by (intro coordinator_ok_touch [OF assms dealt(1)]) (simp_all add: member_ids_def)
qed

lemma heartbeat_effect:
  obtains (refused) "snd (heartbeat groupId memberId generation now gc) = gc"
      "fst (heartbeat groupId memberId generation now gc) \<noteq> EC_None"
  | (alive) g m where "map_of (gc_groups gc) groupId = Some g" "map_of (cg_members g) memberId = Some m"
      "generation = cg_generation g" "cg_state g \<noteq> PreparingRebalance"
      "snd (heartbeat groupId memberId generation now gc) = put_group groupId
        (g\<lparr>cg_members := set_at memberId (m\<lparr>gm_lastHeartbeatMs := now\<rparr>) (cg_members g)\<rparr>) gc"
      "fst (heartbeat groupId memberId generation now gc) = EC_None"
proof (cases "\<exists>g m. map_of (gc_groups gc) groupId = Some g \<and> map_of (cg_members g) memberId = Some m \<and>
    generation = cg_generation g \<and> cg_state g \<noteq> PreparingRebalance")
  case True
  then show thesis by (elim exE, intro alive) (auto simp: heartbeat_def)
next
  case False
  then show thesis by (intro refused) (auto simp: heartbeat_def split: option.split)
qed

lemma heartbeat_ok:
  assumes "coordinator_ok gc"
  shows "coordinator_ok (snd (heartbeat groupId memberId generation now gc))"
proof (cases rule: heartbeat_effect [of groupId memberId generation now gc])
  case (alive g m)
  show ?thesis
    unfolding alive(5) using touch_heartbeat_ok [OF assms alive(1,2) refl, of now]
    by (intro coordinator_ok_touch [OF assms alive(1)]) simp_all
qed (use assms in simp)

lemma leave_effect:
  obtains (refused) "snd (leave groupId memberId now gc) = gc"
  | (left_group) g g' where "map_of (gc_groups gc) groupId = Some g" "memberId \<in> member_ids g"
      "g' = maybeCompleteJoin (beginRebalance (g\<lparr>cg_members := erase_at memberId (cg_members g)\<rparr>))"
      "snd (leave groupId memberId now gc) = (if cg_members g' = [] then gc\<lparr>gc_groups := erase_at groupId (gc_groups gc)\<rparr>
        else put_group groupId g' gc)"
proof (cases "\<exists>g. map_of (gc_groups gc) groupId = Some g \<and> map_of (cg_members g) memberId \<noteq> None")
  case True
  then obtain g m where g: "map_of (gc_groups gc) groupId = Some g" "map_of (cg_members g) memberId = Some m" by auto
  then have "memberId \<in> member_ids g" by (simp add: member_ids_def map_of_key)
  with g show thesis by (intro left_group [OF g(1) _ refl]) (simp_all add: leave_def Let_def)
next
  case False
  then show thesis by (intro refused) (auto simp: leave_def split: option.split)
qed

lemma member_table_erase_at:
  "member_table_ok ms \<Longrightarrow> member_table_ok (erase_at k ms)"
  "member_table_ok ms \<Longrightarrow> fst ` set (erase_at k ms) \<subseteq> fst ` set ms"
  using member_table_filter [of ms "\<lambda>(j, _). j \<noteq> k"] by (auto simp: member_table_ok_def erase_at_filter)

lemma leave_ok:
  assumes "coordinator_ok gc"
  shows "coordinator_ok (snd (leave groupId memberId now gc))"
proof (cases rule: leave_effect [of groupId memberId now gc])
  case (left_group g g')
  note sorted = coordinator_okD(1) [OF assms]
  have g: "group_ok g" using coordinator_okD(3) [OF assms left_group(1)] by (simp add: entry_ok_def)
  then have table: "member_table_ok (cg_members g)" by (rule group_ok_tableD)
  have g': "group_ok g'" "cg_id g' = cg_id g" "member_ids g' \<subseteq> member_ids g"
    unfolding left_group(3)
    using leave_group_ok [OF member_table_erase_at(1) [OF table] g] member_table_erase_at(2) [OF table, of memberId]
    by (simp_all add: member_ids_def)
  show ?thesis
  proof (cases "cg_members g' = []")
    case True
    have "coordinator_ok (gc\<lparr>gc_groups := erase_at groupId (gc_groups gc)\<rparr>)"
    proof (rule coordinator_ok_shrink [OF assms])
      fix a h assume "(a, h) \<in> set (erase_at groupId (gc_groups gc))"
      then have "(a, h) \<in> set (gc_groups gc)" using sorted by (simp add: erase_at_filter)
      moreover from this have "group_ok h" using assms unfolding coordinator_ok_def entry_ok_def by blast
      ultimately show "\<exists>g. (a, g) \<in> set (gc_groups gc) \<and> cg_id h = cg_id g \<and> group_ok h \<and> member_ids h \<subseteq> member_ids g"
        by blast
    qed (use sorted in simp)
    with True left_group(4) show ?thesis by simp
  next
    case False
    with left_group(4) coordinator_ok_touch [OF assms left_group(1) g'] show ?thesis by simp
  qed
qed (use assms in simp)

lemma expire_groups:
  "gc_groups (snd (expire now gc)) =
    filter (\<lambda>(_, g). cg_members g \<noteq> []) (map (\<lambda>(groupId, g). (groupId, snd (expire_group now g))) (gc_groups gc))"
  "gc_nextMemberId (snd (expire now gc)) = gc_nextMemberId gc"
  by (simp_all add: expire_def Let_def comp_def case_prod_unfold)

lemma expire_ok:
  assumes "coordinator_ok gc"
  shows "coordinator_ok (snd (expire now gc))"
proof -
  let ?groups = "filter (\<lambda>(_, g). cg_members g \<noteq> []) (map (\<lambda>(groupId, g). (groupId, snd (expire_group now g))) (gc_groups gc))"
  have "coordinator_ok (gc\<lparr>gc_groups := ?groups\<rparr>)"
  proof (rule coordinator_ok_shrink [OF assms])
    show "keys_sorted ?groups" using coordinator_okD(1) [OF assms] by simp
  next
    fix a g' assume "(a, g') \<in> set ?groups"
    then obtain g where g: "(a, g) \<in> set (gc_groups gc)" "g' = snd (expire_group now g)" by auto
    then have "group_ok g" using assms unfolding coordinator_ok_def entry_ok_def by blast
    from expire_group_ok [OF this, of now] g
    show "\<exists>g. (a, g) \<in> set (gc_groups gc) \<and> cg_id g' = cg_id g \<and> group_ok g' \<and> member_ids g' \<subseteq> member_ids g"
      by (auto simp: member_ids_def)
  qed
  moreover have "snd (expire now gc) = gc\<lparr>gc_groups := ?groups\<rparr>"
    by (simp add: expire_def Let_def comp_def case_prod_unfold)
  ultimately show ?thesis by simp
qed

lemma gc_step_ok: "gc_step gc gc' \<Longrightarrow> coordinator_ok gc \<Longrightarrow> coordinator_ok gc'"
  by (induction rule: gc_step.induct) (simp_all add: join_ok sync_ok heartbeat_ok leave_ok expire_ok)

lemma gc_steps_ok: "gc_step\<^sup>*\<^sup>* gc gc' \<Longrightarrow> coordinator_ok gc \<Longrightarrow> coordinator_ok gc'"
  by (induction rule: rtranclp_induct) (simp_all add: gc_step_ok)

lemma GroupCoordinator_ok: "coordinator_ok GroupCoordinator"
  by (simp add: GroupCoordinator_def coordinator_ok_def)

lemma gc_reach_ok: "gc_reach gc \<Longrightarrow> coordinator_ok gc"
  using gc_steps_ok GroupCoordinator_ok unfolding gc_reach_def by blast

end
