(* ===== verification/Handlers.thy ===== *)
theory Handlers
  imports Group_Apis Response Offset_Store Group_Coordinator
begin

text \<open>
  \<^verbatim>\<open>server/handlers.cpp\<close> and \<^verbatim>\<open>server/broker_context.hpp\<close>: what a broker does with each request. A handler
  reads the body, changes the broker's state and adds its answer to the response; an exception leaves
  the changes made before it. The wall clock does not move within a request.
\<close>

subsection \<open>Context\<close>

record broker =
  bk_logs :: log_manager
  bk_groups :: group_coordinator
  bk_offsets :: offset_store
  bk_offsetsPartitions :: int
  bk_nodeId :: int
  bk_advertisedHost :: string
  bk_advertisedPort :: int

record request_context =
  rc_header :: request_header
  rc_body :: reader
  rc_frame :: "byte list"
  rc_now :: int

type_synonym handler = "request_context \<Rightarrow> response \<Rightarrow> broker \<Rightarrow> response result \<times> broker"

definition kUnknownOffset :: int where
  "kUnknownOffset = - 1"

definition reply :: "('a \<Rightarrow> writer \<Rightarrow> writer result) \<Rightarrow> 'a \<Rightarrow> response \<Rightarrow> response result" where
  "reply encoder message out = bind_r (bytes_of (encoder message)) (\<lambda>bytes. Inr (append_buffer bytes out))"

text \<open>Decode the body, compute the answer and the new state, encode the answer.\<close>

definition handling ::
  "(reader \<Rightarrow> ('q \<times> reader) result) \<Rightarrow> ('q \<Rightarrow> broker \<Rightarrow> 'a result \<times> broker) \<Rightarrow> ('a \<Rightarrow> response \<Rightarrow> response result) \<Rightarrow> handler" where
  "handling decode serve answer rc out bk = (case decode (rc_body rc) of
      Inl e \<Rightarrow> (Inl e, bk)
    | Inr (q, _) \<Rightarrow> (let (a, bk) = serve q bk in (bind_r a (\<lambda>a. answer a out), bk)))"

text \<open>One answer per element, the state handed on from one to the next.\<close>

fun map_state :: "('a \<Rightarrow> 's \<Rightarrow> 'b \<times> 's) \<Rightarrow> 'a list \<Rightarrow> 's \<Rightarrow> 'b list \<times> 's" where
  "map_state f [] s = ([], s)"
| "map_state f (x # xs) s = (let (y, s) = f x s; (ys, s) = map_state f xs s in (y # ys, s))"

lemma map_state_const: "map_state (\<lambda>x s. (f x, s)) xs s = (map f xs, s)"
  by (induction xs) simp_all

text \<open>What every step keeps for what was answered before it, and what it costs of what is left.\<close>

lemma map_state_rel:
  assumes step: "\<And>x k s y s'. x \<in> set xs \<Longrightarrow> Inv (c x + k) s \<Longrightarrow> f x s = (y, s') \<Longrightarrow> Inv k s' \<and> R s s' \<and> Q x y s'"
    and R: "\<And>s. R s s" "\<And>s t u. R s t \<Longrightarrow> R t u \<Longrightarrow> R s u"
    and stable: "\<And>x y s s'. Q x y s \<Longrightarrow> R s s' \<Longrightarrow> Q x y s'"
    and run: "Inv (sum_list (map c xs) + k) s" "map_state f xs s = (ys, s')"
  shows "Inv k s' \<and> R s s' \<and> list_all2 (\<lambda>x y. Q x y s') xs ys"
  using step run
proof (induction xs arbitrary: s ys)
  case Nil
  then show ?case using R(1) by simp
next
  case (Cons x xs)
  obtain y s1 zs where f: "f x s = (y, s1)" "map_state f xs s1 = (zs, s')" "ys = y # zs"
    using Cons.prems(3) by (auto simp: Let_def split: prod.splits)
  have 1: "Inv (sum_list (map c xs) + k) s1 \<and> R s s1 \<and> Q x y s1"
    using Cons.prems(1) [OF _ _ f(1), of "sum_list (map c xs) + k"] Cons.prems(2) by (simp add: add.assoc)
  have 2: "Inv k s' \<and> R s1 s' \<and> list_all2 (\<lambda>x y. Q x y s') xs zs"
  proof (rule Cons.IH)
    show "Inv k s' \<and> R s s' \<and> Q a y s'" if "a \<in> set xs" "Inv (c a + k) s" "f a s = (y, s')" for a k s y s'
      using Cons.prems(1) that by (meson list.set_intros(2))
  qed (use 1 f(2) in auto)
  have "R s s'" using 1 2 R(2) by blast
  moreover have "Q x y s'" using 1 2 stable by blast
  ultimately show ?case using 2 f(3) by simp
qed

subsection \<open>List offsets\<close>

definition listed_partition :: "log_manager \<Rightarrow> string \<Rightarrow> list_offsets_asked \<Rightarrow> listed_offset" where
  "listed_partition logs topic asked =
    (let result = \<lparr>lo_partition = loa_partition asked, lo_error = EC_None, lo_offset = 0\<rparr> in
     case lm_get logs \<lparr>tp_topic = topic, tp_partition = loa_partition asked\<rparr> of
       None \<Rightarrow> result\<lparr>lo_error := EC_NotLeaderForPartition\<rparr>
     | Some l \<Rightarrow>
         if loa_timestamp asked = kEarliestTimestamp then result\<lparr>lo_offset := logStartOffset l\<rparr>
         else if loa_timestamp asked = kLatestTimestamp then result\<lparr>lo_offset := lg_logEndOffset l\<rparr>
         else result\<lparr>lo_error := EC_Unknown\<rparr>)"

definition listed_offsets :: "list_offsets_request \<Rightarrow> broker \<Rightarrow> list_offsets_response" where
  "listed_offsets q bk = \<lparr>lop_topics = map (\<lambda>topic. \<lparr>lt_name = lot_name topic,
     lt_partitions = map (listed_partition (bk_logs bk) (lot_name topic)) (lot_partitions topic)\<rparr>) (loq_topics q)\<rparr>"

definition handleListOffsets :: handler where
  "handleListOffsets = handling decodeListOffsetsRequest (\<lambda>q bk. (Inr (listed_offsets q bk), bk)) (reply encodeListOffsetsResponse)"

subsection \<open>Metadata\<close>

text \<open>The hosted partitions grouped by topic, in the order of the names.\<close>

definition by_topic :: "topic_partition list \<Rightarrow> (string \<times> int list) list" where
  "by_topic hosted = fold (\<lambda>tp m. set_at (tp_topic tp)
     ((case map_of m (tp_topic tp) of None \<Rightarrow> [] | Some ps \<Rightarrow> ps) @ [tp_partition tp]) m) hosted []"

definition describe_topic :: "(string \<times> int list) list \<Rightarrow> int \<Rightarrow> string \<Rightarrow> topic_metadata" where
  "describe_topic byTopic nodeId name = (case map_of byTopic name of
      None \<Rightarrow> \<lparr>tm_error = EC_UnknownTopicOrPartition, tm_name = name, tm_partitions = []\<rparr>
    | Some ps \<Rightarrow> \<lparr>tm_error = EC_None, tm_name = name, tm_partitions =
        map (\<lambda>p. \<lparr>pm_md_error = EC_None, pm_md_partition = p, pm_md_leader = nodeId\<rparr>) ps\<rparr>)"

definition internal_topic :: "string \<Rightarrow> bool" where
  "internal_topic name \<longleftrightarrow> take 2 name = ''__''"

definition broker_metadata :: "metadata_request \<Rightarrow> broker \<Rightarrow> metadata_response" where
  "broker_metadata q bk =
    (let byTopic = by_topic (hostedPartitions (bk_logs bk));
         names = (if mq_allTopics q then filter (\<lambda>name. \<not> internal_topic name) (map fst byTopic) else mq_topics q)
     in \<lparr>mp_brokers = [\<lparr>bi_nodeId = bk_nodeId bk, bi_host = bk_advertisedHost bk, bi_port = bk_advertisedPort bk\<rparr>],
         mp_controllerId = - 1, mp_topics = map (describe_topic byTopic (bk_nodeId bk)) names\<rparr>)"

definition handleMetadata :: handler where
  "handleMetadata = handling decodeMetadataRequest (\<lambda>q bk. (Inr (broker_metadata q bk), bk)) (reply encodeMetadataResponse)"

subsection \<open>Create topic\<close>

definition topic_config :: "new_topic \<Rightarrow> log_config \<Rightarrow> log_config" where
  "topic_config asked defaults =
    (let retention = lc_retention defaults; roll = lc_roll defaults in
     defaults\<lparr>
       lc_retention := retention\<lparr>
         rt_retentionMs := (case nt_retentionMs asked of None \<Rightarrow> rt_retentionMs retention | Some ms \<Rightarrow> ms),
         rt_retentionBytes := (case nt_retentionBytes asked of None \<Rightarrow> rt_retentionBytes retention | Some n \<Rightarrow> Some (nat n))\<rparr>,
       lc_roll := roll\<lparr>
         rp_maxSegmentBytes := (case nt_maxSegmentBytes asked of None \<Rightarrow> rp_maxSegmentBytes roll | Some n \<Rightarrow> nat n)\<rparr>,
       lc_cleanup := (case nt_compact asked of None \<Rightarrow> lc_cleanup defaults | Some c \<Rightarrow> if c then Compact else Delete)\<rparr>)"

definition create_topic :: "new_topic \<Rightarrow> log_manager \<Rightarrow> created_topic \<times> log_manager" where
  "create_topic asked logs =
    (let name = nt_name asked; ps = [0..nt_partitionCount asked - 1]; result = \<lambda>e. \<lparr>ct_name = name, ct_error = e\<rparr> in
     if \<not> isUsableTopicName name \<or> nt_partitionCount asked < 1 then (result EC_InvalidTopic, logs)
     else if list_ex (\<lambda>p. lm_get logs \<lparr>tp_topic = name, tp_partition = p\<rparr> \<noteq> None) ps then (result EC_TopicAlreadyExists, logs)
     else case create_partitions name (topic_config asked (lm_defaults logs)) ps logs of
         (Inl _, logs) \<Rightarrow> (result EC_Unknown, logs)
       | (Inr _, logs) \<Rightarrow> (result EC_None, logs))"

definition handleCreateTopic :: handler where
  "handleCreateTopic = handling decodeCreateTopicRequest
     (\<lambda>q bk. let (results, logs) = map_state create_topic (ctq_topics q) (bk_logs bk)
       in (Inr \<lparr>ctp_topics = results\<rparr>, bk\<lparr>bk_logs := logs\<rparr>)) (reply encodeCreateTopicResponse)"

subsection \<open>Produce\<close>

text \<open>What an append leaves in the frame: the batch with its offset stamped, where the append came so far.\<close>

definition stamped_in_place :: "byte list \<Rightarrow> int \<Rightarrow> partition_log \<Rightarrow> byte list" where
  "stamped_in_place batch now l = (case log_maybeRoll now l of
      Inl _ \<Rightarrow> batch
    | Inr l \<Rightarrow> (case stampBaseOffset batch (lg_logEndOffset l) of Inl _ \<Rightarrow> batch | Inr stamped \<Rightarrow> stamped))"

definition write_at :: "nat \<Rightarrow> byte list \<Rightarrow> byte list \<Rightarrow> byte list" where
  "write_at off bs frame = take off frame @ bs @ drop (off + length bs) frame"

definition produce_code :: "error \<Rightarrow> error_code" where
  "produce_code e = (if e = CorruptData then EC_CorruptMessage else EC_Unknown)"

definition produce_one :: "int \<Rightarrow> string \<Rightarrow> produce_partition \<Rightarrow> byte list \<times> log_manager \<Rightarrow> produced \<times> byte list \<times> log_manager" where
  "produce_one now topic asked = (\<lambda>(frame, logs).
    (let tp = \<lparr>tp_topic = topic, tp_partition = pqp_partition asked\<rparr>;
         result = \<lparr>pd_partition = pqp_partition asked, pd_error = EC_None, pd_baseOffset = kUnknownOffset\<rparr>
     in case lm_get logs tp of
          None \<Rightarrow> (result\<lparr>pd_error := EC_NotLeaderForPartition\<rparr>, frame, logs)
        | Some l \<Rightarrow> (case bind_r (mutableBatch asked frame) (\<lambda>batch. bind_r (verifyCrc batch) (\<lambda>intact. Inr (batch, intact))) of
            Inl e \<Rightarrow> (result\<lparr>pd_error := produce_code e\<rparr>, frame, logs)
          | Inr (batch, intact) \<Rightarrow>
              if \<not> intact then (result\<lparr>pd_error := EC_CorruptMessage\<rparr>, frame, logs)
              else (let (r, l') = log_append batch now now l;
                        frame = write_at (pqp_batchOffsetInBody asked) (stamped_in_place batch now l) frame;
                        logs = lm_update tp l' logs
                    in case r of
                         Inl e \<Rightarrow> (result\<lparr>pd_error := produce_code e\<rparr>, frame, logs)
                       | Inr base \<Rightarrow> (result\<lparr>pd_baseOffset := base\<rparr>, frame, logs)))))"

definition produce_topic_answer :: "int \<Rightarrow> produce_topic \<Rightarrow> byte list \<times> log_manager \<Rightarrow> produced_topic \<times> byte list \<times> log_manager" where
  "produce_topic_answer now topic st =
    (let (results, st) = map_state (produce_one now (pqt_name topic)) (pqt_partitions topic) st
     in (\<lparr>pdt_name = pqt_name topic, pdt_partitions = results\<rparr>, st))"

definition produce_batches :: "int \<Rightarrow> byte list \<Rightarrow> produce_request \<Rightarrow> broker \<Rightarrow> produce_response \<times> broker" where
  "produce_batches now frame q bk =
    (let (answers, _, logs) = map_state (produce_topic_answer now) (pq_topics q) (frame, bk_logs bk)
     in (\<lparr>pp_topics = answers\<rparr>, bk\<lparr>bk_logs := logs\<rparr>))"

definition handleProduce :: handler where
  "handleProduce rc = handling decodeProduceRequest
     (\<lambda>q bk. let (answer, bk) = produce_batches (rc_now rc) (rc_frame rc) q bk in (Inr answer, bk)) (reply encodeProduceResponse) rc"

subsection \<open>Fetch\<close>

definition range_of :: "partition_log \<Rightarrow> read_result \<Rightarrow> file_range" where
  "range_of l r = (case rr_file r of None \<Rightarrow> no_range | Some base \<Rightarrow>
     \<lparr>fr_file = (case log_dir l (segmentLogPath base) of None \<Rightarrow> [] | Some bytes \<Rightarrow> bytes),
      fr_position = rr_position r, fr_length = rr_length r\<rparr>)"

definition fetch_one :: "log_manager \<Rightarrow> string \<Rightarrow> fetch_asked \<Rightarrow> fetch_partition" where
  "fetch_one logs topic asked =
    (case lm_get logs \<lparr>tp_topic = topic, tp_partition = fa_partition asked\<rparr> of
       None \<Rightarrow> \<lparr>fp_partition = fa_partition asked, fp_error = EC_NotLeaderForPartition, fp_highWatermark = 0,
                fp_logStartOffset = 0, fp_records = no_range\<rparr>
     | Some l \<Rightarrow>
         (let result = \<lparr>fp_partition = fa_partition asked, fp_error = EC_None, fp_highWatermark = lg_highWatermark l,
                        fp_logStartOffset = logStartOffset l, fp_records = no_range\<rparr>
          in case log_read (fa_fetchOffset asked) (nat (fa_maxBytes asked)) l of
               Inl _ \<Rightarrow> result\<lparr>fp_error := EC_Unknown\<rparr>
             | Inr r \<Rightarrow> result\<lparr>fp_error := errorCodeFor (rr_error r),
                              fp_records := (if rr_error r = NoError then range_of l r else no_range)\<rparr>))"

definition fetched :: "fetch_request \<Rightarrow> broker \<Rightarrow> fetch_response" where
  "fetched q bk = \<lparr>frp_topics = map (\<lambda>topic. \<lparr>frt_name = fqt_name topic,
     frt_partitions = map (fetch_one (bk_logs bk) (fqt_name topic)) (fqt_partitions topic)\<rparr>) (fq_topics q)\<rparr>"

definition handleFetch :: handler where
  "handleFetch = handling decodeFetchRequest (\<lambda>q bk. (Inr (fetched q bk), bk)) encodeFetchResponse"

subsection \<open>Consumer groups\<close>

definition find_coordinator :: "(string \<Rightarrow> nat) \<Rightarrow> find_coordinator_request \<Rightarrow> broker \<Rightarrow> find_coordinator_response result" where
  "find_coordinator hash q bk =
    (let response = \<lparr>fcp_error = EC_None, fcp_nodeId = - 1, fcp_host = [], fcp_port = 0\<rparr> in
     if fcq_groupId q = [] then Inr (response\<lparr>fcp_error := EC_InvalidGroupId\<rparr>)
     else bind_r (coordinatorPartition hash (fcq_groupId q) (bk_offsetsPartitions bk)) (\<lambda>p.
       if lm_get (bk_logs bk) \<lparr>tp_topic = kOffsetsTopic, tp_partition = p\<rparr> = None
       then Inr (response\<lparr>fcp_error := EC_CoordinatorNotAvailable\<rparr>)
       else Inr (response\<lparr>fcp_nodeId := bk_nodeId bk, fcp_host := bk_advertisedHost bk, fcp_port := bk_advertisedPort bk\<rparr>)))"

definition handleFindCoordinator :: "(string \<Rightarrow> nat) \<Rightarrow> handler" where
  "handleFindCoordinator hash = handling decodeFindCoordinatorRequest (\<lambda>q bk. (find_coordinator hash q bk, bk))
     (reply encodeFindCoordinatorResponse)"

definition join_answer :: "join_result \<Rightarrow> join_group_response" where
  "join_answer joined = \<lparr>jgp_error = jr_error joined, jgp_generation = jr_generation joined,
     jgp_protocolName = jr_protocolName joined, jgp_leaderId = jr_leaderId joined, jgp_memberId = jr_memberId joined,
     jgp_members = map (\<lambda>m. \<lparr>mi_memberId = gm_memberId m, mi_subscription = gm_subscription m\<rparr>) (jr_members joined)\<rparr>"

definition handleJoinGroup :: handler where
  "handleJoinGroup rc = handling decodeJoinGroupRequest
     (\<lambda>q bk. let (joined, gc) = join (jgq_groupId q) (jgq_memberId q) (rh_clientId (rc_header rc)) (jgq_subscription q)
            (jgq_protocols q) (jgq_sessionTimeoutMs q) (rc_now rc) (bk_groups bk)
       in (Inr (join_answer joined), bk\<lparr>bk_groups := gc\<rparr>)) (reply encodeJoinGroupResponse) rc"

definition handleSyncGroup :: handler where
  "handleSyncGroup rc = handling decodeSyncGroupRequest
     (\<lambda>q bk. let (synced, gc) = sync (sgq_groupId q) (sgq_memberId q) (sgq_generation q) (sgq_assignments q) (rc_now rc) (bk_groups bk)
       in (Inr \<lparr>sgp_error = sr_error synced, sgp_assignment = sr_assignment synced\<rparr>, bk\<lparr>bk_groups := gc\<rparr>))
     (reply encodeSyncGroupResponse) rc"

definition handleHeartbeat :: handler where
  "handleHeartbeat rc = handling decodeHeartbeatRequest
     (\<lambda>q bk. let (e, gc) = heartbeat (hbq_groupId q) (hbq_memberId q) (hbq_generation q) (rc_now rc) (bk_groups bk)
       in (Inr \<lparr>hbp_error = e\<rparr>, bk\<lparr>bk_groups := gc\<rparr>)) (reply encodeHeartbeatResponse) rc"

definition handleLeaveGroup :: handler where
  "handleLeaveGroup rc = handling decodeLeaveGroupRequest
     (\<lambda>q bk. let (e, gc) = leave (lgq_groupId q) (lgq_memberId q) (rc_now rc) (bk_groups bk)
       in (Inr \<lparr>lgp_error = e\<rparr>, bk\<lparr>bk_groups := gc\<rparr>)) (reply encodeLeaveGroupResponse) rc"

subsection \<open>Positions\<close>

definition commit_one ::
  "(string \<Rightarrow> nat) \<Rightarrow> int \<Rightarrow> error_code \<Rightarrow> string \<Rightarrow> string \<Rightarrow> commit_request_partition \<Rightarrow> offset_store \<times> log_manager \<Rightarrow>
    commit_response_partition \<times> offset_store \<times> log_manager" where
  "commit_one hash now membership groupId topic asked st =
    (if membership \<noteq> EC_None then (\<lparr>cpp_partition = cqp_partition asked, cpp_error = membership\<rparr>, st)
     else let value = \<lparr>cv_nextOffset = cqp_nextOffset asked, cv_metadata = cqp_metadata asked, cv_commitTimestampMs = now\<rparr>;
              (r, st) = commit hash \<lparr>ck_group = groupId, ck_topic = topic, ck_partition = cqp_partition asked\<rparr> value (now, now) st
          in (\<lparr>cpp_partition = cqp_partition asked, cpp_error = (case r of Inl _ \<Rightarrow> EC_Unknown | Inr _ \<Rightarrow> EC_None)\<rparr>, st))"

definition commit_topic ::
  "(string \<Rightarrow> nat) \<Rightarrow> int \<Rightarrow> error_code \<Rightarrow> string \<Rightarrow> commit_request_topic \<Rightarrow> offset_store \<times> log_manager \<Rightarrow>
    commit_response_topic \<times> offset_store \<times> log_manager" where
  "commit_topic hash now membership groupId topic st =
    (let (results, st) = map_state (commit_one hash now membership groupId (cqt_name topic)) (cqt_partitions topic) st
     in (\<lparr>cpt_name = cqt_name topic, cpt_partitions = results\<rparr>, st))"

definition commit_offsets ::
  "(string \<Rightarrow> nat) \<Rightarrow> int \<Rightarrow> offset_commit_request \<Rightarrow> broker \<Rightarrow> offset_commit_response \<times> broker" where
  "commit_offsets hash now q bk =
    (let (membership, gc) =
           (if ocq_memberId q \<noteq> [] \<or> ocq_generation q \<ge> 0
            then heartbeat (ocq_groupId q) (ocq_memberId q) (ocq_generation q) now (bk_groups bk)
            else (EC_None, bk_groups bk));
         (answers, st, logs) = map_state (commit_topic hash now membership (ocq_groupId q)) (ocq_topics q) (bk_offsets bk, bk_logs bk)
     in (\<lparr>ocp_topics = answers\<rparr>, bk\<lparr>bk_groups := gc, bk_offsets := st, bk_logs := logs\<rparr>))"

definition handleOffsetCommit :: "(string \<Rightarrow> nat) \<Rightarrow> handler" where
  "handleOffsetCommit hash rc = handling decodeOffsetCommitRequest
     (\<lambda>q bk. let (answer, bk) = commit_offsets hash (rc_now rc) q bk in (Inr answer, bk)) (reply encodeOffsetCommitResponse) rc"

definition fetched_position :: "offset_store \<Rightarrow> string \<Rightarrow> string \<Rightarrow> int \<Rightarrow> fetched_offset" where
  "fetched_position st groupId topic p =
    (case fetch_position \<lparr>ck_group = groupId, ck_topic = topic, ck_partition = p\<rparr> st of
       Some found \<Rightarrow> \<lparr>fo_partition = p, fo_nextOffset = cv_nextOffset found, fo_metadata = cv_metadata found, fo_error = EC_None\<rparr>
     | None \<Rightarrow> \<lparr>fo_partition = p, fo_nextOffset = kUnknownOffset, fo_metadata = [], fo_error = EC_None\<rparr>)"

definition fetched_positions :: "offset_fetch_request \<Rightarrow> broker \<Rightarrow> offset_fetch_response" where
  "fetched_positions q bk = \<lparr>ofp_topics = map (\<lambda>topic. \<lparr>ft_name = fot_name topic,
     ft_partitions = map (fetched_position (bk_offsets bk) (ofq_groupId q) (fot_name topic)) (fot_partitions topic)\<rparr>) (ofq_topics q)\<rparr>"

definition handleOffsetFetch :: handler where
  "handleOffsetFetch = handling decodeOffsetFetchRequest (\<lambda>q bk. (Inr (fetched_positions q bk), bk)) (reply encodeOffsetFetchResponse)"

subsection \<open>The registry\<close>

text \<open>\<^verbatim>\<open>server/api_registry.cpp\<close>.\<close>

type_synonym api_registry = "api_key \<times> int \<Rightarrow> handler option"

definition registerHandler :: "api_key \<Rightarrow> int \<Rightarrow> handler \<Rightarrow> api_registry \<Rightarrow> api_registry" where
  "registerHandler key version h reg = reg((key, version) \<mapsto> h)"

definition has_handler :: "api_registry \<Rightarrow> api_key \<Rightarrow> int \<Rightarrow> bool" where
  "has_handler reg key version \<longleftrightarrow> reg (key, version) \<noteq> None"

definition dispatch :: "api_registry \<Rightarrow> request_context \<Rightarrow> broker \<Rightarrow> response result \<times> broker" where
  "dispatch reg rc bk = (case reply encodeResponseHeader (rh_correlationId (rc_header rc)) [] of
      Inl e \<Rightarrow> (Inl e, bk)
    | Inr out \<Rightarrow> (case reg (rh_apiKey (rc_header rc), rh_apiVersion (rc_header rc)) of
        None \<Rightarrow> (reply writeCode EC_UnsupportedVersion out, bk)
      | Some h \<Rightarrow> h rc out bk))"

definition all_handlers :: "(string \<Rightarrow> nat) \<Rightarrow> ((api_key \<times> int) \<times> handler) list" where
  "all_handlers hash = [((ListOffsets, 0), handleListOffsets), ((Metadata, 0), handleMetadata),
     ((CreateTopic, 0), handleCreateTopic), ((Produce, 0), handleProduce), ((Fetch, 0), handleFetch),
     ((FindCoordinator, 0), handleFindCoordinator hash), ((JoinGroup, 0), handleJoinGroup), ((SyncGroup, 0), handleSyncGroup),
     ((Heartbeat, 0), handleHeartbeat), ((LeaveGroup, 0), handleLeaveGroup), ((OffsetCommit, 0), handleOffsetCommit hash),
     ((OffsetFetch, 0), handleOffsetFetch)]"

definition registerAllHandlers :: "(string \<Rightarrow> nat) \<Rightarrow> api_registry \<Rightarrow> api_registry" where
  "registerAllHandlers hash reg = fold (\<lambda>((key, version), h). registerHandler key version h) (all_handlers hash) reg"

end
