(* ===== verification/Connection.thy ===== *)
theory Connection
  imports Handlers
begin

text \<open>
  \<^verbatim>\<open>server/connection.cpp\<close>: one client's connection, served by one thread. What the socket does is a list
  of outcomes in each direction; what the rest of the server does to the broker between two requests of
  this client is an argument, as is the wall clock.
\<close>

record endpoint =
  ep_registry :: api_registry
  ep_maxFrameBytes :: nat
  ep_clock :: "nat \<Rightarrow> int"
  ep_others :: "nat \<Rightarrow> broker \<Rightarrow> broker"

text \<open>How serving ends: the peer closed, the broker hangs up, a write never returns, or an exception
that nothing catches.\<close>

datatype session_end = PeerClosed | HungUp | Stuck | Escaped error

definition errorResponse :: "int \<Rightarrow> error_code \<Rightarrow> response result" where
  "errorResponse correlationId e =
    bind_r (bytes_of (\<lambda>w. bind_r (encodeResponseHeader correlationId w) (writeCode e))) (\<lambda>bytes. Inr (append_buffer bytes []))"

text \<open>The answer to one frame; none when its header does not decode.\<close>

definition answer_frame :: "endpoint \<Rightarrow> nat \<Rightarrow> byte list \<Rightarrow> broker \<Rightarrow> (response result \<times> broker) option" where
  "answer_frame ep i frame bk = (case decodeRequestHeader (reader_of frame) of
      Inl _ \<Rightarrow> None
    | Inr (header, body) \<Rightarrow> Some (case dispatch (ep_registry ep)
          \<lparr>rc_header = header, rc_body = body, rc_frame = frame, rc_now = ep_clock ep i\<rparr> (ep_others ep i bk) of
        (Inl _, bk) \<Rightarrow> (errorResponse (rh_correlationId header) EC_CorruptMessage, bk)
      | (Inr response, bk) \<Rightarrow> (Inr response, bk)))"

lemma readExactly_consumes:
  "readExactly want filled evs = Inr (Some bytes, evs') \<Longrightarrow>
    filled @ stream evs = bytes @ stream evs' \<and> want \<le> length bytes"
proof (induction want filled evs rule: readExactly.induct)
  case (1 want filled evs)
  show ?case
  proof (cases "length filled < want")
    case False
    with "1.prems" show ?thesis by simp
  next
    case True
    then have short: "\<not> \<not> length filled < want" by simp
    show ?thesis
    proof (cases evs)
      case Nil
      with True "1.prems" show ?thesis by (subst (asm) readExactly.simps) (simp add: stream_ended_def split: if_splits)
    next
      case (Cons e es)
      note evs = this
      show ?thesis
      proof (cases e)
        case (Arrived bs)
        let ?n = "want - length filled"
        have bs: "bs \<noteq> []" "readExactly want (filled @ take ?n bs) (if length bs \<le> ?n then es else Arrived (drop ?n bs) # es) =
            Inr (Some bytes, evs')"
          using True "1.prems" by (subst (asm) readExactly.simps, simp add: evs Arrived stream_ended_def Let_def split: if_splits)+
        have "take ?n bs @ stream (if length bs \<le> ?n then es else Arrived (drop ?n bs) # es) = stream evs"
          by (auto simp: evs Arrived)
        with "1.IH"(1) [OF short evs Arrived bs(1) refl bs(2)] show ?thesis by (metis append.assoc)
      next
        case Interrupted
        then have "readExactly want filled es = Inr (Some bytes, evs')"
          using True "1.prems" by (subst (asm) readExactly.simps) (simp add: evs)
        from "1.IH"(2) [OF short evs Interrupted this] show ?thesis by (simp add: evs Interrupted)
      next
        case Reset
        then show ?thesis using True "1.prems" by (subst (asm) readExactly.simps) (simp add: evs stream_ended_def split: if_splits)
      next
        case (Failed c)
        then show ?thesis using True "1.prems" by (subst (asm) readExactly.simps) (simp add: evs)
      qed
    qed
  qed
qed

lemma readFrame_consumes:
  assumes "readFrame limit evs = Inr (Some frame, evs')"
  shows "length (stream evs') < length (stream evs)"
proof -
  obtain prefix evs1 where 1: "readExactly kPrefixBytes [] evs = Inr (Some prefix, evs1)"
    using assms by (auto simp: readFrame_def bind_r_Inr_iff split: option.splits)
  have "length (stream evs') \<le> length (stream evs1)"
    using assms readExactly_consumes
    by (fastforce simp: readFrame_def 1 bind_r_Inr_iff Let_def split: if_splits option.splits dest: arg_cong [where f = length])
  with readExactly_consumes [OF 1] show ?thesis by (auto simp: kPrefixBytes_def dest: arg_cong [where f = length])
qed

function serve :: "endpoint \<Rightarrow> nat \<Rightarrow> receive list \<Rightarrow> transmit list \<Rightarrow> broker \<Rightarrow> byte list \<times> session_end \<times> broker" where
  "serve ep i ins outs bk = (case readFrame (ep_maxFrameBytes ep) ins of
      Inl _ \<Rightarrow> ([], HungUp, bk)
    | Inr (None, _) \<Rightarrow> ([], PeerClosed, bk)
    | Inr (Some frame, ins) \<Rightarrow> (case answer_frame ep i frame bk of
        None \<Rightarrow> ([], HungUp, bk)
      | Some (Inl e, bk) \<Rightarrow> ([], Escaped e, bk)
      | Some (Inr response, bk) \<Rightarrow> (case writeResponse response outs of
          (sent, Sent, outs) \<Rightarrow> (let (more, how, bk) = serve ep (Suc i) ins outs bk in (sent @ more, how, bk))
        | (sent, Blocked, _) \<Rightarrow> (sent, Stuck, bk)
        | (sent, Threw _, _) \<Rightarrow> (sent, HungUp, bk))))"
  by pat_completeness auto
termination
  by (relation "measure (\<lambda>(_, _, ins, _, _). length (stream ins))") (auto dest: readFrame_consumes)

declare serve.simps [simp del]

subsection \<open>A conversation of frames\<close>

text \<open>The reference: whole frames in, whole responses out, nothing of sockets.\<close>

fun converse :: "endpoint \<Rightarrow> nat \<Rightarrow> byte list list \<Rightarrow> broker \<Rightarrow> response list \<times> session_end \<times> broker" where
  "converse ep i [] bk = ([], PeerClosed, bk)"
| "converse ep i (frame # frames) bk = (case answer_frame ep i frame bk of
      None \<Rightarrow> ([], HungUp, bk)
    | Some (Inl e, bk) \<Rightarrow> ([], Escaped e, bk)
    | Some (Inr response, bk) \<Rightarrow>
        (let (responses, how, bk) = converse ep (Suc i) frames bk in (response # responses, how, bk)))"

text \<open>A socket that goes on taking bytes, possibly one at a time and with signals in between.\<close>

definition takes :: "transmit \<Rightarrow> bool" where
  "takes e \<longleftrightarrow> (\<exists>n. e = Took (Suc n))"

definition willing :: "nat \<Rightarrow> transmit list \<Rightarrow> bool" where
  "willing k outs \<longleftrightarrow> list_all (\<lambda>e. \<forall>c. e \<noteq> Broken c) outs \<and> k \<le> length (filter takes outs)"

lemma willing_Cons: "willing k (e # outs) \<longleftrightarrow> (\<forall>c. e \<noteq> Broken c) \<and> willing (if takes e then k - 1 else k) outs"
  by (auto simp: willing_def)

lemma willing_less: "willing k outs \<Longrightarrow> j \<le> k \<Longrightarrow> willing j outs"
  by (simp add: willing_def)

lemma writeAll_willing:
  "willing (length bytes + k) outs \<Longrightarrow> \<exists>outs'. writeAll bytes outs = (bytes, Sent, outs') \<and> willing k outs'"
proof (induction bytes outs rule: writeAll.induct)
  case (5 b bs n evs)
  have "willing (length (drop n (b # bs)) + k) evs"
    using "5.prems" by (cases n) (auto simp: willing_Cons takes_def elim: willing_less)
  from "5.IH" [OF this] show ?case by auto
qed (auto simp: willing_Cons takes_def, simp add: willing_def)

lemma sendRange_willing:
  assumes "in_file r" "sent \<le> fr_length r" "willing (fr_length r - sent + k) outs"
  shows "\<exists>outs'. sendRange r sent outs = (drop sent (pread r), Sent, outs') \<and> willing k outs'"
  using assms
proof (induction r sent outs rule: sendRange.induct)
  case (1 r sent)
  then show ?case by (auto simp: willing_def length_pread)
next
  case (2 r sent e evs)
  show ?case
  proof (cases "sent < fr_length r")
    case False
    with 2 show ?thesis by (simp add: length_pread)
  next
    case True
    obtain now where now: "sendFileRange r sent e = Inr now" "now = take (length now) (drop sent (pread r))"
        "takes e \<longrightarrow> 0 < length now"
    proof (cases e)
      case (Took n)
      show thesis
        by (rule that [of "take n (drop sent (pread r))"])
          (use Took True "2.prems"(1) in \<open>auto simp: sendFileRange_def takes_def length_pread min_def\<close>)
    qed (use "2.prems"(3) that [of "[]"] in \<open>auto simp: sendFileRange_def willing_Cons takes_def\<close>)
    have len: "sent + length now \<le> fr_length r"
      using arg_cong [OF now(2), of length] True "2.prems"(1) by (simp add: length_pread)
    have "willing (fr_length r - (sent + length now) + k) evs"
    proof (rule willing_less)
      show "willing (if takes e then fr_length r - sent + k - 1 else fr_length r - sent + k) evs"
        using "2.prems"(3) by (simp only: willing_Cons)
      show "fr_length r - (sent + length now) + k \<le> (if takes e then fr_length r - sent + k - 1 else fr_length r - sent + k)"
        using now(3) True by (cases now) auto
    qed
    from "2.IH" [OF _ now(1) "2.prems"(1) len this] True obtain outs'
      where "sendRange r (sent + length now) evs = (drop (sent + length now) (pread r), Sent, outs')" "willing k outs'" by blast
    moreover have "now @ drop (sent + length now) (pread r) = drop sent (pread r)"
      using now(2) by (metis add.commute append_take_drop_id drop_drop)
    ultimately show ?thesis using True now(1) by simp
  qed
qed

lemma writeResponse_willing:
  assumes "response_ok out" "length (flat out) < 2 ^ 31" "willing (length (frame_bytes (flat out)) + k) outs"
  shows "\<exists>outs'. writeResponse out outs = (frame_bytes (flat out), Sent, outs') \<and> willing k outs'"
proof -
  have segments: "\<exists>outs'. writeSegments ss evs = (flat ss, Sent, outs') \<and> willing k outs'"
    if "response_ok ss" "willing (length (flat ss) + k) evs" for ss evs
    using that
  proof (induction ss arbitrary: evs)
    case (Cons s ss)
    have len: "length (flat (s # ss)) + k = length (segment_bytes s) + (length (flat ss) + k)" by (simp add: flat_def)
    have "\<exists>evs'. (if \<not> isFile s then writeAll (rs_buffer s) evs else sendRange (rs_range s) 0 evs) = (segment_bytes s, Sent, evs') \<and>
        willing (length (flat ss) + k) evs'"
      using Cons.prems writeAll_willing [of "rs_buffer s" "length (flat ss) + k" evs]
        sendRange_willing [of "rs_range s" 0 "length (flat ss) + k" evs]
      by (auto simp: len response_ok_def segment_bytes_def length_pread)
    then obtain evs' where 1: "(if \<not> isFile s then writeAll (rs_buffer s) evs else sendRange (rs_range s) 0 evs) =
        (segment_bytes s, Sent, evs')" "willing (length (flat ss) + k) evs'" by blast
    obtain outs' where "writeSegments ss evs' = (flat ss, Sent, outs')" "willing k outs'"
      using Cons.IH [OF _ 1(2)] Cons.prems(1) by (auto simp: response_ok_def)
    with 1(1) show ?case by (simp add: flat_def)
  qed (auto simp: flat_def)
  have w: "willing (length (frame_prefix (length (flat out))) + (length (flat out) + k)) outs"
    using assms(3) by (simp add: frame_bytes_def add.assoc)
  obtain outs1 where 1: "writeAll (frame_prefix (length (flat out))) outs = (frame_prefix (length (flat out)), Sent, outs1)"
      "willing (length (flat out) + k) outs1"
    using writeAll_willing [OF w] by blast
  obtain outs2 where "writeSegments out outs1 = (flat out, Sent, outs2)" "willing k outs2" using segments [OF assms(1) 1(2)] by blast
  with 1 assms(2) show ?thesis by (simp add: writeResponse_def writeFrameLength_def totalBytes_flat [OF assms(1)] frame_bytes_def)
qed

definition wire_of :: "response list \<Rightarrow> byte list" where
  "wire_of responses = concat (map (\<lambda>r. frame_bytes (flat r)) responses)"

lemma serve_converse:
  assumes "list_all gentle ins" "stream ins = concat (map frame_bytes frames)"
    and "list_all (\<lambda>f. length f \<le> ep_maxFrameBytes ep \<and> length f < 2 ^ 31) frames"
    and "converse ep i frames bk = (responses, how, bk')"
    and "list_all (\<lambda>r. response_ok r \<and> length (flat r) < 2 ^ 31) responses"
    and "willing (length (wire_of responses)) outs"
  shows "serve ep i ins outs bk = (wire_of responses, how, bk')"
  using assms
proof (induction frames arbitrary: i ins outs bk responses)
  case Nil
  then show ?case by (simp add: serve.simps [of ep i ins] readFrame_end wire_of_def)
next
  case (Cons f fs)
  obtain ins' where ins': "readFrame (ep_maxFrameBytes ep) ins = Inr (Some f, ins')" "list_all gentle ins'"
      "stream ins' = concat (map frame_bytes fs)"
    using readFrame_stream [of ins f "concat (map frame_bytes fs)" "ep_maxFrameBytes ep"] Cons.prems(1-3) by auto
  show ?case
  proof (cases "answer_frame ep i f bk")
    case None
    with ins' Cons.prems(4) show ?thesis by (simp add: serve.simps [of ep i ins] wire_of_def)
  next
    case (Some a)
    obtain r bk1 where a: "a = (r, bk1)" by (cases a)
    show ?thesis
    proof (cases r)
      case (Inl e)
      with Some a ins' Cons.prems(4) show ?thesis by (simp add: serve.simps [of ep i ins] wire_of_def)
    next
      case (Inr response)
      obtain rs where rs: "converse ep (Suc i) fs bk1 = (rs, how, bk')" "responses = response # rs"
        using Cons.prems(4) Some a Inr by (auto split: prod.splits)
      have wire: "wire_of responses = frame_bytes (flat response) @ wire_of rs" by (simp add: rs(2) wire_of_def)
      obtain outs' where w: "writeResponse response outs = (frame_bytes (flat response), Sent, outs')"
          "willing (length (wire_of rs)) outs'"
        using writeResponse_willing [of response "length (wire_of rs)" outs] Cons.prems(5,6) by (auto simp: rs(2) wire [unfolded rs(2)])
      have "serve ep (Suc i) ins' outs' bk1 = (wire_of rs, how, bk')"
        using Cons.IH [OF ins'(2,3) _ rs(1) _ w(2)] Cons.prems(3,5) by (simp add: rs(2))
      with ins'(1) Some a Inr w(1) wire show ?thesis by (simp add: serve.simps [of ep i ins])
    qed
  qed
qed

subsection \<open>Every answer carries its correlation id\<close>

definition extends :: "handler \<Rightarrow> bool" where
  "extends h \<longleftrightarrow> (\<forall>rc out bk out' bk'. h rc out bk = (Inr out', bk') \<longrightarrow> (\<exists>bs. flat out' = flat out @ bs))"

lemma handling_extends:
  assumes "\<And>a out out'. answer a out = Inr out' \<Longrightarrow> \<exists>bs. flat out' = flat out @ bs"
  shows "handling decode act answer rc out bk = (Inr out', bk') \<Longrightarrow> \<exists>bs. flat out' = flat out @ bs"
  using assms by (auto simp: handling_def bind_r_Inr_iff split: sum.splits prod.splits)

lemma reply_extends: "reply encoder message out = Inr out' \<Longrightarrow> \<exists>bs. flat out' = flat out @ bs"
  by (auto simp: reply_def bind_r_Inr_iff)

lemma encode_each_extends:
  assumes "\<And>x w out w' out'. f x (w, out) = Inr (w', out') \<Longrightarrow> \<exists>bs. flat out' = flat out @ bs"
  shows "encode_each f xs (w, out) = Inr (w', out') \<Longrightarrow> \<exists>bs. flat out' = flat out @ bs"
proof (induction xs arbitrary: w out)
  case (Cons x xs)
  then obtain w1 out1 where "f x (w, out) = Inr (w1, out1)" "encode_each f xs (w1, out1) = Inr (w', out')"
    by (auto simp: bind_r_Inr_iff)
  with Cons.IH assms show ?case by fastforce
qed simp

lemma encodeFetchResponse_extends: "encodeFetchResponse m out = Inr out' \<Longrightarrow> \<exists>bs. flat out' = flat out @ bs"
proof -
  have p: "\<exists>bs. flat out' = flat out @ bs" if "encode_fetch_partition p (w, out) = Inr (w', out')" for p w out w' out'
    using that by (auto simp: encode_fetch_partition_def bind_r_Inr_iff split: if_splits)
  have t: "\<exists>bs. flat out' = flat out @ bs" if "encode_fetch_topic t (w, out) = Inr (w', out')" for t w out w' out'
    using that encode_each_extends [OF p] by (auto simp: encode_fetch_topic_def bind_r_Inr_iff)
  show ?thesis if "encodeFetchResponse m out = Inr out'"
    using that encode_each_extends [OF t] by (fastforce simp: encodeFetchResponse_def bind_r_Inr_iff)
qed

lemma handlers_extend: "(k, h) \<in> set (all_handlers hash) \<Longrightarrow> extends h"
  by (auto simp: all_handlers_def extends_def handleListOffsets_def handleMetadata_def handleCreateTopic_def handleProduce_def
      handleFetch_def handleFindCoordinator_def handleJoinGroup_def handleSyncGroup_def handleHeartbeat_def handleLeaveGroup_def
      handleOffsetCommit_def handleOffsetFetch_def elim!: handling_extends [rotated] dest: reply_extends encodeFetchResponse_extends)

lemma registered_mem:
  "fold (\<lambda>((key, version), h). registerHandler key version h) hs reg k = Some h \<Longrightarrow> (k, h) \<in> set hs \<or> reg k = Some h"
  by (induction hs arbitrary: reg) (fastforce simp: registerHandler_def split: if_splits)+

lemma registered_extends: "registerAllHandlers hash Map.empty k = Some h \<Longrightarrow> extends h"
  using registered_mem [of "all_handlers hash" Map.empty k h] handlers_extend by (auto simp: registerAllHandlers_def)

lemma header_bytes: "bytes_of (encodeResponseHeader c) = Inr (i32_repr c)"
  by (simp add: bytes_of_def encodeResponseHeader_def codec_simps take_writer_def i32_repr_def)

lemma errorResponse_flat: "\<exists>out. errorResponse c e = Inr out \<and> response_ok out \<and>
    flat out = i32_repr c @ code_repr e"
  by (simp add: errorResponse_def bytes_of_def encodeResponseHeader_def writeCode_def code_repr_def codec_simps take_writer_def i32_repr_def)

definition answers :: "byte list \<Rightarrow> response \<Rightarrow> bool" where
  "answers frame response \<longleftrightarrow> (\<exists>header body bs. decodeRequestHeader (reader_of frame) = Inr (header, body) \<and>
     flat response = i32_repr (rh_correlationId header) @ bs)"

lemma dispatch_answers:
  assumes "dispatch (registerAllHandlers hash Map.empty) rc bk = (Inr out, bk')"
  shows "\<exists>bs. flat out = i32_repr (rh_correlationId (rc_header rc)) @ bs"
proof -
  let ?head = "append_buffer (i32_repr (rh_correlationId (rc_header rc))) []"
  have head: "reply encodeResponseHeader (rh_correlationId (rc_header rc)) [] = Inr ?head" by (simp add: reply_def header_bytes)
  have flat: "flat ?head = i32_repr (rh_correlationId (rc_header rc))" by simp
  show ?thesis
  proof (cases "registerAllHandlers hash Map.empty (rh_apiKey (rc_header rc), rh_apiVersion (rc_header rc))")
    case None
    then have "reply writeCode EC_UnsupportedVersion ?head = Inr out" using assms head by (simp add: dispatch_def)
    from reply_extends [OF this] flat show ?thesis by simp
  next
    case (Some h)
    then have "h rc ?head bk = (Inr out, bk')" using assms head by (simp add: dispatch_def)
    with registered_extends [OF Some] flat show ?thesis by (fastforce simp: extends_def)
  qed
qed

lemma answer_frame_answers:
  assumes "ep_registry ep = registerAllHandlers hash Map.empty" "answer_frame ep i frame bk = Some (r, bk')"
  shows "\<exists>response. r = Inr response \<and> answers frame response"
proof -
  obtain header body where h: "decodeRequestHeader (reader_of frame) = Inr (header, body)"
    using assms(2) by (auto simp: answer_frame_def split: sum.splits)
  let ?rc = "\<lparr>rc_header = header, rc_body = body, rc_frame = frame, rc_now = ep_clock ep i\<rparr>"
  obtain d bk1 where d: "dispatch (ep_registry ep) ?rc (ep_others ep i bk) = (d, bk1)" by fastforce
  show ?thesis
  proof (cases d)
    case (Inl e)
    then show ?thesis using assms(2) h d errorResponse_flat [of "rh_correlationId header" EC_CorruptMessage]
      by (auto simp: answer_frame_def answers_def)
  next
    case (Inr out)
    then show ?thesis using assms h d dispatch_answers [of hash ?rc "ep_others ep i bk" out bk1]
      by (auto simp: answer_frame_def answers_def)
  qed
qed

lemma converse_answers:
  assumes "ep_registry ep = registerAllHandlers hash Map.empty" "converse ep i frames bk = (responses, how, bk')"
  shows "length responses \<le> length frames \<and> list_all2 answers (take (length responses) frames) responses \<and>
    (how = PeerClosed \<and> length responses = length frames \<or>
     how = HungUp \<and> (\<exists>e. decodeRequestHeader (reader_of (frames ! length responses)) = Inl e))"
  using assms(2)
proof (induction frames arbitrary: i bk responses)
  case (Cons f fs)
  show ?case
  proof (cases "answer_frame ep i f bk")
    case None
    with Cons.prems show ?thesis by (auto simp: answer_frame_def split: sum.splits)
  next
    case (Some a)
    obtain r bk1 where a: "a = (r, bk1)" by (cases a)
    obtain response where r: "r = Inr response" "answers f response" using answer_frame_answers [OF assms(1)] Some a by blast
    obtain rs where "converse ep (Suc i) fs bk1 = (rs, how, bk')" "responses = response # rs"
      using Cons.prems Some a r(1) by (auto split: prod.splits)
    with Cons.IH [OF this(1)] r(2) show ?thesis by simp
  qed
qed simp

lemma registry_exact:
  "has_handler (registerAllHandlers hash Map.empty) key version \<longleftrightarrow> isKnown key \<and> version = 0"
  by (auto simp: has_handler_def registerAllHandlers_def all_handlers_def registerHandler_def isKnown_def kAllApiKeys_def)

subsection \<open>Properties\<close>

text \<open>C9. A connection is a conversation. Over a socket that cuts the bytes of both directions as it likes,
a client that sends whole frames gets, in order, one frame per request, each beginning with the correlation
id of its request, exactly the responses that handling the frames one after the other produces; malformed
bodies and failing handlers are answered and do not end the connection. Serving returns, with no exception
escaping, when the peer closes or at the first frame whose header does not decode.\<close>

theorem connection_is_conversation:
  assumes "ep_registry ep = registerAllHandlers hash Map.empty"
    and "list_all gentle ins" "stream ins = concat (map frame_bytes frames)"
    and "list_all (\<lambda>f. length f \<le> ep_maxFrameBytes ep \<and> length f < 2 ^ 31) frames"
    and "converse ep 0 frames bk = (responses, how, bk')"
    and "list_all (\<lambda>r. response_ok r \<and> length (flat r) < 2 ^ 31) responses"
    and "willing (length (wire_of responses)) outs"
  shows "serve ep 0 ins outs bk = (wire_of responses, how, bk') \<and>
    length responses \<le> length frames \<and> list_all2 answers (take (length responses) frames) responses \<and>
    (how = PeerClosed \<and> length responses = length frames \<or>
     how = HungUp \<and> (\<exists>e. decodeRequestHeader (reader_of (frames ! length responses)) = Inl e))"
  using serve_converse [OF assms(2-7)] converse_answers [OF assms(1,5)] by blast

text \<open>A version the broker does not speak is answered, not dropped: the registry serves exactly version
zero of the twelve known keys, and any other key or version gets the correlation id and the code for an
unsupported version, without touching the broker.\<close>

lemma unsupported_is_answered:
  assumes "ep_registry ep = registerAllHandlers hash Map.empty"
    and "decodeRequestHeader (reader_of frame) = Inr (header, body)"
  shows "(has_handler (ep_registry ep) (rh_apiKey header) (rh_apiVersion header) \<longleftrightarrow>
      isKnown (rh_apiKey header) \<and> rh_apiVersion header = 0) \<and>
    (\<not> (isKnown (rh_apiKey header) \<and> rh_apiVersion header = 0) \<longrightarrow>
      (\<exists>out. answer_frame ep i frame bk = Some (Inr out, ep_others ep i bk) \<and>
        materialise out = Inr (i32_repr (rh_correlationId header) @ code_repr EC_UnsupportedVersion)))"
proof (intro conjI impI)
  show exact: "has_handler (ep_registry ep) (rh_apiKey header) (rh_apiVersion header) \<longleftrightarrow>
      isKnown (rh_apiKey header) \<and> rh_apiVersion header = 0"
    by (simp add: assms(1) registry_exact)
  assume "\<not> (isKnown (rh_apiKey header) \<and> rh_apiVersion header = 0)"
  with exact have "ep_registry ep (rh_apiKey header, rh_apiVersion header) = None" by (simp add: has_handler_def)
  moreover have "bytes_of (writeCode EC_UnsupportedVersion) = Inr (code_repr EC_UnsupportedVersion)"
    by (rule wcode.bytes_of_repr) (simp add: code_ok_def)
  ultimately show "\<exists>out. answer_frame ep i frame bk = Some (Inr out, ep_others ep i bk) \<and>
      materialise out = Inr (i32_repr (rh_correlationId header) @ code_repr EC_UnsupportedVersion)"
    by (simp add: answer_frame_def assms(2) dispatch_def reply_def header_bytes materialise_flat)
qed

subsection \<open>A concrete conversation\<close>

text \<open>A version of Produce that does not exist, then a heartbeat with no body.\<close>

abbreviation demo_frames :: "byte list list" where
  "demo_frames \<equiv> [[0, 0, 0, 7, 0, 0, 0, 5, 0, 1, 99], [0, 12, 0, 0, 0, 0, 0, 6, 0, 1, 99]]"

abbreviation demo_endpoint :: endpoint where
  "demo_endpoint \<equiv> \<lparr>ep_registry = registerAllHandlers (\<lambda>_. 0) Map.empty, ep_maxFrameBytes = 100, ep_clock = int, ep_others = \<lambda>_ bk. bk\<rparr>"

lemma demo_headers:
  "decodeRequestHeader (reader_of [0, 0, 0, 7, 0, 0, 0, 5, 0, 1, 99]) =
    Inr (\<lparr>rh_apiKey = Produce, rh_apiVersion = 7, rh_correlationId = 5, rh_clientId = ''c''\<rparr>,
      \<lparr>rd_bytes = [0, 0, 0, 7, 0, 0, 0, 5, 0, 1, 99], rd_pos = 11\<rparr>)"
  "decodeRequestHeader (reader_of [0, 12, 0, 0, 0, 0, 0, 6, 0, 1, 99]) =
    Inr (\<lparr>rh_apiKey = Heartbeat, rh_apiVersion = 0, rh_correlationId = 6, rh_clientId = ''c''\<rparr>,
      \<lparr>rd_bytes = [0, 12, 0, 0, 0, 0, 0, 6, 0, 1, 99], rd_pos = 11\<rparr>)"
  "decodeHeartbeatRequest \<lparr>rd_bytes = [0, 12, 0, 0, 0, 0, 0, 6, 0, 1, 99], rd_pos = 11\<rparr> = Inl CorruptData"
  by code_simp+

lemma connection_is_conversation_witness:
  "\<forall>bk :: broker. \<exists>r1 r2. flat r1 = i32_repr 5 @ code_repr EC_UnsupportedVersion \<and> flat r2 = i32_repr 6 @ code_repr EC_CorruptMessage \<and>
    serve demo_endpoint 0 [Arrived (concat (map frame_bytes demo_frames))] (replicate 20 (Took 1)) bk = (wire_of [r1, r2], PeerClosed, bk)"
proof
  fix bk :: broker
  have reg: "registerAllHandlers h Map.empty (Produce, 7) = None" "registerAllHandlers h Map.empty (Heartbeat, 0) = Some handleHeartbeat" for h
    by (simp_all add: registerAllHandlers_def all_handlers_def registerHandler_def)
  have "\<exists>r. answer_frame demo_endpoint 0 (demo_frames ! 0) bk = Some (Inr r, bk) \<and> response_ok r \<and>
      flat r = i32_repr 5 @ code_repr EC_UnsupportedVersion"
    by (simp add: answer_frame_def demo_headers dispatch_def reply_def header_bytes reg wcode.bytes_of_repr code_ok_def)
  then obtain r1 where r1: "answer_frame demo_endpoint 0 (demo_frames ! 0) bk = Some (Inr r1, bk)" "response_ok r1"
      "flat r1 = i32_repr 5 @ code_repr EC_UnsupportedVersion" by blast
  have "\<exists>r. answer_frame demo_endpoint 1 (demo_frames ! 1) bk = Some (Inr r, bk) \<and> response_ok r \<and>
      flat r = i32_repr 6 @ code_repr EC_CorruptMessage"
    using errorResponse_flat [of 6 EC_CorruptMessage]
    by (simp add: answer_frame_def demo_headers dispatch_def reply_def header_bytes reg handleHeartbeat_def handling_def)
  then obtain r2 where r2: "answer_frame demo_endpoint 1 (demo_frames ! 1) bk = Some (Inr r2, bk)" "response_ok r2"
      "flat r2 = i32_repr 6 @ code_repr EC_CorruptMessage" by blast
  have conv: "converse demo_endpoint 0 demo_frames bk = ([r1, r2], PeerClosed, bk)" using r1(1) r2(1) by simp
  have len: "length (flat r1) = 6" "length (flat r2) = 6" by (simp_all add: r1(3) r2(3) i32_repr_def code_repr_def be_bytes_def)
  have "serve demo_endpoint 0 [Arrived (concat (map frame_bytes demo_frames))] (replicate 20 (Took 1)) bk = (wire_of [r1, r2], PeerClosed, bk)"
    using connection_is_conversation [OF _ _ _ _ conv, of "\<lambda>_. 0" "[Arrived (concat (map frame_bytes demo_frames))]" "replicate 20 (Took 1)"]
      r1(2) r2(2) len
    by (simp add: frame_bytes_def wire_of_def willing_def takes_def list_all_iff)
  with r1(3) r2(3) show "\<exists>r1 r2. flat r1 = i32_repr 5 @ code_repr EC_UnsupportedVersion \<and> flat r2 = i32_repr 6 @ code_repr EC_CorruptMessage \<and>
      serve demo_endpoint 0 [Arrived (concat (map frame_bytes demo_frames))] (replicate 20 (Took 1)) bk = (wire_of [r1, r2], PeerClosed, bk)"
    by blast
qed

end
