(* ===== verification/Offset_Replay.thy ===== *)
theory Offset_Replay
  imports Offset_Store
begin

text \<open>
  Replay of the offsets topic: on logs without a hole between two segments it reads every commit, in
  order, so that the map it rebuilds is the map the commits left.
\<close>

subsection \<open>What the records say\<close>

definition record_changes :: "record_data \<Rightarrow> (commit_key \<times> commit_value option) list" where
  "record_changes rec = (case record_change rec of Inr (Some c) \<Rightarrow> [c] | _ \<Rightarrow> [])"

definition batch_changes :: "byte list \<Rightarrow> (commit_key \<times> commit_value option) list" where
  "batch_changes b = (case decodeRecords b of Inr recs \<Rightarrow> concat (map record_changes recs) | Inl _ \<Rightarrow> [])"

definition changes :: "byte list list \<Rightarrow> (commit_key \<times> commit_value option) list" where
  "changes bs = concat (map batch_changes bs)"

definition replayable :: "byte list \<Rightarrow> bool" where
  "replayable b \<longleftrightarrow> (\<exists>recs. decodeRecords b = Inr recs \<and> (\<forall>rec \<in> set recs. \<exists>c. record_change rec = Inr c))"

abbreviation applied :: "(commit_key \<times> commit_value option) list \<Rightarrow> positions \<Rightarrow> positions" where
  "applied cs t \<equiv> apply_changes set_at erase_at cs t"

lemma changes_simps [simp]: "changes [] = []" "changes (b # bs) = batch_changes b @ changes bs"
    "changes (xs @ ys) = changes xs @ changes ys"
  by (simp_all add: changes_def)

lemma replay_records_changes:
  "\<forall>rec \<in> set recs. \<exists>c. record_change rec = Inr c \<Longrightarrow>
    replay_records recs t = Inr (applied (concat (map record_changes recs)) t)"
proof (induction recs arbitrary: t)
  case (Cons rec recs)
  then obtain c where c: "record_change rec = Inr c" by auto
  show ?case
  proof (cases c)
    case None
    with c Cons show ?thesis by (simp add: record_changes_def)
  next
    case (Some kv)
    obtain k v where "kv = (k, v)" by (cases kv)
    with Some c Cons show ?thesis by (cases v) (simp_all add: record_changes_def)
  qed
qed simp

lemma replay_range_Nil [simp]: "replay_range [] offset advanced t = Inr (offset, advanced, t)"
  by (subst replay_range.simps) simp

text \<open>A range that is cut inside a batch gives the whole batches in front of the cut.\<close>

lemma replay_range_take:
  assumes "list_all batch_wf ys" "list_all replayable ys"
  shows "\<exists>ps qs. ys = ps @ qs \<and>
    replay_range (take n (concat ys)) offset advanced t =
      Inr (end_offset offset ps, advanced \<or> ps \<noteq> [], applied (changes ps) t) \<and>
    (ys \<noteq> [] \<longrightarrow> length (hd ys) \<le> n \<longrightarrow> ps \<noteq> [])"
  using assms
proof (induction ys arbitrary: n offset advanced t)
  case Nil
  then show ?case by (simp add: end_offset_def)
next
  case (Cons b ys)
  have b: "batch_wf b" "totalSizeOf b = Inr (length b)" "61 \<le> length b"
    using Cons.prems(1) batch_wf_length [of b] by (simp_all add: batch_wf_def)
  show ?case
  proof (cases "length b \<le> n")
    case False
    then have t: "take n (concat (b # ys)) = take n b" by simp
    have "replay_range (take n b) offset advanced t = Inr (offset, advanced, t)"
    proof (cases "12 \<le> n")
      case True
      then have "totalSizeOf (take n b) = Inr (length b)" using b(2) by (simp add: totalSizeOf_take)
      with False show ?thesis by (subst replay_range.simps) simp
    next
      case short: False
      then show ?thesis by (subst replay_range.simps) (simp add: totalSizeOf_alt)
    qed
    with False t show ?thesis by (intro exI [of _ "[]"] exI [of _ "b # ys"]) (simp add: end_offset_def)
  next
    case True
    obtain recs where recs: "decodeRecords b = Inr recs" "\<forall>rec \<in> set recs. \<exists>c. record_change rec = Inr c"
      using Cons.prems(2) by (auto simp: replayable_def)
    have bytes: "take n (concat (b # ys)) = b @ take (n - length b) (concat ys)" using True by simp
    have "totalSizeOf (b @ take (n - length b) (concat ys)) = Inr (length b)"
      using b by (simp add: totalSizeOf_append)
    then have step: "replay_range (take n (concat (b # ys))) offset advanced t =
        replay_range (take (n - length b) (concat ys)) (lastOffset (hdr b) + 1) True (applied (batch_changes b) t)"
      using b recs replay_records_changes [OF recs(2)] unfolding bytes
      by (subst replay_range.simps) (auto simp: parseHeader_wf batch_changes_def)
    obtain ps qs where ps: "ys = ps @ qs"
        "replay_range (take (n - length b) (concat ys)) (lastOffset (hdr b) + 1) True (applied (batch_changes b) t) =
          Inr (end_offset (lastOffset (hdr b) + 1) ps, True, applied (changes ps) (applied (batch_changes b) t))"
      using Cons.IH [of "n - length b" "lastOffset (hdr b) + 1" True "applied (batch_changes b) t"] Cons.prems by auto
    then show ?thesis
      unfolding step by (intro exI [of _ "b # ps"] exI [of _ qs]) (simp add: apply_changes_append end_offset_def)
  qed
qed

subsection \<open>A segment\<close>

text \<open>A segment that answers the reads of a log between its base and its end.\<close>

definition answers :: "byte list list \<Rightarrow> 'a segment_scheme \<Rightarrow> partition_log \<Rightarrow> bool" where
  "answers bs seg l \<longleftrightarrow> segment_holds bs seg \<and> log_dir l (segmentLogPath (sg_baseOffset seg)) = Some (sg_log seg) \<and>
     sg_nextOffset seg \<le> lg_logEndOffset l \<and>
     (\<forall>offset n. sg_baseOffset seg \<le> offset \<longrightarrow> offset < sg_nextOffset seg \<longrightarrow>
        log_read offset n l = bind_r (segment_read offset n seg) (\<lambda>(position, len).
          Inr \<lparr>rr_error = NoError, rr_file = Some (sg_baseOffset seg), rr_position = position, rr_length = len\<rparr>))"

lemma answers_active:
  assumes "log_holds bss cs l"
  shows "answers cs (lg_active l) l"
  using assms active_holdsD(1) [of cs "lg_active l"] log_dir_active [OF assms]
  by (auto simp: answers_def log_holds_def log_read_def)

lemma last_filter_base:
  fixes offset :: int
  assumes "sorted_wrt (<) (map fst sealed)" "(b, seg) \<in> set sealed" "b \<le> offset"
    and "\<forall>(c, s) \<in> set sealed. b < c \<longrightarrow> offset < c"
  shows "filter (\<lambda>(base, _). base \<le> offset) sealed \<noteq> [] \<and> last (filter (\<lambda>(base, _). base \<le> offset) sealed) = (b, seg)"
  using assms
proof (induction sealed)
  case (Cons a sealed)
  show ?case
  proof (cases "(b, seg) \<in> set sealed")
    case True
    have "sorted_wrt (<) (map fst sealed)" "\<forall>(c, s) \<in> set sealed. b < c \<longrightarrow> offset < c"
      using Cons.prems(1,4) by simp_all
    from Cons.IH [OF this(1) True Cons.prems(3) this(2)] show ?thesis by simp
  next
    case False
    then have a: "a = (b, seg)" using Cons.prems(2) by simp
    have none: "\<not> c \<le> offset" if cs: "(c, s) \<in> set sealed" for c s
    proof -
      have "c \<in> set (map fst sealed)" using cs by force
      with Cons.prems(1) a have "b < c" by auto
      with bspec [OF Cons.prems(4), of "(c, s)"] cs show ?thesis by simp
    qed
    then have "filter (\<lambda>(base, _). base \<le> offset) sealed = []"
      by (auto simp: filter_empty_conv)
    with a Cons.prems(3) show ?thesis by simp
  qed
qed simp

lemma sealed_next_le:
  assumes "check_contiguity c sealed n = Inr ()" "sorted_wrt (<) (map fst sealed @ [n])" "(b, seg) \<in> set sealed"
  shows "sg_nextOffset seg \<le> n \<and> (\<forall>(d, s) \<in> set sealed. b < d \<longrightarrow> sg_nextOffset seg \<le> d)"
  using assms
proof (induction sealed)
  case (Cons a sealed)
  obtain b0 s0 where a: "a = (b0, s0)" by (cases a)
  have tail: "check_contiguity c sealed n = Inr ()" using Cons.prems(1) a by (auto simp: Let_def split: if_splits)
  show ?case
  proof (cases "(b, seg) \<in> set sealed")
    case True
    with Cons.IH [OF tail] Cons.prems(2) a show ?thesis by fastforce
  next
    case False
    with Cons.prems(3) a have s: "s0 = seg" "b0 = b" by simp_all
    have "sg_nextOffset seg \<le> (case sealed of [] \<Rightarrow> n | (following, _) # _ \<Rightarrow> following)"
      using Cons.prems(1) a s by (auto simp: Let_def split: if_splits)
    with Cons.prems(2) a s show ?thesis by (cases sealed) force+
  qed
qed simp

lemma answers_sealed:
  assumes "log_holds bss cs l" "(b, seg) \<in> set (lg_sealed l)" "segment_holds bs seg"
  shows "answers bs seg l"
proof -
  have h: "sorted_wrt (<) (map fst (lg_sealed l) @ [sg_baseOffset (lg_active l)])"
      "check_contiguity (compacted (lg_config l)) (lg_sealed l) (sg_baseOffset (lg_active l)) = Inr ()"
      "lg_logEndOffset l = sg_nextOffset (lg_active l)" "b = sg_baseOffset seg"
    using assms(1) sealed_holds_mem [of bss "lg_sealed l" b seg] assms(2) by (simp_all add: log_holds_def)
  note le = sealed_next_le [OF h(2,1) assms(2)]
  have active_end: "sg_baseOffset (lg_active l) \<le> lg_logEndOffset l"
    using assms(1) active_holdsD(6) [of cs "lg_active l"] by (simp add: log_holds_def)
  have "log_read offset n l = bind_r (segment_read offset n seg) (\<lambda>(position, len).
      Inr \<lparr>rr_error = NoError, rr_file = Some (sg_baseOffset seg), rr_position = position, rr_length = len\<rparr>)"
    if offset: "sg_baseOffset seg \<le> offset" "offset < sg_nextOffset seg" for offset n
  proof -
    have "filter (\<lambda>(base, _). base \<le> offset) (lg_sealed l) \<noteq> [] \<and>
        last (filter (\<lambda>(base, _). base \<le> offset) (lg_sealed l)) = (b, seg)"
      using h(1,4) assms(2) offset le by (intro last_filter_base) (auto simp: sorted_wrt_append)
    moreover have "offset < sg_baseOffset (lg_active l)" "offset < lg_logEndOffset l"
      using offset(2) le active_end by auto
    ultimately show ?thesis by (simp add: log_read_def)
  qed
  then show ?thesis
    using assms(3) log_dir_sealed [OF assms(1,2)] h(4) le active_end by (auto simp: answers_def)
qed

lemma replay_segment:
  assumes "answers (xs @ ys) seg l" "list_all replayable ys"
  shows "replay_from l (end_offset (sg_baseOffset seg) xs) t = replay_from l (sg_nextOffset seg) (applied (changes ys) t)"
  using assms
proof (induction "length ys" arbitrary: xs ys t rule: less_induct)
  case less
  have seg: "segment_holds (xs @ ys) seg" using less.prems(1) by (simp add: answers_def)
  then have s: "ascending (sg_baseOffset seg) xs" "ascending (end_offset (sg_baseOffset seg) xs) ys"
      "sg_nextOffset seg = end_offset (sg_baseOffset seg) (xs @ ys)" "sg_log seg = concat (xs @ ys)"
    by (simp_all add: segment_holds_def)
  show ?case
  proof (cases ys)
    case Nil
    with s(3) show ?thesis by simp
  next
    case (Cons b bs)
    let ?offset = "end_offset (sg_baseOffset seg) xs"
    have b: "batch_wf b" "?offset \<le> bh_baseOffset (hdr b)" "?offset \<le> lastOffset (hdr b)" "sg_baseOffset seg \<le> ?offset" "b \<noteq> []"
      using s(2) batch_wf_length [of b] ascending_le_end [OF s(1)] Cons by (auto simp: lastOffset_def batch_wf_def)
    have "lastOffset (hdr b) < sg_nextOffset seg"
      using ascending_last_less [of "sg_baseOffset seg" "xs @ ys" b] seg Cons by (simp add: segment_holds_def)
    then have below: "?offset < sg_nextOffset seg" "?offset < lg_logEndOffset l"
      using b(3) less.prems(1) by (auto simp: answers_def)
    have "\<forall>x \<in> set xs. lastOffset (hdr x) < ?offset" using ascending_last_less [OF s(1)] by blast
    then have scan: "scan_read ?offset kReplayBytes (xs @ ys) =
        (length (concat xs), max (length b) (min kReplayBytes (length (concat ys))))"
      using b(3) Cons by (simp add: scan_read_below) (simp add: scan_read_def)
    let ?n = "max (length b) (min kReplayBytes (length (concat ys)))"
    have read: "log_read ?offset kReplayBytes l = Inr \<lparr>rr_error = NoError, rr_file = Some (sg_baseOffset seg),
        rr_position = length (concat xs), rr_length = ?n\<rparr>"
      using less.prems(1) b(4) below(1) segment_read_scan [OF seg b(4), of kReplayBytes] scan by (simp add: answers_def)
    have range: "range_bytes l \<lparr>rr_error = NoError, rr_file = Some (sg_baseOffset seg),
        rr_position = length (concat xs), rr_length = ?n\<rparr> = take ?n (concat ys)"
      using less.prems(1) s(4) by (simp add: range_bytes_def answers_def)
    have fits: "ys \<noteq> []" "length (hd ys) \<le> ?n" using Cons by simp_all
    obtain ps qs where ps: "ys = ps @ qs" "ps \<noteq> []"
        "replay_range (take ?n (concat ys)) ?offset False t = Inr (end_offset ?offset ps, True, applied (changes ps) t)"
      using replay_range_take [OF ascending_list_all [OF s(2)] less.prems(2), of ?n ?offset False t] fits by fastforce
    have "replay_from l ?offset t = replay_from l (end_offset ?offset ps) (applied (changes ps) t)"
      using b(5) below(2) ps(3)
      by (subst replay_from.simps) (simp add: read range)
    also have "end_offset ?offset ps = end_offset (sg_baseOffset seg) (xs @ ps)"
      using ps(2) by (simp add: end_offset_def)
    also have "replay_from l \<dots> (applied (changes ps) t) = replay_from l (sg_nextOffset seg) (applied (changes qs) (applied (changes ps) t))"
      using less.prems ps(1,2) by (intro less.hyps) auto
    finally show ?thesis using ps(1) by (simp add: apply_changes_append)
  qed
qed

subsection \<open>A partition\<close>

definition gap_free :: "partition_log \<Rightarrow> bool" where
  "gap_free l \<longleftrightarrow> check_contiguity False (lg_sealed l) (sg_baseOffset (lg_active l)) = Inr ()"

lemma replay_chain:
  assumes log: "log_holds bss cs l"
  shows "sealed_holds bss' sealed \<Longrightarrow> set sealed \<subseteq> set (lg_sealed l) \<Longrightarrow> list_all replayable (concat bss') \<Longrightarrow>
    check_contiguity False sealed n = Inr () \<Longrightarrow>
    replay_from l (case sealed of [] \<Rightarrow> n | (base, _) # _ \<Rightarrow> base) t = replay_from l n (applied (changes (concat bss')) t)"
proof (induction sealed arbitrary: bss' t)
  case Nil
  then show ?case by (cases bss') simp_all
next
  case (Cons a sealed)
  obtain base seg where a: "a = (base, seg)" by (cases a)
  obtain bs rest where bss': "bss' = bs # rest" and holds: "segment_holds bs seg" "base = sg_baseOffset seg" "sealed_holds rest sealed"
    using Cons.prems(1) a by (cases bss') (auto simp: sealed_holds_def)
  have next_base: "sg_nextOffset seg = (case sealed of [] \<Rightarrow> n | (base, _) # _ \<Rightarrow> base)"
      and tail: "check_contiguity False sealed n = Inr ()"
    using Cons.prems(4) a by (auto simp: Let_def split: if_splits)
  have "answers ([] @ bs) seg l" using answers_sealed [OF log _ holds(1)] Cons.prems(2) a by auto
  then have "replay_from l base t = replay_from l (sg_nextOffset seg) (applied (changes bs) t)"
    using replay_segment [of "[]" bs seg l t] Cons.prems(3) bss' holds(2) by (simp add: end_offset_def)
  also have "\<dots> = replay_from l n (applied (changes (concat rest)) (applied (changes bs) t))"
    unfolding next_base using Cons.prems bss' holds(3) tail by (intro Cons.IH) auto
  finally show ?case using a bss' by (simp add: apply_changes_append)
qed

lemma replayPartition_all:
  assumes "log_holds bss cs l" "gap_free l" "list_all replayable (concat bss @ cs)"
  shows "replayPartition l t = Some (Inr (applied (changes (concat bss @ cs)) t))"
proof -
  let ?a = "lg_active l"
  have l: "sealed_holds bss (lg_sealed l)" "\<not> sg_nextOffset ?a < lg_logEndOffset l"
    using assms(1) by (simp_all add: log_holds_def)
  have "replayPartition l t = replay_from l (sg_baseOffset ?a) (applied (changes (concat bss)) t)"
    using replay_chain [OF assms(1) l(1)] assms(2,3) by (simp add: replayPartition_def logStartOffset_def gap_free_def)
  also have "\<dots> = replay_from l (sg_nextOffset ?a) (applied (changes cs) (applied (changes (concat bss)) t))"
    using replay_segment [of "[]" cs ?a l] answers_active [OF assms(1)] assms(3) by (simp add: end_offset_def)
  also have "\<dots> = Some (Inr (applied (changes (concat bss @ cs)) t))"
    using l(2) by (simp add: replay_from.simps apply_changes_append)
  finally show ?thesis .
qed

lemma sealed_holds_batches:
  "sealed_holds bss sealed \<Longrightarrow> (b, seg) \<in> set sealed \<Longrightarrow> \<exists>bs \<in> set bss. segment_holds bs seg"
  by (induction bss sealed rule: list_induct2') auto

text \<open>A hole behind a sealed segment ends the replay there.\<close>

lemma replayPartition_hole:
  assumes "log_holds bss cs l" "lg_sealed l = before @ (b, seg) # after" "check_contiguity False before b = Inr ()"
    and "sg_nextOffset seg < (case after of [] \<Rightarrow> sg_baseOffset (lg_active l) | (base, _) # _ \<Rightarrow> base)"
    and "list_all replayable (concat (take (Suc (length before)) bss))"
  shows "replayPartition l t = Some (Inr (applied (changes (concat (take (Suc (length before)) bss))) t))"
proof -
  let ?n = "sg_nextOffset seg" and ?bss = "take (Suc (length before)) bss" and ?a = "lg_active l"
  have h: "sealed_holds bss (lg_sealed l)" "sorted_wrt (<) (map fst (lg_sealed l) @ [sg_baseOffset ?a])"
      "lg_logEndOffset l = sg_nextOffset ?a" "active_holds cs ?a"
    using assms(1) by (simp_all add: log_holds_def)
  obtain bs where "segment_holds bs seg" "b = sg_baseOffset seg"
    using sealed_holds_mem [OF h(1), of b seg] sealed_holds_batches [OF h(1), of b seg] assms(2) by auto
  then have b: "b \<le> ?n" using ascending_le_end [of b bs] by (simp add: segment_holds_def)
  have first: "sealed_holds ?bss (before @ [(b, seg)])"
    using h(1) unfolding sealed_holds_def assms(2) by (auto dest: list_all2_takeI [of _ _ _ "Suc (length before)"])
  have "logStartOffset l = (case before @ [(b, seg)] of [] \<Rightarrow> ?n | (base, _) # _ \<Rightarrow> base)"
    by (cases before) (auto simp: logStartOffset_def assms(2))
  then have "replayPartition l t = replay_from l ?n (applied (changes (concat ?bss)) t)"
    using replay_chain [OF assms(1) first, of ?n t] assms(2,3,5) by (auto simp: replayPartition_def check_contiguity_snoc)
  moreover have "\<forall>(base, _) \<in> set after. ?n < base" "?n < sg_baseOffset ?a"
    using assms(4) h(2) unfolding assms(2) by (auto simp: sorted_wrt_append split: list.splits)
  then have "log_read ?n kReplayBytes l = Inr \<lparr>rr_error = NoError, rr_file = Some b, rr_position = sizeBytes seg, rr_length = 0\<rparr>"
    using compacted_gap_reads_empty [OF assms(1,2)] b by simp
  ultimately show ?thesis by (simp add: replay_from.simps [of l ?n])
qed

subsection \<open>No gap appears\<close>

lemma log_maybeRoll_gap_free:
  assumes "log_holds bss cs l" "gap_free l" "log_maybeRoll now l = Inr l'"
  shows "gap_free l'"
proof (cases "shouldRoll now (lg_active l)")
  case False
  with assms(2,3) show ?thesis by (simp add: log_maybeRoll_def)
next
  case True
  let ?a = "lg_active l"
  have h: "active_holds cs ?a" "valid_base (sg_baseOffset ?a)"
      "sorted_wrt (<) (map fst (lg_sealed l) @ [sg_baseOffset ?a])"
    using assms(1) by (simp_all add: log_holds_def)
  obtain seg where seg: "segment_seal ?a = Inr seg" "sg_baseOffset seg = sg_baseOffset ?a" "sg_nextOffset seg = sg_nextOffset ?a"
    using segment_seal_holds [OF h(1)] h(2) by (auto simp: valid_base_def)
  obtain fresh where fresh: "active_create (log_dir l) (sg_nextOffset ?a) (lc_roll (lg_config l)) = Inr fresh"
      "l' = l\<lparr>lg_sealed := map_emplace (sg_baseOffset ?a) seg (lg_sealed l), lg_active := fresh\<rparr>"
    using assms(3) True seg by (auto simp: log_maybeRoll_def bind_r_Inr_iff)
  have "sg_baseOffset fresh = sg_nextOffset ?a" using fresh(1) by (auto simp: active_create_def bind_r_Inr_iff)
  moreover have "map_emplace (sg_baseOffset ?a) seg (lg_sealed l) = lg_sealed l @ [(sg_baseOffset ?a, seg)]"
    using h(3) by (intro map_emplace_last) (auto simp: sorted_wrt_append)
  ultimately show ?thesis using assms(2) seg(3) fresh(2) by (simp add: gap_free_def check_contiguity_snoc)
qed

lemma log_append_gap_free:
  assumes "log_holds bss cs l" "gap_free l" "log_append b nowRoll nowAppend l = (r, l')"
  shows "gap_free l'"
proof -
  obtain l1 where l1: "log_maybeRoll nowRoll l = Inr l1" using log_maybeRoll_holds [OF assms(1)] by blast
  have "gap_free l1" by (rule log_maybeRoll_gap_free [OF assms(1,2) l1])
  moreover have "lg_sealed l' = lg_sealed l1 \<and> sg_baseOffset (lg_active l') = sg_baseOffset (lg_active l1)"
    using assms(3) l1
    by (auto simp: log_append_def Let_def segment_append_def maybeAddIndexEntry_def bind_r_Inr_iff split: sum.splits if_splits)
  ultimately show ?thesis by (simp add: gap_free_def)
qed

lemma gap_free_same_log:
  assumes "same_log l l'" "gap_free l"
  shows "gap_free l'"
proof -
  obtain bss cs where h: "log_holds bss cs l" "log_holds bss cs l'" using assms(1) by (auto simp: same_log_def)
  have bases: "map fst (lg_sealed l') = map fst (lg_sealed l)" "sg_baseOffset (lg_active l') = sg_baseOffset (lg_active l)"
    using assms(1) by (simp_all add: same_log_def)
  have ends: "map (\<lambda>(_, seg). sg_nextOffset seg) s = map2 end_offset (map fst s) bss" if "sealed_holds bss s" for s
    using that unfolding sealed_holds_def
    by (induction rule: list_all2_induct) (auto simp: segment_holds_def)
  have "map (\<lambda>(_, seg). sg_nextOffset seg) (lg_sealed l') = map (\<lambda>(_, seg). sg_nextOffset seg) (lg_sealed l)"
    using h ends bases(1) by (simp add: log_holds_def)
  from check_contiguity_cong [OF bases(1) this] bases(2) assms(2) show ?thesis by (simp add: gap_free_def)
qed

text \<open>The batches of a log are determined by its files.\<close>

lemma batches_unique:
  assumes "list_all batch_wf xs" "list_all batch_wf ys" "concat xs = concat ys"
  shows "xs = ys"
  using assms
proof (induction xs arbitrary: ys)
  case Nil
  then show ?case by (cases ys) (auto dest: batch_wf_length)
next
  case (Cons x xs)
  then obtain y zs where ys: "ys = y # zs" by (cases ys) (auto dest: batch_wf_length)
  have "totalSizeOf (x @ concat xs) = Inr (length x)" "totalSizeOf (y @ concat zs) = Inr (length y)"
    using Cons.prems(1,2) ys batch_wf_length [of x] batch_wf_length [of y] by (simp_all add: batch_wf_def totalSizeOf_append)
  moreover have "x @ concat xs = y @ concat zs" using Cons.prems(3) ys by simp
  ultimately have "length x = length y" by (metis Inr_inject)
  with Cons.prems(3) ys have "x = y" "concat xs = concat zs" by simp_all
  with Cons.IH [of zs] Cons.prems(1,2) ys show ?case by simp
qed

lemma segment_holds_unique: "segment_holds bs seg \<Longrightarrow> segment_holds bs' seg \<Longrightarrow> bs = bs'"
  by (rule batches_unique) (auto simp: segment_holds_def dest: ascending_list_all)

lemma log_holds_unique:
  assumes "log_holds bss cs l" "log_holds bss' cs' l"
  shows "bss = bss' \<and> cs = cs'"
proof -
  have "bss = bss'" if "sealed_holds bss s" "sealed_holds bss' s" for bss bss' s
    using that
  proof (induction s arbitrary: bss bss')
    case (Cons a s)
    then show ?case by (cases bss; cases bss') (auto simp: sealed_holds_def dest: segment_holds_unique)
  qed (simp add: sealed_holds_def)
  moreover have "cs = cs'" using assms by (auto simp: log_holds_def active_holds_def dest: segment_holds_unique)
  ultimately show ?thesis using assms by (auto simp: log_holds_def)
qed

subsection \<open>What a partition tells\<close>

definition tells :: "partition_log \<Rightarrow> (commit_key \<times> commit_value option) list \<Rightarrow> bool" where
  "tells l chs \<longleftrightarrow> gap_free l \<and> (\<exists>bss cs. log_holds bss cs l \<and> list_all replayable (concat bss @ cs) \<and>
     chs = changes (concat bss @ cs))"

lemma tells_replay:
  assumes "tells l chs"
  shows "replayPartition l t = Some (Inr (applied chs t))"
proof -
  obtain bss cs where "log_holds bss cs l" "gap_free l" "list_all replayable (concat bss @ cs)" "chs = changes (concat bss @ cs)"
    using assms by (auto simp: tells_def)
  then show ?thesis using replayPartition_all [of bss cs l t] by simp
qed

lemma tells_fresh: "log_holds [] [] l \<Longrightarrow> tells l []"
  unfolding tells_def
  by (intro conjI exI [of _ "[]"]) (auto simp: gap_free_def log_holds_def sealed_holds_def changes_def)

lemma tells_append:
  assumes "tells l chs" "batch_wf b" "replayable b" "lg_logEndOffset l + bh_lastOffsetDelta (hdr b) + 1 < 2 ^ 63"
    and "log_append b nowRoll nowAppend l = (r, l')"
  shows "tells l' (chs @ (case r of Inr _ \<Rightarrow> batch_changes b | Inl _ \<Rightarrow> []))"
proof -
  obtain bss cs where l: "log_holds bss cs l" "gap_free l" "list_all replayable (concat bss @ cs)" "chs = changes (concat bss @ cs)"
    using assms(1) by (auto simp: tells_def)
  note gf = log_append_gap_free [OF l(1,2) assms(5)]
  note holds = log_append_holds [OF l(1) assms(2,4,5)]
  show ?thesis
  proof (cases r)
    case (Inl e)
    with holds obtain bss' cs' where "log_holds bss' cs' l'" "concat bss' @ cs' = concat bss @ cs" by auto
    with gf l Inl show ?thesis unfolding tells_def by (intro conjI exI [of _ bss'] exI [of _ cs']) simp_all
  next
    case (Inr base)
    with holds obtain s bss' cs' where s: "base = lg_logEndOffset l" "stampBaseOffset b base = Inr s" "log_holds bss' cs' l'"
        "concat bss' @ cs' = (concat bss @ cs) @ [s]"
      by auto
    have "in_i64 base" using l(1) s(1) by (simp add: log_holds_def valid_base_def range_simps)
    then have "decodeRecords s = decodeRecords b" using stamped_decode assms(2) s(2) by blast
    then have "replayable s" "batch_changes s = batch_changes b" using assms(3) by (simp_all add: replayable_def batch_changes_def)
    with gf l s Inr show ?thesis
      unfolding tells_def by (intro conjI exI [of _ bss'] exI [of _ cs']) simp_all
  qed
qed

lemma tells_same_log:
  assumes "same_log l l'" "tells l chs"
  shows "tells l' chs"
proof -
  obtain bss cs where h: "log_holds bss cs l" "log_holds bss cs l'" using assms(1) by (auto simp: same_log_def)
  obtain bss' cs' where t: "log_holds bss' cs' l" "list_all replayable (concat bss' @ cs')" "chs = changes (concat bss' @ cs')"
    using assms(2) by (auto simp: tells_def)
  have "bss' = bss \<and> cs' = cs" by (rule log_holds_unique [OF t(1) h(1)])
  with h(2) t gap_free_same_log [OF assms(1)] assms(2) show ?thesis by (auto simp: tells_def)
qed

lemma batchFor_tells:
  assumes "commit_key_ok k" "\<And>x. v = Some x \<Longrightarrow> commit_value_ok x" "in_i64 t"
  shows "\<exists>b. batchFor k v t = Inr b \<and> valid_batch b \<and> bh_lastOffsetDelta (hdr b) = 0 \<and>
    replayable b \<and> batch_changes b = [(k, v)]"
proof -
  obtain b r where "batchFor k v t = Inr b" "valid_batch b" "bh_lastOffsetDelta (hdr b) = 0" "decodeRecords b = Inr [r]"
      "record_change r = Inr (Some (k, v))"
    using batchFor_ok [OF assms(1) _ assms(3), of v] assms(2) by blast
  then show ?thesis by (simp add: replayable_def batch_changes_def record_changes_def)
qed

end
