(* ===== verification/Offset_Recovery.thy ===== *)
theory Offset_Recovery
  imports Offset_Replay
begin

text \<open>
  The positions of the groups across a restart: in every state the store can reach, the offsets topic
  says, partition by partition, what the map in memory holds.
\<close>

subsection \<open>The last change of a key\<close>

lemma last_change_append:
  "k \<notin> fst ` set ds \<Longrightarrow> last_change (cs @ ds) base k = last_change cs base k"
  "k \<notin> fst ` set cs \<Longrightarrow> last_change (cs @ ds) base k = last_change ds base k"
proof -
  have "k \<notin> fst ` set xs \<Longrightarrow> map_of (rev xs) k = None" for xs :: "('a \<times> 'b option) list"
    by (simp add: map_of_eq_None_iff)
  then show "k \<notin> fst ` set ds \<Longrightarrow> last_change (cs @ ds) base k = last_change cs base k"
    "k \<notin> fst ` set cs \<Longrightarrow> last_change (cs @ ds) base k = last_change ds base k"
    by (simp_all add: last_change_def map_add_def split: option.split)
qed

lemma last_change_snoc:
  "last_change (cs @ [(j, v)]) base k = (if k = j then v else last_change cs base k)"
  by (simp add: last_change_def)

lemma last_change_concat:
  assumes "distinct ps" "p \<in> set ps" "\<And>q. q \<in> set ps \<Longrightarrow> q \<noteq> p \<Longrightarrow> k \<notin> fst ` set (chs q)"
  shows "last_change (concat (map chs ps)) base k = last_change (chs p) base k"
  using assms
proof (induction ps)
  case (Cons q ps)
  show ?case
  proof (cases "q = p")
    case True
    have "k \<notin> fst ` set (chs r)" if "r \<in> set ps" for r
      using Cons.prems(3) [of r] Cons.prems(1) True that by auto
    then have "k \<notin> fst ` set (concat (map chs ps))" by auto
    with True show ?thesis by (simp add: last_change_append(1))
  next
    case False
    then have "k \<notin> fst ` set (chs q)" using Cons.prems(3) [of q] by simp
    with False Cons show ?thesis by (simp add: last_change_append(2))
  qed
qed simp

subsection \<open>The invariant\<close>

abbreviation offsets_tp :: "int \<Rightarrow> topic_partition" where
  "offsets_tp p \<equiv> \<lparr>tp_topic = kOffsetsTopic, tp_partition = p\<rparr>"

text \<open>One partition says what the map holds for the groups it coordinates, and nothing else.\<close>

definition partition_synced ::
  "(string \<Rightarrow> nat) \<Rightarrow> offset_store \<Rightarrow> log_manager \<Rightarrow> int \<Rightarrow> (commit_key \<times> commit_value option) list \<Rightarrow> bool" where
  "partition_synced hash st m p chs \<longleftrightarrow> (\<exists>l. lm_get m (offsets_tp p) = Some l \<and> tells l chs) \<and>
     (\<forall>k \<in> fst ` set chs. partitionFor hash st (ck_group k) = Inr p) \<and>
     (\<forall>k. partitionFor hash st (ck_group k) = Inr p \<longrightarrow>
        map_of (os_committed st) k = last_change chs Map.empty k)"

definition synced :: "(string \<Rightarrow> nat) \<Rightarrow> offset_store \<Rightarrow> log_manager \<Rightarrow> bool" where
  "synced hash st m \<longleftrightarrow> manager_ok m \<and> 0 < os_partitions st \<and> os_partitions st < 2 ^ 31 \<and> keys_sorted (os_committed st) \<and>
     (\<forall>tp \<in> fst ` set (lm_logs m). tp_topic tp = kOffsetsTopic \<longrightarrow> tp_partition tp \<in> {0..<os_partitions st}) \<and>
     (\<forall>p \<in> {0..<os_partitions st}. \<exists>chs. partition_synced hash st m p chs)"

lemma partitionFor_total:
  assumes "0 < os_partitions st" "os_partitions st < 2 ^ 31"
  shows "\<exists>p. partitionFor hash st g = Inr p \<and> p \<in> {0..<os_partitions st}"
proof -
  let ?p = "int (hash g) mod os_partitions st"
  have p: "0 \<le> ?p" "?p < os_partitions st" using assms by simp_all
  with assms(2) have "in_i32 ?p" unfolding in_i32_def by linarith
  with p show ?thesis using assms by (simp add: partitionFor_def coordinatorPartition_def)
qed

lemma replay_partitions_all:
  assumes "\<And>p. p \<in> set ps \<Longrightarrow> \<exists>l. lm_get m (offsets_tp p) = Some l \<and> tells l (chs p)"
  shows "replay_partitions ps m t = Some (Inr (applied (concat (map chs ps)) t))"
  using assms
proof (induction ps arbitrary: t)
  case (Cons p ps)
  obtain l where "lm_get m (offsets_tp p) = Some l" "tells l (chs p)" using Cons.prems [of p] by auto
  moreover have "replay_partitions ps m u = Some (Inr (applied (concat (map chs ps)) u))" for u
    using Cons.prems by (intro Cons.IH) simp
  ultimately show ?case by (simp add: tells_replay apply_changes_append)
qed simp

lemma synced_replay:
  assumes "synced hash st m"
  shows "replay m (OffsetStore (os_partitions st)) = Some (Inr st)"
proof -
  let ?n = "os_partitions st" and ?ps = "[0..os_partitions st - 1]"
  have s: "0 < ?n" "?n < 2 ^ 31" "keys_sorted (os_committed st)" using assms by (simp_all add: synced_def)
  have "\<forall>p \<in> {0..<?n}. \<exists>chs. partition_synced hash st m p chs" using assms by (simp add: synced_def)
  then obtain chs where "\<forall>p \<in> {0..<?n}. partition_synced hash st m p (chs p)" by (auto dest: bchoice)
  then have c: "\<And>p. p \<in> {0..<?n} \<Longrightarrow> \<exists>l. lm_get m (offsets_tp p) = Some l \<and> tells l (chs p)"
        "\<And>p k. p \<in> {0..<?n} \<Longrightarrow> k \<in> fst ` set (chs p) \<Longrightarrow> partitionFor hash st (ck_group k) = Inr p"
        "\<And>p k. p \<in> {0..<?n} \<Longrightarrow> partitionFor hash st (ck_group k) = Inr p \<Longrightarrow>
           map_of (os_committed st) k = last_change (chs p) Map.empty k"
    unfolding partition_synced_def by blast+
  have range: "set ?ps = {0..<?n}" by auto
  let ?t = "applied (concat (map chs ?ps)) []"
  have "map_of ?t k = map_of (os_committed st) k" for k
  proof -
    obtain p where p: "partitionFor hash st (ck_group k) = Inr p" "p \<in> {0..<?n}" using partitionFor_total [OF s(1,2)] by blast
    have other: "k \<notin> fst ` set (chs q)" if "q \<in> set ?ps" "q \<noteq> p" for q
      using c(2) [of q k] that p range by force
    have "map_of ?t k = last_change (concat (map chs ?ps)) Map.empty k" by (simp only: smap.look_replay)
    also have "\<dots> = last_change (chs p) Map.empty k" using p(2) range other by (intro last_change_concat) simp_all
    finally show ?thesis using c(3) [OF p(2,1)] by simp
  qed
  then have "?t = os_committed st" using s(3) smap.inv_changes [of "[]"] by (intro keys_sorted_eqI) (auto simp: smap.inv_empty)
  moreover have "replay_partitions ?ps m [] = Some (Inr ?t)" using c(1) range by (intro replay_partitions_all) blast
  ultimately show ?thesis by (simp add: replay_def OffsetStore_def)
qed

subsection \<open>The steps of the store\<close>

lemma lm_update_names: "fst ` set (lm_logs (lm_update tp l m)) = fst ` set (lm_logs m)"
  by (simp add: lm_update_def image_image case_prod_unfold)

lemma synced_append:
  assumes st: "synced hash st m" and k: "commit_key_ok key" "\<And>x. v = Some x \<Longrightarrow> commit_value_ok x" "in_i64 t"
    and room: "\<And>p l. lm_get m (offsets_tp p) = Some l \<Longrightarrow> lg_logEndOffset l + 1 < 2 ^ 63"
    and run: "append_commit hash key v t clock st m = (r, m')"
    and after: "keys_sorted committed" "\<And>k. map_of committed k =
      (if k = key \<and> r = Inr () then v else map_of (os_committed st) k)"
  shows "synced hash (st\<lparr>os_committed := committed\<rparr>) m'"
proof -
  let ?n = "os_partitions st" and ?st = "st\<lparr>os_committed := committed\<rparr>"
  have s: "manager_ok m" "0 < ?n" "?n < 2 ^ 31"
      "\<forall>tp \<in> fst ` set (lm_logs m). tp_topic tp = kOffsetsTopic \<longrightarrow> tp_partition tp \<in> {0..<?n}"
    using st by (simp_all add: synced_def)
  have each: "\<exists>chs. partition_synced hash st m q chs" if "q \<in> {0..<?n}" for q using st that by (simp add: synced_def)
  obtain p where p: "partitionFor hash st (ck_group key) = Inr p" "p \<in> {0..<?n}" using partitionFor_total [OF s(2,3)] by blast
  obtain chs where chs: "partition_synced hash st m p chs" using each [OF p(2)] by blast
  then obtain l where l: "lm_get m (offsets_tp p) = Some l" "tells l chs" by (auto simp: partition_synced_def)
  obtain b where b: "batchFor key v t = Inr b" "valid_batch b" "bh_lastOffsetDelta (hdr b) = 0" "replayable b"
      "batch_changes b = [(key, v)]"
    using batchFor_tells [of key v t] k by blast
  obtain r' l' where app: "log_append b (fst clock) (snd clock) l = (r', l')" by fastforce
  have wf: "batch_wf b" using b(2) by (simp add: valid_batch_def)
  have m': "m' = lm_update (offsets_tp p) l' m" and r: "r = Inr () \<longleftrightarrow> (\<exists>base. r' = Inr base)"
    using run p(1) l(1) b(1) app by (auto simp: append_commit_def Let_def split: sum.splits)
  let ?new = "chs @ (if r = Inr () then [(key, v)] else [])"
  have new: "tells l' ?new"
    using tells_append [OF l(2) wf b(4) _ app] room [OF l(1)] b(3,5) r by (cases r') auto
  have same: "partitionFor hash ?st = partitionFor hash st" by (simp add: fun_eq_iff partitionFor_def)
  have "manager_ok m'" unfolding m' by (rule append_ok [OF s(1) l(1) wf _ app]) (use room [OF l(1)] b(3) in simp)
  moreover have "fst ` set (lm_logs m') = fst ` set (lm_logs m)" by (simp only: m' lm_update_names)
  moreover have "\<exists>chs. partition_synced hash ?st m' q chs" if q: "q \<in> {0..<?n}" for q
  proof (cases "q = p")
    case True
    have "partition_synced hash ?st m' p ?new"
      using chs l(1) new after(2) p(1) by (auto simp: partition_synced_def same m' lm_get_update last_change_snoc)
    with True show ?thesis by blast
  next
    case False
    obtain chs where "partition_synced hash st m q chs" using each [OF q] by blast
    moreover have "k \<noteq> key" if "partitionFor hash st (ck_group k) = Inr q" for k using that p(1) False by auto
    ultimately have "partition_synced hash ?st m' q chs"
      using False after(2) by (auto simp: partition_synced_def same m' lm_get_update)
    then show ?thesis by blast
  qed
  ultimately show ?thesis using s after(1) by (simp add: synced_def)
qed

lemma synced_commit:
  assumes "synced hash st m" "commit_key_ok key" "commit_value_ok v"
    and "\<And>p l. lm_get m (offsets_tp p) = Some l \<Longrightarrow> lg_logEndOffset l + 1 < 2 ^ 63"
    and "commit hash key v clock (st, m) = (r, st', m')"
  shows "synced hash st' m'"
proof -
  obtain r' where run: "append_commit hash key (Some v) (cv_commitTimestampMs v) clock st m = (r', m')"
      "os_committed st' = (if r' = Inr () then set_at key v (os_committed st) else os_committed st)"
      "st' = st\<lparr>os_committed := os_committed st'\<rparr>"
    using assms(5) by (auto simp: commit_def split: prod.splits sum.splits)
  have "keys_sorted (os_committed st)" using assms(1) by (simp add: synced_def)
  then have "synced hash (st\<lparr>os_committed := os_committed st'\<rparr>) m'"
    using assms(3) run(2)
    by (intro synced_append [OF assms(1,2) _ _ assms(4) run(1)])
      (auto simp: commit_value_ok_def smap.inv_insert smap.look_insert)
  with run(3) show ?thesis by simp
qed

lemma synced_forget:
  assumes "synced hash st m" "commit_key_ok key" "in_i64 now"
    and "\<And>p l. lm_get m (offsets_tp p) = Some l \<Longrightarrow> lg_logEndOffset l + 1 < 2 ^ 63"
    and "forget hash key now clock (st, m) = (r, st', m')"
  shows "synced hash st' m'"
proof -
  obtain r' where run: "append_commit hash key None now clock st m = (r', m')"
      "os_committed st' = (if r' = Inr () then erase_at key (os_committed st) else os_committed st)"
      "st' = st\<lparr>os_committed := os_committed st'\<rparr>"
    using assms(5) by (auto simp: forget_def split: prod.splits sum.splits)
  have "keys_sorted (os_committed st)" using assms(1) by (simp add: synced_def)
  then have "synced hash (st\<lparr>os_committed := os_committed st'\<rparr>) m'"
    using assms(3) run(2)
    by (intro synced_append [OF assms(1,2) _ _ assms(4) run(1)])
      (auto simp: smap.inv_remove smap.look_remove)
  with run(3) show ?thesis by simp
qed

text \<open>What happens to other topics.\<close>

lemma synced_other:
  assumes "synced hash st m" "manager_ok m'" "\<And>p. lm_get m' (offsets_tp p) = lm_get m (offsets_tp p)"
    and "\<And>tp. tp \<in> fst ` set (lm_logs m') \<Longrightarrow> tp_topic tp = kOffsetsTopic \<Longrightarrow> tp \<in> fst ` set (lm_logs m)"
  shows "synced hash st m'"
proof -
  have "partition_synced hash st m' p chs" if "partition_synced hash st m p chs" for p chs
    using that assms(3) by (simp add: partition_synced_def)
  with assms(1,2,4) show ?thesis unfolding synced_def by blast
qed

lemma synced_restart:
  assumes st: "synced hash st m" and image: "crash_image m entries"
  shows "\<exists>m'. loadAll entries now (LogManager defaults) = Inr m' \<and> synced hash st m'"
proof -
  obtain m' where m': "loadAll entries now (LogManager defaults) = Inr m'" "manager_ok m'"
      "hostedPartitions m' = hostedPartitions m"
      "\<And>tp l. lm_get m tp = Some l \<Longrightarrow> \<exists>l'. lm_get m' tp = Some l' \<and> same_log l l'"
    using restart_ok [of m entries now defaults] st image by (auto simp: synced_def)
  have "set (hostedPartitions m') = set (hostedPartitions m)" by (simp add: m'(3))
  then have names: "fst ` set (lm_logs m') = fst ` set (lm_logs m)" by (simp add: hostedPartitions_def)
  have "partition_synced hash st m' p chs" if t: "partition_synced hash st m p chs" for p chs
  proof -
    obtain l where l: "lm_get m (offsets_tp p) = Some l" "tells l chs" using t by (auto simp: partition_synced_def)
    obtain l' where "lm_get m' (offsets_tp p) = Some l'" "same_log l l'" using m'(4) [OF l(1)] by blast
    with tells_same_log [OF _ l(2)] t show ?thesis by (simp add: partition_synced_def)
  qed
  then have "synced hash st m'" using st m'(2) unfolding synced_def names by blast
  with m'(1) show ?thesis by blast
qed

subsection \<open>Creating the topic\<close>

lemma create_partitions_ok:
  assumes "manager_ok m" "create_partitions topic config ps m = (Inr (), m')" "\<And>p. p \<in> set ps \<Longrightarrow> p < 2 ^ 31"
  shows "manager_ok m' \<and> (\<exists>ls. length ls = length ps \<and> (\<forall>l \<in> set ls. log_holds [] [] l) \<and>
    lm_logs m' = lm_logs m @ zip (map (\<lambda>p. \<lparr>tp_topic = topic, tp_partition = p\<rparr>) ps) ls)"
  using assms
proof (induction ps arbitrary: m)
  case (Cons p ps)
  obtain m1 where m1: "createPartition \<lparr>tp_topic = topic, tp_partition = p\<rparr> config m = Inr m1"
      "create_partitions topic config ps m1 = (Inr (), m')"
    using Cons.prems(2) by (auto split: sum.splits)
  note ok = createPartition_ok [OF Cons.prems(1) m1(1)]
  obtain l where l: "lm_logs m1 = lm_logs m @ [(\<lparr>tp_topic = topic, tp_partition = p\<rparr>, l)]" "log_holds [] [] l"
    using ok(2) Cons.prems(3) by auto
  obtain ls where "manager_ok m'" "length ls = length ps" "\<forall>l \<in> set ls. log_holds [] [] l"
      "lm_logs m' = lm_logs m1 @ zip (map (\<lambda>p. \<lparr>tp_topic = topic, tp_partition = p\<rparr>) ps) ls"
    using Cons.IH [OF _ m1(2)] ok(1) Cons.prems(3) by auto
  with l show ?case by (intro conjI exI [of _ "l # ls"]) simp_all
qed simp

lemma ensureOffsetsTopic_fresh:
  assumes "manager_ok m" "n < 2 ^ 31" "ensureOffsetsTopic n m = (Inr k, m')"
    and fresh: "\<And>tp. tp \<in> fst ` set (lm_logs m) \<Longrightarrow> tp_topic tp \<noteq> kOffsetsTopic"
  shows "synced hash (OffsetStore n) m'"
proof -
  have none: "filter (\<lambda>tp. tp_topic tp = kOffsetsTopic) (hostedPartitions m) = []"
    using fresh by (auto simp: filter_empty_conv hostedPartitions_def)
  have n: "0 < n" using assms(3) by (auto simp: ensureOffsetsTopic_def split: if_splits)
  then have "create_partitions kOffsetsTopic (offsets_config (lm_defaults m)) [0..n - 1] m = (Inr (), m')"
    using assms(3) none by (auto simp: ensureOffsetsTopic_def Let_def split: prod.splits sum.splits)
  from create_partitions_ok [OF assms(1) this] obtain ls where ls: "manager_ok m'" "length ls = nat n"
      "\<forall>l \<in> set ls. log_holds [] [] l" "lm_logs m' = lm_logs m @ zip (map offsets_tp [0..n - 1]) ls"
    using assms(2) by auto
  have "map fst (zip (map offsets_tp [0..n - 1]) ls) = map offsets_tp [0..n - 1]" using ls(2) by simp
  then have created: "fst ` set (zip (map offsets_tp [0..n - 1]) ls) = offsets_tp ` set [0..n - 1]" by (metis list.set_map)
  have "\<exists>l. lm_get m' (offsets_tp p) = Some l \<and> tells l []" if p: "p \<in> {0..<n}" for p
  proof -
    have "offsets_tp p \<in> fst ` set (zip (map offsets_tp [0..n - 1]) ls)" unfolding created using p by auto
    then obtain l where "(offsets_tp p, l) \<in> set (zip (map offsets_tp [0..n - 1]) ls)" by auto
    moreover from this have "l \<in> set ls" by (rule set_zip_rightD)
    ultimately show ?thesis using ls manager_ok_get [OF ls(1)] tells_fresh by auto
  qed
  moreover have "tp_partition tp \<in> {0..<n}" if "tp \<in> fst ` set (lm_logs m')" "tp_topic tp = kOffsetsTopic" for tp
  proof -
    have "tp \<in> fst ` set (zip (map offsets_tp [0..n - 1]) ls)" using that fresh ls(4) by auto
    then show ?thesis unfolding created by auto
  qed
  ultimately show ?thesis
    using n assms(2) ls(1)
    by (auto simp: synced_def partition_synced_def OffsetStore_def last_change_def smap.inv_empty intro!: exI [of _ "[]"])
qed

lemma ensureOffsetsTopic_again:
  assumes "synced hash st m"
  shows "ensureOffsetsTopic (os_partitions st) m = (Inr (os_partitions st), m)"
proof -
  let ?n = "os_partitions st"
  let ?found = "filter (\<lambda>tp. tp_topic tp = kOffsetsTopic) (hostedPartitions m)"
  have m: "manager_ok m" "0 < ?n" using assms by (simp_all add: synced_def)
  have "set ?found = offsets_tp ` {0..<?n}"
  proof (intro set_eqI iffI)
    fix tp assume "tp \<in> set ?found"
    then have "tp_partition tp \<in> {0..<?n}" "tp = offsets_tp (tp_partition tp)"
      using assms by (auto simp: synced_def hostedPartitions_def)
    then show "tp \<in> offsets_tp ` {0..<?n}" by blast
  next
    fix tp assume "tp \<in> offsets_tp ` {0..<?n}"
    then obtain p l where "tp = offsets_tp p" "lm_get m tp = Some l"
      using assms by (auto simp: synced_def partition_synced_def)
    then show "tp \<in> set ?found"
      using manager_ok_get [OF m(1)] by (force simp: hostedPartitions_def)
  qed
  moreover have "distinct ?found" using manager_ok_distinct [OF m(1)] by (simp add: hostedPartitions_def)
  moreover have "card (offsets_tp ` {0..<?n}) = nat ?n" by (subst card_image) (auto simp: inj_on_def)
  ultimately have "length ?found = nat ?n" by (metis distinct_card)
  then show ?thesis using m(2) by (simp add: ensureOffsetsTopic_def)
qed

subsection \<open>Every state the store can reach\<close>

text \<open>
  A broker that starts on a data directory without the topic creates it; from then on commits and
  deletions of positions, whether they succeed or not, whatever happens to other topics, and
  restarts after crashes. Compaction of the topic itself is left out: what it can do is the subject of
  \<open>replay_stops_at_hole\<close>.
\<close>

inductive store_reach :: "(string \<Rightarrow> nat) \<Rightarrow> log_config \<Rightarrow> int \<Rightarrow> offset_store \<Rightarrow> log_manager \<Rightarrow> bool" for hash defaults n where
  sr_start: "manager_reach defaults m \<Longrightarrow> \<forall>tp \<in> fst ` set (lm_logs m). tp_topic tp \<noteq> kOffsetsTopic \<Longrightarrow> n < 2 ^ 31 \<Longrightarrow>
    ensureOffsetsTopic n m = (Inr k, m') \<Longrightarrow> store_reach hash defaults n (OffsetStore n) m'"
| sr_commit: "store_reach hash defaults n st m \<Longrightarrow> commit_key_ok key \<Longrightarrow> commit_value_ok v \<Longrightarrow>
    \<forall>p l. lm_get m (offsets_tp p) = Some l \<longrightarrow> lg_logEndOffset l + 1 < 2 ^ 63 \<Longrightarrow>
    commit hash key v clock (st, m) = (r, st', m') \<Longrightarrow> store_reach hash defaults n st' m'"
| sr_forget: "store_reach hash defaults n st m \<Longrightarrow> commit_key_ok key \<Longrightarrow> in_i64 now \<Longrightarrow>
    \<forall>p l. lm_get m (offsets_tp p) = Some l \<longrightarrow> lg_logEndOffset l + 1 < 2 ^ 63 \<Longrightarrow>
    forget hash key now clock (st, m) = (r, st', m') \<Longrightarrow> store_reach hash defaults n st' m'"
| sr_create: "store_reach hash defaults n st m \<Longrightarrow> tp_topic tp \<noteq> kOffsetsTopic \<Longrightarrow> tp_partition tp < 2 ^ 31 \<Longrightarrow>
    createPartition tp config m = Inr m' \<Longrightarrow> store_reach hash defaults n st m'"
| sr_remove: "store_reach hash defaults n st m \<Longrightarrow> tp_topic tp \<noteq> kOffsetsTopic \<Longrightarrow>
    removePartition tp now m = Inr m' \<Longrightarrow> store_reach hash defaults n st m'"
| sr_append: "store_reach hash defaults n st m \<Longrightarrow> tp_topic tp \<noteq> kOffsetsTopic \<Longrightarrow> lm_get m tp = Some l \<Longrightarrow>
    batch_wf b \<Longrightarrow> lg_logEndOffset l + bh_lastOffsetDelta (hdr b) + 1 < 2 ^ 63 \<Longrightarrow>
    log_append b roll now l = (r, l') \<Longrightarrow> store_reach hash defaults n st (lm_update tp l' m)"
| sr_control: "store_reach hash defaults n st m \<Longrightarrow> startMaintenance interval m = Inr m' \<or> m' = stopMaintenance m \<Longrightarrow>
    store_reach hash defaults n st m'"
| sr_restart: "store_reach hash defaults n st m \<Longrightarrow> crash_image m entries \<Longrightarrow>
    loadAll entries now (LogManager defaults) = Inr m1 \<Longrightarrow> ensureOffsetsTopic n m1 = (Inr k, m') \<Longrightarrow>
    replay m' (OffsetStore n) = Some (Inr st') \<Longrightarrow> store_reach hash defaults n st' m'"

lemma commit_partitions:
  "commit hash key v clock (st, m) = (r, st', m') \<Longrightarrow> os_partitions st' = os_partitions st"
  "forget hash key now clock (st, m) = (r, st', m') \<Longrightarrow> os_partitions st' = os_partitions st"
  by (auto simp: commit_def forget_def split: prod.splits sum.splits)

lemma restart_recovers:
  assumes "synced hash st m" "crash_image m entries"
  shows "\<exists>m'. loadAll entries now (LogManager defaults) = Inr m' \<and> synced hash st m' \<and>
    ensureOffsetsTopic (os_partitions st) m' = (Inr (os_partitions st), m') \<and>
    replay m' (OffsetStore (os_partitions st)) = Some (Inr st)"
  using synced_restart [OF assms, of now defaults] ensureOffsetsTopic_again synced_replay by blast

lemma store_reach_synced:
  assumes "store_reach hash defaults n st m"
  shows "synced hash st m \<and> os_partitions st = n"
  using assms
proof (induction rule: store_reach.induct)
  case (sr_start m k m')
  have "manager_ok m" using sr_start(1) by (rule manager_reach_ok)
  then have "synced hash (OffsetStore n) m'" by (rule ensureOffsetsTopic_fresh [OF _ sr_start(3,4)]) (use sr_start(2) in blast)
  then show ?case by (simp add: OffsetStore_def)
next
  case (sr_commit st m key v clock r st' m')
  then show ?case using synced_commit [of hash st m key v clock r st' m'] commit_partitions(1) by blast
next
  case (sr_forget st m key now clock r st' m')
  then show ?case using synced_forget [of hash st m key now clock r st' m'] commit_partitions(2) by blast
next
  case (sr_create st m tp config m')
  have m: "manager_ok m" using sr_create.IH by (simp add: synced_def)
  obtain l where l: "lm_logs m' = lm_logs m @ [(tp, l)]" using createPartition_ok(2) [OF m sr_create(4,3)] by blast
  have "synced hash st m'"
    by (rule synced_other [OF conjunct1 [OF sr_create.IH] createPartition_ok(1) [OF m sr_create(4,3)]])
      (use sr_create(2) l in \<open>auto simp: lm_get_def map_add_def split: option.split\<close>)
  with sr_create.IH show ?case by simp
next
  case (sr_remove st m tp now m')
  have m: "manager_ok m" using sr_remove.IH by (simp add: synced_def)
  note logs = removePartition_ok(2) [OF m sr_remove(3)]
  have "map_of (filter (\<lambda>(t, _). t \<noteq> tp) xs) (offsets_tp p) = map_of xs (offsets_tp p)" for p xs
    using sr_remove(2) by (induction xs) auto
  then have "synced hash st m'"
    by (intro synced_other [OF conjunct1 [OF sr_remove.IH] removePartition_ok(1) [OF m sr_remove(3)]])
      (auto simp: lm_get_def logs)
  with sr_remove.IH show ?case by simp
next
  case (sr_append st m tp l b roll now r l')
  have m: "manager_ok m" using sr_append.IH by (simp add: synced_def)
  have "synced hash st (lm_update tp l' m)"
    by (rule synced_other [OF conjunct1 [OF sr_append.IH] append_ok [OF m sr_append(3-6)]])
      (use sr_append(2) in \<open>auto simp: lm_get_update lm_update_names\<close>)
  with sr_append.IH show ?case by simp
next
  case (sr_control st m interval m')
  then have logs: "lm_logs m' = lm_logs m" "lm_removed m' = lm_removed m" "lm_others m' = lm_others m"
    by (auto simp: startMaintenance_def stopMaintenance_def split: if_splits)
  have "manager_ok m'" using manager_ok_control [OF _ logs] sr_control.IH by (simp add: synced_def)
  then have "synced hash st m'" by (rule synced_other [OF conjunct1 [OF sr_control.IH]]) (simp_all add: lm_get_def logs)
  with sr_control.IH show ?case by simp
next
  case (sr_restart st m entries now m1 k m' st')
  then show ?case using restart_recovers [of hash st m entries now defaults] by auto
qed

subsection \<open>Properties\<close>

text \<open>A committed position survives a crash: after any history of commits, deletions of positions,
activity in other topics and restarts, a broker that starts on what a crash left finds the topic with
its partition count and rebuilds exactly the map the store had; replay comes to an end.\<close>

lemma offsets_survive_restart:
  assumes "store_reach hash defaults n st m" "crash_image m entries"
  shows "\<exists>m'. loadAll entries now (LogManager defaults) = Inr m' \<and> ensureOffsetsTopic n m' = (Inr n, m') \<and>
    replay m' (OffsetStore n) = Some (Inr st)"
  using restart_recovers [OF _ assms(2), of hash st now defaults] store_reach_synced [OF assms(1)] by blast

text \<open>C17. Replay reads an offsets partition that compaction left with a hole behind a sealed segment only up
to the hole: every commit behind it is lost, although it is in the log.\<close>

theorem replay_stops_at_hole:
  assumes "log_holds bss cs l" "lg_sealed l = before @ (b, seg) # after" "check_contiguity False before b = Inr ()"
    and "sg_nextOffset seg < (case after of [] \<Rightarrow> sg_baseOffset (lg_active l) | (base, _) # _ \<Rightarrow> base)"
    and "list_all replayable (concat (take (Suc (length before)) bss))"
  shows "replayPartition l t = Some (Inr (applied (changes (concat (take (Suc (length before)) bss))) t))"
  using assms by (rule replayPartition_hole)

subsection \<open>Concrete stores\<close>

lemma batch_wf_bounded: "batch_wf b \<Longrightarrow> length b < 2147483660"
  by (auto simp: batch_wf_def dest: totalSizeOf_InrD(4))

abbreviation demo_commits :: "int \<Rightarrow> offset_store" where
  "demo_commits n \<equiv> \<lparr>os_partitions = 1, os_committed = [(demo_key, demo_position n)]\<rparr>"

lemma demo_topic:
  "\<exists>m l. ensureOffsetsTopic 1 (LogManager (small_config Delete)) = (Inr 1, m) \<and> lm_logs m = [(offsets_tp 0, l)] \<and>
     log_holds [] [] l \<and> sg_baseOffset (lg_active l) = 0 \<and> lg_tp l = offsets_tp 0 \<and> lg_config l = offsets_config (small_config Delete) \<and>
     \<not> lm_running m"
proof -
  let ?config = "offsets_config (small_config Delete)" and ?m = "LogManager (small_config Delete)"
  obtain active where a: "active_create Map.empty 0 small_policy = Inr active"
    using active_create_total [of Map.empty 0 small_policy] by auto
  have "meta_ok \<lparr>pm_tp = offsets_tp 0, pm_config = ?config\<rparr>"
    by (simp add: meta_ok_def offsets_config_def kOffsetsTopic_def range_simps)
  then have "\<exists>files. writePartitionMeta Map.empty \<lparr>pm_tp = offsets_tp 0, pm_config = ?config\<rparr> = Inr files"
    using encodePartitionMeta_bytes [of "\<lparr>pm_tp = offsets_tp 0, pm_config = ?config\<rparr>"]
    by (simp add: writePartitionMeta_def meta_ok_def)
  with a obtain l where l: "log_create Map.empty (offsets_tp 0) ?config = Inr l"
    by (auto simp: log_create_def offsets_config_def)
  have "requireUsableName (offsets_tp 0) = Inr ()" by code_simp
  with l have "createPartition (offsets_tp 0) ?config ?m = Inr (?m\<lparr>lm_logs := [(offsets_tp 0, l)]\<rparr>)"
    by (simp add: createPartition_def LogManager_def existing_files_def data_dir_def)
  moreover have "lm_defaults ?m = small_config Delete" "hostedPartitions ?m = []" by (simp_all add: LogManager_def hostedPartitions_def)
  ultimately have "ensureOffsetsTopic 1 ?m = (Inr 1, ?m\<lparr>lm_logs := [(offsets_tp 0, l)]\<rparr>)"
    by (simp add: ensureOffsetsTopic_def)
  moreover have "sg_baseOffset (lg_active l) = 0"
    using log_create_good(1,4) [OF l] active_holdsD(4) [of "[]" "lg_active l"] by (simp add: log_holds_def end_offset_def)
  ultimately show ?thesis using log_create_good [OF l] by (simp add: LogManager_def)
qed

lemma first_append:
  assumes "log_holds [] [] l" "sg_baseOffset (lg_active l) = 0" "valid_batch b" "bh_lastOffsetDelta (hdr b) = 0"
  shows "\<exists>s l'. log_append b roll now l = (Inr 0, l') \<and> log_holds [] [s] l' \<and> valid_batch s \<and> lastOffset (hdr s) = 0 \<and>
    sg_baseOffset (lg_active l') = 0 \<and> lg_tp l' = lg_tp l \<and> lg_config l' = lg_config l"
proof -
  let ?a = "lg_active l"
  have l: "active_holds [] ?a" "lg_sealed l = []" "lg_logEndOffset l = 0" "sg_nextOffset ?a = 0" "sg_log ?a = []"
    using assms(1,2) active_holdsD(1,4) [of "[]" ?a]
    by (auto simp: log_holds_def sealed_holds_def active_holds_def segment_holds_def end_offset_def)
  then have roll: "log_maybeRoll roll l = Inr l"
    using assms(2) by (simp add: log_maybeRoll_def shouldRoll_def segment_isEmpty_def)
  have b: "batch_wf b" "verifyCrc b = Inr True" using assms(3) by (simp_all add: valid_batch_def)
  obtain s where s: "stampBaseOffset b 0 = Inr s" "batch_wf s" "hdr s = (hdr b)\<lparr>bh_baseOffset := 0\<rparr>" "verifyCrc s = Inr True"
    using stamped_batch_wf [OF b(1), of 0] b(2) by (auto simp: in_i64_def)
  obtain a' where a': "segment_append 0 s now ?a = Inr a'"
    using s(2,3) l(4,5) by (auto simp: segment_append_def parseHeader_wf maybeAddIndexEntry_def)
  let ?l = "l\<lparr>lg_active := a', lg_logEndOffset := sg_nextOffset a', lg_highWatermark := sg_nextOffset a'\<rparr>"
  have h: "active_holds [s] a'" "sg_baseOffset a' = 0" using segment_append_holds [OF l(1) s(2) a'] assms(2) by simp_all
  then have "sg_nextOffset a' = 1"
    using active_holdsD(4) [OF h(1)] s(3) assms(4) by (simp add: lastOffset_def end_offset_def)
  then have "log_holds [] [s] ?l" using assms(1,2) l(2) h by (simp add: log_holds_def valid_base_def)
  moreover have "log_append b roll now l = (Inr 0, ?l)" using roll s(1) a' l(3) by (simp add: log_append_def)
  ultimately show ?thesis
    using s assms(4) h(2) by (intro exI [of _ s] exI [of _ ?l]) (simp add: valid_batch_def lastOffset_def)
qed

text \<open>The first commit of a group.\<close>

lemma demo_commit_run:
  assumes "lm_logs m = [(offsets_tp 0, l)]" "log_holds [] [] l" "sg_baseOffset (lg_active l) = 0" "lg_tp l = offsets_tp 0"
    and "lg_config l = offsets_config (small_config Delete)"
  shows "\<exists>s l'. commit (\<lambda>_. 0) demo_key (demo_position 10) (7, 7) (OffsetStore 1, m) = (Inr (), demo_commits 10, lm_update (offsets_tp 0) l' m) \<and>
     lm_logs (lm_update (offsets_tp 0) l' m) = [(offsets_tp 0, l')] \<and>
     log_holds [] [s] l' \<and> valid_batch s \<and> lastOffset (hdr s) = 0 \<and> sg_baseOffset (lg_active l') = 0 \<and>
     lg_tp l' = offsets_tp 0 \<and> lg_config l' = offsets_config (small_config Delete) \<and> lg_logEndOffset l = 0"
proof -
  obtain b where b: "batchFor demo_key (Some (demo_position 10)) 7 = Inr b" "valid_batch b" "bh_lastOffsetDelta (hdr b) = 0"
    using batchFor_tells [of demo_key "Some (demo_position 10)" 7] demo_commit_ok by (auto simp: in_i64_def)
  obtain s l' where s: "log_append b 7 7 l = (Inr 0, l')" "log_holds [] [s] l'" "valid_batch s" "lastOffset (hdr s) = 0"
      "sg_baseOffset (lg_active l') = 0" "lg_tp l' = offsets_tp 0" "lg_config l' = offsets_config (small_config Delete)"
    using first_append [OF assms(2,3) b(2,3), of 7 7] assms(4,5) by auto
  have "lm_get m (offsets_tp 0) = Some l" using assms(1) by (simp add: lm_get_def)
  moreover have "partitionFor (\<lambda>_. 0) (OffsetStore 1) ''g'' = Inr 0" by (simp add: partitionFor_def coordinatorPartition_def OffsetStore_def in_i32_def)
  ultimately have "commit (\<lambda>_. 0) demo_key (demo_position 10) (7, 7) (OffsetStore 1, m) =
      (Inr (), demo_commits 10, lm_update (offsets_tp 0) l' m)"
    using b(1) s(1) by (simp add: commit_def append_commit_def OffsetStore_def)
  moreover have "lg_logEndOffset l = 0" using assms(2,3) active_holdsD(4) [of "[]" "lg_active l"]
    by (simp add: log_holds_def active_holds_def segment_holds_def end_offset_def)
  ultimately show ?thesis using s assms(1) by (intro exI [of _ s] exI [of _ l']) (simp add: lm_update_def)
qed

lemma demo_committed:
  "\<exists>m0 m l b. store_reach (\<lambda>_. 0) (small_config Delete) 1 (OffsetStore 1) m0 \<and>
     (\<forall>p l. lm_get m0 (offsets_tp p) = Some l \<longrightarrow> lg_logEndOffset l = 0) \<and>
     commit (\<lambda>_. 0) demo_key (demo_position 10) (7, 7) (OffsetStore 1, m0) = (Inr (), demo_commits 10, m) \<and>
     store_reach (\<lambda>_. 0) (small_config Delete) 1 (demo_commits 10) m \<and> lm_logs m = [(offsets_tp 0, l)] \<and>
     log_holds [] [b] l \<and> valid_batch b \<and> lastOffset (hdr b) = 0 \<and> sg_baseOffset (lg_active l) = 0 \<and>
     lg_tp l = offsets_tp 0 \<and> lg_config l = offsets_config (small_config Delete)"
proof -
  obtain m l where m: "ensureOffsetsTopic 1 (LogManager (small_config Delete)) = (Inr 1, m)" "lm_logs m = [(offsets_tp 0, l)]"
      "log_holds [] [] l" "sg_baseOffset (lg_active l) = 0" "lg_tp l = offsets_tp 0" "lg_config l = offsets_config (small_config Delete)"
    using demo_topic by blast
  have start: "store_reach (\<lambda>_. 0) (small_config Delete) 1 (OffsetStore 1) m"
    by (rule sr_start [OF mr_start _ _ m(1)]) (simp_all add: LogManager_def)
  obtain s l' where s: "commit (\<lambda>_. 0) demo_key (demo_position 10) (7, 7) (OffsetStore 1, m) = (Inr (), demo_commits 10, lm_update (offsets_tp 0) l' m)"
      "lm_logs (lm_update (offsets_tp 0) l' m) = [(offsets_tp 0, l')]" "log_holds [] [s] l'" "valid_batch s" "lastOffset (hdr s) = 0"
      "sg_baseOffset (lg_active l') = 0" "lg_tp l' = offsets_tp 0" "lg_config l' = offsets_config (small_config Delete)" "lg_logEndOffset l = 0"
    using demo_commit_run [OF m(2-6)] by blast
  have get: "lm_get m (offsets_tp p) = (if p = 0 then Some l else None)" for p using m(2) by (simp add: lm_get_def)
  have "store_reach (\<lambda>_. 0) (small_config Delete) 1 (demo_commits 10) (lm_update (offsets_tp 0) l' m)"
    using get s(9) by (intro sr_commit [OF start demo_commit_ok _ s(1)]) auto
  moreover have "\<forall>p j. lm_get m (offsets_tp p) = Some j \<longrightarrow> lg_logEndOffset j = 0" using get s(9) by simp
  ultimately show ?thesis using s start by blast
qed

lemma active_crash:
  assumes "lm_logs m = [(offsets_tp 0, l)]" "log_holds [] cs l" "list_all valid_batch cs" "index_fits 0 cs"
    and "sg_baseOffset (lg_active l) = 0" "lg_tp l = offsets_tp 0" "lg_config l = offsets_config (small_config Delete)"
  shows "\<exists>entries. crash_image m entries"
proof -
  let ?files = "crash_files l [1, 2] [3]"
  have meta: "meta_ok \<lparr>pm_tp = lg_tp l, pm_config = lg_config l\<rparr>"
    unfolding assms(6,7) by (simp add: meta_ok_def offsets_config_def kOffsetsTopic_def range_simps)
  have "lg_sealed l = []" using assms(2) by (auto simp: log_holds_def sealed_holds_def)
  then have "distinct (map fst ?files)"
    unfolding crash_files_def meta_file_ok [OF meta]
    using assms(5) has_log_extension_names(1,2) [of 0] meta_not_index [of 0] meta_not_segment [of 0]
    by (auto simp: logFileName_def indexFileName_def)
  moreover have "bad_tail None (lg_logEndOffset l) [1, 2]" by (simp add: bad_tail_def batchAt_def batch_consts)
  ultimately have "partition_image l ?files"
    unfolding partition_image_def using assms(2-5) meta
    by (intro exI [of _ "[]"] exI [of _ cs] exI [of _ "[1, 2]"] exI [of _ "[3]"]) simp
  then have "crash_image m [(tp_toString (offsets_tp 0), Dir ?files)]" by (simp add: crash_image_def assms(1))
  then show ?thesis by blast
qed

lemma one_batch_crash:
  assumes "lm_logs m = [(offsets_tp 0, l)]" "log_holds [] [b] l" "valid_batch b" "lastOffset (hdr b) = 0"
    and "sg_baseOffset (lg_active l) = 0" "lg_tp l = offsets_tp 0" "lg_config l = offsets_config (small_config Delete)"
  shows "\<exists>entries. crash_image m entries"
proof (rule active_crash [OF assms(1,2) _ _ assms(5-7)])
  show "index_fits 0 [b]"
    using assms(3,4) batch_wf_bounded [of b] by (simp add: index_fits_def end_offset_def UINT32_MAX_def valid_batch_def)
qed (use assms(3) in simp)

text \<open>A commit as the one batch of a segment.\<close>

lemma demo_commit_segment:
  assumes "0 \<le> base" "base < 2 ^ 62" "0 \<le> p" "in_i64 p"
  shows "\<exists>s a. active_holds [s] a \<and> replayable s \<and> batch_changes s = [(demo_key, Some (demo_position p))] \<and>
    sg_baseOffset a = base \<and> sg_nextOffset a = base + 1"
proof -
  have value_ok: "commit_value_ok (demo_position p)"
    using assms(3,4) by (simp add: commit_value_ok_def string_ok_def in_i64_def)
  obtain b where b: "valid_batch b" "bh_lastOffsetDelta (hdr b) = 0" "replayable b"
      "batch_changes b = [(demo_key, Some (demo_position p))]"
    using batchFor_tells [of demo_key "Some (demo_position p)" 7] demo_commit_ok(1) value_ok by (auto simp: in_i64_def)
  have base: "in_i64 base" and wf: "batch_wf b" using assms(1,2) b(1) by (simp_all add: in_i64_def valid_batch_def)
  obtain s where s: "stampBaseOffset b base = Inr s" "batch_wf s" "hdr s = (hdr b)\<lparr>bh_baseOffset := base\<rparr>"
    using stamped_batch_wf [OF wf base] by blast
  have same: "replayable s" "batch_changes s = batch_changes b"
    using stamped_decode [OF wf base s(1)] b(3) by (simp_all add: replayable_def batch_changes_def)
  obtain fresh where fresh: "active_holds [] fresh" "sg_baseOffset fresh = base" "sg_nextOffset fresh = base"
    using active_create_total [of Map.empty base small_policy] assms(1,2) by auto
  then have "sg_log fresh = []" by (simp add: active_holds_def segment_holds_def)
  then obtain a where "segment_append base s 0 fresh = Inr a"
    using s(2,3) fresh(3) by (auto simp: segment_append_def parseHeader_wf maybeAddIndexEntry_def)
  from segment_append_holds [OF fresh(1) s(2) this] have a: "active_holds [s] a" "sg_baseOffset a = base" using fresh(2) by simp_all
  then have "sg_nextOffset a = base + 1"
    using active_holdsD(4) [OF a(1)] s(3) b(2) by (simp add: lastOffset_def end_offset_def)
  with a same b(4) show ?thesis by auto
qed

theorem replay_stops_at_hole_witness:
  "\<exists>l bss cs. log_holds bss cs l \<and>
    changes (concat bss @ cs) = [(demo_key, Some (demo_position 10)), (demo_key, Some (demo_position 20))] \<and>
    replayPartition l [] = Some (Inr [(demo_key, demo_position 10)])"
proof -
  obtain s1 a1 where s1: "active_holds [s1] a1" "replayable s1" "batch_changes s1 = [(demo_key, Some (demo_position 10))]"
      "sg_baseOffset a1 = 0" "sg_nextOffset a1 = 1"
    using demo_commit_segment [of 0 10] by (auto simp: in_i64_def)
  obtain s2 a2 where s2: "active_holds [s2] a2" "replayable s2" "batch_changes s2 = [(demo_key, Some (demo_position 20))]"
      "sg_baseOffset a2 = 5" "sg_nextOffset a2 = 6"
    using demo_commit_segment [of 5 20] by (auto simp: in_i64_def)
  obtain seg :: segment where seg: "segment_holds [s1] seg" "sg_baseOffset seg = 0" "sg_nextOffset seg = 1"
    using segment_seal_holds [OF s1(1)] s1(4,5) by auto
  let ?l = "log_make (lg_tp one_log) (small_config Compact) [(0, seg)] a2"
  have l: "log_holds [[s1]] [s2] ?l"
    using seg s2 by (simp add: log_holds_def log_make_def valid_base_def compacted_def Let_def)
  have "replayPartition ?l [] = Some (Inr (applied (changes [s1]) []))"
    using replay_stops_at_hole [OF l, of "[]" 0 seg "[]" "[]"] seg s1(2) s2(4) by (simp add: log_make_def)
  with l s1(3) s2(3) show ?thesis by (intro exI [of _ ?l] exI [of _ "[[s1]]"] exI [of _ "[s2]"]) simp
qed

end
