(* ===== verification/Broker_Produce.thy ===== *)
theory Broker_Produce
  imports Handlers Offset_Recovery Cleaner_Pass
begin

text \<open>
  Produce and fetch together: stamping in place is as good as stamping copies, and what a producer was
  told is stored is what a consumer is served.
\<close>

subsection \<open>Stamping in place\<close>

text \<open>The same on the batches the request was decoded to, with no frame to write to.\<close>

definition store_batch :: "int \<Rightarrow> string \<Rightarrow> produce_partition \<Rightarrow> log_manager \<Rightarrow> produced \<times> log_manager" where
  "store_batch now topic asked logs =
    (let tp = \<lparr>tp_topic = topic, tp_partition = pqp_partition asked\<rparr>; batch = pqp_batch asked;
         result = \<lparr>pd_partition = pqp_partition asked, pd_error = EC_None, pd_baseOffset = kUnknownOffset\<rparr>
     in case lm_get logs tp of
          None \<Rightarrow> (result\<lparr>pd_error := EC_NotLeaderForPartition\<rparr>, logs)
        | Some l \<Rightarrow> (case verifyCrc batch of
            Inl e \<Rightarrow> (result\<lparr>pd_error := produce_code e\<rparr>, logs)
          | Inr intact \<Rightarrow>
              if \<not> intact then (result\<lparr>pd_error := EC_CorruptMessage\<rparr>, logs)
              else (let (r, l') = log_append batch now now l; logs = lm_update tp l' logs
                    in case r of
                         Inl e \<Rightarrow> (result\<lparr>pd_error := produce_code e\<rparr>, logs)
                       | Inr base \<Rightarrow> (result\<lparr>pd_baseOffset := base\<rparr>, logs))))"

definition store_topic :: "int \<Rightarrow> produce_topic \<Rightarrow> log_manager \<Rightarrow> produced_topic \<times> log_manager" where
  "store_topic now topic logs =
    (let (results, logs) = map_state (store_batch now (pqt_name topic)) (pqt_partitions topic) logs
     in (\<lparr>pdt_name = pqt_name topic, pdt_partitions = results\<rparr>, logs))"

lemma length_stampBaseOffset: "stampBaseOffset bs base = Inr s \<Longrightarrow> length s = length bs"
  by (auto simp: stampBaseOffset_alt be_bytes_def split: if_splits)

lemma length_stamped_in_place [simp]: "length (stamped_in_place batch now l) = length batch"
  by (auto simp: stamped_in_place_def length_stampBaseOffset split: sum.splits)

lemma write_at_facts:
  assumes "off + length bs \<le> length frame"
  shows "length (write_at off bs frame) = length frame" "drop (off + length bs) (write_at off bs frame) = drop (off + length bs) frame"
  using assms by (simp_all add: write_at_def)

lemma mutableBatch_InrD:
  "mutableBatch p frame = Inr b \<Longrightarrow> pqp_batchOffsetInBody p + length (pqp_batch p) \<le> length frame"
  by (auto simp: mutableBatch_def Let_def bind_r_Inr_iff require_def split: if_splits)

text \<open>The frames that agree behind a point place the same batches there.\<close>

definition same_behind :: "nat \<Rightarrow> byte list \<Rightarrow> byte list \<Rightarrow> bool" where
  "same_behind n frame frame' \<longleftrightarrow> length frame' = length frame \<and> drop n frame' = drop n frame"

lemma same_behind_mono: "same_behind n frame frame' \<Longrightarrow> n \<le> m \<Longrightarrow> same_behind m frame frame'"
  unfolding same_behind_def by (metis drop_drop le_add_diff_inverse2)

lemma same_behind_trans: "same_behind n f g \<Longrightarrow> same_behind n g h \<Longrightarrow> same_behind n f h"
  by (simp add: same_behind_def)

lemma mutableBatch_same_behind:
  assumes "same_behind n frame frame'" "n \<le> pqp_batchOffsetInBody p"
  shows "mutableBatch p frame' = mutableBatch p frame"
proof -
  have "drop (pqp_batchOffsetInBody p) frame' = drop (pqp_batchOffsetInBody p) frame"
    using same_behind_mono [OF assms] by (simp add: same_behind_def)
  then show ?thesis using assms(1) by (simp add: mutableBatch_def same_behind_def)
qed

lemma placed_same_behind: "placed frame lo ps hi \<Longrightarrow> same_behind lo frame frame' \<Longrightarrow> placed frame' lo ps hi"
proof (induction frame lo ps hi rule: placed.induct)
  case (2 frame lo p ps hi)
  then show ?case
    using mutableBatch_same_behind [of lo frame frame' p] same_behind_mono [of lo frame frame'] by auto
qed simp

lemma placed_appendE:
  assumes "placed frame lo (xs @ ys) hi"
  obtains mid where "placed frame lo xs mid" "placed frame mid ys hi"
  using assms
proof (induction xs arbitrary: lo thesis)
  case Nil
  then show ?case by (metis append_Nil order_refl placed.simps(1))
next
  case (Cons p xs)
  then show ?case by (metis append_Cons placed.simps(2))
qed

text \<open>A step on the frame and the state that does, on a frame its batches lie in, what another does on the state.\<close>

definition in_frame ::
  "('a \<Rightarrow> produce_partition list) \<Rightarrow> ('a \<Rightarrow> byte list \<times> 's \<Rightarrow> 'b \<times> byte list \<times> 's) \<Rightarrow> ('a \<Rightarrow> 's \<Rightarrow> 'b \<times> 's) \<Rightarrow> bool" where
  "in_frame parts f g \<longleftrightarrow> (\<forall>x frame lo hi s. placed frame lo (parts x) hi \<longrightarrow>
     (\<exists>frame'. f x (frame, s) = (fst (g x s), frame', snd (g x s)) \<and> same_behind hi frame frame'))"

lemma in_frameE:
  assumes "in_frame parts f g" "placed frame lo (parts x) hi"
  obtains frame' where "f x (frame, s) = (fst (g x s), frame', snd (g x s))" "same_behind hi frame frame'"
  using assms unfolding in_frame_def by blast

lemma in_frame_map_state:
  assumes "in_frame parts f g"
  shows "in_frame (\<lambda>xs. concat (map parts xs)) (map_state f) (map_state g)"
  unfolding in_frame_def
proof (intro allI impI)
  fix xs frame lo hi s
  assume "placed frame lo (concat (map parts xs)) hi"
  then show "\<exists>frame'. map_state f xs (frame, s) = (fst (map_state g xs s), frame', snd (map_state g xs s)) \<and>
      same_behind hi frame frame'"
  proof (induction xs arbitrary: frame lo s)
    case Nil
    then show ?case by (simp add: same_behind_def)
  next
    case (Cons x xs)
    then have "placed frame lo (parts x @ concat (map parts xs)) hi" by simp
    then obtain mid where mid: "placed frame lo (parts x) mid" "placed frame mid (concat (map parts xs)) hi"
      by (rule placed_appendE)
    obtain frame1 where 1: "f x (frame, s) = (fst (g x s), frame1, snd (g x s))" "same_behind mid frame frame1"
      using assms mid(1) by (rule in_frameE)
    obtain frame2 where 2: "map_state f xs (frame1, snd (g x s)) =
        (fst (map_state g xs (snd (g x s))), frame2, snd (map_state g xs (snd (g x s))))" "same_behind hi frame1 frame2"
      using Cons.IH [OF placed_same_behind [OF mid(2) 1(2)]] by blast
    have "same_behind hi frame frame2"
      using same_behind_trans same_behind_mono [OF 1(2) placed_le [OF mid(2)]] 2(2) by blast
    with 1 2 show ?case by (simp add: Let_def split_beta)
  qed
qed

lemma produce_one_stores: "in_frame (\<lambda>p. [p]) (produce_one now topic) (store_batch now topic)"
  unfolding in_frame_def
proof (intro allI impI)
  fix asked :: produce_partition and frame lo hi logs
  let ?stop = "pqp_batchOffsetInBody asked + length (pqp_batch asked)"
  assume "placed frame lo [asked] hi"
  then have m: "mutableBatch asked frame = Inr (pqp_batch asked)" "?stop \<le> hi" by simp_all
  have "same_behind ?stop frame (write_at (pqp_batchOffsetInBody asked) (stamped_in_place (pqp_batch asked) now l) frame)" for l
    using write_at_facts [of "pqp_batchOffsetInBody asked" "stamped_in_place (pqp_batch asked) now l" frame]
      mutableBatch_InrD [OF m(1)] by (simp add: same_behind_def)
  then have "same_behind hi frame (write_at (pqp_batchOffsetInBody asked) (stamped_in_place (pqp_batch asked) now l) frame)" for l
    using same_behind_mono m(2) by blast
  moreover have "same_behind hi frame frame" by (simp add: same_behind_def)
  ultimately show "\<exists>frame'. produce_one now topic asked (frame, logs) =
      (fst (store_batch now topic asked logs), frame', snd (store_batch now topic asked logs)) \<and> same_behind hi frame frame'"
    using m(1) by (auto simp: produce_one_def store_batch_def Let_def split: option.split sum.split bool.split prod.split)
qed

lemma produce_topic_stores: "in_frame pqt_partitions (produce_topic_answer now) (store_topic now)"
  unfolding in_frame_def
proof (intro allI impI)
  fix t :: produce_topic and frame lo hi logs
  assume "placed frame lo (pqt_partitions t) hi"
  then have "placed frame lo (concat (map (\<lambda>p. [p]) (pqt_partitions t))) hi" by simp
  then obtain frame' where "map_state (produce_one now (pqt_name t)) (pqt_partitions t) (frame, logs) =
      (fst (map_state (store_batch now (pqt_name t)) (pqt_partitions t) logs), frame',
       snd (map_state (store_batch now (pqt_name t)) (pqt_partitions t) logs))" "same_behind hi frame frame'"
    by (rule in_frameE [OF in_frame_map_state [OF produce_one_stores]])
  then show "\<exists>frame'. produce_topic_answer now t (frame, logs) =
      (fst (store_topic now t logs), frame', snd (store_topic now t logs)) \<and> same_behind hi frame frame'"
    by (intro exI [of _ frame']) (simp add: produce_topic_answer_def store_topic_def split_beta)
qed

definition stored :: "int \<Rightarrow> produce_request \<Rightarrow> broker \<Rightarrow> produce_response \<times> broker" where
  "stored now q bk = (let (answers, logs) = map_state (store_topic now) (pq_topics q) (bk_logs bk)
     in (\<lparr>pp_topics = answers\<rparr>, bk\<lparr>bk_logs := logs\<rparr>))"

lemma produce_batches_stored:
  assumes "decodeProduceRequest r = Inr (q, r')"
  shows "produce_batches now (rd_bytes r) q bk = stored now q bk"
proof -
  have "placed (rd_bytes r) (rd_pos r) (concat (map pqt_partitions (pq_topics q))) (rd_pos r')"
    using laysD [OF decodeProduceRequest_lays assms] by (simp add: request_batches_def)
  then obtain frame where "map_state (produce_topic_answer now) (pq_topics q) (rd_bytes r, bk_logs bk) =
      (fst (map_state (store_topic now) (pq_topics q) (bk_logs bk)), frame,
       snd (map_state (store_topic now) (pq_topics q) (bk_logs bk)))"
    by (rule in_frameE [OF in_frame_map_state [OF produce_topic_stores]])
  then show ?thesis by (simp add: produce_batches_def stored_def split_beta)
qed

text \<open>C7. Stamping in place is as good as stamping copies. The broker stamps each batch's offset into the very
frame it received, between the checks and the append; its answers and the logs it leaves are those of a
broker that stores a private copy of each decoded batch: no stamp reaches a batch still to be checked.\<close>

theorem in_place_stamping_sound:
  assumes "rc_frame rc = rd_bytes (rc_body rc)"
  shows "handleProduce rc out bk = (case decodeProduceRequest (rc_body rc) of
      Inl e \<Rightarrow> (Inl e, bk)
    | Inr (q, _) \<Rightarrow> (reply encodeProduceResponse (fst (stored (rc_now rc) q bk)) out, snd (stored (rc_now rc) q bk)))"
  using produce_batches_stored assms by (auto simp: handleProduce_def handling_def split_beta split: sum.split)

subsection \<open>A stored batch is served\<close>

lemma ascending_unique:
  assumes "ascending n bs" "b \<in> set bs" "c \<in> set bs"
    and "bh_baseOffset (hdr c) \<le> bh_baseOffset (hdr b)" "bh_baseOffset (hdr b) \<le> lastOffset (hdr c)"
  shows "b = c"
  using assms
proof (induction bs arbitrary: n)
  case (Cons a bs)
  have behind: "lastOffset (hdr a) + 1 \<le> bh_baseOffset (hdr x)" if "x \<in> set bs" for x
    using ascending_base_le that Cons.prems(1) by auto
  have "bh_baseOffset (hdr a) \<le> lastOffset (hdr a)" using Cons.prems(1) batch_wf_lastOffset [of a] by simp
  with Cons behind [of b] behind [of c] show ?case by fastforce
qed simp

lemma log_last_less:
  assumes "log_holds bss cs l" "b \<in> set (concat bss @ cs)"
  shows "lastOffset (hdr b) < lg_logEndOffset l"
proof -
  note asc = log_ascending [OF assms(1) order_refl]
  have active: "active_holds cs (lg_active l)" "lg_logEndOffset l = sg_nextOffset (lg_active l)"
    using assms(1) by (simp_all add: log_holds_def)
  consider "b \<in> set (concat bss)" | "b \<in> set cs" using assms(2) by auto
  then show ?thesis
  proof cases
    case 1
    from ascending_last_less [OF asc(1) this] asc(2) active_holdsD(6) [OF active(1)] active(2) show ?thesis by linarith
  next
    case 2
    from ascending_last_less [OF asc(3) this] active_holdsD(4) [OF active(1)] active(2) show ?thesis by simp
  qed
qed

text \<open>The log has the batch, stamped with its offset.\<close>

definition holds_batch :: "int \<Rightarrow> byte list \<Rightarrow> partition_log \<Rightarrow> bool" where
  "holds_batch base b l \<longleftrightarrow> (\<exists>bss cs s. stampBaseOffset b base = Inr s \<and> hdr s = (hdr b)\<lparr>bh_baseOffset := base\<rparr> \<and>
     log_holds bss cs l \<and> s \<in> set (concat bss @ cs))"

text \<open>A fetch at the offset is answered with records that begin with the batch.\<close>

definition served :: "log_manager \<Rightarrow> string \<Rightarrow> int \<Rightarrow> int \<Rightarrow> byte list \<Rightarrow> bool" where
  "served logs topic p base b \<longleftrightarrow> (\<exists>s. stampBaseOffset b base = Inr s \<and> (\<forall>maxBytes.
     let f = fetch_one logs topic \<lparr>fa_partition = p, fa_fetchOffset = base, fa_maxBytes = maxBytes\<rparr>
     in fp_error f = EC_None \<and> in_file (fp_records f) \<and> take (length s) (pread (fp_records f)) = s))"

lemma sealed_holds_segment:
  "sealed_holds bss sealed \<Longrightarrow> bs \<in> set bss \<Longrightarrow> \<exists>b seg. (b, seg) \<in> set sealed \<and> segment_holds bs seg"
proof (induction bss sealed rule: list_induct2')
  case (4 cs bss a sealed)
  obtain b seg where "a = (b, seg)" by (cases a)
  with 4 show ?case by auto
qed simp_all

lemma answers_batch:
  assumes "answers bs seg l" "s \<in> set bs" "base = bh_baseOffset (hdr s)"
  shows "\<exists>r. log_read base n l = Inr r \<and> rr_error r = NoError \<and> in_file (range_of l r) \<and> take (length s) (pread (range_of l r)) = s"
proof -
  obtain xs ys where bs: "bs = xs @ s # ys" using split_list [OF assms(2)] by blast
  have seg: "segment_holds (xs @ s # ys) seg" using assms(1) bs by (simp add: answers_def)
  then have asc: "ascending (sg_baseOffset seg) (xs @ s # ys)" and log: "sg_log seg = concat xs @ s @ concat ys"
    by (simp_all add: segment_holds_def)
  have wf: "batch_wf s" "ascending (sg_baseOffset seg) xs" "end_offset (sg_baseOffset seg) xs \<le> base" using asc assms(3) by simp_all
  have base: "sg_baseOffset seg \<le> base" "base \<le> lastOffset (hdr s)"
    using ascending_le_end [OF wf(2)] wf(3) batch_wf_lastOffset [OF wf(1)] assms(3) by simp_all
  have "lastOffset (hdr s) < sg_nextOffset seg"
    using ascending_last_less [OF asc, of s] seg by (simp add: segment_holds_def)
  then have below: "base < sg_nextOffset seg" using base(2) by simp
  have "\<forall>x \<in> set xs. lastOffset (hdr x) < base" using ascending_last_less [OF wf(2)] wf(3) by fastforce
  then have scan: "scan_read base n (xs @ s # ys) =
      (length (concat xs), max (length s) (min n (length (concat (s # ys)))))"
    using base(2) by (simp add: scan_read_below) (simp add: scan_read_def)
  let ?n = "max (length s) (min n (length (concat (s # ys))))"
  have "log_read base n l = Inr \<lparr>rr_error = NoError, rr_file = Some (sg_baseOffset seg), rr_position = length (concat xs), rr_length = ?n\<rparr>"
    using assms(1) base(1) below segment_read_scan [OF seg base(1), of n] scan by (simp add: answers_def)
  moreover have "range_of l \<lparr>rr_error = NoError, rr_file = Some (sg_baseOffset seg), rr_position = length (concat xs), rr_length = ?n\<rparr> =
      \<lparr>fr_file = sg_log seg, fr_position = length (concat xs), fr_length = ?n\<rparr>"
    using assms(1) by (simp add: range_of_def answers_def)
  ultimately show ?thesis using log by (simp add: in_file_def pread_def)
qed

lemma holds_batch_read:
  assumes "holds_batch base b l"
  shows "\<exists>s. stampBaseOffset b base = Inr s \<and> (\<forall>n. \<exists>r. log_read base n l = Inr r \<and> rr_error r = NoError \<and>
    in_file (range_of l r) \<and> take (length s) (pread (range_of l r)) = s)"
proof -
  obtain bss cs s where s: "stampBaseOffset b base = Inr s" "hdr s = (hdr b)\<lparr>bh_baseOffset := base\<rparr>"
      "log_holds bss cs l" "s \<in> set (concat bss @ cs)"
    using assms by (auto simp: holds_batch_def)
  have at: "base = bh_baseOffset (hdr s)" using s(2) by simp
  have "\<forall>n. \<exists>r. log_read base n l = Inr r \<and> rr_error r = NoError \<and> in_file (range_of l r) \<and> take (length s) (pread (range_of l r)) = s"
  proof (cases "s \<in> set cs")
    case True
    then show ?thesis using answers_batch [OF answers_active [OF s(3)] _ at] by blast
  next
    case False
    then obtain bs where bs: "bs \<in> set bss" "s \<in> set bs" using s(4) by auto
    have h: "sealed_holds bss (lg_sealed l)" using s(3) by (simp add: log_holds_def)
    obtain base' seg where "(base', seg) \<in> set (lg_sealed l)" "segment_holds bs seg"
      using sealed_holds_segment [OF h bs(1)] by blast
    then show ?thesis using answers_batch [OF answers_sealed [OF s(3)] bs(2) at] by blast
  qed
  with s(1) show ?thesis by blast
qed

lemma holds_batch_served:
  assumes "lm_get logs \<lparr>tp_topic = topic, tp_partition = p\<rparr> = Some l" "holds_batch base b l"
  shows "served logs topic p base b"
proof -
  obtain s where s: "stampBaseOffset b base = Inr s" and read: "\<And>n. \<exists>r. log_read base n l = Inr r \<and> rr_error r = NoError \<and>
      in_file (range_of l r) \<and> take (length s) (pread (range_of l r)) = s"
    using holds_batch_read [OF assms(2)] by blast
  have "let f = fetch_one logs topic \<lparr>fa_partition = p, fa_fetchOffset = base, fa_maxBytes = n\<rparr>
      in fp_error f = EC_None \<and> in_file (fp_records f) \<and> take (length s) (pread (fp_records f)) = s" for n
    using read [of "nat n"] assms(1) by (auto simp: fetch_one_def)
  with s show ?thesis by (auto simp: served_def)
qed

lemma append_holds_batch:
  assumes "log_holds bss cs l" "batch_wf b" "lg_logEndOffset l + bh_lastOffsetDelta (hdr b) + 1 < 2 ^ 63"
    and "log_append b r a l = (Inr base, l')"
  shows "holds_batch base b l'"
proof -
  obtain s bss' cs' where s: "base = lg_logEndOffset l" "stampBaseOffset b base = Inr s" "log_holds bss' cs' l'"
      "concat bss' @ cs' = concat bss @ cs @ [s]"
    using log_append_holds [OF assms] by auto
  have "in_i64 base" using assms(1) s(1) by (simp add: log_holds_def valid_base_def range_simps)
  then have "hdr s = (hdr b)\<lparr>bh_baseOffset := base\<rparr>" using stamped_batch_wf [OF assms(2), of base] s(2) by auto
  moreover have "s \<in> set (concat bss' @ cs')" unfolding s(4) by simp
  ultimately show ?thesis using s(2,3) unfolding holds_batch_def by blast
qed

lemma append_keeps_batch:
  assumes "holds_batch base c l" "batch_wf b" "lg_logEndOffset l + bh_lastOffsetDelta (hdr b) + 1 < 2 ^ 63"
    and "log_append b r a l = (res, l')"
  shows "holds_batch base c l'"
proof -
  obtain bss cs s where s: "stampBaseOffset c base = Inr s" "hdr s = (hdr c)\<lparr>bh_baseOffset := base\<rparr>"
      "log_holds bss cs l" "s \<in> set (concat bss @ cs)"
    using assms(1) by (auto simp: holds_batch_def)
  note app = log_append_holds [OF s(3) assms(2-4)]
  have "\<exists>bss' cs' ts. log_holds bss' cs' l' \<and> concat bss' @ cs' = (concat bss @ cs) @ ts"
  proof (cases res)
    case (Inl e)
    with app obtain bss' cs' where "log_holds bss' cs' l'" "concat bss' @ cs' = concat bss @ cs" by auto
    then show ?thesis by (intro exI [of _ bss'] exI [of _ cs'] exI [of _ "[]"]) simp
  next
    case (Inr x)
    with app obtain t bss' cs' where "log_holds bss' cs' l'" "concat bss' @ cs' = concat bss @ cs @ [t]" by auto
    then show ?thesis by (intro exI [of _ bss'] exI [of _ cs'] exI [of _ "[t]"]) simp
  qed
  then obtain bss' cs' ts where l': "log_holds bss' cs' l'" "concat bss' @ cs' = (concat bss @ cs) @ ts" by blast
  have "s \<in> set (concat bss' @ cs')" unfolding l'(2) using s(4) by auto
  with s(1,2) l'(1) show ?thesis unfolding holds_batch_def by blast
qed

subsection \<open>A whole request\<close>

text \<open>What the broker relies on and does not check: a batch whose checksum verifies is one batch.\<close>

definition honest :: "produce_partition \<Rightarrow> bool" where
  "honest p \<longleftrightarrow> (verifyCrc (pqp_batch p) = Inr True \<longrightarrow> batch_wf (pqp_batch p))"

text \<open>Room for so many appends below the last offset of sixty-three bits.\<close>

definition roomy :: "nat \<Rightarrow> log_manager \<Rightarrow> bool" where
  "roomy k logs \<longleftrightarrow> manager_ok logs \<and> (\<forall>tp l. lm_get logs tp = Some l \<longrightarrow> lg_logEndOffset l + int k * 2 ^ 31 < 2 ^ 63)"

definition keeps :: "log_manager \<Rightarrow> log_manager \<Rightarrow> bool" where
  "keeps logs logs' \<longleftrightarrow> (\<forall>tp l. lm_get logs tp = Some l \<longrightarrow> (\<exists>l'. lm_get logs' tp = Some l' \<and> lg_config l' = lg_config l \<and>
     (\<forall>base b. holds_batch base b l \<longrightarrow> holds_batch base b l')))"

definition stored_at :: "string \<Rightarrow> log_manager \<Rightarrow> produce_partition \<Rightarrow> produced \<Rightarrow> bool" where
  "stored_at topic logs p d \<longleftrightarrow> pd_partition d = pqp_partition p \<and> (pd_error d = EC_None \<longrightarrow>
     (\<exists>l. lm_get logs \<lparr>tp_topic = topic, tp_partition = pqp_partition p\<rparr> = Some l \<and>
        holds_batch (pd_baseOffset d) (pqp_batch p) l)) \<and>
     (lm_get logs \<lparr>tp_topic = topic, tp_partition = pqp_partition p\<rparr> = None \<longrightarrow> pd_error d = EC_NotLeaderForPartition)"

definition stored_topic :: "log_manager \<Rightarrow> produce_topic \<Rightarrow> produced_topic \<Rightarrow> bool" where
  "stored_topic logs t a \<longleftrightarrow> pdt_name a = pqt_name t \<and>
     list_all2 (stored_at (pqt_name t) logs) (pqt_partitions t) (pdt_partitions a)"

lemma keeps_refl: "keeps logs logs"
  by (auto simp: keeps_def)

lemma keeps_trans: "keeps a b \<Longrightarrow> keeps b c \<Longrightarrow> keeps a c"
  unfolding keeps_def by metis

lemma stored_at_keeps:
  assumes "stored_at topic logs p d" "keeps logs logs'"
  shows "stored_at topic logs' p d"
proof -
  let ?tp = "\<lparr>tp_topic = topic, tp_partition = pqp_partition p\<rparr>"
  have "\<exists>l'. lm_get logs' ?tp = Some l' \<and> holds_batch (pd_baseOffset d) (pqp_batch p) l'" if "pd_error d = EC_None"
    using assms that unfolding stored_at_def keeps_def by blast
  moreover have "pd_error d = EC_NotLeaderForPartition" if "lm_get logs' ?tp = None"
  proof -
    have "lm_get logs ?tp = None" using assms(2) that unfolding keeps_def by (metis not_None_eq)
    with assms(1) show ?thesis by (simp add: stored_at_def)
  qed
  ultimately show ?thesis using assms(1) by (simp add: stored_at_def)
qed

lemma stored_topic_keeps: "stored_topic logs t a \<Longrightarrow> keeps logs logs' \<Longrightarrow> stored_topic logs' t a"
  by (auto simp: stored_topic_def intro: stored_at_keeps elim: list_all2_mono)

lemma lastOffsetDelta_bounded: "bh_lastOffsetDelta (hdr b) < 2 ^ 31"
  using sint_lt [of "be_word (field_at 23 4 b) :: 32 word"] by (simp add: header_of_def)

lemma append_step:
  assumes "roomy (Suc k) logs" "lm_get logs tp = Some l" "batch_wf b" "log_append b r a l = (res, l')"
  shows "roomy k (lm_update tp l' logs) \<and> keeps logs (lm_update tp l' logs) \<and>
    (\<forall>base. res = Inr base \<longrightarrow> holds_batch base b l')"
proof -
  have m: "manager_ok logs" and end_room: "lg_logEndOffset l + int (Suc k) * 2 ^ 31 < 2 ^ 63"
    using assms(1,2) by (auto simp: roomy_def)
  then have room: "lg_logEndOffset l + bh_lastOffsetDelta (hdr b) + 1 < 2 ^ 63"
    using lastOffsetDelta_bounded [of b] by (simp add: algebra_simps)
  obtain bss cs where h: "log_holds bss cs l" using manager_ok_getD(3) [OF m assms(2)] by (auto simp: log_good_def)
  note app = log_append_holds [OF h assms(3) room assms(4)]
  have "lg_logEndOffset l' \<le> lg_logEndOffset l + bh_lastOffsetDelta (hdr b) + 1"
    using app assms(3) by (cases res) (auto simp: batch_wf_def)
  then have "lg_logEndOffset l' + int k * 2 ^ 31 < 2 ^ 63"
    using end_room lastOffsetDelta_bounded [of b] by (simp add: algebra_simps)
  moreover have "manager_ok (lm_update tp l' logs)" by (rule append_ok [OF m assms(2,3) room assms(4)])
  moreover have "lg_logEndOffset j + int k * 2 ^ 31 < 2 ^ 63" if "lm_get logs t = Some j" for t j
  proof -
    have "lg_logEndOffset j + int (Suc k) * 2 ^ 31 < 2 ^ 63" using assms(1) that by (auto simp: roomy_def)
    then show ?thesis by (simp add: algebra_simps)
  qed
  ultimately have "roomy k (lm_update tp l' logs)" using assms(2) by (auto simp: roomy_def lm_get_update split: if_splits)
  moreover have "keeps logs (lm_update tp l' logs)"
    using assms(2) append_keeps_batch [OF _ assms(3) room assms(4)] app by (auto simp: keeps_def lm_get_update)
  moreover have "holds_batch base b l'" if "res = Inr base" for base
    using append_holds_batch [OF h assms(3) room] assms(4) that by blast
  ultimately show ?thesis by blast
qed

lemma roomy_mono:
  assumes "roomy (Suc k) logs"
  shows "roomy k logs"
proof -
  have "lg_logEndOffset l + int k * 2 ^ 31 < 2 ^ 63" if "lm_get logs tp = Some l" for tp l
  proof -
    have "lg_logEndOffset l + int (Suc k) * 2 ^ 31 < 2 ^ 63" using assms that by (auto simp: roomy_def)
    then show ?thesis by (simp add: algebra_simps)
  qed
  with assms show ?thesis by (auto simp: roomy_def)
qed

lemma store_batch_step:
  assumes "honest p" "roomy (1 + k) logs" "store_batch now topic p logs = (d, logs')"
  shows "roomy k logs' \<and> keeps logs logs' \<and> stored_at topic logs' p d"
proof -
  let ?tp = "\<lparr>tp_topic = topic, tp_partition = pqp_partition p\<rparr>"
  show ?thesis
  proof (cases "\<exists>l. lm_get logs ?tp = Some l \<and> verifyCrc (pqp_batch p) = Inr True")
    case False
    then have "logs' = logs" "pd_error d \<noteq> EC_None" "pd_partition d = pqp_partition p"
        "lm_get logs ?tp = None \<longrightarrow> pd_error d = EC_NotLeaderForPartition"
      using assms(3) by (auto simp: store_batch_def Let_def produce_code_def split: option.splits sum.splits if_splits)
    then show ?thesis using roomy_mono assms(2) by (simp add: keeps_refl stored_at_def)
  next
    case True
    then obtain l where l: "lm_get logs ?tp = Some l" "verifyCrc (pqp_batch p) = Inr True" by blast
    obtain r l' where app: "log_append (pqp_batch p) now now l = (r, l')" by fastforce
    have wf: "batch_wf (pqp_batch p)" using assms(1) l(2) by (simp add: honest_def)
    have "logs' = lm_update ?tp l' logs" "pd_partition d = pqp_partition p"
        "pd_error d = EC_None \<longrightarrow> r = Inr (pd_baseOffset d)"
      using assms(3) l app by (auto simp: store_batch_def Let_def produce_code_def split: sum.splits if_splits)
    with append_step [of k logs ?tp l "pqp_batch p" now now r l'] assms(2) l wf app show ?thesis
      by (auto simp: stored_at_def lm_get_update)
  qed
qed

lemma store_topic_step:
  assumes "\<forall>p \<in> set (pqt_partitions t). honest p" "roomy (length (pqt_partitions t) + k) logs"
    and "store_topic now t logs = (a, logs')"
  shows "roomy k logs' \<and> keeps logs logs' \<and> stored_topic logs' t a"
proof -
  obtain ds where ds: "map_state (store_batch now (pqt_name t)) (pqt_partitions t) logs = (ds, logs')"
      "a = \<lparr>pdt_name = pqt_name t, pdt_partitions = ds\<rparr>"
    using assms(3) by (auto simp: store_topic_def split: prod.splits)
  have "roomy (sum_list (map (\<lambda>_. 1) (pqt_partitions t)) + k) logs" using assms(2) by (simp add: sum_list_triv)
  from map_state_rel [where Inv = roomy and R = keeps and Q = "\<lambda>p d logs. stored_at (pqt_name t) logs p d", OF _ keeps_refl _ _ this ds(1)]
  have "roomy k logs' \<and> keeps logs logs' \<and> list_all2 (\<lambda>p d. stored_at (pqt_name t) logs' p d) (pqt_partitions t) ds"
    using store_batch_step assms(1) keeps_trans stored_at_keeps by blast
  with ds(2) show ?thesis by (simp add: stored_topic_def)
qed

lemma stored_step:
  assumes "\<forall>p \<in> set (request_batches q). honest p" "roomy (length (request_batches q) + k) (bk_logs bk)"
    and "stored now q bk = (answer, bk')"
  shows "roomy k (bk_logs bk') \<and> keeps (bk_logs bk) (bk_logs bk') \<and> bk' = bk\<lparr>bk_logs := bk_logs bk'\<rparr> \<and>
    list_all2 (stored_topic (bk_logs bk')) (pq_topics q) (pp_topics answer)"
proof -
  obtain as logs' where run: "map_state (store_topic now) (pq_topics q) (bk_logs bk) = (as, logs')"
      "answer = \<lparr>pp_topics = as\<rparr>" "bk' = bk\<lparr>bk_logs := logs'\<rparr>"
    using assms(3) by (auto simp: stored_def split: prod.splits)
  have "length (request_batches q) = sum_list (map (\<lambda>t. length (pqt_partitions t)) (pq_topics q))"
    by (simp add: request_batches_def length_concat comp_def)
  then have room: "roomy (sum_list (map (\<lambda>t. length (pqt_partitions t)) (pq_topics q)) + k) (bk_logs bk)" using assms(2) by simp
  have step: "roomy j logs2 \<and> keeps logs1 logs2 \<and> stored_topic logs2 t a"
    if "t \<in> set (pq_topics q)" "roomy (length (pqt_partitions t) + j) logs1" "store_topic now t logs1 = (a, logs2)" for t a j logs1 logs2
  proof (rule store_topic_step [OF _ that(2,3)])
    show "\<forall>p \<in> set (pqt_partitions t). honest p" using that(1) assms(1) by (auto simp: request_batches_def)
  qed
  have "roomy k logs' \<and> keeps (bk_logs bk) logs' \<and> list_all2 (\<lambda>t a. stored_topic logs' t a) (pq_topics q) as"
    by (rule map_state_rel [where Inv = roomy and c = "\<lambda>t. length (pqt_partitions t)" and R = keeps
          and Q = "\<lambda>t a logs. stored_topic logs t a", OF step keeps_refl keeps_trans stored_topic_keeps room run(1)])
  with run show ?thesis by simp
qed

text \<open>A partition answered without an error is hosted and its batch served; one that is not hosted has its own error.\<close>

definition acknowledged :: "log_manager \<Rightarrow> string \<Rightarrow> produce_partition \<Rightarrow> produced \<Rightarrow> bool" where
  "acknowledged logs topic p d \<longleftrightarrow> pd_partition d = pqp_partition p \<and> (pd_error d = EC_None \<longrightarrow>
     lm_get logs \<lparr>tp_topic = topic, tp_partition = pqp_partition p\<rparr> \<noteq> None \<and>
     served logs topic (pqp_partition p) (pd_baseOffset d) (pqp_batch p)) \<and>
     (lm_get logs \<lparr>tp_topic = topic, tp_partition = pqp_partition p\<rparr> = None \<longrightarrow> pd_error d = EC_NotLeaderForPartition)"

lemma stored_at_acknowledged: "stored_at topic logs p d \<Longrightarrow> acknowledged logs topic p d"
  using holds_batch_served by (fastforce simp: stored_at_def acknowledged_def)

text \<open>C2. Produce, then fetch. Every partition of a produce request that is answered without an error is
hosted and really has its batch, compacted topics included: a fetch at the offset the answer names is served
records that begin with that very batch (stamped with the offset), whatever the partitions of the request
written after it. A partition that is not hosted is answered with the error for that. The logs stay well formed, and nothing else of the broker changes. What the broker relies on
and does not check is that a batch with a verified checksum is one well-formed batch.\<close>

theorem produced_is_fetched:
  assumes "rc_frame rc = rd_bytes (rc_body rc)" "decodeProduceRequest (rc_body rc) = Inr (q, r)"
    and "list_all honest (request_batches q)" "roomy (length (request_batches q)) (bk_logs bk)"
    and "produce_batches (rc_now rc) (rc_frame rc) q bk = (answer, bk')"
  shows "handleProduce rc out bk = (reply encodeProduceResponse answer out, bk') \<and>
    manager_ok (bk_logs bk') \<and> bk' = bk\<lparr>bk_logs := bk_logs bk'\<rparr> \<and>
    list_all2 (\<lambda>t a. pdt_name a = pqt_name t \<and>
      list_all2 (acknowledged (bk_logs bk') (pqt_name t)) (pqt_partitions t) (pdt_partitions a)) (pq_topics q) (pp_topics answer)"
proof -
  have run: "stored (rc_now rc) q bk = (answer, bk')" using produce_batches_stored [OF assms(2)] assms(1,5) by simp
  have "roomy (length (request_batches q) + 0) (bk_logs bk)" using assms(4) by simp
  note step = stored_step [OF _ this run]
  have "list_all2 (stored_topic (bk_logs bk')) (pq_topics q) (pp_topics answer)" using step assms(3) by (simp add: list_all_iff)
  then have "list_all2 (\<lambda>t a. pdt_name a = pqt_name t \<and>
      list_all2 (acknowledged (bk_logs bk') (pqt_name t)) (pqt_partitions t) (pdt_partitions a)) (pq_topics q) (pp_topics answer)"
    by (rule list_all2_mono) (auto simp: stored_topic_def intro: list_all2_mono stored_at_acknowledged)
  moreover have "manager_ok (bk_logs bk')" "bk' = bk\<lparr>bk_logs := bk_logs bk'\<rparr>"
    using step assms(3) by (simp_all add: list_all_iff roomy_def)
  moreover have "handleProduce rc out bk = (reply encodeProduceResponse answer out, bk')"
    using assms(2,5) by (simp add: handleProduce_def handling_def)
  ultimately show ?thesis by blast
qed

subsection \<open>A concrete broker\<close>

lemma demo_hosting:
  "\<exists>m l. manager_ok m \<and> lm_logs m = [(\<lparr>tp_topic = ''t'', tp_partition = 0\<rparr>, l)] \<and> log_holds [] [] l \<and>
     sg_baseOffset (lg_active l) = 0 \<and> lg_config l = small_config Delete"
proof -
  let ?tp = "\<lparr>tp_topic = ''t'', tp_partition = 0\<rparr>" and ?config = "small_config Delete"
  obtain active where a: "active_create Map.empty 0 small_policy = Inr active"
    using active_create_total [of Map.empty 0 small_policy] by auto
  have meta: "meta_ok \<lparr>pm_tp = ?tp, pm_config = ?config\<rparr>" using one_log_crash(1) by simp
  then have "\<exists>files. writePartitionMeta Map.empty \<lparr>pm_tp = ?tp, pm_config = ?config\<rparr> = Inr files"
    using encodePartitionMeta_bytes [of "\<lparr>pm_tp = ?tp, pm_config = ?config\<rparr>"] by (simp add: writePartitionMeta_def meta_ok_def)
  with a obtain l where l: "log_create Map.empty ?tp ?config = Inr l" by (auto simp: log_create_def)
  have "requireUsableName ?tp = Inr ()" by code_simp
  with l have m: "createPartition ?tp ?config (LogManager ?config) = Inr ((LogManager ?config)\<lparr>lm_logs := [(?tp, l)]\<rparr>)"
    by (simp add: createPartition_def LogManager_def existing_files_def data_dir_def)
  have "manager_reach ?config ((LogManager ?config)\<lparr>lm_logs := [(?tp, l)]\<rparr>)" by (rule mr_create [OF mr_start m]) simp
  then have "manager_ok ((LogManager ?config)\<lparr>lm_logs := [(?tp, l)]\<rparr>)" by (rule manager_reach_ok)
  moreover have "sg_baseOffset (lg_active l) = 0"
    using log_create_good(1,4) [OF l] active_holdsD(4) [of "[]" "lg_active l"] by (simp add: log_holds_def end_offset_def)
  ultimately show ?thesis using log_create_good [OF l] by (intro exI [of _ "(LogManager ?config)\<lparr>lm_logs := [(?tp, l)]\<rparr>"]) simp
qed

abbreviation demo_broker :: "log_manager \<Rightarrow> broker" where
  "demo_broker m \<equiv> \<lparr>bk_logs = m, bk_groups = GroupCoordinator, bk_offsets = OffsetStore 1, bk_offsetsPartitions = 1,
     bk_nodeId = 1, bk_advertisedHost = ''h'', bk_advertisedPort = 9\<rparr>"

abbreviation demo_context :: "byte list \<Rightarrow> request_context" where
  "demo_context body \<equiv> \<lparr>rc_header = \<lparr>rh_apiKey = Produce, rh_apiVersion = 0, rh_correlationId = 7, rh_clientId = ''c''\<rparr>,
     rc_body = reader_of body, rc_frame = body, rc_now = 5\<rparr>"

abbreviation one_batch :: "byte list \<Rightarrow> produce_request" where
  "one_batch b \<equiv> \<lparr>pq_acks = 1, pq_timeoutMs = 5, pq_topics = [\<lparr>pqt_name = ''t'', pqt_partitions =
     [\<lparr>pqp_partition = 0, pqp_batch = b, pqp_batchOffsetInBody = 0\<rparr>]\<rparr>]\<rparr>"

lemma produced_is_fetched_witness:
  "\<exists>b m body bk'. handleProduce (demo_context body) [] (demo_broker m) =
      (reply encodeProduceResponse \<lparr>pp_topics = [\<lparr>pdt_name = ''t'', pdt_partitions =
         [\<lparr>pd_partition = 0, pd_error = EC_None, pd_baseOffset = 0\<rparr>]\<rparr>]\<rparr> [], bk') \<and>
     valid_batch b \<and> body = produce_request_repr (one_batch b) \<and> served (bk_logs bk') ''t'' 0 0 b"
proof -
  let ?tp = "\<lparr>tp_topic = ''t'', tp_partition = 0\<rparr>"
  obtain m l where m: "manager_ok m" "lm_logs m = [(?tp, l)]" "log_holds [] [] l" "sg_baseOffset (lg_active l) = 0"
      "lg_config l = small_config Delete" using demo_hosting by blast
  have get: "lm_get m tp = (if tp = ?tp then Some l else None)" for tp using m(2) by (simp add: lm_get_def)
  obtain b where b: "rewritable b" "bh_baseOffset (hdr b) = 0" "lastOffset (hdr b) = 0" "length b \<le> 87"
    using demo_batch [of 0 0] by auto
  have valid: "valid_batch b" "batch_wf b" "verifyCrc b = Inr True" "bh_lastOffsetDelta (hdr b) = 0"
    using b by (simp_all add: rewritable_def valid_batch_def lastOffset_def)
  let ?q = "one_batch b" and ?body = "produce_request_repr (one_batch b)"
  have "produce_request_ok ?q"
    using b(4) by (simp add: produce_request_ok_def array_ok_def produce_topic_ok_def produce_partition_ok_def string_ok_def blob_ok_def range_simps)
  then obtain q where q: "decodeProduceRequest (reader_of ?body) = Inr (q, advance (length ?body) (reader_of ?body))" "same_request ?q q"
    using decode_produce(2) unfolding reads_some_def by (metis append_Nil2 rest_reader_of)
  then obtain t p where t: "pq_topics q = [t]" "pqt_name t = ''t''" "pqt_partitions t = [p]" "pqp_partition p = 0" "pqp_batch p = b"
    by (auto simp: same_request_def same_topic_def same_partition_def list_all2_Cons1)
  obtain s l' where app: "log_append b 5 5 l = (Inr 0, l')" "lg_config l' = small_config Delete"
    using first_append [OF m(3,4) valid(1,4), of 5 5] m(5) by auto
  let ?bk = "(demo_broker m)\<lparr>bk_logs := lm_update ?tp l' m\<rparr>"
  let ?answer = "\<lparr>pp_topics = [\<lparr>pdt_name = ''t'', pdt_partitions = [\<lparr>pd_partition = 0, pd_error = EC_None, pd_baseOffset = 0\<rparr>]\<rparr>]\<rparr>"
  have "stored 5 q (demo_broker m) = (?answer, ?bk)"
    using t get valid(3) app(1) by (simp add: stored_def store_topic_def store_batch_def)
  then have run: "produce_batches 5 ?body q (demo_broker m) = (?answer, ?bk)"
    using produce_batches_stored [OF q(1)] by (simp add: reader_of_def)
  have "list_all honest (request_batches q)" using t valid(2) by (simp add: request_batches_def honest_def)
  moreover have "roomy (length (request_batches q)) (bk_logs (demo_broker m))"
    using m(1,3,4) get active_holdsD(4) [of "[]" "lg_active l"] t
    by (auto simp: roomy_def request_batches_def log_holds_def end_offset_def split: if_splits)
  moreover have "decodeProduceRequest (rc_body (demo_context ?body)) = Inr (q, advance (length ?body) (reader_of ?body))" using q(1) by simp
  ultimately have run: "handleProduce (demo_context ?body) [] (demo_broker m) = (reply encodeProduceResponse ?answer [], ?bk)"
      "list_all2 (acknowledged (lm_update ?tp l' m) ''t'') [p] [\<lparr>pd_partition = 0, pd_error = EC_None, pd_baseOffset = 0\<rparr>]"
    using produced_is_fetched [of "demo_context ?body" q _ "demo_broker m" ?answer ?bk "[]"] run t by (simp_all add: reader_of_def)
  moreover have "served (bk_logs ?bk) ''t'' 0 0 b"
    using run(2) t get by (simp add: acknowledged_def lm_get_update)
  ultimately show ?thesis using valid(1) by blast
qed

lemma in_place_stamping_sound_witness:
  "\<exists>q. same_request demo_produce q \<and>
     (\<forall>bk :: broker. handleProduce (demo_context (produce_request_repr demo_produce)) [] bk =
       (reply encodeProduceResponse (fst (stored 5 q bk)) [], snd (stored 5 q bk)))"
proof -
  obtain q r where q: "decodeProduceRequest (reader_of (produce_request_repr demo_produce)) = Inr (q, r)" "same_request demo_produce q"
    using decode_produce(2) [OF demo_produce_ok] unfolding reads_some_def by (metis append_Nil2 rest_reader_of)
  have "handleProduce (demo_context (produce_request_repr demo_produce)) [] bk =
      (reply encodeProduceResponse (fst (stored 5 q bk)) [], snd (stored 5 q bk))" for bk
    using in_place_stamping_sound [of "demo_context (produce_request_repr demo_produce)" "[]" bk] q(1)
    by (simp add: reader_of_def)
  with q(2) show ?thesis by blast
qed

end
