(* ===== verification/Broker_Positions.thy ===== *)
theory Broker_Positions
  imports Handlers Offset_Recovery
begin

text \<open>
  Committing positions through the broker: what an offset commit does to the positions and to the log behind
  them, and that it is fenced by the group.
\<close>

subsection \<open>What was acknowledged\<close>

abbreviation asked_key :: "string \<Rightarrow> string \<Rightarrow> commit_request_partition \<Rightarrow> commit_key" where
  "asked_key groupId topic asked \<equiv> \<lparr>ck_group = groupId, ck_topic = topic, ck_partition = cqp_partition asked\<rparr>"

abbreviation asked_value :: "int \<Rightarrow> commit_request_partition \<Rightarrow> commit_value" where
  "asked_value now asked \<equiv>
    \<lparr>cv_nextOffset = cqp_nextOffset asked, cv_metadata = cqp_metadata asked, cv_commitTimestampMs = now\<rparr>"

type_synonym position_map = "commit_key \<Rightarrow> commit_value option"

definition acked_partition ::
  "int \<Rightarrow> string \<Rightarrow> string \<Rightarrow> commit_request_partition \<times> commit_response_partition \<Rightarrow> position_map \<Rightarrow> position_map" where
  "acked_partition now groupId topic = (\<lambda>(asked, answer) ps.
     if cpp_error answer = EC_None then ps(asked_key groupId topic asked \<mapsto> asked_value now asked) else ps)"

definition acked_topic ::
  "int \<Rightarrow> string \<Rightarrow> commit_request_topic \<times> commit_response_topic \<Rightarrow> position_map \<Rightarrow> position_map" where
  "acked_topic now groupId = (\<lambda>(topic, answer).
     fold (acked_partition now groupId (cqt_name topic)) (zip (cqt_partitions topic) (cpt_partitions answer)))"

definition acked :: "int \<Rightarrow> offset_commit_request \<Rightarrow> offset_commit_response \<Rightarrow> position_map \<Rightarrow> position_map" where
  "acked now q answer = fold (acked_topic now (ocq_groupId q)) (zip (ocq_topics q) (ocp_topics answer))"

text \<open>What one element does to what is observed, all do one after the other.\<close>

lemma map_state_fold:
  assumes "\<And>x s y s'. f x s = (y, s') \<Longrightarrow> obs s' = upd (x, y) (obs s)" and "map_state f xs s = (ys, s')"
  shows "obs s' = fold upd (zip xs ys) (obs s)"
  using assms(2)
proof (induction xs arbitrary: s ys)
  case (Cons x xs)
  obtain y s1 zs where "f x s = (y, s1)" "map_state f xs s1 = (zs, s')" "ys = y # zs"
    using Cons.prems by (auto simp: Let_def split: prod.splits)
  with Cons.IH [of s1 zs] assms(1) show ?case by simp
qed simp

abbreviation positions_of :: "offset_store \<times> log_manager \<Rightarrow> position_map" where
  "positions_of s \<equiv> \<lambda>k. fetch_position k (fst s)"

abbreviation sorted_store :: "offset_store \<times> log_manager \<Rightarrow> bool" where
  "sorted_store s \<equiv> keys_sorted (os_committed (fst s))"

lemma commit_one_effect:
  "commit_one hash now membership g topic asked s = (y, s') \<Longrightarrow>
    positions_of s' = acked_partition now g topic (asked, y) (positions_of s)"
  by (cases s) (auto simp: commit_one_def Let_def acked_partition_def commit_def fetch_position_def fun_eq_iff
      split: sum.splits prod.splits if_splits)

lemma commit_topic_effect:
  assumes "commit_topic hash now membership g topic s = (y, s')"
  shows "positions_of s' = acked_topic now g (topic, y) (positions_of s)"
proof -
  obtain ys where run: "map_state (commit_one hash now membership g (cqt_name topic)) (cqt_partitions topic) s = (ys, s')"
      "y = \<lparr>cpt_name = cqt_name topic, cpt_partitions = ys\<rparr>"
    using assms by (auto simp: commit_topic_def split: prod.splits)
  have "positions_of s' = fold (acked_partition now g (cqt_name topic)) (zip (cqt_partitions topic) ys) (positions_of s)"
    by (rule map_state_fold [OF _ run(1)]) (rule commit_one_effect)
  with run(2) show ?thesis by (simp add: acked_topic_def)
qed

lemma commit_offsets_effect:
  assumes "commit_offsets hash now q bk = (answer, bk')"
  shows "(\<lambda>k. fetch_position k (bk_offsets bk')) = acked now q answer (\<lambda>k. fetch_position k (bk_offsets bk))"
proof -
  obtain membership gc answers st logs where
    run: "map_state (commit_topic hash now membership (ocq_groupId q)) (ocq_topics q) (bk_offsets bk, bk_logs bk) = (answers, st, logs)"
      "answer = \<lparr>ocp_topics = answers\<rparr>" "bk_offsets bk' = st"
    using assms by (auto simp: commit_offsets_def Let_def split: prod.splits)
  from map_state_fold [where obs = positions_of and upd = "acked_topic now (ocq_groupId q)", OF commit_topic_effect run(1)] run(2,3)
  show ?thesis by (simp add: acked_def)
qed

subsection \<open>What a decoded request can ask\<close>

definition yields :: "(reader \<Rightarrow> ('a \<times> reader) result) \<Rightarrow> ('a \<Rightarrow> bool) \<Rightarrow> bool" where
  "yields dec P \<longleftrightarrow> (\<forall>r x r'. dec r = Inr (x, r') \<longrightarrow> P x)"

lemma yields_bind:
  "yields dec Q \<Longrightarrow> (\<And>x. Q x \<Longrightarrow> yields (f x) P) \<Longrightarrow> yields (\<lambda>r. bind_r (dec r) (\<lambda>(x, r). f x r)) P"
  by (fastforce simp: yields_def bind_r_Inr_iff)

lemma yields_require: "(P \<Longrightarrow> yields f Q) \<Longrightarrow> yields (\<lambda>r. bind_r (require P e) (\<lambda>_. f r)) Q"
  by (auto simp: yields_def bind_r_Inr_iff require_def split: if_splits)

lemma yields_return: "P x \<Longrightarrow> yields (\<lambda>r. Inr (x, r)) P"
  by (simp add: yields_def)

lemma yields_ints: "yields readInt32 in_i32" "yields readInt64 in_i64"
  by (auto simp: yields_def readInt32_def readInt64_def in_i32_def in_i64_def bind_r_Inr_iff Let_def
      intro: sint_lt sint_ge [where 'a = 32, simplified] sint_ge [where 'a = 64, simplified]
        sint_lt [where 'a = 32, simplified] sint_lt [where 'a = 64, simplified])

lemma yields_string: "yields readString string_ok"
proof -
  have "n < 2 ^ 15" if "readInt16 r = Inr (n, r')" for n r r'
    using that sint_lt [where 'a = 16] by (auto simp: readInt16_def bind_r_Inr_iff Let_def)
  then show ?thesis
    by (fastforce simp: yields_def readString_def string_ok_def bind_r_Inr_iff readBytes_def require_bytes_def bytes_string_def require_def
        split: if_splits)
qed

lemma yields_array:
  assumes "yields dec P"
  shows "yields (readArray dec) (list_all P)"
proof -
  have "list_all P xs" if "read_n dec n r = Inr (xs, r')" for n r xs r'
    using that
  proof (induction n arbitrary: r xs)
    case (Suc n)
    then show ?case using assms by (fastforce simp: yields_def bind_r_Inr_iff)
  qed simp
  then show ?thesis by (auto simp: yields_def readArray_def bind_r_Inr_iff)
qed

definition asked_ok :: "commit_request_partition \<Rightarrow> bool" where
  "asked_ok asked \<longleftrightarrow> in_i32 (cqp_partition asked) \<and> in_i64 (cqp_nextOffset asked) \<and> 0 \<le> cqp_nextOffset asked \<and>
     string_ok (cqp_metadata asked)"

definition commit_topic_ok :: "commit_request_topic \<Rightarrow> bool" where
  "commit_topic_ok topic \<longleftrightarrow> string_ok (cqt_name topic) \<and> list_all asked_ok (cqt_partitions topic)"

lemma yields_commit_request:
  "yields decodeOffsetCommitRequest (\<lambda>q. string_ok (ocq_groupId q) \<and> list_all commit_topic_ok (ocq_topics q))"
proof -
  have p: "yields decodeCommitRequestPartition asked_ok"
    unfolding decodeCommitRequestPartition_def
    by (intro yields_bind [OF yields_ints(1)] yields_bind [OF yields_ints(2)] yields_require yields_bind [OF yields_string] yields_return) (simp add: asked_ok_def)
  have t: "yields decodeCommitRequestTopic commit_topic_ok"
    unfolding decodeCommitRequestTopic_def
    by (intro yields_bind [OF yields_string] yields_bind [OF yields_array [OF p]] yields_return) (simp add: commit_topic_ok_def)
  show ?thesis
    unfolding decodeOffsetCommitRequest_def
    by (intro yields_bind [OF yields_string] yields_bind [OF yields_ints(1)] yields_bind [OF yields_array [OF t]] yields_return) simp
qed

subsection \<open>The log behind the positions\<close>

definition commits_in :: "offset_commit_request \<Rightarrow> nat" where
  "commits_in q = sum_list (map (\<lambda>topic. length (cqt_partitions topic)) (ocq_topics q))"

text \<open>Room for so many commits in every partition of the offsets topic.\<close>

definition commit_room :: "nat \<Rightarrow> log_manager \<Rightarrow> bool" where
  "commit_room k m \<longleftrightarrow> (\<forall>p l. lm_get m (offsets_tp p) = Some l \<longrightarrow> lg_logEndOffset l + int k < 2 ^ 63)"

text \<open>What every single commit keeps, at the price of one offset of room, an offset commit keeps.\<close>

locale commit_invariant =
  fixes hash :: "string \<Rightarrow> nat" and Inv :: "nat \<Rightarrow> offset_store \<times> log_manager \<Rightarrow> bool"
  assumes commit_keeps: "Inv (Suc k) (st, m) \<Longrightarrow> commit_key_ok key \<Longrightarrow> commit_value_ok v \<Longrightarrow>
      commit hash key v clock (st, m) = (r, st', m') \<Longrightarrow> Inv k (st', m')"
    and less_room: "Inv (Suc k) s \<Longrightarrow> Inv k s"
begin

lemma partition_keeps:
  assumes "string_ok groupId" "string_ok topic" "asked_ok asked" "in_i64 now" "Inv (Suc k) s"
    and "commit_one hash now membership groupId topic asked s = (d, s')"
  shows "Inv k s'"
proof (cases "membership = EC_None")
  case True
  let ?key = "asked_key groupId topic asked" and ?val = "asked_value now asked"
  have "commit_key_ok ?key" "commit_value_ok ?val"
    using assms(1-4) by (simp_all add: asked_ok_def commit_key_ok_def commit_value_ok_def)
  moreover obtain r where "commit hash ?key ?val (now, now) (fst s, snd s) = (r, fst s', snd s')"
    using assms(6) True by (auto simp: commit_one_def Let_def split: prod.splits)
  ultimately show ?thesis using commit_keeps [of k "fst s" "snd s" ?key ?val _ r "fst s'" "snd s'"] assms(5) by simp
next
  case False
  then show ?thesis using assms(5,6) less_room by (simp add: commit_one_def)
qed

lemma topic_keeps:
  assumes ok: "string_ok groupId" "commit_topic_ok topic" "in_i64 now"
    and start: "Inv (length (cqt_partitions topic) + k) s"
    and run: "commit_topic hash now membership groupId topic s = (y, s')"
  shows "Inv k s'"
proof -
  obtain ys where run: "map_state (commit_one hash now membership groupId (cqt_name topic)) (cqt_partitions topic) s = (ys, s')"
    using run by (auto simp: commit_topic_def split: prod.splits)
  have step: "Inv j s2 \<and> True \<and> True"
    if "asked \<in> set (cqt_partitions topic)" "Inv (1 + j) s1"
      "commit_one hash now membership groupId (cqt_name topic) asked s1 = (d, s2)" for asked j s1 d s2
    using partition_keeps [OF ok(1) _ _ ok(3) _ that(3)] that(1,2) ok(2) by (simp add: commit_topic_ok_def list_all_iff)
  have "Inv (sum_list (map (\<lambda>_. 1) (cqt_partitions topic)) + k) s" using start by (simp add: sum_list_triv)
  from map_state_rel [where Inv = Inv and R = "\<lambda>_ _. True" and Q = "\<lambda>_ _ _. True", OF step _ _ _ this run]
  show ?thesis by simp
qed

lemma request_keeps:
  assumes ok: "string_ok (ocq_groupId q)" "list_all commit_topic_ok (ocq_topics q)" "in_i64 now"
    and start: "Inv (commits_in q) (bk_offsets bk, bk_logs bk)"
    and run: "commit_offsets hash now q bk = (answer, bk')"
  shows "Inv 0 (bk_offsets bk', bk_logs bk')"
proof -
  obtain membership ys where run: "map_state (commit_topic hash now membership (ocq_groupId q)) (ocq_topics q) (bk_offsets bk, bk_logs bk) =
      (ys, bk_offsets bk', bk_logs bk')"
    using run by (auto simp: commit_offsets_def Let_def split: prod.splits)
  have step: "Inv j s2 \<and> True \<and> True"
    if "topic \<in> set (ocq_topics q)" "Inv (length (cqt_partitions topic) + j) s1"
      "commit_topic hash now membership (ocq_groupId q) topic s1 = (d, s2)" for topic j s1 d s2
    using topic_keeps [OF ok(1) _ ok(3) that(2,3)] that(1) ok(2) by (simp add: list_all_iff)
  have "Inv (sum_list (map (\<lambda>topic. length (cqt_partitions topic)) (ocq_topics q)) + 0) (bk_offsets bk, bk_logs bk)"
    using start by (simp add: commits_in_def)
  from map_state_rel [where Inv = Inv and c = "\<lambda>topic. length (cqt_partitions topic)"
      and R = "\<lambda>_ _. True" and Q = "\<lambda>_ _ _. True", OF step _ _ _ this run]
  show ?thesis by simp
qed

end

text \<open>Well-formed logs with room.\<close>

definition roomed :: "nat \<Rightarrow> offset_store \<times> log_manager \<Rightarrow> bool" where
  "roomed k s \<longleftrightarrow> manager_ok (snd s) \<and> commit_room k (snd s)"

lemma append_commit_cases:
  assumes "append_commit hash key v t clock st m = (r, m')"
  obtains "m' = m"
  | p l b r'' l' where "lm_get m (offsets_tp p) = Some l" "batchFor key v t = Inr b"
      "log_append b (fst clock) (snd clock) l = (r'', l')" "m' = lm_update (offsets_tp p) l' m"
proof -
  have "m' = m \<or> (\<exists>p l b r'' l'. lm_get m (offsets_tp p) = Some l \<and> batchFor key v t = Inr b \<and>
      log_append b (fst clock) (snd clock) l = (r'', l') \<and> m' = lm_update (offsets_tp p) l' m)"
  proof (cases "partitionFor hash st (ck_group key)")
    case p: (Inr p)
    show ?thesis
    proof (cases "lm_get m (offsets_tp p)")
      case l: (Some l)
      show ?thesis
      proof (cases "batchFor key v t")
        case b: (Inr b)
        obtain r'' l' where app: "log_append b (fst clock) (snd clock) l = (r'', l')" by fastforce
        have "m' = lm_update (offsets_tp p) l' m" using assms p l b app by (cases r'') (simp_all add: append_commit_def)
        with l b app show ?thesis by blast
      next
        case (Inl e)
        have "m' = m" using assms by (simp add: append_commit_def p l Inl)
        then show ?thesis ..
      qed
    next
      case None
      have "m' = m" using assms by (simp add: append_commit_def p None)
      then show ?thesis ..
    qed
  next
    case (Inl e)
    have "m' = m" using assms by (simp add: append_commit_def Inl)
    then show ?thesis ..
  qed
  then show thesis using that by blast
qed

lemma commit_room_less: "commit_room (Suc k) m \<Longrightarrow> commit_room k m"
  by (force simp: commit_room_def)

lemma commit_keeps_room:
  assumes m: "manager_ok m" and room: "commit_room (Suc k) m" and ok: "commit_key_ok key" "commit_value_ok v"
    and run: "commit hash key v clock (st, m) = (r, st', m')"
  shows "manager_ok m' \<and> commit_room k m'"
proof -
  obtain r' where "append_commit hash key (Some v) (cv_commitTimestampMs v) clock st m = (r', m')"
    using run by (auto simp: commit_def split: prod.splits sum.splits)
  then show ?thesis
  proof (cases rule: append_commit_cases)
    case 1
    then show ?thesis using m commit_room_less [OF room] by simp
  next
    case (2 p l b r'' l')
    obtain b' where "batchFor key (Some v) (cv_commitTimestampMs v) = Inr b'" "valid_batch b'" "bh_lastOffsetDelta (hdr b') = 0"
      using batchFor_tells [of key "Some v" "cv_commitTimestampMs v"] ok by (auto simp: commit_value_ok_def)
    then have b: "batch_wf b" "bh_lastOffsetDelta (hdr b) = 0" using 2(2) by (simp_all add: valid_batch_def)
    obtain bss cs where h: "log_holds bss cs l" using manager_ok_getD(3) [OF m 2(1)] by (auto simp: log_good_def)
    have l: "lg_logEndOffset l + int (Suc k) < 2 ^ 63" using room 2(1) by (auto simp: commit_room_def)
    then have "lg_logEndOffset l + bh_lastOffsetDelta (hdr b) + 1 < 2 ^ 63" using b(2) by simp
    then have "manager_ok m'" using append_ok [OF m 2(1) b(1) _ 2(3)] 2(4) by simp
    moreover have "lg_logEndOffset l' \<le> lg_logEndOffset l + 1"
      using log_append_holds [OF h b(1) _ 2(3)] l b(2) by (cases r'') auto
    then have "lg_logEndOffset l' + int k < 2 ^ 63" using l by simp
    then have "commit_room k m'" using commit_room_less [OF room] 2(1,4) by (auto simp: commit_room_def lm_get_update)
    ultimately show ?thesis by blast
  qed
qed

interpretation roomed: commit_invariant hash roomed for hash
proof unfold_locales
  show "roomed k (st', m')" if "roomed (Suc k) (st, m)" "commit_key_ok key" "commit_value_ok v"
    "commit hash key v clock (st, m) = (r, st', m')" for k st m key v clock r st' m'
  proof -
    have "manager_ok m" "commit_room (Suc k) m" using that(1) by (simp_all add: roomed_def)
    from commit_keeps_room [OF this that(2-4)] show ?thesis by (simp add: roomed_def)
  qed
  show "roomed k s" if "roomed (Suc k) s" for k s
    using that commit_room_less by (simp add: roomed_def)
qed

subsection \<open>Properties\<close>

text \<open>C13. Commits are fenced. An offset commit that names a member or a generation is refused, for every
partition with the same error and without touching the broker, unless that member is in the group now, the
generation is the group's, and no rebalance is being prepared: a member that was replaced can never move
the positions of its successor.\<close>

theorem commits_are_fenced:
  assumes "ocq_memberId q \<noteq> [] \<or> 0 \<le> ocq_generation q"
    and "\<not> (\<exists>g. map_of (gc_groups (bk_groups bk)) (ocq_groupId q) = Some g \<and> ocq_memberId q \<in> fst ` set (cg_members g) \<and>
        ocq_generation q = cg_generation g \<and> cg_state g \<noteq> PreparingRebalance)"
  shows "\<exists>e \<in> {EC_UnknownMemberId, EC_IllegalGeneration, EC_RebalanceInProgress}.
    commit_offsets hash now q bk = (\<lparr>ocp_topics = map (\<lambda>t. \<lparr>cpt_name = cqt_name t, cpt_partitions =
      map (\<lambda>p. \<lparr>cpp_partition = cqp_partition p, cpp_error = e\<rparr>) (cqt_partitions t)\<rparr>) (ocq_topics q)\<rparr>, bk)"
proof -
  have "\<exists>e \<in> {EC_UnknownMemberId, EC_IllegalGeneration, EC_RebalanceInProgress}.
      heartbeat (ocq_groupId q) (ocq_memberId q) (ocq_generation q) now (bk_groups bk) = (e, bk_groups bk)"
    using assms(2) by (fastforce simp: heartbeat_def split: option.splits dest: map_of_key)
  then obtain e where e: "e \<in> {EC_UnknownMemberId, EC_IllegalGeneration, EC_RebalanceInProgress}"
      "heartbeat (ocq_groupId q) (ocq_memberId q) (ocq_generation q) now (bk_groups bk) = (e, bk_groups bk)" by blast
  have "e \<noteq> EC_None" using e(1) by auto
  then have one: "commit_one hash now e g t = (\<lambda>p s. (\<lparr>cpp_partition = cqp_partition p, cpp_error = e\<rparr>, s))" for g t
    by (simp add: commit_one_def fun_eq_iff)
  have topic: "commit_topic hash now e g = (\<lambda>t s. (\<lparr>cpt_name = cqt_name t, cpt_partitions =
      map (\<lambda>p. \<lparr>cpp_partition = cqp_partition p, cpp_error = e\<rparr>) (cqt_partitions t)\<rparr>, s))" for g
    by (simp add: commit_topic_def fun_eq_iff one map_state_const)
  from e assms(1) show ?thesis by (intro bexI [of _ e]) (simp_all add: commit_offsets_def topic map_state_const)
qed

subsection \<open>A concrete request\<close>

definition demo_commit_request :: "string \<Rightarrow> int \<Rightarrow> offset_commit_request" where
  "demo_commit_request member generation = \<lparr>ocq_groupId = ''g'', ocq_generation = generation, ocq_memberId = member,
     ocq_topics = [\<lparr>cqt_name = ''t'', cqt_partitions =
       [\<lparr>cqp_partition = 0, cqp_nextOffset = 10, cqp_metadata = []\<rparr>]\<rparr>]\<rparr>"

definition demo_commit_answer :: "error_code \<Rightarrow> offset_commit_response" where
  "demo_commit_answer e = \<lparr>ocp_topics = [\<lparr>cpt_name = ''t'', cpt_partitions = [\<lparr>cpp_partition = 0, cpp_error = e\<rparr>]\<rparr>]\<rparr>"

abbreviation demo_state :: "offset_store \<Rightarrow> log_manager \<Rightarrow> broker" where
  "demo_state st m \<equiv> \<lparr>bk_logs = m, bk_groups = GroupCoordinator, bk_offsets = st, bk_offsetsPartitions = 1,
     bk_nodeId = 1, bk_advertisedHost = ''h'', bk_advertisedPort = 9\<rparr>"

abbreviation demo_commit_body :: "byte list" where
  "demo_commit_body \<equiv> offset_commit_request_repr (demo_commit_request [] (- 1))"

abbreviation demo_commit_context :: request_context where
  "demo_commit_context \<equiv> \<lparr>rc_header = \<lparr>rh_apiKey = OffsetCommit, rh_apiVersion = 0, rh_correlationId = 7, rh_clientId = ''c''\<rparr>,
     rc_body = reader_of demo_commit_body, rc_frame = demo_commit_body, rc_now = 7\<rparr>"

theorem commits_are_fenced_witness:
  "\<forall>hash st m. commit_offsets hash 7 (demo_commit_request ''x'' 3) (demo_state st m) \<in>
     {(demo_commit_answer e, demo_state st m) | e. e \<noteq> EC_None}"
proof (intro allI)
  fix hash st m
  show "commit_offsets hash 7 (demo_commit_request ''x'' 3) (demo_state st m) \<in>
      {(demo_commit_answer e, demo_state st m) | e. e \<noteq> EC_None}"
    using commits_are_fenced [of "demo_commit_request ''x'' 3" "demo_state st m" hash 7]
    by (auto simp: demo_commit_request_def demo_commit_answer_def GroupCoordinator_def)
qed

end
