(* ===== verification/Broker_Life.thy ===== *)
theory Broker_Life
  imports Connection Broker_Produce Broker_Positions
begin

text \<open>
  \<^verbatim>\<open>server/broker.cpp\<close>: the whole broker, from its start on a data directory through requests, sweeps and
  restarts. Threads take turns: each request, sweep or maintenance pass is one step, as each holds the
  locks of what it changes.
\<close>

subsection \<open>Starting\<close>

record broker_options =
  bo_defaults :: log_config
  bo_host :: string
  bo_port :: int
  bo_advertisedHost :: string
  bo_nodeId :: int
  bo_maintenanceIntervalMs :: int
  bo_offsetsPartitions :: int

definition Broker :: "broker_options \<Rightarrow> broker" where
  "Broker options = \<lparr>bk_logs = LogManager (bo_defaults options), bk_groups = GroupCoordinator,
     bk_offsets = OffsetStore (bo_offsetsPartitions options), bk_offsetsPartitions = bo_offsetsPartitions options,
     bk_nodeId = bo_nodeId options,
     bk_advertisedHost = (if bo_advertisedHost options = [] then bo_host options else bo_advertisedHost options),
     bk_advertisedPort = bo_port options\<rparr>"

text \<open>The port is what listening was given, or why it failed. \<open>None\<close> is a replay that never ends.\<close>

definition broker_start :: "broker_options \<Rightarrow> (string \<times> disk_entry) list \<Rightarrow> int \<Rightarrow> int result \<Rightarrow> broker \<Rightarrow> broker result option" where
  "broker_start options entries now listening bk =
    (case loadAll entries now (bk_logs bk) of
       Inl e \<Rightarrow> Some (Inl e)
     | Inr logs \<Rightarrow> (case ensureOffsetsTopic (bo_offsetsPartitions options) logs of
         (Inl e, _) \<Rightarrow> Some (Inl e)
       | (Inr partitions, logs) \<Rightarrow> (case replay logs (bk_offsets bk) of
           None \<Rightarrow> None
         | Some (Inl e) \<Rightarrow> Some (Inl e)
         | Some (Inr st) \<Rightarrow> Some (bind_r listening (\<lambda>port.
             bind_r (startMaintenance (bo_maintenanceIntervalMs options) logs) (\<lambda>logs.
               Inr (bk\<lparr>bk_logs := logs, bk_offsets := st, bk_offsetsPartitions := partitions, bk_advertisedPort := port\<rparr>)))))))"

definition sweepGroups :: "int \<Rightarrow> broker \<Rightarrow> broker" where
  "sweepGroups now bk = bk\<lparr>bk_groups := snd (expire now (bk_groups bk))\<rparr>"

definition broker_maintain :: "int \<Rightarrow> broker \<Rightarrow> broker" where
  "broker_maintain now bk = bk\<lparr>bk_logs := maintenance_tick now (bk_logs bk)\<rparr>"

definition broker_stop :: "broker \<Rightarrow> broker" where
  "broker_stop bk = bk\<lparr>bk_logs := stopMaintenance (bk_logs bk)\<rparr>"

subsection \<open>What requests may ask\<close>

text \<open>
  The frame is the one the body is read from, the clock has sixty-four bits, batches with a good checksum
  are batches, and no partition runs out of offsets.
\<close>

definition fits :: "request_context \<Rightarrow> broker \<Rightarrow> bool" where
  "fits rc bk \<longleftrightarrow> rc_frame rc = rd_bytes (rc_body rc) \<and> in_i64 (rc_now rc) \<and>
     (rh_apiKey (rc_header rc) = Produce \<longrightarrow> (\<forall>q r. decodeProduceRequest (rc_body rc) = Inr (q, r) \<longrightarrow>
        list_all honest (request_batches q) \<and> roomy (length (request_batches q)) (bk_logs bk))) \<and>
     (rh_apiKey (rc_header rc) = OffsetCommit \<longrightarrow> (\<forall>q r. decodeOffsetCommitRequest (rc_body rc) = Inr (q, r) \<longrightarrow>
        commit_room (commits_in q) (bk_logs bk)))"

definition request :: "(string \<Rightarrow> nat) \<Rightarrow> request_context \<Rightarrow> broker \<Rightarrow> response result \<times> broker" where
  "request hash = dispatch (registerAllHandlers hash Map.empty)"

inductive broker_reach :: "(string \<Rightarrow> nat) \<Rightarrow> broker_options \<Rightarrow> broker \<Rightarrow> bool" for hash options where
  br_first: "broker_start options [] now listening (Broker options) = Some (Inr bk) \<Longrightarrow> bo_offsetsPartitions options < 2 ^ 31 \<Longrightarrow>
    broker_reach hash options bk"
| br_request: "broker_reach hash options bk \<Longrightarrow> fits rc bk \<Longrightarrow> request hash rc bk = (r, bk') \<Longrightarrow> broker_reach hash options bk'"
| br_sweep: "broker_reach hash options bk \<Longrightarrow> broker_reach hash options (sweepGroups now bk)"
| br_maintain: "broker_reach hash options bk \<Longrightarrow> broker_reach hash options (broker_maintain now bk)"
| br_restart: "broker_reach hash options bk \<Longrightarrow> crash_image (bk_logs bk) entries \<Longrightarrow>
    broker_start options entries now listening (Broker options) = Some (Inr bk') \<Longrightarrow> broker_reach hash options bk'"

subsection \<open>The invariant\<close>

definition broker_ok :: "broker_options \<Rightarrow> broker \<Rightarrow> bool" where
  "broker_ok options bk \<longleftrightarrow> manager_ok (bk_logs bk) \<and> gc_reach (bk_groups bk) \<and>
     0 < bo_offsetsPartitions options \<and> bo_offsetsPartitions options < 2 ^ 31 \<and>
     bk_offsetsPartitions bk = bo_offsetsPartitions options \<and> os_partitions (bk_offsets bk) = bo_offsetsPartitions options \<and>
     offsets_tp ` {0..<bo_offsetsPartitions options} \<subseteq> set (hostedPartitions (bk_logs bk))"

lemma get_hosted: "lm_get m tp \<noteq> None \<longleftrightarrow> tp \<in> set (hostedPartitions m)"
  by (force simp: lm_get_def hostedPartitions_def map_of_eq_None_iff)

lemma hosted_update [simp]: "hostedPartitions (lm_update tp l m) = hostedPartitions m"
  by (simp add: hostedPartitions_def lm_update_def comp_def case_prod_unfold)

lemma broker_ok_logs:
  "broker_ok options bk \<Longrightarrow> manager_ok logs \<Longrightarrow> set (hostedPartitions (bk_logs bk)) \<subseteq> set (hostedPartitions logs) \<Longrightarrow>
    broker_ok options (bk\<lparr>bk_logs := logs\<rparr>)"
  by (auto simp: broker_ok_def)

lemma broker_ok_groups: "broker_ok options bk \<Longrightarrow> gc_step (bk_groups bk) gc \<Longrightarrow> broker_ok options (bk\<lparr>bk_groups := gc\<rparr>)"
  by (auto simp: broker_ok_def gc_reach_def intro: rtranclp.rtrancl_into_rtrancl)

subsection \<open>Every request keeps it\<close>

lemma handling_effect:
  assumes "handling decode act answer rc out bk = (r, bk')" "P bk"
    and "\<And>q x a. decode (rc_body rc) = Inr (q, x) \<Longrightarrow> act q bk = (a, bk') \<Longrightarrow> P bk'"
  shows "P bk'"
  using assms by (auto simp: handling_def split: sum.splits prod.splits)

lemma create_partitions_keep:
  assumes "manager_ok m" "create_partitions topic config ps m = (r, m')" "\<forall>p \<in> set ps. p < 2 ^ 31"
  shows "manager_ok m' \<and> set (hostedPartitions m) \<subseteq> set (hostedPartitions m')"
  using assms
proof (induction ps arbitrary: m)
  case (Cons p ps)
  show ?case
  proof (cases "createPartition \<lparr>tp_topic = topic, tp_partition = p\<rparr> config m")
    case (Inl e)
    with Cons.prems show ?thesis by auto
  next
    case (Inr m1)
    note ok = createPartition_ok(1,2) [OF Cons.prems(1) Inr]
    have "manager_ok m1" "set (hostedPartitions m) \<subseteq> set (hostedPartitions m1)"
      using ok Cons.prems(3) by (auto simp: hostedPartitions_def)
    with Cons.IH [of m1] Cons.prems(2,3) Inr show ?thesis by auto
  qed
qed auto

definition topic_sized :: "new_topic \<Rightarrow> bool" where
  "topic_sized t \<longleftrightarrow> nt_partitionCount t < 2 ^ 31"

lemma create_topic_keeps:
  assumes "manager_ok m" "topic_sized t" "create_topic t m = (d, m')"
  shows "manager_ok m' \<and> set (hostedPartitions m) \<subseteq> set (hostedPartitions m')"
proof -
  let ?ps = "[0..nt_partitionCount t - 1]" and ?config = "topic_config t (lm_defaults m)"
  obtain r m1 where c: "create_partitions (nt_name t) ?config ?ps m = (r, m1)" by fastforce
  have "manager_ok m1 \<and> set (hostedPartitions m) \<subseteq> set (hostedPartitions m1)"
    using assms(2) by (intro create_partitions_keep [OF assms(1) c]) (auto simp: topic_sized_def)
  moreover have "m' = m \<or> m' = m1"
    using assms(3) c by (auto simp: create_topic_def Let_def split: if_splits sum.splits)
  ultimately show ?thesis using assms(1) by auto
qed

lemma map_state_inv:
  assumes "\<And>x s y s'. x \<in> set xs \<Longrightarrow> P s \<Longrightarrow> f x s = (y, s') \<Longrightarrow> P s'"
  shows "P s \<Longrightarrow> map_state f xs s = (ys, s') \<Longrightarrow> P s'"
  using assms
proof (induction xs arbitrary: s ys)
  case (Cons x xs)
  obtain y s1 zs where f: "f x s = (y, s1)" "map_state f xs s1 = (zs, s')"
    using Cons.prems(2) by (auto simp: Let_def split: prod.splits)
  have "P s1" using Cons.prems(3) [OF _ Cons.prems(1) f(1)] by simp
  from Cons.IH [OF this f(2)] Cons.prems(3) show ?case by (meson list.set_intros(2))
qed simp

lemma create_topics_keep:
  assumes "manager_ok m" "list_all topic_sized ts" "map_state create_topic ts m = (ds, m')"
  shows "manager_ok m' \<and> set (hostedPartitions m) \<subseteq> set (hostedPartitions m')"
proof (rule map_state_inv [OF _ _ assms(3)])
  show "manager_ok m2 \<and> set (hostedPartitions m) \<subseteq> set (hostedPartitions m2)"
    if "t \<in> set ts" "manager_ok m1 \<and> set (hostedPartitions m) \<subseteq> set (hostedPartitions m1)" "create_topic t m1 = (d, m2)" for t m1 d m2
    using create_topic_keeps [OF _ _ that(3)] that(1,2) assms(2) by (auto simp: list_all_iff)
qed (use assms(1) in simp)

lemma yields_any: "yields dec (\<lambda>_. True)"
  by (simp add: yields_def)

lemma yields_create_topic: "yields decodeCreateTopicRequest (\<lambda>q. list_all topic_sized (ctq_topics q))"
proof -
  have t: "yields decodeNewTopic topic_sized"
    unfolding decodeNewTopic_def
    by (intro yields_bind [OF yields_string] yields_bind [OF yields_ints(1)] yields_bind [OF yields_any] yields_return)
      (simp add: topic_sized_def in_i32_def)
  show ?thesis
    unfolding decodeCreateTopicRequest_def
    by (intro yields_bind [OF yields_array [OF t]] yields_bind [OF yields_ints(1)] yields_return) simp
qed

lemma commit_logs:
  assumes "commit hash key v clock (st, m) = (r, st', m')"
  shows "hostedPartitions m' = hostedPartitions m \<and> os_partitions st' = os_partitions st"
proof -
  obtain r' where "append_commit hash key (Some v) (cv_commitTimestampMs v) clock st m = (r', m')"
    using assms by (auto simp: commit_def split: prod.splits sum.splits)
  then have "hostedPartitions m' = hostedPartitions m" by (cases rule: append_commit_cases) simp_all
  with commit_partitions(1) [OF assms] show ?thesis by simp
qed

interpretation hosting: commit_invariant hash "\<lambda>_ s. hostedPartitions (snd s) = hosted \<and> os_partitions (fst s) = n" for hash hosted n
  by unfold_locales (use commit_logs in auto)

lemma commit_offsets_groups: "commit_offsets hash now q bk = (answer, bk') \<Longrightarrow>
    (bk_groups bk' = bk_groups bk \<or> gc_step (bk_groups bk) (bk_groups bk')) \<and> bk_offsetsPartitions bk' = bk_offsetsPartitions bk"
  using step_heartbeat [of "bk_groups bk" "ocq_groupId q" "ocq_memberId q" "ocq_generation q" now]
  by (auto simp: commit_offsets_def Let_def split: prod.splits if_splits)

lemma commit_offsets_ok:
  assumes ok: "broker_ok options bk" and q: "decodeOffsetCommitRequest body = Inr (q, x)" "in_i64 now" "commit_room (commits_in q) (bk_logs bk)"
    and run: "commit_offsets hash now q bk = (answer, bk')"
  shows "broker_ok options bk'"
proof -
  have wf: "string_ok (ocq_groupId q)" "list_all commit_topic_ok (ocq_topics q)"
    using yields_commit_request q(1) by (auto simp: yields_def)
  have "roomed 0 (bk_offsets bk', bk_logs bk')"
    using roomed.request_keeps [OF wf q(2) _ run] ok q(3) by (simp add: roomed_def broker_ok_def)
  moreover have "hostedPartitions (bk_logs bk') = hostedPartitions (bk_logs bk) \<and> os_partitions (bk_offsets bk') = os_partitions (bk_offsets bk)"
    using hosting.request_keeps [OF wf q(2) _ run, of "hostedPartitions (bk_logs bk)" "os_partitions (bk_offsets bk)"] by simp
  moreover have "gc_reach (bk_groups bk')"
    using commit_offsets_groups [OF run] ok by (auto simp: broker_ok_def gc_reach_def intro: rtranclp.rtrancl_into_rtrancl)
  ultimately show ?thesis using ok commit_offsets_groups [OF run] by (simp add: roomed_def broker_ok_def)
qed

lemma produce_ok:
  assumes ok: "broker_ok options bk" and q: "decodeProduceRequest (rc_body rc) = Inr (q, x)" "rc_frame rc = rd_bytes (rc_body rc)"
      "list_all honest (request_batches q)" "roomy (length (request_batches q)) (bk_logs bk)"
    and run: "produce_batches now (rc_frame rc) q bk = (answer, bk')"
  shows "broker_ok options bk'"
proof -
  have "stored now q bk = (answer, bk')" using produce_batches_stored [OF q(1)] q(2) run by simp
  from stored_step [OF _ _ this, of 0] q(3,4)
  have s: "roomy 0 (bk_logs bk')" "keeps (bk_logs bk) (bk_logs bk')" "bk' = bk\<lparr>bk_logs := bk_logs bk'\<rparr>"
    by (simp_all add: list_all_iff)
  have "set (hostedPartitions (bk_logs bk)) \<subseteq> set (hostedPartitions (bk_logs bk'))"
    using s(2) by (fastforce simp: keeps_def get_hosted [symmetric])
  with broker_ok_logs [OF ok, of "bk_logs bk'"] s show ?thesis by (simp add: roomy_def)
qed

lemma reading_ok:
  assumes "handling decode (\<lambda>q bk. (f q bk, bk)) answer rc out bk = (r, bk')"
  shows "bk' = bk"
  using handling_effect [OF assms, of "\<lambda>b. b = bk"] by simp

lemma grouping_ok:
  assumes ok: "broker_ok options bk"
    and run: "handling decode (\<lambda>q bk. let (x, gc) = step q (bk_groups bk) in (f x, bk\<lparr>bk_groups := gc\<rparr>)) answer rc out bk = (r, bk')"
    and step: "\<And>q gc. gc_step gc (snd (step q gc))"
  shows "broker_ok options bk'"
proof (rule handling_effect [OF run, of "broker_ok options"])
  show "broker_ok options bk'"
    if "(let (x, gc) = step q (bk_groups bk) in (f x, bk\<lparr>bk_groups := gc\<rparr>)) = (a, bk')" for q a
    using broker_ok_groups [OF ok, of "snd (step q (bk_groups bk))"] step that by (simp add: split_beta)
qed (rule ok)

lemma handler_ok:
  assumes mem: "((rh_apiKey (rc_header rc), version), h) \<in> set (all_handlers hash)"
    and ok: "broker_ok options bk" and fit: "fits rc bk" and run: "h rc out bk = (r, bk')"
  shows "broker_ok options bk'"
proof -
  consider (reads) "h \<in> {handleListOffsets, handleMetadata, handleFetch, handleFindCoordinator hash, handleOffsetFetch}"
    | (groups) "h \<in> {handleJoinGroup, handleSyncGroup, handleHeartbeat, handleLeaveGroup}"
    | (creates) "h = handleCreateTopic"
    | (produces) "h = handleProduce" "rh_apiKey (rc_header rc) = Produce"
    | (commits) "h = handleOffsetCommit hash" "rh_apiKey (rc_header rc) = OffsetCommit"
    using mem by (auto simp: all_handlers_def)
  then show ?thesis
  proof cases
    case reads
    have "bk' = bk"
      using reads run by (auto simp: handleListOffsets_def handleMetadata_def handleFetch_def handleFindCoordinator_def
          handleOffsetFetch_def dest: reading_ok)
    with ok show ?thesis by simp
  next
    case groups
    then consider "h = handleJoinGroup" | "h = handleSyncGroup" | "h = handleHeartbeat" | "h = handleLeaveGroup" by blast
    then show ?thesis
    proof cases
      case 1
      show ?thesis
        by (rule grouping_ok [where step = "\<lambda>q. join (jgq_groupId q) (jgq_memberId q)
            (rh_clientId (rc_header rc)) (jgq_subscription q) (jgq_protocols q) (jgq_sessionTimeoutMs q) (rc_now rc)", OF ok run [unfolded 1 handleJoinGroup_def]]) (rule step_join)
    next
      case 2
      show ?thesis
        by (rule grouping_ok [where step = "\<lambda>q. sync (sgq_groupId q) (sgq_memberId q)
            (sgq_generation q) (sgq_assignments q) (rc_now rc)", OF ok run [unfolded 2 handleSyncGroup_def]]) (rule step_sync)
    next
      case 3
      show ?thesis
        by (rule grouping_ok [where step = "\<lambda>q. heartbeat (hbq_groupId q) (hbq_memberId q)
            (hbq_generation q) (rc_now rc)", OF ok run [unfolded 3 handleHeartbeat_def]]) (rule step_heartbeat)
    next
      case 4
      show ?thesis
        by (rule grouping_ok [where step = "\<lambda>q. leave (lgq_groupId q) (lgq_memberId q)
            (rc_now rc)", OF ok run [unfolded 4 handleLeaveGroup_def]]) (rule step_leave)
    qed
  next
    case creates
    show ?thesis
    proof (rule handling_effect [OF run [unfolded creates handleCreateTopic_def], of "broker_ok options"])
      show "broker_ok options bk'" if "decodeCreateTopicRequest (rc_body rc) = Inr (q, x)"
        "(let (results, logs) = map_state create_topic (ctq_topics q) (bk_logs bk)
          in (Inr \<lparr>ctp_topics = results\<rparr>, bk\<lparr>bk_logs := logs\<rparr>)) = (a, bk')" for q x a
      proof -
        have sized: "list_all topic_sized (ctq_topics q)" using yields_create_topic that(1) by (auto simp: yields_def)
        obtain ds logs where logs: "map_state create_topic (ctq_topics q) (bk_logs bk) = (ds, logs)" by fastforce
        have "manager_ok (bk_logs bk)" using ok by (simp add: broker_ok_def)
        from create_topics_keep [OF this sized logs] broker_ok_logs [OF ok, of logs] that(2) logs show ?thesis by auto
      qed
    qed (rule ok)
  next
    case produces
    show ?thesis
    proof (rule handling_effect [OF run [unfolded produces(1) handleProduce_def], of "broker_ok options"])
      show "broker_ok options bk'" if "decodeProduceRequest (rc_body rc) = Inr (q, x)"
        "(let (answer, bk) = produce_batches (rc_now rc) (rc_frame rc) q bk in (Inr answer, bk)) = (a, bk')" for q x a
        using produce_ok [OF ok that(1)] fit produces(2) that by (auto simp: fits_def split: prod.splits)
    qed (rule ok)
  next
    case commits
    show ?thesis
    proof (rule handling_effect [OF run [unfolded commits(1) handleOffsetCommit_def], of "broker_ok options"])
      show "broker_ok options bk'" if "decodeOffsetCommitRequest (rc_body rc) = Inr (q, x)"
        "(let (answer, bk) = commit_offsets hash (rc_now rc) q bk in (Inr answer, bk)) = (a, bk')" for q x a
        using commit_offsets_ok [OF ok that(1)] fit commits(2) that by (auto simp: fits_def split: prod.splits)
    qed (rule ok)
  qed
qed

lemma request_ok:
  assumes "broker_ok options bk" "fits rc bk" "request hash rc bk = (r, bk')"
  shows "broker_ok options bk'"
proof (cases "registerAllHandlers hash Map.empty (rh_apiKey (rc_header rc), rh_apiVersion (rc_header rc))")
  case None
  then have "bk' = bk" using assms(3) by (auto simp: request_def dispatch_def reply_def header_bytes)
  with assms(1) show ?thesis by simp
next
  case (Some h)
  then have "((rh_apiKey (rc_header rc), rh_apiVersion (rc_header rc)), h) \<in> set (all_handlers hash)"
    using registered_mem [of "all_handlers hash" Map.empty _ h] by (auto simp: registerAllHandlers_def)
  moreover obtain out where "h rc out bk = (r, bk')"
    using Some assms(3) by (auto simp: request_def dispatch_def reply_def header_bytes)
  ultimately show ?thesis using handler_ok assms(1,2) by blast
qed

subsection \<open>Starting and sweeping keep it\<close>

lemma ensure_ok:
  assumes "manager_ok m" "n < 2 ^ 31" "ensureOffsetsTopic n m = (Inr k, m')"
    and offsets: "(\<forall>tp \<in> set (hostedPartitions m). tp_topic tp \<noteq> kOffsetsTopic) \<or> offsets_tp ` {0..<n} \<subseteq> set (hostedPartitions m)"
  shows "manager_ok m' \<and> k = n \<and> 0 < n \<and> offsets_tp ` {0..<n} \<subseteq> set (hostedPartitions m')"
proof -
  let ?found = "filter (\<lambda>tp. tp_topic tp = kOffsetsTopic) (hostedPartitions m)"
  have n: "0 < n" using assms(3) by (auto simp: ensureOffsetsTopic_def split: if_splits)
  show ?thesis
  proof (cases "?found = []")
    case True
    then have fresh: "\<And>tp. tp \<in> fst ` set (lm_logs m) \<Longrightarrow> tp_topic tp \<noteq> kOffsetsTopic"
      by (auto simp: filter_empty_conv hostedPartitions_def)
    have s: "synced (\<lambda>_. 0) (OffsetStore n) m'" by (rule ensureOffsetsTopic_fresh [OF assms(1-3) fresh])
    have k: "k = n" using assms(3) True n by (auto simp: ensureOffsetsTopic_def Let_def split: prod.splits sum.splits)
    have "offsets_tp p \<in> set (hostedPartitions m')" if "p \<in> {0..<n}" for p
    proof -
      have "lm_get m' (offsets_tp p) \<noteq> None" using s that by (auto simp: synced_def partition_synced_def OffsetStore_def)
      then show ?thesis using get_hosted [of m' "offsets_tp p"] by simp
    qed
    then have "offsets_tp ` {0..<n} \<subseteq> set (hostedPartitions m')" by blast
    with k show ?thesis using s n by (simp add: synced_def)
  next
    case False
    then have "offsets_tp ` {0..<n} \<subseteq> set (hostedPartitions m)" using offsets by (auto simp: filter_empty_conv)
    moreover have "m' = m \<and> k = n" using assms(3) False n by (auto simp: ensureOffsetsTopic_def Let_def split: if_splits)
    ultimately show ?thesis using assms(1) n by simp
  qed
qed

lemma started_ok:
  assumes start: "broker_start options entries now listening (Broker options) = Some (Inr bk)"
    and load: "loadAll entries now (LogManager (bo_defaults options)) = Inr m" "manager_ok m" and n: "bo_offsetsPartitions options < 2 ^ 31"
    and offsets: "(\<forall>tp \<in> set (hostedPartitions m). tp_topic tp \<noteq> kOffsetsTopic) \<or>
      offsets_tp ` {0..<bo_offsetsPartitions options} \<subseteq> set (hostedPartitions m)"
  shows "broker_ok options bk"
proof -
  let ?n = "bo_offsetsPartitions options"
  obtain k logs st port logs' where s: "ensureOffsetsTopic ?n m = (Inr k, logs)" "replay logs (OffsetStore ?n) = Some (Inr st)"
      "startMaintenance (bo_maintenanceIntervalMs options) logs = Inr logs'"
      "bk = (Broker options)\<lparr>bk_logs := logs', bk_offsets := st, bk_offsetsPartitions := k, bk_advertisedPort := port\<rparr>"
    using start load(1) by (auto simp: broker_start_def Broker_def bind_r_Inr_iff split: sum.splits prod.splits option.splits)
  note e = ensure_ok [OF load(2) n s(1) offsets]
  have "manager_ok logs' \<and> hostedPartitions logs' = hostedPartitions logs"
    using s(3) manager_ok_control [of logs logs'] e by (auto simp: startMaintenance_def hostedPartitions_def split: if_splits)
  moreover have "os_partitions st = ?n" using s(2) by (auto simp: replay_def OffsetStore_def split: option.splits sum.splits)
  ultimately show ?thesis using e n s(4) by (simp add: broker_ok_def Broker_def gc_reach_def)
qed

lemma maintain_ok:
  assumes "broker_ok options bk"
  shows "broker_ok options (broker_maintain now bk)"
proof -
  obtain m where m: "runMaintenance now (bk_logs bk) = (Inr (), m)" "manager_ok m" "map fst (lm_logs m) = map fst (lm_logs (bk_logs bk))"
    using runMaintenance_ok [of "bk_logs bk" now] assms by (auto simp: broker_ok_def)
  have "manager_ok (m\<lparr>lm_sweepCount := lm_sweepCount m + 1\<rparr>)" by (rule manager_ok_control [OF m(2)]) simp_all
  moreover have "hostedPartitions (m\<lparr>lm_sweepCount := lm_sweepCount m + 1\<rparr>) = hostedPartitions (bk_logs bk)"
    using m(3) by (simp add: hostedPartitions_def)
  ultimately have "broker_ok options (bk\<lparr>bk_logs := m\<lparr>lm_sweepCount := lm_sweepCount m + 1\<rparr>\<rparr>)"
    by (intro broker_ok_logs [OF assms]) simp_all
  with assms m(1) show ?thesis by (simp add: broker_maintain_def maintenance_tick_def)
qed

lemma broker_reach_ok: "broker_reach hash options bk \<Longrightarrow> broker_ok options bk"
proof (induction rule: broker_reach.induct)
  case (br_first now listening bk)
  then show ?case
    by (intro started_ok [OF br_first(1), of "LogManager (bo_defaults options)"] LogManager_ok)
      (simp_all add: loadAll_def LogManager_def hostedPartitions_def)
next
  case (br_request bk rc r bk')
  then show ?case using request_ok by blast
next
  case (br_sweep bk now)
  then show ?case unfolding sweepGroups_def by (intro broker_ok_groups step_expire)
next
  case (br_maintain bk now)
  show ?case by (rule maintain_ok [OF br_maintain.IH])
next
  case (br_restart bk entries now listening bk')
  have ok: "manager_ok (bk_logs bk)" "bo_offsetsPartitions options < 2 ^ 31"
      "offsets_tp ` {0..<bo_offsetsPartitions options} \<subseteq> set (hostedPartitions (bk_logs bk))"
    using br_restart.IH by (simp_all add: broker_ok_def)
  obtain m where m: "loadAll entries now (LogManager (bo_defaults options)) = Inr m" "manager_ok m"
      "hostedPartitions m = hostedPartitions (bk_logs bk)"
    using restart_ok [OF ok(1) br_restart.hyps(2), of now "bo_defaults options"] by blast
  show ?case by (rule started_ok [OF br_restart.hyps(3) m(1,2) ok(2)]) (use ok(3) m(3) in simp)
qed

subsection \<open>Every response is what it announces\<close>

lemma read_loop_within: "read_loop bytes offset maxBytes limit position = Inr (p, n) \<Longrightarrow> p + n \<le> limit"
proof (induction bytes offset maxBytes limit position rule: read_loop.induct)
  case (1 bytes offset maxBytes limit position)
  obtain found where found: "batchAt bytes position limit = Inr found"
    using "1.prems" by (subst (asm) read_loop.simps) (auto simp: bind_r_Inr_iff)
  show ?case
  proof (cases found)
    case None
    with "1.prems" found show ?thesis by (subst (asm) read_loop.simps) simp
  next
    case (Some b)
    note b = batchAt_SomeD [OF found [unfolded Some]]
    show ?thesis
    proof (cases "offset \<le> lastOffset (at_header b)")
      case True
      with "1.prems" found Some b show ?thesis by (subst (asm) read_loop.simps) auto
    next
      case False
      then have "read_loop bytes offset maxBytes limit (position + at_totalSize b) = Inr (p, n)"
        using "1.prems" found Some by (subst (asm) read_loop.simps) simp
      from "1.IH" [OF found Some _ this] False show ?thesis by simp
    qed
  qed
qed

lemma segment_read_within: "segment_read offset maxBytes seg = Inr (p, n) \<Longrightarrow> p + n \<le> length (sg_log seg)"
  by (auto simp: segment_read_def bind_r_Inr_iff Let_def dest: read_loop_within)

lemma log_read_within:
  assumes l: "log_holds bss cs l" and r: "log_read offset maxBytes l = Inr r"
  shows "in_file (range_of l r)"
proof -
  have sealed: "sg_baseOffset seg = b" if "(b, seg) \<in> set (lg_sealed l)" for b seg
    using sealed_holds_mem [of bss "lg_sealed l" b seg] l that by (simp add: log_holds_def)
  have seg: "in_file (range_of l \<lparr>rr_error = NoError, rr_file = Some (sg_baseOffset seg), rr_position = p, rr_length = n\<rparr>)"
    if "segment_read offset maxBytes seg = Inr (p, n)" "log_dir l (segmentLogPath (sg_baseOffset seg)) = Some (sg_log seg)" for p n seg
    using segment_read_within [OF that(1)] that(2) by (simp add: range_of_def in_file_def)
  have none: "in_file (range_of l \<lparr>rr_error = e, rr_file = None, rr_position = 0, rr_length = 0\<rparr>)" for e
    by (simp add: range_of_def in_file_def no_range_def)
  let ?upto = "filter (\<lambda>(base, _). base \<le> offset) (lg_sealed l)"
  consider "rr_file r = None" "rr_position r = 0" "rr_length r = 0"
    | p n where "segment_read offset maxBytes (lg_active l) = Inr (p, n)"
        "r = \<lparr>rr_error = NoError, rr_file = Some (sg_baseOffset (lg_active l)), rr_position = p, rr_length = n\<rparr>"
    | p n where "?upto \<noteq> []" "segment_read offset maxBytes (snd (last ?upto)) = Inr (p, n)"
        "r = \<lparr>rr_error = NoError, rr_file = Some (sg_baseOffset (snd (last ?upto))), rr_position = p, rr_length = n\<rparr>"
    using r by (auto simp: log_read_def Let_def bind_r_Inr_iff split: if_splits)
  then show ?thesis
  proof cases
    case 1
    then show ?thesis by (simp add: range_of_def in_file_def no_range_def)
  next
    case 2
    with seg log_dir_active [OF l] show ?thesis by simp
  next
    case 3
    obtain b s where "last ?upto = (b, s)" by fastforce
    moreover have "last ?upto \<in> set (lg_sealed l)" using last_in_set [OF 3(1)] by simp
    ultimately have mem: "(b, s) \<in> set (lg_sealed l)" "snd (last ?upto) = s" by simp_all
    with 3 seg [of s p n] log_dir_sealed [OF l mem(1)] sealed [OF mem(1)] show ?thesis by simp
  qed
qed

lemma fetch_one_within: "manager_ok logs \<Longrightarrow> in_file (fp_records (fetch_one logs topic asked))"
proof -
  assume m: "manager_ok logs"
  have none: "in_file no_range" by (simp add: in_file_def no_range_def)
  show ?thesis
  proof (cases "lm_get logs \<lparr>tp_topic = topic, tp_partition = fa_partition asked\<rparr>")
    case None
    with none show ?thesis by (simp add: fetch_one_def)
  next
    case (Some l)
    obtain bss cs where "log_holds bss cs l" using manager_ok_getD(3) [OF m Some] by (auto simp: log_good_def)
    with none Some log_read_within [of bss cs l "fa_fetchOffset asked" "nat (fa_maxBytes asked)"] show ?thesis
      by (auto simp: fetch_one_def Let_def split: sum.split)
  qed
qed

lemma encode_each_ok:
  assumes "\<And>x w out w' out'. x \<in> set xs \<Longrightarrow> response_ok out \<Longrightarrow> f x (w, out) = Inr (w', out') \<Longrightarrow> response_ok out'"
  shows "response_ok out \<Longrightarrow> encode_each f xs (w, out) = Inr (w', out') \<Longrightarrow> response_ok out'"
  using assms
proof (induction xs arbitrary: w out)
  case (Cons x xs)
  then obtain w1 out1 where 1: "f x (w, out) = Inr (w1, out1)" "encode_each f xs (w1, out1) = Inr (w', out')"
    by (auto simp: bind_r_Inr_iff)
  have "response_ok out1" using Cons.prems(3) [OF _ Cons.prems(1) 1(1)] by simp
  from Cons.IH [OF this 1(2)] Cons.prems(3) show ?case by (meson list.set_intros(2))
qed simp

lemma encodeFetchResponse_ok:
  assumes "list_all (\<lambda>t. list_all (\<lambda>p. in_file (fp_records p)) (frt_partitions t)) (frp_topics m)" "response_ok out"
    and "encodeFetchResponse m out = Inr out'"
  shows "response_ok out'"
proof -
  have p: "response_ok out'" if "in_file (fp_records p)" "response_ok out" "encode_fetch_partition p (w, out) = Inr (w', out')" for p w out w' out'
    using that by (auto simp: encode_fetch_partition_def bind_r_Inr_iff split: if_splits)
  have t: "response_ok out'" if t: "t \<in> set (frp_topics m)" "response_ok out" "encode_fetch_topic t (w, out) = Inr (w', out')" for t w out w' out'
  proof -
    obtain w1 where "encode_each encode_fetch_partition (frt_partitions t) (w1, out) = Inr (w', out')"
      using t(3) by (auto simp: encode_fetch_topic_def bind_r_Inr_iff)
    moreover have "response_ok out2" if "x \<in> set (frt_partitions t)" "response_ok out1"
      "encode_fetch_partition x (w, out1) = Inr (w', out2)" for x w w' out1 out2
      using p [OF _ that(2,3)] that(1) t(1) assms(1) by (simp add: list_all_iff)
    ultimately show ?thesis using encode_each_ok [of "frt_partitions t" encode_fetch_partition, OF _ t(2)] by blast
  qed
  obtain w1 w2 out2 bytes where e: "encode_each encode_fetch_topic (frp_topics m) (w1, out) = Inr (w2, out2)" "out' = append_buffer bytes out2"
    using assms(3) by (auto simp: encodeFetchResponse_def bind_r_Inr_iff)
  have "response_ok out2" by (rule encode_each_ok [where f = encode_fetch_topic, OF t assms(2) e(1)])
  with e(2) show ?thesis by simp
qed

definition sound_answers :: "handler \<Rightarrow> bool" where
  "sound_answers h \<longleftrightarrow> (\<forall>rc out bk out' bk'. manager_ok (bk_logs bk) \<longrightarrow> response_ok out \<longrightarrow>
     h rc out bk = (Inr out', bk') \<longrightarrow> response_ok out')"

lemma handling_sound:
  assumes "\<And>a out out'. answer a out = Inr out' \<Longrightarrow> response_ok out \<Longrightarrow> response_ok out'"
  shows "handling decode act answer rc out bk = (Inr out', bk') \<Longrightarrow> response_ok out \<Longrightarrow> response_ok out'"
  using assms by (auto simp: handling_def bind_r_Inr_iff split: sum.splits prod.splits)

lemma reply_sound: "reply encoder message out = Inr out' \<Longrightarrow> response_ok out \<Longrightarrow> response_ok out'"
  by (auto simp: reply_def bind_r_Inr_iff)

lemma handlers_sound: "(k, h) \<in> set (all_handlers hash) \<Longrightarrow> sound_answers h"
proof -
  assume mem: "(k, h) \<in> set (all_handlers hash)"
  have fetch: "sound_answers handleFetch"
    unfolding sound_answers_def
  proof (intro allI impI)
    fix rc out bk out' bk' assume m: "manager_ok (bk_logs bk)" "response_ok out" "handleFetch rc out bk = (Inr out', bk')"
    then obtain q where q: "encodeFetchResponse (fetched q bk) out = Inr out'"
      by (auto simp: handleFetch_def handling_def split: sum.splits)
    show "response_ok out'"
      by (rule encodeFetchResponse_ok [OF _ m(2) q]) (simp add: fetched_def list_all_iff fetch_one_within [OF m(1)])
  qed
  have "h = handleFetch \<or> sound_answers h"
    using mem by (auto simp: all_handlers_def sound_answers_def handleListOffsets_def handleMetadata_def handleCreateTopic_def
        handleProduce_def handleFindCoordinator_def handleJoinGroup_def handleSyncGroup_def handleHeartbeat_def
        handleLeaveGroup_def handleOffsetCommit_def handleOffsetFetch_def elim!: handling_sound [rotated] dest: reply_sound)
  with fetch show ?thesis by blast
qed

lemma request_sound:
  assumes "manager_ok (bk_logs bk)" "request hash rc bk = (Inr out, bk')"
  shows "response_ok out"
proof (cases "registerAllHandlers hash Map.empty (rh_apiKey (rc_header rc), rh_apiVersion (rc_header rc))")
  case None
  then show ?thesis using assms(2) by (auto simp: request_def dispatch_def reply_def header_bytes bind_r_Inr_iff)
next
  case (Some h)
  then have "((rh_apiKey (rc_header rc), rh_apiVersion (rc_header rc)), h) \<in> set (all_handlers hash)"
    using registered_mem [of "all_handlers hash" Map.empty _ h] by (auto simp: registerAllHandlers_def)
  then have "sound_answers h" by (rule handlers_sound)
  moreover have "h rc (append_buffer (i32_repr (rh_correlationId (rc_header rc))) []) bk = (Inr out, bk')"
    using Some assms(2) by (simp add: request_def dispatch_def reply_def header_bytes)
  moreover have "response_ok (append_buffer (i32_repr (rh_correlationId (rc_header rc))) [])" by simp
  ultimately show ?thesis using assms(1) unfolding sound_answers_def by blast
qed

lemma load_entries_running: "load_entries now entries m = Inr m' \<Longrightarrow> lm_running m' = lm_running m"
proof (induction entries arbitrary: m)
  case (Cons e entries)
  obtain name d where e: "e = (name, d)" by (cases e)
  have "\<exists>m1. load_entries now entries m1 = Inr m' \<and> lm_running m1 = lm_running m"
  proof (cases d)
    case PlainFile
    with Cons.prems e show ?thesis by (intro exI [of _ "m\<lparr>lm_others := lm_others m @ [(name, PlainFile)]\<rparr>"]) simp
  next
    case (Dir files)
    show ?thesis
    proof (cases "name = kMetaDirName \<or> ends_with kDeletedSuffix name")
      case True
      then show ?thesis
        using Cons.prems e Dir
        by (cases "name = kMetaDirName", intro exI [of _ "m\<lparr>lm_others := lm_others m @ [(name, Dir files)]\<rparr>"], simp_all)
          (intro exI [of _ m], simp)
    next
      case False
      then obtain tp l where "load_entries now entries (if tp \<in> fst ` set (lm_logs m) then m else m\<lparr>lm_logs := lm_logs m @ [(tp, l)]\<rparr>) = Inr m'"
        using Cons.prems e Dir by (auto simp: bind_r_Inr_iff)
      then show ?thesis
        by (intro exI [of _ "if tp \<in> fst ` set (lm_logs m) then m else m\<lparr>lm_logs := lm_logs m @ [(tp, l)]\<rparr>"]) simp
    qed
  qed
  with Cons.IH show ?case by auto
qed simp

subsection \<open>Properties\<close>

text \<open>C12. Whatever a broker is asked, swept, maintained and restarted through, its logs are well formed, its
coordinator is in a state its operations lead to, and every partition of the offsets topic is there, as
many as the store and the answers of FindCoordinator go by.\<close>

theorem broker_invariant:
  assumes "broker_reach hash options bk"
  shows "manager_ok (bk_logs bk) \<and> coordinator_ok (bk_groups bk) \<and>
    bk_offsetsPartitions bk = bo_offsetsPartitions options \<and> os_partitions (bk_offsets bk) = bo_offsetsPartitions options \<and>
    (\<forall>p \<in> {0..<bo_offsetsPartitions options}. lm_get (bk_logs bk) (offsets_tp p) \<noteq> None)"
proof -
  have ok: "broker_ok options bk" by (rule broker_reach_ok [OF assms])
  have "lm_get (bk_logs bk) (offsets_tp p) \<noteq> None" if "p \<in> {0..<bo_offsetsPartitions options}" for p
    using ok that get_hosted [of "bk_logs bk" "offsets_tp p"] by (auto simp: broker_ok_def)
  with ok show ?thesis using gc_reach_ok by (simp add: broker_ok_def)
qed

text \<open>Every group has a coordinator. On any broker in operation FindCoordinator answers each group that has
a name with this broker, without an error, and the partition it went by is hosted and is the one the
group's commits go to.\<close>

lemma coordinator_always_found:
  assumes "broker_reach hash options bk" "fcq_groupId q \<noteq> []"
  shows "find_coordinator hash q bk = Inr \<lparr>fcp_error = EC_None, fcp_nodeId = bk_nodeId bk, fcp_host = bk_advertisedHost bk,
      fcp_port = bk_advertisedPort bk\<rparr> \<and>
    (\<exists>p l. partitionFor hash (bk_offsets bk) (fcq_groupId q) = Inr p \<and> lm_get (bk_logs bk) (offsets_tp p) = Some l)"
proof -
  have ok: "broker_ok options bk" by (rule broker_reach_ok [OF assms(1)])
  then obtain p where p: "partitionFor hash (bk_offsets bk) (fcq_groupId q) = Inr p" "p \<in> {0..<bo_offsetsPartitions options}"
    using partitionFor_total [of "bk_offsets bk" hash "fcq_groupId q"] by (auto simp: broker_ok_def)
  moreover have "lm_get (bk_logs bk) (offsets_tp p) \<noteq> None"
    using ok p(2) get_hosted [of "bk_logs bk" "offsets_tp p"] by (auto simp: broker_ok_def)
  ultimately show ?thesis
    using ok assms(2) by (auto simp: find_coordinator_def partitionFor_def broker_ok_def Let_def)
qed

text \<open>C8. No answer lies about its length. Whatever a broker in operation answers, a fetch across segments and
compacted logs included, every file range of the answer lies in its file: the bytes that follow the
length prefix are as many as it announced, so no answer is ever taken for the begin of the next.\<close>

theorem answers_fit_their_frame:
  assumes "broker_reach hash options bk" "request hash rc bk = (Inr out, bk')"
  shows "materialise out = Inr (flat out) \<and> totalBytes out = length (flat out) \<and>
    (\<forall>outs sent others. writeResponse out outs = (sent, Sent, others) \<longrightarrow> sent = frame_bytes (flat out))"
proof -
  have "manager_ok (bk_logs bk)" using broker_reach_ok [OF assms(1)] by (simp add: broker_ok_def)
  then have "response_ok out" by (rule request_sound [OF _ assms(2)])
  then show ?thesis using materialise_flat totalBytes_flat writeResponse_sent by blast
qed

subsection \<open>A concrete broker\<close>

abbreviation demo_options :: broker_options where
  "demo_options \<equiv> \<lparr>bo_defaults = small_config Delete, bo_host = ''h'', bo_port = 0, bo_advertisedHost = [], bo_nodeId = 1,
     bo_maintenanceIntervalMs = 30, bo_offsetsPartitions = 1\<rparr>"

lemma demo_first_start:
  "\<exists>m l. broker_start demo_options [] 0 (Inr 9) (Broker demo_options) = Some (Inr (demo_state (OffsetStore 1) m)) \<and>
     lm_logs m = [(offsets_tp 0, l)] \<and> log_holds [] [] l \<and> sg_baseOffset (lg_active l) = 0 \<and>
     lg_tp l = offsets_tp 0 \<and> lg_config l = offsets_config (small_config Delete)"
proof -
  obtain m l where m: "ensureOffsetsTopic 1 (LogManager (small_config Delete)) = (Inr 1, m)" "lm_logs m = [(offsets_tp 0, l)]"
      "log_holds [] [] l" "sg_baseOffset (lg_active l) = 0" "lg_tp l = offsets_tp 0" "lg_config l = offsets_config (small_config Delete)"
      "\<not> lm_running m"
    using demo_topic by blast
  have "manager_ok (LogManager (small_config Delete))" by (rule LogManager_ok)
  then have "synced (\<lambda>_. 0) (OffsetStore 1) m"
    by (rule ensureOffsetsTopic_fresh [OF _ _ m(1)]) (simp_all add: LogManager_def)
  then have "replay m (OffsetStore 1) = Some (Inr (OffsetStore 1))" using synced_replay by (fastforce simp: OffsetStore_def)
  moreover have "startMaintenance 30 m = Inr (m\<lparr>lm_stopRequested := False, lm_running := True\<rparr>)"
    using m(7) by (simp add: startMaintenance_def)
  ultimately have "broker_start demo_options [] 0 (Inr 9) (Broker demo_options) =
      Some (Inr (demo_state (OffsetStore 1) (m\<lparr>lm_stopRequested := False, lm_running := True\<rparr>)))"
    using m(1) by (simp add: broker_start_def Broker_def loadAll_def LogManager_def)
  with m(2-6) show ?thesis by (intro exI [of _ "m\<lparr>lm_stopRequested := False, lm_running := True\<rparr>"] exI [of _ l]) simp
qed

lemma demo_started:
  "\<exists>bk. broker_reach (\<lambda>_. 0) demo_options bk \<and> hostedPartitions (bk_logs bk) = [offsets_tp 0]"
proof -
  obtain m l where m: "broker_start demo_options [] 0 (Inr 9) (Broker demo_options) = Some (Inr (demo_state (OffsetStore 1) m))"
      "lm_logs m = [(offsets_tp 0, l)]"
    using demo_first_start by blast
  have "broker_reach (\<lambda>_. 0) demo_options (demo_state (OffsetStore 1) m)" by (rule br_first [OF m(1)]) simp
  with m(2) show ?thesis by (intro exI [of _ "demo_state (OffsetStore 1) m"]) (simp add: hostedPartitions_def)
qed

theorem broker_invariant_witness:
  "\<exists>bk. broker_reach (\<lambda>_. 0) demo_options bk \<and> bk_offsetsPartitions bk = 1 \<and> lm_get (bk_logs bk) (offsets_tp 0) \<noteq> None"
proof -
  obtain bk where bk: "broker_reach (\<lambda>_. 0) demo_options bk" using demo_started by blast
  from broker_invariant [OF bk] bk show ?thesis by auto
qed

definition demo_fetch :: fetch_request where
  "demo_fetch = \<lparr>fq_maxWaitMs = 0, fq_minBytes = 0, fq_topics =
     [\<lparr>fqt_name = ''t'', fqt_partitions = [\<lparr>fa_partition = 0, fa_fetchOffset = 0, fa_maxBytes = 100\<rparr>]\<rparr>]\<rparr>"

theorem answers_fit_their_frame_witness:
  "\<exists>bk out. broker_reach (\<lambda>_. 0) demo_options bk \<and>
    request (\<lambda>_. 0) \<lparr>rc_header = \<lparr>rh_apiKey = Fetch, rh_apiVersion = 0, rh_correlationId = 5, rh_clientId = ''c''\<rparr>,
      rc_body = reader_of (fetch_request_repr demo_fetch), rc_frame = fetch_request_repr demo_fetch, rc_now = 0\<rparr> bk = (Inr out, bk) \<and>
    totalBytes out = length (flat out)"
proof -
  let ?rc = "\<lparr>rc_header = \<lparr>rh_apiKey = Fetch, rh_apiVersion = 0, rh_correlationId = 5, rh_clientId = ''c''\<rparr>,
      rc_body = reader_of (fetch_request_repr demo_fetch), rc_frame = fetch_request_repr demo_fetch, rc_now = 0\<rparr>"
  obtain bk where bk: "broker_reach (\<lambda>_. 0) demo_options bk" "hostedPartitions (bk_logs bk) = [offsets_tp 0]"
    using demo_started by blast
  have none: "lm_get (bk_logs bk) \<lparr>tp_topic = ''t'', tp_partition = 0\<rparr> = None"
    using get_hosted [of "bk_logs bk" "\<lparr>tp_topic = ''t'', tp_partition = 0\<rparr>"] bk(2) by (simp add: kOffsetsTopic_def)
  have "fetch_request_ok demo_fetch"
    by (simp add: demo_fetch_def fetch_request_ok_def fetch_topic_ok_def fetch_asked_ok_def array_ok_def string_ok_def range_simps)
  then obtain r where d: "decodeFetchRequest (reader_of (fetch_request_repr demo_fetch)) = Inr (demo_fetch, r)"
    using fetchRequest.dec_repr [of demo_fetch "reader_of (fetch_request_repr demo_fetch)" "[]"] by auto
  have "fetch_response_ok (fetched demo_fetch bk)"
    by (simp add: fetched_def demo_fetch_def fetch_one_def none fetch_response_ok_def view_of_def view_topic_def view_partition_def
        fetch_response_view_ok_def fetch_view_topic_ok_def fetch_view_partition_ok_def array_ok_def string_ok_def blob_ok_def
        code_ok_def in_file_def no_range_def pread_def range_simps)
  then obtain out where "encodeFetchResponse (fetched demo_fetch bk) (append_buffer (i32_repr 5) []) = Inr out"
    using encodeFetchResponse_flat [of "fetched demo_fetch bk" "append_buffer (i32_repr 5) []"] by auto
  moreover have "registerAllHandlers (\<lambda>_. 0) Map.empty (Fetch, 0) = Some handleFetch"
    by (simp add: registerAllHandlers_def all_handlers_def registerHandler_def)
  ultimately have "request (\<lambda>_. 0) ?rc bk = (Inr out, bk)"
    using d by (simp add: request_def dispatch_def reply_def header_bytes handleFetch_def handling_def)
  from answers_fit_their_frame [OF bk(1) this] this bk(1) show ?thesis by blast
qed

end
