(* ===== verification/Offset_Upkeep.thy ===== *)
theory Offset_Upkeep
  imports Broker_Positions Cleaner_Schedule
begin

text \<open>
  The offsets topic under maintenance and compaction: neither takes away what the positions of the groups are
  replayed from, as long as compaction leaves no hole between two segments.
\<close>

subsection \<open>Records that say a commit\<close>

definition says :: "log_record \<Rightarrow> commit_key \<times> commit_value option \<Rightarrow> bool" where
  "says r = (\<lambda>(k, v). commit_key_ok k \<and> lr_key r = Some (commit_key_repr k) \<and>
     (case lr_value r of None \<Rightarrow> v = None | Some bytes \<Rightarrow> \<exists>x. decodeCommitValue bytes = Inr x \<and> v = Some x))"

definition telling :: "byte list \<Rightarrow> bool" where
  "telling b \<longleftrightarrow> (\<exists>recs. decodeRecords b = Inr recs) \<and> (\<forall>r \<in> set (batch_records b). \<exists>c. says r c)"

lemma says_change: "says (record_at h rec) c \<Longrightarrow> record_change rec = Inr (Some c)"
  using commit_key_bytes(2)
  by (cases c) (auto simp: says_def record_at_def record_change_def split: option.splits)

lemma telling_batch:
  assumes "telling b"
  shows "replayable b \<and> list_all2 says (batch_records b) (batch_changes b)"
proof -
  obtain recs where recs: "decodeRecords b = Inr recs" using assms by (auto simp: telling_def)
  have each: "\<exists>c. says (record_at (hdr b) rec) c \<and> record_change rec = Inr (Some c)" if "rec \<in> set recs" for rec
  proof -
    have "record_at (hdr b) rec \<in> set (batch_records b)" using that recs by (simp add: batch_records_def)
    then obtain c where "says (record_at (hdr b) rec) c" using assms by (auto simp: telling_def)
    with says_change show ?thesis by blast
  qed
  then have "list_all2 says (map (record_at (hdr b)) recs) (concat (map record_changes recs))"
  proof (induction recs)
    case (Cons rec recs)
    obtain c where "says (record_at (hdr b) rec) c" "record_changes rec = [c]"
      using Cons.prems [of rec] by (auto simp: record_changes_def)
    with Cons show ?case by simp
  qed simp
  moreover have "replayable b" using recs each unfolding replayable_def by blast
  ultimately show ?thesis using recs by (simp add: batch_records_def batch_changes_def)
qed

lemma telling_all:
  "list_all telling bs \<Longrightarrow> list_all replayable bs \<and> list_all2 says (records_in bs) (changes bs)"
  by (induction bs) (simp_all add: telling_batch list_all2_appendI)

text \<open>The last commit of a key is what its last record says.\<close>

lemma commit_key_repr_eq: "commit_key_ok j \<Longrightarrow> commit_key_ok k \<Longrightarrow> commit_key_repr j = commit_key_repr k \<longleftrightarrow> j = k"
  using commit_key_bytes(2) by (metis sum.inject(2))

lemma last_change_says:
  assumes "list_all2 says rs cs"
  shows "last_change cs Map.empty k = (if commit_key_ok k then (case last_value rs (commit_key_repr k) of
    None \<Rightarrow> None | Some bytes \<Rightarrow> (case decodeCommitValue bytes of Inl _ \<Rightarrow> None | Inr v \<Rightarrow> Some v)) else None)"
  using assms
proof (induction rs arbitrary: cs rule: rev_induct)
  case Nil
  then show ?case by (simp add: last_change_def last_value_def)
next
  case (snoc r rs)
  obtain ds c where cs: "cs = ds @ [c]" "list_all2 says rs ds" "says r c"
    using snoc.prems by (auto simp: list_all2_append1 list_all2_Cons1)
  obtain j v where c: "c = (j, v)" by (cases c)
  have r: "commit_key_ok j" "lr_key r = Some (commit_key_repr j)"
    "case lr_value r of None \<Rightarrow> v = None | Some bytes \<Rightarrow> \<exists>x. decodeCommitValue bytes = Inr x \<and> v = Some x"
    using cs(3) c by (auto simp: says_def)
  have one: "last_value [r] key = (if lr_key r = Some key then lr_value r else None)" for key by (simp add: last_value_def)
  show ?case
  proof (cases "k = j")
    case True
    then show ?thesis using r cs(1) c by (auto simp: last_change_snoc last_value_append one split: option.splits)
  next
    case False
    then have "commit_key_ok k \<Longrightarrow> lr_key r \<noteq> Some (commit_key_repr k)" using r(1,2) commit_key_repr_eq [of j k] by auto
    then show ?thesis using snoc.IH [OF cs(2)] False cs(1) c by (simp add: last_change_snoc last_value_append)
  qed
qed

subsection \<open>A partition of the topic\<close>

text \<open>Written by commits only, and never cleaned up by age or size.\<close>

definition topic_log :: "partition_log \<Rightarrow> bool" where
  "topic_log l \<longleftrightarrow> (\<exists>bss cs. log_holds bss cs l \<and> list_all telling (concat bss @ cs)) \<and>
     rt_retentionMs (lc_retention (lg_config l)) = 9223372036854775807 \<and> rt_retentionBytes (lc_retention (lg_config l)) = None"

lemma topic_log_holds: "topic_log l \<Longrightarrow> log_holds bss cs l \<Longrightarrow> list_all telling (concat bss @ cs)"
  unfolding topic_log_def using log_holds_unique by blast

lemma topic_log_tells:
  assumes "topic_log l" "gap_free l" "log_holds bss cs l"
  shows "tells l (changes (concat bss @ cs))"
  using telling_all [OF topic_log_holds [OF assms(1,3)]] assms(2,3) unfolding tells_def by blast

lemma tells_unique: "tells l chs \<Longrightarrow> log_holds bss cs l \<Longrightarrow> chs = changes (concat bss @ cs)"
  unfolding tells_def using log_holds_unique by blast

lemma topic_log_same:
  assumes "same_log l l'" "topic_log l"
  shows "topic_log l'"
proof -
  obtain bss cs where h: "log_holds bss cs l" "log_holds bss cs l'" using assms(1) by (auto simp: same_log_def)
  moreover have "lg_config l' = lg_config l" using assms(1) by (simp add: same_log_def)
  ultimately show ?thesis using assms(2) topic_log_holds [OF assms(2) h(1)] unfolding topic_log_def by auto
qed

text \<open>A commit.\<close>

lemma telling_stamped:
  assumes "telling b" "batch_wf b" "in_i64 base" "stampBaseOffset b base = Inr s"
  shows "telling s"
proof -
  have dec: "decodeRecords s = decodeRecords b" by (rule stamped_decode [OF assms(2-4)])
  have same: "says (record_at h rec) = says (record_at h' rec)" for h h' rec by (simp add: says_def record_at_def)
  obtain recs where recs: "decodeRecords b = Inr recs" using assms(1) by (auto simp: telling_def)
  have "\<exists>c. says (record_at (hdr s) rec) c" if "rec \<in> set recs" for rec
    using assms(1) recs that same [of "hdr s" rec "hdr b"] by (auto simp: telling_def batch_records_def)
  then show ?thesis using dec recs by (auto simp: telling_def batch_records_def)
qed

lemma batchFor_telling:
  assumes "commit_key_ok k" "\<And>x. v = Some x \<Longrightarrow> commit_value_ok x" "in_i64 t" "batchFor k v t = Inr b"
  shows "telling b \<and> batch_wf b \<and> bh_lastOffsetDelta (hdr b) = 0"
proof -
  obtain r where b: "valid_batch b" "bh_lastOffsetDelta (hdr b) = 0" "decodeRecords b = Inr [r]"
      "rec_key r = Some (commit_key_repr k)" "record_change r = Inr (Some (k, v))"
    using batchFor_ok [OF assms(1) _ assms(3), of v] assms(2,4) by auto
  have "says (record_at (hdr b) r) (k, v)"
    using b(4,5) assms(1) by (auto simp: says_def record_at_def record_change_def bind_r_Inr_iff split: option.splits)
  then show ?thesis using b by (auto simp: telling_def batch_records_def valid_batch_def)
qed

lemma topic_log_append:
  assumes "topic_log l" "telling b" "batch_wf b" "lg_logEndOffset l + bh_lastOffsetDelta (hdr b) + 1 < 2 ^ 63"
    and "log_append b r a l = (res, l')"
  shows "topic_log l'"
proof -
  obtain bss cs where h: "log_holds bss cs l" "list_all telling (concat bss @ cs)" using assms(1) by (auto simp: topic_log_def)
  note app = log_append_holds [OF h(1) assms(3-5)]
  have i: "in_i64 (lg_logEndOffset l)" using h(1) by (simp add: log_holds_def valid_base_def range_simps)
  have "\<exists>bss' cs'. log_holds bss' cs' l' \<and> list_all telling (concat bss' @ cs')"
  proof (cases res)
    case (Inl e)
    then obtain bss' cs' where "log_holds bss' cs' l'" "concat bss' @ cs' = concat bss @ cs" using app by auto
    with h(2) show ?thesis by (intro exI [of _ bss'] exI [of _ cs']) simp
  next
    case (Inr base)
    then obtain s bss' cs' where n: "stampBaseOffset b (lg_logEndOffset l) = Inr s" "log_holds bss' cs' l'"
        "concat bss' @ cs' = (concat bss @ cs) @ [s]"
      using app by auto
    have "list_all telling (concat bss' @ cs')"
      unfolding n(3) using h(2) telling_stamped [OF assms(2,3) i n(1)] by simp
    with n(2) show ?thesis by blast
  qed
  moreover have "lg_config l' = lg_config l" using log_append_holds [OF h(1) assms(3-5)] by simp
  ultimately show ?thesis using assms(1) by (simp add: topic_log_def)
qed

text \<open>Maintenance: no segment with a record in it is ever due.\<close>

lemma empty_segment:
  assumes "segment_holds bs seg" "segment_isEmpty seg"
  shows "bs = []"
proof (rule ccontr)
  assume some: "bs \<noteq> []"
  then have "bh_baseOffset (hdr (hd bs)) \<le> lastOffset (hdr (last bs))" "sg_baseOffset seg \<le> lastOffset (hdr (last bs))"
  proof -
    have asc: "ascending (sg_baseOffset seg) bs" using assms(1) by (simp add: segment_holds_def)
    from ascending_base_le [OF asc last_in_set [OF some]] have "sg_baseOffset seg \<le> bh_baseOffset (hdr (last bs))" .
    moreover have "batch_wf (last bs)" using ascending_list_all [OF asc] some by (simp add: list_all_iff)
    ultimately show "sg_baseOffset seg \<le> lastOffset (hdr (last bs))" using batch_wf_lastOffset [of "last bs"] by simp
    have "bh_baseOffset (hdr (hd bs)) \<le> lastOffset (hdr (hd bs))" using asc some batch_wf_lastOffset by (cases bs) auto
    moreover have "lastOffset (hdr (hd bs)) \<le> lastOffset (hdr (last bs))"
      using ascending_base_le [of "lastOffset (hdr (hd bs)) + 1" "tl bs" "last bs"] asc some batch_wf_lastOffset [of "last bs"] \<open>batch_wf (last bs)\<close>
      by (cases bs) (auto split: if_splits)
    ultimately show "bh_baseOffset (hdr (hd bs)) \<le> lastOffset (hdr (last bs))" by simp
  qed
  with assms some show False by (simp add: segment_holds_def segment_isEmpty_def end_offset_def)
qed

lemma topic_log_maintained:
  assumes topic: "topic_log l" and gap: "gap_free l" and m: "maintained now l l'" and now: "now < 9223372036854775807"
  shows "topic_log l' \<and> gap_free l' \<and> (\<forall>chs. tells l chs \<longrightarrow> tells l' chs)"
proof -
  obtain bss cs where h: "log_holds bss cs l" "list_all telling (concat bss @ cs)" using topic by (auto simp: topic_log_def)
  obtain rolled k g where k: "log_maybeRoll now l = Inr rolled" "k \<le> length (lg_sealed rolled)" "\<forall>i < k. due now rolled i"
      "l' = rolled\<lparr>lg_sealed := drop k (lg_sealed rolled), lg_graveyard := g\<rparr>"
    using m unfolding maintained_def by blast
  obtain bss1 cs1 where r: "log_holds bss1 cs1 rolled" "concat bss1 @ cs1 = concat bss @ cs" using roll_keeps [OF h(1) k(1)] by blast
  have config: "lg_config rolled = lg_config l" using log_maybeRoll_holds [OF h(1), of now] k(1) by auto
  let ?aged = "\<lambda>(_, seg). aged now 9223372036854775807 seg"
  have sealed: "sealed_holds bss1 (lg_sealed rolled)" using r(1) by (simp add: log_holds_def)
  have "concat (take k bss1) = []"
  proof -
    have "bss1 ! i = []" if "i < k" for i
    proof -
      have "due now rolled i" using k(3) that by blast
      then have "i < length (takeWhile ?aged (lg_sealed rolled))"
        using topic config by (simp add: due_def topic_log_def)
      then have "takeWhile ?aged (lg_sealed rolled) ! i \<in> set (takeWhile ?aged (lg_sealed rolled))" by (rule nth_mem)
      then have "?aged (lg_sealed rolled ! i)"
        using \<open>i < length (takeWhile ?aged (lg_sealed rolled))\<close> by (metis (no_types, lifting) set_takeWhileD takeWhile_nth)
      moreover obtain b seg where s: "lg_sealed rolled ! i = (b, seg)" by fastforce
      ultimately have "segment_isEmpty seg" using now by (auto simp: aged_def)
      moreover have "segment_holds (bss1 ! i) seg"
        using list_all2_nthD2 [OF sealed [unfolded sealed_holds_def], of i] that k(2) s by simp
      ultimately show ?thesis by (intro empty_segment)
    qed
    moreover have "length bss1 = length (lg_sealed rolled)" using sealed_holds_length [OF sealed] .
    ultimately show ?thesis using k(2) by (auto simp: in_set_conv_nth)
  qed
  then have batches: "concat (drop k bss1) @ cs1 = concat bss @ cs"
    using r(2) by (metis append_Nil append_take_drop_id concat_append)
  have l': "log_holds (drop k bss1) cs1 l'" using log_holds_drop [OF r(1), of k g] k(4) by simp
  have "gap_free rolled" by (rule log_maybeRoll_gap_free [OF h(1) gap k(1)])
  then have gap': "gap_free l'" using check_contiguity_drop by (simp add: gap_free_def k(4))
  have "lg_config l' = lg_config l" using m by (simp add: maintained_def)
  moreover have "list_all telling (concat (drop k bss1) @ cs1)" unfolding batches by (rule h(2))
  ultimately have topic': "topic_log l'" using topic l' unfolding topic_log_def by (metis)
  have "tells l' chs" if "tells l chs" for chs
    using topic_log_tells [OF topic' gap' l'] tells_unique [OF that h(1)] batches by simp
  with topic' gap' show ?thesis by blast
qed

text \<open>Compaction that leaves no hole: other batches, and the same last commit of every key.\<close>

lemma topic_log_cleaned:
  assumes topic: "topic_log l" and old: "tells l chs" and mark: "log_schedule_ok mark l"
    and run: "cleanLog l cleaner mark nowMs = (Inr cr, l')" and gap: "gap_free l'"
  shows "topic_log l' \<and> (\<exists>chs'. tells l' chs' \<and> fst ` set chs' \<subseteq> fst ` set chs \<and>
    (\<forall>k. last_change chs' Map.empty k = last_change chs Map.empty k))"
proof -
  obtain bss cs where h: "cleanable bss cs l" "mark_aligned mark (lg_sealed l)" "unique_below mark (records_in (concat bss))"
    using mark by (auto simp: log_schedule_ok_def)
  let ?rs = "records_in (concat bss)"
  obtain bss' m K s g where p: "log_holds bss' cs l'" "l' = l\<lparr>lg_sealed := s, lg_graveyard := g\<rparr>" "cleanable bss' cs l'"
      "pass_outcome ?rs l mark nowMs m (cr_nextDirtyOffset cr) K" "records_in (concat bss') = filter K ?rs"
    using cleanLog_pass [OF h(1,2), of cleaner nowMs] run by auto
  have log: "log_holds bss cs l" using h(1) by (simp add: cleanable_def)
  note telling = topic_log_holds [OF topic log]
  have inj: "inj_on digestOf {key. \<exists>r \<in> set ?rs. lr_key r = Some key}" using h(1) unfolding cleanable_def by blast
  have "last_value (records_in (concat bss')) key = last_value ?rs key" for key
    unfolding p(5) by (rule pass_keeps_view [OF p(4) inj cleanable_sorted [OF h(1)] h(3)])
  then have same_values: "last_value (records_in (concat bss' @ cs)) key = last_value (records_in (concat bss @ cs)) key" for key
    unfolding map_append concat_append by (simp only: last_value_append)
  have "telling b" if b: "b \<in> set (concat bss')" for b
  proof -
    have "list_all rewritable (concat bss')" using p(3) by (auto simp: cleanable_def list_all_iff)
    then have "\<exists>recs. decodeRecords b = Inr recs" using b by (auto simp: list_all_iff rewritable_def)
    moreover have "\<exists>c. says r c" if "r \<in> set (batch_records b)" for r
    proof -
      have "r \<in> set (records_in (concat bss'))" using that b by auto
      then have "r \<in> set ?rs" unfolding p(5) by simp
      then obtain b0 where "b0 \<in> set (concat bss)" "r \<in> set (batch_records b0)" by auto
      moreover from this have "telling b0" using telling by (auto simp: list_all_iff)
      ultimately show ?thesis by (auto simp: telling_def)
    qed
    ultimately show ?thesis by (simp add: telling_def)
  qed
  then have telling': "list_all telling (concat bss' @ cs)" using telling by (auto simp: list_all_iff)
  have "lg_config l' = lg_config l" by (simp add: p(2))
  then have topic': "topic_log l'" using topic p(1) telling' unfolding topic_log_def by auto
  have says: "list_all2 says (records_in (concat bss @ cs)) chs" "list_all2 says (records_in (concat bss' @ cs)) (changes (concat bss' @ cs))"
    using telling_all [OF telling] telling_all [OF telling'] tells_unique [OF old log] by simp_all
  have same: "last_change (changes (concat bss' @ cs)) Map.empty k = last_change chs Map.empty k" for k
    unfolding last_change_says [OF says(1)] last_change_says [OF says(2)] same_values ..
  have "fst ` set (changes (concat bss' @ cs)) \<subseteq> fst ` set chs"
  proof
    fix k assume "k \<in> fst ` set (changes (concat bss' @ cs))"
    then obtain v where "(k, v) \<in> set (changes (concat bss' @ cs))" by (rule imageE) (metis prod.collapse)
    then obtain r where r: "r \<in> set (records_in (concat bss' @ cs))" "says r (k, v)"
      using says(2) by (metis list_all2_conv_all_nth in_set_conv_nth)
    then have "r \<in> set (records_in (concat bss @ cs))" using p(5) by auto
    then obtain c where c: "c \<in> set chs" "says r c" using says(1) by (metis list_all2_conv_all_nth in_set_conv_nth)
    then have "fst c = k" using r(2) commit_key_repr_eq by (cases c) (auto simp: says_def)
    with c(1) show "k \<in> fst ` set chs" by blast
  qed
  with topic' same topic_log_tells [OF topic' gap p(1)] show ?thesis by blast
qed

end
