(* ===== verification/Broker_History.thy ===== *)
theory Broker_History
  imports Broker_Life Offset_Upkeep
begin

text \<open>
  The committed positions through the life of a broker: requests, sweeps, maintenance, compaction and restarts,
  in any order, as long as only commits write to the offsets topic and compaction leaves no hole in it.
\<close>

subsection \<open>Positions the offsets topic tells\<close>

definition topic_kept :: "log_manager \<Rightarrow> bool" where
  "topic_kept m \<longleftrightarrow> (\<forall>p l. lm_get m (offsets_tp p) = Some l \<longrightarrow> topic_log l)"

definition positions_kept :: "(string \<Rightarrow> nat) \<Rightarrow> offset_store \<Rightarrow> log_manager \<Rightarrow> bool" where
  "positions_kept hash st m \<longleftrightarrow> synced hash st m \<and> topic_kept m"




subsection \<open>What the steps of a broker do to them\<close>

lemma commit_keeps_topic:
  assumes kept: "topic_kept m" and room: "\<And>p l. lm_get m (offsets_tp p) = Some l \<Longrightarrow> lg_logEndOffset l + 1 < 2 ^ 63"
    and ok: "commit_key_ok key" "commit_value_ok v" and run: "commit hash key v clock (st, m) = (r, st', m')"
  shows "topic_kept m'"
proof -
  obtain r' where "append_commit hash key (Some v) (cv_commitTimestampMs v) clock st m = (r', m')"
    using run by (auto simp: commit_def split: prod.splits sum.splits)
  then show ?thesis
  proof (cases rule: append_commit_cases)
    case 1
    with kept show ?thesis by simp
  next
    case (2 p l b r'' l')
    have "in_i64 (cv_commitTimestampMs v)" using ok(2) by (simp add: commit_value_ok_def)
    then have b: "telling b" "batch_wf b" "bh_lastOffsetDelta (hdr b) = 0"
      using batchFor_telling [OF ok(1) _ _ 2(2)] ok(2) by auto
    have "topic_log l" using kept 2(1) by (simp add: topic_kept_def)
    then have "topic_log l'" using topic_log_append [OF _ b(1,2) _ 2(3)] room [OF 2(1)] b(3) by simp
    then show ?thesis using kept 2(1,4) by (auto simp: topic_kept_def lm_get_update split: if_splits)
  qed
qed

definition kept_with_room :: "(string \<Rightarrow> nat) \<Rightarrow> nat \<Rightarrow> offset_store \<times> log_manager \<Rightarrow> bool" where
  "kept_with_room hash k s \<longleftrightarrow> positions_kept hash (fst s) (snd s) \<and> commit_room k (snd s)"

interpretation kept: commit_invariant hash "kept_with_room hash" for hash
proof unfold_locales
  show "kept_with_room hash k (st', m')" if "kept_with_room hash (Suc k) (st, m)" "commit_key_ok key" "commit_value_ok v"
    "commit hash key v clock (st, m) = (r, st', m')" for k st m key v clock r st' m'
  proof -
    have s: "synced hash st m" "topic_kept m" "commit_room (Suc k) m" using that(1) by (simp_all add: kept_with_room_def positions_kept_def)
    have room: "lg_logEndOffset l + 1 < 2 ^ 63" if "lm_get m (offsets_tp p) = Some l" for p l
      using s(3) that by (force simp: commit_room_def)
    have "manager_ok m" using s(1) by (simp add: synced_def)
    from commit_keeps_room [OF this s(3) that(2-4)] commit_keeps_topic [OF s(2) room that(2-4)] synced_commit [OF s(1) that(2,3) room that(4)]
    show ?thesis by (simp add: kept_with_room_def positions_kept_def)
  qed
  show "kept_with_room hash k s" if "kept_with_room hash (Suc k) s" for k s
    using that commit_room_less by (simp add: kept_with_room_def)
qed






subsection \<open>A broker with kept positions\<close>












subsection \<open>The life of a broker\<close>




subsection \<open>Properties\<close>



subsection \<open>A broker with a committed position\<close>





end
