(* ===== verification/Replay_End.thy ===== *)
theory Replay_End
  imports Offset_Recovery
begin

text \<open>
  Replay comes to an end on any well-formed log, whatever its records are and whatever compaction left of
  it: every round that does not stop goes on behind the offset it began at.
\<close>

lemma dropWhile_last:
  assumes "ascending k bs" "b \<in> set (dropWhile (\<lambda>b. lastOffset (hdr b) < offset) bs)"
  shows "offset \<le> lastOffset (hdr b)"
  using assms
proof (induction bs arbitrary: k)
  case (Cons c bs)
  show ?case
  proof (cases "lastOffset (hdr c) < offset")
    case True
    with Cons show ?thesis by auto
  next
    case False
    have "lastOffset (hdr c) + 1 \<le> bh_baseOffset (hdr b)" if "b \<in> set bs"
      using ascending_base_le that Cons.prems(1) by auto
    moreover have "bh_baseOffset (hdr b) \<le> lastOffset (hdr b)" if "b \<in> set bs"
      using that ascending_list_all Cons.prems(1) batch_wf_lastOffset by (auto simp: list_all_iff)
    ultimately show ?thesis using False Cons.prems(2) by fastforce
  qed
qed simp

lemma replay_range_offset:
  assumes "list_all batch_wf ys"
  shows "replay_range (take n (concat ys)) offset advanced t = Inr (offset', advanced', t') \<Longrightarrow>
    offset' = offset \<and> advanced' = advanced \<or> (\<exists>b \<in> set ys. offset' = lastOffset (hdr b) + 1)"
  using assms
proof (induction ys arbitrary: n offset advanced t)
  case (Cons b ys)
  have b: "batch_wf b" "totalSizeOf b = Inr (length b)" "61 \<le> length b"
    using Cons.prems(2) batch_wf_length [of b] by (simp_all add: batch_wf_def)
  show ?case
  proof (cases "length b \<le> n")
    case False
    then have cut: "take n (concat (b # ys)) = take n b" by simp
    have "replay_range (take n b) offset advanced t = Inr (offset, advanced, t)"
    proof (cases "12 \<le> n")
      case True
      then have "totalSizeOf (take n b) = Inr (length b)" using b(2) by (simp add: totalSizeOf_take)
      with False show ?thesis by (subst replay_range.simps) simp
    next
      case short: False
      then show ?thesis by (subst replay_range.simps) (simp add: totalSizeOf_alt)
    qed
    then show ?thesis using Cons.prems(1) unfolding cut by simp
  next
    case True
    have bytes: "take n (concat (b # ys)) = b @ take (n - length b) (concat ys)" using True by simp
    have "totalSizeOf (b @ take (n - length b) (concat ys)) = Inr (length b)" using b by (simp add: totalSizeOf_append)
    then obtain t1 where "replay_range (take (n - length b) (concat ys)) (lastOffset (hdr b) + 1) True t1 = Inr (offset', advanced', t')"
      using Cons.prems(1) b unfolding bytes
      by (subst (asm) replay_range.simps) (auto simp: parseHeader_wf bind_r_Inr_iff Let_def split: if_splits)
    from Cons.IH [OF this] Cons.prems(2) show ?thesis by auto
  qed
qed simp

lemma segment_range_found:
  assumes seg: "segment_holds bs seg" "sg_baseOffset seg \<le> offset" "log_dir l (segmentLogPath (sg_baseOffset seg)) = Some (sg_log seg)"
    and read: "segment_read offset maxBytes seg = Inr (p, n)"
  shows "\<exists>ys. range_bytes l \<lparr>rr_error = NoError, rr_file = Some (sg_baseOffset seg), rr_position = p, rr_length = n\<rparr> = take n (concat ys) \<and>
    list_all batch_wf ys \<and> (\<forall>b \<in> set ys. offset \<le> lastOffset (hdr b))"
proof -
  let ?found = "dropWhile (\<lambda>b. lastOffset (hdr b) < offset) bs" and ?below = "takeWhile (\<lambda>b. lastOffset (hdr b) < offset) bs"
  have asc: "ascending (sg_baseOffset seg) bs" and bytes: "sg_log seg = concat bs" using seg(1) by (simp_all add: segment_holds_def)
  have p: "p = length (concat ?below)" using read segment_read_scan [OF seg(1,2), of maxBytes] by (simp add: scan_read_def Let_def)
  have "concat bs = concat ?below @ concat ?found" by (metis concat_append takeWhile_dropWhile_id)
  then have "drop p (sg_log seg) = concat ?found" by (simp add: p bytes)
  moreover have "list_all batch_wf ?found" using ascending_list_all [OF asc] by (auto simp: list_all_iff dest: set_dropWhileD)
  ultimately show ?thesis using seg(3) dropWhile_last [OF asc] by (intro exI [of _ ?found]) (auto simp: range_bytes_def)
qed

lemma log_read_found:
  assumes l: "log_holds bss cs l" and r: "log_read offset maxBytes l = Inr r" "rr_length r \<noteq> 0"
  shows "\<exists>ys. range_bytes l r = take (rr_length r) (concat ys) \<and> list_all batch_wf ys \<and> (\<forall>b \<in> set ys. offset \<le> lastOffset (hdr b))"
proof -
  let ?upto = "filter (\<lambda>(base, _). base \<le> offset) (lg_sealed l)" and ?a = "lg_active l"
  consider p n where "sg_baseOffset ?a \<le> offset" "segment_read offset maxBytes ?a = Inr (p, n)"
        "r = \<lparr>rr_error = NoError, rr_file = Some (sg_baseOffset ?a), rr_position = p, rr_length = n\<rparr>"
    | p n where "?upto \<noteq> []" "segment_read offset maxBytes (snd (last ?upto)) = Inr (p, n)"
        "r = \<lparr>rr_error = NoError, rr_file = Some (sg_baseOffset (snd (last ?upto))), rr_position = p, rr_length = n\<rparr>"
    using r by (auto simp: log_read_def Let_def bind_r_Inr_iff split: if_splits)
  then show ?thesis
  proof cases
    case 1
    have "segment_holds cs ?a" using l active_holdsD(1) by (simp add: log_holds_def)
    from segment_range_found [OF this 1(1) log_dir_active [OF l] 1(2)] 1(3) show ?thesis by auto
  next
    case 2
    obtain b s where last: "last ?upto = (b, s)" by fastforce
    have "last ?upto \<in> set ?upto" using last_in_set [OF 2(1)] .
    then have mem: "(b, s) \<in> set (lg_sealed l)" "b \<le> offset" by (simp_all add: last)
    have sealed: "sealed_holds bss (lg_sealed l)" using l by (simp add: log_holds_def)
    have base: "sg_baseOffset s = b" using sealed_holds_mem [OF sealed mem(1)] by simp
    obtain bs where bs: "segment_holds bs s" using sealed_holds_batches [OF sealed mem(1)] by blast
    have "sg_baseOffset s \<le> offset" "log_dir l (segmentLogPath (sg_baseOffset s)) = Some (sg_log s)"
      using log_dir_sealed [OF l mem(1)] mem(2) base by simp_all
    from segment_range_found [OF bs this, of maxBytes] 2(2,3) last show ?thesis by auto
  qed
qed

lemma replay_from_ends:
  assumes l: "log_holds bss cs l"
  shows "\<exists>r. replay_from l offset t = Some r"
proof (induction "nat (lg_logEndOffset l - offset)" arbitrary: offset t rule: less_induct)
  case less
  show ?case
  proof (cases "offset < lg_logEndOffset l")
    case False
    then show ?thesis by (simp add: replay_from.simps)
  next
    case True
    show ?thesis
    proof (cases "log_read offset kReplayBytes l")
      case (Inl e)
      with True show ?thesis by (simp add: replay_from.simps)
    next
      case (Inr r)
      show ?thesis
      proof (cases "rr_error r \<noteq> NoError \<or> rr_length r = 0")
        case stop: True
        with True Inr show ?thesis by (auto simp: replay_from.simps [of l offset t])
      next
        case False
        then obtain ys where ys: "range_bytes l r = take (rr_length r) (concat ys)" "list_all batch_wf ys"
            "\<forall>b \<in> set ys. offset \<le> lastOffset (hdr b)"
          using log_read_found [OF l Inr] by auto
        show ?thesis
        proof (cases "replay_range (range_bytes l r) offset False t")
          case (Inl e)
          with True False Inr show ?thesis by (simp add: replay_from.simps [of l offset t])
        next
          case range: (Inr a)
          obtain offset' advanced t' where a: "a = (offset', advanced, t')" by (cases a) auto
          show ?thesis
          proof (cases advanced)
            case stop: False
            with True False Inr range a show ?thesis by (simp add: replay_from.simps [of l offset t])
          next
            case go: True
            have "offset < offset'" using replay_range_offset [OF ys(2) range [unfolded a ys(1)]] ys(3) go by fastforce
            then have "\<exists>r. replay_from l offset' t' = Some r" using True by (intro less.hyps) simp
            with True False Inr range a go show ?thesis by (simp add: replay_from.simps [of l offset t])
          qed
        qed
      qed
    qed
  qed
qed

lemma replay_partitions_end:
  assumes "manager_ok m"
  shows "\<exists>r. replay_partitions ps m t = Some r"
proof (induction ps arbitrary: t)
  case (Cons p ps)
  show ?case
  proof (cases "lm_get m (offsets_tp p)")
    case None
    with Cons show ?thesis by simp
  next
    case (Some l)
    obtain bss cs where "log_holds bss cs l" using manager_ok_getD(3) [OF assms Some] by (auto simp: log_good_def)
    then obtain r where "replayPartition l t = Some r" unfolding replayPartition_def using replay_from_ends by blast
    with Some Cons show ?thesis by (cases r) simp_all
  qed
qed simp

text \<open>C19. The replay a broker starts with always ends: over any well-formed logs, whatever was committed or
produced to the offsets topic and whatever compaction left of it, it returns the positions or throws.\<close>

theorem replay_ends:
  assumes "manager_ok m"
  shows "\<exists>r. replay m st = Some r"
proof -
  obtain r where "replay_partitions [0..os_partitions st - 1] m [] = Some r" using replay_partitions_end [OF assms] by blast
  then show ?thesis by (cases r) (simp_all add: replay_def)
qed

theorem replay_ends_witness:
  "\<exists>m l b r. lm_logs m = [(offsets_tp 0, l)] \<and> log_holds [] [b] l \<and> replay m (OffsetStore 1) = Some r"
proof -
  obtain m l b where m: "store_reach (\<lambda>_. 0) (small_config Delete) 1 (demo_commits 10) m" "lm_logs m = [(offsets_tp 0, l)]"
      "log_holds [] [b] l"
    using demo_committed by blast
  have "manager_ok m" using store_reach_synced [OF m(1)] by (simp add: synced_def)
  from replay_ends [OF this, of "OffsetStore 1"] m(2,3) show ?thesis by blast
qed

end
