(* ===== verification/Client.thy ===== *)
theory Client
  imports Connection
begin

text \<open>
  \<^verbatim>\<open>cli/client.cpp\<close>: one connection of a client to a broker, with one request under way at a time. The
  other end is an argument: what its socket takes of each write, and what arrives once a frame was sent.
\<close>

subsection \<open>Outcomes\<close>

text \<open>A call of the client returns, throws an error of the program, throws one that nothing catches
(\<^verbatim>\<open>at\<close> on an empty vector), or never returns.\<close>

datatype 'a outcome = Done 'a | Raised error | Uncaught | Hangs

fun then_do :: "'a outcome \<Rightarrow> ('a \<Rightarrow> 'b outcome) \<Rightarrow> 'b outcome" where
  "then_do (Done x) f = f x"
| "then_do (Raised e) f = Raised e"
| "then_do Uncaught f = Uncaught"
| "then_do Hangs f = Hangs"

fun of_result :: "'a result \<Rightarrow> 'a outcome" where
  "of_result (Inl e) = Raised e"
| "of_result (Inr x) = Done x"

lemma then_do_Done_iff: "then_do x f = Done y \<longleftrightarrow> (\<exists>z. x = Done z \<and> f z = Done y)"
  by (cases x) simp_all

lemma of_result_Done_iff [simp]: "of_result r = Done x \<longleftrightarrow> r = Inr x"
  by (cases r) simp_all

subsection \<open>The client\<close>

record client =
  cl_clientId :: string
  cl_nextCorrelationId :: int
  cl_arrived :: "receive list"

definition Client :: "string \<Rightarrow> client" where
  "Client clientId = \<lparr>cl_clientId = clientId, cl_nextCorrelationId = 1, cl_arrived = []\<rparr>"

record 'w peer =
  pr_takes :: "'w \<Rightarrow> transmit list"
  pr_deliver :: "byte list \<Rightarrow> 'w \<Rightarrow> receive list \<times> 'w"
  pr_sleep :: "'w \<Rightarrow> 'w"

definition request_frame :: "request_header \<Rightarrow> byte list \<Rightarrow> byte list result" where
  "request_frame header body = bytes_of (\<lambda>w. bind_r (encodeRequestHeader header w) (writeBytes body))"

definition call :: "'w peer \<Rightarrow> api_key \<Rightarrow> byte list \<Rightarrow> client \<times> 'w \<Rightarrow> (byte list \<times> client \<times> 'w) outcome" where
  "call peer key body = (\<lambda>(cl, w).
    (let header = \<lparr>rh_apiKey = key, rh_apiVersion = 0, rh_correlationId = cl_nextCorrelationId cl, rh_clientId = cl_clientId cl\<rparr>;
         cl = cl\<lparr>cl_nextCorrelationId := cl_nextCorrelationId cl + 1\<rparr>
     in then_do (of_result (request_frame header body)) (\<lambda>payload.
        case writeFrame payload (pr_takes peer w) of
          (_, Threw e, _) \<Rightarrow> Raised e
        | (_, Blocked, _) \<Rightarrow> Hangs
        | (sent, Sent, _) \<Rightarrow>
           (let (arriving, w) = pr_deliver peer sent w in
            then_do (of_result (readFrame kMaxFrameBytes (cl_arrived cl @ arriving))) (\<lambda>(frame, arrived).
              case frame of
                None \<Rightarrow> Raised Error
              | Some bytes \<Rightarrow>
                  then_do (of_result (decodeResponseHeader (reader_of bytes))) (\<lambda>(correlationId, r).
                    if correlationId \<noteq> rh_correlationId header then Raised CorruptData
                    else then_do (of_result (readBytes (remaining r) r)) (\<lambda>(others, _).
                      Done (others, cl\<lparr>cl_arrived := arrived\<rparr>, w))))))))"

text \<open>What the code above a client uses of it, and the wait between two attempts.\<close>

record 's link =
  lk_call :: "api_key \<Rightarrow> byte list \<Rightarrow> 's \<Rightarrow> (byte list \<times> 's) outcome"
  lk_pause :: "'s \<Rightarrow> 's"

definition client_link :: "'w peer \<Rightarrow> (client \<times> 'w) link" where
  "client_link peer = \<lparr>lk_call = call peer, lk_pause = (\<lambda>(cl, w). (cl, pr_sleep peer w))\<rparr>"

text \<open>A request encoded, sent, and its answer decoded.\<close>

definition ask :: "'s link \<Rightarrow> api_key \<Rightarrow> ('q \<Rightarrow> writer \<Rightarrow> writer result) \<Rightarrow> (reader \<Rightarrow> ('a \<times> reader) result) \<Rightarrow>
    'q \<Rightarrow> 's \<Rightarrow> ('a \<times> 's) outcome" where
  "ask link key encoder decoder q s =
    then_do (of_result (bytes_of (encoder q))) (\<lambda>body.
    then_do (lk_call link key body s) (\<lambda>(answer, s).
    then_do (of_result (decoder (reader_of answer))) (\<lambda>(a, _). Done (a, s))))"

subsection \<open>A broker at the other end\<close>

text \<open>A client between two calls.\<close>

definition client_ready :: "client \<Rightarrow> bool" where
  "client_ready cl \<longleftrightarrow> string_ok (cl_clientId cl) \<and> in_i32 (cl_nextCorrelationId cl) \<and>
     list_all gentle (cl_arrived cl) \<and> stream (cl_arrived cl) = []"

definition header_of_call :: "api_key \<Rightarrow> client \<Rightarrow> request_header" where
  "header_of_call key cl = \<lparr>rh_apiKey = key, rh_apiVersion = 0, rh_correlationId = cl_nextCorrelationId cl, rh_clientId = cl_clientId cl\<rparr>"

definition frame_of_call :: "api_key \<Rightarrow> byte list \<Rightarrow> client \<Rightarrow> byte list" where
  "frame_of_call key body cl = request_header_repr (header_of_call key cl) @ body"

definition after_call :: "client \<Rightarrow> receive list \<Rightarrow> client" where
  "after_call cl arrived = cl\<lparr>cl_nextCorrelationId := cl_nextCorrelationId cl + 1, cl_arrived := arrived\<rparr>"

text \<open>What a handler sees of a call.\<close>

definition context_of_call :: "endpoint \<Rightarrow> api_key \<Rightarrow> byte list \<Rightarrow> client \<Rightarrow> nat \<Rightarrow> request_context" where
  "context_of_call ep key body cl i =
    \<lparr>rc_header = header_of_call key cl, rc_body = advance (length (request_header_repr (header_of_call key cl))) (reader_of (frame_of_call key body cl)),
     rc_frame = frame_of_call key body cl, rc_now = ep_clock ep i\<rparr>"

definition call_fits :: "endpoint \<Rightarrow> api_key \<Rightarrow> byte list \<Rightarrow> client \<Rightarrow> bool" where
  "call_fits ep key body cl \<longleftrightarrow> client_ready cl \<and> cl_nextCorrelationId cl < 2 ^ 31 - 1 \<and>
     length (frame_of_call key body cl) \<le> ep_maxFrameBytes ep \<and> length (frame_of_call key body cl) < 2 ^ 31"

lemma context_of_call_simps [simp]:
  "rest (rc_body (context_of_call ep key body cl i)) = body"
  "rd_bytes (rc_body (context_of_call ep key body cl i)) = rc_frame (context_of_call ep key body cl i)"
  by (simp add: context_of_call_def frame_of_call_def) (simp add: context_of_call_def reader_of_def)

lemma request_decoded:
  "codec dec repr ok enc \<Longrightarrow> ok q \<Longrightarrow>
    dec (rc_body (context_of_call ep key (repr q) cl i)) = Inr (q, advance (length (repr q)) (rc_body (context_of_call ep key (repr q) cl i)))"
  using decodable.dec_repr [OF codec.axioms(1), of dec repr ok enc q "rc_body (context_of_call ep key (repr q) cl i)" "[]"] by simp

lemma after_call_simps [simp]:
  "cl_clientId (after_call cl arrived) = cl_clientId cl" "cl_nextCorrelationId (after_call cl arrived) = cl_nextCorrelationId cl + 1"
  "cl_arrived (after_call cl arrived) = arrived"
  by (simp_all add: after_call_def)

lemma request_frame_bytes:
  assumes "client_ready cl" "key_ok key"
  shows "request_frame (header_of_call key cl) body = Inr (frame_of_call key body cl)"
proof -
  have "request_header_ok (header_of_call key cl)" using assms by (simp add: request_header_ok_def header_of_call_def client_ready_def in_i16_def)
  then show ?thesis
    by (simp add: request_frame_def bytes_of_def requestHeader.enc_repr codec_simps take_writer_def frame_of_call_def)
qed

text \<open>The broker at the other end of a socket that cuts bytes as it likes.\<close>

locale served =
  fixes peer :: "(nat \<times> broker) peer" and ep :: endpoint
  assumes takes: "length payload < 2 ^ 31 \<Longrightarrow> \<exists>evs. writeFrame payload (pr_takes peer w) = (frame_bytes payload, Sent, evs)"
    and delivers: "answer_frame ep i frame bk = Some (Inr response, bk') \<Longrightarrow> length frame \<le> ep_maxFrameBytes ep \<Longrightarrow> length frame < 2 ^ 31 \<Longrightarrow>
      response_ok response \<Longrightarrow> length (flat response) < 2 ^ 31 \<Longrightarrow>
      \<exists>evs. pr_deliver peer (frame_bytes frame) (i, bk) = (evs, Suc i, bk') \<and> list_all gentle evs \<and> stream evs = frame_bytes (flat response)"
begin

lemma call_answered:
  assumes "client_ready cl" "key_ok key" "length (frame_of_call key body cl) \<le> ep_maxFrameBytes ep" "length (frame_of_call key body cl) < 2 ^ 31"
    and "answer_frame ep i (frame_of_call key body cl) bk = Some (Inr response, bk')"
    and "response_ok response" "flat response = i32_repr (cl_nextCorrelationId cl) @ answer" "length (flat response) \<le> kMaxFrameBytes"
  shows "\<exists>arrived. call peer key body (cl, i, bk) = Done (answer, after_call cl arrived, Suc i, bk') \<and>
    list_all gentle arrived \<and> stream arrived = []"
proof -
  let ?payload = "frame_of_call key body cl" and ?flat = "flat response"
  have short: "length ?flat < 2 ^ 31" using assms(8) by (simp add: kMaxFrameBytes_def)
  obtain outs where outs: "writeFrame ?payload (pr_takes peer (i, bk)) = (frame_bytes ?payload, Sent, outs)" using takes [OF assms(4)] by blast
  obtain evs where evs: "pr_deliver peer (frame_bytes ?payload) (i, bk) = (evs, Suc i, bk')" "list_all gentle evs" "stream evs = frame_bytes ?flat"
    using delivers [OF assms(5,3,4,6) short] by blast
  have arriving: "list_all gentle (cl_arrived cl @ evs)" "stream (cl_arrived cl @ evs) = frame_bytes ?flat @ []"
    using assms(1) evs(2,3) by (simp_all add: client_ready_def stream_def)
  obtain arrived where arrived: "readFrame kMaxFrameBytes (cl_arrived cl @ evs) = Inr (Some ?flat, arrived)" "list_all gentle arrived" "stream arrived = []"
    using readFrame_stream [OF arriving assms(8) short] by blast
  have "decodeResponseHeader (reader_of ?flat) = Inr (cl_nextCorrelationId cl, advance 4 (reader_of ?flat))"
    using responseHeader.dec_repr [of "cl_nextCorrelationId cl" "reader_of ?flat" answer] assms(1,7)
    by (simp add: client_ready_def i32_repr_def be_bytes_4)
  moreover have "rest (advance 4 (reader_of ?flat)) = answer" by (simp add: assms(7) i32_repr_def be_bytes_4)
  then have "readBytes (remaining (advance 4 (reader_of ?flat))) (advance 4 (reader_of ?flat)) =
      Inr (answer, advance (length answer) (advance 4 (reader_of ?flat)))"
    by (simp only: readBytes_rest remaining_rest) simp
  ultimately have "call peer key body (cl, i, bk) = Done (answer, after_call cl arrived, Suc i, bk')"
    using request_frame_bytes [OF assms(1,2), of body] outs evs(1) arrived(1)
    by (simp add: call_def header_of_call_def after_call_def)
  with arrived(2,3) show ?thesis by blast
qed

text \<open>A handler's answer comes back decoded when its bytes spell the answer.\<close>

lemma answer_arrives:
  assumes "ep_registry ep (key, 0) = Some h" "key_ok key" "bytes_of (encQ q) = Inr body" "codec decA reprA okA encA"
    and "call_fits ep key body cl"
    and handled: "h (context_of_call ep key body cl i) (append_buffer (i32_repr (cl_nextCorrelationId cl)) []) (ep_others ep i bk) = (Inr response, bk')"
    and response: "response_ok response" "flat response = i32_repr (cl_nextCorrelationId cl) @ reprA a"
    and "okA a" "length (reprA a) + 4 \<le> kMaxFrameBytes"
  shows "\<exists>arrived. ask (client_link peer) key encQ decA q (cl, i, bk) = Done (a, after_call cl arrived, Suc i, bk') \<and>
    client_ready (after_call cl arrived)"
proof -
  let ?header = "header_of_call key cl" and ?frame = "frame_of_call key body cl" and ?c = "cl_nextCorrelationId cl"
  have cl: "client_ready cl" "?c < 2 ^ 31 - 1" using assms(5) by (simp_all add: call_fits_def)
  have "request_header_ok ?header" using cl(1) assms(2) by (simp add: request_header_ok_def header_of_call_def client_ready_def in_i16_def)
  then have header: "decodeRequestHeader (reader_of ?frame) = Inr (?header, rc_body (context_of_call ep key body cl i))"
    using requestHeader.dec_repr [of ?header "reader_of ?frame" body] by (simp add: frame_of_call_def context_of_call_def)
  have head: "reply encodeResponseHeader ?c [] = Inr (append_buffer (i32_repr ?c) [])" by (simp add: reply_def header_bytes)
  have answered: "answer_frame ep i ?frame bk = Some (Inr response, bk')"
    using head header assms(1) handled by (simp add: answer_frame_def dispatch_def context_of_call_def header_of_call_def)
  have "length (flat response) \<le> kMaxFrameBytes" using assms(10) response(2) by (simp add: i32_repr_def be_bytes_4)
  then obtain arrived where arrived: "call peer key body (cl, i, bk) = Done (reprA a, after_call cl arrived, Suc i, bk')"
      "list_all gentle arrived" "stream arrived = []"
    using call_answered [OF cl(1) assms(2) _ _ answered response] assms(5) by (auto simp: call_fits_def)
  have "decA (reader_of (reprA a)) = Inr (a, advance (length (reprA a)) (reader_of (reprA a)))"
    using decodable.dec_repr [OF codec.axioms(1) [OF assms(4)] assms(9), of "reader_of (reprA a)" "[]"] by simp
  with arrived(1) assms(3) have "ask (client_link peer) key encQ decA q (cl, i, bk) = Done (a, after_call cl arrived, Suc i, bk')"
    by (simp add: ask_def client_link_def)
  moreover have "client_ready (after_call cl arrived)" using cl arrived(2,3) by (simp add: client_ready_def in_i32_def)
  ultimately show ?thesis by blast
qed

lemma handler_answers:
  assumes "ep_registry ep (key, 0) = Some h" "\<And>rc out bk. h rc out bk = handling decQ (serve_q rc) (reply encA) rc out bk" "key_ok key"
    and codecs: "codec decQ reprQ okQ encQ" "codec decA reprA okA encA"
    and "okQ q" "call_fits ep key (reprQ q) cl"
    and "serve_q (context_of_call ep key (reprQ q) cl i) q (ep_others ep i bk) = (Inr a, bk')" "okA a" "length (reprA a) + 4 \<le> kMaxFrameBytes"
  shows "\<exists>arrived. ask (client_link peer) key encQ decA q (cl, i, bk) = Done (a, after_call cl arrived, Suc i, bk') \<and>
    client_ready (after_call cl arrived)"
proof -
  let ?head = "append_buffer (i32_repr (cl_nextCorrelationId cl)) []"
  have handled: "h (context_of_call ep key (reprQ q) cl i) ?head (ep_others ep i bk) = (Inr (append_buffer (reprA a) ?head), bk')"
    using assms(2) [of "context_of_call ep key (reprQ q) cl i"] request_decoded [OF codecs(1) assms(6), of ep key cl i] assms(8)
      codec.bytes_of_repr [OF codecs(2) assms(9)]
    by (simp add: handling_def reply_def)
  have "response_ok (append_buffer (reprA a) ?head)" "flat (append_buffer (reprA a) ?head) = i32_repr (cl_nextCorrelationId cl) @ reprA a"
    by simp_all
  note sent = answer_arrives [OF assms(1,3) _ codecs(2) assms(7) handled this assms(9,10)]
  show ?thesis by (rule sent) (rule codec.bytes_of_repr [OF codecs(1) assms(6)])
qed

end

subsection \<open>The broker's loop as the other end\<close>

text \<open>Each frame is handed to the serving loop, which takes it whole and whose writes go one byte at a time.\<close>

definition loop_peer :: "endpoint \<Rightarrow> (nat \<times> broker) peer" where
  "loop_peer ep = \<lparr>pr_takes = (\<lambda>_. [Took 4, Took (2 ^ 31)]),
     pr_deliver = (\<lambda>sent (i, bk). (let (answer, _, bk) = serve ep i [Arrived sent] (replicate (2 ^ 32) (Took 1)) bk
       in ([Arrived answer], Suc i, bk))),
     pr_sleep = (\<lambda>(i, bk). (i, bk))\<rparr>"

lemma writeFrame_two:
  assumes "length payload < 2 ^ 31"
  shows "\<exists>evs. writeFrame payload [Took 4, Took (2 ^ 31)] = (frame_bytes payload, Sent, evs)"
proof -
  obtain a b c d where prefix: "frame_prefix (length payload) = [a, b, c, d]" by (simp add: frame_prefix_def be_bytes_4)
  have "\<exists>evs. writeAll payload [Took (2 ^ 31)] = (payload, Sent, evs)" using assms by (cases payload) simp_all
  then show ?thesis using assms by (auto simp: writeFrame_def writeFrameLength_def prefix frame_bytes_def)
qed

interpretation loop: served "loop_peer ep" ep for ep
proof
  show "\<exists>evs. writeFrame payload (pr_takes (loop_peer ep) w) = (frame_bytes payload, Sent, evs)" if "length payload < 2 ^ 31" for payload w
    using writeFrame_two [OF that] by (simp add: loop_peer_def)
next
  fix i frame bk response bk'
  assume a: "answer_frame ep i frame bk = Some (Inr response, bk')" "length frame \<le> ep_maxFrameBytes ep" "length frame < 2 ^ 31"
    "response_ok response" "length (flat response) < 2 ^ 31"
  have conv: "converse ep i [frame] bk = ([response], PeerClosed, bk')" using a(1) by simp
  have "stream [Arrived (frame_bytes frame)] = concat (map frame_bytes [frame])" by simp
  moreover have "frame_bytes frame \<noteq> []" "frame_bytes (flat response) \<noteq> []" by (simp_all add: frame_bytes_def frame_prefix_def be_bytes_4)
  moreover have "willing (length (wire_of [response])) (replicate (2 ^ 32) (Took 1))"
    using a(5) by (simp add: willing_def takes_def wire_of_def frame_bytes_def list_all_iff)
  ultimately have "serve ep i [Arrived (frame_bytes frame)] (replicate (2 ^ 32) (Took 1)) bk = (wire_of [response], PeerClosed, bk')"
    using a by (intro serve_converse [OF _ _ _ conv]) simp_all
  then show "\<exists>evs. pr_deliver (loop_peer ep) (frame_bytes frame) (i, bk) = (evs, Suc i, bk') \<and> list_all gentle evs \<and>
      stream evs = frame_bytes (flat response)"
    using \<open>frame_bytes (flat response) \<noteq> []\<close> by (simp add: loop_peer_def wire_of_def)
qed

end
