(* ===== verification/Assignor.thy ===== *)
theory Assignor
  imports Handlers "HOL-Library.Multiset"
begin

text \<open>
  \<^verbatim>\<open>cli/assignor.cpp\<close>: which member of a group reads which partitions. The strategies run in the client
  that leads the group; the broker relays what they encode. The two maps of the input are lists sorted by
  key.
\<close>

record assignment_input =
  ai_members :: "(string \<times> string list) list"
  ai_partitionCounts :: "(string \<times> int) list"

type_synonym assignment = "(string \<times> topic_partition list) list"

subsection \<open>The wire form\<close>

definition assignment_kVersion :: int where
  "assignment_kVersion = 1"

definition encode_assigned_topic :: "string \<times> int list \<Rightarrow> writer \<Rightarrow> writer result" where
  "encode_assigned_topic = (\<lambda>(topic, partitions) w.
    bind_r (writeString topic w) (\<lambda>w. writeArray writeInt32 partitions w))"

definition encodeAssignment :: "topic_partition list \<Rightarrow> byte list result" where
  "encodeAssignment assigned = bytes_of (\<lambda>w.
    bind_r (writeInt16 assignment_kVersion w) (\<lambda>w. writeArray encode_assigned_topic (by_topic assigned) w))"

definition decode_assigned_topic :: "reader \<Rightarrow> ((string \<times> int list) \<times> reader) result" where
  "decode_assigned_topic = (\<lambda>r.
    bind_r (readString r) (\<lambda>(topic, r).
    bind_r (readArray readInt32 r) (\<lambda>(partitions, r). Inr ((topic, partitions), r))))"

definition ungroup :: "(string \<times> int list) list \<Rightarrow> topic_partition list" where
  "ungroup topics = concat (map (\<lambda>(topic, ps). map (\<lambda>p. \<lparr>tp_topic = topic, tp_partition = p\<rparr>) ps) topics)"

definition decodeAssignment :: "byte list \<Rightarrow> topic_partition list result" where
  "decodeAssignment bytes =
    (if bytes = [] then Inr []
     else bind_r (readInt16 (reader_of bytes)) (\<lambda>(version, r).
       bind_r (require (\<not> version \<noteq> assignment_kVersion) CorruptData) (\<lambda>_.
       bind_r (readArray decode_assigned_topic r) (\<lambda>(topics, r).
       bind_r (require (remaining r = 0) CorruptData) (\<lambda>_. Inr (ungroup topics))))))"

subsection \<open>Range\<close>

text \<open>\<^verbatim>\<open>assignment[member].push_back(tp)\<close>, and the entry that \<^verbatim>\<open>assignment[member]\<close> alone makes.\<close>

definition touch :: "string \<Rightarrow> assignment \<Rightarrow> assignment" where
  "touch m a = (if map_of a m = None then set_at m [] a else a)"

definition push :: "string \<Rightarrow> topic_partition \<Rightarrow> assignment \<Rightarrow> assignment" where
  "push m tp a = set_at m ((case map_of a m of None \<Rightarrow> [] | Some tps \<Rightarrow> tps) @ [tp]) a"

definition no_assignment :: "assignment_input \<Rightarrow> assignment" where
  "no_assignment input = fold (\<lambda>(m, _). touch m) (ai_members input) []"

definition interested :: "assignment_input \<Rightarrow> string \<Rightarrow> string list" where
  "interested input topic = map fst (filter (\<lambda>(_, subscription). topic \<in> set subscription) (ai_members input))"

fun range_members :: "string \<Rightarrow> int \<Rightarrow> int \<Rightarrow> int \<Rightarrow> int \<Rightarrow> string list \<Rightarrow> assignment \<Rightarrow> assignment" where
  "range_members topic each extra i next_p [] a = a"
| "range_members topic each extra i next_p (m # ms) a =
    (let n = each + (if i < extra then 1 else 0)
     in range_members topic each extra (i + 1) (next_p + n) ms
          (fold (\<lambda>p. push m \<lparr>tp_topic = topic, tp_partition = p\<rparr>) [next_p..next_p + n - 1] a))"

definition range_topic :: "assignment_input \<Rightarrow> string \<times> int \<Rightarrow> assignment \<Rightarrow> assignment" where
  "range_topic input = (\<lambda>(topic, count) a.
    (let ms = interested input topic; n = int (length ms) in
     if ms = [] \<or> count \<le> 0 then a else range_members topic (count div n) (count mod n) 0 0 ms a))"

definition assignRange :: "assignment_input \<Rightarrow> assignment" where
  "assignRange input = fold (range_topic input) (ai_partitionCounts input) (no_assignment input)"

subsection \<open>Round robin\<close>

definition all_partitions :: "assignment_input \<Rightarrow> topic_partition list" where
  "all_partitions input = concat (map (\<lambda>(topic, count).
     map (\<lambda>p. \<lparr>tp_topic = topic, tp_partition = p\<rparr>) [0..count - 1]) (ai_partitionCounts input))"

definition wants :: "assignment_input \<Rightarrow> string \<Rightarrow> string \<Rightarrow> bool" where
  "wants input m topic \<longleftrightarrow> (case map_of (ai_members input) m of None \<Rightarrow> False | Some subscription \<Rightarrow> topic \<in> set subscription)"

definition deal_one :: "assignment_input \<Rightarrow> string list \<Rightarrow> topic_partition \<Rightarrow> nat \<times> assignment \<Rightarrow> nat \<times> assignment" where
  "deal_one input ms tp = (\<lambda>(next_m, a).
    (case find (\<lambda>tried. wants input (ms ! ((next_m + tried) mod length ms)) (tp_topic tp)) [0..<length ms] of
       None \<Rightarrow> (next_m, a)
     | Some tried \<Rightarrow> ((next_m + tried + 1) mod length ms, push (ms ! ((next_m + tried) mod length ms)) tp a)))"

definition assignRoundRobin :: "assignment_input \<Rightarrow> assignment" where
  "assignRoundRobin input =
    (let ms = map fst (ai_members input) in
     if ms = [] then no_assignment input
     else snd (fold (deal_one input ms) (all_partitions input) (0, no_assignment input)))"

subsection \<open>What members hold\<close>

definition held :: "assignment \<Rightarrow> string \<Rightarrow> topic_partition list" where
  "held a m = (case map_of a m of None \<Rightarrow> [] | Some tps \<Rightarrow> tps)"

definition dealt :: "assignment \<Rightarrow> topic_partition list" where
  "dealt a = concat (map snd a)"

text \<open>A table with exactly the members of the group.\<close>

definition member_table :: "assignment_input \<Rightarrow> assignment \<Rightarrow> bool" where
  "member_table input a \<longleftrightarrow> keys_sorted a \<and> map fst a = map fst (ai_members input)"

definition input_ok :: "assignment_input \<Rightarrow> bool" where
  "input_ok input \<longleftrightarrow> keys_sorted (ai_members input) \<and> keys_sorted (ai_partitionCounts input)"

lemma held_push [simp]: "held (push m tp a) = (held a)(m := held a m @ [tp])"
  by (rule ext) (simp add: held_def push_def)

lemma set_at_same_keys: "keys_sorted a \<Longrightarrow> m \<in> fst ` set a \<Longrightarrow> map fst (set_at m v a) = map fst a"
  by (induction m v a rule: set_at.induct) auto

lemma member_table_push: "member_table input a \<Longrightarrow> m \<in> fst ` set (ai_members input) \<Longrightarrow> member_table input (push m tp a)"
proof -
  assume a: "member_table input a" "m \<in> fst ` set (ai_members input)"
  then have "m \<in> fst ` set a" unfolding member_table_def by (metis list.set_map)
  with a show ?thesis by (simp add: member_table_def push_def set_at_same_keys)
qed

lemma dealt_held: "keys_sorted a \<Longrightarrow> dealt a = concat (map (held a) (map fst a))"
proof (induction a)
  case (Cons x a)
  obtain m tps where x: "x = (m, tps)" by (cases x)
  have "held (x # a) k = held a k" if "k \<in> fst ` set a" for k
    using Cons.prems that by (auto simp: x held_def)
  then have "map (held (x # a)) (map fst a) = map (held a) (map fst a)" by simp
  moreover have "dealt (x # a) = tps @ dealt a" "held (x # a) m = tps" by (simp_all add: x dealt_def held_def)
  moreover have "dealt a = concat (map (held a) (map fst a))" using Cons by (simp add: x)
  ultimately show ?case by (simp only: x list.map fst_conv concat.simps)
qed (simp add: dealt_def)

lemma member_table_dealt: "member_table input a \<Longrightarrow> dealt a = concat (map (held a) (map fst (ai_members input)))"
  using dealt_held [of a] by (simp add: member_table_def)

lemma mset_dealt_push:
  assumes "member_table input a" "m \<in> fst ` set (ai_members input)"
  shows "mset (dealt (push m tp a)) = add_mset tp (mset (dealt a))"
proof -
  let ?ms = "map fst (ai_members input)"
  have "distinct (map fst a)" using assms(1) unfolding member_table_def by (blast dest: keys_sorted_distinct)
  then have ms: "distinct ?ms" "m \<in> set ?ms" using assms by (simp_all add: member_table_def)
  have "mset (concat (map ((held a)(m := held a m @ [tp])) ks)) =
      (if m \<in> set ks then add_mset tp (mset (concat (map (held a) ks))) else mset (concat (map (held a) ks)))"
    if "distinct ks" for ks using that by (induction ks) auto
  from this [OF ms(1)] ms(2) show ?thesis
    using member_table_dealt [OF assms(1)] member_table_dealt [OF member_table_push [OF assms]] by simp
qed

lemma no_assignment_table:
  assumes "keys_sorted (ai_members input)"
  shows "no_assignment input = map (\<lambda>(m, _). (m, [])) (ai_members input)"
proof -
  have "fold (\<lambda>(m, _). touch m) xs ys = ys @ map (\<lambda>(m, _). (m, [])) xs"
    if "keys_sorted (ys @ map (\<lambda>(m, _). (m, [])) xs)" for xs :: "(string \<times> string list) list" and ys
    using that
  proof (induction xs arbitrary: ys)
    case (Cons x xs)
    obtain m u where x: "x = (m, u)" by (cases x)
    have sorted: "keys_sorted (ys @ [(m, [])])" using Cons.prems by (simp add: x keys_sorted_def sorted_wrt_append)
    then have "map_of ys m = None" by (auto simp: keys_sorted_def sorted_wrt_append map_of_eq_None_iff)
    then have "touch m ys = ys @ [(m, [])]" using set_at_append [OF sorted] by (simp add: touch_def)
    with Cons.IH [of "ys @ [(m, [])]"] Cons.prems show ?case by (simp add: x)
  qed simp
  from this [of "[]" "ai_members input"] assms show ?thesis by (simp add: no_assignment_def)
qed

lemma no_assignment_ok:
  assumes "keys_sorted (ai_members input)"
  shows "member_table input (no_assignment input)" "held (no_assignment input) m = []" "dealt (no_assignment input) = []"
proof -
  show "member_table input (no_assignment input)"
    using assms by (simp add: no_assignment_table member_table_def comp_def case_prod_unfold keys_sorted_def)
  show "held (no_assignment input) m = []"
    by (auto simp: no_assignment_table [OF assms] held_def split: option.split dest: map_of_SomeD)
  show "dealt (no_assignment input) = []"
    by (auto simp: no_assignment_table [OF assms] dealt_def)
qed

lemma interested_wants:
  assumes "keys_sorted (ai_members input)"
  shows "m \<in> set (interested input topic) \<longleftrightarrow> wants input m topic"
proof -
  have "m \<in> set (interested input topic) \<longleftrightarrow> (\<exists>u. (m, u) \<in> set (ai_members input) \<and> topic \<in> set u)"
    by (force simp: interested_def)
  also have "\<dots> \<longleftrightarrow> (\<exists>u. map_of (ai_members input) m = Some u \<and> topic \<in> set u)"
    by (simp only: map_of_sorted_mem [OF assms])
  finally show ?thesis by (simp add: wants_def split: option.split)
qed

lemma interested_member: "m \<in> set (interested input topic) \<Longrightarrow> m \<in> fst ` set (ai_members input)"
  by (auto simp: interested_def)

subsection \<open>Blocks\<close>

fun blocks :: "int \<Rightarrow> int \<Rightarrow> int \<Rightarrow> int \<Rightarrow> string list \<Rightarrow> (string \<times> int list) list" where
  "blocks each extra i next_p [] = []"
| "blocks each extra i next_p (m # ms) =
    (let n = each + (if i < extra then 1 else 0) in (m, [next_p..next_p + n - 1]) # blocks each extra (i + 1) (next_p + n) ms)"

abbreviation tps_of :: "string \<Rightarrow> int list \<Rightarrow> topic_partition list" where
  "tps_of topic ps \<equiv> map (\<lambda>p. \<lparr>tp_topic = topic, tp_partition = p\<rparr>) ps"

definition block_of :: "(string \<times> int list) list \<Rightarrow> string \<Rightarrow> int list" where
  "block_of bs m = (case map_of bs m of None \<Rightarrow> [] | Some ps \<Rightarrow> ps)"

lemma blocks_members [simp]: "map fst (blocks each extra i next_p ms) = ms"
  by (induction each extra i next_p ms rule: blocks.induct) (simp_all add: Let_def)

lemma held_push_all: "held (fold (\<lambda>p. push m \<lparr>tp_topic = topic, tp_partition = p\<rparr>) ps a) =
    (held a)(m := held a m @ tps_of topic ps)"
  by (induction ps arbitrary: a) simp_all

lemma push_all_ok:
  assumes "m \<in> fst ` set (ai_members input)"
  shows "member_table input a \<Longrightarrow> member_table input (fold (\<lambda>p. push m \<lparr>tp_topic = topic, tp_partition = p\<rparr>) ps a) \<and>
    mset (dealt (fold (\<lambda>p. push m \<lparr>tp_topic = topic, tp_partition = p\<rparr>) ps a)) = mset (tps_of topic ps) + mset (dealt a)"
proof (induction ps arbitrary: a)
  case (Cons p ps)
  have "member_table input (push m \<lparr>tp_topic = topic, tp_partition = p\<rparr> a)" by (rule member_table_push [OF Cons.prems assms])
  from Cons.IH [OF this] mset_dealt_push [OF Cons.prems assms] show ?case by simp
qed simp

lemma held_range_members:
  "distinct ms \<Longrightarrow> held (range_members topic each extra i next_p ms a) m =
    held a m @ tps_of topic (block_of (blocks each extra i next_p ms) m)"
proof (induction topic each extra i next_p ms a rule: range_members.induct)
  case (2 topic each extra i next_p k ms a)
  have none: "map_of (blocks each extra i' n' ms) k = None" for i' n'
    using "2.prems" by (simp add: map_of_eq_None_iff flip: set_map)
  from 2 none show ?case by (auto simp: Let_def held_push_all block_of_def)
qed (simp add: block_of_def)

lemma range_members_ok:
  "set ms \<subseteq> fst ` set (ai_members input) \<Longrightarrow> member_table input a \<Longrightarrow>
    member_table input (range_members topic each extra i next_p ms a) \<and>
    mset (dealt (range_members topic each extra i next_p ms a)) =
      mset (tps_of topic (concat (map snd (blocks each extra i next_p ms)))) + mset (dealt a)"
proof (induction topic each extra i next_p ms a rule: range_members.induct)
  case (2 topic each extra i next_p k ms a)
  then show ?case using push_all_ok [of k input a topic] by (simp add: Let_def)
qed simp

lemma upto_append: "a \<le> b \<Longrightarrow> b \<le> c \<Longrightarrow> [a..b - 1] @ [b..c - 1] = [a..c - 1]"
  using upto_split1 [of a b "c - 1"] by (cases "b = c") simp_all

lemma blocks_concat:
  "0 \<le> each \<Longrightarrow> concat (map snd (blocks each extra i next_p ms)) =
    [next_p..next_p + int (length ms) * each + (min (i + int (length ms)) extra - min i extra) - 1]"
proof (induction each extra i next_p ms rule: blocks.induct)
  case (2 each extra i next_p m ms)
  let ?n = "each + (if i < extra then 1 else 0)" and ?k = "int (length ms)"
  let ?to = "next_p + ?n + ?k * each + (min (i + 1 + ?k) extra - min (i + 1) extra)"
  have "concat (map snd (blocks each extra i next_p (m # ms))) = [next_p..next_p + ?n - 1] @ [next_p + ?n..?to - 1]"
    using "2.IH" [OF refl "2.prems"] by (simp add: Let_def)
  also have "\<dots> = [next_p..?to - 1]"
  proof (rule upto_append)
    have "0 \<le> ?k * each" using "2.prems" by simp
    then show "next_p + ?n \<le> ?to" by (simp add: min_def)
  qed (use "2.prems" in simp)
  also have "?to = next_p + int (length (m # ms)) * each + (min (i + int (length (m # ms))) extra - min i extra)"
    by (simp add: algebra_simps min_def)
  finally show ?case .
qed simp

lemma blocks_nth:
  "j < length ms \<Longrightarrow> blocks each extra i next_p ms ! j = (ms ! j,
    [next_p + int j * each + (min (i + int j) extra - min i extra)..
     next_p + int (Suc j) * each + (min (i + int (Suc j)) extra - min i extra) - 1])"
proof (induction each extra i next_p ms arbitrary: j rule: blocks.induct)
  case (2 each extra i next_p m ms)
  show ?case
  proof (cases j)
    case 0
    have "min (i + 1) extra - min i extra = (if i < extra then 1 else 0)" by (simp add: min_def)
    with 0 show ?thesis by (simp add: Let_def algebra_simps)
  next
    case (Suc k)
    with "2.IH" [OF refl, of k] "2.prems" show ?thesis by (simp add: Let_def algebra_simps)
  qed
qed simp

subsection \<open>A topic\<close>

definition share :: "assignment_input \<Rightarrow> string \<times> int \<Rightarrow> string \<Rightarrow> int list" where
  "share input = (\<lambda>(topic, c) m.
    (let ms = interested input topic; n = int (length ms) in
     if ms = [] \<or> c \<le> 0 then [] else block_of (blocks (c div n) (c mod n) 0 0 ms) m))"

lemma distinct_interested: "keys_sorted (ai_members input) \<Longrightarrow> distinct (interested input topic)"
  unfolding interested_def by (rule keys_sorted_distinct, rule keys_sorted_filter)

lemma held_range_topic:
  assumes "keys_sorted (ai_members input)"
  shows "held (range_topic input (topic, c) a) m = held a m @ tps_of topic (share input (topic, c) m)"
  using held_range_members [OF distinct_interested [OF assms, of topic]]
  by (simp add: range_topic_def share_def Let_def)

lemma blocks_total:
  assumes "ms \<noteq> []" "0 < c"
  shows "concat (map snd (blocks (c div int (length ms)) (c mod int (length ms)) 0 0 ms)) = [0..c - 1]"
proof -
  let ?n = "int (length ms)"
  have "0 < ?n" using assms(1) by simp
  then have "0 \<le> c div ?n" "0 \<le> c mod ?n" "c mod ?n < ?n" using assms(2) by (simp_all add: pos_imp_zdiv_nonneg_iff)
  moreover have "?n * (c div ?n) + c mod ?n = c" by simp
  ultimately show ?thesis by (simp add: blocks_concat min_def)
qed

lemma range_topic_ok:
  assumes "member_table input a"
  shows "member_table input (range_topic input (topic, c) a) \<and>
    mset (dealt (range_topic input (topic, c) a)) =
      mset (if interested input topic = [] then [] else tps_of topic [0..c - 1]) + mset (dealt a)"
proof (cases "interested input topic = [] \<or> c \<le> 0")
  case True
  with assms show ?thesis by (auto simp: range_topic_def Let_def)
next
  case False
  let ?ms = "interested input topic"
  have "set ?ms \<subseteq> fst ` set (ai_members input)" using interested_member by blast
  from range_members_ok [OF this assms] False blocks_total [of ?ms c] show ?thesis
    by (simp add: range_topic_def Let_def)
qed

text \<open>Every wanted partition once, to members that asked for its topic.\<close>

definition wanted :: "assignment_input \<Rightarrow> topic_partition list" where
  "wanted input = filter (\<lambda>tp. interested input (tp_topic tp) \<noteq> []) (all_partitions input)"

definition exact :: "assignment_input \<Rightarrow> assignment \<Rightarrow> bool" where
  "exact input a \<longleftrightarrow> map fst a = map fst (ai_members input) \<and> mset (dealt a) = mset (wanted input) \<and> distinct (dealt a) \<and>
     (\<forall>(m, tps) \<in> set a. \<forall>tp \<in> set tps. wants input m (tp_topic tp))"

lemma distinct_all_partitions: "keys_sorted (ai_partitionCounts input) \<Longrightarrow> distinct (all_partitions input)"
proof -
  have "distinct (concat (map (\<lambda>(topic, c). tps_of topic [0..c - 1]) cs)) \<and>
      (\<forall>tp \<in> set (concat (map (\<lambda>(topic, c). tps_of topic [0..c - 1]) cs)). tp_topic tp \<in> fst ` set cs)"
    if "keys_sorted cs" for cs :: "(string \<times> int) list"
    using that
  proof (induction cs)
    case (Cons x cs)
    obtain topic c where x: "x = (topic, c)" by (cases x)
    let ?others = "concat (map (\<lambda>(topic, c). tps_of topic [0..c - 1]) cs)"
    have others: "distinct ?others" "\<forall>tp \<in> set ?others. tp_topic tp \<in> fst ` set cs" using Cons by (simp_all add: x)
    have "topic \<notin> fst ` set cs" using Cons.prems by (auto simp: x)
    moreover have mine: "tp_topic tp = topic" if "tp \<in> set (tps_of topic [0..c - 1])" for tp using that by auto
    ultimately have "set (tps_of topic [0..c - 1]) \<inter> set ?others = {}" using bspec [OF others(2)] mine by blast
    moreover have "distinct (tps_of topic [0..c - 1])" by (simp add: distinct_map inj_on_def)
    ultimately have "distinct (tps_of topic [0..c - 1] @ ?others)" using others(1) by (simp only: distinct_append)
    moreover have "tp_topic tp \<in> fst ` set (x # cs)" if "tp \<in> set (tps_of topic [0..c - 1] @ ?others)" for tp
    proof (cases "tp \<in> set ?others")
      case True
      from bspec [OF others(2) this] show ?thesis by (metis image_insert insertI2 list.simps(15))
    next
      case False
      with that have "tp \<in> set (tps_of topic [0..c - 1])" unfolding set_append by blast
      with mine show ?thesis by (simp add: x)
    qed
    ultimately show ?case by (simp only: x list.map concat.simps prod.case) blast
  qed simp
  then show "keys_sorted (ai_partitionCounts input) \<Longrightarrow> distinct (all_partitions input)" by (simp add: all_partitions_def)
qed

lemma exactI:
  assumes "input_ok input" "member_table input a" "mset (dealt a) = mset (wanted input)"
    and "\<And>m tp. tp \<in> set (held a m) \<Longrightarrow> wants input m (tp_topic tp)"
  shows "exact input a"
proof -
  have "distinct (wanted input)" using distinct_all_partitions assms(1) by (simp add: wanted_def input_ok_def)
  then have "distinct (dealt a)" using assms(3) by (metis mset_eq_imp_distinct_iff)
  moreover have "\<forall>(m, tps) \<in> set a. \<forall>tp \<in> set tps. wants input m (tp_topic tp)"
  proof (intro ballI, clarify)
    fix m tps tp assume mem: "(m, tps) \<in> set a" "tp \<in> set tps"
    have "map_of a m = Some tps" using assms(2) mem(1) by (simp add: member_table_def map_of_sorted_mem)
    then show "wants input m (tp_topic tp)" using assms(4) mem(2) by (simp add: held_def)
  qed
  ultimately show ?thesis using assms(2,3) by (simp add: exact_def member_table_def)
qed

text \<open>Range.\<close>

definition sharing :: "assignment_input \<Rightarrow> (string \<times> int) list \<Rightarrow> string \<Rightarrow> topic_partition list" where
  "sharing input cs m = concat (map (\<lambda>(topic, c). tps_of topic (share input (topic, c) m)) cs)"

lemma fold_range:
  assumes "keys_sorted (ai_members input)" "member_table input a"
  shows "member_table input (fold (range_topic input) cs a) \<and>
    held (fold (range_topic input) cs a) m = held a m @ sharing input cs m \<and>
    mset (dealt (fold (range_topic input) cs a)) =
      mset (filter (\<lambda>tp. interested input (tp_topic tp) \<noteq> []) (concat (map (\<lambda>(topic, c). tps_of topic [0..c - 1]) cs))) + mset (dealt a)"
  using assms(2)
proof (induction cs arbitrary: a)
  case Nil
  then show ?case by (simp add: sharing_def)
next
  case (Cons x cs)
  obtain topic c where x: "x = (topic, c)" by (cases x)
  note step = range_topic_ok [OF Cons.prems, of topic c]
  have "filter (\<lambda>tp. interested input (tp_topic tp) \<noteq> []) (tps_of topic [0..c - 1]) =
      (if interested input topic = [] then [] else tps_of topic [0..c - 1])"
    by (auto simp: filter_empty_conv filter_id_conv)
  with Cons.IH [of "range_topic input (topic, c) a"] step held_range_topic [OF assms(1), of topic c a m] show ?case
    by (simp add: x sharing_def)
qed

lemma share_wants: "keys_sorted (ai_members input) \<Longrightarrow> p \<in> set (share input (topic, c) m) \<Longrightarrow> wants input m topic"
proof -
  assume sorted: "keys_sorted (ai_members input)" and p: "p \<in> set (share input (topic, c) m)"
  then obtain ps where "map_of (blocks (c div int (length (interested input topic))) (c mod int (length (interested input topic))) 0 0
      (interested input topic)) m = Some ps"
    by (cases "map_of (blocks (c div int (length (interested input topic))) (c mod int (length (interested input topic))) 0 0
      (interested input topic)) m") (auto simp: share_def Let_def block_of_def split: if_splits)
  from map_of_key [OF this] have "m \<in> set (interested input topic)" by (simp only: blocks_members flip: set_map)
  then show ?thesis using interested_wants [OF sorted] by blast
qed

lemma assignRange_exact:
  assumes "input_ok input"
  shows "exact input (assignRange input)"
proof -
  have sorted: "keys_sorted (ai_members input)" using assms by (simp add: input_ok_def)
  note f = fold_range [OF sorted no_assignment_ok(1) [OF sorted], of "ai_partitionCounts input"]
  show ?thesis
  proof (rule exactI [OF assms])
    show "member_table input (assignRange input)" "mset (dealt (assignRange input)) = mset (wanted input)"
      using f no_assignment_ok(3) [OF sorted] by (simp_all add: assignRange_def wanted_def all_partitions_def)
    show "wants input m (tp_topic tp)" if "tp \<in> set (held (assignRange input) m)" for m tp
      using that f [of m] no_assignment_ok(2) [OF sorted, of m] share_wants [OF sorted]
      by (fastforce simp: assignRange_def sharing_def)
  qed
qed

text \<open>Round robin.\<close>

lemma find_taker:
  assumes "ms \<noteq> []"
  shows "find (\<lambda>tried. P (ms ! ((n + tried) mod length ms))) [0..<length ms] = None \<longleftrightarrow> (\<forall>m \<in> set ms. \<not> P m)"
proof -
  have "\<exists>tried < length ms. (n + tried) mod length ms = i" if "i < length ms" for i
  proof (intro exI conjI)
    let ?t = "(i + (length ms - n mod length ms)) mod length ms"
    show "?t < length ms" using assms by simp
    have "(n + ?t) mod length ms = (n mod length ms + (i + (length ms - n mod length ms))) mod length ms"
      by (simp add: mod_simps)
    also have "n mod length ms + (i + (length ms - n mod length ms)) = i + length ms"
    proof -
      have "n mod length ms < length ms" using assms by simp
      then show ?thesis by linarith
    qed
    finally show "(n + ?t) mod length ms = i" using that by simp
  qed
  then have taker: "\<exists>tried < length ms. ms ! ((n + tried) mod length ms) = m" if "m \<in> set ms" for m
    using that by (metis in_set_conv_nth)
  have in_set: "ms ! ((n + tried) mod length ms) \<in> set ms" for tried using assms by simp
  show ?thesis
  proof
    assume none: "find (\<lambda>tried. P (ms ! ((n + tried) mod length ms))) [0..<length ms] = None"
    show "\<forall>m \<in> set ms. \<not> P m"
    proof
      fix m assume "m \<in> set ms"
      then obtain tried where "tried < length ms" "ms ! ((n + tried) mod length ms) = m" using taker by blast
      with none show "\<not> P m" by (auto simp: find_None_iff)
    qed
  next
    assume "\<forall>m \<in> set ms. \<not> P m"
    then show "find (\<lambda>tried. P (ms ! ((n + tried) mod length ms))) [0..<length ms] = None"
      using in_set by (simp add: find_None_iff)
  qed
qed

lemma deal_one_ok:
  assumes table: "member_table input a" and ms: "ms = map fst (ai_members input)" "ms \<noteq> []" and sorted: "keys_sorted (ai_members input)"
    and wanted: "\<forall>m. \<forall>tp \<in> set (held a m). wants input m (tp_topic tp)"
    and deal: "deal_one input ms tp (n, a) = (n', a')"
  shows "member_table input a' \<and> (\<forall>m. \<forall>tp \<in> set (held a' m). wants input m (tp_topic tp)) \<and>
    mset (dealt a') = mset (if interested input (tp_topic tp) = [] then [] else [tp]) + mset (dealt a)"
proof (cases "find (\<lambda>tried. wants input (ms ! ((n + tried) mod length ms)) (tp_topic tp)) [0..<length ms]")
  case None
  have "interested input (tp_topic tp) = []"
  proof (rule ccontr)
    assume "interested input (tp_topic tp) \<noteq> []"
    then obtain m where "m \<in> set (interested input (tp_topic tp))" by (cases "interested input (tp_topic tp)") auto
    with interested_wants [OF sorted] interested_member ms(1) have "wants input m (tp_topic tp)" "m \<in> set ms" by auto
    with find_taker [OF ms(2), of "\<lambda>m. wants input m (tp_topic tp)" n] None show False by blast
  qed
  with deal None table wanted show ?thesis by (simp add: deal_one_def)
next
  case (Some tried)
  let ?m = "ms ! ((n + tried) mod length ms)"
  have m: "?m \<in> fst ` set (ai_members input)" using ms nth_mem [of "(n + tried) mod length ms" ms] by simp
  have wants: "wants input ?m (tp_topic tp)" using Some by (auto simp: find_Some_iff)
  then have "?m \<in> set (interested input (tp_topic tp))" by (simp only: interested_wants [OF sorted])
  then have "interested input (tp_topic tp) \<noteq> []" by (cases "interested input (tp_topic tp)") simp_all
  with deal Some member_table_push [OF table m] mset_dealt_push [OF table m] wanted wants show ?thesis
    by (auto simp: deal_one_def split: if_splits)
qed

lemma fold_deal:
  assumes ms: "ms = map fst (ai_members input)" "ms \<noteq> []" and sorted: "keys_sorted (ai_members input)"
  shows "member_table input a \<Longrightarrow> \<forall>m. \<forall>tp \<in> set (held a m). wants input m (tp_topic tp) \<Longrightarrow>
    fold (deal_one input ms) tps (n, a) = (n', a') \<Longrightarrow>
    member_table input a' \<and> (\<forall>m. \<forall>tp \<in> set (held a' m). wants input m (tp_topic tp)) \<and>
    mset (dealt a') = mset (filter (\<lambda>tp. interested input (tp_topic tp) \<noteq> []) tps) + mset (dealt a)"
proof (induction tps arbitrary: n a)
  case (Cons tp tps)
  obtain n1 a1 where 1: "deal_one input ms tp (n, a) = (n1, a1)" by fastforce
  note step = deal_one_ok [OF Cons.prems(1) ms sorted Cons.prems(2) 1]
  have "fold (deal_one input ms) tps (n1, a1) = (n', a')" using Cons.prems(3) 1 by simp
  from Cons.IH [OF _ _ this] step show ?case by simp
qed simp

lemma assignRoundRobin_exact:
  assumes "input_ok input"
  shows "exact input (assignRoundRobin input)"
proof -
  have sorted: "keys_sorted (ai_members input)" using assms by (simp add: input_ok_def)
  note none = no_assignment_ok [OF sorted]
  let ?ms = "map fst (ai_members input)"
  show ?thesis
  proof (cases "?ms = []")
    case True
    then have "interested input topic = []" for topic by (simp add: interested_def)
    then have "wanted input = []" by (simp add: wanted_def)
    with True none show ?thesis by (intro exactI [OF assms]) (simp_all add: assignRoundRobin_def)
  next
    case False
    obtain n a where a: "fold (deal_one input ?ms) (all_partitions input) (0, no_assignment input) = (n, a)" by fastforce
    have "\<forall>m. \<forall>tp \<in> set (held (no_assignment input) m). wants input m (tp_topic tp)" by (simp add: none(2))
    from fold_deal [OF refl False sorted none(1) this a] none(3) show ?thesis
      using a False by (intro exactI [OF assms]) (auto simp: assignRoundRobin_def wanted_def)
  qed
qed

subsection \<open>The round trip\<close>

definition assigned_topic_repr :: "string \<times> int list \<Rightarrow> byte list" where
  "assigned_topic_repr x = string_repr (fst x) @ array_repr i32_repr (snd x)"

definition assigned_topic_ok :: "string \<times> int list \<Rightarrow> bool" where
  "assigned_topic_ok x \<longleftrightarrow> string_ok (fst x) \<and> array_ok in_i32 (snd x)"

interpretation assignedTopic: element decode_assigned_topic assigned_topic_repr assigned_topic_ok encode_assigned_topic
proof (rule elementI)
  fix x assume "assigned_topic_ok x"
  then show "reads decode_assigned_topic (assigned_topic_repr x) x"
    unfolding decode_assigned_topic_def assigned_topic_repr_def
    by (intro reads_bind [OF wstring.reads] reads_last [OF wint32.array.reads]) (simp_all add: assigned_topic_ok_def)
qed (simp_all add: encode_assigned_topic_def assigned_topic_repr_def assigned_topic_ok_def enc_simps codec_simps nonempty_simps
  case_prod_unfold)

lemma by_topic_shape:
  "keys_sorted (by_topic tps) \<and> (\<forall>t. map_of (by_topic tps) t =
     (let ps = map tp_partition (filter (\<lambda>tp. tp_topic tp = t) tps) in if ps = [] then None else Some ps))"
proof (induction tps rule: rev_induct)
  case (snoc tp tps)
  let ?old = "case map_of (by_topic tps) (tp_topic tp) of None \<Rightarrow> [] | Some ps \<Rightarrow> ps"
  have "by_topic (tps @ [tp]) = set_at (tp_topic tp) (?old @ [tp_partition tp]) (by_topic tps)" by (simp add: by_topic_def)
  with snoc show ?case by (auto simp: Let_def)
qed (simp add: by_topic_def)

lemma filter_ungroup:
  assumes "keys_sorted ts"
  shows "filter (\<lambda>tp. tp_topic tp = t) (ungroup ts) =
    tps_of t (case map_of ts t of None \<Rightarrow> [] | Some ps \<Rightarrow> ps)"
  using assms
proof (induction ts)
  case (Cons x ts)
  obtain k ps where x: "x = (k, ps)" by (cases x)
  have "filter (\<lambda>tp. tp_topic tp = t) (tps_of k ps) = (if k = t then tps_of t ps else [])"
    by (simp add: filter_empty_conv filter_id_conv)
  moreover have "ungroup (x # ts) = tps_of k ps @ ungroup ts" by (simp add: x ungroup_def)
  moreover have "map_of ts k = None" using Cons.prems by (auto simp: x map_of_eq_None_iff)
  ultimately show ?case using Cons by (cases "k = t") (simp_all add: x)
qed (simp add: ungroup_def)

lemma filter_ungroup_by_topic:
  "filter (\<lambda>tp. tp_topic tp = t) (ungroup (by_topic tps)) = filter (\<lambda>tp. tp_topic tp = t) tps"
proof -
  have "tps_of t (map tp_partition (filter (\<lambda>tp. tp_topic tp = t) tps)) = filter (\<lambda>tp. tp_topic tp = t) tps"
    by (induction tps) simp_all
  then show ?thesis
    using by_topic_shape [of tps] filter_ungroup [of "by_topic tps" t] by (simp add: Let_def)
qed

definition assigned_ok :: "topic_partition list \<Rightarrow> bool" where
  "assigned_ok tps \<longleftrightarrow> list_all (\<lambda>tp. string_ok (tp_topic tp) \<and> in_i32 (tp_partition tp)) tps \<and> length tps < 2 ^ 31"

lemma by_topic_length:
  "length (by_topic tps) \<le> length tps"
proof (induction tps rule: rev_induct)
  case (snoc tp tps)
  have "length (set_at k v m) \<le> Suc (length m)" for k v and m :: "(string \<times> int list) list"
    by (induction k v m rule: set_at.induct) auto
  from order_trans [OF this [of _ _ "by_topic tps"]] snoc show ?case by (simp add: by_topic_def)
qed (simp add: by_topic_def)

lemma by_topic_ok:
  assumes "assigned_ok tps"
  shows "array_ok assigned_topic_ok (by_topic tps)"
proof -
  have "assigned_topic_ok (t, ps)" if "(t, ps) \<in> set (by_topic tps)" for t ps
  proof -
    have "map_of (by_topic tps) t = Some ps" using that by_topic_shape map_of_sorted_mem by metis
    then have ps: "ps = map tp_partition (filter (\<lambda>tp. tp_topic tp = t) tps)" "ps \<noteq> []"
      using by_topic_shape [of tps] by (auto simp: Let_def split: if_splits)
    then obtain tp where "tp \<in> set tps" "tp_topic tp = t" by (auto simp: filter_empty_conv)
    then have "string_ok t" using assms by (auto simp: assigned_ok_def list_all_iff)
    moreover have "list_all in_i32 ps" using assms by (auto simp: ps(1) assigned_ok_def list_all_iff)
    moreover have "length ps < 2 ^ 31"
      using assms le_less_trans [OF length_filter_le] by (auto simp: ps(1) assigned_ok_def)
    ultimately show ?thesis by (simp add: assigned_topic_ok_def array_ok_def)
  qed
  then show ?thesis using assms by_topic_length [of tps] by (auto simp: array_ok_def list_all_iff assigned_ok_def)
qed

definition assignment_repr :: "topic_partition list \<Rightarrow> byte list" where
  "assignment_repr tps = be_bytes 2 (word_of_int assignment_kVersion :: 16 word) @ array_repr assigned_topic_repr (by_topic tps)"

lemma encodeAssignment_bytes:
  assumes "assigned_ok tps"
  shows "encodeAssignment tps = Inr (assignment_repr tps)"
  using assignedTopic.array.enc_repr [OF by_topic_ok [OF assms], of "push_back (be_bytes 2 (word_of_int assignment_kVersion :: 16 word)) new_writer"]
  by (simp add: encodeAssignment_def assignment_repr_def bytes_of_def codec_simps take_writer_def assignment_kVersion_def in_i16_def)

lemma decodeAssignment_reads:
  assumes "assigned_ok tps"
  shows "decodeAssignment (assignment_repr tps @ ys) = (if ys = [] then Inr (ungroup (by_topic tps)) else Inl CorruptData)"
proof -
  let ?topics = "array_repr assigned_topic_repr (by_topic tps)" and ?r = "reader_of (assignment_repr tps @ ys)"
  have rest: "rest ?r = be_bytes 2 (word_of_int assignment_kVersion :: 16 word) @ ?topics @ ys" by (simp add: assignment_repr_def)
  have "readInt16 ?r = Inr (assignment_kVersion, advance 2 ?r)"
    using int16.dec_repr [of assignment_kVersion ?r "?topics @ ys"] rest by (simp add: assignment_kVersion_def in_i16_def be_bytes_2)
  moreover have "rest (advance 2 ?r) = ?topics @ ys" using rest by (simp add: be_bytes_2)
  then have "readArray decode_assigned_topic (advance 2 ?r) = Inr (by_topic tps, advance (length ?topics) (advance 2 ?r))"
    by (rule assignedTopic.array.dec_repr [OF by_topic_ok [OF assms]])
  moreover have "remaining (advance (length ?topics) (advance 2 ?r)) = length ys"
    using rest by (simp add: remaining_rest be_bytes_2)
  moreover have "assignment_repr tps @ ys \<noteq> []" by (simp add: assignment_repr_def be_bytes_2)
  ultimately show ?thesis by (cases "ys = []") (simp_all add: decodeAssignment_def require_def)
qed

subsection \<open>The shape of the shares\<close>

lemma filter_sharing:
  "keys_sorted cs \<Longrightarrow> (topic, c) \<in> set cs \<Longrightarrow>
    filter (\<lambda>tp. tp_topic tp = topic) (sharing input cs m) = tps_of topic (share input (topic, c) m)"
proof (induction cs)
  case (Cons x cs)
  obtain t c' where x: "x = (t, c')" by (cases x)
  have mine: "filter (\<lambda>tp. tp_topic tp = topic) (tps_of t ps) = (if t = topic then tps_of t ps else [])" for ps
    by (simp add: filter_empty_conv filter_id_conv)
  have others: "filter (\<lambda>tp. tp_topic tp = topic) (sharing input cs' m) = []" if "topic \<notin> fst ` set cs'" for cs'
    using that by (force simp: sharing_def filter_empty_conv)
  have cons: "sharing input (x # cs) m = tps_of t (share input (t, c') m) @ sharing input cs m" by (simp add: x sharing_def)
  show ?case
  proof (cases "t = topic")
    case True
    have "t \<notin> fst ` set cs" using Cons.prems(1) by (auto simp: x)
    moreover from this have "c' = c" using Cons.prems(2) True by (force simp: x)
    ultimately show ?thesis using True by (simp add: cons mine others)
  next
    case False
    with Cons show ?thesis by (simp add: cons [unfolded x] mine x)
  qed
qed simp

lemma map_of_nth: "distinct (map fst xs) \<Longrightarrow> j < length xs \<Longrightarrow> map_of xs (fst (xs ! j)) = Some (snd (xs ! j))"
  by (simp add: map_of_eq_Some_iff)

lemma share_nth:
  assumes "keys_sorted (ai_members input)" "j < length (interested input topic)" "0 < c"
  defines "n \<equiv> int (length (interested input topic))"
  shows "share input (topic, c) (interested input topic ! j) =
    [int j * (c div n) + min (int j) (c mod n)..int (Suc j) * (c div n) + min (int (Suc j)) (c mod n) - 1]"
proof -
  let ?ms = "interested input topic" and ?bs = "blocks (c div n) (c mod n) 0 0 (interested input topic)"
  have ms: "?ms \<noteq> []" "0 < n" using assms(2) by (auto simp: n_def)
  have "length ?bs = length ?ms" by (metis blocks_members length_map)
  then have "map_of ?bs (fst (?bs ! j)) = Some (snd (?bs ! j))"
    using distinct_interested [OF assms(1)] assms(2) by (intro map_of_nth) simp_all
  moreover have "0 \<le> c mod n" using ms(2) by simp
  ultimately show ?thesis
    using assms(2,3) ms(1) blocks_nth [OF assms(2), of "c div n" "c mod n" 0 0] by (simp add: share_def Let_def block_of_def flip: n_def)
qed

lemma range_contiguous:
  assumes "input_ok input" "(topic, c) \<in> set (ai_partitionCounts input)" "0 < c" "j < length (interested input topic)"
  defines "n \<equiv> int (length (interested input topic))"
  shows "filter (\<lambda>tp. tp_topic tp = topic) (held (assignRange input) (interested input topic ! j)) =
    tps_of topic [int j * (c div n) + min (int j) (c mod n)..int (Suc j) * (c div n) + min (int (Suc j)) (c mod n) - 1]"
proof -
  have sorted: "keys_sorted (ai_members input)" "keys_sorted (ai_partitionCounts input)" using assms(1) by (simp_all add: input_ok_def)
  have "held (assignRange input) m = sharing input (ai_partitionCounts input) m" for m
    using fold_range [OF sorted(1) no_assignment_ok(1) [OF sorted(1)]] no_assignment_ok(2) [OF sorted(1)] by (simp add: assignRange_def)
  then show ?thesis
    using filter_sharing [OF sorted(2) assms(2)] share_nth [OF sorted(1) assms(4,3)] by (simp add: n_def)
qed

text \<open>When everybody wants everything, the deal goes straight round.\<close>

definition all_want_all :: "assignment_input \<Rightarrow> bool" where
  "all_want_all input \<longleftrightarrow> (\<forall>m \<in> set (map fst (ai_members input)). \<forall>topic \<in> set (map fst (ai_partitionCounts input)). wants input m topic)"

lemma Suc_div_mod:
  assumes "0 < n"
  shows "Suc k div n = (if Suc (k mod n) = n then Suc (k div n) else k div n)" "Suc k mod n = (if Suc (k mod n) = n then 0 else Suc (k mod n))"
  using assms by (simp_all add: div_Suc mod_Suc)

lemma deal_round:
  assumes ms: "ms \<noteq> []" "distinct ms" and tps: "\<forall>tp \<in> set tps. \<forall>m \<in> set ms. wants input m (tp_topic tp)"
    and a: "\<forall>i < length ms. length (held a (ms ! i)) = k div length ms + (if i < k mod length ms then 1 else 0)"
  shows "\<exists>a'. fold (deal_one input ms) tps (k mod length ms, a) = ((k + length tps) mod length ms, a') \<and>
    (\<forall>i < length ms. length (held a' (ms ! i)) = (k + length tps) div length ms + (if i < (k + length tps) mod length ms then 1 else 0))"
  using tps a
proof (induction tps arbitrary: k a)
  case (Cons tp tps)
  let ?n = "length ms" and ?m = "ms ! (k mod length ms)"
  have n: "0 < ?n" "k mod ?n < ?n" using ms(1) by simp_all
  have "[0..<?n] = 0 # [1..<?n]" using n(1) by (simp add: upt_conv_Cons)
  moreover have "wants input ?m (tp_topic tp)" using Cons.prems(1) n(2) by simp
  ultimately have deal: "deal_one input ms tp (k mod ?n, a) = (Suc k mod ?n, push ?m tp a)"
    by (simp add: deal_one_def mod_Suc)
  have "length (held (push ?m tp a) (ms ! i)) = Suc k div ?n + (if i < Suc k mod ?n then 1 else 0)" if "i < ?n" for i
  proof -
    have "ms ! i = ?m \<longleftrightarrow> i = k mod ?n" using nth_eq_iff_index_eq [OF ms(2) that n(2)] .
    moreover have "length (held a (ms ! i)) = k div ?n + (if i < k mod ?n then 1 else 0)" using Cons.prems(2) that by blast
    ultimately show ?thesis using Suc_div_mod [OF n(1), of k] n(2) that by auto
  qed
  then obtain a' where "fold (deal_one input ms) tps (Suc k mod ?n, push ?m tp a) = ((Suc k + length tps) mod ?n, a')"
      "\<forall>i < ?n. length (held a' (ms ! i)) = (Suc k + length tps) div ?n + (if i < (Suc k + length tps) mod ?n then 1 else 0)"
    using Cons.IH [of "push ?m tp a" "Suc k"] Cons.prems(1) by auto
  with deal show ?case by simp
qed simp

lemma round_robin_even:
  assumes "input_ok input" "all_want_all input" "i < length (ai_members input)"
  defines "n \<equiv> length (ai_members input)" and "k \<equiv> length (all_partitions input)"
  shows "length (held (assignRoundRobin input) (fst (ai_members input ! i))) = k div n + (if i < k mod n then 1 else 0)"
proof -
  let ?ms = "map fst (ai_members input)"
  have sorted: "keys_sorted (ai_members input)" using assms(1) by (simp add: input_ok_def)
  have ms: "?ms \<noteq> []" "distinct ?ms" using assms(3) keys_sorted_distinct [OF sorted] by auto
  have "tp_topic tp \<in> set (map fst (ai_partitionCounts input))" if "tp \<in> set (all_partitions input)" for tp
    using that by (force simp: all_partitions_def)
  then have want: "\<forall>tp \<in> set (all_partitions input). \<forall>m \<in> set ?ms. wants input m (tp_topic tp)"
    using assms(2) unfolding all_want_all_def by blast
  from deal_round [OF ms want, of "no_assignment input" 0] obtain a
    where "fold (deal_one input ?ms) (all_partitions input) (0, no_assignment input) = (k mod n, a)"
      "\<forall>i < n. length (held a (?ms ! i)) = k div n + (if i < k mod n then 1 else 0)"
    using no_assignment_ok(2) [OF sorted] by (auto simp: n_def k_def)
  then show ?thesis using ms(1) assms(3) by (simp add: assignRoundRobin_def n_def)
qed

text \<open>
  C20. In a group where every member and every topic occurs once, both strategies deal exactly: the members of
  the assignment are the members of the group, in their order, those without any partition included; every
  partition of every topic somebody subscribes to is held by exactly one member; and no member holds a
  partition of a topic it did not ask for.
\<close>

theorem assignment_is_exact:
  assumes "input_ok input"
  shows "exact input (assignRange input) \<and> exact input (assignRoundRobin input)"
  using assignRange_exact [OF assms] assignRoundRobin_exact [OF assms] by simp

definition demo_input :: assignment_input where
  "demo_input = \<lparr>ai_members = [(''a'', [''t'', ''u'']), (''b'', [''t'']), (''c'', [])],
     ai_partitionCounts = [(''t'', 3), (''u'', 2), (''v'', 1)]\<rparr>"

definition demo_shared :: assignment_input where
  "demo_shared = \<lparr>ai_members = [(''a'', [''t'', ''u'']), (''b'', [''u'', ''t''])], ai_partitionCounts = [(''t'', 3), (''u'', 2)]\<rparr>"

theorem assignment_is_exact_witness:
  "exact demo_input (assignRange demo_input) \<and> exact demo_input (assignRoundRobin demo_input) \<and>
   map (\<lambda>(m, tps). (m, length tps)) (assignRange demo_input) = [(''a'', 4), (''b'', 1), (''c'', 0)]"
proof -
  have "input_ok demo_input" by code_simp
  moreover have "map (\<lambda>(m, tps). (m, length tps)) (assignRange demo_input) = [(''a'', 4), (''b'', 1), (''c'', 0)]" by code_simp
  ultimately show ?thesis using assignment_is_exact [of demo_input] by simp
qed

text \<open>
  The shares are even. Range gives the members interested in a topic, in their order, adjacent blocks of
  its partitions of the same length, one longer for the first ones when the count does not divide. Round
  robin, when every member asked for every topic, gives members the same number of partitions, one more to
  the first ones.
\<close>

lemma assignment_is_even:
  assumes "input_ok input"
  shows "(\<forall>(topic, c) \<in> set (ai_partitionCounts input). \<forall>j < length (interested input topic).
      let n = int (length (interested input topic)); first = (\<lambda>i. int i * (c div n) + min (int i) (c mod n)) in 0 < c \<longrightarrow>
        filter (\<lambda>tp. tp_topic tp = topic) (held (assignRange input) (interested input topic ! j)) =
          map (\<lambda>p. \<lparr>tp_topic = topic, tp_partition = p\<rparr>) [first j..first (Suc j) - 1]) \<and>
    (all_want_all input \<longrightarrow> (\<forall>i < length (ai_members input).
      let n = length (ai_members input); k = length (all_partitions input) in
        length (held (assignRoundRobin input) (fst (ai_members input ! i))) = k div n + (if i < k mod n then 1 else 0)))"
  unfolding Let_def
  using range_contiguous [OF assms] round_robin_even [OF assms] by blast

text \<open>
  An assignment crosses the wire: the member the leader computed it for reads the same partitions of
  every topic, in the same order, and nothing else. An empty one arrives as an empty one, and bytes behind
  the end of one are refused.
\<close>

lemma assignment_crosses_the_wire:
  assumes "assigned_ok tps"
  shows "\<exists>bytes tps'. encodeAssignment tps = Inr bytes \<and> decodeAssignment bytes = Inr tps' \<and>
    (\<forall>topic. filter (\<lambda>tp. tp_topic tp = topic) tps' = filter (\<lambda>tp. tp_topic tp = topic) tps) \<and>
    decodeAssignment [] = Inr [] \<and> (\<forall>ys. ys \<noteq> [] \<longrightarrow> decodeAssignment (bytes @ ys) = Inl CorruptData)"
proof (intro exI conjI allI impI)
  show "encodeAssignment tps = Inr (assignment_repr tps)" by (rule encodeAssignment_bytes [OF assms])
  show "decodeAssignment (assignment_repr tps) = Inr (ungroup (by_topic tps))" using decodeAssignment_reads [OF assms, of "[]"] by simp
  show "decodeAssignment [] = Inr []" by (simp add: decodeAssignment_def)
  show "decodeAssignment (assignment_repr tps @ ys) = Inl CorruptData" if "ys \<noteq> []" for ys
    using decodeAssignment_reads [OF assms, of ys] that by simp
qed (rule filter_ungroup_by_topic)

end
