(* ===== verification/Group_Rebalance.thy ===== *)
theory Group_Rebalance
  imports Group_Coordinator
begin

text \<open>
  What the protocol of \<^verbatim>\<open>group/group_coordinator.cpp\<close> guarantees to the members of a group over
  any interleaving of requests: one assignment per generation, rebalances that settle, and what a
  restart of the broker does to it.
\<close>

subsection \<open>The assignment of a generation\<close>

text \<open>From generation \<open>n\<close> on, as long as \<open>m\<close> is a member and the generation lasts, its
assignment is \<open>a\<close>.\<close>

definition slice :: "string \<Rightarrow> int \<Rightarrow> byte list \<Rightarrow> consumer_group \<Rightarrow> bool" where
  "slice m n a g \<longleftrightarrow> (\<forall>member. map_of (cg_members g) m = Some member \<longrightarrow> n < cg_generation g \<or>
     n = cg_generation g \<and> (cg_state g = Stable \<or> cg_state g = PreparingRebalance) \<and> gm_assignment member = a)"

lemma slice_begin: "slice m n a g \<Longrightarrow> slice m n a (beginRebalance g)"
  by (auto simp: slice_def)

lemma slice_complete: "slice m n a g \<Longrightarrow> cg_state g = PreparingRebalance \<Longrightarrow> slice m n a (maybeCompleteJoin g)"
  by (auto simp: slice_def maybeCompleteJoin_def)

lemma slice_members:
  assumes "slice m n a g"
    and "\<And>member. map_of ms m = Some member \<Longrightarrow>
      \<exists>old. map_of (cg_members g) m = Some old \<and> gm_assignment member = gm_assignment old"
  shows "slice m n a (g\<lparr>cg_members := ms\<rparr>)"
  using assms unfolding slice_def by fastforce

lemma slice_join:
  assumes "slice m n a g" "who = m \<Longrightarrow> map_of (cg_members g) m \<noteq> None"
  shows "slice m n a (snd (join_group who clientId subscription protocols timeout now g))"
proof (cases rule: join_group_cases [of g who subscription protocols clientId timeout now])
  case (retry old)
  have "slice m n a (g\<lparr>cg_members := set_at who (old\<lparr>gm_lastHeartbeatMs := now\<rparr>) (cg_members g)\<rparr>)"
    by (rule slice_members [OF assms(1)]) (use retry(1) in \<open>auto split: if_splits\<close>)
  then show ?thesis by (simp add: retry(6))
next
  case (rejoin g1 old member)
  have g1: "slice m n a g1" "cg_state g1 = PreparingRebalance" using assms(1) rejoin(1) slice_begin by auto
  have "map_of (cg_members g1) m \<noteq> None" if "who = m" using assms(2) [OF that] rejoin(1) by auto
  then have "slice m n a (g1\<lparr>cg_members := set_at who member (cg_members g1)\<rparr>)"
    by (intro slice_members [OF g1(1)]) (auto simp: rejoin(2,3) split: if_splits)
  then show ?thesis unfolding rejoin(4) by (rule slice_complete) (simp add: g1(2))
qed

definition holds_slice :: "string \<Rightarrow> string \<Rightarrow> int \<Rightarrow> byte list \<Rightarrow> group_coordinator \<Rightarrow> bool" where
  "holds_slice groupId m n a gc \<longleftrightarrow> issued (gc_nextMemberId gc) m \<and>
     (\<forall>g. map_of (gc_groups gc) groupId = Some g \<longrightarrow> slice m n a g)"

lemma holds_slice_put:
  "holds_slice groupId m n a gc \<Longrightarrow> (b = groupId \<Longrightarrow> slice m n a g) \<Longrightarrow> holds_slice groupId m n a (put_group b g gc)"
  by (auto simp: holds_slice_def)

lemma slice_groupFor: "holds_slice groupId m n a gc \<Longrightarrow> slice m n a (groupFor groupId gc)"
  by (auto simp: holds_slice_def groupFor_def slice_def split: option.splits)

lemma slice_heartbeat:
  assumes "slice m n a g" "map_of (cg_members g) who = Some old"
  shows "slice m n a (g\<lparr>cg_members := set_at who (old\<lparr>gm_lastHeartbeatMs := now\<rparr>) (cg_members g)\<rparr>)"
  by (rule slice_members [OF assms(1)]) (use assms(2) in \<open>auto split: if_splits\<close>)

lemma holds_slice_join:
  assumes "coordinator_ok gc" "holds_slice groupId m n a gc"
  shows "holds_slice groupId m n a (snd (join b memberId clientId subscription protocols timeout now gc))"
proof (cases rule: join_effect [of b memberId clientId subscription protocols timeout now gc])
  case refused
  then show ?thesis using assms(2) holds_slice_put [OF assms(2), of b "groupFor b gc"] slice_groupFor by metis
next
  case joined
  let ?who = "join_id memberId clientId gc"
  let ?g' = "snd (join_group ?who clientId subscription protocols timeout now (groupFor b gc))"
  have issued: "issued (gc_nextMemberId gc) m" using assms(2) by (simp add: holds_slice_def)
  then have "?who = m \<Longrightarrow> map_of (cg_members (groupFor b gc)) m \<noteq> None"
    using joined(2) not_issued_next [OF coordinator_okD(2) [OF assms(1)], of clientId]
    by (auto simp: join_id_def split: if_splits)
  then have "b = groupId \<Longrightarrow> slice m n a ?g'"
    using slice_join slice_groupFor [OF assms(2)] by blast
  then have "holds_slice groupId m n a (put_group b ?g' gc)" by (rule holds_slice_put [OF assms(2)])
  then show ?thesis
    unfolding joined(4) holds_slice_def using issued_mono [OF issued] by (auto simp: put_group_def split: if_splits)
qed

lemma holds_slice_sync:
  assumes "coordinator_ok gc" "holds_slice groupId m n a gc"
  shows "holds_slice groupId m n a (snd (sync b memberId generation assignments now gc))"
proof (cases rule: sync_effect [of b memberId generation assignments now gc])
  case refused
  then show ?thesis using assms(2) by simp
next
  case (touched g old g')
  have "b = groupId \<Longrightarrow> slice m n a g'"
    unfolding touched(5) using assms(2) touched(1,2) by (intro slice_heartbeat) (auto simp: holds_slice_def)
  then show ?thesis unfolding touched(6) by (rule holds_slice_put [OF assms(2)])
next
  case (dealt g old g')
  let ?g = "g\<lparr>cg_members := set_at memberId (old\<lparr>gm_lastHeartbeatMs := now\<rparr>) (cg_members g)\<rparr>"
  have "group_ok ?g" using touch_heartbeat_ok(1) [OF assms(1) dealt(1,2) refl] .
  from deal_assignments_ok [OF this, of assignments]
  have keys: "map fst (cg_members g') = map fst (cg_members ?g)" unfolding dealt(6) by simp
  have "slice m n a g'" if "b = groupId"
  proof -
    have "slice m n a ?g" using assms(2) dealt(1,2) that by (intro slice_heartbeat) (auto simp: holds_slice_def)
    moreover have "map_of (cg_members g') m = Some x \<Longrightarrow> \<exists>y. map_of (cg_members ?g) m = Some y" for x
      using keys map_of_eq_None_iff [of "cg_members g'" m] map_of_eq_None_iff [of "cg_members ?g" m]
      by (metis list.set_map not_None_eq)
    moreover have "cg_generation g' = cg_generation ?g" "cg_state ?g = CompletingRebalance"
      using dealt(4) by (simp_all add: dealt(6))
    ultimately show ?thesis unfolding slice_def by fastforce
  qed
  then show ?thesis unfolding dealt(7) by (rule holds_slice_put [OF assms(2)])
qed

lemma holds_slice_leave:
  assumes "coordinator_ok gc" "holds_slice groupId m n a gc"
  shows "holds_slice groupId m n a (snd (leave b memberId now gc))"
proof (cases rule: leave_effect [of b memberId now gc])
  case (left_group g g')
  have sorted: "keys_sorted (cg_members g)"
    using coordinator_okD(3) [OF assms(1) left_group(1)] by (simp add: entry_ok_def group_ok_def member_table_ok_def)
  have "slice m n a g'" if "b = groupId"
  proof -
    have "slice m n a (g\<lparr>cg_members := erase_at memberId (cg_members g)\<rparr>)"
      using assms(2) left_group(1) that sorted
      by (intro slice_members) (auto simp: holds_slice_def split: if_splits)
    then show ?thesis unfolding left_group(3) by (intro slice_complete slice_begin) simp_all
  qed
  then have "holds_slice groupId m n a (put_group b g' gc)" by (rule holds_slice_put [OF assms(2)])
  moreover have "holds_slice groupId m n a (gc\<lparr>gc_groups := erase_at b (gc_groups gc)\<rparr>)"
    using assms(2) coordinator_okD(1) [OF assms(1)] by (auto simp: holds_slice_def)
  ultimately show ?thesis unfolding left_group(4) by simp
qed (use assms(2) in simp)

lemma map_of_filter_map:
  assumes "keys_sorted xs" "map_of (filter P (map (\<lambda>(k, v). (k, f v)) xs)) k = Some w"
  shows "\<exists>v. map_of xs k = Some v \<and> w = f v"
  using assms by (auto simp: map_of_sorted_mem)

lemma slice_expire:
  assumes "keys_sorted (cg_members g)" "slice m n a g"
  shows "slice m n a (snd (expire_group now g))"
proof -
  let ?g = "g\<lparr>cg_members := filter (\<lambda>(_, m). \<not> lapsed now m) (cg_members g)\<rparr>"
  have "slice m n a ?g"
    using assms(1) by (intro slice_members [OF assms(2)]) (auto simp: map_of_sorted_mem)
  then show ?thesis
    using slice_complete [OF slice_begin] by (simp add: expire_group_def Let_def)
qed

lemma holds_slice_expire:
  assumes "coordinator_ok gc" "holds_slice groupId m n a gc"
  shows "holds_slice groupId m n a (snd (expire now gc))"
proof -
  have "slice m n a g'" if g': "map_of (gc_groups (snd (expire now gc))) groupId = Some g'" for g'
  proof -
    obtain g where g: "map_of (gc_groups gc) groupId = Some g" "g' = snd (expire_group now g)"
      using map_of_filter_map [OF coordinator_okD(1) [OF assms(1)] g' [unfolded expire_groups]] by blast
    then have "keys_sorted (cg_members g)"
      using coordinator_okD(3) [OF assms(1) g(1)] by (simp add: entry_ok_def group_ok_def member_table_ok_def)
    with slice_expire assms(2) g show ?thesis by (simp add: holds_slice_def)
  qed
  with assms(2) show ?thesis by (simp add: holds_slice_def expire_groups(2))
qed

lemma holds_slice_step:
  "gc_step gc gc' \<Longrightarrow> coordinator_ok gc \<Longrightarrow> holds_slice groupId m n a gc \<Longrightarrow> holds_slice groupId m n a gc'"
proof (induction rule: gc_step.induct)
  case (step_heartbeat gc b memberId generation now)
  show ?case
  proof (cases rule: heartbeat_effect [of b memberId generation now gc])
    case (alive g old)
    show ?thesis
      unfolding alive(5) using step_heartbeat alive(1,2)
      by (intro holds_slice_put slice_heartbeat) (auto simp: holds_slice_def)
  qed (use step_heartbeat in simp)
qed (simp_all add: holds_slice_join holds_slice_sync holds_slice_leave holds_slice_expire)

lemma holds_slice_steps:
  "gc_step\<^sup>*\<^sup>* gc gc' \<Longrightarrow> coordinator_ok gc \<Longrightarrow> holds_slice groupId m n a gc \<Longrightarrow> holds_slice groupId m n a gc'"
  by (induction rule: rtranclp_induct) (simp_all add: holds_slice_step gc_steps_ok)

lemma sync_establishes_slice:
  assumes "coordinator_ok gc" "sync groupId m n assignments now gc = (\<lparr>sr_error = EC_None, sr_assignment = a\<rparr>, gc')"
  shows "holds_slice groupId m n a gc'"
proof -
  have next_id: "issued (gc_nextMemberId gc) m" if "map_of (gc_groups gc) groupId = Some g" "map_of (cg_members g) m = Some x" for g x
    using coordinator_okD(3) [OF assms(1) that(1)] that(2) by (auto simp: entry_ok_def member_ids_def dest: map_of_key)
  show ?thesis
  proof (cases rule: sync_effect [of groupId m n assignments now gc])
    case refused
    then show ?thesis using assms(2) by simp
  next
    case (touched g x g')
    have "cg_state g = Stable"
    proof -
      have "cg_members g \<noteq> []" using touched(2) by auto
      then show ?thesis
        using touched(4,7) assms(2) coordinator_okD(3) [OF assms(1) touched(1)]
        by (cases "cg_state g") (auto simp: entry_ok_def group_ok_def)
    qed
    then show ?thesis
      using touched assms(2) next_id [OF touched(1,2)] by (auto simp: holds_slice_def slice_def)
  next
    case (dealt g x g')
    then show ?thesis
      using assms(2) next_id [OF dealt(1,2)] by (auto simp: holds_slice_def slice_def)
  qed
qed

lemma sync_reads_slice:
  assumes "coordinator_ok gc" "holds_slice groupId m n a gc"
    and "sync groupId m n assignments now gc = (\<lparr>sr_error = EC_None, sr_assignment = a'\<rparr>, gc')"
  shows "a' = a"
proof (cases rule: sync_effect [of groupId m n assignments now gc])
  case refused
  then show ?thesis using assms(3) by simp
next
  case (touched g x g')
  then show ?thesis using assms(2,3) by (auto simp: holds_slice_def slice_def split: if_splits)
next
  case (dealt g x g')
  then show ?thesis using assms(2) by (auto simp: holds_slice_def slice_def)
qed

subsection \<open>A rebalance settles\<close>

definition rejoined_ids :: "consumer_group \<Rightarrow> string set" where
  "rejoined_ids g = {k. \<exists>m. map_of (cg_members g) k = Some m \<and> gm_rejoined m}"

lemma all_rejoined_iff:
  assumes "keys_sorted (cg_members g)"
  shows "list_all (\<lambda>(_, m). gm_rejoined m) (cg_members g) \<longleftrightarrow> rejoined_ids g = member_ids g"
proof
  assume "list_all (\<lambda>(_, m). gm_rejoined m) (cg_members g)"
  then show "rejoined_ids g = member_ids g"
    using map_of_sorted_mem [OF assms] by (force simp: rejoined_ids_def member_ids_def list_all_iff)
next
  assume r: "rejoined_ids g = member_ids g"
  have "gm_rejoined m" if m: "(k, m) \<in> set (cg_members g)" for k m
  proof -
    have "k \<in> member_ids g" using m by (force simp: member_ids_def)
    then obtain m' where "map_of (cg_members g) k = Some m'" "gm_rejoined m'"
      unfolding r [symmetric] by (auto simp: rejoined_ids_def)
    moreover have "map_of (cg_members g) k = Some m" using m map_of_sorted_mem [OF assms] by blast
    ultimately show ?thesis by simp
  qed
  then show "list_all (\<lambda>(_, m). gm_rejoined m) (cg_members g)" by (auto simp: list_all_iff)
qed

lemma rejoin_one:
  assumes "group_ok g" "cg_state g = PreparingRebalance" "who \<in> member_ids g"
    and g'_def: "g' = snd (join_group who clientId subscription protocols timeout now g)"
  shows "map fst (cg_members g') = map fst (cg_members g)" "rejoined_ids g' = insert who (rejoined_ids g)"
    "if rejoined_ids g' = member_ids g
     then cg_state g' = CompletingRebalance \<and> cg_generation g' = cg_generation g + 1 \<and>
       cg_leaderId g' = hd (map fst (cg_members g))
     else cg_state g' = PreparingRebalance \<and> cg_generation g' = cg_generation g"
proof (atomize (full), cases rule: join_group_cases [of g who subscription protocols clientId timeout now])
  case (retry m)
  then show "map fst (cg_members g') = map fst (cg_members g) \<and> rejoined_ids g' = insert who (rejoined_ids g) \<and>
    (if rejoined_ids g' = member_ids g
     then cg_state g' = CompletingRebalance \<and> cg_generation g' = cg_generation g + 1 \<and>
       cg_leaderId g' = hd (map fst (cg_members g))
     else cg_state g' = PreparingRebalance \<and> cg_generation g' = cg_generation g)"
    using assms(2) by simp
next
  case (rejoin g1 old member)
  let ?g = "g\<lparr>cg_members := set_at who member (cg_members g)\<rparr>"
  have g1: "g1 = g" using rejoin(1) assms(2) by simp
  have g': "g' = maybeCompleteJoin ?g" unfolding g'_def rejoin(4) g1 ..
  have sorted: "keys_sorted (cg_members g)" using assms(1) by (simp add: group_ok_def member_table_ok_def)
  have keys: "map fst (cg_members g') = map fst (cg_members g)"
    using set_at_keys_same [OF sorted] assms(3) by (simp add: g' member_ids_def)
  then have ids: "member_ids ?g = member_ids g" unfolding member_ids_def g' by (metis list.set_map maybeCompleteJoin_simps(1))
  have "gm_rejoined member" by (simp add: rejoin(3))
  then have r: "rejoined_ids ?g = insert who (rejoined_ids g)"
    by (auto simp: rejoined_ids_def split: if_splits)
  have r': "rejoined_ids g' = rejoined_ids ?g" by (simp add: rejoined_ids_def g')
  have "keys_sorted (cg_members ?g)" using sorted by simp
  note all = all_rejoined_iff [OF this]
  have "hd (map fst (cg_members ?g)) = hd (map fst (cg_members g))" using keys by (simp add: g')
  with all ids r r' assms(2)
  have "if rejoined_ids g' = member_ids g
     then cg_state g' = CompletingRebalance \<and> cg_generation g' = cg_generation g + 1 \<and>
       cg_leaderId g' = hd (map fst (cg_members g))
     else cg_state g' = PreparingRebalance \<and> cg_generation g' = cg_generation g"
    by (simp add: g' maybeCompleteJoin_def hd_map)
  with keys r r' show "map fst (cg_members g') = map fst (cg_members g) \<and> rejoined_ids g' = insert who (rejoined_ids g) \<and>
    (if rejoined_ids g' = member_ids g
     then cg_state g' = CompletingRebalance \<and> cg_generation g' = cg_generation g + 1 \<and>
       cg_leaderId g' = hd (map fst (cg_members g))
     else cg_state g' = PreparingRebalance \<and> cg_generation g' = cg_generation g)"
    by simp
qed

text \<open>What the coordinator remembers of a member's last request to join.\<close>

definition asked :: "string \<Rightarrow> string list \<Rightarrow> string list \<Rightarrow> consumer_group \<Rightarrow> bool" where
  "asked k subscription protocols g \<longleftrightarrow> (\<exists>m. map_of (cg_members g) k = Some m \<and>
     gm_subscription m = subscription \<and> gm_protocols m = protocols \<and> gm_rejoined m)"

lemma rejoin_asked:
  assumes "cg_state g = PreparingRebalance" "g' = snd (join_group who clientId subscription protocols timeout now g)"
  shows "asked who subscription protocols g'" "k \<noteq> who \<Longrightarrow> asked k s p g' = asked k s p g"
proof (atomize (full), cases rule: join_group_cases [of g who subscription protocols clientId timeout now])
  case (rejoin g1 old member)
  then show "asked who subscription protocols g' \<and> (k \<noteq> who \<longrightarrow> asked k s p g' = asked k s p g)"
    unfolding assms(2) rejoin(4) using assms(1) by (simp add: asked_def)
qed (use assms in simp)

text \<open>A round in which the listed members ask to join again, each with its own parameters.\<close>

definition rejoin_all ::
  "string \<Rightarrow> (string \<Rightarrow> string) \<Rightarrow> (string \<Rightarrow> string list) \<Rightarrow> (string \<Rightarrow> string list) \<Rightarrow> (string \<Rightarrow> int) \<Rightarrow> (string \<Rightarrow> int) \<Rightarrow>
    string list \<Rightarrow> group_coordinator \<Rightarrow> group_coordinator" where
  "rejoin_all groupId client subscription protocols timeout now ids gc =
    fold (\<lambda>who gc. snd (join groupId who (client who) (subscription who) (protocols who) (timeout who) (now who) gc)) ids gc"

lemma join_member:
  assumes "coordinator_ok gc" "map_of (gc_groups gc) groupId = Some g" "who \<in> member_ids g"
  shows "map_of (gc_groups (snd (join groupId who clientId subscription protocols timeout now gc))) groupId =
      Some (snd (join_group who clientId subscription protocols timeout now g))"
proof (cases rule: join_effect [of groupId who clientId subscription protocols timeout now gc])
  case refused
  have e: "entry_ok (gc_nextMemberId gc) groupId g" using coordinator_okD(3) [OF assms(1,2)] .
  then have "who \<noteq> []" using assms(3) by (auto simp: entry_ok_def issued_def)
  moreover have "map_of (cg_members g) who \<noteq> None"
    using assms(3) by (simp add: member_ids_def map_of_eq_None_iff)
  ultimately show ?thesis
    using e assms(2) by (auto simp: join_def groupFor_def entry_ok_def Let_def case_prod_unfold)
next
  case joined
  have "who \<noteq> []"
    using coordinator_okD(3) [OF assms(1,2)] assms(3) by (auto simp: entry_ok_def issued_def)
  then show ?thesis using assms(2) by (simp add: joined(4) join_id_def groupFor_def)
qed

lemma rejoin_all_settles:
  assumes "coordinator_ok gc" "map_of (gc_groups gc) groupId = Some g" "cg_state g = PreparingRebalance"
    and "distinct ids" "ids \<noteq> []" "set ids \<union> rejoined_ids g = member_ids g" "set ids \<inter> rejoined_ids g = {}"
  shows "\<exists>g'. map_of (gc_groups (rejoin_all groupId client subscription protocols timeout now ids gc)) groupId = Some g' \<and>
    cg_state g' = CompletingRebalance \<and> cg_generation g' = cg_generation g + 1 \<and>
    cg_leaderId g' = hd (map fst (cg_members g)) \<and> map fst (cg_members g') = map fst (cg_members g) \<and>
    (\<forall>k. asked k (subscription k) (protocols k) g' \<longleftrightarrow> k \<in> set ids \<or> asked k (subscription k) (protocols k) g) \<and>
    coordinator_ok (rejoin_all groupId client subscription protocols timeout now ids gc)"
  using assms
proof (induction ids arbitrary: gc g)
  case (Cons who ids)
  let ?gc = "snd (join groupId who (client who) (subscription who) (protocols who) (timeout who) (now who) gc)"
  let ?g = "snd (join_group who (client who) (subscription who) (protocols who) (timeout who) (now who) g)"
  have g: "group_ok g" using coordinator_okD(3) [OF Cons.prems(1,2)] by (simp add: entry_ok_def)
  have who: "who \<in> member_ids g" using Cons.prems(6) by auto
  note one = rejoin_one [OF g Cons.prems(3) who refl, of "client who" "subscription who" "protocols who" "timeout who" "now who"]
  have ok: "coordinator_ok ?gc" by (rule join_ok [OF Cons.prems(1)])
  have found: "map_of (gc_groups ?gc) groupId = Some ?g" by (rule join_member [OF Cons.prems(1,2) who])
  have ids: "member_ids ?g = member_ids g" using one(1) unfolding member_ids_def by (metis list.set_map)
  have asked: "asked k (subscription k) (protocols k) ?g \<longleftrightarrow> k = who \<or> asked k (subscription k) (protocols k) g" for k
  proof (cases "k = who")
    case True
    show ?thesis unfolding True using rejoin_asked(1) [OF Cons.prems(3) refl] by simp
  next
    case False
    then show ?thesis using rejoin_asked(2) [OF Cons.prems(3) refl False] by simp
  qed
  have step: "rejoin_all groupId client subscription protocols timeout now (who # ids) gc =
      rejoin_all groupId client subscription protocols timeout now ids ?gc"
    by (simp add: rejoin_all_def)
  show ?case
  proof (cases "ids = []")
    case True
    then have "rejoined_ids ?g = member_ids g" using one(2) Cons.prems(6) by simp
    with one(3) have "cg_state ?g = CompletingRebalance \<and> cg_generation ?g = cg_generation g + 1 \<and>
        cg_leaderId ?g = hd (map fst (cg_members g))"
      by (simp only: if_True)
    with one(1) found ok asked show ?thesis
      unfolding step by (simp only: True rejoin_all_def fold_simps id_apply) simp
  next
    case False
    have sub: "set ids \<union> rejoined_ids ?g = member_ids ?g" "set ids \<inter> rejoined_ids ?g = {}"
      using Cons.prems(4,6,7) ids one(2) by auto
    have "hd ids \<in> set ids" using False by simp
    with sub ids have "rejoined_ids ?g \<noteq> member_ids g" by blast
    with one(3) have "cg_state ?g = PreparingRebalance" "cg_generation ?g = cg_generation g"
      by (simp_all only: if_False)
    with Cons.IH [OF ok found _ _ False sub] Cons.prems(4) one(1) asked show ?thesis unfolding step by auto
  qed
qed simp

lemma map_of_deal:
  "map_of (deal_assignments as ms) k = map_option (\<lambda>m. case map_of (rev as) k of
     None \<Rightarrow> m | Some bytes \<Rightarrow> m\<lparr>gm_assignment := bytes\<rparr>) (map_of ms k)"
proof (induction as arbitrary: ms)
  case Nil
  show ?case by (simp add: deal_assignments_def option.map_ident)
next
  case (Cons a as)
  obtain who bytes where a: "a = (who, bytes)" by (cases a)
  show ?case
    by (cases "map_of ms who"; cases "map_of ms k")
      (auto simp: a deal_assignments_Cons Cons.IH map_add_def split: option.split)
qed

lemma sync_round:
  assumes "coordinator_ok gc" "map_of (gc_groups gc) groupId = Some g" "cg_state g = CompletingRebalance"
    and "distinct (map fst assignments)"
    and gc'_def: "gc' = snd (sync groupId (cg_leaderId g) (cg_generation g) assignments now gc)"
  shows "stateOf groupId gc' = Stable"
    "k \<in> member_ids g \<Longrightarrow> map_of assignments k = Some bytes \<Longrightarrow>
       fst (sync groupId k (cg_generation g) any later gc') = \<lparr>sr_error = EC_None, sr_assignment = bytes\<rparr>"
proof -
  have ok: "settled_ok g"
    using coordinator_okD(3) [OF assms(1,2)] assms(3) by (simp add: entry_ok_def group_ok_def)
  then have "cg_leaderId g \<in> fst ` set (cg_members g)"
    by (cases "cg_members g") (auto simp: settled_ok_def)
  then obtain leader where leader: "map_of (cg_members g) (cg_leaderId g) = Some leader"
    by (metis domD domIff map_of_eq_None_iff)
  let ?ms = "deal_assignments assignments (set_at (cg_leaderId g) (leader\<lparr>gm_lastHeartbeatMs := now\<rparr>) (cg_members g))"
  have gc': "gc' = put_group groupId (g\<lparr>cg_members := ?ms, cg_state := Stable\<rparr>) gc"
    unfolding gc'_def using assms(2,3) leader by (simp add: sync_def Let_def)
  then show "stateOf groupId gc' = Stable" by (simp add: stateOf_def)
  assume k: "k \<in> member_ids g" "map_of assignments k = Some bytes"
  obtain m where m: "map_of (cg_members g) k = Some m"
    using k(1) by (metis domD domIff map_of_eq_None_iff member_ids_def)
  have "map_of (rev assignments) k = Some bytes" using assms(4) k(2) by (simp add: map_of_rev_distinct)
  then have "\<exists>m. map_of ?ms k = Some m \<and> gm_assignment m = bytes" using m by (auto simp: map_of_deal)
  then show "fst (sync groupId k (cg_generation g) any later gc') = \<lparr>sr_error = EC_None, sr_assignment = bytes\<rparr>"
    unfolding gc' by (auto simp: sync_def Let_def)
qed

subsection \<open>Retries\<close>

lemma join_retry:
  assumes "coordinator_ok gc" "map_of (gc_groups gc) groupId = Some g" "cg_state g = CompletingRebalance"
    and "asked k subscription protocols g"
    and result_def: "(result, gc') = join groupId k clientId subscription protocols timeout now gc"
  shows "jr_error result = EC_None" "jr_generation result = cg_generation g" "jr_leaderId result = cg_leaderId g"
    "stateOf groupId gc' = CompletingRebalance"
proof -
  obtain m where m: "map_of (cg_members g) k = Some m" "gm_subscription m = subscription" "gm_protocols m = protocols"
      "gm_rejoined m"
    using assms(4) by (auto simp: asked_def)
  have e: "groupId \<noteq> []" "k \<noteq> []"
    using coordinator_okD(3) [OF assms(1,2)] map_of_key [OF m(1)] by (auto simp: entry_ok_def member_ids_def issued_def)
  let ?g = "g\<lparr>cg_members := set_at k (m\<lparr>gm_lastHeartbeatMs := now\<rparr>) (cg_members g)\<rparr>"
  have "join_group k clientId subscription protocols timeout now g = (resultFor ?g k, ?g)"
    using m assms(3) by (simp add: join_group_def Let_def)
  then have "result = resultFor ?g k" "map_of (gc_groups gc') groupId = Some ?g"
    using result_def e m(1) assms(2) by (simp_all add: join_def groupFor_def Let_def)
  then show "jr_error result = EC_None" "jr_generation result = cg_generation g" "jr_leaderId result = cg_leaderId g"
    "stateOf groupId gc' = CompletingRebalance"
    using assms(3) by (simp_all add: resultFor_def stateOf_def)
qed

subsection \<open>Properties\<close>

text \<open>C21. Whatever the clients ask and however the requests interleave with the expiry sweep, the
coordinator's table is well formed: group and member ids are distinct and filed in order, no
member belongs to two groups, a settled group is led by its first member and speaks a protocol
all of its members support, and an empty group has no members.\<close>

theorem coordinator_invariant:
  assumes "gc_reach gc" "map_of (gc_groups gc) groupId = Some g"
  shows "keys_sorted (gc_groups gc) \<and>
    groupId \<noteq> [] \<and>
    keys_sorted (cg_members g) \<and>
    (\<forall>other h. map_of (gc_groups gc) other = Some h \<longrightarrow> other \<noteq> groupId \<longrightarrow> member_ids g \<inter> member_ids h = {}) \<and>
    (cg_state g = GroupEmpty \<longrightarrow> cg_members g = []) \<and>
    (cg_state g = PreparingRebalance \<longrightarrow> rejoined_ids g \<noteq> member_ids g) \<and>
    (cg_state g = CompletingRebalance \<or> cg_state g = Stable \<longrightarrow>
       cg_members g \<noteq> [] \<and> cg_leaderId g = hd (map fst (cg_members g)) \<and> 1 \<le> cg_generation g \<and>
       (cg_protocolName g = [] \<or> list_all (\<lambda>(_, m). cg_protocolName g \<in> set (gm_protocols m)) (cg_members g)))"
proof (intro conjI)
  have ok: "coordinator_ok gc" by (rule gc_reach_ok [OF assms(1)])
  then have e: "entry_ok (gc_nextMemberId gc) groupId g" by (rule coordinator_okD(3) [OF _ assms(2)])
  then have g: "group_ok g" "keys_sorted (cg_members g)" by (simp_all add: entry_ok_def group_ok_def member_table_ok_def)
  show "keys_sorted (gc_groups gc)" using ok by (rule coordinator_okD(1))
  show "groupId \<noteq> []" using e by (simp add: entry_ok_def)
  show "keys_sorted (cg_members g)" by (rule g(2))
  show "\<forall>other h. map_of (gc_groups gc) other = Some h \<longrightarrow> other \<noteq> groupId \<longrightarrow> member_ids g \<inter> member_ids h = {}"
    using ok assms(2) unfolding coordinator_ok_def by (metis map_of_SomeD)
  show "cg_state g = GroupEmpty \<longrightarrow> cg_members g = []" using g(1) by (auto simp: group_ok_def)
  show "cg_state g = PreparingRebalance \<longrightarrow> rejoined_ids g \<noteq> member_ids g"
    using g all_rejoined_iff [OF g(2)] by (auto simp: group_ok_def)
  show "cg_state g = CompletingRebalance \<or> cg_state g = Stable \<longrightarrow>
       cg_members g \<noteq> [] \<and> cg_leaderId g = hd (map fst (cg_members g)) \<and> 1 \<le> cg_generation g \<and>
       (cg_protocolName g = [] \<or> list_all (\<lambda>(_, m). cg_protocolName g \<in> set (gm_protocols m)) (cg_members g))"
    using g(1) by (auto simp: group_ok_def settled_ok_def)
qed

text \<open>C22. Fencing: within one generation a member is never told two different assignments. If a sync
succeeds, every later successful sync of the same member with the same generation returns the same
bytes, whatever happened to the group in between.\<close>

theorem one_assignment_per_generation:
  assumes "gc_reach gc" "sync groupId m n assignments now gc = (\<lparr>sr_error = EC_None, sr_assignment = a\<rparr>, gc1)"
    and "gc_step\<^sup>*\<^sup>* gc1 gc2"
    and "sync groupId m n assignments' now' gc2 = (\<lparr>sr_error = EC_None, sr_assignment = a'\<rparr>, gc3)"
  shows "a' = a"
proof -
  have ok: "coordinator_ok gc1"
    using sync_ok [OF gc_reach_ok [OF assms(1)], of groupId m n assignments now] by (simp add: assms(2))
  have "holds_slice groupId m n a gc1" by (rule sync_establishes_slice [OF gc_reach_ok [OF assms(1)] assms(2)])
  then show ?thesis
    using sync_reads_slice [OF gc_steps_ok [OF assms(3) ok] holds_slice_steps [OF assms(3) ok] assms(4)] by blast
qed

text \<open>C23. A rebalance settles: once every member that has not yet rejoined asks to join, in whatever
order, the group is completing with the next generation and led by its first member; each of them
learns the generation by repeating its request, which disturbs nothing; and one sync of the leader
makes the group stable and hands every member it names exactly the bytes it gave for it.\<close>

theorem rebalance_settles:
  assumes "gc_reach gc" "map_of (gc_groups gc) groupId = Some g" "cg_state g = PreparingRebalance"
    and "distinct ids" "set ids = member_ids g - rejoined_ids g"
    and "gc1 = rejoin_all groupId client subscription protocols timeout now ids gc"
    and "leader = hd (map fst (cg_members g))" "generation = cg_generation g + 1"
    and "distinct (map fst assignments)"
    and "gc2 = snd (sync groupId leader generation assignments at gc1)"
  shows "stateOf groupId gc1 = CompletingRebalance \<and>
    (\<forall>k \<in> set ids. \<exists>result gc'. join groupId k (client k) (subscription k) (protocols k) (timeout k) at gc1 = (result, gc') \<and>
       jr_error result = EC_None \<and> jr_generation result = generation \<and> jr_leaderId result = leader \<and>
       stateOf groupId gc' = CompletingRebalance) \<and>
    stateOf groupId gc2 = Stable \<and>
    (\<forall>k \<in> member_ids g. \<forall>bytes. map_of assignments k = Some bytes \<longrightarrow>
       fst (sync groupId k generation any later gc2) = \<lparr>sr_error = EC_None, sr_assignment = bytes\<rparr>)"
proof (intro conjI)
  have ok: "coordinator_ok gc" by (rule gc_reach_ok [OF assms(1)])
  have g: "group_ok g" "keys_sorted (cg_members g)"
    using coordinator_okD(3) [OF ok assms(2)] by (simp_all add: entry_ok_def group_ok_def member_table_ok_def)
  have sub: "rejoined_ids g \<subseteq> member_ids g"
    by (auto simp: rejoined_ids_def member_ids_def dest: map_of_key)
  have "rejoined_ids g \<noteq> member_ids g" using g(1) assms(3) all_rejoined_iff [OF g(2)] by (simp add: group_ok_def)
  with sub assms(5) have ids: "ids \<noteq> []" "set ids \<union> rejoined_ids g = member_ids g" "set ids \<inter> rejoined_ids g = {}" by auto
  obtain g' where g': "map_of (gc_groups gc1) groupId = Some g'" "cg_state g' = CompletingRebalance"
      "cg_generation g' = generation" "cg_leaderId g' = leader" "map fst (cg_members g') = map fst (cg_members g)"
      "\<And>k. k \<in> set ids \<Longrightarrow> asked k (subscription k) (protocols k) g'" "coordinator_ok gc1"
    using rejoin_all_settles [OF ok assms(2,3,4) ids, of client subscription protocols timeout now]
    by (auto simp: assms(6,7,8))
  have members: "member_ids g' = member_ids g" using g'(5) unfolding member_ids_def by (metis list.set_map)
  show "stateOf groupId gc1 = CompletingRebalance" using g'(1,2) by (simp add: stateOf_def)
  show "\<forall>k \<in> set ids. \<exists>result gc'. join groupId k (client k) (subscription k) (protocols k) (timeout k) at gc1 = (result, gc') \<and>
       jr_error result = EC_None \<and> jr_generation result = generation \<and> jr_leaderId result = leader \<and>
       stateOf groupId gc' = CompletingRebalance"
    using join_retry [OF g'(7,1,2) g'(6)] g'(3,4) by (metis surj_pair)
  have "gc2 = snd (sync groupId (cg_leaderId g') (cg_generation g') assignments at gc1)"
    using g'(3,4) assms(10) by simp
  note round = sync_round [OF g'(7,1,2) assms(9) this]
  show "\<forall>k \<in> member_ids g. \<forall>bytes. map_of assignments k = Some bytes \<longrightarrow>
       fst (sync groupId k generation any later gc2) = \<lparr>sr_error = EC_None, sr_assignment = bytes\<rparr>"
    using round(2) members g'(3) by blast
  show "stateOf groupId gc2 = Stable" by (rule round(1))
qed

text \<open>The first member of a fresh coordinator completes the first round alone.\<close>

lemma join_first:
  assumes "groupId \<noteq> []" "(result, gc) = join groupId [] clientId subscription protocols timeout now GroupCoordinator"
  defines "who \<equiv> clientId @ ''-'' @ to_string 1"
  shows "jr_memberId result = who" "jr_generation result = 1" "gc_nextMemberId gc = 2"
    "\<exists>m. gc_groups gc = [(groupId, \<lparr>cg_id = groupId, cg_state = CompletingRebalance, cg_generation = 1,
       cg_leaderId = who, cg_protocolName = agreed_protocol [(who, m)], cg_members = [(who, m)]\<rparr>)] \<and>
       gm_protocols m = protocols"
  using assms(1,2)
  by (simp_all add: who_def join_def GroupCoordinator_def groupFor_def put_group_def join_group_def Let_def
      beginRebalance_def maybeCompleteJoin_def resultFor_def)

text \<open>C24. Member ids and generations do not survive the broker: two clients of the same name, one
from before a restart and one from after it, are given the same member id and the same generation,
so a zombie from before the restart keeps the other's membership alive and its assignment passes
for the leader's.\<close>

theorem restart_reissues_identity:
  assumes "groupId \<noteq> []"
    and "(before, gc1) = join groupId [] clientId subscription protocols timeout now GroupCoordinator"
    and "(after, gc2) = join groupId [] clientId subscription' protocols' timeout' now' GroupCoordinator"
  shows "jr_memberId after = jr_memberId before \<and>
    jr_generation after = jr_generation before \<and>
    fst (heartbeat groupId (jr_memberId before) (jr_generation before) t gc2) = EC_None \<and>
    (map_of assignments (jr_memberId before) = Some bytes \<longrightarrow> distinct (map fst assignments) \<longrightarrow>
      fst (sync groupId (jr_memberId before) (jr_generation before) assignments t gc2) =
        \<lparr>sr_error = EC_None, sr_assignment = bytes\<rparr>)"
proof (intro conjI impI)
  note b = join_first [OF assms(1,2)] and a = join_first [OF assms(1,3)]
  show "jr_memberId after = jr_memberId before" "jr_generation after = jr_generation before"
    using a(1,2) b(1,2) by simp_all
  obtain m where m: "gc_groups gc2 = [(groupId, \<lparr>cg_id = groupId, cg_state = CompletingRebalance, cg_generation = 1,
       cg_leaderId = jr_memberId before, cg_protocolName = agreed_protocol [(jr_memberId before, m)],
       cg_members = [(jr_memberId before, m)]\<rparr>)]"
    using a(4) b(1) by auto
  show "fst (heartbeat groupId (jr_memberId before) (jr_generation before) t gc2) = EC_None"
    by (simp add: heartbeat_def m b(2))
  assume "map_of assignments (jr_memberId before) = Some bytes" "distinct (map fst assignments)"
  then show "fst (sync groupId (jr_memberId before) (jr_generation before) assignments t gc2) =
        \<lparr>sr_error = EC_None, sr_assignment = bytes\<rparr>"
    by (simp add: sync_def m b(2) Let_def map_of_deal map_of_rev_distinct)
qed

subsection \<open>Witnesses\<close>

text \<open>One consumer has joined; then a second one has, so the first is to join again.\<close>

definition demo_joined :: group_coordinator where
  "demo_joined = snd (join ''g'' [] ''c'' [''t''] [''range''] 0 0 GroupCoordinator)"

definition demo_rebalancing :: group_coordinator where
  "demo_rebalancing = snd (join ''g'' [] ''d'' [''t''] [''range''] 0 5 demo_joined)"

lemma demo_reach: "gc_reach demo_joined" "gc_reach demo_rebalancing"
proof -
  show "gc_reach demo_joined"
    unfolding gc_reach_def demo_joined_def by (rule r_into_rtranclp) (rule step_join)
  then show "gc_reach demo_rebalancing"
    unfolding gc_reach_def demo_rebalancing_def by (rule rtranclp.rtrancl_into_rtrancl) (rule step_join)
qed

definition demo_member :: "string \<Rightarrow> string \<Rightarrow> int \<Rightarrow> bool \<Rightarrow> group_member" where
  "demo_member k clientId now r = \<lparr>gm_memberId = k, gm_clientId = clientId, gm_subscription = [''t''],
     gm_protocols = [''range''], gm_assignment = [], gm_sessionTimeoutMs = 10000, gm_lastHeartbeatMs = now,
     gm_rejoined = r\<rparr>"

definition demo_group :: "group_state \<Rightarrow> (string \<times> group_member) list \<Rightarrow> consumer_group" where
  "demo_group s ms = \<lparr>cg_id = ''g'', cg_state = s, cg_generation = 1, cg_leaderId = ''c-1'',
     cg_protocolName = ''range'', cg_members = ms\<rparr>"

lemma demo_groups:
  "map_of (gc_groups demo_joined) ''g'' = Some (demo_group CompletingRebalance [(''c-1'', demo_member ''c-1'' ''c'' 0 True)])"
  "map_of (gc_groups demo_rebalancing) ''g'' = Some (demo_group PreparingRebalance
     [(''c-1'', demo_member ''c-1'' ''c'' 0 False), (''d-2'', demo_member ''d-2'' ''d'' 5 True)])"
  by code_simp+

lemma coordinator_invariant_witness:
  "\<exists>g. map_of (gc_groups demo_joined) ''g'' = Some g \<and> cg_state g = CompletingRebalance \<and> 1 \<le> cg_generation g \<and>
     cg_leaderId g = hd (map fst (cg_members g))"
  using coordinator_invariant [OF demo_reach(1) demo_groups(1)] demo_groups(1)
  by (simp add: demo_group_def)

definition demo_synced :: group_coordinator where
  "demo_synced = snd (sync ''g'' ''c-1'' 1 [(''c-1'', [7])] 1 demo_joined)"

definition demo_beaten :: group_coordinator where
  "demo_beaten = snd (heartbeat ''g'' ''c-1'' 1 2 demo_synced)"

lemma one_assignment_per_generation_witness:
  "\<exists>a gc3. sync ''g'' ''c-1'' 1 [(''c-1'', [9])] 3 demo_beaten = (\<lparr>sr_error = EC_None, sr_assignment = a\<rparr>, gc3) \<and> a = [7]"
proof -
  have "fst (sync ''g'' ''c-1'' 1 [(''c-1'', [7])] 1 demo_joined) = \<lparr>sr_error = EC_None, sr_assignment = [7]\<rparr>"
    by code_simp
  then have first: "sync ''g'' ''c-1'' 1 [(''c-1'', [7])] 1 demo_joined = (\<lparr>sr_error = EC_None, sr_assignment = [7]\<rparr>, demo_synced)"
    by (simp add: demo_synced_def prod_eq_iff)
  have steps: "gc_step\<^sup>*\<^sup>* demo_synced demo_beaten"
    unfolding demo_beaten_def by (rule r_into_rtranclp) (rule step_heartbeat)
  have "sr_error (fst (sync ''g'' ''c-1'' 1 [(''c-1'', [9])] 3 demo_beaten)) = EC_None" by code_simp
  then obtain a gc3 where again:
      "sync ''g'' ''c-1'' 1 [(''c-1'', [9])] 3 demo_beaten = (\<lparr>sr_error = EC_None, sr_assignment = a\<rparr>, gc3)"
    by (cases "sync ''g'' ''c-1'' 1 [(''c-1'', [9])] 3 demo_beaten") (metis fst_conv old.unit.exhaust sync_result.surjective)
  from one_assignment_per_generation [OF demo_reach(1) first steps again] again show ?thesis by blast
qed

lemma rebalance_settles_witness:
  "stateOf ''g'' demo_rebalancing = PreparingRebalance \<and>
   (let gc1 = rejoin_all ''g'' (\<lambda>_. ''c'') (\<lambda>_. [''t'']) (\<lambda>_. [''range'']) (\<lambda>_. 0) (\<lambda>_. 6) [''c-1''] demo_rebalancing in
    stateOf ''g'' gc1 = CompletingRebalance \<and>
    stateOf ''g'' (snd (sync ''g'' ''c-1'' 2 [(''d-2'', [8])] 7 gc1)) = Stable)"
proof -
  let ?g = "demo_group PreparingRebalance [(''c-1'', demo_member ''c-1'' ''c'' 0 False), (''d-2'', demo_member ''d-2'' ''d'' 5 True)]"
  have s: "cg_state ?g = PreparingRebalance" "set [''c-1''] = member_ids ?g - rejoined_ids ?g"
    "''c-1'' = hd (map fst (cg_members ?g))" "2 = cg_generation ?g + 1"
    by (auto simp: demo_group_def demo_member_def member_ids_def rejoined_ids_def)
  note r = rebalance_settles [OF demo_reach(2) demo_groups(2) s(1) _ s(2) refl s(3,4) _ refl]
  show ?thesis
    unfolding Let_def using r [of "[(''d-2'', [8])]"] demo_groups(2) s(1) by (simp add: stateOf_def)
qed

lemma restart_reissues_identity_witness:
  "\<exists>result gc. (result, gc) = join ''g'' [] ''c'' [''t''] [''range''] 0 0 GroupCoordinator \<and>
     fst (heartbeat ''g'' (jr_memberId result) (jr_generation result) 9
       (snd (join ''g'' [] ''c'' [''u''] [''range''] 0 8 GroupCoordinator))) = EC_None"
proof -
  obtain r1 gc1 where 1: "(r1, gc1) = join ''g'' [] ''c'' [''t''] [''range''] 0 0 GroupCoordinator" by (metis surj_pair)
  obtain r2 gc2 where 2: "(r2, gc2) = join ''g'' [] ''c'' [''u''] [''range''] 0 8 GroupCoordinator" by (metis surj_pair)
  from restart_reissues_identity [OF _ 1 2, where t = 9] 1 show ?thesis by (auto simp flip: 2)
qed

end
