(* ===== verification/Group_Consumer.thy ===== *)
theory Group_Consumer
  imports Client Assignor Group_Rebalance Broker_Positions
begin

text \<open>
  \<^verbatim>\<open>cli/group_consumer.cpp\<close>: a member of a consumer group, from the client's side. The link is the
  client it holds and the wait between two attempts.
\<close>

record group_consumer =
  gcn_groupId :: string
  gcn_topics :: "string list"
  gcn_strategy :: string
  gcn_sessionTimeoutMs :: int
  gcn_memberId :: string
  gcn_generation :: int
  gcn_isLeader :: bool
  gcn_assignment :: "topic_partition list"

definition GroupConsumer :: "string \<Rightarrow> string list \<Rightarrow> string \<Rightarrow> int \<Rightarrow> group_consumer" where
  "GroupConsumer groupId topics strategy sessionTimeoutMs =
    \<lparr>gcn_groupId = groupId, gcn_topics = topics, gcn_strategy = strategy, gcn_sessionTimeoutMs = sessionTimeoutMs,
     gcn_memberId = [], gcn_generation = - 1, gcn_isLeader = False, gcn_assignment = []\<rparr>"

definition kMaxRounds :: nat where
  "kMaxRounds = 50"

definition forgetIfExpired :: "error_code \<Rightarrow> group_consumer \<Rightarrow> group_consumer" where
  "forgetIfExpired e gc = (if e = EC_UnknownMemberId then gc\<lparr>gcn_memberId := []\<rparr> else gc)"

subsection \<open>Sharing out\<close>

definition leader_input :: "member_info list \<Rightarrow> topic_metadata list \<Rightarrow> assignment_input" where
  "leader_input members described =
    \<lparr>ai_members = fold (\<lambda>m. set_at (mi_memberId m) (mi_subscription m)) members [],
     ai_partitionCounts = fold (\<lambda>t counts. if tm_error t = EC_None
       then set_at (tm_name t) (to_i32 (int (length (tm_partitions t)))) counts else counts) described []\<rparr>"

definition share_out :: "string \<Rightarrow> assignment_input \<Rightarrow> assignment" where
  "share_out strategy input = (if strategy = ''roundrobin'' then assignRoundRobin input else assignRange input)"

fun encode_all :: "assignment \<Rightarrow> (string \<times> byte list) list result" where
  "encode_all [] = Inr []"
| "encode_all ((m, tps) # a) = bind_r (encodeAssignment tps) (\<lambda>bytes. bind_r (encode_all a) (\<lambda>bs. Inr ((m, bytes) # bs)))"

definition syncAsLeader :: "'s link \<Rightarrow> member_info list \<Rightarrow> group_consumer \<times> 's \<Rightarrow>
    (topic_partition list option \<times> group_consumer \<times> 's) outcome" where
  "syncAsLeader link members = (\<lambda>(gc, s).
    then_do (ask link Metadata encodeMetadataRequest decodeMetadataResponse \<lparr>mq_allTopics = False, mq_topics = gcn_topics gc\<rparr> s) (\<lambda>(described, s).
    then_do (of_result (encode_all (share_out (gcn_strategy gc) (leader_input members (mp_topics described))))) (\<lambda>assignments.
    then_do (ask link SyncGroup encodeSyncGroupRequest decodeSyncGroupResponse
        \<lparr>sgq_groupId = gcn_groupId gc, sgq_generation = gcn_generation gc, sgq_memberId = gcn_memberId gc, sgq_assignments = assignments\<rparr> s) (\<lambda>(result, s).
      if sgp_error result \<noteq> EC_None then Done (None, forgetIfExpired (sgp_error result) gc, s)
      else then_do (of_result (decodeAssignment (sgp_assignment result))) (\<lambda>assigned. Done (Some assigned, gc, s))))))"

subsection \<open>Joining\<close>

text \<open>A follower asks for its slice; none when it has to rejoin from the top.\<close>

fun follow :: "'s link \<Rightarrow> nat \<Rightarrow> group_consumer \<times> 's \<Rightarrow> (topic_partition list option \<times> group_consumer \<times> 's) outcome" where
  "follow link 0 (gc, s) = Done (None, gc, s)"
| "follow link (Suc n) (gc, s) =
    then_do (ask link SyncGroup encodeSyncGroupRequest decodeSyncGroupResponse
        \<lparr>sgq_groupId = gcn_groupId gc, sgq_generation = gcn_generation gc, sgq_memberId = gcn_memberId gc, sgq_assignments = []\<rparr> s) (\<lambda>(result, s).
      if sgp_error result = EC_RebalanceInProgress then follow link n (gc, lk_pause link s)
      else if sgp_error result \<noteq> EC_None then Done (None, forgetIfExpired (sgp_error result) gc, s)
      else then_do (of_result (decodeAssignment (sgp_assignment result))) (\<lambda>assigned.
        Done (Some assigned, gc\<lparr>gcn_assignment := assigned\<rparr>, s)))"

definition join_request :: "group_consumer \<Rightarrow> join_group_request" where
  "join_request gc = \<lparr>jgq_groupId = gcn_groupId gc, jgq_sessionTimeoutMs = gcn_sessionTimeoutMs gc,
     jgq_memberId = gcn_memberId gc, jgq_subscription = gcn_topics gc, jgq_protocols = [gcn_strategy gc]\<rparr>"

fun join_rounds :: "'s link \<Rightarrow> nat \<Rightarrow> group_consumer \<times> 's \<Rightarrow> (topic_partition list \<times> group_consumer \<times> 's) outcome" where
  "join_rounds link 0 (gc, s) = Raised Error"
| "join_rounds link (Suc n) (gc, s) =
    then_do (ask link JoinGroup encodeJoinGroupRequest decodeJoinGroupResponse (join_request gc) s) (\<lambda>(joined, s).
      let gc = (if jgp_memberId joined \<noteq> [] then gc\<lparr>gcn_memberId := jgp_memberId joined\<rparr> else gc) in
      if jgp_error joined = EC_RebalanceInProgress then join_rounds link n (gc, lk_pause link s)
      else if jgp_error joined = EC_UnknownMemberId then join_rounds link n (forgetIfExpired (jgp_error joined) gc, s)
      else if jgp_error joined \<noteq> EC_None then Raised Error
      else let gc = gc\<lparr>gcn_generation := jgp_generation joined, gcn_isLeader := (jgp_memberId joined = jgp_leaderId joined)\<rparr> in
        if gcn_isLeader gc
        then then_do (syncAsLeader link (jgp_members joined) (gc, s)) (\<lambda>(assigned, gc, s). case assigned of
            Some tps \<Rightarrow> Done (tps, gc\<lparr>gcn_assignment := tps\<rparr>, s)
          | None \<Rightarrow> join_rounds link n (gc, lk_pause link s))
        else then_do (follow link kMaxRounds (gc, s)) (\<lambda>(assigned, gc, s). case assigned of
            Some tps \<Rightarrow> Done (tps, gc, s)
          | None \<Rightarrow> join_rounds link n (gc, s)))"

definition consumer_join :: "'s link \<Rightarrow> group_consumer \<times> 's \<Rightarrow> (topic_partition list \<times> group_consumer \<times> 's) outcome" where
  "consumer_join link = join_rounds link kMaxRounds"

subsection \<open>Staying a member\<close>

definition consumer_heartbeat :: "'s link \<Rightarrow> group_consumer \<times> 's \<Rightarrow> (bool \<times> group_consumer \<times> 's) outcome" where
  "consumer_heartbeat link = (\<lambda>(gc, s).
    then_do (ask link Heartbeat encodeHeartbeatRequest decodeHeartbeatResponse
        \<lparr>hbq_groupId = gcn_groupId gc, hbq_generation = gcn_generation gc, hbq_memberId = gcn_memberId gc\<rparr> s) (\<lambda>(response, s).
      Done (hbp_error response = EC_None, gc, s)))"

definition ensureJoined :: "'s link \<Rightarrow> group_consumer \<times> 's \<Rightarrow> (topic_partition list \<times> group_consumer \<times> 's) outcome" where
  "ensureJoined link = (\<lambda>(gc, s).
    then_do (if gcn_generation gc < 0 then Done (False, gc, s) else consumer_heartbeat link (gc, s)) (\<lambda>(member, gc, s).
      then_do (if member then Done ([], gc, s) else consumer_join link (gc, s)) (\<lambda>(_, gc, s).
        Done (gcn_assignment gc, gc, s))))"

fun at_0 :: "'a list \<Rightarrow> 'a outcome" where
  "at_0 [] = Uncaught"
| "at_0 (x # xs) = Done x"

definition commit_request :: "group_consumer \<Rightarrow> topic_partition \<Rightarrow> int \<Rightarrow> offset_commit_request" where
  "commit_request gc tp nextOffset = \<lparr>ocq_groupId = gcn_groupId gc, ocq_generation = gcn_generation gc, ocq_memberId = gcn_memberId gc,
     ocq_topics = [\<lparr>cqt_name = tp_topic tp, cqt_partitions = [\<lparr>cqp_partition = tp_partition tp, cqp_nextOffset = nextOffset, cqp_metadata = []\<rparr>]\<rparr>]\<rparr>"

definition consumer_commit :: "'s link \<Rightarrow> topic_partition \<Rightarrow> int \<Rightarrow> group_consumer \<times> 's \<Rightarrow> (unit \<times> group_consumer \<times> 's) outcome" where
  "consumer_commit link tp nextOffset = (\<lambda>(gc, s).
    then_do (ask link OffsetCommit encodeOffsetCommitRequest decodeOffsetCommitResponse (commit_request gc tp nextOffset) s) (\<lambda>(response, s).
    then_do (at_0 (ocp_topics response)) (\<lambda>topic.
    then_do (at_0 (cpt_partitions topic)) (\<lambda>partition.
      if cpp_error partition \<noteq> EC_None then Raised Error else Done ((), gc, s)))))"

definition position_request :: "group_consumer \<Rightarrow> topic_partition \<Rightarrow> offset_fetch_request" where
  "position_request gc tp = \<lparr>ofq_groupId = gcn_groupId gc, ofq_topics = [\<lparr>fot_name = tp_topic tp, fot_partitions = [tp_partition tp]\<rparr>]\<rparr>"

definition committed :: "'s link \<Rightarrow> topic_partition \<Rightarrow> group_consumer \<times> 's \<Rightarrow> (int option \<times> group_consumer \<times> 's) outcome" where
  "committed link tp = (\<lambda>(gc, s).
    then_do (ask link OffsetFetch encodeOffsetFetchRequest decodeOffsetFetchResponse (position_request gc tp) s) (\<lambda>(response, s).
    then_do (at_0 (ofp_topics response)) (\<lambda>topic.
    then_do (at_0 (ft_partitions topic)) (\<lambda>partition.
      Done (if fo_error partition \<noteq> EC_None \<or> fo_nextOffset partition < 0 then None else Some (fo_nextOffset partition), gc, s)))))"

definition consumer_leave :: "'s link \<Rightarrow> group_consumer \<times> 's \<Rightarrow> (unit \<times> group_consumer \<times> 's) outcome" where
  "consumer_leave link = (\<lambda>(gc, s).
    if gcn_memberId gc = [] then Done ((), gc, s)
    else then_do (of_result (bytes_of (encodeLeaveGroupRequest \<lparr>lgq_groupId = gcn_groupId gc, lgq_memberId = gcn_memberId gc\<rparr>))) (\<lambda>body.
      then_do (lk_call link LeaveGroup body s) (\<lambda>(_, s).
        Done ((), gc\<lparr>gcn_memberId := [], gcn_generation := - 1, gcn_isLeader := False, gcn_assignment := []\<rparr>, s))))"

end
