(* ===== verification/Consumer_Rounds.thy ===== *)
theory Consumer_Rounds
  imports Group_Consumer
begin

lemma registry_handlers:
  "registerAllHandlers hash Map.empty (OffsetCommit, 0) = Some (handleOffsetCommit hash)"
  "registerAllHandlers hash Map.empty (OffsetFetch, 0) = Some handleOffsetFetch"
  "registerAllHandlers hash Map.empty (Heartbeat, 0) = Some handleHeartbeat"
  "registerAllHandlers hash Map.empty (SyncGroup, 0) = Some handleSyncGroup"
  "registerAllHandlers hash Map.empty (JoinGroup, 0) = Some handleJoinGroup"
  "registerAllHandlers hash Map.empty (Metadata, 0) = Some handleMetadata"
  by (simp_all add: registerAllHandlers_def all_handlers_def registerHandler_def)

lemma heartbeat_code_ok: "code_ok (fst (heartbeat g m n now gc))"
  by (auto simp: heartbeat_def code_ok_def split: option.split)

text \<open>The answer to a commit of one position, and what it leaves.\<close>

abbreviation position_key :: "group_consumer \<Rightarrow> topic_partition \<Rightarrow> commit_key" where
  "position_key gc tp \<equiv> \<lparr>ck_group = gcn_groupId gc, ck_topic = tp_topic tp, ck_partition = tp_partition tp\<rparr>"

abbreviation commit_answer :: "topic_partition \<Rightarrow> error_code \<Rightarrow> offset_commit_response" where
  "commit_answer tp e \<equiv> \<lparr>ocp_topics = [\<lparr>cpt_name = tp_topic tp, cpt_partitions = [\<lparr>cpp_partition = tp_partition tp, cpp_error = e\<rparr>]\<rparr>]\<rparr>"

lemma commit_answer_fits:
  assumes "string_ok (tp_topic tp)" "in_i32 (tp_partition tp)" "code_ok e"
  shows "offset_commit_response_ok (commit_answer tp e)" "length (offset_commit_response_repr (commit_answer tp e)) + 4 \<le> kMaxFrameBytes"
  using assms
  by (simp_all add: offset_commit_response_ok_def commit_response_topic_ok_def commit_response_partition_ok_def array_ok_def
      offset_commit_response_repr_def commit_response_topic_repr_def commit_response_partition_repr_def array_repr_def
      string_repr_def code_repr_def be_bytes_4 be_bytes_2 kMaxFrameBytes_def string_ok_def)

lemma commit_one_answer:
  fixes gc :: group_consumer
  assumes ok: "offset_commit_request_ok (commit_request gc tp n)"
    and run: "commit_offsets hash now (commit_request gc tp n) bk = (answer, bk')"
  shows "\<exists>e. answer = commit_answer tp e \<and> offset_commit_response_ok answer \<and> length (offset_commit_response_repr answer) + 4 \<le> kMaxFrameBytes \<and>
    (e = EC_None \<longrightarrow> fetch_position (position_key gc tp) (bk_offsets bk') =
      Some \<lparr>cv_nextOffset = n, cv_metadata = [], cv_commitTimestampMs = now\<rparr>)"
proof -
  let ?q = "commit_request gc tp n" and ?asked = "\<lparr>cqp_partition = tp_partition tp, cqp_nextOffset = n, cqp_metadata = []\<rparr>"
  have tp: "string_ok (tp_topic tp)" "in_i32 (tp_partition tp)"
    using ok by (simp_all add: offset_commit_request_ok_def commit_request_def commit_request_topic_ok_def commit_request_partition_ok_def array_ok_def)
  obtain membership gcs where m: "(if ocq_memberId ?q \<noteq> [] \<or> ocq_generation ?q \<ge> 0
      then heartbeat (ocq_groupId ?q) (ocq_memberId ?q) (ocq_generation ?q) now (bk_groups bk) else (EC_None, bk_groups bk)) = (membership, gcs)"
    by fastforce
  have code: "code_ok membership" using m heartbeat_code_ok [of "ocq_groupId ?q" "ocq_memberId ?q" "ocq_generation ?q" now "bk_groups bk"]
    by (auto simp: code_ok_def split: if_splits)
  obtain p st where p: "commit_one hash now membership (gcn_groupId gc) (tp_topic tp) ?asked (bk_offsets bk, bk_logs bk) = (p, st)" by (rule prod.exhaust)
  have answer: "answer = \<lparr>ocp_topics = [\<lparr>cpt_name = tp_topic tp, cpt_partitions = [p]\<rparr>]\<rparr>" "bk_offsets bk' = fst st"
    using run unfolding commit_offsets_def m by (simp_all add: commit_request_def commit_topic_def Let_def p split_beta) auto
  have e: "p = \<lparr>cpp_partition = tp_partition tp, cpp_error = cpp_error p\<rparr>" "code_ok (cpp_error p)"
    using p code by (auto simp: commit_one_def Let_def code_ok_def split: prod.splits sum.splits if_splits)
  have "fetch_position (position_key gc tp) (bk_offsets bk') = Some \<lparr>cv_nextOffset = n, cv_metadata = [], cv_commitTimestampMs = now\<rparr>"
    if "cpp_error p = EC_None"
    using fun_cong [OF commit_one_effect [OF p], of "position_key gc tp"] that by (simp add: acked_partition_def answer(2))
  with answer(1) e(1) commit_answer_fits [OF tp e(2)] show ?thesis by (intro exI [of _ "cpp_error p"]) (metis (no_types))
qed

lemma commit_over_the_wire:
  assumes "ep_registry ep = registerAllHandlers hash Map.empty" "offset_commit_request_ok (commit_request gc tp n)"
    and "call_fits ep OffsetCommit (offset_commit_request_repr (commit_request gc tp n)) cl"
    and "commit_offsets hash (ep_clock ep i) (commit_request gc tp n) (ep_others ep i bk) = (commit_answer tp e, bk')"
  shows "\<exists>arrived. client_ready (after_call cl arrived) \<and> consumer_commit (client_link (loop_peer ep)) tp n (gc, cl, i, bk) =
    (if e = EC_None then Done ((), gc, after_call cl arrived, Suc i, bk') else Raised Error)"
proof -
  have fits: "offset_commit_response_ok (commit_answer tp e)" "length (offset_commit_response_repr (commit_answer tp e)) + 4 \<le> kMaxFrameBytes"
    using commit_one_answer [OF assms(2,4)] by auto
  let ?serve = "\<lambda>rc q bk. let (answer, bk) = commit_offsets hash (rc_now rc) q bk in (Inr answer, bk)"
  have handler: "handleOffsetCommit hash rc out bk = handling decodeOffsetCommitRequest (?serve rc) (reply encodeOffsetCommitResponse) rc out bk" for rc out bk
    by (simp add: handleOffsetCommit_def)
  have served: "?serve (context_of_call ep OffsetCommit (offset_commit_request_repr (commit_request gc tp n)) cl i) (commit_request gc tp n)
      (ep_others ep i bk) = (Inr (commit_answer tp e), bk')"
    using assms(4) by (simp add: context_of_call_def)
  have "ep_registry ep (OffsetCommit, 0) = Some (handleOffsetCommit hash)" "key_ok OffsetCommit"
    using assms(1) by (simp_all add: registry_handlers key_ok_def in_i16_def)
  from loop.handler_answers [where ?serve_q = ?serve, OF this(1) handler this(2) offsetCommitRequest.codec_axioms offsetCommitResponse.codec_axioms assms(2,3) served fits]
  obtain arrived where "ask (client_link (loop_peer ep)) OffsetCommit encodeOffsetCommitRequest decodeOffsetCommitResponse (commit_request gc tp n) (cl, i, bk) =
      Done (commit_answer tp e, after_call cl arrived, Suc i, bk')" "client_ready (after_call cl arrived)" by blast
  then show ?thesis by (auto simp: consumer_commit_def)
qed

text \<open>Where a group left off, asked over the wire.\<close>

lemma position_over_the_wire:
  assumes "ep_registry ep = registerAllHandlers hash Map.empty" "offset_fetch_request_ok (position_request gc tp)"
    and "call_fits ep OffsetFetch (offset_fetch_request_repr (position_request gc tp)) cl"
    and found: "fetch_position (position_key gc tp) (bk_offsets (ep_others ep i bk)) = Some \<lparr>cv_nextOffset = n, cv_metadata = [], cv_commitTimestampMs = t\<rparr>"
    and n: "in_i64 n" "0 \<le> n"
  shows "\<exists>cl'. client_ready cl' \<and> committed (client_link (loop_peer ep)) tp (gc, cl, i, bk) = Done (Some n, gc, cl', Suc i, ep_others ep i bk)"
proof -
  let ?bk = "ep_others ep i bk"
  let ?answer = "\<lparr>ofp_topics = [\<lparr>ft_name = tp_topic tp, ft_partitions =
    [\<lparr>fo_partition = tp_partition tp, fo_nextOffset = n, fo_metadata = [], fo_error = EC_None\<rparr>]\<rparr>]\<rparr>"
  have tp: "string_ok (tp_topic tp)" "in_i32 (tp_partition tp)"
    using assms(2) by (simp_all add: offset_fetch_request_ok_def position_request_def fetch_offsets_topic_ok_def array_ok_def)
  then have fits: "offset_fetch_response_ok ?answer" "length (offset_fetch_response_repr ?answer) + 4 \<le> kMaxFrameBytes"
    using n(1) by (simp_all add: offset_fetch_response_ok_def fetched_topic_ok_def fetched_offset_ok_def array_ok_def code_ok_def
      offset_fetch_response_repr_def fetched_topic_repr_def fetched_offset_repr_def array_repr_def string_repr_def
      code_repr_def be_bytes_8 be_bytes_4 be_bytes_2 kMaxFrameBytes_def string_ok_def)
  have handler: "handleOffsetFetch rc out bk = handling decodeOffsetFetchRequest (\<lambda>q bk. (Inr (fetched_positions q bk), bk)) (reply encodeOffsetFetchResponse) rc out bk" for rc out bk
    by (simp add: handleOffsetFetch_def)
  have served: "(\<lambda>q bk. (Inr (fetched_positions q bk), bk)) (position_request gc tp) ?bk = (Inr ?answer, ?bk)"
    using found by (simp add: fetched_positions_def fetched_position_def position_request_def)
  have "ep_registry ep (OffsetFetch, 0) = Some handleOffsetFetch" "key_ok OffsetFetch"
    using assms(1) by (simp_all add: registry_handlers key_ok_def in_i16_def)
  from loop.handler_answers [where serve_q = "\<lambda>_ q bk. (Inr (fetched_positions q bk), bk)",
      OF this(1) handler this(2) offsetFetchRequest.codec_axioms offsetFetchResponse.codec_axioms assms(2,3) served fits]
  obtain arrived where "ask (client_link (loop_peer ep)) OffsetFetch encodeOffsetFetchRequest decodeOffsetFetchResponse (position_request gc tp) (cl, i, bk) =
      Done (?answer, after_call cl arrived, Suc i, ?bk)" "client_ready (after_call cl arrived)" by blast
  then show ?thesis using n(2) by (auto simp: committed_def)
qed

subsection \<open>Properties\<close>

text \<open>C15. A position is handed on. When a consumer's commit returns, any consumer of the group, over a connection of
its own, is told exactly that position for the partition, as long as no later commit of it reached the broker.\<close>

theorem position_handed_on:
  assumes "ep_registry ep = registerAllHandlers hash Map.empty" "gcn_groupId gc' = gcn_groupId gc" "0 \<le> n"
    and "offset_commit_request_ok (commit_request gc tp n)" "call_fits ep OffsetCommit (offset_commit_request_repr (commit_request gc tp n)) cl"
    and "offset_fetch_request_ok (position_request gc' tp)" "call_fits ep OffsetFetch (offset_fetch_request_repr (position_request gc' tp)) cl'"
    and commit: "consumer_commit (client_link (loop_peer ep)) tp n (gc, cl, i, bk) = Done ((), gc1, cl1, i1, bk1)"
    and later: "fetch_position \<lparr>ck_group = gcn_groupId gc, ck_topic = tp_topic tp, ck_partition = tp_partition tp\<rparr> (bk_offsets (ep_others ep j bk2)) =
      fetch_position \<lparr>ck_group = gcn_groupId gc, ck_topic = tp_topic tp, ck_partition = tp_partition tp\<rparr> (bk_offsets bk1)"
  shows "\<exists>cl2. committed (client_link (loop_peer ep)) tp (gc', cl', j, bk2) = Done (Some n, gc', cl2, Suc j, ep_others ep j bk2)"
proof -
  obtain answer bk' where run: "commit_offsets hash (ep_clock ep i) (commit_request gc tp n) (ep_others ep i bk) = (answer, bk')" by fastforce
  then obtain e where e: "answer = commit_answer tp e" "e = EC_None \<Longrightarrow> fetch_position (position_key gc tp) (bk_offsets bk') =
      Some \<lparr>cv_nextOffset = n, cv_metadata = [], cv_commitTimestampMs = ep_clock ep i\<rparr>"
    using commit_one_answer [OF assms(4)] by blast
  have "e = EC_None" "bk1 = bk'"
    using commit_over_the_wire [OF assms(1,4,5) run [unfolded e(1)]] commit by (auto split: if_splits)
  with e(2) later assms(2) have "fetch_position (position_key gc' tp) (bk_offsets (ep_others ep j bk2)) =
      Some \<lparr>cv_nextOffset = n, cv_metadata = [], cv_commitTimestampMs = ep_clock ep i\<rparr>" by simp
  moreover have "in_i64 n"
    using assms(4) by (simp add: offset_commit_request_ok_def commit_request_def commit_request_topic_ok_def commit_request_partition_ok_def array_ok_def)
  ultimately show ?thesis using position_over_the_wire [OF assms(1,6,7)] assms(3) by blast
qed

text \<open>C16. A rebalance ends a busy consumer. While its group prepares a rebalance a member's commit throws, and the
broker is left as it was: a consumer that goes on reading without a heartbeat, as the command line one does
while records arrive, ends with an error as soon as another member joins, instead of rejoining.\<close>

theorem rebalance_fails_commit:
  assumes "ep_registry ep = registerAllHandlers hash Map.empty" "offset_commit_request_ok (commit_request gc tp n)"
    and "call_fits ep OffsetCommit (offset_commit_request_repr (commit_request gc tp n)) cl"
    and "map_of (gc_groups (bk_groups (ep_others ep i bk))) (gcn_groupId gc) = Some g" "cg_state g = PreparingRebalance"
    and "gcn_memberId gc \<noteq> []"
  shows "consumer_commit (client_link (loop_peer ep)) tp n (gc, cl, i, bk) = Raised Error"
proof -
  let ?bk = "ep_others ep i bk" and ?q = "commit_request gc tp n"
  obtain e gcs where h: "heartbeat (gcn_groupId gc) (gcn_memberId gc) (gcn_generation gc) (ep_clock ep i) (bk_groups ?bk) = (e, gcs)" by fastforce
  then have e: "e \<noteq> EC_None" using assms(4,5) by (auto simp: heartbeat_def split: option.splits if_splits)
  obtain answer bk' where run: "commit_offsets hash (ep_clock ep i) ?q ?bk = (answer, bk')" by fastforce
  have "answer = commit_answer tp e"
    using run h e assms(6) by (auto simp: commit_offsets_def commit_request_def commit_topic_def commit_one_def)
  from commit_over_the_wire [OF assms(1-3) run [unfolded this]] e show ?thesis by auto
qed

subsection \<open>Concrete consumers\<close>

abbreviation demo_loop :: endpoint where
  "demo_loop \<equiv> \<lparr>ep_registry = registerAllHandlers (\<lambda>_. 0) Map.empty, ep_maxFrameBytes = 1000, ep_clock = \<lambda>_. 7, ep_others = \<lambda>_ bk. bk\<rparr>"

abbreviation demo_consumer :: group_consumer where
  "demo_consumer \<equiv> GroupConsumer ''g'' [''t''] ''range'' 10000"

abbreviation demo_tp :: topic_partition where
  "demo_tp \<equiv> \<lparr>tp_topic = ''t'', tp_partition = 0\<rparr>"

lemma demo_request_ok:
  "offset_commit_request_ok (commit_request demo_consumer demo_tp 10)"
  "offset_commit_request_ok (commit_request (demo_consumer\<lparr>gcn_memberId := ''c-1''\<rparr>) demo_tp 10)"
  "offset_fetch_request_ok (position_request demo_consumer demo_tp)"
  by (simp_all add: GroupConsumer_def commit_request_def offset_commit_request_ok_def commit_request_topic_ok_def commit_request_partition_ok_def
      position_request_def offset_fetch_request_ok_def fetch_offsets_topic_ok_def array_ok_def string_ok_def range_simps)

lemma demo_call_fits:
  "call_fits demo_loop OffsetCommit (offset_commit_request_repr (commit_request demo_consumer demo_tp 10)) (Client ''c'')"
  "call_fits demo_loop OffsetCommit (offset_commit_request_repr (commit_request (demo_consumer\<lparr>gcn_memberId := ''c-1''\<rparr>) demo_tp 10)) (Client ''c'')"
  "call_fits demo_loop OffsetFetch (offset_fetch_request_repr (position_request demo_consumer demo_tp)) (Client ''d'')"
  by (simp_all add: call_fits_def client_ready_def Client_def frame_of_call_def header_of_call_def request_header_repr_def key_repr_def
      GroupConsumer_def commit_request_def offset_commit_request_repr_def commit_request_topic_repr_def commit_request_partition_repr_def
      position_request_def offset_fetch_request_repr_def fetch_offsets_topic_repr_def array_repr_def string_repr_def i32_repr_def
      be_bytes_8 be_bytes_4 be_bytes_2 string_ok_def range_simps)

theorem position_handed_on_witness:
  "\<exists>bk cl1 i1 bk1 cl2. consumer_commit (client_link (loop_peer demo_loop)) demo_tp 10 (demo_consumer, Client ''c'', 0, bk) =
      Done ((), demo_consumer, cl1, i1, bk1) \<and>
    committed (client_link (loop_peer demo_loop)) demo_tp (demo_consumer, Client ''d'', 0, bk1) = Done (Some 10, demo_consumer, cl2, Suc 0, bk1)"
proof -
  obtain m0 m where m: "commit (\<lambda>_. 0) demo_key (demo_position 10) (7, 7) (OffsetStore 1, m0) = (Inr (), demo_commits 10, m)"
    using demo_committed by blast
  let ?bk = "demo_state (OffsetStore 1) m0" and ?bk1 = "demo_state (demo_commits 10) m"
  have "commit_offsets (\<lambda>_. 0) 7 (commit_request demo_consumer demo_tp 10) ?bk = (commit_answer demo_tp EC_None, ?bk1)"
    using m by (simp add: commit_offsets_def commit_topic_def commit_one_def commit_request_def GroupConsumer_def)
  then obtain cl1 where 1: "consumer_commit (client_link (loop_peer demo_loop)) demo_tp 10 (demo_consumer, Client ''c'', 0, ?bk) =
      Done ((), demo_consumer, cl1, Suc 0, ?bk1)"
    using commit_over_the_wire [of demo_loop "\<lambda>_. 0" demo_consumer demo_tp 10 "Client ''c''" 0 ?bk EC_None ?bk1] demo_request_ok(1) demo_call_fits(1)
    by auto
  then obtain cl2 where "committed (client_link (loop_peer demo_loop)) demo_tp (demo_consumer, Client ''d'', 0, ?bk1) =
      Done (Some 10, demo_consumer, cl2, Suc 0, ?bk1)"
    using position_handed_on [OF _ _ _ demo_request_ok(1) demo_call_fits(1) demo_request_ok(3) demo_call_fits(3) 1, of "\<lambda>_. 0" 0 ?bk1]
    by auto
  with 1 show ?thesis by blast
qed

text \<open>A member in its first generation, and another that has just asked to join.\<close>

theorem rebalance_fails_commit_witness:
  "consumer_commit (client_link (loop_peer demo_loop)) demo_tp 10 (demo_consumer\<lparr>gcn_memberId := ''c-1''\<rparr>, Client ''c'', 0,
     (demo_state (OffsetStore 1) (LogManager (small_config Delete)))\<lparr>bk_groups := demo_rebalancing\<rparr>) = Raised Error"
proof -
  let ?g = "demo_group PreparingRebalance [(''c-1'', demo_member ''c-1'' ''c'' 0 False), (''d-2'', demo_member ''d-2'' ''d'' 5 True)]"
  have "map_of (gc_groups demo_rebalancing) ''g'' = Some ?g" "cg_state ?g = PreparingRebalance"
    by (simp_all add: demo_groups(2)) (simp add: demo_group_def)
  then show ?thesis
    using rebalance_fails_commit [of demo_loop "\<lambda>_. 0" "demo_consumer\<lparr>gcn_memberId := ''c-1''\<rparr>" demo_tp 10 "Client ''c''" 0
        "(demo_state (OffsetStore 1) (LogManager (small_config Delete)))\<lparr>bk_groups := demo_rebalancing\<rparr>" ?g] demo_request_ok(2) demo_call_fits(2)
    by (simp add: GroupConsumer_def)
qed

end
