(* ===== verification/Shared_Out.thy ===== *)
theory Shared_Out
  imports Group_Consumer
begin

text \<open>
  What the client's strategies and the coordinator do together: the leader shares the partitions out among
  the members its JoinGroup answer lists, the coordinator relays the bytes, and every member reads its slice.
\<close>

text \<open>A member owns a partition in a generation when a sync it sends then would be answered with it.\<close>

definition owns :: "group_coordinator \<Rightarrow> string \<Rightarrow> int \<Rightarrow> string \<Rightarrow> topic_partition \<Rightarrow> bool" where
  "owns gc groupId n m tp \<longleftrightarrow> (\<exists>assignments now bytes gc' tps.
     sync groupId m n assignments now gc = (\<lparr>sr_error = EC_None, sr_assignment = bytes\<rparr>, gc') \<and>
     decodeAssignment bytes = Inr tps \<and> tp \<in> set tps)"

text \<open>The members the leader's JoinGroup is answered with.\<close>

definition told_members :: "consumer_group \<Rightarrow> member_info list" where
  "told_members g = jgp_members (join_answer (resultFor g (cg_leaderId g)))"

lemma told_members_ids:
  assumes "coordinator_ok gc" "map_of (gc_groups gc) groupId = Some g"
  shows "mi_memberId ` set (told_members g) = member_ids g"
proof -
  have "list_all (\<lambda>(k, m). gm_memberId m = k) (cg_members g)"
    using coordinator_okD(3) [OF assms] by (simp add: entry_ok_def group_ok_def member_table_ok_def)
  then have "gm_memberId ` snd ` set (cg_members g) = fst ` set (cg_members g)"
    by (force simp: list_all_iff image_image)
  then show ?thesis by (simp add: told_members_def join_answer_def resultFor_def member_ids_def image_image)
qed

lemma keys_sorted_fold_set_at: "keys_sorted m \<Longrightarrow> keys_sorted (fold (\<lambda>x. set_at (k x) (v x)) xs m)"
  by (induction xs arbitrary: m) simp_all

lemma leader_input_ok: "input_ok (leader_input members described)"
proof -
  have "keys_sorted (fold (\<lambda>t counts. if tm_error t = EC_None then set_at (tm_name t) (c t) counts else counts) ts m)"
    if "keys_sorted m" for ts :: "topic_metadata list" and c and m :: "(string \<times> int) list"
    using that by (induction ts arbitrary: m) simp_all
  moreover have "keys_sorted ([] :: (string \<times> int) list)" "keys_sorted ([] :: (string \<times> string list) list)"
    by (simp_all add: keys_sorted_def)
  ultimately show ?thesis by (simp add: input_ok_def leader_input_def keys_sorted_fold_set_at)
qed

lemma leader_input_members: "fst ` set (ai_members (leader_input members described)) = mi_memberId ` set members"
proof -
  have "fst ` set (fold (\<lambda>m. set_at (mi_memberId m) (mi_subscription m)) ms a) = mi_memberId ` set ms \<union> fst ` set a" for ms a
    by (induction ms arbitrary: a) auto
  from this [of members "[]"] show ?thesis by (simp add: leader_input_def)
qed

lemma encode_all_map_of:
  "encode_all a = Inr bs \<Longrightarrow> map fst bs = map fst a \<and>
    (\<forall>m tps. map_of a m = Some tps \<longrightarrow> (\<exists>bytes. map_of bs m = Some bytes \<and> encodeAssignment tps = Inr bytes))"
  by (induction a arbitrary: bs rule: encode_all.induct) (auto simp: bind_r_Inr_iff)

lemma share_out_exact: "input_ok input \<Longrightarrow> exact input (share_out strategy input)"
  by (simp add: share_out_def assignRange_exact assignRoundRobin_exact)

lemma dealt_once:
  "distinct (concat (map snd a)) \<Longrightarrow> map_of a m = Some tps \<Longrightarrow> map_of a m' = Some tps' \<Longrightarrow> tp \<in> set tps \<Longrightarrow> tp \<in> set tps' \<Longrightarrow> m = m'"
proof (induction a)
  case (Cons x a)
  have later: "tp \<in> set (concat (map snd a))" if "map_of a k = Some ts" "tp \<in> set ts" for k ts
    using that by (force dest: map_of_SomeD)
  show ?case using Cons later by (cases x) (auto split: if_splits)
qed simp

text \<open>What a member is told after the leader's sync.\<close>

lemma holds_slice_stable:
  assumes "coordinator_ok gc" "stateOf groupId gc = Stable"
    and told: "fst (sync groupId m n any now gc) = \<lparr>sr_error = EC_None, sr_assignment = a\<rparr>"
  shows "holds_slice groupId m n a gc"
proof (cases rule: sync_effect [of groupId m n any now gc])
  case refused
  then show ?thesis using told by simp
next
  case (touched g x g')
  have "cg_state g = Stable" using assms(2) touched(1) by (simp add: stateOf_def)
  then have "gm_assignment x = a" using touched(7) told by simp
  moreover have "issued (gc_nextMemberId gc) m"
    using coordinator_okD(3) [OF assms(1) touched(1)] touched(2) by (auto simp: entry_ok_def member_ids_def dest: map_of_key)
  ultimately show ?thesis using touched(1-3) \<open>cg_state g = Stable\<close> by (simp add: holds_slice_def slice_def)
next
  case (dealt g x g')
  then show ?thesis using assms(2) by (simp add: stateOf_def)
qed

text \<open>The slice every member reads back.\<close>

lemma member_told:
  assumes reach: "gc_reach gc" and g: "map_of (gc_groups gc) groupId = Some g" "cg_state g = CompletingRebalance"
    and computed: "computed = share_out strategy (leader_input (told_members g) described)" "encode_all computed = Inr assignments"
    and gc1: "gc1 = snd (sync groupId (cg_leaderId g) (cg_generation g) assignments now gc)"
    and m: "m \<in> member_ids g"
  shows "\<exists>bytes. encodeAssignment (held computed m) = Inr bytes \<and> map_of computed m = Some (held computed m) \<and>
    (\<forall>any later. fst (sync groupId m (cg_generation g) any later gc1) = \<lparr>sr_error = EC_None, sr_assignment = bytes\<rparr>) \<and>
    holds_slice groupId m (cg_generation g) bytes gc1"
proof -
  have ok: "coordinator_ok gc" by (rule gc_reach_ok [OF reach])
  have exact: "exact (leader_input (told_members g) described) computed" unfolding computed(1) by (rule share_out_exact [OF leader_input_ok])
  have keys: "map fst assignments = map fst computed" using encode_all_map_of [OF computed(2)] by blast
  have "set (map fst computed) = member_ids g"
    using exact leader_input_members [of "told_members g" described] told_members_ids [OF ok g(1)] by (simp add: exact_def)
  then obtain tps where tps: "map_of computed m = Some tps" using m by (cases "map_of computed m") (auto simp: map_of_eq_None_iff)
  then obtain bytes where bytes: "map_of assignments m = Some bytes" "encodeAssignment tps = Inr bytes"
    using encode_all_map_of [OF computed(2)] by blast
  have "keys_sorted (ai_members (leader_input (told_members g) described))" using leader_input_ok by (simp add: input_ok_def)
  then have distinct: "distinct (map fst assignments)" using exact keys keys_sorted_distinct by (auto simp: exact_def)
  note round = sync_round [OF ok g distinct gc1]
  have told: "fst (sync groupId m (cg_generation g) any later gc1) = \<lparr>sr_error = EC_None, sr_assignment = bytes\<rparr>" for any later
    by (rule round(2) [OF m bytes(1)])
  have "coordinator_ok gc1" unfolding gc1 by (rule sync_ok [OF ok])
  from holds_slice_stable [OF this round(1) told] told bytes(2) tps show ?thesis by (auto simp: held_def)
qed

lemma decoded_slice:
  assumes "assigned_ok tps" "encodeAssignment tps = Inr bytes" "decodeAssignment bytes = Inr tps'"
  shows "tp \<in> set tps' \<longleftrightarrow> tp \<in> set tps"
proof -
  have "tps' = ungroup (by_topic tps)"
    using encodeAssignment_bytes [OF assms(1)] decodeAssignment_reads [OF assms(1), of "[]"] assms(2,3) by simp
  then have "tp \<in> set (filter (\<lambda>x. tp_topic x = tp_topic tp) tps') \<longleftrightarrow> tp \<in> set (filter (\<lambda>x. tp_topic x = tp_topic tp) tps)"
    by (simp only: filter_ungroup_by_topic)
  then show ?thesis by simp
qed

subsection \<open>Properties\<close>

text \<open>C14. A generation shares its partitions out. Once the leader has synced what its strategy computed from its
JoinGroup answer and any description of the topics, then, whatever is asked of the coordinator after it, no
partition is owned by two members of the generation, none by a member that did not ask for its topic, and
right after the sync every partition of a topic somebody asked for is owned by one.\<close>

theorem generation_shares_out:
  assumes "gc_reach gc" "map_of (gc_groups gc) groupId = Some g" "cg_state g = CompletingRebalance"
    and input: "input = leader_input (told_members g) described" "computed = share_out strategy input" "encode_all computed = Inr assignments"
    and fits: "\<forall>(m, tps) \<in> set computed. assigned_ok tps"
    and gc1: "gc1 = snd (sync groupId (cg_leaderId g) (cg_generation g) assignments now gc)" "gc_step\<^sup>*\<^sup>* gc1 gc2"
  shows "(\<forall>m \<in> member_ids g. \<forall>tp. owns gc2 groupId (cg_generation g) m tp \<longrightarrow>
      wants input m (tp_topic tp) \<and> (\<forall>m' \<in> member_ids g. owns gc2 groupId (cg_generation g) m' tp \<longrightarrow> m' = m)) \<and>
    (\<forall>tp \<in> set (all_partitions input). interested input (tp_topic tp) \<noteq> [] \<longrightarrow>
      (\<exists>m \<in> member_ids g. owns gc1 groupId (cg_generation g) m tp))"
proof -
  let ?n = "cg_generation g"
  note told = member_told [OF assms(1-3) input(2,3) [unfolded input(1)] gc1(1)]
  have ok1: "coordinator_ok gc1" unfolding gc1(1) by (rule sync_ok [OF gc_reach_ok [OF assms(1)]])
  have exact: "exact input computed" unfolding input(1,2) by (rule share_out_exact [OF leader_input_ok])
  have small: "assigned_ok (held computed m)" if "map_of computed m = Some (held computed m)" for m
    using fits map_of_SomeD [OF that] by blast
  have mine: "tp \<in> set (held computed m) \<and> map_of computed m = Some (held computed m)"
    if m: "m \<in> member_ids g" and owns: "owns gc2 groupId ?n m tp" for m tp
  proof -
    obtain bytes where bytes: "encodeAssignment (held computed m) = Inr bytes" "map_of computed m = Some (held computed m)"
        "holds_slice groupId m ?n bytes gc1"
      using told [OF m] by blast
    obtain any later a gc3 tps where a: "sync groupId m ?n any later gc2 = (\<lparr>sr_error = EC_None, sr_assignment = a\<rparr>, gc3)"
        "decodeAssignment a = Inr tps" "tp \<in> set tps"
      using owns by (auto simp: owns_def)
    have "a = bytes" by (rule sync_reads_slice [OF gc_steps_ok [OF gc1(2) ok1] holds_slice_steps [OF gc1(2) ok1 bytes(3)] a(1)])
    with a decoded_slice [OF small [OF bytes(2)] bytes(1)] bytes(2) show ?thesis by blast
  qed
  have wants: "wants input m (tp_topic tp)" if "map_of computed m = Some tps" "tp \<in> set tps" for m tps tp
    using exact map_of_SomeD [OF that(1)] that(2) by (auto simp: exact_def)
  have once: "m' = m" if "m \<in> member_ids g" "owns gc2 groupId ?n m tp" "m' \<in> member_ids g" "owns gc2 groupId ?n m' tp" for m m' tp
    using mine [OF that(1,2)] mine [OF that(3,4)] exact dealt_once [of computed m' "held computed m'" m "held computed m" tp]
    by (simp add: exact_def dealt_def)
  have covered: "\<exists>m \<in> member_ids g. owns gc1 groupId ?n m tp"
    if "tp \<in> set (all_partitions input)" "interested input (tp_topic tp) \<noteq> []" for tp
  proof -
    have "tp \<in># mset (dealt computed)" using exact that by (simp add: exact_def wanted_def)
    then obtain m tps where m: "(m, tps) \<in> set computed" "tp \<in> set tps" by (auto simp: dealt_def)
    have "set (map fst computed) = set (map fst (ai_members input))" using exact by (simp only: exact_def)
    moreover have "m \<in> set (map fst computed)" using m(1) by force
    ultimately have "m \<in> fst ` set (ai_members input)" by simp
    then have mem: "m \<in> member_ids g"
      using leader_input_members [of "told_members g" described] told_members_ids [OF gc_reach_ok [OF assms(1)] assms(2)] by (simp add: input(1))
    obtain bytes where bytes: "encodeAssignment (held computed m) = Inr bytes" "map_of computed m = Some (held computed m)"
        "\<And>any later. fst (sync groupId m ?n any later gc1) = \<lparr>sr_error = EC_None, sr_assignment = bytes\<rparr>"
      using told [OF mem] by blast
    have "keys_sorted computed" using exact leader_input_ok [of "told_members g" described]
      by (simp add: exact_def input_ok_def keys_sorted_def input(1))
    then have "map_of computed m = Some tps" using m(1) by (simp add: map_of_sorted_mem)
    then have "held computed m = tps" using bytes(2) by simp
    moreover have "decodeAssignment bytes = Inr (ungroup (by_topic (held computed m)))"
      using encodeAssignment_bytes [OF small [OF bytes(2)]] decodeAssignment_reads [OF small [OF bytes(2)], of "[]"] bytes(1) by simp
    ultimately show ?thesis
      using mem m(2) bytes decoded_slice [OF small [OF bytes(2)] bytes(1)] by (auto simp: owns_def intro!: bexI [of _ m]) (metis prod.collapse)
  qed
  show ?thesis using mine wants once covered by blast
qed

subsection \<open>A concrete group\<close>

definition demo_ready :: group_coordinator where
  "demo_ready = snd (join ''g'' ''c-1'' ''c'' [''t''] [''range''] 0 6 demo_rebalancing)"

abbreviation demo_ready_group :: consumer_group where
  "demo_ready_group \<equiv> \<lparr>cg_id = ''g'', cg_state = CompletingRebalance, cg_generation = 2, cg_leaderId = ''c-1'', cg_protocolName = ''range'',
     cg_members = [(''c-1'', demo_member ''c-1'' ''c'' 6 True), (''d-2'', demo_member ''d-2'' ''d'' 5 True)]\<rparr>"

abbreviation demo_described :: "topic_metadata list" where
  "demo_described \<equiv> [\<lparr>tm_error = EC_None, tm_name = ''t'', tm_partitions =
     map (\<lambda>p. \<lparr>pm_md_error = EC_None, pm_md_partition = p, pm_md_leader = 1\<rparr>) [0, 1, 2]\<rparr>]"

abbreviation demo_shares :: assignment where
  "demo_shares \<equiv> [(''c-1'', [\<lparr>tp_topic = ''t'', tp_partition = 0\<rparr>, \<lparr>tp_topic = ''t'', tp_partition = 1\<rparr>]),
     (''d-2'', [\<lparr>tp_topic = ''t'', tp_partition = 2\<rparr>])]"

lemma demo_ready: "gc_reach demo_ready" "map_of (gc_groups demo_ready) ''g'' = Some demo_ready_group"
proof -
  show "gc_reach demo_ready"
    using demo_reach(2) unfolding gc_reach_def demo_ready_def by (rule rtranclp.rtrancl_into_rtrancl) (rule step_join)
  show "map_of (gc_groups demo_ready) ''g'' = Some demo_ready_group" by code_simp
qed

lemma demo_shares: "share_out ''range'' (leader_input (told_members demo_ready_group) demo_described) = demo_shares"
  by code_simp

theorem generation_shares_out_witness:
  "\<exists>gc1. gc_step demo_ready gc1 \<and> (\<exists>m \<in> {''c-1'', ''d-2''}. owns gc1 ''g'' 2 m \<lparr>tp_topic = ''t'', tp_partition = 2\<rparr> \<and>
     (\<forall>m' \<in> {''c-1'', ''d-2''}. owns gc1 ''g'' 2 m' \<lparr>tp_topic = ''t'', tp_partition = 2\<rparr> \<longrightarrow> m' = m))"
proof -
  let ?input = "leader_input (told_members demo_ready_group) demo_described" and ?tp = "\<lparr>tp_topic = ''t'', tp_partition = 2\<rparr>"
  have fits: "\<forall>(m, tps) \<in> set demo_shares. assigned_ok tps" by (simp add: assigned_ok_def string_ok_def in_i32_def)
  then obtain assignments where assignments: "encode_all demo_shares = Inr assignments" by (simp add: encodeAssignment_bytes)
  let ?gc1 = "snd (sync ''g'' ''c-1'' 2 assignments 7 demo_ready)"
  have gc1: "?gc1 = snd (sync ''g'' (cg_leaderId demo_ready_group) (cg_generation demo_ready_group) assignments 7 demo_ready)" by simp
  have completing: "cg_state demo_ready_group = CompletingRebalance" by simp
  note shared = generation_shares_out [OF demo_ready completing refl demo_shares [symmetric] assignments fits gc1 rtranclp.rtrancl_refl]
  have members: "member_ids demo_ready_group = {''c-1'', ''d-2''}" by (simp add: member_ids_def)
  have tp: "?tp \<in> set (all_partitions ?input)" "interested ?input (tp_topic ?tp) \<noteq> []" by code_simp+
  obtain m where m: "m \<in> member_ids demo_ready_group" "owns ?gc1 ''g'' (cg_generation demo_ready_group) m ?tp"
    using mp [OF bspec [OF conjunct2 [OF shared] tp(1)] tp(2)] by (elim bexE)
  then have "\<forall>m' \<in> member_ids demo_ready_group. owns ?gc1 ''g'' (cg_generation demo_ready_group) m' ?tp \<longrightarrow> m' = m"
    using mp [OF spec [OF bspec [OF conjunct1 [OF shared] m(1)]] m(2)] by (elim conjE)
  with m have "\<exists>m \<in> {''c-1'', ''d-2''}. owns ?gc1 ''g'' 2 m ?tp \<and> (\<forall>m' \<in> {''c-1'', ''d-2''}. owns ?gc1 ''g'' 2 m' ?tp \<longrightarrow> m' = m)"
    unfolding members consumer_group.simps by (intro bexI [of _ m] conjI)
  moreover have "gc_step demo_ready ?gc1" by (rule step_sync)
  ultimately show ?thesis by (intro exI [of _ ?gc1] conjI)
qed

end
