(* ===== verification/Terminal.thy ===== *)
theory Terminal
  imports Client
begin

text \<open>
  What the programs share: text written to the standard output and to the standard error in one order,
  loops that may go on for ever, numbers read from an argument and lines read from the standard input.
\<close>

subsection \<open>Text written\<close>

datatype printed = Out string | Err string

text \<open>What was written stays written when a call throws.\<close>

type_synonym 'a shown = "printed list \<times> 'a outcome"

fun show_then :: "'a shown \<Rightarrow> ('a \<Rightarrow> 'b shown) \<Rightarrow> 'b shown" where
  "show_then (out, Done x) f = (let (more, r) = f x in (out @ more, r))"
| "show_then (out, Raised e) f = (out, Raised e)"
| "show_then (out, Uncaught) f = (out, Uncaught)"
| "show_then (out, Hangs) f = (out, Hangs)"

definition silent :: "'a outcome \<Rightarrow> 'a shown" where
  "silent r = ([], r)"

definition show_text :: "printed list \<Rightarrow> 'a \<Rightarrow> 'a shown" where
  "show_text out x = (out, Done x)"

lemma show_then_simps [simp]:
  "show_then (silent (Done x)) f = f x" "show_then (silent (Raised e)) f = silent (Raised e)"
  "show_then (silent Uncaught) f = silent Uncaught" "show_then (silent Hangs) f = silent Hangs"
  "show_then (show_text out x) f = (out @ fst (f x), snd (f x))"
  by (simp_all add: silent_def show_text_def split_beta)

lemma show_then_Done: "show_then s f = (out, Done y) \<longleftrightarrow>
    (\<exists>out1 x out2. s = (out1, Done x) \<and> f x = (out2, Done y) \<and> out = out1 @ out2)"
proof (cases s)
  case (Pair out1 r)
  show ?thesis unfolding Pair by (cases r) (auto split: prod.splits)
qed

lemma show_then_assoc: "show_then (show_then s f) g = show_then s (\<lambda>x. show_then (f x) g)"
proof (cases s)
  case (Pair out r)
  show ?thesis
  proof (cases r)
    case (Done x)
    obtain out1 r1 where f: "f x = (out1, r1)" by fastforce
    show ?thesis using Pair Done f by (cases r1) (simp_all add: split_beta)
  qed (simp_all add: Pair)
qed

text \<open>\<^verbatim>\<open>%s\<close> and \<^verbatim>\<open>%.*s\<close> stop at a zero byte.\<close>

definition c_str :: "string \<Rightarrow> string" where
  "c_str s = takeWhile (\<lambda>c. c \<noteq> CHR 0x00) s"

lemma c_str_id: "CHR 0x00 \<notin> set s \<Longrightarrow> c_str s = s"
  unfolding c_str_def takeWhile_eq_all_conv by blast

definition newline :: string where
  "newline = [CHR 0x0A]"

text \<open>\<^verbatim>\<open>%-4d\<close> fills with spaces behind the number, \<^verbatim>\<open>%4d\<close> in front of it.\<close>

definition pad_right :: "nat \<Rightarrow> string \<Rightarrow> string" where
  "pad_right n s = s @ replicate (n - length s) (CHR '' '')"

definition pad_left :: "nat \<Rightarrow> string \<Rightarrow> string" where
  "pad_left n s = replicate (n - length s) (CHR '' '') @ s"

subsection \<open>Loops\<close>

text \<open>A round says from which state the next one starts, or ends the loop. \<open>None\<close> is a loop that never ends.\<close>

partial_function (option) rounds :: "('st \<Rightarrow> ('st + 'a) shown) \<Rightarrow> 'st \<Rightarrow> 'a shown option" where
  "rounds f st = (case f st of
      (out, Done (Inl st)) \<Rightarrow> Option.bind (rounds f st) (\<lambda>(more, r). Some (out @ more, r))
    | (out, Done (Inr x)) \<Rightarrow> Some (out, Done x)
    | (out, Raised e) \<Rightarrow> Some (out, Raised e)
    | (out, Uncaught) \<Rightarrow> Some (out, Uncaught)
    | (out, Hangs) \<Rightarrow> Some (out, Hangs))"

text \<open>So many rounds of it.\<close>

fun some_rounds :: "nat \<Rightarrow> ('st \<Rightarrow> ('st + 'a) shown) \<Rightarrow> 'st \<Rightarrow> ('st + 'a) shown" where
  "some_rounds 0 f st = ([], Done (Inl st))"
| "some_rounds (Suc n) f st = show_then (f st) (\<lambda>next_st. case next_st of
      Inl st \<Rightarrow> some_rounds n f st | Inr x \<Rightarrow> ([], Done (Inr x)))"

lemma rounds_step: "f st = (out, Done (Inl st')) \<Longrightarrow> rounds f st' = Some (out', r) \<Longrightarrow> rounds f st = Some (out @ out', r)"
  by (subst rounds.simps) simp

lemma rounds_end: "f st = (out, Done (Inr x)) \<Longrightarrow> rounds f st = Some (out, Done x)"
  by (subst rounds.simps) simp

lemma some_rounds_finish:
  assumes "some_rounds n f st = (out, Done (Inr x))"
  shows "rounds f st = Some (out, Done x)"
  using assms
proof (induction n arbitrary: st out)
  case (Suc n)
  then obtain out1 y out2 where y: "f st = (out1, Done y)" "out = out1 @ out2"
      "(case y of Inl st \<Rightarrow> some_rounds n f st | Inr x \<Rightarrow> ([], Done (Inr x))) = (out2, Done (Inr x))"
    by (auto simp: show_then_Done)
  show ?case
  proof (cases y)
    case (Inl st')
    with y Suc.IH [of st' out2] rounds_step [of f st out1 st'] show ?thesis by simp
  next
    case (Inr z)
    with y rounds_end [of f st out1 z] show ?thesis by simp
  qed
qed simp

lemma some_rounds_add:
  "some_rounds m f st = (out, Done (Inl st')) \<Longrightarrow>
    some_rounds (m + n) f st = (out @ fst (some_rounds n f st'), snd (some_rounds n f st'))"
proof (induction m arbitrary: st out)
  case (Suc m)
  then obtain out1 y out2 where y: "f st = (out1, Done y)" "out = out1 @ out2"
      "(case y of Inl st \<Rightarrow> some_rounds m f st | Inr x \<Rightarrow> ([], Done (Inr x))) = (out2, Done (Inl st'))"
    by (auto simp: show_then_Done)
  then obtain st1 where "y = Inl st1" "some_rounds m f st1 = (out2, Done (Inl st'))" by (cases y) auto
  with y(1,2) Suc.IH [of st1 out2] show ?case by simp
qed simp

text \<open>The number of rounds is no bound: a loop returns what some number of its rounds ends with, and only that.\<close>

lemma rounds_Some_Done:
  fixes f :: "'st \<Rightarrow> ('st + 'a) shown"
  assumes "rounds f st = Some (out, Done x)"
  shows "\<exists>n. some_rounds n f st = (out, Done (Inr x))"
proof -
  let ?P = "\<lambda>f st y. \<forall>out x. y = (out, Done x) \<longrightarrow> (\<exists>n. some_rounds n f st = (out, Done (Inr x)))"
  have "?P f st y" if "rounds f st = Some y" for y
  proof (rule rounds.raw_induct [of ?P, OF _ that])
    fix loop :: "('st \<Rightarrow> ('st + 'a) shown) \<Rightarrow> 'st \<Rightarrow> 'a shown option" and f :: "'st \<Rightarrow> ('st + 'a) shown" and st y
    assume IH: "\<And>f st y. loop f st = Some y \<Longrightarrow> ?P f st y"
      and y: "(case f st of
          (out, Done (Inl st)) \<Rightarrow> Option.bind (loop f st) (\<lambda>(more, r). Some (out @ more, r))
        | (out, Done (Inr x)) \<Rightarrow> Some (out, Done x)
        | (out, Raised e) \<Rightarrow> Some (out, Raised e)
        | (out, Uncaught) \<Rightarrow> Some (out, Uncaught)
        | (out, Hangs) \<Rightarrow> Some (out, Hangs)) = Some y"
    obtain out1 r where f: "f st = (out1, r)" by fastforce
    show "?P f st y"
    proof (intro allI impI)
      fix out x assume "y = (out, Done x)"
      with y f consider st' out2 where "r = Done (Inl st')" "loop f st' = Some (out2, Done x)" "out = out1 @ out2"
        | "r = Done (Inr x)" "out = out1"
        by (auto simp: Option.bind_eq_Some_conv split: outcome.splits sum.splits)
      then show "\<exists>n. some_rounds n f st = (out, Done (Inr x))"
      proof cases
        case 1
        then obtain n where "some_rounds n f st' = (out2, Done (Inr x))" using IH by blast
        with f 1 show ?thesis by (intro exI [of _ "Suc n"]) simp
      next
        case 2
        with f show ?thesis by (intro exI [of _ "Suc 0"]) simp
      qed
    qed
  qed
  with assms show ?thesis by blast
qed

subsection \<open>Numbers and lines\<close>

definition isspace :: "char \<Rightarrow> bool" where
  "isspace c \<longleftrightarrow> c = CHR '' '' \<or> (9 \<le> (of_char c :: nat) \<and> (of_char c :: nat) \<le> 13)"

text \<open>\<^verbatim>\<open>strtol\<close>: spaces, a sign, the digits that follow; what comes behind them is not looked at.
\<open>None\<close> is a text without a digit there.\<close>

definition strtol :: "string \<Rightarrow> int option" where
  "strtol s = (let s = dropWhile isspace s;
      (negative, s) = (case s of c # cs \<Rightarrow> if c = CHR ''-'' then (True, cs) else if c = CHR ''+'' then (False, cs) else (False, s) | [] \<Rightarrow> (False, s));
      digits = takeWhile isdigit s
    in if digits = [] then None else Some (if negative then - int (parse_decimal digits) else int (parse_decimal digits)))"

text \<open>\<^verbatim>\<open>std::stoi\<close>, \<^verbatim>\<open>std::stoll\<close> and \<^verbatim>\<open>std::stoull\<close> throw \<^verbatim>\<open>invalid_argument\<close> and \<^verbatim>\<open>out_of_range\<close>,
which are no errors of the program: nothing catches them.\<close>

definition arg_stoi :: "string \<Rightarrow> int outcome" where
  "arg_stoi s = (case strtol s of None \<Rightarrow> Uncaught | Some v \<Rightarrow> if in_i32 v then Done v else Uncaught)"

definition arg_stoll :: "string \<Rightarrow> int outcome" where
  "arg_stoll s = (case strtol s of None \<Rightarrow> Uncaught | Some v \<Rightarrow> if in_i64 v then Done v else Uncaught)"

definition arg_stoull :: "string \<Rightarrow> nat outcome" where
  "arg_stoull s = (case strtol s of None \<Rightarrow> Uncaught
    | Some v \<Rightarrow> if \<bar>v\<bar> < 2 ^ 64 then Done (nat (v mod 2 ^ 64)) else Uncaught)"

text \<open>\<^verbatim>\<open>std::getline\<close> until it fails: a last line without a newline counts when it has a character.\<close>

fun lines_of :: "string \<Rightarrow> string list" where
  "lines_of [] = []"
| "lines_of (c # cs) = (if c = CHR 0x0A then [] # lines_of cs
     else (case lines_of cs of [] \<Rightarrow> [[c]] | l # ls \<Rightarrow> (c # l) # ls))"

end
