(* ===== verification/Cli.thy ===== *)
theory Cli
  imports Terminal Group_Consumer
begin

text \<open>
  \<^verbatim>\<open>apps/dariyakyu_cli.cpp\<close>: the commands that talk to a broker. The link is the client and the pause
  between two polls; what a command writes is a value. The standard input is its text.
\<close>

subsection \<open>Options\<close>

record cli_options =
  opt_host :: string
  opt_port :: int
  opt_partitions :: int
  opt_from :: string
  opt_follow :: bool
  opt_group :: string
  opt_strategy :: string
  opt_compact :: bool

fun valueOf :: "string list \<Rightarrow> string \<Rightarrow> string \<Rightarrow> string" where
  "valueOf (a # b # args) name fallback = (if a = name then b else valueOf (b # args) name fallback)"
| "valueOf args name fallback = fallback"

definition hasFlag :: "string list \<Rightarrow> string \<Rightarrow> bool" where
  "hasFlag args name \<longleftrightarrow> list_ex (\<lambda>arg. arg = name) args"

text \<open>\<^verbatim>\<open>rfind\<close> of one character.\<close>

definition rfind_char :: "char \<Rightarrow> string \<Rightarrow> nat option" where
  "rfind_char c s = (if c \<in> set s then Some (length s - 1 - length (takeWhile (\<lambda>x. x \<noteq> c) (rev s))) else None)"

definition parseOptions :: "string list \<Rightarrow> cli_options outcome" where
  "parseOptions args = (let broker = valueOf args ''--broker'' ''127.0.0.1:9092'' in
     case rfind_char (CHR '':'') broker of
       None \<Rightarrow> Raised Error
     | Some colon \<Rightarrow>
         then_do (arg_stoi (drop (colon + 1) broker)) (\<lambda>port.
         then_do (arg_stoi (valueOf args ''--partitions'' ''1'')) (\<lambda>partitions.
         Done \<lparr>opt_host = take colon broker, opt_port = port, opt_partitions = partitions,
               opt_from = valueOf args ''--from'' ''earliest'', opt_follow = hasFlag args ''--follow'',
               opt_group = valueOf args ''--group'' '''', opt_strategy = valueOf args ''--strategy'' ''range'',
               opt_compact = hasFlag args ''--compact''\<rparr>)))"

text \<open>Reports an error; true when the caller should stop.\<close>

definition reportError :: "error_code \<Rightarrow> string \<Rightarrow> printed list \<times> bool" where
  "reportError e what = (if e = EC_None then ([], False)
     else ([Err (c_str what @ '': '' @ describe_code e @ newline)], True))"

subsection \<open>Create and describe\<close>

definition create_request :: "string \<Rightarrow> cli_options \<Rightarrow> create_topic_request" where
  "create_request topic options = \<lparr>ctq_topics = [\<lparr>nt_name = topic, nt_partitionCount = opt_partitions options,
     nt_retentionMs = None, nt_retentionBytes = None, nt_maxSegmentBytes = None,
     nt_compact = (if opt_compact options then Some True else None)\<rparr>], ctq_timeoutMs = 0\<rparr>"

fun report_created :: "cli_options \<Rightarrow> created_topic list \<Rightarrow> printed list \<times> int" where
  "report_created options [] = ([], 0)"
| "report_created options (answer # others) =
    (let (out, stop) = reportError (ct_error answer) (''create '' @ ct_name answer) in
     if stop then (out, 1)
     else let (more, code) = report_created options others in
       (Out (''created '' @ c_str (ct_name answer) @ '' with '' @ to_string (opt_partitions options) @ '' partition(s)'' @
          (if opt_compact options then '', compacted'' else []) @ newline) # more, code))"

definition doCreate :: "'s link \<Rightarrow> string \<Rightarrow> cli_options \<Rightarrow> 's \<Rightarrow> int shown" where
  "doCreate link topic options s =
    show_then (silent (ask link CreateTopic encodeCreateTopicRequest decodeCreateTopicResponse (create_request topic options) s))
      (\<lambda>(response, s). let (out, code) = report_created options (ctp_topics response) in show_text out code)"

definition describe_broker :: "int \<Rightarrow> broker_info \<Rightarrow> printed" where
  "describe_broker controllerId b = Out (''  '' @ to_string (bi_nodeId b) @ ''  '' @ c_str (bi_host b) @ '':'' @ to_string (bi_port b) @
     (if bi_nodeId b = controllerId then ''  (controller)'' else []) @ newline)"

definition bounds_request :: "topic_metadata list \<Rightarrow> list_offsets_request" where
  "bounds_request topics = \<lparr>loq_topics = map (\<lambda>t. \<lparr>lot_name = tm_name t, lot_partitions = concat (map (\<lambda>p.
     [\<lparr>loa_partition = pm_md_partition p, loa_timestamp = kEarliestTimestamp\<rparr>,
      \<lparr>loa_partition = pm_md_partition p, loa_timestamp = kLatestTimestamp\<rparr>]) (tm_partitions t))\<rparr>)
     (filter (\<lambda>t. tm_error t = EC_None) topics)\<rparr>"

text \<open>The bounds are looked up by the position of the topic in the metadata.\<close>

definition describe_partition :: "listed_topic list \<Rightarrow> nat \<Rightarrow> nat \<times> partition_metadata \<Rightarrow> printed" where
  "describe_partition bounds t = (\<lambda>(k, p).
    Out (''  partition '' @ pad_right 4 (to_string (pm_md_partition p)) @ '' leader '' @ to_string (pm_md_leader p) @
      (if t < length bounds \<and> 2 * k + 1 < length (lt_partitions (bounds ! t))
       then (let earliest = lo_offset (lt_partitions (bounds ! t) ! (2 * k)); latest = lo_offset (lt_partitions (bounds ! t) ! (2 * k + 1))
             in ''   offsets '' @ to_string earliest @ ''..'' @ to_string latest @ ''  ('' @ to_string (latest - earliest) @ '' record(s))'')
       else []) @ newline))"

definition describe_answer :: "listed_topic list \<Rightarrow> nat \<times> topic_metadata \<Rightarrow> printed list" where
  "describe_answer bounds = (\<lambda>(t, answer).
    Out (newline @ c_str (tm_name answer)) #
    (if tm_error answer \<noteq> EC_None then [Out (''  ['' @ describe_code (tm_error answer) @ '']'' @ newline)]
     else Out newline # map (describe_partition bounds t) (List.enumerate 0 (tm_partitions answer))))"

definition doDescribe :: "'s link \<Rightarrow> string \<Rightarrow> 's \<Rightarrow> int shown" where
  "doDescribe link topic s =
    (let request = (if topic = [] then \<lparr>mq_allTopics = True, mq_topics = []\<rparr> else \<lparr>mq_allTopics = False, mq_topics = [topic]\<rparr>) in
     show_then (silent (ask link Metadata encodeMetadataRequest decodeMetadataResponse request s)) (\<lambda>(metadata, s).
     show_then (show_text (Out (''brokers:'' @ newline) # map (describe_broker (mp_controllerId metadata)) (mp_brokers metadata)) ()) (\<lambda>_.
     if mp_topics metadata = [] then show_text [Out (newline @ ''no topics'' @ newline)] 0
     else
       show_then (silent (if loq_topics (bounds_request (mp_topics metadata)) = [] then Done []
         else then_do (ask link ListOffsets encodeListOffsetsRequest decodeListOffsetsResponse (bounds_request (mp_topics metadata)) s)
           (\<lambda>(bounds, s). Done (lop_topics bounds)))) (\<lambda>bounds.
       show_text (concat (map (describe_answer bounds) (List.enumerate 0 (mp_topics metadata)))) 0))))"

subsection \<open>Produce\<close>

definition line_batch :: "int \<Rightarrow> string \<Rightarrow> byte list result" where
  "line_batch now line = bind_r (append_record now None (Some (string_bytes line)) [] (RecordBatchBuilder 0)) build"

definition produce_line_request :: "string \<Rightarrow> int \<Rightarrow> byte list \<Rightarrow> produce_request" where
  "produce_line_request topic p batch = \<lparr>pq_acks = 1, pq_timeoutMs = 0, pq_topics = [\<lparr>pqt_name = topic, pqt_partitions =
     [\<lparr>pqp_partition = p, pqp_batch = batch, pqp_batchOffsetInBody = 0\<rparr>]\<rparr>]\<rparr>"

definition partition_text :: "string \<Rightarrow> int \<Rightarrow> string" where
  "partition_text topic p = topic @ ''-'' @ to_string p"

text \<open>One line: its batch sent, and its offset or the error shown. The clock gives the time of each batch.\<close>

definition produce_line :: "'s link \<Rightarrow> (nat \<Rightarrow> int) \<Rightarrow> string \<Rightarrow> int \<Rightarrow> nat \<Rightarrow> string \<Rightarrow> 's \<Rightarrow> (bool \<times> 's) shown" where
  "produce_line link clock topic p sent line s =
    show_then (silent (of_result (line_batch (clock sent) line))) (\<lambda>batch.
    show_then (silent (ask link Produce encodeProduceRequest decodeProduceResponse (produce_line_request topic p batch) s)) (\<lambda>(response, s).
    show_then (silent (at_0 (pp_topics response))) (\<lambda>t.
    show_then (silent (at_0 (pdt_partitions t))) (\<lambda>answer.
      let (out, stop) = reportError (pd_error answer) (partition_text topic p) in
      if stop then (out, Done (False, s)) else ([Out (to_string (pd_baseOffset answer) @ newline)], Done (True, s))))))"

fun produce_lines :: "'s link \<Rightarrow> (nat \<Rightarrow> int) \<Rightarrow> string \<Rightarrow> int \<Rightarrow> nat \<Rightarrow> string list \<Rightarrow> 's \<Rightarrow> (int \<times> 's) shown" where
  "produce_lines link clock topic p sent [] s = ([Err (''produced '' @ to_string (int sent) @ '' record(s)'' @ newline)], Done (0, s))"
| "produce_lines link clock topic p sent (line # lines) s =
    show_then (produce_line link clock topic p sent line s) (\<lambda>(ok, s).
      if ok then produce_lines link clock topic p (Suc sent) lines s else ([], Done (1, s)))"

definition doProduce :: "'s link \<Rightarrow> (nat \<Rightarrow> int) \<Rightarrow> string \<Rightarrow> int \<Rightarrow> string \<Rightarrow> 's \<Rightarrow> (int \<times> 's) shown" where
  "doProduce link clock topic p input s = produce_lines link clock topic p 0 (lines_of input) s"

subsection \<open>Consume\<close>

definition start_request :: "string \<Rightarrow> int \<Rightarrow> string \<Rightarrow> list_offsets_request" where
  "start_request topic p from_where = \<lparr>loq_topics = [\<lparr>lot_name = topic, lot_partitions =
     [\<lparr>loa_partition = p, loa_timestamp = (if from_where = ''earliest'' then kEarliestTimestamp else kLatestTimestamp)\<rparr>]\<rparr>]\<rparr>"

definition resolveStart :: "'s link \<Rightarrow> string \<Rightarrow> int \<Rightarrow> string \<Rightarrow> 's \<Rightarrow> (int \<times> 's) outcome" where
  "resolveStart link topic p from_where s =
    (if from_where \<noteq> ''earliest'' \<and> from_where \<noteq> ''latest'' then then_do (arg_stoll from_where) (\<lambda>offset. Done (offset, s))
     else then_do (ask link ListOffsets encodeListOffsetsRequest decodeListOffsetsResponse (start_request topic p from_where) s) (\<lambda>(response, s).
       then_do (at_0 (lop_topics response)) (\<lambda>t.
       then_do (at_0 (lt_partitions t)) (\<lambda>answer.
         if lo_error answer \<noteq> EC_None then Raised Error else Done (lo_offset answer, s)))))"

text \<open>A record's line: its offset, a tab and its value up to a zero byte.\<close>

definition record_text :: "string \<Rightarrow> int \<Rightarrow> record_data \<Rightarrow> printed" where
  "record_text label base rec = Out (c_str label @ to_string (offsetFrom rec base) @ [CHR 0x09] @
     (case rec_value rec of None \<Rightarrow> [] | Some v \<Rightarrow> c_str (bytes_string v)) @ newline)"

text \<open>
  \<^verbatim>\<open>printBatches\<close>: every complete batch is shown, the offset moves behind it, and the number of records is
  returned. Only the size of a batch may be unreadable.
\<close>

function printBatches :: "byte list \<Rightarrow> string \<Rightarrow> int \<Rightarrow> nat \<Rightarrow> (nat \<times> int) shown" where
  "printBatches records label offset printed_so_far =
    (if records = [] then ([], Done (printed_so_far, offset))
     else case totalSizeOf records of
         Inl e \<Rightarrow> if e = CorruptData then ([], Done (printed_so_far, offset)) else ([], Raised e)
       | Inr size_of_batch \<Rightarrow>
           if size_of_batch > length records then ([], Done (printed_so_far, offset))
           else let batch = take size_of_batch records in
             show_then (silent (of_result (parseHeader batch))) (\<lambda>header.
             show_then (silent (of_result (decodeRecords batch))) (\<lambda>recs.
             show_then (show_text (map (record_text label (bh_baseOffset header)) recs) ()) (\<lambda>_.
               printBatches (drop size_of_batch records) label (lastOffset header + 1) (printed_so_far + length recs)))))"
  by pat_completeness auto
termination
  by (relation "measure (\<lambda>(records, _). length records)") (auto dest: totalSizeOf_InrD(2))

declare printBatches.simps [simp del]

definition fetch_request_at :: "string \<Rightarrow> int \<Rightarrow> int \<Rightarrow> fetch_request" where
  "fetch_request_at topic p offset = \<lparr>fq_maxWaitMs = 0, fq_minBytes = 0, fq_topics = [\<lparr>fqt_name = topic, fqt_partitions =
     [\<lparr>fa_partition = p, fa_fetchOffset = offset, fa_maxBytes = 2 ^ 20\<rparr>]\<rparr>]\<rparr>"

definition fetch_partition_at :: "'s link \<Rightarrow> string \<Rightarrow> int \<Rightarrow> int \<Rightarrow> 's \<Rightarrow> (fetch_view_partition \<times> 's) outcome" where
  "fetch_partition_at link topic p offset s =
    then_do (ask link Fetch encodeFetchRequest decodeFetchResponseView (fetch_request_at topic p offset) s) (\<lambda>(response, s).
    then_do (at_0 (frv_topics response)) (\<lambda>t.
    then_do (at_0 (fvt_partitions t)) (\<lambda>answer. Done (answer, s))))"

text \<open>One turn of the loop of \<^verbatim>\<open>doConsume\<close>.\<close>

definition consume_round :: "'s link \<Rightarrow> string \<Rightarrow> int \<Rightarrow> bool \<Rightarrow> int \<times> 's \<Rightarrow> (int \<times> 's + int \<times> 's) shown" where
  "consume_round link topic p keep_on = (\<lambda>(offset, s).
    show_then (silent (fetch_partition_at link topic p offset s)) (\<lambda>(answer, s).
      if fvp_error answer = EC_OffsetOutOfRange
      then if offset < fvp_logStartOffset answer
        then ([Err (''offset '' @ to_string offset @ '' has been deleted; resuming at '' @ to_string (fvp_logStartOffset answer) @ newline)],
              Done (Inl (fvp_logStartOffset answer, s)))
        else ([Err (''offset '' @ to_string offset @ '' is past the end of the log ('' @ to_string (fvp_highWatermark answer) @ '')'' @ newline)],
              Done (Inr (1, s)))
      else let (out, stop) = reportError (fvp_error answer) (partition_text topic p) in
        if stop then (out, Done (Inr (1, s)))
        else if fvp_records answer = []
        then ([], Done (if \<not> keep_on then Inr (0, s) else Inl (offset, lk_pause link s)))
        else show_then (printBatches (fvp_records answer) [] offset 0) (\<lambda>(_, offset). ([], Done (Inl (offset, s))))))"

definition doConsume :: "'s link \<Rightarrow> string \<Rightarrow> int \<Rightarrow> cli_options \<Rightarrow> 's \<Rightarrow> (int \<times> 's) shown option" where
  "doConsume link topic p options s = (case resolveStart link topic p (opt_from options) s of
      Done (offset, s) \<Rightarrow> rounds (consume_round link topic p (opt_follow options)) (offset, s)
    | Raised e \<Rightarrow> Some ([], Raised e)
    | Uncaught \<Rightarrow> Some ([], Uncaught)
    | Hangs \<Rightarrow> Some ([], Hangs))"

subsection \<open>Consume as a member of a group\<close>

text \<open>\<^verbatim>\<open>fetchOnce\<close>: one partition read once. A negative count ends the program.\<close>

definition fetchOnce :: "'s link \<Rightarrow> topic_partition \<Rightarrow> int \<Rightarrow> 's \<Rightarrow> (int \<times> int \<times> 's) shown" where
  "fetchOnce link tp position s =
    show_then (silent (fetch_partition_at link (tp_topic tp) (tp_partition tp) position s)) (\<lambda>(answer, s).
      if fvp_error answer = EC_OffsetOutOfRange
      then ([Err (c_str (tp_toString tp) @ '': committed offset '' @ to_string position @ '' is gone; resuming at '' @
               to_string (fvp_logStartOffset answer) @ newline)], Done (0, fvp_logStartOffset answer, s))
      else let (out, stop) = reportError (fvp_error answer) (tp_toString tp) in
        if stop then (out, Done (- 1, position, s))
        else show_then (printBatches (fvp_records answer) (tp_toString tp @ [CHR 0x09]) position 0) (\<lambda>(count, position).
          ([], Done (int count, position, s))))"

definition position_of :: "(topic_partition \<times> int) list \<Rightarrow> topic_partition \<Rightarrow> int" where
  "position_of positions tp = (case map_of positions tp of None \<Rightarrow> 0 | Some n \<Rightarrow> n)"

text \<open>One pass over the assigned partitions: how many records were read, or nothing when the program ends.\<close>

fun read_assigned :: "'s link \<Rightarrow> topic_partition list \<Rightarrow> int \<Rightarrow> (topic_partition \<times> int) list \<Rightarrow> group_consumer \<times> 's \<Rightarrow>
    (int option \<times> (topic_partition \<times> int) list \<times> group_consumer \<times> 's) shown" where
  "read_assigned link [] so_far positions (gc, s) = ([], Done (Some so_far, positions, gc, s))"
| "read_assigned link (tp # tps) so_far positions (gc, s) =
    show_then (fetchOnce link tp (position_of positions tp) s) (\<lambda>(number, position, s).
      let positions' = set_at tp position positions in
      if number < 0 then ([], Done (None, positions', gc, s))
      else show_then (silent (if position \<noteq> position_of positions tp then consumer_commit link tp position (gc, s) else Done ((), gc, s)))
        (\<lambda>(_, gc, s). read_assigned link tps (so_far + number) positions' (gc, s)))"

fun first_positions :: "'s link \<Rightarrow> topic_partition list \<Rightarrow> (topic_partition \<times> int) list \<Rightarrow> group_consumer \<times> 's \<Rightarrow>
    ((topic_partition \<times> int) list \<times> group_consumer \<times> 's) outcome" where
  "first_positions link [] positions (gc, s) = Done (positions, gc, s)"
| "first_positions link (tp # tps) positions (gc, s) =
    then_do (committed link tp (gc, s)) (\<lambda>(found, gc, s).
      first_positions link tps (set_at tp (case found of None \<Rightarrow> 0 | Some n \<Rightarrow> n) positions) (gc, s))"

definition assignment_text :: "group_consumer \<Rightarrow> topic_partition list \<Rightarrow> printed list" where
  "assignment_text gc assigned =
    Err (''member '' @ c_str (gcn_memberId gc) @ '', generation '' @ to_string (gcn_generation gc) @
      (if gcn_isLeader gc then '' (leader)'' else []) @ '', assigned:'') #
    map (\<lambda>tp. Err ('' '' @ c_str (tp_toString tp))) assigned @
    [Err ((if assigned = [] then '' nothing'' else []) @ newline)]"

text \<open>Where the loops of \<^verbatim>\<open>doConsumeGroup\<close> stand: about to join, or reading with an assignment.\<close>

datatype reading = Joining | Reading "topic_partition list" "(topic_partition \<times> int) list"

fun group_round :: "'s link \<Rightarrow> bool \<Rightarrow> reading \<times> group_consumer \<times> 's \<Rightarrow>
    ((reading \<times> group_consumer \<times> 's) + (int \<times> group_consumer \<times> 's)) shown" where
  "group_round link keep_on (Joining, gc, s) =
    show_then (silent (ensureJoined link (gc, s))) (\<lambda>(assigned, gc, s).
    show_then (show_text (assignment_text gc assigned) ()) (\<lambda>_.
    show_then (silent (first_positions link assigned [] (gc, s))) (\<lambda>(positions, gc, s).
      ([], Done (Inl (Reading assigned positions, gc, s))))))"
| "group_round link keep_on (Reading assigned positions, gc, s) =
    show_then (read_assigned link assigned 0 positions (gc, s)) (\<lambda>(number, positions, gc, s). case number of
        None \<Rightarrow> ([], Done (Inr (1, gc, s)))
      | Some n \<Rightarrow>
          if n > 0 then ([], Done (Inl (Reading assigned positions, gc, s)))
          else if \<not> keep_on then show_then (silent (consumer_leave link (gc, s))) (\<lambda>(_, gc, s). ([], Done (Inr (0, gc, s))))
          else show_then (silent (consumer_heartbeat link (gc, s))) (\<lambda>(member, gc, s).
            if member then ([], Done (Inl (Reading assigned positions, gc, lk_pause link s)))
            else ([Err (''rebalancing'' @ newline)], Done (Inl (Joining, gc, s)))))"

definition kSessionTimeoutMs :: int where
  "kSessionTimeoutMs = 10000"

definition doConsumeGroup :: "'s link \<Rightarrow> string \<Rightarrow> cli_options \<Rightarrow> 's \<Rightarrow> (int \<times> group_consumer \<times> 's) shown option" where
  "doConsumeGroup link topic options s =
    rounds (group_round link (opt_follow options)) (Joining, GroupConsumer (opt_group options) [topic] (opt_strategy options) kSessionTimeoutMs, s)"

end
