(* ===== verification/Cli_Lines.thy ===== *)
theory Cli_Lines
  imports Cli Log_Cleaner
begin

text \<open>
  The batch the producer of the command line makes of a line, and the lines it and the consumer show.
\<close>

subsection \<open>The batch of a line\<close>

definition line_entry :: "int \<Rightarrow> string \<Rightarrow> entry" where
  "line_entry now line = \<lparr>en_delta = 0, en_timestamp = now, en_key = None, en_value = Some (string_bytes line), en_headers = []\<rparr>"

lemma line_entry_ok:
  assumes "length line < 2 ^ 28" "in_i64 now"
  shows "entries_ok [line_entry now line]" "length (concat (map record_repr (records_of [line_entry now line]))) \<le> length line + 40"
proof -
  let ?r = "record_of now (line_entry now line)"
  have v: "length (nullable_repr (rec_value ?r)) \<le> length line + 5" "nullable_ok (rec_value ?r)"
    using assms(1) length_varint_bytes [of "int (length line)"]
    by (simp_all add: record_of_def line_entry_def nullable_repr_def nullable_ok_def)
  have k: "length (nullable_repr (rec_key ?r)) \<le> 5" "nullable_ok (rec_key ?r)"
    using length_varint_bytes [of "- 1"] by (simp_all add: record_of_def line_entry_def nullable_repr_def nullable_ok_def)
  have body: "length (record_body ?r) \<le> length line + 35"
    using v(1) k(1) length_varlong_bytes [of "rec_timestampDelta ?r"] length_varint_bytes [of "rec_offsetDelta ?r"] length_varint_bytes [of 0]
    by (simp add: record_body_def) (simp add: record_of_def line_entry_def)
  then have repr: "length (record_repr ?r) \<le> length line + 40"
    using length_varint_bytes [of "int (length (record_body ?r))"] by (simp add: record_repr_def)
  have recs: "records_of [line_entry now line] = [?r]" by (simp add: records_of_def line_entry_def)
  have "record_ok ?r"
    using v(2) k(2) body assms(1) by (simp add: record_ok_def) (simp add: record_of_def line_entry_def range_simps)
  with recs repr assms show "entries_ok [line_entry now line]" by (simp add: entries_ok_def) (simp add: line_entry_def)
  show "length (concat (map record_repr (records_of [line_entry now line]))) \<le> length line + 40" using recs repr by simp
qed

lemma line_batch_ok:
  assumes "length line < 2 ^ 28" "in_i64 now"
  shows "\<exists>b r. line_batch now line = Inr b \<and> valid_batch b \<and> bh_lastOffsetDelta (hdr b) = 0 \<and> decodeRecords b = Inr [r] \<and>
    rec_offsetDelta r = 0 \<and> rec_value r = Some (string_bytes line) \<and> length b \<le> length line + 101"
proof -
  let ?e = "line_entry now line"
  note ok = line_entry_ok [OF assms]
  obtain bytes h where b: "append_all [?e] (RecordBatchBuilder 0) = Inr (builder_of 0 [?e])"
      "build (builder_of 0 [?e]) = Inr bytes" "parseHeader bytes = Inr h" "totalSizeOf bytes = Inr (length bytes)"
      "verifyCrc bytes = Inr True" "decodeRecords bytes = Inr (records_of [?e])" "bh_lastOffsetDelta h = last_delta [?e]"
      "length bytes = 61 + length (concat (map record_repr (records_of [?e])))"
    using entries_build [OF _ ok(1)] by (auto simp: lastOffset_def)
  have "append_record now None (Some (string_bytes line)) [] (RecordBatchBuilder 0) = Inr (builder_of 0 [?e])"
    using b(1) by (simp add: append_record_def RecordBatchBuilder_def line_entry_def bind_r_Inr_iff)
  then have "line_batch now line = Inr bytes" using b(2) by (simp add: line_batch_def)
  moreover have "valid_batch bytes" "bh_lastOffsetDelta (hdr bytes) = 0"
    using b(3-5,7) parseHeader_InrD(2) [OF b(3)] by (simp_all add: valid_batch_def batch_wf_def last_delta_def line_entry_def)
  moreover have "decodeRecords bytes = Inr [record_of now ?e]" using b(6) by (simp add: records_of_def line_entry_def)
  moreover have "length bytes \<le> length line + 101" using b(8) ok(2) by simp
  ultimately show ?thesis by (auto simp: record_of_def line_entry_def)
qed

text \<open>The line a consumer shows for a line produced.\<close>

definition offset_line :: "int \<Rightarrow> printed" where
  "offset_line n = Out (to_string n @ newline)"

definition value_line :: "int \<Rightarrow> string \<Rightarrow> printed" where
  "value_line n line = Out (to_string n @ [CHR 0x09] @ c_str line @ newline)"

end
