(* ===== verification/Cli_Consume.thy ===== *)
theory Cli_Consume
  imports Cli_Lines Consumer_Rounds Broker_Produce
begin

text \<open>
  The consumer of the command line against the broker's loop: what it shows of a partition, and where it
  stops.
\<close>

subsection \<open>What is shown of a range\<close>

definition legible :: "byte list \<Rightarrow> bool" where
  "legible b \<longleftrightarrow> (\<exists>recs. decodeRecords b = Inr recs)"

text \<open>The lines of a batch, and of a list of batches.\<close>

definition batch_text :: "string \<Rightarrow> byte list \<Rightarrow> printed list" where
  "batch_text label b = (case decodeRecords b of Inr recs \<Rightarrow> map (record_text label (bh_baseOffset (hdr b))) recs | Inl _ \<Rightarrow> [])"

definition log_text :: "string \<Rightarrow> byte list list \<Rightarrow> printed list" where
  "log_text label bs = concat (map (batch_text label) bs)"

lemma log_text_simps [simp]: "log_text label [] = []" "log_text label (b # bs) = batch_text label b @ log_text label bs"
    "log_text label (xs @ ys) = log_text label xs @ log_text label ys"
  by (simp_all add: log_text_def)

lemma printBatches_Nil [simp]: "printBatches [] label offset k = ([], Done (k, offset))"
  by (subst printBatches.simps) simp

text \<open>A range that is cut inside a batch shows the whole batches in front of the cut.\<close>

lemma printBatches_take:
  assumes "list_all batch_wf ys" "list_all legible ys"
  shows "\<exists>ps qs. ys = ps @ qs \<and>
    printBatches (take n (concat ys)) label offset k = (log_text label ps, Done (k + length (log_text label ps), end_offset offset ps)) \<and>
    (ys \<noteq> [] \<longrightarrow> length (hd ys) \<le> n \<longrightarrow> ps \<noteq> [])"
  using assms
proof (induction ys arbitrary: n offset k)
  case Nil
  then show ?case by (simp add: end_offset_def)
next
  case (Cons b ys)
  have b: "batch_wf b" "totalSizeOf b = Inr (length b)" "61 \<le> length b"
    using Cons.prems(1) batch_wf_length [of b] by (simp_all add: batch_wf_def)
  show ?case
  proof (cases "length b \<le> n")
    case False
    then have t: "take n (concat (b # ys)) = take n b" by simp
    have "printBatches (take n b) label offset k = ([], Done (k, offset))"
    proof (cases "12 \<le> n")
      case True
      then have "totalSizeOf (take n b) = Inr (length b)" using b(2) by (simp add: totalSizeOf_take)
      with False show ?thesis by (subst printBatches.simps) simp
    next
      case short: False
      then show ?thesis by (subst printBatches.simps) (simp add: totalSizeOf_alt)
    qed
    with False t show ?thesis by (intro exI [of _ "[]"] exI [of _ "b # ys"]) (simp add: end_offset_def)
  next
    case True
    obtain recs where recs: "decodeRecords b = Inr recs" using Cons.prems(2) by (auto simp: legible_def)
    have bytes: "take n (concat (b # ys)) = b @ take (n - length b) (concat ys)" using True by simp
    have "totalSizeOf (b @ take (n - length b) (concat ys)) = Inr (length b)"
      using b by (simp add: totalSizeOf_append)
    then have step: "printBatches (take n (concat (b # ys))) label offset k =
        (let (out, r) = printBatches (take (n - length b) (concat ys)) label (lastOffset (hdr b) + 1) (k + length recs)
         in (batch_text label b @ out, r))"
      using b recs unfolding bytes
      by (subst printBatches.simps) (auto simp: parseHeader_wf batch_text_def split_beta)
    obtain ps qs where ps: "ys = ps @ qs"
        "printBatches (take (n - length b) (concat ys)) label (lastOffset (hdr b) + 1) (k + length recs) =
          (log_text label ps, Done (k + length recs + length (log_text label ps), end_offset (lastOffset (hdr b) + 1) ps))"
      using Cons.IH [of "n - length b" "lastOffset (hdr b) + 1" "k + length recs"] Cons.prems by auto
    have "length (batch_text label b) = length recs" using recs by (simp add: batch_text_def)
    with ps show ?thesis
      unfolding step by (intro exI [of _ "b # ps"] exI [of _ qs]) (simp add: end_offset_def)
  qed
qed

subsection \<open>A fetch over the wire\<close>

text \<open>Others may do what they like to the broker, as long as this partition stays as it is.\<close>

definition hosts :: "string \<Rightarrow> int \<Rightarrow> partition_log \<Rightarrow> broker \<Rightarrow> bool" where
  "hosts topic p l bk \<longleftrightarrow> lm_get (bk_logs bk) \<lparr>tp_topic = topic, tp_partition = p\<rparr> = Some l"

text \<open>A connection with so many requests left in its correlation ids.\<close>

definition cl_room :: "endpoint \<Rightarrow> nat \<Rightarrow> nat \<Rightarrow> client \<Rightarrow> bool" where
  "cl_room ep size_of_body k cl \<longleftrightarrow> client_ready cl \<and> cl_nextCorrelationId cl + int k < 2 ^ 31 \<and>
     size_of_body + length (request_header_repr (header_of_call Fetch cl)) \<le> ep_maxFrameBytes ep \<and>
     size_of_body + length (request_header_repr (header_of_call Fetch cl)) < 2 ^ 31"

lemma header_length: "length (request_header_repr (header_of_call key cl)) = length (request_header_repr (header_of_call Fetch cl))"
  by (simp add: request_header_repr_def header_of_call_def key_repr_def be_bytes_2)

lemma cl_room_fits: "cl_room ep n (Suc k) cl \<Longrightarrow> length body \<le> n \<Longrightarrow> call_fits ep key body cl"
  by (simp add: cl_room_def call_fits_def frame_of_call_def header_length [of key])

lemma cl_room_after:
  assumes "cl_room ep n (j + k) cl" "client_ready (after_call cl arrived)" "j = 1"
  shows "cl_room ep n k (after_call cl arrived)"
proof -
  have "request_header_repr (header_of_call Fetch (after_call cl arrived)) = request_header_repr (header_of_call Fetch cl)
      \<or> length (request_header_repr (header_of_call Fetch (after_call cl arrived))) = length (request_header_repr (header_of_call Fetch cl))"
    by (simp add: request_header_repr_def header_of_call_def i32_repr_def be_bytes_4)
  with assms show ?thesis by (auto simp: cl_room_def)
qed

lemma cl_room_less: "cl_room ep n k cl \<Longrightarrow> j \<le> k \<Longrightarrow> cl_room ep n j cl"
  by (simp add: cl_room_def)

abbreviation asked_at :: "int \<Rightarrow> int \<Rightarrow> fetch_asked" where
  "asked_at p offset \<equiv> \<lparr>fa_partition = p, fa_fetchOffset = offset, fa_maxBytes = 2 ^ 20\<rparr>"

text \<open>What a body of the consumer takes at most.\<close>

definition consume_body :: "string \<Rightarrow> nat" where
  "consume_body topic = length topic + 48"

definition partition_ok :: "string \<Rightarrow> int \<Rightarrow> partition_log \<Rightarrow> bool" where
  "partition_ok topic p l \<longleftrightarrow> string_ok topic \<and> in_i32 p \<and> in_i64 (lg_highWatermark l) \<and> in_i64 (logStartOffset l)"

lemma fetch_over_the_wire:
  assumes "ep_registry ep = registerAllHandlers hash Map.empty" "partition_ok topic p l" "hosts topic p l (ep_others ep i bk)"
    and "in_i64 offset" "cl_room ep n (Suc k) cl"
    and read: "log_read offset (2 ^ 20) l = Inr r" "in_file (range_of l r)" "length (pread (range_of l r)) + 2 ^ 17 \<le> kMaxFrameBytes"
    and body: "consume_body topic \<le> n"
  shows "\<exists>cl'. fetch_partition_at (client_link (loop_peer ep)) topic p offset (cl, i, bk) =
      Done (\<lparr>fvp_partition = p, fvp_error = errorCodeFor (rr_error r), fvp_highWatermark = lg_highWatermark l, fvp_logStartOffset = logStartOffset l,
        fvp_records = (if rr_error r = NoError then pread (range_of l r) else [])\<rparr>, cl', Suc i, ep_others ep i bk) \<and>
    cl_room ep n k cl'"
proof -
  let ?bk = "ep_others ep i bk" and ?q = "fetch_request_at topic p offset"
  let ?m = "fetched ?q ?bk" and ?rc = "context_of_call ep Fetch (fetch_request_repr (fetch_request_at topic p offset)) cl i"
  let ?view = "\<lparr>fvp_partition = p, fvp_error = errorCodeFor (rr_error r), fvp_highWatermark = lg_highWatermark l, fvp_logStartOffset = logStartOffset l,
    fvp_records = (if rr_error r = NoError then pread (range_of l r) else [])\<rparr>"
  have one: "fetch_one (bk_logs ?bk) topic (asked_at p offset) = \<lparr>fp_partition = p, fp_error = errorCodeFor (rr_error r),
      fp_highWatermark = lg_highWatermark l, fp_logStartOffset = logStartOffset l,
      fp_records = (if rr_error r = NoError then range_of l r else no_range)\<rparr>"
    using assms(3) read(1) by (simp add: fetch_one_def hosts_def)
  have view: "view_of ?m = \<lparr>frv_topics = [\<lparr>fvt_name = topic, fvt_partitions = [?view]\<rparr>]\<rparr>"
    using one by (simp add: fetched_def fetch_request_at_def view_of_def view_topic_def view_partition_def pread_def no_range_def)
  have code: "code_ok (errorCodeFor (rr_error r))" by (cases "rr_error r") (simp_all add: code_ok_def)
  have blob: "blob_ok (fvp_records ?view)" using read(3) by (simp add: blob_ok_def kMaxFrameBytes_def)
  have ok: "fetch_response_view_ok (view_of ?m)"
    using assms(2) code blob by (simp add: view fetch_response_view_ok_def fetch_view_topic_ok_def fetch_view_partition_ok_def array_ok_def partition_ok_def)
  have "length (fetch_response_view_repr (view_of ?m)) + 4 = length (fvp_records ?view) + length topic + 40"
    unfolding view by (simp add: fetch_response_view_repr_def fetch_view_topic_repr_def fetch_view_partition_repr_def array_repr_def string_repr_def
        code_repr_def blob_repr_def be_bytes_8 be_bytes_4 be_bytes_2)
  then have fits: "length (fetch_response_view_repr (view_of ?m)) + 4 \<le> kMaxFrameBytes"
    using assms(2) read(3) by (simp add: partition_ok_def string_ok_def kMaxFrameBytes_def)
  have "in_file (fp_records (fetch_one (bk_logs ?bk) topic (asked_at p offset)))"
    using read(2) unfolding one by (simp add: in_file_def no_range_def)
  then have "fetch_response_ok ?m" using ok by (simp add: fetch_response_ok_def) (simp add: fetched_def fetch_request_at_def)
  then obtain response where response: "encodeFetchResponse ?m (append_buffer (i32_repr (cl_nextCorrelationId cl)) []) = Inr response"
      "response_ok response" "flat response = i32_repr (cl_nextCorrelationId cl) @ fetch_response_view_repr (view_of ?m)"
    using encodeFetchResponse_flat [of ?m "append_buffer (i32_repr (cl_nextCorrelationId cl)) []"] by auto
  have q: "fetch_request_ok ?q"
    using assms(2,4) by (simp add: fetch_request_at_def fetch_request_ok_def fetch_topic_ok_def fetch_asked_ok_def array_ok_def partition_ok_def range_simps)
  have fits_call: "call_fits ep Fetch (fetch_request_repr ?q) cl"
    by (rule cl_room_fits [OF assms(5)])
      (simp add: fetch_request_at_def fetch_request_repr_def fetch_topic_repr_def fetch_asked_repr_def array_repr_def string_repr_def
        be_bytes_8 be_bytes_4 be_bytes_2 order_trans [OF _ body] consume_body_def)
  have reg: "ep_registry ep (Fetch, 0) = Some handleFetch" "key_ok Fetch"
    using assms(1) by (simp_all add: registerAllHandlers_def all_handlers_def registerHandler_def key_ok_def in_i16_def)
  have handled: "handleFetch ?rc (append_buffer (i32_repr (cl_nextCorrelationId cl)) []) ?bk = (Inr response, ?bk)"
    using request_decoded [OF fetchRequest.codec_axioms q, of ep Fetch cl i] response(1) by (simp add: handleFetch_def handling_def)
  from loop.answer_arrives [where encQ = encodeFetchRequest and q = ?q, OF reg codec.bytes_of_repr [OF fetchRequest.codec_axioms q] fetchResponseView.codec_axioms fits_call handled
      response(2,3) ok fits]
  obtain arrived where "ask (client_link (loop_peer ep)) Fetch encodeFetchRequest decodeFetchResponseView ?q (cl, i, bk) =
      Done (view_of ?m, after_call cl arrived, Suc i, ?bk)" "client_ready (after_call cl arrived)" by blast
  then show ?thesis using cl_room_after [of ep _ 1 k cl arrived] assms(5) by (auto simp: fetch_partition_at_def view)
qed

subsection \<open>Rounds of the loop\<close>

definition undisturbed :: "endpoint \<Rightarrow> (string \<Rightarrow> nat) \<Rightarrow> string \<Rightarrow> int \<Rightarrow> partition_log \<Rightarrow> bool" where
  "undisturbed ep hash topic p l \<longleftrightarrow> ep_registry ep = registerAllHandlers hash Map.empty \<and> partition_ok topic p l \<and>
     (\<forall>i bk. hosts topic p l bk \<longrightarrow> hosts topic p l (ep_others ep i bk))"

lemma consume_round_batches:
  assumes "undisturbed ep hash topic p l" "hosts topic p l bk" "in_i64 offset" "cl_room ep (consume_body topic) (Suc k) cl"
    and read: "log_read offset (2 ^ 20) l = Inr r" "rr_error r = NoError" "in_file (range_of l r)" "length (pread (range_of l r)) + 2 ^ 17 \<le> kMaxFrameBytes"
    and ys: "pread (range_of l r) = take n (concat ys)" "ys \<noteq> []" "length (hd ys) \<le> n" "list_all batch_wf ys" "list_all legible ys"
  shows "\<exists>ps qs cl'. ys = ps @ qs \<and> ps \<noteq> [] \<and>
    consume_round (client_link (loop_peer ep)) topic p keep_on (offset, cl, i, bk) =
      (log_text [] ps, Done (Inl (end_offset offset ps, cl', Suc i, ep_others ep i bk))) \<and>
    cl_room ep (consume_body topic) k cl'"
proof -
  have ep: "ep_registry ep = registerAllHandlers hash Map.empty" "partition_ok topic p l" "hosts topic p l (ep_others ep i bk)"
    using assms(1,2) by (simp_all add: undisturbed_def)
  obtain cl' where cl': "fetch_partition_at (client_link (loop_peer ep)) topic p offset (cl, i, bk) =
      Done (\<lparr>fvp_partition = p, fvp_error = EC_None, fvp_highWatermark = lg_highWatermark l, fvp_logStartOffset = logStartOffset l,
        fvp_records = take n (concat ys)\<rparr>, cl', Suc i, ep_others ep i bk)" "cl_room ep (consume_body topic) k cl'"
    using fetch_over_the_wire [OF ep assms(3,4) read(1,3,4) order_refl] read(2) ys(1) by auto
  have "hd ys \<noteq> []" using ys(2,4) batch_wf_length [of "hd ys"] by (cases ys) auto
  then have some: "take n (concat ys) \<noteq> []" using ys(2,3) by (cases ys) auto
  obtain ps qs where ps: "ys = ps @ qs" "ps \<noteq> []"
      "printBatches (take n (concat ys)) [] offset 0 = (log_text [] ps, Done (length (log_text [] ps), end_offset offset ps))"
    using printBatches_take [OF ys(4,5), of n "[]" offset 0] ys(2,3) unfolding add_0 by blast
  have "consume_round (client_link (loop_peer ep)) topic p keep_on (offset, cl, i, bk) =
      (log_text [] ps, Done (Inl (end_offset offset ps, cl', Suc i, ep_others ep i bk)))"
    using cl'(1) ps(3) by (simp add: consume_round_def reportError_def some del: take_eq_Nil concat_eq_Nil_conv)
  with ps(1,2) cl'(2) show ?thesis by blast
qed

text \<open>Some rounds of the loop show the text and move the offset, for at most so many requests.\<close>

definition shows_on :: "endpoint \<Rightarrow> string \<Rightarrow> int \<Rightarrow> partition_log \<Rightarrow> bool \<Rightarrow> nat \<Rightarrow> int \<Rightarrow> printed list \<Rightarrow> int \<Rightarrow> bool" where
  "shows_on ep topic p l keep_on n offset text_shown offset' \<longleftrightarrow> (\<forall>k cl i bk. cl_room ep (consume_body topic) (n + k) cl \<longrightarrow> hosts topic p l bk \<longrightarrow>
     (\<exists>m cl' i' bk'. some_rounds m (consume_round (client_link (loop_peer ep)) topic p keep_on) (offset, cl, i, bk) =
         (text_shown, Done (Inl (offset', cl', i', bk'))) \<and>
       cl_room ep (consume_body topic) k cl' \<and> hosts topic p l bk'))"

lemma shows_on_refl: "shows_on ep topic p l keep_on n offset [] offset"
  unfolding shows_on_def
proof (intro allI impI)
  fix k cl i bk assume "cl_room ep (consume_body topic) (n + k) cl" "hosts topic p l bk"
  then show "\<exists>m cl' i' bk'. some_rounds m (consume_round (client_link (loop_peer ep)) topic p keep_on) (offset, cl, i, bk) =
      ([], Done (Inl (offset, cl', i', bk'))) \<and> cl_room ep (consume_body topic) k cl' \<and> hosts topic p l bk'"
    using cl_room_less [of ep _ "n + k" cl k] by (intro exI [of _ 0] exI [of _ cl] exI [of _ i] exI [of _ bk]) simp
qed

lemma shows_on_trans:
  assumes "shows_on ep topic p l keep_on m a s b" "shows_on ep topic p l keep_on n b t c"
  shows "shows_on ep topic p l keep_on (m + n) a (s @ t) c"
  unfolding shows_on_def
proof (intro allI impI)
  fix k cl i bk assume room: "cl_room ep (consume_body topic) (m + n + k) cl" and bk: "hosts topic p l bk"
  let ?f = "consume_round (client_link (loop_peer ep)) topic p keep_on"
  from room have "cl_room ep (consume_body topic) (m + (n + k)) cl" by (simp add: add.assoc)
  then obtain m1 cl1 i1 bk1 where 1: "some_rounds m1 ?f (a, cl, i, bk) = (s, Done (Inl (b, cl1, i1, bk1)))"
      "cl_room ep (consume_body topic) (n + k) cl1" "hosts topic p l bk1"
    using assms(1) bk unfolding shows_on_def by blast
  then obtain m2 cl2 i2 bk2 where 2: "some_rounds m2 ?f (b, cl1, i1, bk1) = (t, Done (Inl (c, cl2, i2, bk2)))"
      "cl_room ep (consume_body topic) k cl2" "hosts topic p l bk2"
    using assms(2) unfolding shows_on_def by blast
  have "some_rounds (m1 + m2) ?f (a, cl, i, bk) = (s @ t, Done (Inl (c, cl2, i2, bk2)))"
    using some_rounds_add [OF 1(1), of m2] 2(1) by simp
  with 2(2,3) show "\<exists>m' cl' i' bk'. some_rounds m' ?f (a, cl, i, bk) = (s @ t, Done (Inl (c, cl', i', bk'))) \<and>
      cl_room ep (consume_body topic) k cl' \<and> hosts topic p l bk'" by blast
qed

lemma shows_on_less: "shows_on ep topic p l keep_on m a s b \<Longrightarrow> m \<le> n \<Longrightarrow> shows_on ep topic p l keep_on n a s b"
  unfolding shows_on_def by (meson add_le_mono1 cl_room_less)

definition frame_sized :: "byte list \<Rightarrow> bool" where
  "frame_sized b \<longleftrightarrow> length b + 2 ^ 17 \<le> kMaxFrameBytes"

text \<open>What a fetch inside a segment brings: the batch that holds the offset and as much behind it as fits.\<close>

lemma segment_serves:
  assumes "0 \<le> sg_baseOffset seg" "lg_logEndOffset l < 2 ^ 63" "answers (xs @ y # ys) seg l" "list_all frame_sized (y # ys)"
    and "end_offset (sg_baseOffset seg) xs \<le> offset" "offset \<le> lastOffset (hdr y)"
  shows "\<exists>r n. log_read offset (2 ^ 20) l = Inr r \<and> rr_error r = NoError \<and> in_file (range_of l r) \<and>
    pread (range_of l r) = take n (concat (y # ys)) \<and> length (pread (range_of l r)) + 2 ^ 17 \<le> kMaxFrameBytes \<and> length y \<le> n \<and>
    list_all batch_wf (y # ys) \<and> in_i64 offset"
proof -
  have seg: "segment_holds (xs @ y # ys) seg" using assms(3) by (simp add: answers_def)
  then have s: "ascending (sg_baseOffset seg) xs" "ascending (end_offset (sg_baseOffset seg) xs) (y # ys)"
      "sg_nextOffset seg = end_offset (sg_baseOffset seg) (xs @ y # ys)" "sg_log seg = concat (xs @ y # ys)"
    by (simp_all add: segment_holds_def)
  let ?n = "max (length y) (min (2 ^ 20) (length (concat (y # ys))))"
  let ?r = "\<lparr>rr_error = NoError, rr_file = Some (sg_baseOffset seg), rr_position = length (concat xs), rr_length = ?n\<rparr>"
  have b: "sg_baseOffset seg \<le> offset" using ascending_le_end [OF s(1)] assms(5) by simp
  have "lastOffset (hdr y) < sg_nextOffset seg"
    using ascending_last_less [of "sg_baseOffset seg" "xs @ y # ys" y] seg by (simp add: segment_holds_def)
  then have below: "offset < sg_nextOffset seg" "offset < lg_logEndOffset l" using assms(3,6) by (auto simp: answers_def)
  have "\<forall>x \<in> set xs. lastOffset (hdr x) < offset" using ascending_last_less [OF s(1)] assms(5) by fastforce
  then have scan: "scan_read offset (2 ^ 20) (xs @ y # ys) = (length (concat xs), ?n)"
    using assms(6) by (simp add: scan_read_below) (simp add: scan_read_def)
  have read: "log_read offset (2 ^ 20) l = Inr ?r"
    using assms(3) b below(1) segment_read_scan [OF seg b, of "2 ^ 20"] scan by (simp add: answers_def)
  have range: "range_of l ?r = \<lparr>fr_file = concat (xs @ y # ys), fr_position = length (concat xs), fr_length = ?n\<rparr>"
    using assms(3) s(4) by (simp add: range_of_def answers_def)
  have bytes: "in_file (range_of l ?r)" "pread (range_of l ?r) = take ?n (concat (y # ys))"
    unfolding range by (simp_all add: in_file_def pread_def)
  have "length (pread (range_of l ?r)) + 2 ^ 17 \<le> kMaxFrameBytes"
    using assms(4) unfolding bytes(2) by (auto simp: frame_sized_def kMaxFrameBytes_def)
  with read bytes ascending_list_all [OF s(2)] assms(1,2) b below(2) show ?thesis
    by (intro exI [of _ ?r] exI [of _ ?n]) (simp add: range_simps)
qed

text \<open>A segment, from an offset between two of its batches or inside one.\<close>

lemma shows_segment:
  assumes "undisturbed ep hash topic p l" "0 \<le> sg_baseOffset seg" "lg_logEndOffset l < 2 ^ 63"
    and "answers (xs @ ys) seg l" "list_all legible ys" "list_all frame_sized ys"
    and "end_offset (sg_baseOffset seg) xs \<le> offset" "offset \<le> (case ys of [] \<Rightarrow> sg_nextOffset seg | b # _ \<Rightarrow> lastOffset (hdr b))"
  shows "shows_on ep topic p l keep_on (length ys) offset (log_text [] ys) (sg_nextOffset seg)"
  using assms(4-8)
proof (induction "length ys" arbitrary: xs ys offset rule: less_induct)
  case less
  have seg: "segment_holds (xs @ ys) seg" using less.prems(1) by (simp add: answers_def)
  then have s: "ascending (sg_baseOffset seg) xs" "ascending (end_offset (sg_baseOffset seg) xs) ys"
      "sg_nextOffset seg = end_offset (sg_baseOffset seg) (xs @ ys)" "sg_log seg = concat (xs @ ys)"
    by (simp_all add: segment_holds_def)
  show ?case
  proof (cases ys)
    case Nil
    with s(3) less.prems(4,5) have "offset = sg_nextOffset seg" by simp
    with Nil shows_on_refl show ?thesis by simp
  next
    case (Cons b bs)
    have b: "offset \<le> lastOffset (hdr b)" using Cons less.prems(5) by simp
    obtain r n where r: "log_read offset (2 ^ 20) l = Inr r" "rr_error r = NoError" "in_file (range_of l r)"
        "pread (range_of l r) = take n (concat ys)" "length (pread (range_of l r)) + 2 ^ 17 \<le> kMaxFrameBytes" "length b \<le> n"
        "list_all batch_wf ys" "in_i64 offset"
      using segment_serves [OF assms(2,3) less.prems(1,3) [unfolded Cons] less.prems(4) b] unfolding Cons by blast
    have fits: "ys \<noteq> []" "length (hd ys) \<le> n" using Cons r(6) by simp_all
    have step: "\<exists>ps qs cl'. ys = ps @ qs \<and> ps \<noteq> [] \<and>
        consume_round (client_link (loop_peer ep)) topic p keep_on (offset, cl, i, bk) =
          (log_text [] ps, Done (Inl (end_offset offset ps, cl', Suc i, ep_others ep i bk))) \<and> cl_room ep (consume_body topic) k cl'"
      if "cl_room ep (consume_body topic) (Suc k) cl" "hosts topic p l bk" for k cl i bk
      using consume_round_batches [OF assms(1) that(2) r(8) that(1) r(1-3,5,4) fits r(7) less.prems(2)] .
    show ?thesis
      unfolding shows_on_def
    proof (intro allI impI)
      fix k cl i bk assume room: "cl_room ep (consume_body topic) (length ys + k) cl" and bk: "hosts topic p l bk"
      let ?f = "consume_round (client_link (loop_peer ep)) topic p keep_on"
      have "cl_room ep (consume_body topic) (Suc (length bs + k)) cl" using room Cons by simp
      from step [OF this bk, of i] obtain ps qs cl1 where ps: "ys = ps @ qs" "ps \<noteq> []"
          "?f (offset, cl, i, bk) = (log_text [] ps, Done (Inl (end_offset offset ps, cl1, Suc i, ep_others ep i bk)))"
          "cl_room ep (consume_body topic) (length bs + k) cl1" by blast
      have "end_offset (sg_baseOffset seg) (xs @ ps) \<le> (case qs of [] \<Rightarrow> sg_nextOffset seg | b # _ \<Rightarrow> lastOffset (hdr b))"
        using s(2,3) ps(1) by (cases qs) (auto simp: lastOffset_def batch_wf_def)
      then have more: "shows_on ep topic p l keep_on (length qs) (end_offset (sg_baseOffset seg) (xs @ ps)) (log_text [] qs) (sg_nextOffset seg)"
        using less.hyps [of qs "xs @ ps"] less.prems(1-3) ps(1,2) by simp
      have eo: "end_offset offset ps = end_offset (sg_baseOffset seg) (xs @ ps)" using ps(2) by (simp add: end_offset_def)
      have "length qs + k \<le> length bs + k" using ps(1,2) Cons by (cases ps) auto
      then have "cl_room ep (consume_body topic) (length qs + k) cl1" by (rule cl_room_less [OF ps(4)])
      moreover have "hosts topic p l (ep_others ep i bk)" using assms(1) bk by (simp add: undisturbed_def)
      ultimately obtain m cl2 i2 bk2 where m: "some_rounds m ?f (end_offset (sg_baseOffset seg) (xs @ ps), cl1, Suc i, ep_others ep i bk) =
          (log_text [] qs, Done (Inl (sg_nextOffset seg, cl2, i2, bk2)))" "cl_room ep (consume_body topic) k cl2" "hosts topic p l bk2"
        using more unfolding shows_on_def by blast
      have "some_rounds (Suc m) ?f (offset, cl, i, bk) = (log_text [] ys, Done (Inl (sg_nextOffset seg, cl2, i2, bk2)))"
        using ps(1,3) m(1) unfolding eo by simp
      with m(2,3) show "\<exists>m cl' i' bk'. some_rounds m ?f (offset, cl, i, bk) = (log_text [] ys, Done (Inl (sg_nextOffset seg, cl', i', bk'))) \<and>
          cl_room ep (consume_body topic) k cl' \<and> hosts topic p l bk'" by blast
    qed
  qed
qed

text \<open>The segments of a partition, one behind the other.\<close>

lemma shows_active:
  assumes "undisturbed ep hash topic p l" "log_holds bss cs l" "list_all legible cs" "list_all frame_sized cs"
    and "cs = xs @ ys" "end_offset (sg_baseOffset (lg_active l)) xs \<le> offset"
    and "offset \<le> (case ys of [] \<Rightarrow> lg_logEndOffset l | b # _ \<Rightarrow> lastOffset (hdr b))"
  shows "shows_on ep topic p l keep_on (length ys) offset (log_text [] ys) (lg_logEndOffset l)"
proof -
  have "sg_nextOffset (lg_active l) = lg_logEndOffset l" "0 \<le> sg_baseOffset (lg_active l)" "lg_logEndOffset l < 2 ^ 63"
    using assms(2) by (simp_all add: log_holds_def valid_base_def)
  moreover have "offset \<le> (case ys of [] \<Rightarrow> sg_nextOffset (lg_active l) | b # _ \<Rightarrow> lastOffset (hdr b))"
    using assms(7) calculation(1) by (cases ys) simp_all
  ultimately show ?thesis
    using shows_segment [OF assms(1) _ _ answers_active [OF assms(2), unfolded assms(5)]] assms(3-6) by simp
qed

lemma sealed_base_nonneg: "log_holds bss cs l \<Longrightarrow> (b, seg) \<in> set (lg_sealed l) \<Longrightarrow> 0 \<le> sg_baseOffset seg"
  using sealed_holds_mem [of bss "lg_sealed l" b seg] by (auto simp: log_holds_def valid_base_def)

lemma shows_sealed:
  assumes "undisturbed ep hash topic p l" and log: "log_holds bss cs l"
  shows "sealed_holds bss' sealed \<Longrightarrow> set sealed \<subseteq> set (lg_sealed l) \<Longrightarrow> list_all legible (concat bss') \<Longrightarrow>
    list_all frame_sized (concat bss') \<Longrightarrow> check_contiguity False sealed n = Inr () \<Longrightarrow>
    shows_on ep topic p l keep_on (length (concat bss')) (case sealed of [] \<Rightarrow> n | (base, _) # _ \<Rightarrow> base) (log_text [] (concat bss')) n"
proof (induction sealed arbitrary: bss')
  case Nil
  then show ?case using shows_on_refl by (cases bss') (simp_all add: sealed_holds_def)
next
  case (Cons a sealed)
  obtain base seg where a: "a = (base, seg)" by (cases a)
  obtain bs rest where bss': "bss' = bs # rest" and holds: "segment_holds bs seg" "base = sg_baseOffset seg" "sealed_holds rest sealed"
    using Cons.prems(1) a by (cases bss') (auto simp: sealed_holds_def)
  have next_base: "sg_nextOffset seg = (case sealed of [] \<Rightarrow> n | (base, _) # _ \<Rightarrow> base)"
      and tail: "check_contiguity False sealed n = Inr ()"
    using Cons.prems(5) a by (auto simp: Let_def split: if_splits)
  have mem: "(base, seg) \<in> set (lg_sealed l)" using Cons.prems(2) a by auto
  have end_ok: "lg_logEndOffset l < 2 ^ 63" using log by (simp add: log_holds_def valid_base_def)
  have "ascending (sg_baseOffset seg) bs" "sg_nextOffset seg = end_offset (sg_baseOffset seg) bs" using holds(1) by (simp_all add: segment_holds_def)
  then have "base \<le> (case bs of [] \<Rightarrow> sg_nextOffset seg | b # _ \<Rightarrow> lastOffset (hdr b))"
    using holds(2) by (cases bs) (auto simp: end_offset_def lastOffset_def batch_wf_def)
  then have "shows_on ep topic p l keep_on (length bs) base (log_text [] bs) (sg_nextOffset seg)"
    using shows_segment [OF assms(1) sealed_base_nonneg [OF log mem] end_ok, of "[]" bs base keep_on] answers_sealed [OF log mem holds(1)]
      Cons.prems(3,4) bss' holds(2) by (simp add: end_offset_def)
  moreover have "shows_on ep topic p l keep_on (length (concat rest)) (sg_nextOffset seg) (log_text [] (concat rest)) n"
    unfolding next_base using Cons.prems bss' holds(3) tail by (intro Cons.IH) auto
  ultimately have "shows_on ep topic p l keep_on (length bs + length (concat rest)) base (log_text [] bs @ log_text [] (concat rest)) n"
    by (rule shows_on_trans)
  then show ?case using a bss' by simp
qed

lemma shows_chain:
  assumes "undisturbed ep hash topic p l" and log: "log_holds bss cs l" and cs: "list_all legible cs" "list_all frame_sized cs"
    and sealed: "sealed_holds bss' sealed" "set sealed \<subseteq> set (lg_sealed l)" "list_all legible (concat bss')" "list_all frame_sized (concat bss')"
      "check_contiguity False sealed (sg_baseOffset (lg_active l)) = Inr ()"
  shows "shows_on ep topic p l keep_on (length (concat bss' @ cs)) (case sealed of [] \<Rightarrow> sg_baseOffset (lg_active l) | (base, _) # _ \<Rightarrow> base)
      (log_text [] (concat bss' @ cs)) (lg_logEndOffset l)"
proof -
  have "active_holds cs (lg_active l)" "lg_logEndOffset l = sg_nextOffset (lg_active l)" using log by (simp_all add: log_holds_def)
  then have "sg_baseOffset (lg_active l) \<le> (case cs of [] \<Rightarrow> lg_logEndOffset l | b # _ \<Rightarrow> lastOffset (hdr b))"
    using active_holdsD(1) [of cs "lg_active l"] by (cases cs) (auto simp: segment_holds_def end_offset_def lastOffset_def batch_wf_def)
  then have "shows_on ep topic p l keep_on (length cs) (sg_baseOffset (lg_active l)) (log_text [] cs) (lg_logEndOffset l)"
    using shows_active [OF assms(1) log cs, of "[]" cs] by (simp add: end_offset_def)
  from shows_on_trans [OF shows_sealed [OF assms(1) log sealed] this] show ?thesis by simp
qed

text \<open>From any offset of the log: the batch that holds it, and every one behind it.\<close>

lemma drop_below_split:
  assumes "dropWhile (\<lambda>b. lastOffset (hdr b) < offset) bs = y # ys"
  shows "\<exists>xs. bs = xs @ y # ys \<and> (\<forall>x \<in> set xs. lastOffset (hdr x) < offset) \<and> offset \<le> lastOffset (hdr y)"
proof (intro exI [of _ "takeWhile (\<lambda>b. lastOffset (hdr b) < offset) bs"] conjI)
  show "bs = takeWhile (\<lambda>b. lastOffset (hdr b) < offset) bs @ y # ys" using assms by (metis takeWhile_dropWhile_id)
  show "\<forall>x \<in> set (takeWhile (\<lambda>b. lastOffset (hdr b) < offset) bs). lastOffset (hdr x) < offset" by (meson set_takeWhileD)
  show "offset \<le> lastOffset (hdr y)" using assms by (meson dropWhile_eq_Cons_conv not_less)
qed

lemma end_offset_le: "\<forall>x \<in> set xs. lastOffset (hdr x) < offset \<Longrightarrow> (n :: int) \<le> offset \<Longrightarrow> end_offset n xs \<le> offset"
  by (cases xs rule: rev_cases) (auto simp: end_offset_def)

abbreviation from_batch :: "int \<Rightarrow> byte list list \<Rightarrow> byte list list" where
  "from_batch offset bs \<equiv> dropWhile (\<lambda>b. lastOffset (hdr b) < offset) bs"

lemma shows_from:
  assumes "undisturbed ep hash topic p l" and log: "log_holds bss cs l" and cs: "list_all legible cs" "list_all frame_sized cs"
    and "offset \<le> lg_logEndOffset l"
  shows "sealed_holds bss' sealed \<Longrightarrow> set sealed \<subseteq> set (lg_sealed l) \<Longrightarrow> list_all legible (concat bss') \<Longrightarrow>
    list_all frame_sized (concat bss') \<Longrightarrow> check_contiguity False sealed (sg_baseOffset (lg_active l)) = Inr () \<Longrightarrow>
    (case sealed of [] \<Rightarrow> sg_baseOffset (lg_active l) | (base, _) # _ \<Rightarrow> base) \<le> offset \<Longrightarrow>
    shows_on ep topic p l keep_on (length (concat bss' @ cs)) offset (log_text [] (from_batch offset (concat bss' @ cs))) (lg_logEndOffset l)"
proof (induction sealed arbitrary: bss')
  case Nil
  then have "bss' = []" by (simp add: sealed_holds_def)
  have active: "ascending (sg_baseOffset (lg_active l)) cs" "lg_logEndOffset l = end_offset (sg_baseOffset (lg_active l)) cs"
    using log active_holdsD(1) [of cs "lg_active l"] by (simp_all add: log_holds_def segment_holds_def)
  have "shows_on ep topic p l keep_on (length cs) offset (log_text [] (from_batch offset cs)) (lg_logEndOffset l)"
  proof (cases "from_batch offset cs")
    case none: Nil
    then have "\<forall>x \<in> set cs. lastOffset (hdr x) < offset" by (auto simp: dropWhile_eq_Nil_conv)
    then have "lg_logEndOffset l \<le> offset" using active(2) Nil.prems(6) end_offset_le by simp
    with assms(5) have "offset = lg_logEndOffset l" by simp
    then show ?thesis using shows_on_refl unfolding none by simp
  next
    case (Cons y ys)
    then obtain xs where xs: "cs = xs @ y # ys" "\<forall>x \<in> set xs. lastOffset (hdr x) < offset" "offset \<le> lastOffset (hdr y)"
      using drop_below_split by blast
    have "end_offset (sg_baseOffset (lg_active l)) xs \<le> offset" using end_offset_le [OF xs(2)] Nil.prems(6) by simp
    then have "shows_on ep topic p l keep_on (length (y # ys)) offset (log_text [] (y # ys)) (lg_logEndOffset l)"
      using shows_active [OF assms(1) log cs xs(1)] xs(3) by simp
    then show ?thesis unfolding Cons by (rule shows_on_less) (simp add: xs(1))
  qed
  with \<open>bss' = []\<close> show ?case by simp
next
  case (Cons a sealed)
  obtain base seg where a: "a = (base, seg)" by (cases a)
  obtain bs rest where bss': "bss' = bs # rest" and holds: "segment_holds bs seg" "base = sg_baseOffset seg" "sealed_holds rest sealed"
    using Cons.prems(1) a by (cases bss') (auto simp: sealed_holds_def)
  have next_base: "sg_nextOffset seg = (case sealed of [] \<Rightarrow> sg_baseOffset (lg_active l) | (base, _) # _ \<Rightarrow> base)"
      and tail: "check_contiguity False sealed (sg_baseOffset (lg_active l)) = Inr ()"
    using Cons.prems(5) a by (auto simp: Let_def split: if_splits)
  have mem: "(base, seg) \<in> set (lg_sealed l)" using Cons.prems(2) a by auto
  have end_ok: "lg_logEndOffset l < 2 ^ 63" using log by (simp add: log_holds_def valid_base_def)
  have seg: "ascending (sg_baseOffset seg) bs" "sg_nextOffset seg = end_offset (sg_baseOffset seg) bs" using holds(1) by (simp_all add: segment_holds_def)
  have rest: "set sealed \<subseteq> set (lg_sealed l)" "list_all legible (concat rest)" "list_all frame_sized (concat rest)"
    using Cons.prems(2-4) bss' by auto
  show ?case
  proof (cases "from_batch offset bs")
    case Nil
    then have below: "\<forall>x \<in> set bs. lastOffset (hdr x) < offset" by (auto simp: dropWhile_eq_Nil_conv)
    have "sg_nextOffset seg \<le> offset" unfolding seg(2) using end_offset_le [OF below] Cons.prems(6) a holds(2) by simp
    then have "shows_on ep topic p l keep_on (length (concat rest @ cs)) offset (log_text [] (from_batch offset (concat rest @ cs))) (lg_logEndOffset l)"
      using rest holds(3) tail by (intro Cons.IH) (auto simp: next_base)
    moreover have "from_batch offset (concat bss' @ cs) = from_batch offset (concat rest @ cs)"
      unfolding bss' using below by (simp add: dropWhile_append2)
    ultimately show ?thesis using bss' by (auto elim: shows_on_less)
  next
    case step: (Cons y ys)
    then obtain xs where xs: "bs = xs @ y # ys" "\<forall>x \<in> set xs. lastOffset (hdr x) < offset" "offset \<le> lastOffset (hdr y)"
      using drop_below_split by blast
    have "end_offset (sg_baseOffset seg) xs \<le> offset" using end_offset_le [OF xs(2)] Cons.prems(6) a holds(2) by simp
    moreover have "answers (xs @ y # ys) seg l" using answers_sealed [OF log mem holds(1)] xs(1) by simp
    ultimately have "shows_on ep topic p l keep_on (length (y # ys)) offset (log_text [] (y # ys)) (sg_nextOffset seg)"
      using shows_segment [OF assms(1) sealed_base_nonneg [OF log mem] end_ok, of xs "y # ys" offset keep_on] xs(1,3) Cons.prems(3,4) bss'
      by simp
    moreover have "shows_on ep topic p l keep_on (length (concat rest @ cs)) (sg_nextOffset seg) (log_text [] (concat rest @ cs)) (lg_logEndOffset l)"
      unfolding next_base using shows_chain [OF assms(1) log cs holds(3) rest tail] .
    ultimately have "shows_on ep topic p l keep_on (length (y # ys) + length (concat rest @ cs)) offset
        (log_text [] (y # ys) @ log_text [] (concat rest @ cs)) (lg_logEndOffset l)" by (rule shows_on_trans)
    moreover have "from_batch offset (concat bss' @ cs) = y # ys @ concat rest @ cs"
      using step xs(3) unfolding bss' xs(1) by (simp add: dropWhile_append2 xs(2))
    ultimately show ?thesis using bss' xs(1) by (auto elim: shows_on_less)
  qed
qed

subsection \<open>Where a consumer starts and how it ends\<close>

lemma start_over_the_wire:
  assumes "undisturbed ep hash topic p l" "hosts topic p l bk" "cl_room ep (consume_body topic) (Suc k) cl" "in_i64 (lg_logEndOffset l)"
    and "from_where = ''earliest'' \<or> from_where = ''latest''"
  shows "\<exists>cl' bk'. resolveStart (client_link (loop_peer ep)) topic p from_where (cl, i, bk) =
      Done (if from_where = ''earliest'' then logStartOffset l else lg_logEndOffset l, cl', Suc i, bk') \<and>
    cl_room ep (consume_body topic) k cl' \<and> hosts topic p l bk'"
proof -
  let ?bk = "ep_others ep i bk" and ?q = "start_request topic p from_where"
  let ?offset = "if from_where = ''earliest'' then logStartOffset l else lg_logEndOffset l"
  let ?a = "\<lparr>lop_topics = [\<lparr>lt_name = topic, lt_partitions = [\<lparr>lo_partition = p, lo_error = EC_None, lo_offset = ?offset\<rparr>]\<rparr>]\<rparr>"
  have ep: "ep_registry ep = registerAllHandlers hash Map.empty" "partition_ok topic p l" "hosts topic p l ?bk"
    using assms(1,2) by (simp_all add: undisturbed_def)
  have answer: "listed_offsets ?q ?bk = ?a"
    using ep(3) assms(5) by (auto simp: listed_offsets_def listed_partition_def start_request_def hosts_def kEarliestTimestamp_def kLatestTimestamp_def)
  have q: "list_offsets_request_ok ?q" "length (list_offsets_request_repr ?q) \<le> consume_body topic"
    using ep(2) by (simp_all add: start_request_def list_offsets_request_ok_def list_offsets_topic_ok_def list_offsets_asked_ok_def array_ok_def
        partition_ok_def range_simps kEarliestTimestamp_def kLatestTimestamp_def list_offsets_request_repr_def list_offsets_topic_repr_def
        list_offsets_asked_repr_def array_repr_def string_repr_def be_bytes_8 be_bytes_4 be_bytes_2 consume_body_def)
  have a: "list_offsets_response_ok ?a" "length (list_offsets_response_repr ?a) + 4 \<le> kMaxFrameBytes"
    using ep(2) assms(4) by (simp_all add: list_offsets_response_ok_def listed_topic_ok_def listed_offset_ok_def array_ok_def partition_ok_def
        code_ok_def list_offsets_response_repr_def listed_topic_repr_def listed_offset_repr_def array_repr_def string_repr_def
        code_repr_def be_bytes_8 be_bytes_4 be_bytes_2 kMaxFrameBytes_def string_ok_def)
  have handler: "handleListOffsets rc out bk = handling decodeListOffsetsRequest (\<lambda>q bk. (Inr (listed_offsets q bk), bk)) (reply encodeListOffsetsResponse) rc out bk" for rc out bk
    by (simp add: handleListOffsets_def)
  have reg: "ep_registry ep (ListOffsets, 0) = Some handleListOffsets" "key_ok ListOffsets"
    using ep(1) by (simp_all add: registerAllHandlers_def all_handlers_def registerHandler_def key_ok_def in_i16_def)
  have served: "(\<lambda>q bk. (Inr (listed_offsets q bk), bk)) ?q ?bk = (Inr ?a, ?bk)" using answer by simp
  from loop.handler_answers [where serve_q = "\<lambda>_ q bk. (Inr (listed_offsets q bk), bk)",
      OF reg(1) handler reg(2) listOffsetsRequest.codec_axioms listOffsetsResponse.codec_axioms q(1) cl_room_fits [OF assms(3) q(2)] served a]
  obtain arrived where "ask (client_link (loop_peer ep)) ListOffsets encodeListOffsetsRequest decodeListOffsetsResponse ?q (cl, i, bk) =
      Done (?a, after_call cl arrived, Suc i, ?bk)" "client_ready (after_call cl arrived)" by blast
  moreover have "cl_room ep (consume_body topic) k (after_call cl arrived)"
    using cl_room_after [of ep _ 1 k cl arrived] assms(3) calculation(2) by simp
  ultimately show ?thesis using ep(3) assms(5) by (auto simp: resolveStart_def)
qed

text \<open>At the end of the log a fetch brings nothing.\<close>

lemma consume_round_empty:
  assumes "undisturbed ep hash topic p l" "hosts topic p l bk" "in_i64 offset" "cl_room ep (consume_body topic) (Suc k) cl"
    and "log_read offset (2 ^ 20) l = Inr r" "rr_error r = NoError" "pread (range_of l r) = []" "in_file (range_of l r)"
  shows "\<exists>cl'. consume_round (client_link (loop_peer ep)) topic p keep_on (offset, cl, i, bk) =
      ([], Done (if keep_on then Inl (offset, cl', Suc i, ep_others ep i bk) else Inr (0, cl', Suc i, ep_others ep i bk))) \<and>
    cl_room ep (consume_body topic) k cl'"
proof -
  have ep: "ep_registry ep = registerAllHandlers hash Map.empty" "partition_ok topic p l" "hosts topic p l (ep_others ep i bk)"
    using assms(1,2) by (simp_all add: undisturbed_def)
  have size: "length (pread (range_of l r)) + 2 ^ 17 \<le> kMaxFrameBytes" using assms(7) by (simp add: kMaxFrameBytes_def)
  show ?thesis
    using fetch_over_the_wire [OF ep assms(3,4,5,8) size order_refl] assms(6,7)
    by (auto simp: consume_round_def reportError_def client_link_def loop_peer_def)
qed

text \<open>Where nothing comes, nothing changes.\<close>

lemma stuck_rounds:
  assumes "undisturbed ep hash topic p l" "in_i64 offset"
    and "log_read offset (2 ^ 20) l = Inr r" "rr_error r = NoError" "pread (range_of l r) = []" "in_file (range_of l r)"
  shows "cl_room ep (consume_body topic) (n + k) cl \<Longrightarrow> hosts topic p l bk \<Longrightarrow>
    \<exists>cl' i' bk'. some_rounds n (consume_round (client_link (loop_peer ep)) topic p True) (offset, cl, i, bk) = ([], Done (Inl (offset, cl', i', bk')))"
proof (induction n arbitrary: cl i bk)
  case (Suc n)
  from Suc.prems(1) have "cl_room ep (consume_body topic) (Suc (n + k)) cl" by simp
  from consume_round_empty [OF assms(1) Suc.prems(2) assms(2) this assms(3-6), of True i] obtain cl1
    where 1: "consume_round (client_link (loop_peer ep)) topic p True (offset, cl, i, bk) = ([], Done (Inl (offset, cl1, Suc i, ep_others ep i bk)))"
      "cl_room ep (consume_body topic) (n + k) cl1" by auto
  have "hosts topic p l (ep_others ep i bk)" using assms(1) Suc.prems(2) by (simp add: undisturbed_def)
  from Suc.IH [OF 1(2) this] 1(1) show ?case by simp
qed simp

text \<open>The offset the options name.\<close>

definition starts_at :: "cli_options \<Rightarrow> partition_log \<Rightarrow> int \<Rightarrow> bool" where
  "starts_at options l offset \<longleftrightarrow>
    (if opt_from options = ''earliest'' then offset = logStartOffset l
     else if opt_from options = ''latest'' then offset = lg_logEndOffset l
     else strtol (opt_from options) = Some offset) \<and> logStartOffset l \<le> offset \<and> offset \<le> lg_logEndOffset l"

lemma consumer_shows:
  assumes "undisturbed ep hash topic p l" "hosts topic p l bk" "log_holds bss cs l" "gap_free l"
    and "list_all legible (concat bss @ cs)" "list_all frame_sized (concat bss @ cs)"
    and "cl_room ep (consume_body topic) (length (concat bss @ cs) + 2) cl" "starts_at options l offset" "\<not> opt_follow options"
  shows "\<exists>cl' i' bk'. doConsume (client_link (loop_peer ep)) topic p options (cl, i, bk) =
    Some (log_text [] (dropWhile (\<lambda>b. lastOffset (hdr b) < offset) (concat bss @ cs)), Done (0, cl', i', bk'))"
proof -
  let ?n = "length (concat bss @ cs)" and ?f = "consume_round (client_link (loop_peer ep)) topic p False"
  let ?text = "log_text [] (from_batch offset (concat bss @ cs))"
  have l: "sealed_holds bss (lg_sealed l)" "in_i64 (lg_logEndOffset l)" using assms(3) by (simp_all add: log_holds_def valid_base_def range_simps)
  have "in_i64 (logStartOffset l)" using assms(1) by (simp add: undisturbed_def partition_ok_def)
  then have in_range: "in_i64 offset" using assms(8) l(2) by (auto simp: starts_at_def range_simps)
  obtain cl1 i1 bk1 where 1: "resolveStart (client_link (loop_peer ep)) topic p (opt_from options) (cl, i, bk) = Done (offset, cl1, i1, bk1)"
      "cl_room ep (consume_body topic) (?n + 1) cl1" "hosts topic p l bk1"
  proof (cases "opt_from options = ''earliest'' \<or> opt_from options = ''latest''")
    case True
    have "cl_room ep (consume_body topic) (Suc (?n + 1)) cl" using assms(7) by simp
    from start_over_the_wire [OF assms(1,2) this l(2) True, of i] True assms(8) show ?thesis by (auto simp: starts_at_def intro: that)
  next
    case False
    with assms(8) in_range have "resolveStart (client_link (loop_peer ep)) topic p (opt_from options) (cl, i, bk) = Done (offset, cl, i, bk)"
      by (simp add: resolveStart_def arg_stoll_def starts_at_def)
    moreover have "cl_room ep (consume_body topic) (?n + 1) cl" by (rule cl_room_less [OF assms(7)]) simp
    ultimately show ?thesis using assms(2) by (intro that)
  qed
  have "shows_on ep topic p l False ?n offset ?text (lg_logEndOffset l)"
    using assms(4-6,8) l(1) by (intro shows_from [OF assms(1,3)]) (auto simp: starts_at_def gap_free_def logStartOffset_def)
  with 1(2,3) obtain m cl2 i2 bk2 where 2: "some_rounds m ?f (offset, cl1, i1, bk1) = (?text, Done (Inl (lg_logEndOffset l, cl2, i2, bk2)))"
      "cl_room ep (consume_body topic) (Suc 0) cl2" "hosts topic p l bk2"
    unfolding shows_on_def by (metis One_nat_def)
  have end_read: "log_read (lg_logEndOffset l) (2 ^ 20) l = Inr \<lparr>rr_error = NoError, rr_file = None, rr_position = 0, rr_length = 0\<rparr>"
    by (simp add: log_read_def)
  obtain cl3 where 3: "?f (lg_logEndOffset l, cl2, i2, bk2) = ([], Done (Inr (0, cl3, Suc i2, ep_others ep i2 bk2)))"
    using consume_round_empty [OF assms(1) 2(3) l(2) 2(2) end_read, of False i2] by (auto simp: range_of_def no_range_def pread_def in_file_def)
  have "some_rounds (m + 1) ?f (offset, cl1, i1, bk1) = (?text, Done (Inr (0, cl3, Suc i2, ep_others ep i2 bk2)))"
    using some_rounds_add [OF 2(1), of 1] 3 by simp
  from some_rounds_finish [OF this] 1(1) assms(9) show ?thesis by (auto simp: doConsume_def)
qed

subsection \<open>Properties\<close>

text \<open>C4. What a consumer is shown. Over the wire, against the broker's loop, and whatever else is done to the broker in
between, a consumer of a partition that stays as it is and has no hole shows the records of its log: from the
batch that holds the offset it starts at (the first one, the end, or the one given), every record of every
batch behind it, once and in order, whatever the cuts of the fetches; then it ends with success.\<close>

theorem consumer_shows_log:
  assumes "undisturbed ep hash topic p l" "hosts topic p l bk" "log_holds bss cs l" "gap_free l"
    and "list_all legible (concat bss @ cs)" "list_all frame_sized (concat bss @ cs)"
    and "cl_room ep (consume_body topic) (length (concat bss @ cs) + 2) cl" "starts_at options l offset" "\<not> opt_follow options"
  shows "\<exists>cl' i' bk'. doConsume (client_link (loop_peer ep)) topic p options (cl, i, bk) =
    Some (log_text [] (dropWhile (\<lambda>b. lastOffset (hdr b) < offset) (concat bss @ cs)), Done (0, cl', i', bk'))"
  using assms by (rule consumer_shows)

text \<open>C18. A hole stops a consumer. Compaction may leave a hole behind a sealed segment; a consumer that reads from the
start shows the log up to the hole and no further: without \<^verbatim>\<open>--follow\<close> it ends with success in front of the
records behind the hole, with it it asks for the same offset again and again and never shows them.\<close>

theorem consumer_stops_at_hole:
  assumes "undisturbed ep hash topic p l" "hosts topic p l bk" "log_holds bss cs l" "lg_sealed l = before @ (b, seg) # after"
    and "check_contiguity False before b = Inr ()"
    and "sg_nextOffset seg < (case after of [] \<Rightarrow> sg_baseOffset (lg_active l) | (base, _) # _ \<Rightarrow> base)"
    and "list_all legible (concat (take (Suc (length before)) bss))" "list_all frame_sized (concat (take (Suc (length before)) bss))"
    and "cl_room ep (consume_body topic) (length (concat (take (Suc (length before)) bss)) + (n + 1)) cl"
  shows "sg_nextOffset seg < lg_logEndOffset l \<and>
    (\<exists>m st. some_rounds m (consume_round (client_link (loop_peer ep)) topic p False) (logStartOffset l, cl, i, bk) =
      (log_text [] (concat (take (Suc (length before)) bss)), Done (Inr (0, st)))) \<and>
    (\<exists>m st. some_rounds (m + n) (consume_round (client_link (loop_peer ep)) topic p True) (logStartOffset l, cl, i, bk) =
      (log_text [] (concat (take (Suc (length before)) bss)), Done (Inl (sg_nextOffset seg, st))))"
proof -
  let ?n = "sg_nextOffset seg" and ?bss = "take (Suc (length before)) bss" and ?a = "lg_active l"
  let ?f = "\<lambda>keep_on. consume_round (client_link (loop_peer ep)) topic p keep_on"
  have h: "sealed_holds bss (lg_sealed l)" "sorted_wrt (<) (map fst (lg_sealed l) @ [sg_baseOffset ?a])"
      "lg_logEndOffset l = sg_nextOffset ?a" "active_holds cs ?a" "lg_logEndOffset l < 2 ^ 63"
    using assms(3) by (simp_all add: log_holds_def valid_base_def)
  obtain bs where "segment_holds bs seg" "b = sg_baseOffset seg"
    using sealed_holds_mem [OF h(1), of b seg] sealed_holds_batches [OF h(1), of b seg] assms(4) by auto
  then have b: "b \<le> ?n" using ascending_le_end [of b bs] by (simp add: segment_holds_def)
  have "0 \<le> b" using sealed_base_nonneg [OF assms(3), of b seg] assms(4) \<open>b = sg_baseOffset seg\<close> by simp
  have first: "sealed_holds ?bss (before @ [(b, seg)])"
    using h(1) unfolding sealed_holds_def assms(4) by (auto dest: list_all2_takeI [of _ _ _ "Suc (length before)"])
  have behind: "\<forall>(base, _) \<in> set after. ?n < base" "?n < sg_baseOffset ?a"
    using assms(6) h(2) unfolding assms(4) by (auto simp: sorted_wrt_append split: list.splits)
  have less: "?n < lg_logEndOffset l" using behind(2) active_holdsD(6) [OF h(4)] h(3) by simp
  then have in_range: "in_i64 ?n" using h(5) b \<open>0 \<le> b\<close> by (simp add: range_simps)
  have start: "logStartOffset l = (case before @ [(b, seg)] of [] \<Rightarrow> ?n | (base, _) # _ \<Rightarrow> base)"
    by (cases before) (auto simp: logStartOffset_def assms(4))
  have shown: "shows_on ep topic p l keep_on (length (concat ?bss)) (logStartOffset l) (log_text [] (concat ?bss)) ?n" for keep_on
    unfolding start using assms(4,5,7,8) first by (intro shows_sealed [OF assms(1,3)]) (auto simp: check_contiguity_snoc)
  have reached: "\<exists>m cl' i' bk'. some_rounds m (?f keep_on) (logStartOffset l, cl, i, bk) =
      (log_text [] (concat ?bss), Done (Inl (?n, cl', i', bk'))) \<and> cl_room ep (consume_body topic) (n + 1) cl' \<and> hosts topic p l bk'" for keep_on
    using shown assms(2,9) unfolding shows_on_def by blast
  have read: "log_read ?n (2 ^ 20) l = Inr \<lparr>rr_error = NoError, rr_file = Some b, rr_position = sizeBytes seg, rr_length = 0\<rparr>" (is "_ = Inr ?r")
    using compacted_gap_reads_empty [OF assms(3,4)] b behind by simp
  have "log_dir l (segmentLogPath b) = Some (sg_log seg)"
    using log_dir_sealed [OF assms(3), of b seg] assms(4) by simp
  then have none_read: "rr_error ?r = NoError" "pread (range_of l ?r) = []" "in_file (range_of l ?r)"
    by (simp_all add: range_of_def pread_def in_file_def sizeBytes_def)
  obtain m1 cl1 i1 bk1 where 1: "some_rounds m1 (?f False) (logStartOffset l, cl, i, bk) = (log_text [] (concat ?bss), Done (Inl (?n, cl1, i1, bk1)))"
      "cl_room ep (consume_body topic) (Suc n) cl1" "hosts topic p l bk1" using reached [of False] by auto
  note ended = consume_round_empty [OF assms(1) 1(3) in_range 1(2) read none_read]
  obtain st where "?f False (?n, cl1, i1, bk1) = ([], Done (Inr (0, st)))"
    using ended [of False i1] unfolding if_False by blast
  then have "some_rounds (m1 + 1) (?f False) (logStartOffset l, cl, i, bk) = (log_text [] (concat ?bss), Done (Inr (0, st)))"
    using some_rounds_add [OF 1(1), of 1] by simp
  moreover obtain m2 cl2 i2 bk2 where 2: "some_rounds m2 (?f True) (logStartOffset l, cl, i, bk) = (log_text [] (concat ?bss), Done (Inl (?n, cl2, i2, bk2)))"
      "cl_room ep (consume_body topic) (n + 1) cl2" "hosts topic p l bk2" using reached [of True] by auto
  obtain cl3 i3 bk3 where "some_rounds n (?f True) (?n, cl2, i2, bk2) = ([], Done (Inl (?n, cl3, i3, bk3)))"
    using stuck_rounds [OF assms(1) in_range read none_read 2(2,3)] by blast
  then have "some_rounds (m2 + n) (?f True) (logStartOffset l, cl, i, bk) = (log_text [] (concat ?bss), Done (Inl (?n, cl3, i3, bk3)))"
    using some_rounds_add [OF 2(1), of n] by simp
  ultimately show ?thesis using less by blast
qed

subsection \<open>A concrete consumer\<close>

abbreviation demo_log :: "(int \<times> segment) list \<Rightarrow> active_segment \<Rightarrow> partition_log" where
  "demo_log sealed active \<equiv> log_make demo_tp (small_config Compact) sealed active"

abbreviation demo_host :: "partition_log \<Rightarrow> broker" where
  "demo_host l \<equiv> demo_broker ((LogManager (small_config Compact))\<lparr>lm_logs := [(demo_tp, l)]\<rparr>)"

abbreviation demo_options :: "string \<Rightarrow> cli_options" where
  "demo_options from_where \<equiv> \<lparr>opt_host = ''h'', opt_port = 9, opt_partitions = 1, opt_from = from_where, opt_follow = False,
     opt_group = [], opt_strategy = ''range'', opt_compact = False\<rparr>"

lemmas demo_room_simps = cl_room_def client_ready_def Client_def header_of_call_def request_header_repr_def key_repr_def string_repr_def
  i32_repr_def be_bytes_4 be_bytes_2 string_ok_def range_simps

lemma demo_start: "strtol ''0'' = Some 0"
  by (simp add: strtol_def isspace_def isdigit_def parse_decimal_def digit_value_def)

lemma demo_segment:
  assumes "0 \<le> base" "base < 2 ^ 62"
  shows "\<exists>s a. active_holds [s] a \<and> legible s \<and> frame_sized s \<and> batch_text [] s = [value_line base ''hi''] \<and>
    sg_baseOffset a = base \<and> sg_nextOffset a = base + 1 \<and> lastOffset (hdr s) = base \<and>
    (\<forall>label. batch_text label s = [Out (c_str label @ to_string base @ [CHR 0x09] @ ''hi'' @ newline)])"
proof -
  obtain b r where b: "valid_batch b" "bh_lastOffsetDelta (hdr b) = 0" "decodeRecords b = Inr [r]" "rec_offsetDelta r = 0"
      "rec_value r = Some (string_bytes ''hi'')" "length b \<le> 103"
    using line_batch_ok [of "''hi''" 5] by (auto simp: range_simps)
  have base: "in_i64 base" and wf: "batch_wf b" using assms b(1) by (simp_all add: in_i64_def valid_batch_def)
  obtain s where s: "stampBaseOffset b base = Inr s" "batch_wf s" "hdr s = (hdr b)\<lparr>bh_baseOffset := base\<rparr>" "length s = length b"
    using stamped_batch_wf [OF wf base] by blast
  have dec: "decodeRecords s = Inr [r]" using stamped_decode [OF wf base s(1)] b(3) by simp
  obtain fresh where fresh: "active_holds [] fresh" "sg_baseOffset fresh = base" "sg_nextOffset fresh = base"
    using active_create_total [of Map.empty base small_policy] assms by auto
  then have "sg_log fresh = []" by (simp add: active_holds_def segment_holds_def)
  then obtain a where "segment_append base s 0 fresh = Inr a"
    using s(2,3) fresh(3) by (auto simp: segment_append_def parseHeader_wf maybeAddIndexEntry_def)
  from segment_append_holds [OF fresh(1) s(2) this] have a: "active_holds [s] a" "sg_baseOffset a = base" using fresh(2) by simp_all
  then have "sg_nextOffset a = base + 1" "lastOffset (hdr s) = base"
    using active_holdsD(4) [OF a(1)] s(3) b(2) by (simp_all add: lastOffset_def end_offset_def)
  moreover have "legible s" "frame_sized s" using dec b(6) s(4) by (simp_all add: legible_def frame_sized_def kMaxFrameBytes_def)
  moreover have labelled: "\<forall>label. batch_text label s = [Out (c_str label @ to_string base @ [CHR 0x09] @ ''hi'' @ newline)]"
    using dec s(3) b(4,5) by (simp add: batch_text_def record_text_def offsetFrom_def c_str_def)
  moreover have "batch_text [] s = [value_line base ''hi'']" using labelled by (simp add: value_line_def c_str_def)
  ultimately show ?thesis using a by blast
qed

theorem consumer_shows_log_witness:
  "\<exists>l st. doConsume (client_link (loop_peer demo_loop)) ''t'' 0 (demo_options ''earliest'') (Client ''c'', 0, demo_host l) =
    Some ([value_line 0 ''hi''], Done (0, st))"
proof -
  obtain s a where s: "active_holds [s] a" "legible s" "frame_sized s" "batch_text [] s = [value_line 0 ''hi'']"
      "sg_baseOffset a = 0" "sg_nextOffset a = 1" "lastOffset (hdr s) = 0"
    using demo_segment [of 0] by auto
  let ?l = "demo_log [] a"
  have l: "log_holds [] [s] ?l" using s by (simp add: log_holds_def log_make_def valid_base_def compacted_def Let_def)
  have "undisturbed demo_loop (\<lambda>_. 0) ''t'' 0 ?l"
    using s(5,6) by (simp add: undisturbed_def partition_ok_def log_make_def logStartOffset_def string_ok_def range_simps)
  moreover have "hosts ''t'' 0 ?l (demo_host ?l)" by (simp add: hosts_def lm_get_def LogManager_def)
  moreover have "gap_free ?l" by (simp add: gap_free_def log_make_def)
  moreover have "cl_room demo_loop (consume_body ''t'') (length (concat [] @ [s]) + 2) (Client ''c'')"
    by (simp add: demo_room_simps consume_body_def)
  moreover have "starts_at (demo_options ''earliest'') ?l 0" using s(5,6) by (simp add: starts_at_def log_make_def logStartOffset_def)
  ultimately obtain st where "doConsume (client_link (loop_peer demo_loop)) ''t'' 0 (demo_options ''earliest'') (Client ''c'', 0, demo_host ?l) =
      Some (log_text [] (dropWhile (\<lambda>b. lastOffset (hdr b) < 0) (concat [] @ [s])), Done (0, st))"
    using consumer_shows_log [OF _ _ l, of demo_loop "\<lambda>_. 0" "''t''" 0 "demo_host ?l" "Client ''c''" "demo_options ''earliest''" 0 0] s(2,3) by auto
  then show ?thesis using s(4,7) by (intro exI [of _ ?l] exI [of _ st]) simp
qed

theorem consumer_stops_at_hole_witness:
  "\<exists>l m st. lg_logEndOffset l = 6 \<and> some_rounds (m + 5) (consume_round (client_link (loop_peer demo_loop)) ''t'' 0 True) (0, Client ''c'', 0, demo_host l) =
    ([value_line 0 ''hi''], Done (Inl (1, st)))"
proof -
  obtain s1 a1 where s1: "active_holds [s1] a1" "legible s1" "frame_sized s1" "batch_text [] s1 = [value_line 0 ''hi'']"
      "sg_baseOffset a1 = 0" "sg_nextOffset a1 = 1"
    using demo_segment [of 0] by auto
  obtain s2 a2 where s2: "active_holds [s2] a2" "sg_baseOffset a2 = 5" "sg_nextOffset a2 = 6"
    using demo_segment [of 5] by auto
  obtain seg :: segment where seg: "segment_holds [s1] seg" "sg_baseOffset seg = 0" "sg_nextOffset seg = 1"
    using segment_seal_holds [OF s1(1)] s1(5,6) by auto
  let ?l = "demo_log [(0, seg)] a2"
  have l: "log_holds [[s1]] [s2] ?l"
    using seg s2 by (simp add: log_holds_def log_make_def valid_base_def compacted_def Let_def)
  have "undisturbed demo_loop (\<lambda>_. 0) ''t'' 0 ?l"
    using s2(2,3) by (simp add: undisturbed_def partition_ok_def log_make_def logStartOffset_def string_ok_def range_simps)
  moreover have "hosts ''t'' 0 ?l (demo_host ?l)" by (simp add: hosts_def lm_get_def LogManager_def)
  moreover have "cl_room demo_loop (consume_body ''t'') (length (concat (take (Suc (length ([] :: (int \<times> segment) list))) [[s1]])) + (5 + 1)) (Client ''c'')"
    by (simp add: demo_room_simps consume_body_def)
  ultimately obtain m st where "some_rounds (m + 5) (consume_round (client_link (loop_peer demo_loop)) ''t'' 0 True) (logStartOffset ?l, Client ''c'', 0, demo_host ?l) =
      (log_text [] (concat (take (Suc (length ([] :: (int \<times> segment) list))) [[s1]])), Done (Inl (sg_nextOffset seg, st)))"
    using consumer_stops_at_hole [OF _ _ l, of demo_loop "\<lambda>_. 0" "''t''" 0 "demo_host ?l" "[]" 0 seg "[]" 5 "Client ''c''" 0] seg s1(2,3) s2(2)
    by (auto simp: log_make_def)
  moreover have "logStartOffset ?l = 0" "lg_logEndOffset ?l = 6" using s2(3) by (simp_all add: logStartOffset_def log_make_def)
  moreover have "log_text [] (concat (take (Suc (length ([] :: (int \<times> segment) list))) [[s1]])) = [value_line 0 ''hi'']" using s1(4) by simp
  ultimately show ?thesis unfolding seg(3) by (intro exI [of _ ?l] exI [of _ m] exI [of _ st]) simp
qed

end
