(* ===== verification/Cli_Produce.thy ===== *)
theory Cli_Produce
  imports Cli_Consume
begin

text \<open>
  The producer of the command line against the broker's loop: each line is one batch, and what was
  acknowledged comes back to a consumer as it was typed.
\<close>

subsection \<open>A line over the wire\<close>

text \<open>Others leave the partition alone, whatever it holds.\<close>

definition left_alone :: "endpoint \<Rightarrow> (string \<Rightarrow> nat) \<Rightarrow> string \<Rightarrow> int \<Rightarrow> bool" where
  "left_alone ep hash topic p \<longleftrightarrow> ep_registry ep = registerAllHandlers hash Map.empty \<and>
     (\<forall>i bk l. hosts topic p l bk \<longrightarrow> hosts topic p l (ep_others ep i bk))"

text \<open>A log that can be read back whole.\<close>

definition tidy :: "string \<Rightarrow> int \<Rightarrow> byte list list \<Rightarrow> partition_log \<Rightarrow> bool" where
  "tidy topic p bs l \<longleftrightarrow> partition_ok topic p l \<and> gap_free l \<and> list_all legible bs \<and> list_all frame_sized bs \<and>
     (\<exists>bss cs. log_holds bss cs l \<and> concat bss @ cs = bs)"

definition produce_body :: "string \<Rightarrow> nat \<Rightarrow> nat" where
  "produce_body topic n = length topic + n + 160"

text \<open>The answer to one batch, and the log it leaves.\<close>

lemma stored_one:
  assumes "decodeProduceRequest r = Inr (q, r')" "same_request (produce_line_request topic p b) q"
    and "hosts topic p l bk" "valid_batch b" "log_append b now now l = (res, l')"
  shows "produce_batches now (rd_bytes r) q bk =
    (\<lparr>pp_topics = [\<lparr>pdt_name = topic, pdt_partitions = [case res of
        Inl e \<Rightarrow> \<lparr>pd_partition = p, pd_error = produce_code e, pd_baseOffset = kUnknownOffset\<rparr>
      | Inr base \<Rightarrow> \<lparr>pd_partition = p, pd_error = EC_None, pd_baseOffset = base\<rparr>]\<rparr>]\<rparr>,
     bk\<lparr>bk_logs := lm_update \<lparr>tp_topic = topic, tp_partition = p\<rparr> l' (bk_logs bk)\<rparr>)"
proof -
  obtain t u where t: "pq_topics q = [t]" "pqt_name t = topic" "pqt_partitions t = [u]" "pqp_partition u = p" "pqp_batch u = b"
    using assms(2) by (auto simp: produce_line_request_def same_request_def same_topic_def same_partition_def list_all2_Cons1)
  have "verifyCrc b = Inr True" using assms(4) by (simp add: valid_batch_def)
  with t assms(3,5) have "stored now q bk =
    (\<lparr>pp_topics = [\<lparr>pdt_name = topic, pdt_partitions = [case res of
        Inl e \<Rightarrow> \<lparr>pd_partition = p, pd_error = produce_code e, pd_baseOffset = kUnknownOffset\<rparr>
      | Inr base \<Rightarrow> \<lparr>pd_partition = p, pd_error = EC_None, pd_baseOffset = base\<rparr>]\<rparr>]\<rparr>,
     bk\<lparr>bk_logs := lm_update \<lparr>tp_topic = topic, tp_partition = p\<rparr> l' (bk_logs bk)\<rparr>)"
    by (cases res) (simp_all add: stored_def store_topic_def store_batch_def hosts_def)
  then show ?thesis using produce_batches_stored [OF assms(1)] by simp
qed

lemma produce_over_the_wire:
  assumes "left_alone ep hash topic p" "partition_ok topic p l" "hosts topic p l bk" "valid_batch b" "length b < 2 ^ 31"
    and "call_fits ep Produce (produce_request_repr (produce_line_request topic p b)) cl" "in_i64 (lg_logEndOffset l)"
    and "log_append b (ep_clock ep i) (ep_clock ep i) l = (res, l')" "\<And>base. res = Inr base \<Longrightarrow> base = lg_logEndOffset l"
  shows "\<exists>arrived bk'. ask (client_link (loop_peer ep)) Produce encodeProduceRequest decodeProduceResponse (produce_line_request topic p b) (cl, i, bk) =
      Done (\<lparr>pp_topics = [\<lparr>pdt_name = topic, pdt_partitions = [case res of
          Inl e \<Rightarrow> \<lparr>pd_partition = p, pd_error = produce_code e, pd_baseOffset = kUnknownOffset\<rparr>
        | Inr base \<Rightarrow> \<lparr>pd_partition = p, pd_error = EC_None, pd_baseOffset = base\<rparr>]\<rparr>]\<rparr>, after_call cl arrived, Suc i, bk') \<and>
    client_ready (after_call cl arrived) \<and> hosts topic p l' bk'"
proof -
  let ?q = "produce_line_request topic p b" and ?bk = "ep_others ep i bk"
  let ?a = "\<lparr>pp_topics = [\<lparr>pdt_name = topic, pdt_partitions = [case res of
          Inl e \<Rightarrow> \<lparr>pd_partition = p, pd_error = produce_code e, pd_baseOffset = kUnknownOffset\<rparr>
        | Inr base \<Rightarrow> \<lparr>pd_partition = p, pd_error = EC_None, pd_baseOffset = base\<rparr>]\<rparr>]\<rparr>"
  let ?bk' = "?bk\<lparr>bk_logs := lm_update \<lparr>tp_topic = topic, tp_partition = p\<rparr> l' (bk_logs ?bk)\<rparr>"
  let ?rc = "context_of_call ep Produce (produce_request_repr ?q) cl i" and ?head = "append_buffer (i32_repr (cl_nextCorrelationId cl)) []"
  have host: "hosts topic p l ?bk" using assms(1,3) by (simp add: left_alone_def)
  have q: "produce_request_ok ?q"
    using assms(2,5) by (simp add: produce_line_request_def produce_request_ok_def array_ok_def produce_topic_ok_def produce_partition_ok_def
        partition_ok_def blob_ok_def range_simps)
  then obtain q r' where dec: "decodeProduceRequest (rc_body ?rc) = Inr (q, r')" "same_request ?q q"
    using decode_produce(2) [OF q] unfolding reads_some_def by (metis append_Nil2 context_of_call_simps(1))
  have "rc_now ?rc = ep_clock ep i" "rc_frame ?rc = rd_bytes (rc_body ?rc)"
    by (simp add: context_of_call_def) (simp only: context_of_call_simps)
  then have run: "produce_batches (rc_now ?rc) (rc_frame ?rc) q ?bk = (?a, ?bk')"
    using stored_one [OF dec host assms(4,8)] by simp
  have a_ok: "produce_response_ok ?a"
    using assms(2,7,9)
    by (cases res) (simp_all add: produce_response_ok_def produced_topic_ok_def produced_ok_def array_ok_def partition_ok_def code_ok_def
        produce_code_def kUnknownOffset_def range_simps)
  have a_fits: "length (produce_response_repr ?a) + 4 \<le> kMaxFrameBytes"
    using assms(2)
    by (cases res) (simp_all add: produce_response_repr_def produced_topic_repr_def produced_repr_def array_repr_def string_repr_def code_repr_def
        be_bytes_8 be_bytes_4 be_bytes_2 kMaxFrameBytes_def partition_ok_def string_ok_def)
  have handled: "handleProduce ?rc ?head ?bk = (Inr (append_buffer (produce_response_repr ?a) ?head), ?bk')"
    using dec(1) run codec.bytes_of_repr [OF produceResponse.codec_axioms a_ok] by (simp add: handleProduce_def handling_def reply_def)
  have reg: "ep_registry ep (Produce, 0) = Some handleProduce" "key_ok Produce"
    using assms(1) by (simp_all add: left_alone_def registerAllHandlers_def all_handlers_def registerHandler_def key_ok_def in_i16_def)
  have bytes: "bytes_of (encodeProduceRequest ?q) = Inr (produce_request_repr ?q)"
    by (simp add: bytes_of_def encode_produce(3) [OF q] take_writer_def)
  have "response_ok (append_buffer (produce_response_repr ?a) ?head)"
    "flat (append_buffer (produce_response_repr ?a) ?head) = i32_repr (cl_nextCorrelationId cl) @ produce_response_repr ?a" by simp_all
  from loop.answer_arrives [where encQ = encodeProduceRequest and q = ?q, OF reg bytes produceResponse.codec_axioms assms(6) handled this a_ok a_fits]
  obtain arrived where "ask (client_link (loop_peer ep)) Produce encodeProduceRequest decodeProduceResponse ?q (cl, i, bk) =
      Done (?a, after_call cl arrived, Suc i, ?bk')" "client_ready (after_call cl arrived)" by blast
  moreover have "hosts topic p l' ?bk'" using host by (simp add: hosts_def lm_get_update)
  ultimately show ?thesis by blast
qed

lemma log_start_ok:
  assumes "log_holds bss cs l"
  shows "in_i64 (logStartOffset l)"
proof (cases "lg_sealed l")
  case Nil
  with assms show ?thesis by (simp add: logStartOffset_def log_holds_def valid_base_def range_simps)
next
  case (Cons a sealed)
  obtain b seg where a: "a = (b, seg)" by (cases a)
  have "b = sg_baseOffset seg" using sealed_holds_mem [of bss "lg_sealed l" b seg] assms Cons a by (simp add: log_holds_def)
  moreover have "0 \<le> sg_baseOffset seg" using sealed_base_nonneg [OF assms, of b seg] Cons a by simp
  moreover have "b < sg_baseOffset (lg_active l)" "sg_baseOffset (lg_active l) < 2 ^ 63"
    using assms Cons a by (simp_all add: log_holds_def valid_base_def)
  ultimately show ?thesis using Cons a by (simp add: logStartOffset_def range_simps)
qed

lemma log_start_le_end: "log_holds bss cs l \<Longrightarrow> logStartOffset l \<le> lg_logEndOffset l"
  using log_ascending(2) [of bss cs l "logStartOffset l"] ascending_le_end [OF log_ascending(1), of bss cs l "logStartOffset l"]
    active_holdsD(6) [of cs "lg_active l"] by (auto simp: log_holds_def)

lemma tidy_append:
  assumes "tidy topic p bs l" "valid_batch b" "bh_lastOffsetDelta (hdr b) = 0" "decodeRecords b = Inr [r]" "rec_offsetDelta r = 0"
    and "rec_value r = Some (string_bytes line)" "frame_sized b" "lg_logEndOffset l + 1 < 2 ^ 63"
    and app: "log_append b now now l = (Inr base, l')"
  shows "base = lg_logEndOffset l \<and> lg_logEndOffset l' = lg_logEndOffset l + 1 \<and>
    (\<exists>s. tidy topic p (bs @ [s]) l' \<and> bh_baseOffset (hdr s) = lg_logEndOffset l \<and> lastOffset (hdr s) = lg_logEndOffset l \<and> batch_text [] s = [value_line (lg_logEndOffset l) line])"
proof -
  obtain bss cs where l: "log_holds bss cs l" "concat bss @ cs = bs" "gap_free l" "partition_ok topic p l"
      "list_all legible bs" "list_all frame_sized bs"
    using assms(1) by (auto simp: tidy_def)
  have wf: "batch_wf b" using assms(2) by (simp add: valid_batch_def)
  have room: "lg_logEndOffset l + bh_lastOffsetDelta (hdr b) + 1 < 2 ^ 63" using assms(3,8) by simp
  obtain s bss' cs' where s: "base = lg_logEndOffset l" "lg_logEndOffset l' = base + bh_lastOffsetDelta (hdr b) + 1"
      "lg_highWatermark l' = lg_logEndOffset l'" "stampBaseOffset b base = Inr s" "log_holds bss' cs' l'" "concat bss' @ cs' = bs @ [s]"
    using log_append_holds [OF l(1) wf room app] l(2) by auto
  have base: "in_i64 base" using l(1) s(1) by (simp add: log_holds_def valid_base_def range_simps)
  obtain s' where s': "stampBaseOffset b base = Inr s'" "length s' = length b" "hdr s' = (hdr b)\<lparr>bh_baseOffset := base\<rparr>"
    using stamped_batch_wf [OF wf base] by blast
  with s(4) have hs: "length s = length b" "hdr s = (hdr b)\<lparr>bh_baseOffset := base\<rparr>" by simp_all
  have dec: "decodeRecords s = Inr [r]" using stamped_decode [OF wf base s(4)] assms(4) by simp
  have "partition_ok topic p l'"
    using l(4) s(3) s(5) log_start_ok [OF s(5)] by (simp add: partition_ok_def log_holds_def valid_base_def range_simps)
  moreover have "gap_free l'" by (rule log_append_gap_free [OF l(1,3) app])
  moreover have "legible s" "frame_sized s" using dec hs(1) assms(7) by (simp_all add: legible_def frame_sized_def)
  ultimately have "tidy topic p (bs @ [s]) l'" using l(5,6) s(5,6) by (auto simp: tidy_def)
  moreover have "lastOffset (hdr s) = base" "bh_baseOffset (hdr s) = base" using hs(2) assms(3) by (simp_all add: lastOffset_def)
  moreover have "batch_text [] s = [value_line base line]"
    using dec hs(2) assms(5,6) by (simp add: batch_text_def record_text_def value_line_def offsetFrom_def c_str_def)
  ultimately show ?thesis using s(1,2) assms(3) by auto
qed

definition line_fits :: "string \<Rightarrow> bool" where
  "line_fits line \<longleftrightarrow> length line + 2 ^ 18 \<le> kMaxFrameBytes"

lemma produce_line_step:
  assumes "left_alone ep hash topic p" "hosts topic p l bk" "tidy topic p bs l" "lg_logEndOffset l + 1 < 2 ^ 63"
    and "line_fits line" "in_i64 (clock sent)" "cl_room ep (produce_body topic n) (Suc k) cl" "length line \<le> n"
  shows "\<exists>out ok cl' bk'. produce_line (client_link (loop_peer ep)) clock topic p sent line (cl, i, bk) = (out, Done (ok, cl', Suc i, bk')) \<and>
    cl_room ep (produce_body topic n) k cl' \<and>
    (ok \<longleftrightarrow> (\<exists>b base l'. line_batch (clock sent) line = Inr b \<and> log_append b (ep_clock ep i) (ep_clock ep i) l = (Inr base, l'))) \<and> (ok \<longrightarrow> out = [offset_line (lg_logEndOffset l)] \<and>
      (\<exists>s l'. hosts topic p l' bk' \<and> tidy topic p (bs @ [s]) l' \<and> lg_logEndOffset l' = lg_logEndOffset l + 1 \<and>
        bh_baseOffset (hdr s) = lg_logEndOffset l \<and> lastOffset (hdr s) = lg_logEndOffset l \<and> batch_text [] s = [value_line (lg_logEndOffset l) line]))"
proof -
  have "length line < 2 ^ 28" using assms(5) by (simp add: line_fits_def kMaxFrameBytes_def)
  then obtain b r where b: "line_batch (clock sent) line = Inr b" "valid_batch b" "bh_lastOffsetDelta (hdr b) = 0" "decodeRecords b = Inr [r]"
      "rec_offsetDelta r = 0" "rec_value r = Some (string_bytes line)" "length b \<le> length line + 101"
    using line_batch_ok assms(6) by blast
  have sized: "frame_sized b" "length b < 2 ^ 31" using b(7) assms(5) by (simp_all add: frame_sized_def line_fits_def kMaxFrameBytes_def)
  obtain bss cs where l: "log_holds bss cs l" "partition_ok topic p l" using assms(3) by (auto simp: tidy_def)
  have end_ok: "in_i64 (lg_logEndOffset l)" using l(1) by (simp add: log_holds_def valid_base_def range_simps)
  obtain res l' where app: "log_append b (ep_clock ep i) (ep_clock ep i) l = (res, l')" by fastforce
  note kept = tidy_append [OF assms(3) b(2-6) sized(1) assms(4)]
  have fits: "call_fits ep Produce (produce_request_repr (produce_line_request topic p b)) cl"
    by (rule cl_room_fits [OF assms(7)])
      (use b(7) assms(8) in \<open>simp add: produce_line_request_def produce_request_repr_def produce_topic_repr_def produce_partition_repr_def
        array_repr_def string_repr_def blob_repr_def be_bytes_4 be_bytes_2 produce_body_def\<close>)
  have "base = lg_logEndOffset l" if "res = Inr base" for base using kept app that by blast
  from produce_over_the_wire [OF assms(1) l(2) assms(2) b(2) sized(2) fits end_ok app this]
  obtain arrived bk' where sent: "ask (client_link (loop_peer ep)) Produce encodeProduceRequest decodeProduceResponse (produce_line_request topic p b) (cl, i, bk) =
      Done (\<lparr>pp_topics = [\<lparr>pdt_name = topic, pdt_partitions = [case res of
          Inl e \<Rightarrow> \<lparr>pd_partition = p, pd_error = produce_code e, pd_baseOffset = kUnknownOffset\<rparr>
        | Inr base \<Rightarrow> \<lparr>pd_partition = p, pd_error = EC_None, pd_baseOffset = base\<rparr>]\<rparr>]\<rparr>, after_call cl arrived, Suc i, bk')"
      "client_ready (after_call cl arrived)" "hosts topic p l' bk'" by blast
  have room: "cl_room ep (produce_body topic n) k (after_call cl arrived)"
    using cl_room_after [of ep _ 1 k cl arrived] assms(7) sent(2) by simp
  show ?thesis
  proof (cases res)
    case (Inl e)
    have "produce_code e \<noteq> EC_None" by (simp add: produce_code_def)
    with Inl b(1) sent(1) room app show ?thesis
      by (auto simp: produce_line_def reportError_def intro!: exI [of _ "after_call cl arrived"] exI [of _ bk'])
  next
    case (Inr base)
    note k = kept [OF app [unfolded Inr]]
    have "produce_line (client_link (loop_peer ep)) clock topic p sent line (cl, i, bk) =
        ([offset_line (lg_logEndOffset l)], Done (True, after_call cl arrived, Suc i, bk'))"
      using Inr b(1) sent(1) k by (simp add: produce_line_def reportError_def offset_line_def)
    with room k sent(3) b(1) app Inr show ?thesis by blast
  qed
qed

lemma produce_lines_shown:
  assumes "left_alone ep hash topic p" "\<forall>k. in_i64 (clock k)"
  shows "produce_lines (client_link (loop_peer ep)) clock topic p sent lines (cl, i, bk) = (out, Done (0, cl', i', bk')) \<Longrightarrow>
    hosts topic p l bk \<Longrightarrow> tidy topic p bs l \<Longrightarrow> lg_logEndOffset l + int (length lines) < 2 ^ 63 \<Longrightarrow>
    \<forall>line \<in> set lines. line_fits line \<and> length line \<le> n \<Longrightarrow> cl_room ep (produce_body topic n) (length lines) cl \<Longrightarrow>
    out = map offset_line [lg_logEndOffset l..lg_logEndOffset l + int (length lines) - 1] @
      [Err (''produced '' @ to_string (int (sent + length lines)) @ '' record(s)'' @ newline)] \<and>
    (\<exists>new l'. hosts topic p l' bk' \<and> tidy topic p (bs @ new) l' \<and> lg_logEndOffset l' = lg_logEndOffset l + int (length lines) \<and>
      log_text [] new = map2 value_line [lg_logEndOffset l..lg_logEndOffset l + int (length lines) - 1] lines \<and>
      length new = length lines \<and> (\<forall>b \<in> set new. lg_logEndOffset l \<le> lastOffset (hdr b)) \<and>
      (new \<noteq> [] \<longrightarrow> bh_baseOffset (hdr (hd new)) = lg_logEndOffset l))"
proof (induction lines arbitrary: sent cl i bk out l bs)
  case Nil
  then have "bk' = bk" "out = [Err (''produced '' @ to_string (int sent) @ '' record(s)'' @ newline)]" by simp_all
  with Nil show ?case by (intro conjI exI [of _ "[]"] exI [of _ l]) simp_all
next
  case (Cons line lines)
  let ?link = "client_link (loop_peer ep)" and ?N = "lg_logEndOffset l"
  have line: "line_fits line" "length line \<le> n" "?N + 1 < 2 ^ 63" using Cons.prems(4,5) by simp_all
  have "cl_room ep (produce_body topic n) (Suc (length lines)) cl" using Cons.prems(6) by simp
  from produce_line_step [where clock = clock and sent = sent, OF assms(1) Cons.prems(2,3) line(3,1) _ this line(2), of i] assms(2)
  obtain out1 ok cl1 bk1 where 1: "produce_line ?link clock topic p sent line (cl, i, bk) = (out1, Done (ok, cl1, Suc i, bk1))"
      "cl_room ep (produce_body topic n) (length lines) cl1"
    and kept: "ok \<longrightarrow> out1 = [offset_line ?N] \<and> (\<exists>s l'. hosts topic p l' bk1 \<and> tidy topic p (bs @ [s]) l' \<and> lg_logEndOffset l' = ?N + 1 \<and>
        bh_baseOffset (hdr s) = ?N \<and> lastOffset (hdr s) = ?N \<and> batch_text [] s = [value_line ?N line])"
    by blast
  show ?case
  proof (cases ok)
    case False
    with Cons.prems(1) 1(1) show ?thesis by simp
  next
    case True
    with kept obtain s l1 where l1: "out1 = [offset_line ?N]" "hosts topic p l1 bk1" "tidy topic p (bs @ [s]) l1" "lg_logEndOffset l1 = ?N + 1"
        "lastOffset (hdr s) = ?N" "batch_text [] s = [value_line ?N line]" "bh_baseOffset (hdr s) = ?N"
      by blast
    obtain out2 where out2: "produce_lines ?link clock topic p (Suc sent) lines (cl1, Suc i, bk1) = (out2, Done (0, cl', i', bk'))" "out = out1 @ out2"
      using Cons.prems(1) 1(1) True by (auto split: prod.splits)
    have "lg_logEndOffset l1 + int (length lines) < 2 ^ 63" "\<forall>line \<in> set lines. line_fits line \<and> length line \<le> n"
      using Cons.prems(4,5) l1(4) by simp_all
    from Cons.IH [OF out2(1) l1(2,3) this 1(2)]
    obtain new l' where new: "out2 = map offset_line [?N + 1..?N + 1 + int (length lines) - 1] @
          [Err (''produced '' @ to_string (int (Suc sent + length lines)) @ '' record(s)'' @ newline)]"
        "hosts topic p l' bk'" "tidy topic p ((bs @ [s]) @ new) l'" "lg_logEndOffset l' = ?N + 1 + int (length lines)"
        "log_text [] new = map2 value_line [?N + 1..?N + 1 + int (length lines) - 1] lines" "length new = length lines"
        "\<forall>b \<in> set new. ?N + 1 \<le> lastOffset (hdr b)"
      unfolding l1(4) by blast
    have range: "[?N..?N + int (length (line # lines)) - 1] = ?N # [?N + 1..?N + 1 + int (length lines) - 1]"
      by (subst upto_rec1) (simp_all add: algebra_simps)
    have "out = map offset_line [?N..?N + int (length (line # lines)) - 1] @
        [Err (''produced '' @ to_string (int (sent + length (line # lines))) @ '' record(s)'' @ newline)]"
      unfolding range using out2(2) l1(1) new(1) by simp
    moreover have "log_text [] (s # new) = map2 value_line [?N..?N + int (length (line # lines)) - 1] (line # lines)"
      unfolding range using l1(6) new(5) by simp
    moreover have "tidy topic p (bs @ s # new) l'" using new(3) by simp
    moreover have "\<forall>b \<in> set (s # new). ?N \<le> lastOffset (hdr b)" using new(7) l1(5) by auto
    moreover have "lg_logEndOffset l' = ?N + int (length (line # lines))" "length (s # new) = length (line # lines)" using new(4,6) by simp_all
    moreover have "bh_baseOffset (hdr (hd (s # new))) = ?N" using l1(7) by simp
    ultimately show ?thesis using new(2) by blast
  qed
qed

subsection \<open>Properties\<close>

text \<open>C3. What is typed is what is read. When the producer of the command line ends with success on a partition that nobody
else writes to, it has shown one offset for every line, consecutive from the end of the log on; a consumer that
then starts at the first of them shows exactly these lines, each with its offset, once and in order, and ends
with success (a line with a zero byte up to that byte).\<close>

theorem lines_come_back:
  assumes "left_alone ep hash topic p" "hosts topic p l bk" "tidy topic p bs l" "\<forall>k. in_i64 (clock k)"
    and "lg_logEndOffset l + int (length (lines_of input)) < 2 ^ 63" "\<forall>line \<in> set (lines_of input). line_fits line \<and> length line \<le> n"
    and "cl_room ep (produce_body topic n) (length (lines_of input)) cl"
    and "cl_room ep (consume_body topic) (length bs + length (lines_of input) + 2) cl2"
    and "strtol (opt_from options) = Some (lg_logEndOffset l)" "\<not> opt_follow options"
    and run: "doProduce (client_link (loop_peer ep)) clock topic p input (cl, i, bk) = (out, Done (0, cl1, i1, bk1))"
  shows "out = map offset_line [lg_logEndOffset l..lg_logEndOffset l + int (length (lines_of input)) - 1] @
      [Err (''produced '' @ to_string (int (length (lines_of input))) @ '' record(s)'' @ newline)] \<and>
    (\<exists>st. doConsume (client_link (loop_peer ep)) topic p options (cl2, i1, bk1) =
      Some (map2 value_line [lg_logEndOffset l..lg_logEndOffset l + int (length (lines_of input)) - 1] (lines_of input), Done (0, st)))"
proof -
  let ?N = "lg_logEndOffset l" and ?lines = "lines_of input"
  have shown: "out = map offset_line [?N..?N + int (length ?lines) - 1] @ [Err (''produced '' @ to_string (int (0 + length ?lines)) @ '' record(s)'' @ newline)] \<and>
      (\<exists>new l'. hosts topic p l' bk1 \<and> tidy topic p (bs @ new) l' \<and> lg_logEndOffset l' = ?N + int (length ?lines) \<and>
        log_text [] new = map2 value_line [?N..?N + int (length ?lines) - 1] ?lines \<and>
        length new = length ?lines \<and> (\<forall>b \<in> set new. ?N \<le> lastOffset (hdr b)) \<and> (new \<noteq> [] \<longrightarrow> bh_baseOffset (hdr (hd new)) = ?N))"
    by (rule produce_lines_shown [OF assms(1,4) run [unfolded doProduce_def] assms(2,3,5,6,7)])
  then obtain new l' where new: "hosts topic p l' bk1" "tidy topic p (bs @ new) l'" "lg_logEndOffset l' = ?N + int (length ?lines)"
      "log_text [] new = map2 value_line [?N..?N + int (length ?lines) - 1] ?lines" "length new = length ?lines"
      "\<forall>b \<in> set new. ?N \<le> lastOffset (hdr b)" "new \<noteq> [] \<longrightarrow> bh_baseOffset (hdr (hd new)) = ?N" by blast
  obtain bss cs where old: "log_holds bss cs l" "concat bss @ cs = bs" using assms(3) by (auto simp: tidy_def)
  obtain bss' cs' where l': "log_holds bss' cs' l'" "concat bss' @ cs' = bs @ new" "gap_free l'" "partition_ok topic p l'"
      "list_all legible (bs @ new)" "list_all frame_sized (bs @ new)"
    using new(2) by (auto simp: tidy_def)
  have below: "\<forall>b \<in> set bs. lastOffset (hdr b) < ?N" using log_last_less [OF old(1)] old(2) by auto
  then have "from_batch ?N (bs @ new) = new" using new(6) by (cases new) (auto simp: dropWhile_append2)
  moreover have "undisturbed ep hash topic p l'" using assms(1) l'(4) by (simp add: undisturbed_def left_alone_def)
  moreover have "starts_at options l' ?N"
  proof -
    have "logStartOffset l' \<le> ?N"
    proof (cases new)
      case Nil
      then show ?thesis using log_start_le_end [OF l'(1)] new(3,5) by simp
    next
      case (Cons b bs')
      then show ?thesis using ascending_base_le [OF log_ascending(4) [OF l'(1) order_refl], of b] l'(2) new(7) by simp
    qed
    moreover have "opt_from options \<noteq> ''earliest''" "opt_from options \<noteq> ''latest''" using assms(9) by (auto simp: strtol_def isspace_def isdigit_def)
    ultimately show ?thesis using assms(9) new(3) by (simp add: starts_at_def)
  qed
  moreover have "cl_room ep (consume_body topic) (length (concat bss' @ cs') + 2) cl2" unfolding l'(2) using assms(8) new(5) by simp
  ultimately have "\<exists>cl' i' bk'. doConsume (client_link (loop_peer ep)) topic p options (cl2, i1, bk1) = Some (log_text [] new, Done (0, cl', i', bk'))"
    using consumer_shows [OF _ new(1) l'(1,3) _ _ _ _ assms(10), of ep hash cl2 ?N i1] l'(2,5,6) by simp
  with shown new(4) show ?thesis by auto
qed

subsection \<open>A concrete producer\<close>

theorem lines_come_back_witness:
  "\<exists>bk cl1 bk1 st. doProduce (client_link (loop_peer demo_loop)) (\<lambda>_. 5) ''t'' 0 ''hi'' (Client ''c'', 0, bk) =
      ([offset_line 0, Err (''produced '' @ to_string 1 @ '' record(s)'' @ newline)], Done (0, cl1, 1, bk1)) \<and>
    doConsume (client_link (loop_peer demo_loop)) ''t'' 0 (demo_options ''0'') (Client ''d'', 1, bk1) = Some ([value_line 0 ''hi''], Done (0, st))"
proof -
  let ?link = "client_link (loop_peer demo_loop)"
  obtain fresh where fresh: "active_holds [] fresh" "sg_baseOffset fresh = 0" "sg_nextOffset fresh = 0"
    using active_create_total [of Map.empty 0 small_policy] by auto
  let ?l = "demo_log [] fresh"
  have l: "log_holds [] [] ?l" using fresh by (simp add: log_holds_def log_make_def valid_base_def compacted_def Let_def)
  have tidy: "tidy ''t'' 0 [] ?l"
    using l fresh(2,3) by (auto simp: tidy_def partition_ok_def log_make_def logStartOffset_def gap_free_def string_ok_def range_simps)
  have host: "hosts ''t'' 0 ?l (demo_host ?l)" by (simp add: hosts_def lm_get_def LogManager_def)
  have alone: "left_alone demo_loop (\<lambda>_. 0) ''t'' 0" by (simp add: left_alone_def)
  have fits: "line_fits ''hi''" by (simp add: line_fits_def kMaxFrameBytes_def)
  have room: "cl_room demo_loop (produce_body ''t'' 2) (Suc 0) (Client ''c'')" "cl_room demo_loop (consume_body ''t'') 3 (Client ''d'')"
    by (simp_all add: demo_room_simps produce_body_def consume_body_def)
  obtain b where b: "line_batch 5 ''hi'' = Inr b" "valid_batch b" "bh_lastOffsetDelta (hdr b) = 0"
    using line_batch_ok [of "''hi''" 5] by (auto simp: range_simps)
  obtain l' where app: "log_append b 7 7 ?l = (Inr 0, l')"
    using first_append [OF l _ b(2,3), of 7 7] fresh(2) by (auto simp: log_make_def)
  have zero: "lg_logEndOffset ?l = 0" using fresh(3) by (simp add: log_make_def)
  have "\<exists>out cl' bk'. produce_line ?link (\<lambda>_. 5) ''t'' 0 0 ''hi'' (Client ''c'', 0, demo_host ?l) = (out, Done (True, cl', Suc 0, bk'))"
    using produce_line_step [OF alone host tidy _ fits _ room(1), of "\<lambda>_. 5" 0 0] zero b(1) app by (auto simp: range_simps)
  then obtain out1 cl1 bk1 where "produce_line ?link (\<lambda>_. 5) ''t'' 0 0 ''hi'' (Client ''c'', 0, demo_host ?l) = (out1, Done (True, cl1, Suc 0, bk1))" by blast
  then have run: "doProduce ?link (\<lambda>_. 5) ''t'' 0 ''hi'' (Client ''c'', 0, demo_host ?l) =
      (out1 @ [Err (''produced '' @ to_string 1 @ '' record(s)'' @ newline)], Done (0, cl1, Suc 0, bk1))"
    by (simp add: doProduce_def)
  have come: "out1 @ [Err (''produced '' @ to_string 1 @ '' record(s)'' @ newline)] = [offset_line 0, Err (''produced '' @ to_string 1 @ '' record(s)'' @ newline)] \<and>
      (\<exists>st. doConsume ?link ''t'' 0 (demo_options ''0'') (Client ''d'', Suc 0, bk1) = Some ([value_line 0 ''hi''], Done (0, st)))"
    using lines_come_back [OF alone host tidy _ _ _ _ _ _ _ run, of 2 "Client ''d''" "demo_options ''0''"] zero fits room
    by (simp add: range_simps demo_start eval_nat_numeral)
  then obtain st where shown: "doConsume ?link ''t'' 0 (demo_options ''0'') (Client ''d'', 1, bk1) = Some ([value_line 0 ''hi''], Done (0, st))"
    unfolding One_nat_def by blast
  have "doProduce ?link (\<lambda>_. 5) ''t'' 0 ''hi'' (Client ''c'', 0, demo_host ?l) =
      ([offset_line 0, Err (''produced '' @ to_string 1 @ '' record(s)'' @ newline)], Done (0, cl1, 1, bk1))"
    using run unfolding conjunct1 [OF come] One_nat_def .
  from conjI [OF this shown] show ?thesis by (intro exI)
qed

end
