(* ===== verification/Cli_Group.thy ===== *)
theory Cli_Group
  imports Cli_Consume Broker_Positions
begin

text \<open>
  A member of a group at one of its partitions: what it shows and what it commits.
\<close>

subsection \<open>One fetch\<close>

text \<open>A fetch at the offset is answered with the start of these batches, up to a cut behind the first of them.\<close>

definition served_from :: "partition_log \<Rightarrow> int \<Rightarrow> byte list list \<Rightarrow> bool" where
  "served_from l offset ys \<longleftrightarrow> ys \<noteq> [] \<and> offset \<le> lastOffset (hdr (hd ys)) \<and> list_all batch_wf ys \<and> in_i64 offset \<and>
    (\<exists>base. ascending base ys \<and> end_offset base ys \<le> lg_logEndOffset l) \<and>
    (\<exists>r n. log_read offset (2 ^ 20) l = Inr r \<and> rr_error r = NoError \<and> in_file (range_of l r) \<and> pread (range_of l r) = take n (concat ys) \<and>
      length (pread (range_of l r)) + 2 ^ 17 \<le> kMaxFrameBytes \<and> length (hd ys) \<le> n)"

lemma segment_served_from:
  assumes "0 \<le> sg_baseOffset seg" "lg_logEndOffset l < 2 ^ 63" "answers (xs @ y # ys) seg l" "list_all frame_sized (y # ys)"
    and "end_offset (sg_baseOffset seg) xs \<le> offset" "offset \<le> lastOffset (hdr y)"
  shows "served_from l offset (y # ys)"
proof -
  have "ascending (end_offset (sg_baseOffset seg) xs) (y # ys)" "end_offset (end_offset (sg_baseOffset seg) xs) (y # ys) \<le> lg_logEndOffset l"
    using assms(3) by (simp_all add: answers_def segment_holds_def end_offset_def)
  then have "\<exists>base. ascending base (y # ys) \<and> end_offset base (y # ys) \<le> lg_logEndOffset l" by blast
  moreover obtain r n where "log_read offset (2 ^ 20) l = Inr r" "rr_error r = NoError" "in_file (range_of l r)"
      "pread (range_of l r) = take n (concat (y # ys))" "length (pread (range_of l r)) + 2 ^ 17 \<le> kMaxFrameBytes" "length y \<le> n"
      "list_all batch_wf (y # ys)" "in_i64 offset"
    using segment_serves [OF assms] by blast
  ultimately show ?thesis using assms(6) unfolding served_from_def list.sel by blast
qed

text \<open>The batches from the one that holds an offset on, in its segment and behind it.\<close>

lemma batch_found:
  assumes log: "log_holds bss cs l" and "offset < lg_logEndOffset l" and cs: "list_all frame_sized cs"
  shows "sealed_holds bss' sealed \<Longrightarrow> set sealed \<subseteq> set (lg_sealed l) \<Longrightarrow> check_contiguity False sealed (sg_baseOffset (lg_active l)) = Inr () \<Longrightarrow>
    (case sealed of [] \<Rightarrow> sg_baseOffset (lg_active l) | (base, _) # _ \<Rightarrow> base) \<le> offset \<Longrightarrow>
    list_all frame_sized (concat bss') \<Longrightarrow> \<exists>ys behind. served_from l offset ys \<and> from_batch offset (concat bss' @ cs) = ys @ behind"
proof (induction sealed arbitrary: bss')
  case Nil
  then have "bss' = []" by (simp add: sealed_holds_def)
  have end_ok: "lg_logEndOffset l < 2 ^ 63" using log by (simp add: log_holds_def valid_base_def)
  have active: "lg_logEndOffset l = end_offset (sg_baseOffset (lg_active l)) cs" "0 \<le> sg_baseOffset (lg_active l)"
    using log active_holdsD(1) [of cs "lg_active l"] by (simp_all add: log_holds_def segment_holds_def valid_base_def)
  have "from_batch offset cs \<noteq> []"
    using assms(2) active(1) Nil.prems(4) end_offset_le [of cs offset "sg_baseOffset (lg_active l)"] by (auto simp: dropWhile_eq_Nil_conv)
  then obtain y ys where found: "from_batch offset cs = y # ys" by (cases "from_batch offset cs") auto
  obtain xs where xs: "cs = xs @ y # ys" "\<forall>x \<in> set xs. lastOffset (hdr x) < offset" "offset \<le> lastOffset (hdr y)"
    using drop_below_split [OF found] by blast
  have below: "end_offset (sg_baseOffset (lg_active l)) xs \<le> offset" using end_offset_le [OF xs(2)] Nil.prems(4) by simp
  have "served_from l offset (y # ys)"
    using segment_served_from [OF active(2) end_ok answers_active [OF log, unfolded xs(1)] _ below xs(3)] cs xs(1) by simp
  with found \<open>bss' = []\<close> show ?case by (intro exI [of _ "y # ys"] exI [of _ "[]"]) simp
next
  case (Cons a sealed)
  obtain base seg where a: "a = (base, seg)" by (cases a)
  obtain bs rest where bss': "bss' = bs # rest" and holds: "segment_holds bs seg" "base = sg_baseOffset seg" "sealed_holds rest sealed"
    using Cons.prems(1) a by (cases bss') (auto simp: sealed_holds_def)
  have next_base: "sg_nextOffset seg = (case sealed of [] \<Rightarrow> sg_baseOffset (lg_active l) | (base, _) # _ \<Rightarrow> base)"
      and tail: "check_contiguity False sealed (sg_baseOffset (lg_active l)) = Inr ()"
    using Cons.prems(3) a by (auto simp: Let_def split: if_splits)
  have end_ok: "lg_logEndOffset l < 2 ^ 63" using log by (simp add: log_holds_def valid_base_def)
  have mem: "(base, seg) \<in> set (lg_sealed l)" using Cons.prems(2) a by auto
  have seg: "sg_nextOffset seg = end_offset (sg_baseOffset seg) bs" using holds(1) by (simp add: segment_holds_def)
  have base: "sg_baseOffset seg \<le> offset" using Cons.prems(4) a holds(2) by simp
  show ?case
  proof (cases "from_batch offset bs")
    case Nil
    then have below: "\<forall>x \<in> set bs. lastOffset (hdr x) < offset" by (auto simp: dropWhile_eq_Nil_conv)
    have "sg_nextOffset seg \<le> offset" unfolding seg using end_offset_le [OF below base] .
    moreover have "from_batch offset (concat bss' @ cs) = from_batch offset (concat rest @ cs)"
      unfolding bss' using below by (simp add: dropWhile_append2)
    ultimately show ?thesis using Cons.IH [OF holds(3) _ tail] Cons.prems(2,5) next_base bss' by simp
  next
    case step: (Cons y ys)
    obtain xs where xs: "bs = xs @ y # ys" "\<forall>x \<in> set xs. lastOffset (hdr x) < offset" "offset \<le> lastOffset (hdr y)"
      using drop_below_split [OF step] by blast
    have below: "end_offset (sg_baseOffset seg) xs \<le> offset" using end_offset_le [OF xs(2) base] .
    have "list_all frame_sized (y # ys)" using Cons.prems(5) unfolding bss' xs(1) by simp
    with segment_served_from [OF sealed_base_nonneg [OF log mem] end_ok answers_sealed [OF log mem holds(1), unfolded xs(1)] _ below xs(3)]
    have "served_from l offset (y # ys)" by simp
    moreover have "from_batch offset (concat bss' @ cs) = (y # ys) @ concat rest @ cs"
      using xs(2,3) unfolding bss' xs(1) by (simp add: dropWhile_append2)
    ultimately show ?thesis by (intro exI [of _ "y # ys"] exI [of _ "concat rest @ cs"] conjI)
  qed
qed

abbreviation tp_label :: "topic_partition \<Rightarrow> string" where
  "tp_label tp \<equiv> tp_toString tp @ [CHR 0x09]"

text \<open>A partition that stays as it is, without holes, with records that decode and fit a frame.\<close>

definition readable_log :: "endpoint \<Rightarrow> (string \<Rightarrow> nat) \<Rightarrow> topic_partition \<Rightarrow> byte list list \<Rightarrow> partition_log \<Rightarrow> bool" where
  "readable_log ep hash tp bs l \<longleftrightarrow> undisturbed ep hash (tp_topic tp) (tp_partition tp) l \<and> gap_free l \<and> list_all legible bs \<and> list_all frame_sized bs \<and>
     (\<exists>bss cs. log_holds bss cs l \<and> bs = concat bss @ cs)"

lemma fetch_once_shows:
  assumes "readable_log ep hash tp bs l" "hosts (tp_topic tp) (tp_partition tp) l bk" "logStartOffset l \<le> offset" "offset \<le> lg_logEndOffset l"
    and "cl_room ep room (Suc k) cl" "consume_body (tp_topic tp) \<le> room"
  shows "\<exists>ps qs cl'. from_batch offset bs = ps @ qs \<and> (ps = [] \<longleftrightarrow> offset = lg_logEndOffset l) \<and>
    (ps \<noteq> [] \<longrightarrow> offset < end_offset offset ps) \<and> in_i64 (end_offset offset ps) \<and>
    fetchOnce (client_link (loop_peer ep)) tp offset (cl, i, bk) =
      (log_text (tp_label tp) ps, Done (int (length (log_text (tp_label tp) ps)), end_offset offset ps, cl', Suc i, ep_others ep i bk)) \<and>
    cl_room ep room k cl'"
proof -
  obtain bss cs where l: "undisturbed ep hash (tp_topic tp) (tp_partition tp) l" "gap_free l" "list_all legible bs" "list_all frame_sized bs"
      "log_holds bss cs l" "bs = concat bss @ cs" using assms(1) by (auto simp: readable_log_def)
  have ep: "ep_registry ep = registerAllHandlers hash Map.empty" "partition_ok (tp_topic tp) (tp_partition tp) l"
      "hosts (tp_topic tp) (tp_partition tp) l (ep_others ep i bk)"
    using l(1) assms(2) by (simp_all add: undisturbed_def)
  have h: "sealed_holds bss (lg_sealed l)" "lg_logEndOffset l < 2 ^ 63" "in_i64 (lg_logEndOffset l)"
    using l(5) by (simp_all add: log_holds_def valid_base_def range_simps)
  show ?thesis
  proof (cases "offset < lg_logEndOffset l")
    case False
    with assms(4) have offset: "offset = lg_logEndOffset l" by simp
    have read: "log_read offset (2 ^ 20) l = Inr \<lparr>rr_error = NoError, rr_file = None, rr_position = 0, rr_length = 0\<rparr>" (is "_ = Inr ?r")
      unfolding offset by (simp add: log_read_def)
    have none: "in_file (range_of l ?r)" "pread (range_of l ?r) = []" by (simp_all add: range_of_def no_range_def pread_def in_file_def)
    have size: "length (pread (range_of l ?r)) + 2 ^ 17 \<le> kMaxFrameBytes" unfolding none(2) by (simp add: kMaxFrameBytes_def)
    from fetch_over_the_wire [OF ep _ assms(5) read none(1) size assms(6)] h(3) offset none(2) obtain cl' where
      "fetchOnce (client_link (loop_peer ep)) tp offset (cl, i, bk) = ([], Done (0, offset, cl', Suc i, ep_others ep i bk))"
      "cl_room ep room k cl'" by (auto simp: fetchOnce_def reportError_def)
    with offset h(3) show ?thesis by (intro exI [of _ "[]"] exI [of _ "from_batch offset bs"] exI [of _ cl']) (simp add: end_offset_def)
  next
    case True
    have start: "(case lg_sealed l of [] \<Rightarrow> sg_baseOffset (lg_active l) | (base, _) # _ \<Rightarrow> base) \<le> offset"
      using assms(3) by (simp add: logStartOffset_def split: list.splits prod.splits)
    obtain ys behind where ys: "served_from l offset ys" "from_batch offset bs = ys @ behind"
      using batch_found [OF l(5) True _ h(1) subset_refl _ start] l(2,4) unfolding l(6) gap_free_def list_all_append by metis
    then obtain r n base where r: "log_read offset (2 ^ 20) l = Inr r" "rr_error r = NoError" "in_file (range_of l r)"
        "pread (range_of l r) = take n (concat ys)" "length (pread (range_of l r)) + 2 ^ 17 \<le> kMaxFrameBytes" "length (hd ys) \<le> n"
        "list_all batch_wf ys" "in_i64 offset" "ys \<noteq> []" "offset \<le> lastOffset (hdr (hd ys))" "ascending base ys" "end_offset base ys \<le> lg_logEndOffset l"
      by (auto simp: served_from_def)
    have "set ys \<subseteq> set bs" using ys(2) by (metis UnCI set_append set_dropWhileD subsetI)
    then have legible: "list_all legible ys" using l(3) by (auto simp: list_all_iff)
    obtain ps qs where ps: "ys = ps @ qs" "ps \<noteq> []"
        "printBatches (pread (range_of l r)) (tp_label tp) offset 0 =
          (log_text (tp_label tp) ps, Done (length (log_text (tp_label tp) ps), end_offset offset ps))"
      using printBatches_take [OF r(7) legible, of n "tp_label tp" offset 0] r(6,9) unfolding r(4) add_0 by blast
    have "ascending base ps" "ascending (end_offset base ps) qs" "end_offset (end_offset base ps) qs \<le> lg_logEndOffset l"
      using r(11,12) unfolding ps(1) by simp_all
    then have "end_offset base ps \<le> lg_logEndOffset l" using ascending_le_end [of "end_offset base ps" qs] by simp
    then have upper: "end_offset offset ps \<le> lg_logEndOffset l" using ps(2) by (simp add: end_offset_def)
    have "hd ys \<in> set ps" using ps(1,2) by simp
    from ascending_last_less [OF \<open>ascending base ps\<close> this] have lower: "offset < end_offset offset ps" using ps(2) r(10) by (simp add: end_offset_def)
    obtain cl' where cl': "fetchOnce (client_link (loop_peer ep)) tp offset (cl, i, bk) =
        (log_text (tp_label tp) ps, Done (int (length (log_text (tp_label tp) ps)), end_offset offset ps, cl', Suc i, ep_others ep i bk))"
        "cl_room ep room k cl'"
      using fetch_over_the_wire [OF ep r(8) assms(5) r(1,3,5) assms(6)] r(2) ps(3) by (auto simp: fetchOnce_def reportError_def)
    have "in_i64 (end_offset offset ps)" using upper lower h(2) r(8) by (simp add: range_simps)
    moreover have "from_batch offset bs = ps @ qs @ behind" using ys(2) ps(1) by simp
    ultimately show ?thesis using cl' lower ps(2) True
      by (intro exI [of _ ps] exI [of _ "qs @ behind"] exI [of _ cl']) simp
  qed
qed

subsection \<open>One partition of a pass\<close>

text \<open>How far the group is known to have read: where its next member starts.\<close>

definition committed_to :: "group_consumer \<Rightarrow> broker \<Rightarrow> topic_partition \<Rightarrow> int" where
  "committed_to gc bk tp = (case fetch_position (position_key gc tp) (bk_offsets bk) of None \<Rightarrow> 0 | Some v \<Rightarrow> cv_nextOffset v)"

text \<open>What a member relies on: its partitions stay as they are and nobody else commits for them.\<close>

definition left_to_member :: "endpoint \<Rightarrow> (string \<Rightarrow> nat) \<Rightarrow> group_consumer \<Rightarrow> (topic_partition \<Rightarrow> byte list list) \<Rightarrow> (topic_partition \<Rightarrow> partition_log) \<Rightarrow>
    topic_partition \<Rightarrow> bool" where
  "left_to_member ep hash gc batches logs tp \<longleftrightarrow> readable_log ep hash tp (batches tp) (logs tp) \<and> 0 \<le> logStartOffset (logs tp) \<and>
     tp_topic tp \<noteq> kOffsetsTopic \<and> (\<forall>i bk. committed_to gc (ep_others ep i bk) tp = committed_to gc bk tp)"

definition member_fits :: "endpoint \<Rightarrow> group_consumer \<Rightarrow> nat \<Rightarrow> topic_partition \<Rightarrow> bool" where
  "member_fits ep gc n tp \<longleftrightarrow> string_ok (gcn_groupId gc) \<and> string_ok (gcn_memberId gc) \<and> in_i32 (gcn_generation gc) \<and>
     length (gcn_groupId gc) + length (gcn_memberId gc) + consume_body (tp_topic tp) \<le> n \<and> (\<forall>i. in_i64 (ep_clock ep i))"

interpretation other_log: commit_invariant hash "\<lambda>_ s. tp_topic tp \<noteq> kOffsetsTopic \<and> lm_get (snd s) tp = Some l" for hash tp l
proof
  fix k :: nat and st m key v clock r st' m'
  assume inv: "tp_topic tp \<noteq> kOffsetsTopic \<and> lm_get (snd (st, m)) tp = Some l" and run: "commit hash key v clock (st, m) = (r, st', m')"
  obtain r' where "append_commit hash key (Some v) (cv_commitTimestampMs v) clock st m = (r', m')"
    using run by (auto simp: commit_def split: prod.splits sum.splits)
  then have "lm_get m' tp = lm_get m tp"
    by (cases rule: append_commit_cases) (use inv in \<open>auto simp: lm_get_update\<close>)
  with inv show "tp_topic tp \<noteq> kOffsetsTopic \<and> lm_get (snd (st', m')) tp = Some l" by simp
qed simp

lemma commit_request_effect:
  assumes "commit_offsets hash now (commit_request gc tp n) bk = (commit_answer tp e, bk')"
  shows "committed_to gc bk' t = (if e = EC_None \<and> t = tp then n else committed_to gc bk t)"
proof -
  have key: "position_key gc t = position_key gc tp \<longleftrightarrow> t = tp" by (cases t; cases tp) simp
  show ?thesis
    using fun_cong [OF commit_offsets_effect [OF assms], of "position_key gc t"] key
    by (auto simp: committed_to_def acked_def acked_topic_def acked_partition_def commit_request_def)
qed

lemma commit_request_hosts:
  fixes t tp :: topic_partition
  assumes "commit_offsets hash now (commit_request gc tp n) bk = (answer, bk')" "offset_commit_request_ok (commit_request gc tp n)" "in_i64 now"
    and "hosts (tp_topic t) (tp_partition t) l bk" "tp_topic t \<noteq> kOffsetsTopic"
  shows "hosts (tp_topic t) (tp_partition t) l bk'"
proof -
  have "string_ok (ocq_groupId (commit_request gc tp n))" "list_all commit_topic_ok (ocq_topics (commit_request gc tp n))"
    using assms(2) by (simp_all add: offset_commit_request_ok_def commit_request_def commit_topic_ok_def asked_ok_def array_ok_def
        commit_request_topic_ok_def commit_request_partition_ok_def)
  from other_log.request_keeps [OF this assms(3) _ assms(1), of t l] assms(4,5) show ?thesis by (cases t) (simp add: hosts_def)
qed

text \<open>The broker refuses the commit that follows the fetch numbered \<open>i\<close>, after what others did before either.\<close>

definition commit_refused :: "endpoint \<Rightarrow> (string \<Rightarrow> nat) \<Rightarrow> group_consumer \<Rightarrow> topic_partition \<Rightarrow> int \<Rightarrow> nat \<Rightarrow> broker \<Rightarrow> bool" where
  "commit_refused ep hash gc tp nextOffset i bk \<longleftrightarrow> (\<exists>e bk'. e \<noteq> EC_None \<and>
     commit_offsets hash (ep_clock ep (Suc i)) (commit_request gc tp nextOffset) (ep_others ep (Suc i) (ep_others ep i bk)) = (commit_answer tp e, bk'))"

text \<open>A fetch, what it shows, and the commit of exactly that.\<close>

lemma read_one:
  assumes left: "\<forall>t \<in> T. left_to_member ep hash gc batches logs t \<and> hosts (tp_topic t) (tp_partition t) (logs t) bk"
    and tp: "tp \<in> T" "member_fits ep gc n tp" "cl_room ep n (k + 2) cl"
    and pos: "logStartOffset (logs tp) \<le> pos" "pos \<le> lg_logEndOffset (logs tp)" "committed_to gc bk tp = pos"
  shows "\<exists>ps qs. from_batch pos (batches tp) = ps @ qs \<and> (ps = [] \<longleftrightarrow> pos = lg_logEndOffset (logs tp)) \<and>
    ((\<exists>cl' i' bk'. (\<forall>tps m positions. position_of positions tp = pos \<longrightarrow>
        read_assigned (client_link (loop_peer ep)) (tp # tps) m positions (gc, cl, i, bk) =
        show_then (show_text (log_text (tp_label tp) ps) ()) (\<lambda>_. read_assigned (client_link (loop_peer ep)) tps
          (m + int (length (log_text (tp_label tp) ps))) (set_at tp (end_offset pos ps) positions) (gc, cl', i', bk'))) \<and>
      cl_room ep n k cl' \<and> committed_to gc bk' tp = end_offset pos ps \<and>
      (\<forall>t \<in> T. hosts (tp_topic t) (tp_partition t) (logs t) bk' \<and> (t \<noteq> tp \<longrightarrow> committed_to gc bk' t = committed_to gc bk t))) \<or>
     (ps \<noteq> [] \<and> commit_refused ep hash gc tp (end_offset pos ps) i bk \<and> (\<forall>tps m positions. position_of positions tp = pos \<longrightarrow>
        read_assigned (client_link (loop_peer ep)) (tp # tps) m positions (gc, cl, i, bk) = (log_text (tp_label tp) ps, Raised Error))))"
proof -
  let ?link = "client_link (loop_peer ep)" and ?bk = "ep_others ep i bk"
  have l: "readable_log ep hash tp (batches tp) (logs tp)" "hosts (tp_topic tp) (tp_partition tp) (logs tp) bk" "0 \<le> pos"
    using left tp(1) pos(1) by (auto simp: left_to_member_def)
  have others: "\<forall>t \<in> T. hosts (tp_topic t) (tp_partition t) (logs t) (ep_others ep j bk) \<and> committed_to gc (ep_others ep j bk) t = committed_to gc bk t"
    if "\<forall>t \<in> T. hosts (tp_topic t) (tp_partition t) (logs t) bk" for j bk
    using left that by (simp add: left_to_member_def readable_log_def undisturbed_def)
  have sizes: "consume_body (tp_topic tp) \<le> n" "cl_room ep n (Suc (Suc k)) cl" using tp(2,3) by (simp_all add: member_fits_def)
  from fetch_once_shows [OF l(1,2) pos(1,2) sizes(2,1), of i]
  obtain ps qs cl1 where ps: "from_batch pos (batches tp) = ps @ qs" "ps = [] \<longleftrightarrow> pos = lg_logEndOffset (logs tp)"
      "ps \<noteq> [] \<longrightarrow> pos < end_offset pos ps" "in_i64 (end_offset pos ps)"
      "fetchOnce ?link tp pos (cl, i, bk) = (log_text (tp_label tp) ps, Done (int (length (log_text (tp_label tp) ps)), end_offset pos ps, cl1, Suc i, ?bk))"
      "cl_room ep n (Suc k) cl1" by blast
  let ?text = "log_text (tp_label tp) ps" and ?new = "end_offset pos ps"
  have hosted: "\<forall>t \<in> T. hosts (tp_topic t) (tp_partition t) (logs t) bk" using left by blast
  show ?thesis
  proof (cases "ps = []")
    case True
    then have same: "?new = pos" by (simp add: end_offset_def)
    have "read_assigned ?link (tp # tps) m positions (gc, cl, i, bk) =
        show_then (show_text ?text ()) (\<lambda>_. read_assigned ?link tps (m + int (length ?text)) (set_at tp ?new positions) (gc, cl1, Suc i, ?bk))"
      if "position_of positions tp = pos" for tps m positions
      using that ps(5) same by (simp add: Let_def split_beta)
    with ps(1,2) others [OF hosted, of i] cl_room_less [OF ps(6), of k] pos(3) tp(1) same show ?thesis
      by (intro exI [of _ ps] exI [of _ qs] conjI disjI1 exI [of _ cl1] exI [of _ "Suc i"] exI [of _ ?bk]) auto
  next
    case False
    then have new: "?new \<noteq> pos" "0 \<le> ?new" using ps(3) l(3) by auto
    have ok: "offset_commit_request_ok (commit_request gc tp ?new)"
      using tp(2) ps(4) new(2) l(1)
      by (simp add: member_fits_def readable_log_def undisturbed_def partition_ok_def commit_request_def offset_commit_request_ok_def
          commit_request_topic_ok_def commit_request_partition_ok_def array_ok_def string_ok_def)
    have "length (offset_commit_request_repr (commit_request gc tp ?new)) \<le> n"
      using tp(2) by (simp add: member_fits_def consume_body_def commit_request_def offset_commit_request_repr_def commit_request_topic_repr_def
          commit_request_partition_repr_def array_repr_def string_repr_def be_bytes_8 be_bytes_4 be_bytes_2)
    then have fits: "call_fits ep OffsetCommit (offset_commit_request_repr (commit_request gc tp ?new)) cl1" by (rule cl_room_fits [OF ps(6)])
    have reg: "ep_registry ep = registerAllHandlers hash Map.empty" using l(1) by (simp add: readable_log_def undisturbed_def)
    let ?bk2 = "ep_others ep (Suc i) ?bk" and ?now = "ep_clock ep (Suc i)"
    obtain answer bk' where run: "commit_offsets hash ?now (commit_request gc tp ?new) ?bk2 = (answer, bk')" by fastforce
    obtain e where e: "answer = commit_answer tp e" using commit_one_answer [OF ok run] by blast
    obtain arrived where commit: "client_ready (after_call cl1 arrived)" "consumer_commit ?link tp ?new (gc, cl1, Suc i, ?bk) =
        (if e = EC_None then Done ((), gc, after_call cl1 arrived, Suc (Suc i), bk') else Raised Error)"
      using commit_over_the_wire [OF reg ok fits run [unfolded e]] by blast
    show ?thesis
    proof (cases "e = EC_None")
      case True
      have "read_assigned ?link (tp # tps) m positions (gc, cl, i, bk) =
          show_then (show_text ?text ()) (\<lambda>_. read_assigned ?link tps (m + int (length ?text)) (set_at tp ?new positions)
            (gc, after_call cl1 arrived, Suc (Suc i), bk'))"
        if "position_of positions tp = pos" for tps m positions
        using that ps(5) new(1) commit(2) True by (simp add: Let_def split_beta)
      moreover have "cl_room ep n k (after_call cl1 arrived)" using cl_room_after [of ep n 1 k cl1 arrived] ps(6) commit(1) by simp
      moreover have "\<forall>t \<in> T. hosts (tp_topic t) (tp_partition t) (logs t) ?bk2 \<and> committed_to gc ?bk2 t = committed_to gc bk t"
        using others [OF hosted] left by (simp add: left_to_member_def readable_log_def undisturbed_def)
      then have "\<forall>t \<in> T. hosts (tp_topic t) (tp_partition t) (logs t) bk' \<and> (t \<noteq> tp \<longrightarrow> committed_to gc bk' t = committed_to gc bk t)"
        using commit_request_hosts [OF run ok] commit_request_effect [OF run [unfolded e]] tp(2) left
        by (auto simp: member_fits_def left_to_member_def)
      moreover have "committed_to gc bk' tp = ?new" using commit_request_effect [OF run [unfolded e]] True by simp
      ultimately show ?thesis using ps(1,2)
        by (intro exI [of _ ps] exI [of _ qs] conjI disjI1 exI [of _ "after_call cl1 arrived"] exI [of _ "Suc (Suc i)"] exI [of _ bk']) auto
    next
      case refused: False
      have "read_assigned ?link (tp # tps) m positions (gc, cl, i, bk) = (?text, Raised Error)"
        if "position_of positions tp = pos" for tps m positions
        using that ps(5) new(1) commit(2) refused by (simp add: Let_def silent_def)
      moreover have "commit_refused ep hash gc tp ?new i bk" using run e refused unfolding commit_refused_def by blast
      ultimately show ?thesis using ps(1,2) False by (intro exI [of _ ps] exI [of _ qs] conjI disjI2) auto
    qed
  qed
qed

subsection \<open>A pass over the assignment\<close>

text \<open>The batches shown in a pass: for each partition the ones from its position on, at least one unless there is none.\<close>

definition pass_shows :: "(topic_partition \<Rightarrow> byte list list) \<Rightarrow> (topic_partition \<Rightarrow> partition_log) \<Rightarrow> (topic_partition \<times> int) list \<Rightarrow>
    topic_partition list \<Rightarrow> (topic_partition \<Rightarrow> byte list list) \<Rightarrow> bool" where
  "pass_shows batches logs positions tps shown \<longleftrightarrow> (\<forall>tp \<in> set tps.
     (\<exists>later. from_batch (position_of positions tp) (batches tp) = shown tp @ later) \<and>
     (shown tp = [] \<longleftrightarrow> position_of positions tp = lg_logEndOffset (logs tp)))"

definition pass_text :: "(topic_partition \<Rightarrow> byte list list) \<Rightarrow> topic_partition list \<Rightarrow> printed list" where
  "pass_text shown tps = concat (map (\<lambda>tp. log_text (tp_label tp) (shown tp)) tps)"

lemma pass_text_cong: "(\<And>tp. tp \<in> set tps \<Longrightarrow> shown tp = shown' tp) \<Longrightarrow> pass_text shown tps = pass_text shown' tps"
  unfolding pass_text_def by (metis (mono_tags, lifting) map_eq_conv)

definition in_log :: "partition_log \<Rightarrow> int \<Rightarrow> bool" where
  "in_log l pos \<longleftrightarrow> logStartOffset l \<le> pos \<and> pos \<le> lg_logEndOffset l"

lemma position_of_set_at [simp]: "position_of (set_at tp v positions) t = (if t = tp then v else position_of positions t)"
  by (simp add: position_of_def)

lemma pass_induct:
  assumes T: "\<forall>t \<in> T. left_to_member ep hash gc batches logs t \<and> member_fits ep gc n t"
  shows "distinct tps \<Longrightarrow> set tps \<subseteq> T \<Longrightarrow> \<forall>t \<in> T. hosts (tp_topic t) (tp_partition t) (logs t) bk \<Longrightarrow> cl_room ep n (2 * length tps + k) cl \<Longrightarrow>
    \<forall>tp \<in> set tps. in_log (logs tp) (position_of positions tp) \<and> committed_to gc bk tp = position_of positions tp \<Longrightarrow>
    \<exists>shown. pass_shows batches logs positions tps shown \<and>
      (\<exists>positions' cl' i' bk'. read_assigned (client_link (loop_peer ep)) tps m positions (gc, cl, i, bk) =
          (pass_text shown tps, Done (Some (m + int (length (pass_text shown tps))), positions', gc, cl', i', bk')) \<and>
        (\<forall>tp \<in> set tps. position_of positions' tp = end_offset (position_of positions tp) (shown tp) \<and> committed_to gc bk' tp = position_of positions' tp) \<and>
        (\<forall>tp \<in> T - set tps. position_of positions' tp = position_of positions tp \<and> committed_to gc bk' tp = committed_to gc bk tp) \<and>
        cl_room ep n k cl' \<and> (\<forall>t \<in> T. hosts (tp_topic t) (tp_partition t) (logs t) bk')) \<or>
      (\<exists>j < length tps. pass_shows batches logs positions (take (Suc j) tps) shown \<and> shown (tps ! j) \<noteq> [] \<and>
        (\<exists>positions' cl' i' bk'. read_assigned (client_link (loop_peer ep)) (take j tps) m positions (gc, cl, i, bk) =
            (pass_text shown (take j tps), Done (Some (m + int (length (pass_text shown (take j tps)))), positions', gc, cl', i', bk')) \<and>
          (\<forall>tp \<in> set (take j tps). committed_to gc bk' tp = end_offset (position_of positions tp) (shown tp)) \<and>
          (\<forall>tp \<in> T - set (take j tps). committed_to gc bk' tp = committed_to gc bk tp) \<and>
          commit_refused ep hash gc (tps ! j) (end_offset (position_of positions (tps ! j)) (shown (tps ! j))) i' bk') \<and>
        read_assigned (client_link (loop_peer ep)) tps m positions (gc, cl, i, bk) = (pass_text shown (take (Suc j) tps), Raised Error))"
proof (induction tps arbitrary: m positions cl i bk)
  case Nil
  then show ?case by (auto simp: pass_shows_def pass_text_def)
next
  case (Cons tp tps)
  let ?link = "client_link (loop_peer ep)" and ?pos = "position_of positions tp"
  have tp: "tp \<in> T" "member_fits ep gc n tp" "in_log (logs tp) ?pos" "committed_to gc bk tp = ?pos" using Cons.prems T by auto
  have room: "cl_room ep n ((2 * length tps + k) + 2) cl" using Cons.prems(4) by (simp add: add.commute add.left_commute)
  have left: "\<forall>t \<in> T. left_to_member ep hash gc batches logs t \<and> hosts (tp_topic t) (tp_partition t) (logs t) bk" using T Cons.prems(3) by blast
  from read_one [OF left tp(1,2) room _ _ tp(4), of i] tp(3) obtain ps qs where
    ps: "from_batch ?pos (batches tp) = ps @ qs" "ps = [] \<longleftrightarrow> ?pos = lg_logEndOffset (logs tp)" and
    cases: "(\<exists>cl' i' bk'. (\<forall>tps m positions'. position_of positions' tp = ?pos \<longrightarrow>
        read_assigned ?link (tp # tps) m positions' (gc, cl, i, bk) =
        show_then (show_text (log_text (tp_label tp) ps) ()) (\<lambda>_. read_assigned ?link tps
          (m + int (length (log_text (tp_label tp) ps))) (set_at tp (end_offset ?pos ps) positions') (gc, cl', i', bk'))) \<and>
      cl_room ep n (2 * length tps + k) cl' \<and> committed_to gc bk' tp = end_offset ?pos ps \<and>
      (\<forall>t \<in> T. hosts (tp_topic t) (tp_partition t) (logs t) bk' \<and> (t \<noteq> tp \<longrightarrow> committed_to gc bk' t = committed_to gc bk t))) \<or>
     (ps \<noteq> [] \<and> commit_refused ep hash gc tp (end_offset ?pos ps) i bk \<and> (\<forall>tps m positions'. position_of positions' tp = ?pos \<longrightarrow>
        read_assigned ?link (tp # tps) m positions' (gc, cl, i, bk) = (log_text (tp_label tp) ps, Raised Error)))"
    unfolding in_log_def by blast
  note distinct = Cons.prems(1)
  show ?case
    using cases
  proof (elim disjE exE conjE)
    fix cl1 i1 bk1
    assume step: "\<forall>tps m positions'. position_of positions' tp = ?pos \<longrightarrow>
        read_assigned ?link (tp # tps) m positions' (gc, cl, i, bk) =
        show_then (show_text (log_text (tp_label tp) ps) ()) (\<lambda>_. read_assigned ?link tps
          (m + int (length (log_text (tp_label tp) ps))) (set_at tp (end_offset ?pos ps) positions') (gc, cl1, i1, bk1))"
      and after: "cl_room ep n (2 * length tps + k) cl1" "committed_to gc bk1 tp = end_offset ?pos ps"
        "\<forall>t \<in> T. hosts (tp_topic t) (tp_partition t) (logs t) bk1 \<and> (t \<noteq> tp \<longrightarrow> committed_to gc bk1 t = committed_to gc bk t)"
    let ?positions = "set_at tp (end_offset ?pos ps) positions" and ?m = "m + int (length (log_text (tp_label tp) ps))"
    have rest: "\<forall>t \<in> set tps. in_log (logs t) (position_of ?positions t) \<and> committed_to gc bk1 t = position_of ?positions t"
      using Cons.prems(1,2,5) after(3) by auto
    have hosted: "\<forall>t \<in> T. hosts (tp_topic t) (tp_partition t) (logs t) bk1" using after(3) by blast
    have sub: "distinct tps" "set tps \<subseteq> T" using Cons.prems(1,2) by simp_all
    from Cons.IH [OF sub hosted after(1) rest, of ?m i1] obtain shown where
      ended: "pass_shows batches logs ?positions tps shown \<and> (\<exists>positions' cl' i' bk'. read_assigned ?link tps ?m ?positions (gc, cl1, i1, bk1) =
          (pass_text shown tps, Done (Some (?m + int (length (pass_text shown tps))), positions', gc, cl', i', bk')) \<and>
        (\<forall>t \<in> set tps. position_of positions' t = end_offset (position_of ?positions t) (shown t) \<and> committed_to gc bk' t = position_of positions' t) \<and>
        (\<forall>t \<in> T - set tps. position_of positions' t = position_of ?positions t \<and> committed_to gc bk' t = committed_to gc bk1 t) \<and>
        cl_room ep n k cl' \<and> (\<forall>t \<in> T. hosts (tp_topic t) (tp_partition t) (logs t) bk')) \<or>
      (\<exists>j < length tps. pass_shows batches logs ?positions (take (Suc j) tps) shown \<and> shown (tps ! j) \<noteq> [] \<and>
        (\<exists>positions' cl' i' bk'. read_assigned ?link (take j tps) ?m ?positions (gc, cl1, i1, bk1) =
            (pass_text shown (take j tps), Done (Some (?m + int (length (pass_text shown (take j tps)))), positions', gc, cl', i', bk')) \<and>
          (\<forall>t \<in> set (take j tps). committed_to gc bk' t = end_offset (position_of ?positions t) (shown t)) \<and>
          (\<forall>t \<in> T - set (take j tps). committed_to gc bk' t = committed_to gc bk1 t) \<and>
          commit_refused ep hash gc (tps ! j) (end_offset (position_of ?positions (tps ! j)) (shown (tps ! j))) i' bk') \<and>
        read_assigned ?link tps ?m ?positions (gc, cl1, i1, bk1) = (pass_text shown (take (Suc j) tps), Raised Error))" by (elim exE)
    let ?shown = "shown(tp := ps)"
    have same: "pass_text ?shown xs = pass_text shown xs" if "set xs \<subseteq> set tps" for xs
      using that distinct by (intro pass_text_cong) auto
    have all: "pass_shows batches logs ?positions xs shown \<Longrightarrow> set xs \<subseteq> set tps \<Longrightarrow> pass_shows batches logs positions (tp # xs) ?shown" for xs
      using ps distinct by (auto simp: pass_shows_def)
    have text_Cons: "pass_text ?shown (tp # xs) = log_text (tp_label tp) ps @ pass_text ?shown xs" for xs by (simp add: pass_text_def)
    show ?thesis
      using ended
    proof (elim disjE exE conjE)
      fix positions' cl' i' bk'
      assume shown: "pass_shows batches logs ?positions tps shown" and "read_assigned ?link tps ?m ?positions (gc, cl1, i1, bk1) =
          (pass_text shown tps, Done (Some (?m + int (length (pass_text shown tps))), positions', gc, cl', i', bk'))"
        and fin: "\<forall>t \<in> set tps. position_of positions' t = end_offset (position_of ?positions t) (shown t) \<and> committed_to gc bk' t = position_of positions' t"
          "\<forall>t \<in> T - set tps. position_of positions' t = position_of ?positions t \<and> committed_to gc bk' t = committed_to gc bk1 t"
          "cl_room ep n k cl'" "\<forall>t \<in> T. hosts (tp_topic t) (tp_partition t) (logs t) bk'"
      from this(2) have "read_assigned ?link (tp # tps) m positions (gc, cl, i, bk) =
          (pass_text ?shown (tp # tps), Done (Some (m + int (length (pass_text ?shown (tp # tps)))), positions', gc, cl', i', bk'))"
        using step same [of tps] by (simp add: text_Cons show_text_def add.assoc)
      moreover have "\<forall>t \<in> set (tp # tps). position_of positions' t = end_offset (position_of positions t) (?shown t) \<and>
          committed_to gc bk' t = position_of positions' t"
        using fin(1,2) distinct tp(1) after(2) by auto
      moreover have "\<forall>t \<in> T - set (tp # tps). position_of positions' t = position_of positions t \<and> committed_to gc bk' t = committed_to gc bk t"
        using fin(2) after(3) by auto
      ultimately show ?thesis using all [OF shown subset_refl] fin(3,4) by (intro exI [of _ ?shown] conjI disjI1) blast+
    next
      fix j positions' cl' i' bk'
      assume shown: "pass_shows batches logs ?positions (take (Suc j) tps) shown" and j: "j < length tps" "shown (tps ! j) \<noteq> []"
        and front: "read_assigned ?link (take j tps) ?m ?positions (gc, cl1, i1, bk1) =
            (pass_text shown (take j tps), Done (Some (?m + int (length (pass_text shown (take j tps)))), positions', gc, cl', i', bk'))"
          "\<forall>t \<in> set (take j tps). committed_to gc bk' t = end_offset (position_of ?positions t) (shown t)"
          "\<forall>t \<in> T - set (take j tps). committed_to gc bk' t = committed_to gc bk1 t"
          "commit_refused ep hash gc (tps ! j) (end_offset (position_of ?positions (tps ! j)) (shown (tps ! j))) i' bk'"
        and whole: "read_assigned ?link tps ?m ?positions (gc, cl1, i1, bk1) = (pass_text shown (take (Suc j) tps), Raised Error)"
      have other: "tps ! j \<noteq> tp" "tp \<notin> set (take j tps)" using j(1) distinct by (auto dest: in_set_takeD)
      from whole have "read_assigned ?link (tp # tps) m positions (gc, cl, i, bk) = (pass_text ?shown (take (Suc (Suc j)) (tp # tps)), Raised Error)"
        using step same [of "take (Suc j) tps"] set_take_subset [of "Suc j" tps] by (simp add: text_Cons show_text_def)
      moreover from front(1) have "read_assigned ?link (take (Suc j) (tp # tps)) m positions (gc, cl, i, bk) =
          (pass_text ?shown (take (Suc j) (tp # tps)), Done (Some (m + int (length (pass_text ?shown (take (Suc j) (tp # tps))))), positions', gc, cl', i', bk'))"
        using step same [of "take j tps"] set_take_subset [of j tps] by (simp add: text_Cons show_text_def add.assoc)
      moreover have "\<forall>t \<in> set (take (Suc j) (tp # tps)). committed_to gc bk' t = end_offset (position_of positions t) (?shown t)"
        using front(2,3) after(2) tp(1) other(2) distinct by (auto dest: in_set_takeD)
      moreover have "\<forall>t \<in> T - set (take (Suc j) (tp # tps)). committed_to gc bk' t = committed_to gc bk t"
        using front(3) after(3) by auto
      moreover have "commit_refused ep hash gc ((tp # tps) ! Suc j) (end_offset (position_of positions ((tp # tps) ! Suc j)) (?shown ((tp # tps) ! Suc j))) i' bk'"
        using front(4) other(1) by simp
      moreover have "pass_shows batches logs positions (take (Suc (Suc j)) (tp # tps)) ?shown"
        using all [OF shown set_take_subset] by simp
      moreover have "?shown ((tp # tps) ! Suc j) \<noteq> []" using j other(1) by simp
      moreover have "Suc j < length (tp # tps)" using j(1) by simp
      ultimately show ?thesis by (intro exI [of _ ?shown] disjI2 exI [of _ "Suc j"] conjI) blast+
    qed
  next
    assume some: "ps \<noteq> []" "commit_refused ep hash gc tp (end_offset ?pos ps) i bk" and "\<forall>tps m positions'. position_of positions' tp = ?pos \<longrightarrow>
        read_assigned ?link (tp # tps) m positions' (gc, cl, i, bk) = (log_text (tp_label tp) ps, Raised Error)"
    from this(3) have "read_assigned ?link (tp # tps) m positions (gc, cl, i, bk) = (log_text (tp_label tp) ps, Raised Error)" by blast
    moreover have "pass_shows batches logs positions (take (Suc 0) (tp # tps)) (\<lambda>_. ps)" using ps by (simp add: pass_shows_def)
    ultimately show ?thesis using some by (intro exI [of _ "\<lambda>_. ps"] disjI2 exI [of _ 0] conjI) (simp_all add: pass_text_def)
  qed
qed

subsection \<open>Properties\<close>

text \<open>C5. A member of a group reads at least once. In a pass over its partitions it shows, for each one, the batches of the
log from the committed position on, at least one unless it is at the end. When the broker accepts every commit
the pass succeeds, and the committed position of every partition is the one right behind the last record shown, so
nothing that was not shown is ever skipped. The pass throws only when the broker answers the commit of what was
just shown of some partition with an error: then everything of the partitions before it is shown and committed, what it
shows of that partition is on the screen, and its committed position and those behind it are where they were, so they are
shown again.\<close>

theorem group_reads_at_least_once:
  assumes "\<forall>tp \<in> set tps. left_to_member ep hash gc batches logs tp \<and> member_fits ep gc n tp \<and> hosts (tp_topic tp) (tp_partition tp) (logs tp) bk"
    and "distinct tps" "cl_room ep n (2 * length tps + k) cl"
    and "\<forall>tp \<in> set tps. in_log (logs tp) (position_of positions tp) \<and> committed_to gc bk tp = position_of positions tp"
  shows "(\<exists>shown positions' cl' i' bk'. pass_shows batches logs positions tps shown \<and>
        read_assigned (client_link (loop_peer ep)) tps 0 positions (gc, cl, i, bk) =
          (pass_text shown tps, Done (Some (int (length (pass_text shown tps))), positions', gc, cl', i', bk')) \<and>
        (\<forall>tp \<in> set tps. position_of positions' tp = end_offset (position_of positions tp) (shown tp) \<and>
          committed_to gc bk' tp = position_of positions' tp)) \<or>
      (\<exists>shown. \<exists>j < length tps. pass_shows batches logs positions (take (Suc j) tps) shown \<and> shown (tps ! j) \<noteq> [] \<and>
        (\<exists>positions' cl' i' bk'. read_assigned (client_link (loop_peer ep)) (take j tps) 0 positions (gc, cl, i, bk) =
            (pass_text shown (take j tps), Done (Some (int (length (pass_text shown (take j tps)))), positions', gc, cl', i', bk')) \<and>
          (\<forall>tp \<in> set (take j tps). committed_to gc bk' tp = end_offset (position_of positions tp) (shown tp)) \<and>
          (\<forall>tp \<in> set tps - set (take j tps). committed_to gc bk' tp = committed_to gc bk tp) \<and>
          commit_refused ep hash gc (tps ! j) (end_offset (position_of positions (tps ! j)) (shown (tps ! j))) i' bk') \<and>
        read_assigned (client_link (loop_peer ep)) tps 0 positions (gc, cl, i, bk) = (pass_text shown (take (Suc j) tps), Raised Error))"
proof -
  have T: "\<forall>t \<in> set tps. left_to_member ep hash gc batches logs t \<and> member_fits ep gc n t"
    "\<forall>t \<in> set tps. hosts (tp_topic t) (tp_partition t) (logs t) bk" using assms(1) by blast+
  from pass_induct [OF T(1) assms(2) subset_refl T(2) assms(3,4), of 0 i] show ?thesis unfolding add_0 by blast
qed

text \<open>A broker with one record in a log, and with the offsets topic: the first commit of a group is accepted.\<close>

abbreviation demo_coordinator :: "partition_log \<Rightarrow> partition_log \<Rightarrow> broker" where
  "demo_coordinator offsets l \<equiv> demo_broker ((LogManager (small_config Compact))\<lparr>lm_logs := [(offsets_tp 0, offsets), (demo_tp, l)]\<rparr>)"

lemma demo_accepts:
  "\<exists>offsets. \<forall>l. \<exists>bk. commit_offsets (\<lambda>_. 0) 7 (commit_request demo_consumer demo_tp 1) (demo_coordinator offsets l) = (commit_answer demo_tp EC_None, bk)"
proof -
  obtain offsets where off: "log_holds [] [] offsets" "sg_baseOffset (lg_active offsets) = 0" using demo_topic by blast
  obtain b where b: "batchFor demo_key (Some (demo_position 1)) 7 = Inr b" "valid_batch b" "bh_lastOffsetDelta (hdr b) = 0"
    using batchFor_tells [of demo_key "Some (demo_position 1)" 7] demo_commit_ok(1)
    by (auto simp: commit_value_ok_def string_ok_def in_i64_def)
  obtain offsets' where app: "log_append b 7 7 offsets = (Inr 0, offsets')" using first_append [OF off b(2,3), of 7 7] by blast
  have p: "partitionFor (\<lambda>_. 0) (OffsetStore 1) ''g'' = Inr 0" by (simp add: partitionFor_def coordinatorPartition_def OffsetStore_def in_i32_def)
  have "\<exists>bk. commit_offsets (\<lambda>_. 0) 7 (commit_request demo_consumer demo_tp 1) (demo_coordinator offsets l) = (commit_answer demo_tp EC_None, bk)" for l
  proof -
    obtain st m where "commit (\<lambda>_. 0) demo_key (demo_position 1) (7, 7) (OffsetStore 1, bk_logs (demo_coordinator offsets l)) = (Inr (), st, m)"
      using p b(1) app by (simp add: commit_def append_commit_def lm_get_def Let_def)
    then show ?thesis by (simp add: commit_offsets_def commit_topic_def commit_one_def commit_request_def GroupConsumer_def)
  qed
  then show ?thesis by blast
qed

text \<open>A pass from the start of the log shows the record and commits the position behind it, and a pass from there
shows nothing and goes on.\<close>

theorem group_reads_at_least_once_witness:
  "\<exists>bk bk' positions cl i bk2 st. read_assigned (client_link (loop_peer demo_loop)) [demo_tp] 0 [(demo_tp, 0)] (demo_consumer, Client ''c'', 0, bk) =
      ([Out (''t-0'' @ [CHR 0x09] @ ''0'' @ [CHR 0x09] @ ''hi'' @ newline)], Done (Some 1, positions, demo_consumer, cl, i, bk')) \<and>
    position_of positions demo_tp = 1 \<and> committed_to demo_consumer bk' demo_tp = 1 \<and>
    read_assigned (client_link (loop_peer demo_loop)) [demo_tp] 0 [(demo_tp, 1)] (demo_consumer, Client ''c'', 0, bk2) = ([], Done (Some 0, st))"
proof -
  obtain s a where s: "active_holds [s] a" "legible s" "frame_sized s" "sg_baseOffset a = 0" "sg_nextOffset a = 1" "lastOffset (hdr s) = 0"
      "batch_text (tp_label demo_tp) s = [Out (c_str (tp_label demo_tp) @ to_string 0 @ [CHR 0x09] @ ''hi'' @ newline)]"
    using demo_segment [of 0] by auto
  let ?l = "demo_log [] a" and ?read = "\<lambda>pos bk. read_assigned (client_link (loop_peer demo_loop)) [demo_tp] 0 [(demo_tp, pos)] (demo_consumer, Client ''c'', 0, bk)"
  obtain offsets accepted where accepts: "commit_offsets (\<lambda>_. 0) 7 (commit_request demo_consumer demo_tp 1) (demo_coordinator offsets ?l) =
      (commit_answer demo_tp EC_None, accepted)" using demo_accepts by blast
  let ?host = "demo_coordinator offsets ?l"
  have log: "log_holds [] [s] ?l" using s by (simp add: log_holds_def log_make_def valid_base_def compacted_def Let_def)
  have "undisturbed demo_loop (\<lambda>_. 0) ''t'' 0 ?l"
    using s(4,5) by (simp add: undisturbed_def partition_ok_def log_make_def logStartOffset_def string_ok_def range_simps)
  then have "readable_log demo_loop (\<lambda>_. 0) demo_tp [s] ?l"
    using log s(2,3) unfolding readable_log_def by (intro conjI exI [of _ "[]"] exI [of _ "[s]"]) (simp_all add: gap_free_def log_make_def)
  then have left: "left_to_member demo_loop (\<lambda>_. 0) demo_consumer (\<lambda>_. [s]) (\<lambda>_. ?l) demo_tp"
    using s(4) by (simp add: left_to_member_def log_make_def logStartOffset_def kOffsetsTopic_def)
  have fits: "member_fits demo_loop demo_consumer 50 demo_tp" "cl_room demo_loop 50 (2 * length [demo_tp] + 0) (Client ''c'')"
    by (simp_all add: member_fits_def GroupConsumer_def consume_body_def demo_room_simps)
  have log_at: "in_log ?l 0" "in_log ?l 1" "lg_logEndOffset ?l = 1" using s(4,5) by (simp_all add: in_log_def log_make_def logStartOffset_def)
  let ?bk = "(demo_host ?l)\<lparr>bk_offsets := \<lparr>os_partitions = 1, os_committed = [(demo_key, demo_position 1)]\<rparr>\<rparr>"
  have hosts: "hosts ''t'' 0 ?l ?host" "hosts ''t'' 0 ?l ?bk" by (simp_all add: hosts_def lm_get_def LogManager_def kOffsetsTopic_def)
  have at: "committed_to demo_consumer ?host demo_tp = 0" "committed_to demo_consumer ?bk demo_tp = 1"
    by (simp_all add: committed_to_def fetch_position_def OffsetStore_def GroupConsumer_def)
  have shown0: "shown demo_tp = [s]" if "pass_shows (\<lambda>_. [s]) (\<lambda>_. ?l) [(demo_tp, 0)] [demo_tp] shown" for shown
    using that log_at(3) s(6) by (auto simp: pass_shows_def position_of_def Cons_eq_append_conv)
  have shown1: "shown demo_tp = []" if "pass_shows (\<lambda>_. [s]) (\<lambda>_. ?l) [(demo_tp, 1)] [demo_tp] shown" for shown
    using that log_at(3) by (auto simp: pass_shows_def position_of_def)
  have at_start: "\<forall>tp \<in> set [demo_tp]. left_to_member demo_loop (\<lambda>_. 0) demo_consumer (\<lambda>_. [s]) (\<lambda>_. ?l) tp \<and>
      member_fits demo_loop demo_consumer 50 tp \<and> hosts (tp_topic tp) (tp_partition tp) ?l ?host"
      "\<forall>tp \<in> set [demo_tp]. in_log ?l (position_of [(demo_tp, 0)] tp) \<and> committed_to demo_consumer ?host tp = position_of [(demo_tp, 0)] tp"
    using left fits(1) hosts(1) at(1) log_at(1) by (simp_all add: position_of_def)
  have behind: "\<forall>tp \<in> set [demo_tp]. left_to_member demo_loop (\<lambda>_. 0) demo_consumer (\<lambda>_. [s]) (\<lambda>_. ?l) tp \<and>
      member_fits demo_loop demo_consumer 50 tp \<and> hosts (tp_topic tp) (tp_partition tp) ?l ?bk"
      "\<forall>tp \<in> set [demo_tp]. in_log ?l (position_of [(demo_tp, 1)] tp) \<and> committed_to demo_consumer ?bk tp = position_of [(demo_tp, 1)] tp"
    using left fits(1) hosts(2) at(2) log_at(2) by (simp_all add: position_of_def)
  have one: "distinct [demo_tp]" by simp
  have "c_str (tp_label demo_tp) = ''t-0'' @ [CHR 0x09]" "to_string 0 = ''0''" by code_simp+
  then have line_text: "log_text (tp_label demo_tp) [s] = [Out (''t-0'' @ [CHR 0x09] @ ''0'' @ [CHR 0x09] @ ''hi'' @ newline)]"
    using s(7) by simp
  have text0: "pass_text shown [demo_tp] = log_text (tp_label demo_tp) [s]" if "pass_shows (\<lambda>_. [s]) (\<lambda>_. ?l) [(demo_tp, 0)] [demo_tp] shown" for shown
    using shown0 [OF that] by (simp add: pass_text_def)
  have text1: "pass_text shown [demo_tp] = []" if "pass_shows (\<lambda>_. [s]) (\<lambda>_. ?l) [(demo_tp, 1)] [demo_tp] shown" for shown
    using shown1 [OF that] by (simp add: pass_text_def)
  have "\<exists>positions cl i bk'. ?read 0 ?host = (log_text (tp_label demo_tp) [s], Done (Some 1, positions, demo_consumer, cl, i, bk')) \<and>
      position_of positions demo_tp = 1 \<and> committed_to demo_consumer bk' demo_tp = 1"
    using group_reads_at_least_once [OF at_start(1) one fits(2) at_start(2), of 0]
  proof (elim disjE exE conjE)
    fix shown positions' cl' i' bk'
    assume "pass_shows (\<lambda>_. [s]) (\<lambda>_. ?l) [(demo_tp, 0)] [demo_tp] shown"
      "?read 0 ?host = (pass_text shown [demo_tp], Done (Some (int (length (pass_text shown [demo_tp]))), positions', demo_consumer, cl', i', bk'))"
      "\<forall>tp \<in> set [demo_tp]. position_of positions' tp = end_offset (position_of [(demo_tp, 0)] tp) (shown tp) \<and>
          committed_to demo_consumer bk' tp = position_of positions' tp"
    then show ?thesis using text0 [of shown] shown0 [of shown] line_text s(6) by (auto simp: end_offset_def simp del: read_assigned.simps)
  next
    fix shown j positions' cl' i' bk'
    assume j: "j < length [demo_tp]" "pass_shows (\<lambda>_. [s]) (\<lambda>_. ?l) [(demo_tp, 0)] (take (Suc j) [demo_tp]) shown"
      and none: "read_assigned (client_link (loop_peer demo_loop)) (take j [demo_tp]) 0 [(demo_tp, 0)] (demo_consumer, Client ''c'', 0, ?host) =
        (pass_text shown (take j [demo_tp]), Done (Some (int (length (pass_text shown (take j [demo_tp])))), positions', demo_consumer, cl', i', bk'))"
      and refused: "commit_refused demo_loop (\<lambda>_. 0) demo_consumer ([demo_tp] ! j) (end_offset (position_of [(demo_tp, 0)] ([demo_tp] ! j)) (shown ([demo_tp] ! j))) i' bk'"
    have "j = 0" using j(1) by simp
    then have "i' = 0" "bk' = ?host" "end_offset (position_of [(demo_tp, 0)] ([demo_tp] ! j)) (shown ([demo_tp] ! j)) = 1"
      using none shown0 [of shown] j(2) s(6) by (simp_all add: position_of_def end_offset_def)
    with refused accepts \<open>j = 0\<close> show ?thesis by (simp add: commit_refused_def)
  qed
  moreover have "\<exists>st. ?read 1 ?bk = ([], Done (Some 0, st))"
    using group_reads_at_least_once [OF behind(1) one fits(2) behind(2), of 0]
  proof (elim disjE exE conjE)
    fix shown j
    assume "j < length [demo_tp]" "pass_shows (\<lambda>_. [s]) (\<lambda>_. ?l) [(demo_tp, 1)] (take (Suc j) [demo_tp]) shown" "shown ([demo_tp] ! j) \<noteq> []"
    then show ?thesis using shown1 [of shown] by simp
  next
    fix shown positions' cl' i' bk'
    assume "pass_shows (\<lambda>_. [s]) (\<lambda>_. ?l) [(demo_tp, 1)] [demo_tp] shown"
      "?read 1 ?bk = (pass_text shown [demo_tp], Done (Some (int (length (pass_text shown [demo_tp]))), positions', demo_consumer, cl', i', bk'))"
    then show ?thesis using text1 [of shown] by (simp del: read_assigned.simps)
  qed
  ultimately show ?thesis unfolding line_text by blast
qed

end
