(* ===== verification/Dump.thy ===== *)
theory Dump
  imports Terminal Cleaner_Pass "HOL-Library.Sublist"
begin

text \<open>
  \<^verbatim>\<open>cli/dump.cpp\<close>: what a partition directory holds, as text, and a directory generated to look at. The
  directory is the list of its files.
\<close>

text \<open>The dash of two messages, in the bytes of UTF-8.\<close>

definition em_dash :: string where
  "em_dash = [CHR 0xE2, CHR 0x80, CHR 0x94]"

subsection \<open>The records of a batch\<close>

text \<open>What is counted while a segment is shown: the offset expected next, the holes and the tombstones.\<close>

record dump_state =
  du_expected :: int
  du_holes :: nat
  du_tombstones :: nat

definition dump_record :: "int \<Rightarrow> record_data \<Rightarrow> dump_state \<Rightarrow> printed list \<times> dump_state" where
  "dump_record base rec st =
    (let offset = offsetFrom rec base;
         (gap, st) = (if offset \<noteq> du_expected st
           then ([Out (''      ... '' @ to_string (offset - du_expected st) @ '' offset(s) compacted away'' @ newline)],
                 st\<lparr>du_holes := du_holes st + 1\<rparr>)
           else ([], st));
         (tomb, st) = (if rec_value rec = None
           then ([Out (''      offset '' @ pad_right 6 (to_string offset) @ '' TOMBSTONE'' @ newline)],
                 st\<lparr>du_tombstones := du_tombstones st + 1\<rparr>)
           else ([], st))
     in (gap @ tomb, st\<lparr>du_expected := offset + 1\<rparr>))"

fun dump_records :: "int \<Rightarrow> record_data list \<Rightarrow> dump_state \<Rightarrow> printed list \<times> dump_state" where
  "dump_records base [] st = ([], st)"
| "dump_records base (rec # recs) st =
    (let (out, st) = dump_record base rec st; (more, st) = dump_records base recs st in (out @ more, st))"

subsection \<open>The batches of a segment\<close>

definition batch_line :: "batch_at \<Rightarrow> bool \<Rightarrow> printed" where
  "batch_line b intact = Out (''    byte '' @ pad_right 7 (to_string (int (at_position b))) @ '' offsets '' @
     to_string (bh_baseOffset (at_header b)) @ ''..'' @ pad_right 4 (to_string (lastOffset (at_header b))) @ '' '' @
     pad_left 2 (to_string (bh_recordCount (at_header b))) @ '' rec  '' @ pad_left 4 (to_string (int (at_totalSize b))) @ '' B  ts '' @
     to_string (bh_maxTimestamp (at_header b)) @ ''  crc '' @ (if intact then ''ok'' else ''BAD'') @ newline)"

function dump_batches :: "byte list \<Rightarrow> nat \<Rightarrow> nat \<Rightarrow> dump_state \<Rightarrow> (nat \<times> nat \<times> dump_state) shown" where
  "dump_batches content position batches st =
    (case batchAt content position (length content) of
       Inl e \<Rightarrow> ([], Raised e)
     | Inr None \<Rightarrow> ([], Done (position, batches, st))
     | Inr (Some b) \<Rightarrow>
         let bytes = take (at_totalSize b) (drop position content) in
         show_then (silent (of_result (verifyCrc bytes))) (\<lambda>intact.
         show_then (show_text [batch_line b intact] ()) (\<lambda>_.
         show_then (silent (of_result (decodeRecords bytes))) (\<lambda>recs.
         let (out, st) = dump_records (bh_baseOffset (at_header b)) recs st in
         show_then (show_text out ()) (\<lambda>_. dump_batches content (position + at_totalSize b) (batches + 1) st)))))"
  by pat_completeness auto
termination
proof (relation "measure (\<lambda>(content, position, _). length content - position)")
  fix content :: "byte list" and position batches :: nat and st found b bytes intact u recs p out st'
  assume "batchAt content position (length content) = Inr found" "found = Some b"
  then show "((content, position + at_totalSize b, batches + 1, st' :: dump_state), content, position, batches, st) \<in>
      measure (\<lambda>(content, position, _). length content - position)"
    using batchAt_SomeD [of content position "length content" b] by simp
qed simp

declare dump_batches.simps [simp del]

subsection \<open>A partition\<close>

text \<open>What is carried from one segment to the next.\<close>

record dump_totals =
  dt_totalBytes :: nat
  dt_logEnd :: int
  dt_totalHoles :: nat
  dt_segmentGaps :: nat
  dt_previousEnd :: "int option"

definition dump_segment :: "directory \<Rightarrow> int \<times> string \<Rightarrow> dump_totals \<Rightarrow> dump_totals shown" where
  "dump_segment dir = (\<lambda>(base, name) totals.
    show_then (silent (of_result (sealed_open dir name))) (\<lambda>seg.
    let gap = (case dt_previousEnd totals of None \<Rightarrow> None | Some previousEnd \<Rightarrow> if base > previousEnd then Some (base - previousEnd) else None);
        totals = (if gap = None then totals else totals\<lparr>dt_segmentGaps := dt_segmentGaps totals + 1\<rparr>) in
    show_then (show_text (case gap of None \<Rightarrow> []
        | Some n \<Rightarrow> [Out (''  ... '' @ to_string n @ '' offset(s) between segments '' @ em_dash @ '' a segment was removed'' @ newline)]) ()) (\<lambda>_.
    show_then (silent (case dir (segmentIndexPath base) of None \<Rightarrow> Uncaught | Some bytes \<Rightarrow> Done (length bytes))) (\<lambda>indexBytes.
    show_then (show_text
        [Out (c_str name @ ''  ['' @ (if indexBytes = oi_entryCount (sg_index seg) * kEntrySize then ''sealed'' else ''ACTIVE'') @ '']'' @ newline),
         Out (''  offsets '' @ to_string (sg_baseOffset seg) @ ''..'' @ to_string (sg_nextOffset seg - 1) @ ''   '' @
           to_string (int (sizeBytes seg)) @ '' bytes   '' @ to_string (int (oi_entryCount (sg_index seg))) @ '' index entries ('' @
           to_string (int indexBytes) @ '' bytes on disk)'' @ newline)] ()) (\<lambda>_.
    show_then (dump_batches (sg_log seg) 0 0 \<lparr>du_expected = sg_baseOffset seg, du_holes = 0, du_tombstones = 0\<rparr>) (\<lambda>(position, batches, st).
    show_text
      ((if position < sizeBytes seg
        then [Out (''    '' @ to_string (int (sizeBytes seg - position)) @ '' trailing byte(s) did not parse as a batch'' @ newline)] else []) @
       [Out (''    '' @ to_string (int batches) @ '' batch(es)'')] @
       (if du_holes st > 0 then [Out ('', '' @ to_string (int (du_holes st)) @ '' compaction hole(s)'')] else []) @
       (if du_tombstones st > 0 then [Out ('', '' @ to_string (int (du_tombstones st)) @ '' tombstone(s)'')] else []) @
       [Out (newline @ newline)])
      (totals\<lparr>dt_totalBytes := dt_totalBytes totals + sizeBytes seg, dt_logEnd := sg_nextOffset seg,
         dt_totalHoles := dt_totalHoles totals + du_holes st, dt_previousEnd := Some (sg_nextOffset seg)\<rparr>)))))))"

fun dump_segments :: "directory \<Rightarrow> (int \<times> string) list \<Rightarrow> dump_totals \<Rightarrow> dump_totals shown" where
  "dump_segments dir [] totals = ([], Done totals)"
| "dump_segments dir (first # logs) totals = show_then (dump_segment dir first totals) (dump_segments dir logs)"

text \<open>The log files in the order of their base offsets; of two with one base the first counts.\<close>

definition segmentsIn :: "(string \<times> byte list) list \<Rightarrow> (int \<times> string) list result" where
  "segmentsIn entries = collect_logs entries []"

text \<open>\<^verbatim>\<open>path::filename\<close>: what is behind the last slash.\<close>

definition path_filename :: "string \<Rightarrow> string" where
  "path_filename path = rev (takeWhile (\<lambda>c. c \<noteq> CHR ''/'') (rev path))"

definition inspectPartition :: "string \<Rightarrow> (string \<times> byte list) list \<Rightarrow> unit shown" where
  "inspectPartition path entries =
    show_then (silent (of_result (segmentsIn entries))) (\<lambda>logs.
    if logs = [] then show_text [Out (c_str path @ '' holds no segments'' @ newline)] ()
    else
      show_then (show_text [Out (''PARTITION '' @ c_str (path_filename path) @ ''   '' @ to_string (int (length logs)) @ '' segment(s)'' @ newline @ newline)] ()) (\<lambda>_.
      show_then (dump_segments (map_of entries) logs
          \<lparr>dt_totalBytes = 0, dt_logEnd = 0, dt_totalHoles = 0, dt_segmentGaps = 0, dt_previousEnd = None\<rparr>) (\<lambda>totals.
      show_text
        (Out (''logStartOffset '' @ to_string (fst (hd logs)) @ ''   logEndOffset '' @ to_string (dt_logEnd totals) @ ''   '' @
           to_string (int (dt_totalBytes totals)) @ '' bytes total'' @ newline) #
         (if dt_totalHoles totals > 0 \<or> dt_segmentGaps totals > 0
          then [Out (to_string (int (dt_totalHoles totals)) @ '' hole(s) within segments, '' @ to_string (int (dt_segmentGaps totals)) @
             '' gap(s) between them '' @ em_dash @ '' expected on a compacted topic, damage on any other'' @ newline)] else [])) ())))"

subsection \<open>A partition to look at\<close>

definition default_config :: log_config where
  "default_config = \<lparr>lc_roll = \<lparr>rp_maxSegmentBytes = 2 ^ 30, rp_maxSegmentAgeMs = 7 * 24 * 60 * 60 * 1000, rp_indexIntervalBytes = 4096,
       rp_maxIndexBytes = 10 * 2 ^ 20\<rparr>,
     lc_retention = \<lparr>rt_retentionMs = 7 * 24 * 60 * 60 * 1000, rt_retentionBytes = None, rt_segmentDeleteDelayMs = 60000\<rparr>,
     lc_compaction = \<lparr>cp_deleteRetentionMs = 24 * 60 * 60 * 1000\<rparr>, lc_cleanup = Delete\<rparr>"

definition generated_config :: "nat \<Rightarrow> bool \<Rightarrow> log_config" where
  "generated_config segmentBytes compacting = default_config\<lparr>
     lc_roll := (lc_roll default_config)\<lparr>rp_maxSegmentBytes := segmentBytes, rp_indexIntervalBytes := 200, rp_maxIndexBytes := 400\<rparr>,
     lc_cleanup := (if compacting then Compact else Delete)\<rparr>"

definition kGeneratedTime :: int where
  "kGeneratedTime = 1700000000000"

text \<open>One record appended as a batch of its own; an error of the append is thrown.\<close>

definition append_one :: "(nat \<Rightarrow> int) \<Rightarrow> nat \<Rightarrow> int \<Rightarrow> string \<Rightarrow> byte list option \<Rightarrow> partition_log \<Rightarrow> partition_log result" where
  "append_one clock i timestamp key v l =
    bind_r (append_record timestamp (Some (string_bytes key)) v [] (RecordBatchBuilder 0)) (\<lambda>builder.
    bind_r (build builder) (\<lambda>bytes. case log_append bytes (clock i) (clock i) l of
        (Inl e, _) \<Rightarrow> Inl e
      | (Inr _, l) \<Rightarrow> Inr l))"

fun append_generated :: "(nat \<Rightarrow> int) \<Rightarrow> nat list \<Rightarrow> partition_log \<Rightarrow> partition_log result" where
  "append_generated clock [] l = Inr l"
| "append_generated clock (i # later) l =
    bind_r (append_one clock i (kGeneratedTime + int i * 1000) (''user'' @ to_string (int (i mod 10))) (Some (replicate 40 0xAB)) l)
      (append_generated clock later)"

definition cleaner_defaults :: cleaner_config where
  "cleaner_defaults = \<lparr>cc_maxKeyMapEntries = 1000000, cc_minCleanableDirtyRatio = 1 / 2, cc_intervalMs = 15000\<rparr>"

definition generatePartition :: "(nat \<Rightarrow> int) \<Rightarrow> string \<Rightarrow> int \<Rightarrow> nat \<Rightarrow> bool \<Rightarrow> partition_log shown" where
  "generatePartition clock path records segmentBytes compacting =
    show_then (silent (of_result (log_create Map.empty \<lparr>tp_topic = ''orders'', tp_partition = 0\<rparr> (generated_config segmentBytes compacting)))) (\<lambda>l.
    show_then (silent (of_result (append_generated clock [0..<nat records] l))) (\<lambda>l.
    if \<not> compacting then show_text [Out (''generated '' @ to_string records @ '' records into '' @ c_str path @ newline @ newline)] l
    else
      show_then (silent (of_result (append_one clock (nat records) (kGeneratedTime + records * 1000) ''user3'' None l))) (\<lambda>l.
      case cleanLog l cleaner_defaults 0 kGeneratedTime of
        (Inl e, _) \<Rightarrow> ([], Raised e)
      | (Inr result, l) \<Rightarrow> show_text
          [Out (''generated '' @ to_string (records + 1) @ '' records into '' @ c_str path @ '', then compacted:'' @ newline),
           Out (''  '' @ to_string (int (cr_segmentsCleaned result)) @ '' segment(s) rewritten, '' @ to_string (int (cr_segmentsDeleted result)) @
             '' removed, '' @ to_string (int (cr_recordsDropped result)) @ '' record(s) dropped, '' @
             to_string (int (cr_keysMapped result)) @ '' key(s) mapped'' @ newline @ newline)] l)))"

subsection \<open>What the text tells of a segment\<close>

definition decoded :: "byte list \<Rightarrow> record_data list" where
  "decoded b = (case decodeRecords b of Inr recs \<Rightarrow> recs | Inl _ \<Rightarrow> [])"

definition batch_offsets :: "byte list \<Rightarrow> int list" where
  "batch_offsets b = map (\<lambda>r. offsetFrom r (bh_baseOffset (hdr b))) (decoded b)"

definition tombstones :: "byte list \<Rightarrow> nat" where
  "tombstones b = length (filter (\<lambda>r. rec_value r = None) (decoded b))"

text \<open>How often an offset is not the one behind its predecessor.\<close>

fun skips :: "int \<Rightarrow> int list \<Rightarrow> nat" where
  "skips n [] = 0"
| "skips n (x # xs) = (if x \<noteq> n then 1 else 0) + skips (x + 1) xs"

fun behind :: "int \<Rightarrow> int list \<Rightarrow> int" where
  "behind n [] = n"
| "behind n (x # xs) = behind (x + 1) xs"

lemma skips_append: "skips n (xs @ ys) = skips n xs + skips (behind n xs) ys"
  by (induction xs arbitrary: n) simp_all

lemma behind_append: "behind n (xs @ ys) = behind (behind n xs) ys"
  by (induction xs arbitrary: n) simp_all

lemma skips_0: "skips n xs = 0 \<longleftrightarrow> xs = [n..n + int (length xs) - 1]"
proof (induction xs arbitrary: n)
  case (Cons x xs)
  have "[n..n + int (length (x # xs)) - 1] = n # [n + 1..n + 1 + int (length xs) - 1]"
    by (subst upto_rec1) (simp_all add: algebra_simps)
  with Cons show ?case by auto
qed simp

text \<open>The lines of the batches, from a position on.\<close>

fun batch_lines :: "nat \<Rightarrow> byte list list \<Rightarrow> printed list" where
  "batch_lines position [] = []"
| "batch_lines position (b # bs) = batch_line \<lparr>at_header = hdr b, at_position = position, at_totalSize = length b\<rparr> True #
     batch_lines (position + length b) bs"

lemma dump_records_counts:
  "snd (dump_records base recs st) = st\<lparr>du_expected := behind (du_expected st) (map (\<lambda>r. offsetFrom r base) recs),
     du_holes := du_holes st + skips (du_expected st) (map (\<lambda>r. offsetFrom r base) recs),
     du_tombstones := du_tombstones st + length (filter (\<lambda>r. rec_value r = None) recs)\<rparr>"
  by (induction recs arbitrary: st) (simp_all add: dump_record_def Let_def split_beta)

lemma dump_batches_counts:
  assumes "content = concat (xs @ ys)" "position = length (concat xs)"
    and "list_all (\<lambda>b. valid_batch b \<and> (\<exists>recs. decodeRecords b = Inr recs)) ys"
  shows "\<exists>out. dump_batches content position n st = (out, Done (length content, n + length ys,
      st\<lparr>du_expected := behind (du_expected st) (concat (map batch_offsets ys)),
         du_holes := du_holes st + skips (du_expected st) (concat (map batch_offsets ys)),
         du_tombstones := du_tombstones st + sum_list (map tombstones ys)\<rparr>)) \<and> subseq (batch_lines position ys) out"
  using assms
proof (induction ys arbitrary: xs position n st)
  case Nil
  then show ?case by (subst dump_batches.simps) (simp add: batchAt_end)
next
  case (Cons b ys)
  have b: "batch_wf b" "verifyCrc b = Inr True" using Cons.prems(3) by (simp_all add: valid_batch_def)
  obtain recs where recs: "decodeRecords b = Inr recs" using Cons.prems(3) by auto
  have found: "batchAt content position (length content) = Inr (Some \<lparr>at_header = hdr b, at_position = position, at_totalSize = length b\<rparr>)"
    using Cons.prems(1,2) b(1) by (intro batchAt_batch [of _ "concat xs" _ "concat ys"]) simp_all
  have bytes: "take (length b) (drop position content) = b" using Cons.prems(1,2) by simp
  let ?st = "snd (dump_records (bh_baseOffset (hdr b)) recs st)" and ?text = "fst (dump_records (bh_baseOffset (hdr b)) recs st)"
  obtain out where out: "dump_batches content (position + length b) (n + 1) ?st = (out, Done (length content, n + 1 + length ys,
      ?st\<lparr>du_expected := behind (du_expected ?st) (concat (map batch_offsets ys)),
         du_holes := du_holes ?st + skips (du_expected ?st) (concat (map batch_offsets ys)),
         du_tombstones := du_tombstones ?st + sum_list (map tombstones ys)\<rparr>))" "subseq (batch_lines (position + length b) ys) out"
    using Cons.IH [of "xs @ [b]" "position + length b" "n + 1" ?st] Cons.prems by auto
  have "dump_batches content position n st = (batch_line \<lparr>at_header = hdr b, at_position = position, at_totalSize = length b\<rparr> True # ?text @ out,
      Done (length content, n + 1 + length ys,
      ?st\<lparr>du_expected := behind (du_expected ?st) (concat (map batch_offsets ys)),
         du_holes := du_holes ?st + skips (du_expected ?st) (concat (map batch_offsets ys)),
         du_tombstones := du_tombstones ?st + sum_list (map tombstones ys)\<rparr>))"
    using found bytes b(2) recs out(1) by (subst dump_batches.simps) (simp add: Let_def split_beta)
  moreover have "batch_offsets b = map (\<lambda>r. offsetFrom r (bh_baseOffset (hdr b))) recs" "tombstones b = length (filter (\<lambda>r. rec_value r = None) recs)"
    using recs by (simp_all add: batch_offsets_def tombstones_def decoded_def)
  moreover have "subseq (batch_lines position (b # ys)) (batch_line \<lparr>at_header = hdr b, at_position = position, at_totalSize = length b\<rparr> True # ?text @ out)"
    using out(2) by (simp add: list_emb_append2)
  ultimately show ?case by (simp add: dump_records_counts skips_append behind_append)
qed

subsection \<open>Properties\<close>

text \<open>C35. The dump of an intact segment is complete: it reaches the end of the file, lists every batch in order with
its position and its checksum as good, counts every tombstone, and reports no hole exactly when the offsets of
the records are consecutive from the base offset of the segment on.\<close>

theorem dump_is_complete:
  assumes "segment_holds bs seg" "list_all (\<lambda>b. valid_batch b \<and> (\<exists>recs. decodeRecords b = Inr recs)) bs"
  shows "\<exists>out st. dump_batches (sg_log seg) 0 0 \<lparr>du_expected = sg_baseOffset seg, du_holes = 0, du_tombstones = 0\<rparr> =
      (out, Done (sizeBytes seg, length bs, st)) \<and>
    subseq (batch_lines 0 bs) out \<and> du_tombstones st = sum_list (map tombstones bs) \<and>
    (du_holes st = 0 \<longleftrightarrow> concat (map batch_offsets bs) =
       [sg_baseOffset seg..sg_baseOffset seg + int (length (concat (map batch_offsets bs))) - 1])"
proof -
  have "sg_log seg = concat ([] @ bs)" using assms(1) by (simp add: segment_holds_def)
  from dump_batches_counts [OF this _ assms(2), of 0 0 "\<lparr>du_expected = sg_baseOffset seg, du_holes = 0, du_tombstones = 0\<rparr>"]
  obtain out where "dump_batches (sg_log seg) 0 0 \<lparr>du_expected = sg_baseOffset seg, du_holes = 0, du_tombstones = 0\<rparr> =
      (out, Done (length (sg_log seg), length bs, \<lparr>du_expected = behind (sg_baseOffset seg) (concat (map batch_offsets bs)),
         du_holes = skips (sg_baseOffset seg) (concat (map batch_offsets bs)), du_tombstones = sum_list (map tombstones bs)\<rparr>))"
      "subseq (batch_lines 0 bs) out" by auto
  then show ?thesis by (auto simp: sizeBytes_def skips_0 [symmetric])
qed

text \<open>One batch at offset three of a segment that starts at zero.\<close>

lemma dump_is_complete_witness:
  "\<exists>content out st. dump_batches content 0 0 \<lparr>du_expected = 0, du_holes = 0, du_tombstones = 0\<rparr> = (out, Done (length content, 1, st)) \<and>
    du_tombstones st = 0 \<and> du_holes st \<noteq> 0"
proof -
  obtain b where b: "rewritable b" "batch_records b = [demo_record 3 1]" "bh_baseOffset (hdr b) = 3" "lastOffset (hdr b) = 3"
    using demo_batch [of 3 1] by auto
  obtain recs where recs: "decodeRecords b = Inr recs" "valid_batch b" using b(1) by (auto simp: rewritable_def)
  then have "map (record_at (hdr b)) recs = [demo_record 3 1]" using b(2) by (simp add: batch_records_def)
  then obtain r where r: "recs = [r]" "record_at (hdr b) r = demo_record 3 1" by auto
  then have rec: "offsetFrom r 3 = 3" "rec_value r = Some [1]" using b(3) by (simp_all add: record_at_def)
  obtain fresh where fresh: "active_holds [] fresh" "sg_baseOffset fresh = 0"
    using active_create_total [of Map.empty 0 small_policy] by auto
  let ?seg = "fresh\<lparr>sg_log := b, sg_nextOffset := 4\<rparr>"
  have empty: "segment_holds [] fresh" by (rule active_holdsD(1) [OF fresh(1)])
  have seg: "segment_holds [b] ?seg"
    using empty hints_sound_append [of "[]" _ "[b]"] recs(2) b(3,4) fresh(2)
    by (simp add: segment_holds_def indexed_def end_offset_def valid_batch_def)
  have offsets: "batch_offsets b = [3]" "tombstones b = 0"
    using recs(1) r(1) rec b(3) by (simp_all add: batch_offsets_def tombstones_def decoded_def)
  obtain out st where "dump_batches (sg_log ?seg) 0 0 \<lparr>du_expected = sg_baseOffset ?seg, du_holes = 0, du_tombstones = 0\<rparr> =
      (out, Done (sizeBytes ?seg, length [b], st))" "du_tombstones st = sum_list (map tombstones [b])"
      "du_holes st = 0 \<longleftrightarrow> concat (map batch_offsets [b]) = [sg_baseOffset ?seg..sg_baseOffset ?seg + int (length (concat (map batch_offsets [b]))) - 1]"
    using dump_is_complete [OF seg] recs by auto
  then show ?thesis using offsets fresh(2) by (intro exI [of _ b] exI [of _ out] exI [of _ st]) (simp add: sizeBytes_def)
qed

end
