(* ===== verification/Programs.thy ===== *)
theory Programs
  imports Cli Dump Broker_Life
begin

text \<open>
  The three \<^verbatim>\<open>main\<close> functions of \<^verbatim>\<open>apps\<close>. The world is an argument: how a connection is made, what the
  directories hold, what is typed, the message of an error. \<open>Uncaught\<close> is an exception that ends the program.
\<close>

subsection \<open>The command line tool\<close>

definition catch_errors :: "(error \<Rightarrow> string) \<Rightarrow> string \<Rightarrow> int shown \<Rightarrow> int shown" where
  "catch_errors what program r = (case r of
      (out, Raised e) \<Rightarrow> (out @ [Err (program @ '': '' @ c_str (what e) @ newline)], Done 1)
    | r \<Rightarrow> r)"

definition usage :: "printed list" where
  "usage = [Err (''usage:'' @ newline @
     ''  dariyakyu-cli create   <topic> [--partitions N] [--compact] [--broker host:port]'' @ newline @
     ''  dariyakyu-cli describe [topic] [--broker host:port]'' @ newline @
     ''  dariyakyu-cli produce  <topic> <partition> [--broker host:port]'' @ newline @
     ''  dariyakyu-cli consume  <topic> <partition> [--from earliest|latest|N] [--follow] [--broker host:port]'' @ newline @
     ''  dariyakyu-cli consume  <topic> --group <g> [--strategy range|roundrobin] [--follow] [--broker host:port]'' @ newline @
     ''  dariyakyu-cli dump-segment <partition-dir>'' @ newline)]"

text \<open>A directory that cannot be listed throws an exception of the library.\<close>

definition inspect_path :: "(string \<Rightarrow> (string \<times> byte list) list option) \<Rightarrow> string \<Rightarrow> unit shown" where
  "inspect_path files path = (case files path of None \<Rightarrow> silent Uncaught | Some entries \<Rightarrow> inspectPartition path entries)"

definition exit_code :: "(int \<times> 'b) shown \<Rightarrow> int shown" where
  "exit_code r = show_then r (\<lambda>(code, _). show_text [] code)"

record 's cli_world =
  cw_link :: "'s link"
  cw_connect :: "string \<Rightarrow> int \<Rightarrow> 's outcome"
  cw_clock :: "nat \<Rightarrow> int"
  cw_input :: string
  cw_files :: "string \<Rightarrow> (string \<times> byte list) list option"
  cw_what :: "error \<Rightarrow> string"

text \<open>The commands that need a broker.\<close>

definition cli_command :: "'s cli_world \<Rightarrow> string list \<Rightarrow> cli_options \<Rightarrow> 's \<Rightarrow> int shown option" where
  "cli_command w args options s =
    (let command = args ! 0 in
     if command = ''create'' then
       Some (if length args < 2 then show_text usage 2 else doCreate (cw_link w) (args ! 1) options s)
     else if command = ''describe'' then
       Some (doDescribe (cw_link w) (if length args > 1 \<and> take 2 (args ! 1) \<noteq> ''--'' then args ! 1 else []) s)
     else if command = ''produce'' then
       Some (if length args < 3 then show_text usage 2
         else show_then (silent (arg_stoi (args ! 2))) (\<lambda>p. exit_code (doProduce (cw_link w) (cw_clock w) (args ! 1) p (cw_input w) s)))
     else if command = ''consume'' then
       (if length args < 2 then Some (show_text usage 2)
        else if opt_group options \<noteq> [] then map_option exit_code (doConsumeGroup (cw_link w) (args ! 1) options s)
        else if length args < 3 then Some (show_text usage 2)
        else (case arg_stoi (args ! 2) of
            Done p \<Rightarrow> map_option exit_code (doConsume (cw_link w) (args ! 1) p options s)
          | _ \<Rightarrow> Some (silent Uncaught)))
     else Some (show_text usage 2))"

definition main_cli :: "'s cli_world \<Rightarrow> string list \<Rightarrow> int shown option" where
  "main_cli w args =
    (if args = [] then Some (show_text usage 2)
     else map_option (catch_errors (cw_what w) ''dariyakyu-cli'')
       (if args ! 0 = ''dump-segment'' then
          Some (if length args < 2 then show_text usage 2
            else show_then (inspect_path (cw_files w) (args ! 1)) (\<lambda>_. show_text [] 0))
        else (case parseOptions args of
            Done options \<Rightarrow> (case cw_connect w (opt_host options) (opt_port options) of
                Done s \<Rightarrow> cli_command w args options s
              | Raised e \<Rightarrow> Some (silent (Raised e))
              | Uncaught \<Rightarrow> Some (silent Uncaught)
              | Hangs \<Rightarrow> Some (silent Hangs))
          | Raised e \<Rightarrow> Some (silent (Raised e))
          | Uncaught \<Rightarrow> Some (silent Uncaught)
          | Hangs \<Rightarrow> Some (silent Hangs))))"

subsection \<open>The dump tool\<close>

definition dump_usage :: "printed list" where
  "dump_usage = [Err (''usage: dariyakyu-dump <partition-dir>'' @ newline @
     ''       dariyakyu-dump --generate <dir> [records] [segBytes] [--compact]'' @ newline)]"

definition generate_usage :: "printed list" where
  "generate_usage = [Err (''usage: dariyakyu-dump --generate <dir> [records] [segBytes] [--compact]'' @ newline)]"

text \<open>What \<^verbatim>\<open>generatePartition\<close> wrote is what is inspected.\<close>

definition main_dump :: "(error \<Rightarrow> string) \<Rightarrow> (nat \<Rightarrow> int) \<Rightarrow> (string \<Rightarrow> (string \<times> byte list) list option) \<Rightarrow> string list \<Rightarrow> int shown" where
  "main_dump what clock files args = catch_errors what ''dariyakyu-dump''
    (if args \<noteq> [] \<and> args ! 0 = ''--generate'' then
       (if length args < 2 then show_text generate_usage 2
        else
          show_then (silent (if length args > 2 then arg_stoi (args ! 2) else Done 24)) (\<lambda>records.
          show_then (silent (if length args > 3 then arg_stoull (args ! 3) else Done 700)) (\<lambda>segmentBytes.
          show_then (generatePartition clock (args ! 1) records segmentBytes (''--compact'' \<in> set args)) (\<lambda>l.
          show_then (inspectPartition (args ! 1) (log_files l)) (\<lambda>_. show_text [] 0)))))
     else if length args \<noteq> 1 then show_text dump_usage 2
     else show_then (inspect_path files (args ! 0)) (\<lambda>_. show_text [] 0))"

subsection \<open>The broker\<close>

text \<open>Options the command line does not name keep the defaults of \<^verbatim>\<open>Broker::Options\<close>.\<close>

definition broker_main_options :: "string list \<Rightarrow> (string \<times> broker_options) outcome" where
  "broker_main_options args =
    then_do (arg_stoi (valueOf args ''--port'' ''9092'')) (\<lambda>port.
      Done (valueOf args ''--data'' ''./data'',
        \<lparr>bo_defaults = default_config, bo_host = valueOf args ''--host'' ''127.0.0.1'', bo_port = port,
         bo_advertisedHost = valueOf args ''--advertise'' [], bo_nodeId = 1, bo_maintenanceIntervalMs = 30000,
         bo_offsetsPartitions = kDefaultOffsetsPartitions\<rparr>))"

text \<open>Started on what the data directory holds; then it runs until a signal, and stops. \<open>None\<close> is a start that never ends.\<close>

definition main_broker :: "(error \<Rightarrow> string) \<Rightarrow> (string \<Rightarrow> (string \<times> disk_entry) list) \<Rightarrow> int \<Rightarrow> (int \<Rightarrow> int result) \<Rightarrow> (broker \<Rightarrow> broker) \<Rightarrow>
    string list \<Rightarrow> (int shown \<times> broker option) option" where
  "main_broker what data now listen_on run args = (case broker_main_options args of
      Done (dir, options) \<Rightarrow> (case broker_start options (data dir) now (listen_on (bo_port options)) (Broker options) of
          None \<Rightarrow> None
        | Some (Inl e) \<Rightarrow> Some (catch_errors what ''dariyakyu-broker'' (silent (Raised e)), None)
        | Some (Inr bk) \<Rightarrow> Some (show_text
            [Out (''dariyakyu listening on '' @ c_str (bo_host options) @ '':'' @ to_string (bk_advertisedPort bk) @ '', data in '' @ c_str dir @ newline),
             Out (newline @ ''stopping'' @ newline)] 0, Some (broker_stop (run bk))))
    | Raised e \<Rightarrow> Some (silent (Raised e), None)
    | Uncaught \<Rightarrow> Some (silent Uncaught, None)
    | Hangs \<Rightarrow> Some (silent Hangs, None))"

end
