(* ===== verification/Acceptor.thy ===== *)
theory Acceptor
  imports Prelude
begin

text \<open>
  \<^verbatim>\<open>server/acceptor\<close>: the thread that accepts connections, the thread of every connection and the one
  that stops them all, as steps that interleave. A connection is a number; the kernel's queue of connections not
  accepted yet is a list. What a connection serves is in \<^theory_text>\<open>Connection\<close>.
\<close>

subsection \<open>The threads\<close>

text \<open>Where the accept thread stands. What \<^verbatim>\<open>accept\<close> returned is a connection or a closed socket.\<close>

datatype accept_thread = NotStarted | InAccept | Accepted "nat option" | Reaping nat | Spawning nat | Adding nat | Returned

text \<open>Where \<^verbatim>\<open>stop\<close> stands; the last loop still has to join these.\<close>

datatype stop_thread = NotCalled | Waking | JoiningAccept | Closing | Shutting | JoiningServed "nat list" | Stopped

record acceptor =
  ac_listening :: bool
  ac_backlog :: "nat list"
  ac_next :: nat
  ac_thread :: accept_thread
  ac_stopping :: bool
  ac_stop :: stop_thread
  ac_woken :: bool
  ac_served :: "nat list"
  ac_running :: "nat set"
  ac_shut :: "nat set"
  ac_open :: "nat set"

definition Acceptor :: acceptor where
  "Acceptor = \<lparr>ac_listening = True, ac_backlog = [], ac_next = 0, ac_thread = NotStarted, ac_stopping = False, ac_stop = NotCalled,
     ac_woken = False, ac_served = [], ac_running = {}, ac_shut = {}, ac_open = {}\<rparr>"

text \<open>
  The broker calls it once, on the acceptor it has just built and before any call of \<^verbatim>\<open>stop\<close>; the source does not
  check this, so the model has no other start.
\<close>

definition acceptor_start :: "acceptor \<Rightarrow> acceptor option" where
  "acceptor_start a = (if ac_thread a = NotStarted \<and> ac_stop a = NotCalled then Some (a\<lparr>ac_thread := InAccept\<rparr>) else None)"

text \<open>A thread that is not in \<^verbatim>\<open>serve\<close> any more has set its flag: it is joined and its socket closed.\<close>

definition reapFinished :: "acceptor \<Rightarrow> acceptor" where
  "reapFinished a = a\<lparr>ac_served := filter (\<lambda>c. c \<in> ac_running a) (ac_served a),
     ac_open := ac_open a - {c \<in> set (ac_served a). c \<notin> ac_running a}\<rparr>"

text \<open>A step of the accept thread; nothing when it is blocked. A socket that is not kept is closed.\<close>

definition acceptLoop :: "bool \<Rightarrow> acceptor \<Rightarrow> acceptor option" where
  "acceptLoop fails a = (case ac_thread a of
      InAccept \<Rightarrow> if fails \<or> \<not> ac_listening a then Some (a\<lparr>ac_thread := Accepted None\<rparr>)
        else (case ac_backlog a of [] \<Rightarrow> None
          | c # waiting \<Rightarrow> Some (a\<lparr>ac_thread := Accepted (Some c), ac_backlog := waiting, ac_open := insert c (ac_open a)\<rparr>))
    | Accepted accepted \<Rightarrow> if ac_stopping a then Some (a\<lparr>ac_thread := Returned, ac_open := ac_open a - set_option accepted\<rparr>)
        else (case accepted of None \<Rightarrow> Some (a\<lparr>ac_thread := Returned\<rparr>) | Some c \<Rightarrow> Some (a\<lparr>ac_thread := Reaping c\<rparr>))
    | Reaping c \<Rightarrow> Some ((reapFinished a)\<lparr>ac_thread := Spawning c\<rparr>)
    | Spawning c \<Rightarrow> Some (a\<lparr>ac_thread := Adding c, ac_running := insert c (ac_running a)\<rparr>)
    | Adding c \<Rightarrow> Some (a\<lparr>ac_thread := InAccept, ac_served := ac_served a @ [c]\<rparr>)
    | _ \<Rightarrow> None)"

text \<open>The call of \<^verbatim>\<open>stop\<close>: a second one returns at once. A thread that was never started is not joined.\<close>

definition acceptor_stop :: "acceptor \<Rightarrow> acceptor option" where
  "acceptor_stop a = (if ac_stop a \<noteq> NotCalled then None
     else Some (a\<lparr>ac_stopping := True, ac_stop := (if ac_thread a = NotStarted then Closing else Waking)\<rparr>))"

text \<open>A step of it; \<open>connects\<close> says whether its own connection reaches the listening socket.\<close>

definition stop_step :: "bool \<Rightarrow> acceptor \<Rightarrow> acceptor option" where
  "stop_step connects a = (case ac_stop a of
      Waking \<Rightarrow> if connects
        then Some (a\<lparr>ac_stop := JoiningAccept, ac_woken := True, ac_backlog := ac_backlog a @ [ac_next a], ac_next := ac_next a + 1\<rparr>)
        else Some (a\<lparr>ac_stop := JoiningAccept, ac_woken := False\<rparr>)
    | JoiningAccept \<Rightarrow> if ac_thread a = Returned then Some (a\<lparr>ac_stop := Closing\<rparr>) else None
    | Closing \<Rightarrow> Some (a\<lparr>ac_stop := Shutting, ac_listening := False, ac_backlog := []\<rparr>)
    | Shutting \<Rightarrow> Some (a\<lparr>ac_stop := JoiningServed (ac_served a), ac_shut := ac_shut a \<union> set (ac_served a)\<rparr>)
    | JoiningServed [] \<Rightarrow> Some (a\<lparr>ac_stop := Stopped, ac_served := []\<rparr>)
    | JoiningServed (c # others) \<Rightarrow> if c \<in> ac_running a then None
        else Some (a\<lparr>ac_stop := JoiningServed others, ac_open := ac_open a - {c}\<rparr>)
    | _ \<Rightarrow> None)"

definition connectionCount :: "acceptor \<Rightarrow> nat" where
  "connectionCount a = length (ac_served a)"

subsection \<open>Steps\<close>

text \<open>
  What may happen next. Clients connect and hang up when they like and a call of \<^verbatim>\<open>accept\<close> may fail;
  the threads go on whenever they can. The thread of a connection that was shut down ends.
\<close>

datatype event = Start | Connects | HangsUp nat | AcceptFails | Stop | AcceptGoesOn | ServeEnds nat | StopGoesOn bool

fun acceptor_do :: "event \<Rightarrow> acceptor \<Rightarrow> acceptor option" where
  "acceptor_do Start a = acceptor_start a"
| "acceptor_do Connects a = (if ac_listening a
     then Some (a\<lparr>ac_backlog := ac_backlog a @ [ac_next a], ac_next := ac_next a + 1\<rparr>) else None)"
| "acceptor_do (HangsUp c) a = (if c \<in> ac_running a then Some (a\<lparr>ac_running := ac_running a - {c}\<rparr>) else None)"
| "acceptor_do AcceptFails a = (if ac_thread a = InAccept then acceptLoop True a else None)"
| "acceptor_do Stop a = acceptor_stop a"
| "acceptor_do AcceptGoesOn a = acceptLoop False a"
| "acceptor_do (ServeEnds c) a = (if c \<in> ac_running a \<and> c \<in> ac_shut a then Some (a\<lparr>ac_running := ac_running a - {c}\<rparr>) else None)"
| "acceptor_do (StopGoesOn connects) a = stop_step connects a"

fun goes_on :: "event \<Rightarrow> bool" where
  "goes_on AcceptGoesOn \<longleftrightarrow> True"
| "goes_on (ServeEnds c) \<longleftrightarrow> True"
| "goes_on (StopGoesOn connects) \<longleftrightarrow> True"
| "goes_on _ \<longleftrightarrow> False"

fun happen :: "event list \<Rightarrow> acceptor \<Rightarrow> acceptor option" where
  "happen [] a = Some a"
| "happen (e # es) a = Option.bind (acceptor_do e a) (happen es)"

lemma happen_append: "happen (es @ es') a = Option.bind (happen es a) (happen es')"
  by (induction es arbitrary: a) (auto split: bind_splits)

subsection \<open>The invariant\<close>

text \<open>The connection the accept thread has in its hands, and the one whose thread runs already.\<close>

fun in_hand :: "accept_thread \<Rightarrow> nat list" where
  "in_hand (Accepted accepted) = (case accepted of None \<Rightarrow> [] | Some c \<Rightarrow> [c])"
| "in_hand (Reaping c) = [c]"
| "in_hand (Spawning c) = [c]"
| "in_hand (Adding c) = [c]"
| "in_hand _ = []"

fun just_spawned :: "accept_thread \<Rightarrow> nat set" where
  "just_spawned (Adding c) = {c}"
| "just_spawned _ = {}"

text \<open>The connections that still have a socket, among those served.\<close>

definition unjoined :: "acceptor \<Rightarrow> nat list" where
  "unjoined a = (case ac_stop a of JoiningServed others \<Rightarrow> others | Stopped \<Rightarrow> [] | _ \<Rightarrow> ac_served a)"

fun accept_over :: "stop_thread \<Rightarrow> bool" where
  "accept_over NotCalled \<longleftrightarrow> False"
| "accept_over Waking \<longleftrightarrow> False"
| "accept_over JoiningAccept \<longleftrightarrow> False"
| "accept_over _ \<longleftrightarrow> True"

definition idle :: "accept_thread \<Rightarrow> bool" where
  "idle t \<longleftrightarrow> t = NotStarted \<or> t = Returned"

text \<open>The phases of the two threads fit together: the listening socket is closed when the accept thread is gone, and a
wake-up that succeeded is not lost.\<close>

definition phases_ok :: "acceptor \<Rightarrow> bool" where
  "phases_ok a \<longleftrightarrow>
    ac_stopping a = (ac_stop a \<noteq> NotCalled) \<and> ac_listening a = (\<not> accept_over (ac_stop a) \<or> ac_stop a = Closing) \<and>
    (accept_over (ac_stop a) \<longrightarrow> idle (ac_thread a)) \<and>
    (ac_stop a = Waking \<or> ac_stop a = JoiningAccept \<longrightarrow> ac_thread a \<noteq> NotStarted) \<and>
    (ac_stop a = JoiningAccept \<and> ac_woken a \<and> ac_thread a \<noteq> Returned \<and> (\<forall>x. ac_thread a \<noteq> Accepted x) \<longrightarrow> ac_backlog a \<noteq> [])"

text \<open>No connection is in two places.\<close>

definition places_ok :: "acceptor \<Rightarrow> bool" where
  "places_ok a \<longleftrightarrow> distinct (ac_backlog a @ in_hand (ac_thread a) @ ac_served a) \<and>
    (\<forall>c \<in> set (ac_backlog a @ in_hand (ac_thread a) @ ac_served a). c < ac_next a)"

text \<open>A connection has a thread only while it is served or about to be, and a socket exactly then.\<close>

definition served_ok :: "acceptor \<Rightarrow> bool" where
  "served_ok a \<longleftrightarrow> ac_running a \<subseteq> set (unjoined a) \<union> just_spawned (ac_thread a) \<and>
    ac_open a = set (unjoined a) \<union> set (in_hand (ac_thread a)) \<and>
    (\<exists>joined. ac_served a = joined @ unjoined a) \<and>
    (case ac_stop a of JoiningServed others \<Rightarrow> set (ac_served a) \<subseteq> ac_shut a | Stopped \<Rightarrow> ac_served a = [] | _ \<Rightarrow> ac_shut a = {})"

definition acceptor_ok :: "acceptor \<Rightarrow> bool" where
  "acceptor_ok a \<longleftrightarrow> phases_ok a \<and> places_ok a \<and> served_ok a"

lemma acceptor_ok_init: "acceptor_ok Acceptor"
  by (simp add: acceptor_ok_def phases_ok_def places_ok_def served_ok_def unjoined_def Acceptor_def)

lemma start_ok:
  assumes "acceptor_start a = Some b"
  shows "phases_ok a \<Longrightarrow> phases_ok b" "places_ok a \<Longrightarrow> places_ok b" "served_ok a \<Longrightarrow> served_ok b"
  using assms by (auto simp: acceptor_start_def phases_ok_def places_ok_def served_ok_def unjoined_def split: if_splits)

lemma stop_call_ok:
  assumes "acceptor_stop a = Some b"
  shows "phases_ok a \<Longrightarrow> phases_ok b" "places_ok a \<Longrightarrow> places_ok b" "served_ok a \<Longrightarrow> served_ok b"
  using assms by (auto simp: acceptor_stop_def phases_ok_def places_ok_def served_ok_def unjoined_def idle_def split: if_splits)

lemma hang_up_ok:
  fixes c a
  defines "b \<equiv> a\<lparr>ac_running := ac_running a - {c}\<rparr>"
  shows "phases_ok a \<Longrightarrow> phases_ok b" "places_ok a \<Longrightarrow> places_ok b" "served_ok a \<Longrightarrow> served_ok b"
  by (auto simp: b_def phases_ok_def places_ok_def served_ok_def unjoined_def split: stop_thread.splits)

lemma connect_ok:
  fixes a
  defines "b \<equiv> a\<lparr>ac_backlog := ac_backlog a @ [ac_next a], ac_next := Suc (ac_next a)\<rparr>"
  shows "phases_ok a \<Longrightarrow> phases_ok b" "places_ok a \<Longrightarrow> places_ok b" "served_ok a \<Longrightarrow> served_ok b"
proof -
  show "phases_ok a \<Longrightarrow> phases_ok b" by (simp add: b_def phases_ok_def)
  show "served_ok a \<Longrightarrow> served_ok b" by (cases "ac_stop a") (simp_all add: b_def served_ok_def unjoined_def)
  show "places_ok a \<Longrightarrow> places_ok b" by (auto simp: b_def places_ok_def less_Suc_eq)
qed

lemma accept_step_ok:
  assumes "acceptLoop fails a = Some b" "phases_ok a" "places_ok a" "served_ok a"
  shows "phases_ok b" "places_ok b" "served_ok b"
proof -
  have running: "\<not> accept_over (ac_stop a)" using assms(1,2) by (auto simp: acceptLoop_def phases_ok_def idle_def split: accept_thread.splits)
  then have stop: "ac_stop a \<in> {NotCalled, Waking, JoiningAccept}" by (cases "ac_stop a") simp_all
  then have un: "unjoined a = ac_served a" by (auto simp: unjoined_def)
  show "phases_ok b" using assms(1,2) running
    by (auto simp: acceptLoop_def phases_ok_def idle_def reapFinished_def split: accept_thread.splits if_splits list.splits option.splits)
  show "places_ok b" using assms(1,3)
    by (auto simp: acceptLoop_def places_ok_def reapFinished_def split: accept_thread.splits if_splits list.splits option.splits)
  show "served_ok b"
  proof (cases "ac_thread a")
    case (Adding c)
    with assms stop un show ?thesis by (auto simp: acceptLoop_def served_ok_def places_ok_def unjoined_def)
  qed (use assms stop un in \<open>auto simp: acceptLoop_def served_ok_def places_ok_def unjoined_def reapFinished_def split: if_splits list.splits option.splits\<close>)
qed

lemma stop_step_ok:
  assumes "stop_step connects a = Some b" "phases_ok a" "places_ok a" "served_ok a"
  shows "phases_ok b" "places_ok b" "served_ok b"
proof -
  show "phases_ok b"
    using assms(1,2) by (auto simp: stop_step_def phases_ok_def idle_def split: stop_thread.splits if_splits list.splits)
  show "places_ok b"
  proof (cases "ac_stop a")
    case (JoiningServed others)
    with assms(1,3) show ?thesis by (cases others) (auto simp: stop_step_def places_ok_def split: if_splits)
  qed (use assms(1,3) in \<open>auto simp: stop_step_def places_ok_def less_Suc_eq split: if_splits\<close>)
  show "served_ok b"
  proof (cases "ac_stop a")
    case (JoiningServed others)
    then have idle: "idle (ac_thread a)" using assms(2) by (simp add: phases_ok_def)
    show ?thesis
    proof (cases others)
      case (Cons c rest)
      obtain joined where j: "ac_served a = joined @ c # rest" using JoiningServed Cons assms(4) by (auto simp: served_ok_def unjoined_def)
      moreover have "c \<notin> set rest" using j assms(3) by (simp add: places_ok_def)
      moreover have "\<exists>joined'. joined @ c # rest = joined' @ rest" by (intro exI [of _ "joined @ [c]"]) simp
      ultimately show ?thesis using JoiningServed Cons assms(1,4) idle
        by (auto simp: stop_step_def served_ok_def unjoined_def idle_def split: if_splits)
    qed (use JoiningServed assms(1,4) idle in \<open>auto simp: stop_step_def served_ok_def unjoined_def idle_def\<close>)
  qed (use assms(1,4) in \<open>auto simp: stop_step_def served_ok_def unjoined_def split: if_splits\<close>)
qed

lemma acceptor_do_ok: "acceptor_do e a = Some b \<Longrightarrow> acceptor_ok a \<Longrightarrow> acceptor_ok b"
  unfolding acceptor_ok_def
  by (cases e) (auto split: if_splits dest: start_ok stop_call_ok accept_step_ok stop_step_ok intro: hang_up_ok connect_ok)

lemma happen_ok: "happen es a = Some b \<Longrightarrow> acceptor_ok a \<Longrightarrow> acceptor_ok b"
  by (induction es arbitrary: a) (auto simp: Option.bind_eq_Some_conv dest: acceptor_do_ok)

subsection \<open>How much is left to do\<close>

text \<open>Every step of a thread makes this smaller once \<^verbatim>\<open>stop\<close> was called, and nothing a client does makes it larger.\<close>

fun accept_left :: "accept_thread \<Rightarrow> nat" where
  "accept_left (Reaping c) = 5"
| "accept_left (Spawning c) = 4"
| "accept_left (Adding c) = 3"
| "accept_left InAccept = 2"
| "accept_left (Accepted accepted) = 1"
| "accept_left _ = 0"

fun stop_left :: "nat \<Rightarrow> stop_thread \<Rightarrow> nat" where
  "stop_left n NotCalled = n + 6"
| "stop_left n Waking = n + 5"
| "stop_left n JoiningAccept = n + 4"
| "stop_left n Closing = n + 3"
| "stop_left n Shutting = n + 2"
| "stop_left n (JoiningServed others) = length others + 1"
| "stop_left n Stopped = 0"

definition work_left :: "acceptor \<Rightarrow> nat" where
  "work_left a = 3 * accept_left (ac_thread a) + stop_left (length (ac_served a)) (ac_stop a) + card (ac_running a)"

lemma finite_running: "acceptor_ok a \<Longrightarrow> finite (ac_running a)"
proof -
  assume "acceptor_ok a"
  then have "ac_running a \<subseteq> set (unjoined a) \<union> just_spawned (ac_thread a)" by (simp add: acceptor_ok_def served_ok_def)
  moreover have "finite (just_spawned t)" for t by (cases t) simp_all
  ultimately show ?thesis by (meson finite_UnI finite_set finite_subset)
qed

lemma stop_left_mono: "m \<le> n \<Longrightarrow> stop_left m st \<le> stop_left n st"
  by (cases st) simp_all

lemma stop_left_Suc: "stop_left (Suc n) st \<le> Suc (stop_left n st)"
  by (cases st) simp_all

lemma accept_step_work:
  assumes "acceptLoop fails a = Some b" "acceptor_ok a" "ac_stopping a"
  shows "work_left b < work_left a"
proof (cases "ac_thread a")
  case (Reaping c)
  have "stop_left (length (filter (\<lambda>c. c \<in> ac_running a) (ac_served a))) (ac_stop a) \<le> stop_left (length (ac_served a)) (ac_stop a)"
    by (rule stop_left_mono) simp
  with Reaping assms(1) show ?thesis by (auto simp: acceptLoop_def work_left_def reapFinished_def)
next
  case (Spawning c)
  have "card (insert c (ac_running a)) \<le> Suc (card (ac_running a))" by (simp add: card_insert_if finite_running [OF assms(2)])
  with Spawning assms(1) show ?thesis by (auto simp: acceptLoop_def work_left_def)
next
  case (Adding c)
  with assms(1) stop_left_Suc [of "length (ac_served a)" "ac_stop a"] show ?thesis by (auto simp: acceptLoop_def work_left_def)
qed (use assms(1,3) in \<open>auto simp: acceptLoop_def work_left_def split: if_splits list.splits\<close>)

lemma stop_step_work: "stop_step connects a = Some b \<Longrightarrow> work_left b < work_left a"
  by (cases "ac_stop a") (auto simp: stop_step_def work_left_def split: if_splits list.splits)

lemma hang_up_work: "acceptor_ok a \<Longrightarrow> c \<in> ac_running a \<Longrightarrow> work_left (a\<lparr>ac_running := ac_running a - {c}\<rparr>) < work_left a"
  using card_Diff1_less [OF finite_running] by (simp add: work_left_def)

lemma acceptor_do_work:
  assumes "acceptor_do e a = Some b" "acceptor_ok a" "ac_stopping a"
  shows "ac_stopping b" "work_left b + (if goes_on e then 1 else 0) \<le> work_left a"
proof -
  have stop: "ac_stop a \<noteq> NotCalled" using assms(2,3) by (simp add: acceptor_ok_def phases_ok_def)
  show "ac_stopping b" using assms(1,3) stop
    by (cases e) (auto simp: acceptor_start_def acceptor_stop_def acceptLoop_def stop_step_def reapFinished_def
      split: if_splits accept_thread.splits stop_thread.splits option.splits list.splits)
  show "work_left b + (if goes_on e then 1 else 0) \<le> work_left a"
  proof (cases e)
    case AcceptFails
    with assms accept_step_work [of True a b] show ?thesis by (simp split: if_splits)
  next
    case AcceptGoesOn
    with assms accept_step_work [of False a b] show ?thesis by simp
  next
    case (StopGoesOn connects)
    with assms stop_step_work [of connects a b] show ?thesis by simp
  next
    case (HangsUp c)
    with assms hang_up_work [of a c] show ?thesis by (auto split: if_splits)
  next
    case (ServeEnds c)
    with assms hang_up_work [of a c] show ?thesis by (auto split: if_splits)
  qed (use assms(1) stop in \<open>auto simp: acceptor_start_def acceptor_stop_def work_left_def split: if_splits\<close>)
qed

lemma happen_work:
  "happen es a = Some b \<Longrightarrow> acceptor_ok a \<Longrightarrow> ac_stopping a \<Longrightarrow>
    acceptor_ok b \<and> ac_stopping b \<and> work_left b + length (filter goes_on es) \<le> work_left a"
proof (induction es arbitrary: a)
  case (Cons e es)
  then obtain c where c: "acceptor_do e a = Some c" "happen es c = Some b" by (auto simp: Option.bind_eq_Some_conv)
  note step = acceptor_do_work [OF c(1) Cons.prems(2,3)] acceptor_do_ok [OF c(1) Cons.prems(2)]
  from Cons.IH [OF c(2) step(3,1)] step(2) show ?case by (auto split: if_splits)
qed simp

text \<open>Which thread waits for which: only a failed wake-up leaves all of them waiting.\<close>

definition stuck_in_accept :: "acceptor \<Rightarrow> bool" where
  "stuck_in_accept a \<longleftrightarrow> ac_stop a = JoiningAccept \<and> \<not> ac_woken a \<and> ac_thread a = InAccept \<and> ac_backlog a = []"

lemma nothing_goes_on:
  assumes "acceptor_ok a" "ac_stopping a"
  shows "(\<forall>e. goes_on e \<longrightarrow> acceptor_do e a = None) \<longleftrightarrow> ac_stop a = Stopped \<or> stuck_in_accept a"
proof
  assume none: "\<forall>e. goes_on e \<longrightarrow> acceptor_do e a = None"
  then have acc: "acceptLoop False a = None" using none [rule_format, of AcceptGoesOn] by simp
  have st: "stop_step True a = None" using none [rule_format, of "StopGoesOn True"] by simp
  have ends: "c \<in> ac_running a \<Longrightarrow> c \<notin> ac_shut a" for c using none [rule_format, of "ServeEnds c"] by (auto split: if_splits)
  show "ac_stop a = Stopped \<or> stuck_in_accept a"
  proof (cases "ac_stop a")
    case JoiningAccept
    with st have "ac_thread a \<noteq> Returned" by (auto simp: stop_step_def)
    moreover have "ac_thread a \<noteq> NotStarted" "ac_listening a" using JoiningAccept assms(1) by (auto simp: acceptor_ok_def phases_ok_def)
    ultimately have "ac_thread a = InAccept" "ac_backlog a = []"
      using acc by (auto simp: acceptLoop_def split: accept_thread.splits option.splits list.splits if_splits)
    with JoiningAccept assms(1) show ?thesis by (auto simp: stuck_in_accept_def acceptor_ok_def phases_ok_def)
  next
    case (JoiningServed others)
    show ?thesis
    proof (cases others)
      case (Cons c rest)
      with JoiningServed st have "c \<in> ac_running a" by (auto simp: stop_step_def split: if_splits)
      moreover have "c \<in> ac_shut a" using JoiningServed Cons assms(1) by (auto simp: acceptor_ok_def served_ok_def unjoined_def)
      ultimately show ?thesis using ends by blast
    qed (use JoiningServed st in \<open>simp add: stop_step_def\<close>)
  qed (use st assms in \<open>auto simp: stop_step_def acceptor_ok_def phases_ok_def\<close>)
next
  assume over: "ac_stop a = Stopped \<or> stuck_in_accept a"
  show "\<forall>e. goes_on e \<longrightarrow> acceptor_do e a = None"
  proof (intro allI impI)
    fix e assume "goes_on e"
    then show "acceptor_do e a = None"
    proof (cases e)
      case (ServeEnds c)
      have "c \<notin> ac_running a \<or> c \<notin> ac_shut a"
      proof (cases "ac_stop a = Stopped")
        case True
        with assms(1) have "ac_running a \<subseteq> just_spawned (ac_thread a)" "idle (ac_thread a)"
          by (auto simp: acceptor_ok_def phases_ok_def served_ok_def unjoined_def)
        then show ?thesis by (auto simp: idle_def)
      qed (use over assms(1) in \<open>simp add: stuck_in_accept_def acceptor_ok_def served_ok_def\<close>)
      with ServeEnds show ?thesis by simp
    next
      case AcceptGoesOn
      have "idle (ac_thread a) \<or> ac_thread a = InAccept \<and> ac_listening a \<and> ac_backlog a = []"
        using over assms(1) by (elim disjE) (simp_all add: stuck_in_accept_def acceptor_ok_def phases_ok_def)
      with AcceptGoesOn show ?thesis by (auto simp: acceptLoop_def idle_def)
    next
      case (StopGoesOn connects)
      with over show ?thesis by (elim disjE) (simp_all add: stop_step_def stuck_in_accept_def)
    qed simp_all
  qed
qed

subsection \<open>Properties\<close>

text \<open>C10. Whatever clients do and however the threads interleave: the listening socket is closed only when the accept
thread is gone, so nobody closes a descriptor another thread reads; every connection with a thread is in the list
that \<^verbatim>\<open>stop\<close> joins, or is just being added to it, and is still open; and once \<^verbatim>\<open>stop\<close> is through no thread runs,
no connection is open and none is counted.\<close>

theorem acceptor_is_safe:
  assumes "happen es Acceptor = Some a"
  shows "(\<not> ac_listening a \<longrightarrow> ac_thread a = NotStarted \<or> ac_thread a = Returned) \<and>
    ac_running a \<subseteq> (set (ac_served a) \<union> just_spawned (ac_thread a)) \<inter> ac_open a \<and>
    distinct (in_hand (ac_thread a) @ ac_served a) \<and>
    (ac_stop a = Stopped \<longrightarrow> ac_running a = {} \<and> ac_open a = {} \<and> connectionCount a = 0 \<and> \<not> ac_listening a)"
proof -
  have ok: "phases_ok a" "places_ok a" "served_ok a"
    using happen_ok [OF assms acceptor_ok_init] by (simp_all add: acceptor_ok_def)
  have "just_spawned (ac_thread a) \<subseteq> set (in_hand (ac_thread a))" by (cases "ac_thread a") simp_all
  moreover have "set (unjoined a) \<subseteq> set (ac_served a)" using ok(3) by (auto simp: served_ok_def)
  ultimately have running: "ac_running a \<subseteq> (set (ac_served a) \<union> just_spawned (ac_thread a)) \<inter> ac_open a"
    using ok(3) by (auto simp: served_ok_def)
  have closed: "\<not> ac_listening a \<longrightarrow> ac_thread a = NotStarted \<or> ac_thread a = Returned"
    using ok(1) by (auto simp: phases_ok_def idle_def)
  have "ac_stop a = Stopped \<longrightarrow> ac_running a = {} \<and> ac_open a = {} \<and> connectionCount a = 0 \<and> \<not> ac_listening a"
  proof
    assume "ac_stop a = Stopped"
    moreover from this have "idle (ac_thread a)" "\<not> ac_listening a" using ok(1) by (simp_all add: phases_ok_def)
    ultimately show "ac_running a = {} \<and> ac_open a = {} \<and> connectionCount a = 0 \<and> \<not> ac_listening a"
      using ok(3) by (auto simp: served_ok_def idle_def unjoined_def connectionCount_def)
  qed
  with running closed ok(2) show ?thesis by (simp add: places_ok_def)
qed

text \<open>C11. \<^verbatim>\<open>stop\<close> ends: from the call on, the threads together take no more steps than \<open>work_left\<close> counts, whatever clients
do in between, and when none of them can go on the acceptor is stopped, with one exception: if the connection of \<^verbatim>\<open>stop\<close>
to itself failed, the accept thread is blocked, and so is \<^verbatim>\<open>stop\<close>, until a client connects.\<close>

theorem acceptor_stop_ends:
  assumes "happen es Acceptor = Some a" "ac_stopping a" "happen later a = Some b"
  shows "length (filter goes_on later) \<le> work_left a \<and>
    ((\<forall>e. goes_on e \<longrightarrow> acceptor_do e b = None) \<longleftrightarrow>
      ac_stop b = Stopped \<or> ac_stop b = JoiningAccept \<and> \<not> ac_woken b \<and> ac_thread b = InAccept \<and> ac_backlog b = [])"
proof -
  note b = happen_work [OF assms(3) happen_ok [OF assms(1) acceptor_ok_init] assms(2)]
  with nothing_goes_on [of b] show ?thesis by (simp add: stuck_in_accept_def)
qed

text \<open>One client, served and still connected when \<^verbatim>\<open>stop\<close> is called; and a call whose wake-up fails.\<close>

abbreviation one_client :: "event list" where
  "one_client \<equiv> [Start, Connects, AcceptGoesOn, AcceptGoesOn, AcceptGoesOn, AcceptGoesOn, AcceptGoesOn]"

abbreviation stopped_by :: "bool \<Rightarrow> event list" where
  "stopped_by connects \<equiv> [StopGoesOn connects, AcceptGoesOn, AcceptGoesOn, StopGoesOn connects, StopGoesOn connects, StopGoesOn connects,
     ServeEnds 0, StopGoesOn connects, StopGoesOn connects]"

lemmas acceptor_steps = Acceptor_def acceptor_start_def acceptLoop_def reapFinished_def acceptor_stop_def stop_step_def

theorem acceptor_is_safe_witness:
  "\<exists>a b. happen one_client Acceptor = Some a \<and> ac_running a = {0} \<and> ac_served a = [0] \<and>
    happen (one_client @ [Stop] @ stopped_by True) Acceptor = Some b \<and> ac_stop b = Stopped \<and> ac_running b = {} \<and> ac_open b = {}"
proof -
  obtain a where a: "happen one_client Acceptor = Some a" "ac_running a = {0}" "ac_served a = [0]" by (simp add: acceptor_steps)
  obtain b where b: "happen (one_client @ [Stop] @ stopped_by True) Acceptor = Some b" "ac_stop b = Stopped" by (simp add: acceptor_steps)
  have "ac_running b = {} \<and> ac_open b = {}" using acceptor_is_safe [OF b(1)] b(2) by simp
  with a b show ?thesis by (intro exI [of _ a] exI [of _ b] conjI) simp_all
qed

theorem acceptor_stop_ends_witness:
  "\<exists>a b c. happen (one_client @ [Stop]) Acceptor = Some a \<and> happen (stopped_by True) a = Some b \<and> work_left a = 13 \<and>
    (\<forall>e. goes_on e \<longrightarrow> acceptor_do e b = None) \<and>
    happen [StopGoesOn False] a = Some c \<and> ac_stop c \<noteq> Stopped \<and> (\<forall>e. goes_on e \<longrightarrow> acceptor_do e c = None)"
proof -
  obtain a where a: "happen (one_client @ [Stop]) Acceptor = Some a" "ac_stopping a" "work_left a = 13"
      "\<exists>b. happen (stopped_by True) a = Some b \<and> ac_stop b = Stopped"
      "\<exists>c. happen [StopGoesOn False] a = Some c \<and> ac_stop c = JoiningAccept \<and> \<not> ac_woken c \<and> ac_thread c = InAccept \<and> ac_backlog c = []"
    by (simp add: acceptor_steps work_left_def)
  from a(4) obtain b where b: "happen (stopped_by True) a = Some b" "ac_stop b = Stopped" by (elim exE conjE)
  from a(5) obtain c where c: "happen [StopGoesOn False] a = Some c" "ac_stop c = JoiningAccept" "\<not> ac_woken c" "ac_thread c = InAccept"
      "ac_backlog c = []" by (elim exE conjE)
  have "\<forall>e. goes_on e \<longrightarrow> acceptor_do e b = None" using acceptor_stop_ends [OF a(1,2) b(1)] b(2) by simp
  moreover have "\<forall>e. goes_on e \<longrightarrow> acceptor_do e c = None" using acceptor_stop_ends [OF a(1,2) c(1)] c(2-) by simp
  moreover have "ac_stop c \<noteq> Stopped" using c(2) by simp
  ultimately show ?thesis using a(1,3) b(1) c(1) by (intro exI [of _ a] exI [of _ b] exI [of _ c] conjI)
qed

end
