(* ===== verification/Files.thy ===== *)
theory Files
  imports Frame
begin

text \<open>
  \<^verbatim>\<open>common/file_handle\<close>, \<^verbatim>\<open>common/mapped_file\<close> and \<^verbatim>\<open>protocol/socket\<close>: what they add to the system calls.
  Every outcome of a call is an argument: an error number, or that it succeeded, or how much it moved. A handle
  carries the bytes of its file, which stays when its name is removed.
\<close>

subsection \<open>File handles\<close>

datatype file_mode = ReadOnly | ReadWrite | CreateNew

text \<open>The file as a handle open_bytes it: the bytes of the name, or nothing when there is none.\<close>

definition open_bytes :: "file_mode \<Rightarrow> byte list option \<Rightarrow> int option \<Rightarrow> byte list result" where
  "open_bytes mode existing fails = (case fails of
      Some e \<Rightarrow> Inl (IoError e)
    | None \<Rightarrow> (case existing of
        None \<Rightarrow> if mode = ReadOnly then Inl (IoError ENOENT) else Inr []
      | Some bytes \<Rightarrow> if mode = CreateNew then Inl (IoError 17) else Inr bytes))"

record file_handle =
  fh_content :: "byte list"
  fh_writePosition :: nat
  fh_isOpen :: bool

definition FileHandle :: "file_mode \<Rightarrow> byte list option \<Rightarrow> int option \<Rightarrow> int option \<Rightarrow> file_handle result" where
  "FileHandle mode existing open_fails seek_fails =
    bind_r (open_bytes mode existing open_fails) (\<lambda>bytes. case seek_fails of
        Some e \<Rightarrow> Inl (IoError e)
      | None \<Rightarrow> Inr \<lparr>fh_content = bytes, fh_writePosition = length bytes, fh_isOpen = True\<rparr>)"

text \<open>\<^verbatim>\<open>pwrite\<close> at a position: a gap in front of it reads as zeros.\<close>

definition overwrite :: "nat \<Rightarrow> byte list \<Rightarrow> byte list \<Rightarrow> byte list" where
  "overwrite position bytes content =
    take position content @ replicate (position - length content) 0 @ bytes @ drop (position + length bytes) content"

text \<open>The loop of \<^verbatim>\<open>append\<close> is the one that writes to a socket; what it took lands in the file, also when it fails.\<close>

definition file_append :: "byte list \<Rightarrow> transmit list \<Rightarrow> file_handle \<Rightarrow> (nat result) option \<times> file_handle" where
  "file_append bytes evs h =
    (let (landed, outcome, evs) = writeAll bytes evs;
         startedAt = fh_writePosition h;
         h = h\<lparr>fh_content := overwrite startedAt landed (fh_content h)\<rparr>
     in case outcome of
         Sent \<Rightarrow> (Some (Inr startedAt), h\<lparr>fh_writePosition := startedAt + length bytes\<rparr>)
       | Threw e \<Rightarrow> (Some (Inl e), h)
       | Blocked \<Rightarrow> (None, h))"

text \<open>\<^verbatim>\<open>pread\<close> moves at least one byte unless it is at the end of the file.\<close>

fun pread_loop :: "byte list \<Rightarrow> nat \<Rightarrow> nat \<Rightarrow> transmit list \<Rightarrow> byte list \<times> write_outcome" where
  "pread_loop content position 0 evs = ([], Sent)"
| "pread_loop content position (Suc wanted) [] = ([], Blocked)"
| "pread_loop content position (Suc wanted) (Signal # evs) = pread_loop content position (Suc wanted) evs"
| "pread_loop content position (Suc wanted) (Broken e # evs) = ([], Threw (IoError e))"
| "pread_loop content position (Suc wanted) (Took n # evs) =
    (let moved = take (max 1 n) (take (Suc wanted) (drop position content)) in
     if moved = [] then ([], Sent)
     else let (more, outcome) = pread_loop content (position + length moved) (Suc wanted - length moved) evs in (moved @ more, outcome))"

definition readAt :: "nat \<Rightarrow> nat \<Rightarrow> transmit list \<Rightarrow> file_handle \<Rightarrow> (byte list result) option" where
  "readAt position wanted evs h = (let (bytes, outcome) = pread_loop (fh_content h) position wanted evs in case outcome of
      Sent \<Rightarrow> Some (Inr bytes)
    | Threw e \<Rightarrow> Some (Inl e)
    | Blocked \<Rightarrow> None)"

definition file_truncate :: "nat \<Rightarrow> int option \<Rightarrow> file_handle \<Rightarrow> unit result \<times> file_handle" where
  "file_truncate newSize fails h = (case fails of
      Some e \<Rightarrow> (Inl (IoError e), h)
    | None \<Rightarrow> (Inr (), h\<lparr>fh_content := take newSize (fh_content h) @ replicate (newSize - length (fh_content h)) 0, fh_writePosition := newSize\<rparr>))"

definition file_sync :: "int option \<Rightarrow> unit result" where
  "file_sync fails = (case fails of Some e \<Rightarrow> Inl (IoError e) | None \<Rightarrow> Inr ())"

text \<open>A failed \<^verbatim>\<open>close\<close> leaves the handle closed.\<close>

definition file_close :: "int option \<Rightarrow> file_handle \<Rightarrow> unit result \<times> file_handle" where
  "file_close fails h = (if \<not> fh_isOpen h then (Inr (), h)
     else (case fails of Some e \<Rightarrow> Inl (IoError e) | None \<Rightarrow> Inr (), h\<lparr>fh_isOpen := False\<rparr>))"

text \<open>What a reader that goes by the size can see.\<close>

definition visible :: "file_handle \<Rightarrow> byte list" where
  "visible h = take (fh_writePosition h) (fh_content h)"

definition handle_ok :: "file_handle \<Rightarrow> bool" where
  "handle_ok h \<longleftrightarrow> fh_writePosition h \<le> length (fh_content h)"

lemma take_overwrite: "position \<le> length content \<Longrightarrow> take position (overwrite position bytes content) = take position content"
  by (simp add: overwrite_def)

lemma pread_loop_reads:
  "pread_loop content position wanted evs = (bytes, outcome) \<Longrightarrow>
    (outcome = Sent \<longrightarrow> bytes = take wanted (drop position content)) \<and> (\<exists>more. take wanted (drop position content) = bytes @ more)"
proof (induction content position wanted evs arbitrary: bytes rule: pread_loop.induct)
  case (5 content position wanted n evs)
  define asked where "asked = take (Suc wanted) (drop position content)"
  define moved where "moved = take (max 1 n) asked"
  have run: "(if moved = [] then ([], Sent)
      else let (more, outcome) = pread_loop content (position + length moved) (Suc wanted - length moved) evs in (moved @ more, outcome)) = (bytes, outcome)"
    using "5.prems" unfolding moved_def asked_def pread_loop.simps Let_def .
  show ?case
  proof (cases "moved = []")
    case True
    then have "asked = []" by (cases asked) (auto simp: moved_def)
    with True run show ?thesis by (simp add: asked_def)
  next
    case False
    then obtain more where m: "pread_loop content (position + length moved) (Suc wanted - length moved) evs = (more, outcome)" "bytes = moved @ more"
      using run by (auto split: prod.splits)
    have "asked = moved @ drop (length moved) asked" unfolding moved_def by (metis append_take_drop_id append_eq_conv_conj)
    moreover have "drop (length moved) asked = take (Suc wanted - length moved) (drop (position + length moved) content)"
      unfolding asked_def by (simp add: drop_take add.commute)
    ultimately have "take (Suc wanted) (drop position content) = moved @ take (Suc wanted - length moved) (drop (position + length moved) content)"
      by (simp add: asked_def)
    moreover have "(outcome = Sent \<longrightarrow> more = take (Suc wanted - length moved) (drop (position + length moved) content)) \<and>
        (\<exists>rest. take (Suc wanted - length moved) (drop (position + length moved) content) = more @ rest)"
      using "5.IH" [OF moved_def [unfolded asked_def] False m(1)] .
    ultimately show ?thesis using m(2) by auto
  qed
qed auto

subsection \<open>Mapped files\<close>

record mapped_file =
  mf_mapped :: bool
  mf_bytes :: "byte list"
  mf_writable :: bool

text \<open>The file is grown to the length before it is mapped, because a page behind its end cannot be touched.\<close>

definition MappedFile :: "bool \<Rightarrow> nat \<Rightarrow> byte list option \<Rightarrow> int option \<Rightarrow> int option \<Rightarrow> int option \<Rightarrow> int option \<Rightarrow> mapped_file result" where
  "MappedFile writable n existing open_fails stat_fails grow_fails map_fails =
    (if n = 0 then (if \<not> writable then Inr \<lparr>mf_mapped = False, mf_bytes = [], mf_writable = False\<rparr> else Inl Error)
     else bind_r (open_bytes (if writable then ReadWrite else ReadOnly) existing open_fails) (\<lambda>content.
       case (if writable then stat_fails else None) of
         Some e \<Rightarrow> Inl (IoError e)
       | None \<Rightarrow> (case (if writable \<and> length content < n then grow_fails else None) of
           Some e \<Rightarrow> Inl (IoError e)
         | None \<Rightarrow> (case map_fails of
             Some e \<Rightarrow> Inl (IoError e)
           | None \<Rightarrow> Inr \<lparr>mf_mapped = True,
               mf_bytes = take n (if writable then content @ replicate (n - length content) 0 else content), mf_writable = writable\<rparr>))))"

definition mapped_openReadOnly :: "byte list option \<Rightarrow> int option \<Rightarrow> int option \<Rightarrow> mapped_file result" where
  "mapped_openReadOnly existing open_fails map_fails = (case existing of
      None \<Rightarrow> Inl (IoError ENOENT)
    | Some content \<Rightarrow> MappedFile False (length content) existing open_fails None None map_fails)"

definition mutableBytes :: "mapped_file \<Rightarrow> byte list result" where
  "mutableBytes m = (if \<not> mf_writable m then Inl Error else Inr (mf_bytes m))"

definition mapped_flush :: "int option \<Rightarrow> mapped_file \<Rightarrow> unit result" where
  "mapped_flush fails m = (if \<not> mf_mapped m \<or> \<not> mf_writable m then Inr () else case fails of Some e \<Rightarrow> Inl (IoError e) | None \<Rightarrow> Inr ())"

definition unmap :: "mapped_file \<Rightarrow> mapped_file" where
  "unmap m = (if \<not> mf_mapped m then m else \<lparr>mf_mapped = False, mf_bytes = [], mf_writable = False\<rparr>)"

text \<open>What the file holds afterwards is its content cut to the bytes used.\<close>

definition unmapAndTrim :: "nat \<Rightarrow> int option \<Rightarrow> int option \<Rightarrow> int option \<Rightarrow> mapped_file \<Rightarrow> byte list result \<times> mapped_file" where
  "unmapAndTrim used flush_fails open_fails trim_fails m =
    (if \<not> mf_mapped m then (Inl Error, m)
     else if \<not> mf_writable m then (Inl Error, m)
     else case mapped_flush flush_fails m of
         Inl e \<Rightarrow> (Inl e, m)
       | Inr _ \<Rightarrow> (case (open_fails, trim_fails) of
           (Some e, _) \<Rightarrow> Inl (IoError e)
         | (None, Some e) \<Rightarrow> Inl (IoError e)
         | (None, None) \<Rightarrow> Inr (take used (mf_bytes m) @ replicate (used - length (mf_bytes m)) 0), unmap m))"

subsection \<open>Sockets\<close>

text \<open>The calls that make a socket, in order; each gives its error number or nothing. A host is an IPv4 address or not.\<close>

fun calls :: "int option list \<Rightarrow> unit result" where
  "calls [] = Inr ()"
| "calls (None # others) = calls others"
| "calls (Some e # others) = Inl (IoError e)"

definition listenOn :: "(string \<Rightarrow> bool) \<Rightarrow> string \<Rightarrow> int option \<Rightarrow> int option \<Rightarrow> int option \<Rightarrow> int option \<Rightarrow> unit result" where
  "listenOn is_ipv4 host no_socket no_option no_bind no_listen =
    bind_r (calls [no_socket, no_option]) (\<lambda>_. if \<not> is_ipv4 host then Inl Error else calls [no_bind, no_listen])"

definition connectTo :: "(string \<Rightarrow> bool) \<Rightarrow> string \<Rightarrow> int option \<Rightarrow> int option \<Rightarrow> unit result" where
  "connectTo is_ipv4 host no_socket no_connect =
    bind_r (calls [no_socket]) (\<lambda>_. if \<not> is_ipv4 host then Inl Error else calls [no_connect])"

text \<open>\<^verbatim>\<open>EBADF\<close>, \<^verbatim>\<open>EINVAL\<close>, \<^verbatim>\<open>ECONNABORTED\<close> and \<^verbatim>\<open>EINTR\<close> of Linux give a closed socket.\<close>

definition socket_accept :: "int + 'c \<Rightarrow> 'c option result" where
  "socket_accept r = (case r of Inr c \<Rightarrow> Inr (Some c)
    | Inl e \<Rightarrow> if e = 9 \<or> e = 22 \<or> e = 103 \<or> e = 4 then Inr None else Inl (IoError e))"

definition localPort :: "int + int \<Rightarrow> int result" where
  "localPort r = (case r of Inr port \<Rightarrow> Inr port | Inl e \<Rightarrow> Inl (IoError e))"

definition socket_close :: "bool \<Rightarrow> int option \<Rightarrow> unit result" where
  "socket_close is_open fails = (if \<not> is_open then Inr () else calls [fails])"

subsection \<open>Properties\<close>

text \<open>C33. A file handle publishes whole appends. Whatever short writes and signals the system answers with, an append
either returns the position where all its bytes begin, and what readers can see has grown by exactly these
bytes; or it fails, or has not returned, and readers see what they saw, whatever part of the bytes reached
the file. A read of what can be seen gives these bytes, cut at the end of the file.\<close>

theorem append_publishes_whole:
  assumes "handle_ok h" "file_append bytes evs h = (r, h')"
  shows "handle_ok h' \<and>
    (case r of Some (Inr position) \<Rightarrow> position = length (visible h) \<and> visible h' = visible h @ bytes | _ \<Rightarrow> visible h' = visible h) \<and>
    (\<forall>position wanted evs' found. position + wanted \<le> length (visible h) \<longrightarrow> readAt position wanted evs' h' = Some (Inr found) \<longrightarrow>
      found = take wanted (drop position (visible h)))"
proof -
  obtain landed outcome others where w: "writeAll bytes evs = (landed, outcome, others)" by (rule prod_cases3)
  note took = writeAll_sent [OF w]
  let ?n = "fh_writePosition h"
  have ok: "?n \<le> length (fh_content h)" using assms(1) by (simp add: handle_ok_def)
  have content: "fh_content h' = overwrite ?n landed (fh_content h)"
    using assms(2) w by (auto simp: file_append_def Let_def split: write_outcome.splits)
  have longer: "?n + length landed \<le> length (fh_content h')" unfolding content using ok by (simp add: overwrite_def)
  have pos: "fh_writePosition h' = (if outcome = Sent then ?n + length bytes else ?n)"
    using assms(2) w by (auto simp: file_append_def Let_def split: write_outcome.splits)
  have front: "take ?n (fh_content h') = visible h" unfolding content visible_def by (rule take_overwrite [OF ok])
  have "handle_ok h'" using longer pos took by (auto simp: handle_ok_def)
  moreover have "visible h' = visible h @ bytes" if "outcome = Sent"
    using that took pos ok content by (simp add: visible_def overwrite_def)
  moreover have "visible h' = visible h" if "outcome \<noteq> Sent" using that pos front by (simp add: visible_def)
  moreover have "found = take wanted (drop position (visible h))"
    if "position + wanted \<le> length (visible h)" "readAt position wanted evs' h' = Some (Inr found)" for position wanted evs' found
  proof -
    obtain read ended where run: "pread_loop (fh_content h') position wanted evs' = (read, ended)" by (rule prod.exhaust)
    have "ended = Sent" "read = found" using that(2) run by (cases ended; simp add: readAt_def)+
    then have "found = take wanted (drop position (fh_content h'))" using pread_loop_reads [OF run] by simp
    moreover have "wanted \<le> ?n - position" using that(1) ok by (simp add: visible_def)
    ultimately show ?thesis unfolding front [symmetric] by (simp add: drop_take min_absorb1)
  qed
  moreover have "r = (case outcome of Sent \<Rightarrow> Some (Inr (length (visible h))) | Threw e \<Rightarrow> Some (Inl e) | Blocked \<Rightarrow> None)"
    using assms(2) w ok by (cases outcome) (simp_all add: file_append_def Let_def visible_def)
  ultimately show ?thesis by (cases outcome) simp_all
qed

text \<open>Three bytes behind two others, written in two pieces with a signal between them; and a write that breaks off.\<close>

theorem append_publishes_whole_witness:
  "\<exists>h1 h2. file_append [3, 4, 5] [Took 1, Signal, Took 7] \<lparr>fh_content = [1, 2], fh_writePosition = 2, fh_isOpen = True\<rparr> = (Some (Inr 2), h1) \<and>
    visible h1 = [1, 2, 3, 4, 5] \<and> readAt 0 2 [Took 1, Took 1] h1 = Some (Inr [1, 2]) \<and>
    file_append [6, 7] [Took 1, Broken 5] h1 = (Some (Inl (IoError 5)), h2) \<and> visible h2 = visible h1 \<and> fh_content h2 = [1, 2, 3, 4, 5, 6]"
proof -
  let ?h = "\<lparr>fh_content = [1, 2], fh_writePosition = 2, fh_isOpen = True\<rparr>"
  obtain h1 where h1: "file_append [3, 4, 5] [Took 1, Signal, Took 7] ?h = (Some (Inr 2), h1)" "readAt 0 2 [Took 1, Took 1] h1 = Some (Inr [1, 2])"
      "\<exists>h2. file_append [6, 7] [Took 1, Broken 5] h1 = (Some (Inl (IoError 5)), h2) \<and> fh_content h2 = [1, 2, 3, 4, 5, 6]"
    by (simp add: file_append_def overwrite_def readAt_def eval_nat_numeral)
  then obtain h2 where h2: "file_append [6, 7] [Took 1, Broken 5] h1 = (Some (Inl (IoError 5)), h2)" "fh_content h2 = [1, 2, 3, 4, 5, 6]" by blast
  have "handle_ok ?h" by (simp add: handle_ok_def)
  from append_publishes_whole [OF this h1(1)] have ok: "handle_ok h1" "visible h1 = [1, 2, 3, 4, 5]" by (simp_all add: visible_def)
  from append_publishes_whole [OF ok(1) h2(1)] have "visible h2 = visible h1" by simp
  with h1(1,2) h2 ok(2) show ?thesis by blast
qed

end
