(* ===== verification/Spec2Isabelle.thy ===== *)
theory Spec2Isabelle
  imports Cleaner_Schedule Broker_History Replay_End Consumer_Rounds Shared_Out Cli_Produce Cli_Group Programs Acceptor Files
begin

text \<open>
  A development of DariyaKyu, a commit-log broker in C++: clients produce batches of records to partitions of
  topics and fetch them by offset; members of a consumer group share out partitions and commit how far
  they read; committed positions are records of a compacted topic, \<^verbatim>\<open>__offsets\<close>.

  \<^bold>\<open>The parts, from the bytes up.\<close>

  \<^item> \<^theory_text>\<open>Prelude\<close>, \<^theory_text>\<open>Sorted_Map\<close>: results (\<open>error + 'a\<close>, every exception a value), bytes, machine integers,
    sorted association lists for \<^verbatim>\<open>std::map\<close>, and the codec and table locales the components are instances of.
  \<^item> \<^theory_text>\<open>Error_Codes\<close>, \<^theory_text>\<open>Checksum\<close>, \<^theory_text>\<open>Varint\<close>, \<^theory_text>\<open>Buffer\<close> (\<^verbatim>\<open>src/common\<close>): the CRC-32C table equals division by
    the polynomial; varints and buffer primitives are inverse and bounded.
  \<^item> \<^theory_text>\<open>Record_Batch\<close>, \<^theory_text>\<open>Offset_Index\<close>, \<^theory_text>\<open>Segment\<close>, \<^theory_text>\<open>Partition_Meta\<close>, \<^theory_text>\<open>Naming\<close>, \<^theory_text>\<open>Partition_Log\<close>, \<^theory_text>\<open>Log_Manager\<close>
    (\<^verbatim>\<open>src/storage\<close>): batches and their checksum, sparse index, active and sealed segments with crash recovery, the
    partition log with its ends, retention, truncation and graveyard, and the manager of all partitions with its
    data directory. A file is the list of its bytes; a crash cuts the tail of the active segment and loses the index.
  \<^item> \<^theory_text>\<open>Key_Offset_Map\<close>, \<^theory_text>\<open>Log_Cleaner\<close>, \<^theory_text>\<open>Cleaner_Pass\<close>, \<^theory_text>\<open>Cleaner_Schedule\<close> (\<^verbatim>\<open>storage/key_offset_map\<close>,
    \<^verbatim>\<open>storage/log_cleaner\<close>): compaction of one segment, of a log, and the choice of the next partition. Values of keys
    are kept; what a pass drops is obsolete.
  \<^item> \<^theory_text>\<open>Wire\<close>, \<^theory_text>\<open>Data_Apis\<close>, \<^theory_text>\<open>Group_Apis\<close>, \<^theory_text>\<open>Frame\<close>, \<^theory_text>\<open>Response\<close> (\<^verbatim>\<open>src/protocol\<close>): every message with encoder and
    decoder as an instance of the locale \<open>element\<close>, frames over a socket that is a list of receive and transmit
    events, and responses of buffers and file ranges.
  \<^item> \<^theory_text>\<open>Group_Coordinator\<close>, \<^theory_text>\<open>Group_Rebalance\<close> (\<^verbatim>\<open>group/group_coordinator\<close>): the state machine of a group, its
    reachable states, and runs of a whole rebalance.
  \<^item> \<^theory_text>\<open>Commit_Record\<close>, \<^theory_text>\<open>Offset_Store\<close>, \<^theory_text>\<open>Offset_Replay\<close>, \<^theory_text>\<open>Offset_Recovery\<close>, \<^theory_text>\<open>Replay_End\<close> (\<^verbatim>\<open>src/group\<close>): commits
    as records, the map of positions, and its reconstruction from the log after a crash.
  \<^item> \<^theory_text>\<open>Handlers\<close>, \<^theory_text>\<open>Connection\<close>, \<^theory_text>\<open>Broker_Produce\<close>, \<^theory_text>\<open>Broker_Positions\<close>, \<^theory_text>\<open>Broker_Life\<close> (\<^verbatim>\<open>src/server\<close>): the twelve
    handlers as functions from a request context and a broker to a response and a broker, the serving loop, and the
    broker from its start through requests, sweeps, maintenance and restarts.
  \<^item> \<^theory_text>\<open>Offset_Upkeep\<close>, \<^theory_text>\<open>Broker_History\<close>: the committed positions through all of that and compaction. Maintenance never
    takes a record of the offsets topic, and compaction without a hole keeps the last commit of every key, so that a
    restart replays the positions. Left out of this history: a client that produces to the offsets topic itself, and
    compaction that leaves a hole between two of its segments (see \<open>replay_stops_at_hole\<close>).
  \<^item> \<^theory_text>\<open>Assignor\<close>, \<^theory_text>\<open>Client\<close>, \<^theory_text>\<open>Group_Consumer\<close>, \<^theory_text>\<open>Consumer_Rounds\<close>, \<^theory_text>\<open>Shared_Out\<close> (\<^verbatim>\<open>src/cli\<close>): the strategies
    that share partitions out, the client's call over a socket, the member of a group from the client's side, its
    requests answered by the broker's own serving loop, and what leader, coordinator and members do together.
  \<^item> \<^theory_text>\<open>Acceptor\<close> (\<^verbatim>\<open>server/acceptor\<close>): the accept thread, the threads of the connections and the one that stops them
    as steps that interleave, each step one access to what the threads share.
  \<^item> \<^theory_text>\<open>Files\<close> (\<^verbatim>\<open>common/file_handle\<close>, \<^verbatim>\<open>common/mapped_file\<close>, \<^verbatim>\<open>protocol/socket\<close>): what they add to the system calls, whose
    outcomes are arguments; an append that is cut short is not seen by readers.
  \<^item> \<^theory_text>\<open>Terminal\<close>, \<^theory_text>\<open>Cli\<close>, \<^theory_text>\<open>Dump\<close>, \<^theory_text>\<open>Programs\<close> (\<^verbatim>\<open>apps\<close>, \<^verbatim>\<open>cli/dump\<close>): the three programs. What a command
    prints is a value, arguments are parsed as the library does, a loop that may poll for ever is a partial function.
    \<^theory_text>\<open>Cli_Lines\<close>, \<^theory_text>\<open>Cli_Consume\<close>, \<^theory_text>\<open>Cli_Produce\<close> and \<^theory_text>\<open>Cli_Group\<close> run producer, consumer and group member against
    the broker.

  \<^bold>\<open>How components meet.\<close> A component keeps its state in one record; an operation takes it and returns the
  new one with a result. Interfaces are locales (codecs, tables, logs under compaction, histories that keep an
  invariant) interpreted where the component is defined, so the properties of the server rest on the facts of the
  storage and group components and never on their bodies.

  \<^bold>\<open>What the lemmas show.\<close> Storage: recovery after a crash, reads through the index, append, truncation and retention
  against the list of batches a log holds. Compaction: values, order and uniqueness of keys. Protocol: round
  trips and exact lengths, over any splitting of the bytes. Groups: the invariant of reachable coordinators, one
  assignment per generation, the liveness of a rebalance. Server: an acknowledged batch is fetched, an
  acknowledged commit survives a crash (as long as only commits write to the offsets topic and compaction leaves no hole
  in it), a stale member is fenced, a connection is a conversation, and a broker
  comes back. Clients: a committed position is handed on over the wire, and a generation never gives a partition to
  two members. Programs: what the consumer shows is the log, lines typed come back, and a group member commits what
  it showed. Acceptor: what holds in every interleaving, and that stopping ends. Files: an append is seen whole or not
  at all. Where the code does not do what it means to do, the property states what it does:
  \<open>replay_stops_at_hole\<close>, \<open>restart_reissues_identity\<close>, \<open>undecodable_batch_stops_cleaner\<close>, \<open>rebalance_fails_commit\<close>,
  \<open>consumer_stops_at_hole\<close>, \<open>acceptor_stop_ends\<close>.

  \<^bold>\<open>Bounds and fuel.\<close> No loop has fuel: loops over bytes are functions with a measure; replay is a partial function
  (it can loop for ever on damaged logs), and \<open>replay_ends\<close> shows that it ends on well-formed ones; the polling loops of
  the programs are one partial function, and what is proved of them is that they return, in so many rounds. Integers that can
  wrap are words or carry their range as a hypothesis (\<open>in_i32\<close>, \<open>in_i64\<close>, room for the offsets to come).

  \<^bold>\<open>Not modelled.\<close> Mutexes and condition variables: an operation that holds its lock is one step, and steps
  interleave; threads are steps in \<^theory_text>\<open>Acceptor\<close> and nowhere else. The kernel:
  \<^theory_text>\<open>Files\<close> takes the outcomes of its calls, and the storage theories take a file as its bytes. Destructors and moves of
  handles. The clock is an argument, and so are the hash of a group name, the connection a program makes and the texts
  of exceptions. Signals: the broker program runs until it stops.
\<close>

end
